(* ===== verification/Dlsm_Prelude.thy ===== *)
theory Dlsm_Prelude
  imports Main "HOL-Library.Word"
begin

text \<open>
  Shared vocabulary of the development: the names of the C integer types, the status
  codes of \<^verbatim>\<open>libs/core/include/dlsm/core.h\<close>, the fact collections the components extend, and
  the facts on unsigned 64-bit arithmetic, on updates of indexed families and on lists
  that several components use.
\<close>

section \<open>Machine types\<close>

type_synonym u8 = "8 word"
type_synonym u32 = "32 word"
type_synonym u64 = "64 word"

text \<open>An address of an object; a C pointer is an \<open>addr option\<close>, with \<open>None\<close> for \<open>NULL\<close>.\<close>

type_synonym addr = nat

text \<open>\<open>dlsm_status\<close> is an \<open>int32_t\<close> that only ever holds one of the enumerated codes.\<close>

type_synonym dlsm_status = int

abbreviation DLSM_OK :: dlsm_status where "DLSM_OK \<equiv> 0"

abbreviation UINT64_MAX :: u64 where "UINT64_MAX \<equiv> - 1"
abbreviation UINT32_MAX :: u32 where "UINT32_MAX \<equiv> - 1"

section \<open>Fact collections\<close>

named_theorems rep_intros \<open>representation facts: how an operation changes the abstract value\<close>
named_theorems frame_simps \<open>frame facts: what an operation leaves unchanged\<close>
named_theorems inv_simps \<open>invariants of a component and the definitions they unfold to\<close>

section \<open>Unsigned 64-bit arithmetic\<close>

lemma unat_UINT64_MAX [simp]: "unat UINT64_MAX = 2 ^ 64 - 1"
  by (simp add: unsigned_minus_1_eq_mask mask_eq_exp_minus_1)

lemma unat_UINT32_MAX [simp]: "unat UINT32_MAX = 2 ^ 32 - 1"
  by (simp add: unsigned_minus_1_eq_mask mask_eq_exp_minus_1)

lemma unat_UINT64_MAX_diff [simp]: "unat (UINT64_MAX - x) = 2 ^ 64 - 1 - unat x"
  for x :: u64
proof -
  have "x \<le> UINT64_MAX" by simp
  then show ?thesis by (simp add: unat_sub)
qed

lemma u64_le_max_diff_iff: "y \<le> UINT64_MAX - x \<longleftrightarrow> unat x + unat y < 2 ^ 64"
  for x y :: u64
proof -
  have "unat x < 2 ^ 64" using unsigned_less [of x] by simp
  then show ?thesis by (simp add: word_le_nat_alt) linarith
qed

lemma u64_max_diff_less_iff: "UINT64_MAX - x < y \<longleftrightarrow> 2 ^ 64 \<le> unat x + unat y"
  for x y :: u64
  using u64_le_max_diff_iff [of y x] by (simp add: not_le [symmetric])

lemma unat_add_no_overflow: "unat x + unat y < 2 ^ 64 \<Longrightarrow> unat (x + y) = unat x + unat y"
  for x y :: u64
  by (simp add: unat_word_ariths)

lemma uint_add_no_overflow: "uint x + uint y < 2 ^ 64 \<Longrightarrow> uint (x + y) = uint x + uint y"
  for x y :: u64
  by (simp add: uint_word_ariths)

lemma uint_sub_no_borrow: "uint y \<le> uint x \<Longrightarrow> uint (x - y) = uint x - uint y"
  for x y :: u64
  by (simp add: uint_sub_if')

lemma u64_max_diff_less_uint: "UINT64_MAX - x < y \<longleftrightarrow> 2 ^ 64 \<le> uint x + uint y"
  for x y :: u64
proof -
  have m: "uint UINT64_MAX = 2 ^ 64 - 1" by (simp add: unsigned_minus_1_eq_mask mask_eq_exp_minus_1)
  have "uint x < 2 ^ 64" using uint_lt2p [of x] by simp
  with m have "uint (UINT64_MAX - x) = 2 ^ 64 - 1 - uint x" by (subst uint_sub_no_borrow) auto
  then show ?thesis by (auto simp: word_less_def)
qed

lemma u64_add_overflow_less: "unat x < 2 ^ 64"
  for x :: u64
  using unsigned_less [of x] by simp

lemma unat_pred: "c \<noteq> 0 \<Longrightarrow> Suc (unat (c - 1)) = unat c"
  for c :: u64
proof -
  assume c: "c \<noteq> 0"
  then have "unat (c - 1) = unat c - 1" "0 < unat c" by (simp_all add: unat_minus_one unat_gt_0)
  then show ?thesis by linarith
qed

lemma unat_succ: "c \<noteq> UINT64_MAX \<Longrightarrow> unat (c + 1) = Suc (unat c)"
  for c :: u64
proof -
  assume "c \<noteq> UINT64_MAX"
  then have "unat c \<noteq> unat UINT64_MAX" by (metis word_unat_eq_iff)
  with u64_add_overflow_less [of c] have "unat c + unat (1 :: u64) < 2 ^ 64" by simp
  then show ?thesis by (simp add: unat_add_no_overflow)
qed

lemma u32_unat_less: "unat x < 2 ^ 32"
  for x :: u32
  using unsigned_less [of x] by simp

text \<open>
  The saturating sum the sources write inline as
  \<^verbatim>\<open>UINT64_MAX - a < b ? UINT64_MAX : a + b\<close>.
\<close>

definition sat_add :: "u64 \<Rightarrow> u64 \<Rightarrow> u64" where
  "sat_add a b = (if UINT64_MAX - a < b then UINT64_MAX else a + b)"

lemma unat_sat_add: "unat (sat_add a b) = min (2 ^ 64 - 1) (unat a + unat b)"
  by (auto simp: sat_add_def u64_max_diff_less_iff unat_add_no_overflow not_le)

lemma sat_add_ge: "a \<le> sat_add a b"
  using u64_add_overflow_less [of a] by (simp add: word_le_nat_alt unat_sat_add)

section \<open>Lists and families\<close>

lemma comp_upd: "f \<circ> (m(a := v)) = (f \<circ> m)(a := f v)"
  by auto

lemma ex_upd: "(\<exists>u. P ((m(t := v)) u)) \<longleftrightarrow> P v \<or> (\<exists>u. u \<noteq> t \<and> P (m u))"
  by (metis fun_upd_apply)

lemma last_butlast_distinct: "distinct xs \<Longrightarrow> xs \<noteq> [] \<Longrightarrow> last xs \<notin> set (butlast xs)"
  by (metis append_butlast_last_id distinct_append disjoint_iff list.set_intros(1))

lemma remove1_notin_id: "a \<notin> set xs \<Longrightarrow> remove1 a xs = xs"
  by (induction xs) auto

end
