(* ===== verification/Intrusive_List.thy ===== *)
theory Intrusive_List
  imports Dlsm_Prelude
begin

text \<open>
  Intrusive singly linked lists. Three places of the sources keep a FIFO as a head pointer,
  a tail pointer and a \<open>next\<close> field inside the queued objects: the waiter queues of
  \<^verbatim>\<open>libs/sync\<close>, the run queues of \<^verbatim>\<open>libs/greenthread\<close> and its list of all tasks. This theory
  holds what they share: list segments over a \<open>next\<close> map, the walks the C loops perform
  (the loops may not end on a cyclic chain, so they are partial functions and their
  termination is a lemma), the locale \<open>linked_store\<close> of stores with such a field, and the
  locale \<open>fifo_queue\<close> of the queue contract the clients rely on.
\<close>

section \<open>List segments\<close>

fun lseg :: "('a \<Rightarrow> 'a option) \<Rightarrow> 'a option \<Rightarrow> 'a list \<Rightarrow> 'a option \<Rightarrow> bool" where
  "lseg nx p [] r \<longleftrightarrow> p = r"
| "lseg nx p (a # as) r \<longleftrightarrow> p = Some a \<and> lseg nx (nx a) as r"

lemma lseg_append: "lseg nx p (xs @ ys) r \<longleftrightarrow> (\<exists>m. lseg nx p xs m \<and> lseg nx m ys r)"
  by (induction xs arbitrary: p) auto

lemma lseg_upd_notin [simp]: "a \<notin> set xs \<Longrightarrow> lseg (nx(a := v)) p xs r = lseg nx p xs r"
  by (induction xs arbitrary: p) auto

lemma lseg_cong: "(\<And>a. a \<in> set xs \<Longrightarrow> nx a = nx' a) \<Longrightarrow> lseg nx p xs r = lseg nx' p xs r"
  by (induction xs arbitrary: p) auto

lemma lseg_unique: "lseg nx p xs None \<Longrightarrow> lseg nx p ys None \<Longrightarrow> xs = ys"
proof (induction xs arbitrary: p ys)
  case Nil
  then show ?case by (cases ys) auto
next
  case (Cons x xs)
  then show ?case by (cases ys) auto
qed

lemma lseg_head: "lseg nx p xs None \<Longrightarrow> p = (case xs of [] \<Rightarrow> None | x # _ \<Rightarrow> Some x)"
  by (cases xs) auto

text \<open>A chain that ends in \<open>NULL\<close> has no cycle.\<close>

lemma lseg_distinct: "lseg nx p xs None \<Longrightarrow> distinct xs"
proof (induction xs arbitrary: p)
  case Nil
  then show ?case by simp
next
  case (Cons a xs)
  have "a \<notin> set xs"
  proof
    assume "a \<in> set xs"
    then obtain ys zs where xs: "xs = ys @ a # zs" by (auto dest: split_list)
    with Cons.prems have "lseg nx (nx a) zs None" and "lseg nx (nx a) xs None"
      by (auto simp: lseg_append)
    then have "zs = xs" by (rule lseg_unique)
    with xs show False by simp
  qed
  with Cons show ?case by auto
qed

section \<open>The walks of the C loops\<close>

text \<open>\<^verbatim>\<open>for (node = head; node; node = node->next)\<close>: the nodes in order, if the walk ends.\<close>

partial_function (option) walk :: "('a \<Rightarrow> 'a option) \<Rightarrow> 'a option \<Rightarrow> 'a list option" where
  [code]: "walk nx p = (case p of None \<Rightarrow> Some []
     | Some a \<Rightarrow> Option.bind (walk nx (nx a)) (\<lambda>as. Some (a # as)))"

lemma walk_lseg: "lseg nx p xs None \<Longrightarrow> walk nx p = Some xs"
proof (induction xs arbitrary: p)
  case Nil
  then show ?case by (simp add: walk.simps [of nx None])
next
  case (Cons a xs)
  then show ?case by (simp add: walk.simps [of nx "Some a"])
qed

text \<open>
  \<^verbatim>\<open>link = &head; while (*link && *link != node) link = &(*link)->next;\<close>
  A pointer to a link is the head field or the \<open>next\<close> field of some node. The result is
  the link that holds \<open>node\<close> or holds \<open>NULL\<close>.
\<close>

datatype 'a link = Head_link | Next_link 'a

fun deref_link :: "('a \<Rightarrow> 'a option) \<Rightarrow> 'a option \<Rightarrow> 'a link \<Rightarrow> 'a option" where
  "deref_link nx h Head_link = h"
| "deref_link nx h (Next_link a) = nx a"

partial_function (option) seek_link ::
  "('a \<Rightarrow> 'a option) \<Rightarrow> 'a option \<Rightarrow> 'a \<Rightarrow> 'a link \<Rightarrow> 'a link option" where
  [code]: "seek_link nx h node l = (case deref_link nx h l of None \<Rightarrow> Some l
     | Some a \<Rightarrow> if a = node then Some l else seek_link nx h node (Next_link a))"

text \<open>\<^verbatim>\<open>while (tail && tail->next) tail = tail->next;\<close>\<close>

partial_function (option) seek_last :: "('a \<Rightarrow> 'a option) \<Rightarrow> 'a option \<Rightarrow> 'a option option" where
  [code]: "seek_last nx p = (case p of None \<Rightarrow> Some None
     | Some a \<Rightarrow> (case nx a of None \<Rightarrow> Some (Some a) | Some b \<Rightarrow> seek_last nx (Some b)))"

abbreviation last_opt :: "'a list \<Rightarrow> 'a option" where
  "last_opt xs \<equiv> (if xs = [] then None else Some (last xs))"

lemma seek_last_lseg: "lseg nx p xs None \<Longrightarrow> seek_last nx p = Some (last_opt xs)"
proof (induction xs arbitrary: p)
  case Nil
  then show ?case by (simp add: seek_last.simps [of nx None])
next
  case (Cons a xs)
  then have p: "p = Some a" and s: "lseg nx (nx a) xs None" by auto
  show ?case
  proof (cases xs)
    case Nil
    with p s show ?thesis by (simp add: seek_last.simps [of nx "Some a"])
  next
    case (Cons b ys)
    with s have "nx a = Some b" by simp
    with p Cons.IH [OF s] Cons show ?thesis by (simp add: seek_last.simps [of nx "Some a"])
  qed
qed

text \<open>Starting behind \<open>us\<close>, the walk stops at the link in front of the node, or at the end.\<close>

abbreviation link_after :: "'a list \<Rightarrow> 'a link" where
  "link_after us \<equiv> (if us = [] then Head_link else Next_link (last us))"

lemma deref_link_after:
  "lseg nx h (us @ xs) None \<Longrightarrow>
     deref_link nx h (link_after us) = (case xs of [] \<Rightarrow> None | x # _ \<Rightarrow> Some x)"
proof (cases us rule: rev_cases)
  case Nil
  then show "lseg nx h (us @ xs) None \<Longrightarrow> ?thesis" by (auto dest: lseg_head)
next
  case (snoc vs v)
  then show "lseg nx h (us @ xs) None \<Longrightarrow> ?thesis"
    by (auto simp: lseg_append dest: lseg_head)
qed

lemma seek_link_found:
  "lseg nx h (us @ vs @ node # ws) None \<Longrightarrow> node \<notin> set vs \<Longrightarrow>
     seek_link nx h node (link_after us) = Some (link_after (us @ vs))"
proof (induction vs arbitrary: us)
  case Nil
  then show ?case
    using deref_link_after [of nx h us "node # ws"]
    by (simp add: seek_link.simps [of nx h node "link_after us"])
next
  case (Cons v vs)
  have "seek_link nx h node (link_after (us @ [v])) = Some (link_after ((us @ [v]) @ vs))"
    using Cons.prems by (intro Cons.IH) auto
  then show ?case
    using Cons.prems deref_link_after [of nx h us "v # vs @ node # ws"]
    by (auto simp: seek_link.simps [of nx h node "link_after us"])
qed

lemma seek_link_missing:
  "lseg nx h (us @ vs) None \<Longrightarrow> node \<notin> set vs \<Longrightarrow>
     seek_link nx h node (link_after us) = Some (link_after (us @ vs))"
proof (induction vs arbitrary: us)
  case Nil
  then show ?case
    using deref_link_after [of nx h us "[]"]
    by (simp add: seek_link.simps [of nx h node "link_after us"])
next
  case (Cons v vs)
  have "seek_link nx h node (link_after (us @ [v])) = Some (link_after ((us @ [v]) @ vs))"
    using Cons.prems by (intro Cons.IH) auto
  then show ?case
    using Cons.prems deref_link_after [of nx h us "v # vs"]
    by (auto simp: seek_link.simps [of nx h node "link_after us"])
qed

section \<open>Queues with a head and a tail pointer\<close>

text \<open>\<open>queue_rep nx h t xs\<close>: from \<open>h\<close> the chain visits exactly \<open>xs\<close>, and \<open>t\<close> is its last node.\<close>

definition queue_rep :: "('a \<Rightarrow> 'a option) \<Rightarrow> 'a option \<Rightarrow> 'a option \<Rightarrow> 'a list \<Rightarrow> bool" where
  "queue_rep nx h t xs \<longleftrightarrow> lseg nx h xs None \<and> t = last_opt xs"

lemma queue_rep_empty: "queue_rep nx None None []"
  by (simp add: queue_rep_def)

lemma queue_rep_distinct: "queue_rep nx h t xs \<Longrightarrow> distinct xs"
  by (auto simp: queue_rep_def dest: lseg_distinct)

lemma queue_rep_head: "queue_rep nx h t xs \<Longrightarrow> h = (case xs of [] \<Rightarrow> None | x # _ \<Rightarrow> Some x)"
  by (auto simp: queue_rep_def dest: lseg_head)

lemma queue_rep_tail: "queue_rep nx h t xs \<Longrightarrow> t = last_opt xs"
  by (simp add: queue_rep_def)

lemma queue_rep_unique: "queue_rep nx h t xs \<Longrightarrow> queue_rep nx h t ys \<Longrightarrow> xs = ys"
  by (auto simp: queue_rep_def dest: lseg_unique)

lemma queue_rep_upd_notin:
  "a \<notin> set xs \<Longrightarrow> queue_rep (nx(a := v)) h t xs = queue_rep nx h t xs"
  by (simp add: queue_rep_def)

lemma queue_rep_cong:
  "(\<And>a. a \<in> set xs \<Longrightarrow> nx a = nx' a) \<Longrightarrow> queue_rep nx h t xs = queue_rep nx' h t xs"
  unfolding queue_rep_def using lseg_cong [of xs nx nx'] by metis

lemma queue_rep_push:
  assumes rep: "queue_rep nx h t xs" and fresh: "a \<notin> set xs"
  shows "case t of
      None \<Rightarrow> queue_rep (nx(a := None)) (Some a) (Some a) (xs @ [a])
    | Some l \<Rightarrow> queue_rep (nx(a := None, l := Some a)) h (Some a) (xs @ [a])"
proof (cases xs rule: rev_cases)
  case Nil
  with rep show ?thesis by (simp add: queue_rep_def)
next
  case (snoc ys y)
  with rep have t: "t = Some y" and d: "distinct (ys @ [y])"
    using queue_rep_distinct [OF rep] by (auto simp: queue_rep_def)
  from snoc rep have "lseg nx h ys (Some y)" by (auto simp: queue_rep_def lseg_append)
  with fresh d snoc t show ?thesis by (auto simp: queue_rep_def lseg_append)
qed

lemma queue_rep_pop:
  assumes "queue_rep nx h t (x # xs)"
  shows "h = Some x"
    and "queue_rep (nx(x := None)) (nx x) (if nx x = None then None else t) xs"
proof -
  from assms have s: "lseg nx (nx x) xs None" and d: "x \<notin> set xs"
    using queue_rep_distinct [OF assms] by (auto simp: queue_rep_def)
  then have "nx x = None \<longleftrightarrow> xs = []" by (auto dest: lseg_head split: list.splits)
  with assms s d show "queue_rep (nx(x := None)) (nx x) (if nx x = None then None else t) xs"
    by (auto simp: queue_rep_def)
  from assms show "h = Some x" by (simp add: queue_rep_def)
qed

text \<open>Storing through the link found by \<^const>\<open>seek_link\<close> unlinks the node.\<close>

lemma lseg_unlink:
  assumes "lseg nx h (us @ node # ws) None"
  shows "us = [] \<Longrightarrow> lseg (nx(node := None)) (nx node) ws None"
    and "us \<noteq> [] \<Longrightarrow> lseg (nx(last us := nx node, node := None)) h (us @ ws) None"
proof -
  have d: "distinct (us @ node # ws)" using assms by (rule lseg_distinct)
  show "us = [] \<Longrightarrow> lseg (nx(node := None)) (nx node) ws None"
    using assms d by auto
  show "us \<noteq> [] \<Longrightarrow> lseg (nx(last us := nx node, node := None)) h (us @ ws) None"
  proof (cases us rule: rev_cases)
    case (snoc vs v)
    with assms have "lseg nx h vs (Some v)" "lseg nx (nx node) ws None"
      by (auto simp: lseg_append)
    with d snoc show ?thesis by (auto simp: lseg_append)
  qed simp
qed

section \<open>Stores with a next field\<close>

locale linked_store =
  fixes nxt :: "'s \<Rightarrow> 'a \<Rightarrow> 'a option"
    and set_nxt :: "'a \<Rightarrow> 'a option \<Rightarrow> 's \<Rightarrow> 's"
  assumes nxt_set: "nxt (set_nxt a v s) = (nxt s)(a := v)"
begin

lemma push_empty:
  "queue_rep (nxt s) h None xs \<Longrightarrow> a \<notin> set xs \<Longrightarrow>
     queue_rep (nxt (set_nxt a None s)) (Some a) (Some a) (xs @ [a])"
  using queue_rep_push [of "nxt s" h None xs a] by (simp add: nxt_set)

lemma push_nonempty:
  "queue_rep (nxt s) h (Some l) xs \<Longrightarrow> a \<notin> set xs \<Longrightarrow>
     queue_rep (nxt (set_nxt l (Some a) (set_nxt a None s))) h (Some a) (xs @ [a])"
  using queue_rep_push [of "nxt s" h "Some l" xs a] by (simp add: nxt_set)

lemma pop_first:
  "queue_rep (nxt s) h t (x # xs) \<Longrightarrow>
     queue_rep (nxt (set_nxt x None s)) (nxt s x) (if nxt s x = None then None else t) xs"
  using queue_rep_pop [of "nxt s" h t x xs] by (simp add: nxt_set)

lemma store_other: "a \<notin> set xs \<Longrightarrow> queue_rep (nxt (set_nxt a v s)) h t xs = queue_rep (nxt s) h t xs"
  by (simp add: nxt_set queue_rep_upd_notin)

end

section \<open>The FIFO contract\<close>

text \<open>
  What a client of a FIFO may rely on: \<open>push\<close> appends a node that is not queued, \<open>pop\<close>
  takes the oldest node and answers \<open>None\<close> exactly on an empty queue. \<open>rep s xs\<close> says
  that the state \<open>s\<close> of queue and store represents \<open>xs\<close>.
\<close>

locale fifo_queue =
  fixes push :: "'a \<Rightarrow> 's \<Rightarrow> 's"
    and pop :: "'s \<Rightarrow> 'a option \<times> 's"
    and rep :: "'s \<Rightarrow> 'a list \<Rightarrow> bool"
  assumes rep_push: "rep s xs \<Longrightarrow> a \<notin> set xs \<Longrightarrow> rep (push a s) (xs @ [a])"
    and rep_pop_Nil: "rep s [] \<Longrightarrow> pop s = (None, s)"
    and rep_pop_Cons: "rep s (x # xs) \<Longrightarrow> fst (pop s) = Some x \<and> rep (snd (pop s)) xs"
begin

lemma rep_push_all: "rep s xs \<Longrightarrow> distinct (xs @ as) \<Longrightarrow> rep (fold push as s) (xs @ as)"
proof (induction as arbitrary: s xs)
  case Nil
  then show ?case by simp
next
  case (Cons a as)
  then have "rep (push a s) (xs @ [a])" by (intro rep_push) auto
  with Cons.prems Cons.IH [of "push a s" "xs @ [a]"] show ?case by simp
qed

primrec pop_n :: "nat \<Rightarrow> 's \<Rightarrow> 'a list \<times> 's" where
  "pop_n 0 s = ([], s)"
| "pop_n (Suc n) s = (case pop s of (None, s') \<Rightarrow> ([], s')
     | (Some a, s') \<Rightarrow> (case pop_n n s' of (as, s'') \<Rightarrow> (a # as, s'')))"

lemma pop_n_rep: "rep s xs \<Longrightarrow> fst (pop_n n s) = take n xs \<and> rep (snd (pop_n n s)) (drop n xs)"
proof (induction n arbitrary: s xs)
  case 0
  then show ?case by simp
next
  case (Suc n)
  show ?case
  proof (cases xs)
    case Nil
    with Suc.prems show ?thesis by (simp add: rep_pop_Nil)
  next
    case (Cons x ys)
    with Suc.prems rep_pop_Cons obtain s' where "pop s = (Some x, s')" "rep s' ys"
      by (metis prod.collapse)
    with Cons Suc.IH [of s' ys] show ?thesis by (auto split: prod.splits)
  qed
qed

text \<open>First in, first out: nodes come out in the order in which they went in.\<close>

lemma fifo_order:
  "rep s xs \<Longrightarrow> distinct (xs @ as) \<Longrightarrow>
     fst (pop_n (length xs + length as) (fold push as s)) = xs @ as"
  using pop_n_rep [OF rep_push_all, of s xs as "length xs + length as"] by simp

end

end
