(* ===== verification/Sync_Base.thy ===== *)
theory Sync_Base
  imports Intrusive_List
begin

text \<open>
  The data of \<^verbatim>\<open>libs/sync\<close>'s blocking primitives (\<^verbatim>\<open>libs/sync/include/dlsm/sync.h\<close>) and the
  waiter queues of \<^verbatim>\<open>libs/sync/src/gt_wait.c\<close>. All objects live in one explicit heap, so that
  an operation on a condition variable also changes its mutex, and every \<open>ops->unpark\<close> call
  is appended to a log. Waiter nodes live on the stack of the suspended caller; the model
  passes their address to the operation that suspends.
\<close>

section \<open>Status codes\<close>

abbreviation DLSM_SYNC_E_INVAL :: dlsm_status where "DLSM_SYNC_E_INVAL \<equiv> 30002"
abbreviation DLSM_SYNC_E_WAIT :: dlsm_status where "DLSM_SYNC_E_WAIT \<equiv> 30003"
abbreviation DLSM_SYNC_E_STATE :: dlsm_status where "DLSM_SYNC_E_STATE \<equiv> 30005"
abbreviation DLSM_SYNC_E_TIMEOUT :: dlsm_status where "DLSM_SYNC_E_TIMEOUT \<equiv> 30006"
abbreviation DLSM_SYNC_E_CANCELLED :: dlsm_status where "DLSM_SYNC_E_CANCELLED \<equiv> 30007"

section \<open>Data\<close>

type_synonym handle = nat

text \<open>\<open>struct gtm_node\<close> and \<open>struct wait_node\<close> have the same three fields.\<close>

record wait_node =
  wn_handle :: handle
  wn_next :: "addr option"
  wn_granted :: bool

text \<open>
  The suspend operations are function pointers. The primitives test them for \<open>NULL\<close> and
  call them: the result of \<open>current()\<close> is an argument of the operation, a call of \<open>park\<close> or
  \<open>park_until\<close> ends the operation's first half, and a call of \<open>unpark\<close> is logged.
\<close>

record dlsm_suspend_ops =
  has_current :: bool
  has_park :: bool
  has_unpark :: bool
  has_park_until :: bool

record waitq =
  wq_head :: "addr option"
  wq_tail :: "addr option"

record dlsm_gt_mutex =
  mx_ops :: "dlsm_suspend_ops option"
  mx_locked :: bool
  mx_initialized :: bool
  mx_owner :: "handle option"
  mx_q :: waitq

record dlsm_gt_condition =
  cv_ops :: "dlsm_suspend_ops option"
  cv_initialized :: bool
  cv_q :: waitq

record dlsm_gt_event =
  ev_ops :: "dlsm_suspend_ops option"
  ev_initialized :: bool
  ev_signalled :: bool
  ev_q :: waitq

record dlsm_gt_semaphore =
  sm_ops :: "dlsm_suspend_ops option"
  sm_initialized :: bool
  sm_count :: u64
  sm_q :: waitq

record dlsm_gt_wait_group =
  wg_ops :: "dlsm_suspend_ops option"
  wg_initialized :: bool
  wg_count :: u64
  wg_waiters :: u64
  wg_q :: waitq

record dlsm_gt_completion =
  cp_ops :: "dlsm_suspend_ops option"
  cp_initialized :: bool
  cp_completed :: bool
  cp_q :: waitq

type_synonym nodes = "addr \<Rightarrow> wait_node"

record sync_heap =
  sh_nodes :: nodes
  sh_mutex :: "addr \<Rightarrow> dlsm_gt_mutex"
  sh_cond :: "addr \<Rightarrow> dlsm_gt_condition"
  sh_event :: "addr \<Rightarrow> dlsm_gt_event"
  sh_sem :: "addr \<Rightarrow> dlsm_gt_semaphore"
  sh_group :: "addr \<Rightarrow> dlsm_gt_wait_group"
  sh_compl :: "addr \<Rightarrow> dlsm_gt_completion"
  sh_unparked :: "handle list"

text \<open>
  An operation returns a status, or the caller has entered its wait loop, in which it suspends
  by \<open>park\<close> (\<open>Parked\<close>) or \<open>park_until\<close> (\<open>Parked_until\<close>); the operation's second half is one turn
  of that loop.
\<close>

datatype outcome = Return dlsm_status | Parked | Parked_until u64

definition ops_valid :: "dlsm_suspend_ops option \<Rightarrow> bool" where
  "ops_valid ops = (case ops of None \<Rightarrow> False
     | Some o' \<Rightarrow> has_current o' \<and> has_park o' \<and> has_unpark o')"

abbreviation ops_park_until :: "dlsm_suspend_ops option \<Rightarrow> bool" where
  "ops_park_until ops \<equiv> (case ops of None \<Rightarrow> False | Some o' \<Rightarrow> has_park_until o')"

section \<open>Waiter queues\<close>

definition set_next :: "addr \<Rightarrow> addr option \<Rightarrow> nodes \<Rightarrow> nodes" where
  "set_next a v ns = ns(a := (ns a)\<lparr>wn_next := v\<rparr>)"

definition set_granted :: "addr \<Rightarrow> nodes \<Rightarrow> nodes" where
  "set_granted a ns = ns(a := (ns a)\<lparr>wn_granted := True\<rparr>)"

text \<open>\<^verbatim>\<open>{ .handle = handle, .next = NULL }\<close> with \<open>granted\<close> initialised to 0.\<close>

definition init_node :: "addr \<Rightarrow> handle \<Rightarrow> nodes \<Rightarrow> nodes" where
  "init_node a hdl ns = ns(a := \<lparr>wn_handle = hdl, wn_next = None, wn_granted = False\<rparr>)"

definition waitq_empty :: waitq where
  "waitq_empty = \<lparr>wq_head = None, wq_tail = None\<rparr>"

definition queue_push :: "addr \<Rightarrow> waitq \<times> nodes \<Rightarrow> waitq \<times> nodes" where
  "queue_push node = (\<lambda>(q, ns).
     let ns1 = set_next node None ns in
     case wq_tail q of
       Some l \<Rightarrow> (q\<lparr>wq_tail := Some node\<rparr>, set_next l (Some node) ns1)
     | None \<Rightarrow> (q\<lparr>wq_head := Some node, wq_tail := Some node\<rparr>, ns1))"

definition queue_pop :: "waitq \<times> nodes \<Rightarrow> addr option \<times> waitq \<times> nodes" where
  "queue_pop = (\<lambda>(q, ns).
     case wq_head q of
       None \<Rightarrow> (None, q, ns)
     | Some node \<Rightarrow>
         let h = wn_next (ns node) in
         (Some node,
          \<lparr>wq_head = h, wq_tail = (if h = None then None else wq_tail q)\<rparr>,
          set_next node None ns))"

text \<open>
  \<open>queue_remove\<close> walks the links to the node, stores the node's successor through the link
  it found and recomputes the tail when the node was last. The answer says whether the node
  was queued; the whole is \<open>None\<close> where one of the two walks does not end.
\<close>

definition store_link :: "addr link \<Rightarrow> addr option \<Rightarrow> waitq \<times> nodes \<Rightarrow> waitq \<times> nodes" where
  "store_link l v = (\<lambda>(q, ns). case l of
       Head_link \<Rightarrow> (q\<lparr>wq_head := v\<rparr>, ns)
     | Next_link a \<Rightarrow> (q, set_next a v ns))"

definition queue_remove :: "addr \<Rightarrow> waitq \<times> nodes \<Rightarrow> (bool \<times> waitq \<times> nodes) option" where
  "queue_remove node = (\<lambda>(q, ns).
     case seek_link (wn_next \<circ> ns) (wq_head q) node Head_link of
       None \<Rightarrow> None
     | Some l \<Rightarrow>
         if deref_link (wn_next \<circ> ns) (wq_head q) l = None then Some (False, q, ns)
         else (case store_link l (wn_next (ns node)) (q, ns) of (q1, ns1) \<Rightarrow>
           if wq_tail q1 = Some node then
             (case seek_last (wn_next \<circ> ns1) (wq_head q1) of
                None \<Rightarrow> None
              | Some l' \<Rightarrow> Some (True, q1\<lparr>wq_tail := l'\<rparr>, set_next node None ns1))
           else Some (True, q1, set_next node None ns1)))"

text \<open>
  \<open>grant_all_locked\<close> detaches and grants every waiter and unparks their handles in queue
  order, with or without the temporary array of handles: \<open>alloc_ok\<close> is the outcome of
  \<open>malloc\<close>. With the array all grants precede all unparks, without it they alternate; the
  final heap is the same and the lock is released in both cases. \<open>None\<close> where the walk over
  the queue does not end.
\<close>

fun grant_each :: "addr list \<Rightarrow> nodes \<Rightarrow> nodes" where
  "grant_each [] ns = ns"
| "grant_each (a # as) ns = grant_each as (set_granted a ns)"

fun grant_and_unpark_each :: "addr list \<Rightarrow> nodes \<times> handle list \<Rightarrow> nodes \<times> handle list" where
  "grant_and_unpark_each [] s = s"
| "grant_and_unpark_each (a # as) (ns, log) =
     grant_and_unpark_each as (set_granted a ns, log @ [wn_handle (ns a)])"

definition grant_all_locked ::
  "bool \<Rightarrow> waitq \<times> nodes \<times> handle list \<Rightarrow> (waitq \<times> nodes \<times> handle list) option" where
  "grant_all_locked alloc_ok = (\<lambda>(q, ns, log).
     case walk (wn_next \<circ> ns) (wq_head q) of
       None \<Rightarrow> None
     | Some waiters \<Rightarrow>
         if alloc_ok \<or> waiters = [] then
           Some (waitq_empty, grant_each waiters ns,
                 log @ map (\<lambda>a. wn_handle (ns a)) waiters)
         else (case grant_and_unpark_each waiters (ns, log) of (ns', log') \<Rightarrow>
           Some (waitq_empty, ns', log')))"

section \<open>The queues represent lists\<close>

definition waitq_rep :: "waitq \<times> nodes \<Rightarrow> addr list \<Rightarrow> bool" where
  "waitq_rep = (\<lambda>(q, ns) xs. queue_rep (wn_next \<circ> ns) (wq_head q) (wq_tail q) xs)"

lemma waitq_rep_simp:
  "waitq_rep (q, ns) xs = queue_rep (wn_next \<circ> ns) (wq_head q) (wq_tail q) xs"
  by (simp add: waitq_rep_def)

lemma next_set_next [simp]: "wn_next \<circ> set_next a v ns = (wn_next \<circ> ns)(a := v)"
  by (auto simp: set_next_def)

lemma next_set_granted [simp]: "wn_next \<circ> set_granted a ns = wn_next \<circ> ns"
  by (auto simp: set_granted_def)

lemma set_next_fields [simp, frame_simps]:
  "wn_handle (set_next a v ns b) = wn_handle (ns b)"
  "wn_granted (set_next a v ns b) = wn_granted (ns b)"
  by (auto simp: set_next_def)

lemma set_granted_fields [simp, frame_simps]:
  "wn_handle (set_granted a ns b) = wn_handle (ns b)"
  "wn_next (set_granted a ns b) = wn_next (ns b)"
  "wn_granted (set_granted a ns b) = (b = a \<or> wn_granted (ns b))"
  by (auto simp: set_granted_def)

lemma init_node_fields [simp, frame_simps]:
  "wn_handle (init_node a hdl ns b) = (if b = a then hdl else wn_handle (ns b))"
  "wn_granted (init_node a hdl ns b) = (b \<noteq> a \<and> wn_granted (ns b))"
  by (auto simp: init_node_def)

interpretation node_store: linked_store "\<lambda>ns. wn_next \<circ> ns" set_next
  by unfold_locales simp

lemma waitq_rep_empty [simp]: "waitq_rep (waitq_empty, ns) xs \<longleftrightarrow> xs = []"
  by (cases xs) (auto simp: waitq_rep_simp waitq_empty_def queue_rep_def)

lemma waitq_rep_push:
  assumes "waitq_rep s xs" and "a \<notin> set xs"
  shows "waitq_rep (queue_push a s) (xs @ [a])"
proof (cases s)
  case (Pair q ns)
  show ?thesis
  proof (cases "wq_tail q")
    case None
    with assms Pair show ?thesis
      using node_store.push_empty [of ns "wq_head q" xs a]
      by (simp add: waitq_rep_simp queue_push_def Let_def)
  next
    case (Some l)
    with assms Pair show ?thesis
      using node_store.push_nonempty [of ns "wq_head q" l xs a]
      by (simp add: waitq_rep_simp queue_push_def Let_def)
  qed
qed

lemma waitq_rep_pop_Nil: "waitq_rep s [] \<Longrightarrow> queue_pop s = (None, s)"
  by (cases s) (auto simp: waitq_rep_simp queue_pop_def queue_rep_def)

lemma waitq_rep_pop_Cons:
  assumes "waitq_rep s (x # xs)"
  shows "fst (queue_pop s) = Some x \<and> waitq_rep (snd (queue_pop s)) xs"
proof (cases s)
  case (Pair q ns)
  with assms have "wq_head q = Some x" by (auto simp: waitq_rep_simp queue_rep_def)
  with assms Pair show ?thesis
    using node_store.pop_first [of ns "wq_head q" "wq_tail q" x xs]
    by (simp add: waitq_rep_simp queue_pop_def Let_def)
qed

interpretation wait_fifo: fifo_queue queue_push queue_pop waitq_rep
  using waitq_rep_push waitq_rep_pop_Nil waitq_rep_pop_Cons by unfold_locales

lemma waitq_rep_distinct: "waitq_rep s xs \<Longrightarrow> distinct xs"
  by (cases s) (auto simp: waitq_rep_simp dest: queue_rep_distinct)

lemma waitq_rep_unique: "waitq_rep s xs \<Longrightarrow> waitq_rep s ys \<Longrightarrow> xs = ys"
  by (cases s) (auto simp: waitq_rep_simp dest: queue_rep_unique)

lemma waitq_rep_head: "waitq_rep (q, ns) xs \<Longrightarrow> wq_head q = (case xs of [] \<Rightarrow> None | x # _ \<Rightarrow> Some x)"
  by (auto simp: waitq_rep_simp dest: queue_rep_head)

lemma waitq_rep_tail: "waitq_rep (q, ns) xs \<Longrightarrow> wq_tail q = last_opt xs"
  by (auto simp: waitq_rep_simp dest: queue_rep_tail)

lemma waitq_rep_no_head: "waitq_rep (q, ns) xs \<Longrightarrow> wq_head q = None \<longleftrightarrow> xs = []"
  by (auto dest!: waitq_rep_head split: list.splits)

lemma waitq_rep_no_tail: "waitq_rep (q, ns) xs \<Longrightarrow> wq_tail q = None \<longleftrightarrow> xs = []"
  by (auto dest!: waitq_rep_tail split: if_splits)

text \<open>Nodes that are not queued, and flags and handles of any node, do not matter.\<close>

lemma waitq_rep_cong:
  "(\<And>a. a \<in> set xs \<Longrightarrow> wn_next (ns a) = wn_next (ns' a)) \<Longrightarrow>
     waitq_rep (q, ns) xs = waitq_rep (q, ns') xs"
  unfolding waitq_rep_simp by (rule queue_rep_cong) simp

lemma waitq_rep_set_granted [simp]: "waitq_rep (q, set_granted a ns) xs = waitq_rep (q, ns) xs"
  by (simp add: waitq_rep_simp)

lemma waitq_rep_init_node [simp]:
  "a \<notin> set xs \<Longrightarrow> waitq_rep (q, init_node a hdl ns) xs = waitq_rep (q, ns) xs"
  by (rule waitq_rep_cong) (auto simp: init_node_def)

section \<open>Removal from the middle\<close>

lemma queue_remove_missing:
  assumes "waitq_rep (q, ns) xs" and "node \<notin> set xs"
  shows "queue_remove node (q, ns) = Some (False, q, ns)"
proof -
  have s: "lseg (wn_next \<circ> ns) (wq_head q) ([] @ xs) None"
    using assms(1) by (simp add: waitq_rep_simp queue_rep_def)
  have "seek_link (wn_next \<circ> ns) (wq_head q) node Head_link = Some (link_after xs)"
    using seek_link_missing [OF s assms(2)] by simp
  moreover have "deref_link (wn_next \<circ> ns) (wq_head q) (link_after xs) = None"
    using deref_link_after [of "wn_next \<circ> ns" "wq_head q" xs "[]"] s by simp
  ultimately show ?thesis by (simp add: queue_remove_def)
qed

text \<open>What the store through the found link leaves, before the tail is recomputed.\<close>

lemma store_link_unlinks:
  assumes rep: "waitq_rep (q, ns) (us @ node # ws)"
    and st: "store_link (link_after us) (wn_next (ns node)) (q, ns) = (q1, ns1)"
  shows "lseg (wn_next \<circ> set_next node None ns1) (wq_head q1) (us @ ws) None"
    and "wq_tail q1 = wq_tail q"
    and "lseg (wn_next \<circ> ns1) (wq_head q1) (us @ ws) None"
proof -
  have s: "lseg (wn_next \<circ> ns) (wq_head q) (us @ node # ws) None"
    using rep by (simp add: waitq_rep_simp queue_rep_def)
  show seg: "lseg (wn_next \<circ> set_next node None ns1) (wq_head q1) (us @ ws) None"
    using st lseg_unlink [OF s] by (auto simp: store_link_def split: if_splits)
  show "wq_tail q1 = wq_tail q" using st by (auto simp: store_link_def split: if_splits)
  have "node \<notin> set (us @ ws)" using lseg_distinct [OF s] by auto
  with seg show "lseg (wn_next \<circ> ns1) (wq_head q1) (us @ ws) None" by simp
qed

lemma queue_remove_found:
  assumes rep: "waitq_rep (q, ns) (us @ node # ws)"
  shows "\<exists>q' ns'. queue_remove node (q, ns) = Some (True, q', ns') \<and>
    waitq_rep (q', ns') (us @ ws)"
proof -
  have s: "lseg (wn_next \<circ> ns) (wq_head q) ([] @ us @ node # ws) None"
    using rep by (simp add: waitq_rep_simp queue_rep_def)
  have d: "distinct (us @ node # ws)" using rep by (rule waitq_rep_distinct)
  have sk: "seek_link (wn_next \<circ> ns) (wq_head q) node Head_link = Some (link_after us)"
    using seek_link_found [OF s] d by simp
  have dr: "deref_link (wn_next \<circ> ns) (wq_head q) (link_after us) = Some node"
    using deref_link_after [of "wn_next \<circ> ns" "wq_head q" us "node # ws"] s by simp
  obtain q1 ns1 where st: "store_link (link_after us) (wn_next (ns node)) (q, ns) = (q1, ns1)"
    by (meson surj_pair)
  note unl = store_link_unlinks [OF rep st]
  have tl: "wq_tail q = Some (last (us @ node # ws))"
    using waitq_rep_tail [OF rep] by simp
  show ?thesis
  proof (cases "wq_tail q1 = Some node")
    case True
    with unl(1) seek_last_lseg [OF unl(3)] st sk dr show ?thesis
      by (simp add: queue_remove_def waitq_rep_simp queue_rep_def)
  next
    case False
    with tl unl(2) have "ws \<noteq> []" by auto
    with False unl tl st sk dr show ?thesis
      by (simp add: queue_remove_def waitq_rep_simp queue_rep_def)
  qed
qed

lemma queue_remove_rep:
  assumes "waitq_rep (q, ns) xs"
  shows "\<exists>q' ns'. queue_remove node (q, ns) = Some (node \<in> set xs, q', ns') \<and>
    waitq_rep (q', ns') (remove1 node xs)"
proof (cases "node \<in> set xs")
  case True
  then obtain us ws where xs: "xs = us @ node # ws" "node \<notin> set us"
    using split_list_first by fastforce
  with queue_remove_found [of q ns us node ws] assms show ?thesis
    by (auto simp: remove1_append)
next
  case False
  with queue_remove_missing [OF assms] assms show ?thesis by (simp add: remove1_notin_id)
qed

text \<open>Removal writes \<open>next\<close> fields only.\<close>

lemma queue_remove_fields:
  "queue_remove node (q, ns) = Some (r, q', ns') \<Longrightarrow>
     wn_handle (ns' b) = wn_handle (ns b) \<and> wn_granted (ns' b) = wn_granted (ns b)"
  by (auto simp: queue_remove_def store_link_def
      split: option.splits if_splits link.splits prod.splits)

section \<open>Granting every waiter\<close>

lemma grant_each_granted [simp]:
  "wn_granted (grant_each as ns b) = (b \<in> set as \<or> wn_granted (ns b))"
  by (induction as arbitrary: ns) auto

lemma grant_each_handle [simp]: "wn_handle (grant_each as ns b) = wn_handle (ns b)"
  by (induction as arbitrary: ns) auto

lemma grant_each_next [simp]: "wn_next (grant_each as ns b) = wn_next (ns b)"
  by (induction as arbitrary: ns) auto

lemma grant_and_unpark_each_eq:
  "grant_and_unpark_each as (ns, log) =
     (grant_each as ns, log @ map (\<lambda>a. wn_handle (ns a)) as)"
proof (induction as arbitrary: ns log)
  case Nil
  then show ?case by simp
next
  case (Cons a as)
  then show ?case by simp
qed

lemma grant_all_locked_rep:
  assumes "waitq_rep (q, ns) xs"
  shows "grant_all_locked ok (q, ns, log) =
    Some (waitq_empty, grant_each xs ns, log @ map (\<lambda>a. wn_handle (ns a)) xs)"
proof -
  have "walk (wn_next \<circ> ns) (wq_head q) = Some xs"
    using assms by (intro walk_lseg) (simp add: waitq_rep_simp queue_rep_def)
  then show ?thesis by (simp add: grant_all_locked_def grant_and_unpark_each_eq)
qed

lemma push_handles:
  "queue_push a (q, ns) = (q', ns') \<Longrightarrow>
     wn_handle (ns' b) = wn_handle (ns b) \<and> wn_granted (ns' b) = wn_granted (ns b)"
  by (auto simp: queue_push_def Let_def split: option.splits)

lemma pop_handles:
  "queue_pop (q, ns) = (r, q', ns') \<Longrightarrow>
     wn_handle (ns' b) = wn_handle (ns b) \<and> wn_granted (ns' b) = wn_granted (ns b)"
  by (auto simp: queue_pop_def Let_def split: option.splits)

end
