(* ===== verification/Sync_Mutex.thy ===== *)
theory Sync_Mutex
  imports Sync_Base
begin

text \<open>
  The green-thread mutex of \<^verbatim>\<open>libs/sync/src/gt_mutex.c\<close>. Every section the C code runs under
  the queue spinlock \<open>qlock\<close> is one atomic step of the model (the spinlock is the ticket lock
  of theory \<open>Ticket_Lock\<close>). An operation that may suspend is split where it parks: the
  first half runs up to the first \<open>park\<close>, the second half (\<open>_resume\<close>) is one turn of the wait
  loop after the caller was resumed.

  First the operations, then what each does to the abstract mutex (an owner and a FIFO of
  waiter nodes), then the interleavings of any number of tasks as a step relation, with the
  invariant that gives mutual exclusion and rules out lost waiters.
\<close>

section \<open>Operations\<close>

abbreviation upd_mutex :: "addr \<Rightarrow> (dlsm_gt_mutex \<Rightarrow> dlsm_gt_mutex) \<Rightarrow> sync_heap \<Rightarrow> sync_heap" where
  "upd_mutex p f h \<equiv> h\<lparr>sh_mutex := (sh_mutex h)(p := f (sh_mutex h p))\<rparr>"

definition dlsm_gt_mutex_init ::
  "addr option \<Rightarrow> dlsm_suspend_ops option \<Rightarrow> sync_heap \<Rightarrow> dlsm_status \<times> sync_heap" where
  "dlsm_gt_mutex_init m ops h = (case m of
     None \<Rightarrow> (DLSM_SYNC_E_INVAL, h)
   | Some p \<Rightarrow>
       if \<not> ops_valid ops then (DLSM_SYNC_E_INVAL, h)
       else (DLSM_OK, h\<lparr>sh_mutex := (sh_mutex h)(p :=
              \<lparr>mx_ops = ops, mx_locked = False, mx_initialized = True,
               mx_owner = None, mx_q = waitq_empty\<rparr>)\<rparr>))"

text \<open>Appending the caller's node \<open>w\<close> to the queue, as \<open>lock\<close> and \<open>timedlock\<close> do inline.\<close>

definition enqueue_waiter :: "addr \<Rightarrow> handle \<Rightarrow> addr \<Rightarrow> sync_heap \<Rightarrow> sync_heap" where
  "enqueue_waiter p hdl w h =
     (case queue_push w (mx_q (sh_mutex h p), init_node w hdl (sh_nodes h)) of (q, ns) \<Rightarrow>
        (upd_mutex p (\<lambda>m. m\<lparr>mx_q := q\<rparr>) h)\<lparr>sh_nodes := ns\<rparr>)"

definition take_ownership :: "addr \<Rightarrow> handle \<Rightarrow> sync_heap \<Rightarrow> sync_heap" where
  "take_ownership p hdl = upd_mutex p (\<lambda>m. m\<lparr>mx_locked := True, mx_owner := Some hdl\<rparr>)"

definition dlsm_gt_mutex_lock ::
  "addr option \<Rightarrow> handle option \<Rightarrow> addr \<Rightarrow> sync_heap \<Rightarrow> outcome \<times> sync_heap" where
  "dlsm_gt_mutex_lock m cur w h = (case m of
     None \<Rightarrow> (Return DLSM_SYNC_E_INVAL, h)
   | Some p \<Rightarrow>
       if \<not> mx_initialized (sh_mutex h p) then (Return DLSM_SYNC_E_INVAL, h)
       else (case cur of
         None \<Rightarrow> (Return DLSM_SYNC_E_INVAL, h)
       | Some hdl \<Rightarrow>
           if \<not> mx_locked (sh_mutex h p) then (Return DLSM_OK, take_ownership p hdl h)
           else if mx_owner (sh_mutex h p) = Some hdl then (Return DLSM_SYNC_E_STATE, h)
           else (Parked, enqueue_waiter p hdl w h)))"

definition dlsm_gt_mutex_lock_resume :: "addr \<Rightarrow> sync_heap \<Rightarrow> outcome \<times> sync_heap" where
  "dlsm_gt_mutex_lock_resume w h =
     (if wn_granted (sh_nodes h w) then (Return DLSM_OK, h) else (Parked, h))"

definition dlsm_gt_mutex_timedlock ::
  "addr option \<Rightarrow> u64 \<Rightarrow> handle option \<Rightarrow> addr \<Rightarrow> sync_heap \<Rightarrow> outcome \<times> sync_heap" where
  "dlsm_gt_mutex_timedlock m deadline_ns cur w h = (case m of
     None \<Rightarrow> (Return DLSM_SYNC_E_INVAL, h)
   | Some p \<Rightarrow>
       if \<not> mx_initialized (sh_mutex h p) \<or> deadline_ns = 0 then (Return DLSM_SYNC_E_INVAL, h)
       else (case cur of
         None \<Rightarrow> (Return DLSM_SYNC_E_INVAL, h)
       | Some hdl \<Rightarrow>
           if \<not> mx_locked (sh_mutex h p) then (Return DLSM_OK, take_ownership p hdl h)
           else if mx_owner (sh_mutex h p) = Some hdl then (Return DLSM_SYNC_E_STATE, h)
           else if \<not> ops_park_until (mx_ops (sh_mutex h p)) then (Return DLSM_SYNC_E_INVAL, h)
           else (Parked_until deadline_ns, enqueue_waiter p hdl w h)))"

text \<open>
  \<open>remove_waiter\<close> has the body of \<open>queue_remove\<close> on the mutex's own head and tail. The answer
  is \<open>None\<close> where a walk does not end.
\<close>

definition remove_waiter :: "addr \<Rightarrow> addr \<Rightarrow> sync_heap \<Rightarrow> (bool \<times> sync_heap) option" where
  "remove_waiter p node h =
     (case queue_remove node (mx_q (sh_mutex h p), sh_nodes h) of
        None \<Rightarrow> None
      | Some (r, q, ns) \<Rightarrow> Some (r, (upd_mutex p (\<lambda>m. m\<lparr>mx_q := q\<rparr>) h)\<lparr>sh_nodes := ns\<rparr>))"

text \<open>One turn of the loop of \<open>timedlock\<close>, with the status \<open>park_until\<close> answered.\<close>

definition dlsm_gt_mutex_timedlock_resume ::
  "addr \<Rightarrow> u64 \<Rightarrow> addr \<Rightarrow> dlsm_status \<Rightarrow> sync_heap \<Rightarrow> (outcome \<times> sync_heap) option" where
  "dlsm_gt_mutex_timedlock_resume p deadline_ns w status h =
     (if wn_granted (sh_nodes h w) then Some (Return DLSM_OK, h)
      else if status \<noteq> DLSM_OK then
        (case remove_waiter p w h of None \<Rightarrow> None | Some (_, h') \<Rightarrow> Some (Return status, h'))
      else Some (Parked_until deadline_ns, h))"

definition dlsm_gt_mutex_trylock ::
  "addr option \<Rightarrow> handle option \<Rightarrow> bool \<Rightarrow> sync_heap \<Rightarrow> dlsm_status \<times> bool option \<times> sync_heap" where
  "dlsm_gt_mutex_trylock m cur acquired h = (case m of
     None \<Rightarrow> (DLSM_SYNC_E_INVAL, None, h)
   | Some p \<Rightarrow>
       if \<not> mx_initialized (sh_mutex h p) \<or> \<not> acquired then (DLSM_SYNC_E_INVAL, None, h)
       else (case cur of
         None \<Rightarrow> (DLSM_SYNC_E_INVAL, None, h)
       | Some hdl \<Rightarrow>
           if \<not> mx_locked (sh_mutex h p) then (DLSM_OK, Some True, take_ownership p hdl h)
           else (DLSM_OK, Some False, h)))"

definition dlsm_gt_mutex_unlock ::
  "addr option \<Rightarrow> handle option \<Rightarrow> sync_heap \<Rightarrow> dlsm_status \<times> sync_heap" where
  "dlsm_gt_mutex_unlock m cur h = (case m of
     None \<Rightarrow> (DLSM_SYNC_E_INVAL, h)
   | Some p \<Rightarrow>
       let mx = sh_mutex h p in
       if \<not> mx_initialized mx then (DLSM_SYNC_E_INVAL, h)
       else (case cur of
         None \<Rightarrow> (DLSM_SYNC_E_INVAL, h)
       | Some hdl \<Rightarrow>
           if \<not> mx_locked mx \<or> mx_owner mx \<noteq> Some hdl then (DLSM_SYNC_E_STATE, h)
           else (case wq_head (mx_q mx) of
             Some w \<Rightarrow>
               let hd' = wn_next (sh_nodes h w);
                   next_owner = wn_handle (sh_nodes h w) in
               (DLSM_OK,
                (upd_mutex p (\<lambda>m. m\<lparr>mx_owner := Some next_owner,
                   mx_q := \<lparr>wq_head = hd',
                            wq_tail = (if hd' = None then None else wq_tail (mx_q mx))\<rparr>\<rparr>) h)
                \<lparr>sh_nodes := set_granted w (sh_nodes h),
                 sh_unparked := sh_unparked h @ [next_owner]\<rparr>)
           | None \<Rightarrow>
               (DLSM_OK, upd_mutex p (\<lambda>m. m\<lparr>mx_locked := False, mx_owner := None\<rparr>) h))))"

definition dlsm_gt_mutex_destroy :: "addr option \<Rightarrow> sync_heap \<Rightarrow> dlsm_status \<times> sync_heap" where
  "dlsm_gt_mutex_destroy m h = (case m of
     None \<Rightarrow> (DLSM_SYNC_E_INVAL, h)
   | Some p \<Rightarrow>
       let mx = sh_mutex h p in
       if \<not> mx_initialized mx then (DLSM_SYNC_E_INVAL, h)
       else if mx_locked mx \<or> wq_head (mx_q mx) \<noteq> None \<or> wq_tail (mx_q mx) \<noteq> None
       then (DLSM_SYNC_E_STATE, h)
       else (DLSM_OK, upd_mutex p (\<lambda>m. m\<lparr>mx_initialized := False, mx_ops := None\<rparr>) h))"

section \<open>The abstract mutex\<close>

text \<open>
  \<open>mutex_rep h p own xs\<close>: the initialised mutex at \<open>p\<close> is owned by \<open>own\<close> and its queue holds
  the nodes \<open>xs\<close>, oldest first, none of them granted; nobody waits for a free mutex.
\<close>

definition mutex_rep :: "sync_heap \<Rightarrow> addr \<Rightarrow> handle option \<Rightarrow> addr list \<Rightarrow> bool" where
  "mutex_rep h p own xs \<longleftrightarrow>
     mx_initialized (sh_mutex h p) \<and> mx_owner (sh_mutex h p) = own \<and>
     mx_locked (sh_mutex h p) = (own \<noteq> None) \<and>
     waitq_rep (mx_q (sh_mutex h p), sh_nodes h) xs \<and>
     (own = None \<longrightarrow> xs = []) \<and> (\<forall>a \<in> set xs. \<not> wn_granted (sh_nodes h a))"

lemma mutex_rep_unique:
  "mutex_rep h p own xs \<Longrightarrow> mutex_rep h p own' ys \<Longrightarrow> own = own' \<and> xs = ys"
  by (auto simp: mutex_rep_def dest: waitq_rep_unique)

lemma mutex_rep_distinct: "mutex_rep h p own xs \<Longrightarrow> distinct xs"
  by (auto simp: mutex_rep_def dest: waitq_rep_distinct)

lemma mutex_rep_cong:
  assumes "sh_mutex h' p = sh_mutex h p"
    and "\<And>a. a \<in> set xs \<Longrightarrow> wn_next (sh_nodes h' a) = wn_next (sh_nodes h a)"
    and "\<And>a. a \<in> set xs \<Longrightarrow> wn_granted (sh_nodes h' a) = wn_granted (sh_nodes h a)"
  shows "mutex_rep h' p own xs = mutex_rep h p own xs"
  using assms waitq_rep_cong [of xs "sh_nodes h'" "sh_nodes h" "mx_q (sh_mutex h p)"]
  by (auto simp: mutex_rep_def)

lemma mutex_init_rep [rep_intros]:
  "ops_valid ops \<Longrightarrow> \<exists>h'. dlsm_gt_mutex_init (Some p) ops h = (DLSM_OK, h') \<and> mutex_rep h' p None []"
  by (simp add: dlsm_gt_mutex_init_def mutex_rep_def)

lemma take_ownership_rep [rep_intros]:
  "mutex_rep h p None xs \<Longrightarrow> mutex_rep (take_ownership p t h) p (Some t) []"
  by (auto simp: mutex_rep_def take_ownership_def)

lemma take_ownership_frame [simp, frame_simps]:
  "sh_nodes (take_ownership p t h) = sh_nodes h"
  "sh_unparked (take_ownership p t h) = sh_unparked h"
  by (simp_all add: take_ownership_def)

lemma enqueue_waiter_fields [simp, frame_simps]:
  "wn_handle (sh_nodes (enqueue_waiter p t w h) b) =
     (if b = w then t else wn_handle (sh_nodes h b))"
  "wn_granted (sh_nodes (enqueue_waiter p t w h) b) =
     (b \<noteq> w \<and> wn_granted (sh_nodes h b))"
  "sh_unparked (enqueue_waiter p t w h) = sh_unparked h"
  using push_handles [of w "mx_q (sh_mutex h p)" "init_node w t (sh_nodes h)"]
  by (auto simp: enqueue_waiter_def split: prod.splits)

lemma enqueue_waiter_rep [rep_intros]:
  assumes "mutex_rep h p (Some own) xs" and "w \<notin> set xs"
  shows "mutex_rep (enqueue_waiter p t w h) p (Some own) (xs @ [w])"
proof -
  obtain q ns where qp: "queue_push w (mx_q (sh_mutex h p), init_node w t (sh_nodes h)) = (q, ns)"
    by (meson surj_pair)
  have "waitq_rep (mx_q (sh_mutex h p), init_node w t (sh_nodes h)) xs"
    using assms by (simp add: mutex_rep_def)
  from waitq_rep_push [OF this assms(2)] qp have "waitq_rep (q, ns) (xs @ [w])" by simp
  with assms push_handles [OF qp] show ?thesis
    by (auto simp: mutex_rep_def enqueue_waiter_def qp)
qed

lemma lock_free:
  "mutex_rep h p None xs \<Longrightarrow>
     dlsm_gt_mutex_lock (Some p) (Some t) w h = (Return DLSM_OK, take_ownership p t h)"
  by (simp add: dlsm_gt_mutex_lock_def mutex_rep_def)

lemma lock_owned:
  "mutex_rep h p (Some own) xs \<Longrightarrow>
     dlsm_gt_mutex_lock (Some p) (Some t) w h =
       (if own = t then (Return DLSM_SYNC_E_STATE, h) else (Parked, enqueue_waiter p t w h))"
  by (simp add: dlsm_gt_mutex_lock_def mutex_rep_def)

lemma unlock_not_owner:
  "mutex_rep h p own xs \<Longrightarrow> own \<noteq> Some t \<Longrightarrow>
     dlsm_gt_mutex_unlock (Some p) (Some t) h = (DLSM_SYNC_E_STATE, h)"
  by (simp add: dlsm_gt_mutex_unlock_def mutex_rep_def Let_def)

lemma unlock_free:
  assumes "mutex_rep h p (Some t) []"
  shows "\<exists>h'. dlsm_gt_mutex_unlock (Some p) (Some t) h = (DLSM_OK, h') \<and>
    mutex_rep h' p None [] \<and> sh_nodes h' = sh_nodes h \<and> sh_unparked h' = sh_unparked h"
proof -
  from assms have "wq_head (mx_q (sh_mutex h p)) = None"
    using waitq_rep_no_head by (fastforce simp: mutex_rep_def)
  with assms show ?thesis by (simp add: dlsm_gt_mutex_unlock_def mutex_rep_def Let_def)
qed

lemma unlock_handoff:
  assumes "mutex_rep h p (Some t) (x # xs)"
  shows "\<exists>h'. dlsm_gt_mutex_unlock (Some p) (Some t) h = (DLSM_OK, h') \<and>
    mutex_rep h' p (Some (wn_handle (sh_nodes h x))) xs \<and>
    sh_nodes h' = set_granted x (sh_nodes h) \<and>
    sh_unparked h' = sh_unparked h @ [wn_handle (sh_nodes h x)]"
proof -
  let ?q = "mx_q (sh_mutex h p)" and ?nx = "wn_next \<circ> sh_nodes h"
  have r: "queue_rep ?nx (wq_head ?q) (wq_tail ?q) (x # xs)"
    using assms by (simp add: mutex_rep_def waitq_rep_simp)
  then have x: "wq_head ?q = Some x" "x \<notin> set xs"
    using queue_rep_distinct [OF r] by (auto simp: queue_rep_def)
  from queue_rep_pop(2) [OF r] x(2)
  have "queue_rep ?nx (?nx x) (if ?nx x = None then None else wq_tail ?q) xs"
    by (simp add: queue_rep_upd_notin)
  with assms x show ?thesis
    by (auto simp: dlsm_gt_mutex_unlock_def mutex_rep_def Let_def waitq_rep_simp)
qed

lemma remove_waiter_rep [rep_intros]:
  assumes "mutex_rep h p own xs"
  shows "\<exists>h'. remove_waiter p node h = Some (node \<in> set xs, h') \<and>
    mutex_rep h' p own (remove1 node xs) \<and>
    (\<forall>b. wn_handle (sh_nodes h' b) = wn_handle (sh_nodes h b) \<and>
         wn_granted (sh_nodes h' b) = wn_granted (sh_nodes h b)) \<and>
    sh_unparked h' = sh_unparked h"
proof -
  have "waitq_rep (mx_q (sh_mutex h p), sh_nodes h) xs" using assms by (simp add: mutex_rep_def)
  from queue_remove_rep [OF this, of node] obtain q' ns' where
    rm: "queue_remove node (mx_q (sh_mutex h p), sh_nodes h) = Some (node \<in> set xs, q', ns')"
    and rep: "waitq_rep (q', ns') (remove1 node xs)" by blast
  from rm rep assms queue_remove_fields [OF rm] show ?thesis
    by (auto simp: remove_waiter_def mutex_rep_def dest: notin_set_remove1)
qed

section \<open>Interleavings of any number of tasks\<close>

text \<open>
  Where a task stands: outside, suspended in \<open>lock\<close> or \<open>timedlock\<close> on its stack node, or
  returned from a successful lock. Any task may take the next step; the status that
  \<open>park_until\<close> answers is arbitrary, since a deadline or a cancellation may come at any time.
\<close>

datatype mutex_pc = Outside | Waiting addr | Timed_waiting addr u64 | Holding

fun waits_on :: "mutex_pc \<Rightarrow> addr option" where
  "waits_on (Waiting a) = Some a"
| "waits_on (Timed_waiting a _) = Some a"
| "waits_on _ = None"

record mutex_sys =
  ms_heap :: sync_heap
  ms_pc :: "handle \<Rightarrow> mutex_pc"

definition fresh_node :: "mutex_sys \<Rightarrow> addr \<Rightarrow> bool" where
  "fresh_node s w \<longleftrightarrow> (\<forall>u. waits_on (ms_pc s u) \<noteq> Some w)"

fun lock_pc :: "addr \<Rightarrow> mutex_pc \<Rightarrow> outcome \<Rightarrow> mutex_pc" where
  "lock_pc w pc (Return st) = (if st = DLSM_OK then Holding else pc)"
| "lock_pc w pc Parked = Waiting w"
| "lock_pc w pc (Parked_until d) = Timed_waiting w d"

inductive mutex_step :: "addr \<Rightarrow> mutex_sys \<Rightarrow> mutex_sys \<Rightarrow> bool" for p :: addr where
  step_lock:
    "ms_pc s t \<in> {Outside, Holding} \<Longrightarrow> fresh_node s w \<Longrightarrow>
     dlsm_gt_mutex_lock (Some p) (Some t) w (ms_heap s) = (r, h') \<Longrightarrow>
     mutex_step p s \<lparr>ms_heap = h', ms_pc = (ms_pc s)(t := lock_pc w (ms_pc s t) r)\<rparr>"
| step_timedlock:
    "ms_pc s t \<in> {Outside, Holding} \<Longrightarrow> fresh_node s w \<Longrightarrow>
     dlsm_gt_mutex_timedlock (Some p) d (Some t) w (ms_heap s) = (r, h') \<Longrightarrow>
     mutex_step p s \<lparr>ms_heap = h', ms_pc = (ms_pc s)(t := lock_pc w (ms_pc s t) r)\<rparr>"
| step_trylock:
    "ms_pc s t \<in> {Outside, Holding} \<Longrightarrow>
     dlsm_gt_mutex_trylock (Some p) (Some t) True (ms_heap s) = (st, got, h') \<Longrightarrow>
     mutex_step p s \<lparr>ms_heap = h',
       ms_pc = (ms_pc s)(t := if got = Some True then Holding else ms_pc s t)\<rparr>"
| step_resume:
    "ms_pc s t = Waiting w \<Longrightarrow>
     dlsm_gt_mutex_lock_resume w (ms_heap s) = (r, h') \<Longrightarrow>
     mutex_step p s \<lparr>ms_heap = h', ms_pc = (ms_pc s)(t := lock_pc w Outside r)\<rparr>"
| step_timed_resume:
    "ms_pc s t = Timed_waiting w d \<Longrightarrow>
     dlsm_gt_mutex_timedlock_resume p d w status (ms_heap s) = Some (r, h') \<Longrightarrow>
     mutex_step p s \<lparr>ms_heap = h', ms_pc = (ms_pc s)(t := lock_pc w Outside r)\<rparr>"
| step_unlock:
    "ms_pc s t \<in> {Outside, Holding} \<Longrightarrow>
     dlsm_gt_mutex_unlock (Some p) (Some t) (ms_heap s) = (st, h') \<Longrightarrow>
     mutex_step p s \<lparr>ms_heap = h',
       ms_pc = (ms_pc s)(t := if st = DLSM_OK then Outside else ms_pc s t)\<rparr>"

text \<open>The runs start from an initialised mutex with every task outside.\<close>

inductive mutex_reachable :: "addr \<Rightarrow> mutex_sys \<Rightarrow> bool" for p :: addr where
  mutex_init: "dlsm_gt_mutex_init (Some p) ops h = (DLSM_OK, h') \<Longrightarrow>
     mutex_reachable p \<lparr>ms_heap = h', ms_pc = (\<lambda>_. Outside)\<rparr>"
| mutex_next: "mutex_reachable p s \<Longrightarrow> mutex_step p s s' \<Longrightarrow> mutex_reachable p s'"

section \<open>The invariant\<close>

text \<open>A task owns the mutex from the moment its node is granted, before it runs again.\<close>

definition owns :: "mutex_sys \<Rightarrow> handle \<Rightarrow> bool" where
  "owns s t \<longleftrightarrow> ms_pc s t = Holding \<or>
     (\<exists>a. waits_on (ms_pc s t) = Some a \<and> wn_granted (sh_nodes (ms_heap s) a))"

definition mutex_view :: "addr \<Rightarrow> mutex_sys \<Rightarrow> handle option \<Rightarrow> addr list \<Rightarrow> bool" where
  "mutex_view p s own xs \<longleftrightarrow> mutex_rep (ms_heap s) p own xs \<and>
     (\<forall>t. owns s t \<longleftrightarrow> own = Some t) \<and>
     (\<forall>a. a \<in> set xs \<longleftrightarrow>
        (\<exists>t. waits_on (ms_pc s t) = Some a) \<and> \<not> wn_granted (sh_nodes (ms_heap s) a)) \<and>
     (\<forall>t a. waits_on (ms_pc s t) = Some a \<longrightarrow> wn_handle (sh_nodes (ms_heap s) a) = t)"

lemma mutex_view_rep: "mutex_view p s own xs \<Longrightarrow> mutex_rep (ms_heap s) p own xs"
  by (simp add: mutex_view_def)

lemma mutex_view_owns: "mutex_view p s own xs \<Longrightarrow> owns s t \<longleftrightarrow> own = Some t"
  by (simp add: mutex_view_def)

lemma mutex_view_queued: "mutex_view p s own xs \<Longrightarrow> a \<in> set xs \<longleftrightarrow>
    (\<exists>t. waits_on (ms_pc s t) = Some a) \<and> \<not> wn_granted (sh_nodes (ms_heap s) a)"
  by (simp add: mutex_view_def)

lemma mutex_view_handle: "mutex_view p s own xs \<Longrightarrow> waits_on (ms_pc s t) = Some a \<Longrightarrow>
    wn_handle (sh_nodes (ms_heap s) a) = t"
  by (simp add: mutex_view_def)

lemmas mutex_view_facts = mutex_view_rep mutex_view_owns mutex_view_queued mutex_view_handle

text \<open>The abstract moves: acquire, enqueue, leave with the lock, give up, release, hand over.\<close>

lemma view_unchanged:
  "mutex_view p \<lparr>ms_heap = ms_heap s, ms_pc = (ms_pc s)(t := ms_pc s t)\<rparr> own xs =
     mutex_view p s own xs"
  by (cases s) simp

lemma view_acquire:
  assumes v: "mutex_view p s None xs" and "ms_pc s t \<in> {Outside, Holding}"
  shows "mutex_view p \<lparr>ms_heap = take_ownership p t (ms_heap s),
    ms_pc = (ms_pc s)(t := Holding)\<rparr> (Some t) []"
proof -
  have r: "mutex_rep (ms_heap s) p None xs" using v by (rule mutex_view_rep)
  then have "xs = []" by (simp add: mutex_rep_def)
  then have w: "waits_on (ms_pc s u) = None" for u
    using mutex_view_queued [OF v] mutex_view_owns [OF v, of u]
    by (cases "waits_on (ms_pc s u)") (auto simp: owns_def)
  have h: "ms_pc s u \<noteq> Holding" for u using mutex_view_owns [OF v, of u] by (simp add: owns_def)
  show ?thesis
    unfolding mutex_view_def using take_ownership_rep [OF r] w h by (auto simp: owns_def)
qed

lemma view_enqueue:
  assumes v: "mutex_view p s (Some own) xs" and ne: "own \<noteq> t"
    and pc: "ms_pc s t \<in> {Outside, Holding}"
    and fr: "fresh_node s w" and w: "waits_on pc' = Some w"
  shows "mutex_view p \<lparr>ms_heap = enqueue_waiter p t w (ms_heap s),
    ms_pc = (ms_pc s)(t := pc')\<rparr> (Some own) (xs @ [w])" (is "mutex_view p ?s' _ _")
proof -
  have nw: "waits_on (ms_pc s u) \<noteq> Some w" for u using fr by (simp add: fresh_node_def)
  then have fresh: "w \<notin> set xs" using mutex_view_queued [OF v, of w] by simp
  have t: "waits_on (ms_pc s t) = None" "ms_pc s t \<noteq> Holding"
    using pc ne mutex_view_owns [OF v, of t] by (auto simp: owns_def)
  have nh: "pc' \<noteq> Holding" using w by auto
  have o: "owns ?s' u \<longleftrightarrow> Some own = Some u" for u
    using mutex_view_owns [OF v, of u] t nw [of u] w nh ne by (auto simp: owns_def)
  have q: "a \<in> set (xs @ [w]) \<longleftrightarrow> (\<exists>u. waits_on (ms_pc ?s' u) = Some a) \<and>
      \<not> wn_granted (sh_nodes (ms_heap ?s') a)" for a
  proof (cases "a = w")
    case True
    with w show ?thesis by auto
  next
    case False
    with w t(1) have "(\<exists>u. waits_on (ms_pc ?s' u) = Some a) = (\<exists>u. waits_on (ms_pc s u) = Some a)"
      using ex_upd [of "\<lambda>pc. waits_on pc = Some a" "ms_pc s" t pc'] by (simp, metis option.simps(3))
    with False mutex_view_queued [OF v, of a] show ?thesis by simp
  qed
  have h: "waits_on (ms_pc ?s' u) = Some a \<Longrightarrow> wn_handle (sh_nodes (ms_heap ?s') a) = u" for u a
    using mutex_view_handle [OF v, of u a] nw [of u] w by (auto split: if_splits)
  show ?thesis
    unfolding mutex_view_def
    using enqueue_waiter_rep [OF mutex_view_rep [OF v] fresh] o q h by simp
qed

lemma view_leave:
  assumes v: "mutex_view p s own xs" and w: "waits_on (ms_pc s t) = Some w"
    and g: "wn_granted (sh_nodes (ms_heap s) w)"
  shows "mutex_view p \<lparr>ms_heap = ms_heap s, ms_pc = (ms_pc s)(t := Holding)\<rparr> own xs"
    (is "mutex_view p ?s' _ _")
proof -
  have own: "own = Some t" using mutex_view_owns [OF v, of t] w g by (auto simp: owns_def)
  have o: "owns ?s' u \<longleftrightarrow> own = Some u" for u
    using mutex_view_owns [OF v, of u] own by (auto simp: owns_def)
  have q: "a \<in> set xs \<longleftrightarrow> (\<exists>u. waits_on (ms_pc ?s' u) = Some a) \<and>
      \<not> wn_granted (sh_nodes (ms_heap ?s') a)" for a
  proof -
    have "(\<exists>u. waits_on (ms_pc ?s' u) = Some a) = (\<exists>u. u \<noteq> t \<and> waits_on (ms_pc s u) = Some a)"
      using ex_upd [of "\<lambda>pc. waits_on pc = Some a" "ms_pc s" t Holding] by simp
    moreover have "\<not> wn_granted (sh_nodes (ms_heap s) a) \<Longrightarrow> waits_on (ms_pc s u) = Some a \<Longrightarrow> u \<noteq> t"
      for u using w g by auto
    ultimately show ?thesis using mutex_view_queued [OF v, of a] by auto
  qed
  have "waits_on (ms_pc ?s' u) = Some a \<Longrightarrow> wn_handle (sh_nodes (ms_heap ?s') a) = u" for u a
    using mutex_view_handle [OF v, of u a] by (auto split: if_splits)
  with o q mutex_view_rep [OF v] show ?thesis unfolding mutex_view_def by simp
qed

lemma view_give_up:
  assumes v: "mutex_view p s own xs" and w: "waits_on (ms_pc s t) = Some w"
    and g: "\<not> wn_granted (sh_nodes (ms_heap s) w)"
    and rm: "remove_waiter p w (ms_heap s) = Some (b, h')"
  shows "mutex_view p \<lparr>ms_heap = h', ms_pc = (ms_pc s)(t := Outside)\<rparr> own (remove1 w xs)"
    (is "mutex_view p ?s' _ _")
proof -
  from remove_waiter_rep [OF mutex_view_rep [OF v], of w] rm
  have r: "mutex_rep h' p own (remove1 w xs)"
    and f: "wn_handle (sh_nodes h' b) = wn_handle (sh_nodes (ms_heap s) b)"
      "wn_granted (sh_nodes h' b) = wn_granted (sh_nodes (ms_heap s) b)" for b by auto
  have only: "waits_on (ms_pc s u) = Some w \<Longrightarrow> u = t" for u
    using mutex_view_handle [OF v, of u w] mutex_view_handle [OF v w] by simp
  have o: "owns ?s' u \<longleftrightarrow> own = Some u" for u
  proof (cases "u = t")
    case True
    moreover have "ms_pc s t \<noteq> Holding" using w by auto
    ultimately show ?thesis using mutex_view_owns [OF v, of t] w g by (simp add: owns_def)
  next
    case False
    then have "owns ?s' u = owns s u" unfolding owns_def by (simp add: f(2))
    also have "\<dots> = (own = Some u)" using v by (rule mutex_view_owns)
    finally show ?thesis .
  qed
  have q: "a \<in> set (remove1 w xs) \<longleftrightarrow> (\<exists>u. waits_on (ms_pc ?s' u) = Some a) \<and>
      \<not> wn_granted (sh_nodes (ms_heap ?s') a)" for a
  proof -
    have "set (remove1 w xs) = set xs - {w}"
      using mutex_rep_distinct [OF mutex_view_rep [OF v]] by simp
    moreover have "(\<exists>u. waits_on (ms_pc ?s' u) = Some a) =
        (a \<noteq> w \<and> (\<exists>u. waits_on (ms_pc s u) = Some a))"
    proof -
      have "(\<exists>u. waits_on (ms_pc ?s' u) = Some a) = (\<exists>u. u \<noteq> t \<and> waits_on (ms_pc s u) = Some a)"
        using ex_upd [of "\<lambda>pc. waits_on pc = Some a" "ms_pc s" t Outside] by simp
      also have "\<dots> = (a \<noteq> w \<and> (\<exists>u. waits_on (ms_pc s u) = Some a))"
        using only w by (metis option.inject)
      finally show ?thesis .
    qed
    ultimately show ?thesis using mutex_view_queued [OF v, of a] by (simp add: f(2)) blast
  qed
  have "waits_on (ms_pc ?s' u) = Some a \<Longrightarrow> wn_handle (sh_nodes (ms_heap ?s') a) = u" for u a
    using mutex_view_handle [OF v, of u a] by (simp add: f(1) split: if_splits)
  with o q r show ?thesis unfolding mutex_view_def by simp
qed

lemma view_owner_holds:
  "mutex_view p s (Some t) xs \<Longrightarrow> ms_pc s t \<in> {Outside, Holding} \<Longrightarrow> ms_pc s t = Holding"
  using mutex_view_owns [of p s "Some t" xs t] by (auto simp: owns_def)

lemma view_release:
  assumes v: "mutex_view p s (Some t) []" and pc: "ms_pc s t \<in> {Outside, Holding}"
    and ul: "dlsm_gt_mutex_unlock (Some p) (Some t) (ms_heap s) = (DLSM_OK, h')"
  shows "mutex_view p \<lparr>ms_heap = h', ms_pc = (ms_pc s)(t := Outside)\<rparr> None []"
    (is "mutex_view p ?s' _ _")
proof -
  from unlock_free [OF mutex_view_rep [OF v]] ul
  have r: "mutex_rep h' p None []" and n: "sh_nodes h' = sh_nodes (ms_heap s)" by auto
  have t: "ms_pc s t = Holding" using v pc by (rule view_owner_holds)
  have o: "\<not> owns ?s' u" for u
    using mutex_view_owns [OF v, of u] n by (cases "u = t") (auto simp: owns_def)
  have w: "waits_on (ms_pc ?s' u) = None" for u
    using mutex_view_queued [OF v] o [of u] n
    by (cases "waits_on (ms_pc ?s' u)") (auto simp: owns_def split: if_splits)
  show ?thesis unfolding mutex_view_def using r o w by simp
qed

lemma view_hand_over:
  assumes v: "mutex_view p s (Some t) (x # xs)" and pc: "ms_pc s t \<in> {Outside, Holding}"
    and ul: "dlsm_gt_mutex_unlock (Some p) (Some t) (ms_heap s) = (DLSM_OK, h')"
  shows "mutex_view p \<lparr>ms_heap = h', ms_pc = (ms_pc s)(t := Outside)\<rparr>
    (Some (wn_handle (sh_nodes (ms_heap s) x))) xs" (is "mutex_view p ?s' (Some ?u) _")
proof -
  from unlock_handoff [OF mutex_view_rep [OF v]] ul
  have r: "mutex_rep h' p (Some ?u) xs" and n: "sh_nodes h' = set_granted x (sh_nodes (ms_heap s))"
    by auto
  have t: "ms_pc s t = Holding" using v pc by (rule view_owner_holds)
  have x: "x \<notin> set xs" using mutex_rep_distinct [OF mutex_view_rep [OF v]] by simp
  from mutex_view_queued [OF v, of x] obtain u where u: "waits_on (ms_pc s u) = Some x" by auto
  have uu: "?u = u" using mutex_view_handle [OF v u] by simp
  have ut: "u \<noteq> t" using u t by auto
  have only: "waits_on (ms_pc s b) = Some x \<Longrightarrow> b = u" for b
    using mutex_view_handle [OF v, of b x] uu by simp
  have o: "owns ?s' b \<longleftrightarrow> Some ?u = Some b" for b
  proof (cases "b = t")
    case True
    with uu ut show ?thesis by (simp add: owns_def)
  next
    case False
    then have "\<not> owns s b" using mutex_view_owns [OF v, of b] by simp
    with False u uu only [of b] n show ?thesis by (auto simp: owns_def)
  qed
  have q: "a \<in> set xs \<longleftrightarrow> (\<exists>b. waits_on (ms_pc ?s' b) = Some a) \<and>
      \<not> wn_granted (sh_nodes (ms_heap ?s') a)" for a
  proof -
    have "(\<exists>b. waits_on (ms_pc ?s' b) = Some a) = (\<exists>b. waits_on (ms_pc s b) = Some a)"
      using t ex_upd [of "\<lambda>pc. waits_on pc = Some a" "ms_pc s" t Outside]
      by simp (metis option.simps(3) waits_on.simps(4))
    with mutex_view_queued [OF v, of a] x n show ?thesis by auto
  qed
  have "waits_on (ms_pc ?s' b) = Some a \<Longrightarrow> wn_handle (sh_nodes (ms_heap ?s') a) = b" for b a
    using mutex_view_handle [OF v, of b a] by (simp add: n split: if_splits)
  with o q r show ?thesis unfolding mutex_view_def by simp
qed

section \<open>The implementation refines the FIFO mutex\<close>

text \<open>
  The specification: an owner and a FIFO of waiting nodes. A free mutex is taken at once, a
  waiter joins at the end, may leave at any position, and a release passes the ownership to
  the oldest waiter, if there is one.
\<close>

inductive fifo_mutex_step ::
  "handle option \<times> addr list \<Rightarrow> handle option \<times> addr list \<Rightarrow> bool" where
  spec_stutter: "fifo_mutex_step s s"
| spec_acquire: "fifo_mutex_step (None, []) (Some t, [])"
| spec_enqueue: "w \<notin> set xs \<Longrightarrow> fifo_mutex_step (Some t, xs) (Some t, xs @ [w])"
| spec_give_up: "w \<in> set xs \<Longrightarrow> fifo_mutex_step (Some t, xs) (Some t, remove1 w xs)"
| spec_release: "fifo_mutex_step (Some t, []) (None, [])"
| spec_hand_over: "fifo_mutex_step (Some t, x # xs) (Some u, xs)"

lemma view_Nil_of_free: "mutex_view p s None xs \<Longrightarrow> xs = []"
  by (auto simp: mutex_view_def mutex_rep_def)

lemma sim_lock:
  assumes v: "mutex_view p s own xs" and pc: "ms_pc s t \<in> {Outside, Holding}"
    and fr: "fresh_node s w" and w: "waits_on pc' = Some w"
  shows "own = None \<Longrightarrow> \<exists>own' xs'. mutex_view p \<lparr>ms_heap = take_ownership p t (ms_heap s),
      ms_pc = (ms_pc s)(t := Holding)\<rparr> own' xs' \<and> fifo_mutex_step (own, xs) (own', xs')"
    and "own = Some u \<Longrightarrow> u \<noteq> t \<Longrightarrow>
      \<exists>own' xs'. mutex_view p \<lparr>ms_heap = enqueue_waiter p t w (ms_heap s),
      ms_pc = (ms_pc s)(t := pc')\<rparr> own' xs' \<and> fifo_mutex_step (own, xs) (own', xs')"
proof -
  assume "own = None"
  with v have v': "mutex_view p s None xs" and "xs = []" by (auto dest: view_Nil_of_free)
  with view_acquire [OF v' pc] \<open>own = None\<close> show "\<exists>own' xs'. mutex_view p
      \<lparr>ms_heap = take_ownership p t (ms_heap s), ms_pc = (ms_pc s)(t := Holding)\<rparr> own' xs' \<and>
      fifo_mutex_step (own, xs) (own', xs')" by (blast intro: spec_acquire)
next
  assume o: "own = Some u" "u \<noteq> t"
  with v have v': "mutex_view p s (Some u) xs" by simp
  have "w \<notin> set xs" using mutex_view_queued [OF v', of w] fr by (simp add: fresh_node_def)
  with view_enqueue [OF v' o(2) pc fr w] o(1) show "\<exists>own' xs'. mutex_view p
      \<lparr>ms_heap = enqueue_waiter p t w (ms_heap s), ms_pc = (ms_pc s)(t := pc')\<rparr> own' xs' \<and>
      fifo_mutex_step (own, xs) (own', xs')" by (blast intro: spec_enqueue)
qed

lemma sim_stutter:
  "mutex_view p s own xs \<Longrightarrow>
     \<exists>own' xs'. mutex_view p \<lparr>ms_heap = ms_heap s, ms_pc = (ms_pc s)(t := ms_pc s t)\<rparr> own' xs' \<and>
       fifo_mutex_step (own, xs) (own', xs')"
  by (metis view_unchanged spec_stutter)

lemma sim_leave:
  "mutex_view p s own xs \<Longrightarrow> waits_on (ms_pc s t) = Some w \<Longrightarrow>
     wn_granted (sh_nodes (ms_heap s) w) \<Longrightarrow>
     \<exists>own' xs'. mutex_view p \<lparr>ms_heap = ms_heap s, ms_pc = (ms_pc s)(t := Holding)\<rparr> own' xs' \<and>
       fifo_mutex_step (own, xs) (own', xs')"
  using view_leave spec_stutter by blast

lemma sim_give_up:
  assumes v: "mutex_view p s own xs" and w: "waits_on (ms_pc s t) = Some w"
    and g: "\<not> wn_granted (sh_nodes (ms_heap s) w)"
    and rm: "remove_waiter p w (ms_heap s) = Some (b, h')"
  shows "\<exists>own' xs'. mutex_view p \<lparr>ms_heap = h', ms_pc = (ms_pc s)(t := Outside)\<rparr> own' xs' \<and>
       fifo_mutex_step (own, xs) (own', xs')"
proof -
  have q: "w \<in> set xs" using mutex_view_queued [OF v, of w] w g by blast
  with v obtain u where "own = Some u"
    using view_Nil_of_free by (cases own) fastforce+
  with q view_give_up [OF v w g rm] show ?thesis by (blast intro: spec_give_up)
qed

lemma sim_unlock:
  assumes v: "mutex_view p s own xs" and pc: "ms_pc s t \<in> {Outside, Holding}"
    and ul: "dlsm_gt_mutex_unlock (Some p) (Some t) (ms_heap s) = (st, h')"
  shows "\<exists>own' xs'. mutex_view p \<lparr>ms_heap = h',
       ms_pc = (ms_pc s)(t := if st = DLSM_OK then Outside else ms_pc s t)\<rparr> own' xs' \<and>
       fifo_mutex_step (own, xs) (own', xs')"
proof (cases "own = Some t")
  case False
  with unlock_not_owner [OF mutex_view_rep [OF v]] ul have "st = DLSM_SYNC_E_STATE" "h' = ms_heap s"
    by auto
  with sim_stutter [OF v, of t] show ?thesis by simp
next
  case True
  with v have v': "mutex_view p s (Some t) xs" by simp
  show ?thesis
  proof (cases xs)
    case Nil
    with v' ul have "st = DLSM_OK" using unlock_free [OF mutex_view_rep] by force
    with True Nil v' ul pc view_release [of p s t h'] show ?thesis by (auto intro: spec_release)
  next
    case (Cons x ys)
    with v' ul have "st = DLSM_OK" using unlock_handoff [OF mutex_view_rep] by force
    with True Cons v' ul pc view_hand_over [of p s t x ys h'] show ?thesis
      by (auto intro: spec_hand_over)
  qed
qed

lemma sim_lock_outcome:
  assumes v: "mutex_view p s own xs" and pc: "ms_pc s t \<in> {Outside, Holding}"
    and fr: "fresh_node s w"
    and cs: "own = None \<Longrightarrow> r = Return DLSM_OK \<and> h' = take_ownership p t (ms_heap s)"
      "own \<noteq> None \<Longrightarrow> (\<exists>st. st \<noteq> DLSM_OK \<and> r = Return st \<and> h' = ms_heap s) \<or>
         (own \<noteq> Some t \<and> waits_on (lock_pc w (ms_pc s t) r) = Some w \<and>
          h' = enqueue_waiter p t w (ms_heap s))"
  shows "\<exists>own' xs'. mutex_view p \<lparr>ms_heap = h',
       ms_pc = (ms_pc s)(t := lock_pc w (ms_pc s t) r)\<rparr> own' xs' \<and>
       fifo_mutex_step (own, xs) (own', xs')"
proof -
  consider (free) "own = None" | (refused) st where "own \<noteq> None" "st \<noteq> DLSM_OK" "r = Return st" "h' = ms_heap s"
    | (queued) u where "own = Some u" "u \<noteq> t" "waits_on (lock_pc w (ms_pc s t) r) = Some w"
      "h' = enqueue_waiter p t w (ms_heap s)"
    using cs(2) by (cases own) auto
  then show ?thesis
  proof cases
    case free
    with cs(1) sim_lock(1) [OF v pc fr, of "Waiting w"] show ?thesis by simp
  next
    case refused
    with sim_stutter [OF v, of t] show ?thesis by simp
  next
    case queued
    with sim_lock(2) [OF v pc fr queued(3) queued(1,2)] show ?thesis by simp
  qed
qed

lemma lock_cases:
  assumes "mutex_rep h p own xs" and "dlsm_gt_mutex_lock (Some p) (Some t) w h = (r, h')"
  shows "own = None \<Longrightarrow> r = Return DLSM_OK \<and> h' = take_ownership p t h"
    and "own \<noteq> None \<Longrightarrow> (\<exists>st. st \<noteq> DLSM_OK \<and> r = Return st \<and> h' = h) \<or>
       (own \<noteq> Some t \<and> waits_on (lock_pc w pc r) = Some w \<and> h' = enqueue_waiter p t w h)"
  using assms by (auto simp: dlsm_gt_mutex_lock_def mutex_rep_def split: if_splits)

lemma timedlock_cases:
  assumes "mutex_rep h p own xs" and "dlsm_gt_mutex_timedlock (Some p) d (Some t) w h = (r, h')"
  shows "d = 0 \<Longrightarrow> r = Return DLSM_SYNC_E_INVAL \<and> h' = h"
    and "d \<noteq> 0 \<Longrightarrow> own = None \<Longrightarrow> r = Return DLSM_OK \<and> h' = take_ownership p t h"
    and "own \<noteq> None \<Longrightarrow> (\<exists>st. st \<noteq> DLSM_OK \<and> r = Return st \<and> h' = h) \<or>
       (own \<noteq> Some t \<and> waits_on (lock_pc w pc r) = Some w \<and> h' = enqueue_waiter p t w h)"
  using assms by (auto simp: dlsm_gt_mutex_timedlock_def mutex_rep_def split: if_splits)

lemma mutex_step_simulated:
  assumes "mutex_step p s s'" and v: "mutex_view p s own xs"
  shows "\<exists>own' xs'. mutex_view p s' own' xs' \<and> fifo_mutex_step (own, xs) (own', xs')"
  using assms(1)
proof cases
  case (step_lock t w r h')
  with sim_lock_outcome [OF v step_lock(2,3)] lock_cases [OF mutex_view_rep [OF v] step_lock(4)]
  show ?thesis by metis
next
  case (step_timedlock t w d r h')
  show ?thesis
  proof (cases "d = 0")
    case True
    with step_timedlock timedlock_cases(1) [OF mutex_view_rep [OF v] step_timedlock(4)]
      sim_stutter [OF v, of t] show ?thesis by simp
  next
    case False
    with step_timedlock sim_lock_outcome [OF v step_timedlock(2,3)]
      timedlock_cases(2,3) [OF mutex_view_rep [OF v] step_timedlock(4)] show ?thesis by metis
  qed
next
  case (step_trylock t st got h')
  show ?thesis
  proof (cases own)
    case None
    then have "got = Some True \<and> h' = take_ownership p t (ms_heap s)"
      using step_trylock(3) mutex_view_rep [OF v] by (auto simp: dlsm_gt_mutex_trylock_def mutex_rep_def)
    with step_trylock(1,2) None v view_acquire [of p s xs t] view_Nil_of_free [of p s xs] show ?thesis
      by (auto intro: spec_acquire)
  next
    case (Some u)
    then have "got = Some False \<and> h' = ms_heap s"
      using step_trylock(3) mutex_view_rep [OF v] by (auto simp: dlsm_gt_mutex_trylock_def mutex_rep_def)
    with step_trylock(1) sim_stutter [OF v, of t] show ?thesis by simp
  qed
next
  case (step_resume t w r h')
  show ?thesis
  proof (cases "wn_granted (sh_nodes (ms_heap s) w)")
    case True
    with step_resume(3) have "r = Return DLSM_OK" "h' = ms_heap s"
      by (simp_all add: dlsm_gt_mutex_lock_resume_def)
    with True step_resume(1,2) sim_leave [OF v, of t w] show ?thesis by simp
  next
    case False
    with step_resume(3) have "r = Parked" "h' = ms_heap s"
      by (simp_all add: dlsm_gt_mutex_lock_resume_def)
    with step_resume(1,2) sim_stutter [OF v, of t] show ?thesis by simp
  qed
next
  case (step_timed_resume t w d status r h')
  then consider (granted) "wn_granted (sh_nodes (ms_heap s) w)" "r = Return DLSM_OK" "h' = ms_heap s"
    | (expired) b where "\<not> wn_granted (sh_nodes (ms_heap s) w)" "status \<noteq> DLSM_OK" "r = Return status"
        "remove_waiter p w (ms_heap s) = Some (b, h')"
    | (again) "r = Parked_until d" "h' = ms_heap s"
    by (auto simp: dlsm_gt_mutex_timedlock_resume_def split: if_splits option.splits prod.splits)
  then show ?thesis
  proof cases
    case granted
    with step_timed_resume(1,2) sim_leave [OF v, of t w] show ?thesis by simp
  next
    case expired
    with step_timed_resume(1,2) sim_give_up [OF v, of t w b h'] show ?thesis by simp
  next
    case again
    with step_timed_resume(1,2) sim_stutter [OF v, of t] show ?thesis by simp
  qed
next
  case (step_unlock t st h')
  with sim_unlock [OF v step_unlock(2,3)] show ?thesis by simp
qed

lemma mutex_reachable_view: "mutex_reachable p s \<Longrightarrow> \<exists>own xs. mutex_view p s own xs"
proof (induction rule: mutex_reachable.induct)
  case (mutex_init ops h h')
  then have "mutex_rep h' p None []"
    by (auto simp: dlsm_gt_mutex_init_def mutex_rep_def split: if_splits)
  then have "mutex_view p \<lparr>ms_heap = h', ms_pc = \<lambda>_. Outside\<rparr> None []"
    by (simp add: mutex_view_def owns_def)
  then show ?case by blast
next
  case (mutex_next s s')
  then show ?case using mutex_step_simulated by blast
qed

section \<open>Properties\<close>

text \<open>A concrete run for the witnesses: task 7 locks, task 8 queues behind it on node 30.\<close>

definition demo_heap :: sync_heap where
  "demo_heap = \<lparr>sh_nodes = (\<lambda>_. \<lparr>wn_handle = 0, wn_next = None, wn_granted = False\<rparr>),
     sh_mutex = (\<lambda>_. \<lparr>mx_ops = None, mx_locked = False, mx_initialized = False, mx_owner = None,
        mx_q = waitq_empty\<rparr>),
     sh_cond = (\<lambda>_. \<lparr>cv_ops = None, cv_initialized = False, cv_q = waitq_empty\<rparr>),
     sh_event = (\<lambda>_. \<lparr>ev_ops = None, ev_initialized = False, ev_signalled = False, ev_q = waitq_empty\<rparr>),
     sh_sem = (\<lambda>_. \<lparr>sm_ops = None, sm_initialized = False, sm_count = 0, sm_q = waitq_empty\<rparr>),
     sh_group = (\<lambda>_. \<lparr>wg_ops = None, wg_initialized = False, wg_count = 0, wg_waiters = 0,
        wg_q = waitq_empty\<rparr>),
     sh_compl = (\<lambda>_. \<lparr>cp_ops = None, cp_initialized = False, cp_completed = False, cp_q = waitq_empty\<rparr>),
     sh_unparked = []\<rparr>"

definition demo_ops :: dlsm_suspend_ops where
  "demo_ops = \<lparr>has_current = True, has_park = True, has_unpark = True, has_park_until = True\<rparr>"

definition demo_mutex0 :: mutex_sys where
  "demo_mutex0 = \<lparr>ms_heap = snd (dlsm_gt_mutex_init (Some 1) (Some demo_ops) demo_heap),
     ms_pc = (\<lambda>_. Outside)\<rparr>"

definition demo_mutex1 :: mutex_sys where
  "demo_mutex1 = \<lparr>ms_heap = snd (dlsm_gt_mutex_lock (Some 1) (Some 7) 20 (ms_heap demo_mutex0)),
     ms_pc = (\<lambda>_. Outside)(7 := Holding)\<rparr>"

definition demo_mutex2 :: mutex_sys where
  "demo_mutex2 = \<lparr>ms_heap = snd (dlsm_gt_mutex_lock (Some 1) (Some 8) 30 (ms_heap demo_mutex1)),
     ms_pc = (\<lambda>_. Outside)(7 := Holding, 8 := Waiting 30)\<rparr>"

lemmas demo_mutex_defs = demo_mutex0_def demo_mutex1_def demo_mutex2_def demo_heap_def demo_ops_def
  dlsm_gt_mutex_init_def dlsm_gt_mutex_lock_def ops_valid_def take_ownership_def

lemma demo_mutex0_reachable: "mutex_reachable 1 demo_mutex0"
  unfolding demo_mutex0_def
  by (rule mutex_init [where ops = "Some demo_ops" and h = demo_heap])
    (simp add: demo_mutex_defs)

lemma demo_mutex1_step: "mutex_step 1 demo_mutex0 demo_mutex1"
proof -
  have "mutex_step 1 demo_mutex0 \<lparr>ms_heap = snd (dlsm_gt_mutex_lock (Some 1) (Some 7) 20 (ms_heap demo_mutex0)),
    ms_pc = (ms_pc demo_mutex0)(7 := lock_pc 20 (ms_pc demo_mutex0 7)
      (fst (dlsm_gt_mutex_lock (Some 1) (Some 7) 20 (ms_heap demo_mutex0))))\<rparr>"
    by (rule step_lock) (auto simp: demo_mutex0_def fresh_node_def)
  then show ?thesis by (simp add: demo_mutex_defs)
qed

lemma demo_mutex2_step: "mutex_step 1 demo_mutex1 demo_mutex2"
proof -
  have "mutex_step 1 demo_mutex1 \<lparr>ms_heap = snd (dlsm_gt_mutex_lock (Some 1) (Some 8) 30 (ms_heap demo_mutex1)),
    ms_pc = (ms_pc demo_mutex1)(8 := lock_pc 30 (ms_pc demo_mutex1 8)
      (fst (dlsm_gt_mutex_lock (Some 1) (Some 8) 30 (ms_heap demo_mutex1))))\<rparr>"
    by (rule step_lock) (auto simp: demo_mutex1_def fresh_node_def)
  then show ?thesis by (simp add: demo_mutex_defs)
qed

lemma demo_mutex2_reachable: "mutex_reachable 1 demo_mutex2"
  by (rule mutex_next [OF mutex_next [OF demo_mutex0_reachable demo_mutex1_step] demo_mutex2_step])

text \<open>
  Claim C27. Mutual exclusion of the green-thread mutex: in every reachable interleaving of
  \<open>lock\<close>, \<open>timedlock\<close>, \<open>trylock\<close>, \<open>unlock\<close>, resumptions, timeouts and cancellations by any
  number of tasks, two tasks that both hold the mutex are the same task, and that task is the
  recorded owner.
\<close>

theorem mutex_mutual_exclusion:
  assumes "mutex_reachable p s" and "ms_pc s t = Holding" and "ms_pc s u = Holding"
  shows "t = u \<and> mx_owner (sh_mutex (ms_heap s) p) = Some t"
proof -
  from assms(1) obtain own xs where v: "mutex_view p s own xs" using mutex_reachable_view by blast
  have "own = Some t" "own = Some u"
    using mutex_view_owns [OF v] assms(2,3) by (auto simp: owns_def)
  with mutex_view_rep [OF v] show ?thesis by (simp add: mutex_rep_def)
qed

theorem mutex_mutual_exclusion_witness:
  "mutex_reachable 1 demo_mutex2 \<and> ms_pc demo_mutex2 7 = Holding \<and>
   mx_owner (sh_mutex (ms_heap demo_mutex2) 1) = Some 7"
proof -
  have h: "ms_pc demo_mutex2 7 = Holding" by (simp add: demo_mutex2_def)
  from mutex_mutual_exclusion [OF demo_mutex2_reachable h h] h demo_mutex2_reachable
  show ?thesis by simp
qed

text \<open>
  Claim C28. No lost waiter: in every reachable interleaving a task that waits on an ungranted
  node is in the queue, and the mutex is owned by another task that already holds it or has
  been granted it. So a suspended waiter always has a current owner whose \<open>unlock\<close> moves the
  queue on, and the mutex is never free while somebody waits.
\<close>

theorem mutex_no_lost_waiter:
  assumes "mutex_reachable p s" and "waits_on (ms_pc s t) = Some a"
    and "\<not> wn_granted (sh_nodes (ms_heap s) a)"
  shows "\<exists>u xs. mutex_rep (ms_heap s) p (Some u) xs \<and> a \<in> set xs \<and> u \<noteq> t \<and> owns s u"
proof -
  from assms(1) obtain own xs where v: "mutex_view p s own xs" using mutex_reachable_view by blast
  have a: "a \<in> set xs" using mutex_view_queued [OF v, of a] assms(2,3) by blast
  then obtain u where u: "own = Some u" using v view_Nil_of_free by (cases own) fastforce+
  then have "owns s u" using mutex_view_owns [OF v] by simp
  moreover have "u \<noteq> t"
    using mutex_view_owns [OF v, of t] assms(2,3) u by (auto simp: owns_def)
  ultimately show ?thesis using mutex_view_rep [OF v] a u by blast
qed

theorem mutex_no_lost_waiter_witness:
  "mutex_reachable 1 demo_mutex2 \<and> waits_on (ms_pc demo_mutex2 8) = Some 30 \<and>
   (\<exists>u xs. mutex_rep (ms_heap demo_mutex2) 1 (Some u) xs \<and> 30 \<in> set xs \<and> u \<noteq> 8 \<and> owns demo_mutex2 u)"
proof -
  have w: "waits_on (ms_pc demo_mutex2 8) = Some 30" by (simp add: demo_mutex2_def)
  have g: "\<not> wn_granted (sh_nodes (ms_heap demo_mutex2) 30)"
    by (simp add: demo_mutex_defs)
  from mutex_no_lost_waiter [OF demo_mutex2_reachable w g] w demo_mutex2_reachable
  show ?thesis by simp
qed

text \<open>
  Claim C29. The mutex refines the FIFO mutex specification: from every state that represents
  an owner and a queue of waiters, each step of the implementation is a step of the
  specification (take the free mutex, join at the end, leave early, release, hand over to the
  oldest waiter) or changes neither.
\<close>

theorem mutex_refines_fifo:
  assumes "mutex_view p s own xs" and "mutex_step p s s'"
  shows "\<exists>own' xs'. mutex_view p s' own' xs' \<and> fifo_mutex_step (own, xs) (own', xs')"
  using mutex_step_simulated [OF assms(2,1)] .

theorem mutex_refines_fifo_witness:
  "\<exists>own xs own' xs'. mutex_view 1 demo_mutex1 own xs \<and> mutex_view 1 demo_mutex2 own' xs' \<and>
     fifo_mutex_step (own, xs) (own', xs')"
proof -
  have "mutex_reachable 1 demo_mutex1"
    by (rule mutex_next [OF demo_mutex0_reachable demo_mutex1_step])
  then obtain own xs where "mutex_view 1 demo_mutex1 own xs" using mutex_reachable_view by blast
  with mutex_refines_fifo [OF this demo_mutex2_step] show ?thesis by blast
qed

text \<open>
  The owners that successive unlocks pass the mutex to: each turn the current owner unlocks.
\<close>

fun unlock_chain :: "nat \<Rightarrow> addr \<Rightarrow> sync_heap \<Rightarrow> handle list \<times> sync_heap" where
  "unlock_chain 0 p h = ([], h)"
| "unlock_chain (Suc n) p h =
     (case dlsm_gt_mutex_unlock (Some p) (mx_owner (sh_mutex h p)) h of (st, h') \<Rightarrow>
        (case mx_owner (sh_mutex h' p) of
           None \<Rightarrow> ([], h')
         | Some t \<Rightarrow> (case unlock_chain n p h' of (ts, h'') \<Rightarrow> (t # ts, h''))))"

text \<open>
  FIFO hand-over: with nodes \<open>xs\<close> queued behind the owner, the next \<open>length xs\<close>
  unlocks pass the mutex to the waiters in exactly the order in which they queued, unpark
  each of them once in that order, and one more unlock leaves the mutex free.
\<close>

theorem unlock_chain_fifo:
  assumes "mutex_rep h p (Some t) xs"
  shows "\<exists>h'. unlock_chain (Suc (length xs)) p h = (map (\<lambda>a. wn_handle (sh_nodes h a)) xs, h') \<and>
    mutex_rep h' p None [] \<and>
    (\<forall>a. wn_granted (sh_nodes h' a) \<longleftrightarrow> a \<in> set xs \<or> wn_granted (sh_nodes h a)) \<and>
    sh_unparked h' = sh_unparked h @ map (\<lambda>a. wn_handle (sh_nodes h a)) xs"
  using assms
proof (induction xs arbitrary: h t)
  case Nil
  then obtain h' where "dlsm_gt_mutex_unlock (Some p) (Some t) h = (DLSM_OK, h')"
    "mutex_rep h' p None []" "sh_nodes h' = sh_nodes h" "sh_unparked h' = sh_unparked h"
    using unlock_free by blast
  with Nil show ?case by (auto simp: mutex_rep_def)
next
  case (Cons x xs)
  from unlock_handoff [OF Cons.prems] obtain h1 where
    u: "dlsm_gt_mutex_unlock (Some p) (Some t) h = (DLSM_OK, h1)"
    and r: "mutex_rep h1 p (Some (wn_handle (sh_nodes h x))) xs"
    and n: "sh_nodes h1 = set_granted x (sh_nodes h)"
    and l: "sh_unparked h1 = sh_unparked h @ [wn_handle (sh_nodes h x)]" by blast
  from Cons.IH [OF r] obtain h2 where
    c: "unlock_chain (Suc (length xs)) p h1 = (map (\<lambda>a. wn_handle (sh_nodes h1 a)) xs, h2)"
    and e: "mutex_rep h2 p None []"
      "\<forall>a. wn_granted (sh_nodes h2 a) \<longleftrightarrow> a \<in> set xs \<or> wn_granted (sh_nodes h1 a)"
      "sh_unparked h2 = sh_unparked h1 @ map (\<lambda>a. wn_handle (sh_nodes h1 a)) xs" by blast
  have o: "mx_owner (sh_mutex h p) = Some t" "mx_owner (sh_mutex h1 p) = Some (wn_handle (sh_nodes h x))"
    using Cons.prems r by (auto simp: mutex_rep_def)
  have "unlock_chain (Suc (length (x # xs))) p h =
      (map (\<lambda>a. wn_handle (sh_nodes h a)) (x # xs), h2)"
    using u c o n by simp
  with e l n show ?case by auto
qed

theorem unlock_chain_fifo_witness:
  "\<exists>h'. mutex_rep (ms_heap demo_mutex2) 1 (Some 7) [30] \<and>
     unlock_chain 2 1 (ms_heap demo_mutex2) = ([8], h') \<and> mutex_rep h' 1 None []"
proof -
  have r: "mutex_rep (ms_heap demo_mutex2) 1 (Some 7) [30]"
    by (simp add: demo_mutex_defs mutex_rep_def enqueue_waiter_def queue_push_def waitq_empty_def
        waitq_rep_simp queue_rep_def init_node_def set_next_def)
  have "wn_handle (sh_nodes (ms_heap demo_mutex2) 30) = 8"
    by (simp add: demo_mutex_defs)
  with unlock_chain_fifo [OF r] r show ?thesis by (auto simp: numeral_2_eq_2)
qed

end
