(* ===== verification/Sync_Wait.thy ===== *)
theory Sync_Wait
  imports Sync_Mutex
begin

text \<open>
  The waiting primitives of \<^verbatim>\<open>libs/sync/src/gt_wait.c\<close>: condition variable, manual-reset event,
  semaphore, wait group and completion. As for the mutex, a section under \<open>qlock\<close> is one atomic
  step and an operation that suspends is split where it parks. Operations that walk a queue
  answer \<open>None\<close> where the walk does not end; the lemmas show that it always ends on a queue
  that represents a list.
\<close>

section \<open>Operations\<close>

text \<open>The loop \<^verbatim>\<open>while (!granted) park()\<close> of a plain wait: one turn after a resumption.\<close>

definition wait_resume :: "addr \<Rightarrow> sync_heap \<Rightarrow> outcome \<times> sync_heap" where
  "wait_resume w h = (if wn_granted (sh_nodes h w) then (Return DLSM_OK, h) else (Parked, h))"

subsection \<open>Condition variable\<close>

abbreviation upd_cond :: "addr \<Rightarrow> (dlsm_gt_condition \<Rightarrow> dlsm_gt_condition) \<Rightarrow> sync_heap \<Rightarrow> sync_heap" where
  "upd_cond p f h \<equiv> h\<lparr>sh_cond := (sh_cond h)(p := f (sh_cond h p))\<rparr>"

definition dlsm_gt_condition_init ::
  "addr option \<Rightarrow> dlsm_suspend_ops option \<Rightarrow> sync_heap \<Rightarrow> dlsm_status \<times> sync_heap" where
  "dlsm_gt_condition_init c ops h = (case c of
     None \<Rightarrow> (DLSM_SYNC_E_INVAL, h)
   | Some p \<Rightarrow>
       if \<not> ops_valid ops then (DLSM_SYNC_E_INVAL, h)
       else (DLSM_OK, h\<lparr>sh_cond := (sh_cond h)(p :=
              \<lparr>cv_ops = ops, cv_initialized = True, cv_q = waitq_empty\<rparr>)\<rparr>))"

definition cond_push :: "addr \<Rightarrow> handle \<Rightarrow> addr \<Rightarrow> sync_heap \<Rightarrow> sync_heap" where
  "cond_push p hdl w h =
     (case queue_push w (cv_q (sh_cond h p), init_node w hdl (sh_nodes h)) of (q, ns) \<Rightarrow>
        (upd_cond p (\<lambda>c. c\<lparr>cv_q := q\<rparr>) h)\<lparr>sh_nodes := ns\<rparr>)"

definition cond_remove :: "addr \<Rightarrow> addr \<Rightarrow> sync_heap \<Rightarrow> sync_heap option" where
  "cond_remove p w h =
     (case queue_remove w (cv_q (sh_cond h p), sh_nodes h) of
        None \<Rightarrow> None
      | Some (_, q, ns) \<Rightarrow> Some ((upd_cond p (\<lambda>c. c\<lparr>cv_q := q\<rparr>) h)\<lparr>sh_nodes := ns\<rparr>))"

text \<open>
  What \<open>wait\<close> and \<open>timedwait\<close> share under \<open>qlock\<close>: queue the caller, then unlock the mutex, and
  take the caller out again when the unlock is refused. \<open>park\<close> is how the caller suspends.
\<close>

definition cond_enqueue_and_unlock ::
  "outcome \<Rightarrow> addr \<Rightarrow> addr option \<Rightarrow> handle \<Rightarrow> addr \<Rightarrow> sync_heap \<Rightarrow> (outcome \<times> sync_heap) option" where
  "cond_enqueue_and_unlock park p mutex hdl w h =
     (let h1 = cond_push p hdl w h in
      case dlsm_gt_mutex_unlock mutex (Some hdl) h1 of (status, h2) \<Rightarrow>
        if status \<noteq> DLSM_OK then
          (case cond_remove p w h2 of None \<Rightarrow> None | Some h3 \<Rightarrow> Some (Return status, h3))
        else Some (park, h2))"

definition dlsm_gt_condition_wait ::
  "addr option \<Rightarrow> addr option \<Rightarrow> handle option \<Rightarrow> addr \<Rightarrow> sync_heap \<Rightarrow> (outcome \<times> sync_heap) option" where
  "dlsm_gt_condition_wait c mutex cur w h = (case c of
     None \<Rightarrow> Some (Return DLSM_SYNC_E_INVAL, h)
   | Some p \<Rightarrow>
       if \<not> cv_initialized (sh_cond h p) \<or> mutex = None then Some (Return DLSM_SYNC_E_INVAL, h)
       else (case cur of
         None \<Rightarrow> Some (Return DLSM_SYNC_E_INVAL, h)
       | Some hdl \<Rightarrow> cond_enqueue_and_unlock Parked p mutex hdl w h))"

definition dlsm_gt_condition_timedwait ::
  "addr option \<Rightarrow> addr option \<Rightarrow> u64 \<Rightarrow> handle option \<Rightarrow> addr \<Rightarrow> sync_heap \<Rightarrow>
   (outcome \<times> sync_heap) option" where
  "dlsm_gt_condition_timedwait c mutex deadline_ns cur w h = (case c of
     None \<Rightarrow> Some (Return DLSM_SYNC_E_INVAL, h)
   | Some p \<Rightarrow>
       if \<not> cv_initialized (sh_cond h p) \<or> mutex = None \<or> deadline_ns = 0 \<or>
          \<not> ops_park_until (cv_ops (sh_cond h p))
       then Some (Return DLSM_SYNC_E_INVAL, h)
       else (case cur of
         None \<Rightarrow> Some (Return DLSM_SYNC_E_INVAL, h)
       | Some hdl \<Rightarrow> cond_enqueue_and_unlock (Parked_until deadline_ns) p mutex hdl w h))"

text \<open>
  After a resumption the caller either parks again or goes on to lock the mutex, on a second
  stack node \<open>w2\<close>, remembering the status of the wait: \<open>Relock ws r\<close> is the state of the call
  when \<open>dlsm_gt_mutex_lock\<close> gave \<open>r\<close>, and \<open>relock_result\<close> the status the wait returns in the end.
\<close>

datatype cond_outcome = Cond_parked | Relock dlsm_status outcome

fun relock_result :: "dlsm_status \<Rightarrow> dlsm_status \<Rightarrow> dlsm_status" where
  "relock_result wait_status status = (if status = DLSM_OK then wait_status else status)"

definition dlsm_gt_condition_wait_resume ::
  "addr option \<Rightarrow> handle option \<Rightarrow> addr \<Rightarrow> addr \<Rightarrow> sync_heap \<Rightarrow> cond_outcome \<times> sync_heap" where
  "dlsm_gt_condition_wait_resume mutex cur w w2 h =
     (if \<not> wn_granted (sh_nodes h w) then (Cond_parked, h)
      else (case dlsm_gt_mutex_lock mutex cur w2 h of (r, h') \<Rightarrow> (Relock DLSM_OK r, h')))"

definition dlsm_gt_condition_timedwait_resume ::
  "addr \<Rightarrow> addr option \<Rightarrow> handle option \<Rightarrow> addr \<Rightarrow> addr \<Rightarrow> dlsm_status \<Rightarrow> sync_heap \<Rightarrow>
   (cond_outcome \<times> sync_heap) option" where
  "dlsm_gt_condition_timedwait_resume p mutex cur w w2 status h =
     (if wn_granted (sh_nodes h w) then
        (case dlsm_gt_mutex_lock mutex cur w2 h of (r, h') \<Rightarrow> Some (Relock DLSM_OK r, h'))
      else if status \<noteq> DLSM_OK then
        (case cond_remove p w h of None \<Rightarrow> None
         | Some h1 \<Rightarrow> (case dlsm_gt_mutex_lock mutex cur w2 h1 of (r, h') \<Rightarrow>
             Some (Relock status r, h')))
      else Some (Cond_parked, h))"

definition dlsm_gt_condition_signal :: "addr option \<Rightarrow> sync_heap \<Rightarrow> dlsm_status \<times> sync_heap" where
  "dlsm_gt_condition_signal c h = (case c of
     None \<Rightarrow> (DLSM_SYNC_E_INVAL, h)
   | Some p \<Rightarrow>
       if \<not> cv_initialized (sh_cond h p) then (DLSM_SYNC_E_INVAL, h)
       else (case queue_pop (cv_q (sh_cond h p), sh_nodes h) of (waiter, q, ns) \<Rightarrow>
         let h1 = upd_cond p (\<lambda>c. c\<lparr>cv_q := q\<rparr>) h in
         (case waiter of
            None \<Rightarrow> (DLSM_OK, h1\<lparr>sh_nodes := ns\<rparr>)
          | Some a \<Rightarrow> (DLSM_OK, h1\<lparr>sh_nodes := set_granted a ns,
              sh_unparked := sh_unparked h @ [wn_handle (ns a)]\<rparr>))))"

definition dlsm_gt_condition_broadcast ::
  "addr option \<Rightarrow> bool \<Rightarrow> sync_heap \<Rightarrow> (dlsm_status \<times> sync_heap) option" where
  "dlsm_gt_condition_broadcast c alloc_ok h = (case c of
     None \<Rightarrow> Some (DLSM_SYNC_E_INVAL, h)
   | Some p \<Rightarrow>
       if \<not> cv_initialized (sh_cond h p) then Some (DLSM_SYNC_E_INVAL, h)
       else (case grant_all_locked alloc_ok (cv_q (sh_cond h p), sh_nodes h, sh_unparked h) of
           None \<Rightarrow> None
         | Some (q, ns, log) \<Rightarrow> Some (DLSM_OK,
             (upd_cond p (\<lambda>c. c\<lparr>cv_q := q\<rparr>) h)\<lparr>sh_nodes := ns, sh_unparked := log\<rparr>)))"

definition dlsm_gt_condition_destroy :: "addr option \<Rightarrow> sync_heap \<Rightarrow> dlsm_status \<times> sync_heap" where
  "dlsm_gt_condition_destroy c h = (case c of
     None \<Rightarrow> (DLSM_SYNC_E_INVAL, h)
   | Some p \<Rightarrow>
       let cv = sh_cond h p in
       if \<not> cv_initialized cv then (DLSM_SYNC_E_INVAL, h)
       else if wq_head (cv_q cv) \<noteq> None \<or> wq_tail (cv_q cv) \<noteq> None then (DLSM_SYNC_E_STATE, h)
       else (DLSM_OK, upd_cond p (\<lambda>c. c\<lparr>cv_initialized := False, cv_ops := None\<rparr>) h))"

subsection \<open>Manual-reset event\<close>

abbreviation upd_event :: "addr \<Rightarrow> (dlsm_gt_event \<Rightarrow> dlsm_gt_event) \<Rightarrow> sync_heap \<Rightarrow> sync_heap" where
  "upd_event p f h \<equiv> h\<lparr>sh_event := (sh_event h)(p := f (sh_event h p))\<rparr>"

definition dlsm_gt_event_init ::
  "addr option \<Rightarrow> dlsm_suspend_ops option \<Rightarrow> int \<Rightarrow> sync_heap \<Rightarrow> dlsm_status \<times> sync_heap" where
  "dlsm_gt_event_init e ops initially_signalled h = (case e of
     None \<Rightarrow> (DLSM_SYNC_E_INVAL, h)
   | Some p \<Rightarrow>
       if \<not> ops_valid ops then (DLSM_SYNC_E_INVAL, h)
       else (DLSM_OK, h\<lparr>sh_event := (sh_event h)(p :=
              \<lparr>ev_ops = ops, ev_initialized = True, ev_signalled = (initially_signalled \<noteq> 0),
               ev_q = waitq_empty\<rparr>)\<rparr>))"

definition dlsm_gt_event_wait ::
  "addr option \<Rightarrow> handle option \<Rightarrow> addr \<Rightarrow> sync_heap \<Rightarrow> outcome \<times> sync_heap" where
  "dlsm_gt_event_wait e cur w h = (case e of
     None \<Rightarrow> (Return DLSM_SYNC_E_INVAL, h)
   | Some p \<Rightarrow>
       if \<not> ev_initialized (sh_event h p) then (Return DLSM_SYNC_E_INVAL, h)
       else (case cur of
         None \<Rightarrow> (Return DLSM_SYNC_E_INVAL, h)
       | Some hdl \<Rightarrow>
           let h1 = h\<lparr>sh_nodes := init_node w hdl (sh_nodes h)\<rparr> in
           if ev_signalled (sh_event h p) then (Return DLSM_OK, h1)
           else (case queue_push w (ev_q (sh_event h p), sh_nodes h1) of (q, ns) \<Rightarrow>
             (Parked, (upd_event p (\<lambda>e. e\<lparr>ev_q := q\<rparr>) h1)\<lparr>sh_nodes := ns\<rparr>))))"

definition dlsm_gt_event_set ::
  "addr option \<Rightarrow> bool \<Rightarrow> sync_heap \<Rightarrow> (dlsm_status \<times> sync_heap) option" where
  "dlsm_gt_event_set e alloc_ok h = (case e of
     None \<Rightarrow> Some (DLSM_SYNC_E_INVAL, h)
   | Some p \<Rightarrow>
       if \<not> ev_initialized (sh_event h p) then Some (DLSM_SYNC_E_INVAL, h)
       else (case grant_all_locked alloc_ok (ev_q (sh_event h p), sh_nodes h, sh_unparked h) of
           None \<Rightarrow> None
         | Some (q, ns, log) \<Rightarrow> Some (DLSM_OK,
             (upd_event p (\<lambda>e. e\<lparr>ev_signalled := True, ev_q := q\<rparr>) h)
               \<lparr>sh_nodes := ns, sh_unparked := log\<rparr>)))"

definition dlsm_gt_event_reset :: "addr option \<Rightarrow> sync_heap \<Rightarrow> dlsm_status \<times> sync_heap" where
  "dlsm_gt_event_reset e h = (case e of
     None \<Rightarrow> (DLSM_SYNC_E_INVAL, h)
   | Some p \<Rightarrow>
       if \<not> ev_initialized (sh_event h p) then (DLSM_SYNC_E_INVAL, h)
       else (DLSM_OK, upd_event p (\<lambda>e. e\<lparr>ev_signalled := False\<rparr>) h))"

definition dlsm_gt_event_destroy :: "addr option \<Rightarrow> sync_heap \<Rightarrow> dlsm_status \<times> sync_heap" where
  "dlsm_gt_event_destroy e h = (case e of
     None \<Rightarrow> (DLSM_SYNC_E_INVAL, h)
   | Some p \<Rightarrow>
       let ev = sh_event h p in
       if \<not> ev_initialized ev then (DLSM_SYNC_E_INVAL, h)
       else if wq_head (ev_q ev) \<noteq> None \<or> wq_tail (ev_q ev) \<noteq> None then (DLSM_SYNC_E_STATE, h)
       else (DLSM_OK, upd_event p (\<lambda>e. e\<lparr>ev_initialized := False, ev_ops := None\<rparr>) h))"

subsection \<open>Semaphore\<close>

abbreviation upd_sem :: "addr \<Rightarrow> (dlsm_gt_semaphore \<Rightarrow> dlsm_gt_semaphore) \<Rightarrow> sync_heap \<Rightarrow> sync_heap" where
  "upd_sem p f h \<equiv> h\<lparr>sh_sem := (sh_sem h)(p := f (sh_sem h p))\<rparr>"

definition dlsm_gt_semaphore_init ::
  "addr option \<Rightarrow> dlsm_suspend_ops option \<Rightarrow> u64 \<Rightarrow> sync_heap \<Rightarrow> dlsm_status \<times> sync_heap" where
  "dlsm_gt_semaphore_init sem ops initial_count h = (case sem of
     None \<Rightarrow> (DLSM_SYNC_E_INVAL, h)
   | Some p \<Rightarrow>
       if \<not> ops_valid ops then (DLSM_SYNC_E_INVAL, h)
       else (DLSM_OK, h\<lparr>sh_sem := (sh_sem h)(p :=
              \<lparr>sm_ops = ops, sm_initialized = True, sm_count = initial_count,
               sm_q = waitq_empty\<rparr>)\<rparr>))"

definition dlsm_gt_semaphore_wait ::
  "addr option \<Rightarrow> handle option \<Rightarrow> addr \<Rightarrow> sync_heap \<Rightarrow> outcome \<times> sync_heap" where
  "dlsm_gt_semaphore_wait sem cur w h = (case sem of
     None \<Rightarrow> (Return DLSM_SYNC_E_INVAL, h)
   | Some p \<Rightarrow>
       if \<not> sm_initialized (sh_sem h p) then (Return DLSM_SYNC_E_INVAL, h)
       else (case cur of
         None \<Rightarrow> (Return DLSM_SYNC_E_INVAL, h)
       | Some hdl \<Rightarrow>
           let h1 = h\<lparr>sh_nodes := init_node w hdl (sh_nodes h)\<rparr> in
           if 0 < sm_count (sh_sem h p) then
             (Return DLSM_OK, upd_sem p (\<lambda>s. s\<lparr>sm_count := sm_count s - 1\<rparr>) h1)
           else (case queue_push w (sm_q (sh_sem h p), sh_nodes h1) of (q, ns) \<Rightarrow>
             (Parked, (upd_sem p (\<lambda>s. s\<lparr>sm_q := q\<rparr>) h1)\<lparr>sh_nodes := ns\<rparr>))))"

definition dlsm_gt_semaphore_post :: "addr option \<Rightarrow> sync_heap \<Rightarrow> dlsm_status \<times> sync_heap" where
  "dlsm_gt_semaphore_post sem h = (case sem of
     None \<Rightarrow> (DLSM_SYNC_E_INVAL, h)
   | Some p \<Rightarrow>
       if \<not> sm_initialized (sh_sem h p) then (DLSM_SYNC_E_INVAL, h)
       else (case queue_pop (sm_q (sh_sem h p), sh_nodes h) of (waiter, q, ns) \<Rightarrow>
         let h1 = (upd_sem p (\<lambda>s. s\<lparr>sm_q := q\<rparr>) h)\<lparr>sh_nodes := ns\<rparr> in
         (case waiter of
            Some a \<Rightarrow> (DLSM_OK, h1\<lparr>sh_nodes := set_granted a ns,
              sh_unparked := sh_unparked h @ [wn_handle (ns a)]\<rparr>)
          | None \<Rightarrow>
              if sm_count (sh_sem h p) = UINT64_MAX then (DLSM_SYNC_E_STATE, h1)
              else (DLSM_OK, upd_sem p (\<lambda>s. s\<lparr>sm_count := sm_count s + 1\<rparr>) h1))))"

definition dlsm_gt_semaphore_destroy :: "addr option \<Rightarrow> sync_heap \<Rightarrow> dlsm_status \<times> sync_heap" where
  "dlsm_gt_semaphore_destroy sem h = (case sem of
     None \<Rightarrow> (DLSM_SYNC_E_INVAL, h)
   | Some p \<Rightarrow>
       let sm = sh_sem h p in
       if \<not> sm_initialized sm then (DLSM_SYNC_E_INVAL, h)
       else if wq_head (sm_q sm) \<noteq> None \<or> wq_tail (sm_q sm) \<noteq> None then (DLSM_SYNC_E_STATE, h)
       else (DLSM_OK, upd_sem p (\<lambda>s. s\<lparr>sm_initialized := False, sm_ops := None\<rparr>) h))"

subsection \<open>Wait group\<close>

abbreviation upd_group ::
  "addr \<Rightarrow> (dlsm_gt_wait_group \<Rightarrow> dlsm_gt_wait_group) \<Rightarrow> sync_heap \<Rightarrow> sync_heap" where
  "upd_group p f h \<equiv> h\<lparr>sh_group := (sh_group h)(p := f (sh_group h p))\<rparr>"

definition dlsm_gt_wait_group_init ::
  "addr option \<Rightarrow> dlsm_suspend_ops option \<Rightarrow> u64 \<Rightarrow> sync_heap \<Rightarrow> dlsm_status \<times> sync_heap" where
  "dlsm_gt_wait_group_init g ops initial_count h = (case g of
     None \<Rightarrow> (DLSM_SYNC_E_INVAL, h)
   | Some p \<Rightarrow>
       if \<not> ops_valid ops then (DLSM_SYNC_E_INVAL, h)
       else (DLSM_OK, h\<lparr>sh_group := (sh_group h)(p :=
              \<lparr>wg_ops = ops, wg_initialized = True, wg_count = initial_count, wg_waiters = 0,
               wg_q = waitq_empty\<rparr>)\<rparr>))"

text \<open>
  \<open>delta\<close> is an \<open>int64_t\<close>. The casts are written out: a positive delta is \<open>(uint64_t)delta\<close>, a
  negative one is subtracted as \<open>(uint64_t)(-(delta + 1)) + 1\<close>.
\<close>

definition dlsm_gt_wait_group_add ::
  "addr option \<Rightarrow> int \<Rightarrow> bool \<Rightarrow> sync_heap \<Rightarrow> (dlsm_status \<times> sync_heap) option" where
  "dlsm_gt_wait_group_add g delta alloc_ok h = (case g of
     None \<Rightarrow> Some (DLSM_SYNC_E_INVAL, h)
   | Some p \<Rightarrow>
       let wg = sh_group h p in
       if \<not> wg_initialized wg then Some (DLSM_SYNC_E_INVAL, h)
       else if 0 < delta then
         (let increment = word_of_int delta :: u64 in
          if (wg_count wg = 0 \<and> wg_waiters wg \<noteq> 0) \<or> UINT64_MAX - increment < wg_count wg
          then Some (DLSM_SYNC_E_STATE, h)
          else Some (DLSM_OK, upd_group p (\<lambda>w. w\<lparr>wg_count := wg_count w + increment\<rparr>) h))
       else if delta = 0 then Some (DLSM_OK, h)
       else
         (let decrement = word_of_int (- (delta + 1)) + 1 :: u64 in
          if wg_count wg < decrement then Some (DLSM_SYNC_E_STATE, h)
          else
            (let h1 = upd_group p (\<lambda>w. w\<lparr>wg_count := wg_count w - decrement\<rparr>) h in
             if wg_count (sh_group h1 p) = 0 then
               (case grant_all_locked alloc_ok (wg_q wg, sh_nodes h, sh_unparked h) of
                  None \<Rightarrow> None
                | Some (q, ns, log) \<Rightarrow> Some (DLSM_OK,
                    (upd_group p (\<lambda>w. w\<lparr>wg_q := q\<rparr>) h1)\<lparr>sh_nodes := ns, sh_unparked := log\<rparr>))
             else Some (DLSM_OK, h1))))"

definition dlsm_gt_wait_group_done ::
  "addr option \<Rightarrow> bool \<Rightarrow> sync_heap \<Rightarrow> (dlsm_status \<times> sync_heap) option" where
  "dlsm_gt_wait_group_done g alloc_ok h = dlsm_gt_wait_group_add g (- 1) alloc_ok h"

definition dlsm_gt_wait_group_wait ::
  "addr option \<Rightarrow> handle option \<Rightarrow> addr \<Rightarrow> sync_heap \<Rightarrow> outcome \<times> sync_heap" where
  "dlsm_gt_wait_group_wait g cur w h = (case g of
     None \<Rightarrow> (Return DLSM_SYNC_E_INVAL, h)
   | Some p \<Rightarrow>
       if \<not> wg_initialized (sh_group h p) then (Return DLSM_SYNC_E_INVAL, h)
       else if wg_count (sh_group h p) = 0 then (Return DLSM_OK, h)
       else (case cur of
         None \<Rightarrow> (Return DLSM_SYNC_E_INVAL, h)
       | Some hdl \<Rightarrow>
           (case queue_push w (wg_q (sh_group h p), init_node w hdl (sh_nodes h)) of (q, ns) \<Rightarrow>
             (Parked, (upd_group p (\<lambda>g. g\<lparr>wg_waiters := wg_waiters g + 1, wg_q := q\<rparr>) h)
               \<lparr>sh_nodes := ns\<rparr>))))"

definition dlsm_gt_wait_group_wait_resume :: "addr \<Rightarrow> addr \<Rightarrow> sync_heap \<Rightarrow> outcome \<times> sync_heap" where
  "dlsm_gt_wait_group_wait_resume p w h =
     (if wn_granted (sh_nodes h w)
      then (Return DLSM_OK, upd_group p (\<lambda>g. g\<lparr>wg_waiters := wg_waiters g - 1\<rparr>) h)
      else (Parked, h))"

definition dlsm_gt_wait_group_destroy :: "addr option \<Rightarrow> sync_heap \<Rightarrow> dlsm_status \<times> sync_heap" where
  "dlsm_gt_wait_group_destroy g h = (case g of
     None \<Rightarrow> (DLSM_SYNC_E_INVAL, h)
   | Some p \<Rightarrow>
       let wg = sh_group h p in
       if \<not> wg_initialized wg then (DLSM_SYNC_E_INVAL, h)
       else if wg_count wg \<noteq> 0 \<or> wg_waiters wg \<noteq> 0 \<or>
               wq_head (wg_q wg) \<noteq> None \<or> wq_tail (wg_q wg) \<noteq> None
       then (DLSM_SYNC_E_STATE, h)
       else (DLSM_OK, upd_group p (\<lambda>g. g\<lparr>wg_initialized := False, wg_ops := None\<rparr>) h))"

subsection \<open>Completion\<close>

abbreviation upd_compl ::
  "addr \<Rightarrow> (dlsm_gt_completion \<Rightarrow> dlsm_gt_completion) \<Rightarrow> sync_heap \<Rightarrow> sync_heap" where
  "upd_compl p f h \<equiv> h\<lparr>sh_compl := (sh_compl h)(p := f (sh_compl h p))\<rparr>"

definition dlsm_gt_completion_init ::
  "addr option \<Rightarrow> dlsm_suspend_ops option \<Rightarrow> sync_heap \<Rightarrow> dlsm_status \<times> sync_heap" where
  "dlsm_gt_completion_init c ops h = (case c of
     None \<Rightarrow> (DLSM_SYNC_E_INVAL, h)
   | Some p \<Rightarrow>
       if \<not> ops_valid ops then (DLSM_SYNC_E_INVAL, h)
       else (DLSM_OK, h\<lparr>sh_compl := (sh_compl h)(p :=
              \<lparr>cp_ops = ops, cp_initialized = True, cp_completed = False, cp_q = waitq_empty\<rparr>)\<rparr>))"

definition dlsm_gt_completion_wait ::
  "addr option \<Rightarrow> handle option \<Rightarrow> addr \<Rightarrow> sync_heap \<Rightarrow> outcome \<times> sync_heap" where
  "dlsm_gt_completion_wait c cur w h = (case c of
     None \<Rightarrow> (Return DLSM_SYNC_E_INVAL, h)
   | Some p \<Rightarrow>
       if \<not> cp_initialized (sh_compl h p) then (Return DLSM_SYNC_E_INVAL, h)
       else if cp_completed (sh_compl h p) then (Return DLSM_OK, h)
       else (case cur of
         None \<Rightarrow> (Return DLSM_SYNC_E_INVAL, h)
       | Some hdl \<Rightarrow>
           (case queue_push w (cp_q (sh_compl h p), init_node w hdl (sh_nodes h)) of (q, ns) \<Rightarrow>
             (Parked, (upd_compl p (\<lambda>c. c\<lparr>cp_q := q\<rparr>) h)\<lparr>sh_nodes := ns\<rparr>))))"

definition dlsm_gt_completion_complete ::
  "addr option \<Rightarrow> bool \<Rightarrow> sync_heap \<Rightarrow> (dlsm_status \<times> sync_heap) option" where
  "dlsm_gt_completion_complete c alloc_ok h = (case c of
     None \<Rightarrow> Some (DLSM_SYNC_E_INVAL, h)
   | Some p \<Rightarrow>
       if \<not> cp_initialized (sh_compl h p) then Some (DLSM_SYNC_E_INVAL, h)
       else if cp_completed (sh_compl h p) then Some (DLSM_SYNC_E_STATE, h)
       else (case grant_all_locked alloc_ok (cp_q (sh_compl h p), sh_nodes h, sh_unparked h) of
           None \<Rightarrow> None
         | Some (q, ns, log) \<Rightarrow> Some (DLSM_OK,
             (upd_compl p (\<lambda>c. c\<lparr>cp_completed := True, cp_q := q\<rparr>) h)
               \<lparr>sh_nodes := ns, sh_unparked := log\<rparr>)))"

definition dlsm_gt_completion_destroy :: "addr option \<Rightarrow> sync_heap \<Rightarrow> dlsm_status \<times> sync_heap" where
  "dlsm_gt_completion_destroy c h = (case c of
     None \<Rightarrow> (DLSM_SYNC_E_INVAL, h)
   | Some p \<Rightarrow>
       let cp = sh_compl h p in
       if \<not> cp_initialized cp then (DLSM_SYNC_E_INVAL, h)
       else if wq_head (cp_q cp) \<noteq> None \<or> wq_tail (cp_q cp) \<noteq> None then (DLSM_SYNC_E_STATE, h)
       else (DLSM_OK, upd_compl p (\<lambda>c. c\<lparr>cp_initialized := False, cp_ops := None\<rparr>) h))"

section \<open>Queueing and granting\<close>

lemma push_init:
  assumes "waitq_rep (q, ns) xs" and "w \<notin> set xs"
    and "queue_push w (q, init_node w t ns) = (q', ns')"
  shows "waitq_rep (q', ns') (xs @ [w])"
    and "wn_handle (ns' b) = (if b = w then t else wn_handle (ns b))"
    and "wn_granted (ns' b) = (b \<noteq> w \<and> wn_granted (ns b))"
proof -
  have "waitq_rep (q, init_node w t ns) xs" using assms(1,2) by simp
  from waitq_rep_push [OF this assms(2)] assms(3) show "waitq_rep (q', ns') (xs @ [w])" by simp
  show "wn_handle (ns' b) = (if b = w then t else wn_handle (ns b))"
    "wn_granted (ns' b) = (b \<noteq> w \<and> wn_granted (ns b))"
    using push_handles [OF assms(3), of b] by auto
qed

lemma push_init_frame:
  assumes "waitq_rep (q, ns) xs" and "queue_push w (q, init_node w t ns) = (q', ns')"
    and "b \<notin> set xs" and "b \<noteq> w"
  shows "wn_next (ns' b) = wn_next (ns b)"
proof -
  have "wq_tail q = last_opt xs" using assms(1) by (rule waitq_rep_tail)
  with assms(2-4) show ?thesis
    by (auto simp: queue_push_def Let_def init_node_def set_next_def split: if_splits)
qed

lemma pop_rep:
  assumes "waitq_rep (q, ns) (x # xs)"
  obtains q' ns' where "queue_pop (q, ns) = (Some x, q', ns')" and "waitq_rep (q', ns') xs"
    and "\<And>b. wn_handle (ns' b) = wn_handle (ns b)" and "\<And>b. wn_granted (ns' b) = wn_granted (ns b)"
proof -
  obtain r q' ns' where e: "queue_pop (q, ns) = (r, q', ns')" by (cases "queue_pop (q, ns)") auto
  with waitq_rep_pop_Cons [OF assms] pop_handles [OF e] that show ?thesis by auto
qed

text \<open>A node that was appended and is taken out again: every other node is as before.\<close>

lemma remove_last_frame:
  assumes rep: "waitq_rep (q, ns) (xs @ [w])" and rm: "queue_remove w (q, ns) = Some (r, q', ns')"
    and b: "b \<notin> set xs" "b \<noteq> w"
  shows "wn_next (ns' b) = wn_next (ns b)"
proof -
  have s: "lseg (wn_next \<circ> ns) (wq_head q) ([] @ xs @ w # []) None"
    using rep by (simp add: waitq_rep_simp queue_rep_def)
  have "w \<notin> set xs" using waitq_rep_distinct [OF rep] by simp
  with seek_link_found [OF s]
  have "seek_link (wn_next \<circ> ns) (wq_head q) w Head_link = Some (link_after xs)" by simp
  with rm b show ?thesis
    by (auto simp: queue_remove_def store_link_def set_next_def
        split: option.splits if_splits link.splits prod.splits)
qed

section \<open>Gates\<close>

text \<open>
  Event, completion and wait group share one contract: while the gate is closed waiters queue
  up, an opening grants and unparks all of them in order, and nobody ever waits at an open gate.
\<close>

locale gate =
  fixes inv :: "sync_heap \<Rightarrow> addr list \<Rightarrow> bool"
    and opened :: "sync_heap \<Rightarrow> bool"
    and can_open :: "sync_heap \<Rightarrow> bool"
    and wait :: "handle \<Rightarrow> addr \<Rightarrow> sync_heap \<Rightarrow> outcome \<times> sync_heap"
    and open_gate :: "sync_heap \<Rightarrow> (dlsm_status \<times> sync_heap) option"
  assumes opened_empty: "inv h xs \<Longrightarrow> opened h \<Longrightarrow> xs = []"
    and wait_opened: "inv h xs \<Longrightarrow> opened h \<Longrightarrow> fst (wait t w h) = Return DLSM_OK"
    and wait_closed: "inv h xs \<Longrightarrow> \<not> opened h \<Longrightarrow> w \<notin> set xs \<Longrightarrow> \<exists>h'. wait t w h = (Parked, h') \<and>
       inv h' (xs @ [w]) \<and> \<not> opened h' \<and> can_open h' = can_open h \<and> sh_unparked h' = sh_unparked h \<and>
       (\<forall>b. wn_handle (sh_nodes h' b) = (if b = w then t else wn_handle (sh_nodes h b))) \<and>
       (\<forall>b. wn_granted (sh_nodes h' b) = (b \<noteq> w \<and> wn_granted (sh_nodes h b)))"
    and open_grants: "inv h xs \<Longrightarrow> can_open h \<Longrightarrow> \<exists>h'. open_gate h = Some (DLSM_OK, h') \<and>
       inv h' [] \<and> opened h' \<and>
       (\<forall>b. wn_granted (sh_nodes h' b) = (b \<in> set xs \<or> wn_granted (sh_nodes h b))) \<and>
       sh_unparked h' = sh_unparked h @ map (\<lambda>a. wn_handle (sh_nodes h a)) xs"
begin

definition wait_all :: "(handle \<times> addr) list \<Rightarrow> sync_heap \<Rightarrow> sync_heap" where
  "wait_all ws h = fold (\<lambda>(t, w) h. snd (wait t w h)) ws h"

lemma wait_all_closed:
  assumes "inv h xs" and "\<not> opened h" and "distinct (xs @ map snd ws)"
  shows "inv (wait_all ws h) (xs @ map snd ws) \<and> can_open (wait_all ws h) = can_open h \<and>
    sh_unparked (wait_all ws h) = sh_unparked h \<and>
    map (\<lambda>a. wn_handle (sh_nodes (wait_all ws h) a)) (xs @ map snd ws) =
      map (\<lambda>a. wn_handle (sh_nodes h a)) xs @ map fst ws"
  using assms
proof (induction ws arbitrary: h xs)
  case Nil
  then show ?case by (simp add: wait_all_def)
next
  case (Cons tw ws)
  obtain t w where tw: "tw = (t, w)" by (cases tw)
  have wx: "w \<notin> set xs" using Cons.prems(3) tw by auto
  from wait_closed [OF Cons.prems(1,2) wx, of t] obtain h' where h': "wait t w h = (Parked, h')"
    and i: "inv h' (xs @ [w])" and n: "\<not> opened h'"
    and e: "can_open h' = can_open h" "sh_unparked h' = sh_unparked h"
    and hd: "\<And>b. wn_handle (sh_nodes h' b) = (if b = w then t else wn_handle (sh_nodes h b))"
    by blast
  have d: "distinct ((xs @ [w]) @ map snd ws)" using Cons.prems(3) tw by auto
  have "map (\<lambda>a. wn_handle (sh_nodes h' a)) xs = map (\<lambda>a. wn_handle (sh_nodes h a)) xs"
    using wx hd by (intro map_cong) auto
  with Cons.IH [OF i n d] h' e hd tw show ?case by (simp add: wait_all_def)
qed

text \<open>Everybody who waited at the closed gate is granted and unparked once, in arrival order.\<close>

lemma open_releases_all:
  assumes "inv h []" and "\<not> opened h" and "can_open h" and "distinct (map snd ws)"
  shows "\<exists>h'. open_gate (wait_all ws h) = Some (DLSM_OK, h') \<and> inv h' [] \<and> opened h' \<and>
    (\<forall>a \<in> set (map snd ws). wn_granted (sh_nodes h' a)) \<and>
    sh_unparked h' = sh_unparked h @ map fst ws"
proof -
  from assms have w: "inv (wait_all ws h) (map snd ws)" "can_open (wait_all ws h)"
    "sh_unparked (wait_all ws h) = sh_unparked h"
    "map (\<lambda>a. wn_handle (sh_nodes (wait_all ws h) a)) (map snd ws) = map fst ws"
    using wait_all_closed [of h "[]" ws] by simp_all
  from open_grants [OF w(1,2)] w(3,4) show ?thesis by force
qed

end

definition event_inv :: "addr \<Rightarrow> sync_heap \<Rightarrow> addr list \<Rightarrow> bool" where
  "event_inv p h xs \<longleftrightarrow> ev_initialized (sh_event h p) \<and>
     waitq_rep (ev_q (sh_event h p), sh_nodes h) xs \<and> (ev_signalled (sh_event h p) \<longrightarrow> xs = [])"

lemma event_wait_closed:
  assumes "event_inv p h xs" and "\<not> ev_signalled (sh_event h p)" and "w \<notin> set xs"
  shows "\<exists>h'. dlsm_gt_event_wait (Some p) (Some t) w h = (Parked, h') \<and>
    event_inv p h' (xs @ [w]) \<and> \<not> ev_signalled (sh_event h' p) \<and> sh_unparked h' = sh_unparked h \<and>
    (\<forall>b. wn_handle (sh_nodes h' b) = (if b = w then t else wn_handle (sh_nodes h b))) \<and>
    (\<forall>b. wn_granted (sh_nodes h' b) = (b \<noteq> w \<and> wn_granted (sh_nodes h b)))"
proof -
  have rep: "waitq_rep (ev_q (sh_event h p), sh_nodes h) xs" using assms(1) by (simp add: event_inv_def)
  obtain q ns where qp: "queue_push w (ev_q (sh_event h p), init_node w t (sh_nodes h)) = (q, ns)"
    by (meson surj_pair)
  with push_init [OF rep assms(3) qp] assms show ?thesis
    by (simp add: dlsm_gt_event_wait_def event_inv_def Let_def)
qed

lemma event_set_opens:
  assumes "event_inv p h xs"
  shows "\<exists>h'. dlsm_gt_event_set (Some p) ok h = Some (DLSM_OK, h') \<and> event_inv p h' [] \<and>
    ev_signalled (sh_event h' p) \<and>
    (\<forall>b. wn_granted (sh_nodes h' b) = (b \<in> set xs \<or> wn_granted (sh_nodes h b))) \<and>
    sh_unparked h' = sh_unparked h @ map (\<lambda>a. wn_handle (sh_nodes h a)) xs"
proof -
  have rep: "waitq_rep (ev_q (sh_event h p), sh_nodes h) xs" using assms by (simp add: event_inv_def)
  with grant_all_locked_rep [OF rep, of ok] assms show ?thesis
    by (simp add: dlsm_gt_event_set_def event_inv_def)
qed

interpretation event_gate: gate "event_inv p" "\<lambda>h. ev_signalled (sh_event h p)" "\<lambda>_. True"
  "\<lambda>t. dlsm_gt_event_wait (Some p) (Some t)" "dlsm_gt_event_set (Some p) ok" for p ok
proof unfold_locales
  show "event_inv p h xs \<Longrightarrow> ev_signalled (sh_event h p) \<Longrightarrow>
      fst (dlsm_gt_event_wait (Some p) (Some t) w h) = Return DLSM_OK" for h xs t w
    by (simp add: event_inv_def dlsm_gt_event_wait_def Let_def)
qed (use event_wait_closed event_set_opens in \<open>auto simp: event_inv_def\<close>)

definition completion_inv :: "addr \<Rightarrow> sync_heap \<Rightarrow> addr list \<Rightarrow> bool" where
  "completion_inv p h xs \<longleftrightarrow> cp_initialized (sh_compl h p) \<and>
     waitq_rep (cp_q (sh_compl h p), sh_nodes h) xs \<and> (cp_completed (sh_compl h p) \<longrightarrow> xs = [])"

lemma completion_wait_closed:
  assumes "completion_inv p h xs" and "\<not> cp_completed (sh_compl h p)" and "w \<notin> set xs"
  shows "\<exists>h'. dlsm_gt_completion_wait (Some p) (Some t) w h = (Parked, h') \<and>
    completion_inv p h' (xs @ [w]) \<and> \<not> cp_completed (sh_compl h' p) \<and>
    sh_unparked h' = sh_unparked h \<and>
    (\<forall>b. wn_handle (sh_nodes h' b) = (if b = w then t else wn_handle (sh_nodes h b))) \<and>
    (\<forall>b. wn_granted (sh_nodes h' b) = (b \<noteq> w \<and> wn_granted (sh_nodes h b)))"
proof -
  have rep: "waitq_rep (cp_q (sh_compl h p), sh_nodes h) xs"
    using assms(1) by (simp add: completion_inv_def)
  obtain q ns where qp: "queue_push w (cp_q (sh_compl h p), init_node w t (sh_nodes h)) = (q, ns)"
    by (meson surj_pair)
  with push_init [OF rep assms(3) qp] assms show ?thesis
    by (simp add: dlsm_gt_completion_wait_def completion_inv_def)
qed

lemma completion_complete_opens:
  assumes "completion_inv p h xs" and "\<not> cp_completed (sh_compl h p)"
  shows "\<exists>h'. dlsm_gt_completion_complete (Some p) ok h = Some (DLSM_OK, h') \<and>
    completion_inv p h' [] \<and> cp_completed (sh_compl h' p) \<and>
    (\<forall>b. wn_granted (sh_nodes h' b) = (b \<in> set xs \<or> wn_granted (sh_nodes h b))) \<and>
    sh_unparked h' = sh_unparked h @ map (\<lambda>a. wn_handle (sh_nodes h a)) xs"
proof -
  have rep: "waitq_rep (cp_q (sh_compl h p), sh_nodes h) xs"
    using assms by (simp add: completion_inv_def)
  with grant_all_locked_rep [OF rep, of ok] assms show ?thesis
    by (simp add: dlsm_gt_completion_complete_def completion_inv_def)
qed

interpretation completion_gate: gate "completion_inv p" "\<lambda>h. cp_completed (sh_compl h p)"
  "\<lambda>h. \<not> cp_completed (sh_compl h p)"
  "\<lambda>t. dlsm_gt_completion_wait (Some p) (Some t)" "dlsm_gt_completion_complete (Some p) ok" for p ok
proof unfold_locales
  show "completion_inv p h xs \<Longrightarrow> cp_completed (sh_compl h p) \<Longrightarrow>
      fst (dlsm_gt_completion_wait (Some p) (Some t) w h) = Return DLSM_OK" for h xs t w
    by (simp add: completion_inv_def dlsm_gt_completion_wait_def)
qed (use completion_wait_closed completion_complete_opens in \<open>auto simp: completion_inv_def\<close>)

section \<open>Wait group\<close>

definition group_inv :: "addr \<Rightarrow> sync_heap \<Rightarrow> addr list \<Rightarrow> bool" where
  "group_inv p h xs \<longleftrightarrow> wg_initialized (sh_group h p) \<and>
     waitq_rep (wg_q (sh_group h p), sh_nodes h) xs \<and> (wg_count (sh_group h p) = 0 \<longrightarrow> xs = [])"

lemma group_wait_closed:
  assumes "group_inv p h xs" and "wg_count (sh_group h p) \<noteq> 0" and "w \<notin> set xs"
  shows "\<exists>h'. dlsm_gt_wait_group_wait (Some p) (Some t) w h = (Parked, h') \<and>
    group_inv p h' (xs @ [w]) \<and> wg_count (sh_group h' p) = wg_count (sh_group h p) \<and>
    wg_waiters (sh_group h' p) = wg_waiters (sh_group h p) + 1 \<and>
    sh_unparked h' = sh_unparked h \<and>
    (\<forall>b. wn_handle (sh_nodes h' b) = (if b = w then t else wn_handle (sh_nodes h b))) \<and>
    (\<forall>b. wn_granted (sh_nodes h' b) = (b \<noteq> w \<and> wn_granted (sh_nodes h b)))"
proof -
  have rep: "waitq_rep (wg_q (sh_group h p), sh_nodes h) xs"
    using assms(1) by (simp add: group_inv_def)
  obtain q ns where qp: "queue_push w (wg_q (sh_group h p), init_node w t (sh_nodes h)) = (q, ns)"
    by (meson surj_pair)
  with push_init [OF rep assms(3) qp] assms show ?thesis
    by (simp add: dlsm_gt_wait_group_wait_def group_inv_def)
qed

text \<open>The two casts of \<open>delta\<close>, for every value of an \<open>int64_t\<close>.\<close>

lemma uint_word_of_int_u64: "0 \<le> d \<Longrightarrow> d < 2 ^ 64 \<Longrightarrow> uint (word_of_int d :: u64) = d"
  by (simp add: uint_word_of_int_eq take_bit_int_eq_self)

lemma uint_increment: "0 < d \<Longrightarrow> d < 2 ^ 63 \<Longrightarrow> uint (word_of_int d :: u64) = d"
  by (simp add: uint_word_of_int_u64)

lemma uint_decrement:
  assumes "d < 0" and "- (2 ^ 63) \<le> d"
  shows "uint (word_of_int (- (d + 1)) + 1 :: u64) = - d"
proof -
  have "word_of_int (- (d + 1)) + 1 = (word_of_int (- d) :: u64)" by simp
  moreover have "0 \<le> - d" "- d < 2 ^ 64" using assms by auto
  ultimately show ?thesis using uint_word_of_int_u64 [of "- d"] by metis
qed

text \<open>
  What \<open>add\<close> does, by the sign of \<open>delta\<close> and the mathematical value of the new count.
\<close>

definition group_after ::
  "addr \<Rightarrow> sync_heap \<Rightarrow> addr list \<Rightarrow> int \<Rightarrow> bool \<Rightarrow> sync_heap \<Rightarrow> bool" where
  "group_after p h xs c wake h' \<longleftrightarrow>
     uint (wg_count (sh_group h' p)) = c \<and>
     wg_waiters (sh_group h' p) = wg_waiters (sh_group h p) \<and>
     group_inv p h' (if wake then [] else xs) \<and>
     (\<forall>b. wn_granted (sh_nodes h' b) = (wake \<and> b \<in> set xs \<or> wn_granted (sh_nodes h b))) \<and>
     sh_unparked h' = sh_unparked h @ (if wake then map (\<lambda>a. wn_handle (sh_nodes h a)) xs else [])"

lemma group_add_positive:
  assumes "group_inv p h xs" and "0 < d" and "d < 2 ^ 63"
  shows "\<exists>h'. dlsm_gt_wait_group_add (Some p) d ok h =
      (if uint (wg_count (sh_group h p)) + d < 2 ^ 64 \<and>
          \<not> (wg_count (sh_group h p) = 0 \<and> wg_waiters (sh_group h p) \<noteq> 0)
       then Some (DLSM_OK, h') else Some (DLSM_SYNC_E_STATE, h)) \<and>
    (uint (wg_count (sh_group h p)) + d < 2 ^ 64 \<and>
     \<not> (wg_count (sh_group h p) = 0 \<and> wg_waiters (sh_group h p) \<noteq> 0) \<longrightarrow>
       group_after p h xs (uint (wg_count (sh_group h p)) + d) False h')"
proof -
  let ?g = "sh_group h p" and ?i = "word_of_int d :: u64"
  have i: "uint ?i = d" using assms(2,3) by (rule uint_increment)
  have lt: "UINT64_MAX - ?i < wg_count ?g \<longleftrightarrow> \<not> uint (wg_count ?g) + d < 2 ^ 64"
    using i by (auto simp: u64_max_diff_less_uint)
  have c: "uint (wg_count ?g) + d < 2 ^ 64 \<Longrightarrow>
      uint (wg_count ?g + ?i) = uint (wg_count ?g) + d"
    using i by (simp add: uint_add_no_overflow)
  then have nz: "uint (wg_count ?g) + d < 2 ^ 64 \<Longrightarrow> wg_count ?g + ?i \<noteq> 0"
    using assms(2) unsigned_greater_eq [of "wg_count ?g"] by (metis add_nonneg_pos less_irrefl uint_0_iff)
  show ?thesis
    using assms(1,2) lt c nz
    by (auto simp: dlsm_gt_wait_group_add_def group_after_def group_inv_def Let_def)
qed

lemma group_add_negative:
  assumes inv: "group_inv p h xs" and d: "d < 0" "- (2 ^ 63) \<le> d"
  shows "\<exists>h'. dlsm_gt_wait_group_add (Some p) d ok h =
      (if 0 \<le> uint (wg_count (sh_group h p)) + d
       then Some (DLSM_OK, h') else Some (DLSM_SYNC_E_STATE, h)) \<and>
    (0 \<le> uint (wg_count (sh_group h p)) + d \<longrightarrow>
       group_after p h xs (uint (wg_count (sh_group h p)) + d)
         (uint (wg_count (sh_group h p)) + d = 0) h')"
proof -
  let ?g = "sh_group h p" and ?d = "word_of_int (- (d + 1)) + 1 :: u64"
  have u: "uint ?d = - d" using d by (rule uint_decrement)
  have lt: "wg_count ?g < ?d \<longleftrightarrow> \<not> 0 \<le> uint (wg_count ?g) + d"
    using u by (auto simp: word_less_def)
  have s: "0 \<le> uint (wg_count ?g) + d \<Longrightarrow>
      uint (wg_count ?g - ?d) = uint (wg_count ?g) + d"
    using uint_sub_no_borrow [of ?d "wg_count ?g"] u by simp
  then have z: "0 \<le> uint (wg_count ?g) + d \<Longrightarrow>
      wg_count ?g - ?d = 0 \<longleftrightarrow> uint (wg_count ?g) + d = 0"
    by (metis uint_0_iff)
  have nd: "\<not> 0 < d" "d \<noteq> 0" using d by auto
  have rep: "waitq_rep (wg_q ?g, sh_nodes h) xs" using inv by (simp add: group_inv_def)
  define e where "e = ?d"
  note facts = lt [folded e_def] s [folded e_def] z [folded e_def]
  show ?thesis
    using inv nd facts grant_all_locked_rep [OF rep, of ok]
    unfolding dlsm_gt_wait_group_add_def e_def [symmetric]
    by (auto simp: group_after_def group_inv_def Let_def)
qed

lemma group_done_opens:
  assumes "group_inv p h xs" and "wg_count (sh_group h p) = 1"
  shows "\<exists>h'. dlsm_gt_wait_group_done (Some p) ok h = Some (DLSM_OK, h') \<and> group_inv p h' [] \<and>
    wg_count (sh_group h' p) = 0 \<and>
    (\<forall>b. wn_granted (sh_nodes h' b) = (b \<in> set xs \<or> wn_granted (sh_nodes h b))) \<and>
    sh_unparked h' = sh_unparked h @ map (\<lambda>a. wn_handle (sh_nodes h a)) xs"
  using group_add_negative [OF assms(1), of "- 1" ok] assms(2)
  by (auto simp: dlsm_gt_wait_group_done_def group_after_def uint_0_iff)

interpretation group_gate: gate "group_inv p" "\<lambda>h. wg_count (sh_group h p) = 0"
  "\<lambda>h. wg_count (sh_group h p) = 1"
  "\<lambda>t. dlsm_gt_wait_group_wait (Some p) (Some t)" "dlsm_gt_wait_group_done (Some p) ok" for p ok
proof unfold_locales
  show "group_inv p h xs \<Longrightarrow> wg_count (sh_group h p) = 0 \<Longrightarrow>
      fst (dlsm_gt_wait_group_wait (Some p) (Some t) w h) = Return DLSM_OK" for h xs t w
    by (simp add: group_inv_def dlsm_gt_wait_group_wait_def)
  show "\<exists>h'. dlsm_gt_wait_group_wait (Some p) (Some t) w h = (Parked, h') \<and>
      group_inv p h' (xs @ [w]) \<and> wg_count (sh_group h' p) \<noteq> 0 \<and>
      (wg_count (sh_group h' p) = 1) = (wg_count (sh_group h p) = 1) \<and>
      sh_unparked h' = sh_unparked h \<and>
      (\<forall>b. wn_handle (sh_nodes h' b) = (if b = w then t else wn_handle (sh_nodes h b))) \<and>
      (\<forall>b. wn_granted (sh_nodes h' b) = (b \<noteq> w \<and> wn_granted (sh_nodes h b)))"
    if "group_inv p h xs" and "wg_count (sh_group h p) \<noteq> 0" and "w \<notin> set xs" for h xs t w
    using group_wait_closed [OF that, of t] that(2) by force
qed (use group_done_opens in \<open>simp_all add: group_inv_def\<close>)

section \<open>Semaphore: interleavings of any number of tasks\<close>

text \<open>
  Each task is outside or suspended on a node. Two history counters record how many posts
  succeeded and how many waits returned.
\<close>

record sem_sys =
  ss_heap :: sync_heap
  ss_pc :: "handle \<Rightarrow> addr option"
  ss_posted :: nat
  ss_taken :: nat

inductive sem_step :: "addr \<Rightarrow> sem_sys \<Rightarrow> sem_sys \<Rightarrow> bool" for p :: addr where
  sem_wait:
    "ss_pc s t = None \<Longrightarrow> \<forall>u. ss_pc s u \<noteq> Some w \<Longrightarrow>
     dlsm_gt_semaphore_wait (Some p) (Some t) w (ss_heap s) = (r, h') \<Longrightarrow>
     sem_step p s (s\<lparr>ss_heap := h',
       ss_pc := (ss_pc s)(t := if r = Parked then Some w else None),
       ss_taken := ss_taken s + (if r = Return DLSM_OK then 1 else 0)\<rparr>)"
| sem_resume:
    "ss_pc s t = Some w \<Longrightarrow> wait_resume w (ss_heap s) = (r, h') \<Longrightarrow>
     sem_step p s (s\<lparr>ss_heap := h',
       ss_pc := (ss_pc s)(t := if r = Parked then Some w else None),
       ss_taken := ss_taken s + (if r = Return DLSM_OK then 1 else 0)\<rparr>)"
| sem_post:
    "dlsm_gt_semaphore_post (Some p) (ss_heap s) = (st, h') \<Longrightarrow>
     sem_step p s (s\<lparr>ss_heap := h',
       ss_posted := ss_posted s + (if st = DLSM_OK then 1 else 0)\<rparr>)"

inductive sem_reachable :: "addr \<Rightarrow> u64 \<Rightarrow> sem_sys \<Rightarrow> bool" for p :: addr and n :: u64 where
  sem_init: "dlsm_gt_semaphore_init (Some p) ops n h = (DLSM_OK, h') \<Longrightarrow>
     sem_reachable p n \<lparr>ss_heap = h', ss_pc = (\<lambda>_. None), ss_posted = 0, ss_taken = 0\<rparr>"
| sem_next: "sem_reachable p n s \<Longrightarrow> sem_step p s s' \<Longrightarrow> sem_reachable p n s'"

text \<open>The tasks that were given a unit and have not run yet.\<close>

definition sem_granted :: "sem_sys \<Rightarrow> handle set" where
  "sem_granted s = {t. \<exists>a. ss_pc s t = Some a \<and> wn_granted (sh_nodes (ss_heap s) a)}"

definition sem_view :: "addr \<Rightarrow> u64 \<Rightarrow> sem_sys \<Rightarrow> addr list \<Rightarrow> bool" where
  "sem_view p n s xs \<longleftrightarrow>
     sm_initialized (sh_sem (ss_heap s) p) \<and>
     waitq_rep (sm_q (sh_sem (ss_heap s) p), sh_nodes (ss_heap s)) xs \<and>
     (sm_count (sh_sem (ss_heap s) p) \<noteq> 0 \<longrightarrow> xs = []) \<and>
     (\<forall>a. a \<in> set xs \<longleftrightarrow> (\<exists>t. ss_pc s t = Some a) \<and> \<not> wn_granted (sh_nodes (ss_heap s) a)) \<and>
     (\<forall>t a. ss_pc s t = Some a \<longrightarrow> wn_handle (sh_nodes (ss_heap s) a) = t) \<and>
     finite (sem_granted s) \<and>
     unat (sm_count (sh_sem (ss_heap s) p)) + ss_taken s + card (sem_granted s) =
       unat n + ss_posted s"

lemma sem_viewD:
  assumes "sem_view p n s xs"
  shows "sm_initialized (sh_sem (ss_heap s) p)"
    and "waitq_rep (sm_q (sh_sem (ss_heap s) p), sh_nodes (ss_heap s)) xs"
    and "sm_count (sh_sem (ss_heap s) p) \<noteq> 0 \<Longrightarrow> xs = []"
    and "a \<in> set xs \<longleftrightarrow> (\<exists>t. ss_pc s t = Some a) \<and> \<not> wn_granted (sh_nodes (ss_heap s) a)"
    and "ss_pc s t = Some a \<Longrightarrow> wn_handle (sh_nodes (ss_heap s) a) = t"
    and "finite (sem_granted s)"
    and "unat (sm_count (sh_sem (ss_heap s) p)) + ss_taken s + card (sem_granted s) =
       unat n + ss_posted s"
  using assms by (auto simp: sem_view_def)

lemma sem_view_wait_take:
  assumes v: "sem_view p n s xs" and t: "ss_pc s t = None" and w: "\<forall>u. ss_pc s u \<noteq> Some w"
    and c: "sm_count (sh_sem (ss_heap s) p) \<noteq> 0"
  shows "\<exists>h'. dlsm_gt_semaphore_wait (Some p) (Some t) w (ss_heap s) = (Return DLSM_OK, h') \<and>
    sem_view p n (s\<lparr>ss_heap := h', ss_pc := (ss_pc s)(t := None), ss_taken := ss_taken s + 1\<rparr>) []"
proof -
  let ?h' = "upd_sem p (\<lambda>s. s\<lparr>sm_count := sm_count s - 1\<rparr>)
    ((ss_heap s)\<lparr>sh_nodes := init_node w t (sh_nodes (ss_heap s))\<rparr>)"
  let ?s' = "s\<lparr>ss_heap := ?h', ss_pc := (ss_pc s)(t := None), ss_taken := ss_taken s + 1\<rparr>"
  note d = sem_viewD [OF v]
  have xs: "xs = []" using d(3) c by blast
  have pc: "(ss_pc s)(t := None) = ss_pc s" using t by auto
  have g: "sem_granted ?s' = sem_granted s" unfolding sem_granted_def pc using w by auto
  have e: "dlsm_gt_semaphore_wait (Some p) (Some t) w (ss_heap s) = (Return DLSM_OK, ?h')"
    using d(1) c by (simp add: dlsm_gt_semaphore_wait_def Let_def word_gt_0)
  have "sem_view p n ?s' []"
    unfolding sem_view_def g using d(1,2,6,7) xs pc d(4) d(5) w unat_pred [OF c]
    by auto
  with e show ?thesis by blast
qed

lemma sem_view_wait_park:
  assumes v: "sem_view p n s xs" and t: "ss_pc s t = None" and w: "\<forall>u. ss_pc s u \<noteq> Some w"
    and c: "sm_count (sh_sem (ss_heap s) p) = 0"
  shows "\<exists>h'. dlsm_gt_semaphore_wait (Some p) (Some t) w (ss_heap s) = (Parked, h') \<and>
    sem_view p n (s\<lparr>ss_heap := h', ss_pc := (ss_pc s)(t := Some w)\<rparr>) (xs @ [w])"
proof -
  note d = sem_viewD [OF v]
  have wx: "w \<notin> set xs" using d(4) [of w] w by blast
  obtain q ns where qp: "queue_push w (sm_q (sh_sem (ss_heap s) p),
      init_node w t (sh_nodes (ss_heap s))) = (q, ns)" by (meson surj_pair)
  note pi = push_init [OF d(2) wx qp]
  let ?h' = "(upd_sem p (\<lambda>s. s\<lparr>sm_q := q\<rparr>)
    ((ss_heap s)\<lparr>sh_nodes := init_node w t (sh_nodes (ss_heap s))\<rparr>))\<lparr>sh_nodes := ns\<rparr>"
  let ?s' = "s\<lparr>ss_heap := ?h', ss_pc := (ss_pc s)(t := Some w)\<rparr>"
  have e: "dlsm_gt_semaphore_wait (Some p) (Some t) w (ss_heap s) = (Parked, ?h')"
    using d(1) c qp by (simp add: dlsm_gt_semaphore_wait_def Let_def)
  have g: "sem_granted ?s' = sem_granted s"
    using t w pi(3) by (auto simp: sem_granted_def)
  have q: "a \<in> set (xs @ [w]) \<longleftrightarrow> (\<exists>u. ss_pc ?s' u = Some a) \<and> \<not> wn_granted (sh_nodes ?h' a)" for a
    using d(4) [of a] t pi(3) [of a] ex_upd [of "\<lambda>x. x = Some a" "ss_pc s" t "Some w"] w
    by (auto; metis option.distinct(1))
  have "sem_view p n ?s' (xs @ [w])"
    unfolding sem_view_def g using d(1,6,7) c pi q d(5) w by auto
  with e show ?thesis by blast
qed

lemma sem_view_resume:
  assumes v: "sem_view p n s xs" and t: "ss_pc s t = Some w"
    and g: "wn_granted (sh_nodes (ss_heap s) w)"
  shows "sem_view p n (s\<lparr>ss_heap := ss_heap s, ss_pc := (ss_pc s)(t := None), ss_taken := ss_taken s + 1\<rparr>) xs"
proof -
  let ?s' = "s\<lparr>ss_heap := ss_heap s, ss_pc := (ss_pc s)(t := None), ss_taken := ss_taken s + 1\<rparr>"
  note d = sem_viewD [OF v]
  have m: "t \<in> sem_granted s" using t g by (auto simp: sem_granted_def)
  have r: "sem_granted ?s' = sem_granted s - {t}" by (auto simp: sem_granted_def)
  have c: "Suc (card (sem_granted s - {t})) = card (sem_granted s)"
    using card_Suc_Diff1 [OF d(6) m] .
  have q: "a \<in> set xs \<longleftrightarrow> (\<exists>u. ss_pc ?s' u = Some a) \<and> \<not> wn_granted (sh_nodes (ss_heap ?s') a)" for a
    using d(4) [of a] t g ex_upd [of "\<lambda>x. x = Some a" "ss_pc s" t None] by (auto; metis option.inject)
  show ?thesis
    unfolding sem_view_def r using d(1,2,3,6,7) c q d(5) by auto
qed

lemma sem_view_post_grant:
  assumes v: "sem_view p n s (x # xs)"
  shows "\<exists>h'. dlsm_gt_semaphore_post (Some p) (ss_heap s) = (DLSM_OK, h') \<and>
    sem_view p n (s\<lparr>ss_heap := h', ss_posted := ss_posted s + 1\<rparr>) xs"
proof -
  let ?h = "ss_heap s"
  note d = sem_viewD [OF v]
  obtain q ns where qp: "queue_pop (sm_q (sh_sem ?h p), sh_nodes ?h) = (Some x, q, ns)"
    and rep: "waitq_rep (q, ns) xs" and hd: "\<And>b. wn_handle (ns b) = wn_handle (sh_nodes ?h b)"
    and gr: "\<And>b. wn_granted (ns b) = wn_granted (sh_nodes ?h b)"
    using pop_rep [OF d(2)] by blast
  let ?h' = "(upd_sem p (\<lambda>s. s\<lparr>sm_q := q\<rparr>) ?h)\<lparr>sh_nodes := set_granted x ns,
    sh_unparked := sh_unparked ?h @ [wn_handle (ns x)]\<rparr>"
  let ?s' = "s\<lparr>ss_heap := ?h', ss_posted := ss_posted s + 1\<rparr>"
  have e: "dlsm_gt_semaphore_post (Some p) ?h = (DLSM_OK, ?h')"
    using d(1) qp by (simp add: dlsm_gt_semaphore_post_def Let_def)
  have dx: "x \<notin> set xs" using waitq_rep_distinct [OF d(2)] by simp
  obtain t where t: "ss_pc s t = Some x" and ng: "\<not> wn_granted (sh_nodes ?h x)"
    using d(4) [of x] by auto
  have u: "ss_pc s u = Some x \<longleftrightarrow> u = t" for u
    using d(5) [of u x] d(5) [OF t] t by metis
  have r: "sem_granted ?s' = insert t (sem_granted s)"
  proof (rule set_eqI)
    show "v \<in> sem_granted ?s' \<longleftrightarrow> v \<in> insert t (sem_granted s)" for v
      using u [of v] by (cases "ss_pc s v") (auto simp: sem_granted_def gr)
  qed
  have nt: "t \<notin> sem_granted s" using t ng by (auto simp: sem_granted_def)
  have q: "a \<in> set xs \<longleftrightarrow> (\<exists>u. ss_pc ?s' u = Some a) \<and> \<not> wn_granted (sh_nodes (ss_heap ?s') a)" for a
    using d(4) [of a] dx gr by auto
  have z: "sm_count (sh_sem ?h p) = 0" using d(3) by blast
  have "sem_view p n ?s' xs"
    unfolding sem_view_def r using d(1,6,7) z rep q d(5) hd nt by (simp add: card_insert_disjoint)
  with e show ?thesis by blast
qed

lemma sem_view_post_count:
  assumes v: "sem_view p n s []"
  shows "\<exists>h'. dlsm_gt_semaphore_post (Some p) (ss_heap s) =
      (if sm_count (sh_sem (ss_heap s) p) = UINT64_MAX then DLSM_SYNC_E_STATE else DLSM_OK, h') \<and>
    sem_view p n (s\<lparr>ss_heap := h', ss_posted := ss_posted s +
      (if sm_count (sh_sem (ss_heap s) p) = UINT64_MAX then 0 else 1)\<rparr>) []"
proof -
  let ?h = "ss_heap s"
  note d = sem_viewD [OF v]
  have qp: "queue_pop (sm_q (sh_sem ?h p), sh_nodes ?h) = (None, sm_q (sh_sem ?h p), sh_nodes ?h)"
    using waitq_rep_pop_Nil [OF d(2)] .
  have g: "sh_nodes h' = sh_nodes ?h \<Longrightarrow> sem_granted (s\<lparr>ss_heap := h', ss_posted := k\<rparr>) = sem_granted s"
    for h' k by (simp add: sem_granted_def)
  show ?thesis
  proof (cases "sm_count (sh_sem ?h p) = UINT64_MAX")
    case True
    with v g qp d(1) show ?thesis
      by (simp add: dlsm_gt_semaphore_post_def Let_def sem_view_def)
  next
    case False
    with v g qp d(1) unat_succ [OF False] show ?thesis
      by (simp add: dlsm_gt_semaphore_post_def Let_def sem_view_def)
  qed
qed

lemma sem_step_view:
  assumes "sem_step p s s'" and v: "sem_view p n s xs"
  shows "\<exists>ys. sem_view p n s' ys"
  using assms(1)
proof cases
  case (sem_wait t w r h')
  show ?thesis
  proof (cases "sm_count (sh_sem (ss_heap s) p) = 0")
    case True
    with sem_wait sem_view_wait_park [OF v sem_wait(2,3) True] show ?thesis by auto
  next
    case False
    with sem_wait sem_view_wait_take [OF v sem_wait(2,3) False] show ?thesis by auto
  qed
next
  case (sem_resume t w r h')
  show ?thesis
  proof (cases "wn_granted (sh_nodes (ss_heap s) w)")
    case True
    with sem_resume sem_view_resume [OF v sem_resume(2) True] show ?thesis
      by (auto simp: wait_resume_def)
  next
    case False
    have "(ss_pc s)(t := Some w) = ss_pc s" using sem_resume(2) by auto
    with False sem_resume v show ?thesis by (auto simp: wait_resume_def)
  qed
next
  case (sem_post st h')
  show ?thesis
  proof (cases xs)
    case Nil
    with sem_post sem_view_post_count [of p n s] v show ?thesis by (auto split: if_splits)
  next
    case (Cons x ys)
    with sem_post sem_view_post_grant [of p n s x ys] v show ?thesis by auto
  qed
qed

lemma sem_reachable_view: "sem_reachable p n s \<Longrightarrow> \<exists>xs. sem_view p n s xs"
proof (induction rule: sem_reachable.induct)
  case (sem_init ops h h')
  then show ?case
    by (auto simp: dlsm_gt_semaphore_init_def sem_view_def sem_granted_def split: if_splits)
next
  case (sem_next s s')
  then show ?case using sem_step_view by blast
qed

section \<open>Condition variable\<close>

definition cond_rep :: "addr \<Rightarrow> sync_heap \<Rightarrow> addr list \<Rightarrow> bool" where
  "cond_rep p h xs \<longleftrightarrow> cv_initialized (sh_cond h p) \<and> waitq_rep (cv_q (sh_cond h p), sh_nodes h) xs"

lemma unlock_frame [frame_simps]:
  "dlsm_gt_mutex_unlock m cur h = (st, h') \<Longrightarrow> sh_cond h' = sh_cond h"
  by (auto simp: dlsm_gt_mutex_unlock_def Let_def split: option.splits if_splits)

lemma cond_push_rep:
  assumes "cond_rep p h xs" and "w \<notin> set xs"
  shows "cond_rep p (cond_push p t w h) (xs @ [w])"
    and "wn_handle (sh_nodes (cond_push p t w h) b) = (if b = w then t else wn_handle (sh_nodes h b))"
    and "wn_granted (sh_nodes (cond_push p t w h) b) = (b \<noteq> w \<and> wn_granted (sh_nodes h b))"
    and "sh_unparked (cond_push p t w h) = sh_unparked h"
    and "sh_mutex (cond_push p t w h) = sh_mutex h"
    and "b \<notin> set xs \<Longrightarrow> b \<noteq> w \<Longrightarrow> wn_next (sh_nodes (cond_push p t w h) b) = wn_next (sh_nodes h b)"
proof -
  have rep: "waitq_rep (cv_q (sh_cond h p), sh_nodes h) xs" using assms(1) by (simp add: cond_rep_def)
  obtain q ns where qp: "queue_push w (cv_q (sh_cond h p), init_node w t (sh_nodes h)) = (q, ns)"
    by (meson surj_pair)
  note pi = push_init [OF rep assms(2) qp]
  show "cond_rep p (cond_push p t w h) (xs @ [w])"
    "wn_handle (sh_nodes (cond_push p t w h) b) = (if b = w then t else wn_handle (sh_nodes h b))"
    "wn_granted (sh_nodes (cond_push p t w h) b) = (b \<noteq> w \<and> wn_granted (sh_nodes h b))"
    "sh_unparked (cond_push p t w h) = sh_unparked h"
    "sh_mutex (cond_push p t w h) = sh_mutex h"
    using assms(1) pi qp by (auto simp: cond_push_def cond_rep_def)
  show "wn_next (sh_nodes (cond_push p t w h) b) = wn_next (sh_nodes h b)"
    if "b \<notin> set xs" "b \<noteq> w"
    using push_init_frame [OF rep qp that] qp by (simp add: cond_push_def)
qed

lemma cond_push_mutex_rep:
  assumes "cond_rep p h xs" and "mutex_rep h m own ys"
    and "w \<notin> set xs" and "w \<notin> set ys" and "set xs \<inter> set ys = {}"
  shows "mutex_rep (cond_push p t w h) m own ys"
proof -
  have "mutex_rep (cond_push p t w h) m own ys = mutex_rep h m own ys"
  proof (rule mutex_rep_cong)
    fix a assume a: "a \<in> set ys"
    then have "a \<notin> set xs" "a \<noteq> w" using assms(4,5) by auto
    then show "wn_next (sh_nodes (cond_push p t w h) a) = wn_next (sh_nodes h a)"
      "wn_granted (sh_nodes (cond_push p t w h) a) = wn_granted (sh_nodes h a)"
      by (simp_all add: cond_push_rep [OF assms(1,3)])
  qed (simp add: cond_push_rep [OF assms(1,3)])
  with assms(2) show ?thesis by simp
qed

lemma cond_remove_last:
  assumes "cond_rep p h (xs @ [w])"
  shows "\<exists>h'. cond_remove p w h = Some h' \<and> cond_rep p h' xs \<and> sh_unparked h' = sh_unparked h \<and>
    sh_mutex h' = sh_mutex h \<and>
    (\<forall>b. wn_granted (sh_nodes h' b) = wn_granted (sh_nodes h b)) \<and>
    (\<forall>b. b \<notin> set xs \<longrightarrow> b \<noteq> w \<longrightarrow> wn_next (sh_nodes h' b) = wn_next (sh_nodes h b))"
proof -
  have rep: "waitq_rep (cv_q (sh_cond h p), sh_nodes h) (xs @ [w])"
    using assms by (simp add: cond_rep_def)
  obtain q ns where rm: "queue_remove w (cv_q (sh_cond h p), sh_nodes h) = Some (True, q, ns)"
    and rep': "waitq_rep (q, ns) xs" using queue_remove_found [OF rep] by auto
  from assms rm rep' queue_remove_fields [OF rm] remove_last_frame [OF rep rm] show ?thesis
    by (simp add: cond_remove_def cond_rep_def)
qed

lemma cond_signal_Nil:
  "cond_rep p h [] \<Longrightarrow> dlsm_gt_condition_signal (Some p) h = (DLSM_OK, h)"
  using waitq_rep_pop_Nil [of "(cv_q (sh_cond h p), sh_nodes h)"]
  by (simp add: dlsm_gt_condition_signal_def cond_rep_def Let_def)

lemma cond_signal_Cons:
  assumes "cond_rep p h (x # xs)"
  shows "\<exists>h'. dlsm_gt_condition_signal (Some p) h = (DLSM_OK, h') \<and> cond_rep p h' xs \<and>
    (\<forall>b. wn_handle (sh_nodes h' b) = wn_handle (sh_nodes h b)) \<and>
    (\<forall>b. wn_granted (sh_nodes h' b) = (b = x \<or> wn_granted (sh_nodes h b))) \<and>
    sh_unparked h' = sh_unparked h @ [wn_handle (sh_nodes h x)]"
proof -
  have rep: "waitq_rep (cv_q (sh_cond h p), sh_nodes h) (x # xs)"
    using assms by (simp add: cond_rep_def)
  obtain q ns where "queue_pop (cv_q (sh_cond h p), sh_nodes h) = (Some x, q, ns)"
    "waitq_rep (q, ns) xs" "\<And>b. wn_handle (ns b) = wn_handle (sh_nodes h b)"
    "\<And>b. wn_granted (ns b) = wn_granted (sh_nodes h b)"
    using pop_rep [OF rep] by blast
  with assms show ?thesis
    by (simp add: dlsm_gt_condition_signal_def cond_rep_def Let_def)
qed

fun signals :: "nat \<Rightarrow> addr \<Rightarrow> sync_heap \<Rightarrow> sync_heap" where
  "signals 0 p h = h"
| "signals (Suc n) p h = signals n p (snd (dlsm_gt_condition_signal (Some p) h))"

lemma signals_all:
  assumes "cond_rep p h xs"
  shows "cond_rep p (signals (length xs) p h) [] \<and>
    (\<forall>b. wn_granted (sh_nodes (signals (length xs) p h) b) = (b \<in> set xs \<or> wn_granted (sh_nodes h b))) \<and>
    sh_unparked (signals (length xs) p h) =
      sh_unparked h @ map (\<lambda>a. wn_handle (sh_nodes h a)) xs"
  using assms
proof (induction xs arbitrary: h)
  case Nil
  then show ?case by simp
next
  case (Cons x xs)
  from cond_signal_Cons [OF Cons.prems] obtain h' where
    h': "dlsm_gt_condition_signal (Some p) h = (DLSM_OK, h')" "cond_rep p h' xs"
    "\<And>b. wn_handle (sh_nodes h' b) = wn_handle (sh_nodes h b)"
    "\<And>b. wn_granted (sh_nodes h' b) = (b = x \<or> wn_granted (sh_nodes h b))"
    "sh_unparked h' = sh_unparked h @ [wn_handle (sh_nodes h x)]" by blast
  from Cons.IH [OF h'(2)] h' show ?case by auto
qed

lemma cond_broadcast_all:
  assumes "cond_rep p h xs"
  shows "\<exists>h'. dlsm_gt_condition_broadcast (Some p) ok h = Some (DLSM_OK, h') \<and> cond_rep p h' [] \<and>
    (\<forall>b. wn_granted (sh_nodes h' b) = (b \<in> set xs \<or> wn_granted (sh_nodes h b))) \<and>
    sh_unparked h' = sh_unparked h @ map (\<lambda>a. wn_handle (sh_nodes h a)) xs"
proof -
  have rep: "waitq_rep (cv_q (sh_cond h p), sh_nodes h) xs" using assms by (simp add: cond_rep_def)
  from grant_all_locked_rep [OF rep, of ok] assms show ?thesis
    by (simp add: dlsm_gt_condition_broadcast_def cond_rep_def)
qed

text \<open>The caller owns the mutex: it is queued, and the mutex is released or handed over.\<close>

lemma cond_wait_parks:
  assumes c: "cond_rep p h xs" and m: "mutex_rep h m (Some t) ys"
    and fresh: "w \<notin> set xs" "w \<notin> set ys" "set xs \<inter> set ys = {}"
  shows "\<exists>h'. dlsm_gt_condition_wait (Some p) (Some m) (Some t) w h = Some (Parked, h') \<and>
    cond_rep p h' (xs @ [w]) \<and>
    mutex_rep h' m (case ys of [] \<Rightarrow> None | y # _ \<Rightarrow> Some (wn_handle (sh_nodes h y))) (tl ys) \<and>
    (\<forall>b. wn_handle (sh_nodes h' b) = (if b = w then t else wn_handle (sh_nodes h b))) \<and>
    \<not> wn_granted (sh_nodes h' w)"
proof -
  let ?h1 = "cond_push p t w h"
  note cp = cond_push_rep [OF c fresh(1), of t]
  have m1: "mutex_rep ?h1 m (Some t) ys" using cond_push_mutex_rep [OF c m fresh] .
  have e: "dlsm_gt_condition_wait (Some p) (Some m) (Some t) w h =
      cond_enqueue_and_unlock Parked p (Some m) t w h"
    using c by (simp add: dlsm_gt_condition_wait_def cond_rep_def)
  show ?thesis
  proof (cases ys)
    case Nil
    with m1 obtain h' where "dlsm_gt_mutex_unlock (Some m) (Some t) ?h1 = (DLSM_OK, h')"
      "mutex_rep h' m None []" "sh_nodes h' = sh_nodes ?h1" using unlock_free by blast
    with e cp Nil unlock_frame [of "Some m" "Some t" ?h1 DLSM_OK h'] show ?thesis
      by (simp add: cond_enqueue_and_unlock_def Let_def cond_rep_def)
  next
    case (Cons y zs)
    with m1 obtain h' where u: "dlsm_gt_mutex_unlock (Some m) (Some t) ?h1 = (DLSM_OK, h')"
      "mutex_rep h' m (Some (wn_handle (sh_nodes ?h1 y))) zs" "sh_nodes h' = set_granted y (sh_nodes ?h1)"
      using unlock_handoff by blast
    have "w \<noteq> y" using fresh(2) Cons by auto
    with u e cp Cons unlock_frame [OF u(1)] show ?thesis
      by (auto simp add: cond_enqueue_and_unlock_def Let_def cond_rep_def)
  qed
qed

section \<open>Properties\<close>

text \<open>
  Claim C30. The semaphore neither loses nor invents units: in every reachable interleaving of
  \<open>wait\<close>, resumption and \<open>post\<close>, the count plus the waits that returned plus the waiters that
  were given a unit and have not run yet equals the initial count plus the successful posts.
  So no more waits return than units were supplied, also where the 64-bit count saturates
  and \<open>post\<close> is refused.
\<close>

theorem semaphore_conservation:
  assumes "sem_reachable p n s"
  shows "unat (sm_count (sh_sem (ss_heap s) p)) + ss_taken s + card (sem_granted s) =
      unat n + ss_posted s \<and> ss_taken s \<le> unat n + ss_posted s"
proof -
  from assms obtain xs where v: "sem_view p n s xs" using sem_reachable_view by blast
  with sem_viewD(7) [OF v] show ?thesis by linarith
qed

definition demo_sem0 :: sem_sys where
  "demo_sem0 = \<lparr>ss_heap = snd (dlsm_gt_semaphore_init (Some 2) (Some demo_ops) 1 demo_heap),
     ss_pc = (\<lambda>_. None), ss_posted = 0, ss_taken = 0\<rparr>"

definition demo_sem1 :: sem_sys where
  "demo_sem1 = \<lparr>ss_heap = snd (dlsm_gt_semaphore_wait (Some 2) (Some 7) 20 (ss_heap demo_sem0)),
     ss_pc = (\<lambda>_. None)(7 := None), ss_posted = 0, ss_taken = 1\<rparr>"

definition demo_sem2 :: sem_sys where
  "demo_sem2 = \<lparr>ss_heap = snd (dlsm_gt_semaphore_wait (Some 2) (Some 8) 30 (ss_heap demo_sem1)),
     ss_pc = (\<lambda>_. None)(7 := None, 8 := Some 30), ss_posted = 0, ss_taken = 1\<rparr>"

lemmas demo_sem_defs = demo_sem0_def demo_sem1_def demo_sem2_def demo_heap_def demo_ops_def
  dlsm_gt_semaphore_init_def dlsm_gt_semaphore_wait_def ops_valid_def

lemma demo_sem0_reachable: "sem_reachable 2 1 demo_sem0"
  unfolding demo_sem0_def
  by (rule sem_init [where ops = "Some demo_ops" and h = demo_heap]) (simp add: demo_sem_defs)

lemma demo_sem1_step: "sem_step 2 demo_sem0 demo_sem1"
proof -
  have "dlsm_gt_semaphore_wait (Some 2) (Some 7) 20 (ss_heap demo_sem0) =
      (Return DLSM_OK, ss_heap demo_sem1)" by (simp add: demo_sem_defs Let_def)
  from sem_wait [OF _ _ this] show ?thesis by (simp add: demo_sem0_def demo_sem1_def)
qed

lemma demo_sem2_step: "sem_step 2 demo_sem1 demo_sem2"
proof -
  have "dlsm_gt_semaphore_wait (Some 2) (Some 8) 30 (ss_heap demo_sem1) = (Parked, ss_heap demo_sem2)"
    by (simp add: demo_sem_defs Let_def split: prod.split)
  from sem_wait [OF _ _ this] show ?thesis by (simp add: demo_sem1_def demo_sem2_def)
qed

lemma demo_sem2_reachable: "sem_reachable 2 1 demo_sem2"
  by (rule sem_next [OF sem_next [OF demo_sem0_reachable demo_sem1_step] demo_sem2_step])

lemma demo_sem2_ungranted: "\<not> wn_granted (sh_nodes (ss_heap demo_sem2) 30)"
  by (simp add: demo_sem_defs Let_def queue_push_def waitq_empty_def)

theorem semaphore_conservation_witness:
  "sem_reachable 2 1 demo_sem2 \<and> ss_taken demo_sem2 = 1 \<and>
   unat (sm_count (sh_sem (ss_heap demo_sem2) 2)) + card (sem_granted demo_sem2) = 0"
  using semaphore_conservation [OF demo_sem2_reachable] demo_sem2_reachable
  by (simp add: demo_sem2_def)

text \<open>
  No waiter sleeps while a unit is available: in every reachable interleaving, a task
  suspended on a node without a grant is queued exactly once, and the count is zero.
\<close>

theorem semaphore_no_lost_waiter:
  assumes "sem_reachable p n s" and "ss_pc s t = Some a"
    and "\<not> wn_granted (sh_nodes (ss_heap s) a)"
  shows "sm_count (sh_sem (ss_heap s) p) = 0 \<and>
    (\<exists>xs. waitq_rep (sm_q (sh_sem (ss_heap s) p), sh_nodes (ss_heap s)) xs \<and> distinct xs \<and> a \<in> set xs)"
proof -
  from assms obtain xs where v: "sem_view p n s xs" using sem_reachable_view by blast
  have a: "a \<in> set xs" using sem_viewD(4) [OF v, of a] assms(2,3) by blast
  then have "sm_count (sh_sem (ss_heap s) p) = 0" using sem_viewD(3) [OF v] by (cases xs) auto
  with a sem_viewD(2) [OF v] waitq_rep_distinct show ?thesis by blast
qed

theorem semaphore_no_lost_waiter_witness:
  "sem_reachable 2 1 demo_sem2 \<and> ss_pc demo_sem2 8 = Some 30 \<and>
   sm_count (sh_sem (ss_heap demo_sem2) 2) = 0"
proof -
  have pc: "ss_pc demo_sem2 8 = Some 30" by (simp add: demo_sem2_def)
  from semaphore_no_lost_waiter [OF demo_sem2_reachable pc demo_sem2_ungranted] pc
    demo_sem2_reachable show ?thesis by simp
qed

text \<open>
  Wait-group arithmetic for every \<open>int64_t\<close>, \<open>INT64_MIN\<close> included: \<open>add\<close> succeeds exactly
  when the mathematical sum of count and delta fits the unsigned 64-bit count and a positive
  delta does not restart a group at zero whose waiters have not left; the new count is then that
  sum, all waiters are granted and unparked in order exactly when a negative delta reaches zero,
  and a refused call changes nothing.
\<close>

theorem wait_group_add_exact:
  assumes "group_inv p h xs" and "- (2 ^ 63) \<le> delta" and "delta < 2 ^ 63"
  shows "\<exists>h'. dlsm_gt_wait_group_add (Some p) delta ok h =
      (if 0 \<le> uint (wg_count (sh_group h p)) + delta \<and> uint (wg_count (sh_group h p)) + delta < 2 ^ 64 \<and>
          \<not> (0 < delta \<and> wg_count (sh_group h p) = 0 \<and> wg_waiters (sh_group h p) \<noteq> 0)
       then Some (DLSM_OK, h') else Some (DLSM_SYNC_E_STATE, h)) \<and>
    (fst (the (dlsm_gt_wait_group_add (Some p) delta ok h)) = DLSM_OK \<longrightarrow>
       group_after p h xs (uint (wg_count (sh_group h p)) + delta)
         (delta < 0 \<and> uint (wg_count (sh_group h p)) + delta = 0) h')"
proof -
  have b: "0 \<le> uint (wg_count (sh_group h p))" "uint (wg_count (sh_group h p)) < 2 ^ 64"
    using uint_lt2p [of "wg_count (sh_group h p)"] by simp_all
  consider "0 < delta" | "delta = 0" | "delta < 0" by linarith
  then show ?thesis
  proof cases
    case 1
    with group_add_positive [OF assms(1) 1 assms(3), of ok] b show ?thesis
      by (auto split: if_splits)
  next
    case 2
    with assms(1) b show ?thesis
      by (auto simp: dlsm_gt_wait_group_add_def group_after_def group_inv_def Let_def)
  next
    case 3
    with group_add_negative [OF assms(1) 3 assms(2), of ok] b show ?thesis
      by (auto split: if_splits)
  qed
qed

theorem wait_group_add_exact_witness:
  "\<exists>h'. dlsm_gt_wait_group_add (Some 3) (- (2 ^ 63)) True
      (snd (dlsm_gt_wait_group_init (Some 3) (Some demo_ops) (2 ^ 63 + 5) demo_heap)) =
    Some (DLSM_OK, h') \<and> uint (wg_count (sh_group h' 3)) = 5"
proof -
  let ?h = "snd (dlsm_gt_wait_group_init (Some 3) (Some demo_ops) (2 ^ 63 + 5) demo_heap)"
  have i: "group_inv 3 ?h []" and c: "wg_count (sh_group ?h 3) = 2 ^ 63 + 5"
    by (simp_all add: group_inv_def dlsm_gt_wait_group_init_def demo_ops_def ops_valid_def)
  from wait_group_add_exact [OF i, of "- (2 ^ 63)" True] c show ?thesis
    by (auto simp: group_after_def)
qed

text \<open>
  No lost signal: a task that owns the mutex and calls \<open>wait\<close> is queued before the
  mutex is released or handed to its oldest waiter, so every later signal finds it. Once as
  many signals were sent as tasks wait, all of them are granted and unparked in the order they
  waited; one broadcast does the same.
\<close>

theorem condition_wait_no_lost_signal:
  assumes "cond_rep p h xs" and "mutex_rep h m (Some t) ys"
    and "w \<notin> set xs" and "w \<notin> set ys" and "set xs \<inter> set ys = {}"
  shows "\<exists>h1 h2. dlsm_gt_condition_wait (Some p) (Some m) (Some t) w h = Some (Parked, h1) \<and>
    mutex_rep h1 m (case ys of [] \<Rightarrow> None | y # _ \<Rightarrow> Some (wn_handle (sh_nodes h y))) (tl ys) \<and>
    \<not> wn_granted (sh_nodes h1 w) \<and>
    wn_granted (sh_nodes (signals (Suc (length xs)) p h1) w) \<and>
    sh_unparked (signals (Suc (length xs)) p h1) =
      sh_unparked h1 @ map (\<lambda>a. wn_handle (sh_nodes h a)) xs @ [t] \<and>
    dlsm_gt_condition_broadcast (Some p) ok h1 = Some (DLSM_OK, h2) \<and>
    sh_unparked h2 = sh_unparked (signals (Suc (length xs)) p h1) \<and>
    (\<forall>b. wn_granted (sh_nodes h2 b) = wn_granted (sh_nodes (signals (Suc (length xs)) p h1) b))"
proof -
  from cond_wait_parks [OF assms] obtain h1 where
    w: "dlsm_gt_condition_wait (Some p) (Some m) (Some t) w h = Some (Parked, h1)"
    and c: "cond_rep p h1 (xs @ [w])"
    and m: "mutex_rep h1 m (case ys of [] \<Rightarrow> None | y # _ \<Rightarrow> Some (wn_handle (sh_nodes h y))) (tl ys)"
    and hd: "\<And>b. wn_handle (sh_nodes h1 b) = (if b = w then t else wn_handle (sh_nodes h b))"
    and g: "\<not> wn_granted (sh_nodes h1 w)" by blast
  from cond_broadcast_all [OF c, of ok] obtain h2 where
    b: "dlsm_gt_condition_broadcast (Some p) ok h1 = Some (DLSM_OK, h2)"
    "\<And>b. wn_granted (sh_nodes h2 b) = (b \<in> set (xs @ [w]) \<or> wn_granted (sh_nodes h1 b))"
    "sh_unparked h2 = sh_unparked h1 @ map (\<lambda>a. wn_handle (sh_nodes h1 a)) (xs @ [w])" by blast
  have l: "Suc (length xs) = length (xs @ [w])" by simp
  have e: "map (\<lambda>a. wn_handle (sh_nodes h1 a)) (xs @ [w]) = map (\<lambda>a. wn_handle (sh_nodes h a)) xs @ [t]"
    using hd assms(3) by auto
  note s = signals_all [OF c, folded l]
  show ?thesis
    by (rule exI [of _ h1], rule exI [of _ h2]) (simp only: w m g b s e append_assoc, simp)
qed

definition demo_cond :: sync_heap where
  "demo_cond = snd (dlsm_gt_condition_init (Some 4) (Some demo_ops) (ms_heap demo_mutex2))"

lemma demo_cond_rep: "cond_rep 4 demo_cond []" "mutex_rep demo_cond 1 (Some 7) [30]"
  by (simp_all add: demo_cond_def dlsm_gt_condition_init_def demo_ops_def ops_valid_def cond_rep_def,
      simp add: demo_mutex_defs mutex_rep_def enqueue_waiter_def queue_push_def waitq_empty_def
        waitq_rep_simp queue_rep_def init_node_def set_next_def)

theorem condition_wait_no_lost_signal_witness:
  "\<exists>h1. dlsm_gt_condition_wait (Some 4) (Some 1) (Some 7) 40 demo_cond = Some (Parked, h1) \<and>
     mutex_rep h1 1 (Some 8) [] \<and> \<not> wn_granted (sh_nodes h1 40) \<and>
     wn_granted (sh_nodes (signals 1 4 h1) 40) \<and> sh_unparked (signals 1 4 h1) = sh_unparked h1 @ [7]"
proof -
  have "wn_handle (sh_nodes demo_cond 30) = 8"
    by (simp add: demo_cond_def dlsm_gt_condition_init_def demo_ops_def ops_valid_def demo_mutex_defs)
  with condition_wait_no_lost_signal [OF demo_cond_rep, of 40 True] show ?thesis by auto
qed

text \<open>
  A refused wait leaves no trace: a caller that does not own the mutex gets the
  unlock's error, and the queue of the condition, the owner and queue of the mutex and the
  unpark log are as before; its stack node is in no queue when the call returns.
\<close>

theorem condition_wait_refused:
  assumes "cond_rep p h xs" and "mutex_rep h m own ys" and "own \<noteq> Some t"
    and "w \<notin> set xs" and "w \<notin> set ys" and "set xs \<inter> set ys = {}"
  shows "\<exists>h'. dlsm_gt_condition_wait (Some p) (Some m) (Some t) w h =
      Some (Return DLSM_SYNC_E_STATE, h') \<and>
    cond_rep p h' xs \<and> mutex_rep h' m own ys \<and> sh_unparked h' = sh_unparked h"
proof -
  let ?h1 = "cond_push p t w h"
  note cp = cond_push_rep [OF assms(1,4), of t]
  have m1: "mutex_rep ?h1 m own ys" using cond_push_mutex_rep [OF assms(1,2,4,5,6)] .
  from cond_remove_last [OF cp(1)] obtain h' where r: "cond_remove p w ?h1 = Some h'"
    "cond_rep p h' xs" "sh_unparked h' = sh_unparked ?h1" "sh_mutex h' = sh_mutex ?h1"
    "\<And>b. wn_granted (sh_nodes h' b) = wn_granted (sh_nodes ?h1 b)"
    "\<And>b. b \<notin> set xs \<Longrightarrow> b \<noteq> w \<Longrightarrow> wn_next (sh_nodes h' b) = wn_next (sh_nodes ?h1 b)" by blast
  have "a \<in> set ys \<Longrightarrow> a \<notin> set xs \<and> a \<noteq> w" for a using assms(5,6) by auto
  then have "mutex_rep h' m own ys = mutex_rep ?h1 m own ys"
    using r by (intro mutex_rep_cong) simp_all
  with m1 r cp(4) unlock_not_owner [OF m1 assms(3)] assms(1) show ?thesis
    by (simp add: dlsm_gt_condition_wait_def cond_enqueue_and_unlock_def Let_def cond_rep_def)
qed

theorem condition_wait_refused_witness:
  "\<exists>h'. dlsm_gt_condition_wait (Some 4) (Some 1) (Some 9) 40 demo_cond =
     Some (Return DLSM_SYNC_E_STATE, h') \<and> cond_rep 4 h' [] \<and> mutex_rep h' 1 (Some 7) [30]"
  using condition_wait_refused [OF demo_cond_rep, of 9 40] by auto

text \<open>
  An event releases everybody: tasks that wait one after the other on a cleared event
  all park; \<open>set\<close> then grants and unparks each of them once, in arrival order, whether or not the
  temporary array could be allocated, and any later \<open>wait\<close> returns at once.
\<close>

theorem event_set_releases_all:
  assumes "event_inv p h []" and "\<not> ev_signalled (sh_event h p)" and "distinct (map snd ws)"
  shows "\<exists>h'. dlsm_gt_event_set (Some p) ok
        (fold (\<lambda>(t, w) h. snd (dlsm_gt_event_wait (Some p) (Some t) w h)) ws h) = Some (DLSM_OK, h') \<and>
    (\<forall>a \<in> set (map snd ws). wn_granted (sh_nodes h' a)) \<and>
    sh_unparked h' = sh_unparked h @ map fst ws \<and>
    (\<forall>t w. fst (dlsm_gt_event_wait (Some p) (Some t) w h') = Return DLSM_OK)"
proof -
  from event_gate.open_releases_all [OF assms(1,2) TrueI assms(3), of ok] obtain h' where
    "dlsm_gt_event_set (Some p) ok (event_gate.wait_all p ws h) = Some (DLSM_OK, h')"
    "event_inv p h' []" "ev_signalled (sh_event h' p)"
    "\<forall>a \<in> set (map snd ws). wn_granted (sh_nodes h' a)" "sh_unparked h' = sh_unparked h @ map fst ws"
    by blast
  with event_gate.wait_opened [of p h' "[]"] show ?thesis by (auto simp: event_gate.wait_all_def)
qed

theorem event_set_releases_all_witness:
  "\<exists>h'. dlsm_gt_event_set (Some 5) False
      (fold (\<lambda>(t, w) h. snd (dlsm_gt_event_wait (Some 5) (Some t) w h)) [(7, 20), (8, 30)]
        (snd (dlsm_gt_event_init (Some 5) (Some demo_ops) 0 demo_heap))) = Some (DLSM_OK, h') \<and>
    wn_granted (sh_nodes h' 20) \<and> wn_granted (sh_nodes h' 30) \<and> sh_unparked h' = [7, 8]"
proof -
  let ?h = "snd (dlsm_gt_event_init (Some 5) (Some demo_ops) 0 demo_heap)"
  have i: "event_inv 5 ?h []" "\<not> ev_signalled (sh_event ?h 5)" and l: "sh_unparked ?h = []"
    by (simp_all add: event_inv_def dlsm_gt_event_init_def demo_ops_def ops_valid_def demo_heap_def)
  have d: "distinct (map snd [(7 :: nat, 20 :: nat), (8, 30)])" by simp
  from event_set_releases_all [OF i d, of False] l show ?thesis by auto
qed

text \<open>
  A completion is one-shot: the first \<open>complete\<close> releases every task that waits, in
  arrival order, every later \<open>wait\<close> returns at once, and a second \<open>complete\<close> is an error that
  changes nothing.
\<close>

theorem completion_one_shot:
  assumes "completion_inv p h []" and "\<not> cp_completed (sh_compl h p)" and "distinct (map snd ws)"
  shows "\<exists>h'. dlsm_gt_completion_complete (Some p) ok
        (fold (\<lambda>(t, w) h. snd (dlsm_gt_completion_wait (Some p) (Some t) w h)) ws h) = Some (DLSM_OK, h') \<and>
    (\<forall>a \<in> set (map snd ws). wn_granted (sh_nodes h' a)) \<and>
    sh_unparked h' = sh_unparked h @ map fst ws \<and>
    (\<forall>t w. fst (dlsm_gt_completion_wait (Some p) (Some t) w h') = Return DLSM_OK) \<and>
    (\<forall>ok'. dlsm_gt_completion_complete (Some p) ok' h' = Some (DLSM_SYNC_E_STATE, h'))"
proof -
  from completion_gate.open_releases_all [OF assms(1,2,2,3), of ok] obtain h' where
    o: "dlsm_gt_completion_complete (Some p) ok (completion_gate.wait_all p ws h) = Some (DLSM_OK, h')"
    "completion_inv p h' []" "cp_completed (sh_compl h' p)"
    "\<forall>a \<in> set (map snd ws). wn_granted (sh_nodes h' a)" "sh_unparked h' = sh_unparked h @ map fst ws"
    by blast
  have "dlsm_gt_completion_complete (Some p) ok' h' = Some (DLSM_SYNC_E_STATE, h')" for ok'
    using o(2,3) by (simp add: dlsm_gt_completion_complete_def completion_inv_def)
  with o completion_gate.wait_opened [of p h' "[]"] show ?thesis
    by (auto simp: completion_gate.wait_all_def)
qed

theorem completion_one_shot_witness:
  "\<exists>h'. dlsm_gt_completion_complete (Some 6) True
      (fold (\<lambda>(t, w) h. snd (dlsm_gt_completion_wait (Some 6) (Some t) w h)) [(7, 20)]
        (snd (dlsm_gt_completion_init (Some 6) (Some demo_ops) demo_heap))) = Some (DLSM_OK, h') \<and>
    wn_granted (sh_nodes h' 20) \<and> sh_unparked h' = [7]"
proof -
  let ?h = "snd (dlsm_gt_completion_init (Some 6) (Some demo_ops) demo_heap)"
  have i: "completion_inv 6 ?h []" "\<not> cp_completed (sh_compl ?h 6)" and l: "sh_unparked ?h = []"
    by (simp_all add: completion_inv_def dlsm_gt_completion_init_def demo_ops_def ops_valid_def
        demo_heap_def)
  have d: "distinct (map snd [(7 :: nat, 20 :: nat)])" by simp
  from completion_one_shot [OF i d, of True] l show ?thesis by auto
qed

text \<open>
  The last \<open>done\<close> of a wait group releases every task that waits, in arrival order, and
  later waits return at once.
\<close>

theorem wait_group_done_releases_all:
  assumes "group_inv p h []" and "wg_count (sh_group h p) = 1" and "distinct (map snd ws)"
  shows "\<exists>h'. dlsm_gt_wait_group_done (Some p) ok
        (fold (\<lambda>(t, w) h. snd (dlsm_gt_wait_group_wait (Some p) (Some t) w h)) ws h) = Some (DLSM_OK, h') \<and>
    (\<forall>a \<in> set (map snd ws). wn_granted (sh_nodes h' a)) \<and>
    sh_unparked h' = sh_unparked h @ map fst ws \<and>
    (\<forall>t w. fst (dlsm_gt_wait_group_wait (Some p) (Some t) w h') = Return DLSM_OK)"
proof -
  have n: "wg_count (sh_group h p) \<noteq> 0" using assms(2) by simp
  from group_gate.open_releases_all [OF assms(1) n assms(2,3), of ok] obtain h' where
    "dlsm_gt_wait_group_done (Some p) ok (group_gate.wait_all p ws h) = Some (DLSM_OK, h')"
    "group_inv p h' []" "wg_count (sh_group h' p) = 0"
    "\<forall>a \<in> set (map snd ws). wn_granted (sh_nodes h' a)" "sh_unparked h' = sh_unparked h @ map fst ws"
    by blast
  with group_gate.wait_opened [of p h' "[]"] show ?thesis by (auto simp: group_gate.wait_all_def)
qed

theorem wait_group_done_releases_all_witness:
  "\<exists>h'. dlsm_gt_wait_group_done (Some 3) True
      (fold (\<lambda>(t, w) h. snd (dlsm_gt_wait_group_wait (Some 3) (Some t) w h)) [(7, 20), (9, 50)]
        (snd (dlsm_gt_wait_group_init (Some 3) (Some demo_ops) 1 demo_heap))) = Some (DLSM_OK, h') \<and>
    wn_granted (sh_nodes h' 50) \<and> sh_unparked h' = [7, 9]"
proof -
  let ?h = "snd (dlsm_gt_wait_group_init (Some 3) (Some demo_ops) 1 demo_heap)"
  have i: "group_inv 3 ?h []" "wg_count (sh_group ?h 3) = 1" and l: "sh_unparked ?h = []"
    by (simp_all add: group_inv_def dlsm_gt_wait_group_init_def demo_ops_def ops_valid_def
        demo_heap_def)
  have d: "distinct (map snd [(7 :: nat, 20 :: nat), (9, 50)])" by simp
  from wait_group_done_releases_all [OF i d, of True] l show ?thesis by auto
qed

end
