(* ===== verification/Fifo_Lock.thy ===== *)
theory Fifo_Lock
  imports Main
begin

text \<open>
  The contract of a first-come first-served lock: its states can be seen as a queue of the contexts
  inside, in which a step appends one context, removes the first, or changes nothing, and only the first
  is in the critical section. The ticket lock and the MCS lock both provide it.
\<close>

locale fifo_lock =
  fixes init :: 's and step :: "'s \<Rightarrow> 's \<Rightarrow> bool" and view :: "'s \<Rightarrow> 'c list \<Rightarrow> bool" and critical :: "'s \<Rightarrow> 'c \<Rightarrow> bool"
  assumes view_init: "view init []"
    and view_step: "view s q \<Longrightarrow> step s s' \<Longrightarrow> \<exists>q'. view s' q' \<and> (q' = q \<or> (\<exists>t. q' = q @ [t]) \<or> (\<exists>t. q = t # q'))"
    and view_distinct: "view s q \<Longrightarrow> distinct q"
    and critical_first: "view s q \<Longrightarrow> critical s t \<Longrightarrow> \<exists>q'. q = t # q'"
begin

lemma reachable_view: "step\<^sup>*\<^sup>* init s \<Longrightarrow> \<exists>q. view s q"
  by (induction rule: rtranclp_induct) (use view_init view_step in blast)+

lemma mutual_exclusion:
  assumes "step\<^sup>*\<^sup>* init s" and "critical s t" and "critical s u"
  shows "t = u"
proof -
  obtain q where "view s q" using reachable_view assms(1) by blast
  then show ?thesis using critical_first assms(2,3) by blast
qed

text \<open>A later queue is an earlier one with contexts removed at the front and others appended.\<close>

lemma queue_moves:
  assumes "step\<^sup>*\<^sup>* s s'" and "view s q"
  shows "\<exists>k new. k \<le> length (q @ new) \<and> view s' (drop k (q @ new))"
  using assms(1)
proof (induction rule: rtranclp_induct)
  case base
  then show ?case using assms(2) by (intro exI[of _ 0] exI[of _ "[]"]) simp
next
  case (step s1 s2)
  then obtain k new where k: "k \<le> length (q @ new)" "view s1 (drop k (q @ new))" by blast
  from view_step[OF k(2) step.hyps(2)] obtain q' where q': "view s2 q'"
    "q' = drop k (q @ new) \<or> (\<exists>t. q' = drop k (q @ new) @ [t]) \<or> (\<exists>t. drop k (q @ new) = t # q')" by blast
  from q'(2) show ?case
  proof (elim disjE exE)
    assume "q' = drop k (q @ new)"
    then show ?thesis using k(1) q'(1) by blast
  next
    fix t
    assume "q' = drop k (q @ new) @ [t]"
    then have "q' = drop k (q @ (new @ [t]))" using k(1) by (simp del: drop_append add: drop_append[of k "q @ new" "[t]", simplified])
    then show ?thesis using k(1) q'(1) by (intro exI[of _ k] exI[of _ "new @ [t]"]) simp
  next
    fix t
    assume t: "drop k (q @ new) = t # q'"
    then have "k < length (q @ new)" by (metis drop_all list.distinct(1) not_le)
    moreover have "q' = drop (Suc k) (q @ new)" using t by (metis drop_Suc list.sel(3) tl_drop)
    ultimately show ?thesis using q'(1) by (intro exI[of _ "Suc k"] exI[of _ new]) simp
  qed
qed

text \<open>Nobody is overtaken: when a context is in the critical section, those ahead of it have left.\<close>

lemma no_overtaking:
  assumes "view s (before @ u # behind)" and "step\<^sup>*\<^sup>* s s'" and "critical s' u"
  shows "\<exists>k new. length before \<le> k \<and> view s' (drop k ((before @ u # behind) @ new))"
proof -
  obtain k new where k: "k \<le> length ((before @ u # behind) @ new)" "view s' (drop k ((before @ u # behind) @ new))"
    using queue_moves[OF assms(2,1)] by blast
  show ?thesis
  proof (cases "length before \<le> k")
    case True
    then show ?thesis using k(2) by blast
  next
    case False
    then have d: "drop k ((before @ u # behind) @ new) = drop k before @ u # behind @ new" by simp
    then obtain q' where "drop k before @ u # behind @ new = u # q'" using critical_first[OF k(2) assms(3)] by auto
    moreover have "drop k before \<noteq> []" using False by simp
    ultimately have "u \<in> set (drop k before)" by (cases "drop k before") auto
    moreover have "distinct (drop k before @ u # behind @ new)" using view_distinct[OF k(2)] unfolding d .
    ultimately show ?thesis by simp
  qed
qed

end

end
