(* ===== verification/Ticket_Lock.thy ===== *)
theory Ticket_Lock
  imports Dlsm_Prelude Fifo_Lock
begin

text \<open>
  The ticket spinlock of \<^verbatim>\<open>libs/sync/src/ticket.c\<close>, with its 32-bit tickets that wrap around. Each
  atomic access is one step: the \<open>fetch_add\<close> and every turn of the spin loop of \<open>acquire\<close>, the load
  and the store of \<open>release\<close>. Contexts are numbered below a bound \<open>n\<close>; the proofs need
  \<open>n \<le> 2 ^ 32\<close>, since with more contexts two of them could wait for the same ticket.
\<close>

section \<open>Operations\<close>

record dlsm_ticket_lock =
  tl_next :: u32
  tl_owner :: u32

definition dlsm_ticket_init :: dlsm_ticket_lock where
  "dlsm_ticket_init = \<lparr>tl_next = 0, tl_owner = 0\<rparr>"

definition ticket_fetch_add :: "dlsm_ticket_lock \<Rightarrow> u32 \<times> dlsm_ticket_lock" where
  "ticket_fetch_add l = (tl_next l, l\<lparr>tl_next := tl_next l + 1\<rparr>)"

definition ticket_served :: "u32 \<Rightarrow> dlsm_ticket_lock \<Rightarrow> bool" where
  "ticket_served my l \<longleftrightarrow> tl_owner l = my"

definition ticket_release_store :: "u32 \<Rightarrow> dlsm_ticket_lock \<Rightarrow> dlsm_ticket_lock" where
  "ticket_release_store cur l = l\<lparr>tl_owner := cur + 1\<rparr>"

text \<open>Where a context stands between two atomic accesses.\<close>

datatype ticket_pc = T_outside | T_spinning u32 | T_holding | T_storing u32

record ticket_sys =
  ts_lock :: dlsm_ticket_lock
  ts_pc :: "nat \<Rightarrow> ticket_pc"

inductive ticket_step :: "nat \<Rightarrow> ticket_sys \<Rightarrow> ticket_sys \<Rightarrow> bool" for n :: nat where
  ticket_take: "t < n \<Longrightarrow> ts_pc s t = T_outside \<Longrightarrow> ticket_fetch_add (ts_lock s) = (my, l') \<Longrightarrow>
     ticket_step n s \<lparr>ts_lock = l', ts_pc = (ts_pc s)(t := T_spinning my)\<rparr>"
| ticket_spin: "ts_pc s t = T_spinning my \<Longrightarrow>
     ticket_step n s (s\<lparr>ts_pc := (ts_pc s)(t :=
       if ticket_served my (ts_lock s) then T_holding else T_spinning my)\<rparr>)"
| ticket_load: "ts_pc s t = T_holding \<Longrightarrow>
     ticket_step n s (s\<lparr>ts_pc := (ts_pc s)(t := T_storing (tl_owner (ts_lock s)))\<rparr>)"
| ticket_store: "ts_pc s t = T_storing cur \<Longrightarrow>
     ticket_step n s \<lparr>ts_lock = ticket_release_store cur (ts_lock s), ts_pc = (ts_pc s)(t := T_outside)\<rparr>"

inductive ticket_reachable :: "nat \<Rightarrow> ticket_sys \<Rightarrow> bool" for n :: nat where
  ticket_start: "ticket_reachable n \<lparr>ts_lock = dlsm_ticket_init, ts_pc = (\<lambda>_. T_outside)\<rparr>"
| ticket_next: "ticket_reachable n s \<Longrightarrow> ticket_step n s s' \<Longrightarrow> ticket_reachable n s'"

section \<open>The invariant\<close>

text \<open>
  \<open>ticket_view n s q\<close>: the contexts inside the lock are \<open>q\<close> in ticket order. The \<open>i\<close>-th of them has
  the ticket \<open>owner + i\<close>, only the first can have passed the spin loop, and \<open>next\<close> is \<open>owner\<close> plus
  the length of \<open>q\<close>, all modulo \<open>2 ^ 32\<close>.
\<close>

definition ticket_at :: "u32 \<Rightarrow> nat \<Rightarrow> ticket_pc \<Rightarrow> bool" where
  "ticket_at own i pc \<longleftrightarrow> pc = T_spinning (own + of_nat i) \<or> i = 0 \<and> (pc = T_holding \<or> pc = T_storing own)"

definition ticket_view :: "nat \<Rightarrow> ticket_sys \<Rightarrow> nat list \<Rightarrow> bool" where
  "ticket_view n s q \<longleftrightarrow> distinct q \<and> set q = {t. ts_pc s t \<noteq> T_outside} \<and> set q \<subseteq> {..<n} \<and>
     tl_next (ts_lock s) = tl_owner (ts_lock s) + of_nat (length q) \<and>
     (\<forall>i < length q. ticket_at (tl_owner (ts_lock s)) i (ts_pc s (q ! i)))"

lemma ticket_viewI:
  assumes "distinct q" and "\<And>t. t \<in> set q \<longleftrightarrow> pc t \<noteq> T_outside" and "set q \<subseteq> {..<n}"
    and "tl_next l = tl_owner l + of_nat (length q)"
    and "\<And>i. i < length q \<Longrightarrow> ticket_at (tl_owner l) i (pc (q ! i))"
  shows "ticket_view n \<lparr>ts_lock = l, ts_pc = pc\<rparr> q"
  using assms by (auto simp: ticket_view_def)

lemma ticket_viewD:
  assumes "ticket_view n s q"
  shows "distinct q" and "t \<in> set q \<longleftrightarrow> ts_pc s t \<noteq> T_outside" and "set q \<subseteq> {..<n}"
    and "tl_next (ts_lock s) = tl_owner (ts_lock s) + of_nat (length q)"
    and "i < length q \<Longrightarrow> ticket_at (tl_owner (ts_lock s)) i (ts_pc s (q ! i))"
  using assms by (auto simp: ticket_view_def)

lemma ticket_view_length: "ticket_view n s q \<Longrightarrow> length q \<le> n"
  by (metis card_lessThan card_mono distinct_card finite_lessThan ticket_viewD(1,3))

lemma ticket_view_nth:
  assumes "ticket_view n s q" and "ts_pc s t \<noteq> T_outside"
  obtains i where "i < length q" and "q ! i = t" and "ticket_at (tl_owner (ts_lock s)) i (ts_pc s t)"
proof -
  from ticket_viewD(2) [OF assms(1), of t] assms(2) obtain i where "i < length q" "q ! i = t"
    by (auto simp: in_set_conv_nth)
  with that ticket_viewD(5) [OF assms(1)] show ?thesis by blast
qed

text \<open>Tickets of different positions differ as long as fewer than \<open>2 ^ 32\<close> separate them.\<close>

lemma ticket_offset_eq: "i < 2 ^ 32 \<Longrightarrow> (of_nat i :: u32) = 0 \<longleftrightarrow> i = 0"
  by (auto simp: word_of_nat_eq_0_iff dest: nat_dvd_not_less)

lemma ticket_view_first:
  assumes v: "ticket_view n s q" and n: "n \<le> 2 ^ 32"
    and pc: "ts_pc s t = T_holding \<or> (\<exists>c. ts_pc s t = T_storing c) \<or>
      ts_pc s t = T_spinning (tl_owner (ts_lock s))"
  shows "\<exists>q'. q = t # q'"
proof -
  have "ts_pc s t \<noteq> T_outside" using pc by auto
  then obtain i where i: "i < length q" "q ! i = t" "ticket_at (tl_owner (ts_lock s)) i (ts_pc s t)"
    using ticket_view_nth [OF v] by blast
  have "i < 2 ^ 32" using i(1) ticket_view_length [OF v] n by linarith
  with i(3) pc ticket_offset_eq [of i] have "i = 0" by (auto simp: ticket_at_def)
  with i show ?thesis by (cases q) auto
qed

lemma ticket_view_storing:
  assumes "ticket_view n s (t # q)" and "ts_pc s t = T_storing c"
  shows "c = tl_owner (ts_lock s)"
  using ticket_viewD(5) [OF assms(1), of 0] assms(2) by (simp add: ticket_at_def)

text \<open>A step that changes the stage of the first context only.\<close>

lemma ticket_view_first_moves:
  assumes v: "ticket_view n s (t # q)" and pc: "ticket_at (tl_owner (ts_lock s)) 0 pc'"
  shows "ticket_view n (s\<lparr>ts_pc := (ts_pc s)(t := pc')\<rparr>) (t # q)"
proof -
  note d = ticket_viewD [OF v]
  have no: "pc' \<noteq> T_outside" using pc by (auto simp: ticket_at_def)
  have nth: "i < length q \<Longrightarrow> q ! i \<noteq> t" for i using d(1) by auto
  have "ticket_view n \<lparr>ts_lock = ts_lock s, ts_pc = (ts_pc s)(t := pc')\<rparr> (t # q)"
  proof (rule ticket_viewI [OF d(1) _ d(3,4)])
    show "u \<in> set (t # q) \<longleftrightarrow> ((ts_pc s)(t := pc')) u \<noteq> T_outside" for u
      using d(2) [of u] no by auto
    show "ticket_at (tl_owner (ts_lock s)) i (((ts_pc s)(t := pc')) ((t # q) ! i))"
      if "i < length (t # q)" for i
      using that pc d(5) [of i] nth [of "i - 1"] by (cases i) auto
  qed
  then show ?thesis by (cases s) simp
qed

lemma ticket_view_take:
  assumes v: "ticket_view n s q" and t: "t < n" "ts_pc s t = T_outside"
    and f: "ticket_fetch_add (ts_lock s) = (my, l')"
  shows "ticket_view n \<lparr>ts_lock = l', ts_pc = (ts_pc s)(t := T_spinning my)\<rparr> (q @ [t])"
proof -
  note d = ticket_viewD [OF v]
  have my: "my = tl_owner (ts_lock s) + of_nat (length q)" and l': "tl_owner l' = tl_owner (ts_lock s)"
    "tl_next l' = tl_owner (ts_lock s) + of_nat (length q) + 1"
    using f d(4) by (auto simp: ticket_fetch_add_def)
  have nt: "t \<notin> set q" using d(2) t(2) by blast
  then have nth: "i < length q \<Longrightarrow> q ! i \<noteq> t" for i by auto
  show ?thesis
  proof (rule ticket_viewI)
    show "u \<in> set (q @ [t]) \<longleftrightarrow> ((ts_pc s)(t := T_spinning my)) u \<noteq> T_outside" for u
      using d(2) [of u] by auto
    show "ticket_at (tl_owner l') i (((ts_pc s)(t := T_spinning my)) ((q @ [t]) ! i))"
      if "i < length (q @ [t])" for i
      using that d(5) [of i] nth [of i] my l'
      by (cases "i < length q") (auto simp: nth_append ticket_at_def less_Suc_eq)
  qed (use d(1,3) nt t(1) l' in \<open>simp_all add: algebra_simps\<close>)
qed

lemma ticket_view_leave:
  assumes v: "ticket_view n s (t # q)" and pc: "ts_pc s t = T_storing cur" and n: "n \<le> 2 ^ 32"
  shows "ticket_view n \<lparr>ts_lock = ticket_release_store cur (ts_lock s),
    ts_pc = (ts_pc s)(t := T_outside)\<rparr> q"
proof -
  note d = ticket_viewD [OF v]
  have cur: "cur = tl_owner (ts_lock s)" using ticket_view_storing [OF v pc] .
  have nth: "i < length q \<Longrightarrow> q ! i \<noteq> t" for i using d(1) by auto
  show ?thesis
  proof (rule ticket_viewI)
    show "u \<in> set q \<longleftrightarrow> ((ts_pc s)(t := T_outside)) u \<noteq> T_outside" for u
      using d(1) d(2) [of u] by auto
    show "ticket_at (tl_owner (ticket_release_store cur (ts_lock s))) i
        (((ts_pc s)(t := T_outside)) (q ! i))" if "i < length q" for i
      using that d(5) [of "Suc i"] nth [of i] cur
      by (simp add: ticket_at_def ticket_release_store_def algebra_simps)
  qed (use d(1,3,4) cur in \<open>simp_all add: ticket_release_store_def algebra_simps\<close>)
qed

lemma ticket_step_view:
  assumes "ticket_step n s s'" and v: "ticket_view n s q" and n: "n \<le> 2 ^ 32"
  shows "\<exists>q'. ticket_view n s' q' \<and> (q' = q \<or> (\<exists>t. q' = q @ [t]) \<or> (\<exists>t. q = t # q'))"
  using assms(1)
proof cases
  case (ticket_take t my l')
  with ticket_view_take [OF v] show ?thesis by blast
next
  case (ticket_spin t my)
  show ?thesis
  proof (cases "ticket_served my (ts_lock s)")
    case True
    with ticket_spin(2) ticket_view_first [OF v n, of t] obtain q' where q: "q = t # q'"
      by (auto simp: ticket_served_def)
    with True ticket_spin v ticket_view_first_moves [of n s t q' T_holding] show ?thesis
      by (auto simp: ticket_at_def)
  next
    case False
    have "(ts_pc s)(t := T_spinning my) = ts_pc s" using ticket_spin(2) by auto
    with False ticket_spin v show ?thesis by auto
  qed
next
  case (ticket_load t)
  with ticket_view_first [OF v n, of t] obtain q' where "q = t # q'" by auto
  with ticket_load v ticket_view_first_moves [of n s t q' "T_storing (tl_owner (ts_lock s))"]
  show ?thesis by (auto simp: ticket_at_def)
next
  case (ticket_store t cur)
  with ticket_view_first [OF v n, of t] obtain q' where "q = t # q'" by auto
  with ticket_store v n ticket_view_leave show ?thesis by blast
qed

lemma ticket_reachable_view:
  assumes "ticket_reachable n s" and "n \<le> 2 ^ 32"
  shows "\<exists>q. ticket_view n s q"
  using assms(1)
proof (induction rule: ticket_reachable.induct)
  case ticket_start
  have "ticket_view n \<lparr>ts_lock = dlsm_ticket_init, ts_pc = \<lambda>_. T_outside\<rparr> []"
    by (simp add: ticket_view_def dlsm_ticket_init_def)
  then show ?case by blast
next
  case (ticket_next s s')
  then show ?case using ticket_step_view [OF _ _ assms(2)] by blast
qed

section \<open>Properties\<close>

definition in_critical :: "ticket_sys \<Rightarrow> nat \<Rightarrow> bool" where
  "in_critical s t \<longleftrightarrow> ts_pc s t = T_holding \<or> (\<exists>c. ts_pc s t = T_storing c)"

text \<open>With at most \<open>2 ^ 32\<close> contexts the ticket lock keeps the contract of a first-come first-served lock.\<close>

interpretation ticket: fifo_lock "\<lparr>ts_lock = dlsm_ticket_init, ts_pc = \<lambda>_. T_outside\<rparr>" "ticket_step (min n (2 ^ 32))"
  "ticket_view (min n (2 ^ 32))" in_critical for n
proof
  show "ticket_view (min n (2 ^ 32)) \<lparr>ts_lock = dlsm_ticket_init, ts_pc = \<lambda>_. T_outside\<rparr> []"
    by (simp add: ticket_view_def dlsm_ticket_init_def)
  show "\<exists>q'. ticket_view (min n (2 ^ 32)) s' q' \<and> (q' = q \<or> (\<exists>t. q' = q @ [t]) \<or> (\<exists>t. q = t # q'))"
    if "ticket_view (min n (2 ^ 32)) s q" "ticket_step (min n (2 ^ 32)) s s'" for s q s'
    using that(2,1) by (rule ticket_step_view) simp
  show "distinct q" if "ticket_view (min n (2 ^ 32)) s q" for s q using that by (rule ticket_viewD)
  show "\<exists>q'. q = t # q'" if "ticket_view (min n (2 ^ 32)) s q" "in_critical s t" for s q t
    using that by (intro ticket_view_first) (auto simp: in_critical_def)
qed

lemma ticket_reachable_steps:
  "ticket_reachable n s \<Longrightarrow> (ticket_step n)\<^sup>*\<^sup>* \<lparr>ts_lock = dlsm_ticket_init, ts_pc = \<lambda>_. T_outside\<rparr> s"
  by (induction rule: ticket_reachable.induct) (auto intro: rtranclp.rtrancl_into_rtrancl)

text \<open>
  Claim C31. Mutual exclusion of the ticket lock, wrap-around of the 32-bit tickets included: with
  at most \<open>2 ^ 32\<close> contexts, no two of them are ever past the spin loop of \<open>acquire\<close> and before the
  store of \<open>release\<close> at once.
\<close>

theorem ticket_mutual_exclusion:
  assumes "ticket_reachable n s" and "n \<le> 2 ^ 32" and "in_critical s t" and "in_critical s u"
  shows "t = u"
proof -
  have "min n (2 ^ 32) = n" using assms(2) by simp
  then show ?thesis using ticket.mutual_exclusion[of n s t u] ticket_reachable_steps[OF assms(1)] assms(3,4) by simp
qed

definition demo_ticket0 :: ticket_sys where
  "demo_ticket0 = \<lparr>ts_lock = dlsm_ticket_init, ts_pc = (\<lambda>_. T_outside)\<rparr>"

definition demo_ticket1 :: ticket_sys where
  "demo_ticket1 = \<lparr>ts_lock = \<lparr>tl_next = 1, tl_owner = 0\<rparr>, ts_pc = (\<lambda>_. T_outside)(3 := T_spinning 0)\<rparr>"

definition demo_ticket2 :: ticket_sys where
  "demo_ticket2 = \<lparr>ts_lock = \<lparr>tl_next = 1, tl_owner = 0\<rparr>, ts_pc = (\<lambda>_. T_outside)(3 := T_holding)\<rparr>"

lemma demo_ticket1_step: "ticket_step 8 demo_ticket0 demo_ticket1"
  using ticket_take [of 3 8 demo_ticket0 0 "\<lparr>tl_next = 1, tl_owner = 0\<rparr>"]
  by (simp add: demo_ticket0_def demo_ticket1_def ticket_fetch_add_def dlsm_ticket_init_def)

lemma demo_ticket2_step: "ticket_step 8 demo_ticket1 demo_ticket2"
  using ticket_spin [of demo_ticket1 3 0 8]
  by (simp add: demo_ticket1_def demo_ticket2_def ticket_served_def)

lemma demo_ticket1_reachable: "ticket_reachable 8 demo_ticket1"
  using ticket_next [OF ticket_start demo_ticket1_step [unfolded demo_ticket0_def]] .

lemma demo_ticket2_reachable: "ticket_reachable 8 demo_ticket2"
  using ticket_next [OF demo_ticket1_reachable demo_ticket2_step] .

theorem ticket_mutual_exclusion_witness:
  "ticket_reachable 8 demo_ticket2 \<and> in_critical demo_ticket2 3 \<and> \<not> in_critical demo_ticket2 4"
proof -
  have "in_critical demo_ticket2 3" by (simp add: in_critical_def demo_ticket2_def)
  with ticket_mutual_exclusion [OF demo_ticket2_reachable _ this, of 4] demo_ticket2_reachable
  show ?thesis by auto
qed

text \<open>
  Fairness and progress of the ticket lock: every step keeps a queue of the contexts
  inside the lock, appending one that draws a ticket and removing only the oldest one on release;
  and whenever somebody spins and nobody is in the critical section, the oldest context of the
  queue is served by its next turn of the spin loop.
\<close>

theorem ticket_fifo_progress:
  assumes "ticket_reachable n s" and "n \<le> 2 ^ 32"
  shows "\<exists>q. ticket_view n s q \<and>
    (\<forall>s'. ticket_step n s s' \<longrightarrow>
       (\<exists>q'. ticket_view n s' q' \<and> (q' = q \<or> (\<exists>t. q' = q @ [t]) \<or> (\<exists>t. q = t # q')))) \<and>
    (q \<noteq> [] \<and> (\<forall>t. \<not> in_critical s t) \<longrightarrow>
       (\<exists>my. ts_pc s (hd q) = T_spinning my \<and> ticket_served my (ts_lock s)))"
proof -
  from assms obtain q where v: "ticket_view n s q" using ticket_reachable_view by blast
  have "\<exists>my. ts_pc s (hd q) = T_spinning my \<and> ticket_served my (ts_lock s)"
    if "q \<noteq> []" "\<forall>t. \<not> in_critical s t"
    using that ticket_viewD(5) [OF v, of 0]
    by (cases q) (auto simp: ticket_at_def in_critical_def ticket_served_def)
  with v ticket_step_view [OF _ v assms(2)] show ?thesis by blast
qed

theorem ticket_fifo_progress_witness:
  "\<exists>q. ticket_view 8 demo_ticket1 q \<and> q \<noteq> [] \<and>
     (\<exists>my. ts_pc demo_ticket1 (hd q) = T_spinning my \<and> ticket_served my (ts_lock demo_ticket1))"
proof -
  have c: "\<forall>t. \<not> in_critical demo_ticket1 t" by (simp add: in_critical_def demo_ticket1_def)
  from ticket_fifo_progress [OF demo_ticket1_reachable] obtain q where
    q: "ticket_view 8 demo_ticket1 q"
    "q \<noteq> [] \<Longrightarrow> \<exists>my. ts_pc demo_ticket1 (hd q) = T_spinning my \<and> ticket_served my (ts_lock demo_ticket1)"
    using c by auto
  have "3 \<in> set q" using ticket_viewD(2) [OF q(1), of 3] by (simp add: demo_ticket1_def)
  then have "q \<noteq> []" by auto
  with q show ?thesis by blast
qed

end
