(* ===== verification/Mcs_Lock.thy ===== *)
theory Mcs_Lock
  imports Dlsm_Prelude Fifo_Lock
begin

text \<open>
  The MCS queue lock of \<^verbatim>\<open>libs/sync/src/mcs.c\<close>. Each context brings its own node, so that contexts and
  nodes have the same names. Every access to memory another context can see is one step: the exchange of
  \<open>acquire\<close>, the link store behind the predecessor, a turn of the spin loop, and of \<open>release\<close> the load of
  the successor, the compare-and-swap, a turn of the loop that waits for the link, and the store that
  hands the lock over. The two stores that prepare the node come before the exchange publishes it.
\<close>

section \<open>Operations\<close>

record mcs_lock =
  m_tail :: "addr option"
  m_next :: "addr \<Rightarrow> addr option"
  m_locked :: "addr \<Rightarrow> bool"

definition dlsm_mcs_init :: "mcs_lock \<Rightarrow> mcs_lock" where
  "dlsm_mcs_init l = l\<lparr>m_tail := None\<rparr>"

definition mcs_exchange :: "addr \<Rightarrow> mcs_lock \<Rightarrow> addr option \<times> mcs_lock" where
  "mcs_exchange node l =
     (m_tail l, l\<lparr>m_next := (m_next l)(node := None), m_locked := (m_locked l)(node := True), m_tail := Some node\<rparr>)"

definition mcs_link :: "addr \<Rightarrow> addr \<Rightarrow> mcs_lock \<Rightarrow> mcs_lock" where
  "mcs_link pred node l = l\<lparr>m_next := (m_next l)(pred := Some node)\<rparr>"

definition mcs_clear_tail :: "addr \<Rightarrow> mcs_lock \<Rightarrow> bool \<times> mcs_lock" where
  "mcs_clear_tail node l = (if m_tail l = Some node then (True, l\<lparr>m_tail := None\<rparr>) else (False, l))"

definition mcs_hand_over :: "addr \<Rightarrow> mcs_lock \<Rightarrow> mcs_lock" where
  "mcs_hand_over succ l = l\<lparr>m_locked := (m_locked l)(succ := False)\<rparr>"

datatype mcs_pc = M_outside | M_linking addr | M_spinning | M_holding | M_clearing | M_awaiting | M_handing addr

record mcs_sys =
  ms_lock :: mcs_lock
  ms_pc :: "addr \<Rightarrow> mcs_pc"

inductive mcs_step :: "mcs_sys \<Rightarrow> mcs_sys \<Rightarrow> bool" where
  enqueue: "ms_pc s t = M_outside \<Longrightarrow> mcs_exchange t (ms_lock s) = (pred, l') \<Longrightarrow>
    mcs_step s \<lparr>ms_lock = l', ms_pc = (ms_pc s)(t := (case pred of None \<Rightarrow> M_holding | Some p \<Rightarrow> M_linking p))\<rparr>"
| link: "ms_pc s t = M_linking p \<Longrightarrow>
    mcs_step s \<lparr>ms_lock = mcs_link p t (ms_lock s), ms_pc = (ms_pc s)(t := M_spinning)\<rparr>"
| spin: "ms_pc s t = M_spinning \<Longrightarrow>
    mcs_step s (s\<lparr>ms_pc := (ms_pc s)(t := (if m_locked (ms_lock s) t then M_spinning else M_holding))\<rparr>)"
| load: "ms_pc s t = M_holding \<Longrightarrow>
    mcs_step s (s\<lparr>ms_pc := (ms_pc s)(t := (case m_next (ms_lock s) t of None \<Rightarrow> M_clearing | Some u \<Rightarrow> M_handing u))\<rparr>)"
| clear: "ms_pc s t = M_clearing \<Longrightarrow> mcs_clear_tail t (ms_lock s) = (b, l') \<Longrightarrow>
    mcs_step s \<lparr>ms_lock = l', ms_pc = (ms_pc s)(t := (if b then M_outside else M_awaiting))\<rparr>"
| await: "ms_pc s t = M_awaiting \<Longrightarrow>
    mcs_step s (s\<lparr>ms_pc := (ms_pc s)(t := (case m_next (ms_lock s) t of None \<Rightarrow> M_awaiting | Some u \<Rightarrow> M_handing u))\<rparr>)"
| hand: "ms_pc s t = M_handing u \<Longrightarrow>
    mcs_step s \<lparr>ms_lock = mcs_hand_over u (ms_lock s), ms_pc = (ms_pc s)(t := M_outside)\<rparr>"

definition mcs_start :: mcs_sys where
  "mcs_start = \<lparr>ms_lock = \<lparr>m_tail = None, m_next = \<lambda>_. None, m_locked = \<lambda>_. False\<rparr>, ms_pc = \<lambda>_. M_outside\<rparr>"

text \<open>From the end of \<open>acquire\<close> to the last store of \<open>release\<close>.\<close>

fun owns :: "mcs_pc \<Rightarrow> bool" where
  "owns M_outside = False"
| "owns (M_linking p) = False"
| "owns M_spinning = False"
| "owns _ = True"

definition mcs_critical :: "mcs_sys \<Rightarrow> addr \<Rightarrow> bool" where
  "mcs_critical s t \<longleftrightarrow> owns (ms_pc s t)"

section \<open>The invariant\<close>

text \<open>
  The queue in list form: each context but the first waits with its flag set, either linked behind its
  predecessor or about to link itself; the last has no successor.
\<close>

definition behind :: "mcs_sys \<Rightarrow> addr \<Rightarrow> addr \<Rightarrow> bool" where
  "behind s a b \<longleftrightarrow> m_locked (ms_lock s) b \<and>
     (ms_pc s b = M_linking a \<and> m_next (ms_lock s) a = None \<or> ms_pc s b = M_spinning \<and> m_next (ms_lock s) a = Some b)"

fun chained :: "mcs_sys \<Rightarrow> addr list \<Rightarrow> bool" where
  "chained s [] = True"
| "chained s [a] = (m_next (ms_lock s) a = None)"
| "chained s (a # b # q) = (behind s a b \<and> chained s (b # q))"

definition first_ok :: "mcs_sys \<Rightarrow> addr list \<Rightarrow> bool" where
  "first_ok s q = (case q of [] \<Rightarrow> True
     | a # rest \<Rightarrow> (case ms_pc s a of
          M_spinning \<Rightarrow> \<not> m_locked (ms_lock s) a
        | M_awaiting \<Rightarrow> rest \<noteq> []
        | M_handing u \<Rightarrow> m_next (ms_lock s) a = Some u
        | pc \<Rightarrow> owns pc))"

definition mcs_view :: "mcs_sys \<Rightarrow> addr list \<Rightarrow> bool" where
  "mcs_view s q \<longleftrightarrow> distinct q \<and> (\<forall>t. t \<in> set q \<longleftrightarrow> ms_pc s t \<noteq> M_outside) \<and>
     m_tail (ms_lock s) = (if q = [] then None else Some (last q)) \<and> chained s q \<and> first_ok s q"

lemma mcs_viewI:
  assumes "distinct q" and "\<And>t. t \<in> set q \<longleftrightarrow> ms_pc s t \<noteq> M_outside"
    and "m_tail (ms_lock s) = (if q = [] then None else Some (last q))" and "chained s q" and "first_ok s q"
  shows "mcs_view s q"
  using assms by (simp add: mcs_view_def)

lemma mcs_viewD:
  assumes "mcs_view s q"
  shows "distinct q" and "t \<in> set q \<longleftrightarrow> ms_pc s t \<noteq> M_outside"
    and "m_tail (ms_lock s) = (if q = [] then None else Some (last q))" and "chained s q" and "first_ok s q"
  using assms by (simp_all add: mcs_view_def)

text \<open>Only what belongs to the contexts of the queue matters for its shape.\<close>

lemma chained_cong:
  assumes "\<And>a. a \<in> set q \<Longrightarrow> m_next (ms_lock s') a = m_next (ms_lock s) a"
    and "\<And>a. a \<in> set (tl q) \<Longrightarrow> m_locked (ms_lock s') a = m_locked (ms_lock s) a \<and> ms_pc s' a = ms_pc s a"
  shows "chained s' q = chained s q"
  using assms by (induction s q rule: chained.induct) (auto simp: behind_def)

lemma chained_append:
  assumes "chained s q" and "q \<noteq> []" and "behind s (last q) t" and "m_next (ms_lock s) t = None"
  shows "chained s (q @ [t])"
  using assms by (induction s q rule: chained.induct) auto

lemma chained_waits:
  assumes "chained s (a # q)" and "b \<in> set q"
  shows "m_locked (ms_lock s) b \<and> (ms_pc s b = M_spinning \<or> (\<exists>p. ms_pc s b = M_linking p))"
  using assms by (induction q arbitrary: a) (auto simp: behind_def)

lemma chained_tl: "chained s (a # q) \<Longrightarrow> chained s q"
  by (cases q) auto

text \<open>Whoever has passed its spin loop, or may, is the first of the queue.\<close>

lemma mcs_first:
  assumes v: "mcs_view s q" and t: "owns (ms_pc s t) \<or> ms_pc s t = M_spinning \<and> \<not> m_locked (ms_lock s) t"
  shows "\<exists>q'. q = t # q'"
proof -
  have "t \<in> set q" using mcs_viewD(2)[OF v, of t] t by auto
  then obtain a q' where q: "q = a # q'" by (cases q) auto
  have "t \<notin> set q'" using chained_waits[of s a q' t] mcs_viewD(4)[OF v] t unfolding q by auto
  then show ?thesis using \<open>t \<in> set q\<close> q by auto
qed

lemma mcs_owner_first: "mcs_view s q \<Longrightarrow> mcs_critical s t \<Longrightarrow> \<exists>q'. q = t # q'"
  unfolding mcs_critical_def by (rule mcs_first) blast+


section \<open>The steps keep the queue\<close>

lemma mcs_view_enqueue:
  assumes v: "mcs_view s q" and t: "ms_pc s t = M_outside" and e: "mcs_exchange t (ms_lock s) = (pred, l')"
    and s': "s' = \<lparr>ms_lock = l', ms_pc = (ms_pc s)(t := (case pred of None \<Rightarrow> M_holding | Some p \<Rightarrow> M_linking p))\<rparr>"
  shows "mcs_view s' (q @ [t])"
proof -
  note d = mcs_viewD[OF v]
  have nt: "t \<notin> set q" using d(2) t by blast
  have pred: "pred = (if q = [] then None else Some (last q))" using e d(3) by (simp add: mcs_exchange_def)
  have l': "l' = (ms_lock s)\<lparr>m_next := (m_next (ms_lock s))(t := None), m_locked := (m_locked (ms_lock s))(t := True), m_tail := Some t\<rparr>"
    using e by (simp add: mcs_exchange_def)
  show ?thesis
  proof (rule mcs_viewI)
    show "u \<in> set (q @ [t]) \<longleftrightarrow> ms_pc s' u \<noteq> M_outside" for u using d(2)[of u] by (auto simp: s' pred)
    have "t \<notin> set (tl q)" using nt by (cases q) auto
    then have same: "chained s' q = chained s q" by (intro chained_cong) (use nt in \<open>auto simp: s' l'\<close>)
    show "chained s' (q @ [t])"
    proof (cases "q = []")
      case True
      then show ?thesis by (simp add: s' l')
    next
      case False
      then have "m_next (ms_lock s) (last q) = None" using d(4) by (induction s q rule: chained.induct) auto
      moreover have "last q \<noteq> t" using False nt by auto
      ultimately have "behind s' (last q) t" using False by (simp add: behind_def s' l' pred)
      then show ?thesis using False d(4) same by (intro chained_append) (simp_all add: s' l')
    qed
    show "first_ok s' (q @ [t])"
    proof (cases q)
      case Nil
      then show ?thesis by (simp add: first_ok_def s' pred)
    next
      case (Cons a rest)
      then have "a \<noteq> t" using nt by auto
      then show ?thesis using d(5) Cons by (auto simp: first_ok_def s' l' split: mcs_pc.splits)
    qed
  qed (use d(1) nt in \<open>simp_all add: s' l'\<close>)
qed

lemma first_not_linking: "first_ok s (a # q) \<Longrightarrow> ms_pc s a \<noteq> M_linking p"
  by (auto simp: first_ok_def)

lemma chained_link:
  assumes "chained s (a # q)" and "distinct (a # q)" and "t \<in> set q" and "ms_pc s t = M_linking p"
    and "s' = \<lparr>ms_lock = mcs_link p t (ms_lock s), ms_pc = (ms_pc s)(t := M_spinning)\<rparr>"
  shows "chained s' (a # q) \<and> m_next (ms_lock s) p = None \<and> p \<in> set (a # q)"
  using assms(1-3)
proof (induction q arbitrary: a)
  case (Cons b q)
  show ?case
  proof (cases "t = b")
    case True
    then have p: "p = a" "m_next (ms_lock s) a = None" "m_locked (ms_lock s) b"
      using Cons.prems(1) assms(4) by (auto simp: behind_def)
    have "chained s' (b # q) = chained s (b # q)"
      by (rule chained_cong) (use Cons.prems(2) p True in \<open>auto simp: assms(5) mcs_link_def\<close>)
    moreover have "behind s' a b" using p True by (simp add: behind_def assms(5) mcs_link_def)
    ultimately show ?thesis using Cons.prems(1) p by simp
  next
    case False
    then have t: "t \<in> set q" using Cons.prems(3) by simp
    have ih: "chained s' (b # q) \<and> m_next (ms_lock s) p = None \<and> p \<in> set (b # q)"
      using Cons.IH[of b] Cons.prems t by simp
    then have "a \<noteq> p" using Cons.prems(2) by auto
    then have "behind s' a b = behind s a b" using False by (simp add: behind_def assms(5) mcs_link_def)
    then show ?thesis using ih Cons.prems(1) by simp
  qed
qed simp

lemma mcs_view_link:
  assumes v: "mcs_view s q" and t: "ms_pc s t = M_linking p"
    and s': "s' = \<lparr>ms_lock = mcs_link p t (ms_lock s), ms_pc = (ms_pc s)(t := M_spinning)\<rparr>"
  shows "mcs_view s' q"
proof -
  note d = mcs_viewD[OF v]
  have "t \<in> set q" using d(2)[of t] t by simp
  then obtain a q' where q: "q = a # q'" by (cases q) auto
  have "t \<noteq> a" using first_not_linking[of s a q' p] d(5) t q by auto
  then have tq: "t \<in> set q'" using \<open>t \<in> set q\<close> q by simp
  have c: "chained s' q" "m_next (ms_lock s) p = None"
    using chained_link[OF _ _ tq t s', of a] d(1,4) q by simp_all
  show ?thesis
  proof (rule mcs_viewI)
    show "u \<in> set q \<longleftrightarrow> ms_pc s' u \<noteq> M_outside" for u using d(2)[of u] t by (auto simp: s')
    show "first_ok s' q" using d(5) \<open>t \<noteq> a\<close> c(2) q by (auto simp: first_ok_def s' mcs_link_def split: mcs_pc.splits)
  qed (use d(1,3) c(1) in \<open>simp_all add: s' mcs_link_def\<close>)
qed

text \<open>A step in which only the first context of the queue moves.\<close>

lemma mcs_view_first_moves:
  assumes v: "mcs_view s (t # q)" and s': "s' = s\<lparr>ms_pc := (ms_pc s)(t := pc)\<rparr>" and pc: "first_ok s' (t # q)"
  shows "mcs_view s' (t # q)"
proof -
  note d = mcs_viewD[OF v]
  have "chained s' (t # q) = chained s (t # q)" by (rule chained_cong) (use d(1) in \<open>auto simp: s'\<close>)
  moreover have "pc \<noteq> M_outside" using pc by (auto simp: first_ok_def s')
  ultimately show ?thesis using d pc by (intro mcs_viewI) (auto simp: s')
qed

lemma mcs_view_leave:
  assumes v: "mcs_view s (t # q)" and h: "ms_pc s t = M_handing u"
    and s': "s' = \<lparr>ms_lock = mcs_hand_over u (ms_lock s), ms_pc = (ms_pc s)(t := M_outside)\<rparr>"
  shows "mcs_view s' q"
proof -
  note d = mcs_viewD[OF v]
  have u: "m_next (ms_lock s) t = Some u" using d(5) h by (simp add: first_ok_def)
  then obtain q' where q: "q = u # q'" "ms_pc s u = M_spinning"
    using d(4) by (cases q) (auto simp: behind_def)
  have nt: "t \<notin> set q" "u \<notin> set q'" using d(1) q by auto
  have "chained s' q = chained s q"
    by (rule chained_cong) (use nt q in \<open>auto simp: s' mcs_hand_over_def\<close>)
  then have "chained s' q" using chained_tl d(4) by blast
  moreover have "first_ok s' q" using q nt by (simp add: first_ok_def s' mcs_hand_over_def)
  moreover have "w \<in> set q \<longleftrightarrow> ms_pc s' w \<noteq> M_outside" for w using d(2)[of w] nt by (auto simp: s')
  ultimately show ?thesis using d(1,3) q by (intro mcs_viewI) (simp_all add: s' mcs_hand_over_def)
qed

lemma mcs_view_clear:
  assumes v: "mcs_view s (t # q)" and c: "ms_pc s t = M_clearing" "m_tail (ms_lock s) = Some t"
    and s': "s' = \<lparr>ms_lock = (ms_lock s)\<lparr>m_tail := None\<rparr>, ms_pc = (ms_pc s)(t := M_outside)\<rparr>"
  shows "mcs_view s' [] \<and> q = []"
proof -
  note d = mcs_viewD[OF v]
  have "last (t # q) = t" using d(3) c(2) by simp
  then have "q = []" using d(1) last_in_set[of q] by (cases q) auto
  then show ?thesis using d(2) by (auto simp: mcs_view_def first_ok_def s')
qed


lemma mcs_step_view:
  assumes v: "mcs_view s q" and "mcs_step s s'"
  shows "\<exists>q'. mcs_view s' q' \<and> (q' = q \<or> (\<exists>t. q' = q @ [t]) \<or> (\<exists>t. q = t # q'))"
  using assms(2)
proof cases
  case (enqueue t pred l')
  then show ?thesis using mcs_view_enqueue[OF v enqueue(2,3)] by blast
next
  case (link t p)
  then show ?thesis using mcs_view_link[OF v link(2)] by blast
next
  case (spin t)
  show ?thesis
  proof (cases "m_locked (ms_lock s) t")
    case True
    have "(ms_pc s)(t := M_spinning) = ms_pc s" using spin(2) by auto
    then show ?thesis using True spin v by auto
  next
    case False
    then obtain q' where q: "q = t # q'" using mcs_first[OF v, of t] spin(2) by blast
    then have "mcs_view s' (t # q')" using False v spin(1)
      by (intro mcs_view_first_moves[of s t q' s' M_holding]) (simp_all add: first_ok_def)
    then show ?thesis using q by blast
  qed
next
  case (load t)
  then obtain q' where q: "q = t # q'" using mcs_first[OF v, of t] by auto
  then have "mcs_view s' (t # q')" using v load(1)
    by (intro mcs_view_first_moves[of s t q' s']) (auto simp: first_ok_def split: option.splits)
  then show ?thesis using q by blast
next
  case (clear t b l')
  then obtain q' where q: "q = t # q'" using mcs_first[OF v, of t] by auto
  show ?thesis
  proof (cases "m_tail (ms_lock s) = Some t")
    case True
    then show ?thesis using mcs_view_clear[of s t q' s'] v q clear by (auto simp: mcs_clear_tail_def)
  next
    case False
    then have s': "s' = s\<lparr>ms_pc := (ms_pc s)(t := M_awaiting)\<rparr>" using clear by (auto simp: mcs_clear_tail_def)
    have "q' \<noteq> []" using False mcs_viewD(3)[OF v] q by auto
    then have "mcs_view s' (t # q')" using v q s'
      by (intro mcs_view_first_moves[of s t q' s']) (auto simp: first_ok_def)
    then show ?thesis using q by blast
  qed
next
  case (await t)
  then obtain q' where q: "q = t # q'" using mcs_first[OF v, of t] by auto
  then have "q' \<noteq> []" using mcs_viewD(5)[OF v] await(2) by (simp add: first_ok_def)
  then have "mcs_view s' (t # q')" using v q await(1)
    by (intro mcs_view_first_moves[of s t q' s']) (auto simp: first_ok_def split: option.splits)
  then show ?thesis using q by blast
next
  case (hand t u)
  then obtain q' where q: "q = t # q'" using mcs_first[OF v, of t] by auto
  then show ?thesis using mcs_view_leave[of s t q' u s'] v hand by blast
qed

interpretation mcs: fifo_lock mcs_start mcs_step mcs_view mcs_critical
proof
  show "mcs_view mcs_start []" by (simp add: mcs_view_def mcs_start_def first_ok_def)
  show "\<exists>q'. mcs_view s' q' \<and> (q' = q \<or> (\<exists>t. q' = q @ [t]) \<or> (\<exists>t. q = t # q'))"
    if "mcs_view s q" "mcs_step s s'" for s q s'
    using that by (rule mcs_step_view)
  show "distinct q" if "mcs_view s q" for s q using that by (rule mcs_viewD)
  show "\<exists>q'. q = t # q'" if "mcs_view s q" "mcs_critical s t" for s q t using that by (rule mcs_owner_first)
qed

section \<open>Properties\<close>

text \<open>
  Claim C32. Mutual exclusion and progress of the MCS lock, for any number of contexts and any interleaving of
  their accesses: no two are between the end of \<open>acquire\<close> and the last store of \<open>release\<close>; and whenever
  some context is inside, one of the contexts inside can take a step that is not a further turn of one of
  the two waiting loops.
\<close>

theorem mcs_mutual_exclusion:
  assumes "mcs_step\<^sup>*\<^sup>* mcs_start s"
  shows "(mcs_critical s t \<longrightarrow> mcs_critical s u \<longrightarrow> t = u) \<and>
    (ms_pc s t \<noteq> M_outside \<longrightarrow>
      (\<exists>w s'. ms_pc s w \<noteq> M_outside \<and> mcs_step s s' \<and> ms_pc s' w \<noteq> ms_pc s w \<and> (\<forall>x. x \<noteq> w \<longrightarrow> ms_pc s' x = ms_pc s x)))"
proof (intro conjI impI)
  show "t = u" if "mcs_critical s t" "mcs_critical s u" using assms that by (rule mcs.mutual_exclusion)
  assume t: "ms_pc s t \<noteq> M_outside"
  obtain q where v: "mcs_view s q" using mcs.reachable_view[OF assms] by blast
  note d = mcs_viewD[OF v]
  obtain a rest where q: "q = a # rest" using d(2)[of t] t by (cases q) auto
  have moves: "\<exists>w s'. ms_pc s w \<noteq> M_outside \<and> mcs_step s s' \<and> ms_pc s' w \<noteq> ms_pc s w \<and> (\<forall>x. x \<noteq> w \<longrightarrow> ms_pc s' x = ms_pc s x)"
    if "mcs_step s s'" "ms_pc s' = (ms_pc s)(w := pc)" "pc \<noteq> ms_pc s w" "ms_pc s w \<noteq> M_outside" for s' w pc
    using that by (intro exI[of _ w] exI[of _ s']) simp
  have ok: "first_ok s (a # rest)" using d(5) q by simp
  show "\<exists>w s'. ms_pc s w \<noteq> M_outside \<and> mcs_step s s' \<and> ms_pc s' w \<noteq> ms_pc s w \<and> (\<forall>x. x \<noteq> w \<longrightarrow> ms_pc s' x = ms_pc s x)"
  proof (cases "ms_pc s a")
    case M_spinning
    then show ?thesis using ok by (intro moves[OF mcs_step.spin[OF M_spinning]]) (auto simp: first_ok_def)
  next
    case M_holding
    show ?thesis by (rule moves[OF mcs_step.load[OF M_holding]]) (auto simp: M_holding split: option.splits)
  next
    case M_clearing
    obtain b l' where "mcs_clear_tail a (ms_lock s) = (b, l')" by force
    from mcs_step.clear[OF M_clearing this] show ?thesis by (rule moves) (auto simp: M_clearing split: if_splits)
  next
    case M_awaiting
    then obtain b rest' where r: "rest = b # rest'" using ok by (cases rest) (auto simp: first_ok_def)
    then have "behind s a b" using d(4) q by simp
    then consider "ms_pc s b = M_linking a" | "m_next (ms_lock s) a = Some b" by (auto simp: behind_def)
    then show ?thesis
    proof cases
      case 1
      show ?thesis by (rule moves[OF mcs_step.link[OF 1]]) (auto simp: 1)
    next
      case 2
      show ?thesis by (rule moves[OF mcs_step.await[OF M_awaiting]]) (auto simp: M_awaiting 2)
    qed
  next
    case (M_handing u)
    show ?thesis by (rule moves[OF mcs_step.hand[OF M_handing]]) (auto simp: M_handing)
  qed (use ok in \<open>auto simp: first_ok_def\<close>)
qed

definition mcs_one :: mcs_sys where
  "mcs_one = \<lparr>ms_lock = \<lparr>m_tail = Some 3, m_next = (\<lambda>_. None)(3 := None), m_locked = (\<lambda>_. False)(3 := True)\<rparr>,
     ms_pc = (\<lambda>_. M_outside)(3 := M_holding)\<rparr>"

lemma mcs_one_reachable: "mcs_step\<^sup>*\<^sup>* mcs_start mcs_one"
  using mcs_step.enqueue[of mcs_start 3 None "ms_lock mcs_one"]
  by (intro r_into_rtranclp) (simp add: mcs_start_def mcs_one_def mcs_exchange_def)

theorem mcs_mutual_exclusion_witness:
  "mcs_critical mcs_one 3 \<and> \<not> mcs_critical mcs_one 4 \<and> (\<exists>s'. mcs_step mcs_one s')"
proof -
  have c: "mcs_critical mcs_one 3" by (simp add: mcs_critical_def mcs_one_def)
  have "ms_pc mcs_one 3 \<noteq> M_outside" by (simp add: mcs_one_def)
  then show ?thesis using c mcs_mutual_exclusion[OF mcs_one_reachable, of 3 4] by auto
qed

text \<open>
  The MCS lock is first come, first served: the contexts inside always form a queue in the order of
  their exchanges, the queue only grows at its end and shrinks at its front, and the context that owns
  the lock is its first, so that nobody who came later enters before.
\<close>

theorem mcs_first_come_first_served:
  assumes "mcs_step\<^sup>*\<^sup>* mcs_start s"
  shows "\<exists>q. mcs_view s q \<and> set q = {t. ms_pc s t \<noteq> M_outside} \<and>
    (\<forall>before u rest s'. q = before @ u # rest \<longrightarrow> mcs_step\<^sup>*\<^sup>* s s' \<longrightarrow> mcs_critical s' u \<longrightarrow>
       (\<exists>k new. length before \<le> k \<and> mcs_view s' (drop k (q @ new))))"
proof -
  obtain q where v: "mcs_view s q" using mcs.reachable_view[OF assms] by blast
  then have "set q = {t. ms_pc s t \<noteq> M_outside}" using mcs_viewD(2) by blast
  then show ?thesis using v mcs.no_overtaking by blast
qed

theorem mcs_first_come_first_served_witness: "\<exists>q. mcs_view mcs_one q \<and> set q = {3}"
proof -
  have "{t. ms_pc mcs_one t \<noteq> M_outside} = {3}" by (auto simp: mcs_one_def)
  then show ?thesis using mcs_first_come_first_served[OF mcs_one_reachable] by auto
qed

end
