(* ===== verification/Ebr.thy ===== *)
theory Ebr
  imports Dlsm_Prelude
begin

text \<open>
  Epoch-based reclamation, \<^verbatim>\<open>libs/sync/src/ebr.c\<close>: first the operations as functions on the shared
  object, then the interleavings of readers, retirers and advancers, in which every atomic access
  is a step. Readers are named by the slot they registered. History variables record which
  readers may still hold a retired object.

  The 64-bit epoch is a natural number, \<open>QUIESCENT\<close> is \<open>None\<close>, and the step that advances the
  epoch is taken below \<open>2 ^ 64 - 2\<close> only: the runs covered are those in which the counter has not
  been advanced \<open>2 ^ 64 - 2\<close> times, so that it neither wraps nor equals the mark \<open>UINT64_MAX\<close>.
\<close>

section \<open>Operations\<close>

type_synonym obj = nat

abbreviation DLSM_SYNC_E_TOO_MANY_THREADS :: dlsm_status where "DLSM_SYNC_E_TOO_MANY_THREADS \<equiv> 30001"
abbreviation EBR_E_INVAL :: dlsm_status where "EBR_E_INVAL \<equiv> 30002"
abbreviation DLSM_SYNC_E_NOMEM :: dlsm_status where "DLSM_SYNC_E_NOMEM \<equiv> 30004"

abbreviation DLSM_EBR_SLOTS :: nat where "DLSM_EBR_SLOTS \<equiv> 64"

record dlsm_ebr =
  eb_epoch :: nat
  eb_local :: "nat \<Rightarrow> nat option"
  eb_active :: "nat \<Rightarrow> bool"
  eb_retire :: "nat \<Rightarrow> obj list"

definition dlsm_ebr_init :: dlsm_ebr where
  "dlsm_ebr_init = \<lparr>eb_epoch = 0, eb_local = (\<lambda>_. None), eb_active = (\<lambda>_. False), eb_retire = (\<lambda>_. [])\<rparr>"

text \<open>The scan of \<open>register\<close> for the first slot whose \<open>active\<close> flag can be set from 0 to 1.\<close>

fun ebr_register_from :: "nat list \<Rightarrow> dlsm_ebr \<Rightarrow> dlsm_status \<times> nat option \<times> dlsm_ebr" where
  "ebr_register_from [] e = (DLSM_SYNC_E_TOO_MANY_THREADS, None, e)"
| "ebr_register_from (i # is) e =
     (if \<not> eb_active e i
      then (DLSM_OK, Some i, e\<lparr>eb_active := (eb_active e)(i := True), eb_local := (eb_local e)(i := None)\<rparr>)
      else ebr_register_from is e)"

definition dlsm_ebr_register ::
  "dlsm_ebr option \<Rightarrow> bool \<Rightarrow> dlsm_status \<times> nat option \<times> dlsm_ebr option" where
  "dlsm_ebr_register e out_slot = (case e of
     None \<Rightarrow> (EBR_E_INVAL, None, None)
   | Some eb \<Rightarrow> if \<not> out_slot then (EBR_E_INVAL, None, e)
       else (case ebr_register_from [0..<DLSM_EBR_SLOTS] eb of (st, i, eb') \<Rightarrow> (st, i, Some eb')))"

definition dlsm_ebr_unregister :: "nat \<Rightarrow> dlsm_ebr \<Rightarrow> dlsm_ebr" where
  "dlsm_ebr_unregister i e =
     e\<lparr>eb_local := (eb_local e)(i := None), eb_active := (eb_active e)(i := False)\<rparr>"

definition ebr_enter_store :: "nat \<Rightarrow> nat \<Rightarrow> dlsm_ebr \<Rightarrow> dlsm_ebr" where
  "ebr_enter_store i g e = e\<lparr>eb_local := (eb_local e)(i := Some g)\<rparr>"

definition dlsm_ebr_exit :: "nat \<Rightarrow> dlsm_ebr \<Rightarrow> dlsm_ebr" where
  "dlsm_ebr_exit i e = e\<lparr>eb_local := (eb_local e)(i := None)\<rparr>"

definition ebr_retire_push :: "obj \<Rightarrow> nat \<Rightarrow> dlsm_ebr \<Rightarrow> dlsm_ebr" where
  "ebr_retire_push obj g e =
     e\<lparr>eb_retire := (eb_retire e)(g mod 3 := obj # eb_retire e (g mod 3))\<rparr>"

definition dlsm_ebr_retire :: "obj option \<Rightarrow> bool \<Rightarrow> dlsm_ebr \<Rightarrow> dlsm_status \<times> dlsm_ebr" where
  "dlsm_ebr_retire ob alloc_ok e = (case ob of
     None \<Rightarrow> (EBR_E_INVAL, e)
   | Some x \<Rightarrow> if \<not> alloc_ok then (DLSM_SYNC_E_NOMEM, e)
       else (DLSM_OK, ebr_retire_push x (eb_epoch e) e))"

text \<open>The reader in slot \<open>i\<close> still lingers in an epoch before \<open>g\<close>.\<close>

definition ebr_lingers :: "nat \<Rightarrow> nat \<Rightarrow> dlsm_ebr \<Rightarrow> bool" where
  "ebr_lingers g i e \<longleftrightarrow> eb_active e i \<and> (case eb_local e i of None \<Rightarrow> False | Some l \<Rightarrow> l < g)"

definition ebr_advance_epoch :: "nat \<Rightarrow> dlsm_ebr \<Rightarrow> dlsm_ebr" where
  "ebr_advance_epoch g e = e\<lparr>eb_epoch := g + 1\<rparr>"

text \<open>The exchange of the bucket of the previous epoch; the answer is the list to destroy.\<close>

definition ebr_take_bucket :: "nat \<Rightarrow> dlsm_ebr \<Rightarrow> obj list \<times> dlsm_ebr" where
  "ebr_take_bucket g e =
     (eb_retire e ((g + 2) mod 3), e\<lparr>eb_retire := (eb_retire e)((g + 2) mod 3 := [])\<rparr>)"

text \<open>A whole call with no other access in between: the objects it destroys, and the object after.\<close>

definition dlsm_ebr_try_advance :: "dlsm_ebr \<Rightarrow> obj list \<times> dlsm_ebr" where
  "dlsm_ebr_try_advance e =
     (let g = eb_epoch e in
      if list_ex (\<lambda>i. ebr_lingers g i e) [0..<DLSM_EBR_SLOTS] then ([], e)
      else ebr_take_bucket g (ebr_advance_epoch g e))"

section \<open>Interleavings\<close>

text \<open>
  A slot is free, registered and idle, between the two accesses of \<open>enter\<close>, inside, or inside and
  between unlinking an object from the shared structure, the epoch load of \<open>retire\<close>, and its push.
\<close>

datatype reader_pc = R_free | R_idle | R_loaded nat | R_in | R_unlinked obj | R_retiring obj nat

text \<open>
  An advancer is idle, has checked the slots below \<open>k\<close> against the epoch \<open>g\<close> it loaded, or has
  won the epoch and not yet taken the bucket. Any thread may advance, registered or not.
\<close>

datatype advancer_pc = A_idle | A_checking nat nat | A_reclaim nat

record ebr_sys =
  es_ebr :: dlsm_ebr
  es_reader :: "nat \<Rightarrow> reader_pc"
  es_advancer :: "nat \<Rightarrow> advancer_pc"
  es_announced_at :: "nat \<Rightarrow> nat"
  es_unlinked :: "obj set"
  es_holders :: "obj \<Rightarrow> nat set"
  es_freed :: "obj set"

abbreviation announced :: "ebr_sys \<Rightarrow> nat \<Rightarrow> bool" where
  "announced s i \<equiv> eb_local (es_ebr s) i \<noteq> None"

text \<open>
  \<open>atomic\<close> says whether the successful compare-and-swap of the epoch and the exchange of the bucket
  happen in one step. In the source they are two accesses.
\<close>

inductive ebr_step :: "bool \<Rightarrow> ebr_sys \<Rightarrow> ebr_sys \<Rightarrow> bool" for atomic :: bool where
  ebr_register: "i < DLSM_EBR_SLOTS \<Longrightarrow> es_reader s i = R_free \<Longrightarrow>
     ebr_step atomic s (s\<lparr>es_ebr := (snd (snd (ebr_register_from [i] (es_ebr s)))),
       es_reader := (es_reader s)(i := R_idle)\<rparr>)"
| ebr_unregister: "es_reader s i = R_idle \<Longrightarrow>
     ebr_step atomic s (s\<lparr>es_ebr := dlsm_ebr_unregister i (es_ebr s),
       es_reader := (es_reader s)(i := R_free)\<rparr>)"
| ebr_enter_load: "es_reader s i = R_idle \<Longrightarrow>
     ebr_step atomic s (s\<lparr>es_reader := (es_reader s)(i := R_loaded (eb_epoch (es_ebr s)))\<rparr>)"
| ebr_enter: "es_reader s i = R_loaded g \<Longrightarrow>
     ebr_step atomic s (s\<lparr>es_ebr := ebr_enter_store i g (es_ebr s),
       es_reader := (es_reader s)(i := R_in),
       es_announced_at := (es_announced_at s)(i := eb_epoch (es_ebr s))\<rparr>)"
| ebr_exit: "es_reader s i = R_in \<Longrightarrow>
     ebr_step atomic s (s\<lparr>es_ebr := dlsm_ebr_exit i (es_ebr s),
       es_reader := (es_reader s)(i := R_idle),
       es_holders := (\<lambda>x. es_holders s x - {i})\<rparr>)"
| ebr_unlink: "es_reader s i = R_in \<Longrightarrow> x \<notin> es_unlinked s \<Longrightarrow>
     ebr_step atomic s (s\<lparr>es_reader := (es_reader s)(i := R_unlinked x),
       es_unlinked := insert x (es_unlinked s),
       es_holders := (es_holders s)(x := {j. announced s j})\<rparr>)"
| ebr_retire_load: "es_reader s i = R_unlinked x \<Longrightarrow>
     ebr_step atomic s (s\<lparr>es_reader := (es_reader s)(i := R_retiring x (eb_epoch (es_ebr s)))\<rparr>)"
| ebr_retire_nomem: "es_reader s i = R_unlinked x \<Longrightarrow>
     ebr_step atomic s (s\<lparr>es_reader := (es_reader s)(i := R_in)\<rparr>)"
| ebr_retire: "es_reader s i = R_retiring x g \<Longrightarrow>
     ebr_step atomic s (s\<lparr>es_ebr := ebr_retire_push x g (es_ebr s),
       es_reader := (es_reader s)(i := R_in)\<rparr>)"
| ebr_adv_load: "es_advancer s a = A_idle \<Longrightarrow>
     ebr_step atomic s (s\<lparr>es_advancer := (es_advancer s)(a := A_checking (eb_epoch (es_ebr s)) 0)\<rparr>)"
| ebr_adv_check: "es_advancer s a = A_checking g k \<Longrightarrow> k < DLSM_EBR_SLOTS \<Longrightarrow>
     ebr_step atomic s (s\<lparr>es_advancer := (es_advancer s)(a :=
       if ebr_lingers g k (es_ebr s) then A_idle else A_checking g (k + 1))\<rparr>)"
| ebr_adv_lost: "es_advancer s a = A_checking g DLSM_EBR_SLOTS \<Longrightarrow> eb_epoch (es_ebr s) \<noteq> g \<Longrightarrow>
     ebr_step atomic s (s\<lparr>es_advancer := (es_advancer s)(a := A_idle)\<rparr>)"
| ebr_adv_won: "\<not> atomic \<Longrightarrow> es_advancer s a = A_checking g DLSM_EBR_SLOTS \<Longrightarrow>
     eb_epoch (es_ebr s) = g \<Longrightarrow> g < 2 ^ 64 - 2 \<Longrightarrow>
     ebr_step atomic s (s\<lparr>es_ebr := ebr_advance_epoch g (es_ebr s),
       es_advancer := (es_advancer s)(a := A_reclaim g)\<rparr>)"
| ebr_adv_reclaim: "es_advancer s a = A_reclaim g \<Longrightarrow>
     ebr_take_bucket g (es_ebr s) = (xs, e') \<Longrightarrow>
     ebr_step atomic s (s\<lparr>es_ebr := e', es_advancer := (es_advancer s)(a := A_idle),
       es_freed := es_freed s \<union> set xs\<rparr>)"
| ebr_adv_won_atomic: "atomic \<Longrightarrow> es_advancer s a = A_checking g DLSM_EBR_SLOTS \<Longrightarrow>
     eb_epoch (es_ebr s) = g \<Longrightarrow> g < 2 ^ 64 - 2 \<Longrightarrow>
     ebr_take_bucket g (ebr_advance_epoch g (es_ebr s)) = (xs, e') \<Longrightarrow>
     ebr_step atomic s (s\<lparr>es_ebr := e', es_advancer := (es_advancer s)(a := A_idle),
       es_freed := es_freed s \<union> set xs\<rparr>)"

definition ebr_start :: ebr_sys where
  "ebr_start = \<lparr>es_ebr = dlsm_ebr_init, es_reader = (\<lambda>_. R_free), es_advancer = (\<lambda>_. A_idle),
     es_announced_at = (\<lambda>_. 0), es_unlinked = {}, es_holders = (\<lambda>_. {}), es_freed = {}\<rparr>"

inductive ebr_reachable :: "bool \<Rightarrow> ebr_sys \<Rightarrow> bool" for atomic :: bool where
  ebr_start: "ebr_reachable atomic ebr_start"
| ebr_next: "ebr_reachable atomic s \<Longrightarrow> ebr_step atomic s s' \<Longrightarrow> ebr_reachable atomic s'"

section \<open>The invariant\<close>

definition reader_ok :: "ebr_sys \<Rightarrow> nat \<Rightarrow> bool" where
  "reader_ok s i \<longleftrightarrow>
     eb_active (es_ebr s) i = (es_reader s i \<noteq> R_free) \<and>
     (i < DLSM_EBR_SLOTS \<or> es_reader s i = R_free) \<and>
     announced s i = (es_reader s i = R_in \<or> (\<exists>x. es_reader s i = R_unlinked x) \<or>
       (\<exists>x g. es_reader s i = R_retiring x g)) \<and>
     (\<forall>g. es_reader s i = R_loaded g \<longrightarrow> g \<le> eb_epoch (es_ebr s)) \<and>
     (\<forall>l. eb_local (es_ebr s) i = Some l \<longrightarrow> l \<le> es_announced_at s i \<and>
        es_announced_at s i \<le> eb_epoch (es_ebr s) \<and> eb_epoch (es_ebr s) \<le> es_announced_at s i + 1)"

text \<open>An object unlinked by \<open>i\<close>: it is in no bucket; after the load its holders came no later.\<close>

definition retire_ok :: "ebr_sys \<Rightarrow> nat \<Rightarrow> bool" where
  "retire_ok s i \<longleftrightarrow>
     (\<forall>x. es_reader s i = R_unlinked x \<longrightarrow> x \<in> es_unlinked s) \<and>
     (\<forall>x g. es_reader s i = R_retiring x g \<longrightarrow> x \<in> es_unlinked s \<and> es_announced_at s i \<le> g \<and>
        g \<le> eb_epoch (es_ebr s) \<and> (\<forall>j \<in> es_holders s x. es_announced_at s j \<le> g))"

definition advancer_ok :: "ebr_sys \<Rightarrow> nat \<Rightarrow> bool" where
  "advancer_ok s a \<longleftrightarrow> (\<forall>g. es_advancer s a \<noteq> A_reclaim g) \<and>
     (\<forall>g k. es_advancer s a = A_checking g k \<longrightarrow> g \<le> eb_epoch (es_ebr s) \<and>
        (\<forall>i < k. announced s i \<longrightarrow> g \<le> es_announced_at s i))"

text \<open>An object in a bucket carries the epoch \<open>e\<close> it was retired in; that epoch is recent.\<close>

definition bucket_ok :: "ebr_sys \<Rightarrow> nat \<Rightarrow> obj \<Rightarrow> bool" where
  "bucket_ok s b x \<longleftrightarrow> x \<in> es_unlinked s \<and>
     (\<exists>e. e mod 3 = b \<and> e \<le> eb_epoch (es_ebr s) \<and> eb_epoch (es_ebr s) \<le> e + 1 \<and>
        (\<forall>j \<in> es_holders s x. es_announced_at s j \<le> e))"

definition ebr_inv :: "ebr_sys \<Rightarrow> bool" where
  "ebr_inv s \<longleftrightarrow> (\<forall>i. reader_ok s i) \<and> (\<forall>i. retire_ok s i) \<and> (\<forall>a. advancer_ok s a) \<and>
     (\<forall>b x. x \<in> set (eb_retire (es_ebr s) b) \<longrightarrow> bucket_ok s b x) \<and>
     (\<forall>x. es_holders s x \<subseteq> {i. announced s i}) \<and>
     (\<forall>x \<in> es_freed s. x \<in> es_unlinked s \<and> es_holders s x = {})"

lemmas ebr_ok_defs = reader_ok_def retire_ok_def advancer_ok_def bucket_ok_def

lemma ebr_invI:
  assumes "\<And>i. reader_ok s i" and "\<And>i. retire_ok s i" and "\<And>a. advancer_ok s a"
    and "\<And>b x. x \<in> set (eb_retire (es_ebr s) b) \<Longrightarrow> bucket_ok s b x"
    and "\<And>x i. i \<in> es_holders s x \<Longrightarrow> announced s i"
    and "\<And>x. x \<in> es_freed s \<Longrightarrow> x \<in> es_unlinked s \<and> es_holders s x = {}"
  shows "ebr_inv s"
  using assms by (auto simp: ebr_inv_def)

lemma ebr_invD:
  assumes "ebr_inv s"
  shows "reader_ok s i" and "retire_ok s i" and "advancer_ok s a"
    and "x \<in> set (eb_retire (es_ebr s) b) \<Longrightarrow> bucket_ok s b x"
    and "i \<in> es_holders s x \<Longrightarrow> announced s i"
    and "x \<in> es_freed s \<Longrightarrow> x \<in> es_unlinked s \<and> es_holders s x = {}"
  using assms by (auto simp: ebr_inv_def)

lemma ebr_inv_start: "ebr_inv ebr_start"
  by (rule ebr_invI) (auto simp: ebr_start_def dlsm_ebr_init_def ebr_ok_defs)

text \<open>Steps that write one slot's fields and leave the epoch, buckets and history alone.\<close>

lemma ebr_inv_register:
  assumes v: "ebr_inv s" and i: "i < DLSM_EBR_SLOTS" "es_reader s i = R_free"
  shows "ebr_inv (s\<lparr>es_ebr := (snd (snd (ebr_register_from [i] (es_ebr s)))),
    es_reader := (es_reader s)(i := R_idle)\<rparr>)"
proof -
  have f: "\<not> eb_active (es_ebr s) i" "eb_local (es_ebr s) i = None"
    using ebr_invD(1) [OF v, of i] i by (auto simp: reader_ok_def)
  then have l: "(eb_local (es_ebr s))(i := None) = eb_local (es_ebr s)" by auto
  show ?thesis
  proof (rule ebr_invI, goal_cases)
    case (1 j)
    show ?case using ebr_invD(1) [OF v, of j] i f l by (auto simp: reader_ok_def)
  next
    case (2 j)
    show ?case using ebr_invD(2) [OF v, of j] f by (auto simp: retire_ok_def)
  next
    case (3 a)
    show ?case using ebr_invD(3) [OF v, of a] f l by (auto simp: advancer_ok_def)
  qed (use f l ebr_invD(4,5,6) [OF v] in \<open>auto simp: bucket_ok_def\<close>)
qed

lemma ebr_inv_unregister:
  assumes v: "ebr_inv s" and i: "es_reader s i = R_idle"
  shows "ebr_inv (s\<lparr>es_ebr := dlsm_ebr_unregister i (es_ebr s), es_reader := (es_reader s)(i := R_free)\<rparr>)"
proof -
  have f: "eb_local (es_ebr s) i = None"
    using ebr_invD(1) [OF v, of i] i by (auto simp: reader_ok_def)
  then have l: "(eb_local (es_ebr s))(i := None) = eb_local (es_ebr s)" by auto
  show ?thesis
  proof (rule ebr_invI, goal_cases)
    case (1 j)
    show ?case using ebr_invD(1) [OF v, of j] i f l by (auto simp: reader_ok_def dlsm_ebr_unregister_def)
  next
    case (2 j)
    show ?case using ebr_invD(2) [OF v, of j] by (auto simp: retire_ok_def dlsm_ebr_unregister_def)
  next
    case (3 a)
    show ?case using ebr_invD(3) [OF v, of a] l by (auto simp: advancer_ok_def dlsm_ebr_unregister_def)
  qed (use l ebr_invD(4,5,6) [OF v] in \<open>auto simp: bucket_ok_def dlsm_ebr_unregister_def\<close>)
qed

text \<open>Steps that only move a reader between stages in which it is announced, or before it is.\<close>

lemma ebr_inv_reader_moves:
  assumes v: "ebr_inv s"
    and r: "reader_ok (s\<lparr>es_reader := (es_reader s)(i := pc)\<rparr>) i"
    and u: "retire_ok (s\<lparr>es_reader := (es_reader s)(i := pc)\<rparr>) i"
  shows "ebr_inv (s\<lparr>es_reader := (es_reader s)(i := pc)\<rparr>)"
proof (rule ebr_invI, goal_cases)
  case (1 j)
  show ?case using ebr_invD(1) [OF v, of j] r by (cases "j = i") (auto simp: reader_ok_def)
next
  case (2 j)
  show ?case using ebr_invD(2) [OF v, of j] u by (cases "j = i") (auto simp: retire_ok_def)
next
  case (3 a)
  show ?case using ebr_invD(3) [OF v, of a] by (auto simp: advancer_ok_def)
qed (use ebr_invD(4,5,6) [OF v] in \<open>auto simp: bucket_ok_def\<close>)

lemma ebr_inv_enter:
  assumes v: "ebr_inv s" and i: "es_reader s i = R_loaded g"
  shows "ebr_inv (s\<lparr>es_ebr := ebr_enter_store i g (es_ebr s), es_reader := (es_reader s)(i := R_in),
    es_announced_at := (es_announced_at s)(i := eb_epoch (es_ebr s))\<rparr>)"
proof -
  have f: "eb_local (es_ebr s) i = None" "eb_active (es_ebr s) i" "g \<le> eb_epoch (es_ebr s)"
    "i < DLSM_EBR_SLOTS"
    using ebr_invD(1) [OF v, of i] i by (auto simp: reader_ok_def)
  have nh: "i \<notin> es_holders s x" for x using ebr_invD(5) [OF v, of i x] f by auto
  show ?thesis
  proof (rule ebr_invI, goal_cases)
    case (1 j)
    show ?case using ebr_invD(1) [OF v, of j] f
      by (cases "j = i") (auto simp: reader_ok_def ebr_enter_store_def)
  next
    case (2 j)
    show ?case using ebr_invD(2) [OF v, of j] nh
      by (cases "j = i") (auto simp: retire_ok_def ebr_enter_store_def)
  next
    case (3 a)
    show ?case using ebr_invD(3) [OF v, of a] by (auto simp: advancer_ok_def ebr_enter_store_def)
  next
    case (4 b x)
    then have "bucket_ok s b x" using ebr_invD(4) [OF v, of x b] by (simp add: ebr_enter_store_def)
    moreover have "j \<in> es_holders s x \<Longrightarrow> j \<noteq> i" for j using nh by auto
    ultimately show ?case by (auto simp: bucket_ok_def ebr_enter_store_def)
  qed (use ebr_invD(5,6) [OF v] in \<open>auto simp: ebr_enter_store_def\<close>)
qed

lemma ebr_inv_exit:
  assumes v: "ebr_inv s" and i: "es_reader s i = R_in"
  shows "ebr_inv (s\<lparr>es_ebr := dlsm_ebr_exit i (es_ebr s), es_reader := (es_reader s)(i := R_idle),
    es_holders := (\<lambda>x. es_holders s x - {i})\<rparr>)"
proof (rule ebr_invI, goal_cases)
  case (1 j)
  show ?case using ebr_invD(1) [OF v, of j] i
    by (cases "j = i") (auto simp: reader_ok_def dlsm_ebr_exit_def)
next
  case (2 j)
  show ?case using ebr_invD(2) [OF v, of j]
    by (cases "j = i") (auto simp: retire_ok_def dlsm_ebr_exit_def)
next
  case (3 a)
  show ?case using ebr_invD(3) [OF v, of a] by (auto simp: advancer_ok_def dlsm_ebr_exit_def)
next
  case (4 b x)
  then show ?case using ebr_invD(4) [OF v, of x b] by (auto simp: bucket_ok_def dlsm_ebr_exit_def)
qed (use ebr_invD(5,6) [OF v] in \<open>auto simp: dlsm_ebr_exit_def\<close>)

lemma ebr_inv_unlink:
  assumes v: "ebr_inv s" and i: "es_reader s i = R_in" and x: "x \<notin> es_unlinked s"
  shows "ebr_inv (s\<lparr>es_reader := (es_reader s)(i := R_unlinked x),
    es_unlinked := insert x (es_unlinked s), es_holders := (es_holders s)(x := {j. announced s j})\<rparr>)"
proof (rule ebr_invI, goal_cases)
  case (1 j)
  show ?case using ebr_invD(1) [OF v, of j] i by (cases "j = i") (auto simp: reader_ok_def)
next
  case (2 j)
  show ?case using ebr_invD(2) [OF v, of j] x by (cases "j = i") (auto simp: retire_ok_def)
next
  case (3 a)
  show ?case using ebr_invD(3) [OF v, of a] by (auto simp: advancer_ok_def)
next
  case (4 b y)
  then show ?case using ebr_invD(4) [OF v, of y b] x by (auto simp: bucket_ok_def)
next
  case (6 y)
  then show ?case using ebr_invD(6) [OF v, of y] x by auto
qed (use ebr_invD(5) [OF v] in \<open>auto split: if_splits\<close>)

lemma ebr_inv_retire:
  assumes v: "ebr_inv s" and i: "es_reader s i = R_retiring x g"
  shows "ebr_inv (s\<lparr>es_ebr := ebr_retire_push x g (es_ebr s), es_reader := (es_reader s)(i := R_in)\<rparr>)"
proof -
  have r: "announced s i" "eb_epoch (es_ebr s) \<le> es_announced_at s i + 1"
    using ebr_invD(1) [OF v, of i] i by (auto simp: reader_ok_def)
  have t: "x \<in> es_unlinked s" "es_announced_at s i \<le> g" "g \<le> eb_epoch (es_ebr s)"
    "\<forall>j \<in> es_holders s x. es_announced_at s j \<le> g"
    using ebr_invD(2) [OF v, of i] i by (auto simp: retire_ok_def)
  show ?thesis
  proof (rule ebr_invI, goal_cases)
    case (1 j)
    show ?case using ebr_invD(1) [OF v, of j] r i
      by (cases "j = i") (auto simp: reader_ok_def ebr_retire_push_def)
  next
    case (2 j)
    show ?case using ebr_invD(2) [OF v, of j]
      by (cases "j = i") (auto simp: retire_ok_def ebr_retire_push_def)
  next
    case (3 a)
    show ?case using ebr_invD(3) [OF v, of a] by (auto simp: advancer_ok_def ebr_retire_push_def)
  next
    case (4 b y)
    then consider "y = x" "b = g mod 3" | "y \<in> set (eb_retire (es_ebr s) b)"
      by (auto simp: ebr_retire_push_def split: if_splits)
    then show ?case
    proof cases
      case 1
      with t r have "g mod 3 = b \<and> g \<le> eb_epoch (es_ebr s) \<and> eb_epoch (es_ebr s) \<le> g + 1" by auto
      with 1 t show ?thesis by (auto simp: bucket_ok_def ebr_retire_push_def)
    next
      case 2
      with ebr_invD(4) [OF v, of y b] show ?thesis by (auto simp: bucket_ok_def ebr_retire_push_def)
    qed
  qed (use ebr_invD(5,6) [OF v] in \<open>auto simp: ebr_retire_push_def\<close>)
qed

text \<open>Steps that only move an advancer.\<close>

lemma ebr_inv_advancer_moves:
  assumes v: "ebr_inv s" and r: "advancer_ok (s\<lparr>es_advancer := (es_advancer s)(a := pc)\<rparr>) a"
  shows "ebr_inv (s\<lparr>es_advancer := (es_advancer s)(a := pc)\<rparr>)"
proof (rule ebr_invI, goal_cases)
  case (1 i)
  show ?case using ebr_invD(1) [OF v, of i] by (auto simp: reader_ok_def)
next
  case (2 i)
  show ?case using ebr_invD(2) [OF v, of i] by (auto simp: retire_ok_def)
next
  case (3 c)
  show ?case using ebr_invD(3) [OF v, of c] r by (cases "c = a") (auto simp: advancer_ok_def)
qed (use ebr_invD(4,5,6) [OF v] in \<open>auto simp: bucket_ok_def\<close>)

lemma ebr_check_ok:
  assumes v: "ebr_inv s" and a: "es_advancer s a = A_checking g k"
    and c: "\<not> ebr_lingers g k (es_ebr s)"
  shows "advancer_ok (s\<lparr>es_advancer := (es_advancer s)(a := A_checking g (k + 1))\<rparr>) a"
proof -
  have "announced s k \<Longrightarrow> g \<le> es_announced_at s k"
    using ebr_invD(1) [OF v, of k] c by (auto simp: reader_ok_def ebr_lingers_def)
  with ebr_invD(3) [OF v, of a] a show ?thesis by (auto simp: advancer_ok_def less_Suc_eq)
qed

text \<open>
  The winning step: every announced reader announced in the current epoch \<open>g\<close>, so the objects
  of epoch \<open>g - 1\<close> have no holder left.
\<close>

lemma ebr_won_announced:
  assumes v: "ebr_inv s" and a: "es_advancer s a = A_checking (eb_epoch (es_ebr s)) DLSM_EBR_SLOTS"
    and i: "announced s i"
  shows "es_announced_at s i = eb_epoch (es_ebr s)"
proof -
  have "i < DLSM_EBR_SLOTS" "es_announced_at s i \<le> eb_epoch (es_ebr s)"
    using ebr_invD(1) [OF v, of i] i by (auto simp: reader_ok_def)
  with ebr_invD(3) [OF v, of a] a i show ?thesis by (force simp: advancer_ok_def)
qed

lemma mod3_prev: "e mod 3 = (g + 2) mod 3 \<Longrightarrow> e \<le> g \<Longrightarrow> g \<le> e + 1 \<Longrightarrow> e + 1 = g"
  for e g :: nat
  by presburger

lemma mod3_cur: "e mod 3 \<noteq> (g + 2) mod 3 \<Longrightarrow> e \<le> g \<Longrightarrow> g \<le> e + 1 \<Longrightarrow> e = g"
  for e g :: nat
  by presburger

lemma ebr_inv_won:
  assumes v: "ebr_inv s" and a: "es_advancer s a = A_checking (eb_epoch (es_ebr s)) DLSM_EBR_SLOTS"
    and x: "ebr_take_bucket (eb_epoch (es_ebr s)) (ebr_advance_epoch (eb_epoch (es_ebr s)) (es_ebr s)) =
      (xs, e')"
  shows "ebr_inv (s\<lparr>es_ebr := e', es_advancer := (es_advancer s)(a := A_idle),
    es_freed := es_freed s \<union> set xs\<rparr>)"
proof -
  let ?g = "eb_epoch (es_ebr s)" and ?b = "(eb_epoch (es_ebr s) + 2) mod 3"
  have e': "eb_epoch e' = ?g + 1" "eb_local e' = eb_local (es_ebr s)" "eb_active e' = eb_active (es_ebr s)"
    "eb_retire e' = (eb_retire (es_ebr s))(?b := [])" and xs: "xs = eb_retire (es_ebr s) ?b"
    using x by (auto simp: ebr_take_bucket_def ebr_advance_epoch_def)
  note ann = ebr_won_announced [OF v a]
  show ?thesis
  proof (rule ebr_invI, goal_cases)
    case (1 i)
    show ?case using ebr_invD(1) [OF v, of i] ann [of i] e' by (auto simp: reader_ok_def)
  next
    case (2 i)
    show ?case using ebr_invD(2) [OF v, of i] e' by (auto simp: retire_ok_def)
  next
    case (3 c)
    show ?case using ebr_invD(3) [OF v, of c] e' by (cases "c = a") (auto simp: advancer_ok_def)
  next
    case (4 b y)
    then have b: "y \<in> set (eb_retire (es_ebr s) b)" "b \<noteq> ?b" using e' by (auto split: if_splits)
    then obtain e where "y \<in> es_unlinked s" "e mod 3 = b" "e \<le> ?g" "?g \<le> e + 1"
      "\<forall>j \<in> es_holders s y. es_announced_at s j \<le> e"
      using ebr_invD(4) [OF v b(1)] by (auto simp: bucket_ok_def)
    moreover have "e = ?g" using calculation(2-4) b(2) mod3_cur by blast
    ultimately show ?case using e' by (auto simp: bucket_ok_def)
  next
    case (6 y)
    then consider "y \<in> es_freed s" | "y \<in> set (eb_retire (es_ebr s) ?b)" using xs by auto
    then show ?case
    proof cases
      case 1
      then show ?thesis using ebr_invD(6) [OF v, of y] by simp
    next
      case 2
      then obtain e where y: "y \<in> es_unlinked s" "e mod 3 = ?b" "e \<le> ?g" "?g \<le> e + 1"
        "\<forall>j \<in> es_holders s y. es_announced_at s j \<le> e"
        using ebr_invD(4) [OF v 2] by (auto simp: bucket_ok_def)
      have "e + 1 = ?g" using mod3_prev [OF y(2-4)] .
      with y(5) ann ebr_invD(5) [OF v, of _ y] have "es_holders s y = {}" by force
      with y(1) show ?thesis by simp
    qed
  qed (use ebr_invD(5) [OF v] e' in auto)
qed

lemma ebr_step_inv:
  assumes "ebr_step True s s'" and v: "ebr_inv s"
  shows "ebr_inv s'"
  using assms(1)
proof cases
  case (ebr_enter_load i)
  with v ebr_invD(1,2) [OF v, of i] show ?thesis
    by (auto intro!: ebr_inv_reader_moves simp: reader_ok_def retire_ok_def)
next
  case (ebr_retire_load i x)
  have h: "j \<in> es_holders s x \<Longrightarrow> es_announced_at s j \<le> eb_epoch (es_ebr s)" for j
    using ebr_invD(5) [OF v, of j x] ebr_invD(1) [OF v, of j] by (auto simp: reader_ok_def)
  from ebr_retire_load v h ebr_invD(1,2) [OF v, of i] show ?thesis
    by (auto intro!: ebr_inv_reader_moves simp: reader_ok_def retire_ok_def)
next
  case (ebr_retire_nomem i x)
  with v ebr_invD(1,2) [OF v, of i] show ?thesis
    by (auto intro!: ebr_inv_reader_moves simp: reader_ok_def retire_ok_def)
next
  case (ebr_adv_load a)
  with v show ?thesis by (auto intro!: ebr_inv_advancer_moves simp: advancer_ok_def)
next
  case (ebr_adv_check a g k)
  with v ebr_check_ok [OF v, of a g k] show ?thesis
    by (auto intro!: ebr_inv_advancer_moves simp: advancer_ok_def)
next
  case (ebr_adv_lost a g)
  with v show ?thesis by (auto intro!: ebr_inv_advancer_moves simp: advancer_ok_def)
next
  case (ebr_adv_reclaim a g xs e')
  with ebr_invD(3) [OF v, of a] show ?thesis by (simp add: advancer_ok_def)
next
  case (ebr_adv_won_atomic a g xs e')
  then show ?thesis using ebr_inv_won [OF v, of a xs e'] by simp
next
  case (ebr_register i)
  then show ?thesis using ebr_inv_register [OF v] by simp
next
  case (ebr_unregister i)
  then show ?thesis using ebr_inv_unregister [OF v] by simp
next
  case (ebr_enter i g)
  then show ?thesis using ebr_inv_enter [OF v] by simp
next
  case (ebr_exit i)
  then show ?thesis using ebr_inv_exit [OF v] by simp
next
  case (ebr_unlink i x)
  then show ?thesis using ebr_inv_unlink [OF v] by simp
next
  case (ebr_retire i x g)
  then show ?thesis using ebr_inv_retire [OF v] by simp
qed simp

lemma ebr_reachable_inv: "ebr_reachable True s \<Longrightarrow> ebr_inv s"
  by (induction rule: ebr_reachable.induct) (auto intro: ebr_inv_start ebr_step_inv)

section \<open>Properties\<close>

text \<open>A run of one reader and one advancer, for the witness.\<close>

lemma ebr_checks_pass:
  assumes "ebr_reachable atm s" and "es_advancer s a = A_checking g 0"
    and "\<And>i. \<not> ebr_lingers g i (es_ebr s)" and "k \<le> DLSM_EBR_SLOTS"
  shows "ebr_reachable atm (s\<lparr>es_advancer := (es_advancer s)(a := A_checking g k)\<rparr>)"
  using assms(4)
proof (induction k)
  case 0
  have "(es_advancer s)(a := A_checking g 0) = es_advancer s" using assms(2) by auto
  with assms(1) show ?case by simp
next
  case (Suc k)
  let ?s = "s\<lparr>es_advancer := (es_advancer s)(a := A_checking g k)\<rparr>"
  have "ebr_reachable atm ?s" by (rule Suc.IH) (use Suc.prems in simp)
  moreover have "ebr_step atm ?s (?s\<lparr>es_advancer := (es_advancer ?s)(a :=
      if ebr_lingers g k (es_ebr ?s) then A_idle else A_checking g (k + 1))\<rparr>)"
    by (rule ebr_adv_check) (use Suc.prems in auto)
  ultimately show ?case using ebr_next assms(3) by fastforce
qed

lemma ebr_check_round:
  assumes "ebr_reachable atm s" and "es_advancer s a = A_idle"
    and "\<And>i. \<not> ebr_lingers (eb_epoch (es_ebr s)) i (es_ebr s)"
  shows "ebr_reachable atm (s\<lparr>es_advancer :=
    (es_advancer s)(a := A_checking (eb_epoch (es_ebr s)) DLSM_EBR_SLOTS)\<rparr>)"
proof -
  let ?s = "s\<lparr>es_advancer := (es_advancer s)(a := A_checking (eb_epoch (es_ebr s)) 0)\<rparr>"
  have "ebr_reachable atm ?s" using ebr_next [OF assms(1) ebr_adv_load [OF assms(2)]] .
  from ebr_checks_pass [OF this, of a "eb_epoch (es_ebr s)" DLSM_EBR_SLOTS] assms(3)
  show ?thesis by simp
qed

definition demo_ebr :: "nat \<Rightarrow> (nat \<Rightarrow> reader_pc) \<Rightarrow> (nat \<Rightarrow> nat option) \<Rightarrow> (nat \<Rightarrow> bool) \<Rightarrow> (nat \<Rightarrow> obj list) \<Rightarrow>
    (nat \<Rightarrow> advancer_pc) \<Rightarrow> (nat \<Rightarrow> nat) \<Rightarrow> obj set \<Rightarrow> (obj \<Rightarrow> nat set) \<Rightarrow> obj set \<Rightarrow> ebr_sys" where
  "demo_ebr g rd loc act bk adv ann un hold fr =
     \<lparr>es_ebr = \<lparr>eb_epoch = g, eb_local = loc, eb_active = act, eb_retire = bk\<rparr>, es_reader = rd,
      es_advancer = adv, es_announced_at = ann, es_unlinked = un, es_holders = hold, es_freed = fr\<rparr>"

lemma demo_ebr_start: "ebr_start = demo_ebr 0 (\<lambda>_. R_free) (\<lambda>_. None) (\<lambda>_. False) (\<lambda>_. []) (\<lambda>_. A_idle)
    (\<lambda>_. 0) {} (\<lambda>_. {}) {}"
  by (simp add: ebr_start_def demo_ebr_def dlsm_ebr_init_def)

text \<open>Register, enter, unlink object 9 and retire it, as one run of the reader in slot \<open>i\<close>.\<close>

lemma demo_register_enter:
  assumes "ebr_reachable atm (demo_ebr g rd loc act bk adv ann un hold fr)"
    and "i < DLSM_EBR_SLOTS" and "rd i = R_free" and "\<not> act i"
  shows "ebr_reachable atm (demo_ebr g (rd(i := R_in)) (loc(i := Some g)) (act(i := True)) bk adv
    (ann(i := g)) un hold fr)"
proof -
  let ?s1 = "demo_ebr g (rd(i := R_idle)) (loc(i := None)) (act(i := True)) bk adv ann un hold fr"
  let ?s2 = "demo_ebr g (rd(i := R_loaded g)) (loc(i := None)) (act(i := True)) bk adv ann un hold fr"
  let ?s3 = "demo_ebr g (rd(i := R_in)) (loc(i := Some g)) (act(i := True)) bk adv (ann(i := g)) un hold fr"
  have "ebr_step atm (demo_ebr g rd loc act bk adv ann un hold fr) ?s1"
    using ebr_register [of i "demo_ebr g rd loc act bk adv ann un hold fr" atm] assms(2-4)
    by (simp add: demo_ebr_def)
  moreover have "ebr_step atm ?s1 ?s2"
    using ebr_enter_load [of ?s1 i atm] by (simp add: demo_ebr_def)
  moreover have "ebr_step atm ?s2 ?s3"
    using ebr_enter [of ?s2 i g atm] by (simp add: demo_ebr_def ebr_enter_store_def)
  ultimately show ?thesis using assms(1) ebr_next by metis
qed

lemma demo_retire:
  assumes "ebr_reachable atm (demo_ebr g rd loc act bk adv ann {} hold fr)" and "rd i = R_in"
  shows "ebr_reachable atm (demo_ebr g (rd(i := R_in)) loc act (bk(g mod 3 := 9 # bk (g mod 3))) adv ann {9}
    (hold(9 := {j. loc j \<noteq> None})) fr)"
proof -
  let ?s0 = "demo_ebr g rd loc act bk adv ann {} hold fr"
  let ?s1 = "demo_ebr g (rd(i := R_unlinked 9)) loc act bk adv ann {9} (hold(9 := {j. loc j \<noteq> None})) fr"
  let ?s2 = "demo_ebr g (rd(i := R_retiring 9 g)) loc act bk adv ann {9} (hold(9 := {j. loc j \<noteq> None})) fr"
  have "ebr_step atm ?s0 ?s1"
    using ebr_unlink [of ?s0 i 9 atm] assms(2) by (simp add: demo_ebr_def)
  moreover have "ebr_step atm ?s1 ?s2"
    using ebr_retire_load [of ?s1 i 9 atm] by (simp add: demo_ebr_def)
  moreover have "ebr_step atm ?s2 (demo_ebr g (rd(i := R_in)) loc act
      (bk(g mod 3 := 9 # bk (g mod 3))) adv ann {9} (hold(9 := {j. loc j \<noteq> None})) fr)"
    using ebr_retire [of ?s2 i 9 g atm] by (simp add: demo_ebr_def ebr_retire_push_def)
  ultimately show ?thesis using assms(1) ebr_next by metis
qed

lemma demo_advance:
  assumes r: "ebr_reachable False (demo_ebr g rd loc act bk adv ann un hold fr)"
    and nl: "\<And>i. \<not> ebr_lingers g i \<lparr>eb_epoch = g, eb_local = loc, eb_active = act, eb_retire = bk\<rparr>"
    and a: "adv a = A_idle" and g: "g < 2 ^ 64 - 2"
  shows "ebr_reachable False (demo_ebr (g + 1) rd loc act bk (adv(a := A_reclaim g)) ann un hold fr)"
proof -
  let ?s = "demo_ebr g rd loc act bk (adv(a := A_checking g DLSM_EBR_SLOTS)) ann un hold fr"
  have "ebr_reachable False ?s"
    using ebr_check_round [OF r, of a] nl a by (simp add: demo_ebr_def)
  moreover have "ebr_step False ?s (demo_ebr (g + 1) rd loc act bk (adv(a := A_reclaim g)) ann un hold fr)"
    using ebr_adv_won [of False ?s a g] g by (simp add: demo_ebr_def ebr_advance_epoch_def)
  ultimately show ?thesis by (rule ebr_next)
qed

lemma demo_advance_atomic:
  assumes r: "ebr_reachable True (demo_ebr g rd loc act bk adv ann un hold fr)"
    and nl: "\<And>i. \<not> ebr_lingers g i \<lparr>eb_epoch = g, eb_local = loc, eb_active = act, eb_retire = bk\<rparr>"
    and a: "adv a = A_idle" and g: "g < 2 ^ 64 - 2"
  shows "ebr_reachable True (demo_ebr (g + 1) rd loc act (bk((g + 2) mod 3 := []))
    (adv(a := A_idle)) ann un hold (fr \<union> set (bk ((g + 2) mod 3))))"
proof -
  let ?s = "demo_ebr g rd loc act bk (adv(a := A_checking g DLSM_EBR_SLOTS)) ann un hold fr"
  have "ebr_reachable True ?s"
    using ebr_check_round [OF r, of a] nl a by (simp add: demo_ebr_def)
  moreover have "ebr_step True ?s (demo_ebr (g + 1) rd loc act (bk((g + 2) mod 3 := []))
      (adv(a := A_idle)) ann un hold (fr \<union> set (bk ((g + 2) mod 3))))"
    using ebr_adv_won_atomic [of True ?s a g] g
    by (simp add: demo_ebr_def ebr_advance_epoch_def ebr_take_bucket_def)
  ultimately show ?thesis by (rule ebr_next)
qed

text \<open>
  Claim C33. Safe reclamation: where winning the epoch and taking the bucket are one step, an
  object is never destroyed while a reader that entered before the object was unlinked is still
  inside. This holds for every interleaving of up to 64 readers and any number of retirers and
  advancers, with stale epoch announcements and slot-by-slot checks.
\<close>

theorem ebr_no_free_while_held:
  assumes "ebr_reachable True s" and "x \<in> es_freed s"
  shows "es_holders s x = {}"
  using ebr_invD(6) [OF ebr_reachable_inv [OF assms(1)] assms(2)] by simp

theorem ebr_no_free_while_held_witness:
  "\<exists>s. ebr_reachable True s \<and> 9 \<in> es_freed s \<and> es_holders s 9 = {}"
proof -
  from demo_register_enter [OF ebr_start [unfolded demo_ebr_start], of 0 True]
  have "ebr_reachable True (demo_ebr 0 ((\<lambda>_. R_free)(0 := R_in)) ((\<lambda>_. None)(0 := Some 0))
      ((\<lambda>_. False)(0 := True)) (\<lambda>_. []) (\<lambda>_. A_idle) ((\<lambda>_. 0)(0 := 0)) {} (\<lambda>_. {}) {})"
    by simp
  from demo_retire [OF this, of 0] obtain rd hold where
    s1: "ebr_reachable True (demo_ebr 0 rd ((\<lambda>_. None)(0 := Some 0)) ((\<lambda>_. False)(0 := True))
      ((\<lambda>_. [])(0 := [9])) (\<lambda>_. A_idle) ((\<lambda>_. 0)(0 := 0)) {9} hold {})" and rd: "rd 0 = R_in"
    by fastforce
  from ebr_next [OF s1 ebr_exit [of _ 0]] rd obtain rd hold where
    s2: "ebr_reachable True (demo_ebr 0 rd ((\<lambda>_. None)(0 := None)) ((\<lambda>_. False)(0 := True))
      ((\<lambda>_. [])(0 := [9])) (\<lambda>_. A_idle) ((\<lambda>_. 0)(0 := 0)) {9} hold {})"
    by (force simp: demo_ebr_def dlsm_ebr_exit_def)
  have nl: "\<not> ebr_lingers g i \<lparr>eb_epoch = e, eb_local = (\<lambda>_. None)(0 := None),
      eb_active = a, eb_retire = b\<rparr>" for g i e a b
    by (simp add: ebr_lingers_def)
  have b: "(0 :: nat) < 2 ^ 64 - 2" "(0 :: nat) + 1 < 2 ^ 64 - 2" by simp_all
  have s3: "ebr_reachable True (demo_ebr (0 + 1) rd ((\<lambda>_. None)(0 := None)) ((\<lambda>_. False)(0 := True))
      ((\<lambda>_. [])(0 := [9], (0 + 2) mod 3 := [])) ((\<lambda>_. A_idle)(0 := A_idle)) ((\<lambda>_. 0)(0 := 0)) {9} hold
      ({} \<union> set (((\<lambda>_. [])(0 := [9])) (((0 :: nat) + 2) mod 3))))"
    by (rule demo_advance_atomic [OF s2 nl refl b(1)])
  have a: "((\<lambda>_ :: nat. A_idle)(0 := A_idle)) 0 = A_idle" by simp
  from demo_advance_atomic [OF s3 nl a b(2)] obtain s where
    s: "ebr_reachable True s" "9 \<in> es_freed s" by (force simp: demo_ebr_def)
  with ebr_no_free_while_held [OF s] show ?thesis by blast
qed

text \<open>
  Claim C34. As written, the compare-and-swap of the epoch and the exchange of the bucket are two
  accesses, and the advancer is not announced while it executes them. Then an advancer that
  stalls between the two, while another one advances the epoch again, takes a bucket that new
  objects have been retired into: an object is destroyed while a reader that may hold it is
  inside.
\<close>

theorem ebr_reclaim_gap_unsafe:
  "\<exists>s x i. ebr_reachable False s \<and> x \<in> es_freed s \<and> i \<in> es_holders s x \<and> announced s i"
proof -
  let ?adv1 = "(\<lambda>_. A_idle)(0 := A_reclaim 0)"
  let ?e = "\<lambda>_ :: nat. [] :: obj list" and ?n = "\<lambda>_ :: nat. None :: nat option" and ?z = "\<lambda>_ :: nat. 0 :: nat"
  let ?f = "\<lambda>_ :: nat. R_free" and ?h = "\<lambda>_ :: obj. {} :: nat set" and ?o = "\<lambda>_ :: nat. False"
  have nl: "\<not> ebr_lingers g i \<lparr>eb_epoch = e, eb_local = ?n, eb_active = ?o, eb_retire = b\<rparr>" for g i e b
    by (simp add: ebr_lingers_def)
  have s1: "ebr_reachable False (demo_ebr (0 + 1) ?f ?n ?o ?e ?adv1 ?z {} ?h {})"
    by (rule demo_advance [OF ebr_start [unfolded demo_ebr_start] nl]) simp_all
  have "ebr_reachable False (demo_ebr (0 + 1 + 1) ?f ?n ?o ?e (?adv1(1 := A_reclaim (0 + 1))) ?z {} ?h {})"
    by (rule demo_advance [OF s1 nl]) simp_all
  then have s2: "ebr_reachable False (demo_ebr 2 ?f ?n ?o ?e (?adv1(1 := A_reclaim 1)) ?z {} ?h {})"
    by (simp only: add_0 one_add_one)
  from demo_register_enter [OF s2, of 0]
  have "ebr_reachable False (demo_ebr 2 (?f(0 := R_in)) (?n(0 := Some 2)) (?o(0 := True)) ?e
      (?adv1(1 := A_reclaim 1)) (?z(0 := 2)) {} ?h {})" by simp
  from demo_register_enter [OF this, of 1]
  have "ebr_reachable False (demo_ebr 2 (?f(0 := R_in, 1 := R_in)) (?n(0 := Some 2, 1 := Some 2))
      (?o(0 := True, 1 := True)) ?e (?adv1(1 := A_reclaim 1)) (?z(0 := 2, 1 := 2)) {} ?h {})" by simp
  from demo_retire [OF this, of 0] obtain rd hold where
    s3: "ebr_reachable False (demo_ebr 2 rd (?n(0 := Some 2, 1 := Some 2)) (?o(0 := True, 1 := True))
      (?e(2 := [9])) (?adv1(1 := A_reclaim 1)) (?z(0 := 2, 1 := 2)) {9} hold {})" and h: "1 \<in> hold 9"
    by fastforce
  let ?s3 = "demo_ebr 2 rd (?n(0 := Some 2, 1 := Some 2)) (?o(0 := True, 1 := True))
      (?e(2 := [9])) (?adv1(1 := A_reclaim 1)) (?z(0 := 2, 1 := 2)) {9} hold {}"
  obtain xs e' where t: "ebr_take_bucket 0 (es_ebr ?s3) = (xs, e')" by (meson surj_pair)
  then have e': "9 \<in> set xs" "eb_local e' 1 = Some 2"
    by (auto simp: ebr_take_bucket_def demo_ebr_def)
  have a: "es_advancer ?s3 0 = A_reclaim 0" by (simp add: demo_ebr_def)
  let ?s4 = "?s3\<lparr>es_ebr := e', es_advancer := (es_advancer ?s3)(0 := A_idle),
    es_freed := es_freed ?s3 \<union> set xs\<rparr>"
  have "ebr_reachable False ?s4" using ebr_next [OF s3 ebr_adv_reclaim [OF a t]] .
  moreover have "9 \<in> es_freed ?s4 \<and> 1 \<in> es_holders ?s4 9 \<and> announced ?s4 1"
    using h e' by (simp add: demo_ebr_def)
  ultimately show ?thesis by blast
qed

end
