(* ===== verification/Io_Ring.thy ===== *)
theory Io_Ring
  imports Dlsm_Prelude
begin

unbundle bit_operations_syntax

text \<open>
  The index arithmetic of the submission and completion rings of \<^verbatim>\<open>libs/io/src/io.c\<close>: 32-bit heads and
  tails that wrap around, entries at \<open>index AND mask\<close>, a power of two of entries.
\<close>

definition ring_index :: "nat \<Rightarrow> u32 \<Rightarrow> nat" where
  "ring_index k x = unat (x AND mask k)"

text \<open>The entries from \<open>head\<close> on are \<open>xs\<close>.\<close>

definition ring_rep :: "nat \<Rightarrow> (nat \<Rightarrow> 'a) \<Rightarrow> u32 \<Rightarrow> 'a list \<Rightarrow> bool" where
  "ring_rep k arr head xs \<longleftrightarrow> length xs \<le> 2 ^ k \<and> (\<forall>i < length xs. arr (ring_index k (head + of_nat i)) = xs ! i)"

lemma ring_index_mod:
  assumes "k < 32"
  shows "ring_index k x = unat x mod 2 ^ k"
  unfolding ring_index_def take_bit_eq_mask[symmetric] unsigned_take_bit_eq by (simp add: take_bit_eq_mod)

lemma ring_index_add:
  assumes "k < 32"
  shows "ring_index k (x + of_nat i) = (unat x + i) mod 2 ^ k"
proof -
  have d: "(2 :: nat) ^ k dvd 2 ^ 32" by (rule le_imp_power_dvd) (use assms in simp)
  have "unat (x + of_nat i) = (unat x + i) mod 2 ^ 32"
    by (simp add: unat_word_ariths unat_of_nat mod_add_right_eq)
  then show ?thesis using ring_index_mod[OF assms] d by (simp add: mod_mod_cancel)
qed

text \<open>Fewer entries than the ring holds do not collide.\<close>

lemma ring_index_inj:
  assumes "k < 32" and "ring_index k (x + of_nat i) = ring_index k (x + of_nat j)" and "i < 2 ^ k" and "j < 2 ^ k"
  shows "i = j"
proof -
  have le: "b \<le> a" if "(unat x + a) mod 2 ^ k = (unat x + b) mod 2 ^ k" "b < 2 ^ k" for a b
  proof (rule ccontr)
    assume "\<not> b \<le> a"
    then have "2 ^ k dvd (unat x + b) - (unat x + a)" using that(1) by (metis mod_eq_dvd_iff_nat nat_add_left_cancel_le nat_le_linear)
    then show False using that(2) \<open>\<not> b \<le> a\<close> by (auto dest: dvd_imp_le)
  qed
  have "(unat x + i) mod 2 ^ k = (unat x + j) mod 2 ^ k" using assms(1,2) by (simp add: ring_index_add)
  then show ?thesis using le[of i j] le[of j i] assms(3,4) by simp
qed

lemma ring_rep_push:
  assumes "k < 32" and "ring_rep k arr head xs" and "length xs < 2 ^ k"
  shows "ring_rep k (arr(ring_index k (head + of_nat (length xs)) := x)) head (xs @ [x])"
proof -
  have "ring_index k (head + of_nat i) \<noteq> ring_index k (head + of_nat (length xs))" if "i < length xs" for i
  proof
    assume "ring_index k (head + of_nat i) = ring_index k (head + of_nat (length xs))"
    then have "i = length xs" by (rule ring_index_inj[OF assms(1)]) (use that assms(3) in linarith)+
    then show False using that by simp
  qed
  then show ?thesis using assms(2,3) by (auto simp: ring_rep_def nth_append less_Suc_eq)
qed

lemma ring_rep_pop:
  assumes "ring_rep k arr head (x # xs)"
  shows "arr (ring_index k head) = x" and "ring_rep k arr (head + 1) xs"
proof -
  have len: "length (x # xs) \<le> 2 ^ k" and
    nth: "\<And>i. i < length (x # xs) \<Longrightarrow> arr (ring_index k (head + of_nat i)) = (x # xs) ! i"
    using assms by (simp_all only: ring_rep_def)
  show "arr (ring_index k head) = x" using nth[of 0] by simp
  have "arr (ring_index k (head + 1 + of_nat i)) = xs ! i" if "i < length xs" for i
    using nth[of "Suc i"] that by (simp add: algebra_simps)
  then show "ring_rep k arr (head + 1) xs" using len by (simp add: ring_rep_def)
qed

lemma ring_rep_drop:
  assumes "ring_rep k arr head xs" and "m \<le> length xs"
  shows "ring_rep k arr (head + of_nat m) (drop m xs)"
  using assms by (auto simp: ring_rep_def algebra_simps add.commute simp flip: of_nat_add)

text \<open>Head and tail tell how many entries there are.\<close>

lemma ring_count:
  assumes "k < 32" and "n \<le> 2 ^ k" and "tail = head + of_nat n"
  shows "unat (tail - head :: u32) = n"
proof -
  have "(2 :: nat) ^ k < 2 ^ 32" using assms(1) by (rule power_strict_increasing) simp
  then show ?thesis using assms(2,3) by (simp add: unat_of_nat)
qed

end
