(* ===== verification/Io_Ops.thy ===== *)
theory Io_Ops
  imports Io_Ring Intrusive_List
begin

text \<open>
  Asynchronous I/O for green threads (\<^verbatim>\<open>libs/io/src/io.c\<close>): the pool of completion slots, the submission
  ring, the reaper thread and \<open>do_op\<close>, with set-up and tear-down. The kernel is the environment: it takes
  entries from the submission ring in order, completes a request it holds at any time with any result, and
  posts the completion; nothing else is assumed of it. The sections under \<open>mtx\<close> are atomic, and so is
  each access to a slot.
\<close>

section \<open>Data\<close>

record slot =
  sl_res :: int
  sl_wake_done :: bool
  sl_task :: addr
  sl_next :: "nat option"

datatype io_op = IORING_OP_NOP | IORING_OP_READ | IORING_OP_WRITE | IORING_OP_FSYNC | IORING_OP_ACCEPT | IORING_OP_RECV | IORING_OP_SEND

abbreviation IORING_FSYNC_DATASYNC :: u32 where "IORING_FSYNC_DATASYNC \<equiv> 1"

text \<open>
  An entry of the submission ring. \<open>sqe_owner\<close> is not in memory: it names the task that submitted the
  request, to say whose request a completion answers.
\<close>

record io_uring_sqe =
  sqe_opcode :: io_op
  sqe_fd :: int
  sqe_addr :: u64
  sqe_len :: u32
  sqe_off :: u64
  sqe_fsync_flags :: u32
  sqe_user_data :: nat
  sqe_owner :: addr

record io_uring_cqe =
  cqe_user_data :: nat
  cqe_res :: int

text \<open>
  The object \<open>dlsm_io\<close>: \<open>2 ^ io_bits\<close> submission entries and slots, \<open>2 ^ (io_bits + 1)\<close> completion
  entries (the size \<open>io_uring_setup\<close> chooses). \<open>io_flight\<close> is what the kernel holds. \<open>io_sq_head\<close> is moved by
  the kernel, \<open>io_cq_head\<close> by the reaper.
\<close>

record dlsm_io =
  io_slots :: "nat \<Rightarrow> slot"
  io_free_head :: "nat option"
  io_bits :: nat
  io_sqes :: "nat \<Rightarrow> io_uring_sqe"
  io_sq_head :: u32
  io_sq_tail :: u32
  io_flight :: "io_uring_sqe list"
  io_cqes :: "nat \<Rightarrow> io_uring_cqe"
  io_cq_head :: u32
  io_cq_tail :: u32

abbreviation DLSM_IO_STOP_TOKEN :: nat where "DLSM_IO_STOP_TOKEN \<equiv> 2 ^ 64 - 1"

section \<open>Operations\<close>

definition slot_alloc :: "dlsm_io \<Rightarrow> nat option \<times> dlsm_io" where
  "slot_alloc io = (case io_free_head io of
     None \<Rightarrow> (None, io)
   | Some i \<Rightarrow> (Some i, io\<lparr>io_free_head := sl_next (io_slots io i)\<rparr>))"

definition slot_upd :: "nat \<Rightarrow> (slot \<Rightarrow> slot) \<Rightarrow> dlsm_io \<Rightarrow> dlsm_io" where
  "slot_upd i f io = io\<lparr>io_slots := (io_slots io)(i := f (io_slots io i))\<rparr>"

definition slot_free :: "nat \<Rightarrow> dlsm_io \<Rightarrow> dlsm_io" where
  "slot_free i io = (slot_upd i (\<lambda>s. s\<lparr>sl_next := io_free_head io\<rparr>) io)\<lparr>io_free_head := Some i\<rparr>"

text \<open>The entry goes to \<open>tail AND mask\<close>, then the tail is published; \<open>io_uring_enter\<close> lets the kernel take entries.\<close>

definition submit_entry :: "io_uring_sqe \<Rightarrow> dlsm_io \<Rightarrow> dlsm_io" where
  "submit_entry sqe io =
     (let idx = ring_index (io_bits io) (io_sq_tail io) in
      io\<lparr>io_sqes := (io_sqes io)(idx := sqe), io_sq_tail := io_sq_tail io + 1\<rparr>)"

definition kernel_take :: "dlsm_io \<Rightarrow> dlsm_io" where
  "kernel_take io = (if io_sq_head io = io_sq_tail io then io
     else io\<lparr>io_flight := io_flight io @ [io_sqes io (ring_index (io_bits io) (io_sq_head io))], io_sq_head := io_sq_head io + 1\<rparr>)"

text \<open>\<open>entered\<close> says whether \<open>io_uring_enter\<close> succeeded; the code ignores its result.\<close>

definition submit :: "bool \<Rightarrow> io_uring_sqe \<Rightarrow> dlsm_io \<Rightarrow> dlsm_io" where
  "submit entered sqe io = (let io1 = submit_entry sqe io in if entered then kernel_take io1 else io1)"

definition kernel_complete :: "io_uring_sqe \<Rightarrow> int \<Rightarrow> dlsm_io \<Rightarrow> dlsm_io" where
  "kernel_complete sqe res io =
     io\<lparr>io_flight := remove1 sqe (io_flight io),
        io_cqes := (io_cqes io)(ring_index (io_bits io + 1) (io_cq_tail io) := \<lparr>cqe_user_data = sqe_user_data sqe, cqe_res = res\<rparr>),
        io_cq_tail := io_cq_tail io + 1\<rparr>"

text \<open>
  Where the reaper stands: waiting for completions, at the entry \<open>head\<close> of a batch that ends at \<open>tail\<close>, or
  between the three accesses it makes for one entry.
\<close>

datatype reaper_pc = R_waiting | R_batch u32 u32 | R_stored nat u32 u32 | R_unparked nat u32 u32

definition reaper_load :: "dlsm_io \<Rightarrow> reaper_pc" where
  "reaper_load io = R_batch (io_cq_head io) (io_cq_tail io)"

text \<open>The next entry of the batch: its result is stored in the slot. At the end of the batch the head is published.\<close>

definition reaper_next :: "u32 \<Rightarrow> u32 \<Rightarrow> dlsm_io \<Rightarrow> reaper_pc \<times> dlsm_io" where
  "reaper_next head tail io =
     (if head = tail then (R_waiting, io\<lparr>io_cq_head := head\<rparr>)
      else
        (let cqe = io_cqes io (ring_index (io_bits io + 1) head); ud = cqe_user_data cqe in
         if ud = DLSM_IO_STOP_TOKEN then (R_batch (head + 1) tail, io)
         else (R_stored ud (head + 1) tail, slot_upd ud (\<lambda>s. s\<lparr>sl_res := cqe_res cqe\<rparr>) io)))"

definition reaper_wake_done :: "nat \<Rightarrow> dlsm_io \<Rightarrow> dlsm_io" where
  "reaper_wake_done tok io = slot_upd tok (\<lambda>s. s\<lparr>sl_wake_done := True\<rparr>) io"

text \<open>
  \<open>do_op\<close> in the parts between which other contexts run: the slot, the submission, the wait for
  \<open>wake_done\<close>, the result. \<open>None\<close> as the task is a caller that is no green thread.
\<close>

datatype io_pc = Io_outside | Io_prepared nat | Io_waiting nat

abbreviation ENOTSUP :: int where "ENOTSUP \<equiv> 95"

definition op_no_task :: "int \<times> int option" where
  "op_no_task = (- 1, Some ENOTSUP)"

definition op_prepare :: "addr \<Rightarrow> dlsm_io \<Rightarrow> io_pc \<times> dlsm_io" where
  "op_prepare t io = (case slot_alloc io of
     (None, io1) \<Rightarrow> (Io_outside, io1)
   | (Some tok, io1) \<Rightarrow> (Io_prepared tok, slot_upd tok (\<lambda>s. s\<lparr>sl_task := t, sl_wake_done := False\<rparr>) io1))"

definition op_result :: "int \<Rightarrow> int \<times> int option" where
  "op_result res = (if res < 0 then (- 1, Some (- res)) else (res, None))"

definition op_finish :: "nat \<Rightarrow> dlsm_io \<Rightarrow> ((int \<times> int option) \<times> dlsm_io) option" where
  "op_finish tok io =
     (if \<not> sl_wake_done (io_slots io tok) then None
      else Some (op_result (sl_res (io_slots io tok)), slot_free tok io))"

text \<open>The requests of the public operations: what each passes to \<open>do_op\<close>; lengths are cut to 32 bits.\<close>

definition request :: "io_op \<Rightarrow> int \<Rightarrow> u64 \<Rightarrow> u32 \<Rightarrow> u64 \<Rightarrow> u32 \<Rightarrow> addr \<Rightarrow> nat \<Rightarrow> io_uring_sqe" where
  "request opcode fd a len off flags t tok = \<lparr>sqe_opcode = opcode, sqe_fd = fd, sqe_addr = a, sqe_len = len, sqe_off = off,
     sqe_fsync_flags = flags, sqe_user_data = tok, sqe_owner = t\<rparr>"

definition dlsm_io_read_at :: "int \<Rightarrow> u64 \<Rightarrow> u64 \<Rightarrow> u64 \<Rightarrow> addr \<Rightarrow> nat \<Rightarrow> io_uring_sqe" where
  "dlsm_io_read_at fd buf len off = request IORING_OP_READ fd buf (ucast len) off 0"

definition dlsm_io_write_at :: "int \<Rightarrow> u64 \<Rightarrow> u64 \<Rightarrow> u64 \<Rightarrow> addr \<Rightarrow> nat \<Rightarrow> io_uring_sqe" where
  "dlsm_io_write_at fd buf len off = request IORING_OP_WRITE fd buf (ucast len) off 0"

definition dlsm_io_fsync :: "int \<Rightarrow> addr \<Rightarrow> nat \<Rightarrow> io_uring_sqe" where
  "dlsm_io_fsync fd = request IORING_OP_FSYNC fd 0 0 0 0"

definition dlsm_io_fdatasync :: "int \<Rightarrow> addr \<Rightarrow> nat \<Rightarrow> io_uring_sqe" where
  "dlsm_io_fdatasync fd = request IORING_OP_FSYNC fd 0 0 0 IORING_FSYNC_DATASYNC"

definition dlsm_io_accept :: "int \<Rightarrow> u64 \<Rightarrow> u64 \<Rightarrow> addr \<Rightarrow> nat \<Rightarrow> io_uring_sqe" where
  "dlsm_io_accept listen_fd a addrlen = request IORING_OP_ACCEPT listen_fd a 0 addrlen 0"

definition dlsm_io_recv :: "int \<Rightarrow> u64 \<Rightarrow> u64 \<Rightarrow> addr \<Rightarrow> nat \<Rightarrow> io_uring_sqe" where
  "dlsm_io_recv fd buf len = request IORING_OP_RECV fd buf (ucast len) 0 0"

definition dlsm_io_send :: "int \<Rightarrow> u64 \<Rightarrow> u64 \<Rightarrow> addr \<Rightarrow> nat \<Rightarrow> io_uring_sqe" where
  "dlsm_io_send fd buf len = request IORING_OP_SEND fd buf (ucast len) 0 0"

section \<open>The system\<close>

text \<open>\<open>y_answer t\<close> is the result the kernel gave to the current request of the task \<open>t\<close>.\<close>

record io_sys =
  y_io :: dlsm_io
  y_pc :: "addr \<Rightarrow> io_pc"
  y_reaper :: reaper_pc
  y_answer :: "addr \<Rightarrow> int option"

inductive io_step :: "io_sys \<Rightarrow> io_sys \<Rightarrow> bool" where
  prepare: "y_pc y t = Io_outside \<Longrightarrow> op_prepare t (y_io y) = (pc, io') \<Longrightarrow>
    io_step y (y\<lparr>y_io := io', y_pc := (y_pc y)(t := pc), y_answer := (y_answer y)(t := None)\<rparr>)"
| submit: "y_pc y t = Io_prepared tok \<Longrightarrow> sqe_user_data sqe = tok \<Longrightarrow> sqe_owner sqe = t \<Longrightarrow>
    io_step y (y\<lparr>y_io := submit entered sqe (y_io y), y_pc := (y_pc y)(t := Io_waiting tok)\<rparr>)"
| take: "io_step y (y\<lparr>y_io := kernel_take (y_io y)\<rparr>)"
| complete: "sqe \<in> set (io_flight (y_io y)) \<Longrightarrow>
    io_step y (y\<lparr>y_io := kernel_complete sqe res (y_io y), y_answer := (y_answer y)(sqe_owner sqe \<mapsto> res)\<rparr>)"
| reap_load: "y_reaper y = R_waiting \<Longrightarrow> io_step y (y\<lparr>y_reaper := reaper_load (y_io y)\<rparr>)"
| reap_next: "y_reaper y = R_batch h l \<Longrightarrow> reaper_next h l (y_io y) = (pc, io') \<Longrightarrow>
    io_step y (y\<lparr>y_io := io', y_reaper := pc\<rparr>)"
| reap_unpark: "y_reaper y = R_stored tok h l \<Longrightarrow> io_step y (y\<lparr>y_reaper := R_unparked tok h l\<rparr>)"
| reap_done: "y_reaper y = R_unparked tok h l \<Longrightarrow>
    io_step y (y\<lparr>y_io := reaper_wake_done tok (y_io y), y_reaper := R_batch h l\<rparr>)"
| finish: "y_pc y t = Io_waiting tok \<Longrightarrow> op_finish tok (y_io y) = Some (r, io') \<Longrightarrow>
    io_step y (y\<lparr>y_io := io', y_pc := (y_pc y)(t := Io_outside)\<rparr>)"

text \<open>The slots after \<open>dlsm_io_new\<close>: each linked to the next, the last to none.\<close>

definition fresh_slot :: "nat \<Rightarrow> nat \<Rightarrow> slot" where
  "fresh_slot n i = \<lparr>sl_res = 0, sl_wake_done = False, sl_task = 0, sl_next = (if i = n - 1 then None else Some (i + 1))\<rparr>"

definition fresh_io :: "nat \<Rightarrow> (nat \<Rightarrow> io_uring_sqe) \<Rightarrow> (nat \<Rightarrow> io_uring_cqe) \<Rightarrow> dlsm_io" where
  "fresh_io k sqes cqes = \<lparr>io_slots = fresh_slot (2 ^ k), io_free_head = Some 0, io_bits = k, io_sqes = sqes, io_sq_head = 0,
     io_sq_tail = 0, io_flight = [], io_cqes = cqes, io_cq_head = 0, io_cq_tail = 0\<rparr>"

definition io_start :: "dlsm_io \<Rightarrow> io_sys" where
  "io_start io = \<lparr>y_io = io, y_pc = \<lambda>_. Io_outside, y_reaper = R_waiting, y_answer = \<lambda>_. None\<rparr>"

text \<open>A length of 4 GiB reaches the kernel as 0, so that such a read looks like the end of the file.\<close>

lemma io_length_truncated: "sqe_len (dlsm_io_read_at fd buf 4294967296 off t tok) = 0"
  by (simp add: dlsm_io_read_at_def request_def)

end
