(* ===== verification/Io_System.thy ===== *)
theory Io_System
  imports Io_Ops "HOL-Library.Multiset"
begin

text \<open>
  The interleavings of \<open>do_op\<close>, the reaper and the kernel (\<^verbatim>\<open>libs/io/src/io.c\<close>): each slot is free or used
  by one task, every request under way is in exactly one place, the rings never overflow, and a task gets
  the result of its own request.
\<close>

section \<open>The invariant\<close>

fun pc_token :: "io_pc \<Rightarrow> nat option" where
  "pc_token Io_outside = None"
| "pc_token (Io_prepared tok) = Some tok"
| "pc_token (Io_waiting tok) = Some tok"

abbreviation slot_of :: "io_sys \<Rightarrow> nat \<Rightarrow> slot" where "slot_of y tok \<equiv> io_slots (y_io y) tok"

text \<open>The free slots are \<open>fl\<close>, and every other slot is used by the task it names.\<close>

definition slots_ok :: "io_sys \<Rightarrow> nat list \<Rightarrow> bool" where
  "slots_ok y fl \<longleftrightarrow> lseg (\<lambda>i. sl_next (slot_of y i)) (io_free_head (y_io y)) fl None \<and>
     (\<forall>tok. tok \<in> set fl \<longrightarrow> tok < 2 ^ io_bits (y_io y)) \<and>
     (\<forall>t tok. pc_token (y_pc y t) = Some tok \<longrightarrow> tok < 2 ^ io_bits (y_io y) \<and> tok \<notin> set fl \<and> sl_task (slot_of y tok) = t) \<and>
     (\<forall>tok < 2 ^ io_bits (y_io y). tok \<in> set fl \<or> pc_token (y_pc y (sl_task (slot_of y tok))) = Some tok)"

text \<open>
  The submission ring holds \<open>sq\<close>; the completion ring holds \<open>cq\<close>, of which the reaper has read \<open>m\<close> entries
  since it last published its head.
\<close>

definition reaper_at :: "io_sys \<Rightarrow> nat \<Rightarrow> nat \<Rightarrow> bool" where
  "reaper_at y len m \<longleftrightarrow> m \<le> len \<and> (case y_reaper y of
     R_waiting \<Rightarrow> m = 0
   | R_batch h l \<Rightarrow> \<exists>b. h = io_cq_head (y_io y) + of_nat m \<and> l = io_cq_head (y_io y) + of_nat b \<and> m \<le> b \<and> b \<le> len \<and> b \<le> 2 ^ io_bits (y_io y)
   | R_stored tok h l \<Rightarrow> \<exists>b. h = io_cq_head (y_io y) + of_nat m \<and> l = io_cq_head (y_io y) + of_nat b \<and> m \<le> b \<and> b \<le> len \<and> b \<le> 2 ^ io_bits (y_io y)
   | R_unparked tok h l \<Rightarrow> \<exists>b. h = io_cq_head (y_io y) + of_nat m \<and> l = io_cq_head (y_io y) + of_nat b \<and> m \<le> b \<and> b \<le> len \<and> b \<le> 2 ^ io_bits (y_io y))"

definition rings_ok :: "dlsm_io \<Rightarrow> io_uring_sqe list \<Rightarrow> io_uring_cqe list \<Rightarrow> bool" where
  "rings_ok io sq cq \<longleftrightarrow> io_bits io < 31 \<and>
     ring_rep (io_bits io) (io_sqes io) (io_sq_head io) sq \<and> io_sq_tail io = io_sq_head io + of_nat (length sq) \<and>
     ring_rep (io_bits io + 1) (io_cqes io) (io_cq_head io) cq \<and> io_cq_tail io = io_cq_head io + of_nat (length cq)"

text \<open>The requests under way, with the result once the kernel has given one.\<close>

definition reaper_pending :: "io_sys \<Rightarrow> (nat \<times> int option) list" where
  "reaper_pending y = (case y_reaper y of
     R_stored tok h l \<Rightarrow> [(tok, Some (sl_res (slot_of y tok)))]
   | R_unparked tok h l \<Rightarrow> [(tok, Some (sl_res (slot_of y tok)))]
   | _ \<Rightarrow> [])"

definition pending :: "io_sys \<Rightarrow> io_uring_sqe list \<Rightarrow> io_uring_cqe list \<Rightarrow> (nat \<times> int option) list" where
  "pending y sq cq = map (\<lambda>e. (sqe_user_data e, None)) sq @ map (\<lambda>e. (sqe_user_data e, None)) (io_flight (y_io y)) @
     map (\<lambda>c. (cqe_user_data c, Some (cqe_res c))) cq @ reaper_pending y"

lemma pending_tokens:
  "fst ` set (pending y sq cq) =
     sqe_user_data ` (set sq \<union> set (io_flight (y_io y))) \<union> cqe_user_data ` set cq \<union> fst ` set (reaper_pending y)"
  by (simp add: pending_def image_Un image_image Un_assoc)

definition under_way :: "io_sys \<Rightarrow> nat \<times> int option \<Rightarrow> bool" where
  "under_way y p = (case p of (tok, ro) \<Rightarrow> y_pc y (sl_task (slot_of y tok)) = Io_waiting tok \<and>
     \<not> sl_wake_done (slot_of y tok) \<and> (ro \<noteq> None \<longrightarrow> y_answer y (sl_task (slot_of y tok)) = ro))"

definition pending_ok :: "io_sys \<Rightarrow> (nat \<times> int option) list \<Rightarrow> bool" where
  "pending_ok y ps \<longleftrightarrow> distinct (map fst ps) \<and> (\<forall>p\<in>set ps. under_way y p) \<and>
     (\<forall>t tok. y_pc y t = Io_waiting tok \<longrightarrow> \<not> sl_wake_done (slot_of y tok) \<longrightarrow> tok \<in> fst ` set ps)"

definition owners_ok :: "io_sys \<Rightarrow> io_uring_sqe list \<Rightarrow> bool" where
  "owners_ok y sq \<longleftrightarrow> (\<forall>e\<in>set sq \<union> set (io_flight (y_io y)). sqe_owner e = sl_task (slot_of y (sqe_user_data e)))"

definition answers_ok :: "io_sys \<Rightarrow> bool" where
  "answers_ok y \<longleftrightarrow> (\<forall>t tok. y_pc y t = Io_waiting tok \<longrightarrow> sl_wake_done (slot_of y tok) \<longrightarrow>
     y_answer y t = Some (sl_res (slot_of y tok))) \<and>
     (\<forall>t tok. y_pc y t = Io_prepared tok \<longrightarrow> \<not> sl_wake_done (slot_of y tok))"

definition io_view :: "io_sys \<Rightarrow> nat list \<Rightarrow> io_uring_sqe list \<Rightarrow> io_uring_cqe list \<Rightarrow> nat \<Rightarrow> bool" where
  "io_view y fl sq cq m \<longleftrightarrow> slots_ok y fl \<and> rings_ok (y_io y) sq cq \<and> reaper_at y (length cq) m \<and>
     pending_ok y (pending y sq (drop m cq)) \<and> owners_ok y sq \<and> answers_ok y"

lemma io_viewI:
  assumes "slots_ok y fl" and "rings_ok (y_io y) sq cq" and "reaper_at y (length cq) m"
    and "pending_ok y (pending y sq (drop m cq))" and "owners_ok y sq" and "answers_ok y"
  shows "io_view y fl sq cq m"
  using assms by (simp add: io_view_def)

lemma io_viewD:
  assumes "io_view y fl sq cq m"
  shows "slots_ok y fl" and "rings_ok (y_io y) sq cq" and "reaper_at y (length cq) m"
    and "pending_ok y (pending y sq (drop m cq))" and "owners_ok y sq" and "answers_ok y"
  using assms by (simp_all add: io_view_def)

lemma slots_okD:
  assumes "slots_ok y fl"
  shows "lseg (\<lambda>i. sl_next (slot_of y i)) (io_free_head (y_io y)) fl None"
    and "tok \<in> set fl \<Longrightarrow> tok < 2 ^ io_bits (y_io y)"
    and "pc_token (y_pc y t) = Some tok \<Longrightarrow> tok < 2 ^ io_bits (y_io y) \<and> tok \<notin> set fl \<and> sl_task (slot_of y tok) = t"
    and "tok < 2 ^ io_bits (y_io y) \<Longrightarrow> tok \<in> set fl \<or> pc_token (y_pc y (sl_task (slot_of y tok))) = Some tok"
  using assms by (auto simp: slots_ok_def)

lemma pending_okD:
  assumes "pending_ok y ps"
  shows "distinct (map fst ps)" and "p \<in> set ps \<Longrightarrow> under_way y p"
    and "y_pc y t = Io_waiting tok \<Longrightarrow> \<not> sl_wake_done (slot_of y tok) \<Longrightarrow> tok \<in> fst ` set ps"
  using assms by (auto simp: pending_ok_def)

text \<open>There are at most as many requests under way as slots.\<close>

lemma pending_token:
  assumes "slots_ok y fl" and "pending_ok y ps" and "p \<in> set ps"
  shows "fst p < 2 ^ io_bits (y_io y)"
proof -
  have "pc_token (y_pc y (sl_task (slot_of y (fst p)))) = Some (fst p)"
    using pending_okD(2)[OF assms(2,3)] by (auto simp: under_way_def split: prod.splits)
  then show ?thesis using slots_okD(3)[OF assms(1)] by blast
qed

lemma pending_length:
  assumes "slots_ok y fl" and "pending_ok y ps" and "\<And>tok. tok \<in> set ts \<Longrightarrow> tok < 2 ^ io_bits (y_io y) \<and> tok \<notin> fst ` set ps" and "distinct ts"
  shows "length ps + length ts \<le> 2 ^ io_bits (y_io y)"
proof -
  have "set (map fst ps @ ts) \<subseteq> {..<2 ^ io_bits (y_io y)}" using pending_token[OF assms(1,2)] assms(3) by auto
  then have "card (set (map fst ps @ ts)) \<le> card {..<(2 :: nat) ^ io_bits (y_io y)}" by (intro card_mono) simp_all
  moreover have "distinct (map fst ps @ ts)" using pending_okD(1)[OF assms(2)] assms(3,4) by auto
  ultimately show ?thesis using distinct_card[of "map fst ps @ ts"] by simp
qed

lemmas pending_length_le = pending_length[of _ _ _ "[]", simplified]

text \<open>Moving a request from one place to another keeps the list of requests up to order.\<close>

lemma pending_ok_perm:
  assumes "pending_ok y ps" and "mset qs = mset ps"
  shows "pending_ok y qs"
proof -
  have "set qs = set ps" using assms(2) by (rule mset_eq_setD)
  moreover have "mset (map fst qs) = mset (map fst ps)" using assms(2) by simp
  ultimately show ?thesis using assms(1) unfolding pending_ok_def by (metis mset_eq_imp_distinct_iff)
qed

section \<open>Steps of the tasks\<close>

lemma slot_upd_sel [simp]:
  "io_slots (slot_upd i f io) j = (if j = i then f (io_slots io i) else io_slots io j)"
  "io_free_head (slot_upd i f io) = io_free_head io" "io_bits (slot_upd i f io) = io_bits io"
  "io_sqes (slot_upd i f io) = io_sqes io" "io_sq_head (slot_upd i f io) = io_sq_head io"
  "io_sq_tail (slot_upd i f io) = io_sq_tail io" "io_flight (slot_upd i f io) = io_flight io"
  "io_cqes (slot_upd i f io) = io_cqes io" "io_cq_head (slot_upd i f io) = io_cq_head io"
  "io_cq_tail (slot_upd i f io) = io_cq_tail io"
  by (simp_all add: slot_upd_def)

text \<open>What a task does with a slot that no request uses does not touch the rings and the requests under way.\<close>

lemma view_other_slot:
  assumes v: "io_view y fl sq cq m" and y': "slots_ok y' fl'"
    and io: "io_bits (y_io y') = io_bits (y_io y)" "io_sqes (y_io y') = io_sqes (y_io y)"
      "io_sq_head (y_io y') = io_sq_head (y_io y)" "io_sq_tail (y_io y') = io_sq_tail (y_io y)"
      "io_flight (y_io y') = io_flight (y_io y)" "io_cqes (y_io y') = io_cqes (y_io y)"
      "io_cq_head (y_io y') = io_cq_head (y_io y)" "io_cq_tail (y_io y') = io_cq_tail (y_io y)"
    and same: "y_reaper y' = y_reaper y"
    and slots: "\<And>tok. tok \<in> fst ` set (pending y sq (drop m cq)) \<Longrightarrow> slot_of y' tok = slot_of y tok"
    and pcs: "\<And>u tok. y_pc y u = Io_waiting tok \<Longrightarrow> tok \<in> fst ` set (pending y sq (drop m cq)) \<Longrightarrow>
      y_pc y' u = Io_waiting tok \<and> y_answer y' u = y_answer y u"
    and waiting: "\<And>u tok. y_pc y' u = Io_waiting tok \<Longrightarrow> y_pc y u = Io_waiting tok \<and> slot_of y' tok = slot_of y tok \<and> y_answer y' u = y_answer y u"
    and prepared: "\<And>u tok. y_pc y' u = Io_prepared tok \<Longrightarrow> \<not> sl_wake_done (slot_of y' tok)"
  shows "io_view y' fl' sq cq m"
proof -
  note d = io_viewD[OF v]
  let ?ps = "pending y sq (drop m cq)"
  have rp: "reaper_pending y' = reaper_pending y"
    using slots same by (auto simp: reaper_pending_def pending_def split: reaper_pc.splits)
  then have ps: "pending y' sq (drop m cq) = ?ps" by (simp add: pending_def io)
  show ?thesis
  proof (rule io_viewI)
    show "rings_ok (y_io y') sq cq" using d(2) by (simp add: rings_ok_def io)
    show "reaper_at y' (length cq) m" using d(3) unfolding reaper_at_def io same .
    have "under_way y' p" if "p \<in> set ?ps" for p
    proof -
      have s: "slot_of y' (fst p) = slot_of y (fst p)" using that by (intro slots) simp
      have "under_way y p" using pending_okD(2)[OF d(4) that] .
      moreover have "fst p \<in> fst ` set ?ps" using that by simp
      ultimately show ?thesis using s pcs[of "sl_task (slot_of y (fst p))" "fst p"]
        by (auto simp: under_way_def split: prod.splits)
    qed
    then show "pending_ok y' (pending y' sq (drop m cq))"
      using pending_okD(1,3)[OF d(4)] waiting unfolding ps pending_ok_def by metis
    have "sqe_user_data e \<in> fst ` set ?ps" if "e \<in> set sq \<union> set (io_flight (y_io y))" for e
      using that unfolding pending_tokens by blast
    then show "owners_ok y' sq" using d(5) slots unfolding owners_ok_def io by simp
    show "answers_ok y'" using d(6) waiting prepared unfolding answers_ok_def by metis
  qed (rule y')
qed

text \<open>The slot of a task that has not submitted, or of no task, is not the slot of a request.\<close>

lemma pending_waiting:
  assumes "pending_ok y ps" and "tok \<in> fst ` set ps"
  shows "y_pc y (sl_task (slot_of y tok)) = Io_waiting tok" and "\<not> sl_wake_done (slot_of y tok)"
  using pending_okD(2)[OF assms(1)] assms(2) by (auto simp: under_way_def)

lemma view_prepare:
  assumes v: "io_view y fl sq cq m" and t: "y_pc y t = Io_outside" and p: "op_prepare t (y_io y) = (pc, io')"
    and y': "y' = y\<lparr>y_io := io', y_pc := (y_pc y)(t := pc), y_answer := (y_answer y)(t := None)\<rparr>"
  shows "\<exists>fl'. io_view y' fl' sq cq m"
proof (cases fl)
  case Nil
  have "io_free_head (y_io y) = None" using slots_okD(1)[OF io_viewD(1)[OF v]] Nil by simp
  then have "pc = Io_outside" "io' = y_io y" using p by (simp_all add: op_prepare_def slot_alloc_def)
  then have eq: "y_io y' = y_io y" "y_pc y' = y_pc y" "y_reaper y' = y_reaper y"
    "\<And>u j. y_pc y u = Io_waiting j \<Longrightarrow> y_answer y' u = y_answer y u"
    using t by (auto simp: y')
  have "slots_ok y' fl" using io_viewD(1)[OF v] by (simp add: slots_ok_def eq)
  then have "io_view y' fl sq cq m"
    by (rule view_other_slot[OF v]) (use eq t io_viewD(6)[OF v] in \<open>auto simp: eq answers_ok_def\<close>)
  then show ?thesis by blast
next
  case (Cons tok fl')
  note s = slots_okD[OF io_viewD(1)[OF v]]
  have h: "io_free_head (y_io y) = Some tok" "lseg (\<lambda>i. sl_next (slot_of y i)) (sl_next (slot_of y tok)) fl' None"
    using s(1) Cons by simp_all
  have dist: "tok \<notin> set fl'" using lseg_distinct[OF s(1)] Cons by simp
  have pc: "pc = Io_prepared tok" and io': "io' = slot_upd tok (\<lambda>x. x\<lparr>sl_task := t, sl_wake_done := False\<rparr>) ((y_io y)\<lparr>io_free_head := sl_next (slot_of y tok)\<rparr>)"
    using p h(1) by (auto simp: op_prepare_def slot_alloc_def)
  have free: "pc_token (y_pc y u) \<noteq> Some tok" for u using s(3)[of u tok] Cons by auto
  have ns: "slot_of y' j = (if j = tok then (slot_of y tok)\<lparr>sl_task := t, sl_wake_done := False\<rparr> else slot_of y j)" for j
    by (simp add: y' io')
  have "slots_ok y' fl'"
    unfolding slots_ok_def
  proof (intro conjI allI impI)
    have "lseg (\<lambda>i. sl_next (slot_of y' i)) (sl_next (slot_of y tok)) fl' None" 
      using h(2) dist by (subst lseg_cong[of fl' _ "\<lambda>i. sl_next (slot_of y i)"]) (auto simp: ns)
    then show "lseg (\<lambda>i. sl_next (slot_of y' i)) (io_free_head (y_io y')) fl' None" by (simp add: y' io')
    show "j < 2 ^ io_bits (y_io y')" if "j \<in> set fl'" for j using s(2)[of j] that Cons by (simp add: y' io')
    show "j < 2 ^ io_bits (y_io y')" "j \<notin> set fl'" "sl_task (slot_of y' j) = u" if "pc_token (y_pc y' u) = Some j" for u j
      using that s(2)[of tok] s(3)[of u j] free[of u] dist Cons by (auto simp: y' io' pc split: if_splits)
    show "j \<in> set fl' \<or> pc_token (y_pc y' (sl_task (slot_of y' j))) = Some j" if "j < 2 ^ io_bits (y_io y')" for j
    proof (cases "j = tok")
      case True
      then show ?thesis by (simp add: y' io' pc)
    next
      case False
      then have "j \<in> set fl' \<or> pc_token (y_pc y (sl_task (slot_of y j))) = Some j" using s(4)[of j] that Cons by (simp add: y' io')
      then show ?thesis using False t ns[of j] by (auto simp: y' split: if_splits)
    qed
  qed
  then have "io_view y' fl' sq cq m"
  proof (rule view_other_slot[OF v])
    have no: "tok \<notin> fst ` set (pending y sq (drop m cq))"
      using pending_waiting(1)[OF io_viewD(4)[OF v], of tok] free by (metis pc_token.simps(3))
    then show "slot_of y' j = slot_of y j" if "j \<in> fst ` set (pending y sq (drop m cq))" for j using that ns by auto
    show "y_pc y' u = Io_waiting j \<and> y_answer y' u = y_answer y u" if "y_pc y u = Io_waiting j" for u j
      using that t by (auto simp: y')
    show "y_pc y u = Io_waiting j \<and> slot_of y' j = slot_of y j \<and> y_answer y' u = y_answer y u" if "y_pc y' u = Io_waiting j" for u j
      using that free[of u] ns[of j] by (auto simp: y' pc split: if_splits)
    show "\<not> sl_wake_done (slot_of y' j)" if "y_pc y' u = Io_prepared j" for u j
      using that ns[of j] io_viewD(6)[OF v] by (auto simp: y' pc answers_ok_def split: if_splits)
  qed (simp_all add: y' io')
  then show ?thesis by blast
qed

lemma view_finish:
  assumes v: "io_view y fl sq cq m" and t: "y_pc y t = Io_waiting tok" and f: "op_finish tok (y_io y) = Some (r, io')"
    and y': "y' = y\<lparr>y_io := io', y_pc := (y_pc y)(t := Io_outside)\<rparr>"
  shows "io_view y' (tok # fl) sq cq m"
proof (rule view_other_slot[OF v])
  note s = slots_okD[OF io_viewD(1)[OF v]]
  have w: "sl_wake_done (slot_of y tok)" and io': "io' = slot_free tok (y_io y)" using f by (auto simp: op_finish_def split: if_splits)
  have u: "tok < 2 ^ io_bits (y_io y)" "tok \<notin> set fl" "sl_task (slot_of y tok) = t" using s(3)[of t tok] t by simp_all
  have ns: "slot_of y' j = (if j = tok then (slot_of y tok)\<lparr>sl_next := io_free_head (y_io y)\<rparr> else slot_of y j)" for j
    by (simp add: y' io' slot_free_def)
  have only: "x = t" if "pc_token (y_pc y x) = Some tok" for x using s(3)[OF that] u(3) by simp
  show "slots_ok y' (tok # fl)"
    unfolding slots_ok_def
  proof (intro conjI allI impI)
    have "lseg (\<lambda>i. sl_next (slot_of y' i)) (io_free_head (y_io y)) fl None"
      using s(1) u(2) by (subst lseg_cong[of fl _ "\<lambda>i. sl_next (slot_of y i)"]) (auto simp: ns)
    then show "lseg (\<lambda>i. sl_next (slot_of y' i)) (io_free_head (y_io y')) (tok # fl) None" by (simp add: ns) (simp add: y' io' slot_free_def)
    show "j < 2 ^ io_bits (y_io y')" if "j \<in> set (tok # fl)" for j using that s(2)[of j] u(1) by (auto simp: y' io' slot_free_def)
    show "j < 2 ^ io_bits (y_io y')" "j \<notin> set (tok # fl)" "sl_task (slot_of y' j) = x" if "pc_token (y_pc y' x) = Some j" for x j
      using that s(3)[of x j] only[of x] by (auto simp: y' io' slot_free_def split: if_splits)
    show "j \<in> set (tok # fl) \<or> pc_token (y_pc y' (sl_task (slot_of y' j))) = Some j" if "j < 2 ^ io_bits (y_io y')" for j
    proof (cases "j = tok")
      case False
      then have j: "j \<in> set fl \<or> pc_token (y_pc y (sl_task (slot_of y j))) = Some j" using s(4)[of j] that by (simp add: y' io' slot_free_def)
      moreover have "sl_task (slot_of y j) \<noteq> t" if "pc_token (y_pc y (sl_task (slot_of y j))) = Some j" using that False t by auto
      ultimately show ?thesis using False ns[of j] by (auto simp: y')
    qed simp
  qed
  have no: "tok \<notin> fst ` set (pending y sq (drop m cq))" using pending_waiting(2)[OF io_viewD(4)[OF v], of tok] w by blast
  show "slot_of y' j = slot_of y j" if "j \<in> fst ` set (pending y sq (drop m cq))" for j using that ns no by auto
  show "y_pc y' x = Io_waiting j \<and> y_answer y' x = y_answer y x"
    if "y_pc y x = Io_waiting j" "j \<in> fst ` set (pending y sq (drop m cq))" for x j
  proof -
    have "x \<noteq> t" using that t no by (metis io_pc.inject(2))
    then show ?thesis using that by (simp add: y')
  qed
  show "y_pc y x = Io_waiting j \<and> slot_of y' j = slot_of y j \<and> y_answer y' x = y_answer y x" if "y_pc y' x = Io_waiting j" for x j
    using that only[of x] ns[of j] by (auto simp: y' split: if_splits)
  show "\<not> sl_wake_done (slot_of y' j)" if "y_pc y' x = Io_prepared j" for x j
    using that ns[of j] io_viewD(6)[OF v] only[of x] by (auto simp: y' answers_ok_def split: if_splits)
qed (use f in \<open>auto simp: y' op_finish_def slot_free_def split: if_splits\<close>)

lemma view_submit_room:
  assumes v: "io_view y fl sq cq m" and t: "y_pc y t = Io_prepared tok"
  shows "length sq < 2 ^ io_bits (y_io y)"
proof -
  note d = io_viewD[OF v]
  have u: "tok < 2 ^ io_bits (y_io y)" "sl_task (slot_of y tok) = t" using slots_okD(3)[OF d(1), of t tok] t by simp_all
  have "tok \<notin> fst ` set (pending y sq (drop m cq))" using pending_waiting(1)[OF d(4), of tok] u(2) t by auto
  then have "length (pending y sq (drop m cq)) + 1 \<le> 2 ^ io_bits (y_io y)" using pending_length[OF d(1,4), of "[tok]"] u(1) by simp
  then show ?thesis by (simp add: pending_def)
qed

lemma view_complete_room:
  assumes v: "io_view y fl sq cq m" and f: "io_flight (y_io y) \<noteq> []"
  shows "length cq < 2 ^ (io_bits (y_io y) + 1)"
proof -
  note d = io_viewD[OF v]
  have "length (pending y sq (drop m cq)) \<le> 2 ^ io_bits (y_io y)" using d(1,4) by (rule pending_length_le)
  moreover have "length (io_flight (y_io y)) > 0" using f by simp
  ultimately have "length (drop m cq) < 2 ^ io_bits (y_io y)" by (cases "io_flight (y_io y)") (simp_all add: pending_def)
  moreover have "m \<le> 2 ^ io_bits (y_io y)" using d(3) by (auto simp: reaper_at_def split: reaper_pc.splits)
  ultimately show ?thesis by simp
qed

section \<open>Steps of the kernel and the reaper\<close>

text \<open>The entry is written into a free place of the ring, since fewer requests are under way than there are slots.\<close>

lemma view_submit:
  assumes v: "io_view y fl sq cq m" and t: "y_pc y t = Io_prepared tok" and e: "sqe_user_data e = tok" "sqe_owner e = t"
    and y': "y' = y\<lparr>y_io := submit_entry e (y_io y), y_pc := (y_pc y)(t := Io_waiting tok)\<rparr>"
  shows "io_view y' fl (sq @ [e]) cq m"
proof -
  note d = io_viewD[OF v]
  have w: "\<not> sl_wake_done (slot_of y tok)" using d(6) t by (simp add: answers_ok_def)
  note s = slots_okD[OF d(1)]
  let ?ps = "pending y sq (drop m cq)"
  have u: "tok < 2 ^ io_bits (y_io y)" "sl_task (slot_of y tok) = t" using s(3)[of t tok] t by simp_all
  have ns: "slot_of y' = slot_of y" "io_bits (y_io y') = io_bits (y_io y)" "io_free_head (y_io y') = io_free_head (y_io y)"
    "io_flight (y_io y') = io_flight (y_io y)" "y_reaper y' = y_reaper y" "y_answer y' = y_answer y" "io_cq_head (y_io y') = io_cq_head (y_io y)"
    by (simp_all add: y' submit_entry_def Let_def)
  have no: "tok \<notin> fst ` set ?ps" using pending_waiting(1)[OF d(4), of tok] u(2) t by auto
  have room: "length sq < 2 ^ io_bits (y_io y)" using v t by (rule view_submit_room)
  have tokpc: "pc_token (y_pc y' x) = pc_token (y_pc y x)" for x using t by (simp add: y')
  have ps: "mset (pending y' (sq @ [e]) (drop m cq)) = mset ((tok, None) # ?ps)"
    by (simp add: pending_def reaper_pending_def ns e(1) split: reaper_pc.splits)
  show ?thesis
  proof (rule io_viewI)
    show "slots_ok y' fl" using d(1) unfolding slots_ok_def ns tokpc .
    have r: "ring_rep (io_bits (y_io y)) (io_sqes (y_io y)) (io_sq_head (y_io y)) sq" "io_bits (y_io y) < 32"
      "io_sq_tail (y_io y) = io_sq_head (y_io y) + of_nat (length sq)" using d(2) by (simp_all add: rings_ok_def)
    show "rings_ok (y_io y') (sq @ [e]) cq"
      using d(2) ring_rep_push[OF r(2,1) room, of e] r(3) by (simp add: rings_ok_def y' submit_entry_def Let_def)
    show "reaper_at y' (length cq) m" using d(3) unfolding reaper_at_def ns .
    have "under_way y' p" if "p \<in> set ((tok, None) # ?ps)" for p
    proof (cases "p = (tok, None)")
      case True
      then show ?thesis using u(2) w by (simp add: under_way_def ns) (simp add: y')
    next
      case False
      then have p: "p \<in> set ?ps" using that by simp
      then have "under_way y p" using pending_okD(2)[OF d(4)] by blast
      moreover have "sl_task (slot_of y (fst p)) \<noteq> t" using calculation t by (auto simp: under_way_def split: prod.splits)
      ultimately show ?thesis by (auto simp: under_way_def ns split: prod.splits) (auto simp: y')
    qed
    moreover have "j \<in> fst ` set ((tok, None) # ?ps)" if "y_pc y' x = Io_waiting j" "\<not> sl_wake_done (slot_of y' j)" for x j
      using that pending_okD(3)[OF d(4), of x j] t unfolding ns by (cases "x = t") (auto simp: y')
    ultimately have "pending_ok y' ((tok, None) # ?ps)" using no pending_okD(1)[OF d(4)] by (simp add: pending_ok_def)
    then show "pending_ok y' (pending y' (sq @ [e]) (drop m cq))" using ps by (rule pending_ok_perm)
    show "owners_ok y' (sq @ [e])" using d(5) e u(2) unfolding owners_ok_def ns by auto
    show "answers_ok y'"
      using d(6) w t unfolding answers_ok_def ns by (auto simp: y')
  qed
qed

lemma view_take:
  assumes v: "io_view y fl sq cq m" and y': "y' = y\<lparr>y_io := kernel_take (y_io y)\<rparr>"
  shows "\<exists>sq'. io_view y' fl sq' cq m"
proof (cases sq)
  case Nil
  then have "io_sq_head (y_io y) = io_sq_tail (y_io y)" using io_viewD(2)[OF v] by (simp add: rings_ok_def)
  then have "y' = y" by (simp add: y' kernel_take_def)
  then show ?thesis using v by blast
next
  case (Cons e sq')
  note d = io_viewD[OF v]
  have r: "ring_rep (io_bits (y_io y)) (io_sqes (y_io y)) (io_sq_head (y_io y)) (e # sq')" "io_bits (y_io y) < 32"
    "io_sq_tail (y_io y) = io_sq_head (y_io y) + of_nat (length sq)" using d(2) Cons by (simp_all add: rings_ok_def)
  have "length sq \<le> 2 ^ io_bits (y_io y)" using r(1) Cons by (simp add: ring_rep_def)
  from ring_count[OF r(2) this r(3)] have "unat (io_sq_tail (y_io y) - io_sq_head (y_io y)) \<noteq> 0" using Cons by simp
  then have "io_sq_head (y_io y) \<noteq> io_sq_tail (y_io y)" by auto
  then have io': "y_io y' = (y_io y)\<lparr>io_flight := io_flight (y_io y) @ [e], io_sq_head := io_sq_head (y_io y) + 1\<rparr>"
    using ring_rep_pop(1)[OF r(1)] by (simp add: y' kernel_take_def)
  have ns: "slot_of y' = slot_of y" "io_bits (y_io y') = io_bits (y_io y)" "io_free_head (y_io y') = io_free_head (y_io y)"
    "y_reaper y' = y_reaper y" "y_answer y' = y_answer y" "io_cq_head (y_io y') = io_cq_head (y_io y)" "y_pc y' = y_pc y"
    by (simp_all add: io') (simp_all add: y')
  have ps: "mset (pending y' sq' (drop m cq)) = mset (pending y sq (drop m cq))"
    by (simp add: pending_def reaper_pending_def ns Cons split: reaper_pc.splits) (simp add: io')
  have "io_view y' fl sq' cq m"
  proof (rule io_viewI)
    show "slots_ok y' fl" using d(1) unfolding slots_ok_def ns .
    show "rings_ok (y_io y') sq' cq" using d(2) ring_rep_pop(2)[OF r(1)] r(3) Cons by (simp add: rings_ok_def io')
    show "reaper_at y' (length cq) m" using d(3) unfolding reaper_at_def ns .
    have "pending_ok y (pending y' sq' (drop m cq))" using d(4) ps by (rule pending_ok_perm)
    then show "pending_ok y' (pending y' sq' (drop m cq))" by (simp add: pending_ok_def under_way_def ns)
    show "owners_ok y' sq'" using d(5) Cons unfolding owners_ok_def ns by (auto simp: io')
    show "answers_ok y'" using d(6) unfolding answers_ok_def ns .
  qed
  then show ?thesis by blast
qed


lemma view_complete:
  assumes v: "io_view y fl sq cq m" and e: "e \<in> set (io_flight (y_io y))"
    and y': "y' = y\<lparr>y_io := kernel_complete e res (y_io y), y_answer := (y_answer y)(sqe_owner e \<mapsto> res)\<rparr>"
  shows "io_view y' fl sq (cq @ [\<lparr>cqe_user_data = sqe_user_data e, cqe_res = res\<rparr>]) m"
proof -
  note d = io_viewD[OF v]
  let ?tok = "sqe_user_data e" and ?c = "\<lparr>cqe_user_data = sqe_user_data e, cqe_res = res\<rparr>"
  define rest where "rest = map (\<lambda>e. (sqe_user_data e, None)) sq @ map (\<lambda>e. (sqe_user_data e, None)) (remove1 e (io_flight (y_io y))) @
     map (\<lambda>c. (cqe_user_data c, Some (cqe_res c))) (drop m cq) @ reaper_pending y"
  have ns: "slot_of y' = slot_of y" "io_bits (y_io y') = io_bits (y_io y)" "io_free_head (y_io y') = io_free_head (y_io y)"
    "io_flight (y_io y') = remove1 e (io_flight (y_io y))" "y_reaper y' = y_reaper y" "y_pc y' = y_pc y"
    "io_cq_head (y_io y') = io_cq_head (y_io y)"
    by (simp_all add: y' kernel_complete_def)
  have m: "m \<le> length cq" using d(3) by (simp add: reaper_at_def)
  have rp: "reaper_pending y' = reaper_pending y" unfolding reaper_pending_def ns ..
  have f: "mset (io_flight (y_io y)) = add_mset e (mset (remove1 e (io_flight (y_io y))))" using e by simp
  have "mset (pending y sq (drop m cq)) = mset ((?tok, None) # rest)"
    unfolding rest_def by (simp only: pending_def mset_append mset_map f image_mset_add_mset mset.simps) simp
  from pending_ok_perm[OF d(4) this[symmetric]] have old: "pending_ok y ((?tok, None) # rest)" .
  have ps: "mset (pending y' sq (drop m (cq @ [?c]))) = mset ((?tok, Some res) # rest)"
    using m by (simp add: pending_def ns rp rest_def)
  have own: "sqe_owner e = sl_task (slot_of y ?tok)" using d(5) e by (auto simp: owners_ok_def)
  have wt: "y_pc y (sqe_owner e) = Io_waiting ?tok" "\<not> sl_wake_done (slot_of y ?tok)"
    using pending_okD(2)[OF old, of "(?tok, None)"] own by (simp_all add: under_way_def)
  have "io_flight (y_io y) \<noteq> []" using e by auto
  with v have room: "length cq < 2 ^ (io_bits (y_io y) + 1)" by (rule view_complete_room)
  show ?thesis
  proof (rule io_viewI)
    show "slots_ok y' fl" using d(1) unfolding slots_ok_def ns .
    have r: "ring_rep (io_bits (y_io y) + 1) (io_cqes (y_io y)) (io_cq_head (y_io y)) cq" "io_bits (y_io y) + 1 < 32"
      "io_cq_tail (y_io y) = io_cq_head (y_io y) + of_nat (length cq)" using d(2) by (simp_all add: rings_ok_def)
    show "rings_ok (y_io y') sq (cq @ [?c])"
      using d(2) ring_rep_push[OF r(2,1) room, of ?c] r(3) by (simp add: rings_ok_def y' kernel_complete_def)
    show "reaper_at y' (length (cq @ [?c])) m" using d(3) unfolding reaper_at_def ns by (fastforce split: reaper_pc.splits)
    have "under_way y' p" if "p \<in> set ((?tok, Some res) # rest)" for p
    proof (cases "fst p = ?tok")
      case True
      moreover have "?tok \<notin> fst ` set rest" using pending_okD(1)[OF old] by simp
      ultimately have "p = (?tok, Some res)" using that by (metis image_eqI set_ConsD)
      then show ?thesis using wt own by (simp add: under_way_def ns) (simp add: y')
    next
      case False
      then have "p \<in> set ((?tok, None) # rest)" using that by auto
      then have w: "under_way y p" using pending_okD(2)[OF old] by blast
      then have "sl_task (slot_of y (fst p)) \<noteq> sqe_owner e" using wt(1) False by (auto simp: under_way_def split: prod.splits)
      then show ?thesis using w by (auto simp: under_way_def ns split: prod.splits) (auto simp: y')
    qed
    moreover have "j \<in> fst ` set ((?tok, Some res) # rest)" if "y_pc y' x = Io_waiting j" "\<not> sl_wake_done (slot_of y' j)" for x j
      using that pending_okD(3)[OF old, of x j] unfolding ns by simp
    ultimately have "pending_ok y' ((?tok, Some res) # rest)" using pending_okD(1)[OF old] by (simp add: pending_ok_def)
    then show "pending_ok y' (pending y' sq (drop m (cq @ [?c])))" using ps by (rule pending_ok_perm)
    show "owners_ok y' sq" using d(5) set_remove1_subset[of e "io_flight (y_io y)"] unfolding owners_ok_def ns by auto
    have "x \<noteq> sqe_owner e" if "y_pc y x = Io_waiting j" "sl_wake_done (slot_of y j)" for x j using that wt by auto
    then show "answers_ok y'" using d(6) unfolding answers_ok_def ns by (simp add: y')
  qed
qed

text \<open>A step of the reaper that leaves slots, tasks and rings as they are.\<close>

lemma view_reaper_moves:
  assumes v: "io_view y fl sq cq m" and y': "y' = y\<lparr>y_reaper := pc\<rparr>" and at: "reaper_at y' (length cq) m"
    and ps: "reaper_pending y' = reaper_pending y"
  shows "io_view y' fl sq cq m"
proof (rule io_viewI)
  note d = io_viewD[OF v]
  show "slots_ok y' fl" using d(1) by (simp add: slots_ok_def y')
  show "rings_ok (y_io y') sq cq" using d(2) by (simp add: y')
  have "pending y' sq (drop m cq) = pending y sq (drop m cq)" by (simp add: pending_def ps) (simp add: y')
  then show "pending_ok y' (pending y' sq (drop m cq))" using d(4) by (simp add: pending_ok_def under_way_def y')
  show "owners_ok y' sq" using d(5) by (simp add: owners_ok_def y')
  show "answers_ok y'" using d(6) by (simp add: answers_ok_def y')
qed (rule at)

lemma view_publish:
  assumes v: "io_view y fl sq cq m" and r: "y_reaper y = R_batch h l"
    and y': "y' = y\<lparr>y_io := (y_io y)\<lparr>io_cq_head := h\<rparr>, y_reaper := R_waiting\<rparr>"
  shows "io_view y' fl sq (drop m cq) 0"
proof (rule io_viewI)
  note d = io_viewD[OF v]
  have h: "h = io_cq_head (y_io y) + of_nat m" "m \<le> length cq" using d(3) r by (auto simp: reaper_at_def)
  show "slots_ok y' fl" using d(1) by (simp add: slots_ok_def y')
  have "ring_rep (io_bits (y_io y) + 1) (io_cqes (y_io y)) h (drop m cq)"
    using ring_rep_drop[OF _ h(2)] d(2) unfolding h(1) by (simp add: rings_ok_def)
  moreover have "h + of_nat (length (drop m cq)) = io_cq_tail (y_io y)"
    using d(2) h by (simp add: rings_ok_def algebra_simps of_nat_diff)
  ultimately show "rings_ok (y_io y') sq (drop m cq)" using d(2) by (simp add: rings_ok_def y')
  show "reaper_at y' (length (drop m cq)) 0" by (simp add: reaper_at_def y')
  have "pending y' sq (drop m cq) = pending y sq (drop m cq)" by (simp add: pending_def reaper_pending_def y' r)
  then show "pending_ok y' (pending y' sq (drop 0 (drop m cq)))" using d(4) by (simp add: pending_ok_def under_way_def y')
  show "owners_ok y' sq" using d(5) by (simp add: owners_ok_def y')
  show "answers_ok y'" using d(6) by (simp add: answers_ok_def y')
qed

lemma view_store:
  assumes v: "io_view y fl sq cq m" and r: "y_reaper y = R_batch h l" and hl: "h \<noteq> l"
    and n: "reaper_next h l (y_io y) = (pc, io')" and y': "y' = y\<lparr>y_io := io', y_reaper := pc\<rparr>"
  shows "io_view y' fl sq cq (Suc m)"
proof -
  note d = io_viewD[OF v]
  note s = slots_okD[OF d(1)]
  obtain b where b: "h = io_cq_head (y_io y) + of_nat m" "l = io_cq_head (y_io y) + of_nat b" "m \<le> b" "b \<le> length cq"
    "b \<le> 2 ^ io_bits (y_io y)" using d(3) r by (auto simp: reaper_at_def)
  have m: "m < length cq" "m < b" using b hl by (auto simp: le_less)
  let ?c = "cq ! m"
  have dr: "drop m cq = ?c # drop (Suc m) cq" using m(1) by (simp add: Cons_nth_drop_Suc)
  have c: "io_cqes (y_io y) (ring_index (io_bits (y_io y) + 1) h) = ?c"
    using d(2) m(1) unfolding b(1) by (simp add: rings_ok_def ring_rep_def)
  have pc_in: "(cqe_user_data ?c, Some (cqe_res ?c)) \<in> set (pending y sq (drop m cq))" by (simp add: pending_def dr)
  have w: "y_pc y (sl_task (slot_of y (cqe_user_data ?c))) = Io_waiting (cqe_user_data ?c)" "\<not> sl_wake_done (slot_of y (cqe_user_data ?c))"
    using pending_okD(2)[OF d(4) pc_in] by (simp_all add: under_way_def)
  have "cqe_user_data ?c < 2 ^ io_bits (y_io y)" using pending_token[OF d(1,4) pc_in] by simp
  also have "(2 :: nat) ^ io_bits (y_io y) \<le> 2 ^ 31" using d(2) by (intro power_increasing) (simp_all add: rings_ok_def)
  finally have "cqe_user_data ?c \<noteq> DLSM_IO_STOP_TOKEN" by simp
  then have pc: "pc = R_stored (cqe_user_data ?c) (h + 1) l"
    and io': "io' = slot_upd (cqe_user_data ?c) (\<lambda>x. x\<lparr>sl_res := cqe_res ?c\<rparr>) (y_io y)"
    using n hl unfolding reaper_next_def Let_def c by simp_all
  have ns: "sl_task (slot_of y' j) = sl_task (slot_of y j)" "sl_next (slot_of y' j) = sl_next (slot_of y j)"
    "sl_wake_done (slot_of y' j) = sl_wake_done (slot_of y j)" "y_pc y' = y_pc y" "y_answer y' = y_answer y"
    "io_bits (y_io y') = io_bits (y_io y)" "io_free_head (y_io y') = io_free_head (y_io y)" "io_flight (y_io y') = io_flight (y_io y)"
    "io_cq_head (y_io y') = io_cq_head (y_io y)" for j
    by (simp_all add: y' io')
  have ps: "mset (pending y' sq (drop (Suc m) cq)) = mset (pending y sq (drop m cq))"
    by (simp add: pending_def dr ns reaper_pending_def r) (simp add: y' pc io')
  show ?thesis
  proof (rule io_viewI)
    show "slots_ok y' fl" using d(1) unfolding slots_ok_def ns .
    show "rings_ok (y_io y') sq cq" using d(2) by (simp add: rings_ok_def y' io')
    show "reaper_at y' (length cq) (Suc m)"
      using b m by (auto simp: reaper_at_def ns) (auto simp: y' pc io' algebra_simps intro!: exI[of _ b])
    have "pending_ok y (pending y' sq (drop (Suc m) cq))" using d(4) ps by (rule pending_ok_perm)
    then show "pending_ok y' (pending y' sq (drop (Suc m) cq))" unfolding pending_ok_def under_way_def ns .
    show "owners_ok y' sq" using d(5) unfolding owners_ok_def ns .
    have "slot_of y' j = slot_of y j" if "sl_wake_done (slot_of y j)" for j using that w(2) by (auto simp: y' io')
    then show "answers_ok y'" using d(6) unfolding answers_ok_def ns by metis
  qed
qed

lemma view_wake_done:
  assumes v: "io_view y fl sq cq m" and r: "y_reaper y = R_unparked tok h l"
    and y': "y' = y\<lparr>y_io := reaper_wake_done tok (y_io y), y_reaper := R_batch h l\<rparr>"
  shows "io_view y' fl sq cq m"
proof -
  note d = io_viewD[OF v]
  note s = slots_okD[OF d(1)]
  let ?rest = "pending y' sq (drop m cq)"
  have ns: "sl_task (slot_of y' j) = sl_task (slot_of y j)" "sl_next (slot_of y' j) = sl_next (slot_of y j)"
    "sl_res (slot_of y' j) = sl_res (slot_of y j)" "y_pc y' = y_pc y" "y_answer y' = y_answer y"
    "io_bits (y_io y') = io_bits (y_io y)" "io_free_head (y_io y') = io_free_head (y_io y)" "io_flight (y_io y') = io_flight (y_io y)"
    "io_cq_head (y_io y') = io_cq_head (y_io y)" for j
    by (simp_all add: y' reaper_wake_done_def)
  have wd: "sl_wake_done (slot_of y' j) = (j = tok \<or> sl_wake_done (slot_of y j))" for j by (simp add: y' reaper_wake_done_def)
  have ps: "pending y sq (drop m cq) = ?rest @ [(tok, Some (sl_res (slot_of y tok)))]"
    by (simp add: pending_def reaper_pending_def r ns) (simp add: y')
  have old: "pending_ok y (?rest @ [(tok, Some (sl_res (slot_of y tok)))])" using d(4) unfolding ps .
  have w: "y_pc y (sl_task (slot_of y tok)) = Io_waiting tok" "y_answer y (sl_task (slot_of y tok)) = Some (sl_res (slot_of y tok))"
    using pending_okD(2)[OF old, of "(tok, Some (sl_res (slot_of y tok)))"] by (simp_all add: under_way_def)
  have only: "x = sl_task (slot_of y tok)" if "pc_token (y_pc y x) = Some tok" for x using s(3)[OF that] by simp
  show ?thesis
  proof (rule io_viewI)
    show "slots_ok y' fl" using d(1) unfolding slots_ok_def ns .
    show "rings_ok (y_io y') sq cq" using d(2) by (simp add: rings_ok_def y' reaper_wake_done_def)
    show "reaper_at y' (length cq) m" using d(3) unfolding reaper_at_def ns r by (simp add: y')
    have "under_way y' p" if "p \<in> set ?rest" for p
    proof -
      have "under_way y p" using pending_okD(2)[OF old] that by simp
      moreover have "fst p \<noteq> tok" using pending_okD(1)[OF old] that by force
      ultimately show ?thesis by (auto simp: under_way_def ns wd split: prod.splits)
    qed
    moreover have "j \<in> fst ` set ?rest" if "y_pc y' x = Io_waiting j" "\<not> sl_wake_done (slot_of y' j)" for x j
      using that pending_okD(3)[OF old, of x j] wd[of j] unfolding ns by auto
    ultimately show "pending_ok y' ?rest" using pending_okD(1)[OF old] by (simp add: pending_ok_def)
    show "owners_ok y' sq" using d(5) unfolding owners_ok_def ns .
    show "answers_ok y'" unfolding answers_ok_def ns wd
    proof (intro conjI allI impI)
      fix x j
      assume x: "y_pc y x = Io_waiting j" and "j = tok \<or> sl_wake_done (slot_of y j)"
      then show "y_answer y x = Some (sl_res (slot_of y j))" using d(6) only[of x] w(2) by (auto simp: answers_ok_def)
    next
      fix x j
      assume x: "y_pc y x = Io_prepared j"
      then have "j \<noteq> tok" using only[of x] w(1) by auto
      then show "\<not> (j = tok \<or> sl_wake_done (slot_of y j))" using d(6) x by (simp add: answers_ok_def)
    qed
  qed
qed


section \<open>Reachable states\<close>

lemma io_step_view:
  assumes "io_step y y'" and v: "io_view y fl sq cq m"
  shows "\<exists>fl sq cq m. io_view y' fl sq cq m"
  using assms(1)
proof cases
  case (prepare t pc io')
  then show ?thesis using view_prepare[OF v prepare(2,3)] by blast
next
  case (submit t tok e entered)
  define y1 where "y1 = y\<lparr>y_io := submit_entry e (y_io y), y_pc := (y_pc y)(t := Io_waiting tok)\<rparr>"
  have v1: "io_view y1 fl (sq @ [e]) cq m" using view_submit[OF v submit(2,3,4)] by (simp add: y1_def)
  show ?thesis
  proof (cases entered)
    case True
    then have "y' = y1\<lparr>y_io := kernel_take (y_io y1)\<rparr>" using submit(1) by (simp add: y1_def submit_def Let_def)
    then show ?thesis using view_take[OF v1] by blast
  next
    case False
    then have "y' = y1" using submit(1) by (simp add: y1_def submit_def Let_def)
    then show ?thesis using v1 by blast
  qed
next
  case take
  then show ?thesis using view_take[OF v] by blast
next
  case (complete e res)
  then show ?thesis using view_complete[OF v complete(2)] by blast
next
  case reap_load
  note d = io_viewD[OF v]
  have m: "m = 0" using d(3) reap_load(2) by (simp add: reaper_at_def)
  have "length cq \<le> length (pending y sq (drop m cq))" by (simp add: pending_def m)
  then have len: "length cq \<le> 2 ^ io_bits (y_io y)" using pending_length_le[OF d(1,4)] by (rule order_trans)
  have "reaper_at y' (length cq) m"
    using d(2) len m by (auto simp: reaper_at_def reap_load(1) reaper_load_def rings_ok_def intro!: exI[of _ "length cq"])
  moreover have "reaper_pending y' = reaper_pending y" using reap_load by (simp add: reaper_pending_def reaper_load_def)
  ultimately show ?thesis using view_reaper_moves[OF v reap_load(1)] by blast
next
  case (reap_next h l pc io')
  show ?thesis
  proof (cases "h = l")
    case True
    then have "y' = y\<lparr>y_io := (y_io y)\<lparr>io_cq_head := h\<rparr>, y_reaper := R_waiting\<rparr>" using reap_next by (simp add: reaper_next_def)
    then show ?thesis using view_publish[OF v reap_next(2)] by blast
  next
    case False
    then show ?thesis using view_store[OF v reap_next(2) False reap_next(3)] reap_next(1) by blast
  qed
next
  case (reap_unpark tok h l)
  have "reaper_at y' (length cq) m" using io_viewD(3)[OF v] reap_unpark by (simp add: reaper_at_def)
  moreover have "reaper_pending y' = reaper_pending y" using reap_unpark by (simp add: reaper_pending_def)
  ultimately show ?thesis using view_reaper_moves[OF v reap_unpark(1)] by blast
next
  case (reap_done tok h l)
  then show ?thesis using view_wake_done[OF v reap_done(2)] by blast
next
  case (finish t tok r io')
  then show ?thesis using view_finish[OF v finish(2,3)] by blast
qed

lemma fresh_slots_chain:
  assumes "i < n"
  shows "lseg (\<lambda>j. sl_next (fresh_slot n j)) (Some i) [i..<n] None"
  using assms
proof (induction "n - i" arbitrary: i)
  case (Suc d)
  have u: "[i..<n] = i # [Suc i..<n]" using Suc.prems by (simp add: upt_conv_Cons)
  show ?case
  proof (cases "Suc i = n")
    case True
    then show ?thesis by (simp add: u fresh_slot_def)
  next
    case False
    then have "lseg (\<lambda>j. sl_next (fresh_slot n j)) (Some (Suc i)) [Suc i..<n] None" using Suc by (intro Suc.hyps(1)) simp_all
    moreover have "sl_next (fresh_slot n i) = Some (Suc i)" using False Suc.prems by (auto simp: fresh_slot_def)
    ultimately show ?thesis by (simp add: u)
  qed
qed simp

lemma fresh_io_view:
  assumes "k < 31"
  shows "io_view (io_start (fresh_io k sqes cqes)) [0..<2 ^ k] [] [] 0"
proof (rule io_viewI)
  show "slots_ok (io_start (fresh_io k sqes cqes)) [0..<2 ^ k]"
    using fresh_slots_chain[of 0 "2 ^ k"] by (simp add: slots_ok_def io_start_def fresh_io_def)
  show "rings_ok (y_io (io_start (fresh_io k sqes cqes))) [] []"
    using assms by (simp add: rings_ok_def io_start_def fresh_io_def ring_rep_def)
qed (simp_all add: reaper_at_def io_start_def pending_ok_def pending_def reaper_pending_def fresh_io_def owners_ok_def answers_ok_def)

lemma io_reachable_view:
  assumes "k < 31" and "io_step\<^sup>*\<^sup>* (io_start (fresh_io k sqes cqes)) y"
  obtains fl sq cq m where "io_view y fl sq cq m"
proof -
  have "\<exists>fl sq cq m. io_view y fl sq cq m"
    using assms(2) by (induction rule: rtranclp_induct) (use fresh_io_view[OF assms(1)] io_step_view in blast)+
  then show thesis using that by blast
qed

lemma io_bits_reachable: "io_step\<^sup>*\<^sup>* (io_start (fresh_io k sqes cqes)) y \<Longrightarrow> io_bits (y_io y) = k"
proof (induction rule: rtranclp_induct)
  case base
  show ?case by (simp add: io_start_def fresh_io_def)
next
  case (step y y')
  from step.hyps(2) have "io_bits (y_io y') = io_bits (y_io y)"
    by cases (auto simp: op_prepare_def slot_alloc_def submit_def submit_entry_def kernel_take_def kernel_complete_def Let_def
        reaper_next_def reaper_wake_done_def op_finish_def slot_free_def split: option.splits if_splits prod.splits)
  then show ?case using step.IH by simp
qed


lemma view_counts:
  assumes v: "io_view y fl sq cq m"
  shows "unat (io_sq_tail (y_io y) - io_sq_head (y_io y)) = length sq"
    and "unat (io_cq_tail (y_io y) - io_cq_head (y_io y)) = length cq"
proof -
  have r: "io_bits (y_io y) < 32" "io_bits (y_io y) + 1 < 32" "length sq \<le> 2 ^ io_bits (y_io y)" "length cq \<le> 2 ^ (io_bits (y_io y) + 1)"
    "io_sq_tail (y_io y) = io_sq_head (y_io y) + of_nat (length sq)" "io_cq_tail (y_io y) = io_cq_head (y_io y) + of_nat (length cq)"
    using io_viewD(2)[OF v] by (simp_all add: rings_ok_def ring_rep_def)
  show "unat (io_sq_tail (y_io y) - io_sq_head (y_io y)) = length sq" by (rule ring_count[OF r(1,3,5)])
  show "unat (io_cq_tail (y_io y) - io_cq_head (y_io y)) = length cq" by (rule ring_count[OF r(2,4,6)])
qed

section \<open>Properties\<close>

text \<open>
  Claim C22. Each task gets the result of its own request, in every interleaving of tasks, kernel and reaper and
  whatever the kernel answers: two tasks never use the same slot; the task the reaper is about to wake is
  the one that waits on the slot whose result it has stored; and an operation that finishes returns what
  the kernel answered to the request of that task.
\<close>

theorem io_results_delivered:
  assumes "k < 31" and "io_step\<^sup>*\<^sup>* (io_start (fresh_io k sqes cqes)) y"
  shows "(pc_token (y_pc y t) = Some tok \<longrightarrow> pc_token (y_pc y u) = Some tok \<longrightarrow> t = u) \<and>
    (y_reaper y = R_stored tok h l \<longrightarrow> y_pc y (sl_task (io_slots (y_io y) tok)) = Io_waiting tok) \<and>
    (y_pc y t = Io_waiting tok \<longrightarrow> op_finish tok (y_io y) = Some (r, io') \<longrightarrow>
       (\<exists>res. y_answer y t = Some res \<and> r = op_result res))"
proof -
  obtain fl sq cq m where v: "io_view y fl sq cq m" using io_reachable_view[OF assms] by blast
  note d = io_viewD[OF v]
  have "t = u" if "pc_token (y_pc y t) = Some tok" "pc_token (y_pc y u) = Some tok"
    using slots_okD(3)[OF d(1) that(1)] slots_okD(3)[OF d(1) that(2)] by simp
  moreover have "y_pc y (sl_task (io_slots (y_io y) tok)) = Io_waiting tok" if "y_reaper y = R_stored tok h l"
    using that by (intro pending_waiting(1)[OF d(4)]) (simp add: pending_tokens reaper_pending_def)
  moreover have "\<exists>res. y_answer y t = Some res \<and> r = op_result res"
    if "y_pc y t = Io_waiting tok" "op_finish tok (y_io y) = Some (r, io')"
    using that d(6) by (auto simp: op_finish_def answers_ok_def split: if_splits)
  ultimately show ?thesis by blast
qed

text \<open>
  Claim C23. The rings never overflow and no request is lost: whenever a task is about to submit there is room in the
  submission ring, whenever the kernel holds a request there is room in the completion ring for its
  completion, although the reaper publishes its head only at the end of a batch and tasks it has woken
  may already have submitted again; and when nothing is left in the rings, in the kernel and with the
  reaper, every waiting task can finish.
\<close>

theorem io_rings_never_overflow:
  assumes "k < 31" and "io_step\<^sup>*\<^sup>* (io_start (fresh_io k sqes cqes)) y"
  shows "(y_pc y t = Io_prepared tok \<longrightarrow> unat (io_sq_tail (y_io y) - io_sq_head (y_io y)) < 2 ^ k) \<and>
    (io_flight (y_io y) \<noteq> [] \<longrightarrow> unat (io_cq_tail (y_io y) - io_cq_head (y_io y)) < 2 ^ (k + 1)) \<and>
    (io_sq_head (y_io y) = io_sq_tail (y_io y) \<and> io_flight (y_io y) = [] \<and> y_reaper y = R_waiting \<and>
       io_cq_head (y_io y) = io_cq_tail (y_io y) \<longrightarrow>
       y_pc y t = Io_waiting tok \<longrightarrow> op_finish tok (y_io y) \<noteq> None)"
proof -
  obtain fl sq cq m where v: "io_view y fl sq cq m" using io_reachable_view[OF assms] by blast
  note d = io_viewD[OF v]
  have k: "io_bits (y_io y) = k" using io_bits_reachable assms(2) by blast
  note c = view_counts[OF v]
  have "op_finish tok (y_io y) \<noteq> None"
    if "io_sq_head (y_io y) = io_sq_tail (y_io y)" "io_flight (y_io y) = []" "y_reaper y = R_waiting"
      "io_cq_head (y_io y) = io_cq_tail (y_io y)" "y_pc y t = Io_waiting tok"
  proof -
    have "sq = []" "cq = []" using c that(1,4) by simp_all
    then have "pending y sq (drop m cq) = []" using that(2,3) by (simp add: pending_def reaper_pending_def)
    then have "sl_wake_done (slot_of y tok)" using pending_okD(3)[OF d(4) that(5)] by auto
    then show ?thesis by (simp add: op_finish_def)
  qed
  then show ?thesis using view_submit_room[OF v] view_complete_room[OF v] c unfolding k by simp
qed

text \<open>A task submits a request, which the kernel completes with the result 5.\<close>

definition read_sqe :: io_uring_sqe where
  "read_sqe = \<lparr>sqe_opcode = IORING_OP_READ, sqe_fd = 3, sqe_addr = 4096, sqe_len = 512, sqe_off = 0, sqe_fsync_flags = 0, sqe_user_data = 0, sqe_owner = 9\<rparr>"

definition io_prepared :: io_sys where
  "io_prepared = (let y = io_start (fresh_io 2 (\<lambda>_. read_sqe) (\<lambda>_. \<lparr>cqe_user_data = 0, cqe_res = 0\<rparr>)) in
     y\<lparr>y_io := snd (op_prepare 9 (y_io y)), y_pc := (y_pc y)(9 := Io_prepared 0), y_answer := (y_answer y)(9 := None)\<rparr>)"

definition io_submitted :: io_sys where
  "io_submitted = io_prepared\<lparr>y_io := submit True read_sqe (y_io io_prepared), y_pc := (y_pc io_prepared)(9 := Io_waiting 0)\<rparr>"

lemma io_prepared_reachable:
  "io_step\<^sup>*\<^sup>* (io_start (fresh_io 2 (\<lambda>_. read_sqe) (\<lambda>_. \<lparr>cqe_user_data = 0, cqe_res = 0\<rparr>))) io_prepared"
proof (rule r_into_rtranclp)
  let ?y = "io_start (fresh_io 2 (\<lambda>_. read_sqe) (\<lambda>_. \<lparr>cqe_user_data = 0, cqe_res = 0\<rparr>))"
  have "op_prepare 9 (y_io ?y) = (Io_prepared 0, snd (op_prepare 9 (y_io ?y)))"
    by (simp add: op_prepare_def slot_alloc_def io_start_def fresh_io_def)
  then show "io_step ?y io_prepared" unfolding io_prepared_def Let_def
    by (intro io_step.prepare[of ?y 9 "Io_prepared 0"]) (simp add: io_start_def)
qed

lemma io_submitted_reachable:
  "io_step\<^sup>*\<^sup>* (io_start (fresh_io 2 (\<lambda>_. read_sqe) (\<lambda>_. \<lparr>cqe_user_data = 0, cqe_res = 0\<rparr>))) io_submitted"
proof (rule rtranclp.rtrancl_into_rtrancl[OF io_prepared_reachable])
  show "io_step io_prepared io_submitted" unfolding io_submitted_def
    by (rule io_step.submit) (simp_all add: io_prepared_def read_sqe_def Let_def)
qed

theorem io_results_delivered_witness:
  "pc_token (y_pc io_submitted 9) = Some 0 \<and> pc_token (y_pc io_submitted 8) \<noteq> Some 0"
proof -
  have "pc_token (y_pc io_submitted 9) = Some 0" by (simp add: io_submitted_def)
  then show ?thesis using io_results_delivered[OF _ io_submitted_reachable, of 9 0 8] by auto
qed

theorem io_rings_never_overflow_witness:
  "unat (io_sq_tail (y_io io_prepared) - io_sq_head (y_io io_prepared)) < 2 ^ 2 \<and> y_pc io_prepared 9 = Io_prepared 0"
proof -
  have "y_pc io_prepared 9 = Io_prepared 0" by (simp add: io_prepared_def Let_def)
  then show ?thesis using io_rings_never_overflow[OF _ io_prepared_reachable, of 9 0] by simp
qed

end
