(* ===== verification/Io_Setup.thy ===== *)
theory Io_Setup
  imports Io_System
begin

text \<open>
  Set-up and tear-down of \<^verbatim>\<open>libs/io/src/io.c\<close>: \<open>dlsm_io_new\<close> with every call that can fail, and
  \<open>dlsm_io_free\<close>, which both callers and the error paths of \<open>dlsm_io_new\<close> use. The state is the set of
  resources that are held.
\<close>

section \<open>Data\<close>

text \<open>Which calls succeed, whether one mapping holds both rings, and the size the kernel chose.\<close>

record io_env =
  v_calloc :: bool
  v_setup :: "u32 \<Rightarrow> nat option"
  v_sq_map :: bool
  v_cq_map :: bool
  v_sqe_map :: bool
  v_single :: bool
  v_slots :: bool
  v_thread :: bool

datatype io_resource = Object | Ring_fd | Sq_map | Cq_map | Sqe_map | Slots | Mutex | Reaper

text \<open>A mapping pointer: \<open>NULL\<close>, \<open>MAP_FAILED\<close>, or an address.\<close>

datatype map_ptr = Null_map | Failed_map | Mapped

record io_object =
  j_fd :: bool
  j_sq_map :: map_ptr
  j_cq_map :: map_ptr
  j_sqe_map :: map_ptr
  j_slots :: bool
  j_mtx_inited :: bool
  j_reaper_started :: bool

section \<open>Operations\<close>

definition mmap_ring :: "bool \<Rightarrow> io_resource \<Rightarrow> io_resource set \<Rightarrow> map_ptr \<times> io_resource set" where
  "mmap_ring ok res held = (if ok then (Mapped, insert res held) else (Failed_map, held))"

definition drop_if :: "bool \<Rightarrow> io_resource \<Rightarrow> io_resource set \<Rightarrow> io_resource set" where
  "drop_if b res held = (if b then held - {res} else held)"

text \<open>The reaper is told to stop with a completion of its own and joined before anything it uses is released.\<close>

definition dlsm_io_free :: "io_object option \<Rightarrow> io_resource set \<Rightarrow> io_resource set" where
  "dlsm_io_free jo held = (case jo of
     None \<Rightarrow> held
   | Some j \<Rightarrow>
       (let h1 = drop_if (j_reaper_started j) Reaper held;
            h2 = drop_if (j_mtx_inited j) Mutex h1;
            h3 = drop_if (j_slots j) Slots h2;
            h4 = drop_if (j_sqe_map j = Mapped) Sqe_map h3;
            h5 = drop_if (j_cq_map j = Mapped) Cq_map h4;
            h6 = drop_if (j_sq_map j = Mapped) Sq_map h5;
            h7 = drop_if (j_fd j) Ring_fd h6 in
        h7 - {Object}))"

definition dlsm_io_new :: "io_env \<Rightarrow> u32 \<Rightarrow> io_resource set \<Rightarrow> (io_object \<times> nat) option \<times> io_resource set" where
  "dlsm_io_new v entries held =
     (let entries' = (if entries = 0 then 64 else entries) in
      if \<not> v_calloc v then (None, held)
      else (case v_setup v entries' of
          None \<Rightarrow> (None, insert Object held - {Object})
        | Some k \<Rightarrow>
            (let h0 = insert Ring_fd (insert Object held) in
             case mmap_ring (v_sq_map v) Sq_map h0 of (sq, h1) \<Rightarrow>
             case (if sq \<noteq> Failed_map \<and> \<not> v_single v then mmap_ring (v_cq_map v) Cq_map h1 else (Null_map, h1)) of (cqm, h2) \<Rightarrow>
             case mmap_ring (v_sqe_map v) Sqe_map h2 of (sqe, h3) \<Rightarrow>
             let cq = (if sq \<noteq> Failed_map \<and> \<not> v_single v then cqm else sq);
                 j = \<lparr>j_fd = True, j_sq_map = sq, j_cq_map = cqm, j_sqe_map = sqe, j_slots = False, j_mtx_inited = False, j_reaper_started = False\<rparr> in
             if sq = Failed_map \<or> cq = Failed_map \<or> sqe = Failed_map then (None, dlsm_io_free (Some j) h3)
             else if \<not> v_slots v then (None, dlsm_io_free (Some j) h3)
             else
               (let j1 = j\<lparr>j_slots := True, j_mtx_inited := True\<rparr>; h4 = insert Mutex (insert Slots h3) in
                if \<not> v_thread v then (None, dlsm_io_free (Some j1) h4)
                else (Some (j1\<lparr>j_reaper_started := True\<rparr>, k), insert Reaper h4)))))"

section \<open>Properties\<close>

text \<open>When every call that is made succeeds.\<close>

definition env_succeeds :: "io_env \<Rightarrow> u32 \<Rightarrow> bool" where
  "env_succeeds v entries \<longleftrightarrow> v_calloc v \<and> v_setup v (if entries = 0 then 64 else entries) \<noteq> None \<and> v_sq_map v \<and>
     (v_single v \<or> v_cq_map v) \<and> v_sqe_map v \<and> v_slots v \<and> v_thread v"

text \<open>
  Whatever call fails, \<open>dlsm_io_new\<close> returns an object exactly when all succeed, and otherwise holds
  nothing; and \<open>dlsm_io_free\<close> of the object it returned releases everything that was acquired.
\<close>

theorem io_new_releases_on_failure:
  "case dlsm_io_new v entries {} of (res, held) \<Rightarrow> (case res of
     None \<Rightarrow> \<not> env_succeeds v entries \<and> held = {}
   | Some (j, k) \<Rightarrow> env_succeeds v entries \<and> Reaper \<in> held \<and> dlsm_io_free (Some j) held = {})"
proof (cases "v_calloc v \<and> v_setup v (if entries = 0 then 64 else entries) \<noteq> None")
  case False
  then show ?thesis by (auto simp: dlsm_io_new_def env_succeeds_def Let_def)
next
  case True
  then obtain k where k: "v_calloc v" "v_setup v (if entries = 0 then 64 else entries) = Some k" by auto
  show ?thesis
    unfolding dlsm_io_new_def Let_def env_succeeds_def k(2)
    using k(1)
    by (cases "v_sq_map v"; cases "v_single v"; cases "v_cq_map v"; cases "v_sqe_map v"; cases "v_slots v"; cases "v_thread v")
      (auto simp: mmap_ring_def dlsm_io_free_def drop_if_def Let_def)
qed

end
