(* ===== verification/Shm_Alloc.thy ===== *)
theory Shm_Alloc
  imports Dlsm_Prelude
begin

text \<open>
  The arena of a shared-memory segment (\<^verbatim>\<open>libs/shm/src/shm.c\<close>): the header, the lock-free bump
  allocator with its overflow checks on 64-bit words, and the conversion between pointers and
  segment offsets. An allocation that competes with others is a sequence of steps, one per
  compare-and-swap; the disjointness of all blocks ever handed out is an invariant of those steps.
\<close>

unbundle bit_operations_syntax

section \<open>Operations\<close>

record shm_header =
  sh_magic :: u64
  sh_version :: u32
  sh_base_addr :: u64
  sh_total_size :: u64
  sh_bump :: u64
  sh_owner_pid :: int

text \<open>Eight, four, four, eight, eight, eight and four bytes, padded to the alignment of eight.\<close>

abbreviation sizeof_ShmHeader :: u64 where "sizeof_ShmHeader \<equiv> 48"

text \<open>\<open>hdr\<close> is the mapped base address; the header itself lives in the segment.\<close>

record dlsm_shm =
  hd_hdr :: u64
  hd_mapped_size :: u64
  hd_fd :: nat
  hd_readonly :: bool

definition align_up :: "u64 \<Rightarrow> u64 \<Rightarrow> u64" where
  "align_up v a = (v + (a - 1)) AND NOT (a - 1)"

definition is_pow2 :: "u64 \<Rightarrow> bool" where
  "is_pow2 a \<longleftrightarrow> a \<noteq> 0 \<and> a AND (a - 1) = 0"

text \<open>
  The body of the allocation loop up to the compare-and-swap: where the block would start and
  the new value of \<open>bump\<close>, or \<open>None\<close> where the loop returns \<open>NULL\<close>.
\<close>

definition alloc_place :: "u64 \<Rightarrow> u64 \<Rightarrow> u64 \<Rightarrow> u64 \<Rightarrow> u64 \<Rightarrow> (u64 \<times> u64) option" where
  "alloc_place base total_size cur sz align =
     (if cur > total_size \<or> cur > UINT64_MAX - base then None
      else let address = base + cur in
        if address > UINT64_MAX - (align - 1) then None
        else let aligned_address = (address + (align - 1)) AND NOT (align - 1) in
          if aligned_address < base then None
          else let aligned = aligned_address - base in
            if aligned > total_size \<or> sz > total_size - aligned then None
            else Some (aligned, aligned + sz))"

definition alloc_args_ok :: "dlsm_shm option \<Rightarrow> u64 \<Rightarrow> u64 \<Rightarrow> bool" where
  "alloc_args_ok s sz align = (case s of None \<Rightarrow> False
     | Some h \<Rightarrow> \<not> hd_readonly h \<and> sz \<noteq> 0 \<and> is_pow2 align)"

text \<open>A call whose compare-and-swap succeeds at the first try.\<close>

definition dlsm_shm_alloc ::
  "dlsm_shm option \<Rightarrow> u64 \<Rightarrow> u64 \<Rightarrow> shm_header \<Rightarrow> u64 option \<times> shm_header" where
  "dlsm_shm_alloc s sz align hdr =
     (if \<not> alloc_args_ok s sz align then (None, hdr)
      else case alloc_place (hd_hdr (the s)) (sh_total_size hdr) (sh_bump hdr) sz align of
          None \<Rightarrow> (None, hdr)
        | Some (aligned, nxt) \<Rightarrow> (Some (hd_hdr (the s) + aligned), hdr\<lparr>sh_bump := nxt\<rparr>))"

definition dlsm_shm_base :: "dlsm_shm \<Rightarrow> u64" where
  "dlsm_shm_base s = hd_hdr s"

definition dlsm_shm_capacity :: "shm_header \<Rightarrow> u64" where
  "dlsm_shm_capacity hdr = sh_total_size hdr"

definition dlsm_shm_used :: "shm_header \<Rightarrow> u64" where
  "dlsm_shm_used hdr = sh_bump hdr"

text \<open>A null pointer is the address 0.\<close>

definition dlsm_shm_offset_of :: "dlsm_shm option \<Rightarrow> shm_header \<Rightarrow> u64 \<Rightarrow> bool \<Rightarrow> u64 option" where
  "dlsm_shm_offset_of s hdr ptr out = (case s of None \<Rightarrow> None
     | Some h \<Rightarrow> if ptr = 0 \<or> \<not> out then None
         else if ptr < hd_hdr h \<or> dlsm_shm_capacity hdr \<le> ptr - hd_hdr h then None
         else Some (ptr - hd_hdr h))"

definition dlsm_shm_pointer :: "dlsm_shm option \<Rightarrow> shm_header \<Rightarrow> u64 \<Rightarrow> u64 \<Rightarrow> u64 option" where
  "dlsm_shm_pointer s hdr offset sz = (case s of None \<Rightarrow> None
     | Some h \<Rightarrow> if dlsm_shm_capacity hdr < offset \<or> dlsm_shm_capacity hdr - offset < sz then None
         else Some (hd_hdr h + offset))"

section \<open>Powers of two and alignment\<close>

lemma nat_and_pred_pow2:
  fixes k :: nat
  assumes "0 < k" and "k AND (k - 1) = 0"
  shows "\<exists>n. k = 2 ^ n"
  using assms
proof (induction k rule: less_induct)
  case (less k)
  show ?case
  proof (cases "even k")
    case True
    then obtain m where m: "k = 2 * m" by blast
    with less.prems(1) have "0 < m" "k - 1 = 1 + 2 * (m - 1)" by auto
    with m less.prems(2) have "m AND (m - 1) = 0"
      using and_nat_rec [of "2 * m" "1 + 2 * (m - 1)"] by simp
    with less.IH [of m] m \<open>0 < m\<close> obtain n where "m = 2 ^ n" by auto
    with m have "k = 2 ^ Suc n" by simp
    then show ?thesis by blast
  next
    case False
    then obtain m where "k = 2 * m + 1" by (elim oddE)
    with less.prems(2) have "k = 2 ^ 0" using and_nat_rec [of "2 * m + 1" "2 * m"] by simp
    then show ?thesis by blast
  qed
qed

lemma unat_2p: "n < 64 \<Longrightarrow> unat (2 ^ n :: u64) = 2 ^ n"
proof -
  assume "n < 64"
  then have "(2 :: nat) ^ n < 2 ^ 64" by (intro power_strict_increasing) auto
  moreover have "(2 ^ n :: u64) = of_nat (2 ^ n)" by simp
  ultimately show ?thesis by (simp only: unat_of_nat) simp
qed

lemma is_pow2_iff: "is_pow2 a \<longleftrightarrow> (\<exists>n < 64. a = 2 ^ n)"
proof
  assume a: "is_pow2 a"
  then have nz: "a \<noteq> 0" by (simp add: is_pow2_def)
  have "unat (a AND (a - 1)) = unat a AND (unat a - 1)"
    using nz by (simp add: unsigned_and_eq unat_minus_one)
  with a have "unat a AND (unat a - 1) = 0" by (simp add: is_pow2_def)
  moreover have "0 < unat a" using nz by (simp add: unat_gt_0)
  ultimately obtain n where n: "unat a = 2 ^ n" using nat_and_pred_pow2 by blast
  have "(2 :: nat) ^ n < 2 ^ 64" using u64_add_overflow_less [of a] n by simp
  then have "n < 64" by (rule power_less_imp_less_exp [rotated]) simp
  moreover have "a = 2 ^ n" using n calculation by (simp add: word_unat_eq_iff unat_2p)
  ultimately show "\<exists>n < 64. a = 2 ^ n" by blast
next
  assume "\<exists>n < 64. a = 2 ^ n"
  then obtain n where n: "n < 64" "a = 2 ^ n" by blast
  have "(2 ^ n :: u64) AND (2 ^ n - 1) = 0"
    by (rule bit_eqI) (auto simp: bit_and_iff bit_exp_iff mask_eq_exp_minus_1 [symmetric] bit_mask_iff)
  with n have "a AND (a - 1) = 0" by simp
  moreover have "a \<noteq> 0" using n by simp
  ultimately show "is_pow2 a" by (simp add: is_pow2_def)
qed

lemma and_not_pow2:
  fixes x :: u64
  assumes "n < 64"
  shows "unat (x AND NOT (2 ^ n - 1)) = unat x div 2 ^ n * 2 ^ n"
proof -
  have "x AND NOT (2 ^ n - 1) = push_bit n (drop_bit n x)"
    by (rule bit_eqI)
      (auto simp: mask_eq_exp_minus_1 [symmetric] bit_and_iff bit_not_iff bit_mask_iff
        bit_push_bit_iff bit_drop_bit_eq)
  also have "\<dots> = x div 2 ^ n * 2 ^ n" by (simp add: push_bit_eq_mult drop_bit_eq_div)
  finally have "x AND NOT (2 ^ n - 1) = x div 2 ^ n * 2 ^ n" .
  moreover have "unat x div 2 ^ n * 2 ^ n < 2 ^ 64"
    using u64_add_overflow_less [of x] by (meson div_times_less_eq_dividend le_less_trans)
  moreover have "unat (x div 2 ^ n * 2 ^ n) = unat (x div 2 ^ n) * unat (2 ^ n :: u64) mod 2 ^ 64"
    by (simp add: unat_word_ariths(2))
  moreover have "unat (x div 2 ^ n) = unat x div 2 ^ n"
    using assms by (simp add: unat_div_distrib unat_2p)
  ultimately show ?thesis using unat_2p [OF assms] by simp
qed

text \<open>Rounding up: the least multiple of the alignment that is not below.\<close>

lemma round_up_nat:
  fixes v a :: nat
  assumes "0 < a"
  shows "v \<le> (v + (a - 1)) div a * a" and "(v + (a - 1)) div a * a < v + a"
proof -
  have e: "(v + (a - 1)) div a * a = v + (a - 1) - (v + (a - 1)) mod a"
    by (simp add: minus_mod_eq_div_mult)
  have "(v + (a - 1)) mod a < a" using assms by simp
  moreover have "(v + (a - 1)) mod a \<le> v + (a - 1)" by simp
  ultimately show "v \<le> (v + (a - 1)) div a * a" "(v + (a - 1)) div a * a < v + a"
    using e assms by linarith+
qed

lemma align_up_pow2:
  assumes "is_pow2 a" and "unat v + (unat a - 1) < 2 ^ 64"
  shows "unat v \<le> unat (align_up v a)" and "unat (align_up v a) < unat v + unat a"
    and "unat a dvd unat (align_up v a)"
proof -
  obtain n where n: "n < 64" "a = 2 ^ n" using assms(1) by (auto simp: is_pow2_iff)
  have a: "unat a = 2 ^ n" using n unat_2p by simp
  then have "unat (a - 1) = unat a - 1" using n by (intro unat_minus_one) auto
  with assms(2) have s: "unat (v + (a - 1)) = unat v + (unat a - 1)"
    by (simp add: unat_add_no_overflow)
  have e: "unat (align_up v a) = (unat v + (unat a - 1)) div unat a * unat a"
    unfolding align_up_def using and_not_pow2 [OF n(1), of "v + (a - 1)"] s a n(2) by simp
  have "0 < unat a" using a by simp
  from round_up_nat [OF this, of "unat v"]
  show "unat v \<le> unat (align_up v a)" "unat (align_up v a) < unat v + unat a"
    unfolding e by blast+
  show "unat a dvd unat (align_up v a)" unfolding e by simp
qed

section \<open>One allocation\<close>

text \<open>
  What a successful placement guarantees, as natural numbers: the block lies between the old and
  the new bump, inside the arena, and its address is aligned; no intermediate sum overflowed.
\<close>

lemma alloc_place_sound:
  assumes p: "alloc_place base tot cur sz align = Some (aligned, nxt)" and "is_pow2 align"
  shows "unat cur \<le> unat aligned" and "unat nxt = unat aligned + unat sz" and "unat nxt \<le> unat tot"
    and "unat base + unat aligned < 2 ^ 64" and "unat align dvd unat (base + aligned)"
    and "unat aligned < unat cur + unat align"
proof -
  let ?ad = "base + cur"
  have c: "cur \<le> tot" "\<not> UINT64_MAX - base < cur" "\<not> UINT64_MAX - (align - 1) < ?ad"
    and al: "aligned = align_up ?ad align - base" "\<not> align_up ?ad align < base"
    and t: "aligned \<le> tot" "sz \<le> tot - aligned" and nx: "nxt = aligned + sz"
    using p by (auto simp: alloc_place_def align_up_def Let_def not_less not_le split: if_splits)
  have nz: "align \<noteq> 0" using assms(2) by (simp add: is_pow2_def)
  have b: "unat base + unat cur < 2 ^ 64" using c(2) by (simp add: u64_max_diff_less_iff not_le)
  then have ad: "unat ?ad = unat base + unat cur" by (rule unat_add_no_overflow)
  have "unat (align - 1) = unat align - 1" using nz by (rule unat_minus_one)
  with c(3) have "unat ?ad + (unat align - 1) < 2 ^ 64"
    unfolding u64_max_diff_less_iff not_le by (simp add: add.commute)
  note up = align_up_pow2 [OF assms(2) this]
  have "unat aligned = unat (align_up ?ad align) - unat base"
    unfolding al(1) using al(2) by (intro unat_sub) (simp add: not_less)
  then have ae: "unat base + unat aligned = unat (align_up ?ad align)" using up(1) ad by linarith
  show lt: "unat base + unat aligned < 2 ^ 64" using ae u64_add_overflow_less by metis
  show "unat cur \<le> unat aligned" "unat aligned < unat cur + unat align" using ae up ad by linarith+
  have ta: "unat (tot - aligned) = unat tot - unat aligned" using t(1) by (rule unat_sub)
  with t have st: "unat aligned + unat sz \<le> unat tot" by (simp add: word_le_nat_alt)
  with u64_add_overflow_less [of tot] show ns: "unat nxt = unat aligned + unat sz"
    unfolding nx by (intro unat_add_no_overflow) linarith
  show "unat nxt \<le> unat tot" using ns st by simp
  show "unat align dvd unat (base + aligned)"
    using up(3) ae unat_add_no_overflow [OF lt] by simp
qed

text \<open>A placement fails only where the block, wherever it would be aligned, may not fit.\<close>

lemma alloc_place_complete:
  assumes n: "alloc_place base tot cur sz align = None" and "is_pow2 align"
    and top: "unat base + unat tot + unat align \<le> 2 ^ 64"
  shows "unat tot < unat cur + (unat align - 1) + unat sz"
proof (rule ccontr)
  let ?ad = "base + cur"
  assume "\<not> unat tot < unat cur + (unat align - 1) + unat sz"
  then have fit: "unat cur + (unat align - 1) + unat sz \<le> unat tot" by simp
  have nz: "align \<noteq> 0" "0 < unat align" using assms(2) by (simp_all add: is_pow2_def unat_gt_0)
  have c: "unat base + unat cur < 2 ^ 64" using fit top nz by linarith
  then have ad: "unat ?ad = unat base + unat cur" by (rule unat_add_no_overflow)
  have al: "unat ?ad + (unat align - 1) < 2 ^ 64" using ad fit top nz by linarith
  note up = align_up_pow2 [OF assms(2) al]
  have m: "unat (align - 1) = unat align - 1" using nz by (intro unat_minus_one)
  have g: "\<not> tot < cur" "\<not> UINT64_MAX - base < cur" "\<not> UINT64_MAX - (align - 1) < ?ad"
    using fit c al m unfolding u64_max_diff_less_iff by (simp_all add: word_less_nat_alt)
  have ge: "base \<le> align_up ?ad align" using up(1) ad by (simp add: word_le_nat_alt)
  then have ae: "unat (align_up ?ad align - base) = unat (align_up ?ad align) - unat base"
    by (rule unat_sub)
  then have lt: "unat (align_up ?ad align - base) < unat cur + unat align"
    using up ad by linarith
  then have t: "align_up ?ad align - base \<le> tot" using fit by (simp add: word_le_nat_alt)
  then have "unat (tot - (align_up ?ad align - base)) = unat tot - unat (align_up ?ad align - base)"
    by (rule unat_sub)
  then have "sz \<le> tot - (align_up ?ad align - base)" using fit lt by (simp add: word_le_nat_alt)
  with g ge t have "alloc_place base tot cur sz align \<noteq> None"
    by (simp add: alloc_place_def align_up_def Let_def not_less)
  with n show False by simp
qed

section \<open>Competing allocations\<close>

text \<open>
  A thread is outside, or inside \<open>alloc\<close> with the value of \<open>bump\<close> it last saw. The
  compare-and-swap is the weak one: it may fail although \<open>bump\<close> is as expected. Every block handed
  out is recorded with its size and alignment.
\<close>

datatype alloc_pc = Al_idle | Al_trying u64 u64 u64

record arena =
  ar_hdr :: shm_header
  ar_pc :: "nat \<Rightarrow> alloc_pc"
  ar_blocks :: "(u64 \<times> u64 \<times> u64) list"

inductive arena_step :: "dlsm_shm \<Rightarrow> arena \<Rightarrow> arena \<Rightarrow> bool" for s :: dlsm_shm where
  alloc_load: "ar_pc a t = Al_idle \<Longrightarrow> alloc_args_ok (Some s) sz align \<Longrightarrow>
     arena_step s a (a\<lparr>ar_pc := (ar_pc a)(t := Al_trying (sh_bump (ar_hdr a)) sz align)\<rparr>)"
| alloc_full: "ar_pc a t = Al_trying cur sz align \<Longrightarrow>
     alloc_place (hd_hdr s) (sh_total_size (ar_hdr a)) cur sz align = None \<Longrightarrow>
     arena_step s a (a\<lparr>ar_pc := (ar_pc a)(t := Al_idle)\<rparr>)"
| alloc_cas_ok: "ar_pc a t = Al_trying cur sz align \<Longrightarrow>
     alloc_place (hd_hdr s) (sh_total_size (ar_hdr a)) cur sz align = Some (aligned, nxt) \<Longrightarrow>
     sh_bump (ar_hdr a) = cur \<Longrightarrow>
     arena_step s a \<lparr>ar_hdr = (ar_hdr a)\<lparr>sh_bump := nxt\<rparr>, ar_pc = (ar_pc a)(t := Al_idle),
       ar_blocks = (aligned, sz, align) # ar_blocks a\<rparr>"
| alloc_cas_fail: "ar_pc a t = Al_trying cur sz align \<Longrightarrow>
     alloc_place (hd_hdr s) (sh_total_size (ar_hdr a)) cur sz align = Some (aligned, nxt) \<Longrightarrow>
     arena_step s a (a\<lparr>ar_pc := (ar_pc a)(t := Al_trying (sh_bump (ar_hdr a)) sz align)\<rparr>)"

inductive arena_reachable :: "dlsm_shm \<Rightarrow> shm_header \<Rightarrow> arena \<Rightarrow> bool"
  for s :: dlsm_shm and hdr :: shm_header where
  arena_start: "arena_reachable s hdr \<lparr>ar_hdr = hdr, ar_pc = (\<lambda>_. Al_idle), ar_blocks = []\<rparr>"
| arena_next: "arena_reachable s hdr a \<Longrightarrow> arena_step s a a' \<Longrightarrow> arena_reachable s hdr a'"

text \<open>The bytes of a block, as offsets.\<close>

definition block_bytes :: "u64 \<times> u64 \<times> u64 \<Rightarrow> nat set" where
  "block_bytes = (\<lambda>(off, sz, align). {unat off ..< unat off + unat sz})"

definition arena_inv :: "dlsm_shm \<Rightarrow> shm_header \<Rightarrow> arena \<Rightarrow> bool" where
  "arena_inv s hdr a \<longleftrightarrow>
     sh_total_size (ar_hdr a) = sh_total_size hdr \<and>
     unat (sh_bump hdr) \<le> unat (sh_bump (ar_hdr a)) \<and>
     (ar_blocks a \<noteq> [] \<longrightarrow> unat (sh_bump (ar_hdr a)) \<le> unat (sh_total_size hdr)) \<and>
     (\<forall>(off, sz, align) \<in> set (ar_blocks a). unat (sh_bump hdr) \<le> unat off \<and>
        unat off + unat sz \<le> unat (sh_bump (ar_hdr a)) \<and> 0 < unat sz \<and>
        is_pow2 align \<and> unat align dvd unat (hd_hdr s + off)) \<and>
     sorted_wrt (\<lambda>b c. block_bytes b \<inter> block_bytes c = {}) (ar_blocks a) \<and>
     (\<forall>t cur sz align. ar_pc a t = Al_trying cur sz align \<longrightarrow> sz \<noteq> 0 \<and> is_pow2 align)"

lemma arena_inv_block:
  assumes "arena_inv s hdr a" and "(off, sz, align) \<in> set (ar_blocks a)"
  shows "unat (sh_bump hdr) \<le> unat off" and "unat off + unat sz \<le> unat (sh_bump (ar_hdr a))"
    and "unat (sh_bump (ar_hdr a)) \<le> unat (sh_total_size hdr)"
    and "0 < unat sz" and "is_pow2 align" and "unat align dvd unat (hd_hdr s + off)"
  using assms by (auto simp: arena_inv_def)

lemma arena_invI:
  assumes "sh_total_size (ar_hdr a) = sh_total_size hdr"
    and "unat (sh_bump hdr) \<le> unat (sh_bump (ar_hdr a))"
    and "unat (sh_bump (ar_hdr a)) \<le> unat (sh_total_size hdr)"
    and "\<And>off sz align. (off, sz, align) \<in> set (ar_blocks a) \<Longrightarrow> unat (sh_bump hdr) \<le> unat off \<and>
        unat off + unat sz \<le> unat (sh_bump (ar_hdr a)) \<and> 0 < unat sz \<and>
        is_pow2 align \<and> unat align dvd unat (hd_hdr s + off)"
    and "sorted_wrt (\<lambda>b c. block_bytes b \<inter> block_bytes c = {}) (ar_blocks a)"
    and "\<forall>t cur sz align. ar_pc a t = Al_trying cur sz align \<longrightarrow> sz \<noteq> 0 \<and> is_pow2 align"
  shows "arena_inv s hdr a"
  unfolding arena_inv_def using assms by blast

lemma arena_step_inv:
  assumes "arena_step s a a'" and i: "arena_inv s hdr a"
  shows "arena_inv s hdr a'"
  using assms(1)
proof cases
  case (alloc_load t sz align)
  with i show ?thesis by (auto simp: arena_inv_def alloc_args_ok_def)
next
  case (alloc_full t cur sz align)
  with i show ?thesis by (auto simp: arena_inv_def)
next
  case (alloc_cas_fail t cur sz align aligned nxt)
  with i show ?thesis by (auto simp: arena_inv_def)
next
  case (alloc_cas_ok t cur sz align aligned nxt)
  have ar: "sz \<noteq> 0" "is_pow2 align" using i alloc_cas_ok(2) by (auto simp: arena_inv_def)
  note p = alloc_place_sound [OF alloc_cas_ok(3) ar(2)]
  have tot: "sh_total_size (ar_hdr a) = sh_total_size hdr" using i by (simp add: arena_inv_def)
  have old: "(off, sz', al') \<in> set (ar_blocks a) \<Longrightarrow> unat off + unat sz' \<le> unat cur" for off sz' al'
    using arena_inv_block(2) [OF i] alloc_cas_ok(4) by auto
  have dis: "block_bytes (aligned, sz, align) \<inter> block_bytes b = {}" if "b \<in> set (ar_blocks a)" for b
  proof -
    obtain off z al where b: "b = (off, z, al)" by (cases b)
    with that old [of off z al] p(1) show ?thesis by (auto simp: block_bytes_def)
  qed
  have bump: "unat (sh_bump hdr) \<le> unat cur" using i alloc_cas_ok(4) by (auto simp: arena_inv_def)
  have sz0: "0 < unat sz" using ar(1) by (simp add: unat_gt_0)
  have blk: "unat (sh_bump hdr) \<le> unat off \<and> unat off + unat z \<le> unat nxt \<and> 0 < unat z \<and>
      is_pow2 al \<and> unat al dvd unat (hd_hdr s + off)"
    if "(off, z, al) \<in> set ((aligned, sz, align) # ar_blocks a)" for off z al
  proof (cases "(off, z, al) = (aligned, sz, align)")
    case True
    with p bump sz0 ar(2) show ?thesis by simp
  next
    case False
    with that have b: "(off, z, al) \<in> set (ar_blocks a)" by auto
    with arena_inv_block [OF i b] old [OF b] p(1,2) show ?thesis by simp
  qed
  have pcs: "\<forall>u c z al. ((ar_pc a)(t := Al_idle)) u = Al_trying c z al \<longrightarrow> z \<noteq> 0 \<and> is_pow2 al"
    using i by (auto simp: arena_inv_def)
  have srt: "sorted_wrt (\<lambda>b c. block_bytes b \<inter> block_bytes c = {}) ((aligned, sz, align) # ar_blocks a)"
    using i dis by (simp add: arena_inv_def)
  show ?thesis
    unfolding alloc_cas_ok(1)
    by (rule arena_invI) (use blk srt pcs p(1,2,3) tot bump in \<open>simp_all del: set_simps\<close>)
qed

lemma arena_reachable_inv: "arena_reachable s hdr a \<Longrightarrow> arena_inv s hdr a"
proof (induction rule: arena_reachable.induct)
  case arena_start
  then show ?case by (simp add: arena_inv_def)
next
  case (arena_next a a')
  then show ?case using arena_step_inv by blast
qed

section \<open>Properties\<close>

text \<open>
  Claim C35. Blocks never overlap: in every interleaving of concurrent allocations, with failing
  and spuriously failing compare-and-swaps, all blocks handed out are pairwise disjoint, start at
  or after the initial bump (so never inside the header), end inside the arena, and have
  addresses aligned as requested.
\<close>

theorem shm_alloc_disjoint:
  assumes "arena_reachable s hdr a"
  shows "sorted_wrt (\<lambda>b c. block_bytes b \<inter> block_bytes c = {}) (ar_blocks a) \<and>
    (\<forall>(off, sz, align) \<in> set (ar_blocks a). unat (sh_bump hdr) \<le> unat off \<and>
       unat off + unat sz \<le> unat (sh_total_size hdr) \<and> unat align dvd unat (hd_hdr s + off))"
proof -
  have i: "arena_inv s hdr a" using assms by (rule arena_reachable_inv)
  then have "sorted_wrt (\<lambda>b c. block_bytes b \<inter> block_bytes c = {}) (ar_blocks a)"
    by (simp add: arena_inv_def)
  moreover have "unat (sh_bump hdr) \<le> unat off \<and> unat off + unat sz \<le> unat (sh_total_size hdr) \<and>
      unat align dvd unat (hd_hdr s + off)" if "(off, sz, align) \<in> set (ar_blocks a)" for off sz align
    using arena_inv_block [OF i that] by linarith
  ultimately show ?thesis by auto
qed

definition demo_shm :: dlsm_shm where
  "demo_shm = \<lparr>hd_hdr = 0x200000000000, hd_mapped_size = 4096, hd_fd = 3, hd_readonly = False\<rparr>"

definition demo_hdr :: shm_header where
  "demo_hdr = \<lparr>sh_magic = 0x4D4853204D534C44, sh_version = 2, sh_base_addr = 0x200000000000,
     sh_total_size = 4096, sh_bump = 50, sh_owner_pid = 17\<rparr>"

lemma demo_pow2: "is_pow2 16"
  by (simp add: is_pow2_def)

lemma demo_place: "alloc_place 0x200000000000 4096 50 100 16 = Some (64, 164)"
  by (simp add: alloc_place_def Let_def)

theorem shm_alloc_disjoint_witness:
  "\<exists>a. arena_reachable demo_shm demo_hdr a \<and> ar_blocks a = [(64, 100, 16)] \<and>
     unat (64 :: u64) + unat (100 :: u64) \<le> unat (sh_total_size demo_hdr)"
proof -
  let ?a0 = "\<lparr>ar_hdr = demo_hdr, ar_pc = (\<lambda>_. Al_idle), ar_blocks = []\<rparr>"
  let ?a1 = "?a0\<lparr>ar_pc := (ar_pc ?a0)(1 := Al_trying (sh_bump (ar_hdr ?a0)) 100 16)\<rparr>"
  let ?a2 = "\<lparr>ar_hdr = (ar_hdr ?a1)\<lparr>sh_bump := 164\<rparr>, ar_pc = (ar_pc ?a1)(1 := Al_idle),
       ar_blocks = (64, 100, 16) # ar_blocks ?a1\<rparr>"
  have "arena_step demo_shm ?a0 ?a1"
    by (rule alloc_load) (simp_all add: alloc_args_ok_def demo_shm_def demo_pow2)
  with arena_start have r: "arena_reachable demo_shm demo_hdr ?a1" by (rule arena_next)
  have "arena_step demo_shm ?a1 ?a2"
    by (rule alloc_cas_ok [where cur = 50]) (simp_all add: demo_hdr_def demo_shm_def demo_place)
  with r have "arena_reachable demo_shm demo_hdr ?a2" by (rule arena_next)
  with shm_alloc_disjoint [OF this] show ?thesis by auto
qed

text \<open>
  One allocation is exact: with valid arguments the call succeeds whenever the block fits
  for every possible padding, and then returns the least aligned address at or after the current
  bump, inside the arena, advancing the bump to the end of the block; it fails only where there
  may be no room, and then changes nothing. No 64-bit sum wraps around.
\<close>

theorem shm_alloc_exact:
  assumes "alloc_args_ok (Some s) sz align"
    and "unat (hd_hdr s) + unat (sh_total_size hdr) + unat align \<le> 2 ^ 64"
  shows "case dlsm_shm_alloc (Some s) sz align hdr of
      (None, hdr') \<Rightarrow> hdr' = hdr \<and> unat (sh_total_size hdr) < unat (sh_bump hdr) + (unat align - 1) + unat sz
    | (Some ptr, hdr') \<Rightarrow>
        unat align dvd unat ptr \<and> unat (hd_hdr s) + unat (sh_bump hdr) \<le> unat ptr \<and>
        unat ptr < unat (hd_hdr s) + unat (sh_bump hdr) + unat align \<and>
        unat (sh_bump hdr') = unat ptr - unat (hd_hdr s) + unat sz \<and>
        unat (sh_bump hdr') \<le> unat (sh_total_size hdr) \<and> hdr' = hdr\<lparr>sh_bump := sh_bump hdr'\<rparr>"
proof -
  have pw: "is_pow2 align" using assms(1) by (simp add: alloc_args_ok_def)
  show ?thesis
  proof (cases "alloc_place (hd_hdr s) (sh_total_size hdr) (sh_bump hdr) sz align")
    case None
    with assms alloc_place_complete [OF None pw assms(2)] show ?thesis
      by (simp add: dlsm_shm_alloc_def)
  next
    case (Some an)
    then obtain aligned nxt where an:
      "alloc_place (hd_hdr s) (sh_total_size hdr) (sh_bump hdr) sz align = Some (aligned, nxt)"
      by (cases an) auto
    note p = alloc_place_sound [OF an pw]
    have "unat (hd_hdr s + aligned) = unat (hd_hdr s) + unat aligned"
      using unat_add_no_overflow [OF p(4)] .
    with p an assms(1) show ?thesis by (simp add: dlsm_shm_alloc_def)
  qed
qed

theorem shm_alloc_exact_witness:
  "alloc_args_ok (Some demo_shm) 100 16 \<and>
   (case dlsm_shm_alloc (Some demo_shm) 100 16 demo_hdr of (None, _) \<Rightarrow> False
    | (Some ptr, hdr') \<Rightarrow> unat (16 :: u64) dvd unat ptr \<and> unat (sh_bump hdr') \<le> 4096)"
proof -
  have a: "alloc_args_ok (Some demo_shm) 100 16" by (simp add: alloc_args_ok_def demo_shm_def demo_pow2)
  have t: "unat (hd_hdr demo_shm) + unat (sh_total_size demo_hdr) + unat (16 :: u64) \<le> 2 ^ 64"
    by (simp add: demo_shm_def demo_hdr_def)
  from shm_alloc_exact [OF a t] a show ?thesis by (auto simp: demo_hdr_def split: prod.splits option.splits)
qed

text \<open>
  Stable references: every address inside the segment converts to an offset, the offset
  converts back to the same address, for any size that fits behind it, and addresses outside
  the segment have no offset.
\<close>

theorem shm_offset_roundtrip:
  assumes "0 < unat (hd_hdr s)" and "unat (hd_hdr s) + unat (sh_total_size hdr) < 2 ^ 64"
  shows "case dlsm_shm_offset_of (Some s) hdr ptr True of
      None \<Rightarrow> \<not> (unat (hd_hdr s) \<le> unat ptr \<and> unat ptr < unat (hd_hdr s) + unat (sh_total_size hdr))
    | Some off \<Rightarrow> unat (hd_hdr s) \<le> unat ptr \<and> unat ptr = unat (hd_hdr s) + unat off \<and>
        unat off < unat (sh_total_size hdr) \<and>
        (\<forall>sz. dlsm_shm_pointer (Some s) hdr off sz =
           (if unat off + unat sz \<le> unat (sh_total_size hdr) then Some ptr else None))"
proof (cases "hd_hdr s \<le> ptr")
  case True
  then have d: "unat (ptr - hd_hdr s) = unat ptr - unat (hd_hdr s)" "unat (hd_hdr s) \<le> unat ptr"
    by (simp_all add: unat_sub word_le_nat_alt)
  have p: "ptr \<noteq> 0" using assms(1) d(2) by auto
  have c: "\<not> dlsm_shm_capacity hdr < off \<Longrightarrow> dlsm_shm_capacity hdr - off < z \<longleftrightarrow>
      unat (sh_total_size hdr) < unat off + unat z" for off z
    using u64_add_overflow_less [of z]
    by (auto simp: dlsm_shm_capacity_def word_less_nat_alt unat_sub not_less word_le_nat_alt)
  show ?thesis
    using d p c [of "ptr - hd_hdr s"] True
    by (auto simp: dlsm_shm_offset_of_def dlsm_shm_pointer_def dlsm_shm_capacity_def word_less_nat_alt
        word_le_nat_alt not_less not_le)
next
  case False
  then show ?thesis by (simp add: dlsm_shm_offset_of_def word_le_nat_alt word_less_nat_alt not_le)
qed

theorem shm_offset_roundtrip_witness:
  "0 < unat (hd_hdr demo_shm) \<and> dlsm_shm_offset_of (Some demo_shm) demo_hdr 0x200000000040 True = Some 64 \<and>
   dlsm_shm_pointer (Some demo_shm) demo_hdr 64 100 = Some 0x200000000040"
proof -
  have o: "dlsm_shm_offset_of (Some demo_shm) demo_hdr 0x200000000040 True = Some 64"
    by (simp add: dlsm_shm_offset_of_def dlsm_shm_capacity_def demo_shm_def demo_hdr_def)
  have a: "0 < unat (hd_hdr demo_shm)" "unat (hd_hdr demo_shm) + unat (sh_total_size demo_hdr) < 2 ^ 64"
    by (simp_all add: demo_shm_def demo_hdr_def)
  from shm_offset_roundtrip [OF a, of "0x200000000040"] o a(1) show ?thesis
    by (simp add: demo_hdr_def)
qed

end
