(* ===== verification/Shm_Segment.thy ===== *)
theory Shm_Segment
  imports Shm_Alloc
begin

text \<open>
  Life cycle of a shared-memory segment (\<^verbatim>\<open>libs/shm/src/shm.c\<close>): creation, recovery of a stale
  segment, read-only attachment, clean-up. The system calls act on a small state of the
  operating system: names of segments, open file descriptions, write locks owned by open file
  descriptions, and mappings. Calls that may fail for outside reasons take that choice from a
  record of faults, so that every error branch of the source is covered.
\<close>

section \<open>The operating system\<close>

record shm_segment =
  sg_size :: u64
  sg_hdr :: shm_header
  sg_data :: "nat \<Rightarrow> u8"

text \<open>A descriptor stands for an open file description; a lock belongs to one.\<close>

record shm_os =
  os_names :: "string \<rightharpoonup> nat"
  os_segs :: "nat \<Rightarrow> shm_segment"
  os_next_seg :: nat
  os_open :: "nat \<rightharpoonup> nat"
  os_next_fd :: nat
  os_locks :: "nat \<rightharpoonup> nat"
  os_maps :: "nat set"

record faults =
  fl_open :: bool
  fl_reopen :: bool
  fl_lock :: bool
  fl_fstat :: bool
  fl_header_map :: bool
  fl_base_map :: bool
  fl_truncate :: bool
  fl_calloc :: bool
  fl_unlink :: bool

datatype errno = E_exist | E_noent | E_other

definition zero_header :: shm_header where
  "zero_header = \<lparr>sh_magic = 0, sh_version = 0, sh_base_addr = 0, sh_total_size = 0, sh_bump = 0,
     sh_owner_pid = 0\<rparr>"

definition empty_segment :: shm_segment where
  "empty_segment = \<lparr>sg_size = 0, sg_hdr = zero_header, sg_data = (\<lambda>_. 0)\<rparr>"

definition add_fd :: "nat \<Rightarrow> shm_os \<Rightarrow> nat \<times> shm_os" where
  "add_fd g os = (os_next_fd os,
     os\<lparr>os_open := (os_open os)(os_next_fd os \<mapsto> g), os_next_fd := os_next_fd os + 1\<rparr>)"

definition shm_open_excl :: "string \<Rightarrow> faults \<Rightarrow> shm_os \<Rightarrow> (errno + nat) \<times> shm_os" where
  "shm_open_excl name fl os =
     (if os_names os name \<noteq> None then (Inl E_exist, os)
      else if fl_open fl then (Inl E_other, os)
      else let g = os_next_seg os in
        case add_fd g (os\<lparr>os_names := (os_names os)(name \<mapsto> g), os_segs := (os_segs os)(g := empty_segment),
          os_next_seg := g + 1\<rparr>) of (fd, os') \<Rightarrow> (Inr fd, os'))"

definition shm_open_existing :: "string \<Rightarrow> faults \<Rightarrow> shm_os \<Rightarrow> (errno + nat) \<times> shm_os" where
  "shm_open_existing name fl os =
     (case os_names os name of
        None \<Rightarrow> (Inl E_noent, os)
      | Some g \<Rightarrow> if fl_reopen fl then (Inl E_other, os)
          else (case add_fd g os of (fd, os') \<Rightarrow> (Inr fd, os')))"

text \<open>Closing releases the lock that the open file description holds.\<close>

definition os_close :: "nat \<Rightarrow> shm_os \<Rightarrow> shm_os" where
  "os_close fd os = os\<lparr>os_open := (os_open os)(fd := None),
     os_locks := (\<lambda>g. if os_locks os g = Some fd then None else os_locks os g)\<rparr>"

definition shm_unlink :: "string \<Rightarrow> shm_os \<Rightarrow> shm_os" where
  "shm_unlink name os = os\<lparr>os_names := (os_names os)(name := None)\<rparr>"

abbreviation seg_of :: "shm_os \<Rightarrow> nat \<Rightarrow> nat" where
  "seg_of os fd \<equiv> the (os_open os fd)"

definition upd_seg :: "nat \<Rightarrow> (shm_segment \<Rightarrow> shm_segment) \<Rightarrow> shm_os \<Rightarrow> shm_os" where
  "upd_seg fd f os = os\<lparr>os_segs := (os_segs os)(seg_of os fd := f (os_segs os (seg_of os fd)))\<rparr>"

section \<open>Operations\<close>

abbreviation DLSM_SHM_E_OPEN :: dlsm_status where "DLSM_SHM_E_OPEN \<equiv> 10001"
abbreviation DLSM_SHM_E_FTRUNCATE :: dlsm_status where "DLSM_SHM_E_FTRUNCATE \<equiv> 10002"
abbreviation DLSM_SHM_E_BASE_OCCUPIED :: dlsm_status where "DLSM_SHM_E_BASE_OCCUPIED \<equiv> 10003"
abbreviation DLSM_SHM_E_IN_USE :: dlsm_status where "DLSM_SHM_E_IN_USE \<equiv> 10004"
abbreviation DLSM_SHM_E_BAD_MAGIC :: dlsm_status where "DLSM_SHM_E_BAD_MAGIC \<equiv> 10005"
abbreviation DLSM_SHM_E_BAD_VERSION :: dlsm_status where "DLSM_SHM_E_BAD_VERSION \<equiv> 10006"
abbreviation DLSM_SHM_E_INVAL :: dlsm_status where "DLSM_SHM_E_INVAL \<equiv> 10008"
abbreviation DLSM_SHM_E_NOMEM :: dlsm_status where "DLSM_SHM_E_NOMEM \<equiv> 10009"

abbreviation DLSM_SHM_BASE_ADDR :: u64 where "DLSM_SHM_BASE_ADDR \<equiv> 0x200000000000"
abbreviation DLSM_SHM_MAGIC :: u64 where "DLSM_SHM_MAGIC \<equiv> 0x4D4853204D534C44"
abbreviation DLSM_SHM_VERSION :: u32 where "DLSM_SHM_VERSION \<equiv> 2"

text \<open>The final header; the magic number is cleared first and stored last.\<close>

definition init_header :: "u64 \<Rightarrow> u64 \<Rightarrow> int \<Rightarrow> shm_header" where
  "init_header h sz pid = \<lparr>sh_magic = DLSM_SHM_MAGIC, sh_version = DLSM_SHM_VERSION, sh_base_addr = h,
     sh_total_size = sz, sh_bump = align_up sizeof_ShmHeader 16, sh_owner_pid = pid\<rparr>"

text \<open>The mapping at the fixed base, or \<open>None\<close> for \<open>MAP_FAILED\<close>, when another mapping is in the way.\<close>

definition map_rw_at_base :: "nat \<Rightarrow> faults \<Rightarrow> shm_os \<Rightarrow> (u64 \<times> shm_os) option" where
  "map_rw_at_base fd fl os =
     (if fl_base_map fl then None
      else Some (DLSM_SHM_BASE_ADDR, os\<lparr>os_maps := insert fd (os_maps os)\<rparr>))"

definition munmap :: "nat \<Rightarrow> shm_os \<Rightarrow> shm_os" where
  "munmap fd os = os\<lparr>os_maps := os_maps os - {fd}\<rparr>"

text \<open>1 for a lock taken, 0 for a conflicting lock, -1 for any other error.\<close>

definition writer_lock :: "nat \<Rightarrow> faults \<Rightarrow> shm_os \<Rightarrow> int \<times> shm_os" where
  "writer_lock fd fl os =
     (if fl_lock fl then (- 1, os)
      else case os_locks os (seg_of os fd) of
          Some fd' \<Rightarrow> if fd' = fd then (1, os) else (0, os)
        | None \<Rightarrow> (1, os\<lparr>os_locks := (os_locks os)(seg_of os fd \<mapsto> fd)\<rparr>))"

definition read_header :: "nat \<Rightarrow> faults \<Rightarrow> shm_os \<Rightarrow> dlsm_status + (int \<times> u64 \<times> u64)" where
  "read_header fd fl os =
     (let sg = os_segs os (seg_of os fd); h = sg_hdr sg in
      if fl_fstat fl then Inl DLSM_SHM_E_OPEN
      else if sg_size sg < sizeof_ShmHeader then Inl DLSM_SHM_E_BAD_MAGIC
      else if fl_header_map fl then Inl DLSM_SHM_E_OPEN
      else if sh_magic h \<noteq> DLSM_SHM_MAGIC then Inl DLSM_SHM_E_BAD_MAGIC
      else if sh_version h \<noteq> DLSM_SHM_VERSION then Inl DLSM_SHM_E_BAD_VERSION
      else if sh_total_size h \<noteq> sg_size sg \<or> sh_total_size h < sizeof_ShmHeader + 16 \<or>
              sh_base_addr h \<noteq> DLSM_SHM_BASE_ADDR \<or> sh_owner_pid h \<le> 0 \<or>
              sh_base_addr h > UINT64_MAX - sh_total_size h
      then Inl DLSM_SHM_E_INVAL
      else Inr (sh_owner_pid h, sh_total_size h, sh_base_addr h))"

text \<open>The branch of \<open>create_or_recover\<close> for a name that exists.\<close>

definition shm_recover ::
  "string \<Rightarrow> u64 \<Rightarrow> int \<Rightarrow> faults \<Rightarrow> shm_os \<Rightarrow> dlsm_status \<times> dlsm_shm option \<times> shm_os" where
  "shm_recover name sz pid fl os =
     (case shm_open_existing name fl os of
        (Inl _, os1) \<Rightarrow> (DLSM_SHM_E_OPEN, None, os1)
      | (Inr rfd, os1) \<Rightarrow>
          (case writer_lock rfd fl os1 of (locked, os2) \<Rightarrow>
             if locked = 0 then (DLSM_SHM_E_IN_USE, None, os_close rfd os2)
             else if locked < 0 then (DLSM_SHM_E_OPEN, None, os_close rfd os2)
             else (case read_header rfd fl os2 of
                 Inl bad \<Rightarrow> (bad, None, os_close rfd os2)
               | Inr (own, hsize, _) \<Rightarrow>
                   if hsize \<noteq> sz then (DLSM_SHM_E_INVAL, None, os_close rfd os2)
                   else (case map_rw_at_base rfd fl os2 of
                       None \<Rightarrow> (DLSM_SHM_E_BASE_OCCUPIED, None, os_close rfd os2)
                     | Some (rp, os3) \<Rightarrow>
                         let os4 = upd_seg rfd (\<lambda>sg. sg\<lparr>sg_data := (\<lambda>_. 0), sg_hdr := init_header rp hsize pid\<rparr>) os3 in
                         if fl_calloc fl then (DLSM_SHM_E_NOMEM, None, os_close rfd (munmap rfd os4))
                         else (DLSM_OK, Some \<lparr>hd_hdr = rp, hd_mapped_size = hsize, hd_fd = rfd,
                                             hd_readonly = False\<rparr>, os4)))))"

text \<open>\<open>ftruncate\<close> takes a signed length, so a size of \<open>2 ^ 63\<close> or more is refused.\<close>

definition dlsm_shm_create_or_recover ::
  "string option \<Rightarrow> u64 \<Rightarrow> bool \<Rightarrow> int \<Rightarrow> faults \<Rightarrow> shm_os \<Rightarrow> dlsm_status \<times> dlsm_shm option \<times> shm_os" where
  "dlsm_shm_create_or_recover nm sz out pid fl os = (case nm of
     None \<Rightarrow> (DLSM_SHM_E_INVAL, None, os)
   | Some name \<Rightarrow>
       if \<not> out \<or> sz < sizeof_ShmHeader + 16 then (DLSM_SHM_E_INVAL, None, os)
       else (case shm_open_excl name fl os of
         (Inl e, os1) \<Rightarrow> if e = E_exist then shm_recover name sz pid fl os1 else (DLSM_SHM_E_OPEN, None, os1)
       | (Inr fd, os1) \<Rightarrow>
           (case writer_lock fd fl os1 of (locked, os2) \<Rightarrow>
              if locked \<noteq> 1 then (DLSM_SHM_E_OPEN, None, shm_unlink name (os_close fd os2))
              else if fl_truncate fl \<or> 2 ^ 63 \<le> sz
              then (DLSM_SHM_E_FTRUNCATE, None, shm_unlink name (os_close fd os2))
              else let os3 = upd_seg fd (\<lambda>sg. sg\<lparr>sg_size := sz\<rparr>) os2 in
                (case map_rw_at_base fd fl os3 of
                   None \<Rightarrow> (DLSM_SHM_E_BASE_OCCUPIED, None, shm_unlink name (os_close fd os3))
                 | Some (p, os4) \<Rightarrow>
                     let os5 = upd_seg fd (\<lambda>sg. sg\<lparr>sg_hdr := init_header p sz pid\<rparr>) os4 in
                     if fl_calloc fl
                     then (DLSM_SHM_E_NOMEM, None, shm_unlink name (os_close fd (munmap fd os5)))
                     else (DLSM_OK, Some \<lparr>hd_hdr = p, hd_mapped_size = sz, hd_fd = fd,
                                         hd_readonly = False\<rparr>, os5)))))"

definition dlsm_shm_attach_readonly ::
  "string option \<Rightarrow> bool \<Rightarrow> faults \<Rightarrow> shm_os \<Rightarrow> dlsm_status \<times> dlsm_shm option \<times> shm_os" where
  "dlsm_shm_attach_readonly nm out fl os = (case nm of
     None \<Rightarrow> (DLSM_SHM_E_INVAL, None, os)
   | Some name \<Rightarrow>
       if \<not> out then (DLSM_SHM_E_INVAL, None, os)
       else (case shm_open_existing name fl os of
         (Inl _, os1) \<Rightarrow> (DLSM_SHM_E_OPEN, None, os1)
       | (Inr fd, os1) \<Rightarrow>
           (case read_header fd fl os1 of
              Inl bad \<Rightarrow> (bad, None, os_close fd os1)
            | Inr (own, hsize, hbase) \<Rightarrow>
                if fl_base_map fl then (DLSM_SHM_E_BASE_OCCUPIED, None, os_close fd os1)
                else let os2 = os1\<lparr>os_maps := insert fd (os_maps os1)\<rparr> in
                  if fl_calloc fl then (DLSM_SHM_E_NOMEM, None, os_close fd (munmap fd os2))
                  else (DLSM_OK, Some \<lparr>hd_hdr = hbase, hd_mapped_size = hsize, hd_fd = fd,
                                      hd_readonly = True\<rparr>, os2))))"

definition dlsm_shm_detach :: "dlsm_shm option \<Rightarrow> shm_os \<Rightarrow> shm_os" where
  "dlsm_shm_detach s os = (case s of None \<Rightarrow> os | Some h \<Rightarrow> os_close (hd_fd h) (munmap (hd_fd h) os))"

definition dlsm_shm_cleanup_if_stale ::
  "string option \<Rightarrow> faults \<Rightarrow> shm_os \<Rightarrow> dlsm_status \<times> bool \<times> shm_os" where
  "dlsm_shm_cleanup_if_stale nm fl os = (case nm of
     None \<Rightarrow> (DLSM_SHM_E_INVAL, False, os)
   | Some name \<Rightarrow>
       (case shm_open_existing name fl os of
          (Inl e, os1) \<Rightarrow> (if e = E_noent then DLSM_OK else DLSM_SHM_E_OPEN, False, os1)
        | (Inr fd, os1) \<Rightarrow>
            (case writer_lock fd fl os1 of (locked, os2) \<Rightarrow>
               if locked = 0 then (DLSM_OK, False, os_close fd os2)
               else if locked < 0 then (DLSM_SHM_E_OPEN, False, os_close fd os2)
               else if fl_unlink fl then (DLSM_SHM_E_OPEN, False, os_close fd os2)
               else (DLSM_OK, True, os_close fd (shm_unlink name os2)))))"

section \<open>Well-formed states of the operating system\<close>

text \<open>Descriptors and segments not yet given out are unused; a lock is held by an open description.\<close>

definition os_wf :: "shm_os \<Rightarrow> bool" where
  "os_wf os \<longleftrightarrow>
     (\<forall>fd \<ge> os_next_fd os. os_open os fd = None \<and> fd \<notin> os_maps os \<and> (\<forall>g. os_locks os g \<noteq> Some fd)) \<and>
     (\<forall>g \<ge> os_next_seg os. os_locks os g = None) \<and>
     (\<forall>name g. os_names os name = Some g \<longrightarrow> g < os_next_seg os) \<and>
     (\<forall>g fd. os_locks os g = Some fd \<longrightarrow> os_open os fd = Some g)"

lemma os_wf_next_fd:
  assumes "os_wf os"
  shows "os_open os (os_next_fd os) = None" and "os_next_fd os \<notin> os_maps os"
    and "os_locks os g \<noteq> Some (os_next_fd os)"
  using assms by (auto simp: os_wf_def)

lemma os_wf_next_seg: "os_wf os \<Longrightarrow> os_locks os (os_next_seg os) = None"
  by (simp add: os_wf_def)

lemma os_close_open:
  assumes "os_open os2 = (os_open os)(fd \<mapsto> g)" and "os_open os fd = None"
  shows "os_open (os_close fd os2) = os_open os"
  using assms by (auto simp: os_close_def)

lemma os_close_locks:
  assumes "os_locks os2 = os_locks os \<or> os_locks os2 = (os_locks os)(g \<mapsto> fd) \<and> os_locks os g = None"
    and "\<And>g. os_locks os g \<noteq> Some fd"
  shows "os_locks (os_close fd os2) = os_locks os"
proof (rule ext)
  show "os_locks (os_close fd os2) x = os_locks os x" for x
    using assms(1) assms(2) [of x] by (cases "x = g") (auto simp: os_close_def)
qed

lemma os_close_other [simp]:
  "os_names (os_close fd os) = os_names os" "os_segs (os_close fd os) = os_segs os"
  "os_maps (os_close fd os) = os_maps os"
  by (simp_all add: os_close_def)

lemma upd_seg_other [simp]:
  "os_names (upd_seg fd f os) = os_names os" "os_open (upd_seg fd f os) = os_open os"
  "os_locks (upd_seg fd f os) = os_locks os" "os_maps (upd_seg fd f os) = os_maps os"
  by (simp_all add: upd_seg_def)

lemma munmap_other [simp]:
  "os_names (munmap fd os) = os_names os" "os_open (munmap fd os) = os_open os"
  "os_locks (munmap fd os) = os_locks os" "os_segs (munmap fd os) = os_segs os"
  "os_maps (munmap fd os) = os_maps os - {fd}"
  by (simp_all add: munmap_def)

lemma shm_unlink_other [simp]:
  "os_open (shm_unlink name os) = os_open os" "os_locks (shm_unlink name os) = os_locks os"
  "os_maps (shm_unlink name os) = os_maps os" "os_segs (shm_unlink name os) = os_segs os"
  "os_names (shm_unlink name os) = (os_names os)(name := None)"
  by (simp_all add: shm_unlink_def)

text \<open>The resources of a process and the names that the system knows.\<close>

definition same_resources :: "shm_os \<Rightarrow> shm_os \<Rightarrow> bool" where
  "same_resources os os' \<longleftrightarrow> os_open os' = os_open os \<and> os_maps os' = os_maps os \<and>
     os_locks os' = os_locks os \<and> os_names os' = os_names os"

lemma same_resources_refl [simp]: "same_resources os os"
  by (simp add: same_resources_def)

text \<open>A state in which the new descriptor \<open>fd\<close> of segment \<open>g\<close> is the only thing added.\<close>

definition opened_from :: "shm_os \<Rightarrow> nat \<Rightarrow> nat \<Rightarrow> shm_os \<Rightarrow> bool" where
  "opened_from os fd g os2 \<longleftrightarrow> os_open os fd = None \<and> fd \<notin> os_maps os \<and> (\<forall>g. os_locks os g \<noteq> Some fd) \<and>
     os_open os2 = (os_open os)(fd \<mapsto> g) \<and> os_maps os2 = os_maps os \<and>
     (os_locks os2 = os_locks os \<or> os_locks os2 = (os_locks os)(g \<mapsto> fd) \<and> os_locks os g = None)"

lemma opened_from_close:
  assumes "opened_from os fd g os2" and "os_names os2 = os_names os"
  shows "same_resources os (os_close fd os2)"
  using assms os_close_open [of os2 os fd g] os_close_locks [of os2 os g fd]
  by (simp add: same_resources_def opened_from_def)

lemma opened_from_close_unlink:
  assumes "opened_from os fd g os2" and "os_names os2 = (os_names os)(name \<mapsto> g)" and "os_names os name = None"
  shows "same_resources os (shm_unlink name (os_close fd os2))"
  using assms os_close_open [of os2 os fd g] os_close_locks [of os2 os g fd]
  by (auto simp: same_resources_def opened_from_def)

lemma opened_from_cong:
  assumes "opened_from os fd g os2" and "os_open os3 = os_open os2" and "os_maps os3 = os_maps os2"
    and "os_locks os3 = os_locks os2"
  shows "opened_from os fd g os3"
  using assms by (simp add: opened_from_def)

lemma shm_open_existing_opened:
  assumes "os_wf os" and "shm_open_existing name fl os = (Inr fd, os1)"
  shows "\<exists>g. os_names os name = Some g \<and> opened_from os fd g os1 \<and> os_names os1 = os_names os \<and>
    os_segs os1 = os_segs os \<and> os_locks os1 = os_locks os \<and> fd = os_next_fd os"
  using assms os_wf_next_fd [OF assms(1)]
  by (auto simp: shm_open_existing_def add_fd_def opened_from_def split: option.splits if_splits)

lemma shm_open_excl_opened:
  assumes "os_wf os" and "shm_open_excl name fl os = (Inr fd, os1)"
  shows "opened_from os fd (os_next_seg os) os1 \<and> os_names os name = None \<and>
    os_names os1 = (os_names os)(name \<mapsto> os_next_seg os) \<and> os_locks os1 = os_locks os \<and> fd = os_next_fd os"
  using assms os_wf_next_fd [OF assms(1)]
  by (auto simp: shm_open_excl_def add_fd_def opened_from_def Let_def split: if_splits)

lemma writer_lock_opened:
  assumes "opened_from os fd g os1" and "os_locks os1 = os_locks os" and "writer_lock fd fl os1 = (r, os2)"
  shows "opened_from os fd g os2 \<and> os_names os2 = os_names os1 \<and> os_segs os2 = os_segs os1 \<and>
    (r = 1 \<longrightarrow> os_locks os2 g = Some fd) \<and> (r = 1 \<longleftrightarrow> \<not> fl_lock fl \<and> os_locks os g = None) \<and>
    (r = 0 \<longleftrightarrow> \<not> fl_lock fl \<and> os_locks os g \<noteq> None) \<and> (r = 1 \<or> r = 0 \<or> r < 0)"
  using assms by (auto simp: writer_lock_def opened_from_def split: if_splits option.splits)

lemma shm_recover_failed:
  assumes wf: "os_wf os" and r: "shm_recover name sz pid fl os = (st, s, os')" and st: "st \<noteq> DLSM_OK"
  shows "s = None \<and> same_resources os os'"
proof (cases "shm_open_existing name fl os")
  case (Pair o1 os1)
  show ?thesis
  proof (cases o1)
    case (Inl e)
    with Pair have "os1 = os"
      by (auto simp: shm_open_existing_def add_fd_def split: option.splits if_splits)
    with Inl Pair r show ?thesis by (auto simp: shm_recover_def)
  next
    case (Inr rfd)
    with Pair shm_open_existing_opened [OF wf, of name fl rfd os1] obtain g where
      g: "opened_from os rfd g os1" "os_names os1 = os_names os" "os_locks os1 = os_locks os" by auto
    obtain l os2 where l: "writer_lock rfd fl os1 = (l, os2)" by (meson surj_pair)
    note w = writer_lock_opened [OF g(1,3) l]
    have o2: "opened_from os rfd g os2" "os_names os2 = os_names os" using w g by auto
    note c2 = opened_from_close [OF o2]
    have nm: "opened_from os rfd g (munmap rfd (upd_seg rfd f (os2\<lparr>os_maps := insert rfd (os_maps os2)\<rparr>)))"
      for f using o2(1) by (auto simp: opened_from_def)
    note c3 = opened_from_close [OF nm, simplified, OF o2(2)]
    from r st Pair Inr l c2 c3 show ?thesis
      by (auto simp: shm_recover_def map_rw_at_base_def Let_def split: if_splits sum.splits option.splits)
  qed
qed

text \<open>What a successful call establishes, for a created and for a recovered segment alike.\<close>

definition segment_owned :: "shm_os \<Rightarrow> string \<Rightarrow> u64 \<Rightarrow> int \<Rightarrow> nat \<Rightarrow> bool" where
  "segment_owned os name sz pid fd \<longleftrightarrow> (\<exists>g. os_names os name = Some g \<and> os_open os fd = Some g \<and>
     os_locks os g = Some fd \<and> fd \<in> os_maps os \<and> fd < os_next_fd os \<and> sg_size (os_segs os g) = sz \<and>
     sg_hdr (os_segs os g) = init_header DLSM_SHM_BASE_ADDR sz pid \<and>
     (\<forall>i. sg_data (os_segs os g) i = 0) \<and> sizeof_ShmHeader + 16 \<le> sz \<and>
     DLSM_SHM_BASE_ADDR \<le> UINT64_MAX - sz)"

lemma base_fits: "sz < 2 ^ 63 \<Longrightarrow> DLSM_SHM_BASE_ADDR \<le> UINT64_MAX - sz"
  by (simp add: word_le_nat_alt word_less_nat_alt)

lemma read_header_bad: "read_header fd fl os = Inl bad \<Longrightarrow> bad \<noteq> DLSM_OK"
  by (auto simp: read_header_def Let_def split: if_splits)

lemma shm_recover_succeeds:
  assumes wf: "os_wf os" and r: "shm_recover name sz pid fl os = (DLSM_OK, s, os')"
  shows "\<exists>fd. s = Some \<lparr>hd_hdr = DLSM_SHM_BASE_ADDR, hd_mapped_size = sz, hd_fd = fd, hd_readonly = False\<rparr> \<and>
    segment_owned os' name sz pid fd"
proof -
  obtain rfd os1 where o1: "shm_open_existing name fl os = (Inr rfd, os1)"
    using r by (auto simp: shm_recover_def split: prod.splits sum.splits)
  from shm_open_existing_opened [OF wf o1] obtain g where g: "os_names os name = Some g"
    "opened_from os rfd g os1" "os_names os1 = os_names os" "os_locks os1 = os_locks os" by auto
  have nx: "os_next_fd os1 = rfd + 1"
    using o1 by (auto simp: shm_open_existing_def add_fd_def split: option.splits if_splits)
  obtain l os2 where l: "writer_lock rfd fl os1 = (l, os2)" by (meson surj_pair)
  note w = writer_lock_opened [OF g(2,4) l]
  have nx2: "os_next_fd os2 = rfd + 1"
    using l nx by (auto simp: writer_lock_def split: if_splits option.splits)
  from r o1 l obtain own base where h: "read_header rfd fl os2 = Inr (own, sz, base)" and l1: "l = 1"
    and nf: "\<not> fl_base_map fl" "\<not> fl_calloc fl"
    using w by (auto simp: shm_recover_def map_rw_at_base_def Let_def
        split: if_splits sum.splits option.splits dest: read_header_bad)
  have og: "os_open os2 rfd = Some g" using w by (simp add: opened_from_def)
  have hd: "sg_size (os_segs os2 g) = sz" "sizeof_ShmHeader + 16 \<le> sz" "DLSM_SHM_BASE_ADDR \<le> UINT64_MAX - sz"
    using h og by (auto simp: read_header_def Let_def not_less split: if_splits)
  from r o1 l l1 h nf have e: "s = Some \<lparr>hd_hdr = DLSM_SHM_BASE_ADDR, hd_mapped_size = sz, hd_fd = rfd, hd_readonly = False\<rparr>"
    "os' = upd_seg rfd (\<lambda>sg. sg\<lparr>sg_data := (\<lambda>_. 0), sg_hdr := init_header DLSM_SHM_BASE_ADDR sz pid\<rparr>)
      (os2\<lparr>os_maps := insert rfd (os_maps os2)\<rparr>)"
    by (auto simp: shm_recover_def map_rw_at_base_def Let_def)
  have "segment_owned os' name sz pid rfd"
    unfolding segment_owned_def e(2) using w g og l1 hd nx2 by (auto simp: upd_seg_def)
  with e(1) show ?thesis by blast
qed

lemma shm_create_succeeds:
  assumes wf: "os_wf os" and r: "dlsm_shm_create_or_recover (Some name) sz out pid fl os = (DLSM_OK, s, os')"
  shows "\<exists>fd. s = Some \<lparr>hd_hdr = DLSM_SHM_BASE_ADDR, hd_mapped_size = sz, hd_fd = fd, hd_readonly = False\<rparr> \<and>
    segment_owned os' name sz pid fd"
proof -
  have ok: "out" "\<not> sz < sizeof_ShmHeader + 16"
    using r by (auto simp: dlsm_shm_create_or_recover_def split: if_splits)
  obtain o1 os1 where o1: "shm_open_excl name fl os = (o1, os1)" by (meson surj_pair)
  show ?thesis
  proof (cases o1)
    case (Inl e)
    with o1 have "os1 = os" by (auto simp: shm_open_excl_def add_fd_def Let_def split: if_splits)
    with r ok o1 Inl shm_recover_succeeds [OF wf] show ?thesis
      by (auto simp: dlsm_shm_create_or_recover_def split: if_splits)
  next
    case (Inr fd)
    let ?g = "os_next_seg os"
    from shm_open_excl_opened [OF wf, of name fl fd os1] o1 Inr have
      g: "opened_from os fd ?g os1" "os_names os1 = (os_names os)(name \<mapsto> ?g)" "os_locks os1 = os_locks os"
      by auto
    have nx: "os_next_fd os1 = fd + 1" "os_segs os1 ?g = empty_segment"
      using o1 Inr by (auto simp: shm_open_excl_def add_fd_def Let_def split: if_splits)
    obtain l os2 where l: "writer_lock fd fl os1 = (l, os2)" by (meson surj_pair)
    note w = writer_lock_opened [OF g(1,3) l]
    have nx2: "os_next_fd os2 = fd + 1" "os_segs os2 ?g = empty_segment"
      using l nx by (auto simp: writer_lock_def split: if_splits option.splits)
    have og: "os_open os2 fd = Some ?g" using w by (simp add: opened_from_def)
    from r ok o1 Inr l have nf: "l = 1" "\<not> fl_truncate fl" "\<not> 2 ^ 63 \<le> sz" "\<not> fl_base_map fl" "\<not> fl_calloc fl"
      by (auto simp: dlsm_shm_create_or_recover_def map_rw_at_base_def Let_def
          split: if_splits option.splits)
    have sz: "sz < 2 ^ 63" using nf(3) by simp
    let ?os3 = "upd_seg fd (\<lambda>sg. sg\<lparr>sg_size := sz\<rparr>) os2"
    from r ok o1 Inr l nf
    have e: "s = Some \<lparr>hd_hdr = DLSM_SHM_BASE_ADDR, hd_mapped_size = sz, hd_fd = fd, hd_readonly = False\<rparr>"
      "os' = upd_seg fd (\<lambda>sg. sg\<lparr>sg_hdr := init_header DLSM_SHM_BASE_ADDR sz pid\<rparr>)
        (?os3\<lparr>os_maps := insert fd (os_maps ?os3)\<rparr>)"
      by (simp_all add: dlsm_shm_create_or_recover_def map_rw_at_base_def Let_def)
    have "segment_owned os' name sz pid fd"
      unfolding segment_owned_def e(2) using w g og nf(1) ok(2) nx2 base_fits [OF sz]
      by (auto simp: upd_seg_def empty_segment_def not_less)
    with e(1) show ?thesis by blast
  qed
qed

section \<open>Properties\<close>

text \<open>
  Errors leak nothing: whatever system call or allocation fails, an unsuccessful
  \<open>create_or_recover\<close> returns no handle and leaves the open descriptors, the mappings, the write
  locks and the names of segments exactly as they were; in particular a half-created segment is
  unlinked again and a foreign lock is never released.
\<close>

theorem shm_create_failure_leaks_nothing:
  assumes wf: "os_wf os" and r: "dlsm_shm_create_or_recover nm sz out pid fl os = (st, s, os')"
    and st: "st \<noteq> DLSM_OK"
  shows "s = None \<and> same_resources os os'"
proof (cases "nm = None \<or> \<not> out \<or> sz < sizeof_ShmHeader + 16")
  case True
  with r show ?thesis by (auto simp: dlsm_shm_create_or_recover_def split: option.splits)
next
  case False
  then obtain name where nm: "nm = Some name" and ok: "out" "\<not> sz < sizeof_ShmHeader + 16" by auto
  obtain o1 os1 where o1: "shm_open_excl name fl os = (o1, os1)" by (meson surj_pair)
  show ?thesis
  proof (cases o1)
    case (Inl e)
    with o1 have "os1 = os" by (auto simp: shm_open_excl_def add_fd_def Let_def split: if_splits)
    with r nm ok o1 Inl st shm_recover_failed [OF wf] show ?thesis
      by (auto simp: dlsm_shm_create_or_recover_def split: if_splits)
  next
    case (Inr fd)
    with shm_open_excl_opened [OF wf, of name fl fd os1] o1 have
      g: "opened_from os fd (os_next_seg os) os1" "os_names os name = None"
      "os_names os1 = (os_names os)(name \<mapsto> os_next_seg os)" "os_locks os1 = os_locks os" by auto
    obtain l os2 where l: "writer_lock fd fl os1 = (l, os2)" by (meson surj_pair)
    note w = writer_lock_opened [OF g(1,4) l]
    have o2: "opened_from os fd (os_next_seg os) os2"
      "os_names os2 = (os_names os)(name \<mapsto> os_next_seg os)" using w g by auto
    have u: "opened_from os fd (os_next_seg os) (upd_seg fd f os2)" for f
      using opened_from_cong [OF o2(1)] by simp
    have m: "opened_from os fd (os_next_seg os) (munmap fd (upd_seg fd f'
        ((upd_seg fd f os2)\<lparr>os_maps := insert fd (os_maps os2)\<rparr>)))" for f f'
      using o2(1) by (auto simp: opened_from_def)
    note c = opened_from_close_unlink [OF o2 g(2)]
      opened_from_close_unlink [OF u, simplified, OF o2(2) g(2)]
      opened_from_close_unlink [OF m, simplified, OF o2(2) g(2)]
    from r st nm ok o1 Inr l c show ?thesis
      by (auto simp: dlsm_shm_create_or_recover_def map_rw_at_base_def Let_def
          split: if_splits option.splits)
  qed
qed

definition no_faults :: faults where
  "no_faults = \<lparr>fl_open = False, fl_reopen = False, fl_lock = False, fl_fstat = False,
     fl_header_map = False, fl_base_map = False, fl_truncate = False, fl_calloc = False, fl_unlink = False\<rparr>"

definition demo_os :: shm_os where
  "demo_os = \<lparr>os_names = Map.empty, os_segs = (\<lambda>_. empty_segment), os_next_seg = 0, os_open = Map.empty,
     os_next_fd = 3, os_locks = Map.empty, os_maps = {}\<rparr>"

lemma demo_os_wf: "os_wf demo_os"
  by (simp add: os_wf_def demo_os_def)

theorem shm_create_failure_leaks_nothing_witness:
  "\<exists>os'. dlsm_shm_create_or_recover (Some ''seg'') 4096 True 17 (no_faults\<lparr>fl_calloc := True\<rparr>) demo_os =
     (DLSM_SHM_E_NOMEM, None, os') \<and> same_resources demo_os os'"
proof -
  let ?r = "dlsm_shm_create_or_recover (Some ''seg'') 4096 True 17 (no_faults\<lparr>fl_calloc := True\<rparr>) demo_os"
  have e: "fst ?r = DLSM_SHM_E_NOMEM"
    by (simp add: dlsm_shm_create_or_recover_def shm_open_excl_def add_fd_def writer_lock_def
        map_rw_at_base_def no_faults_def demo_os_def Let_def)
  obtain st s os' where r: "?r = (st, s, os')" by (cases ?r) auto
  with e shm_create_failure_leaks_nothing [OF demo_os_wf r] show ?thesis by simp
qed

text \<open>
  A successful \<open>create_or_recover\<close>, on a new name or on a stale segment, owns a fresh
  arena: the name leads to a segment of the requested size whose header is valid with the
  caller's process id and an empty bump, every byte behind the header is zero, the caller holds
  the write lock, and a read-only attachment then succeeds at the same base with the same size.
\<close>

theorem shm_create_then_attach:
  assumes wf: "os_wf os" and pid: "0 < pid"
    and r: "dlsm_shm_create_or_recover (Some name) sz True pid fl os = (DLSM_OK, s, os')"
  shows "\<exists>fd os''. s = Some \<lparr>hd_hdr = DLSM_SHM_BASE_ADDR, hd_mapped_size = sz, hd_fd = fd, hd_readonly = False\<rparr> \<and>
    segment_owned os' name sz pid fd \<and>
    dlsm_shm_attach_readonly (Some name) True no_faults os' =
      (DLSM_OK, Some \<lparr>hd_hdr = DLSM_SHM_BASE_ADDR, hd_mapped_size = sz, hd_fd = os_next_fd os', hd_readonly = True\<rparr>, os'')"
proof -
  from shm_create_succeeds [OF wf r] obtain fd where
    fd: "s = Some \<lparr>hd_hdr = DLSM_SHM_BASE_ADDR, hd_mapped_size = sz, hd_fd = fd, hd_readonly = False\<rparr>"
    and own: "segment_owned os' name sz pid fd" by blast
  then obtain g where g: "os_names os' name = Some g" "sg_size (os_segs os' g) = sz"
    "sg_hdr (os_segs os' g) = init_header DLSM_SHM_BASE_ADDR sz pid" "\<not> sz < sizeof_ShmHeader + 16"
    "\<not> UINT64_MAX - sz < DLSM_SHM_BASE_ADDR"
    by (auto simp: segment_owned_def not_less)
  have "\<not> sz < sizeof_ShmHeader" using g(4) by (simp add: word_less_nat_alt)
  with g pid have "\<exists>os''. dlsm_shm_attach_readonly (Some name) True no_faults os' =
      (DLSM_OK, Some \<lparr>hd_hdr = DLSM_SHM_BASE_ADDR, hd_mapped_size = sz, hd_fd = os_next_fd os', hd_readonly = True\<rparr>, os'')"
    by (simp add: dlsm_shm_attach_readonly_def shm_open_existing_def add_fd_def read_header_def
        no_faults_def init_header_def Let_def)
  with fd own show ?thesis by blast
qed

lemma demo_create:
  "\<exists>s os'. dlsm_shm_create_or_recover (Some ''seg'') 4096 True 17 no_faults demo_os = (DLSM_OK, s, os')"
  by (simp add: dlsm_shm_create_or_recover_def shm_open_excl_def add_fd_def writer_lock_def
      map_rw_at_base_def no_faults_def demo_os_def Let_def)

theorem shm_create_then_attach_witness:
  "\<exists>fd os' os''. segment_owned os' ''seg'' 4096 17 fd \<and>
     fst (dlsm_shm_attach_readonly (Some ''seg'') True no_faults os') = DLSM_OK"
proof -
  from demo_create obtain s os' where
    "dlsm_shm_create_or_recover (Some ''seg'') 4096 True 17 no_faults demo_os = (DLSM_OK, s, os')" by blast
  from shm_create_then_attach [OF demo_os_wf _ this] show ?thesis by force
qed

text \<open>
  A segment whose owner lives: its descriptor is open on the segment of that name and holds the lock of the
  segment, whatever the owner has written into it since.
\<close>

definition segment_held :: "shm_os \<Rightarrow> string \<Rightarrow> nat \<Rightarrow> bool" where
  "segment_held os name fd \<longleftrightarrow> fd < os_next_fd os \<and>
     (case os_names os name of None \<Rightarrow> False | Some g \<Rightarrow> os_open os fd = Some g \<and> os_locks os g = Some fd)"

lemma segment_owned_held: "segment_owned os name sz pid fd \<Longrightarrow> segment_held os name fd"
  by (auto simp: segment_owned_def segment_held_def)

lemma segment_held_write: "segment_held os name fd \<Longrightarrow> segment_held (upd_seg fd f os) name fd"
  by (auto simp: segment_held_def upd_seg_def split: option.splits)

text \<open>An attempt that gives its own descriptor back leaves the owner as it was.\<close>

lemma segment_held_attempt:
  assumes "segment_held os name fd"
  shows "segment_held (os_close (os_next_fd os) (snd (add_fd g os))) name fd"
  using assms by (auto simp: segment_held_def os_close_def add_fd_def split: option.splits)

text \<open>
  Claim C36. One writer at a time: while a process has the segment of a name open and locked, whatever it has
  written there, every other \<open>create_or_recover\<close> on the name fails, with \<open>E_IN_USE\<close> unless its arguments or a
  system call fail first; \<open>cleanup_if_stale\<close> removes nothing, and answers \<open>DLSM_OK\<close> with \<open>cleaned\<close> false unless
  a system call fails; and neither changes a segment, a name or the owner's lock.
\<close>

theorem shm_single_writer:
  assumes held: "segment_held os name fd"
    and r: "dlsm_shm_create_or_recover (Some name) sz out pid fl os = (st, s, os')"
    and c: "dlsm_shm_cleanup_if_stale (Some name) fl2 os = (st2, cleaned, os2)"
  shows "st \<noteq> DLSM_OK \<and> s = None \<and> os_segs os' = os_segs os \<and> os_names os' = os_names os \<and> segment_held os' name fd \<and>
    (\<not> fl_reopen fl \<and> \<not> fl_lock fl \<and> out \<and> sizeof_ShmHeader + 16 \<le> sz \<longrightarrow> st = DLSM_SHM_E_IN_USE) \<and>
    \<not> cleaned \<and> os_segs os2 = os_segs os \<and> os_names os2 = os_names os \<and> segment_held os2 name fd \<and>
    (\<not> fl_reopen fl2 \<and> \<not> fl_lock fl2 \<longrightarrow> st2 = DLSM_OK)"
proof -
  from held obtain g where g: "os_names os name = Some g" "os_open os fd = Some g" "os_locks os g = Some fd"
    and ne: "fd \<noteq> os_next_fd os" by (auto simp: segment_held_def split: option.splits)
  let ?b = "os_close (os_next_fd os) (snd (add_fd g os))"
  have gone: "os_segs ?b = os_segs os" "os_names ?b = os_names os" "segment_held ?b name fd"
    using segment_held_attempt [OF held] by (simp_all add: add_fd_def)
  have "st \<noteq> DLSM_OK \<and> s = None \<and> (os' = os \<or> os' = ?b) \<and>
      (\<not> fl_reopen fl \<and> \<not> fl_lock fl \<and> out \<and> sizeof_ShmHeader + 16 \<le> sz \<longrightarrow> st = DLSM_SHM_E_IN_USE)"
    using g ne r by (auto simp: dlsm_shm_create_or_recover_def shm_recover_def shm_open_excl_def shm_open_existing_def
        add_fd_def writer_lock_def not_less split: if_splits)
  moreover have "\<not> cleaned \<and> (os2 = os \<or> os2 = ?b) \<and> (\<not> fl_reopen fl2 \<and> \<not> fl_lock fl2 \<longrightarrow> st2 = DLSM_OK)"
    using g ne c by (auto simp: dlsm_shm_cleanup_if_stale_def shm_open_existing_def add_fd_def writer_lock_def split: if_splits)
  ultimately show ?thesis using gone held by metis
qed

text \<open>An owner that has filled its segment; another process wants a segment of that name, and a third cleans up.\<close>

theorem shm_single_writer_witness:
  "\<exists>os fd. segment_held os ''seg'' fd \<and> sg_data (os_segs os (the (os_names os ''seg''))) 100 = 7 \<and>
     fst (dlsm_shm_create_or_recover (Some ''seg'') 8192 True 18 no_faults os) = DLSM_SHM_E_IN_USE \<and>
     fst (dlsm_shm_cleanup_if_stale (Some ''seg'') no_faults os) = DLSM_OK \<and>
     \<not> fst (snd (dlsm_shm_cleanup_if_stale (Some ''seg'') no_faults os))"
proof -
  from demo_create obtain s os' where
    "dlsm_shm_create_or_recover (Some ''seg'') 4096 True 17 no_faults demo_os = (DLSM_OK, s, os')" by blast
  from shm_create_succeeds [OF demo_os_wf this] obtain fd where own: "segment_owned os' ''seg'' 4096 17 fd" by blast
  let ?os = "upd_seg fd (\<lambda>sg. sg\<lparr>sg_data := (\<lambda>_. 7)\<rparr>) os'"
  have held: "segment_held ?os ''seg'' fd" by (rule segment_held_write [OF segment_owned_held [OF own]])
  have data: "sg_data (os_segs ?os (the (os_names ?os ''seg''))) 100 = 7" using own by (auto simp: segment_owned_def upd_seg_def)
  obtain st s2 os2 where r: "dlsm_shm_create_or_recover (Some ''seg'') 8192 True 18 no_faults ?os = (st, s2, os2)"
    by (metis surj_pair)
  obtain st2 cl os3 where c: "dlsm_shm_cleanup_if_stale (Some ''seg'') no_faults ?os = (st2, cl, os3)"
    by (metis surj_pair)
  have "\<not> fl_reopen no_faults" "\<not> fl_lock no_faults" "sizeof_ShmHeader + 16 \<le> 8192"
    by (simp_all add: no_faults_def)
  with shm_single_writer [OF held r c] r c have "fst (dlsm_shm_create_or_recover (Some ''seg'') 8192 True 18 no_faults ?os) = DLSM_SHM_E_IN_USE"
    "fst (dlsm_shm_cleanup_if_stale (Some ''seg'') no_faults ?os) = DLSM_OK"
    "\<not> fst (snd (dlsm_shm_cleanup_if_stale (Some ''seg'') no_faults ?os))" by simp_all
  with held data show ?thesis by blast
qed

text \<open>
  Recovery and clean-up after the owner is gone: once the owner detaches (or dies, which
  closes its descriptor), its lock is free; a recovery with the same size then succeeds, and
  \<open>cleanup_if_stale\<close> removes the name.
\<close>

theorem shm_stale_recoverable:
  assumes own: "segment_owned os name sz pid fd" and pid: "0 < pid"
  shows "\<exists>s os1 os2. dlsm_shm_create_or_recover (Some name) sz True pid2 no_faults
      (dlsm_shm_detach (Some \<lparr>hd_hdr = base, hd_mapped_size = sz, hd_fd = fd, hd_readonly = False\<rparr>) os) =
        (DLSM_OK, Some s, os1) \<and>
    dlsm_shm_cleanup_if_stale (Some name) no_faults
      (dlsm_shm_detach (Some \<lparr>hd_hdr = base, hd_mapped_size = sz, hd_fd = fd, hd_readonly = False\<rparr>) os) =
        (DLSM_OK, True, os2) \<and> os_names os2 name = None"
proof -
  from own obtain g where g: "os_names os name = Some g" "os_open os fd = Some g"
    "os_locks os g = Some fd" "fd < os_next_fd os" "sg_size (os_segs os g) = sz"
    "sg_hdr (os_segs os g) = init_header DLSM_SHM_BASE_ADDR sz pid" "\<not> sz < sizeof_ShmHeader + 16"
    "\<not> UINT64_MAX - sz < DLSM_SHM_BASE_ADDR"
    by (auto simp: segment_owned_def not_less)
  let ?os = "dlsm_shm_detach (Some \<lparr>hd_hdr = base, hd_mapped_size = sz, hd_fd = fd, hd_readonly = False\<rparr>) os"
  have d: "os_names ?os name = Some g" "os_locks ?os g = None" "os_segs ?os = os_segs os"
    using g by (auto simp: dlsm_shm_detach_def os_close_def munmap_def)
  have "\<not> sz < sizeof_ShmHeader" using g(7) by (simp add: word_less_nat_alt)
  with d g pid have "\<exists>s os1. dlsm_shm_create_or_recover (Some name) sz True pid2 no_faults ?os = (DLSM_OK, Some s, os1)"
    by (simp add: dlsm_shm_create_or_recover_def shm_recover_def shm_open_excl_def shm_open_existing_def
        add_fd_def writer_lock_def read_header_def map_rw_at_base_def no_faults_def init_header_def Let_def)
  moreover from d have "\<exists>os2. dlsm_shm_cleanup_if_stale (Some name) no_faults ?os = (DLSM_OK, True, os2) \<and>
      os_names os2 name = None"
    by (simp add: dlsm_shm_cleanup_if_stale_def shm_open_existing_def add_fd_def writer_lock_def no_faults_def)
  ultimately show ?thesis by blast
qed

theorem shm_stale_recoverable_witness:
  "\<exists>os fd s os1. segment_owned os ''seg'' 4096 17 fd \<and>
     dlsm_shm_create_or_recover (Some ''seg'') 4096 True 99 no_faults
       (dlsm_shm_detach (Some \<lparr>hd_hdr = 0, hd_mapped_size = 4096, hd_fd = fd, hd_readonly = False\<rparr>) os) =
     (DLSM_OK, Some s, os1)"
proof -
  from demo_create obtain s os' where
    r: "dlsm_shm_create_or_recover (Some ''seg'') 4096 True 17 no_faults demo_os = (DLSM_OK, s, os')" by blast
  from shm_create_succeeds [OF demo_os_wf r] obtain fd where own: "segment_owned os' ''seg'' 4096 17 fd"
    by blast
  from shm_stale_recoverable [OF own] own show ?thesis by force
qed

end
