(* ===== verification/Index_Node.thy ===== *)
theory Index_Node
  imports Dlsm_Prelude "HOL-Library.List_Lexorder"
begin

text \<open>
  Nodes of the Bw-tree (\<^verbatim>\<open>libs/index/src/index.c\<close>, types of \<^verbatim>\<open>libs/index/include/dlsm/index.h\<close>): keys and
  their comparison, delta chains over immutable base nodes, the two binary searches, and the
  merge of a leaf chain into a sorted array. A published node is never written again, so a chain
  is a value; the mapping table that names chains is in theory \<open>Index_Tree\<close>.
\<close>

section \<open>Data\<close>

type_synonym key = "u8 list"
type_synonym pid = nat

record dlsm_delta_pointer =
  dp_kind :: u8
  dp_file_id :: u32
  dp_offset :: u64

datatype delta_op = OP_INSERT | OP_UPDATE | OP_DELETE

text \<open>\<open>leaf_ent\<close> and \<open>idx_ent\<close>; the separator of the first entry of an internal node is \<open>NULL\<close>.\<close>

type_synonym leaf_ent = "key \<times> dlsm_delta_pointer"
type_synonym idx_ent = "key option \<times> pid"

text \<open>
  A base node. \<open>level\<close> is a \<open>uint8_t\<close> that counts levels from the leaves; a tree of \<open>2 ^ 18\<close> nodes
  never reaches 255 of them. Fences and right sibling are \<open>None\<close> for \<open>NULL\<close> and \<open>PID_NULL\<close>.
\<close>

record base =
  b_leaf :: bool
  b_level :: nat
  b_lents :: "leaf_ent list"
  b_ients :: "idx_ent list"
  b_low :: "key option"
  b_high :: "key option"
  b_right :: "pid option"

datatype chain = Base base | Delta delta_op nat key dlsm_delta_pointer chain

section \<open>Operations\<close>

fun memcmp :: "u8 list \<Rightarrow> u8 list \<Rightarrow> nat \<Rightarrow> int" where
  "memcmp (x # xs) (y # ys) (Suc n) = (if x = y then memcmp xs ys n else uint x - uint y)"
| "memcmp _ _ _ = 0"

definition keycmp :: "key \<Rightarrow> key \<Rightarrow> int" where
  "keycmp a b =
     (let n = (if length a < length b then length a else length b);
          r = (if n \<noteq> 0 then memcmp a b n else 0) in
      if r \<noteq> 0 then r
      else (if length a > length b then 1 else 0) - (if length a < length b then 1 else 0))"

definition base_leaf_new :: base where
  "base_leaf_new = \<lparr>b_leaf = True, b_level = 0, b_lents = [], b_ients = [], b_low = None,
     b_high = None, b_right = None\<rparr>"

definition base_internal_new :: "nat \<Rightarrow> base" where
  "base_internal_new level = \<lparr>b_leaf = False, b_level = level, b_lents = [], b_ients = [], b_low = None,
     b_high = None, b_right = None\<rparr>"

fun tail_base :: "chain \<Rightarrow> base" where
  "tail_base (Base b) = b"
| "tail_base (Delta _ _ _ _ c) = tail_base c"

function base_find_loop :: "leaf_ent list \<Rightarrow> key \<Rightarrow> int \<Rightarrow> int \<Rightarrow> int" where
  "base_find_loop es k lo hi =
     (if lo \<le> hi then
        (let mid = lo + (hi - lo) div 2; c = keycmp (fst (es ! nat mid)) k in
         if c = 0 then mid
         else if c < 0 then base_find_loop es k (mid + 1) hi
         else base_find_loop es k lo (mid - 1))
      else - 1)"
  by pat_completeness auto
termination
  by (relation "measure (\<lambda>(es, k, lo, hi). nat (hi + 1 - lo))") auto

definition base_find :: "base \<Rightarrow> key \<Rightarrow> int" where
  "base_find b k = base_find_loop (b_lents b) k 0 (int (length (b_lents b)) - 1)"

function route_loop :: "idx_ent list \<Rightarrow> key \<Rightarrow> int \<Rightarrow> int \<Rightarrow> int \<Rightarrow> int" where
  "route_loop es k lo hi res =
     (if lo \<le> hi then
        (let mid = lo + (hi - lo) div 2 in
         if keycmp (the (fst (es ! nat mid))) k \<le> 0 then route_loop es k (mid + 1) hi mid
         else route_loop es k lo (mid - 1) res)
      else res)"
  by pat_completeness auto
termination
  by (relation "measure (\<lambda>(es, k, lo, hi, res). nat (hi + 1 - lo))") auto

definition route :: "base \<Rightarrow> key \<Rightarrow> pid" where
  "route b k = snd (b_ients b ! nat (route_loop (b_ients b) k 1 (int (length (b_ients b)) - 1) 0))"

definition past_fence :: "base \<Rightarrow> key \<Rightarrow> bool" where
  "past_fence b k = (case b_high b of None \<Rightarrow> False | Some h \<Rightarrow> keycmp k h \<ge> 0)"

text \<open>
  The inner loop of \<open>get\<close>: the newest delta for the key decides (\<open>None\<close> for a tombstone), or the
  walk ends at the base.
\<close>

fun chain_scan :: "chain \<Rightarrow> key \<Rightarrow> dlsm_delta_pointer option + base" where
  "chain_scan (Delta op _ dk v c) k =
     (if keycmp dk k = 0 then Inl (if op \<noteq> OP_DELETE then Some v else None) else chain_scan c k)"
| "chain_scan (Base b) k = Inr b"

definition seen_has :: "key list \<Rightarrow> key \<Rightarrow> bool" where
  "seen_has s k \<longleftrightarrow> list_ex (\<lambda>x. keycmp x k = 0) s"

text \<open>The two loops of \<open>materialize_leaf\<close>, with the keys seen so far and the entries collected.\<close>

fun collect_deltas :: "chain \<Rightarrow> key list \<Rightarrow> leaf_ent list \<Rightarrow> key list \<times> leaf_ent list" where
  "collect_deltas (Base _) seen res = (seen, res)"
| "collect_deltas (Delta op _ dk v c) seen res =
     (if seen_has seen dk then collect_deltas c seen res
      else collect_deltas c (seen @ [dk]) (if op \<noteq> OP_DELETE then res @ [(dk, v)] else res))"

fun collect_base :: "leaf_ent list \<Rightarrow> key list \<Rightarrow> leaf_ent list \<Rightarrow> leaf_ent list" where
  "collect_base [] seen res = res"
| "collect_base (e # es) seen res =
     (if seen_has seen (fst e) then collect_base es seen res else collect_base es seen (res @ [e]))"

text \<open>
  \<open>qsort\<close> with \<open>lent_cmp\<close>: the keys are distinct, so the sorted array is unique. \<open>None\<close> is the
  out-of-memory exit.
\<close>

definition materialize_leaf :: "bool \<Rightarrow> chain \<Rightarrow> leaf_ent list option" where
  "materialize_leaf alloc_ok h =
     (if \<not> alloc_ok then None
      else case collect_deltas h [] [] of (seen, res) \<Rightarrow>
        Some (sort_key fst (collect_base (b_lents (tail_base h)) seen res)))"

section \<open>The key order\<close>

lemma u8_diff: "uint x - uint y \<noteq> 0 \<longleftrightarrow> x \<noteq> y" "uint x - uint y < 0 \<longleftrightarrow> x < y" for x y :: u8
  by (simp_all add: word_uint_eq_iff word_less_def)

lemma keycmp_Nil [simp]: "keycmp [] b = (if b = [] then 0 else - 1)" "keycmp a [] = (if a = [] then 0 else 1)"
  by (auto simp: keycmp_def Let_def)

lemma keycmp_Cons: "keycmp (x # xs) (y # ys) = (if x = y then keycmp xs ys else uint x - uint y)"
proof (cases "x = y")
  case True
  have "memcmp xs ys n = 0" if "n = 0" for n using that by (cases xs; cases ys; simp)
  with True show ?thesis by (auto simp: keycmp_def Let_def)
next
  case False
  then have "uint x - uint y \<noteq> 0" by (simp only: u8_diff) simp
  with False show ?thesis by (auto simp: keycmp_def Let_def)
qed

lemma keycmp_less: "keycmp a b < 0 \<longleftrightarrow> a < b"
proof (induction a arbitrary: b)
  case Nil
  show ?case by (cases b) auto
next
  case (Cons x xs)
  show ?case
  proof (cases b)
    case Nil
    then show ?thesis by simp
  next
    case (Cons y ys)
    then show ?thesis
      using Cons.IH [of ys] u8_diff(2) [of x y] by (cases "x = y") (simp_all only: keycmp_Cons if_True if_False Cons_less_Cons, simp_all)
  qed
qed

lemma keycmp_eq: "keycmp a b = 0 \<longleftrightarrow> a = b"
proof (induction a arbitrary: b)
  case Nil
  show ?case by (cases b) auto
next
  case (Cons x xs)
  show ?case
  proof (cases b)
    case Nil
    then show ?thesis by simp
  next
    case (Cons y ys)
    then show ?thesis
      using Cons.IH [of ys] u8_diff(1) [of x y] by (cases "x = y") (simp_all only: keycmp_Cons if_True if_False, simp_all)
  qed
qed

text \<open>The contract of a three-way comparison, and what the searches use of it.\<close>

locale three_way =
  fixes cmp :: "'k :: linorder \<Rightarrow> 'k \<Rightarrow> int"
  assumes cmp_less: "cmp a b < 0 \<longleftrightarrow> a < b"
    and cmp_eq: "cmp a b = 0 \<longleftrightarrow> a = b"
begin

lemma cmp_le: "cmp a b \<le> 0 \<longleftrightarrow> a \<le> b"
  using cmp_less [of a b] cmp_eq [of a b] by (auto simp: le_less)

lemma cmp_ge: "cmp a b \<ge> 0 \<longleftrightarrow> b \<le> a"
  using cmp_less [of a b] by (auto simp: not_less [symmetric])

lemma cmp_greater: "cmp a b > 0 \<longleftrightarrow> b < a"
  using cmp_le [of a b] by (auto simp: not_le [symmetric])

lemma cmp_antisym: "cmp a b < 0 \<longleftrightarrow> cmp b a > 0"
  by (simp add: cmp_less cmp_greater)

lemma cmp_trans: "cmp a b < 0 \<Longrightarrow> cmp b c < 0 \<Longrightarrow> cmp a c < 0"
  by (simp add: cmp_less)

end

interpretation keyorder: three_way keycmp
  by unfold_locales (auto simp: keycmp_less keycmp_eq)

lemmas keycmp_simps = keyorder.cmp_less keyorder.cmp_eq keyorder.cmp_le keyorder.cmp_ge keyorder.cmp_greater

lemma seen_has_iff [simp]: "seen_has s k \<longleftrightarrow> k \<in> set s"
  by (auto simp: seen_has_def list_ex_iff keycmp_simps)

lemma past_fence_iff: "past_fence b k \<longleftrightarrow> (\<exists>h. b_high b = Some h \<and> h \<le> k)"
  by (auto simp: past_fence_def keycmp_simps split: option.splits)

section \<open>The binary searches\<close>

abbreviation keys_sorted :: "leaf_ent list \<Rightarrow> bool" where
  "keys_sorted es \<equiv> sorted_wrt (<) (map fst es)"

declare base_find_loop.simps [simp del] route_loop.simps [simp del]

lemma keys_sorted_nth: "keys_sorted es \<Longrightarrow> i < j \<Longrightarrow> j < length es \<Longrightarrow> fst (es ! i) < fst (es ! j)"
  by (simp add: sorted_wrt_iff_nth_less)

lemma base_find_loop_correct:
  assumes "keys_sorted es" and "0 \<le> lo" and "hi < int (length es)"
  shows "base_find_loop es k lo hi = - 1 \<and> (\<forall>i. lo \<le> int i \<and> int i \<le> hi \<longrightarrow> fst (es ! i) \<noteq> k) \<or>
    lo \<le> base_find_loop es k lo hi \<and> base_find_loop es k lo hi \<le> hi \<and>
      fst (es ! nat (base_find_loop es k lo hi)) = k"
  using assms
proof (induction es k lo hi rule: base_find_loop.induct)
  case (1 es k lo hi)
  note srt = "1.prems"(1)
  show ?case
  proof (cases "lo \<le> hi")
    case False
    then have "base_find_loop es k lo hi = - 1" by (subst base_find_loop.simps) simp
    with False show ?thesis by auto
  next
    case True
    let ?m = "lo + (hi - lo) div 2"
    have m: "lo \<le> ?m" "?m \<le> hi" "nat ?m < length es" "0 \<le> ?m" using True "1.prems" by auto
    have im: "int i < ?m \<longleftrightarrow> i < nat ?m" "?m < int i \<longleftrightarrow> nat ?m < i" for i using m(4) by linarith+
    consider (eq) "fst (es ! nat ?m) = k" | (lt) "fst (es ! nat ?m) < k" | (gt) "k < fst (es ! nat ?m)"
      by (meson linorder_less_linear)
    then show ?thesis
    proof cases
      case eq
      then have "base_find_loop es k lo hi = ?m"
        using True by (subst base_find_loop.simps) (simp add: keycmp_simps Let_def)
      with m eq show ?thesis by simp
    next
      case lt
      then have ne: "fst (es ! nat ?m) \<noteq> k" by simp
      with lt have e: "base_find_loop es k lo hi = base_find_loop es k (?m + 1) hi"
        using True by (subst base_find_loop.simps) (simp add: keycmp_simps Let_def)
      have below: "fst (es ! i) \<noteq> k" if "int i \<le> ?m" for i
      proof (cases "i = nat ?m")
        case False
        with that im(1) [of i] m(4) have "i < nat ?m" by linarith
        from keys_sorted_nth [OF srt this m(3)] lt show ?thesis by auto
      qed (use lt in simp)
      have "keycmp (fst (es ! nat ?m)) k \<noteq> 0" "keycmp (fst (es ! nat ?m)) k < 0"
        using lt by (auto simp: keycmp_simps)
      from "1.IH"(1) [OF True refl refl this srt] "1.prems" m(1)
      consider "base_find_loop es k (?m + 1) hi = - 1"
          "\<And>i. ?m + 1 \<le> int i \<and> int i \<le> hi \<Longrightarrow> fst (es ! i) \<noteq> k"
        | "?m + 1 \<le> base_find_loop es k (?m + 1) hi" "base_find_loop es k (?m + 1) hi \<le> hi"
          "fst (es ! nat (base_find_loop es k (?m + 1) hi)) = k" by auto
      then show ?thesis
      proof cases
        case 1
        have "fst (es ! i) \<noteq> k" if "lo \<le> int i" "int i \<le> hi" for i
          using 1(2) [of i] below [of i] that by (cases "?m + 1 \<le> int i") auto
        with 1(1) e show ?thesis by simp
      next
        case 2
        then show ?thesis unfolding e using m(1) by linarith
      qed
    next
      case gt
      then have ne: "fst (es ! nat ?m) \<noteq> k" "\<not> fst (es ! nat ?m) < k" by auto
      then have e: "base_find_loop es k lo hi = base_find_loop es k lo (?m - 1)"
        using True by (subst base_find_loop.simps) (simp add: keycmp_simps Let_def)
      have above: "fst (es ! i) \<noteq> k" if "?m \<le> int i" "i < length es" for i
      proof (cases "i = nat ?m")
        case False
        with that(1) im(2) [of i] m(4) have "nat ?m < i" by linarith
        from keys_sorted_nth [OF srt this that(2)] gt show ?thesis by auto
      qed (use gt in simp)
      have "keycmp (fst (es ! nat ?m)) k \<noteq> 0" "\<not> keycmp (fst (es ! nat ?m)) k < 0"
        using gt by (auto simp: keycmp_simps)
      from "1.IH"(2) [OF True refl refl this srt] "1.prems" m(2)
      consider "base_find_loop es k lo (?m - 1) = - 1"
          "\<And>i. lo \<le> int i \<and> int i \<le> ?m - 1 \<Longrightarrow> fst (es ! i) \<noteq> k"
        | "lo \<le> base_find_loop es k lo (?m - 1)" "base_find_loop es k lo (?m - 1) \<le> ?m - 1"
          "fst (es ! nat (base_find_loop es k lo (?m - 1))) = k" by auto
      then show ?thesis
      proof cases
        case 1
        have "fst (es ! i) \<noteq> k" if "lo \<le> int i" "int i \<le> hi" for i
          using 1(2) [of i] above [of i] that "1.prems"(3) by (cases "int i \<le> ?m - 1") auto
        with 1(1) e show ?thesis by simp
      next
        case 2
        then show ?thesis unfolding e using m(2) by linarith
      qed
    qed
  qed
qed

lemma base_find_correct:
  assumes "keys_sorted (b_lents b)"
  shows "if 0 \<le> base_find b k
    then nat (base_find b k) < length (b_lents b) \<and> map_of (b_lents b) k = Some (snd (b_lents b ! nat (base_find b k)))
    else map_of (b_lents b) k = None"
proof -
  let ?es = "b_lents b" and ?r = "base_find b k"
  have d: "distinct (map fst ?es)" using assms strict_sorted_iff by blast
  from base_find_loop_correct [OF assms, of 0 "int (length ?es) - 1" k]
  consider "?r = - 1" "\<forall>i < length ?es. fst (?es ! i) \<noteq> k"
    | "0 \<le> ?r" "nat ?r < length ?es" "fst (?es ! nat ?r) = k"
    unfolding base_find_def by fastforce
  then show ?thesis
  proof cases
    case 1
    then have "k \<notin> fst ` set ?es" by (metis imageE in_set_conv_nth)
    with 1 show ?thesis by (simp add: map_of_eq_None_iff)
  next
    case 2
    then have "(k, snd (?es ! nat ?r)) \<in> set ?es" by (metis nth_mem prod.collapse)
    with 2 d show ?thesis by simp
  qed
qed

text \<open>Separators of an internal node: none for the first entry, then strictly increasing.\<close>

definition seps_ok :: "idx_ent list \<Rightarrow> bool" where
  "seps_ok es \<longleftrightarrow> es \<noteq> [] \<and> fst (es ! 0) = None \<and>
     (\<forall>i. 0 < i \<and> i < length es \<longrightarrow> fst (es ! i) \<noteq> None) \<and>
     (\<forall>i j. 0 < i \<and> i < j \<and> j < length es \<longrightarrow> the (fst (es ! i)) < the (fst (es ! j)))"

lemma route_loop_correct:
  assumes "seps_ok es" and "1 \<le> lo" and "lo \<le> hi + 1" and "hi < int (length es)"
    and "\<forall>i. 0 < i \<and> int i < lo \<longrightarrow> the (fst (es ! i)) \<le> k"
    and "\<forall>i. hi < int i \<and> i < length es \<longrightarrow> k < the (fst (es ! i))"
  shows "0 \<le> route_loop es k lo hi (lo - 1) \<and> route_loop es k lo hi (lo - 1) \<le> hi \<and>
    (\<forall>i. 0 < i \<and> int i \<le> route_loop es k lo hi (lo - 1) \<longrightarrow> the (fst (es ! i)) \<le> k) \<and>
    (\<forall>i. route_loop es k lo hi (lo - 1) < int i \<and> i < length es \<longrightarrow> k < the (fst (es ! i)))"
  using assms(2-6)
proof (induction "nat (hi + 1 - lo)" arbitrary: lo hi rule: less_induct)
  case less
  show ?case
  proof (cases "lo \<le> hi")
    case False
    with less.prems have h: "hi = lo - 1" by simp
    have r: "route_loop es k lo hi (lo - 1) = lo - 1"
      using False by (subst route_loop.simps) simp
    show ?thesis unfolding r using less.prems h by auto
  next
    case True
    let ?m = "lo + (hi - lo) div 2"
    have m: "lo \<le> ?m" "?m \<le> hi" "0 < nat ?m" "nat ?m < length es" using True less.prems by auto
    have im: "int i = ?m \<longleftrightarrow> i = nat ?m" "int i < ?m \<longleftrightarrow> i < nat ?m" "?m < int i \<longleftrightarrow> nat ?m < i" for i
      using m(3) by linarith+
    have mono: "0 < i \<Longrightarrow> i < j \<Longrightarrow> j < length es \<Longrightarrow> the (fst (es ! i)) < the (fst (es ! j))" for i j
      using assms(1) unfolding seps_ok_def by blast
    show ?thesis
    proof (cases "the (fst (es ! nat ?m)) \<le> k")
      case le: True
      then have e: "route_loop es k lo hi (lo - 1) = route_loop es k (?m + 1) hi (?m + 1 - 1)"
        using True by (subst route_loop.simps) (simp add: keycmp_simps Let_def)
      have b: "the (fst (es ! i)) \<le> k" if "0 < i" "int i < ?m + 1" for i
      proof (cases "i = nat ?m")
        case False
        with that(2) im(1,2) [of i] have "i < nat ?m" by linarith
        from mono [OF that(1) this m(4)] le show ?thesis by simp
      qed (use le in simp)
      have "nat (hi + 1 - (?m + 1)) < nat (hi + 1 - lo)" using m(1) True by linarith
      from less.hyps [OF this] b m less.prems show ?thesis unfolding e by simp
    next
      case gt: False
      then have e: "route_loop es k lo hi (lo - 1) = route_loop es k lo (?m - 1) (lo - 1)"
        using True by (subst route_loop.simps) (simp add: keycmp_simps Let_def)
      have a: "k < the (fst (es ! i))" if "?m - 1 < int i" "i < length es" for i
      proof (cases "i = nat ?m")
        case False
        with that(1) im(1,3) [of i] have "nat ?m < i" by linarith
        from mono [OF m(3) this that(2)] gt show ?thesis by simp
      qed (use gt in simp)
      have "nat (?m - 1 + 1 - lo) < nat (hi + 1 - lo)" using m True by linarith
      from less.hyps [OF this] a m less.prems show ?thesis unfolding e by simp
    qed
  qed
qed

text \<open>\<open>route\<close> takes the last entry whose separator is not above the key.\<close>

lemma route_correct:
  assumes "b_ients b \<noteq> []" and "seps_ok (b_ients b)"
  shows "\<exists>i < length (b_ients b). route b k = snd (b_ients b ! i) \<and>
    (0 < i \<longrightarrow> the (fst (b_ients b ! i)) \<le> k) \<and>
    (\<forall>j. i < j \<and> j < length (b_ients b) \<longrightarrow> k < the (fst (b_ients b ! j)))"
proof -
  let ?es = "b_ients b"
  let ?r = "route_loop ?es k 1 (int (length ?es) - 1) (1 - 1)"
  have a: "1 \<le> int (length ?es) - 1 + 1" using assms(1) by (cases ?es) auto
  have "0 \<le> ?r \<and> ?r \<le> int (length ?es) - 1 \<and>
      (\<forall>i. 0 < i \<and> int i \<le> ?r \<longrightarrow> the (fst (?es ! i)) \<le> k) \<and>
      (\<forall>i. ?r < int i \<and> i < length ?es \<longrightarrow> k < the (fst (?es ! i)))"
    by (rule route_loop_correct [OF assms(2) _ a]) auto
  then have r: "0 \<le> ?r" "?r \<le> int (length ?es) - 1"
    "\<And>i. 0 < i \<Longrightarrow> int i \<le> ?r \<Longrightarrow> the (fst (?es ! i)) \<le> k"
    "\<And>i. ?r < int i \<Longrightarrow> i < length ?es \<Longrightarrow> k < the (fst (?es ! i))" by blast+
  have "nat ?r < length ?es" using r(1,2) by linarith
  moreover have "0 < nat ?r \<longrightarrow> the (fst (?es ! nat ?r)) \<le> k" using r(1) r(3) [of "nat ?r"] by auto
  moreover have "\<forall>j. nat ?r < j \<and> j < length ?es \<longrightarrow> k < the (fst (?es ! j))" using r(1) r(4) by auto
  ultimately show ?thesis by (intro exI [of _ "nat ?r"]) (simp add: route_def)
qed

section \<open>What a leaf chain stores\<close>

fun chain_map :: "chain \<Rightarrow> key \<Rightarrow> dlsm_delta_pointer option" where
  "chain_map (Delta op _ dk v c) k =
     (if dk = k then (if op \<noteq> OP_DELETE then Some v else None) else chain_map c k)"
| "chain_map (Base b) k = map_of (b_lents b) k"

lemma chain_scan_map:
  "chain_scan c k = Inl r \<Longrightarrow> chain_map c k = r"
  "chain_scan c k = Inr b \<Longrightarrow> b = tail_base c \<and> chain_map c k = map_of (b_lents b) k"
  by (induction c) (auto simp: keycmp_simps split: if_splits)

lemma collect_base_eq: "collect_base es seen res = res @ filter (\<lambda>e. fst e \<notin> set seen) es"
  by (induction es arbitrary: res) auto

lemma map_of_filter_notin: "map_of (filter (\<lambda>e. fst e \<notin> S) es) k = (if k \<in> S then None else map_of es k)"
  by (induction es) auto

lemma collect_correct:
  assumes "collect_deltas c seen res = (seen', res')" and "fst ` set res \<subseteq> set seen"
    and "distinct (map fst res)" and "distinct (map fst (b_lents (tail_base c)))"
  shows "(\<forall>k. map_of (collect_base (b_lents (tail_base c)) seen' res') k =
      (if k \<in> set seen then map_of res k else chain_map c k)) \<and>
    distinct (map fst (collect_base (b_lents (tail_base c)) seen' res'))"
  using assms
proof (induction c arbitrary: seen res)
  case (Base b)
  have "distinct (map fst (filter (\<lambda>e. fst e \<notin> set seen) (b_lents b)))"
    using Base.prems(4) by (simp add: distinct_map_filter)
  moreover have "map_of res k = None" if "k \<notin> set seen" for k
    using that Base.prems(2) by (auto simp: map_of_eq_None_iff)
  ultimately show ?case
    using Base.prems by (auto simp: collect_base_eq map_of_filter_notin map_add_def split: option.splits)
next
  case (Delta op d dk v c)
  let ?seen = "if dk \<in> set seen then seen else seen @ [dk]"
  let ?res = "if dk \<in> set seen \<or> op = OP_DELETE then res else res @ [(dk, v)]"
  have n: "map_of res k = None" if "k \<notin> set seen" for k
    using that Delta.prems(2) by (auto simp: map_of_eq_None_iff)
  have "collect_deltas c ?seen ?res = (seen', res')" "fst ` set ?res \<subseteq> set ?seen"
    "distinct (map fst ?res)" "distinct (map fst (b_lents (tail_base c)))"
    using Delta.prems by (auto split: if_splits)
  from Delta.IH [OF this] n show ?case by (auto simp: map_add_def split: option.splits if_splits)
qed

lemma map_of_sort_key:
  assumes "distinct (map fst es)"
  shows "map_of (sort_key fst es) = map_of es"
proof (rule ext)
  fix k
  have "distinct (map fst (sort_key fst es))"
    using assms by (metis distinct_map distinct_sort image_set set_map set_sort inj_on_cong)
  with assms show "map_of (sort_key fst es) k = map_of es k"
    by (metis map_of_eq_Some_iff not_None_eq set_sort)
qed

text \<open>The merged array has strictly increasing keys and exactly the visible entries of the chain.\<close>

lemma materialize_leaf_correct:
  assumes "keys_sorted (b_lents (tail_base c))"
  shows "\<exists>arr. materialize_leaf True c = Some arr \<and> keys_sorted arr \<and> map_of arr = chain_map c"
proof -
  obtain seen res where cd: "collect_deltas c [] [] = (seen, res)" by (meson surj_pair)
  let ?all = "collect_base (b_lents (tail_base c)) seen res"
  have "distinct (map fst (b_lents (tail_base c)))" using assms strict_sorted_iff by blast
  note cc = collect_correct [OF cd _ _ this, simplified]
  have "sorted (map fst (sort_key fst ?all))" by (rule sorted_sort_key)
  moreover have "distinct (map fst (sort_key fst ?all))"
    using cc by (simp add: distinct_map)
  ultimately have "keys_sorted (sort_key fst ?all)" by (simp add: strict_sorted_iff)
  moreover have "map_of (sort_key fst ?all) = chain_map c"
    using map_of_sort_key [of ?all] cc by auto
  ultimately show ?thesis by (simp add: materialize_leaf_def cd)
qed

end
