(* ===== verification/Index_Tree.thy ===== *)
theory Index_Tree
  imports Index_Node "HOL-Library.Option_ord"
begin

text \<open>
  The Bw-tree over its mapping table (\<^verbatim>\<open>libs/index/src/index.c\<close>): traversal, point reads and writes,
  consolidation of delta chains, and the splits of leaves and internal nodes with the
  publication of separators up the path. Each function that ends in one store or one successful
  compare-and-swap on the mapping table is one atomic change; the operations compose them. A walk
  down the tree is a loop that may not end or may follow a null pointer on a malformed tree, which
  is the value \<open>None\<close>; on well-formed trees it always ends.

  Every allocation of a write has a site, and an argument says which sites are granted. A refusal that
  the source tests ends the work there; a refusal it does not test is a null pointer: a lost fence or
  separator, or, where the source follows the pointer at once, the value \<open>None\<close>. The map has
  \<open>DLSM_MAP_CAP\<close> entries; \<open>alloc_pid\<close> answers \<open>PID_NULL\<close> (\<open>None\<close>) beyond, as in the source.
\<close>

section \<open>Operations\<close>

abbreviation DLSM_INDEX_E_NOMEM :: dlsm_status where "DLSM_INDEX_E_NOMEM \<equiv> 60001"
abbreviation DLSM_INDEX_E_NOTFOUND :: dlsm_status where "DLSM_INDEX_E_NOTFOUND \<equiv> 60002"
abbreviation DLSM_INDEX_E_INVAL :: dlsm_status where "DLSM_INDEX_E_INVAL \<equiv> 60003"

abbreviation DLSM_CONSOLIDATE_DEPTH :: nat where "DLSM_CONSOLIDATE_DEPTH \<equiv> 8"
abbreviation DLSM_CHAIN_CAP :: nat where "DLSM_CHAIN_CAP \<equiv> 24"
abbreviation DLSM_LEAF_MAX :: nat where "DLSM_LEAF_MAX \<equiv> 32"
abbreviation DLSM_INTERNAL_MAX :: nat where "DLSM_INTERNAL_MAX \<equiv> 32"
abbreviation DLSM_MAP_CAP :: nat where "DLSM_MAP_CAP \<equiv> 262144"

record dlsm_index =
  ix_map :: "pid \<rightharpoonup> chain"
  ix_next_pid :: nat
  ix_root :: pid
  ix_consolidations :: nat
  ix_leaf_splits :: nat
  ix_internal_splits :: nat

definition dlsm_index_new :: dlsm_index where
  "dlsm_index_new = \<lparr>ix_map = [0 \<mapsto> Base base_leaf_new], ix_next_pid = 1, ix_root = 0,
     ix_consolidations = 0, ix_leaf_splits = 0, ix_internal_splits = 0\<rparr>"

definition index_new_or_null :: "bool \<Rightarrow> dlsm_index option" where
  "index_new_or_null mem = (if mem then Some dlsm_index_new else None)"

definition set_head :: "pid \<Rightarrow> chain \<Rightarrow> dlsm_index \<Rightarrow> dlsm_index" where
  "set_head p c t = t\<lparr>ix_map := (ix_map t)(p \<mapsto> c)\<rparr>"

definition alloc_pid :: "chain \<Rightarrow> dlsm_index \<Rightarrow> pid option \<times> dlsm_index" where
  "alloc_pid c t =
     (let p = ix_next_pid t; t1 = t\<lparr>ix_next_pid := p + 1\<rparr> in
      if p \<ge> DLSM_MAP_CAP then (None, t1) else (Some p, set_head p c t1))"

text \<open>
  The arguments \<open>key\<close> and \<open>klen\<close>: a null pointer with a length, or that many bytes. The length is cast
  to \<open>uint32_t\<close>, so the key is the \<open>klen mod 2 ^ 32\<close> first bytes.
\<close>

datatype key_ptr = Null_Key nat | Key_Bytes "u8 list"

fun key_missing :: "key_ptr \<Rightarrow> bool" where
  "key_missing (Null_Key klen) \<longleftrightarrow> klen \<noteq> 0"
| "key_missing (Key_Bytes _) \<longleftrightarrow> False"

fun key_arg :: "key_ptr \<Rightarrow> key" where
  "key_arg (Null_Key _) = []"
| "key_arg (Key_Bytes bytes) = take (length bytes mod 2 ^ 32) bytes"

partial_function (option) find_leaf :: "dlsm_index \<Rightarrow> pid option \<Rightarrow> key \<Rightarrow> pid option" where
  [code]: "find_leaf t po k = (case po of None \<Rightarrow> None
     | Some p \<Rightarrow> (case ix_map t p of None \<Rightarrow> None
       | Some h \<Rightarrow> (let b = tail_base h in
           if past_fence b k then find_leaf t (b_right b) k
           else if \<not> b_leaf b then find_leaf t (Some (route b k)) k
           else Some p)))"

partial_function (option) get_from ::
  "dlsm_index \<Rightarrow> pid option \<Rightarrow> key \<Rightarrow> dlsm_delta_pointer option option" where
  [code]: "get_from t po k = (case po of None \<Rightarrow> None
     | Some p \<Rightarrow> (case ix_map t p of None \<Rightarrow> None
       | Some h \<Rightarrow> (case chain_scan h k of
           Inl r \<Rightarrow> Some r
         | Inr b \<Rightarrow>
             if past_fence b k then get_from t (b_right b) k
             else if \<not> b_leaf b then get_from t (Some (route b k)) k
             else Some (if base_find b k \<ge> 0 then Some (snd (b_lents b ! nat (base_find b k))) else None))))"

definition dlsm_index_get ::
  "bool \<Rightarrow> dlsm_index option \<Rightarrow> key_ptr \<Rightarrow> (dlsm_status \<times> dlsm_delta_pointer option) option" where
  "dlsm_index_get has_out t key =
     (if t = None \<or> key_missing key \<or> \<not> has_out then Some (DLSM_INDEX_E_INVAL, None)
      else case get_from (the t) (Some (ix_root (the t))) (key_arg key) of
        None \<Rightarrow> None
      | Some None \<Rightarrow> Some (DLSM_INDEX_E_NOTFOUND, None)
      | Some (Some v) \<Rightarrow> Some (DLSM_OK, Some v))"

text \<open>
  The allocations of one write, in the order of the source: the delta; a consolidation, at the cap or
  after the write; the leaf split; the new root; and, \<open>d\<close> levels below the root of the path, the copy of
  a parent and the division of an internal node, with an allocation for the separator of each entry.
\<close>

datatype stage = At_Cap | After_Write

datatype site =
  Delta_Node | Delta_Key
| Merge_Array stage | Merge_Node stage | Merge_Low stage | Merge_High stage
| Split_Array | Split_Left | Split_Right | Split_Left_Ents | Split_Right_Ents | Split_Sep
| Left_Low | Left_High | Right_Low | Right_High
| Root_Node | Root_Ents
| Clone_Node nat | Clone_Ents nat | Clone_Sep nat nat | Clone_Low nat | Clone_High nat
| Div_Sep nat
| Div_Right nat | Div_Right_Ents nat | Div_Right_Sep nat nat | Div_Right_Low nat | Div_Right_High nat
| Div_Left nat | Div_Left_Ents nat | Div_Left_Sep nat nat | Div_Left_Low nat | Div_Left_High nat

type_synonym memory = "site \<Rightarrow> bool"

definition keydup :: "bool \<Rightarrow> key \<Rightarrow> key option" where
  "keydup granted k = (if granted then Some k else None)"

definition fdup :: "bool \<Rightarrow> key option \<Rightarrow> key option" where
  "fdup granted p = (case p of None \<Rightarrow> None | Some k \<Rightarrow> keydup granted k)"

text \<open>One attempt of \<open>try_consolidate\<close> with no other writer in between.\<close>

definition try_consolidate :: "memory \<Rightarrow> stage \<Rightarrow> pid \<Rightarrow> dlsm_index \<Rightarrow> dlsm_index" where
  "try_consolidate mem g p t = (case ix_map t p of
     None \<Rightarrow> t
   | Some (Base _) \<Rightarrow> t
   | Some h \<Rightarrow>
       (let bt = tail_base h in
        if \<not> b_leaf bt then t
        else case materialize_leaf (mem (Merge_Array g)) h of
            None \<Rightarrow> t
          | Some arr \<Rightarrow>
              if \<not> mem (Merge_Node g) then t
              else (set_head p (Base (base_leaf_new\<lparr>b_lents := arr, b_low := fdup (mem (Merge_Low g)) (b_low bt),
                 b_high := fdup (mem (Merge_High g)) (b_high bt), b_right := b_right bt\<rparr>)) t)
                 \<lparr>ix_consolidations := ix_consolidations t + 1\<rparr>))"

text \<open>The path of \<open>descend_with_path\<close>: the leaf and its ancestors, nearest first.\<close>

partial_function (option) descend_with_path ::
  "dlsm_index \<Rightarrow> pid option \<Rightarrow> key \<Rightarrow> pid list \<Rightarrow> (pid \<times> pid list) option" where
  [code]: "descend_with_path t po k path = (case po of None \<Rightarrow> None
     | Some p \<Rightarrow> (case ix_map t p of None \<Rightarrow> None
       | Some h \<Rightarrow> (let b = tail_base h in
           if past_fence b k then descend_with_path t (b_right b) k path
           else if \<not> b_leaf b then descend_with_path t (Some (route b k)) k (p # path)
           else Some (p, path))))"

text \<open>The loop of \<open>clone_internal_insert\<close> from entry \<open>i\<close>: the new entry goes behind the entry of \<open>child\<close>.\<close>

fun clone_ents :: "memory \<Rightarrow> nat \<Rightarrow> pid \<Rightarrow> idx_ent \<Rightarrow> nat \<Rightarrow> idx_ent list \<Rightarrow> idx_ent list" where
  "clone_ents mem d child e i [] = []"
| "clone_ents mem d child e i (x # xs) =
     (let y = (fdup (mem (Clone_Sep d i)) (fst x), snd x) in
      if snd x = child then y # e # clone_ents mem d child e (i + 1) xs
      else y # clone_ents mem d child e (i + 1) xs)"

definition clone_internal_insert :: "memory \<Rightarrow> nat \<Rightarrow> base \<Rightarrow> key \<Rightarrow> pid \<Rightarrow> pid \<Rightarrow> base option" where
  "clone_internal_insert mem d P sep child right =
     (if \<not> mem (Clone_Node d) then None
      else if \<not> mem (Clone_Ents d) then None
      else Some ((base_internal_new (b_level P))\<lparr>b_ients := clone_ents mem d child (Some sep, right) 0 (b_ients P),
        b_low := fdup (mem (Clone_Low d)) (b_low P), b_high := fdup (mem (Clone_High d)) (b_high P),
        b_right := b_right P\<rparr>))"

text \<open>The null pid as a number: a null \<open>right\<close> is stored as the child \<open>0xFFFFFFFF\<close>.\<close>

abbreviation pid_value :: "pid option \<Rightarrow> pid" where
  "pid_value p \<equiv> (case p of None \<Rightarrow> 0xFFFFFFFF | Some q \<Rightarrow> q)"

definition new_root :: "memory \<Rightarrow> pid \<Rightarrow> key \<Rightarrow> pid \<Rightarrow> dlsm_index \<Rightarrow> dlsm_index option" where
  "new_root mem child sep right t =
     (if \<not> mem Root_Node \<or> \<not> mem Root_Ents then None
      else let R = (base_internal_new (b_level (tail_base (the (ix_map t child))) + 1))
                \<lparr>b_ients := [(None, child), (Some sep, right)]\<rparr>;
          (rp, t1) = alloc_pid (Base R) t in
      Some (t1\<lparr>ix_root := pid_value rp\<rparr>))"

text \<open>The store of the copied parent; the copy is followed right after it, so a null copy is \<open>None\<close>.\<close>

definition publish_sep :: "memory \<Rightarrow> nat \<Rightarrow> pid \<Rightarrow> pid \<Rightarrow> key \<Rightarrow> pid \<Rightarrow> dlsm_index \<Rightarrow> dlsm_index option" where
  "publish_sep mem d parent child sep right t =
     (case clone_internal_insert mem d (tail_base (the (ix_map t parent))) sep child right of
        None \<Rightarrow> None
      | Some Pnew \<Rightarrow> Some (set_head parent (Base Pnew) t))"

definition internal_right :: "memory \<Rightarrow> nat \<Rightarrow> base \<Rightarrow> key \<Rightarrow> base" where
  "internal_right mem d N promoted =
     (let es = b_ients N; mid = length es div 2 in
      (base_internal_new (b_level N))\<lparr>
        b_ients := (None, snd (es ! mid)) #
          map (\<lambda>j. (fdup (mem (Div_Right_Sep d j)) (fst (es ! j)), snd (es ! j))) [mid + 1..<length es],
        b_low := keydup (mem (Div_Right_Low d)) promoted, b_high := fdup (mem (Div_Right_High d)) (b_high N),
        b_right := b_right N\<rparr>)"

definition internal_left :: "memory \<Rightarrow> nat \<Rightarrow> base \<Rightarrow> key \<Rightarrow> pid option \<Rightarrow> base" where
  "internal_left mem d N promoted nrp =
     (let es = b_ients N; mid = length es div 2 in
      (base_internal_new (b_level N))\<lparr>
        b_ients := map (\<lambda>j. (if j = 0 then None else fdup (mem (Div_Left_Sep d j)) (fst (es ! j)), snd (es ! j))) [0..<mid],
        b_low := fdup (mem (Div_Left_Low d)) (b_low N), b_high := keydup (mem (Div_Left_High d)) promoted,
        b_right := nrp\<rparr>)"

definition split_internal_store :: "memory \<Rightarrow> nat \<Rightarrow> pid \<Rightarrow> dlsm_index \<Rightarrow> (key \<times> pid option \<times> dlsm_index) option" where
  "split_internal_store mem d p t =
     (let N = tail_base (the (ix_map t p)) in
      case fdup (mem (Div_Sep d)) (fst (b_ients N ! (length (b_ients N) div 2))) of
        None \<Rightarrow> None
      | Some promoted \<Rightarrow>
          if \<not> mem (Div_Right d) \<or> \<not> mem (Div_Right_Ents d) \<or> \<not> mem (Div_Left d) \<or> \<not> mem (Div_Left_Ents d) then None
          else let (nrp, t1) = alloc_pid (Base (internal_right mem d N promoted)) t;
              t2 = set_head p (Base (internal_left mem d N promoted nrp)) t1 in
            Some (promoted, nrp, t2\<lparr>ix_internal_splits := ix_internal_splits t2 + 1\<rparr>))"

text \<open>\<open>install_sep\<close> and \<open>split_internal\<close> call each other up the path.\<close>

fun install_sep :: "memory \<Rightarrow> pid list \<Rightarrow> pid \<Rightarrow> key \<Rightarrow> pid option \<Rightarrow> dlsm_index \<Rightarrow> dlsm_index option" where
  "install_sep mem [] child sep right t = new_root mem child sep (pid_value right) t"
| "install_sep mem (parent # rest) child sep right t =
     (case publish_sep mem (length rest) parent child sep (pid_value right) t of
        None \<Rightarrow> None
      | Some t1 \<Rightarrow>
          if length (b_ients (tail_base (the (ix_map t1 parent)))) > DLSM_INTERNAL_MAX then
            (case split_internal_store mem (length rest) parent t1 of
               None \<Rightarrow> None
             | Some (promoted, nrp, t2) \<Rightarrow> install_sep mem rest parent promoted nrp t2)
          else Some t1)"

definition leaf_left :: "memory \<Rightarrow> base \<Rightarrow> leaf_ent list \<Rightarrow> pid option \<Rightarrow> base" where
  "leaf_left mem bt arr rp = base_leaf_new\<lparr>b_lents := take (length arr div 2) arr, b_low := fdup (mem Left_Low) (b_low bt),
     b_high := keydup (mem Left_High) (fst (arr ! (length arr div 2))), b_right := rp\<rparr>"

definition leaf_right :: "memory \<Rightarrow> base \<Rightarrow> leaf_ent list \<Rightarrow> base" where
  "leaf_right mem bt arr = base_leaf_new\<lparr>b_lents := drop (length arr div 2) arr,
     b_low := keydup (mem Right_Low) (fst (arr ! (length arr div 2))), b_high := fdup (mem Right_High) (b_high bt),
     b_right := b_right bt\<rparr>"

text \<open>
  The successful compare-and-swap of a leaf split, with the allocation of the right half before
  it: the right half's pid is not reachable until then, and a lost race gives the pid back.
\<close>

definition split_leaf_store :: "memory \<Rightarrow> pid \<Rightarrow> leaf_ent list \<Rightarrow> dlsm_index \<Rightarrow> pid option \<times> dlsm_index" where
  "split_leaf_store mem p arr t =
     (let bt = tail_base (the (ix_map t p));
          (rp, t1) = alloc_pid (Base (leaf_right mem bt arr)) t;
          t2 = set_head p (Base (leaf_left mem bt arr rp)) t1 in
      (rp, t2\<lparr>ix_leaf_splits := ix_leaf_splits t2 + 1\<rparr>))"

text \<open>
  The two new leaves are followed before they are tested; their arrays and the separator are tested.
\<close>

definition split_leaf :: "memory \<Rightarrow> key \<Rightarrow> dlsm_index \<Rightarrow> dlsm_index option" where
  "split_leaf mem k t =
     (case descend_with_path t (Some (ix_root t)) k [] of
        None \<Rightarrow> None
      | Some (p, path) \<Rightarrow>
          (case materialize_leaf (mem Split_Array) (the (ix_map t p)) of
             None \<Rightarrow> Some t
           | Some arr \<Rightarrow>
               if length arr \<le> DLSM_LEAF_MAX then Some t
               else if \<not> mem Split_Left \<or> \<not> mem Split_Right then None
               else if \<not> mem Split_Left_Ents \<or> \<not> mem Split_Right_Ents \<or> \<not> mem Split_Sep then Some t
               else (case split_leaf_store mem p arr t of (rp, t1) \<Rightarrow>
                 install_sep mem path p (fst (arr ! (length arr div 2))) rp t1)))"

fun chain_depth :: "chain \<Rightarrow> nat" where
  "chain_depth (Delta _ d _ _ _) = d"
| "chain_depth (Base _) = 0"

definition install_delta :: "pid \<Rightarrow> delta_op \<Rightarrow> key \<Rightarrow> dlsm_delta_pointer \<Rightarrow> dlsm_index \<Rightarrow> dlsm_index" where
  "install_delta p op k v t =
     (let h = the (ix_map t p) in set_head p (Delta op (chain_depth h + 1) k v h) t)"

text \<open>
  A write with no other writer in between. At the cap the chain is consolidated first; while that
  is refused for lack of memory the loop of the source does not end, which is \<open>None\<close>.
\<close>

definition write_run ::
  "memory \<Rightarrow> delta_op \<Rightarrow> key \<Rightarrow> dlsm_delta_pointer \<Rightarrow> dlsm_index \<Rightarrow> (dlsm_status \<times> dlsm_index) option" where
  "write_run mem op k v t =
     (case find_leaf t (Some (ix_root t)) k of
        None \<Rightarrow> None
      | Some p \<Rightarrow>
          (let t1 = (if chain_depth (the (ix_map t p)) \<ge> DLSM_CHAIN_CAP then try_consolidate mem At_Cap p t else t) in
           if chain_depth (the (ix_map t1 p)) \<ge> DLSM_CHAIN_CAP then None
           else if \<not> mem Delta_Node \<or> \<not> mem Delta_Key then Some (DLSM_INDEX_E_NOMEM, t1)
           else
             (let depth = chain_depth (the (ix_map t1 p)) + 1;
                  t2 = install_delta p op k v t1;
                  t3 = (if depth \<ge> DLSM_CONSOLIDATE_DEPTH then try_consolidate mem After_Write p t2 else t2);
                  b = tail_base (the (ix_map t3 p)) in
              if b_leaf b \<and> length (b_lents b) > DLSM_LEAF_MAX
              then (case split_leaf mem k t3 of None \<Rightarrow> None | Some t4 \<Rightarrow> Some (DLSM_OK, t4))
              else Some (DLSM_OK, t3))))"

definition write_op ::
  "memory \<Rightarrow> delta_op \<Rightarrow> key_ptr \<Rightarrow> dlsm_delta_pointer \<Rightarrow> dlsm_index option \<Rightarrow>
     (dlsm_status \<times> dlsm_index option) option" where
  "write_op mem op key v t =
     (if t = None \<or> key_missing key then Some (DLSM_INDEX_E_INVAL, t)
      else map_option (\<lambda>(st, t'). (st, Some t')) (write_run mem op (key_arg key) v (the t)))"

definition dlsm_index_insert ::
  "memory \<Rightarrow> dlsm_index option \<Rightarrow> key_ptr \<Rightarrow> dlsm_delta_pointer \<Rightarrow> (dlsm_status \<times> dlsm_index option) option" where
  "dlsm_index_insert mem t key v = write_op mem OP_INSERT key v t"

definition dlsm_index_update ::
  "memory \<Rightarrow> dlsm_index option \<Rightarrow> key_ptr \<Rightarrow> dlsm_delta_pointer \<Rightarrow> (dlsm_status \<times> dlsm_index option) option" where
  "dlsm_index_update mem t key v = write_op mem OP_UPDATE key v t"

definition tombstone :: dlsm_delta_pointer where
  "tombstone = \<lparr>dp_kind = 2, dp_file_id = 0, dp_offset = 0\<rparr>"

definition dlsm_index_delete ::
  "memory \<Rightarrow> dlsm_index option \<Rightarrow> key_ptr \<Rightarrow> (dlsm_status \<times> dlsm_index option) option" where
  "dlsm_index_delete mem t key = write_op mem OP_DELETE key tombstone t"

section \<open>Tested and untested allocations\<close>

text \<open>The sites whose refusal the source tests; \<open>backed\<close>: every other allocation is granted.\<close>

fun tested :: "site \<Rightarrow> bool" where
  "tested Delta_Node \<longleftrightarrow> True"
| "tested Delta_Key \<longleftrightarrow> True"
| "tested (Merge_Array _) \<longleftrightarrow> True"
| "tested (Merge_Node _) \<longleftrightarrow> True"
| "tested Split_Array \<longleftrightarrow> True"
| "tested Split_Left_Ents \<longleftrightarrow> True"
| "tested Split_Right_Ents \<longleftrightarrow> True"
| "tested Split_Sep \<longleftrightarrow> True"
| "tested _ \<longleftrightarrow> False"

definition backed :: "memory \<Rightarrow> bool" where
  "backed mem \<longleftrightarrow> (\<forall>s. \<not> tested s \<longrightarrow> mem s)"

lemma backedD: "backed mem \<Longrightarrow> \<not> tested s \<Longrightarrow> mem s"
  by (simp add: backed_def)

lemma backed_granted [simp]: "backed (\<lambda>_. True)"
  by (simp add: backed_def)

lemma dup_granted [simp]: "keydup True k = Some k" "fdup True p = p"
  by (simp_all add: keydup_def fdup_def split: option.splits)

section \<open>Statistics\<close>

text \<open>
  The statistics: the keys counted down the tree from a pid. \<open>None\<close> where the recursion does not end
  or follows a null pointer.
\<close>

fun sum_opt :: "nat option list \<Rightarrow> nat option" where
  "sum_opt [] = Some 0"
| "sum_opt (x # xs) = (case (x, sum_opt xs) of (Some a, Some b) \<Rightarrow> Some (a + b) | _ \<Rightarrow> None)"

fun count_live :: "nat \<Rightarrow> bool \<Rightarrow> dlsm_index \<Rightarrow> pid \<Rightarrow> nat option" where
  "count_live 0 mem t p = None"
| "count_live (Suc fuel) mem t p = (case ix_map t p of
     None \<Rightarrow> None
   | Some h \<Rightarrow>
       if \<not> b_leaf (tail_base h) then sum_opt (map (\<lambda>e. count_live fuel mem t (snd e)) (b_ients (tail_base h)))
       else (case materialize_leaf mem h of None \<Rightarrow> Some 0 | Some arr \<Rightarrow> Some (length arr)))"

record dlsm_index_stats =
  stat_height :: nat
  stat_consolidations :: nat
  stat_leaf_splits :: nat
  stat_internal_splits :: nat
  stat_live_keys :: nat

definition dlsm_index_stats_get :: "nat \<Rightarrow> bool \<Rightarrow> dlsm_index option \<Rightarrow> dlsm_index_stats option" where
  "dlsm_index_stats_get fuel mem ct = (case ct of
     None \<Rightarrow> Some \<lparr>stat_height = 0, stat_consolidations = 0, stat_leaf_splits = 0, stat_internal_splits = 0,
       stat_live_keys = 0\<rparr>
   | Some t \<Rightarrow> (case count_live fuel mem t (ix_root t) of
       None \<Rightarrow> None
     | Some n \<Rightarrow> Some \<lparr>stat_height = b_level (tail_base (the (ix_map t (ix_root t)))) + 1,
         stat_consolidations = ix_consolidations t, stat_leaf_splits = ix_leaf_splits t,
         stat_internal_splits = ix_internal_splits t, stat_live_keys = n\<rparr>))"

end
