(* ===== verification/Index_Inv.thy ===== *)
theory Index_Inv
  imports Index_Tree
begin

text \<open>
  The structural invariant of the Bw-tree and what it gives: every walk ends at the one leaf
  that covers the key, and the tree represents a finite map. The invariant also holds between
  the steps of a split, when a node has been divided and its parent does not know yet.
\<close>

section \<open>The invariant\<close>

abbreviation nd :: "dlsm_index \<Rightarrow> pid \<Rightarrow> base" where
  "nd t p \<equiv> tail_base (the (ix_map t p))"

abbreviation live :: "dlsm_index \<Rightarrow> pid \<Rightarrow> bool" where
  "live t p \<equiv> ix_map t p \<noteq> None"

text \<open>Fences: \<open>None\<close> is minus infinity as a low fence and plus infinity as a high fence.\<close>

definition above_low :: "base \<Rightarrow> key \<Rightarrow> bool" where
  "above_low b k \<longleftrightarrow> (\<forall>l. b_low b = Some l \<longrightarrow> l \<le> k)"

definition covers :: "base \<Rightarrow> key \<Rightarrow> bool" where
  "covers b k \<longleftrightarrow> above_low b k \<and> (\<forall>h. b_high b = Some h \<longrightarrow> k < h)"

definition nonempty_range :: "base \<Rightarrow> bool" where
  "nonempty_range b \<longleftrightarrow> (\<forall>l h. b_low b = Some l \<and> b_high b = Some h \<longrightarrow> l < h)"

fun delta_keys :: "chain \<Rightarrow> key set" where
  "delta_keys (Base _) = {}"
| "delta_keys (Delta _ _ k _ c) = insert k (delta_keys c)"

definition leaf_ok :: "chain \<Rightarrow> bool" where
  "leaf_ok c \<longleftrightarrow> b_level (tail_base c) = 0 \<and> keys_sorted (b_lents (tail_base c)) \<and>
     (\<forall>k \<in> fst ` set (b_lents (tail_base c)) \<union> delta_keys c. covers (tail_base c) k)"

text \<open>A child carries its separator as low fence; the first child carries the node's own.\<close>

definition child_ok :: "dlsm_index \<Rightarrow> base \<Rightarrow> key option \<Rightarrow> pid \<Rightarrow> bool" where
  "child_ok t b lo c \<longleftrightarrow> live t c \<and> b_level (nd t c) + 1 = b_level b \<and> b_low (nd t c) = lo"

definition in_bounds :: "base \<Rightarrow> key \<Rightarrow> bool" where
  "in_bounds b s \<longleftrightarrow> covers b s \<and> b_low b \<noteq> Some s"

definition entries_ok :: "dlsm_index \<Rightarrow> base \<Rightarrow> idx_ent list \<Rightarrow> bool" where
  "entries_ok t b rest \<longleftrightarrow> sorted_wrt (<) (map (the \<circ> fst) rest) \<and>
     (\<forall>(so, c) \<in> set rest. \<exists>s. so = Some s \<and> child_ok t b (Some s) c \<and> in_bounds b s)"

definition internal_ok :: "dlsm_index \<Rightarrow> chain \<Rightarrow> bool" where
  "internal_ok t c \<longleftrightarrow> (\<exists>b c0 rest. c = Base b \<and> b_ients b = (None, c0) # rest \<and> 0 < b_level b \<and>
     child_ok t b (b_low b) c0 \<and> entries_ok t b rest)"

definition right_ok :: "dlsm_index \<Rightarrow> base \<Rightarrow> bool" where
  "right_ok t b \<longleftrightarrow> (\<forall>h. b_high b = Some h \<longrightarrow>
     (\<exists>r. b_right b = Some r \<and> live t r \<and> b_low (nd t r) = Some h \<and> b_level (nd t r) = b_level b))"

definition node_ok :: "dlsm_index \<Rightarrow> pid \<Rightarrow> bool" where
  "node_ok t p \<longleftrightarrow> nonempty_range (nd t p) \<and> right_ok t (nd t p) \<and>
     (if b_leaf (nd t p) then leaf_ok (the (ix_map t p)) else internal_ok t (the (ix_map t p)))"

definition tree_wf :: "dlsm_index \<Rightarrow> bool" where
  "tree_wf t \<longleftrightarrow> live t (ix_root t) \<and> b_low (nd t (ix_root t)) = None \<and>
     (\<forall>p. live t p \<longrightarrow> p < ix_next_pid t \<and> node_ok t p \<and> b_level (nd t p) \<le> b_level (nd t (ix_root t))) \<and>
     (\<forall>p q k. live t p \<and> live t q \<and> b_level (nd t p) = b_level (nd t q) \<and>
        covers (nd t p) k \<and> covers (nd t q) k \<longrightarrow> p = q)"

lemma wfD:
  assumes "tree_wf t"
  shows "live t (ix_root t)" and "b_low (nd t (ix_root t)) = None"
    and "live t p \<Longrightarrow> p < ix_next_pid t" and "live t p \<Longrightarrow> node_ok t p"
    and "live t p \<Longrightarrow> live t q \<Longrightarrow> b_level (nd t p) = b_level (nd t q) \<Longrightarrow>
      covers (nd t p) k \<Longrightarrow> covers (nd t q) k \<Longrightarrow> p = q"
    and "live t p \<Longrightarrow> b_level (nd t p) \<le> b_level (nd t (ix_root t))"
  using assms by (auto simp: tree_wf_def)

lemma wfI:
  assumes "live t (ix_root t)" and "b_low (nd t (ix_root t)) = None"
    and "\<And>p. live t p \<Longrightarrow> p < ix_next_pid t" and "\<And>p. live t p \<Longrightarrow> node_ok t p"
    and "\<And>p. live t p \<Longrightarrow> b_level (nd t p) \<le> b_level (nd t (ix_root t))"
    and "\<And>p q k. live t p \<Longrightarrow> live t q \<Longrightarrow> b_level (nd t p) = b_level (nd t q) \<Longrightarrow>
      covers (nd t p) k \<Longrightarrow> covers (nd t q) k \<Longrightarrow> p = q"
  shows "tree_wf t"
  unfolding tree_wf_def using assms by blast

lemma wf_leaf: "tree_wf t \<Longrightarrow> live t p \<Longrightarrow> b_leaf (nd t p) \<Longrightarrow> leaf_ok (the (ix_map t p))"
  using wfD(4) by (fastforce simp: node_ok_def)

lemma wf_internal:
  assumes "tree_wf t" and "live t p" and "\<not> b_leaf (nd t p)"
  obtains b where "ix_map t p = Some (Base b)" and "internal_ok t (Base b)"
  using assms wfD(4) [OF assms(1,2)] by (auto simp: node_ok_def internal_ok_def)

lemma entries_seps_ok:
  assumes "b_ients b = (None, c0) # rest" and "entries_ok t b rest"
  shows "seps_ok (b_ients b)"
proof -
  have n: "fst (rest ! j) \<noteq> None" if "j < length rest" for j
    using assms(2) nth_mem [OF that] by (cases "rest ! j") (auto simp: entries_ok_def)
  have "the (fst (rest ! i)) < the (fst (rest ! j))" if "i < j" "j < length rest" for i j
    using assms(2) that by (simp add: entries_ok_def sorted_wrt_iff_nth_less)
  with n assms(1) show ?thesis
    unfolding seps_ok_def by (auto simp: nth_Cons split: nat.splits)
qed

lemma wf_right:
  assumes "tree_wf t" and "live t p" and "b_high (nd t p) = Some h"
  obtains r where "b_right (nd t p) = Some r" and "live t r" and "b_low (nd t r) = Some h"
    and "b_level (nd t r) = b_level (nd t p)"
  using assms wfD(4) [OF assms(1,2)] by (auto simp: node_ok_def right_ok_def)

lemma wf_range: "tree_wf t \<Longrightarrow> live t p \<Longrightarrow> nonempty_range (nd t p)"
  using wfD(4) by (auto simp: node_ok_def)

lemma wf_level: "tree_wf t \<Longrightarrow> live t p \<Longrightarrow> b_leaf (nd t p) \<longleftrightarrow> b_level (nd t p) = 0"
  using wfD(4) [of t p] by (auto simp: node_ok_def leaf_ok_def internal_ok_def split: if_splits)

section \<open>Walks end at the covering leaf\<close>

text \<open>The nodes of one level to the right of a node; a hop to the right sibling leaves one behind.\<close>

definition right_of :: "dlsm_index \<Rightarrow> pid \<Rightarrow> pid set" where
  "right_of t p = {q. live t q \<and> b_low (nd t p) < b_low (nd t q)}"

lemma finite_right_of: "tree_wf t \<Longrightarrow> finite (right_of t p)"
  by (rule finite_subset [of _ "{..<ix_next_pid t}"]) (auto simp: right_of_def dest: wfD(3))

definition walk_measure :: "dlsm_index \<Rightarrow> pid \<Rightarrow> nat" where
  "walk_measure t p = b_level (nd t p) * (ix_next_pid t + 1) + card (right_of t p)"

lemma card_right_of: "tree_wf t \<Longrightarrow> card (right_of t p) \<le> ix_next_pid t"
  using card_mono [of "{..<ix_next_pid t}" "right_of t p"] by (auto simp: right_of_def dest: wfD(3))

lemma right_hop_measure:
  assumes "tree_wf t" and "live t p" and "b_high (nd t p) = Some h" and "live t r" and "b_low (nd t r) = Some h"
    and "b_level (nd t r) = b_level (nd t p)"
  shows "walk_measure t r < walk_measure t p"
proof -
  have lt: "b_low (nd t p) < b_low (nd t r)"
    using wf_range [OF assms(1,2)] assms(3,5) by (cases "b_low (nd t p)") (auto simp: nonempty_range_def)
  then have "right_of t r \<subset> right_of t p" using assms(4) by (auto simp: right_of_def)
  then have "card (right_of t r) < card (right_of t p)"
    using finite_right_of [OF assms(1)] psubset_card_mono by blast
  with assms(6) show ?thesis by (simp add: walk_measure_def)
qed

lemma down_measure:
  assumes "tree_wf t" and "b_level (nd t c) + 1 = b_level (nd t p)"
  shows "walk_measure t c < walk_measure t p"
proof -
  have "b_level (nd t p) * (ix_next_pid t + 1) = b_level (nd t c) * (ix_next_pid t + 1) + (ix_next_pid t + 1)"
    using assms(2) [symmetric] by (simp add: algebra_simps)
  with card_right_of [OF assms(1), of c] show ?thesis by (simp add: walk_measure_def)
qed

text \<open>The child a key is routed to has its low fence at or below the key.\<close>

lemma route_child:
  assumes "tree_wf t" and "live t p" and "\<not> b_leaf (nd t p)" and "above_low (nd t p) k"
  shows "live t (route (nd t p) k)" and "b_level (nd t (route (nd t p) k)) + 1 = b_level (nd t p)"
    and "above_low (nd t (route (nd t p) k)) k" and "route (nd t p) k \<in> snd ` set (b_ients (nd t p))"
proof -
  obtain b where b: "ix_map t p = Some (Base b)" and i: "internal_ok t (Base b)"
    using wf_internal [OF assms(1-3)] .
  then obtain c0 rest where es: "b_ients b = (None, c0) # rest" "child_ok t b (b_low b) c0" "entries_ok t b rest"
    by (auto simp: internal_ok_def)
  have s: "seps_ok (b_ients b)" using entries_seps_ok [OF es(1,3)] .
  have ne: "b_ients b \<noteq> []" using es(1) by simp
  from route_correct [OF ne s, of k] obtain i where i: "i < length (b_ients b)"
    "route b k = snd (b_ients b ! i)" "0 < i \<longrightarrow> the (fst (b_ients b ! i)) \<le> k" by blast
  have ch: "\<exists>lo. child_ok t b lo (route b k) \<and> (\<forall>l. lo = Some l \<longrightarrow> l \<le> k)"
  proof (cases i)
    case 0
    with i(2) es(1,2) assms(4) b show ?thesis by (auto simp: above_low_def)
  next
    case (Suc j)
    then have j: "rest ! j \<in> set rest" "b_ients b ! i = rest ! j" using i(1) es(1) by auto
    obtain s where "fst (rest ! j) = Some s" "child_ok t b (Some s) (snd (rest ! j))"
      using es(3) j(1) by (cases "rest ! j") (auto simp: entries_ok_def)
    with i(2,3) Suc j(2) show ?thesis by (intro exI [of _ "Some s"]) auto
  qed
  with i(1,2) b show "live t (route (nd t p) k)"
    "b_level (nd t (route (nd t p) k)) + 1 = b_level (nd t p)"
    "above_low (nd t (route (nd t p) k)) k" "route (nd t p) k \<in> snd ` set (b_ients (nd t p))"
    by (auto simp: child_ok_def above_low_def)
qed

lemma covers_iff: "covers b k \<longleftrightarrow> above_low b k \<and> \<not> past_fence b k"
  by (auto simp: covers_def past_fence_iff)

text \<open>The induction behind every walk: one hop to the right, or one level down, or a leaf.\<close>

lemma walk_induct [consumes 3, case_names right down leaf]:
  assumes wf: "tree_wf t" and lv: "live t p" and ab: "above_low (nd t p) k"
    and right: "\<And>p r. live t p \<Longrightarrow> past_fence (nd t p) k \<Longrightarrow> b_right (nd t p) = Some r \<Longrightarrow> live t r \<Longrightarrow>
      above_low (nd t r) k \<Longrightarrow> P r \<Longrightarrow> P p"
    and down: "\<And>p. live t p \<Longrightarrow> covers (nd t p) k \<Longrightarrow> \<not> b_leaf (nd t p) \<Longrightarrow> live t (route (nd t p) k) \<Longrightarrow>
      above_low (nd t (route (nd t p) k)) k \<Longrightarrow> P (route (nd t p) k) \<Longrightarrow> P p"
    and leaf: "\<And>p. live t p \<Longrightarrow> covers (nd t p) k \<Longrightarrow> b_leaf (nd t p) \<Longrightarrow> P p"
  shows "P p"
  using lv ab
proof (induction "walk_measure t p" arbitrary: p rule: less_induct)
  case less
  show ?case
  proof (cases "past_fence (nd t p) k")
    case True
    then obtain h where h: "b_high (nd t p) = Some h" "h \<le> k" by (auto simp: past_fence_iff)
    obtain r where r: "b_right (nd t p) = Some r" "live t r" "b_low (nd t r) = Some h"
      "b_level (nd t r) = b_level (nd t p)" using wf_right [OF wf less.prems(1) h(1)] .
    have "above_low (nd t r) k" using r(3) h(2) by (simp add: above_low_def)
    with less.hyps [OF right_hop_measure [OF wf less.prems(1) h(1) r(2,3,4)] r(2)] right True r less.prems
    show ?thesis by blast
  next
    case False
    then have c: "covers (nd t p) k" using less.prems(2) by (simp add: covers_iff)
    show ?thesis
    proof (cases "b_leaf (nd t p)")
      case True
      with leaf c less.prems(1) show ?thesis by blast
    next
      case nl: False
      note ch = route_child [OF wf less.prems(1) nl less.prems(2)]
      with less.hyps [OF down_measure [OF wf ch(2)] ch(1,3)] down c nl less.prems(1) show ?thesis by blast
    qed
  qed
qed

lemma find_leaf_step:
  "live t p \<Longrightarrow> find_leaf t (Some p) k =
     (if past_fence (nd t p) k then find_leaf t (b_right (nd t p)) k
      else if \<not> b_leaf (nd t p) then find_leaf t (Some (route (nd t p) k)) k else Some p)"
  by (subst find_leaf.simps) (auto simp: Let_def)

lemma find_leaf_covers:
  assumes "tree_wf t" and "live t p" and "above_low (nd t p) k"
  shows "\<exists>q. find_leaf t (Some p) k = Some q \<and> live t q \<and> b_leaf (nd t q) \<and> covers (nd t q) k"
  using assms
proof (induction rule: walk_induct)
  case (right p r)
  then show ?case by (simp add: find_leaf_step [of t p])
next
  case (down p)
  then show ?case by (simp add: find_leaf_step [of t p] covers_iff)
next
  case (leaf p)
  then show ?case by (auto simp: find_leaf_step [of t p] covers_iff)
qed

lemma wf_root_above: "tree_wf t \<Longrightarrow> above_low (nd t (ix_root t)) k"
  using wfD(2) by (simp add: above_low_def)

lemmas find_root_leaf = find_leaf_covers [OF _ wfD(1) wf_root_above]

lemma covering_leaf_unique:
  assumes "tree_wf t" and "live t p" and "b_leaf (nd t p)" and "covers (nd t p) k"
    and "live t q" and "b_leaf (nd t q)" and "covers (nd t q) k"
  shows "p = q"
  using wfD(5) [OF assms(1,2,5) _ assms(4,7)] wf_level [OF assms(1,2)] wf_level [OF assms(1,5)] assms(3,6) by simp

section \<open>The map a tree represents\<close>

definition index_rep :: "dlsm_index \<Rightarrow> (key \<rightharpoonup> dlsm_delta_pointer) \<Rightarrow> bool" where
  "index_rep t m \<longleftrightarrow> tree_wf t \<and>
     (\<forall>p k. live t p \<and> b_leaf (nd t p) \<and> covers (nd t p) k \<longrightarrow> chain_map (the (ix_map t p)) k = m k)"

lemma index_rep_wf: "index_rep t m \<Longrightarrow> tree_wf t"
  by (simp add: index_rep_def)

lemma index_repD: "index_rep t m \<Longrightarrow> live t p \<Longrightarrow> b_leaf (nd t p) \<Longrightarrow> covers (nd t p) k \<Longrightarrow>
    chain_map (the (ix_map t p)) k = m k"
  unfolding index_rep_def by blast

lemma index_rep_unique:
  assumes "index_rep t m" and "index_rep t m'"
  shows "m = m'"
proof (rule ext)
  fix k
  obtain q where "live t q" "b_leaf (nd t q)" "covers (nd t q) k"
    using find_root_leaf [OF index_rep_wf [OF assms(1)] index_rep_wf [OF assms(1)] index_rep_wf [OF assms(1)]] by blast
  with assms show "m k = m' k" unfolding index_rep_def by metis
qed

lemma chain_scan_eq:
  "chain_scan c k = (if k \<in> delta_keys c then Inl (chain_map c k) else Inr (tail_base c))"
  by (induction c) (auto simp: keycmp_simps)

lemma chain_map_base: "k \<notin> delta_keys c \<Longrightarrow> chain_map c k = map_of (b_lents (tail_base c)) k"
  by (induction c) auto

lemma get_from_step:
  "live t p \<Longrightarrow> k \<notin> delta_keys (the (ix_map t p)) \<Longrightarrow> get_from t (Some p) k =
     (if past_fence (nd t p) k then get_from t (b_right (nd t p)) k
      else if \<not> b_leaf (nd t p) then get_from t (Some (route (nd t p) k)) k
      else Some (if base_find (nd t p) k \<ge> 0 then Some (snd (b_lents (nd t p) ! nat (base_find (nd t p) k))) else None))"
  by (subst get_from.simps) (auto simp: chain_scan_eq)

lemma get_from_hit:
  "live t p \<Longrightarrow> k \<in> delta_keys (the (ix_map t p)) \<Longrightarrow> get_from t (Some p) k = Some (chain_map (the (ix_map t p)) k)"
  by (subst get_from.simps) (auto simp: chain_scan_eq)

lemma wf_delta_covers:
  assumes "tree_wf t" and "live t p" and "k \<in> delta_keys (the (ix_map t p))"
  shows "b_leaf (nd t p) \<and> covers (nd t p) k"
proof (cases "b_leaf (nd t p)")
  case True
  with wf_leaf [OF assms(1,2)] assms(3) show ?thesis by (simp add: leaf_ok_def)
next
  case False
  from wf_internal [OF assms(1,2) False] obtain b where "ix_map t p = Some (Base b)" by blast
  with assms(3) show ?thesis by simp
qed

text \<open>A read that starts at any node left of the key returns what the map holds.\<close>

lemma get_from_correct:
  assumes rep: "index_rep t m" and "live t p" and "above_low (nd t p) k"
  shows "get_from t (Some p) k = Some (m k)"
  using index_rep_wf [OF rep] assms(2,3)
proof (induction rule: walk_induct)
  case (right p r)
  have "k \<notin> delta_keys (the (ix_map t p))"
    using wf_delta_covers [OF index_rep_wf [OF rep] right(1)] right(2) by (auto simp: covers_iff)
  with right show ?case by (simp add: get_from_step)
next
  case (down p)
  have "k \<notin> delta_keys (the (ix_map t p))"
    using wf_delta_covers [OF index_rep_wf [OF rep] down(1)] down(3) by auto
  with down show ?case by (simp add: get_from_step covers_iff)
next
  case (leaf p)
  have m: "chain_map (the (ix_map t p)) k = m k" using rep leaf by (auto simp: index_rep_def)
  show ?case
  proof (cases "k \<in> delta_keys (the (ix_map t p))")
    case True
    with leaf m get_from_hit show ?thesis by simp
  next
    case False
    have "keys_sorted (b_lents (nd t p))"
      using wf_leaf [OF index_rep_wf [OF rep] leaf(1,3)] by (simp add: leaf_ok_def)
    from base_find_correct [OF this, of k] chain_map_base [OF False] m leaf False show ?thesis
      by (simp add: get_from_step covers_iff split: if_splits)
  qed
qed

section \<open>Changes of the tree\<close>

text \<open>A node keeps its low fence and its level for life.\<close>

definition shape_kept :: "dlsm_index \<Rightarrow> dlsm_index \<Rightarrow> bool" where
  "shape_kept t t' \<longleftrightarrow> (\<forall>p. live t p \<longrightarrow>
     live t' p \<and> b_low (nd t' p) = b_low (nd t p) \<and> b_level (nd t' p) = b_level (nd t p))"

lemma child_ok_kept: "shape_kept t t' \<Longrightarrow> child_ok t b lo c \<Longrightarrow> child_ok t' b lo c"
  by (auto simp: child_ok_def shape_kept_def)

lemma entries_ok_kept: "shape_kept t t' \<Longrightarrow> entries_ok t b rest \<Longrightarrow> entries_ok t' b rest"
  unfolding entries_ok_def using child_ok_kept [of t t'] by fast

lemma internal_ok_kept: "shape_kept t t' \<Longrightarrow> internal_ok t c \<Longrightarrow> internal_ok t' c"
  unfolding internal_ok_def using child_ok_kept [of t t'] entries_ok_kept [of t t'] by metis

lemma right_ok_kept: "shape_kept t t' \<Longrightarrow> right_ok t b \<Longrightarrow> right_ok t' b"
  unfolding right_ok_def shape_kept_def by metis

lemma node_ok_kept:
  assumes "shape_kept t t'" and "ix_map t' p = ix_map t p" and "node_ok t p"
  shows "node_ok t' p"
  using assms internal_ok_kept [OF assms(1)] right_ok_kept [OF assms(1)] by (auto simp: node_ok_def)

text \<open>Replacing a leaf's chain, fences and sibling kept: a delta, or a consolidated base.\<close>

definition same_place :: "base \<Rightarrow> base \<Rightarrow> bool" where
  "same_place b b' \<longleftrightarrow> b_leaf b' = b_leaf b \<and> b_level b' = b_level b \<and> b_low b' = b_low b \<and>
     b_high b' = b_high b \<and> b_right b' = b_right b"

lemma same_place_covers: "same_place b b' \<Longrightarrow> covers b' k = covers b k"
  by (simp add: same_place_def covers_def above_low_def)

lemma set_head_live [simp]: "live (set_head p c t) q \<longleftrightarrow> q = p \<or> live t q"
  by (simp add: set_head_def)

lemma set_head_map [simp]: "ix_map (set_head p c t) q = (if q = p then Some c else ix_map t q)"
  by (simp add: set_head_def)

lemma set_head_root [simp]:
  "ix_root (set_head p c t) = ix_root t" "ix_next_pid (set_head p c t) = ix_next_pid t"
  by (simp_all add: set_head_def)

lemma wf_counters [simp]:
  "tree_wf (t\<lparr>ix_consolidations := n\<rparr>) = tree_wf t" "tree_wf (t\<lparr>ix_leaf_splits := n\<rparr>) = tree_wf t"
  "tree_wf (t\<lparr>ix_internal_splits := n\<rparr>) = tree_wf t"
  by (simp_all add: tree_wf_def node_ok_def internal_ok_def right_ok_def entries_ok_def child_ok_def)

lemma index_rep_counters [simp]:
  "index_rep (t\<lparr>ix_consolidations := n\<rparr>) m = index_rep t m" "index_rep (t\<lparr>ix_leaf_splits := n\<rparr>) m = index_rep t m"
  "index_rep (t\<lparr>ix_internal_splits := n\<rparr>) m = index_rep t m"
  by (simp_all add: index_rep_def)

lemma wf_replace:
  assumes wf: "tree_wf t" and lv: "live t p" and sp: "same_place (nd t p) (tail_base c)"
    and ok: "if b_leaf (nd t p) then leaf_ok c else internal_ok t c"
  shows "tree_wf (set_head p c t)"
proof -
  let ?t = "set_head p c t"
  have pl: "same_place (nd t q) (nd ?t q)" for q using sp by (auto simp: same_place_def)
  have sk: "shape_kept t ?t" using pl by (auto simp: shape_kept_def same_place_def)
  have sp': "b_low (tail_base c) = b_low (nd t p)" "b_high (tail_base c) = b_high (nd t p)"
    "b_right (tail_base c) = b_right (nd t p)" "b_level (tail_base c) = b_level (nd t p)"
    "b_leaf (tail_base c) = b_leaf (nd t p)" using sp by (auto simp: same_place_def)
  have nk: "node_ok ?t q" if q: "live ?t q" for q
  proof (cases "q = p")
    case False
    then show ?thesis using node_ok_kept [OF sk, of q] wfD(4) [OF wf, of q] q by simp
  next
    case True
    have "nonempty_range (tail_base c)" using wf_range [OF wf lv] sp' by (simp add: nonempty_range_def)
    moreover have "right_ok t (tail_base c)"
      using wfD(4) [OF wf lv] sp' by (simp add: node_ok_def right_ok_def)
    then have "right_ok ?t (tail_base c)" by (rule right_ok_kept [OF sk])
    ultimately show ?thesis
      using ok internal_ok_kept [OF sk, of c] True sp' by (auto simp: node_ok_def)
  qed
  have lv': "live ?t q \<longleftrightarrow> live t q" for q using lv by auto
  have lev: "b_level (nd ?t q) = b_level (nd t q)" "b_low (nd ?t q) = b_low (nd t q)" for q
    using pl [of q] by (simp_all add: same_place_def)
  show ?thesis
  proof (rule wfI)
    show "live ?t (ix_root ?t)" using wfD(1) [OF wf] by simp
    show "b_low (nd ?t (ix_root ?t)) = None" using wfD(2) [OF wf] lev(2) by simp
    show "q < ix_next_pid ?t" if "live ?t q" for q using wfD(3) [OF wf] that lv' by simp
    show "b_level (nd ?t q) \<le> b_level (nd ?t (ix_root ?t))" if "live ?t q" for q
      using wfD(6) [OF wf] that unfolding lv' lev by simp
    show "q = r" if "live ?t q" "live ?t r" "b_level (nd ?t q) = b_level (nd ?t r)"
      "covers (nd ?t q) k" "covers (nd ?t r) k" for q r k
      using wfD(5) [OF wf, of q r k] that unfolding lv' lev same_place_covers [OF pl] by blast
  qed (rule nk)
qed

lemma rep_replace_leaf:
  assumes rep: "index_rep t m" and lv: "live t p" and lf: "b_leaf (nd t p)"
    and sp: "same_place (nd t p) (tail_base c)" and ok: "leaf_ok c"
    and cm: "\<And>k. covers (nd t p) k \<Longrightarrow> chain_map c k = m' k"
    and other: "\<And>k. \<not> covers (nd t p) k \<Longrightarrow> m' k = m k"
  shows "index_rep (set_head p c t) m'"
proof -
  have wf: "tree_wf t" using rep by (rule index_rep_wf)
  have "tree_wf (set_head p c t)" using wf_replace [OF wf lv sp] lf ok by simp
  moreover have "chain_map (the (ix_map (set_head p c t) q)) k = m' k"
    if "live (set_head p c t) q" "b_leaf (nd (set_head p c t) q)" "covers (nd (set_head p c t) q) k" for q k
  proof (cases "q = p")
    case True
    with that(3) cm sp show ?thesis by (simp add: same_place_covers)
  next
    case False
    with that have q: "live t q" "b_leaf (nd t q)" "covers (nd t q) k" by auto
    with False covering_leaf_unique [OF wf lv lf _ q] have "\<not> covers (nd t p) k" by blast
    with q rep False other show ?thesis by (auto simp: index_rep_def)
  qed
  ultimately show ?thesis by (simp add: index_rep_def)
qed

text \<open>A delta on the leaf that covers its key changes the map at that key.\<close>

definition op_value :: "delta_op \<Rightarrow> dlsm_delta_pointer \<Rightarrow> dlsm_delta_pointer option" where
  "op_value op v = (if op \<noteq> OP_DELETE then Some v else None)"

lemma install_delta_rep:
  assumes rep: "index_rep t m" and lv: "live t p" and lf: "b_leaf (nd t p)" and cv: "covers (nd t p) k"
  shows "index_rep (install_delta p op k v t) (m(k := op_value op v))"
proof -
  have "leaf_ok (the (ix_map t p))" using wf_leaf [OF index_rep_wf [OF rep] lv lf] .
  moreover have "chain_map (the (ix_map t p)) j = m j" if "covers (nd t p) j" for j
    using rep that lv lf by (auto simp: index_rep_def)
  ultimately show ?thesis
    unfolding install_delta_def Let_def
    by (intro rep_replace_leaf [OF rep lv lf])
      (use cv in \<open>auto simp: same_place_def leaf_ok_def op_value_def\<close>)
qed

text \<open>Consolidation keeps the map.\<close>

lemma try_consolidate_rep:
  assumes rep: "index_rep t m" and lv: "live t p" and lf: "b_leaf (nd t p)" and bk: "backed mem"
  shows "index_rep (try_consolidate mem g p t) m"
proof -
  obtain h where h: "ix_map t p = Some h" using lv by auto
  have lo: "leaf_ok h" using wf_leaf [OF index_rep_wf [OF rep] lv lf] h by simp
  then have "keys_sorted (b_lents (tail_base h))" by (simp add: leaf_ok_def)
  from materialize_leaf_correct [OF this] obtain arr where
    arr: "materialize_leaf True h = Some arr" "keys_sorted arr" "map_of arr = chain_map h" by blast
  let ?nb = "base_leaf_new\<lparr>b_lents := arr, b_low := b_low (tail_base h), b_high := b_high (tail_base h),
                 b_right := b_right (tail_base h)\<rparr>"
  have keys: "covers (tail_base h) k" if "k \<in> fst ` set arr" for k
  proof -
    have "chain_map h k \<noteq> None" using that arr(3) by (metis map_of_eq_None_iff)
    then have "k \<in> delta_keys h \<or> k \<in> fst ` set (b_lents (tail_base h))"
      by (metis chain_map_base map_of_eq_None_iff)
    with lo show ?thesis by (auto simp: leaf_ok_def)
  qed
  have sp: "same_place (nd t p) (tail_base (Base ?nb))"
    using h lf lo by (simp add: same_place_def base_leaf_new_def leaf_ok_def)
  have "leaf_ok (Base ?nb)"
    using arr(2) keys by (simp add: leaf_ok_def base_leaf_new_def covers_def above_low_def)
  moreover have "chain_map (Base ?nb) k = m k" if "covers (nd t p) k" for k
    using index_repD [OF rep lv lf that] h arr(3) by (simp add: base_leaf_new_def)
  ultimately have "index_rep (set_head p (Base ?nb) t) m"
    by (intro rep_replace_leaf [OF rep lv lf sp]) auto
  moreover have "try_consolidate mem g p t = t \<or> try_consolidate mem g p t =
      (set_head p (Base ?nb) t)\<lparr>ix_consolidations := ix_consolidations t + 1\<rparr>"
    using h lf arr(1) backedD [OF bk, of "Merge_Low g"] backedD [OF bk, of "Merge_High g"]
    by (cases "mem (Merge_Array g)"; cases h) (auto simp: try_consolidate_def Let_def materialize_leaf_def)
  ultimately show ?thesis using rep by auto
qed

lemma try_consolidate_frame:
  assumes "live t p"
  shows "live (try_consolidate mem g p t) q \<longleftrightarrow> live t q" and "ix_root (try_consolidate mem g p t) = ix_root t"
    and "ix_next_pid (try_consolidate mem g p t) = ix_next_pid t"
    and "tree_wf t \<Longrightarrow> backed mem \<Longrightarrow> same_place (nd t q) (nd (try_consolidate mem g p t) q)"
proof -
  obtain h where h: "ix_map t p = Some h" using assms by auto
  show "live (try_consolidate mem g p t) q \<longleftrightarrow> live t q" "ix_root (try_consolidate mem g p t) = ix_root t"
    "ix_next_pid (try_consolidate mem g p t) = ix_next_pid t"
    using h by (auto simp: try_consolidate_def Let_def split: option.splits chain.splits)
  show "same_place (nd t q) (nd (try_consolidate mem g p t) q)" if "tree_wf t" "backed mem"
    using h wf_level [OF that(1) assms] backedD [OF that(2), of "Merge_Low g"] backedD [OF that(2), of "Merge_High g"]
    by (auto simp: try_consolidate_def Let_def same_place_def base_leaf_new_def split: option.splits chain.splits)
qed

section \<open>Splitting a node\<close>

text \<open>
  The common part of both splits: a node \<open>p\<close> keeps the range below \<open>s\<close>, a new node \<open>r\<close> takes the
  range from \<open>s\<close> on, and \<open>p\<close> links to \<open>r\<close>.
\<close>

definition node_split ::
  "dlsm_index \<Rightarrow> dlsm_index \<Rightarrow> pid \<Rightarrow> pid \<Rightarrow> chain \<Rightarrow> chain \<Rightarrow> key \<Rightarrow> bool" where
  "node_split t t' p r c1 c2 s \<longleftrightarrow> tree_wf t \<and> live t p \<and> \<not> live t r \<and>
     ix_map t' = (ix_map t)(p \<mapsto> c1, r \<mapsto> c2) \<and> ix_root t' = ix_root t \<and>
     ix_next_pid t \<le> ix_next_pid t' \<and> r < ix_next_pid t' \<and>
     b_leaf (tail_base c1) = b_leaf (nd t p) \<and> b_level (tail_base c1) = b_level (nd t p) \<and>
     b_low (tail_base c1) = b_low (nd t p) \<and> b_high (tail_base c1) = Some s \<and> b_right (tail_base c1) = Some r \<and>
     b_leaf (tail_base c2) = b_leaf (nd t p) \<and> b_level (tail_base c2) = b_level (nd t p) \<and>
     b_low (tail_base c2) = Some s \<and> b_high (tail_base c2) = b_high (nd t p) \<and>
     b_right (tail_base c2) = b_right (nd t p) \<and> covers (nd t p) s \<and> b_low (nd t p) \<noteq> Some s"

lemma node_split_state:
  assumes "node_split t t' p r c1 c2 s"
  shows "tree_wf t" and "live t p" and "\<not> live t r" and "r \<noteq> p"
    and "ix_map t' = (ix_map t)(p \<mapsto> c1, r \<mapsto> c2)" and "ix_root t' = ix_root t"
    and "ix_next_pid t \<le> ix_next_pid t'" and "r < ix_next_pid t'"
    and "live t' q \<longleftrightarrow> q = r \<or> live t q"
    and "nd t' q = (if q = r then tail_base c2 else if q = p then tail_base c1 else nd t q)"
  using assms by (auto simp: node_split_def)

lemma node_split_bases:
  assumes "node_split t t' p r c1 c2 s"
  shows "b_leaf (tail_base c1) = b_leaf (nd t p)" and "b_level (tail_base c1) = b_level (nd t p)"
    and "b_low (tail_base c1) = b_low (nd t p)" and "b_high (tail_base c1) = Some s"
    and "b_right (tail_base c1) = Some r"
    and "b_leaf (tail_base c2) = b_leaf (nd t p)" and "b_level (tail_base c2) = b_level (nd t p)"
    and "b_low (tail_base c2) = Some s" and "b_high (tail_base c2) = b_high (nd t p)"
    and "b_right (tail_base c2) = b_right (nd t p)"
    and "b_low (nd t p) = Some l \<Longrightarrow> l < s" and "b_high (nd t p) = Some h \<Longrightarrow> s < h"
  using assms by (auto simp: node_split_def covers_def above_low_def)

lemma node_split_covers:
  assumes "node_split t t' p r c1 c2 s"
  shows "covers (tail_base c1) k \<longleftrightarrow> covers (nd t p) k \<and> k < s"
    and "covers (tail_base c2) k \<longleftrightarrow> covers (nd t p) k \<and> s \<le> k"
  using node_split_bases [OF assms] by (auto simp: covers_def above_low_def)

lemma node_split_kept: "node_split t t' p r c1 c2 s \<Longrightarrow> shape_kept t t'"
  by (auto simp: node_split_def shape_kept_def)

lemma node_split_node_ok:
  assumes sp: "node_split t t' p r c1 c2 s" and q: "live t' q"
    and ok: "if b_leaf (nd t p) then leaf_ok c1 \<and> leaf_ok c2 else internal_ok t' c1 \<and> internal_ok t' c2"
  shows "node_ok t' q"
proof -
  note st = node_split_state [OF sp] and bs = node_split_bases [OF sp]
  have ro: "right_ok t' (tail_base c1)" unfolding right_ok_def using bs st by auto
  have "right_ok t (nd t p)" using wfD(4) [OF st(1,2)] by (simp add: node_ok_def)
  then have "right_ok t' (nd t p)" by (rule right_ok_kept [OF node_split_kept [OF sp]])
  then have ro2: "right_ok t' (tail_base c2)" using bs by (simp add: right_ok_def)
  have ne: "nonempty_range (tail_base c1)" "nonempty_range (tail_base c2)"
    using bs by (auto simp: nonempty_range_def)
  consider "q = r" | "q = p" | "q \<noteq> r" "q \<noteq> p" by blast
  then show ?thesis
  proof cases
    case 1
    with ok ro2 ne bs st show ?thesis by (auto simp: node_ok_def)
  next
    case 2
    with ok ro ne bs st show ?thesis by (auto simp: node_ok_def)
  next
    case 3
    then have "ix_map t' q = ix_map t q" using st(5) by simp
    with node_ok_kept [OF node_split_kept [OF sp] this] wfD(4) [OF st(1), of q] q 3 st(9) show ?thesis by auto
  qed
qed

lemma node_split_disjoint:
  assumes sp: "node_split t t' p r c1 c2 s" and lv: "live t' q" "live t' q'"
    and l: "b_level (nd t' q) = b_level (nd t' q')" and c: "covers (nd t' q) k" "covers (nd t' q') k"
  shows "q = q'"
proof -
  note st = node_split_state [OF sp] and bs = node_split_bases [OF sp] and cv = node_split_covers [OF sp]
  let ?o = "\<lambda>x. if x = r then p else x"
  have cc: "covers (nd t (?o x)) k \<and> (x = r \<longrightarrow> s \<le> k) \<and> (x = p \<longrightarrow> k < s)" if "covers (nd t' x) k" for x
    using that cv [of k] st(4) unfolding st(10) by (auto split: if_splits)
  have ll: "live t (?o x) \<and> b_level (nd t (?o x)) = b_level (nd t' x)" if "live t' x" for x
    using that st(2,9) bs(2,7) unfolding st(10) by auto
  have "?o q = ?o q'"
    using wfD(5) [OF st(1), of "?o q" "?o q'" k] cc [OF c(1)] cc [OF c(2)] ll [OF lv(1)] ll [OF lv(2)] l by simp
  with cc [OF c(1)] cc [OF c(2)] show ?thesis by (auto split: if_splits)
qed

lemma node_split_wf:
  assumes sp: "node_split t t' p r c1 c2 s"
    and ok: "if b_leaf (nd t p) then leaf_ok c1 \<and> leaf_ok c2 else internal_ok t' c1 \<and> internal_ok t' c2"
  shows "tree_wf t'"
proof (rule wfI)
  note st = node_split_state [OF sp] and bs = node_split_bases [OF sp]
  have old: "q \<noteq> r \<Longrightarrow> b_low (nd t' q) = b_low (nd t q) \<and> b_level (nd t' q) = b_level (nd t q)" for q
    unfolding st(10) using bs by simp
  have rt: "ix_root t \<noteq> r" using wfD(1) [OF st(1)] st(3) by auto
  show "live t' (ix_root t')" using wfD(1) [OF st(1)] st by simp
  show "b_low (nd t' (ix_root t')) = None" using old [OF rt] wfD(2) [OF st(1)] st(6) by simp
  show "q < ix_next_pid t'" if "live t' q" for q
    using that wfD(3) [OF st(1), of q] st by auto
  show "b_level (nd t' q) \<le> b_level (nd t' (ix_root t'))" if "live t' q" for q
  proof (cases "q = r")
    case True
    with wfD(6) [OF st(1,2)] old [OF rt] st bs(7) show ?thesis by simp
  next
    case False
    with that wfD(6) [OF st(1), of q] old [of q] old [OF rt] st(6,9) show ?thesis by simp
  qed
qed (use node_split_node_ok [OF sp _ ok] node_split_disjoint [OF sp] in blast)+

lemma node_split_rep:
  assumes sp: "node_split t t' p r c1 c2 s" and rep: "index_rep t m" and lf: "b_leaf (nd t p)"
    and ok: "leaf_ok c1" "leaf_ok c2"
    and m1: "\<And>k. covers (nd t p) k \<Longrightarrow> k < s \<Longrightarrow> chain_map c1 k = m k"
    and m2: "\<And>k. covers (nd t p) k \<Longrightarrow> s \<le> k \<Longrightarrow> chain_map c2 k = m k"
  shows "index_rep t' m"
proof -
  note d = node_split_covers [OF sp] node_split_state(9,10) [OF sp]
  note mp = node_split_state(5) [OF sp]
  have "chain_map (the (ix_map t' q)) k = m k"
    if "live t' q" "b_leaf (nd t' q)" "covers (nd t' q) k" for q k
  proof (cases "q = r \<or> q = p")
    case True
    with that(3) d m1 m2 mp show ?thesis by (auto split: if_splits)
  next
    case False
    with that d mp index_repD [OF rep, of q k] show ?thesis by auto
  qed
  with node_split_wf [OF sp] lf ok show ?thesis by (simp add: index_rep_def)
qed

lemma node_split_rep_internal:
  assumes sp: "node_split t t' p r c1 c2 s" and rep: "index_rep t m" and nl: "\<not> b_leaf (nd t p)"
    and ok: "internal_ok t' c1" "internal_ok t' c2"
  shows "index_rep t' m"
proof -
  have mp: "ix_map t' = (ix_map t)(p \<mapsto> c1, r \<mapsto> c2)" using sp by (simp add: node_split_def)
  have nb: "\<not> b_leaf (tail_base c1)" "\<not> b_leaf (tail_base c2)" using sp nl by (simp_all add: node_split_def)
  have "chain_map (the (ix_map t' q)) k = m k"
    if "live t' q" "b_leaf (nd t' q)" "covers (nd t' q) k" for q k
    using that mp nb index_repD [OF rep, of q k] by (auto split: if_splits)
  with node_split_wf [OF sp] nl ok show ?thesis by (simp add: index_rep_def)
qed

end
