(* ===== verification/Index_Smo.thy ===== *)
theory Index_Smo
  imports Index_Inv
begin

text \<open>
  Structure modifications of the Bw-tree keep the invariant and the represented map, one atomic
  change at a time: the compare-and-swap of a leaf split, the store of a parent with one more
  separator, the store of a divided internal node, the store of a new root. Between two of them
  readers and writers see a tree in which a node has been divided but its parent does not know:
  \<open>pending\<close>.
\<close>

section \<open>Dividing a sorted array\<close>

lemma map_of_take:
  assumes "keys_sorted arr" and "i < length arr" and "k < fst (arr ! i)"
  shows "map_of (take i arr) k = map_of arr k"
proof -
  have "k \<notin> fst ` set (drop i arr)"
  proof
    assume "k \<in> fst ` set (drop i arr)"
    then obtain j where "i + j < length arr" "fst (arr ! (i + j)) = k"
      by (auto simp: in_set_conv_nth) (metis fst_conv add.commute less_diff_conv)
    with keys_sorted_nth [OF assms(1), of i "i + j"] assms(3) show False by (cases j) auto
  qed
  then have n: "map_of (drop i arr) k = None" by (simp add: map_of_eq_None_iff)
  have "map_of arr k = (map_of (drop i arr) ++ map_of (take i arr)) k"
    by (metis append_take_drop_id map_of_append)
  with n show ?thesis by (simp add: map_add_def split: option.splits)
qed

lemma map_of_drop:
  assumes "keys_sorted arr" and "i < length arr" and "fst (arr ! i) \<le> k"
  shows "map_of (drop i arr) k = map_of arr k"
proof -
  have "k \<notin> fst ` set (take i arr)"
  proof
    assume "k \<in> fst ` set (take i arr)"
    then obtain j where "j < i" "fst (arr ! j) = k" by (auto simp: in_set_conv_nth)
    with keys_sorted_nth [OF assms(1), of j i] assms(2,3) show False by auto
  qed
  then have n: "map_of (take i arr) k = None" by (simp add: map_of_eq_None_iff)
  have "map_of arr k = (map_of (drop i arr) ++ map_of (take i arr)) k"
    by (metis append_take_drop_id map_of_append)
  with n show ?thesis by (simp add: map_add_def)
qed

lemma keys_sorted_sub: "keys_sorted arr \<Longrightarrow> keys_sorted (take i arr) \<and> keys_sorted (drop i arr)"
  by (metis append_take_drop_id map_append sorted_wrt_append)

section \<open>The divided node that its parent does not know yet\<close>

definition children :: "dlsm_index \<Rightarrow> pid set" where
  "children t = {c. \<exists>p. live t p \<and> \<not> b_leaf (nd t p) \<and> c \<in> snd ` set (b_ients (nd t p))}"

definition pending :: "dlsm_index \<Rightarrow> pid \<Rightarrow> key \<Rightarrow> pid \<Rightarrow> bool" where
  "pending t child sep right \<longleftrightarrow> live t child \<and> live t right \<and> right \<notin> children t \<and>
     b_high (nd t child) = Some sep \<and> b_low (nd t right) = Some sep \<and>
     b_level (nd t right) = b_level (nd t child)"

lemma children_live:
  assumes "tree_wf t" and "c \<in> children t"
  shows "live t c"
proof -
  from assms(2) obtain p where p: "live t p" "\<not> b_leaf (nd t p)" "c \<in> snd ` set (b_ients (nd t p))"
    by (auto simp: children_def)
  from wf_internal [OF assms(1) p(1,2)] obtain b where b: "ix_map t p = Some (Base b)" "internal_ok t (Base b)"
    by blast
  with p(3) show ?thesis by (auto simp: internal_ok_def entries_ok_def child_ok_def)
qed

lemma covers_low:
  assumes "nonempty_range b" and "b_low b = Some s"
  shows "covers b s"
  using assms by (auto simp: covers_def above_low_def nonempty_range_def)

section \<open>The leaf split\<close>

lemma leaf_halves:
  assumes "backed mem"
  shows "leaf_left mem bt arr rp = base_leaf_new\<lparr>b_lents := take (length arr div 2) arr, b_low := b_low bt,
      b_high := Some (fst (arr ! (length arr div 2))), b_right := rp\<rparr>"
    and "leaf_right mem bt arr = base_leaf_new\<lparr>b_lents := drop (length arr div 2) arr,
      b_low := Some (fst (arr ! (length arr div 2))), b_high := b_high bt, b_right := b_right bt\<rparr>"
  using backedD [OF assms, of Left_Low] backedD [OF assms, of Left_High] backedD [OF assms, of Right_Low]
    backedD [OF assms, of Right_High]
  by (simp_all add: leaf_left_def leaf_right_def)

lemma split_leaf_store_state:
  assumes "live t p" and "ix_next_pid t < DLSM_MAP_CAP" and "ix_next_pid t \<noteq> p"
  shows "\<exists>t'. split_leaf_store mem p arr t = (Some (ix_next_pid t), t') \<and>
    ix_map t' = (ix_map t)(p \<mapsto> Base (leaf_left mem (nd t p) arr (Some (ix_next_pid t))),
      ix_next_pid t \<mapsto> Base (leaf_right mem (nd t p) arr)) \<and>
    ix_root t' = ix_root t \<and> ix_next_pid t' = ix_next_pid t + 1"
  using assms by (auto simp: split_leaf_store_def alloc_pid_def Let_def set_head_def fun_upd_twist)

lemma split_leaf_store_rep:
  assumes rep: "index_rep t m" and lv: "live t p" and lf: "b_leaf (nd t p)"
    and bk: "backed mem" and arr: "materialize_leaf got (the (ix_map t p)) = Some arr" and len: "2 \<le> length arr"
    and cap: "ix_next_pid t < DLSM_MAP_CAP"
    and st: "split_leaf_store mem p arr t = (rp, t')"
  shows "rp = Some (ix_next_pid t) \<and> index_rep t' m \<and>
    pending t' p (fst (arr ! (length arr div 2))) (ix_next_pid t) \<and> ix_root t' = ix_root t \<and>
    ix_next_pid t' = ix_next_pid t + 1 \<and> shape_kept t t' \<and>
    (\<forall>q. q \<noteq> p \<and> q \<noteq> ix_next_pid t \<longrightarrow> ix_map t' q = ix_map t q)"
proof -
  let ?h = "the (ix_map t p)" and ?mid = "length arr div 2" and ?r = "ix_next_pid t"
  let ?s = "fst (arr ! (length arr div 2))"
  let ?L = "leaf_left mem (nd t p) arr (Some ?r)" and ?R = "leaf_right mem (nd t p) arr"
  note hv = leaf_halves [OF bk]
  have wf: "tree_wf t" using rep by (rule index_rep_wf)
  have pr: "?r \<noteq> p" "\<not> live t ?r" using wfD(3) [OF wf lv] wfD(3) [OF wf, of ?r] by (simp, blast)
  from split_leaf_store_state [OF lv cap pr(1), of mem arr] st have st': "rp = Some ?r"
    "ix_map t' = (ix_map t)(p \<mapsto> Base ?L, ?r \<mapsto> Base ?R)" "ix_root t' = ix_root t"
    "ix_next_pid t' = ?r + 1" by auto
  have lo: "leaf_ok ?h" using wf_leaf [OF wf lv lf] .
  have mem: "materialize_leaf True ?h = Some arr" using arr by (auto simp: materialize_leaf_def split: if_splits)
  have "keys_sorted (b_lents (tail_base ?h))" using lo by (simp add: leaf_ok_def)
  from materialize_leaf_correct [OF this] mem have srt: "keys_sorted arr" and cm: "map_of arr = chain_map ?h"
    by auto
  have cv: "covers (nd t p) k" if "k \<in> fst ` set arr" for k
  proof -
    have "chain_map ?h k \<noteq> None" using that cm by (metis map_of_eq_None_iff)
    then have "k \<in> delta_keys ?h \<or> k \<in> fst ` set (b_lents (tail_base ?h))"
      by (metis chain_map_base map_of_eq_None_iff)
    with lo show ?thesis by (auto simp: leaf_ok_def)
  qed
  have mid: "0 < ?mid" "?mid < length arr" using len by auto
  have k0: "fst (arr ! 0) < ?s" using keys_sorted_nth [OF srt mid] .
  have "covers (nd t p) ?s" using cv [OF imageI [OF nth_mem [OF mid(2)]]] .
  moreover have "0 < length arr" using len by linarith
  then have "covers (nd t p) (fst (arr ! 0))" using cv [OF imageI [OF nth_mem]] by blast
  ultimately have ib: "covers (nd t p) ?s" "b_low (nd t p) \<noteq> Some ?s"
    using k0 by (auto simp: covers_def above_low_def)
  have lvl: "b_level (nd t p) = 0" using lo by (simp add: leaf_ok_def)
  have ns: "node_split t t' p ?r (Base ?L) (Base ?R) ?s"
    unfolding node_split_def using wf lv pr st' lf lvl ib
    by (simp add: hv base_leaf_new_def)
  have kl: "k < ?s" if "k \<in> fst ` set (take ?mid arr)" for k
    using that keys_sorted_nth [OF srt _ mid(2)] by (auto simp: in_set_conv_nth) (metis fst_conv)
  have kr: "?s \<le> k" if k: "k \<in> fst ` set (drop ?mid arr)" for k
  proof -
    obtain j where "?mid + j < length arr" "fst (arr ! (?mid + j)) = k"
      using k by (auto simp: in_set_conv_nth) (metis fst_conv add.commute less_diff_conv)
    with keys_sorted_nth [OF srt, of ?mid "?mid + j"] show ?thesis by (cases j) auto
  qed
  have sub: "fst ` set (take ?mid arr) \<subseteq> fst ` set arr" "fst ` set (drop ?mid arr) \<subseteq> fst ` set arr"
    by (auto dest: in_set_takeD in_set_dropD)
  have "covers ?L k" if "k \<in> fst ` set (take ?mid arr)" for k
    using node_split_covers(1) [OF ns, of k] kl [OF that] cv [OF subsetD [OF sub(1) that]] by simp
  then have "leaf_ok (Base ?L)"
    using keys_sorted_sub [OF srt, of ?mid] by (simp add: leaf_ok_def hv base_leaf_new_def)
  moreover have "covers ?R k" if "k \<in> fst ` set (drop ?mid arr)" for k
    using node_split_covers(2) [OF ns, of k] kr [OF that] cv [OF subsetD [OF sub(2) that]] by simp
  then have "leaf_ok (Base ?R)"
    using keys_sorted_sub [OF srt, of ?mid] by (simp add: leaf_ok_def hv base_leaf_new_def)
  moreover have "chain_map (Base ?L) k = m k" if "covers (nd t p) k" "k < ?s" for k
    using index_repD [OF rep lv lf that(1)] cm map_of_take [OF srt mid(2) that(2)]
    by (simp add: hv base_leaf_new_def)
  moreover have "chain_map (Base ?R) k = m k" if "covers (nd t p) k" "?s \<le> k" for k
    using index_repD [OF rep lv lf that(1)] cm map_of_drop [OF srt mid(2) that(2)]
    by (simp add: hv base_leaf_new_def)
  ultimately have rep': "index_rep t' m" using node_split_rep [OF ns rep lf] by blast
  have "?r \<notin> children t'"
  proof
    assume "?r \<in> children t'"
    then obtain q where q: "live t' q" "\<not> b_leaf (nd t' q)" "?r \<in> snd ` set (b_ients (nd t' q))"
      unfolding children_def by blast
    from q(2) have "q \<noteq> p" "q \<noteq> ?r" using st'(2) pr(1) by (auto simp: hv base_leaf_new_def)
    then have "ix_map t' q = ix_map t q" using st'(2) by simp
    with q have "?r \<in> children t" unfolding children_def by auto
    then show False using children_live [OF wf] pr(2) by blast
  qed
  then have "pending t' p ?s ?r"
    using st'(2) pr lvl by (simp add: pending_def hv base_leaf_new_def)
  with rep' st' node_split_kept [OF ns] show ?thesis by simp
qed

section \<open>The separator in the parent\<close>

text \<open>Nodes of the level of a divided node that a parent knows lie behind its new right half.\<close>

lemma pending_gap:
  assumes wf: "tree_wf t" and pd: "pending t child sep right" and c: "c \<in> children t"
    and lev: "b_level (nd t c) = b_level (nd t child)" and low: "b_low (nd t c) = Some s"
    and gt: "\<forall>l. b_low (nd t child) = Some l \<longrightarrow> l < s"
  shows "sep < s"
proof (rule ccontr)
  assume n: "\<not> sep < s"
  have lc: "live t c" using children_live [OF wf c] .
  note p = pd [unfolded pending_def]
  have cs: "covers (nd t c) s" using covers_low [OF wf_range [OF wf lc] low] .
  show False
  proof (cases "s = sep")
    case True
    have "covers (nd t right) s" using covers_low [OF wf_range [OF wf]] p True by blast
    with wfD(5) [OF wf lc, of right s] cs p lev have "c = right" by simp
    with p c show False by simp
  next
    case False
    with n have "s < sep" by auto
    then have "covers (nd t child) s" using gt p by (auto simp: covers_def above_low_def less_imp_le)
    with wfD(5) [OF wf lc, of child s] cs p lev have "c = child" by simp
    with gt low show False by simp
  qed
qed

lemma childrenI: "live t p \<Longrightarrow> ix_map t p = Some (Base b) \<Longrightarrow> \<not> b_leaf b \<Longrightarrow> (so, c) \<in> set (b_ients b) \<Longrightarrow> c \<in> children t"
  unfolding children_def by force

text \<open>An internal node whose entries are known one by one.\<close>

lemma internal_children:
  assumes "internal_ok t (Base b)" and "(so, c) \<in> set (b_ients b)"
  shows "live t c" and "b_level (nd t c) + 1 = b_level b"
    and "b_low (nd t c) = (if so = None then b_low b else so)"
    and "so = Some s \<Longrightarrow> in_bounds b s"
proof -
  obtain c0 rest where es: "b_ients b = (None, c0) # rest" "child_ok t b (b_low b) c0" "entries_ok t b rest"
    using assms(1) by (auto simp: internal_ok_def)
  consider "so = None" "c = c0" | "(so, c) \<in> set rest" using assms(2) es(1) by auto
  then have "child_ok t b (if so = None then b_low b else so) c \<and> (\<forall>s. so = Some s \<longrightarrow> in_bounds b s)"
  proof cases
    case 1
    with es(2) show ?thesis by simp
  next
    case 2
    with es(3) show ?thesis by (auto simp: entries_ok_def)
  qed
  then show "live t c" "b_level (nd t c) + 1 = b_level b"
    "b_low (nd t c) = (if so = None then b_low b else so)" "so = Some s \<Longrightarrow> in_bounds b s"
    by (simp_all add: child_ok_def)
qed

text \<open>A pid is the child of one entry only.\<close>

lemma internal_entry_unique:
  assumes ok: "internal_ok t (Base b)" and es: "b_ients b = xs @ (so, c) # ys"
  shows "c \<notin> snd ` set xs" and "c \<notin> snd ` set ys"
proof -
  obtain c0 rest where r: "b_ients b = (None, c0) # rest" "entries_ok t b rest"
    using ok by (auto simp: internal_ok_def)
  have ent: "b_low (nd t d) = (if s' = None then b_low b else s')" if "(s', d) \<in> set (b_ients b)" for s' d
    using internal_children(3) [OF ok that] .
  have srt: "sorted_wrt (<) (map (the \<circ> fst) rest)" and bd: "\<And>s' d. (s', d) \<in> set rest \<Longrightarrow> \<exists>s. s' = Some s \<and> in_bounds b s"
    using r(2) by (auto simp: entries_ok_def)
  have lows: "distinct (map (\<lambda>e. if fst e = None then b_low b else fst e) (b_ients b))"
  proof -
    have eqm: "map (\<lambda>e. if fst e = None then b_low b else fst e) rest = map Some (map (the \<circ> fst) rest)"
      using bd by fastforce
    have "distinct (map Some (map (the \<circ> fst) rest))"
      using srt strict_sorted_iff [of "map (the \<circ> fst) rest"] by (simp add: distinct_map comp_inj_on)
    moreover have "b_low b \<notin> set (map Some (map (the \<circ> fst) rest))"
      using bd by (fastforce simp: in_bounds_def)
    ultimately have "distinct (b_low b # map (\<lambda>e. if fst e = None then b_low b else fst e) rest)"
      unfolding eqm distinct.simps by blast
    then show ?thesis using r(1) by simp
  qed
  have eq: "map (\<lambda>e. b_low (nd t (snd e))) (b_ients b) = map (\<lambda>e. if fst e = None then b_low b else fst e) (b_ients b)"
    using ent by (intro map_cong) auto
  from lows have "distinct (map (\<lambda>e. b_low (nd t (snd e))) (b_ients b))" unfolding eq .
  then show "c \<notin> snd ` set xs" "c \<notin> snd ` set ys" unfolding es by force+
qed

text \<open>The entries of a copied parent when every separator could be copied.\<close>

fun insert_after :: "pid \<Rightarrow> idx_ent \<Rightarrow> idx_ent list \<Rightarrow> idx_ent list" where
  "insert_after child e [] = []"
| "insert_after child e (x # xs) =
     (if snd x = child then x # e # insert_after child e xs else x # insert_after child e xs)"

lemma clone_ents_backed: "backed mem \<Longrightarrow> clone_ents mem d child e i xs = insert_after child e xs"
  by (induction xs arbitrary: i) (simp_all add: backedD)

lemma clone_backed:
  assumes "backed mem"
  shows "clone_internal_insert mem d b sep child right = Some ((base_internal_new (b_level b))
    \<lparr>b_ients := insert_after child (Some sep, right) (b_ients b), b_low := b_low b, b_high := b_high b, b_right := b_right b\<rparr>)"
  using assms by (simp add: clone_internal_insert_def clone_ents_backed backedD)

lemma insert_after_split:
  "child \<notin> snd ` set xs \<Longrightarrow> child \<notin> snd ` set ys \<Longrightarrow>
     insert_after child e (xs @ (so, child) # ys) = xs @ (so, child) # e # ys"
proof (induction xs)
  case Nil
  then show ?case by (induction ys) auto
qed auto

lemma insert_after_absent: "child \<notin> snd ` set xs \<Longrightarrow> insert_after child e xs = xs"
  by (induction xs) auto

lemma publish_bound:
  assumes wf: "tree_wf t" and pd: "pending t child sep right" and lv: "live t p" and b: "ix_map t p = Some (Base b)"
    and ok: "internal_ok t (Base b)" and nl: "\<not> b_leaf b" and e: "(so, child) \<in> set (b_ients b)"
  shows "in_bounds b sep" and "so = Some s \<Longrightarrow> s < sep"
    and "(Some s', c) \<in> set (b_ients b) \<Longrightarrow> \<forall>l. b_low (nd t child) = Some l \<longrightarrow> l < s' \<Longrightarrow> sep < s'"
proof -
  note ch = internal_children [OF ok e]
  have nb: "nd t p = b" using b by simp
  have lo: "l < sep" if "b_low (nd t child) = Some l" for l
    using wf_range [OF wf ch(1)] pd that by (simp add: nonempty_range_def pending_def)
  then show "so = Some s \<Longrightarrow> s < sep" using ch(3) by auto
  show "sep < s'" if "(Some s', c) \<in> set (b_ients b)" "\<forall>l. b_low (nd t child) = Some l \<longrightarrow> l < s'"
    using pending_gap [OF wf pd childrenI [OF lv b nl that(1)] _ _ that(2)]
      internal_children(2,3) [OF ok that(1)] ch(2) by simp
  have lowb: "l < sep" if "b_low b = Some l" for l
  proof (cases so)
    case None
    with lo ch(3) that show ?thesis by simp
  next
    case (Some s)
    then have "l \<le> s" using ch(4) that by (auto simp: in_bounds_def covers_def above_low_def)
    with lo [of s] ch(3) Some show ?thesis by simp
  qed
  have "sep < h" if h: "b_high b = Some h" for h
  proof -
    obtain r where r: "live t r" "b_low (nd t r) = Some h" "b_level (nd t r) = b_level b"
      using wf_right [OF wf lv, of h, unfolded nb, OF h] .
    have "\<not> b_leaf (nd t r)" using wf_level [OF wf r(1)] wf_level [OF wf lv] b nl r(3) by simp
    then obtain d where d: "ix_map t r = Some (Base d)" "internal_ok t (Base d)" using wf_internal [OF wf r(1)] by blast
    then obtain c0 rest where "b_ients d = (None, c0) # rest" by (auto simp: internal_ok_def)
    then have c0: "(None, c0) \<in> set (b_ients d)" by simp
    have "l < h" if l: "b_low (nd t child) = Some l" for l
    proof (cases so)
      case None
      with l ch(3) wf_range [OF wf lv] b h show ?thesis by (simp add: nonempty_range_def)
    next
      case (Some s)
      with l ch(3,4) h show ?thesis by (simp add: in_bounds_def covers_def)
    qed
    with pending_gap [OF wf pd childrenI [OF r(1) d(1) _ c0], of h] internal_children(2,3) [OF d(2) c0] r d ch(2)
      \<open>\<not> b_leaf (nd t r)\<close> show ?thesis by simp
  qed
  then show "in_bounds b sep" using lowb by (auto simp: in_bounds_def covers_def above_low_def less_imp_le)
qed

lemma entries_ok_insert:
  assumes "entries_ok t b (xs @ ys)" and "child_ok t b (Some s) c" and "in_bounds b s"
    and "\<And>e. e \<in> set xs \<Longrightarrow> the (fst e) < s" and "\<And>e. e \<in> set ys \<Longrightarrow> s < the (fst e)"
  shows "entries_ok t b (xs @ (Some s, c) # ys)"
  using assms unfolding entries_ok_def by (auto simp: sorted_wrt_append)

lemma publish_internal_ok:
  assumes wf: "tree_wf t" and pd: "pending t child sep right" and lv: "live t p" and b: "ix_map t p = Some (Base b)"
    and ok: "internal_ok t (Base b)" and nl: "\<not> b_leaf b"
    and b': "b' = (base_internal_new (b_level b))\<lparr>b_ients := insert_after child (Some sep, right) (b_ients b),
      b_low := b_low b, b_high := b_high b, b_right := b_right b\<rparr>"
  shows "internal_ok t (Base b')"
proof -
  let ?b' = b'
  have same: "b_level ?b' = b_level b" "b_low ?b' = b_low b" "b_high ?b' = b_high b"
    by (simp_all add: b' base_internal_new_def)
  then have tr: "child_ok t ?b' lo c = child_ok t b lo c" "in_bounds ?b' k = in_bounds b k"
    "entries_ok t ?b' es = entries_ok t b es" for lo c k es
    by (simp_all add: child_ok_def in_bounds_def covers_def above_low_def entries_ok_def)
  have ents: "b_ients ?b' = insert_after child (Some sep, right) (b_ients b)"
    by (simp add: b')
  obtain c0 rest where es: "b_ients b = (None, c0) # rest" "0 < b_level b" "child_ok t b (b_low b) c0" "entries_ok t b rest"
    using ok by (auto simp: internal_ok_def)
  have fin: "internal_ok t (Base ?b')" if "b_ients ?b' = (None, c0) # r" "entries_ok t b r" for r
    using that es(2,3) by (simp add: internal_ok_def same tr)
  show ?thesis
  proof (cases "child \<in> snd ` set (b_ients b)")
    case False
    with es ents insert_after_absent [OF False] show ?thesis by (intro fin) auto
  next
    case True
    then obtain so xs ys where split: "b_ients b = xs @ (so, child) # ys" by (force dest: split_list)
    then have e: "(so, child) \<in> set (b_ients b)" by simp
    note pb = publish_bound [OF wf pd lv b ok nl e] and un = internal_entry_unique [OF ok split]
    have new: "b_ients ?b' = xs @ (so, child) # (Some sep, right) # ys"
      using ents split insert_after_split [OF un] by simp
    have cr: "child_ok t b (Some sep) right"
      using pd internal_children(2) [OF ok e] by (simp add: child_ok_def pending_def)
    have inr: "\<exists>s'. fst e = Some s' \<and> in_bounds b s' \<and> (Some s', snd e) \<in> set (b_ients b)" if "e \<in> set rest" for e
      using that es(1,4) by (cases e) (auto simp: entries_ok_def)
    show ?thesis
    proof (cases xs)
      case Nil
      with split es(1) have c: "child = c0" "ys = rest" "so = None" by auto
      have "sep < the (fst e)" if "e \<in> set rest" for e
        using inr [OF that] pb(3) es(3) c(1) by (force simp: in_bounds_def covers_def above_low_def child_ok_def)
      then have "entries_ok t b ([] @ (Some sep, right) # rest)"
        using entries_ok_insert [of t b "[]" rest sep right] es(4) cr pb(1) by simp
      then show ?thesis using fin new Nil c by auto
    next
      case (Cons x xs')
      with split es(1) have c: "x = (None, c0)" "rest = (xs' @ [(so, child)]) @ ys" by auto
      then obtain s where s: "so = Some s" using inr [of "(so, child)"] by auto
      have srt: "sorted_wrt (<) (map (the \<circ> fst) rest)" using es(4) by (simp add: entries_ok_def)
      have "the (fst e) < sep" if "e \<in> set (xs' @ [(so, child)])" for e
        using that srt pb(2) [OF s] s unfolding c(2) by (auto simp: sorted_wrt_append intro: less_trans)
      moreover have "sep < the (fst e)" if ey: "e \<in> set ys" for e
      proof -
        obtain s' where s': "fst e = Some s'" "(Some s', snd e) \<in> set (b_ients b)" using inr [of e] ey c(2) by auto
        moreover have "s < s'" using srt s ey s'(1) unfolding c(2) by (auto simp: sorted_wrt_append)
        ultimately show ?thesis using pb(3) [of s' "snd e"] internal_children(3) [OF ok e] s by simp
      qed
      ultimately have "entries_ok t b ((xs' @ [(so, child)]) @ (Some sep, right) # ys)"
        using entries_ok_insert [of t b "xs' @ [(so, child)]" ys sep right] es(4) cr pb(1) c(2) by simp
      then show ?thesis using fin new Cons c(1) by auto
    qed
  qed
qed

lemma rep_replace_internal:
  assumes rep: "index_rep t m" and lv: "live t p" and nl: "\<not> b_leaf (nd t p)"
    and sp: "same_place (nd t p) (tail_base c)" and ok: "internal_ok t c"
  shows "index_rep (set_head p c t) m"
proof -
  have "tree_wf (set_head p c t)" using wf_replace [OF index_rep_wf [OF rep] lv sp] nl ok by simp
  moreover have "\<not> b_leaf (tail_base c)" using sp nl by (simp add: same_place_def)
  then have "chain_map (the (ix_map (set_head p c t) q)) k = m k"
    if "live (set_head p c t) q" "b_leaf (nd (set_head p c t) q)" "covers (nd (set_head p c t) q) k" for q k
    using that index_repD [OF rep, of q k] by (auto split: if_splits)
  ultimately show ?thesis by (simp add: index_rep_def)
qed

lemma publish_sep_backed: "backed mem \<Longrightarrow> \<exists>t'. publish_sep mem d p child sep right t = Some t'"
  by (simp add: publish_sep_def clone_backed)

lemma publish_sep_rep:
  assumes rep: "index_rep t m" and pd: "pending t child sep right" and lv: "live t p" and nl: "\<not> b_leaf (nd t p)"
    and bk: "backed mem" and t': "publish_sep mem d p child sep right t = Some t'"
  shows "index_rep t' m" and "same_place (nd t q) (nd t' q)" and "live t' q \<longleftrightarrow> live t q"
    and "ix_root t' = ix_root t" and "ix_next_pid t' = ix_next_pid t"
proof -
  have wf: "tree_wf t" using rep by (rule index_rep_wf)
  obtain b where b: "ix_map t p = Some (Base b)" "internal_ok t (Base b)" using wf_internal [OF wf lv nl] .
  let ?b' = "(base_internal_new (b_level b))\<lparr>b_ients := insert_after child (Some sep, right) (b_ients b),
      b_low := b_low b, b_high := b_high b, b_right := b_right b\<rparr>"
  have nb: "nd t p = b" "\<not> b_leaf b" using b nl by auto
  have eq: "t' = set_head p (Base ?b') t" using t' by (simp add: publish_sep_def nb clone_backed [OF bk])
  have sp: "same_place b ?b'" using nb by (simp add: same_place_def base_internal_new_def)
  show "index_rep t' m"
    unfolding eq using rep_replace_internal [OF rep lv nl, of "Base ?b'"] sp nb(1)
      publish_internal_ok [OF wf pd lv b nb(2) refl] by simp
  show "same_place (nd t q) (nd t' q)" unfolding eq using sp nb(1) by (auto simp: same_place_def)
  show "live t' q \<longleftrightarrow> live t q" unfolding eq using lv by auto
  show "ix_root t' = ix_root t" "ix_next_pid t' = ix_next_pid t" unfolding eq by simp_all
qed

section \<open>The split of an internal node\<close>

lemma entries_okD:
  "entries_ok t b es \<Longrightarrow> (so, c) \<in> set es \<Longrightarrow> \<exists>s. so = Some s \<and> child_ok t b (Some s) c \<and> in_bounds b s"
  by (auto simp: entries_ok_def)

lemma internal_halves_ok:
  assumes ok: "internal_ok t (Base b)" and es: "b_ients b = (None, c0) # xs @ (Some s, cm) # ys"
    and L: "b_ients L = (None, c0) # xs" "b_level L = b_level b" "b_low L = b_low b" "b_high L = Some s"
    and R: "b_ients R = (None, cm) # ys" "b_level R = b_level b" "b_low R = Some s" "b_high R = b_high b"
  shows "internal_ok t (Base L)" and "internal_ok t (Base R)" and "in_bounds b s"
proof -
  have e: "0 < b_level b" "child_ok t b (b_low b) c0" "entries_ok t b (xs @ (Some s, cm) # ys)"
    using ok es by (auto simp: internal_ok_def)
  have srt: "sorted_wrt (<) (map (the \<circ> fst) xs)" "sorted_wrt (<) (map (the \<circ> fst) ys)"
    and ls: "\<And>e. e \<in> set xs \<Longrightarrow> the (fst e) < s" and gs: "\<And>e. e \<in> set ys \<Longrightarrow> s < the (fst e)"
    using e(3) by (auto simp: entries_ok_def sorted_wrt_append)
  have cm: "child_ok t b (Some s) cm" and ib: "in_bounds b s" using entries_okD [OF e(3), of "Some s" cm] by auto
  then show "in_bounds b s" by simp
  have "\<exists>x. so = Some x \<and> child_ok t L (Some x) c \<and> in_bounds L x" if m: "(so, c) \<in> set xs" for so c
  proof -
    obtain x where x: "so = Some x" "child_ok t b (Some x) c" "in_bounds b x"
      using entries_okD [OF e(3), of so c] m by auto
    with ls [OF m] L show ?thesis by (auto simp: child_ok_def in_bounds_def covers_def above_low_def)
  qed
  then have "entries_ok t L xs" using srt(1) unfolding entries_ok_def by fast
  with e(1,2) L show "internal_ok t (Base L)" by (simp add: internal_ok_def child_ok_def)
  have "\<exists>x. so = Some x \<and> child_ok t R (Some x) c \<and> in_bounds R x" if m: "(so, c) \<in> set ys" for so c
  proof -
    obtain x where x: "so = Some x" "child_ok t b (Some x) c" "in_bounds b x"
      using entries_okD [OF e(3), of so c] m by auto
    with gs [OF m] R show ?thesis by (auto simp: child_ok_def in_bounds_def covers_def above_low_def)
  qed
  then have "entries_ok t R ys" using srt(2) unfolding entries_ok_def by fast
  with e(1) cm R show "internal_ok t (Base R)" by (simp add: internal_ok_def child_ok_def)
qed

lemma drop_map_nth: "map (\<lambda>j. (fst (es ! j), snd (es ! j))) [n..<length es] = drop n es"
  by (intro nth_equalityI) simp_all

lemma internal_halves:
  assumes bk: "backed mem" and mid: "0 < length (b_ients N) div 2"
  shows "internal_right mem d N s = (base_internal_new (b_level N))
      \<lparr>b_ients := (None, snd (b_ients N ! (length (b_ients N) div 2))) # drop (length (b_ients N) div 2 + 1) (b_ients N),
        b_low := Some s, b_high := b_high N, b_right := b_right N\<rparr>"
    and "internal_left mem d N s nrp = (base_internal_new (b_level N))
      \<lparr>b_ients := (None, snd (b_ients N ! 0)) # drop 1 (take (length (b_ients N) div 2) (b_ients N)),
        b_low := b_low N, b_high := Some s, b_right := nrp\<rparr>"
proof -
  let ?es = "b_ients N" and ?mid = "length (b_ients N) div 2"
  show "internal_right mem d N s = (base_internal_new (b_level N))
      \<lparr>b_ients := (None, snd (?es ! ?mid)) # drop (?mid + 1) ?es, b_low := Some s, b_high := b_high N, b_right := b_right N\<rparr>"
    using drop_map_nth [of ?es "?mid + 1"] backedD [OF bk] by (simp add: internal_right_def Let_def)
  have "map (\<lambda>j. (if j = 0 then None else fdup (mem (Div_Left_Sep d j)) (fst (?es ! j)), snd (?es ! j))) [0..<?mid]
      = (None, snd (?es ! 0)) # drop 1 (take ?mid ?es)"
    using mid backedD [OF bk] by (intro nth_equalityI) (auto simp: nth_Cons')
  then show "internal_left mem d N s nrp = (base_internal_new (b_level N))
      \<lparr>b_ients := (None, snd (?es ! 0)) # drop 1 (take ?mid ?es), b_low := b_low N, b_high := Some s, b_right := nrp\<rparr>"
    using backedD [OF bk] by (simp add: internal_left_def Let_def)
qed

lemma split_internal_store_rep:
  assumes rep: "index_rep t m" and lv: "live t p" and nl: "\<not> b_leaf (nd t p)"
    and len: "2 \<le> length (b_ients (nd t p))" and cap: "ix_next_pid t < DLSM_MAP_CAP"
    and bk: "backed mem" and st: "split_internal_store mem d p t = Some (promoted, nrp, t')"
  shows "nrp = Some (ix_next_pid t) \<and> index_rep t' m \<and> pending t' p promoted (ix_next_pid t) \<and>
    ix_root t' = ix_root t \<and> ix_next_pid t' = ix_next_pid t + 1 \<and> shape_kept t t' \<and>
    (\<forall>q. live t q \<longrightarrow> b_leaf (nd t' q) = b_leaf (nd t q)) \<and>
    (\<forall>q. q \<noteq> p \<and> q \<noteq> ix_next_pid t \<longrightarrow> ix_map t' q = ix_map t q)"
proof -
  let ?r = "ix_next_pid t" and ?N = "nd t p"
  let ?mid = "length (b_ients (nd t p)) div 2"
  have wf: "tree_wf t" using rep by (rule index_rep_wf)
  have pr: "?r \<noteq> p" "\<not> live t ?r" using wfD(3) [OF wf lv] wfD(3) [OF wf, of ?r] by (simp, blast)
  obtain b where b: "ix_map t p = Some (Base b)" "internal_ok t (Base b)" using wf_internal [OF wf lv nl] .
  have nb: "?N = b" using b by simp
  obtain c0 rest where es: "b_ients b = (None, c0) # rest" "entries_ok t b rest" using b(2) by (auto simp: internal_ok_def)
  have mid: "0 < ?mid" "?mid < length (b_ients b)" using len nb by auto
  then obtain j where j: "?mid = Suc j" "j < length rest" using es(1) by (cases ?mid) auto
  obtain s cm where e: "rest ! j = (Some s, cm)"
    using entries_okD [OF es(2), of "fst (rest ! j)" "snd (rest ! j)"] nth_mem [OF j(2)]
    by (cases "rest ! j") auto
  have split: "b_ients b = (None, c0) # take j rest @ (Some s, cm) # drop (Suc j) rest"
    using es(1) id_take_nth_drop [OF j(2)] e by simp
  have at: "b_ients b ! ?mid = (Some s, cm)" using es(1) j(1) e by simp
  let ?L = "internal_left mem d b s (Some ?r)" and ?R = "internal_right mem d b s"
  note ih = internal_halves [OF bk, of b d s, unfolded nb [symmetric], OF mid(1), unfolded nb]
  have st': "promoted = s" "nrp = Some ?r" "ix_map t' = (ix_map t)(p \<mapsto> Base ?L, ?r \<mapsto> Base ?R)"
    "ix_root t' = ix_root t" "ix_next_pid t' = ?r + 1"
    using st cap pr(1) at nb backedD [OF bk, of "Div_Sep d"]
    by (auto simp: split_internal_store_def alloc_pid_def Let_def set_head_def fun_upd_twist split: if_splits)
  have L: "b_ients ?L = (None, c0) # take j rest" "b_level ?L = b_level b" "b_low ?L = b_low b"
    "b_high ?L = Some s" "b_right ?L = Some ?r" "\<not> b_leaf ?L"
    using at es(1) j(1) nb by (simp_all add: ih base_internal_new_def)
  have R: "b_ients ?R = (None, cm) # drop (Suc j) rest" "b_level ?R = b_level b" "b_low ?R = Some s"
    "b_high ?R = b_high b" "b_right ?R = b_right b" "\<not> b_leaf ?R"
    using at es(1) j(1) nb by (simp_all add: ih base_internal_new_def)
  note hv = internal_halves_ok [OF b(2) split L(1-4) R(1-4)]
  have ns: "node_split t t' p ?r (Base ?L) (Base ?R) s"
    unfolding node_split_def using wf lv pr st' L R nl nb hv(3) by (simp add: in_bounds_def)
  note kept = internal_ok_kept [OF node_split_kept [OF ns]]
  have rep': "index_rep t' m" using node_split_rep_internal [OF ns rep nl kept [OF hv(1)] kept [OF hv(2)]] .
  have "?r \<notin> children t'"
  proof
    assume "?r \<in> children t'"
    then obtain q where q: "live t' q" "\<not> b_leaf (nd t' q)" "?r \<in> snd ` set (b_ients (nd t' q))"
      unfolding children_def by blast
    have "?r \<in> children t"
    proof (cases "q = ?r \<or> q = p")
      case True
      have "snd ` set (b_ients ?L) \<subseteq> snd ` set (b_ients b)" "snd ` set (b_ients ?R) \<subseteq> snd ` set (b_ients b)"
        unfolding L(1) R(1) split by auto
      with q(3) True st'(3) have "?r \<in> snd ` set (b_ients b)" by (auto split: if_splits)
      with lv nl nb show ?thesis unfolding children_def by auto
    next
      case False
      with q st'(3) show ?thesis unfolding children_def by auto
    qed
    then show False using children_live [OF wf] pr(2) by blast
  qed
  then have "pending t' p s ?r" using st'(3) pr L R by (simp add: pending_def)
  moreover have "b_leaf (nd t' q) = b_leaf (nd t q)" if "live t q" for q
    using that st'(3) pr L R nl nb by auto
  ultimately show ?thesis using rep' st' node_split_kept [OF ns] by simp
qed

section \<open>The new root\<close>

lemma new_root_backed: "backed mem \<Longrightarrow> \<exists>t'. new_root mem child sep right t = Some t'"
  by (simp add: new_root_def backedD split: prod.splits)

lemma new_root_rep:
  assumes rep: "index_rep t m" and pd: "pending t (ix_root t) sep right" and cap: "ix_next_pid t < DLSM_MAP_CAP"
    and t': "new_root mem (ix_root t) sep right t = Some t'"
  shows "index_rep t' m" and "ix_root t' = ix_next_pid t" and "ix_next_pid t' = ix_next_pid t + 1"
    and "b_high (nd t' (ix_next_pid t)) = None" and "shape_kept t t'"
proof -
  let ?r = "ix_next_pid t" and ?t = t' and ?lv = "b_level (nd t (ix_root t)) + 1"
  let ?R = "(base_internal_new ?lv)\<lparr>b_ients := [(None, ix_root t), (Some sep, right)]\<rparr>"
  have wf: "tree_wf t" using rep by (rule index_rep_wf)
  have nr: "\<not> live t ?r" "?r \<noteq> ix_root t" using wfD(3) [OF wf, of ?r] wfD(3) [OF wf wfD(1) [OF wf]] by (blast, simp)
  have mp: "ix_map ?t = (ix_map t)(?r \<mapsto> Base ?R)" and rt: "ix_root ?t = ?r" and nx: "ix_next_pid ?t = ?r + 1"
    using cap t' by (auto simp: new_root_def alloc_pid_def Let_def set_head_def split: if_splits)
  have sk: "shape_kept t ?t" using nr(1) mp by (auto simp: shape_kept_def)
  have ndr: "nd ?t ?r = ?R" using mp by simp
  have fields: "b_low ?R = None" "b_high ?R = None" "b_level ?R = ?lv" "\<not> b_leaf ?R"
    by (simp_all add: base_internal_new_def)
  have "child_ok t ?R None (ix_root t)" "child_ok t ?R (Some sep) right"
    using wfD(1,2) [OF wf] pd by (simp_all add: child_ok_def pending_def base_internal_new_def)
  then have "internal_ok t (Base ?R)"
    using fields by (simp add: internal_ok_def entries_ok_def in_bounds_def covers_def above_low_def)
  then have okR: "internal_ok ?t (Base ?R)" by (rule internal_ok_kept [OF sk])
  have old: "live ?t q \<longleftrightarrow> q = ?r \<or> live t q" "q \<noteq> ?r \<Longrightarrow> ix_map ?t q = ix_map t q" for q using mp by auto
  have lvl: "b_level (nd ?t q) < ?lv" if "live t q" for q
    using wfD(6) [OF wf that] old(2) [of q] that nr(1) by (cases "q = ?r") auto
  have "tree_wf ?t"
  proof (rule wfI)
    show "live ?t (ix_root ?t)" using mp rt by simp
    show "b_low (nd ?t (ix_root ?t)) = None" using rt ndr fields by simp
    show "q < ix_next_pid ?t" if "live ?t q" for q using wfD(3) [OF wf, of q] that old(1) nx by auto
    show "node_ok ?t q" if "live ?t q" for q
    proof (cases "q = ?r")
      case True
      with ndr fields okR mp show ?thesis by (simp add: node_ok_def nonempty_range_def right_ok_def)
    next
      case False
      with node_ok_kept [OF sk old(2)] wfD(4) [OF wf, of q] that old(1) show ?thesis by blast
    qed
    show "b_level (nd ?t q) \<le> b_level (nd ?t (ix_root ?t))" if "live ?t q" for q
      using lvl [of q] that old(1) rt ndr fields(3) by auto
    show "q = q'" if "live ?t q" "live ?t q'" "b_level (nd ?t q) = b_level (nd ?t q')"
      "covers (nd ?t q) k" "covers (nd ?t q') k" for q q' k
    proof (cases "q = ?r \<or> q' = ?r")
      case True
      with lvl [of q] lvl [of q'] that(1-3) old(1) ndr fields(3) show ?thesis by auto
    next
      case False
      with that old wfD(5) [OF wf, of q q' k] show ?thesis by simp
    qed
  qed
  moreover have "chain_map (the (ix_map ?t q)) k = m k"
    if "live ?t q" "b_leaf (nd ?t q)" "covers (nd ?t q) k" for q k
    using that index_repD [OF rep, of q k] old [of q] ndr fields(4) by (cases "q = ?r") auto
  ultimately show "index_rep ?t m" by (simp add: index_rep_def)
  show "ix_root ?t = ?r" "ix_next_pid ?t = ?r + 1" by (fact rt, fact nx)
  show "b_high (nd ?t ?r) = None" using ndr fields by simp
  show "shape_kept t ?t" by (fact sk)
qed

section \<open>The path to a leaf\<close>

lemma descend_step:
  "live t p \<Longrightarrow> descend_with_path t (Some p) k path =
     (if past_fence (nd t p) k then descend_with_path t (b_right (nd t p)) k path
      else if \<not> b_leaf (nd t p) then descend_with_path t (Some (route (nd t p) k)) k (p # path) else Some (p, path))"
  by (subst descend_with_path.simps) (auto simp: Let_def)

definition path_ok :: "dlsm_index \<Rightarrow> pid \<Rightarrow> key \<Rightarrow> pid \<Rightarrow> pid list \<Rightarrow> bool" where
  "path_ok t p k q pre \<longleftrightarrow> live t q \<and> b_leaf (nd t q) \<and> covers (nd t q) k \<and>
     (\<forall>a \<in> set pre. live t a \<and> \<not> b_leaf (nd t a) \<and> b_level (nd t a) \<le> b_level (nd t p)) \<and>
     distinct pre \<and> length pre \<le> b_level (nd t p) \<and>
     (covers (nd t p) k \<longrightarrow> last (q # pre) = p)"

lemma descend_path_ok:
  assumes wf: "tree_wf t" and "live t p" and "above_low (nd t p) k"
  shows "\<exists>q pre. \<forall>acc. descend_with_path t (Some p) k acc = Some (q, pre @ acc) \<and> path_ok t p k q pre"
  using assms
proof (induction rule: walk_induct)
  case (right p r)
  then obtain q pre where q: "\<forall>acc. descend_with_path t (Some r) k acc = Some (q, pre @ acc)" "path_ok t r k q pre" by blast
  obtain h where h: "b_high (nd t p) = Some h" using right(2) by (auto simp: past_fence_iff)
  have "b_level (nd t r) = b_level (nd t p)" using wf_right [OF wf right(1) h] right(3) by force
  moreover have "\<not> covers (nd t p) k" using right(2) by (simp add: covers_iff)
  ultimately have "path_ok t p k q pre" using q(2) by (simp add: path_ok_def)
  with q(1) right show ?case by (intro exI [of _ q] exI [of _ pre]) (simp add: descend_step [of t p])
next
  case (down p)
  let ?c = "route (nd t p) k"
  from down(6) obtain q pre where q: "\<forall>acc. descend_with_path t (Some ?c) k acc = Some (q, pre @ acc)" "path_ok t ?c k q pre" by blast
  have "path_ok t p k q (pre @ [p])"
  proof -
    have "above_low (nd t p) k" using down(2) by (simp add: covers_iff)
    then have "b_level (nd t ?c) + 1 = b_level (nd t p)" using route_child(2) [OF wf down(1,3)] by blast
    with q(2) down(1,3) show ?thesis by (fastforce simp: path_ok_def)
  qed
  with q(1) down(1-3) show ?case
    by (intro exI [of _ q] exI [of _ "pre @ [p]"]) (simp add: descend_step [of t p] covers_iff)
next
  case (leaf p)
  then show ?case
    by (intro exI [of _ p] exI [of _ "[]"]) (simp add: descend_step [of t p] covers_iff path_ok_def)
qed

section \<open>Publication up the path\<close>

text \<open>The structure modifier: a separator to publish along a path, or a parent to divide.\<close>

datatype smo =
  Smo_Idle
| Smo_Publish "pid list" pid key pid
| Smo_Divide "pid list" pid

definition path_live :: "dlsm_index \<Rightarrow> pid \<Rightarrow> pid list \<Rightarrow> bool" where
  "path_live t child path \<longleftrightarrow> last (child # path) = ix_root t \<and> (\<forall>a \<in> set path. live t a \<and> \<not> b_leaf (nd t a)) \<and>
     distinct (child # path)"

fun smo_ok :: "dlsm_index \<Rightarrow> smo \<Rightarrow> bool" where
  "smo_ok t Smo_Idle \<longleftrightarrow> b_high (nd t (ix_root t)) = None"
| "smo_ok t (Smo_Publish path child sep right) \<longleftrightarrow> pending t child sep right \<and> path_live t child path \<and>
     (path \<noteq> [] \<longrightarrow> b_high (nd t (ix_root t)) = None)"
| "smo_ok t (Smo_Divide rest p) \<longleftrightarrow> live t p \<and> \<not> b_leaf (nd t p) \<and> 2 \<le> length (b_ients (nd t p)) \<and>
     path_live t p rest \<and> b_high (nd t (ix_root t)) = None"

lemma smo_publish_ok:
  assumes rep: "index_rep t m" and ok: "smo_ok t (Smo_Publish (p # rest) child sep right)"
    and bk: "backed mem" and t': "publish_sep mem d p child sep right t = Some t'"
  shows "index_rep t' m \<and> shape_kept t t' \<and>
    smo_ok t' (if length (b_ients (nd t' p)) > DLSM_INTERNAL_MAX then Smo_Divide rest p else Smo_Idle)"
proof -
  have pd: "pending t child sep right" and pl: "path_live t child (p # rest)" and rh: "b_high (nd t (ix_root t)) = None"
    using ok by simp_all
  have p: "live t p" "\<not> b_leaf (nd t p)" using pl by (auto simp: path_live_def)
  note pub = publish_sep_rep [OF rep pd p bk t']
  have sm: "b_leaf (nd t' q) = b_leaf (nd t q)" "b_high (nd t' q) = b_high (nd t q)" "b_low (nd t' q) = b_low (nd t q)"
    "b_level (nd t' q) = b_level (nd t q)" for q using pub(2) [of q] by (simp_all add: same_place_def)
  have "shape_kept t t'" using sm pub(3) by (simp add: shape_kept_def)
  moreover have "path_live t' p rest" using pl unfolding path_live_def pub(3-5) sm by auto
  ultimately show ?thesis using pub(1,3,4) sm p rh by auto
qed

lemma smo_divide_ok:
  assumes rep: "index_rep t m" and ok: "smo_ok t (Smo_Divide rest p)" and cap: "ix_next_pid t < DLSM_MAP_CAP"
    and bk: "backed mem" and st: "split_internal_store mem d p t = Some (promoted, nrp, t')"
  shows "nrp = Some (ix_next_pid t) \<and> index_rep t' m \<and> shape_kept t t' \<and>
    smo_ok t' (Smo_Publish rest p promoted (ix_next_pid t))"
proof -
  note wf = index_rep_wf [OF rep]
  have p: "live t p" "\<not> b_leaf (nd t p)" "2 \<le> length (b_ients (nd t p))" and pl: "path_live t p rest"
    and rh: "b_high (nd t (ix_root t)) = None" using ok by simp_all
  note s2 = split_internal_store_rep [OF rep p cap bk st]
  have keep: "ix_map t' a = ix_map t a" if "a \<in> set rest" for a
  proof -
    have "live t a" using pl that by (simp add: path_live_def)
    then have "a \<noteq> ix_next_pid t" using wfD(3) [OF wf] by blast
    moreover have "a \<noteq> p" using pl that by (auto simp: path_live_def)
    ultimately show ?thesis using s2 by blast
  qed
  have "b_high (nd t' (ix_root t')) = None" if "rest \<noteq> []"
    using that pl last_in_set [of rest] keep [of "ix_root t"] rh s2 by (simp add: path_live_def)
  moreover have "path_live t' p rest"
    unfolding path_live_def using keep pl s2 by (simp add: path_live_def)
  ultimately show ?thesis using s2 by simp
qed

section \<open>Page identifiers only grow\<close>

lemma alloc_pid_next: "alloc_pid c t = (r, t') \<Longrightarrow> ix_next_pid t' = ix_next_pid t + 1"
  by (auto simp: alloc_pid_def Let_def split: if_splits)

lemma new_root_next: "new_root mem child sep right t = Some t' \<Longrightarrow> ix_next_pid t' = ix_next_pid t + 1"
  by (auto simp: new_root_def Let_def split: if_splits prod.splits dest: alloc_pid_next)

lemma publish_sep_next: "publish_sep mem d p child sep right t = Some t' \<Longrightarrow> ix_next_pid t' = ix_next_pid t"
  by (auto simp: publish_sep_def split: option.splits)

lemma split_internal_store_next:
  "split_internal_store mem d p t = Some (promoted, nrp, t') \<Longrightarrow> ix_next_pid t' = ix_next_pid t + 1"
  by (auto simp: split_internal_store_def Let_def split: if_splits option.splits prod.splits dest: alloc_pid_next)

lemma split_leaf_store_next: "split_leaf_store mem p arr t = (rp, t') \<Longrightarrow> ix_next_pid t' = ix_next_pid t + 1"
  by (auto simp: split_leaf_store_def Let_def split: prod.splits dest: alloc_pid_next)

lemma try_consolidate_next: "ix_next_pid (try_consolidate mem g p t) = ix_next_pid t"
  by (auto simp: try_consolidate_def Let_def split: option.splits chain.splits)

lemma install_sep_next: "install_sep mem path child sep right t = Some t' \<Longrightarrow> ix_next_pid t \<le> ix_next_pid t'"
proof (induction path arbitrary: child sep right t)
  case Nil
  then show ?case by (simp add: new_root_next)
next
  case (Cons p rest)
  from Cons.prems obtain t1 where t1: "publish_sep mem (length rest) p child sep (pid_value right) t = Some t1"
    by (auto split: option.splits)
  note n1 = publish_sep_next [OF t1]
  show ?case
  proof (cases "length (b_ients (nd t1 p)) > DLSM_INTERNAL_MAX")
    case False
    with Cons.prems t1 n1 show ?thesis by simp
  next
    case True
    with Cons.prems t1 obtain promoted nrp t2 where st: "split_internal_store mem (length rest) p t1 = Some (promoted, nrp, t2)"
      "install_sep mem rest p promoted nrp t2 = Some t'" by (auto split: option.splits)
    with Cons.IH [OF st(2)] split_internal_store_next [OF st(1)] n1 show ?thesis by simp
  qed
qed

lemma split_leaf_next:
  assumes "split_leaf mem k t = Some t'"
  shows "ix_next_pid t \<le> ix_next_pid t'"
proof (cases "t' = t")
  case False
  with assms obtain p arr rp t1 path sep where "split_leaf_store mem p arr t = (rp, t1)"
    "install_sep mem path p sep rp t1 = Some t'"
    by (auto simp: split_leaf_def split: option.splits if_splits prod.splits)
  with install_sep_next split_leaf_store_next show ?thesis by fastforce
qed simp

text \<open>Between operations the root has no right sibling.\<close>

definition index_ok :: "dlsm_index \<Rightarrow> (key \<rightharpoonup> dlsm_delta_pointer) \<Rightarrow> bool" where
  "index_ok t m \<longleftrightarrow> index_rep t m \<and> b_high (nd t (ix_root t)) = None"

lemma install_sep_ok:
  assumes bk: "backed mem" and cap: "ix_next_pid t' \<le> DLSM_MAP_CAP"
  shows "install_sep mem path child sep (Some right) t = Some t' \<Longrightarrow> index_rep t m \<Longrightarrow>
    smo_ok t (Smo_Publish path child sep right) \<Longrightarrow> index_ok t' m"
proof (induction path arbitrary: child sep right t)
  case Nil
  have z: "pending t child sep right" "child = ix_root t" using Nil(3) by (auto simp: path_live_def)
  have t': "new_root mem (ix_root t) sep right t = Some t'" using Nil(1) z(2) by simp
  with cap have "ix_next_pid t < DLSM_MAP_CAP" using new_root_next by fastforce
  with new_root_rep [OF Nil(2) z(1) [unfolded z(2)] _ t'] show ?case by (simp add: index_ok_def)
next
  case (Cons p rest)
  from Cons.prems(1) obtain t1 where t1: "publish_sep mem (length rest) p child sep right t = Some t1"
    by (auto split: option.splits)
  note pub = smo_publish_ok [OF Cons.prems(2,3) bk t1]
  show ?case
  proof (cases "length (b_ients (nd t1 p)) > DLSM_INTERNAL_MAX")
    case False
    then have "t' = t1" using Cons.prems(1) t1 by simp
    with pub False show ?thesis by (simp add: index_ok_def)
  next
    case True
    then have rep1: "index_rep t1 m" and dv: "smo_ok t1 (Smo_Divide rest p)" using pub by simp_all
    obtain promoted nrp t2 where st: "split_internal_store mem (length rest) p t1 = Some (promoted, nrp, t2)"
      and rec: "install_sep mem rest p promoted nrp t2 = Some t'"
      using True Cons.prems(1) t1 by (auto split: option.splits)
    have "ix_next_pid t1 < DLSM_MAP_CAP" using install_sep_next [OF rec] split_internal_store_next [OF st] cap by simp
    with smo_divide_ok [OF rep1 dv _ bk st] rec Cons.IH show ?thesis by blast
  qed
qed

section \<open>Publication never fails when the untested allocations are granted\<close>

text \<open>Only the first entry of an internal node lacks a separator; this holds beyond the table's capacity too.\<close>

definition seps :: "base \<Rightarrow> bool" where
  "seps b \<longleftrightarrow> b_leaf b \<or> None \<notin> fst ` set (tl (b_ients b))"

definition seps_ok :: "dlsm_index \<Rightarrow> bool" where
  "seps_ok t \<longleftrightarrow> (\<forall>p c. ix_map t p = Some c \<longrightarrow> seps (tail_base c))"

lemma wf_seps_ok:
  assumes wf: "tree_wf t"
  shows "seps_ok t"
proof -
  have "seps (nd t p)" if p: "live t p" for p
  proof (cases "b_leaf (nd t p)")
    case False
    obtain b where b: "ix_map t p = Some (Base b)" "internal_ok t (Base b)" using wf_internal [OF wf p False] .
    then obtain c0 rest where "b_ients b = (None, c0) # rest" "entries_ok t b rest" by (auto simp: internal_ok_def)
    with b(1) show ?thesis by (auto simp: seps_def dest!: entries_okD)
  qed (simp add: seps_def)
  then show ?thesis unfolding seps_ok_def by (metis option.distinct(1) option.sel)
qed

lemma seps_ok_head: "seps_ok t \<Longrightarrow> seps b \<Longrightarrow> seps_ok (set_head p (Base b) t)"
  by (auto simp: seps_ok_def)

lemma seps_ok_cong: "ix_map t' = ix_map t \<Longrightarrow> seps_ok t' \<longleftrightarrow> seps_ok t"
  by (simp add: seps_ok_def)

lemma seps_ok_alloc: "seps_ok t \<Longrightarrow> seps b \<Longrightarrow> alloc_pid (Base b) t = (r, t') \<Longrightarrow> seps_ok t'"
  unfolding seps_ok_def by (auto simp: alloc_pid_def Let_def split: if_splits)

lemma insert_after_seps:
  assumes "None \<notin> fst ` set (tl xs)"
  shows "None \<notin> fst ` set (tl (insert_after child (Some s, c) xs))"
proof (cases xs)
  case (Cons x ys)
  have "set (insert_after child (Some s, c) zs) \<subseteq> insert (Some s, c) (set zs)" for zs by (induction zs) auto
  from image_mono [OF this [of ys], of fst] have "None \<notin> fst ` set (insert_after child (Some s, c) ys)"
    using assms Cons by auto
  with Cons show ?thesis by simp
qed simp

definition inner :: "dlsm_index \<Rightarrow> pid \<Rightarrow> bool" where
  "inner t q \<longleftrightarrow> live t q \<and> \<not> b_leaf (nd t q)"

lemma inner_alloc: "alloc_pid (Base b) t = (r, t') \<Longrightarrow> \<not> b_leaf b \<Longrightarrow> inner t q \<Longrightarrow> inner t' q"
  by (auto simp: inner_def alloc_pid_def Let_def split: if_splits)

lemma split_internal_store_total:
  assumes bk: "backed mem" and sp: "seps_ok t" and p: "inner t p" "2 \<le> length (b_ients (nd t p))"
  shows "\<exists>promoted nrp t'. split_internal_store mem d p t = Some (promoted, nrp, t') \<and> seps_ok t' \<and>
    (\<forall>q. inner t q \<longrightarrow> inner t' q)"
proof -
  let ?es = "b_ients (nd t p)" and ?mid = "length (b_ients (nd t p)) div 2"
  have mid: "0 < ?mid" "?mid < length ?es" using p(2) by auto
  have "seps (nd t p)" using sp p(1) by (auto simp: seps_ok_def inner_def)
  then have tl: "None \<notin> fst ` set (tl ?es)" using p(1) by (simp add: seps_def inner_def)
  have "?es ! ?mid \<in> set (tl ?es)" using mid by (cases ?es) (auto simp: nth_Cons')
  then obtain s where s: "fst (?es ! ?mid) = Some s" using tl by (metis image_eqI not_None_eq)
  note hv = internal_halves [OF bk mid(1), where d = d and s = s]
  obtain nrp t1 where al: "alloc_pid (Base (internal_right mem d (nd t p) s)) t = (nrp, t1)" by force
  let ?L = "internal_left mem d (nd t p) s nrp"
  let ?t' = "(set_head p (Base ?L) t1)\<lparr>ix_internal_splits := ix_internal_splits (set_head p (Base ?L) t1) + 1\<rparr>"
  have "split_internal_store mem d p t = Some (s, nrp, ?t')"
    using s al backedD [OF bk] by (simp add: split_internal_store_def Let_def)
  moreover have sub: "set (drop (?mid + 1) ?es) \<subseteq> set (tl ?es)" "set (drop 1 (take ?mid ?es)) \<subseteq> set (tl ?es)"
    using set_drop_subset [of ?mid "tl ?es"] set_take_subset [of "?mid - 1" "tl ?es"]
    by (simp_all add: drop_Suc tl_take)
  then have "seps_ok (set_head p (Base ?L) t1)"
    using tl by (intro seps_ok_head seps_ok_alloc [OF sp _ al]) (auto simp: hv base_internal_new_def seps_def)
  then have "seps_ok ?t'" using seps_ok_cong [of ?t' "set_head p (Base ?L) t1"] by simp
  moreover have "inner ?t' q" if "inner t q" for q
    using inner_alloc [OF al _ that] by (auto simp: hv base_internal_new_def inner_def)
  ultimately show ?thesis by blast
qed

lemma install_sep_total:
  assumes bk: "backed mem"
  shows "seps_ok t \<Longrightarrow> \<forall>a \<in> set path. inner t a \<Longrightarrow> \<exists>t'. install_sep mem path child sep right t = Some t'"
proof (induction path arbitrary: child sep right t)
  case Nil
  then show ?case using new_root_backed [OF bk] by simp
next
  case (Cons p rest)
  let ?b = "(base_internal_new (b_level (nd t p)))\<lparr>b_ients := insert_after child (Some sep, pid_value right) (b_ients (nd t p)),
    b_low := b_low (nd t p), b_high := b_high (nd t p), b_right := b_right (nd t p)\<rparr>"
  let ?t1 = "set_head p (Base ?b) t"
  have t1: "publish_sep mem (length rest) p child sep (pid_value right) t = Some ?t1"
    by (simp add: publish_sep_def clone_backed [OF bk])
  show ?case
  proof (cases "length (b_ients (nd ?t1 p)) > DLSM_INTERNAL_MAX")
    case False
    with t1 show ?thesis by simp
  next
    case True
    have "seps (nd t p)" "\<not> b_leaf (nd t p)" using Cons.prems by (auto simp: seps_ok_def inner_def)
    then have "seps ?b" using insert_after_seps [of "b_ients (nd t p)" child sep] by (simp add: seps_def)
    then have "seps_ok ?t1" by (rule seps_ok_head [OF Cons.prems(1)])
    moreover have i1: "inner ?t1 q" if "inner t q \<or> q = p" for q using that by (auto simp: inner_def base_internal_new_def)
    moreover have "2 \<le> length (b_ients (nd ?t1 p))" using True by linarith
    ultimately obtain promoted nrp t2 where st: "split_internal_store mem (length rest) p ?t1 = Some (promoted, nrp, t2)"
      "seps_ok t2" "\<forall>q. inner ?t1 q \<longrightarrow> inner t2 q" using split_internal_store_total [OF bk, of ?t1 p "length rest"] by blast
    have "\<exists>t'. install_sep mem rest p promoted nrp t2 = Some t'" using Cons.prems(2) i1 st(3) by (intro Cons.IH [OF st(2)]) simp
    with t1 True st(1) show ?thesis by simp
  qed
qed

section \<open>Whole operations\<close>

text \<open>The first store of a leaf split: what the publication of the separator starts from.\<close>

lemma split_path:
  assumes rep: "index_rep t m" and rh: "b_high (nd t (ix_root t)) = None"
    and d: "descend_with_path t (Some (ix_root t)) k [] = Some (p, path)"
  shows "live t p" and "b_leaf (nd t p)" and "path_live t p path"
proof -
  note wf = index_rep_wf [OF rep]
  from descend_path_ok [OF wf wfD(1) [OF wf] wf_root_above [OF wf], of k] d
  have po: "path_ok t (ix_root t) k p path" by (metis append_Nil2 option.inject prod.inject)
  have "covers (nd t (ix_root t)) k" using rh wfD(2) [OF wf] by (simp add: covers_def above_low_def)
  then show "live t p" "b_leaf (nd t p)" "path_live t p path" using po by (auto simp: path_ok_def path_live_def)
qed

lemma split_leaf_start:
  assumes rep: "index_rep t m" and rh: "b_high (nd t (ix_root t)) = None" and cap: "ix_next_pid t < DLSM_MAP_CAP"
    and d: "descend_with_path t (Some (ix_root t)) k [] = Some (p, path)" and bk: "backed mem"
    and arr: "materialize_leaf got (the (ix_map t p)) = Some arr" "length arr > DLSM_LEAF_MAX"
    and st: "split_leaf_store mem p arr t = (rp, t')"
  shows "rp = Some (ix_next_pid t) \<and> index_rep t' m \<and> shape_kept t t' \<and>
    pending t' p (fst (arr ! (length arr div 2))) (ix_next_pid t) \<and> path_live t' p path \<and>
    (path \<noteq> [] \<longrightarrow> b_high (nd t' (ix_root t')) = None)"
proof -
  note q = split_path [OF rep rh d]
  have "2 \<le> length arr" using arr(2) by simp
  note s1 = split_leaf_store_rep [OF rep q(1,2) bk arr(1) this cap st]
  have keep: "ix_map t' a = ix_map t a" if "a \<in> set path" for a
  proof -
    have "a \<noteq> p" using q(3) that by (auto simp: path_live_def)
    moreover have "live t a" using q(3) that by (simp add: path_live_def)
    then have "a \<noteq> ix_next_pid t" using wfD(3) [OF index_rep_wf [OF rep]] by blast
    ultimately show ?thesis using s1 by blast
  qed
  have "b_high (nd t' (ix_root t')) = None" if "path \<noteq> []"
    using that q(3) last_in_set [of path] keep [of "ix_root t"] rh s1 by (simp add: path_live_def)
  moreover have "path_live t' p path" using keep q(3) s1 by (simp add: path_live_def)
  ultimately show ?thesis using s1 by simp
qed

lemma split_leaf_store_seps:
  assumes wf: "tree_wf t" and bk: "backed mem" and lv: "live t p" "b_leaf (nd t p)" and st: "split_leaf_store mem p arr t = (rp, t')"
  shows "seps_ok t'" and "inner t q \<Longrightarrow> inner t' q"
proof -
  let ?L = "leaf_left mem (nd t p) arr rp" and ?R = "leaf_right mem (nd t p) arr"
  note hv = leaf_halves [OF bk]
  obtain t1 where al: "alloc_pid (Base ?R) t = (rp, t1)" and t': "ix_map t' = ix_map (set_head p (Base ?L) t1)"
    using st by (auto simp: split_leaf_store_def Let_def split: prod.splits)
  have "seps_ok (set_head p (Base ?L) t1)"
    by (intro seps_ok_head seps_ok_alloc [OF wf_seps_ok [OF wf] _ al]) (simp_all add: hv base_leaf_new_def seps_def)
  then show "seps_ok t'" using seps_ok_cong [OF t'] by simp
  assume i: "inner t q"
  then have "q \<noteq> p" "q \<noteq> ix_next_pid t" using lv(2) wfD(3) [OF wf, of q] by (auto simp: inner_def)
  with al have "ix_map t1 q = ix_map t q" by (auto simp: alloc_pid_def Let_def split: if_splits)
  with i t' \<open>q \<noteq> p\<close> show "inner t' q" by (simp add: inner_def)
qed

lemma split_leaf_ok:
  assumes ok: "index_ok t m" and bk: "backed mem"
  shows "\<exists>t'. split_leaf mem k t = Some t' \<and> (ix_next_pid t' \<le> DLSM_MAP_CAP \<longrightarrow> index_ok t' m)"
proof -
  have rep: "index_rep t m" and rh: "b_high (nd t (ix_root t)) = None" using ok by (simp_all add: index_ok_def)
  note wf = index_rep_wf [OF rep]
  obtain q pre where d: "descend_with_path t (Some (ix_root t)) k [] = Some (q, pre)"
    using descend_path_ok [OF wf wfD(1) [OF wf] wf_root_above [OF wf]] by blast
  note sp = split_path [OF rep rh d]
  let ?arr = "\<lambda>arr. materialize_leaf (mem Split_Array) (the (ix_map t q)) = Some arr \<and> DLSM_LEAF_MAX < length arr \<and>
    mem Split_Left_Ents \<and> mem Split_Right_Ents \<and> mem Split_Sep"
  show ?thesis
  proof (cases "\<exists>arr. ?arr arr")
    case False
    then have "split_leaf mem k t = Some t"
      using d backedD [OF bk, of Split_Left] backedD [OF bk, of Split_Right]
      by (cases "materialize_leaf (mem Split_Array) (the (ix_map t q))") (auto simp: split_leaf_def not_less)
    with ok show ?thesis by simp
  next
    case True
    then obtain arr where arr: "?arr arr" by blast
    let ?s = "fst (arr ! (length arr div 2))"
    obtain rp t1 where st: "split_leaf_store mem q arr t = (rp, t1)" by force
    have eq: "split_leaf mem k t = install_sep mem pre q ?s rp t1"
      using d arr st backedD [OF bk, of Split_Left] backedD [OF bk, of Split_Right] by (simp add: split_leaf_def)
    note ss = split_leaf_store_seps [OF wf bk sp(1,2) st]
    have "\<forall>a \<in> set pre. inner t1 a" using sp(3) ss(2) by (simp add: path_live_def inner_def)
    from install_sep_total [OF bk ss(1) this] obtain t' where t': "install_sep mem pre q ?s rp t1 = Some t'" by blast
    have "index_ok t' m" if cap: "ix_next_pid t' \<le> DLSM_MAP_CAP"
    proof -
      have "ix_next_pid t < DLSM_MAP_CAP" using install_sep_next [OF t'] split_leaf_store_next [OF st] cap by simp
      from split_leaf_start [OF rep rh this d bk _ _ st, of "mem Split_Array"] arr
      have s1: "rp = Some (ix_next_pid t)" "index_rep t1 m" "smo_ok t1 (Smo_Publish pre q ?s (ix_next_pid t))" by simp_all
      show ?thesis by (rule install_sep_ok [OF bk cap t' [unfolded s1(1)] s1(2,3)])
    qed
    with eq t' show ?thesis by simp
  qed
qed

lemma try_consolidate_ok:
  assumes ok: "index_ok t m" and lv: "live t p" and lf: "b_leaf (nd t p)" and bk: "backed mem"
  shows "index_ok (try_consolidate mem g p t) m" and "live (try_consolidate mem g p t) p"
    and "same_place (nd t p) (nd (try_consolidate mem g p t) p)"
proof -
  have rep: "index_rep t m" using ok by (simp add: index_ok_def)
  note fr = try_consolidate_frame [OF lv]
  note sp = fr(4) [OF index_rep_wf [OF rep] bk]
  show "index_ok (try_consolidate mem g p t) m"
    using try_consolidate_rep [OF rep lv lf bk] ok sp [of "ix_root t"] fr(2) by (simp add: index_ok_def same_place_def)
  show "live (try_consolidate mem g p t) p" using lv fr(1) by simp
  show "same_place (nd t p) (nd (try_consolidate mem g p t) p)" by (rule sp)
qed

lemma install_delta_ok:
  assumes ok: "index_ok t m" and lv: "live t p" and lf: "b_leaf (nd t p)" and cv: "covers (nd t p) k"
  shows "index_ok (install_delta p op k v t) (m(k := op_value op v))"
    and "live (install_delta p op k v t) p" and "nd (install_delta p op k v t) p = nd t p"
    and "ix_next_pid (install_delta p op k v t) = ix_next_pid t"
proof -
  have rep: "index_rep t m" using ok by (simp add: index_ok_def)
  have nd: "nd (install_delta p op k v t) q = nd t q" for q by (simp add: install_delta_def Let_def)
  have rt: "ix_root (install_delta p op k v t) = ix_root t" by (simp add: install_delta_def Let_def)
  show "index_ok (install_delta p op k v t) (m(k := op_value op v))"
    using install_delta_rep [OF rep lv lf cv] ok nd rt by (simp add: index_ok_def)
  show "live (install_delta p op k v t) p" "ix_next_pid (install_delta p op k v t) = ix_next_pid t"
    by (simp_all add: install_delta_def Let_def)
  show "nd (install_delta p op k v t) p = nd t p" by (rule nd)
qed

end
