(* ===== verification/Index_Ops.thy ===== *)
theory Index_Ops
  imports Index_Smo
begin

text \<open>
  What a client of the index sees: \<open>get\<close>, \<open>insert\<close>, \<open>update\<close> and \<open>delete\<close> implement a finite map from
  byte strings to pointers, with any answers of the allocations that the code tests, as long as the others
  are granted and the mapping table is not exhausted; chains stay short; and what happens when the mapping
  table is full or an untested allocation is refused. The map interface is the locale \<open>kv_map\<close>, interpreted on the
  operations of the index.
\<close>

section \<open>The map interface\<close>

text \<open>
  A sequence of write calls, each of which answers a status. The contract of a map: a lookup answers what
  the represented map holds, a good call answers its status and has its effect as long as the store is
  within its capacity, and a store beyond its capacity never comes back.
\<close>

fun kv_run :: "('w \<Rightarrow> 's \<Rightarrow> (dlsm_status \<times> 's) option) \<Rightarrow> 'w list \<Rightarrow> 's \<Rightarrow> (dlsm_status list \<times> 's) option" where
  "kv_run wr [] s = Some ([], s)"
| "kv_run wr (w # ws) s = (case wr w s of
     None \<Rightarrow> None
   | Some (st, s1) \<Rightarrow> (case kv_run wr ws s1 of None \<Rightarrow> None | Some (sts, s2) \<Rightarrow> Some (st # sts, s2)))"

locale kv_map =
  fixes rep :: "'s \<Rightarrow> ('k \<rightharpoonup> 'v) \<Rightarrow> bool" and within :: "'s \<Rightarrow> bool"
    and get :: "'s \<Rightarrow> 'k \<Rightarrow> 'v option option"
    and wr :: "'w \<Rightarrow> 's \<Rightarrow> (dlsm_status \<times> 's) option"
    and good :: "'w \<Rightarrow> bool" and status :: "'w \<Rightarrow> dlsm_status"
    and effect :: "'w \<Rightarrow> ('k \<rightharpoonup> 'v) \<Rightarrow> ('k \<rightharpoonup> 'v)"
  assumes get_law: "rep s m \<Longrightarrow> get s k = Some (m k)"
    and write_law: "rep s m \<Longrightarrow> good w \<Longrightarrow> wr w s = Some (st, s') \<Longrightarrow> within s' \<Longrightarrow> st = status w \<and> rep s' (effect w m)"
    and within_law: "wr w s = Some (st, s') \<Longrightarrow> within s' \<Longrightarrow> within s"
begin

lemma run_within: "kv_run wr ws s = Some (sts, s') \<Longrightarrow> within s' \<Longrightarrow> within s"
proof (induction ws arbitrary: s sts)
  case (Cons w ws)
  then obtain st s1 sts1 where w: "wr w s = Some (st, s1)" "kv_run wr ws s1 = Some (sts1, s')" by (auto split: option.splits)
  show ?case using within_law [OF w(1) Cons.IH [OF w(2) Cons.prems(2)]] .
qed simp

lemma run_rep:
  "kv_run wr ws s = Some (sts, s') \<Longrightarrow> within s' \<Longrightarrow> list_all good ws \<Longrightarrow> rep s m \<Longrightarrow>
    sts = map status ws \<and> rep s' (fold effect ws m)"
proof (induction ws arbitrary: s sts m)
  case (Cons w ws)
  from Cons.prems(1) obtain st s1 sts1 where w: "wr w s = Some (st, s1)" "kv_run wr ws s1 = Some (sts1, s')" "sts = st # sts1"
    by (auto split: option.splits)
  have g: "good w" "list_all good ws" using Cons.prems(3) by simp_all
  have "st = status w \<and> rep s1 (effect w m)"
    using write_law [OF Cons.prems(4) g(1) w(1) run_within [OF w(2) Cons.prems(2)]] .
  with Cons.IH [OF w(2) Cons.prems(2) g(2), of "effect w m"] w(3) show ?case by simp
qed simp

lemma run_get:
  "kv_run wr ws s = Some (sts, s') \<Longrightarrow> within s' \<Longrightarrow> list_all good ws \<Longrightarrow> rep s m \<Longrightarrow>
    get s' k = Some (fold effect ws m k)"
  using get_law run_rep by blast

text \<open>Where each call returns, a history ends or fills the store on the way.\<close>

lemma run_returns:
  assumes total: "\<And>s m w. rep s m \<Longrightarrow> w \<in> set ws \<Longrightarrow> \<exists>st s'. wr w s = Some (st, s')"
  shows "list_all good ws \<Longrightarrow> rep s m \<Longrightarrow> (\<exists>sts s'. kv_run wr ws s = Some (sts, s')) \<or>
    (\<exists>pre post sts s'. ws = pre @ post \<and> kv_run wr pre s = Some (sts, s') \<and> \<not> within s')"
  using total
proof (induction ws arbitrary: s m)
  case (Cons w ws)
  obtain st s1 where w: "wr w s = Some (st, s1)" using Cons.prems by force
  show ?case
  proof (cases "within s1")
    case False
    with w show ?thesis by (intro disjI2 exI [of _ "[w]"] exI [of _ ws] exI [of _ "[st]"] exI [of _ s1]) simp
  next
    case True
    then have "rep s1 (effect w m)" using write_law [OF Cons.prems(2) _ w] Cons.prems(1) by simp
    moreover have "list_all good ws" using Cons.prems(1) by simp
    moreover have "\<exists>st s'. wr x s = Some (st, s')" if "rep s m" "x \<in> set ws" for s m x
      using Cons.prems(3) [OF that(1)] that(2) by simp
    ultimately consider
        sts s' where "kv_run wr ws s1 = Some (sts, s')"
      | pre post sts s' where "ws = pre @ post" "kv_run wr pre s1 = Some (sts, s')" "\<not> within s'"
      using Cons.IH [of s1 "effect w m"] by blast
    then show ?thesis
    proof cases
      case 1
      with w show ?thesis by simp
    next
      case 2
      with w show ?thesis by (intro disjI2 exI [of _ "w # pre"] exI [of _ post] exI [of _ "st # sts"] exI [of _ s']) simp
    qed
  qed
qed simp

end

section \<open>Writes\<close>

text \<open>At the cap: a chain that cannot be consolidated for lack of memory stays as it is.\<close>

lemma try_consolidate_depth:
  assumes "live t p" and "b_leaf (nd t p)" and "chain_depth (the (ix_map t p)) \<ge> DLSM_CHAIN_CAP"
  shows "chain_depth (the (ix_map (try_consolidate mem g p t) p)) \<ge> DLSM_CHAIN_CAP \<longleftrightarrow>
    \<not> (mem (Merge_Array g) \<and> mem (Merge_Node g))"
  using assms by (cases "the (ix_map t p)"; cases "mem (Merge_Array g)"; cases "mem (Merge_Node g)")
    (auto simp: try_consolidate_def Let_def materialize_leaf_def split: prod.splits)

definition stuck :: "memory \<Rightarrow> dlsm_index \<Rightarrow> key \<Rightarrow> bool" where
  "stuck mem t k \<longleftrightarrow> \<not> (mem (Merge_Array At_Cap) \<and> mem (Merge_Node At_Cap)) \<and>
     (\<exists>p. find_leaf t (Some (ix_root t)) k = Some p \<and> chain_depth (the (ix_map t p)) \<ge> DLSM_CHAIN_CAP)"

text \<open>The status of a write, and the map after it.\<close>

definition write_status :: "memory \<Rightarrow> dlsm_status" where
  "write_status mem = (if mem Delta_Node \<and> mem Delta_Key then DLSM_OK else DLSM_INDEX_E_NOMEM)"

definition write_map ::
  "memory \<Rightarrow> delta_op \<Rightarrow> key \<Rightarrow> dlsm_delta_pointer \<Rightarrow> (key \<rightharpoonup> dlsm_delta_pointer) \<Rightarrow> (key \<rightharpoonup> dlsm_delta_pointer)" where
  "write_map mem op k v m = (if write_status mem = DLSM_OK then m(k := op_value op v) else m)"

lemma write_status_simps [simp]:
  "mem Delta_Node \<Longrightarrow> mem Delta_Key \<Longrightarrow> write_status mem = DLSM_OK"
  "\<not> mem Delta_Node \<or> \<not> mem Delta_Key \<Longrightarrow> write_status mem = DLSM_INDEX_E_NOMEM"
  by (auto simp: write_status_def)

text \<open>The states of one write: after the drain of a full chain, after the delta, after consolidation.\<close>

definition write_stages ::
  "memory \<Rightarrow> delta_op \<Rightarrow> key \<Rightarrow> dlsm_delta_pointer \<Rightarrow> dlsm_index \<Rightarrow> pid \<Rightarrow> dlsm_index \<Rightarrow> dlsm_index \<Rightarrow> dlsm_index \<Rightarrow> bool" where
  "write_stages mem op k v t p t1 t2 t3 \<longleftrightarrow>
     t1 = (if chain_depth (the (ix_map t p)) \<ge> DLSM_CHAIN_CAP then try_consolidate mem At_Cap p t else t) \<and>
     t2 = install_delta p op k v t1 \<and>
     t3 = (if chain_depth (the (ix_map t1 p)) + 1 \<ge> DLSM_CONSOLIDATE_DEPTH then try_consolidate mem After_Write p t2 else t2)"

lemma write_stages_ex: "\<exists>t1 t2 t3. write_stages mem op k v t p t1 t2 t3"
  unfolding write_stages_def by blast

lemma write_run_stages:
  assumes "find_leaf t (Some (ix_root t)) k = Some p" and "write_stages mem op k v t p t1 t2 t3"
  shows "write_run mem op k v t =
     (if chain_depth (the (ix_map t1 p)) \<ge> DLSM_CHAIN_CAP then None
      else if \<not> mem Delta_Node \<or> \<not> mem Delta_Key then Some (DLSM_INDEX_E_NOMEM, t1)
      else if b_leaf (nd t3 p) \<and> length (b_lents (nd t3 p)) > DLSM_LEAF_MAX
        then (case split_leaf mem k t3 of None \<Rightarrow> None | Some t4 \<Rightarrow> Some (DLSM_OK, t4))
        else Some (DLSM_OK, t3))"
  using assms(2) unfolding write_run_def assms(1) option.case Let_def write_stages_def by (elim conjE) (simp only:)

lemma write_run_next:
  assumes "write_run mem op k v t = Some (st, t')"
  shows "ix_next_pid t \<le> ix_next_pid t'"
proof -
  obtain p where p: "find_leaf t (Some (ix_root t)) k = Some p"
    using assms by (auto simp: write_run_def split: option.splits)
  obtain t1 t2 t3 where ws: "write_stages mem op k v t p t1 t2 t3" using write_stages_ex by blast
  have n: "ix_next_pid t1 = ix_next_pid t" "ix_next_pid t3 = ix_next_pid t"
    using ws by (simp_all add: write_stages_def try_consolidate_next install_delta_def Let_def)
  from assms [unfolded write_run_stages [OF p ws]] consider "t' = t1" | "t' = t3" | "split_leaf mem k t3 = Some t'"
    by (auto split: if_splits option.splits)
  then show ?thesis using n split_leaf_next by cases force+
qed

lemma write_run_result:
  assumes ok: "index_ok t m" and bk: "backed mem"
  shows "write_run mem op k v t = None \<longleftrightarrow> stuck mem t k"
    and "write_run mem op k v t = Some (st, t') \<Longrightarrow> st = write_status mem \<and>
      (ix_next_pid t' \<le> DLSM_MAP_CAP \<longrightarrow> index_ok t' (write_map mem op k v m))"
proof -
  have wf: "tree_wf t" using ok by (auto simp: index_ok_def dest: index_rep_wf)
  obtain p where p: "find_leaf t (Some (ix_root t)) k = Some p" "live t p" "b_leaf (nd t p)" "covers (nd t p) k"
    using find_root_leaf [OF wf wf wf] by blast
  obtain t1 t2 t3 where ws: "write_stages mem op k v t p t1 t2 t3" using write_stages_ex by blast
  note eq = write_run_stages [OF p(1) ws]
  note t1_def = ws [unfolded write_stages_def, THEN conjunct1]
    and t2_def = ws [unfolded write_stages_def, THEN conjunct2, THEN conjunct1]
    and t3_def = ws [unfolded write_stages_def, THEN conjunct2, THEN conjunct2]
  have ok1: "index_ok t1 m" and lv1: "live t1 p" and sp: "same_place (nd t p) (nd t1 p)"
    using try_consolidate_ok [OF ok p(2,3) bk, of At_Cap] ok p(2) by (auto simp: same_place_def t1_def)
  have lf1: "b_leaf (nd t1 p)" and cv1: "covers (nd t1 p) k"
    using sp p(3,4) same_place_covers [OF sp] by (simp_all add: same_place_def)
  note id = install_delta_ok [OF ok1 lv1 lf1 cv1, of op v, folded t2_def]
  have ok3: "index_ok t3 (m(k := op_value op v))"
    using try_consolidate_ok(1) [OF id(1,2) _ bk, of After_Write] id lf1 by (auto simp: t3_def)
  obtain t4 where t4: "split_leaf mem k t3 = Some t4"
    "ix_next_pid t4 \<le> DLSM_MAP_CAP \<longrightarrow> index_ok t4 (m(k := op_value op v))"
    using split_leaf_ok [OF ok3 bk] by blast
  have full: "chain_depth (the (ix_map t1 p)) \<ge> DLSM_CHAIN_CAP \<longleftrightarrow> stuck mem t k"
    using try_consolidate_depth [OF p(2,3), of mem At_Cap] p(1) by (auto simp: t1_def stuck_def)
  show "write_run mem op k v t = None \<longleftrightarrow> stuck mem t k" unfolding eq full using t4(1) by simp
  assume r: "write_run mem op k v t = Some (st, t')"
  show "st = write_status mem \<and> (ix_next_pid t' \<le> DLSM_MAP_CAP \<longrightarrow> index_ok t' (write_map mem op k v m))"
  proof (cases "mem Delta_Node \<and> mem Delta_Key")
    case True
    with r [unfolded eq] t4 ok3 show ?thesis by (auto simp: write_map_def split: if_splits)
  next
    case False
    with r [unfolded eq] ok1 show ?thesis by (auto simp: write_map_def split: if_splits)
  qed
qed

section \<open>The client's operations\<close>

text \<open>A call of the client, with the answers its allocations get.\<close>

datatype index_cmd =
  Cmd_Insert memory key_ptr dlsm_delta_pointer
| Cmd_Update memory key_ptr dlsm_delta_pointer
| Cmd_Delete memory key_ptr

fun cmd_mem :: "index_cmd \<Rightarrow> memory" where
  "cmd_mem (Cmd_Insert mem _ _) = mem"
| "cmd_mem (Cmd_Update mem _ _) = mem"
| "cmd_mem (Cmd_Delete mem _) = mem"

fun cmd_key :: "index_cmd \<Rightarrow> key_ptr" where
  "cmd_key (Cmd_Insert _ key _) = key"
| "cmd_key (Cmd_Update _ key _) = key"
| "cmd_key (Cmd_Delete _ key) = key"

fun cmd_value :: "index_cmd \<Rightarrow> dlsm_delta_pointer option" where
  "cmd_value (Cmd_Insert _ _ v) = Some v"
| "cmd_value (Cmd_Update _ _ v) = Some v"
| "cmd_value (Cmd_Delete _ _) = None"

fun cmd_call :: "index_cmd \<Rightarrow> dlsm_index option \<Rightarrow> (dlsm_status \<times> dlsm_index option) option" where
  "cmd_call (Cmd_Insert mem key v) t = dlsm_index_insert mem t key v"
| "cmd_call (Cmd_Update mem key v) t = dlsm_index_update mem t key v"
| "cmd_call (Cmd_Delete mem key) t = dlsm_index_delete mem t key"

definition index_call :: "index_cmd \<Rightarrow> dlsm_index \<Rightarrow> (dlsm_status \<times> dlsm_index) option" where
  "index_call c t = map_option (\<lambda>(st, t'). (st, the t')) (cmd_call c (Some t))"

text \<open>What the interface promises: the status, and the effect on the map.\<close>

definition cmd_status :: "index_cmd \<Rightarrow> dlsm_status" where
  "cmd_status c = (if key_missing (cmd_key c) then DLSM_INDEX_E_INVAL else write_status (cmd_mem c))"

definition cmd_effect :: "index_cmd \<Rightarrow> (key \<rightharpoonup> dlsm_delta_pointer) \<Rightarrow> (key \<rightharpoonup> dlsm_delta_pointer)" where
  "cmd_effect c m = (if cmd_status c = DLSM_OK then m(key_arg (cmd_key c) := cmd_value c) else m)"

abbreviation table_kept :: "dlsm_index \<Rightarrow> bool" where
  "table_kept t \<equiv> ix_next_pid t \<le> DLSM_MAP_CAP"

lemma index_call_run:
  "\<exists>op v. op_value op v = cmd_value c \<and> index_call c t = (if key_missing (cmd_key c) then Some (DLSM_INDEX_E_INVAL, t)
     else write_run (cmd_mem c) op (key_arg (cmd_key c)) v t)"
proof -
  have w: "map_option (\<lambda>(st, t'). (st, the t')) (write_op mem op key v (Some t)) =
      (if key_missing key then Some (DLSM_INDEX_E_INVAL, t) else write_run mem op (key_arg key) v t)" for mem op key v
    by (cases "write_run mem op (key_arg key) v t") (auto simp: write_op_def)
  show ?thesis
  proof (cases c)
    case (Cmd_Insert mem key v)
    then show ?thesis by (intro exI [of _ OP_INSERT] exI [of _ v]) (simp add: index_call_def dlsm_index_insert_def w op_value_def)
  next
    case (Cmd_Update mem key v)
    then show ?thesis by (intro exI [of _ OP_UPDATE] exI [of _ v]) (simp add: index_call_def dlsm_index_update_def w op_value_def)
  next
    case (Cmd_Delete mem key)
    then show ?thesis
      by (intro exI [of _ OP_DELETE] exI [of _ tombstone]) (simp add: index_call_def dlsm_index_delete_def w op_value_def)
  qed
qed

lemma dlsm_index_get_rep:
  assumes "index_rep t m" and "\<not> key_missing key"
  shows "dlsm_index_get True (Some t) key =
    Some (case m (key_arg key) of None \<Rightarrow> (DLSM_INDEX_E_NOTFOUND, None) | Some v \<Rightarrow> (DLSM_OK, Some v))"
  using get_from_correct [OF assms(1) wfD(1) wf_root_above] index_rep_wf [OF assms(1)] assms(2)
  by (simp add: dlsm_index_get_def split: option.splits)

definition index_lookup :: "dlsm_index \<Rightarrow> key \<Rightarrow> dlsm_delta_pointer option option" where
  "index_lookup t k = get_from t (Some (ix_root t)) k"

lemma index_lookup_rep: "index_rep t m \<Longrightarrow> index_lookup t k = Some (m k)"
  using get_from_correct [OF _ wfD(1) wf_root_above] index_rep_wf by (simp add: index_lookup_def)

lemma index_new_ok: "index_ok dlsm_index_new Map.empty"
proof -
  have "node_ok dlsm_index_new 0"
    by (simp add: node_ok_def dlsm_index_new_def base_leaf_new_def leaf_ok_def nonempty_range_def right_ok_def)
  then have "tree_wf dlsm_index_new"
    by (intro wfI) (auto simp: dlsm_index_new_def base_leaf_new_def split: if_splits)
  then show ?thesis
    by (auto simp: index_ok_def index_rep_def dlsm_index_new_def base_leaf_new_def split: if_splits)
qed

lemma index_call_law:
  assumes ok: "index_ok t m" and bk: "backed (cmd_mem c)" and r: "index_call c t = Some (st, t')" and cap: "table_kept t'"
  shows "st = cmd_status c \<and> index_ok t' (cmd_effect c m)"
proof -
  obtain op v where v: "op_value op v = cmd_value c" and run: "index_call c t = (if key_missing (cmd_key c) then Some (DLSM_INDEX_E_INVAL, t)
     else write_run (cmd_mem c) op (key_arg (cmd_key c)) v t)" using index_call_run by blast
  show ?thesis
  proof (cases "key_missing (cmd_key c)")
    case True
    with r run ok show ?thesis by (simp add: cmd_status_def cmd_effect_def)
  next
    case False
    then have "write_run (cmd_mem c) op (key_arg (cmd_key c)) v t = Some (st, t')" using r run by simp
    from write_run_result(2) [OF ok bk this] cap have "st = write_status (cmd_mem c)"
      "index_ok t' (write_map (cmd_mem c) op (key_arg (cmd_key c)) v m)" by simp_all
    with False v show ?thesis
      by (cases "write_status (cmd_mem c) = DLSM_OK") (simp_all add: cmd_status_def cmd_effect_def write_map_def)
  qed
qed

lemma index_call_next:
  assumes "index_call c t = Some (st, t')"
  shows "ix_next_pid t \<le> ix_next_pid t'"
proof -
  obtain op v where "index_call c t = (if key_missing (cmd_key c) then Some (DLSM_INDEX_E_INVAL, t)
     else write_run (cmd_mem c) op (key_arg (cmd_key c)) v t)" using index_call_run by blast
  with assms write_run_next show ?thesis by (auto split: if_splits)
qed

interpretation ix: kv_map index_ok table_kept index_lookup index_call "\<lambda>c. backed (cmd_mem c)" cmd_status cmd_effect
proof
  show "index_lookup t k = Some (m k)" if "index_ok t m" for t m k
    using that index_lookup_rep by (simp add: index_ok_def)
  show "st = cmd_status c \<and> index_ok t' (cmd_effect c m)"
    if "index_ok t m" "backed (cmd_mem c)" "index_call c t = Some (st, t')" "table_kept t'" for t m c st t'
    using index_call_law [OF that] .
  show "table_kept t" if "index_call c t = Some (st, t')" "table_kept t'" for c t st t'
    using index_call_next [OF that(1)] that(2) by simp
qed

section \<open>The client's view\<close>

text \<open>
  Claim C2. A history of inserts, updates and deletes from a new index, consolidations and splits included,
  with any answers of the allocations whose failure the code tests and the others granted, and with the
  mapping table not exhausted at its end: every call answers the status that its key and its memory demand,
  and every lookup afterwards answers what the calls that answered \<open>DLSM_OK\<close>, made on a finite map, give.
\<close>

theorem index_history:
  assumes "kv_run index_call cs dlsm_index_new = Some (sts, t)" and "list_all (\<lambda>c. backed (cmd_mem c)) cs"
    and "ix_next_pid t \<le> DLSM_MAP_CAP" and "\<not> key_missing key"
  shows "sts = map cmd_status cs \<and> dlsm_index_get True (Some t) key =
    Some (case fold cmd_effect cs Map.empty (key_arg key) of
        None \<Rightarrow> (DLSM_INDEX_E_NOTFOUND, None) | Some v \<Rightarrow> (DLSM_OK, Some v))"
proof -
  have "sts = map cmd_status cs \<and> index_ok t (fold cmd_effect cs Map.empty)"
    using ix.run_rep [OF assms(1,3,2) index_new_ok] .
  then show ?thesis using dlsm_index_get_rep [OF _ assms(4)] by (simp add: index_ok_def)
qed

lemma single_leaf_write:
  assumes "ix_map t 0 = Some h" and "ix_root t = 0" and "tail_base h = base_leaf_new" and "chain_depth h < 7"
  shows "write_run mem op k v t = Some (if mem Delta_Node \<and> mem Delta_Key then (DLSM_OK, install_delta 0 op k v t)
    else (DLSM_INDEX_E_NOMEM, t))"
proof -
  have "find_leaf t (Some (ix_root t)) k = Some 0"
    using assms find_leaf_step [of t 0 k] by (simp add: past_fence_def base_leaf_new_def)
  with assms show ?thesis by (simp add: write_run_def Let_def install_delta_def base_leaf_new_def)
qed

text \<open>Two inserts, one refused for lack of memory, and a delete.\<close>

definition no_key :: memory where
  "no_key s \<longleftrightarrow> s \<noteq> Delta_Key"

lemma backed_no_key [simp]: "backed no_key"
  unfolding backed_def no_key_def using tested.simps(2) by blast

theorem index_history_witness:
  "map_option (\<lambda>(sts, t). (sts, dlsm_index_get True (Some t) (Key_Bytes [7]), dlsm_index_get True (Some t) (Key_Bytes [9])))
     (kv_run index_call [Cmd_Insert (\<lambda>_. True) (Key_Bytes [7]) tombstone, Cmd_Update (\<lambda>_. True) (Key_Bytes [9]) tombstone,
        Cmd_Delete (\<lambda>_. True) (Key_Bytes [7]), Cmd_Delete no_key (Key_Bytes [9])] dlsm_index_new)
   = Some ([DLSM_OK, DLSM_OK, DLSM_OK, DLSM_INDEX_E_NOMEM], Some (DLSM_INDEX_E_NOTFOUND, None), Some (DLSM_OK, Some tombstone))"
proof -
  let ?cs = "[Cmd_Insert (\<lambda>_. True) (Key_Bytes [7]) tombstone, Cmd_Update (\<lambda>_. True) (Key_Bytes [9]) tombstone,
    Cmd_Delete (\<lambda>_. True) (Key_Bytes [7]), Cmd_Delete no_key (Key_Bytes [9])]"
  obtain sts t where t: "kv_run index_call ?cs dlsm_index_new = Some (sts, t)" "ix_next_pid t = 1"
    by (simp add: index_call_def dlsm_index_insert_def dlsm_index_update_def dlsm_index_delete_def write_op_def
        single_leaf_write dlsm_index_new_def install_delta_def Let_def set_head_def no_key_def)
  have "list_all (\<lambda>c. backed (cmd_mem c)) ?cs" by simp
  note h = index_history [OF t(1) this]
  have "fold cmd_effect ?cs Map.empty [7] = None" "fold cmd_effect ?cs Map.empty [9] = Some tombstone"
    "map cmd_status ?cs = [DLSM_OK, DLSM_OK, DLSM_OK, DLSM_INDEX_E_NOMEM]"
    by (simp_all add: cmd_effect_def cmd_status_def no_key_def)
  with h [of "Key_Bytes [7]"] h [of "Key_Bytes [9]"] t show ?thesis by simp
qed

text \<open>
  A history with memory for the consolidations at the cap ends, unless the mapping table is exhausted on
  the way.
\<close>

theorem index_history_returns:
  assumes "list_all (\<lambda>c. backed (cmd_mem c)) cs"
    and "list_all (\<lambda>c. cmd_mem c (Merge_Array At_Cap) \<and> cmd_mem c (Merge_Node At_Cap)) cs"
  shows "(\<exists>sts t. kv_run index_call cs dlsm_index_new = Some (sts, t)) \<or>
    (\<exists>pre post sts t. cs = pre @ post \<and> kv_run index_call pre dlsm_index_new = Some (sts, t) \<and> DLSM_MAP_CAP < ix_next_pid t)"
proof -
  have "\<exists>st t'. index_call c t = Some (st, t')" if ok: "index_ok t m" and c: "c \<in> set cs" for t m c
  proof -
    have "\<not> stuck (cmd_mem c) t k" "backed (cmd_mem c)" for k using assms c by (auto simp: list_all_iff stuck_def)
    moreover obtain op v where "index_call c t = (if key_missing (cmd_key c) then Some (DLSM_INDEX_E_INVAL, t)
     else write_run (cmd_mem c) op (key_arg (cmd_key c)) v t)" using index_call_run by blast
    ultimately show ?thesis using write_run_result(1) [OF ok, of "cmd_mem c" op "key_arg (cmd_key c)" v] by auto
  qed
  from ix.run_returns [OF this assms(1) index_new_ok] show ?thesis by (simp add: not_le)
qed

text \<open>
  Claim C24. A write on an index that represents a map, on every branch that the code tests, with the
  untested allocations granted. It returns unless the chain of its leaf is at the cap and the memory to
  consolidate it is refused. The status says whether the delta and its key could be allocated, and, where
  the mapping table is not exhausted by the write, the index represents the map updated at the key alone,
  or the map as before.
\<close>

theorem index_write_branches:
  assumes "index_ok t m" and "\<not> key_missing key" and "backed mem"
  shows "(write_op mem op key v (Some t) = None \<longleftrightarrow> stuck mem t (key_arg key)) \<and>
    (write_op mem op key v (Some t) = Some (st, t') \<longrightarrow>
      st = (if mem Delta_Node \<and> mem Delta_Key then DLSM_OK else DLSM_INDEX_E_NOMEM) \<and>
      (\<exists>u. t' = Some u \<and> (ix_next_pid u \<le> DLSM_MAP_CAP \<longrightarrow>
        index_ok u (if st = DLSM_OK then m(key_arg key := op_value op v) else m))))"
proof -
  note r = write_run_result [OF assms(1,3), of op "key_arg key" v]
  have "write_op mem op key v (Some t) = None \<longleftrightarrow> stuck mem t (key_arg key)"
    using r(1) assms(2) by (simp add: write_op_def)
  moreover have "st = (if mem Delta_Node \<and> mem Delta_Key then DLSM_OK else DLSM_INDEX_E_NOMEM) \<and>
      (\<exists>u. t' = Some u \<and> (ix_next_pid u \<le> DLSM_MAP_CAP \<longrightarrow>
        index_ok u (if st = DLSM_OK then m(key_arg key := op_value op v) else m)))"
    if w: "write_op mem op key v (Some t) = Some (st, t')"
  proof -
    obtain u where u: "write_run mem op (key_arg key) v t = Some (st, u)" "t' = Some u"
      using w assms(2) by (auto simp: write_op_def)
    from r(2) [OF u(1)] u(2) show ?thesis by (auto simp: write_map_def write_status_def)
  qed
  ultimately show ?thesis by blast
qed

theorem index_write_branches_witness:
  "(\<exists>u. write_op (\<lambda>_. True) OP_INSERT (Key_Bytes [5]) tombstone (Some dlsm_index_new) = Some (DLSM_OK, Some u) \<and>
      index_ok u [[5] \<mapsto> tombstone]) \<and>
   (\<exists>u. write_op no_key OP_INSERT (Key_Bytes [5]) tombstone (Some dlsm_index_new) = Some (DLSM_INDEX_E_NOMEM, Some u) \<and>
      index_ok u Map.empty)"
proof -
  have k: "\<not> key_missing (Key_Bytes [5])" by simp
  have w: "write_op (\<lambda>_. True) OP_INSERT (Key_Bytes [5]) tombstone (Some dlsm_index_new) =
      Some (DLSM_OK, Some (install_delta 0 OP_INSERT [5] tombstone dlsm_index_new))"
    "write_op no_key OP_INSERT (Key_Bytes [5]) tombstone (Some dlsm_index_new) = Some (DLSM_INDEX_E_NOMEM, Some dlsm_index_new)"
    by (simp_all add: write_op_def single_leaf_write dlsm_index_new_def no_key_def)
  have n: "ix_next_pid (install_delta 0 OP_INSERT [5] tombstone dlsm_index_new) = 1" "ix_next_pid dlsm_index_new = 1"
    by (simp_all add: install_delta_def Let_def dlsm_index_new_def)
  from index_write_branches [OF index_new_ok k backed_granted, of OP_INSERT tombstone DLSM_OK, THEN conjunct2,
      rule_format, OF w(1)]
    index_write_branches [OF index_new_ok k backed_no_key, of OP_INSERT tombstone DLSM_INDEX_E_NOMEM, THEN conjunct2,
      rule_format, OF w(2)] w n
  show ?thesis by (simp add: op_value_def)
qed

text \<open>
  What the untested allocations do. A consolidation whose copy of the high fence is refused publishes a
  leaf without a fence: a walk for a key of the right sibling that reaches the leaf stays there. A leaf
  split whose node is refused follows a null pointer.
\<close>

theorem index_untested_allocations:
  assumes "ix_map t p = Some (Delta op d dk v c)" and "b_leaf (tail_base c)" and "b_high (tail_base c) = Some h" and "h \<le> k"
    and "mem (Merge_Array g)" and "mem (Merge_Node g)" and "\<not> mem (Merge_High g)"
  shows "find_leaf t (Some p) k = find_leaf t (b_right (tail_base c)) k \<and>
    find_leaf (try_consolidate mem g p t) (Some p) k = Some p"
proof -
  have "past_fence (tail_base c) k" using assms(3,4) by (auto simp: past_fence_iff)
  then have "find_leaf t (Some p) k = find_leaf t (b_right (tail_base c)) k"
    using assms(1) by (subst find_leaf.simps) (simp add: Let_def)
  moreover obtain arr where "materialize_leaf True (Delta op d dk v c) = Some arr"
    by (cases "collect_deltas (Delta op d dk v c) [] []") (simp add: materialize_leaf_def)
  then have "ix_map (try_consolidate mem g p t) p = Some (Base (base_leaf_new\<lparr>b_lents := arr,
      b_low := fdup (mem (Merge_Low g)) (b_low (tail_base c)), b_high := None, b_right := b_right (tail_base c)\<rparr>))"
    using assms by (simp add: try_consolidate_def Let_def fdup_def keydup_def)
  then have "find_leaf (try_consolidate mem g p t) (Some p) k = Some p"
    by (subst find_leaf.simps) (simp add: Let_def past_fence_def base_leaf_new_def)
  ultimately show ?thesis by blast
qed

theorem index_split_null:
  assumes "descend_with_path t (Some (ix_root t)) k [] = Some (p, path)"
    and "materialize_leaf (mem Split_Array) (the (ix_map t p)) = Some arr" and "DLSM_LEAF_MAX < length arr"
    and "\<not> mem Split_Left \<or> \<not> mem Split_Right"
  shows "split_leaf mem k t = None"
  using assms by (auto simp: split_leaf_def)

text \<open>
  Claim C37. A walk of the tree always ends, at the leaf whose fences enclose the key, also in a tree
  in which a node has been divided and its parent does not know yet.
\<close>

theorem index_walk_terminates:
  assumes "tree_wf t"
  shows "\<exists>p. find_leaf t (Some (ix_root t)) k = Some p \<and> live t p \<and> b_leaf (nd t p) \<and> covers (nd t p) k"
  using find_root_leaf [OF assms assms assms] .

theorem index_walk_terminates_witness:
  "\<exists>p. find_leaf dlsm_index_new (Some (ix_root dlsm_index_new)) [1, 2] = Some p \<and> live dlsm_index_new p \<and>
     b_leaf (nd dlsm_index_new p) \<and> covers (nd dlsm_index_new p) [1, 2]"
proof (rule index_walk_terminates)
  show "tree_wf dlsm_index_new" using index_new_ok by (auto simp: index_ok_def dest: index_rep_wf)
qed

section \<open>Chains stay short\<close>

fun chain_len :: "chain \<Rightarrow> nat" where
  "chain_len (Base _) = 0"
| "chain_len (Delta _ _ _ _ c) = chain_len c + 1"

fun depth_ok :: "chain \<Rightarrow> bool" where
  "depth_ok (Base _) \<longleftrightarrow> True"
| "depth_ok (Delta _ d _ _ c) \<longleftrightarrow> d = chain_len c + 1 \<and> depth_ok c"

lemma chain_depth_len: "depth_ok c \<Longrightarrow> chain_depth c = chain_len c"
  by (cases c) auto

definition chains_short :: "dlsm_index \<Rightarrow> bool" where
  "chains_short t \<longleftrightarrow> (\<forall>p c. ix_map t p = Some c \<longrightarrow> depth_ok c \<and> chain_len c \<le> DLSM_CHAIN_CAP)"

lemma chains_short_base: "chains_short t \<Longrightarrow> chains_short (set_head p (Base b) t)"
  by (simp add: chains_short_def)

lemma chains_short_cong: "ix_map t = ix_map t' \<Longrightarrow> chains_short t \<longleftrightarrow> chains_short t'"
  by (simp add: chains_short_def)

lemma chains_short_alloc: "chains_short t \<Longrightarrow> alloc_pid (Base b) t = (rp, t') \<Longrightarrow> chains_short t'"
  by (auto simp: alloc_pid_def Let_def chains_short_def split: if_splits)

lemma chains_short_consolidate: "chains_short t \<Longrightarrow> chains_short (try_consolidate mem g p t)"
  unfolding try_consolidate_def
  by (auto simp: Let_def chains_short_def split: option.splits chain.splits)

lemma chains_short_publish: "chains_short t \<Longrightarrow> publish_sep mem d p child sep right t = Some t' \<Longrightarrow> chains_short t'"
  by (auto simp: publish_sep_def intro: chains_short_base split: option.splits)

lemma chains_short_divide:
  assumes "chains_short t" and "split_internal_store mem d p t = Some (promoted, nrp, t')"
  shows "chains_short t'"
proof -
  obtain b b' t1 where al: "alloc_pid (Base b) t = (nrp, t1)" and t': "ix_map t' = ix_map (set_head p (Base b') t1)"
    using assms(2) by (auto simp: split_internal_store_def Let_def split: option.splits if_splits prod.splits)
  show ?thesis using chains_short_base [OF chains_short_alloc [OF assms(1) al]] chains_short_cong [OF t'] by simp
qed

lemma chains_short_install_sep:
  "install_sep mem path child sep right t = Some t' \<Longrightarrow> chains_short t \<Longrightarrow> chains_short t'"
proof (induction path arbitrary: child sep right t)
  case Nil
  then show ?case by (auto simp: new_root_def Let_def alloc_pid_def chains_short_def split: if_splits)
next
  case (Cons p rest)
  from Cons.prems(1) obtain t1 where t1: "publish_sep mem (length rest) p child sep (pid_value right) t = Some t1"
    by (auto split: option.splits)
  note c1 = chains_short_publish [OF Cons.prems(2) t1]
  show ?case
  proof (cases "length (b_ients (nd t1 p)) > DLSM_INTERNAL_MAX")
    case False
    with Cons.prems t1 c1 show ?thesis by simp
  next
    case True
    with Cons.prems t1 obtain promoted nrp t2 where st: "split_internal_store mem (length rest) p t1 = Some (promoted, nrp, t2)"
      "install_sep mem rest p promoted nrp t2 = Some t'" by (auto split: option.splits)
    from Cons.IH [OF st(2) chains_short_divide [OF c1 st(1)]] show ?thesis .
  qed
qed

lemma chains_short_split_leaf:
  assumes "chains_short t" and "split_leaf mem k t = Some t'"
  shows "chains_short t'"
proof (cases "t' = t")
  case False
  with assms(2) obtain p arr rp t1 path sep where st: "split_leaf_store mem p arr t = (rp, t1)"
    "install_sep mem path p sep rp t1 = Some t'"
    by (auto simp: split_leaf_def split: option.splits if_splits prod.splits)
  obtain b b' t2 where al: "alloc_pid (Base b) t = (rp, t2)" and t1: "ix_map t1 = ix_map (set_head p (Base b') t2)"
    using st(1) by (auto simp: split_leaf_store_def Let_def split: prod.splits)
  have "chains_short t1" using chains_short_base [OF chains_short_alloc [OF assms(1) al]] chains_short_cong [OF t1] by simp
  with chains_short_install_sep [OF st(2)] show ?thesis .
qed (use assms in simp)

lemma find_leaf_live:
  assumes "find_leaf t po k = Some p"
  shows "live t p"
proof (rule find_leaf.raw_induct [OF _ assms])
  fix f t po k p
  assume "\<And>t po k p. f t po k = Some p \<Longrightarrow> live t p"
    and "(case po of None \<Rightarrow> None | Some p \<Rightarrow> (case ix_map t p of None \<Rightarrow> None
       | Some h \<Rightarrow> (let b = tail_base h in
           if past_fence b k then f t (b_right b) k
           else if \<not> b_leaf b then f t (Some (route b k)) k else Some p))) = Some p"
  then show "live t p" by (auto simp: Let_def split: option.splits if_splits)
qed

text \<open>
  No chain ever holds more deltas than \<open>DLSM_CHAIN_CAP\<close>, and the depth a delta carries is
  the number of deltas from it to the base: every write keeps this.
\<close>

theorem index_chain_bound:
  assumes short: "chains_short t" and w: "write_op mem op key v (Some t) = Some (st, Some t')"
  shows "chains_short t'"
proof (cases "key_missing key")
  case True
  with w short show ?thesis by (auto simp: write_op_def)
next
  case False
  with w have run: "write_run mem op (key_arg key) v t = Some (st, t')" by (auto simp: write_op_def)
  then obtain p where p: "find_leaf t (Some (ix_root t)) (key_arg key) = Some p"
    by (auto simp: write_run_def split: option.splits)
  have lv: "live t p" using find_leaf_live [OF p] .
  obtain t1 t2 t3 where st: "write_stages mem op (key_arg key) v t p t1 t2 t3" using write_stages_ex by blast
  note eq = run [unfolded write_run_stages [OF p st]] and defs = st [unfolded write_stages_def]
  have s1: "chains_short t1" "live t1 p"
    using defs short chains_short_consolidate try_consolidate_frame(1) [OF lv] lv by auto
  show ?thesis
  proof (cases "chain_depth (the (ix_map t1 p)) \<ge> DLSM_CHAIN_CAP \<or> \<not> mem Delta_Node \<or> \<not> mem Delta_Key")
    case True
    with eq s1 show ?thesis by (auto split: if_splits)
  next
    case False
    obtain c where c: "ix_map t1 p = Some c" using s1(2) by auto
    then have "depth_ok c" "chain_len c < DLSM_CHAIN_CAP"
      using s1(1) False chain_depth_len [of c] by (auto simp: chains_short_def)
    then have "chains_short t2"
      using defs s1(1) c chain_depth_len [of c] by (auto simp: chains_short_def install_delta_def Let_def)
    then have "chains_short t3" using defs chains_short_consolidate by auto
    with False eq chains_short_split_leaf show ?thesis by (auto split: if_splits option.splits)
  qed
qed

theorem index_chain_bound_witness:
  "chains_short (install_delta 0 OP_INSERT [5] tombstone dlsm_index_new)"
proof (rule index_chain_bound)
  show "chains_short dlsm_index_new" by (simp add: chains_short_def dlsm_index_new_def)
  show "write_op (\<lambda>_. True) OP_INSERT (Key_Bytes [5]) tombstone (Some dlsm_index_new) =
      Some (DLSM_OK, Some (install_delta 0 OP_INSERT [5] tombstone dlsm_index_new))"
    by (simp add: write_op_def single_leaf_write dlsm_index_new_def)
qed

section \<open>Consolidation, statistics, a full table\<close>

text \<open>
  Claim C38. The merged array answers every lookup as the chain did: the binary search of the
  consolidated node finds what the walk over the deltas and the binary search of the old base found.
\<close>

theorem index_consolidation_equiv:
  assumes "keys_sorted (b_lents (tail_base h))" and "materialize_leaf True h = Some arr"
    and "b_lents b' = arr"
  shows "(if base_find b' k \<ge> 0 then Some (snd (b_lents b' ! nat (base_find b' k))) else None) =
    (case chain_scan h k of Inl r \<Rightarrow> r
     | Inr b \<Rightarrow> if base_find b k \<ge> 0 then Some (snd (b_lents b ! nat (base_find b k))) else None)"
proof -
  from materialize_leaf_correct [OF assms(1)] assms(2) have arr: "keys_sorted arr" "map_of arr = chain_map h" by auto
  have look: "(if base_find b k \<ge> 0 then Some (snd (b_lents b ! nat (base_find b k))) else None) = map_of (b_lents b) k"
    if "keys_sorted (b_lents b)" for b
    using base_find_correct [OF that, of k] by (simp split: if_splits)
  have "k \<notin> delta_keys h \<Longrightarrow> chain_map h k = map_of (b_lents (tail_base h)) k" by (rule chain_map_base)
  then show ?thesis
    using look [of b'] look [of "tail_base h"] assms(1,3) arr by (simp add: chain_scan_eq)
qed

theorem index_consolidation_equiv_witness:
  "(let b' = base_leaf_new\<lparr>b_lents := [([1], tombstone), ([4], tombstone)]\<rparr> in
    if base_find b' [4] \<ge> 0 then Some (snd (b_lents b' ! nat (base_find b' [4]))) else None) = Some tombstone"
proof -
  let ?h = "Delta OP_INSERT 2 [4] tombstone (Delta OP_DELETE 1 [3] tombstone
    (Base (base_leaf_new\<lparr>b_lents := [([1], tombstone), ([3], tombstone)]\<rparr>)))"
  have "keys_sorted (b_lents (tail_base ?h))" by simp
  moreover have "materialize_leaf True ?h = Some [([1], tombstone), ([4], tombstone)]"
    by (simp add: materialize_leaf_def)
  ultimately show ?thesis
    using index_consolidation_equiv [of ?h _ "base_leaf_new\<lparr>b_lents := [([1], tombstone), ([4], tombstone)]\<rparr>" "[4]"]
    unfolding Let_def by (simp add: keycmp_simps)
qed

lemma sum_opt_total: "(\<And>x. x \<in> set xs \<Longrightarrow> x \<noteq> None) \<Longrightarrow> sum_opt xs \<noteq> None"
  by (induction xs) (auto split: option.splits)

lemma count_live_total:
  assumes "tree_wf t"
  shows "live t p \<Longrightarrow> b_level (nd t p) < fuel \<Longrightarrow> count_live fuel mem t p \<noteq> None"
proof (induction fuel arbitrary: p)
  case (Suc fuel)
  show ?case
  proof (cases "b_leaf (nd t p)")
    case True
    with Suc.prems show ?thesis by (auto split: option.splits)
  next
    case False
    obtain b where b: "ix_map t p = Some (Base b)" "internal_ok t (Base b)" using wf_internal [OF assms Suc.prems(1) False] .
    have "count_live fuel mem t (snd e) \<noteq> None" if "e \<in> set (b_ients b)" for e
      using internal_children(1,2) [OF b(2), of "fst e" "snd e"] that Suc.prems(2) b(1) by (intro Suc.IH) auto
    then have "sum_opt (map (\<lambda>e. count_live fuel mem t (snd e)) (b_ients b)) \<noteq> None" by (intro sum_opt_total) auto
    with b(1) False show ?thesis by simp
  qed
qed simp

text \<open>
  The statistics are always produced: the recursive count ends on every well-formed tree
  after as many calls as the tree has levels, and the height reported is that number of levels.
\<close>

theorem index_stats_total:
  assumes "tree_wf t" and "b_level (nd t (ix_root t)) < fuel"
  shows "\<exists>st. dlsm_index_stats_get fuel mem (Some t) = Some st \<and> stat_height st = b_level (nd t (ix_root t)) + 1"
proof -
  obtain n where "count_live fuel mem t (ix_root t) = Some n"
    using count_live_total [OF assms(1) wfD(1) [OF assms(1)] assms(2)] by blast
  then show ?thesis by (simp add: dlsm_index_stats_get_def)
qed

theorem index_stats_total_witness:
  "\<exists>st. dlsm_index_stats_get 1 True (Some dlsm_index_new) = Some st \<and>
     stat_height st = b_level (nd dlsm_index_new (ix_root dlsm_index_new)) + 1"
proof (rule index_stats_total)
  show "tree_wf dlsm_index_new" using index_new_ok by (auto simp: index_ok_def dest: index_rep_wf)
qed (simp add: dlsm_index_new_def base_leaf_new_def)

text \<open>
  Claim C39. When the mapping table is full \<open>alloc_pid\<close> answers \<open>PID_NULL\<close>, and the leaf split does not
  look: the store it makes links the left half to no sibling, so that every key of the right half
  leads a walk to the null pid. The keys from the separator on are lost.
\<close>

theorem index_full_map_loses_right:
  assumes "live t p" and "materialize_leaf got (the (ix_map t p)) = Some arr" and "mem Left_High"
    and "DLSM_MAP_CAP \<le> ix_next_pid t" and "split_leaf_store mem p arr t = (rp, t')"
    and "fst (arr ! (length arr div 2)) \<le> k"
  shows "rp = None \<and> get_from t' (Some p) k = None \<and> find_leaf t' (Some p) k = None"
proof -
  have st: "rp = None" "ix_map t' p = Some (Base (leaf_left mem (nd t p) arr None))"
    using assms(4,5) by (auto simp: split_leaf_store_def alloc_pid_def Let_def set_head_def)
  have "past_fence (leaf_left mem (nd t p) arr None) k" "b_right (leaf_left mem (nd t p) arr None) = None"
    using assms(3,6) by (simp_all add: past_fence_iff leaf_left_def)
  moreover have "get_from t' None k = None" "find_leaf t' None k = None"
    by (subst get_from.simps, simp) (subst find_leaf.simps, simp)
  ultimately show ?thesis using st
    by (subst get_from.simps, subst find_leaf.simps) (simp add: Let_def)
qed

theorem index_full_map_loses_right_witness:
  "\<exists>t p t'. live t p \<and> get_from t (Some p) [2] = Some (Some tombstone) \<and>
     split_leaf_store (\<lambda>_. True) p [([1], tombstone), ([2], tombstone)] t = (None, t') \<and> get_from t' (Some p) [2] = None"
proof -
  let ?arr = "[([1], tombstone), ([2], tombstone)]"
  let ?t = "dlsm_index_new\<lparr>ix_map := [0 \<mapsto> Base (base_leaf_new\<lparr>b_lents := ?arr\<rparr>)], ix_next_pid := DLSM_MAP_CAP\<rparr>"
  obtain rp t' where s: "split_leaf_store (\<lambda>_. True) 0 ?arr ?t = (rp, t')" by force
  have "materialize_leaf True (the (ix_map ?t 0)) = Some ?arr" by (simp add: materialize_leaf_def)
  from index_full_map_loses_right [OF _ this _ _ s, of "[2]"] have "rp = None \<and> get_from t' (Some 0) [2] = None" by simp
  moreover have "get_from ?t (Some 0) [2] = Some (Some tombstone)"
    using base_find_correct [of "base_leaf_new\<lparr>b_lents := ?arr\<rparr>" "[2]"]
    by (subst get_from.simps) (simp add: past_fence_def base_leaf_new_def split: if_splits)
  ultimately show ?thesis using s by (intro exI [of _ ?t] exI [of _ 0] exI [of _ t']) simp
qed

end
