(* ===== verification/Index_Conc.thy ===== *)
theory Index_Conc
  imports Index_Ops
begin

text \<open>
  The index under concurrency (\<^verbatim>\<open>libs/index/src/index.c\<close>): any number of readers and writers that walk
  the tree node by node, consolidators, and the one structure modifier that \<open>smo_busy\<close> admits, in any
  interleaving of their atomic accesses to the mapping table. A chain read from the table is
  immutable and kept alive by the reader's epoch (theory \<open>Ebr\<close>), so what a thread computes from one
  load of a head is one step; a compare-and-swap that loses its race changes nothing and is no
  step, nor is work that ends because a tested allocation was refused. The steps are those of the code
  also when the mapping table is exhausted, and the untested allocations of a step are answered by its
  argument. The finite map \<open>cx_map\<close> is the specification state: a successful delta writes it.
\<close>

section \<open>Threads and steps\<close>

datatype agent =
  Ag_Idle
| Ag_Get key "pid option"
| Ag_Got key "dlsm_delta_pointer option"
| Ag_Write delta_op key dlsm_delta_pointer "pid option"

record ixc =
  cx_ix :: dlsm_index
  cx_map :: "key \<rightharpoonup> dlsm_delta_pointer"
  cx_smo :: smo
  cx_ag :: "nat \<Rightarrow> agent"

text \<open>One round of the loop of \<open>dlsm_index_get\<close>, and of the walk in \<open>write_op\<close>.\<close>

definition get_round :: "dlsm_index \<Rightarrow> key \<Rightarrow> pid \<Rightarrow> agent" where
  "get_round t k p = (case ix_map t p of
     None \<Rightarrow> Ag_Get k None
   | Some h \<Rightarrow> (case chain_scan h k of
       Inl r \<Rightarrow> Ag_Got k r
     | Inr b \<Rightarrow>
         if past_fence b k then Ag_Get k (b_right b)
         else if \<not> b_leaf b then Ag_Get k (Some (route b k))
         else Ag_Got k (if base_find b k \<ge> 0 then Some (snd (b_lents b ! nat (base_find b k))) else None)))"

definition walk_round :: "dlsm_index \<Rightarrow> key \<Rightarrow> pid \<Rightarrow> pid option" where
  "walk_round t k p =
     (let b = tail_base (the (ix_map t p)) in
      if past_fence b k then b_right b else if \<not> b_leaf b then Some (route b k) else Some p)"

definition at_leaf :: "dlsm_index \<Rightarrow> key \<Rightarrow> pid \<Rightarrow> bool" where
  "at_leaf t k p \<longleftrightarrow> \<not> past_fence (tail_base (the (ix_map t p))) k \<and> b_leaf (tail_base (the (ix_map t p)))"

definition ixc_init :: ixc where
  "ixc_init = \<lparr>cx_ix = dlsm_index_new, cx_map = Map.empty, cx_smo = Smo_Idle, cx_ag = (\<lambda>_. Ag_Idle)\<rparr>"

inductive ix_step :: "memory \<Rightarrow> ixc \<Rightarrow> ixc \<Rightarrow> bool" for mem :: memory where
  get_call: "ix_step mem s (s\<lparr>cx_ag := (cx_ag s)(i := Ag_Get k (Some (ix_root (cx_ix s))))\<rparr>)"
| get_round: "cx_ag s i = Ag_Get k (Some p) \<Longrightarrow>
    ix_step mem s (s\<lparr>cx_ag := (cx_ag s)(i := get_round (cx_ix s) k p)\<rparr>)"
| write_call: "ix_step mem s (s\<lparr>cx_ag := (cx_ag s)(i := Ag_Write op k v (Some (ix_root (cx_ix s))))\<rparr>)"
| write_walk: "cx_ag s i = Ag_Write op k v (Some p) \<Longrightarrow> \<not> at_leaf (cx_ix s) k p \<Longrightarrow>
    ix_step mem s (s\<lparr>cx_ag := (cx_ag s)(i := Ag_Write op k v (walk_round (cx_ix s) k p))\<rparr>)"
| write_cas: "cx_ag s i = Ag_Write op k v (Some p) \<Longrightarrow> at_leaf (cx_ix s) k p \<Longrightarrow>
    chain_depth (the (ix_map (cx_ix s) p)) < DLSM_CHAIN_CAP \<Longrightarrow> mem Delta_Node \<Longrightarrow> mem Delta_Key \<Longrightarrow>
    ix_step mem s (s\<lparr>cx_ix := install_delta p op k v (cx_ix s), cx_map := (cx_map s)(k := op_value op v),
      cx_ag := (cx_ag s)(i := Ag_Idle)\<rparr>)"
| write_refused: "cx_ag s i = Ag_Write op k v (Some p) \<Longrightarrow> at_leaf (cx_ix s) k p \<Longrightarrow>
    chain_depth (the (ix_map (cx_ix s) p)) < DLSM_CHAIN_CAP \<Longrightarrow> \<not> mem Delta_Node \<or> \<not> mem Delta_Key \<Longrightarrow>
    ix_step mem s (s\<lparr>cx_ag := (cx_ag s)(i := Ag_Idle)\<rparr>)"
| consolidate: "ix_map (cx_ix s) p \<noteq> None \<Longrightarrow> b_leaf (tail_base (the (ix_map (cx_ix s) p))) \<Longrightarrow>
    ix_step mem s (s\<lparr>cx_ix := try_consolidate mem g p (cx_ix s)\<rparr>)"
| smo_split: "cx_smo s = Smo_Idle \<Longrightarrow>
    descend_with_path (cx_ix s) (Some (ix_root (cx_ix s))) k [] = Some (p, path) \<Longrightarrow>
    materialize_leaf (mem Split_Array) (the (ix_map (cx_ix s) p)) = Some arr \<Longrightarrow> length arr > DLSM_LEAF_MAX \<Longrightarrow>
    mem Split_Left \<Longrightarrow> mem Split_Right \<Longrightarrow> mem Split_Left_Ents \<Longrightarrow> mem Split_Right_Ents \<Longrightarrow> mem Split_Sep \<Longrightarrow>
    split_leaf_store mem p arr (cx_ix s) = (rp, t') \<Longrightarrow>
    ix_step mem s (s\<lparr>cx_ix := t', cx_smo := Smo_Publish path p (fst (arr ! (length arr div 2))) (pid_value rp)\<rparr>)"
| smo_root: "cx_smo s = Smo_Publish [] child sep right \<Longrightarrow> new_root mem child sep right (cx_ix s) = Some t' \<Longrightarrow>
    ix_step mem s (s\<lparr>cx_ix := t', cx_smo := Smo_Idle\<rparr>)"
| smo_publish: "cx_smo s = Smo_Publish (p # rest) child sep right \<Longrightarrow>
    publish_sep mem (length rest) p child sep right (cx_ix s) = Some t' \<Longrightarrow>
    ix_step mem s (s\<lparr>cx_ix := t', cx_smo :=
      (if length (b_ients (tail_base (the (ix_map t' p)))) > DLSM_INTERNAL_MAX then Smo_Divide rest p else Smo_Idle)\<rparr>)"
| smo_divide: "cx_smo s = Smo_Divide rest p \<Longrightarrow>
    split_internal_store mem (length rest) p (cx_ix s) = Some (promoted, nrp, t') \<Longrightarrow>
    ix_step mem s (s\<lparr>cx_ix := t', cx_smo := Smo_Publish rest p promoted (pid_value nrp)\<rparr>)"

text \<open>The states reached by steps whose untested allocations are granted.\<close>

inductive ixc_reachable :: "ixc \<Rightarrow> bool" where
  init: "ixc_reachable ixc_init"
| step: "ixc_reachable s \<Longrightarrow> backed mem \<Longrightarrow> ix_step mem s s' \<Longrightarrow> ixc_reachable s'"

inductive_cases ix_step_cases: "ix_step mem s s'"

section \<open>The invariant\<close>

text \<open>A walking thread is at a node that exists and whose range starts at or below its key.\<close>

definition walker_ok :: "dlsm_index \<Rightarrow> key \<Rightarrow> pid option \<Rightarrow> bool" where
  "walker_ok t k po \<longleftrightarrow> (\<exists>p. po = Some p \<and> live t p \<and> above_low (nd t p) k)"

fun agent_ok :: "dlsm_index \<Rightarrow> agent \<Rightarrow> bool" where
  "agent_ok t (Ag_Get k po) \<longleftrightarrow> walker_ok t k po"
| "agent_ok t (Ag_Write op k v po) \<longleftrightarrow> walker_ok t k po"
| "agent_ok t _ \<longleftrightarrow> True"

definition ixc_ok :: "ixc \<Rightarrow> bool" where
  "ixc_ok s \<longleftrightarrow> index_rep (cx_ix s) (cx_map s) \<and> smo_ok (cx_ix s) (cx_smo s) \<and> (\<forall>i. agent_ok (cx_ix s) (cx_ag s i))"

lemma ixc_okI:
  assumes "index_rep (cx_ix s) (cx_map s)" and "smo_ok (cx_ix s) (cx_smo s)" and "\<And>i. agent_ok (cx_ix s) (cx_ag s i)"
  shows "ixc_ok s"
  using assms by (simp add: ixc_ok_def)

lemma ixc_okD:
  assumes "ixc_ok s"
  shows "index_rep (cx_ix s) (cx_map s)" and "smo_ok (cx_ix s) (cx_smo s)" and "agent_ok (cx_ix s) (cx_ag s i)"
    and "tree_wf (cx_ix s)"
  using assms index_rep_wf by (auto simp: ixc_ok_def)

lemma agent_ok_kept: "shape_kept t t' \<Longrightarrow> agent_ok t a \<Longrightarrow> agent_ok t' a"
  by (cases a) (auto simp: walker_ok_def shape_kept_def above_low_def)

text \<open>Reading and walking.\<close>

lemma walk_ok:
  assumes wf: "tree_wf t" and lv: "live t p" and ab: "above_low (nd t p) k"
  shows "past_fence (nd t p) k \<Longrightarrow> walker_ok t k (b_right (nd t p))"
    and "\<not> b_leaf (nd t p) \<Longrightarrow> walker_ok t k (Some (route (nd t p) k))"
proof -
  show "walker_ok t k (b_right (nd t p))" if "past_fence (nd t p) k"
  proof -
    from that obtain h where h: "b_high (nd t p) = Some h" "h \<le> k" by (auto simp: past_fence_iff)
    obtain r where "b_right (nd t p) = Some r" "live t r" "b_low (nd t r) = Some h" using wf_right [OF wf lv h(1)] .
    with h(2) show ?thesis by (simp add: walker_ok_def above_low_def)
  qed
  show "walker_ok t k (Some (route (nd t p) k))" if "\<not> b_leaf (nd t p)"
    using route_child(1,3) [OF wf lv that ab] by (simp add: walker_ok_def)
qed

lemma get_round_from:
  "live t p \<Longrightarrow> get_from t (Some p) k = (case get_round t k p of Ag_Got _ r \<Rightarrow> Some r | Ag_Get _ po \<Rightarrow> get_from t po k | _ \<Rightarrow> None)"
  by (subst get_from.simps) (auto simp: get_round_def split: sum.splits)

lemma get_round_ok:
  assumes rep: "index_rep t m" and lv: "live t p" and ab: "above_low (nd t p) k"
  shows "agent_ok t (get_round t k p)" and "get_round t k p = Ag_Got k' r \<Longrightarrow> k' = k \<and> r = m k"
proof -
  note wf = index_rep_wf [OF rep]
  show "get_round t k p = Ag_Got k' r \<Longrightarrow> k' = k \<and> r = m k"
    using get_round_from [OF lv, of k] get_from_correct [OF rep lv ab]
    by (auto simp: get_round_def split: option.splits sum.splits if_splits)
  show "agent_ok t (get_round t k p)"
    using walk_ok [OF wf lv ab] lv by (auto simp: get_round_def chain_scan_eq)
qed
text \<open>A change that leaves every node in its place and the internal nodes as they are.\<close>

definition leaf_change :: "dlsm_index \<Rightarrow> dlsm_index \<Rightarrow> bool" where
  "leaf_change t t' \<longleftrightarrow> ix_root t' = ix_root t \<and> ix_next_pid t' = ix_next_pid t \<and>
     (\<forall>q. live t' q = live t q) \<and> (\<forall>q. same_place (nd t q) (nd t' q)) \<and>
     (\<forall>q. \<not> b_leaf (nd t q) \<longrightarrow> ix_map t' q = ix_map t q)"

lemma leaf_changeD:
  assumes "leaf_change t t'"
  shows "ix_root t' = ix_root t" and "ix_next_pid t' = ix_next_pid t" and "live t' q = live t q"
    and "b_leaf (nd t' q) = b_leaf (nd t q)" and "b_level (nd t' q) = b_level (nd t q)"
    and "b_low (nd t' q) = b_low (nd t q)" and "b_high (nd t' q) = b_high (nd t q)"
    and "\<not> b_leaf (nd t q) \<Longrightarrow> ix_map t' q = ix_map t q"
  using assms by (auto simp: leaf_change_def same_place_def)

lemma leaf_change_shape: "leaf_change t t' \<Longrightarrow> shape_kept t t'"
  unfolding shape_kept_def by (simp add: leaf_changeD del: not_None_eq)

lemma leaf_change_children:
  assumes "leaf_change t t'"
  shows "children t' = children t"
proof -
  note lc = leaf_changeD [OF assms]
  have "(live t' p \<and> \<not> b_leaf (nd t' p) \<and> c \<in> snd ` set (b_ients (nd t' p))) \<longleftrightarrow>
      (live t p \<and> \<not> b_leaf (nd t p) \<and> c \<in> snd ` set (b_ients (nd t p)))" for p c
    using lc(3,4,8) [of p] by auto
  then show ?thesis unfolding children_def by blast
qed

lemma smo_ok_leaf_change:
  assumes "leaf_change t t'" and "smo_ok t s"
  shows "smo_ok t' s"
proof -
  note lc = leaf_changeD [OF assms(1)]
  have pd: "pending t' child sep right = pending t child sep right" for child sep right
    by (simp only: pending_def lc(3,5-7) leaf_change_children [OF assms(1)])
  have pl: "path_live t' p path = path_live t p path" for p path
    by (simp only: path_live_def lc(1-4))
  show ?thesis
  proof (cases s)
    case (Smo_Divide rest p)
    with assms(2) have "\<not> b_leaf (nd t p)" by simp
    then have "ix_map t' p = ix_map t p" by (rule lc(8))
    with assms(2) Smo_Divide pl lc(1,2,7) show ?thesis by simp
  qed (use assms(2) pd pl lc(1,7) in simp_all)
qed

lemma install_delta_leaf_change:
  assumes "live t p" and "b_leaf (nd t p)"
  shows "leaf_change t (install_delta p op k v t)"
  using assms by (auto simp: leaf_change_def install_delta_def Let_def same_place_def)

lemma try_consolidate_leaf_change:
  assumes wf: "tree_wf t" and lv: "live t p" and lf: "b_leaf (nd t p)" and bk: "backed mem"
  shows "leaf_change t (try_consolidate mem g p t)"
proof -
  have "ix_map (try_consolidate mem g p t) q = ix_map t q" if "\<not> b_leaf (nd t q)" for q
    using that lf by (cases "q = p") (auto simp: try_consolidate_def Let_def split: option.splits chain.splits)
  then show ?thesis
    unfolding leaf_change_def using try_consolidate_frame [OF lv] wf bk by blast
qed

lemma ixc_ok_leaf_change:
  assumes "ixc_ok s" and "leaf_change (cx_ix s) t'" and "index_rep t' m'"
    and "\<And>i. ag i = cx_ag s i \<or> ag i = Ag_Idle"
  shows "ixc_ok (s\<lparr>cx_ix := t', cx_map := m', cx_ag := ag\<rparr>)"
proof (rule ixc_okI)
  show "agent_ok (cx_ix (s\<lparr>cx_ix := t', cx_map := m', cx_ag := ag\<rparr>)) (cx_ag (s\<lparr>cx_ix := t', cx_map := m', cx_ag := ag\<rparr>) i)" for i
    using assms(4) [of i] agent_ok_kept [OF leaf_change_shape [OF assms(2)] ixc_okD(3) [OF assms(1), of i]] by auto
qed (use assms(3) smo_ok_leaf_change [OF assms(2) ixc_okD(2) [OF assms(1)]] in simp_all)

lemma ixc_ok_agent:
  assumes "ixc_ok s" and "agent_ok (cx_ix s) a"
  shows "ixc_ok (s\<lparr>cx_ag := (cx_ag s)(i := a)\<rparr>)"
  using assms by (auto simp: ixc_ok_def)

text \<open>The steps of the structure modifier.\<close>

lemma ixc_ok_smo:
  assumes "ixc_ok s" and "index_rep t' (cx_map s)" and "shape_kept (cx_ix s) t'" and "smo_ok t' z"
  shows "ixc_ok (s\<lparr>cx_ix := t', cx_smo := z\<rparr>)"
  using assms agent_ok_kept [OF assms(3)] by (auto simp: ixc_ok_def)

lemma root_walker: "tree_wf t \<Longrightarrow> walker_ok t k (Some (ix_root t))"
  using wfD(1) wf_root_above by (simp add: walker_ok_def)

lemma ix_step_next:
  assumes "ix_step mem s s'"
  shows "ix_next_pid (cx_ix s) \<le> ix_next_pid (cx_ix s')"
  using assms
proof cases
  case (smo_split k p path arr rp t')
  with split_leaf_store_next [OF smo_split(11)] show ?thesis by simp
next
  case (smo_root child sep right t')
  with new_root_next [OF smo_root(3)] show ?thesis by simp
next
  case (smo_publish p rest child sep right t')
  with publish_sep_next [OF smo_publish(3)] show ?thesis by simp
next
  case (smo_divide rest p promoted nrp t')
  with split_internal_store_next [OF smo_divide(3)] show ?thesis by simp
qed (simp_all add: try_consolidate_next install_delta_def Let_def)

lemma ix_step_ok:
  assumes "ix_step mem s s'" and ok: "ixc_ok s" and bk: "backed mem" and cap: "table_kept (cx_ix s')"
  shows "ixc_ok s'"
  using assms(1)
proof cases
  case (get_call i k)
  with ixc_ok_agent [OF ok] root_walker [OF ixc_okD(4) [OF ok]] show ?thesis by simp
next
  case (get_round i k p)
  with ixc_okD(3) [OF ok, of i] get_round_ok(1) [OF ixc_okD(1) [OF ok]] ixc_ok_agent [OF ok]
  show ?thesis by (simp add: walker_ok_def)
next
  case (write_call i op k v)
  with ixc_ok_agent [OF ok] root_walker [OF ixc_okD(4) [OF ok]] show ?thesis by simp
next
  case (write_walk i op k v p)
  have "live (cx_ix s) p" "above_low (nd (cx_ix s) p) k"
    using ixc_okD(3) [OF ok, of i] write_walk(2) by (simp_all add: walker_ok_def)
  from walk_ok [OF ixc_okD(4) [OF ok] this] write_walk(3)
  have "walker_ok (cx_ix s) k (walk_round (cx_ix s) k p)" by (auto simp: walk_round_def at_leaf_def Let_def)
  with write_walk(1) ixc_ok_agent [OF ok] show ?thesis by simp
next
  case (write_cas i op k v p)
  have lv: "live (cx_ix s) p" and ab: "above_low (nd (cx_ix s) p) k"
    using ixc_okD(3) [OF ok, of i] write_cas(2) by (simp_all add: walker_ok_def)
  have lf: "b_leaf (nd (cx_ix s) p)" and cv: "covers (nd (cx_ix s) p) k"
    using write_cas(3) ab by (simp_all add: at_leaf_def covers_iff)
  show ?thesis unfolding write_cas(1)
    by (rule ixc_ok_leaf_change [OF ok install_delta_leaf_change [OF lv lf]
          install_delta_rep [OF ixc_okD(1) [OF ok] lv lf cv]]) simp
next
  case (write_refused i op k v p)
  with ixc_ok_agent [OF ok, of Ag_Idle] show ?thesis by simp
next
  case (consolidate p g)
  from ixc_ok_leaf_change [OF ok try_consolidate_leaf_change [OF ixc_okD(4) [OF ok] consolidate(2,3) bk]
      try_consolidate_rep [OF ixc_okD(1) [OF ok] consolidate(2,3) bk], of "cx_ag s"]
  show ?thesis unfolding consolidate(1) by simp
next
  case (smo_split k p path arr rp t')
  have "b_high (nd (cx_ix s) (ix_root (cx_ix s))) = None" using ixc_okD(2) [OF ok] smo_split(2) by simp
  moreover have "ix_next_pid (cx_ix s) < DLSM_MAP_CAP" using split_leaf_store_next [OF smo_split(11)] cap smo_split(1) by simp
  ultimately have z: "rp = Some (ix_next_pid (cx_ix s)) \<and> index_rep t' (cx_map s) \<and> shape_kept (cx_ix s) t' \<and>
    smo_ok t' (Smo_Publish path p (fst (arr ! (length arr div 2))) (ix_next_pid (cx_ix s)))"
    using split_leaf_start [OF ixc_okD(1) [OF ok] _ _ smo_split(3) bk smo_split(4,5,11)] by simp
  then show ?thesis unfolding smo_split(1) by (intro ixc_ok_smo [OF ok]) simp_all
next
  case (smo_root child sep right t')
  have z: "pending (cx_ix s) child sep right" "child = ix_root (cx_ix s)"
    using ixc_okD(2) [OF ok] smo_root(2) by (auto simp: path_live_def)
  have "ix_next_pid (cx_ix s) < DLSM_MAP_CAP" using new_root_next [OF smo_root(3)] cap smo_root(1) by simp
  note r = new_root_rep [OF ixc_okD(1) [OF ok] z(1) [unfolded z(2)] this smo_root(3) [unfolded z(2)]]
  show ?thesis unfolding smo_root(1) using ixc_ok_smo [OF ok r(1,5), of Smo_Idle] r(2,4) by simp
next
  case (smo_publish p rest child sep right t')
  have "smo_ok (cx_ix s) (Smo_Publish (p # rest) child sep right)" using ixc_okD(2) [OF ok] smo_publish(2) by simp
  note z = smo_publish_ok [OF ixc_okD(1) [OF ok] this bk smo_publish(3)]
  show ?thesis unfolding smo_publish(1) using z by (intro ixc_ok_smo [OF ok]) blast+
next
  case (smo_divide rest p promoted nrp t')
  have "smo_ok (cx_ix s) (Smo_Divide rest p)" using ixc_okD(2) [OF ok] smo_divide(2) by simp
  moreover have "ix_next_pid (cx_ix s) < DLSM_MAP_CAP" using split_internal_store_next [OF smo_divide(3)] cap smo_divide(1) by simp
  ultimately have z: "nrp = Some (ix_next_pid (cx_ix s)) \<and> index_rep t' (cx_map s) \<and> shape_kept (cx_ix s) t' \<and>
    smo_ok t' (Smo_Publish rest p promoted (ix_next_pid (cx_ix s)))"
    by (rule smo_divide_ok [OF ixc_okD(1) [OF ok] _ _ bk smo_divide(3)])
  then show ?thesis unfolding smo_divide(1) by (intro ixc_ok_smo [OF ok]) simp_all
qed

text \<open>The invariant holds as long as the mapping table is not exhausted; page identifiers only grow.\<close>

lemma ixc_reachable_ok: "ixc_reachable s \<Longrightarrow> table_kept (cx_ix s) \<Longrightarrow> ixc_ok s"
proof (induction rule: ixc_reachable.induct)
  case init
  show ?case using index_new_ok by (simp add: ixc_ok_def ixc_init_def index_ok_def)
next
  case (step s mem s')
  have "table_kept (cx_ix s)" using ix_step_next [OF step(3)] step(5) by simp
  from ix_step_ok [OF step(3) step.IH [OF this] step(2,5)] show ?case .
qed

section \<open>What readers and writers see\<close>

lemma first_write_reachable:
  "ixc_reachable \<lparr>cx_ix = install_delta 0 OP_INSERT [3] tombstone dlsm_index_new, cx_map = [[3] \<mapsto> tombstone],
     cx_smo = Smo_Idle, cx_ag = (\<lambda>_. Ag_Idle)(1 := Ag_Get [3] (Some 0))\<rparr>"
proof -
  let ?s1 = "ixc_init\<lparr>cx_ag := (\<lambda>_. Ag_Idle)(1 := Ag_Get [3] (Some 0))\<rparr>"
  let ?s2 = "?s1\<lparr>cx_ag := (cx_ag ?s1)(0 := Ag_Write OP_INSERT [3] tombstone (Some 0))\<rparr>"
  let ?s3 = "?s2\<lparr>cx_ix := install_delta 0 OP_INSERT [3] tombstone (cx_ix ?s2),
    cx_map := (cx_map ?s2)([3] := op_value OP_INSERT tombstone), cx_ag := (cx_ag ?s2)(0 := Ag_Idle)\<rparr>"
  have s1: "ix_step (\<lambda>_. True) ixc_init ?s1" using get_call [of "\<lambda>_. True" ixc_init 1 "[3]"] by (simp add: ixc_init_def dlsm_index_new_def)
  have s2: "ix_step (\<lambda>_. True) ?s1 ?s2"
    using write_call [of "\<lambda>_. True" ?s1 0 OP_INSERT "[3]" tombstone] by (simp add: ixc_init_def dlsm_index_new_def)
  have s3: "ix_step (\<lambda>_. True) ?s2 ?s3"
    by (rule write_cas) (simp_all add: ixc_init_def dlsm_index_new_def at_leaf_def past_fence_def base_leaf_new_def)
  note go = ixc_reachable.step [OF _ backed_granted]
  have "ixc_reachable ?s3" by (rule go [OF go [OF go [OF ixc_reachable.init s1] s2] s3])
  moreover have "?s3 = \<lparr>cx_ix = install_delta 0 OP_INSERT [3] tombstone dlsm_index_new, cx_map = [[3] \<mapsto> tombstone],
     cx_smo = Smo_Idle, cx_ag = (\<lambda>_. Ag_Idle)(1 := Ag_Get [3] (Some 0))\<rparr>"
    by (auto simp: ixc_init_def op_value_def)
  ultimately show ?thesis by simp
qed

text \<open>
  Claim C1. Reads are linearizable while the mapping table is not exhausted: in any interleaving of
  readers, writers, consolidations and the steps of splits, with the untested allocations granted, that
  leads to a state whose table still has all its nodes, the round in which a lookup returns gives the value
  that the map holds for its key at that moment, and changes nothing.
\<close>

theorem index_reads_linearizable:
  assumes "ixc_reachable s" and "ix_next_pid (cx_ix s) \<le> DLSM_MAP_CAP" and "ix_step mem s s'"
    and "cx_ag s i = Ag_Get k po" and "cx_ag s' i = Ag_Got k' r"
  shows "k' = k \<and> r = cx_map s k \<and> cx_map s' = cx_map s"
proof -
  have ok: "ixc_ok s" using assms(1,2) by (rule ixc_reachable_ok)
  obtain p where p: "po = Some p" "live (cx_ix s) p" "above_low (nd (cx_ix s) p) k"
    using ixc_okD(3) [OF ok, of i] assms(4) by (auto simp: walker_ok_def)
  have "cx_ag s' i = get_round (cx_ix s) k p \<and> cx_map s' = cx_map s"
    using assms(3)
  proof cases
    case (get_round j k1 p1)
    with assms(4,5) p(1) show ?thesis by (cases "i = j") simp_all
  qed (use assms(4,5) in \<open>auto split: if_splits\<close>)
  with assms(5) get_round_ok(2) [OF ixc_okD(1) [OF ok] p(2,3)] show ?thesis by simp
qed

text \<open>A reader that started before the write returns what was written.\<close>

theorem index_reads_linearizable_witness:
  "\<exists>s s' r. ix_step (\<lambda>_. True) s s' \<and> cx_ag s 1 = Ag_Get [3] (Some 0) \<and> cx_ag s' 1 = Ag_Got [3] r \<and> r = Some tombstone"
proof -
  let ?s = "\<lparr>cx_ix = install_delta 0 OP_INSERT [3] tombstone dlsm_index_new, cx_map = [[3] \<mapsto> tombstone],
     cx_smo = Smo_Idle, cx_ag = (\<lambda>_. Ag_Idle)(1 := Ag_Get [3] (Some 0))\<rparr>"
  let ?s' = "?s\<lparr>cx_ag := (cx_ag ?s)(1 := get_round (cx_ix ?s) [3] 0)\<rparr>"
  have st: "ix_step (\<lambda>_. True) ?s ?s'" by (rule get_round) simp
  obtain r where r: "cx_ag ?s' 1 = Ag_Got [3] r"
    by (simp add: get_round_def install_delta_def Let_def keycmp_simps)
  have "cx_ag ?s 1 = Ag_Get [3] (Some 0)" by simp
  moreover have "ix_next_pid (cx_ix ?s) \<le> DLSM_MAP_CAP" by (simp add: install_delta_def Let_def dlsm_index_new_def)
  ultimately have "r = Some tombstone" using index_reads_linearizable [OF first_write_reachable _ st _ r] by simp
  with st r show ?thesis by (intro exI [of _ ?s] exI [of _ ?s'] exI [of _ r]) simp
qed

text \<open>
  No thread follows a null pid or a pid without a node while the mapping table is not exhausted: each
  walking reader and writer is at an existing node whose range starts at or below its key, and the
  tree represents the map that the successful writes so far have built.
\<close>

theorem index_walkers_safe:
  assumes "ixc_reachable s" and "ix_next_pid (cx_ix s) \<le> DLSM_MAP_CAP"
  shows "index_rep (cx_ix s) (cx_map s) \<and>
    (\<forall>i k po op v. cx_ag s i = Ag_Get k po \<or> cx_ag s i = Ag_Write op k v po \<longrightarrow>
       (\<exists>p. po = Some p \<and> live (cx_ix s) p \<and> above_low (nd (cx_ix s) p) k))"
proof -
  have ok: "ixc_ok s" using assms by (rule ixc_reachable_ok)
  have "\<exists>p. po = Some p \<and> live (cx_ix s) p \<and> above_low (nd (cx_ix s) p) k"
    if "cx_ag s i = Ag_Get k po \<or> cx_ag s i = Ag_Write op k v po" for i k po op v
    using ixc_okD(3) [OF ok, of i] that by (auto simp: walker_ok_def)
  with ixc_okD(1) [OF ok] show ?thesis by blast
qed

theorem index_walkers_safe_witness:
  "index_rep (install_delta 0 OP_INSERT [3] tombstone dlsm_index_new) [[3] \<mapsto> tombstone]"
  using index_walkers_safe [OF first_write_reachable] by (simp add: install_delta_def Let_def dlsm_index_new_def)

end
