(* ===== verification/Gt_Queue.thy ===== *)
theory Gt_Queue
  imports Intrusive_List
begin

text \<open>
  The run queues of the green-thread runtime (\<^verbatim>\<open>libs/greenthread/src/greenthread.c\<close>): \<open>struct task_queue\<close>
  with its four operations, each one section under the queue's ticket lock, and the family of queues a
  runtime has: for every virtual processor and priority a queue of bound and a queue of local tasks, for
  every group and priority a shared one. All of them link tasks through the one field \<open>next\<close>.
\<close>

section \<open>Queues and their operations\<close>

record task_queue =
  tq_head :: "addr option"
  tq_tail :: "addr option"
  tq_size :: nat

datatype queue_id = Bound nat nat | Local nat nat | Group nat nat

record runq =
  rq_next :: "addr \<Rightarrow> addr option"
  rq_queue :: "queue_id \<Rightarrow> task_queue"

definition task_queue_push :: "queue_id \<Rightarrow> addr \<Rightarrow> runq \<Rightarrow> runq" where
  "task_queue_push q t r =
     (let r1 = r\<lparr>rq_next := (rq_next r)(t := None)\<rparr>; Q = rq_queue r1 q;
          r2 = (case tq_tail Q of
                  Some l \<Rightarrow> r1\<lparr>rq_next := (rq_next r1)(l := Some t)\<rparr>
                | None \<Rightarrow> r1\<lparr>rq_queue := (rq_queue r1)(q := Q\<lparr>tq_head := Some t\<rparr>)\<rparr>) in
      r2\<lparr>rq_queue := (rq_queue r2)(q := (rq_queue r2 q)\<lparr>tq_tail := Some t, tq_size := tq_size Q + 1\<rparr>)\<rparr>)"

definition unlink_head :: "queue_id \<Rightarrow> addr \<Rightarrow> runq \<Rightarrow> runq" where
  "unlink_head q t r =
     (let Q = rq_queue r q; h = rq_next r t in
      r\<lparr>rq_queue := (rq_queue r)(q := Q\<lparr>tq_head := h, tq_tail := (if h = None then None else tq_tail Q),
           tq_size := tq_size Q - 1\<rparr>), rq_next := (rq_next r)(t := None)\<rparr>)"

definition task_queue_pop :: "queue_id \<Rightarrow> runq \<Rightarrow> addr option \<times> runq" where
  "task_queue_pop q r = (case tq_head (rq_queue r q) of
     None \<Rightarrow> (None, r) | Some t \<Rightarrow> (Some t, unlink_head q t r))"

definition task_queue_pop_unless :: "queue_id \<Rightarrow> addr option \<Rightarrow> runq \<Rightarrow> addr option \<times> runq" where
  "task_queue_pop_unless q avoid r =
     (let t = tq_head (rq_queue r q) in
      case (if t = avoid then None else t) of
        None \<Rightarrow> (None, r) | Some t \<Rightarrow> (Some t, unlink_head q t r))"

text \<open>\<open>queue_steal_surplus\<close> leaves the tail pointer alone: the last task stays.\<close>

definition task_queue_steal_surplus :: "queue_id \<Rightarrow> runq \<Rightarrow> addr option \<times> runq" where
  "task_queue_steal_surplus q r =
     (let Q = rq_queue r q in
      if tq_size Q > 1 then
        (case tq_head Q of
           None \<Rightarrow> (None, r)
         | Some t \<Rightarrow> (Some t, r\<lparr>rq_queue := (rq_queue r)(q := Q\<lparr>tq_head := rq_next r t, tq_size := tq_size Q - 1\<rparr>),
                          rq_next := (rq_next r)(t := None)\<rparr>))
      else (None, r))"

definition queue_has_task :: "queue_id \<Rightarrow> runq \<Rightarrow> bool" where
  "queue_has_task q r \<longleftrightarrow> tq_head (rq_queue r q) \<noteq> None"

section \<open>What a queue holds\<close>

definition queue_holds :: "queue_id \<Rightarrow> runq \<Rightarrow> addr list \<Rightarrow> bool" where
  "queue_holds q r xs \<longleftrightarrow>
     queue_rep (rq_next r) (tq_head (rq_queue r q)) (tq_tail (rq_queue r q)) xs \<and> tq_size (rq_queue r q) = length xs"

definition runq_rep :: "runq \<Rightarrow> (queue_id \<Rightarrow> addr list) \<Rightarrow> bool" where
  "runq_rep r L \<longleftrightarrow> (\<forall>q. queue_holds q r (L q)) \<and> (\<forall>q q'. q \<noteq> q' \<longrightarrow> set (L q) \<inter> set (L q') = {})"

text \<open>The contents of a queue, as the walk along the links finds them.\<close>

definition queued :: "runq \<Rightarrow> queue_id \<Rightarrow> addr list" where
  "queued r q = the (walk (rq_next r) (tq_head (rq_queue r q)))"

definition runq_ok :: "runq \<Rightarrow> bool" where
  "runq_ok r \<longleftrightarrow> runq_rep r (queued r)"

lemma runq_rep_queued: "runq_rep r L \<Longrightarrow> queued r = L"
proof
  fix q
  assume "runq_rep r L"
  then have "lseg (rq_next r) (tq_head (rq_queue r q)) (L q) None"
    by (simp add: runq_rep_def queue_holds_def queue_rep_def)
  then show "queued r q = L q" by (simp add: queued_def walk_lseg)
qed

lemma runq_ok_iff: "runq_ok r \<and> queued r = L \<longleftrightarrow> runq_rep r L"
  using runq_rep_queued [of r L] by (auto simp: runq_ok_def)

lemma runq_repI:
  "(\<And>q. queue_holds q r (L q)) \<Longrightarrow> (\<And>q q' t. q \<noteq> q' \<Longrightarrow> t \<in> set (L q) \<Longrightarrow> t \<in> set (L q') \<Longrightarrow> False) \<Longrightarrow> runq_rep r L"
  by (auto simp: runq_rep_def)

lemma runq_repD:
  assumes "runq_rep r L"
  shows "queue_holds q r (L q)" and "q \<noteq> q' \<Longrightarrow> t \<in> set (L q) \<Longrightarrow> t \<notin> set (L q')"
  using assms by (auto simp: runq_rep_def)

lemma queue_holds_head: "queue_holds q r xs \<Longrightarrow> tq_head (rq_queue r q) = (case xs of [] \<Rightarrow> None | x # _ \<Rightarrow> Some x)"
  by (auto simp: queue_holds_def dest: queue_rep_head)

lemma queue_holds_distinct: "queue_holds q r xs \<Longrightarrow> distinct xs"
  by (auto simp: queue_holds_def dest: queue_rep_distinct)

section \<open>Effect of the operations on the queue itself\<close>

lemma push_holds:
  assumes "queue_holds q r xs" and "t \<notin> set xs"
  shows "queue_holds q (task_queue_push q t r) (xs @ [t])"
proof (cases "tq_tail (rq_queue r q)")
  case None
  with assms(1) have "xs = []" by (auto simp: queue_holds_def queue_rep_def split: if_splits)
  with None assms show ?thesis
    by (simp add: queue_holds_def task_queue_push_def Let_def queue_rep_def)
next
  case (Some l)
  with assms queue_rep_push [of "rq_next r" "tq_head (rq_queue r q)" "tq_tail (rq_queue r q)" xs t]
  show ?thesis by (simp add: queue_holds_def task_queue_push_def Let_def)
qed

lemma unlink_holds:
  assumes "queue_holds q r (t # xs)"
  shows "queue_holds q (unlink_head q t r) xs"
proof -
  from assms have "queue_rep (rq_next r) (tq_head (rq_queue r q)) (tq_tail (rq_queue r q)) (t # xs)"
    by (simp add: queue_holds_def)
  from queue_rep_pop(2) [OF this] assms show ?thesis by (simp add: queue_holds_def unlink_head_def Let_def)
qed

lemma push_other:
  assumes "queue_holds q' r ys" and "q' \<noteq> q" and "t \<notin> set ys" and "\<And>l. tq_tail (rq_queue r q) = Some l \<Longrightarrow> l \<notin> set ys"
  shows "queue_holds q' (task_queue_push q t r) ys"
  using assms by (auto simp: queue_holds_def task_queue_push_def Let_def queue_rep_upd_notin split: option.split)

lemma unlink_other: "queue_holds q' r ys \<Longrightarrow> q' \<noteq> q \<Longrightarrow> t \<notin> set ys \<Longrightarrow> queue_holds q' (unlink_head q t r) ys"
  by (simp add: queue_holds_def unlink_head_def Let_def queue_rep_upd_notin)

lemma steal_is_unlink:
  assumes "queue_holds q r (t # u # xs)"
  shows "task_queue_steal_surplus q r = (Some t, unlink_head q t r)"
  using assms by (auto simp: queue_holds_def queue_rep_def task_queue_steal_surplus_def unlink_head_def Let_def)

text \<open>The queue keeps the contract of a FIFO queue.\<close>

interpretation run_fifo: fifo_queue "task_queue_push q" "task_queue_pop q" "queue_holds q" for q
proof
  show "queue_holds q r xs \<Longrightarrow> t \<notin> set xs \<Longrightarrow> queue_holds q (task_queue_push q t r) (xs @ [t])" for r xs t
    by (rule push_holds)
  show "queue_holds q r [] \<Longrightarrow> task_queue_pop q r = (None, r)" for r
    by (simp add: task_queue_pop_def queue_holds_head)
  show "queue_holds q r (x # xs) \<Longrightarrow> fst (task_queue_pop q r) = Some x \<and> queue_holds q (snd (task_queue_pop q r)) xs" for r x xs
    by (simp add: task_queue_pop_def queue_holds_head unlink_holds)
qed

section \<open>Effect on the family of queues\<close>

lemma runq_push:
  assumes "runq_rep r L" and fresh: "\<And>q'. t \<notin> set (L q')"
  shows "runq_rep (task_queue_push q t r) (L(q := L q @ [t]))"
proof (rule runq_repI)
  fix q'
  show "queue_holds q' (task_queue_push q t r) ((L(q := L q @ [t])) q')"
  proof (cases "q' = q")
    case True
    then show ?thesis using push_holds [OF runq_repD(1) [OF assms(1)] fresh] by simp
  next
    case False
    have "l \<notin> set (L q')" if "tq_tail (rq_queue r q) = Some l" for l
    proof -
      have "l \<in> set (L q)" using runq_repD(1) [OF assms(1), of q] that
        by (auto simp: queue_holds_def queue_rep_def split: if_splits)
      with False show ?thesis using runq_repD(2) [OF assms(1), of q q'] by simp
    qed
    with False show ?thesis using push_other [OF runq_repD(1) [OF assms(1)]] fresh by simp
  qed
qed (use runq_repD(2) [OF assms(1)] fresh in \<open>auto split: if_splits\<close>)

lemma runq_unlink:
  assumes "runq_rep r L" and "L q = t # xs"
  shows "runq_rep (unlink_head q t r) (L(q := xs))"
proof (rule runq_repI)
  fix q'
  show "queue_holds q' (unlink_head q t r) ((L(q := xs)) q')"
  proof (cases "q' = q")
    case True
    then show ?thesis using unlink_holds runq_repD(1) [OF assms(1), of q] assms(2) by simp
  next
    case False
    then have "t \<notin> set (L q')" using runq_repD(2) [OF assms(1), of q q' t] assms(2) by simp
    with False show ?thesis using unlink_other [OF runq_repD(1) [OF assms(1)]] by simp
  qed
next
  fix q1 q2 u
  assume "q1 \<noteq> q2" "u \<in> set ((L(q := xs)) q1)" "u \<in> set ((L(q := xs)) q2)"
  then have "u \<in> set (L q1)" "u \<in> set (L q2)" using assms(2) by (auto split: if_splits)
  with \<open>q1 \<noteq> q2\<close> show False using runq_repD(2) [OF assms(1)] by blast
qed

lemma pop_cases:
  assumes "runq_rep r L"
  shows "task_queue_pop q r = (case L q of [] \<Rightarrow> (None, r) | t # _ \<Rightarrow> (Some t, unlink_head q t r))"
  using queue_holds_head [OF runq_repD(1) [OF assms]] by (simp add: task_queue_pop_def split: list.split)

lemma pop_unless_cases:
  assumes "runq_rep r L"
  shows "task_queue_pop_unless q avoid r =
    (case L q of [] \<Rightarrow> (None, r) | t # _ \<Rightarrow> if avoid = Some t then (None, r) else (Some t, unlink_head q t r))"
  using queue_holds_head [OF runq_repD(1) [OF assms]] by (auto simp: task_queue_pop_unless_def split: list.split)

lemma steal_cases:
  assumes "runq_rep r L"
  shows "task_queue_steal_surplus q r = (case L q of t # u # _ \<Rightarrow> (Some t, unlink_head q t r) | _ \<Rightarrow> (None, r))"
proof (cases "L q")
  case Nil
  then show ?thesis using runq_repD(1) [OF assms, of q] by (simp add: queue_holds_def task_queue_steal_surplus_def Let_def)
next
  case (Cons t ts)
  show ?thesis
  proof (cases ts)
    case Nil
    with Cons show ?thesis using runq_repD(1) [OF assms, of q]
      by (simp add: queue_holds_def task_queue_steal_surplus_def Let_def)
  next
    case (Cons u us)
    with \<open>L q = t # ts\<close> show ?thesis using steal_is_unlink runq_repD(1) [OF assms, of q] by simp
  qed
qed

lemma has_task_iff: "runq_rep r L \<Longrightarrow> queue_has_task q r \<longleftrightarrow> L q \<noteq> []"
  using queue_holds_head [OF runq_repD(1), of r L q] by (auto simp: queue_has_task_def split: list.split)

definition runq_empty :: runq where
  "runq_empty = \<lparr>rq_next = (\<lambda>_. None), rq_queue = (\<lambda>_. \<lparr>tq_head = None, tq_tail = None, tq_size = 0\<rparr>)\<rparr>"

lemma runq_empty_rep: "runq_rep runq_empty (\<lambda>_. [])"
  by (simp add: runq_empty_def runq_rep_def queue_holds_def queue_rep_empty)

end
