(* ===== verification/Gt_Timer.thy ===== *)
theory Gt_Timer
  imports Dlsm_Prelude "HOL-Library.Multiset" "HOL-Library.Product_Lexorder"
begin

text \<open>
  Timers of the green-thread runtime (\<^verbatim>\<open>libs/greenthread/src/greenthread.c\<close>): the array heap of timer
  nodes that know their index, the loop of the timer thread, and the registration, completion and
  cancellation of a task's wait. A node is an object with an address; \<open>tn_index\<close> is \<open>None\<close> for
  \<open>SIZE_MAX\<close>. The sections under \<open>timer_mutex\<close> are atomic.
\<close>

section \<open>Data\<close>

abbreviation DLSM_GT_E_NOMEM :: dlsm_status where "DLSM_GT_E_NOMEM \<equiv> 20001"
abbreviation DLSM_GT_E_STACK :: dlsm_status where "DLSM_GT_E_STACK \<equiv> 20002"
abbreviation DLSM_GT_E_INVAL :: dlsm_status where "DLSM_GT_E_INVAL \<equiv> 20003"
abbreviation DLSM_GT_E_THREAD :: dlsm_status where "DLSM_GT_E_THREAD \<equiv> 20004"
abbreviation DLSM_GT_E_STATE :: dlsm_status where "DLSM_GT_E_STATE \<equiv> 20005"
abbreviation DLSM_GT_E_WAIT :: dlsm_status where "DLSM_GT_E_WAIT \<equiv> 20006"
abbreviation DLSM_GT_E_CANCELLED :: dlsm_status where "DLSM_GT_E_CANCELLED \<equiv> 20007"

datatype timer_state = TIMER_WAITING | TIMER_EXPIRED | TIMER_CANCELLED

record timer_node =
  tn_deadline :: u64
  tn_detected :: u64
  tn_ready :: u64
  tn_resumed :: u64
  tn_sequence :: u64
  tn_index :: "nat option"
  tn_state :: timer_state
  tn_task :: addr

text \<open>
  The timer part of the runtime: \<open>tm_heap\<close> is the used prefix of \<open>timer_heap\<close>, \<open>tm_wait\<close> is the field
  \<open>timer_node\<close> of each task, \<open>tm_alloc\<close> the nodes that are allocated.
\<close>

record timers =
  tm_node :: "addr \<Rightarrow> timer_node"
  tm_heap :: "addr list"
  tm_capacity :: nat
  tm_sequence :: u64
  tm_stop :: bool
  tm_wait :: "addr \<Rightarrow> addr option"
  tm_alloc :: "addr set"
  tm_registered :: u64
  tm_expired :: u64
  tm_cancelled :: u64
  tm_detect_total :: u64
  tm_detect_max :: u64
  tm_ready_total :: u64
  tm_ready_max :: u64
  tm_resume_total :: u64
  tm_resume_max :: u64

definition timer_less :: "timer_node \<Rightarrow> timer_node \<Rightarrow> bool" where
  "timer_less l r \<longleftrightarrow> tn_deadline l < tn_deadline r \<or>
     (tn_deadline l = tn_deadline r \<and> tn_sequence l < tn_sequence r)"

abbreviation node_at :: "timers \<Rightarrow> nat \<Rightarrow> timer_node" where
  "node_at t i \<equiv> tm_node t (tm_heap t ! i)"

definition set_index :: "addr \<Rightarrow> nat option \<Rightarrow> timers \<Rightarrow> timers" where
  "set_index a i t = t\<lparr>tm_node := (tm_node t)(a := (tm_node t a)\<lparr>tn_index := i\<rparr>)\<rparr>"

definition timer_heap_swap :: "nat \<Rightarrow> nat \<Rightarrow> timers \<Rightarrow> timers" where
  "timer_heap_swap l r t =
     (let h = (tm_heap t)[l := tm_heap t ! r, r := tm_heap t ! l] in
      set_index (h ! r) (Some r) (set_index (h ! l) (Some l) (t\<lparr>tm_heap := h\<rparr>)))"

lemma swap_length [simp]: "length (tm_heap (timer_heap_swap l r t)) = length (tm_heap t)"
  by (simp add: timer_heap_swap_def set_index_def Let_def)

function timer_heap_up :: "nat \<Rightarrow> timers \<Rightarrow> timers" where
  "timer_heap_up i t =
     (if i > 0 then
        (let parent = (i - 1) div 2 in
         if \<not> timer_less (node_at t i) (node_at t parent) then t
         else timer_heap_up parent (timer_heap_swap i parent t))
      else t)"
  by pat_completeness auto
termination
  by (relation "measure fst") auto

definition smallest_child :: "nat \<Rightarrow> timers \<Rightarrow> nat" where
  "smallest_child i t =
     (let left = i * 2 + 1; right = left + 1;
          s1 = (if left < length (tm_heap t) \<and> timer_less (node_at t left) (node_at t i) then left else i) in
      if right < length (tm_heap t) \<and> timer_less (node_at t right) (node_at t s1) then right else s1)"

lemma smallest_child_bound: "smallest_child i t \<noteq> i \<Longrightarrow> i < smallest_child i t \<and> smallest_child i t < length (tm_heap t)"
  by (auto simp: smallest_child_def Let_def split: if_splits)

function timer_heap_down :: "nat \<Rightarrow> timers \<Rightarrow> timers" where
  "timer_heap_down i t =
     (if smallest_child i t = i then t
      else timer_heap_down (smallest_child i t) (timer_heap_swap i (smallest_child i t) t))"
  by pat_completeness auto
termination
  by (relation "measure (\<lambda>(i, t). length (tm_heap t) - i)") (auto dest: smallest_child_bound)

declare timer_heap_up.simps [simp del] timer_heap_down.simps [simp del]

text \<open>\<open>mem\<close> says whether \<open>realloc\<close> succeeds; an element of the array is a pointer of 8 bytes.\<close>

definition grown_capacity :: "nat \<Rightarrow> nat" where
  "grown_capacity c = (if c \<noteq> 0 then c * 2 mod 2 ^ 64 else 64)"

definition timer_heap_push :: "bool \<Rightarrow> addr \<Rightarrow> timers \<Rightarrow> timers option" where
  "timer_heap_push mem a t =
     (let grow = (length (tm_heap t) = tm_capacity t); c = grown_capacity (tm_capacity t) in
      if grow \<and> (c < tm_capacity t \<or> c > (2 ^ 64 - 1) div 8 \<or> \<not> mem) then None
      else
        (let t1 = (if grow then t\<lparr>tm_capacity := c\<rparr> else t);
             n = length (tm_heap t1);
             t2 = (set_index a (Some n) t1)\<lparr>tm_heap := tm_heap t1 @ [a]\<rparr> in
         Some (timer_heap_up n t2)))"

definition timer_heap_remove :: "nat option \<Rightarrow> timers \<Rightarrow> addr option \<times> timers" where
  "timer_heap_remove io t = (case io of
     None \<Rightarrow> (None, t)
   | Some i \<Rightarrow>
     if i \<ge> length (tm_heap t) then (None, t)
     else
       (let removed = tm_heap t ! i; n = length (tm_heap t) - 1; moved = tm_heap t ! n;
            t1 = (if i \<noteq> n then (set_index moved (Some i) t)\<lparr>tm_heap := take n ((tm_heap t)[i := moved])\<rparr>
                  else t\<lparr>tm_heap := take n (tm_heap t)\<rparr>);
            t2 = (if i \<noteq> n then
                    (if i > 0 \<and> timer_less (node_at t1 i) (node_at t1 ((i - 1) div 2))
                     then timer_heap_up i t1 else timer_heap_down i t1)
                  else t1) in
        (Some removed, set_index removed None t2)))"

section \<open>Heap order on lists of keys\<close>

definition up :: "nat \<Rightarrow> nat" where
  "up i = (i - 1) div 2"

lemma up_less: "0 < x \<Longrightarrow> up x < x"
  unfolding up_def by linarith

lemma up_children: "0 < x \<Longrightarrow> up x = i \<longleftrightarrow> x = i * 2 + 1 \<or> x = i * 2 + 2"
  unfolding up_def by linarith

definition heap_list :: "'a::linorder list \<Rightarrow> bool" where
  "heap_list ks \<longleftrightarrow> (\<forall>x. 0 < x \<and> x < length ks \<longrightarrow> ks ! up x \<le> ks ! x)"

text \<open>Heap order but for one index: against its parent, or against its children.\<close>

definition heap_but_up :: "'a::linorder list \<Rightarrow> nat \<Rightarrow> bool" where
  "heap_but_up ks i \<longleftrightarrow> (\<forall>x. 0 < x \<and> x < length ks \<longrightarrow> (x \<noteq> i \<longrightarrow> ks ! up x \<le> ks ! x) \<and>
     (up x = i \<and> 0 < i \<longrightarrow> ks ! up i \<le> ks ! x))"

definition heap_but_down :: "'a::linorder list \<Rightarrow> nat \<Rightarrow> bool" where
  "heap_but_down ks i \<longleftrightarrow> (\<forall>x. 0 < x \<and> x < length ks \<longrightarrow> (up x \<noteq> i \<longrightarrow> ks ! up x \<le> ks ! x) \<and>
     (up x = i \<and> 0 < i \<longrightarrow> ks ! up i \<le> ks ! x))"

lemma heap_but_upI:
  assumes "\<And>x. 0 < x \<Longrightarrow> x < length ks \<Longrightarrow> x \<noteq> i \<Longrightarrow> ks ! up x \<le> ks ! x"
    and "\<And>x. 0 < x \<Longrightarrow> x < length ks \<Longrightarrow> up x = i \<Longrightarrow> 0 < i \<Longrightarrow> ks ! up i \<le> ks ! x"
  shows "heap_but_up ks i"
  unfolding heap_but_up_def using assms by blast

lemma heap_but_downI:
  assumes "\<And>x. 0 < x \<Longrightarrow> x < length ks \<Longrightarrow> up x \<noteq> i \<Longrightarrow> ks ! up x \<le> ks ! x"
    and "\<And>x. 0 < x \<Longrightarrow> x < length ks \<Longrightarrow> up x = i \<Longrightarrow> 0 < i \<Longrightarrow> ks ! up i \<le> ks ! x"
  shows "heap_but_down ks i"
  unfolding heap_but_down_def using assms by blast

abbreviation exchange :: "nat \<Rightarrow> nat \<Rightarrow> 'a list \<Rightarrow> 'a list" where
  "exchange l r xs \<equiv> xs[l := xs ! r, r := xs ! l]"

lemma heap_root_least:
  assumes "heap_list ks" and "i < length ks"
  shows "ks ! 0 \<le> ks ! i"
  using assms(2)
proof (induction i rule: less_induct)
  case (less i)
  show ?case
  proof (cases "i = 0")
    case False
    then have "up i < i" using up_less by simp
    with less have "ks ! 0 \<le> ks ! up i" by simp
    also have "\<dots> \<le> ks ! i" using assms(1) less.prems False by (simp add: heap_list_def)
    finally show ?thesis .
  qed simp
qed

lemma exchange_nth:
  "l < length xs \<Longrightarrow> r < length xs \<Longrightarrow> l \<noteq> r \<Longrightarrow>
     exchange l r xs ! y = (if y = r then xs ! l else if y = l then xs ! r else xs ! y)"
  by (auto simp: nth_list_update)

lemma heap_but_up_swap:
  assumes h: "heap_but_up ks i" and i: "0 < i" "i < length ks" and lt: "ks ! i < ks ! up i"
  shows "heap_but_up (exchange i (up i) ks) (up i)"
proof -
  define u where "u = up i"
  have u: "u < i" "up i = u" using up_less [OF i(1)] by (simp_all add: u_def)
  have ord: "y \<noteq> i \<Longrightarrow> 0 < y \<Longrightarrow> y < length ks \<Longrightarrow> ks ! up y \<le> ks ! y" for y using h by (simp add: heap_but_up_def)
  have ch: "0 < y \<Longrightarrow> y < length ks \<Longrightarrow> up y = i \<Longrightarrow> ks ! u \<le> ks ! y" for y
    using h i u(2) by (simp add: heap_but_up_def)
  have e: "exchange i u ks ! y = (if y = u then ks ! i else if y = i then ks ! u else ks ! y)" for y
    using exchange_nth [of i ks u y] i(2) u(1) by simp
  have "exchange i u ks ! up x \<le> exchange i u ks ! x" if "0 < x" "x < length ks" "x \<noteq> u" for x
    using that ord [of x] ch [of x] lt u up_less [of x] unfolding e
    by (cases "x = i"; cases "up x = i"; cases "up x = u") auto
  moreover have "exchange i u ks ! up u \<le> exchange i u ks ! x" if "0 < x" "x < length ks" "up x = u" "0 < u" for x
  proof -
    have "up u < u" using up_less [OF that(4)] .
    with that ord [of x] ord [of u] lt u i show ?thesis unfolding e by (cases "x = i") auto
  qed
  ultimately show ?thesis unfolding u(2) by (intro heap_but_upI) (simp_all only: length_list_update)
qed

lemma heap_but_up_done:
  assumes "heap_but_up ks i" and "i = 0 \<or> ks ! up i \<le> ks ! i"
  shows "heap_list ks"
  unfolding heap_list_def
proof (intro allI impI)
  fix x assume "0 < x \<and> x < length ks"
  with assms show "ks ! up x \<le> ks ! x" by (cases "x = i") (auto simp: heap_but_up_def)
qed

lemma heap_but_down_swap:
  assumes h: "heap_but_down ks i" and c: "c < length ks" "up c = i" "0 < c" and lt: "ks ! c < ks ! i"
    and least: "\<And>x. 0 < x \<Longrightarrow> x < length ks \<Longrightarrow> up x = i \<Longrightarrow> ks ! c \<le> ks ! x"
  shows "heap_but_down (exchange i c ks) c"
proof -
  have ic: "i < c" using up_less [OF c(3)] c(2) by simp
  have ord: "up y \<noteq> i \<Longrightarrow> 0 < y \<Longrightarrow> y < length ks \<Longrightarrow> ks ! up y \<le> ks ! y" for y using h by (simp add: heap_but_down_def)
  have gp: "0 < y \<Longrightarrow> y < length ks \<Longrightarrow> up y = i \<Longrightarrow> 0 < i \<Longrightarrow> ks ! up i \<le> ks ! y" for y
    using h by (simp add: heap_but_down_def)
  have e: "exchange i c ks ! y = (if y = c then ks ! i else if y = i then ks ! c else ks ! y)" for y
    using exchange_nth [of i ks c y] c(1) ic by simp
  have "exchange i c ks ! up x \<le> exchange i c ks ! x" if "0 < x" "x < length ks" "up x \<noteq> c" for x
    using that ord [of x] gp [OF c(3,1,2)] least [of x] lt ic up_less [of x] unfolding e
    by (cases "x = c"; cases "x = i"; cases "up x = i") (auto simp: c(2))
  moreover have "exchange i c ks ! up c \<le> exchange i c ks ! x" if "0 < x" "x < length ks" "up x = c" for x
    using that ord [of x] up_less [of x] ic unfolding e c(2) by auto
  ultimately show ?thesis by (intro heap_but_downI) (simp_all only: length_list_update)
qed

lemma heap_but_down_done:
  assumes "heap_but_down ks i" and "\<And>x. 0 < x \<Longrightarrow> x < length ks \<Longrightarrow> up x = i \<Longrightarrow> ks ! i \<le> ks ! x"
  shows "heap_list ks"
  unfolding heap_list_def
proof (intro allI impI)
  fix x assume "0 < x \<and> x < length ks"
  with assms(1) assms(2) [of x] show "ks ! up x \<le> ks ! x" by (cases "up x = i") (auto simp: heap_but_down_def)
qed

text \<open>A heap with one key replaced.\<close>

lemma heap_replace:
  assumes h: "heap_list ks" and i: "i < length ks"
  shows "0 < i \<Longrightarrow> k < ks ! up i \<Longrightarrow> heap_but_up (ks[i := k]) i"
    and "i = 0 \<or> ks ! up i \<le> k \<Longrightarrow> heap_but_down (ks[i := k]) i"
proof -
  have ord: "0 < y \<Longrightarrow> y < length ks \<Longrightarrow> ks ! up y \<le> ks ! y" for y using h by (simp add: heap_list_def)
  have gp: "ks ! up i \<le> ks ! x" if "0 < x" "x < length ks" "up x = i" "0 < i" for x
    using ord [of x] ord [of i] that i by auto
  have e: "ks[i := k] ! y = (if y = i then k else ks ! y)" for y using i by (simp add: nth_list_update)
  show "heap_but_up (ks[i := k]) i" if k: "0 < i" "k < ks ! up i"
  proof (rule heap_but_upI)
    fix x assume x: "0 < x" "x < length (ks[i := k])"
    show "x \<noteq> i \<Longrightarrow> ks[i := k] ! up x \<le> ks[i := k] ! x"
      using x ord [of x] gp [of x] k unfolding e by (cases "up x = i") auto
    show "up x = i \<Longrightarrow> ks[i := k] ! up i \<le> ks[i := k] ! x"
      using x gp [of x] k up_less [of i] up_less [of x] unfolding e by auto
  qed
  show "heap_but_down (ks[i := k]) i" if k: "i = 0 \<or> ks ! up i \<le> k"
  proof (rule heap_but_downI)
    fix x assume x: "0 < x" "x < length (ks[i := k])"
    show "up x \<noteq> i \<Longrightarrow> ks[i := k] ! up x \<le> ks[i := k] ! x"
      using x ord [of x] k unfolding e by (cases "x = i") auto
    show "up x = i \<Longrightarrow> 0 < i \<Longrightarrow> ks[i := k] ! up i \<le> ks[i := k] ! x"
      using x gp [of x] k up_less [of i] up_less [of x] unfolding e by auto
  qed
qed

section \<open>The heap of timers\<close>

definition tkey :: "timer_node \<Rightarrow> u64 \<times> u64" where
  "tkey n = (tn_deadline n, tn_sequence n)"

lemma timer_less_key: "timer_less l r \<longleftrightarrow> tkey l < tkey r"
  by (auto simp: timer_less_def tkey_def less_prod_def')

definition keys :: "timers \<Rightarrow> (u64 \<times> u64) list" where
  "keys t = map (\<lambda>a. tkey (tm_node t a)) (tm_heap t)"

text \<open>Every node in the heap knows where it is.\<close>

definition table_ok :: "timers \<Rightarrow> bool" where
  "table_ok t \<longleftrightarrow> distinct (tm_heap t) \<and> (\<forall>i < length (tm_heap t). tn_index (node_at t i) = Some i)"

text \<open>What rearranging the heap leaves alone: the nodes but for their index, and all other fields.\<close>

definition heap_frame :: "timers \<Rightarrow> timers \<Rightarrow> bool" where
  "heap_frame t t' \<longleftrightarrow> mset (tm_heap t') = mset (tm_heap t) \<and>
     (\<forall>a. (tm_node t' a)\<lparr>tn_index := None\<rparr> = (tm_node t a)\<lparr>tn_index := None\<rparr>) \<and>
     (\<forall>a. a \<notin> set (tm_heap t) \<longrightarrow> tm_node t' a = tm_node t a) \<and>
     t'\<lparr>tm_heap := [], tm_node := tm_node t\<rparr> = t\<lparr>tm_heap := []\<rparr>"

lemma heap_frame_refl [simp]: "heap_frame t t"
  by (simp add: heap_frame_def)

lemma heap_frame_trans:
  assumes "heap_frame t t'" and "heap_frame t' t''"
  shows "heap_frame t t''"
proof -
  have "set (tm_heap t') = set (tm_heap t)" using assms(1) by (metis heap_frame_def set_mset_mset)
  moreover have "t''\<lparr>tm_heap := [], tm_node := tm_node t\<rparr> = t\<lparr>tm_heap := []\<rparr>"
    using assms unfolding heap_frame_def by (cases t; cases t'; cases t'') simp
  ultimately show ?thesis using assms by (simp add: heap_frame_def)
qed

lemma heap_frameD:
  assumes "heap_frame t t'"
  shows "mset (tm_heap t') = mset (tm_heap t)" and "set (tm_heap t') = set (tm_heap t)"
    and "length (tm_heap t') = length (tm_heap t)"
    and "tkey (tm_node t' a) = tkey (tm_node t a)" and "tn_state (tm_node t' a) = tn_state (tm_node t a)"
    and "tn_task (tm_node t' a) = tn_task (tm_node t a)" and "tn_deadline (tm_node t' a) = tn_deadline (tm_node t a)"
    and "tm_capacity t' = tm_capacity t" and "tm_sequence t' = tm_sequence t" and "tm_stop t' = tm_stop t"
    and "tm_wait t' = tm_wait t" and "tm_alloc t' = tm_alloc t" and "tm_registered t' = tm_registered t"
    and "tm_expired t' = tm_expired t" and "tm_cancelled t' = tm_cancelled t"
    and "a \<notin> set (tm_heap t) \<Longrightarrow> tm_node t' a = tm_node t a"
proof -
  note f = assms [unfolded heap_frame_def]
  show ms: "mset (tm_heap t') = mset (tm_heap t)" using f by simp
  from ms show "set (tm_heap t') = set (tm_heap t)" "length (tm_heap t') = length (tm_heap t)"
    by (metis set_mset_mset, metis size_mset)
  have "(tm_node t' a)\<lparr>tn_index := None\<rparr> = (tm_node t a)\<lparr>tn_index := None\<rparr>" using f by blast
  then show "tkey (tm_node t' a) = tkey (tm_node t a)" "tn_state (tm_node t' a) = tn_state (tm_node t a)"
    "tn_task (tm_node t' a) = tn_task (tm_node t a)" "tn_deadline (tm_node t' a) = tn_deadline (tm_node t a)"
    unfolding tkey_def by (metis timer_node.select_convs timer_node.update_convs(6) timer_node.surjective)+
  have "t'\<lparr>tm_heap := [], tm_node := tm_node t\<rparr> = t\<lparr>tm_heap := []\<rparr>" using f by blast
  then show "tm_capacity t' = tm_capacity t" "tm_sequence t' = tm_sequence t" "tm_stop t' = tm_stop t"
    "tm_wait t' = tm_wait t" "tm_alloc t' = tm_alloc t" "tm_registered t' = tm_registered t"
    "tm_expired t' = tm_expired t" "tm_cancelled t' = tm_cancelled t"
    by (cases t; cases t'; simp)+
  show "a \<notin> set (tm_heap t) \<Longrightarrow> tm_node t' a = tm_node t a" using f by blast
qed

lemma swap_effect:
  assumes ok: "table_ok t" and l: "l < length (tm_heap t)" and r: "r < length (tm_heap t)" and ne: "l \<noteq> r"
  shows "keys (timer_heap_swap l r t) = exchange l r (keys t)" and "table_ok (timer_heap_swap l r t)"
    and "heap_frame t (timer_heap_swap l r t)"
proof -
  let ?h = "exchange l r (tm_heap t)" and ?t = "timer_heap_swap l r t"
  have d: "distinct (tm_heap t)" and ix: "\<And>i. i < length (tm_heap t) \<Longrightarrow> tn_index (node_at t i) = Some i"
    using ok by (auto simp: table_ok_def)
  have h: "tm_heap ?t = ?h" by (simp add: timer_heap_swap_def set_index_def Let_def)
  have at: "?h ! r = tm_heap t ! l" "?h ! l = tm_heap t ! r" using l r ne by (simp_all add: nth_list_update)
  have dif: "tm_heap t ! l \<noteq> tm_heap t ! r" using d l r ne by (simp add: nth_eq_iff_index_eq)
  have nd: "tm_node ?t = (tm_node t)(tm_heap t ! r := (tm_node t (tm_heap t ! r))\<lparr>tn_index := Some l\<rparr>,
      tm_heap t ! l := (tm_node t (tm_heap t ! l))\<lparr>tn_index := Some r\<rparr>)"
    using at dif by (simp add: timer_heap_swap_def set_index_def Let_def)
  have ks: "tkey (tm_node ?t a) = tkey (tm_node t a)" for a unfolding nd by (simp add: tkey_def)
  then show "keys ?t = exchange l r (keys t)"
    unfolding keys_def h ks using l r by (simp add: map_update)
  have ms: "mset ?h = mset (tm_heap t)" using mset_swap [OF r l] .
  have "tn_index (node_at ?t i) = Some i" if i: "i < length (tm_heap ?t)" for i
  proof -
    have "?h ! i = (if i = r then tm_heap t ! l else if i = l then tm_heap t ! r else tm_heap t ! i)"
      using exchange_nth [OF l r ne] .
    moreover have "tm_heap t ! i \<noteq> tm_heap t ! l" "tm_heap t ! i \<noteq> tm_heap t ! r" if "i \<noteq> l" "i \<noteq> r"
      using that d l r i h by (simp_all add: nth_eq_iff_index_eq)
    ultimately show ?thesis unfolding h nd using ix [of i] i h dif by auto
  qed
  moreover have "distinct ?h" using d ms by (metis distinct_count_atmost_1 mset_eq_setD)
  ultimately show "table_ok ?t" using h by (simp add: table_ok_def)
  have "tm_heap t ! l \<in> set (tm_heap t)" "tm_heap t ! r \<in> set (tm_heap t)" using l r by simp_all
  then show "heap_frame t ?t"
    unfolding heap_frame_def h nd using ms by (auto simp: timer_heap_swap_def set_index_def Let_def)
qed

definition heap_ok :: "timers \<Rightarrow> bool" where
  "heap_ok t \<longleftrightarrow> table_ok t \<and> heap_list (keys t)"

lemma length_keys [simp]: "length (keys t) = length (tm_heap t)"
  by (simp add: keys_def)

lemma nth_keys: "i < length (tm_heap t) \<Longrightarrow> keys t ! i = tkey (node_at t i)"
  by (simp add: keys_def)

lemma timer_heap_up_ok:
  assumes "table_ok t" and "heap_but_up (keys t) i" and "i < length (tm_heap t)"
  shows "heap_ok (timer_heap_up i t) \<and> heap_frame t (timer_heap_up i t)"
  using assms
proof (induction i t rule: timer_heap_up.induct)
  case (1 i t)
  let ?u = "(i - 1) div 2"
  have pu: "up i = ?u" by (simp add: up_def)
  show ?case
  proof (cases "0 < i \<and> timer_less (node_at t i) (node_at t ?u)")
    case True
    then have u: "?u < i" "?u < length (tm_heap t)" using up_less [of i] 1(4) pu by auto
    have lt: "keys t ! i < keys t ! up i" using True u(2) 1(4) by (simp add: nth_keys timer_less_key pu)
    have "i \<noteq> ?u" using u(1) by simp
    note sw = swap_effect [OF 1(2,4) u(2) this]
    have "heap_but_up (keys (timer_heap_swap i ?u t)) ?u"
      using heap_but_up_swap [OF 1(3) _ _ lt] True 1(4) sw(1) pu by simp
    with 1(1) [of ?u] True sw u(2) heap_frame_trans [OF sw(3)] show ?thesis
      by (subst (1 2) timer_heap_up.simps) (simp add: Let_def)
  next
    case False
    then have "heap_list (keys t)"
      using heap_but_up_done [OF 1(3)] 1(4) up_less [of i] by (auto simp: nth_keys timer_less_key pu not_less)
    with False 1(2) show ?thesis by (subst (1 2) timer_heap_up.simps) (auto simp: Let_def heap_ok_def)
  qed
qed

lemma children_all:
  "(\<forall>x. 0 < x \<and> x < n \<and> up x = i \<longrightarrow> P x) \<longleftrightarrow> (i * 2 + 1 < n \<longrightarrow> P (i * 2 + 1)) \<and> (i * 2 + 2 < n \<longrightarrow> P (i * 2 + 2))"
proof -
  have "0 < x \<and> x < n \<and> up x = i \<longleftrightarrow> x < n \<and> (x = i * 2 + 1 \<or> x = i * 2 + 2)" for x
    using up_children [of x i] by auto
  then show ?thesis by metis
qed

lemma smallest_child_spec:
  assumes "i < length (tm_heap t)"
  shows "smallest_child i t = i \<and> (\<forall>x. 0 < x \<and> x < length (tm_heap t) \<and> up x = i \<longrightarrow> keys t ! i \<le> keys t ! x) \<or>
    smallest_child i t < length (tm_heap t) \<and> up (smallest_child i t) = i \<and> 0 < smallest_child i t \<and>
      keys t ! smallest_child i t < keys t ! i \<and>
      (\<forall>x. 0 < x \<and> x < length (tm_heap t) \<and> up x = i \<longrightarrow> keys t ! smallest_child i t \<le> keys t ! x)"
  using assms unfolding children_all
  by (auto simp: smallest_child_def Let_def timer_less_key nth_keys up_children not_less)

lemma timer_heap_down_ok:
  assumes "table_ok t" and "heap_but_down (keys t) i" and "i < length (tm_heap t)"
  shows "heap_ok (timer_heap_down i t) \<and> heap_frame t (timer_heap_down i t)"
  using assms
proof (induction i t rule: timer_heap_down.induct)
  case (1 i t)
  let ?c = "smallest_child i t"
  show ?case
  proof (cases "?c = i")
    case True
    with smallest_child_spec [OF 1(4)] have "heap_list (keys t)"
      by (intro heap_but_down_done [OF 1(3)]) (auto dest: up_less)
    with True 1(2) show ?thesis by (subst (1 2) timer_heap_down.simps) (simp add: heap_ok_def)
  next
    case False
    with smallest_child_spec [OF 1(4)] have c: "?c < length (tm_heap t)" "up ?c = i" "0 < ?c"
      "keys t ! ?c < keys t ! i"
      "\<And>x. 0 < x \<Longrightarrow> x < length (tm_heap t) \<Longrightarrow> up x = i \<Longrightarrow> keys t ! ?c \<le> keys t ! x" by blast+
    have "i \<noteq> ?c" using False by simp
    note sw = swap_effect [OF 1(2,4) c(1) this]
    have "heap_but_down (keys (timer_heap_swap i ?c t)) ?c"
      unfolding sw(1) using heap_but_down_swap [OF 1(3) _ c(2-4)] c(1,5) by simp
    with 1(1) [OF False] sw c(1) heap_frame_trans [OF sw(3)] False show ?thesis
      by (subst (1 2) timer_heap_down.simps) simp
  qed
qed

lemma timer_heap_push_ok:
  assumes ok: "heap_ok t" and new: "a \<notin> set (tm_heap t)" and p: "timer_heap_push mem a t = Some t'"
  shows "heap_ok t'" and "mset (tm_heap t') = add_mset a (mset (tm_heap t))"
    and "heap_frame (t\<lparr>tm_heap := tm_heap t @ [a], tm_capacity := tm_capacity t'\<rparr>) t'"
proof -
  let ?n = "length (tm_heap t)"
  obtain c where p': "t' = timer_heap_up ?n ((set_index a (Some ?n) (t\<lparr>tm_capacity := c\<rparr>))\<lparr>tm_heap := tm_heap t @ [a]\<rparr>)"
  proof (cases "length (tm_heap t) = tm_capacity t")
    case True
    with p that [of "grown_capacity (tm_capacity t)"] show ?thesis
      by (auto simp: timer_heap_push_def Let_def set_index_def split: if_splits)
  next
    case False
    with p that [of "tm_capacity t"] show ?thesis
      by (auto simp: timer_heap_push_def Let_def set_index_def)
  qed
  let ?t2 = "(set_index a (Some ?n) (t\<lparr>tm_capacity := c\<rparr>))\<lparr>tm_heap := tm_heap t @ [a]\<rparr>"
  have tab: "table_ok ?t2"
    using ok new by (auto simp: heap_ok_def table_ok_def set_index_def nth_append less_Suc_eq)
  have ks: "keys ?t2 = keys t @ [tkey (tm_node t a)]"
    using new by (auto simp: keys_def set_index_def tkey_def)
  have "heap_but_up (keys ?t2) ?n"
  proof (rule heap_but_upI)
    fix x assume x: "0 < x" "x < length (keys ?t2)"
    show "x \<noteq> ?n \<Longrightarrow> keys ?t2 ! up x \<le> keys ?t2 ! x"
      using x up_less [of x] ok unfolding ks by (auto simp: nth_append heap_ok_def heap_list_def)
    show "up x = ?n \<Longrightarrow> keys ?t2 ! up ?n \<le> keys ?t2 ! x" using x up_less [of x] ks by simp
  qed
  from timer_heap_up_ok [OF tab this] have h: "heap_ok t'" "heap_frame ?t2 t'" unfolding p' by (simp_all add: set_index_def)
  then show "heap_ok t'" by simp
  show "mset (tm_heap t') = add_mset a (mset (tm_heap t))" using heap_frameD(1) [OF h(2)] by (simp add: set_index_def)
  have c: "tm_capacity t' = c" using heap_frameD(8) [OF h(2)] by (simp add: set_index_def)
  have "heap_frame (t\<lparr>tm_heap := tm_heap t @ [a], tm_capacity := c\<rparr>) ?t2"
    by (auto simp: heap_frame_def set_index_def)
  then show "heap_frame (t\<lparr>tm_heap := tm_heap t @ [a], tm_capacity := tm_capacity t'\<rparr>) t'"
    unfolding c by (rule heap_frame_trans) (rule h(2))
qed

lemma heap_list_take:
  assumes "heap_list ks"
  shows "heap_list (take n ks)"
  unfolding heap_list_def
proof (intro allI impI)
  fix x assume "0 < x \<and> x < length (take n ks)"
  with assms up_less [of x] show "take n ks ! up x \<le> take n ks ! x" by (simp add: heap_list_def)
qed

text \<open>The heap after the last element has moved to the place of the removed one.\<close>

definition vacated :: "nat \<Rightarrow> timers \<Rightarrow> timers" where
  "vacated i t =
     (let n = length (tm_heap t) - 1; moved = tm_heap t ! n in
      if i \<noteq> n then (set_index moved (Some i) t)\<lparr>tm_heap := take n ((tm_heap t)[i := moved])\<rparr>
      else t\<lparr>tm_heap := take n (tm_heap t)\<rparr>)"

lemma mset_vacated:
  assumes "i < length xs"
  shows "mset (take (length xs - 1) (xs[i := xs ! (length xs - 1)])) = mset xs - {#xs ! i#}"
proof -
  let ?n = "length xs - 1"
  have n: "?n < length xs" using assms by simp
  have "xs[i := xs ! ?n] = take ?n (xs[i := xs ! ?n]) @ [xs ! ?n]"
    using take_Suc_conv_app_nth [of ?n "xs[i := xs ! ?n]"] n assms by (cases "i = ?n") auto
  from arg_cong [OF this, of mset]
  have "mset (take ?n (xs[i := xs ! ?n])) = mset (xs[i := xs ! ?n]) - {#xs ! ?n#}" by simp
  also have "\<dots> = add_mset (xs ! ?n) (mset xs - {#xs ! i#}) - {#xs ! ?n#}" using assms by (simp add: mset_update)
  finally show ?thesis by simp
qed

lemma vacated_ok:
  assumes ok: "heap_ok t" and i: "i < length (tm_heap t)"
  shows "table_ok (vacated i t)" and "mset (tm_heap (vacated i t)) = mset (tm_heap t) - {#tm_heap t ! i#}"
    and "i = length (tm_heap t) - 1 \<Longrightarrow> heap_list (keys (vacated i t))"
    and "i \<noteq> length (tm_heap t) - 1 \<Longrightarrow> 0 < i \<Longrightarrow> keys (vacated i t) ! i < keys (vacated i t) ! up i \<Longrightarrow> heap_but_up (keys (vacated i t)) i"
    and "i \<noteq> length (tm_heap t) - 1 \<Longrightarrow> i = 0 \<or> keys (vacated i t) ! up i \<le> keys (vacated i t) ! i \<Longrightarrow> heap_but_down (keys (vacated i t)) i"
    and "i \<noteq> length (tm_heap t) - 1 \<Longrightarrow> i < length (tm_heap (vacated i t))"
    and "heap_frame (t\<lparr>tm_heap := tm_heap (vacated i t)\<rparr>) (vacated i t)"
proof -
  let ?n = "length (tm_heap t) - 1" and ?h = "tm_heap t"
  let ?m = "?h ! ?n"
  have d: "distinct ?h" and ix: "\<And>j. j < length ?h \<Longrightarrow> tn_index (node_at t j) = Some j" and hl: "heap_list (keys t)"
    using ok by (auto simp: heap_ok_def table_ok_def)
  have n: "?n < length ?h" using i by simp
  have hv: "tm_heap (vacated i t) = take ?n (?h[i := ?m])"
    using i by (auto simp: vacated_def Let_def)
  show ms: "mset (tm_heap (vacated i t)) = mset ?h - {#?h ! i#}" unfolding hv by (rule mset_vacated [OF i])
  have nk: "tkey (tm_node (vacated i t) a) = tkey (tm_node t a)" for a
    by (simp add: vacated_def Let_def set_index_def tkey_def)
  have kv: "keys (vacated i t) = take ?n ((keys t)[i := keys t ! ?n])"
    unfolding keys_def hv nk using n by (simp add: take_map [symmetric] map_update)
  show "heap_frame (t\<lparr>tm_heap := tm_heap (vacated i t)\<rparr>) (vacated i t)"
  proof (cases "i = ?n")
    case False
    then have "?m \<in> set (take ?n (?h[i := ?m]))" using i n by (auto simp: in_set_conv_nth intro!: exI [of _ i])
    with False show ?thesis by (auto simp: heap_frame_def vacated_def Let_def set_index_def)
  qed (simp add: heap_frame_def vacated_def Let_def)
  have at: "tm_heap (vacated i t) ! j = (if j = i then ?m else ?h ! j)" if "j < ?n" for j
    unfolding hv using that i by (simp add: nth_list_update)
  have ln: "length (tm_heap (vacated i t)) = ?n" unfolding hv by simp
  have inj: "?h ! j = ?h ! l \<longleftrightarrow> j = l" if "j < length ?h" "l < length ?h" for j l
    using d that by (simp add: nth_eq_iff_index_eq)
  have "distinct (tm_heap (vacated i t))" unfolding distinct_conv_nth ln
  proof (intro allI impI)
    fix j l assume jl: "j < ?n" "l < ?n" "j \<noteq> l"
    then show "tm_heap (vacated i t) ! j \<noteq> tm_heap (vacated i t) ! l"
      using inj [of j l] inj [of ?n l] inj [of j ?n] n at by auto
  qed
  moreover have "tn_index (node_at (vacated i t) j) = Some j" if j: "j < ?n" for j
  proof (cases "j = i")
    case True
    with j show ?thesis unfolding at [OF j] by (simp add: vacated_def Let_def set_index_def)
  next
    case False
    then have "?h ! j \<noteq> ?m" using inj [of j ?n] j n by auto
    with False show ?thesis unfolding at [OF j] using ix [of j] j by (simp add: vacated_def Let_def set_index_def)
  qed
  ultimately show "table_ok (vacated i t)" unfolding table_ok_def ln by blast
  show "i = ?n \<Longrightarrow> heap_list (keys (vacated i t))"
    unfolding kv using heap_list_take [OF hl] by simp
  have ni: "i \<noteq> ?n \<Longrightarrow> i < ?n" using i by linarith
  have kv': "keys (vacated i t) = (take ?n (keys t))[i := keys t ! ?n]" unfolding kv by (simp add: take_update_swap)
  show "i \<noteq> ?n \<Longrightarrow> i < length (tm_heap (vacated i t))" unfolding hv using ni by simp
  note rp = heap_replace [OF heap_list_take [OF hl, of ?n], of i "keys t ! ?n"]
  show "heap_but_up (keys (vacated i t)) i"
    if "i \<noteq> ?n" "0 < i" "keys (vacated i t) ! i < keys (vacated i t) ! up i"
    using that rp(1) ni up_less [of i] unfolding kv' by simp
  show "heap_but_down (keys (vacated i t)) i"
    if "i \<noteq> ?n" "i = 0 \<or> keys (vacated i t) ! up i \<le> keys (vacated i t) ! i"
    using that rp(2) ni up_less [of i] unfolding kv' by (cases "i = 0") auto
qed

lemma timer_heap_remove_ok:
  assumes ok: "heap_ok t" and i: "i < length (tm_heap t)" and r: "timer_heap_remove (Some i) t = (res, t')"
  shows "res = Some (tm_heap t ! i)" and "heap_ok t'"
    and "mset (tm_heap t') = mset (tm_heap t) - {#tm_heap t ! i#}"
    and "heap_frame (t\<lparr>tm_heap := tm_heap t'\<rparr>) (t'\<lparr>tm_node := (tm_node t')(tm_heap t ! i := tm_node t (tm_heap t ! i))\<rparr>)"
    and "tm_node t' (tm_heap t ! i) = (tm_node t (tm_heap t ! i))\<lparr>tn_index := None\<rparr>"
proof -
  let ?a = "tm_heap t ! i" and ?n = "length (tm_heap t) - 1"
  note v = vacated_ok [OF ok i]
  define t2 where "t2 = (if i \<noteq> ?n then (if i > 0 \<and> timer_less (node_at (vacated i t) i) (node_at (vacated i t) ((i - 1) div 2))
       then timer_heap_up i (vacated i t) else timer_heap_down i (vacated i t)) else vacated i t)"
  have eq: "res = Some ?a" "t' = set_index ?a None t2"
    using r i by (auto simp: timer_heap_remove_def t2_def vacated_def Let_def)
  then show "res = Some ?a" by simp
  have "heap_ok t2 \<and> heap_frame (vacated i t) t2"
  proof (cases "i = ?n")
    case True
    with v(1,3) show ?thesis by (simp add: t2_def heap_ok_def)
  next
    case False
    have il: "i < length (tm_heap (vacated i t))" using v(6) False by simp
    have less: "timer_less (node_at (vacated i t) i) (node_at (vacated i t) (up i)) \<longleftrightarrow>
        keys (vacated i t) ! i < keys (vacated i t) ! up i" if "0 < i"
      using il up_less [OF that] by (simp add: timer_less_key nth_keys)
    show ?thesis
    proof (cases "0 < i \<and> timer_less (node_at (vacated i t) i) (node_at (vacated i t) (up i))")
      case True
      then have "t2 = timer_heap_up i (vacated i t)" using False by (simp add: t2_def up_def)
      with timer_heap_up_ok [OF v(1) _ il] v(4) False True less show ?thesis by simp
    next
      case nt: False
      then have "t2 = timer_heap_down i (vacated i t)" using False by (auto simp: t2_def up_def)
      moreover have "i = 0 \<or> keys (vacated i t) ! up i \<le> keys (vacated i t) ! i" using nt less by force
      ultimately show ?thesis using timer_heap_down_ok [OF v(1) _ il] v(5) False by simp
    qed
  qed
  then have h2: "heap_ok t2" "heap_frame (vacated i t) t2" by simp_all
  have "?a \<notin># mset (tm_heap t) - {#?a#}"
    using ok i by (auto simp: heap_ok_def table_ok_def distinct_count_atmost_1 in_diff_count)
  then have na: "?a \<notin> set (tm_heap t2)" using heap_frameD(1) [OF h2(2)] v(2) by (metis set_mset_mset)
  have nodes: "tm_node t' b = (if b = ?a then (tm_node t2 ?a)\<lparr>tn_index := None\<rparr> else tm_node t2 b)" for b
    unfolding eq(2) by (simp add: set_index_def)
  have hp: "tm_heap t' = tm_heap t2" unfolding eq(2) by (simp add: set_index_def)
  have "keys t' = keys t2" unfolding keys_def hp by (auto simp: nodes tkey_def)
  moreover have "table_ok t'"
    using h2(1) na nth_mem unfolding heap_ok_def table_ok_def hp nodes by fastforce
  ultimately show "heap_ok t'" using h2(1) by (simp add: heap_ok_def)
  show "mset (tm_heap t') = mset (tm_heap t) - {#?a#}" using hp heap_frameD(1) [OF h2(2)] v(2) by simp
  have na1: "?a \<notin> set (tm_heap (vacated i t))" using na heap_frameD(2) [OF h2(2)] by simp
  have "tm_node (vacated i t) ?a = tm_node t ?a"
    using heap_frameD(16) [OF v(7), of ?a] na1 by simp
  then have a2: "tm_node t2 ?a = tm_node t ?a" using heap_frameD(16) [OF h2(2) na1] by simp
  then show "tm_node t' ?a = (tm_node t ?a)\<lparr>tn_index := None\<rparr>" by (simp add: nodes)
  have "t'\<lparr>tm_node := (tm_node t')(?a := tm_node t ?a)\<rparr> = t2"
    unfolding eq(2) set_index_def using a2 by (cases t2) (simp add: fun_upd_idem)
  moreover have "heap_frame (t\<lparr>tm_heap := tm_heap t2\<rparr>) (t\<lparr>tm_heap := tm_heap (vacated i t)\<rparr>)"
    using heap_frameD(1) [OF h2(2)] by (simp add: heap_frame_def)
  ultimately show "heap_frame (t\<lparr>tm_heap := tm_heap t'\<rparr>) (t'\<lparr>tm_node := (tm_node t')(?a := tm_node t ?a)\<rparr>)"
    using heap_frame_trans [OF heap_frame_trans [OF _ v(7)] h2(2)] hp by simp
qed

section \<open>The heap as a priority queue\<close>

text \<open>The interface the timer thread relies on: the least element comes out first.\<close>

fun drain :: "('s \<Rightarrow> ('a \<times> 's) option) \<Rightarrow> nat \<Rightarrow> 's \<Rightarrow> 'a list \<times> 's" where
  "drain pop 0 s = ([], s)"
| "drain pop (Suc n) s = (case pop s of None \<Rightarrow> ([], s)
     | Some (a, s') \<Rightarrow> (case drain pop n s' of (xs, s'') \<Rightarrow> (a # xs, s'')))"

locale min_queue =
  fixes inv :: "'s \<Rightarrow> bool" and elems :: "'s \<Rightarrow> 'a multiset" and key :: "'s \<Rightarrow> 'a \<Rightarrow> 'k::linorder"
    and pop :: "'s \<Rightarrow> ('a \<times> 's) option"
  assumes pop_none: "inv s \<Longrightarrow> pop s = None \<longleftrightarrow> elems s = {#}"
    and pop_some: "inv s \<Longrightarrow> pop s = Some (a, s') \<Longrightarrow>
      inv s' \<and> elems s = add_mset a (elems s') \<and> (\<forall>b \<in># elems s. key s a \<le> key s b) \<and> key s' = key s"
begin

lemma drain_all:
  "inv s \<Longrightarrow> size (elems s) \<le> n \<Longrightarrow> drain pop n s = (xs, s') \<Longrightarrow>
     mset xs = elems s \<and> sorted (map (key s) xs) \<and> elems s' = {#}"
proof (induction n arbitrary: s xs s')
  case (Suc n)
  show ?case
  proof (cases "pop s")
    case None
    with Suc.prems pop_none [OF Suc.prems(1)] show ?thesis by auto
  next
    case (Some p)
    obtain a s1 where p: "p = (a, s1)" by force
    note e = pop_some [OF Suc.prems(1) Some [unfolded p]]
    obtain ys s2 where d: "drain pop n s1 = (ys, s2)" by force
    with Some p Suc.prems have "xs = a # ys" "s' = s2" by auto
    moreover have "mset ys = elems s1 \<and> sorted (map (key s1) ys) \<and> elems s2 = {#}"
      using Suc.IH [OF _ _ d] e Suc.prems(2) by simp
    ultimately show ?thesis using e by (auto simp flip: set_mset_mset)
  qed
qed simp

end

definition timer_pop :: "timers \<Rightarrow> (addr \<times> timers) option" where
  "timer_pop t = (case timer_heap_remove (Some 0) t of (None, _) \<Rightarrow> None | (Some a, t') \<Rightarrow> Some (a, t'))"

interpretation tq: min_queue heap_ok "\<lambda>t. mset (tm_heap t)" "\<lambda>t a. tkey (tm_node t a)" timer_pop
proof
  show "timer_pop t = None \<longleftrightarrow> mset (tm_heap t) = {#}" if "heap_ok t" for t
    by (auto simp: timer_pop_def timer_heap_remove_def Let_def split: if_splits)
  show "heap_ok t' \<and> mset (tm_heap t) = add_mset a (mset (tm_heap t')) \<and>
      (\<forall>b \<in># mset (tm_heap t). tkey (tm_node t a) \<le> tkey (tm_node t b)) \<and> (\<lambda>b. tkey (tm_node t' b)) = (\<lambda>b. tkey (tm_node t b))"
    if ok: "heap_ok t" and p: "timer_pop t = Some (a, t')" for t a t'
  proof -
    have ne: "0 < length (tm_heap t)" and r: "timer_heap_remove (Some 0) t = (Some a, t')"
      using p by (auto simp: timer_pop_def timer_heap_remove_def Let_def split: if_splits)
    note e = timer_heap_remove_ok [OF ok ne r]
    have a: "a = tm_heap t ! 0" using e(1) by simp
    have "tkey (tm_node t a) \<le> tkey (tm_node t b)" if "b \<in> set (tm_heap t)" for b
    proof -
      obtain i where "i < length (tm_heap t)" "tm_heap t ! i = b" using \<open>b \<in> set (tm_heap t)\<close> by (auto simp: in_set_conv_nth)
      with heap_root_least [of "keys t" i] ok a ne show ?thesis by (simp add: heap_ok_def nth_keys)
    qed
    moreover have "tkey (tm_node t' b) = tkey (tm_node t b)" for b
      using heap_frameD(4) [OF e(4), of b] e(5) a by (cases "b = a") (simp_all add: tkey_def)
    moreover have "mset (tm_heap t) = add_mset a (mset (tm_heap t'))"
      unfolding e(3) a using ne nth_mem [OF ne] by simp
    moreover have "\<forall>b \<in># mset (tm_heap t). tkey (tm_node t a) \<le> tkey (tm_node t b)" using calculation(1) by simp
    ultimately show ?thesis using e(2) by blast
  qed
qed

text \<open>
  The heap of timers sorts: taking the first node until none is left gives every registered
  node once, in the order of deadlines and, for equal deadlines, of registration.
\<close>

theorem timer_heap_sorts:
  assumes "heap_ok t" and "length (tm_heap t) \<le> n" and "drain timer_pop n t = (xs, t')"
  shows "mset xs = mset (tm_heap t) \<and> tm_heap t' = [] \<and>
    sorted (map (\<lambda>a. (tn_deadline (tm_node t a), tn_sequence (tm_node t a))) xs)"
  using tq.drain_all [OF assms(1) _ assms(3)] assms(2) by (simp add: tkey_def)

theorem timer_heap_sorts_witness:
  "\<exists>t xs t'. length (tm_heap t) = 2 \<and> drain timer_pop 2 t = (xs, t') \<and> mset xs = {#10, 20#} \<and>
     sorted (map (\<lambda>a. (tn_deadline (tm_node t a), tn_sequence (tm_node t a))) xs)"
proof -
  define node where "node = (\<lambda>d i. \<lparr>tn_deadline = d, tn_detected = 0, tn_ready = 0, tn_resumed = 0, tn_sequence = 0,
       tn_index = Some i, tn_state = TIMER_WAITING, tn_task = 0\<rparr>)"
  define t where "t = \<lparr>tm_node = (\<lambda>a. if a = 20 then node 5 0 else node 9 1), tm_heap = [20, 10], tm_capacity = 64,
     tm_sequence = 0, tm_stop = False, tm_wait = (\<lambda>_. None), tm_alloc = {10, 20},
     tm_registered = 0, tm_expired = 0, tm_cancelled = 0, tm_detect_total = 0, tm_detect_max = 0,
     tm_ready_total = 0, tm_ready_max = 0, tm_resume_total = 0, tm_resume_max = 0\<rparr>"
  have "heap_ok t"
    by (auto simp: heap_ok_def table_ok_def heap_list_def keys_def tkey_def up_def t_def node_def less_Suc_eq
        less_eq_prod_def)
  moreover obtain xs t' where d: "drain timer_pop 2 t = (xs, t')" by force
  ultimately have "mset xs = mset (tm_heap t) \<and> tm_heap t' = [] \<and>
    sorted (map (\<lambda>a. (tn_deadline (tm_node t a), tn_sequence (tm_node t a))) xs)"
    by (intro timer_heap_sorts) (simp_all add: t_def)
  with d show ?thesis by (intro exI [of _ t] exI [of _ xs] exI [of _ t']) (simp add: t_def add_mset_commute)
qed

end
