(* ===== verification/Gt_Sleep.thy ===== *)
theory Gt_Sleep
  imports Gt_Timer
begin

text \<open>
  The timer thread and the waits of tasks on deadlines (\<^verbatim>\<open>libs/greenthread/src/greenthread.c\<close>): one
  round of \<open>timer_main\<close>, \<open>timer_wait_register\<close>, \<open>timer_wait_finish\<close>, \<open>timer_cancel_task_wait\<close> and the stop
  request, each one section under \<open>timer_mutex\<close>, and their interleavings as a step relation.
\<close>

section \<open>Operations\<close>

definition set_state :: "addr \<Rightarrow> timer_state \<Rightarrow> timers \<Rightarrow> timers" where
  "set_state a s t = t\<lparr>tm_node := (tm_node t)(a := (tm_node t a)\<lparr>tn_state := s\<rparr>)\<rparr>"

definition stat_max :: "u64 \<Rightarrow> u64 \<Rightarrow> u64" where
  "stat_max v candidate = (if v < candidate then candidate else v)"

text \<open>What the timer thread does at the end of a round: unpark a task, wait, or leave.\<close>

datatype timer_action = TA_Fire addr | TA_Cancel addr | TA_Wait "u64 option" | TA_Exit

text \<open>\<open>now\<close> and \<open>now2\<close> are the two readings of the clock.\<close>

definition timer_expire :: "u64 \<Rightarrow> u64 \<Rightarrow> addr \<Rightarrow> timers \<Rightarrow> timers" where
  "timer_expire now now2 a t =
     (let t1 = snd (timer_heap_remove (Some 0) t);
          late = now - tn_deadline (tm_node t a);
          t2 = t1\<lparr>tm_node := (tm_node t1)(a := (tm_node t1 a)\<lparr>tn_state := TIMER_EXPIRED, tn_detected := now, tn_ready := now2\<rparr>),
                 tm_expired := tm_expired t1 + 1, tm_detect_total := tm_detect_total t1 + late,
                 tm_detect_max := stat_max (tm_detect_max t1) late\<rparr>;
          late2 = now2 - tn_deadline (tm_node t a) in
      if now2 \<ge> tn_deadline (tm_node t a)
      then t2\<lparr>tm_ready_total := tm_ready_total t2 + late2, tm_ready_max := stat_max (tm_ready_max t2) late2\<rparr>
      else t2)"

definition timer_cancel_node :: "addr \<Rightarrow> timers \<Rightarrow> timers" where
  "timer_cancel_node a t =
     (let t1 = set_state a TIMER_CANCELLED (snd (timer_heap_remove (tn_index (tm_node t a)) t)) in
      t1\<lparr>tm_cancelled := tm_cancelled t1 + 1\<rparr>)"

definition timer_round :: "u64 \<Rightarrow> u64 \<Rightarrow> timers \<Rightarrow> timer_action \<times> timers" where
  "timer_round now now2 t =
     (if tm_stop t then
        (case tm_heap t of
           [] \<Rightarrow> (TA_Exit, t)
         | a # _ \<Rightarrow>
             (TA_Cancel (tn_task (tm_node t a)),
              (let t1 = set_state a TIMER_CANCELLED (snd (timer_heap_remove (Some 0) t)) in
               t1\<lparr>tm_cancelled := tm_cancelled t1 + 1\<rparr>)))
      else case tm_heap t of
           [] \<Rightarrow> (TA_Wait None, t)
         | a # _ \<Rightarrow>
             if now \<noteq> 0 \<and> now \<ge> tn_deadline (tm_node t a)
             then (TA_Fire (tn_task (tm_node t a)), timer_expire now now2 a t)
             else (TA_Wait (Some (tn_deadline (tm_node t a))), t))"

definition timer_runtime_request_stop :: "timers \<Rightarrow> timers" where
  "timer_runtime_request_stop t = t\<lparr>tm_stop := True\<rparr>"

text \<open>
  The result of a section: its status or answer, whether it signals \<open>timer_condition\<close>, and the state.
  \<open>ao\<close> is what \<open>calloc\<close> returned; \<open>mem\<close> whether the array can grow.
\<close>

definition timer_wait_register ::
  "addr option \<Rightarrow> bool \<Rightarrow> addr \<Rightarrow> u64 \<Rightarrow> timers \<Rightarrow> dlsm_status \<times> bool \<times> timers" where
  "timer_wait_register ao mem task deadline t = (case ao of
     None \<Rightarrow> (DLSM_GT_E_NOMEM, False, t)
   | Some a \<Rightarrow>
       if tm_stop t \<or> tm_wait t task \<noteq> None then (DLSM_GT_E_STATE, False, t)
       else
         (let node = \<lparr>tn_deadline = deadline, tn_detected = 0, tn_ready = 0, tn_resumed = 0, tn_sequence = tm_sequence t,
                tn_index = None, tn_state = TIMER_WAITING, tn_task = task\<rparr>;
              t1 = t\<lparr>tm_node := (tm_node t)(a := node), tm_sequence := tm_sequence t + 1\<rparr>;
              was_first = (tm_heap t1 = [] \<or> timer_less node (node_at t1 0)) in
          case timer_heap_push mem a t1 of
            None \<Rightarrow> (DLSM_GT_E_NOMEM, False, t1)
          | Some t2 \<Rightarrow>
              (DLSM_OK, was_first,
               t2\<lparr>tm_alloc := insert a (tm_alloc t2), tm_wait := (tm_wait t2)(task \<mapsto> a),
                  tm_registered := tm_registered t2 + 1\<rparr>)))"

definition timer_wait_finish :: "u64 \<Rightarrow> addr \<Rightarrow> addr \<Rightarrow> timers \<Rightarrow> dlsm_status \<times> bool \<times> timers" where
  "timer_wait_finish now task a t =
     (let waiting = (tn_state (tm_node t a) = TIMER_WAITING);
          first = (waiting \<and> tn_index (tm_node t a) = Some 0);
          t1 = (if waiting then timer_cancel_node a t else t);
          expired = (tn_state (tm_node t1 a) = TIMER_EXPIRED);
          late = now - tn_deadline (tm_node t1 a);
          t2 = (if expired \<and> now \<ge> tn_deadline (tm_node t1 a)
                then t1\<lparr>tm_resume_total := tm_resume_total t1 + late, tm_resume_max := stat_max (tm_resume_max t1) late\<rparr>
                else t1);
          t3 = t2\<lparr>tm_wait := (tm_wait t2)(task := None), tm_alloc := tm_alloc t2 - {a}\<rparr> in
      (if expired then DLSM_OK else DLSM_GT_E_CANCELLED, first, t3))"

definition timer_cancel_task_wait :: "addr \<Rightarrow> timers \<Rightarrow> bool \<times> bool \<times> timers" where
  "timer_cancel_task_wait task t = (case tm_wait t task of
     None \<Rightarrow> (False, False, t)
   | Some a \<Rightarrow>
       if tn_state (tm_node t a) = TIMER_WAITING
       then (True, tn_index (tm_node t a) = Some 0, timer_cancel_node a t)
       else (False, False, t))"

section \<open>The timer thread among the waits\<close>

text \<open>The thread runs its loop or waits on the condition, without limit or until a time.\<close>

datatype timer_thread = TT_Run | TT_Wait "u64 option" | TT_Gone

type_synonym tsys = "timers \<times> timer_thread"

definition signalled :: "bool \<Rightarrow> timer_thread \<Rightarrow> timer_thread" where
  "signalled s th = (if s \<and> th \<noteq> TT_Gone then TT_Run else th)"

definition after_round :: "timer_action \<Rightarrow> timer_thread" where
  "after_round act = (case act of TA_Wait d \<Rightarrow> TT_Wait d | TA_Exit \<Rightarrow> TT_Gone | _ \<Rightarrow> TT_Run)"

inductive tstep :: "tsys \<Rightarrow> tsys \<Rightarrow> bool" where
  round: "timer_round now now2 t = (act, t') \<Longrightarrow> tstep (t, TT_Run) (t', after_round act)"
| wake: "tstep (t, TT_Wait d) (t, TT_Run)"
| register: "\<forall>a. ao = Some a \<longrightarrow> a \<notin> tm_alloc t \<Longrightarrow> timer_wait_register ao mem task deadline t = (st, sig, t') \<Longrightarrow>
    tstep (t, th) (t', signalled sig th)"
| finish: "tm_wait t task = Some a \<Longrightarrow> timer_wait_finish now task a t = (st, sig, t') \<Longrightarrow> tstep (t, th) (t', signalled sig th)"
| cancel: "timer_cancel_task_wait task t = (c, sig, t') \<Longrightarrow> tstep (t, th) (t', signalled sig th)"
| stop: "tstep (t, th) (timer_runtime_request_stop t, signalled True th)"

definition timers_init :: timers where
  "timers_init = \<lparr>tm_node = (\<lambda>_. \<lparr>tn_deadline = 0, tn_detected = 0, tn_ready = 0, tn_resumed = 0, tn_sequence = 0,
       tn_index = None, tn_state = TIMER_CANCELLED, tn_task = 0\<rparr>),
     tm_heap = [], tm_capacity = 0, tm_sequence = 0, tm_stop = False, tm_wait = (\<lambda>_. None), tm_alloc = {},
     tm_registered = 0, tm_expired = 0, tm_cancelled = 0, tm_detect_total = 0, tm_detect_max = 0,
     tm_ready_total = 0, tm_ready_max = 0, tm_resume_total = 0, tm_resume_max = 0\<rparr>"

inductive treach :: "tsys \<Rightarrow> bool" where
  init: "treach (timers_init, TT_Run)"
| step: "treach s \<Longrightarrow> tstep s s' \<Longrightarrow> treach s'"

section \<open>The invariant\<close>

definition waits_ok :: "timers \<Rightarrow> bool" where
  "waits_ok t \<longleftrightarrow> heap_ok t \<and> length (tm_heap t) \<le> tm_capacity t \<and>
     (\<forall>a \<in> set (tm_heap t). a \<in> tm_alloc t \<and> tn_state (tm_node t a) = TIMER_WAITING) \<and>
     (\<forall>k a. tm_wait t k = Some a \<longrightarrow> a \<in> tm_alloc t \<and> tn_task (tm_node t a) = k \<and>
        (tn_state (tm_node t a) = TIMER_WAITING \<longrightarrow> a \<in> set (tm_heap t))) \<and>
     (\<forall>a \<in> tm_alloc t. tm_wait t (tn_task (tm_node t a)) = Some a)"

lemma waits_okD:
  assumes "waits_ok t"
  shows "heap_ok t" and "length (tm_heap t) \<le> tm_capacity t"
    and "a \<in> set (tm_heap t) \<Longrightarrow> a \<in> tm_alloc t" and "a \<in> set (tm_heap t) \<Longrightarrow> tn_state (tm_node t a) = TIMER_WAITING"
    and "tm_wait t k = Some a \<Longrightarrow> a \<in> tm_alloc t" and "tm_wait t k = Some a \<Longrightarrow> tn_task (tm_node t a) = k"
    and "tm_wait t k = Some a \<Longrightarrow> tn_state (tm_node t a) = TIMER_WAITING \<Longrightarrow> a \<in> set (tm_heap t)"
    and "a \<in> tm_alloc t \<Longrightarrow> tm_wait t (tn_task (tm_node t a)) = Some a"
  using assms by (auto simp: waits_ok_def)
lemma waits_okI:
  assumes "heap_ok t" and "length (tm_heap t) \<le> tm_capacity t"
    and "\<And>a. a \<in> set (tm_heap t) \<Longrightarrow> a \<in> tm_alloc t \<and> tn_state (tm_node t a) = TIMER_WAITING"
    and "\<And>k a. tm_wait t k = Some a \<Longrightarrow> a \<in> tm_alloc t \<and> tn_task (tm_node t a) = k \<and>
      (tn_state (tm_node t a) = TIMER_WAITING \<longrightarrow> a \<in> set (tm_heap t))"
    and "\<And>a. a \<in> tm_alloc t \<Longrightarrow> tm_wait t (tn_task (tm_node t a)) = Some a"
  shows "waits_ok t"
  using assms by (simp add: waits_ok_def)

lemma heap_ok_cong:
  assumes "tm_heap t' = tm_heap t" and "\<And>a. a \<in> set (tm_heap t) \<Longrightarrow> tm_node t' a = tm_node t a"
  shows "heap_ok t' = heap_ok t"
proof -
  have "keys t' = keys t" unfolding keys_def assms(1) using assms(2) by simp
  moreover have "table_ok t' = table_ok t" unfolding table_ok_def assms(1) using assms(2) by simp
  ultimately show ?thesis by (simp add: heap_ok_def)
qed

lemma heap_index_of:
  assumes "heap_ok t" and "a \<in> set (tm_heap t)"
  obtains i where "i < length (tm_heap t)" and "tn_index (tm_node t a) = Some i" and "tm_heap t ! i = a"
  using assms by (auto simp: heap_ok_def table_ok_def in_set_conv_nth)

lemma remove_effect:
  assumes ok: "heap_ok t" and a: "a \<in> set (tm_heap t)" and r: "t' = snd (timer_heap_remove (tn_index (tm_node t a)) t)"
  shows "heap_ok t'" and "set (tm_heap t') = set (tm_heap t) - {a}" and "length (tm_heap t') < length (tm_heap t)"
    and "tkey (tm_node t' b) = tkey (tm_node t b)" and "tn_state (tm_node t' b) = tn_state (tm_node t b)"
    and "tn_task (tm_node t' b) = tn_task (tm_node t b)" and "tm_wait t' = tm_wait t" and "tm_alloc t' = tm_alloc t"
    and "tm_capacity t' = tm_capacity t" and "tm_stop t' = tm_stop t"
proof -
  obtain i where i: "i < length (tm_heap t)" "tn_index (tm_node t a) = Some i" "tm_heap t ! i = a"
    using heap_index_of [OF ok a] .
  obtain res where r': "timer_heap_remove (Some i) t = (res, t')" using r i(2) by (metis prod.collapse)
  note e = timer_heap_remove_ok [OF ok i(1) r', unfolded i(3)] and f = heap_frameD [OF e(4)]
  show "heap_ok t'" by (fact e(2))
  have "distinct (tm_heap t)" using ok by (simp add: heap_ok_def table_ok_def)
  then have "mset (tm_heap t') = mset (remove1 a (tm_heap t))" "set (remove1 a (tm_heap t)) = set (tm_heap t) - {a}"
    using e(3) by simp_all
  then show "set (tm_heap t') = set (tm_heap t) - {a}" by (metis set_mset_mset)
  have "size (mset (tm_heap t')) < size (mset (tm_heap t))"
    unfolding e(3) using a i(1) by (simp add: size_Diff_singleton)
  then show "length (tm_heap t') < length (tm_heap t)" by simp
  show "tkey (tm_node t' b) = tkey (tm_node t b)" "tn_state (tm_node t' b) = tn_state (tm_node t b)"
    "tn_task (tm_node t' b) = tn_task (tm_node t b)"
    using f(4,5,6) [of b] e(5) by (cases "b = a"; simp add: tkey_def)+
  show "tm_wait t' = tm_wait t" "tm_alloc t' = tm_alloc t" "tm_capacity t' = tm_capacity t" "tm_stop t' = tm_stop t"
    using f(8,10-12) by simp_all
qed

text \<open>A node that leaves the heap, by expiry or cancellation.\<close>

definition leaves :: "addr \<Rightarrow> timers \<Rightarrow> timers \<Rightarrow> bool" where
  "leaves a t t' \<longleftrightarrow> a \<in> set (tm_heap t) \<and> heap_ok t' \<and> set (tm_heap t') = set (tm_heap t) - {a} \<and>
     length (tm_heap t') \<le> length (tm_heap t) \<and> tm_capacity t' = tm_capacity t \<and> tm_alloc t' = tm_alloc t \<and>
     tm_wait t' = tm_wait t \<and> tm_stop t' = tm_stop t \<and> (\<forall>b. tkey (tm_node t' b) = tkey (tm_node t b)) \<and>
     (\<forall>b. tn_task (tm_node t' b) = tn_task (tm_node t b)) \<and> (\<forall>b. b \<noteq> a \<longrightarrow> tn_state (tm_node t' b) = tn_state (tm_node t b)) \<and>
     tn_state (tm_node t' a) \<noteq> TIMER_WAITING"

lemma waits_ok_leaves:
  assumes "waits_ok t" and "leaves a t t'"
  shows "waits_ok t'"
  using assms unfolding waits_ok_def leaves_def by (auto split: if_splits)

lemma leavesI:
  assumes ok: "heap_ok t" and a: "a \<in> set (tm_heap t)" and r: "t1 = snd (timer_heap_remove (tn_index (tm_node t a)) t)"
    and n: "tm_node t' = (tm_node t1)(a := (tm_node t1 a)\<lparr>tn_state := s, tn_detected := x, tn_ready := y\<rparr>)" and s: "s \<noteq> TIMER_WAITING"
    and f: "tm_heap t' = tm_heap t1" "tm_capacity t' = tm_capacity t1" "tm_alloc t' = tm_alloc t1" "tm_wait t' = tm_wait t1" "tm_stop t' = tm_stop t1"
  shows "leaves a t t'"
proof -
  note e = remove_effect [OF ok a r]
  have "heap_ok t' = heap_ok t1" by (rule heap_ok_cong) (use f(1) n e(2) in auto)
  with e f n s a show ?thesis unfolding leaves_def by (auto simp: tkey_def)
qed

lemma root_index: "heap_ok t \<Longrightarrow> tm_heap t = a # rest \<Longrightarrow> tn_index (tm_node t a) = Some 0"
  by (auto simp: heap_ok_def table_ok_def)

lemma cancel_node_leaves:
  assumes "heap_ok t" and "a \<in> set (tm_heap t)"
  shows "leaves a t (timer_cancel_node a t)"
proof -
  let ?t1 = "snd (timer_heap_remove (tn_index (tm_node t a)) t)"
  show ?thesis
    by (rule leavesI [OF assms refl, where s = TIMER_CANCELLED and x = "tn_detected (tm_node ?t1 a)" and y = "tn_ready (tm_node ?t1 a)"])
      (simp_all add: timer_cancel_node_def set_state_def Let_def)
qed

lemma expire_leaves:
  assumes "heap_ok t" and "tm_heap t = a # rest"
  shows "leaves a t (timer_expire now now2 a t)"
  by (rule leavesI [OF assms(1) _ refl, where s = TIMER_EXPIRED and x = now and y = now2])
    (simp_all add: assms(2) root_index [OF assms] timer_expire_def Let_def)

lemma push_capacity:
  assumes "timer_heap_push mem a t = Some t'" and "length (tm_heap t) \<le> tm_capacity t" and "heap_ok t" and "a \<notin> set (tm_heap t)"
  shows "length (tm_heap t') \<le> tm_capacity t'"
proof -
  let ?n = "length (tm_heap t)"
  have "size (mset (tm_heap t')) = ?n + 1" using timer_heap_push_ok(2) [OF assms(3,4,1)] by simp
  then have len: "length (tm_heap t') = ?n + 1" by simp
  have "tm_capacity (timer_heap_up i s) = tm_capacity s" for i s
    by (induction i s rule: timer_heap_up.induct)
      (subst timer_heap_up.simps, simp add: Let_def timer_heap_swap_def set_index_def)
  then have "tm_capacity t' = (if ?n = tm_capacity t then grown_capacity (tm_capacity t) else tm_capacity t)"
    using assms(1) by (auto simp: timer_heap_push_def Let_def set_index_def split: if_splits)
  moreover have "?n = tm_capacity t \<Longrightarrow> tm_capacity t < grown_capacity (tm_capacity t)"
    using assms(1) by (auto simp: timer_heap_push_def Let_def grown_capacity_def split: if_splits)
  ultimately show ?thesis using len assms(2) by (auto split: if_splits)
qed

text \<open>A node that enters the heap for a task that waits for nothing yet.\<close>

definition joins :: "addr \<Rightarrow> addr \<Rightarrow> timers \<Rightarrow> timers \<Rightarrow> bool" where
  "joins a task t t' \<longleftrightarrow> a \<notin> tm_alloc t \<and> tm_wait t task = None \<and> heap_ok t' \<and>
     set (tm_heap t') = insert a (set (tm_heap t)) \<and> length (tm_heap t') \<le> tm_capacity t' \<and>
     tm_alloc t' = insert a (tm_alloc t) \<and> tm_wait t' = (tm_wait t)(task \<mapsto> a) \<and> tm_stop t' = tm_stop t \<and>
     (\<forall>b. b \<noteq> a \<longrightarrow> tkey (tm_node t' b) = tkey (tm_node t b) \<and> tn_state (tm_node t' b) = tn_state (tm_node t b) \<and>
        tn_task (tm_node t' b) = tn_task (tm_node t b)) \<and>
     tn_task (tm_node t' a) = task \<and> tn_state (tm_node t' a) = TIMER_WAITING"

lemma waits_ok_joins:
  assumes ok: "waits_ok t" and j: "joins a task t t'"
  shows "waits_ok t'"
proof -
  note d = waits_okD [OF ok]
  have na: "tm_wait t k \<noteq> Some a" for k using d(5) [of k a] j by (auto simp: joins_def)
  have nt: "b \<in> tm_alloc t \<Longrightarrow> tn_task (tm_node t b) \<noteq> task" for b using d(8) [of b] j by (auto simp: joins_def)
  have same: "b \<in> tm_alloc t \<Longrightarrow> tn_state (tm_node t' b) = tn_state (tm_node t b) \<and> tn_task (tm_node t' b) = tn_task (tm_node t b)" for b
    using j unfolding joins_def by metis
  note j' = j [unfolded joins_def]
  show ?thesis
  proof (rule waits_okI)
    show "b \<in> tm_alloc t' \<and> tn_state (tm_node t' b) = TIMER_WAITING" if "b \<in> set (tm_heap t')" for b
      using that j' same [of b] d(3,4) [of b] by auto
    show "b \<in> tm_alloc t' \<and> tn_task (tm_node t' b) = k \<and> (tn_state (tm_node t' b) = TIMER_WAITING \<longrightarrow> b \<in> set (tm_heap t'))"
      if "tm_wait t' k = Some b" for k b
      using that j' same [of b] d(5-7) [of k b] by (auto split: if_splits)
    show "tm_wait t' (tn_task (tm_node t' b)) = Some b" if "b \<in> tm_alloc t'" for b
      using that j' same [of b] nt [of b] d(8) [of b] by (cases "b = a") auto
  qed (use j' in simp_all)
qed

lemma register_ok:
  assumes ok: "waits_ok t" and fresh: "\<forall>a. ao = Some a \<longrightarrow> a \<notin> tm_alloc t"
    and r: "timer_wait_register ao mem task deadline t = (st, sig, t')"
  shows "waits_ok t'" and "tm_stop t' = tm_stop t"
    and "\<not> sig \<Longrightarrow> tm_heap t \<noteq> [] \<Longrightarrow> tm_heap t' \<noteq> [] \<and> (\<forall>b \<in> set (tm_heap t'). \<exists>c \<in> set (tm_heap t). tn_deadline (tm_node t c) \<le> tn_deadline (tm_node t' b))"
    and "\<not> sig \<Longrightarrow> tm_heap t = [] \<Longrightarrow> tm_heap t' = []"
proof -
  have "waits_ok t' \<and> tm_stop t' = tm_stop t \<and>
    (\<not> sig \<and> tm_heap t \<noteq> [] \<longrightarrow> tm_heap t' \<noteq> [] \<and> (\<forall>b \<in> set (tm_heap t'). \<exists>c \<in> set (tm_heap t). tn_deadline (tm_node t c) \<le> tn_deadline (tm_node t' b))) \<and>
    (\<not> sig \<and> tm_heap t = [] \<longrightarrow> tm_heap t' = [])"
  proof (cases "ao = None \<or> tm_stop t \<or> tm_wait t task \<noteq> None")
    case True
    with r have "t' = t" by (auto simp: timer_wait_register_def split: option.splits)
    with ok show ?thesis by auto
  next
    case False
    then obtain a where a: "ao = Some a" and st: "\<not> tm_stop t" "tm_wait t task = None" by auto
    have na: "a \<notin> tm_alloc t" "a \<notin> set (tm_heap t)" using fresh a waits_okD(3) [OF ok, of a] by auto
    define node where "node = \<lparr>tn_deadline = deadline, tn_detected = 0, tn_ready = 0, tn_resumed = 0, tn_sequence = tm_sequence t,
                tn_index = None, tn_state = TIMER_WAITING, tn_task = task\<rparr>"
    define t1 where "t1 = t\<lparr>tm_node := (tm_node t)(a := node), tm_sequence := tm_sequence t + 1\<rparr>"
    have n1: "tm_node t1 b = tm_node t b" if "b \<noteq> a" for b using that by (simp add: t1_def)
    have f1: "tm_heap t1 = tm_heap t" "tm_wait t1 = tm_wait t" "tm_alloc t1 = tm_alloc t" "tm_stop t1 = tm_stop t"
      "tm_capacity t1 = tm_capacity t" by (simp_all add: t1_def)
    have h1: "heap_ok t1" using waits_okD(1) [OF ok] heap_ok_cong [of t1 t] na(2) n1 f1(1) by metis
    have wa: "tm_wait t k \<noteq> Some a" for k using waits_okD(5) [OF ok, of k a] na(1) by auto
    show ?thesis
    proof (cases "timer_heap_push mem a t1")
      case None
      with r False a have "t' = t1" by (auto simp: timer_wait_register_def Let_def node_def t1_def)
      moreover have "waits_ok t1"
        unfolding waits_ok_def using h1 waits_okD(2-8) [OF ok] na wa n1 f1 by (auto, metis+)
      ultimately show ?thesis using f1 n1 na(2) by fastforce
    next
      case (Some t2)
      with r False a have t': "t' = t2\<lparr>tm_alloc := insert a (tm_alloc t2), tm_wait := (tm_wait t2)(task \<mapsto> a),
          tm_registered := tm_registered t2 + 1\<rparr>" and sig: "sig = (tm_heap t1 = [] \<or> timer_less node (node_at t1 0))"
        by (auto simp: timer_wait_register_def Let_def node_def t1_def)
      have na1: "a \<notin> set (tm_heap t1)" using na(2) f1 by simp
      note p = timer_heap_push_ok [OF h1 na1 Some] and fr = heap_frameD [OF timer_heap_push_ok(3) [OF h1 na1 Some]]
      have hp: "set (tm_heap t') = insert a (set (tm_heap t))"
        using arg_cong [OF p(2), of set_mset] f1(1) t' by simp
      have nodes: "tkey (tm_node t' b) = tkey (tm_node t1 b)" "tn_state (tm_node t' b) = tn_state (tm_node t1 b)"
        "tn_task (tm_node t' b) = tn_task (tm_node t1 b)" for b using fr(4-6) [of b] t' by simp_all
      have na': "tm_node t1 a = node" by (simp add: t1_def)
      have "heap_ok t'" using p(1) heap_ok_cong [of t' t2] t' by simp
      moreover have "length (tm_heap t') \<le> tm_capacity t'"
        using push_capacity [OF Some _ h1 na1] waits_okD(2) [OF ok] f1 t' by simp
      ultimately have j: "joins a task t t'"
        unfolding joins_def using na(1) st hp nodes n1 na' fr(10-12) f1 t' by (simp add: node_def)
      have "tn_deadline (tm_node t (tm_heap t ! 0)) \<le> deadline" if "\<not> sig" "tm_heap t \<noteq> []"
      proof -
        have "tm_heap t ! 0 \<noteq> a" using na(2) that(2) nth_mem [of 0 "tm_heap t"] by auto
        with sig that f1(1) n1 show ?thesis by (auto simp: timer_less_def node_def)
      qed
      moreover have "tn_deadline (tm_node t' b) = (if b = a then deadline else tn_deadline (tm_node t b))" for b
        using nodes(1) [of b] n1 [of b] na' by (auto simp: tkey_def node_def)
      moreover have "tm_heap t' \<noteq> []" using hp by auto
      moreover have "tm_heap t = [] \<Longrightarrow> sig" using sig f1(1) by simp
      ultimately show ?thesis using waits_ok_joins [OF ok j] hp j nth_mem [of 0 "tm_heap t"]
        by (auto simp: joins_def)
    qed
  qed
  then show "waits_ok t'" "tm_stop t' = tm_stop t"
    "\<not> sig \<Longrightarrow> tm_heap t \<noteq> [] \<Longrightarrow> tm_heap t' \<noteq> [] \<and> (\<forall>b \<in> set (tm_heap t'). \<exists>c \<in> set (tm_heap t). tn_deadline (tm_node t c) \<le> tn_deadline (tm_node t' b))"
    "\<not> sig \<Longrightarrow> tm_heap t = [] \<Longrightarrow> tm_heap t' = []" by blast+
qed

text \<open>The end of a wait: the node is released, out of the heap.\<close>

lemma waits_ok_free:
  assumes ok: "waits_ok t" and w: "tm_wait t task = Some a" and na: "a \<notin> set (tm_heap t)"
    and t': "tm_heap t' = tm_heap t" "tm_node t' = tm_node t" "tm_capacity t' = tm_capacity t"
      "tm_wait t' = (tm_wait t)(task := None)" "tm_alloc t' = tm_alloc t - {a}"
  shows "waits_ok t'"
proof (rule waits_okI)
  note d = waits_okD [OF ok]
  show "heap_ok t'" using d(1) heap_ok_cong [of t' t] t' by simp
  show "length (tm_heap t') \<le> tm_capacity t'" using d(2) t' by simp
  show "b \<in> tm_alloc t' \<and> tn_state (tm_node t' b) = TIMER_WAITING" if "b \<in> set (tm_heap t')" for b
    using that d(3,4) [of b] na t' by auto
  show "b \<in> tm_alloc t' \<and> tn_task (tm_node t' b) = k \<and> (tn_state (tm_node t' b) = TIMER_WAITING \<longrightarrow> b \<in> set (tm_heap t'))"
    if "tm_wait t' k = Some b" for k b
    using that d(5-7) [of k b] d(6) [OF w] t' by (auto split: if_splits)
  show "tm_wait t' (tn_task (tm_node t' b)) = Some b" if "b \<in> tm_alloc t'" for b
  proof -
    have b: "b \<in> tm_alloc t" "b \<noteq> a" using that t'(5) by simp_all
    then have "tn_task (tm_node t b) \<noteq> task" using d(8) [OF b(1)] w by auto
    with d(8) [OF b(1)] show ?thesis unfolding t'(2,4) by simp
  qed
qed

lemma finish_ok:
  assumes ok: "waits_ok t" and w: "tm_wait t task = Some a" and f: "timer_wait_finish now task a t = (st, sig, t')"
  shows "waits_ok t'" and "set (tm_heap t') = set (tm_heap t) - {a}" and "tm_stop t' = tm_stop t"
    and "tkey (tm_node t' b) = tkey (tm_node t b)" and "sig \<longleftrightarrow> a \<in> set (tm_heap t) \<and> tm_heap t ! 0 = a"
    and "a \<notin> tm_alloc t'"
proof -
  define t1 where "t1 = (if tn_state (tm_node t a) = TIMER_WAITING then timer_cancel_node a t else t)"
  have sig: "sig = (tn_state (tm_node t a) = TIMER_WAITING \<and> tn_index (tm_node t a) = Some 0)"
    using f by (simp add: timer_wait_finish_def Let_def)
  have t': "tm_heap t' = tm_heap t1" "tm_node t' = tm_node t1" "tm_capacity t' = tm_capacity t1" "tm_stop t' = tm_stop t1"
    "tm_wait t' = (tm_wait t1)(task := None)" "tm_alloc t' = tm_alloc t1 - {a}"
    using f [unfolded timer_wait_finish_def Let_def, folded t1_def] by (auto split: if_splits)
  have iff: "tn_state (tm_node t a) = TIMER_WAITING \<longleftrightarrow> a \<in> set (tm_heap t)" using waits_okD(4,7) [OF ok] w by blast
  have l: "leaves a t t1 \<or> t1 = t \<and> a \<notin> set (tm_heap t)"
    using cancel_node_leaves [OF waits_okD(1) [OF ok]] iff by (auto simp: t1_def)
  have w1: "waits_ok t1" "tm_wait t1 task = Some a" "a \<notin> set (tm_heap t1)" "set (tm_heap t1) = set (tm_heap t) - {a}"
    "tm_stop t1 = tm_stop t" "tkey (tm_node t1 b) = tkey (tm_node t b)"
    using l ok w waits_ok_leaves [OF ok] by (auto simp: leaves_def)
  show "waits_ok t'" using waits_ok_free [OF w1(1-3) t'(1-3,5,6)] .
  show "set (tm_heap t') = set (tm_heap t) - {a}" "tm_stop t' = tm_stop t" "tkey (tm_node t' b) = tkey (tm_node t b)" "a \<notin> tm_alloc t'"
    using w1 t' by simp_all
  show "sig \<longleftrightarrow> a \<in> set (tm_heap t) \<and> tm_heap t ! 0 = a"
  proof (cases "a \<in> set (tm_heap t)")
    case True
    then obtain i where i: "i < length (tm_heap t)" "tn_index (tm_node t a) = Some i" "tm_heap t ! i = a"
      using heap_index_of [OF waits_okD(1) [OF ok]] by blast
    have "distinct (tm_heap t)" using waits_okD(1) [OF ok] by (simp add: heap_ok_def table_ok_def)
    then have "tm_heap t ! 0 = a \<longleftrightarrow> i = 0" using i by (metis nth_eq_iff_index_eq gr_zeroI not_less0)
    with True sig iff i(2) show ?thesis by simp
  qed (use sig iff in simp)
qed

section \<open>The timer thread does not oversleep\<close>

fun thread_ok :: "timers \<Rightarrow> timer_thread \<Rightarrow> bool" where
  "thread_ok t TT_Run \<longleftrightarrow> True"
| "thread_ok t (TT_Wait None) \<longleftrightarrow> tm_heap t = [] \<and> \<not> tm_stop t"
| "thread_ok t (TT_Wait (Some d)) \<longleftrightarrow> tm_heap t \<noteq> [] \<and> \<not> tm_stop t \<and> (\<forall>a \<in> set (tm_heap t). d \<le> tn_deadline (tm_node t a))"
| "thread_ok t TT_Gone \<longleftrightarrow> tm_heap t = [] \<and> tm_stop t"

lemma tkey_deadline: "tkey n = tkey n' \<Longrightarrow> tn_deadline n = tn_deadline n'"
  by (simp add: tkey_def)

lemma root_deadline_least:
  assumes "heap_ok t" and "a \<in> set (tm_heap t)"
  shows "tkey (tm_node t (tm_heap t ! 0)) \<le> tkey (tm_node t a)"
    and "tn_deadline (tm_node t (tm_heap t ! 0)) \<le> tn_deadline (tm_node t a)"
proof -
  obtain i where i: "i < length (tm_heap t)" "tm_heap t ! i = a" using assms(2) by (auto simp: in_set_conv_nth)
  have "keys t ! 0 \<le> keys t ! i" using heap_root_least [of "keys t" i] assms(1) i(1) by (simp add: heap_ok_def)
  then show k: "tkey (tm_node t (tm_heap t ! 0)) \<le> tkey (tm_node t a)"
    using i nth_keys [of 0 t] nth_keys [of i t] by (cases "tm_heap t") auto
  then show "tn_deadline (tm_node t (tm_heap t ! 0)) \<le> tn_deadline (tm_node t a)"
    by (auto simp: tkey_def less_eq_prod_def less_prod_def' less_imp_le)
qed

text \<open>A node other than the root leaves, or the thread is signalled.\<close>

lemma thread_ok_shrink:
  assumes ok: "thread_ok t th" and hp: "set (tm_heap t') = set (tm_heap t) - {a}" and st: "tm_stop t' = tm_stop t"
    and ks: "\<And>b. tkey (tm_node t' b) = tkey (tm_node t b)" and sig: "sig \<longleftrightarrow> a \<in> set (tm_heap t) \<and> tm_heap t ! 0 = a"
  shows "thread_ok t' (signalled sig th)"
proof -
  have dl: "tn_deadline (tm_node t' b) = tn_deadline (tm_node t b)" for b using ks tkey_deadline by blast
  consider "signalled sig th = TT_Run" | "th = TT_Gone \<or> th = TT_Wait None" | d where "th = TT_Wait (Some d)" "\<not> sig"
    by (metis option.exhaust signalled_def timer_thread.exhaust)
  then show ?thesis
  proof cases
    case 2
    then have "tm_heap t = []" using ok by auto
    then have "tm_heap t' = []" "\<not> sig" using hp sig by simp_all
    with 2 ok st show ?thesis by (auto simp: signalled_def)
  next
    case 3
    then have "tm_heap t \<noteq> []" using ok by simp
    then have "tm_heap t ! 0 \<in> set (tm_heap t)" by simp
    then have "tm_heap t ! 0 \<in> set (tm_heap t')" unfolding hp using 3(2) sig by auto
    then have "tm_heap t' \<noteq> []" by auto
    with 3 ok hp st dl show ?thesis by (simp add: signalled_def)
  qed simp
qed

lemma cancel_wait_ok:
  assumes ok: "waits_ok t" and c: "timer_cancel_task_wait task t = (c, sig, t')"
  shows "waits_ok t' \<and> tm_stop t' = tm_stop t \<and> (\<exists>a. set (tm_heap t') = set (tm_heap t) - {a} \<and>
      (sig \<longleftrightarrow> a \<in> set (tm_heap t) \<and> tm_heap t ! 0 = a)) \<and> (\<forall>b. tkey (tm_node t' b) = tkey (tm_node t b))"
proof (cases "\<exists>a. tm_wait t task = Some a \<and> tn_state (tm_node t a) = TIMER_WAITING")
  case True
  then obtain a where a: "tm_wait t task = Some a" "tn_state (tm_node t a) = TIMER_WAITING" by blast
  then have ah: "a \<in> set (tm_heap t)" using waits_okD(7) [OF ok] by blast
  have c': "t' = timer_cancel_node a t" "sig = (tn_index (tm_node t a) = Some 0)"
    using c a by (auto simp: timer_cancel_task_wait_def)
  have l: "leaves a t t'" unfolding c'(1) by (rule cancel_node_leaves [OF waits_okD(1) [OF ok] ah])
  obtain i where i: "i < length (tm_heap t)" "tn_index (tm_node t a) = Some i" "tm_heap t ! i = a"
    using heap_index_of [OF waits_okD(1) [OF ok] ah] .
  have "distinct (tm_heap t)" using waits_okD(1) [OF ok] by (simp add: heap_ok_def table_ok_def)
  then have "tm_heap t ! 0 = a \<longleftrightarrow> i = 0" using i by (metis nth_eq_iff_index_eq gr_zeroI not_less0)
  with c'(2) i(2) ah l waits_ok_leaves [OF ok l] show ?thesis by (auto simp: leaves_def intro!: exI [of _ a])
next
  case False
  with c have "t' = t" "\<not> sig" by (auto simp: timer_cancel_task_wait_def split: option.splits if_splits)
  moreover obtain a where "a \<notin> set (tm_heap t)" using ex_new_if_finite [OF infinite_UNIV_nat finite_set] by blast
  ultimately show ?thesis using ok by auto
qed

lemma round_ok:
  assumes ok: "waits_ok t" and r: "timer_round now now2 t = (act, t')"
  shows "waits_ok t'" and "thread_ok t' (after_round act)"
proof -
  note h = waits_okD(1) [OF ok]
  have can: "leaves a t ((set_state a TIMER_CANCELLED (snd (timer_heap_remove (Some 0) t)))\<lparr>tm_cancelled := n\<rparr>)"
    if "tm_heap t = a # rest" for a rest n
    by (rule leavesI [OF h _ refl, where s = TIMER_CANCELLED and x = "tn_detected (tm_node (snd (timer_heap_remove (Some 0) t)) a)"
          and y = "tn_ready (tm_node (snd (timer_heap_remove (Some 0) t)) a)"])
      (simp_all add: that root_index [OF h that] set_state_def)
  show "waits_ok t'"
  proof (cases "tm_heap t")
    case Nil
    with r ok show ?thesis by (auto simp: timer_round_def split: if_splits)
  next
    case (Cons a rest)
    from waits_ok_leaves [OF ok can [OF Cons]] waits_ok_leaves [OF ok expire_leaves [OF h Cons, of now now2]] r ok Cons
    show ?thesis by (auto simp: timer_round_def Let_def split: if_splits)
  qed
  show "thread_ok t' (after_round act)"
  proof (cases "\<exists>d. act = TA_Wait (Some d)")
    case True
    then obtain a rest where "tm_heap t = a # rest" "t' = t" "act = TA_Wait (Some (tn_deadline (tm_node t a)))" "\<not> tm_stop t"
      using r by (auto simp: timer_round_def split: if_splits list.splits)
    with root_deadline_least(2) [OF h] show ?thesis by (auto simp: after_round_def)
  next
    case False
    with r show ?thesis by (auto simp: timer_round_def after_round_def Let_def split: if_splits list.splits)
  qed
qed

lemma tstep_ok:
  assumes "tstep s s'" and "waits_ok (fst s)" and "thread_ok (fst s) (snd s)"
  shows "waits_ok (fst s') \<and> thread_ok (fst s') (snd s')"
  using assms
proof (induction rule: tstep.induct)
  case (round now now2 t act t')
  then show ?case using round_ok by simp
next
  case (register ao t mem task deadline st sig t' th)
  note r = register_ok [OF _ register(1,2)]
  have "thread_ok t' (signalled sig th)"
  proof (cases "signalled sig th = TT_Run")
    case False
    then consider "th = TT_Gone" | "th = TT_Wait None" "\<not> sig" | d where "th = TT_Wait (Some d)" "\<not> sig"
      by (metis option.exhaust signalled_def timer_thread.exhaust)
    then show ?thesis
    proof cases
      case 1
      then have "t' = t" using register by (auto simp: timer_wait_register_def split: option.splits)
      with 1 register show ?thesis by (simp add: signalled_def)
    next
      case 2
      with register r(2,4) show ?thesis by (simp add: signalled_def)
    next
      case 3
      with register r(2,3) show ?thesis by (fastforce simp: signalled_def intro: order_trans)
    qed
  qed simp
  with r(1) register show ?case by simp
next
  case (finish t task a now st sig t' th)
  note f = finish_ok [OF _ finish(1,2)]
  from finish f(1) thread_ok_shrink [OF _ f(2,3) f(4) f(5)] show ?case by simp
next
  case (cancel task t c sig t' th)
  from cancel cancel_wait_ok [OF _ cancel(1)] thread_ok_shrink [of t th t' _ sig] show ?case by auto
next
  case (stop t th)
  then show ?case
    by (cases th) (auto simp: timer_runtime_request_stop_def signalled_def waits_ok_def heap_ok_cong [of "t\<lparr>tm_stop := True\<rparr>" t])
qed simp

lemma treach_ok: "treach s \<Longrightarrow> waits_ok (fst s) \<and> thread_ok (fst s) (snd s)"
proof (induction rule: treach.induct)
  case init
  show ?case by (simp add: waits_ok_def timers_init_def heap_ok_def table_ok_def keys_def heap_list_def)
next
  case (step s s')
  then show ?case using tstep_ok by blast
qed

definition one_timer :: timers where
  "one_timer = snd (snd (timer_wait_register (Some 7) True 3 50 timers_init))"

lemma timer_heap_up_0 [simp]: "timer_heap_up 0 t = t"
  by (subst timer_heap_up.simps) simp

lemma one_timer_facts:
  "tm_heap one_timer = [7]" "tn_deadline (tm_node one_timer 7) = 50" "tn_task (tm_node one_timer 7) = 3"
  "tm_wait one_timer 3 = Some 7" "\<not> tm_stop one_timer"
  by (simp_all add: one_timer_def timer_wait_register_def timer_heap_push_def Let_def timers_init_def
      set_index_def grown_capacity_def)

lemma one_timer_reachable: "treach (one_timer, TT_Run)"
proof -
  obtain st sig t' where r: "timer_wait_register (Some 7) True 3 50 timers_init = (st, sig, t')" by (metis prod_cases3)
  have "tstep (timers_init, TT_Run) (t', signalled sig TT_Run)"
    by (rule tstep.register [OF _ r]) (simp add: timers_init_def)
  moreover have "t' = one_timer" "signalled sig TT_Run = TT_Run" using r by (simp_all add: one_timer_def signalled_def)
  ultimately show ?thesis using treach.intros by metis
qed

section \<open>What the timers promise\<close>

text \<open>
  In every interleaving of registrations, completions, cancellations, stop requests and
  rounds of the timer thread: a round fires only a node that is due, the least one by deadline and
  order of registration, takes exactly it out of the heap and marks it expired; and a round that
  goes to wait leaves no node that is due.
\<close>

theorem timer_round_exact:
  assumes "treach (t, th)" and "timer_round now now2 t = (act, t')" and "now \<noteq> 0" and "\<not> tm_stop t"
  shows "(\<forall>k. act = TA_Fire k \<longrightarrow> (\<exists>a \<in> set (tm_heap t). tn_task (tm_node t a) = k \<and> tn_deadline (tm_node t a) \<le> now \<and>
        (\<forall>b \<in> set (tm_heap t). tkey (tm_node t a) \<le> tkey (tm_node t b)) \<and>
        set (tm_heap t') = set (tm_heap t) - {a} \<and> tn_state (tm_node t' a) = TIMER_EXPIRED)) \<and>
    (\<forall>d. act = TA_Wait d \<longrightarrow> t' = t \<and> (\<forall>b \<in> set (tm_heap t). now < tn_deadline (tm_node t b)))"
proof -
  have ok: "waits_ok t" using treach_ok [OF assms(1)] by simp
  note h = waits_okD(1) [OF ok]
  show ?thesis
  proof (cases "tm_heap t")
    case Nil
    with assms(2,4) show ?thesis by (auto simp: timer_round_def)
  next
    case (Cons a rest)
    have least: "\<forall>b \<in> set (tm_heap t). tkey (tm_node t a) \<le> tkey (tm_node t b) \<and> tn_deadline (tm_node t a) \<le> tn_deadline (tm_node t b)"
      using root_deadline_least [OF h] Cons by simp
    have ex: "set (tm_heap (timer_expire now now2 a t)) = set (tm_heap t) - {a}"
      using expire_leaves [OF h Cons, of now now2] by (simp add: leaves_def)
    have st: "tn_state (tm_node (timer_expire now now2 a t) a) = TIMER_EXPIRED" by (simp add: timer_expire_def Let_def)
    show ?thesis
    proof (cases "now \<ge> tn_deadline (tm_node t a)")
      case True
      then have "act = TA_Fire (tn_task (tm_node t a))" "t' = timer_expire now now2 a t"
        using assms(2-4) Cons by (simp_all add: timer_round_def)
      with least ex st True Cons show ?thesis by auto
    next
      case False
      then have "act = TA_Wait (Some (tn_deadline (tm_node t a)))" "t' = t"
        using assms(2-4) Cons by (auto simp: timer_round_def)
      with least False show ?thesis by auto
    qed
  qed
qed

theorem timer_round_exact_witness:
  "\<exists>t'. timer_round 60 61 one_timer = (TA_Fire 3, t') \<and> tm_heap t' = []"
proof -
  obtain t' where r: "timer_round 60 61 one_timer = (TA_Fire 3, t')"
    by (simp add: timer_round_def one_timer_facts)
  from timer_round_exact [OF one_timer_reachable r] show ?thesis using r by (simp add: one_timer_facts)
qed

text \<open>
  Claim C40. The timer thread never oversleeps: whenever it waits, no stop has been requested, and it
  waits at most until the earliest deadline in the heap, without limit only when the heap is empty.
\<close>

theorem timer_thread_not_late:
  assumes "treach (t, TT_Wait d)"
  shows "\<not> tm_stop t \<and> (d = None \<longrightarrow> tm_heap t = []) \<and>
    (\<forall>x a. d = Some x \<and> a \<in> set (tm_heap t) \<longrightarrow> x \<le> tn_deadline (tm_node t a))"
  using treach_ok [OF assms] by (cases d) auto

theorem timer_thread_not_late_witness:
  "treach (one_timer, TT_Wait (Some 50)) \<and> 7 \<in> set (tm_heap one_timer) \<and> 50 \<le> tn_deadline (tm_node one_timer 7)"
proof -
  have "timer_round 10 10 one_timer = (TA_Wait (Some 50), one_timer)" by (simp add: timer_round_def one_timer_facts)
  from treach.step [OF one_timer_reachable tstep.round [OF this]]
  have r: "treach (one_timer, TT_Wait (Some 50))" by (simp add: after_round_def)
  with timer_thread_not_late [OF r] show ?thesis by (simp add: one_timer_facts)
qed

text \<open>
  No timer node is used after it is freed: every node in the heap is allocated, waiting and
  recorded at its own index, the array has room for the heap, and the end of a wait takes its node out of
  the heap before releasing it.
\<close>

theorem timer_nodes_live:
  assumes "treach (t, th)"
  shows "set (tm_heap t) \<subseteq> tm_alloc t \<and> length (tm_heap t) \<le> tm_capacity t \<and>
    (\<forall>i < length (tm_heap t). tn_index (node_at t i) = Some i \<and> tn_state (node_at t i) = TIMER_WAITING) \<and>
    (\<forall>k a now st sig t'. tm_wait t k = Some a \<and> timer_wait_finish now k a t = (st, sig, t') \<longrightarrow>
       a \<notin> set (tm_heap t') \<and> a \<notin> tm_alloc t' \<and> tm_wait t' k = None)"
proof -
  have ok: "waits_ok t" using treach_ok [OF assms] by simp
  have "tm_wait t' k = None" if "timer_wait_finish now k a t = (st, sig, t')" for k a now st sig t'
    using that by (auto simp: timer_wait_finish_def Let_def)
  with ok finish_ok(2,6) [OF ok] show ?thesis
    using waits_okD(1-4) [OF ok] by (auto simp: heap_ok_def table_ok_def)
qed

theorem timer_nodes_live_witness:
  "set (tm_heap one_timer) \<subseteq> tm_alloc one_timer \<and>
     7 \<notin> set (tm_heap (snd (snd (timer_wait_finish 20 3 7 one_timer))))"
  using timer_nodes_live [OF one_timer_reachable] one_timer_facts(4) by (metis prod.collapse)

end
