(* ===== verification/Gt_Sched.thy ===== *)
theory Gt_Sched
  imports Gt_Queue Gt_Sleep
begin

text \<open>
  The scheduler of the green-thread runtime (\<^verbatim>\<open>libs/greenthread/src/greenthread.c\<close>): tasks, virtual
  processors, and every operation that moves a task between its states: \<open>dlsm_gt_spawn_ex\<close> (routing),
  \<open>vp_try_priority\<close> and \<open>vp_try_next\<close>, \<open>rt_enqueue\<close>, \<open>rt_park\<close>, the state change of \<open>rt_task_done\<close> and
  \<open>dlsm_gt_unpark\<close>. What one critical section under a task's or a queue's ticket lock does is one function.
  The clock readings are arguments. \<open>DLSM_GT_VP_ANY\<close> and a negative \<open>last_vp_id\<close> are \<open>None\<close>.
\<close>

section \<open>Data\<close>

datatype task_state = ST_NEW | ST_READY | ST_RUNNING | ST_PARKED | ST_FINISHED

abbreviation DLSM_GT_PRIORITY_LEVELS :: nat where "DLSM_GT_PRIORITY_LEVELS \<equiv> 8"
abbreviation DLSM_GT_PRIORITY_BURST :: nat where "DLSM_GT_PRIORITY_BURST \<equiv> 64"
abbreviation DLSM_GT_LOCAL_BURST :: nat where "DLSM_GT_LOCAL_BURST \<equiv> 64"

record gt_task =
  t_state :: task_state
  t_unpark_pending :: bool
  t_priority :: nat
  t_group :: nat
  t_vp :: "nat option"
  t_last_vp :: "nat option"
  t_dispatch_started :: u64
  t_ready_since :: u64
  t_reported :: bool

record vp =
  v_group :: nat
  v_current :: "addr option"
  v_last_yielded :: "addr option"
  v_local_burst :: "nat \<Rightarrow> nat"
  v_priority_dispatches :: nat
  v_aging_cursor :: nat
  v_dispatches :: u64
  v_steals :: u64
  v_migrations :: u64

record sched_stats =
  st_spawned :: u64
  st_finished :: u64
  st_switches :: u64
  st_yields :: u64
  st_max_ready_wait :: u64
  st_aged :: u64
  st_parks :: u64
  st_unparks :: u64
  st_steals :: u64
  st_migrations :: u64
  st_ready :: u64
  st_running :: u64
  st_parked :: u64

record sched =
  s_rq :: runq
  s_task :: "addr \<Rightarrow> gt_task"
  s_vp :: "nat \<Rightarrow> vp"
  s_nvp :: nat
  s_stats :: sched_stats

definition upd_task :: "addr \<Rightarrow> (gt_task \<Rightarrow> gt_task) \<Rightarrow> sched \<Rightarrow> sched" where
  "upd_task t f s = s\<lparr>s_task := (s_task s)(t := f (s_task s t))\<rparr>"

definition upd_vp :: "nat \<Rightarrow> (vp \<Rightarrow> vp) \<Rightarrow> sched \<Rightarrow> sched" where
  "upd_vp v f s = s\<lparr>s_vp := (s_vp s)(v := f (s_vp s v))\<rparr>"

definition upd_stats :: "(sched_stats \<Rightarrow> sched_stats) \<Rightarrow> sched \<Rightarrow> sched" where
  "upd_stats f s = s\<lparr>s_stats := f (s_stats s)\<rparr>"

definition set_burst :: "nat \<Rightarrow> nat \<Rightarrow> nat \<Rightarrow> sched \<Rightarrow> sched" where
  "set_burst v p n = upd_vp v (\<lambda>w. w\<lparr>v_local_burst := (v_local_burst w)(p := n)\<rparr>)"

lemma upd_sel [simp]:
  "s_rq (upd_task t f s) = s_rq s" "s_task (upd_task t f s) = (s_task s)(t := f (s_task s t))"
  "s_vp (upd_task t f s) = s_vp s" "s_nvp (upd_task t f s) = s_nvp s" "s_stats (upd_task t f s) = s_stats s"
  "s_rq (upd_vp v g s) = s_rq s" "s_task (upd_vp v g s) = s_task s"
  "s_vp (upd_vp v g s) = (s_vp s)(v := g (s_vp s v))" "s_nvp (upd_vp v g s) = s_nvp s" "s_stats (upd_vp v g s) = s_stats s"
  "s_rq (upd_stats h s) = s_rq s" "s_task (upd_stats h s) = s_task s"
  "s_vp (upd_stats h s) = s_vp s" "s_nvp (upd_stats h s) = s_nvp s" "s_stats (upd_stats h s) = h (s_stats s)"
  by (simp_all add: upd_task_def upd_vp_def upd_stats_def)

section \<open>Choosing the next task\<close>

text \<open>One attempt at a queue: the operation on the queue, and what the scheduler notes when it gave a task.\<close>

definition try_queue :: "(runq \<Rightarrow> addr option \<times> runq) \<Rightarrow> (sched \<Rightarrow> sched) \<Rightarrow> sched \<Rightarrow> addr option \<times> sched" where
  "try_queue op note s = (case op (s_rq s) of
     (None, r) \<Rightarrow> (None, s\<lparr>s_rq := r\<rparr>) | (Some t, r) \<Rightarrow> (Some t, note (s\<lparr>s_rq := r\<rparr>)))"

definition or_try :: "addr option \<times> sched \<Rightarrow> (sched \<Rightarrow> addr option \<times> sched) \<Rightarrow> addr option \<times> sched" where
  "or_try res f = (case res of (Some t, s) \<Rightarrow> (Some t, s) | (None, s) \<Rightarrow> f s)"

definition try_local_burst :: "nat \<Rightarrow> nat \<Rightarrow> addr option \<Rightarrow> sched \<Rightarrow> addr option \<times> sched" where
  "try_local_burst v p avoid s =
     (if v_local_burst (s_vp s v) p < DLSM_GT_LOCAL_BURST
      then try_queue (task_queue_pop_unless (Local v p) avoid) (set_burst v p (v_local_burst (s_vp s v) p + 1)) s
      else (None, s))"

primrec steal_loop :: "nat \<Rightarrow> nat \<Rightarrow> nat \<Rightarrow> sched \<Rightarrow> addr option \<times> sched" where
  "steal_loop v p 0 s = (None, s)"
| "steal_loop v p (Suc k) s =
     (let victim = (v + (s_nvp s - Suc k)) mod s_nvp s in
      if v_group (s_vp s victim) = v_group (s_vp s v)
      then or_try (try_queue (task_queue_steal_surplus (Local victim p)) id s) (steal_loop v p k)
      else steal_loop v p k s)"

definition try_own_queues :: "nat \<Rightarrow> nat \<Rightarrow> addr option \<Rightarrow> sched \<Rightarrow> addr option \<times> sched" where
  "try_own_queues v p avoid s =
     or_try (or_try (or_try (or_try (or_try (
       try_queue (task_queue_pop_unless (Bound v p) avoid) id s)
       (try_local_burst v p avoid))
       (try_queue (task_queue_pop (Group (v_group (s_vp s v)) p)) (set_burst v p 0)))
       (try_queue (task_queue_pop_unless (Local v p) avoid) (set_burst v p 1)))
       (try_queue (task_queue_pop (Bound v p)) id))
       (try_queue (task_queue_pop (Local v p)) (set_burst v p 1))"

text \<open>The second component is the flag \<open>*stolen\<close>.\<close>

definition vp_try_priority :: "nat \<Rightarrow> nat \<Rightarrow> addr option \<Rightarrow> sched \<Rightarrow> addr option \<times> bool \<times> sched" where
  "vp_try_priority v p avoid s = (case try_own_queues v p avoid s of
     (Some t, s1) \<Rightarrow> (Some t, False, s1)
   | (None, s1) \<Rightarrow> (case steal_loop v p (s_nvp s1 - 1) s1 of (to, s2) \<Rightarrow> (to, to \<noteq> None, s2)))"

definition aging_priority :: "nat \<Rightarrow> nat \<Rightarrow> nat" where
  "aging_priority cursor offset = 1 + (cursor - 1 + offset) mod (DLSM_GT_PRIORITY_LEVELS - 1)"

definition next_cursor :: "nat \<Rightarrow> nat" where
  "next_cursor p = (if p + 1 \<ge> DLSM_GT_PRIORITY_LEVELS then 1 else p + 1)"

primrec aging_loop :: "nat \<Rightarrow> addr option \<Rightarrow> nat \<Rightarrow> sched \<Rightarrow> addr option \<times> bool \<times> sched" where
  "aging_loop v avoid 0 s = (None, False, s)"
| "aging_loop v avoid (Suc k) s =
     (let p = aging_priority (v_aging_cursor (s_vp s v)) (DLSM_GT_PRIORITY_LEVELS - 1 - Suc k) in
      case vp_try_priority v p avoid s of
        (Some t, stolen, s1) \<Rightarrow> (Some t, stolen, upd_vp v (\<lambda>w. w\<lparr>v_aging_cursor := next_cursor p\<rparr>) s1)
      | (None, _, s1) \<Rightarrow> aging_loop v avoid k s1)"

primrec priority_loop :: "nat \<Rightarrow> addr option \<Rightarrow> nat \<Rightarrow> sched \<Rightarrow> addr option \<times> bool \<times> sched" where
  "priority_loop v avoid 0 s = (None, False, s)"
| "priority_loop v avoid (Suc k) s = (case vp_try_priority v (DLSM_GT_PRIORITY_LEVELS - Suc k) avoid s of
     (Some t, stolen, s1) \<Rightarrow> (Some t, stolen, s1) | (None, _, s1) \<Rightarrow> priority_loop v avoid k s1)"

text \<open>What \<open>vp_try_next\<close> records about the task it found; \<open>now\<close> is the clock.\<close>

definition vp_dispatch :: "nat \<Rightarrow> addr \<Rightarrow> bool \<Rightarrow> bool \<Rightarrow> u64 \<Rightarrow> sched \<Rightarrow> sched" where
  "vp_dispatch v t aged stolen now s =
     (let k = s_task s t; migrated = (t_last_vp k \<noteq> None \<and> t_last_vp k \<noteq> Some v);
          waited = (now \<noteq> 0 \<and> t_ready_since k \<noteq> 0 \<and> now \<ge> t_ready_since k);
          inc = (\<lambda>b x. if b then x + 1 else x :: u64) in
      upd_stats (\<lambda>x. x\<lparr>st_aged := inc aged (st_aged x), st_migrations := inc migrated (st_migrations x),
          st_max_ready_wait := (if waited then stat_max (st_max_ready_wait x) (now - t_ready_since k) else st_max_ready_wait x),
          st_ready := st_ready x - 1, st_running := st_running x + 1, st_switches := st_switches x + 1,
          st_steals := inc stolen (st_steals x)\<rparr>)
      (upd_vp v (\<lambda>w. w\<lparr>
          v_priority_dispatches := (if aged then 0 else if v_priority_dispatches w < 2 ^ 32 - 1
             then v_priority_dispatches w + 1 else v_priority_dispatches w),
          v_migrations := inc migrated (v_migrations w), v_dispatches := v_dispatches w + 1,
          v_steals := inc stolen (v_steals w)\<rparr>)
      (upd_task t (\<lambda>k. k\<lparr>t_state := ST_RUNNING, t_last_vp := Some v, t_dispatch_started := now, t_reported := False\<rparr>) s)))"

text \<open>The choice of \<open>vp_try_next\<close>: the task, whether it was stolen, whether the aging pass found it.\<close>

definition vp_choose :: "nat \<Rightarrow> sched \<Rightarrow> addr option \<times> bool \<times> bool \<times> sched" where
  "vp_choose v s =
     (let avoid = v_last_yielded (s_vp s v);
          s0 = upd_vp v (\<lambda>w. w\<lparr>v_last_yielded := None\<rparr>) s in
      case (if v_priority_dispatches (s_vp s0 v) \<ge> DLSM_GT_PRIORITY_BURST
            then aging_loop v avoid (DLSM_GT_PRIORITY_LEVELS - 1) s0 else (None, False, s0)) of
        (Some t, stolen, s1) \<Rightarrow> (Some t, stolen, True, s1)
      | (None, _, s1) \<Rightarrow> (case priority_loop v avoid DLSM_GT_PRIORITY_LEVELS s1 of
            (to, stolen, s2) \<Rightarrow> (to, stolen, False, s2)))"

definition vp_try_next :: "nat \<Rightarrow> u64 \<Rightarrow> sched \<Rightarrow> addr option \<times> sched" where
  "vp_try_next v now s = (case vp_choose v s of
     (None, _, _, s1) \<Rightarrow> (None, s1)
   | (Some t, stolen, aged, s1) \<Rightarrow> (Some t, vp_dispatch v t aged stolen now s1))"

section \<open>Moving tasks between their states\<close>

definition task_make_ready :: "u64 \<Rightarrow> addr \<Rightarrow> queue_id \<Rightarrow> sched \<Rightarrow> sched" where
  "task_make_ready now t q s =
     (let s1 = upd_stats (\<lambda>x. x\<lparr>st_ready := st_ready x + 1\<rparr>)
            (upd_task t (\<lambda>k. k\<lparr>t_state := ST_READY, t_ready_since := now\<rparr>) s) in
      s1\<lparr>s_rq := task_queue_push q t (s_rq s1)\<rparr>)"

text \<open>Where a task that leaves the processor \<open>v\<close> is queued: at home or with its bound processor.\<close>

definition resume_queue :: "nat \<Rightarrow> gt_task \<Rightarrow> queue_id" where
  "resume_queue v k = (case t_vp k of None \<Rightarrow> Local v (t_priority k) | Some b \<Rightarrow> Bound b (t_priority k))"

definition rt_enqueue :: "nat \<Rightarrow> addr \<Rightarrow> u64 \<Rightarrow> sched \<Rightarrow> sched" where
  "rt_enqueue v t now s =
     (let s1 = upd_stats (\<lambda>x. x\<lparr>st_running := st_running x - 1, st_yields := st_yields x + 1\<rparr>) s;
          s2 = upd_vp v (\<lambda>w. w\<lparr>v_last_yielded := Some t\<rparr>) s1 in
      task_make_ready now t (resume_queue v (s_task s2 t)) s2)"

definition rt_park :: "nat \<Rightarrow> addr \<Rightarrow> u64 \<Rightarrow> sched \<Rightarrow> sched" where
  "rt_park v t now s =
     (let s1 = upd_stats (\<lambda>x. x\<lparr>st_running := st_running x - 1, st_parks := st_parks x + 1\<rparr>) s in
      if t_unpark_pending (s_task s1 t) then
        (let s2 = upd_task t (\<lambda>k. k\<lparr>t_unpark_pending := False\<rparr>) s1 in
         task_make_ready now t (resume_queue v (s_task s2 t)) s2)
      else upd_stats (\<lambda>x. x\<lparr>st_parked := st_parked x + 1\<rparr>) (upd_task t (\<lambda>k. k\<lparr>t_state := ST_PARKED\<rparr>) s1))"

definition task_finished :: "addr \<Rightarrow> sched \<Rightarrow> sched" where
  "task_finished t s =
     upd_stats (\<lambda>x. x\<lparr>st_running := st_running x - 1, st_finished := st_finished x + 1\<rparr>)
       (upd_task t (\<lambda>k. k\<lparr>t_state := ST_FINISHED\<rparr>) s)"

text \<open>Which processor has to be woken for a task made ready: one processor, or one of a group but not \<open>x\<close>.\<close>

datatype wake = Wake_none | Wake_vp nat | Wake_group nat "nat option"

definition unpark_queue :: "gt_task \<Rightarrow> queue_id \<times> wake" where
  "unpark_queue k = (case t_vp k of
     Some b \<Rightarrow> (Bound b (t_priority k), Wake_vp b)
   | None \<Rightarrow> (case t_last_vp k of
        Some v \<Rightarrow> (Local v (t_priority k), Wake_vp v)
      | None \<Rightarrow> (Group (t_group k) (t_priority k), Wake_group (t_group k) None)))"

text \<open>\<open>stopped\<close> is what the section under the runtime's lock read.\<close>

definition dlsm_gt_unpark :: "bool \<Rightarrow> addr \<Rightarrow> u64 \<Rightarrow> sched \<Rightarrow> dlsm_status \<times> wake \<times> sched" where
  "dlsm_gt_unpark stopped t now s =
     (if t_state (s_task s t) = ST_FINISHED \<or> stopped then (DLSM_GT_E_STATE, Wake_none, s)
      else
        (let s1 = upd_stats (\<lambda>x. x\<lparr>st_unparks := st_unparks x + 1\<rparr>) s in
         if t_state (s_task s1 t) = ST_PARKED then
           (let s2 = upd_stats (\<lambda>x. x\<lparr>st_parked := st_parked x - 1\<rparr>) s1;
                (q, w) = unpark_queue (s_task s2 t) in
            (DLSM_OK, w, task_make_ready now t q s2))
         else (DLSM_OK, Wake_none, upd_task t (\<lambda>k. k\<lparr>t_unpark_pending := True\<rparr>) s1)))"

text \<open>
  The part of \<open>dlsm_gt_spawn_ex\<close> that routes the new task: \<open>caller\<close> is the processor the caller runs on,
  when it belongs to this runtime.
\<close>

definition task_fresh :: "nat \<Rightarrow> nat \<Rightarrow> nat option \<Rightarrow> gt_task" where
  "task_fresh prio grp b = \<lparr>t_state = ST_NEW, t_unpark_pending = False, t_priority = prio, t_group = grp, t_vp = b,
     t_last_vp = None, t_dispatch_started = 0, t_ready_since = 0, t_reported = False\<rparr>"

definition spawn_queue :: "nat option \<Rightarrow> (nat \<Rightarrow> vp) \<Rightarrow> gt_task \<Rightarrow> queue_id \<times> wake" where
  "spawn_queue caller vps k = (case t_vp k of
     Some b \<Rightarrow> (Bound b (t_priority k), Wake_vp b)
   | None \<Rightarrow> (case caller of
        Some c \<Rightarrow> if v_group (vps c) = t_group k
                  then (Local c (t_priority k), Wake_group (t_group k) (Some c))
                  else (Group (t_group k) (t_priority k), Wake_group (t_group k) None)
      | None \<Rightarrow> (Group (t_group k) (t_priority k), Wake_group (t_group k) None)))"

definition spawn_route :: "nat option \<Rightarrow> addr \<Rightarrow> gt_task \<Rightarrow> u64 \<Rightarrow> sched \<Rightarrow> wake \<times> sched" where
  "spawn_route caller t k now s =
     (let s1 = upd_stats (\<lambda>x. x\<lparr>st_spawned := st_spawned x + 1\<rparr>) (upd_task t (\<lambda>_. k) s);
          (q, w) = spawn_queue caller (s_vp s1) k in
      (w, task_make_ready now t q s1))"

end
