(* ===== verification/Gt_Choice.thy ===== *)
theory Gt_Choice
  imports Gt_Sched
begin

text \<open>
  What a virtual processor chooses to run next (\<open>vp_try_priority\<close> and \<open>vp_try_next\<close> of
  \<^verbatim>\<open>libs/greenthread/src/greenthread.c\<close>): every attempt takes the first task of a queue the processor may
  serve or changes nothing; the choice is complete, respects priorities, prefers peers to the task that
  has just yielded, and its aging pass bounds the time a lower priority waits.
\<close>

section \<open>Attempts\<close>

abbreviation run_list :: "sched \<Rightarrow> queue_id \<Rightarrow> addr list" where
  "run_list s \<equiv> queued (s_rq s)"

abbreviation same_group :: "sched \<Rightarrow> nat \<Rightarrow> nat \<Rightarrow> bool" where
  "same_group s u v \<equiv> v_group (s_vp s u) = v_group (s_vp s v)"

text \<open>The queues the processor \<open>v\<close> may take a task of priority \<open>p\<close> from.\<close>

definition serves :: "sched \<Rightarrow> nat \<Rightarrow> nat \<Rightarrow> queue_id \<Rightarrow> bool" where
  "serves s v p q \<longleftrightarrow> q = Bound v p \<or> q = Local v p \<or> q = Group (v_group (s_vp s v)) p \<or>
     (\<exists>u < s_nvp s. u \<noteq> v \<and> same_group s u v \<and> q = Local u p \<and> 2 \<le> length (run_list s q))"

definition work_for :: "sched \<Rightarrow> nat \<Rightarrow> nat \<Rightarrow> bool" where
  "work_for s v p \<longleftrightarrow> (\<exists>q. serves s v p q \<and> run_list s q \<noteq> [])"

text \<open>The scheduler's own bookkeeping may change, nothing else.\<close>

definition policy_frame :: "nat \<Rightarrow> sched \<Rightarrow> sched \<Rightarrow> bool" where
  "policy_frame v s s' \<longleftrightarrow> s_task s' = s_task s \<and> s_nvp s' = s_nvp s \<and> s_stats s' = s_stats s \<and>
     (\<forall>u. v_group (s_vp s' u) = v_group (s_vp s u) \<and> v_current (s_vp s' u) = v_current (s_vp s u)) \<and>
     (\<forall>u. u \<noteq> v \<longrightarrow> s_vp s' u = s_vp s u)"

definition takes :: "nat \<Rightarrow> nat \<Rightarrow> sched \<Rightarrow> addr \<Rightarrow> sched \<Rightarrow> bool" where
  "takes v p s t s' \<longleftrightarrow> policy_frame v s s' \<and>
     (\<exists>q rest. serves s v p q \<and> run_list s q = t # rest \<and> s_rq s' = unlink_head q t (s_rq s))"

definition attempt :: "nat \<Rightarrow> nat \<Rightarrow> sched \<Rightarrow> addr option \<times> sched \<Rightarrow> bool" where
  "attempt v p s res \<longleftrightarrow> (case res of (None, s') \<Rightarrow> s' = s | (Some t, s') \<Rightarrow> takes v p s t s')"

lemma policy_frame_refl [simp]: "policy_frame v s s"
  by (simp add: policy_frame_def)

lemma policy_frame_trans: "policy_frame v s s' \<Longrightarrow> policy_frame v s' s'' \<Longrightarrow> policy_frame v s s''"
  by (simp add: policy_frame_def)

lemma policy_frame_rq [simp]: "policy_frame v s (s'\<lparr>s_rq := r\<rparr>) = policy_frame v s s'"
  by (simp add: policy_frame_def)

lemma policy_frame_burst [simp]: "policy_frame v s (set_burst v p n s') \<longleftrightarrow> policy_frame v s s'"
  by (auto simp: policy_frame_def set_burst_def)

lemma burst_sel [simp]: "s_rq (set_burst v p n s) = s_rq s" "s_task (set_burst v p n s) = s_task s"
  "s_nvp (set_burst v p n s) = s_nvp s" "v_group (s_vp (set_burst v p n s) u) = v_group (s_vp s u)"
  "v_priority_dispatches (s_vp (set_burst v p n s) u) = v_priority_dispatches (s_vp s u)"
  "v_aging_cursor (s_vp (set_burst v p n s) u) = v_aging_cursor (s_vp s u)"
  by (simp_all add: set_burst_def)

lemma s_rq_same [simp]: "s\<lparr>s_rq := s_rq s\<rparr> = s"
  by simp

lemma attempt_none [simp]: "attempt v p s (None, s)"
  by (simp add: attempt_def)

lemma attempt_or:
  assumes "attempt v p s res" and "\<And>s'. s' = s \<Longrightarrow> attempt v p s' (f s')"
  shows "attempt v p s (or_try res f)"
  using assms by (auto simp: attempt_def or_try_def split: prod.splits option.splits)

lemma or_try_None: "or_try res f = (None, s') \<longleftrightarrow> (\<exists>s1. res = (None, s1) \<and> f s1 = (None, s'))"
  by (auto simp: or_try_def split: prod.splits option.splits)

text \<open>The queue operations, on a well-formed family of queues.\<close>

definition op_takes :: "queue_id \<Rightarrow> (runq \<Rightarrow> addr option \<times> runq) \<Rightarrow> runq \<Rightarrow> bool" where
  "op_takes q op r \<longleftrightarrow> op r = (None, r) \<or> (\<exists>t rest. queued r q = t # rest \<and> op r = (Some t, unlink_head q t r))"

lemma op_takes_pop: "runq_ok r \<Longrightarrow> op_takes q (task_queue_pop q) r"
  by (simp add: op_takes_def pop_cases [OF runq_ok_def [THEN iffD1]] split: list.split)

lemma op_takes_pop_unless: "runq_ok r \<Longrightarrow> op_takes q (task_queue_pop_unless q avoid) r"
  by (simp add: op_takes_def pop_unless_cases [OF runq_ok_def [THEN iffD1]] split: list.split)

lemma op_takes_steal: "runq_ok r \<Longrightarrow> op_takes q (task_queue_steal_surplus q) r"
  by (simp add: op_takes_def steal_cases [OF runq_ok_def [THEN iffD1]] split: list.split)

lemma attempt_queue:
  assumes "op_takes q op (s_rq s)" and "op (s_rq s) \<noteq> (None, s_rq s) \<Longrightarrow> serves s v p q"
    and "\<And>s1. s_rq (note s1) = s_rq s1 \<and> policy_frame v s1 (note s1)"
  shows "attempt v p s (try_queue op note s)"
proof (cases "op (s_rq s) = (None, s_rq s)")
  case True
  then show ?thesis by (simp add: try_queue_def)
next
  case False
  then obtain t rest where "queued (s_rq s) q = t # rest" "op (s_rq s) = (Some t, unlink_head q t (s_rq s))"
    using assms(1) by (auto simp: op_takes_def)
  moreover have "policy_frame v s (note (s\<lparr>s_rq := unlink_head q t (s_rq s)\<rparr>))"
    using assms(3) policy_frame_trans [of v s "s\<lparr>s_rq := unlink_head q t (s_rq s)\<rparr>"] by simp
  ultimately show ?thesis using assms(2) [OF False] assms(3)
    by (auto simp: attempt_def try_queue_def takes_def)
qed

lemma serves_own: "serves s v p (Bound v p)" "serves s v p (Local v p)" "serves s v p (Group (v_group (s_vp s v)) p)"
  by (simp_all add: serves_def)

lemma attempt_own: "runq_ok (s_rq s) \<Longrightarrow> attempt v p s (try_own_queues v p avoid s)"
  unfolding try_own_queues_def try_local_burst_def
  by (intro attempt_or; clarsimp?)
     (auto intro!: attempt_queue op_takes_pop op_takes_pop_unless serves_own)

lemma victim_range:
  assumes "0 < d" and "d < n" and "v < n"
  shows "(v + d) mod n < n" and "(v + d) mod n \<noteq> (v :: nat)"
proof -
  show "(v + d) mod n < n" using assms by simp
  show "(v + d) mod n \<noteq> v"
  proof (cases "v + d < n")
    case False
    then have "(v + d) mod n = v + d - n" using assms by (simp add: le_mod_geq)
    with assms False show ?thesis by linarith
  qed (use assms in simp)
qed

lemma attempt_steal:
  "runq_ok (s_rq s) \<Longrightarrow> v < s_nvp s \<Longrightarrow> k < s_nvp s \<Longrightarrow> attempt v p s (steal_loop v p k s)"
proof (induction k)
  case (Suc k)
  let ?u = "(v + (s_nvp s - Suc k)) mod s_nvp s"
  have u: "?u < s_nvp s" "?u \<noteq> v" using victim_range [of "s_nvp s - Suc k" "s_nvp s" v] Suc.prems by auto
  have "serves s v p (Local ?u p)" if "same_group s ?u v"
    "task_queue_steal_surplus (Local ?u p) (s_rq s) \<noteq> (None, s_rq s)"
    using that u Suc.prems(1) unfolding serves_def
    by (auto simp: steal_cases [OF runq_ok_def [THEN iffD1]] split: list.splits)
  with Suc show ?case
    by (auto simp: Let_def intro!: attempt_or attempt_queue op_takes_steal)
qed simp

lemma try_priority_attempt:
  assumes "runq_ok (s_rq s)" and "v < s_nvp s" and "vp_try_priority v p avoid s = (to, stolen, s')"
  shows "attempt v p s (to, s')"
proof -
  obtain to1 s1 where own: "try_own_queues v p avoid s = (to1, s1)" by force
  show ?thesis
  proof (cases to1)
    case None
    with own attempt_own [OF assms(1), of v p avoid] have "s1 = s" by (simp add: attempt_def)
    with attempt_steal [OF assms(1,2), of "s_nvp s - 1" p] own None assms(2,3) show ?thesis
      by (auto simp: vp_try_priority_def split: prod.splits)
  next
    case (Some t)
    with own attempt_own [OF assms(1), of v p avoid] assms(3) show ?thesis by (simp add: vp_try_priority_def)
  qed
qed

section \<open>Completeness of one priority\<close>

lemma try_queue_None:
  assumes "op_takes q op (s_rq s)" and "try_queue op note s = (None, s')"
  shows "s' = s" and "op (s_rq s) = (None, s_rq s)"
  using assms by (auto simp: try_queue_def op_takes_def split: prod.splits option.splits)

lemma pop_None_iff: "runq_ok r \<Longrightarrow> task_queue_pop q r = (None, r) \<longleftrightarrow> queued r q = []"
  by (simp add: pop_cases [OF runq_ok_def [THEN iffD1]] split: list.split)

lemma steal_None_iff: "runq_ok r \<Longrightarrow> task_queue_steal_surplus q r = (None, r) \<longleftrightarrow> length (queued r q) < 2"
  by (auto simp: steal_cases [OF runq_ok_def [THEN iffD1]] split: list.split)

lemma own_None:
  assumes ok: "runq_ok (s_rq s)" and none: "try_own_queues v p avoid s = (None, s')"
  shows "s' = s" and "run_list s (Bound v p) = []" and "run_list s (Local v p) = []"
    and "run_list s (Group (v_group (s_vp s v)) p) = []"
proof -
  show s': "s' = s" using attempt_own [OF ok, of v p avoid] none by (simp add: attempt_def)
  note bound = op_takes_pop_unless [OF ok, of "Bound v p" avoid] and loc = op_takes_pop_unless [OF ok, of "Local v p" avoid]
  from none obtain s1 s2 s3 s4 s5 where
    1: "try_queue (task_queue_pop_unless (Bound v p) avoid) id s = (None, s1)" and
    2: "try_local_burst v p avoid s1 = (None, s2)" and
    3: "try_queue (task_queue_pop (Group (v_group (s_vp s v)) p)) (set_burst v p 0) s2 = (None, s3)" and
    4: "try_queue (task_queue_pop_unless (Local v p) avoid) (set_burst v p 1) s3 = (None, s4)" and
    5: "try_queue (task_queue_pop (Bound v p)) id s4 = (None, s5)" and
    6: "try_queue (task_queue_pop (Local v p)) (set_burst v p 1) s5 = (None, s')"
    unfolding try_own_queues_def or_try_None by blast
  have s1: "s1 = s" by (rule try_queue_None(1) [OF bound 1])
  have s2: "s2 = s" using 2 unfolding s1 try_local_burst_def by (auto split: if_splits dest: try_queue_None(1) [OF loc])
  note e3 = try_queue_None [OF op_takes_pop [OF ok] 3 [unfolded s2]]
  note e4 = try_queue_None [OF loc 4 [unfolded e3(1)]]
  note e5 = try_queue_None [OF op_takes_pop [OF ok] 5 [unfolded e4(1)]]
  note e6 = try_queue_None [OF op_takes_pop [OF ok] 6 [unfolded e5(1)]]
  show "run_list s (Bound v p) = []" "run_list s (Local v p) = []" "run_list s (Group (v_group (s_vp s v)) p) = []"
    using e3(2) e5(2) e6(2) by (simp_all add: pop_None_iff [OF ok])
qed

lemma steal_None:
  assumes ok: "runq_ok (s_rq s)" and "v < s_nvp s"
  shows "k < s_nvp s \<Longrightarrow> steal_loop v p k s = (None, s') \<Longrightarrow> s_nvp s - k \<le> d \<Longrightarrow> d < s_nvp s \<Longrightarrow>
    same_group s ((v + d) mod s_nvp s) v \<Longrightarrow> length (run_list s (Local ((v + d) mod s_nvp s) p)) < 2"
proof (induction k)
  case (Suc k)
  let ?u = "(v + (s_nvp s - Suc k)) mod s_nvp s"
  have here: "length (run_list s (Local ?u p)) < 2 \<and> steal_loop v p k s = (None, s')" if "same_group s ?u v"
  proof -
    from Suc.prems(2) that obtain s1 where
      "try_queue (task_queue_steal_surplus (Local ?u p)) id s = (None, s1)" "steal_loop v p k s1 = (None, s')"
      by (auto simp: Let_def or_try_None)
    with try_queue_None [OF op_takes_steal [OF ok]] show ?thesis by (auto simp: steal_None_iff [OF ok])
  qed
  have rest: "steal_loop v p k s = (None, s')" using here Suc.prems(2) by (auto simp: Let_def split: if_splits)
  show ?case
  proof (cases "d = s_nvp s - Suc k")
    case True
    with here Suc.prems(5) show ?thesis by simp
  next
    case False
    with Suc.prems Suc.IH rest show ?thesis by simp
  qed
qed simp

lemma other_vp_offset:
  assumes "u < n" and "v < n" and "u \<noteq> (v :: nat)"
  obtains d where "1 \<le> d" and "d < n" and "u = (v + d) mod n"
proof (cases "v < u")
  case True
  with assms show thesis by (intro that [of "u - v"]) auto
next
  case False
  with assms show thesis by (intro that [of "n - v + u"]) auto
qed

theorem try_priority_complete:
  assumes ok: "runq_ok (s_rq s)" and v: "v < s_nvp s" and tries: "vp_try_priority v p avoid s = (to, stolen, s')"
  shows "to = None \<longleftrightarrow> \<not> work_for s v p"
proof
  assume to: "to = None"
  then obtain s1 where own: "try_own_queues v p avoid s = (None, s1)" and st: "steal_loop v p (s_nvp s1 - 1) s1 = (None, s')"
    using tries by (auto simp: vp_try_priority_def split: prod.splits option.splits)
  note e = own_None [OF ok own]
  have "length (run_list s (Local u p)) < 2" if "u < s_nvp s" "u \<noteq> v" "same_group s u v" for u
  proof -
    from other_vp_offset [OF that(1) v that(2)] obtain d where "1 \<le> d" "d < s_nvp s" "u = (v + d) mod s_nvp s" by blast
    with that(3) steal_None [OF ok v _ st [unfolded e(1)], of d] show ?thesis by simp
  qed
  with e show "\<not> work_for s v p" unfolding work_for_def serves_def by fastforce
next
  assume none: "\<not> work_for s v p"
  show "to = None"
  proof (rule ccontr)
    assume "to \<noteq> None"
    then obtain t where "takes v p s t s'" using try_priority_attempt [OF ok v tries] by (auto simp: attempt_def)
    with none show False unfolding takes_def work_for_def by fastforce
  qed
qed

text \<open>
  A task that has just yielded is resumed only when no peer of its priority is at the head of a queue of
  its processor or in the queue of the group.
\<close>

theorem try_priority_prefers_peers:
  assumes ok: "runq_ok (s_rq s)" and v: "v < s_nvp s" and tries: "vp_try_priority v p (Some t) s = (Some t, stolen, s')"
    and shared: "t \<notin> set (run_list s (Group (v_group (s_vp s v)) p))"
  shows "run_list s (Group (v_group (s_vp s v)) p) = [] \<and>
    (\<forall>q \<in> {Bound v p, Local v p}. run_list s q = [] \<or> hd (run_list s q) = t)"
proof -
  let ?g = "Group (v_group (s_vp s v)) p"
  note rep = ok [unfolded runq_ok_def]
  define A where "A = or_try (or_try (or_try (try_queue (task_queue_pop_unless (Bound v p) (Some t)) id s)
       (try_local_burst v p (Some t))) (try_queue (task_queue_pop ?g) (set_burst v p 0)))
       (try_queue (task_queue_pop_unless (Local v p) (Some t)) (set_burst v p 1))"
  have chain: "try_own_queues v p (Some t) s = or_try (or_try A (try_queue (task_queue_pop (Bound v p)) id))
       (try_queue (task_queue_pop (Local v p)) (set_burst v p 1))"
    by (simp add: try_own_queues_def A_def)
  have "fst A \<noteq> Some t"
    using shared unfolding A_def or_try_def try_local_burst_def try_queue_def
    by (auto simp: pop_unless_cases [OF rep] pop_cases [OF rep] split: list.splits if_splits prod.splits option.splits)
  moreover have "fst A = None \<or> fst A = Some t"
  proof (cases "fst A")
    case (Some x)
    then have "try_own_queues v p (Some t) s = A" by (cases A) (simp add: chain or_try_def)
    with Some tries show ?thesis by (cases A) (simp add: vp_try_priority_def)
  qed simp
  ultimately have "fst A = None" by blast
  then show ?thesis unfolding A_def or_try_def try_local_burst_def try_queue_def
    by (auto simp: pop_unless_cases [OF rep] pop_cases [OF rep] split: list.splits if_splits prod.splits option.splits)
qed

section \<open>The priority loop and the aging loop\<close>

lemma try_priority_cases:
  assumes "runq_ok (s_rq s)" and "v < s_nvp s" and "vp_try_priority v p avoid s = (to, stolen, s')"
  obtains (none) "to = None" and "s' = s" and "\<not> work_for s v p"
    | (some) t where "to = Some t" and "takes v p s t s'" and "work_for s v p"
  using try_priority_attempt [OF assms] try_priority_complete [OF assms] that
  by (cases to) (auto simp: attempt_def)

lemma priority_loop_cases:
  assumes ok: "runq_ok (s_rq s)" and v: "v < s_nvp s"
  shows "k \<le> 8 \<Longrightarrow> priority_loop v avoid k s = (to, stolen, s') \<Longrightarrow>
    (case to of None \<Rightarrow> s' = s \<and> (\<forall>p. 8 - k \<le> p \<and> p < 8 \<longrightarrow> \<not> work_for s v p)
     | Some t \<Rightarrow> \<exists>p < 8. takes v p s t s' \<and> (\<forall>p'. 8 - k \<le> p' \<and> p' < p \<longrightarrow> \<not> work_for s v p'))"
proof (induction k)
  case (Suc k)
  obtain to1 st1 s1 where one: "vp_try_priority v (8 - Suc k) avoid s = (to1, st1, s1)" by (metis prod_cases3)
  from ok v one show ?case
  proof (cases rule: try_priority_cases)
    case none
    then have rest: "priority_loop v avoid k s = (to, stolen, s')" using Suc.prems one by simp
    have split: "(8 - Suc k \<le> p) = (p = 8 - Suc k \<or> 8 - k \<le> p)" for p using Suc.prems(1) by auto
    show ?thesis using Suc.IH [OF _ rest] Suc.prems(1) none(3) unfolding split by (auto split: option.splits)
  next
    case (some t)
    then have "to = Some t" "s' = s1" using Suc.prems one by simp_all
    with some Suc.prems(1) show ?thesis by (auto intro!: exI [of _ "8 - Suc k"])
  qed
qed auto

text \<open>The place of priority \<open>p\<close> in the rotation that starts at the cursor \<open>c\<close>.\<close>

definition age_rank :: "nat \<Rightarrow> nat \<Rightarrow> nat" where
  "age_rank c p = (p + 7 - c) mod 7"

lemma age_rank_alt: "1 \<le> c \<Longrightarrow> c \<le> 7 \<Longrightarrow> 1 \<le> p \<Longrightarrow> p \<le> 7 \<Longrightarrow> age_rank c p = (if c \<le> p then p - c else p + 7 - c)"
  by (auto simp: age_rank_def le_mod_geq)

lemma aging_priority_alt: "1 \<le> c \<Longrightarrow> c \<le> 7 \<Longrightarrow> d < 7 \<Longrightarrow> aging_priority c d = (if c + d \<le> 7 then c + d else c + d - 7)"
  by (cases "c + d \<le> 7") (auto simp: aging_priority_def le_mod_geq)

lemma age_rank_of_offset: "1 \<le> c \<Longrightarrow> c \<le> 7 \<Longrightarrow> d < 7 \<Longrightarrow> age_rank c (aging_priority c d) = d"
  by (auto simp: aging_priority_alt age_rank_alt)

lemma offset_of_age_rank: "1 \<le> c \<Longrightarrow> c \<le> 7 \<Longrightarrow> 1 \<le> p \<Longrightarrow> p \<le> 7 \<Longrightarrow> aging_priority c (age_rank c p) = p"
  by (auto simp: aging_priority_alt age_rank_alt)

lemma age_rank_less: "age_rank c p < 7"
  by (simp add: age_rank_def)

lemma age_rank_next:
  "1 \<le> c \<Longrightarrow> c \<le> 7 \<Longrightarrow> 1 \<le> p \<Longrightarrow> p \<le> 7 \<Longrightarrow> 1 \<le> p' \<Longrightarrow> p' \<le> 7 \<Longrightarrow> age_rank c p' < age_rank c p \<Longrightarrow>
     age_rank (next_cursor p') p < age_rank c p"
  by (auto simp: age_rank_alt next_cursor_def split: if_splits)

lemma takes_upd_vp:
  "takes v p s t s1 \<Longrightarrow> (\<And>w. v_group (f w) = v_group w \<and> v_current (f w) = v_current w) \<Longrightarrow> takes v p s t (upd_vp v f s1)"
  by (auto simp: takes_def policy_frame_def)

lemma aging_loop_cases:
  assumes ok: "runq_ok (s_rq s)" and v: "v < s_nvp s" and c: "c = v_aging_cursor (s_vp s v)" "1 \<le> c" "c \<le> 7"
  shows "k \<le> 7 \<Longrightarrow> aging_loop v avoid k s = (to, stolen, s') \<Longrightarrow>
    (case to of None \<Rightarrow> s' = s \<and> (\<forall>p. 1 \<le> p \<and> p < 8 \<and> 7 - k \<le> age_rank c p \<longrightarrow> \<not> work_for s v p)
     | Some t \<Rightarrow> \<exists>p. 1 \<le> p \<and> p < 8 \<and> takes v p s t s' \<and> v_aging_cursor (s_vp s' v) = next_cursor p \<and>
         (\<forall>p'. 1 \<le> p' \<and> p' < 8 \<and> 7 - k \<le> age_rank c p' \<and> age_rank c p' < age_rank c p \<longrightarrow> \<not> work_for s v p'))"
proof (induction k)
  case 0
  have "\<not> 7 \<le> age_rank c p" for p using age_rank_less [of c p] by simp
  with 0 show ?case by simp
next
  case (Suc k)
  define p where "p = aging_priority c (8 - 1 - Suc k)"
  have p: "1 \<le> p" "p < 8" "age_rank c p = 7 - Suc k"
    using age_rank_of_offset [of c "7 - Suc k"] c Suc.prems(1) by (auto simp: p_def aging_priority_alt)
  have only: "p' = p" if "1 \<le> p'" "p' < 8" "age_rank c p' = 7 - Suc k" for p'
    using offset_of_age_rank [of c p'] that c by (simp add: p_def)
  obtain to1 st1 s1 where one: "vp_try_priority v p avoid s = (to1, st1, s1)" by (metis prod_cases3)
  have unf: "aging_loop v avoid (Suc k) s = (case vp_try_priority v p avoid s of
        (Some t, stolen, s1) \<Rightarrow> (Some t, stolen, upd_vp v (\<lambda>w. w\<lparr>v_aging_cursor := next_cursor p\<rparr>) s1)
      | (None, _, s1) \<Rightarrow> aging_loop v avoid k s1)"
    unfolding p_def c(1) aging_loop.simps Let_def ..
  from ok v one show ?case
  proof (cases rule: try_priority_cases)
    case none
    then have rest: "aging_loop v avoid k s = (to, stolen, s')" using Suc.prems(2) one unf by simp
    have sp: "7 - k \<le> age_rank c p'" if "1 \<le> p'" "p' < 8" "7 - Suc k \<le> age_rank c p'" "p' \<noteq> p" for p'
      using that only [OF that(1,2)] Suc.prems(1) by linarith
    note ih = Suc.IH [OF _ rest]
    show ?thesis
    proof (cases to)
      case None
      with ih Suc.prems(1) none(3) show ?thesis using sp by auto
    next
      case (Some t)
      with ih Suc.prems(1) obtain p1 where p1: "1 \<le> p1" "p1 < 8" "takes v p1 s t s'" "v_aging_cursor (s_vp s' v) = next_cursor p1"
        "\<And>p'. 1 \<le> p' \<and> p' < 8 \<and> 7 - k \<le> age_rank c p' \<and> age_rank c p' < age_rank c p1 \<Longrightarrow> \<not> work_for s v p'" by auto
      have "\<not> work_for s v p'" if "1 \<le> p' \<and> p' < 8 \<and> 7 - Suc k \<le> age_rank c p' \<and> age_rank c p' < age_rank c p1" for p'
        using that sp [of p'] p1(5) [of p'] none(3) by (cases "p' = p") auto
      with Some p1 show ?thesis by auto
    qed
  next
    case (some t)
    then have r: "to = Some t" "s' = upd_vp v (\<lambda>w. w\<lparr>v_aging_cursor := next_cursor p\<rparr>) s1" using Suc.prems(2) one unf by simp_all
    have "takes v p s t s'" unfolding r(2) by (rule takes_upd_vp [OF some(2)]) simp
    moreover have "v_aging_cursor (s_vp s' v) = next_cursor p" by (simp add: r(2))
    ultimately show ?thesis using p r(1) by (auto simp del: One_nat_def)
  qed
qed

section \<open>The choice\<close>

lemma serves_frame:
  "s_rq s' = s_rq s \<Longrightarrow> s_nvp s' = s_nvp s \<Longrightarrow> (\<And>u. v_group (s_vp s' u) = v_group (s_vp s u)) \<Longrightarrow> serves s' v p q = serves s v p q"
  by (simp add: serves_def)

lemma upd_vp_group: "(\<And>w. v_group (f w) = v_group w) \<Longrightarrow> v_group (s_vp (upd_vp v f s) u) = v_group (s_vp s u)"
  by simp

lemma serves_upd_vp: "(\<And>w. v_group (f w) = v_group w) \<Longrightarrow> serves (upd_vp v f s) u p q = serves s u p q"
  by (rule serves_frame) (simp_all add: upd_vp_group)

lemma work_for_upd_vp: "(\<And>w. v_group (f w) = v_group w) \<Longrightarrow> work_for (upd_vp v f s) u p = work_for s u p"
  by (simp only: work_for_def serves_upd_vp upd_sel)

lemma takes_from_upd_vp:
  assumes "takes v p (upd_vp v f s) t s'" and f: "\<And>w. v_group (f w) = v_group w \<and> v_current (f w) = v_current w"
  shows "takes v p s t s'"
proof -
  have "policy_frame v s s'" using assms unfolding takes_def policy_frame_def by auto
  moreover have "serves (upd_vp v f s) v p q = serves s v p q" for q using f by (simp add: serves_upd_vp del: fun_upd_apply)
  ultimately show ?thesis using assms(1) unfolding takes_def by (simp only: upd_sel)
qed

text \<open>Everything the choice guarantees; \<open>c\<close> is the cursor and \<open>d\<close> the number of dispatches before it.\<close>

definition good_choice :: "sched \<Rightarrow> nat \<Rightarrow> addr option \<Rightarrow> bool \<Rightarrow> sched \<Rightarrow> bool" where
  "good_choice s v to aged s' \<longleftrightarrow>
     (let c = v_aging_cursor (s_vp s v); d = v_priority_dispatches (s_vp s v) in
      case to of
        None \<Rightarrow> s' = upd_vp v (\<lambda>w. w\<lparr>v_last_yielded := None\<rparr>) s \<and> (\<forall>p < 8. \<not> work_for s v p)
      | Some t \<Rightarrow> (\<exists>p < 8. takes v p s t s' \<and>
          (if aged then d \<ge> 64 \<and> 1 \<le> p \<and> v_aging_cursor (s_vp s' v) = next_cursor p \<and>
              (\<forall>p'. 1 \<le> p' \<and> p' < 8 \<and> age_rank c p' < age_rank c p \<longrightarrow> \<not> work_for s v p')
           else (\<forall>p' < p. \<not> work_for s v p') \<and> (d \<ge> 64 \<longrightarrow> (\<forall>p'. 1 \<le> p' \<and> p' < 8 \<longrightarrow> \<not> work_for s v p')))))"

lemma choose_good:
  assumes ok: "runq_ok (s_rq s)" and v: "v < s_nvp s" and c: "1 \<le> v_aging_cursor (s_vp s v)" "v_aging_cursor (s_vp s v) \<le> 7"
    and ch: "vp_choose v s = (to, stolen, aged, s')"
  shows "good_choice s v to aged s'"
proof -
  define s0 where "s0 = upd_vp v (\<lambda>w. w\<lparr>v_last_yielded := None\<rparr>) s"
  define avoid where "avoid = v_last_yielded (s_vp s v)"
  define d where "d = v_priority_dispatches (s_vp s v)"
  have ok0: "runq_ok (s_rq s0)" "v < s_nvp s0" using ok v by (simp_all add: s0_def)
  have c0: "v_aging_cursor (s_vp s v) = v_aging_cursor (s_vp s0 v)" by (simp add: s0_def)
  have w0: "work_for s0 v p = work_for s v p" for p by (simp add: s0_def work_for_upd_vp)
  have t0: "takes v p s t s1" if "takes v p s0 t s1" for p t s1
    using that unfolding s0_def by (rule takes_from_upd_vp) simp
  obtain ta sa s1 where ag: "(if d \<ge> 64 then aging_loop v avoid 7 s0 else (None, False, s0)) = (ta, sa, s1)" by (metis prod_cases3)
  have aging: "case ta of None \<Rightarrow> s1 = s0 \<and> (d \<ge> 64 \<longrightarrow> (\<forall>p. 1 \<le> p \<and> p < 8 \<longrightarrow> \<not> work_for s v p))
     | Some t \<Rightarrow> d \<ge> 64 \<and> (\<exists>p. 1 \<le> p \<and> p < 8 \<and> takes v p s t s1 \<and> v_aging_cursor (s_vp s1 v) = next_cursor p \<and>
         (\<forall>p'. 1 \<le> p' \<and> p' < 8 \<and> age_rank (v_aging_cursor (s_vp s v)) p' < age_rank (v_aging_cursor (s_vp s v)) p \<longrightarrow> \<not> work_for s v p'))"
  proof (cases "d \<ge> 64")
    case True
    note al = aging_loop_cases [OF ok0 c0 c, of 7 avoid ta sa s1, unfolded w0]
    show ?thesis
    proof (cases ta)
      case None
      with al ag True show ?thesis by simp
    next
      case (Some t)
      with al ag True show ?thesis by (auto intro: t0 simp del: One_nat_def)
    qed
  qed (use ag in auto)
  have unf: "vp_choose v s = (case (ta, sa, s1) of (Some t, stolen, s1) \<Rightarrow> (Some t, stolen, True, s1)
      | (None, _, s1) \<Rightarrow> (case priority_loop v avoid 8 s1 of (to, stolen, s2) \<Rightarrow> (to, stolen, False, s2)))"
    unfolding ag [symmetric] by (simp add: vp_choose_def Let_def s0_def [symmetric] avoid_def [symmetric] d_def)
      (simp add: s0_def)
  show ?thesis
  proof (cases ta)
    case (Some t)
    then have "to = Some t" "aged" "s' = s1" using ch unf by simp_all
    with aging Some show ?thesis by (auto simp: good_choice_def d_def Let_def)
  next
    case None
    then have s1: "s1 = s0" using aging by simp
    with None ch unf obtain st where pl: "priority_loop v avoid 8 s0 = (to, st, s')" and na: "\<not> aged"
      by (auto split: prod.splits)
    note p = priority_loop_cases [OF ok0 _ pl, unfolded w0]
    from aging None have low: "d \<ge> 64 \<longrightarrow> (\<forall>p. 1 \<le> p \<and> p < 8 \<longrightarrow> \<not> work_for s v p)" by simp
    show ?thesis
    proof (cases to)
      case None
      with p show ?thesis by (simp add: good_choice_def s0_def)
    next
      case (Some t)
      with p obtain p1 where "p1 < 8" "takes v p1 s t s'" "\<forall>p' < p1. \<not> work_for s v p'" using t0 by auto
      with Some low na show ?thesis unfolding good_choice_def by (auto simp: d_def Let_def)
    qed
  qed
qed

section \<open>The counters of the aging policy\<close>

definition counters :: "sched \<Rightarrow> nat \<Rightarrow> nat \<times> nat" where
  "counters s v = (v_priority_dispatches (s_vp s v), v_aging_cursor (s_vp s v))"

lemma counters_simps [simp]:
  "counters (s\<lparr>s_rq := r\<rparr>) v = counters s v" "counters (set_burst u p n s) v = counters s v"
  "counters (upd_vp u (\<lambda>w. w\<lparr>v_last_yielded := y\<rparr>) s) v = counters s v"
  by (simp_all add: counters_def)

lemma counters_try_queue: "(\<And>s1. counters (f s1) v = counters s1 v) \<Longrightarrow> counters (snd (try_queue op f s)) v = counters s v"
  by (simp add: try_queue_def split: prod.split option.split)

lemma counters_or_try:
  "counters (snd res) v = c \<Longrightarrow> (\<And>s1. counters s1 v = c \<Longrightarrow> counters (snd (f s1)) v = c) \<Longrightarrow> counters (snd (or_try res f)) v = c"
  by (auto simp: or_try_def split: prod.splits option.splits)

lemma counters_own: "counters (snd (try_own_queues v p avoid s)) u = counters s u"
  unfolding try_own_queues_def try_local_burst_def
  by (intro counters_or_try) (simp_all add: counters_try_queue)

lemma counters_steal: "counters (snd (steal_loop v p k s)) u = counters s u"
  by (induction k arbitrary: s) (auto simp: Let_def intro!: counters_or_try counters_try_queue)

lemma counters_try_priority:
  assumes "vp_try_priority v p avoid s = (to, stolen, s')"
  shows "counters s' u = counters s u"
proof -
  obtain to1 s1 where own: "try_own_queues v p avoid s = (to1, s1)" by force
  have c1: "counters s1 u = counters s u" using counters_own [of v p avoid s u] own by simp
  obtain to2 s2 where st: "steal_loop v p (s_nvp s1 - 1) s1 = (to2, s2)" by force
  have c2: "counters s2 u = counters s u" using counters_steal [of v p "s_nvp s1 - 1" s1 u] st c1 by simp
  from assms own st c1 c2 show ?thesis by (cases to1) (auto simp: vp_try_priority_def)
qed

lemma counters_priority_loop: "priority_loop v avoid k s = (to, stolen, s') \<Longrightarrow> counters s' u = counters s u"
  by (induction k arbitrary: s) (auto split: prod.splits option.splits dest: counters_try_priority [where u = u])

lemma dispatches_aging_loop: "aging_loop v avoid k s = (to, stolen, s') \<Longrightarrow> fst (counters s' u) = fst (counters s u)"
proof (induction k arbitrary: s)
  case (Suc k)
  obtain to1 st1 s1 where one: "vp_try_priority v (aging_priority (v_aging_cursor (s_vp s v)) (8 - 1 - Suc k)) avoid s = (to1, st1, s1)"
    by (metis prod_cases3)
  note same = counters_try_priority [OF one, of u]
  show ?case
  proof (cases to1)
    case None
    with Suc one same show ?thesis by (simp add: Let_def)
  next
    case (Some t)
    with Suc.prems one same show ?thesis by (auto simp: Let_def counters_def)
  qed
qed simp

lemma counters_choose:
  assumes "vp_choose v s = (to, stolen, aged, s')"
  shows "fst (counters s' v) = fst (counters s v) \<and> (\<not> aged \<longrightarrow> to \<noteq> None \<longrightarrow> fst (counters s v) < 64 \<longrightarrow> counters s' v = counters s v)"
proof -
  define s0 where "s0 = upd_vp v (\<lambda>w. w\<lparr>v_last_yielded := None\<rparr>) s"
  have c0: "counters s0 v = counters s v" by (simp add: s0_def)
  obtain ta sa s1 where ag: "(if v_priority_dispatches (s_vp s v) \<ge> 64 then aging_loop v (v_last_yielded (s_vp s v)) 7 s0
      else (None, False, s0)) = (ta, sa, s1)" by (metis prod_cases3)
  then have a: "fst (counters s1 v) = fst (counters s v)" "fst (counters s v) < 64 \<longrightarrow> s1 = s0"
    using dispatches_aging_loop [of v "v_last_yielded (s_vp s v)" 7 s0 ta sa s1 v] c0
    by (auto split: if_splits simp: counters_def)
  have unf: "vp_choose v s = (case (ta, sa, s1) of (Some t, stolen, s1) \<Rightarrow> (Some t, stolen, True, s1)
      | (None, _, s1) \<Rightarrow> (case priority_loop v (v_last_yielded (s_vp s v)) 8 s1 of (to, stolen, s2) \<Rightarrow> (to, stolen, False, s2)))"
    unfolding ag [symmetric] by (simp add: vp_choose_def Let_def s0_def [symmetric]) (simp add: s0_def)
  show ?thesis
  proof (cases ta)
    case (Some t)
    with unf assms a show ?thesis by auto
  next
    case None
    with unf assms obtain st where "priority_loop v (v_last_yielded (s_vp s v)) 8 s1 = (to, st, s')" by (auto split: prod.splits)
    from counters_priority_loop [OF this, of v] a c0 show ?thesis by auto
  qed
qed

lemma cursor_kept:
  assumes ok: "runq_ok (s_rq s)" "v < s_nvp s" "1 \<le> v_aging_cursor (s_vp s v)" "v_aging_cursor (s_vp s v) \<le> 7"
    and ch: "vp_choose v s = (to, stolen, False, s')"
  shows "counters s' v = counters s v"
proof -
  define s0 where "s0 = upd_vp v (\<lambda>w. w\<lparr>v_last_yielded := None\<rparr>) s"
  have c0: "counters s0 v = counters s v" by (simp add: s0_def)
  obtain ta sa s1 where ag: "(if v_priority_dispatches (s_vp s v) \<ge> 64 then aging_loop v (v_last_yielded (s_vp s v)) 7 s0
      else (None, False, s0)) = (ta, sa, s1)" by (metis prod_cases3)
  have unf: "vp_choose v s = (case (ta, sa, s1) of (Some t, stolen, s1) \<Rightarrow> (Some t, stolen, True, s1)
      | (None, _, s1) \<Rightarrow> (case priority_loop v (v_last_yielded (s_vp s v)) 8 s1 of (to, stolen, s2) \<Rightarrow> (to, stolen, False, s2)))"
    unfolding ag [symmetric] by (simp add: vp_choose_def Let_def s0_def [symmetric]) (simp add: s0_def)
  have none: "ta = None" using unf ch by (cases ta) auto
  have "s1 = s0"
    using ag none aging_loop_cases [of s0 v "v_aging_cursor (s_vp s v)" 7 "v_last_yielded (s_vp s v)" ta sa s1] ok
    by (auto simp: s0_def split: if_splits)
  moreover obtain st where "priority_loop v (v_last_yielded (s_vp s v)) 8 s1 = (to, st, s')"
    using unf ch none by (auto split: prod.splits)
  ultimately show ?thesis using counters_priority_loop [of v _ 8 s1 to st s' v] c0 by simp
qed

section \<open>Correctness of the choice\<close>

lemma takes_lists:
  assumes "runq_ok (s_rq s)" and "takes v p s t s'"
  obtains q rest where "serves s v p q" and "run_list s q = t # rest" and "run_list s' = (run_list s)(q := rest)"
    and "runq_ok (s_rq s')"
proof -
  from assms(2) obtain q rest where q: "serves s v p q" "run_list s q = t # rest" "s_rq s' = unlink_head q t (s_rq s)"
    unfolding takes_def by blast
  from runq_unlink [OF assms(1) [unfolded runq_ok_def] q(2)] have "runq_rep (s_rq s') ((run_list s)(q := rest))" by (simp add: q(3))
  then have "runq_ok (s_rq s')" "run_list s' = (run_list s)(q := rest)" using runq_ok_iff [of "s_rq s'"] by blast+
  with q that show thesis by blast
qed

lemma dispatch_sel [simp]: "s_rq (vp_dispatch v t aged stolen now s) = s_rq s" "s_nvp (vp_dispatch v t aged stolen now s) = s_nvp s"
  "t_state (s_task (vp_dispatch v t aged stolen now s) t) = ST_RUNNING"
  "v_group (s_vp (vp_dispatch v t aged stolen now s) u) = v_group (s_vp s u)"
  "v_current (s_vp (vp_dispatch v t aged stolen now s) u) = v_current (s_vp s u)"
  by (simp_all add: vp_dispatch_def Let_def)

lemma try_next_cases:
  assumes "vp_try_next v now s = (to, s')"
  obtains (none) stolen aged where "to = None" and "vp_choose v s = (None, stolen, aged, s')"
    | (some) t stolen aged s1 where "to = Some t" and "vp_choose v s = (Some t, stolen, aged, s1)"
        and "s' = vp_dispatch v t aged stolen now s1"
  using assms by (auto simp: vp_try_next_def split: prod.splits option.splits)

definition cursor_ok :: "sched \<Rightarrow> nat \<Rightarrow> bool" where
  "cursor_ok s v \<longleftrightarrow> 1 \<le> v_aging_cursor (s_vp s v) \<and> v_aging_cursor (s_vp s v) \<le> 7"

definition two_ready :: sched where
  "two_ready = \<lparr>s_rq = task_queue_push (Group 0 3) 9 (task_queue_push (Group 0 0) 7 runq_empty),
     s_task = (\<lambda>t. (task_fresh (if t = 7 then 0 else 3) 0 None)\<lparr>t_state := ST_READY\<rparr>),
     s_vp = (\<lambda>_. \<lparr>v_group = 0, v_current = None, v_last_yielded = None, v_local_burst = (\<lambda>_. 0), v_priority_dispatches = 0,
        v_aging_cursor = 1, v_dispatches = 0, v_steals = 0, v_migrations = 0\<rparr>),
     s_nvp = 1,
     s_stats = \<lparr>st_spawned = 2, st_finished = 0, st_switches = 0, st_yields = 0, st_max_ready_wait = 0, st_aged = 0, st_parks = 0,
        st_unparks = 0, st_steals = 0, st_migrations = 0, st_ready = 2, st_running = 0, st_parked = 0\<rparr>\<rparr>"

lemma two_ready_rep: "runq_rep (s_rq two_ready) ((\<lambda>_. [])(Group 0 0 := [7], Group 0 3 := [9]))"
  using runq_push [OF runq_push [OF runq_empty_rep, of 7 "Group 0 0"], of 9 "Group 0 3"]
  by (simp add: two_ready_def)

lemma two_ready_facts:
  "runq_ok (s_rq two_ready)" "run_list two_ready = (\<lambda>_. [])(Group 0 0 := [7], Group 0 3 := [9])"
  "s_nvp two_ready = 1" "cursor_ok two_ready 0" "v_group (s_vp two_ready u) = 0"
  "v_priority_dispatches (s_vp two_ready u) = 0"
  using runq_ok_iff [THEN iffD2, OF two_ready_rep] by (auto simp: two_ready_def cursor_ok_def)

lemma two_ready_next: "fst (vp_try_next 0 5 two_ready) = Some 7"
  by (simp add: two_ready_def) code_simp

text \<open>
  Claim C6. A processor chooses well: \<open>vp_try_next\<close> finds a task exactly when some queue the processor may
  serve holds one; the task is the oldest of such a queue, leaves it, and is the only one that moves; and as
  long as fewer than 64 tasks have been dispatched since the last aging pass no task of a higher priority
  was available.
\<close>

theorem scheduler_choice:
  assumes "runq_ok (s_rq s)" and "v < s_nvp s" and "cursor_ok s v" and "vp_try_next v now s = (to, s')"
  shows "(to = None \<longleftrightarrow> (\<forall>p < 8. \<not> work_for s v p)) \<and> (to = None \<longrightarrow> run_list s' = run_list s) \<and>
    (\<forall>t. to = Some t \<longrightarrow> t_state (s_task s' t) = ST_RUNNING \<and>
      (\<exists>p < 8. \<exists>q rest. serves s v p q \<and> run_list s q = t # rest \<and> run_list s' = (run_list s)(q := rest) \<and>
         (v_priority_dispatches (s_vp s v) < 64 \<longrightarrow> (\<forall>p' < p. \<not> work_for s v p'))))"
  using assms(4)
proof (cases rule: try_next_cases)
  case (none stolen aged)
  note g = choose_good [OF assms(1,2) _ _ none(2), unfolded good_choice_def]
  from g assms(3) none(1) show ?thesis by (simp add: cursor_ok_def)
next
  case (some t stolen aged s1)
  from choose_good [OF assms(1,2) _ _ some(2)] assms(3) obtain p where p: "p < 8" "takes v p s t s1"
    "v_priority_dispatches (s_vp s v) < 64 \<Longrightarrow> \<forall>p' < p. \<not> work_for s v p'"
    unfolding good_choice_def cursor_ok_def by (auto simp: Let_def split: if_splits)
  from takes_lists [OF assms(1) p(2)] obtain q rest where q: "serves s v p q" "run_list s q = t # rest"
    "run_list s1 = (run_list s)(q := rest)" by blast
  then have "work_for s v p" by (auto simp: work_for_def)
  with p(1) q p(3) some(1,3) show ?thesis by auto
qed

theorem scheduler_choice_witness:
  "\<exists>q rest. run_list two_ready q = 7 # rest \<and> run_list (snd (vp_try_next 0 5 two_ready)) = (run_list two_ready)(q := rest)"
  using scheduler_choice [OF two_ready_facts(1), of 0 5 "Some 7" "snd (vp_try_next 0 5 two_ready)"] two_ready_next two_ready_facts(3,4)
  by (metis less_one prod.collapse)

text \<open>How many dispatches the aging policy may still let pass before priority \<open>p\<close> is served.\<close>

definition aging_debt :: "sched \<Rightarrow> nat \<Rightarrow> nat \<Rightarrow> nat" where
  "aging_debt s v p = age_rank (v_aging_cursor (s_vp s v)) p * 65 + (64 - v_priority_dispatches (s_vp s v))"

lemma aging_debt_bound: "aging_debt s v p \<le> 454"
proof -
  have "age_rank (v_aging_cursor (s_vp s v)) p \<le> 6" using age_rank_less [of "v_aging_cursor (s_vp s v)" p] by simp
  then have "age_rank (v_aging_cursor (s_vp s v)) p * 65 \<le> 6 * 65" by (rule mult_le_mono1)
  then show ?thesis by (simp add: aging_debt_def)
qed

lemma dispatch_counters:
  "counters (vp_dispatch v t aged stolen now s) v =
     (if aged then 0 else if fst (counters s v) < 2 ^ 32 - 1 then fst (counters s v) + 1 else fst (counters s v), snd (counters s v))"
  by (simp add: vp_dispatch_def Let_def counters_def)

lemma cursor_ok_counters: "cursor_ok s v \<longleftrightarrow> 1 \<le> snd (counters s v) \<and> snd (counters s v) \<le> 7"
  by (simp add: cursor_ok_def counters_def)

lemma aging_debt_counters: "aging_debt s v p = age_rank (snd (counters s v)) p * 65 + (64 - fst (counters s v))"
  by (simp add: aging_debt_def counters_def)

lemma aging_debt_decreases:
  assumes ok: "runq_ok (s_rq s)" "v < s_nvp s" "cursor_ok s v" and nxt: "vp_try_next v now s = (Some t, s')"
    and p: "1 \<le> p" "p < 8" "work_for s v p" and unserved: "\<And>q rest. serves s v p q \<Longrightarrow> run_list s q \<noteq> t # rest"
  shows "aging_debt s' v p < aging_debt s v p \<and> cursor_ok s' v"
proof -
  from nxt obtain stolen aged s1 where ch: "vp_choose v s = (Some t, stolen, aged, s1)" and s': "s' = vp_dispatch v t aged stolen now s1"
    by (cases rule: try_next_cases) auto
  define c where "c = v_aging_cursor (s_vp s v)"
  have c: "1 \<le> c" "c \<le> 7" using ok(3) by (simp_all add: c_def cursor_ok_def)
  have g: "good_choice s v (Some t) aged s1" using choose_good [OF ok(1,2) _ _ ch] c by (simp add: c_def)
  note cc = counters_choose [OF ch]
  show ?thesis
  proof (cases aged)
    case False
    with g have "64 \<le> fst (counters s v) \<longrightarrow> \<not> work_for s v p" using p(1,2)
      by (auto simp: good_choice_def Let_def counters_def)
    then have "fst (counters s v) < 64" using p(3) by simp
    with cc False have "counters s1 v = counters s v" "fst (counters s v) < 64" by auto
    with False ok(3) show ?thesis by (auto simp: s' aging_debt_counters cursor_ok_counters dispatch_counters)
  next
    case True
    with g obtain p1 where p1: "p1 < 8" "takes v p1 s t s1" "1 \<le> p1" "v_aging_cursor (s_vp s1 v) = next_cursor p1"
      "\<And>p'. 1 \<le> p' \<and> p' < 8 \<and> age_rank c p' < age_rank c p1 \<Longrightarrow> \<not> work_for s v p'"
      by (auto simp: good_choice_def Let_def c_def)
    have "p1 \<noteq> p" using takes_lists [OF ok(1) p1(2)] unserved by blast
    moreover have "p1 = p" if eq: "age_rank c p1 = age_rank c p"
    proof -
      have "aging_priority c (age_rank c p1) = p1" "aging_priority c (age_rank c p) = p"
        using offset_of_age_rank [OF c] p(1,2) p1(1,3) by auto
      then show ?thesis unfolding eq by (rule subst)
    qed
    ultimately have "age_rank c p1 < age_rank c p" using p1(5) [of p] p by linarith
    from age_rank_next [OF c _ _ _ _ this] p p1(1,3) have less: "age_rank (next_cursor p1) p < age_rank c p" by simp
    have "counters s' v = (0, next_cursor p1)" using True p1(4) unfolding s' by (simp add: dispatch_counters) (simp add: counters_def)
    with less show ?thesis by (auto simp: aging_debt_counters cursor_ok_counters next_cursor_def c_def counters_def)
  qed
qed

text \<open>
  Claim C7. No priority starves: while a processor always has work of priority \<open>p\<close> (below the highest) it
  can dispatch at most 454 tasks of other priorities in a row, whatever the other processors and tasks do
  between its dispatches.
\<close>

theorem aging_no_starvation:
  assumes "1 \<le> p" and "p < 8" and "cursor_ok (S 0) v"
    and "\<forall>i < n. runq_ok (s_rq (S i)) \<and> v < s_nvp (S i) \<and> vp_try_next v (now i) (S i) = (Some (T i), S' i)"
    and "\<forall>i < n. counters (S (Suc i)) v = counters (S' i) v"
    and "\<forall>i < n. work_for (S i) v p"
    and "\<forall>i < n. \<forall>q rest. serves (S i) v p q \<longrightarrow> run_list (S i) q \<noteq> T i # rest"
  shows "n \<le> 454"
proof -
  have "i \<le> n \<Longrightarrow> aging_debt (S i) v p + i \<le> aging_debt (S 0) v p \<and> cursor_ok (S i) v" for i
  proof (induction i)
    case (Suc i)
    then have i: "i < n" and ih: "aging_debt (S i) v p + i \<le> aging_debt (S 0) v p" "cursor_ok (S i) v" by simp_all
    have "aging_debt (S' i) v p < aging_debt (S i) v p \<and> cursor_ok (S' i) v"
      using assms i ih by (intro aging_debt_decreases [of "S i" v "now i" "T i"]) auto
    with ih assms(5) i show ?case by (simp add: aging_debt_counters cursor_ok_counters)
  qed (use assms(3) in simp)
  from this [of n] aging_debt_bound [of "S 0" v p] show ?thesis by simp
qed

theorem aging_no_starvation_witness: "work_for two_ready 0 3 \<and> (1 :: nat) \<le> 454"
proof -
  define s' where "s' = snd (vp_try_next 0 5 two_ready)"
  have nxt: "vp_try_next 0 5 two_ready = (Some 7, s')" using two_ready_next by (simp add: s'_def prod_eq_iff)
  have w: "work_for two_ready 0 3"
    unfolding work_for_def by (intro exI [of _ "Group 0 3"]) (simp add: serves_def two_ready_facts)
  have "run_list two_ready q \<noteq> 7 # rest" if "serves two_ready 0 3 q" for q rest
    using that by (auto simp: serves_def two_ready_facts)
  then have "(1 :: nat) \<le> 454"
    using aging_no_starvation [of 3 "\<lambda>i. if i = 0 then two_ready else s'" 0 1 "\<lambda>_. 5" "\<lambda>_. 7" "\<lambda>_. s'"] nxt w two_ready_facts(1,3,4)
    by simp
  with w show ?thesis by blast
qed

end
