(* ===== verification/Gt_System.thy ===== *)
theory Gt_System
  imports Gt_Choice
begin

text \<open>
  All virtual processors and tasks of a runtime together (\<^verbatim>\<open>libs/greenthread/src/greenthread.c\<close>). A step is
  one critical section of the scheduler, executed by any processor or any thread: a spawn, the removal of a
  task from a queue a processor may serve, the start of that task, a yield, a park, the end of a task, an
  unpark, the addition of a processor. Between the removal and the start the task is in the local variable
  of \<open>vp_try_next\<close>; the second component of a state holds these variables.
\<close>

section \<open>Steps\<close>

type_synonym gsys = "sched \<times> (nat \<Rightarrow> addr option)"

definition spawn_ok :: "sched \<Rightarrow> nat \<Rightarrow> nat \<Rightarrow> nat option \<Rightarrow> bool" where
  "spawn_ok s prio grp b \<longleftrightarrow> prio < DLSM_GT_PRIORITY_LEVELS \<and>
     (\<forall>v. b = Some v \<longrightarrow> v < s_nvp s \<and> v_group (s_vp s v) = grp)"

definition vp_fresh :: "nat \<Rightarrow> vp" where
  "vp_fresh g = \<lparr>v_group = g, v_current = None, v_last_yielded = None, v_local_burst = (\<lambda>_. 0), v_priority_dispatches = 0,
     v_aging_cursor = 1, v_dispatches = 0, v_steals = 0, v_migrations = 0\<rparr>"

definition set_current :: "nat \<Rightarrow> addr option \<Rightarrow> sched \<Rightarrow> sched" where
  "set_current v to = upd_vp v (\<lambda>w. w\<lparr>v_current := to\<rparr>)"

inductive gstep :: "gsys \<Rightarrow> gsys \<Rightarrow> bool" where
  spawn: "t_state (s_task s t) \<in> {ST_NEW, ST_FINISHED} \<Longrightarrow> spawn_ok s prio grp b \<Longrightarrow> (\<forall>v. caller = Some v \<longrightarrow> v < s_nvp s) \<Longrightarrow>
    spawn_route caller t (task_fresh prio grp b) now s = (w, s') \<Longrightarrow> gstep (s, c) (s', c)"
| pop: "v < s_nvp s \<Longrightarrow> v_current (s_vp s v) = None \<Longrightarrow> c v = None \<Longrightarrow> p < 8 \<Longrightarrow> takes v p s t s' \<Longrightarrow> cursor_ok s' v \<Longrightarrow>
    gstep (s, c) (s', c(v := Some t))"
| start: "c v = Some t \<Longrightarrow> gstep (s, c) (set_current v (Some t) (vp_dispatch v t aged stolen now s), c(v := None))"
| yields: "v_current (s_vp s v) = Some t \<Longrightarrow> gstep (s, c) (rt_enqueue v t now (set_current v None s), c)"
| parks: "v_current (s_vp s v) = Some t \<Longrightarrow> gstep (s, c) (rt_park v t now (set_current v None s), c)"
| finish: "v_current (s_vp s v) = Some t \<Longrightarrow> gstep (s, c) (task_finished t (set_current v None s), c)"
| unpark: "t_state (s_task s t) \<noteq> ST_NEW \<Longrightarrow> dlsm_gt_unpark stopped t now s = (st, w, s') \<Longrightarrow> gstep (s, c) (s', c)"
| add_vp: "gstep (s, c) (s\<lparr>s_vp := (s_vp s)(s_nvp s := vp_fresh g), s_nvp := s_nvp s + 1\<rparr>, c)"

definition sched_init :: "nat \<Rightarrow> (nat \<Rightarrow> nat) \<Rightarrow> sched" where
  "sched_init n groups = \<lparr>s_rq = runq_empty, s_task = (\<lambda>_. task_fresh 0 0 None),
     s_vp = (\<lambda>v. vp_fresh (groups v)), s_nvp = n,
     s_stats = \<lparr>st_spawned = 0, st_finished = 0, st_switches = 0, st_yields = 0, st_max_ready_wait = 0, st_aged = 0, st_parks = 0,
        st_unparks = 0, st_steals = 0, st_migrations = 0, st_ready = 0, st_running = 0, st_parked = 0\<rparr>\<rparr>"

inductive greach :: "gsys \<Rightarrow> bool" where
  init: "greach (sched_init n groups, \<lambda>_. None)"
| step: "greach x \<Longrightarrow> gstep x y \<Longrightarrow> greach y"

section \<open>The invariant\<close>

text \<open>Where a task is. The invariant says that one such function describes queues, claims and processors.\<close>

datatype loc = Nowhere | Queued queue_id | Claimed nat | On nat

fun fits :: "sched \<Rightarrow> queue_id \<Rightarrow> gt_task \<Rightarrow> bool" where
  "fits s (Bound v p) k \<longleftrightarrow> t_vp k = Some v \<and> t_priority k = p"
| "fits s (Local v p) k \<longleftrightarrow> t_vp k = None \<and> t_priority k = p \<and> v < s_nvp s \<and> v_group (s_vp s v) = t_group k"
| "fits s (Group g p) k \<longleftrightarrow> t_vp k = None \<and> t_priority k = p \<and> t_group k = g"

definition in_group :: "sched \<Rightarrow> nat \<Rightarrow> gt_task \<Rightarrow> bool" where
  "in_group s v k \<longleftrightarrow> v < s_nvp s \<and> v_group (s_vp s v) = t_group k"

definition attrs_ok :: "sched \<Rightarrow> gt_task \<Rightarrow> bool" where
  "attrs_ok s k \<longleftrightarrow> t_priority k < 8 \<and> (\<forall>b. t_vp k = Some b \<longrightarrow> in_group s b k) \<and> (\<forall>l. t_last_vp k = Some l \<longrightarrow> in_group s l k)"

definition sits :: "sched \<Rightarrow> nat \<Rightarrow> gt_task \<Rightarrow> bool" where
  "sits s v k \<longleftrightarrow> in_group s v k \<and> t_vp k \<in> {None, Some v}"

fun task_ok :: "sched \<Rightarrow> loc \<Rightarrow> gt_task \<Rightarrow> bool" where
  "task_ok s Nowhere k \<longleftrightarrow> t_state k \<in> {ST_NEW, ST_FINISHED} \<or> (t_state k = ST_PARKED \<and> \<not> t_unpark_pending k \<and> attrs_ok s k)"
| "task_ok s (Queued q) k \<longleftrightarrow> t_state k = ST_READY \<and> fits s q k \<and> attrs_ok s k"
| "task_ok s (Claimed v) k \<longleftrightarrow> t_state k = ST_READY \<and> sits s v k \<and> attrs_ok s k"
| "task_ok s (On v) k \<longleftrightarrow> t_state k = ST_RUNNING \<and> sits s v k \<and> attrs_ok s k"

definition tracks :: "sched \<Rightarrow> (nat \<Rightarrow> addr option) \<Rightarrow> (addr \<Rightarrow> loc) \<Rightarrow> bool" where
  "tracks s c l \<longleftrightarrow> (\<forall>t q. l t = Queued q \<longleftrightarrow> t \<in> set (run_list s q)) \<and> (\<forall>t v. l t = Claimed v \<longleftrightarrow> c v = Some t) \<and>
     (\<forall>t v. l t = On v \<longleftrightarrow> v_current (s_vp s v) = Some t) \<and> (\<forall>v. c v = None \<or> v_current (s_vp s v) = None)"

abbreviation states :: "sched \<Rightarrow> addr \<Rightarrow> task_state" where
  "states s t \<equiv> t_state (s_task s t)"

definition count_in :: "(addr \<Rightarrow> task_state) \<Rightarrow> task_state \<Rightarrow> u64" where
  "count_in st x = of_nat (card {t. st t = x})"

definition gauges_ok :: "sched \<Rightarrow> bool" where
  "gauges_ok s \<longleftrightarrow> finite {t. states s t \<noteq> ST_NEW} \<and> st_ready (s_stats s) = count_in (states s) ST_READY \<and>
     st_running (s_stats s) = count_in (states s) ST_RUNNING \<and> st_parked (s_stats s) = count_in (states s) ST_PARKED"

definition cursors_ok :: "sched \<Rightarrow> bool" where
  "cursors_ok s \<longleftrightarrow> (\<forall>v. cursor_ok s v)"

definition sched_inv :: "gsys \<Rightarrow> (addr \<Rightarrow> loc) \<Rightarrow> bool" where
  "sched_inv x l \<longleftrightarrow> runq_ok (s_rq (fst x)) \<and> tracks (fst x) (snd x) l \<and> (\<forall>t. task_ok (fst x) (l t) (s_task (fst x) t)) \<and>
     gauges_ok (fst x) \<and> cursors_ok (fst x)"

lemma sched_invI:
  "runq_ok (s_rq s) \<Longrightarrow> tracks s c l \<Longrightarrow> (\<And>t. task_ok s (l t) (s_task s t)) \<Longrightarrow> gauges_ok s \<Longrightarrow> cursors_ok s \<Longrightarrow> sched_inv (s, c) l"
  by (simp add: sched_inv_def)

lemma sched_invD:
  assumes "sched_inv (s, c) l"
  shows "runq_ok (s_rq s)" and "tracks s c l" and "task_ok s (l t) (s_task s t)" and "gauges_ok s" and "cursors_ok s"
  using assms by (simp_all add: sched_inv_def)

lemma tracksD:
  assumes "tracks s c l"
  shows "l t = Queued q \<longleftrightarrow> t \<in> set (run_list s q)" and "l t = Claimed v \<longleftrightarrow> c v = Some t"
    and "l t = On v \<longleftrightarrow> v_current (s_vp s v) = Some t" and "c v = None \<or> v_current (s_vp s v) = None"
  using assms by (auto simp: tracks_def)

section \<open>Counting\<close>

lemma count_in_upd:
  assumes "finite {t. st t \<noteq> ST_NEW}" and "x \<noteq> ST_NEW"
  shows "count_in (st(t := y)) x = count_in st x + (if y = x then 1 else 0) - (if st t = x then 1 else 0)"
proof -
  have fin: "finite ({u. st u = x} - {t})" using assms by (auto intro: rev_finite_subset)
  have split: "card {u. f u = x} = card ({u. f u = x} - {t}) + (if f t = x then 1 else 0)"
    if "finite ({u. f u = x} - {t})" for f :: "addr \<Rightarrow> task_state"
  proof (cases "f t = x")
    case True
    then have "{u. f u = x} = insert t ({u. f u = x} - {t})" by auto
    then show ?thesis using that True card.insert_remove [of "{u. f u = x} - {t}" t] by (metis Diff_idemp Suc_eq_plus1)
  next
    case False
    then have "{u. f u = x} - {t} = {u. f u = x}" by auto
    with False show ?thesis by simp
  qed
  have same: "{u. (st(t := y)) u = x} - {t} = {u. st u = x} - {t}" by auto
  have "card {u. (st(t := y)) u = x} = card ({u. st u = x} - {t}) + (if y = x then 1 else 0)"
    using split [of "st(t := y)"] fin unfolding same by simp
  with split [OF fin] show ?thesis unfolding count_in_def by simp
qed

lemma gauges_move:
  assumes "gauges_ok s" and st: "states s' = (states s)(t := y)"
    and "st_ready (s_stats s') = st_ready (s_stats s) + (if y = ST_READY then 1 else 0) - (if states s t = ST_READY then 1 else 0)"
    and "st_running (s_stats s') = st_running (s_stats s) + (if y = ST_RUNNING then 1 else 0) - (if states s t = ST_RUNNING then 1 else 0)"
    and "st_parked (s_stats s') = st_parked (s_stats s) + (if y = ST_PARKED then 1 else 0) - (if states s t = ST_PARKED then 1 else 0)"
  shows "gauges_ok s'"
proof -
  have fin: "finite {u. states s u \<noteq> ST_NEW}" using assms(1) by (simp add: gauges_ok_def)
  have "{u. states s' u \<noteq> ST_NEW} \<subseteq> insert t {u. states s u \<noteq> ST_NEW}" using fun_cong [OF st] by auto
  then have "finite {u. states s' u \<noteq> ST_NEW}" using fin by (auto intro: finite_subset)
  then show ?thesis using assms(1,3-5) count_in_upd [OF fin, of _ t y] unfolding gauges_ok_def st by simp
qed

section \<open>Detaching and attaching a task\<close>

definition placed :: "sched \<Rightarrow> (nat \<Rightarrow> addr option) \<Rightarrow> (addr \<Rightarrow> loc) \<Rightarrow> bool" where
  "placed s c l \<longleftrightarrow> runq_ok (s_rq s) \<and> tracks s c l \<and> (\<forall>t. task_ok s (l t) (s_task s t)) \<and> cursors_ok s"

definition detached :: "sched \<Rightarrow> (nat \<Rightarrow> addr option) \<Rightarrow> (addr \<Rightarrow> loc) \<Rightarrow> addr \<Rightarrow> bool" where
  "detached s c l t \<longleftrightarrow> runq_ok (s_rq s) \<and> tracks s c l \<and> l t = Nowhere \<and> (\<forall>u. u \<noteq> t \<longrightarrow> task_ok s (l u) (s_task s u)) \<and>
     cursors_ok s"

lemma sched_inv_placed: "sched_inv (s, c) l \<longleftrightarrow> placed s c l \<and> gauges_ok s"
  by (auto simp: sched_inv_def placed_def)

definition env_le :: "sched \<Rightarrow> sched \<Rightarrow> bool" where
  "env_le s s' \<longleftrightarrow> s_nvp s \<le> s_nvp s' \<and> (\<forall>u < s_nvp s. v_group (s_vp s' u) = v_group (s_vp s u))"

lemma in_group_mono: "env_le s s' \<Longrightarrow> in_group s v k \<Longrightarrow> in_group s' v k"
  by (auto simp: env_le_def in_group_def)

lemma fits_mono: "env_le s s' \<Longrightarrow> fits s q k \<Longrightarrow> fits s' q k"
  by (cases q) (auto simp: env_le_def)

lemma task_ok_mono: "env_le s s' \<Longrightarrow> task_ok s x k \<Longrightarrow> task_ok s' x k"
  by (cases x) (auto simp: sits_def attrs_ok_def intro: in_group_mono fits_mono)

text \<open>The parts of the state that the places of the tasks depend on.\<close>

definition same_places :: "addr \<Rightarrow> sched \<Rightarrow> sched \<Rightarrow> bool" where
  "same_places t s s' \<longleftrightarrow> s_rq s' = s_rq s \<and> s_nvp s' = s_nvp s \<and> (\<forall>u. u \<noteq> t \<longrightarrow> s_task s' u = s_task s u) \<and>
     (\<forall>v. v_group (s_vp s' v) = v_group (s_vp s v) \<and> v_current (s_vp s' v) = v_current (s_vp s v) \<and>
        v_aging_cursor (s_vp s' v) = v_aging_cursor (s_vp s v))"

lemma same_places_env: "same_places t s s' \<Longrightarrow> env_le s s'"
  by (simp add: same_places_def env_le_def)

lemma same_places_tracks: "same_places t s s' \<Longrightarrow> tracks s' c l = tracks s c l"
  by (simp add: same_places_def tracks_def)

lemma detached_frame: "detached s c l t \<Longrightarrow> same_places t s s' \<Longrightarrow> detached s' c l t"
  using same_places_tracks [of t s s' c l] task_ok_mono [OF same_places_env, of t s s']
  by (auto simp: detached_def same_places_def cursors_ok_def cursor_ok_def)

lemma detach_nowhere: "placed s c l \<Longrightarrow> l t = Nowhere \<Longrightarrow> detached s c l t"
  by (simp add: placed_def detached_def)

lemma attach_nowhere:
  assumes "detached s c l t" and "task_ok s Nowhere (s_task s t)"
  shows "placed s c l"
proof -
  have "task_ok s (l u) (s_task s u)" for u using assms by (cases "u = t") (simp_all add: detached_def)
  with assms(1) show ?thesis by (simp add: placed_def detached_def)
qed

lemma set_current_sel [simp]: "s_rq (set_current v to s) = s_rq s" "s_task (set_current v to s) = s_task s"
  "s_nvp (set_current v to s) = s_nvp s" "s_stats (set_current v to s) = s_stats s"
  "v_group (s_vp (set_current v to s) u) = v_group (s_vp s u)"
  "v_aging_cursor (s_vp (set_current v to s) u) = v_aging_cursor (s_vp s u)"
  "v_current (s_vp (set_current v to s) u) = (if u = v then to else v_current (s_vp s u))"
  by (simp_all add: set_current_def)

lemma env_le_eq: "s_nvp s' = s_nvp s \<Longrightarrow> (\<And>u. v_group (s_vp s' u) = v_group (s_vp s u)) \<Longrightarrow> env_le s s'"
  by (simp add: env_le_def)

lemma detach_current:
  assumes "placed s c l" and cur: "v_current (s_vp s v) = Some t"
  shows "detached (set_current v None s) c (l(t := Nowhere)) t" and "l t = On v"
    and "sits s v (s_task s t)" and "attrs_ok s (s_task s t)" and "states s t = ST_RUNNING"
proof -
  have tr: "tracks s c l" and ok: "\<And>u. task_ok s (l u) (s_task s u)" using assms(1) by (simp_all add: placed_def)
  show on: "l t = On v" using tracksD(3) [OF tr] cur by simp
  show "sits s v (s_task s t)" "attrs_ok s (s_task s t)" "states s t = ST_RUNNING" using ok [of t] on by auto
  have env: "env_le s (set_current v None s)" by (rule env_le_eq) simp_all
  have q: "t \<notin> set (run_list s q)" for q using tracksD(1) [OF tr, of t q] on by simp
  have cl: "c u \<noteq> Some t" for u using tracksD(2) [OF tr, of t u] on by simp
  have cu: "v_current (s_vp s u) = Some t \<longleftrightarrow> u = v" for u using tracksD(3) [OF tr, of t u] on by auto
  have "tracks (set_current v None s) c (l(t := Nowhere))"
    unfolding tracks_def set_current_sel using tr q cl cu by (auto simp: tracks_def cur)
  then show "detached (set_current v None s) c (l(t := Nowhere)) t"
    using assms(1) task_ok_mono [OF env ok] by (auto simp: detached_def placed_def cursors_ok_def cursor_ok_def)
qed

lemma make_ready_sel [simp]:
  "s_nvp (task_make_ready now t q s) = s_nvp s" "s_vp (task_make_ready now t q s) = s_vp s"
  "s_task (task_make_ready now t q s) = (s_task s)(t := (s_task s t)\<lparr>t_state := ST_READY, t_ready_since := now\<rparr>)"
  "s_rq (task_make_ready now t q s) = task_queue_push q t (s_rq s)"
  "s_stats (task_make_ready now t q s) = (s_stats s)\<lparr>st_ready := st_ready (s_stats s) + 1\<rparr>"
  by (simp_all add: task_make_ready_def Let_def)

lemma attach_queue:
  assumes d: "detached s c l t" and f: "fits s q (s_task s t)" and a: "attrs_ok s (s_task s t)"
  shows "placed (task_make_ready now t q s) c (l(t := Queued q))"
proof -
  let ?s = "task_make_ready now t q s"
  have tr: "tracks s c l" and nw: "l t = Nowhere" and ok: "runq_ok (s_rq s)" using d by (simp_all add: detached_def)
  have q': "t \<notin> set (run_list s q')" for q' using tracksD(1) [OF tr, of t q'] nw by simp
  from runq_push [OF ok [unfolded runq_ok_def] q'] have "runq_rep (s_rq ?s) ((run_list s)(q := run_list s q @ [t]))" by simp
  then have rl: "runq_ok (s_rq ?s)" "run_list ?s = (run_list s)(q := run_list s q @ [t])" using runq_ok_iff by blast+
  have cl: "c u \<noteq> Some t" for u using tracksD(2) [OF tr, of t u] nw by simp
  have cu: "v_current (s_vp s u) \<noteq> Some t" for u using tracksD(3) [OF tr, of t u] nw by simp
  have tr': "tracks ?s c (l(t := Queued q))"
    unfolding tracks_def rl(2) using tr q' cl cu by (auto simp: tracks_def)
  have env: "env_le s ?s" by (rule env_le_eq) simp_all
  let ?k = "(s_task s t)\<lparr>t_state := ST_READY, t_ready_since := now\<rparr>"
  have "fits s q ?k" "attrs_ok s ?k" using f a by (cases q; simp add: attrs_ok_def in_group_def)+
  then have "task_ok ?s (Queued q) ?k" using task_ok_mono [OF env, of "Queued q" ?k] by simp
  moreover have "u \<noteq> t \<Longrightarrow> task_ok ?s (l u) (s_task s u)" for u using d task_ok_mono [OF env] by (simp add: detached_def)
  ultimately have "task_ok ?s ((l(t := Queued q)) u) (s_task ?s u)" for u by simp
  then show ?thesis using rl(1) tr' d by (simp add: placed_def detached_def cursors_ok_def cursor_ok_def)
qed

section \<open>Every step keeps the invariant\<close>

lemma spawn_inv:
  assumes inv: "sched_inv (s, c) l" and idle: "states s t \<in> {ST_NEW, ST_FINISHED}" and opt: "spawn_ok s prio grp b"
    and caller: "\<forall>v. caller = Some v \<longrightarrow> v < s_nvp s" and sp: "spawn_route caller t (task_fresh prio grp b) now s = (w, s')"
  obtains l' where "sched_inv (s', c) l'"
proof -
  have pl: "placed s c l" and g: "gauges_ok s" using inv by (simp_all add: sched_inv_placed)
  have nw: "l t = Nowhere" using sched_invD(3) [OF inv, of t] idle by (cases "l t") auto
  define k where "k = task_fresh prio grp b"
  define s1 where "s1 = upd_stats (\<lambda>x. x\<lparr>st_spawned := st_spawned x + 1\<rparr>) (upd_task t (\<lambda>_. k) s)"
  obtain q where s': "s' = task_make_ready now t q s1" and q: "q = fst (spawn_queue caller (s_vp s1) k)"
    using sp by (auto simp: spawn_route_def Let_def s1_def k_def split: prod.splits)
  have "same_places t s s1" by (simp add: same_places_def s1_def)
  then have d: "detached s1 c l t" using detached_frame detach_nowhere [OF pl nw] by blast
  have "fits s1 q (s_task s1 t)"
    using opt caller unfolding q by (auto simp: s1_def k_def task_fresh_def spawn_queue_def spawn_ok_def split: option.split)
  moreover have "attrs_ok s1 (s_task s1 t)"
    using opt by (auto simp: s1_def k_def task_fresh_def attrs_ok_def in_group_def spawn_ok_def)
  ultimately have "placed s' c (l(t := Queued q))" unfolding s' by (rule attach_queue [OF d])
  moreover have "gauges_ok s'" using g
    by (rule gauges_move [where t = t and y = ST_READY]) (use idle in \<open>auto simp: s' s1_def k_def task_fresh_def\<close>)
  ultimately show thesis using that by (simp add: sched_inv_placed)
qed

lemma yield_inv:
  assumes inv: "sched_inv (s, c) l" and cur: "v_current (s_vp s v) = Some t"
  obtains l' where "sched_inv (rt_enqueue v t now (set_current v None s), c) l'"
proof -
  have pl: "placed s c l" and g: "gauges_ok s" using inv by (simp_all add: sched_inv_placed)
  note dc = detach_current [OF pl cur]
  define s2 where "s2 = upd_vp v (\<lambda>w. w\<lparr>v_last_yielded := Some t\<rparr>)
    (upd_stats (\<lambda>x. x\<lparr>st_running := st_running x - 1, st_yields := st_yields x + 1\<rparr>) (set_current v None s))"
  define q where "q = resume_queue v (s_task s2 t)"
  have s': "rt_enqueue v t now (set_current v None s) = task_make_ready now t q s2" by (simp add: rt_enqueue_def Let_def s2_def q_def)
  have "same_places t (set_current v None s) s2" by (simp add: same_places_def s2_def)
  then have d: "detached s2 c (l(t := Nowhere)) t" using detached_frame dc(1) by blast
  have "fits s2 q (s_task s2 t)" "attrs_ok s2 (s_task s2 t)"
    using dc(3,4) unfolding q_def resume_queue_def
    by (auto simp: s2_def sits_def in_group_def attrs_ok_def set_current_def split: option.split)
  from attach_queue [OF d this] have "placed (task_make_ready now t q s2) c (l(t := Queued q))" by simp
  moreover have "gauges_ok (task_make_ready now t q s2)" using g
    by (rule gauges_move [where t = t and y = ST_READY]) (use dc(5) in \<open>auto simp: s2_def\<close>)
  ultimately show thesis using that unfolding s' by (simp add: sched_inv_placed)
qed

lemma park_inv:
  assumes inv: "sched_inv (s, c) l" and cur: "v_current (s_vp s v) = Some t"
  obtains l' where "sched_inv (rt_park v t now (set_current v None s), c) l'"
proof -
  have pl: "placed s c l" and g: "gauges_ok s" using inv by (simp_all add: sched_inv_placed)
  note dc = detach_current [OF pl cur]
  define s1 where "s1 = upd_stats (\<lambda>x. x\<lparr>st_running := st_running x - 1, st_parks := st_parks x + 1\<rparr>) (set_current v None s)"
  show thesis
  proof (cases "t_unpark_pending (s_task s t)")
    case True
    define s2 where "s2 = upd_task t (\<lambda>k. k\<lparr>t_unpark_pending := False\<rparr>) s1"
    define q where "q = resume_queue v (s_task s2 t)"
    have s': "rt_park v t now (set_current v None s) = task_make_ready now t q s2"
      using True by (simp add: rt_park_def Let_def s1_def s2_def q_def)
    have "same_places t (set_current v None s) s2" by (simp add: same_places_def s1_def s2_def)
    then have d: "detached s2 c (l(t := Nowhere)) t" using detached_frame dc(1) by blast
    have "fits s2 q (s_task s2 t)" "attrs_ok s2 (s_task s2 t)"
      using dc(3,4) unfolding q_def resume_queue_def
      by (auto simp: s1_def s2_def sits_def in_group_def attrs_ok_def set_current_def split: option.split)
    from attach_queue [OF d this] have "placed (task_make_ready now t q s2) c (l(t := Queued q))" by simp
    moreover have "gauges_ok (task_make_ready now t q s2)" using g
      by (rule gauges_move [where t = t and y = ST_READY]) (use dc(5) in \<open>auto simp: s1_def s2_def\<close>)
    ultimately show thesis using that unfolding s' by (simp add: sched_inv_placed)
  next
    case False
    define s2 where "s2 = upd_stats (\<lambda>x. x\<lparr>st_parked := st_parked x + 1\<rparr>) (upd_task t (\<lambda>k. k\<lparr>t_state := ST_PARKED\<rparr>) s1)"
    have s': "rt_park v t now (set_current v None s) = s2" using False by (simp add: rt_park_def Let_def s1_def s2_def)
    have "same_places t (set_current v None s) s2" by (simp add: same_places_def s1_def s2_def)
    then have d: "detached s2 c (l(t := Nowhere)) t" using detached_frame dc(1) by blast
    have "attrs_ok s2 (s_task s2 t)" using dc(4) by (auto simp: s1_def s2_def in_group_def attrs_ok_def set_current_def)
    then have "placed s2 c (l(t := Nowhere))" using False by (intro attach_nowhere [OF d]) (simp add: s1_def s2_def)
    moreover have "gauges_ok s2" using g
      by (rule gauges_move [where t = t and y = ST_PARKED]) (use dc(5) in \<open>auto simp: s1_def s2_def\<close>)
    ultimately show thesis using that unfolding s' by (simp add: sched_inv_placed)
  qed
qed

lemma finish_inv:
  assumes inv: "sched_inv (s, c) l" and cur: "v_current (s_vp s v) = Some t"
  obtains l' where "sched_inv (task_finished t (set_current v None s), c) l'"
proof -
  have pl: "placed s c l" and g: "gauges_ok s" using inv by (simp_all add: sched_inv_placed)
  note dc = detach_current [OF pl cur]
  let ?s = "task_finished t (set_current v None s)"
  have "same_places t (set_current v None s) ?s" by (simp add: same_places_def task_finished_def)
  then have "detached ?s c (l(t := Nowhere)) t" using detached_frame dc(1) by blast
  then have "placed ?s c (l(t := Nowhere))" by (rule attach_nowhere) (simp add: task_finished_def)
  moreover have "gauges_ok ?s" using g
    by (rule gauges_move [where t = t and y = ST_FINISHED]) (use dc(5) in \<open>auto simp: task_finished_def\<close>)
  ultimately show thesis using that by (simp add: sched_inv_placed)
qed

lemma unpark_cases:
  assumes "dlsm_gt_unpark stopped t now s = (st, w, s')"
  obtains (refused) "s' = s" and "st = DLSM_GT_E_STATE" and "states s t = ST_FINISHED \<or> stopped"
    | (parked) "states s t = ST_PARKED" and "st = DLSM_OK" and "w = snd (unpark_queue (s_task s t))" and "\<not> stopped" and
        "s' = task_make_ready now t (fst (unpark_queue (s_task s t)))
            (upd_stats (\<lambda>x. x\<lparr>st_parked := st_parked x - 1\<rparr>) (upd_stats (\<lambda>x. x\<lparr>st_unparks := st_unparks x + 1\<rparr>) s))"
    | (token) "states s t \<notin> {ST_PARKED, ST_FINISHED}" and "st = DLSM_OK" and "w = Wake_none" and "\<not> stopped" and
        "s' = upd_task t (\<lambda>k. k\<lparr>t_unpark_pending := True\<rparr>) (upd_stats (\<lambda>x. x\<lparr>st_unparks := st_unparks x + 1\<rparr>) s)"
proof -
  obtain q w' where uq: "unpark_queue (s_task s t) = (q, w')" by force
  show thesis
  proof (cases "states s t = ST_FINISHED \<or> stopped")
    case True
    with assms show thesis by (intro refused) (simp_all add: dlsm_gt_unpark_def)
  next
    case False
    note nf = False
    show thesis
    proof (cases "states s t = ST_PARKED")
      case True
      with assms nf show thesis by (intro parked) (simp_all add: dlsm_gt_unpark_def Let_def uq)
    next
      case False
      with assms nf show thesis by (intro token) (simp_all add: dlsm_gt_unpark_def Let_def)
    qed
  qed
qed

lemma unpark_inv:
  assumes inv: "sched_inv (s, c) l" and up: "dlsm_gt_unpark stopped t now s = (st, w, s')" and known: "states s t \<noteq> ST_NEW"
  obtains l' where "sched_inv (s', c) l'"
proof -
  have pl: "placed s c l" and g: "gauges_ok s" using inv by (simp_all add: sched_inv_placed)
  define s1 where "s1 = upd_stats (\<lambda>x. x\<lparr>st_unparks := st_unparks x + 1\<rparr>) s"
  from up show thesis
  proof (cases rule: unpark_cases)
    case refused
    with inv that show thesis by blast
  next
    case parked
    have nw: "l t = Nowhere" using sched_invD(3) [OF inv, of t] parked(1) by (cases "l t") auto
    have a: "attrs_ok s (s_task s t)" using sched_invD(3) [OF inv, of t] parked(1) nw by simp
    define s2 where "s2 = upd_stats (\<lambda>x. x\<lparr>st_parked := st_parked x - 1\<rparr>) s1"
    define q where "q = fst (unpark_queue (s_task s t))"
    have s': "s' = task_make_ready now t q s2" using parked(5) by (simp add: s1_def s2_def q_def)
    have "same_places t s s2" by (simp add: same_places_def s1_def s2_def)
    then have d: "detached s2 c l t" using detached_frame detach_nowhere [OF pl nw] by blast
    have "fits s2 q (s_task s2 t)" "attrs_ok s2 (s_task s2 t)"
      using a by (auto simp: q_def s1_def s2_def unpark_queue_def attrs_ok_def in_group_def split: option.split)
    from attach_queue [OF d this] have "placed s' c (l(t := Queued q))" by (simp add: s')
    moreover have "gauges_ok s'" using g
      by (rule gauges_move [where t = t and y = ST_READY]) (use parked(1) in \<open>auto simp: s' s1_def s2_def\<close>)
    ultimately show thesis using that by (simp add: sched_inv_placed)
  next
    case token
    have s': "s_rq s' = s_rq s" "s_nvp s' = s_nvp s" "s_vp s' = s_vp s"
      "s_task s' = (s_task s)(t := (s_task s t)\<lparr>t_unpark_pending := True\<rparr>)"
      using token(5) by simp_all
    have env: "env_le s s'" by (rule env_le_eq) (simp_all add: s')
    have "task_ok s' (l u) (s_task s' u)" for u
    proof (cases "u = t")
      case True
      let ?k = "(s_task s t)\<lparr>t_unpark_pending := True\<rparr>"
      have "fits s q ?k = fits s q (s_task s t)" for q by (cases q) simp_all
      then have "task_ok s (l t) ?k" using sched_invD(3) [OF inv, of t] token(1)
        by (cases "l t") (auto simp: sits_def attrs_ok_def in_group_def)
      with True task_ok_mono [OF env] show ?thesis by (simp add: s')
    next
      case False
      with task_ok_mono [OF env sched_invD(3) [OF inv, of u]] show ?thesis by (simp add: s')
    qed
    then have "placed s' c l" using pl by (simp add: placed_def tracks_def cursors_ok_def cursor_ok_def s')
    moreover have "gauges_ok s'" using g
      by (rule gauges_move [where t = t and y = "states s t"]) (auto simp: token(5))
    ultimately show thesis using that by (simp add: sched_inv_placed)
  qed
qed

lemma serves_sits:
  assumes "serves s v p q" and "fits s q k" and "attrs_ok s k" and "v < s_nvp s"
  shows "sits s v k"
  using assms by (auto simp: serves_def sits_def in_group_def attrs_ok_def)

lemma pop_inv:
  assumes inv: "sched_inv (s, c) l" and v: "v < s_nvp s" "v_current (s_vp s v) = None" "c v = None"
    and tk: "takes v p s t s'" and cur: "cursor_ok s' v"
  obtains l' where "sched_inv (s', c(v := Some t)) l'"
proof -
  have tr: "tracks s c l" and ok: "runq_ok (s_rq s)" using sched_invD [OF inv] by simp_all
  obtain q rest where q: "serves s v p q" "run_list s q = t # rest" "run_list s' = (run_list s)(q := rest)" "runq_ok (s_rq s')"
    using takes_lists [OF ok tk] by blast
  have pf: "policy_frame v s s'" using tk by (simp add: takes_def)
  have lt: "l t = Queued q" using tracksD(1) [OF tr, of t q] q(2) by simp
  have only: "t \<in> set (run_list s q') \<longleftrightarrow> q' = q" for q' using tracksD(1) [OF tr, of t q'] lt by auto
  have fresh: "t \<notin> set rest"
    using queue_holds_distinct [OF runq_repD(1) [OF ok [unfolded runq_ok_def], of q]] q(2) by simp
  have cl: "c u \<noteq> Some t" for u using tracksD(2) [OF tr, of t u] lt by simp
  have cu: "v_current (s_vp s u) \<noteq> Some t" for u using tracksD(3) [OF tr, of t u] lt by simp
  have currents: "v_current (s_vp s' u) = v_current (s_vp s u)" for u using pf by (simp add: policy_frame_def)
  define l' where "l' = l(t := Claimed v)"
  have "l' x = Queued r \<longleftrightarrow> x \<in> set (run_list s' r)" for x r
  proof (cases "x = t")
    case True
    with only fresh show ?thesis by (simp add: l'_def q(3))
  next
    case False
    then have "l' x = Queued r \<longleftrightarrow> x \<in> set (run_list s r)" using tracksD(1) [OF tr] by (simp add: l'_def)
    also have "\<dots> \<longleftrightarrow> x \<in> set (run_list s' r)" using False q(2) by (simp add: q(3))
    finally show ?thesis .
  qed
  moreover have "l' x = Claimed u \<longleftrightarrow> (c(v := Some t)) u = Some x" for x u
    using tracksD(2) [OF tr, of x u] cl [of u] v(3) by (auto simp: l'_def)
  moreover have "l' x = On u \<longleftrightarrow> v_current (s_vp s' u) = Some x" for x u
    using tracksD(3) [OF tr, of x u] cu by (auto simp: l'_def currents)
  moreover have "(c(v := Some t)) u = None \<or> v_current (s_vp s' u) = None" for u
    using tracksD(4) [OF tr, of u] v(2) by (simp add: currents)
  ultimately have tr': "tracks s' (c(v := Some t)) l'" by (simp add: tracks_def)
  have env: "env_le s s'" using pf by (auto simp: policy_frame_def intro: env_le_eq)
  have tasks: "s_task s' = s_task s" using pf by (simp add: policy_frame_def)
  have "task_ok s (l' u) (s_task s u)" for u
    using sched_invD(3) [OF inv, of u] serves_sits [OF q(1) _ _ v(1)] lt by (auto simp: l'_def)
  then have "task_ok s' (l' u) (s_task s' u)" for u using task_ok_mono [OF env] by (simp add: tasks)
  moreover have "cursors_ok s'"
    unfolding cursors_ok_def
  proof
    fix u
    show "cursor_ok s' u"
      using cur pf sched_invD(5) [OF inv] by (cases "u = v") (auto simp: policy_frame_def cursors_ok_def cursor_ok_def)
  qed
  moreover have "gauges_ok s'" using sched_invD(4) [OF inv] pf by (simp add: gauges_ok_def policy_frame_def)
  ultimately show thesis using that sched_invI [OF q(4) tr'] by blast
qed

lemma start_inv:
  assumes inv: "sched_inv (s, c) l" and cl: "c v = Some t"
  obtains l' where "sched_inv (set_current v (Some t) (vp_dispatch v t aged stolen now s), c(v := None)) l'"
proof -
  let ?s = "set_current v (Some t) (vp_dispatch v t aged stolen now s)"
  have tr: "tracks s c l" and ok: "runq_ok (s_rq s)" using sched_invD [OF inv] by simp_all
  have lt: "l t = Claimed v" using tracksD(2) [OF tr] cl by simp
  have sit: "sits s v (s_task s t)" "attrs_ok s (s_task s t)" "states s t = ST_READY" using sched_invD(3) [OF inv, of t] lt by auto
  have vc: "v_current (s_vp s v) = None" using tracksD(4) [OF tr, of v] cl by simp
  define l' where "l' = l(t := On v)"
  have only: "c u = Some t \<longleftrightarrow> u = v" for u using tracksD(2) [OF tr, of t u] lt by auto
  have cu: "v_current (s_vp s u) \<noteq> Some t" for u using tracksD(3) [OF tr, of t u] lt by simp
  have "l' x = Queued r \<longleftrightarrow> x \<in> set (run_list ?s r)" for x r
    using tracksD(1) [OF tr, of x r] lt by (auto simp: l'_def)
  moreover have "l' x = Claimed u \<longleftrightarrow> (c(v := None)) u = Some x" for x u
    using tracksD(2) [OF tr, of x u] only [of u] cl by (auto simp: l'_def)
  moreover have "l' x = On u \<longleftrightarrow> v_current (s_vp ?s u) = Some x" for x u
    using tracksD(3) [OF tr, of x u] cu [of u] vc by (auto simp: l'_def)
  moreover have "(c(v := None)) u = None \<or> v_current (s_vp ?s u) = None" for u
    using tracksD(4) [OF tr, of u] by auto
  ultimately have tr': "tracks ?s (c(v := None)) l'" by (simp add: tracks_def)
  have env: "env_le s ?s" by (rule env_le_eq) simp_all
  have tasks: "s_task ?s = (s_task s)(t := (s_task s t)\<lparr>t_state := ST_RUNNING, t_last_vp := Some v, t_dispatch_started := now, t_reported := False\<rparr>)"
    by (simp add: vp_dispatch_def Let_def)
  have "task_ok ?s (l' u) (s_task ?s u)" for u
  proof (cases "u = t")
    case True
    have "task_ok s (On v) (s_task ?s t)" using sit unfolding tasks by (auto simp: sits_def attrs_ok_def in_group_def)
    from task_ok_mono [OF env this] True show ?thesis by (simp add: l'_def)
  next
    case False
    with task_ok_mono [OF env sched_invD(3) [OF inv, of u]] show ?thesis unfolding tasks by (simp add: l'_def)
  qed
  moreover have "cursors_ok ?s" using sched_invD(5) [OF inv] by (simp add: cursors_ok_def cursor_ok_def vp_dispatch_def Let_def)
  moreover have "gauges_ok ?s" using sched_invD(4) [OF inv]
    by (rule gauges_move [where t = t and y = ST_RUNNING]) (use sit(3) in \<open>auto simp: vp_dispatch_def Let_def\<close>)
  moreover have "runq_ok (s_rq ?s)" using ok by simp
  ultimately show thesis using that sched_invI [OF _ tr'] by blast
qed

lemma add_vp_inv:
  assumes inv: "sched_inv (s, c) l"
  shows "sched_inv (s\<lparr>s_vp := (s_vp s)(s_nvp s := vp_fresh g), s_nvp := s_nvp s + 1\<rparr>, c) l"
proof -
  let ?s = "s\<lparr>s_vp := (s_vp s)(s_nvp s := vp_fresh g), s_nvp := s_nvp s + 1\<rparr>"
  have tr: "tracks s c l" using sched_invD [OF inv] by simp
  have "v_current (s_vp s (s_nvp s)) = None"
  proof (rule ccontr)
    assume "v_current (s_vp s (s_nvp s)) \<noteq> None"
    then obtain t where "l t = On (s_nvp s)" using tracksD(3) [OF tr] by blast
    with sched_invD(3) [OF inv, of t] show False by (simp add: sits_def in_group_def)
  qed
  then have tr': "tracks ?s c l" using tr unfolding tracks_def by (auto simp: vp_fresh_def)
  have env: "env_le s ?s" by (simp add: env_le_def)
  have "task_ok ?s (l t) (s_task ?s t)" for t using task_ok_mono [OF env sched_invD(3) [OF inv, of t]] by simp
  then show ?thesis using sched_invD [OF inv] tr'
    by (auto intro!: sched_invI simp: gauges_ok_def cursors_ok_def cursor_ok_def vp_fresh_def)
qed

lemma init_inv: "sched_inv (sched_init n groups, \<lambda>_. None) (\<lambda>_. Nowhere)"
proof -
  have "runq_ok runq_empty" "queued runq_empty = (\<lambda>_. [])" using runq_ok_iff [THEN iffD2, OF runq_empty_rep] by auto
  then show ?thesis
    by (auto intro!: sched_invI simp: sched_init_def tracks_def vp_fresh_def task_fresh_def gauges_ok_def count_in_def
        cursors_ok_def cursor_ok_def)
qed

lemma gstep_inv: "gstep x y \<Longrightarrow> sched_inv x l \<Longrightarrow> \<exists>l'. sched_inv y l'"
proof (induction rule: gstep.induct)
  case (spawn s t prio grp b caller now w s' c)
  then show ?case by (metis spawn_inv)
next
  case (pop v s c p t s')
  then show ?case by (metis pop_inv)
next
  case (start c v t s aged stolen now)
  then show ?case by (metis start_inv)
next
  case (unpark s t stopped now st w s' c)
  then show ?case by (metis unpark_inv)
qed (metis yield_inv park_inv finish_inv add_vp_inv)+

lemma greach_inv: "greach x \<Longrightarrow> \<exists>l. sched_inv x l"
proof (induction rule: greach.induct)
  case (init n groups)
  then show ?case using init_inv by blast
next
  case (step x y)
  then show ?case using gstep_inv by blast
qed

section \<open>The scheduler among the steps\<close>

lemma try_next_cursor:
  assumes "runq_ok (s_rq s)" and "v < s_nvp s" and "cursor_ok s v" and "vp_choose v s = (Some t, stolen, aged, s1)"
  shows "cursor_ok s1 v"
proof (cases aged)
  case True
  from choose_good [OF assms(1,2) _ _ assms(4)] assms(3) True obtain p where "p < 8" "1 \<le> p" "v_aging_cursor (s_vp s1 v) = next_cursor p"
    by (auto simp: good_choice_def cursor_ok_def Let_def)
  then show ?thesis by (auto simp: cursor_ok_def next_cursor_def)
next
  case False
  then have "counters s1 v = counters s v"
    using assms(3,4) cursor_kept [OF assms(1,2)] by (simp add: cursor_ok_def)
  with assms(3) show ?thesis by (simp add: cursor_ok_counters)
qed

lemma try_next_is_steps:
  assumes "sched_inv (s, c) l" and "v < s_nvp s" and "v_current (s_vp s v) = None" and "c v = None"
    and "vp_try_next v now s = (Some t, s')"
  obtains y where "gstep (s, c) y" and "gstep y (set_current v (Some t) s', c)"
proof -
  have ok: "runq_ok (s_rq s)" and cur: "cursor_ok s v" using sched_invD(1,5) [OF assms(1)] by (simp_all add: cursors_ok_def)
  from assms(5) obtain stolen aged s1 where ch: "vp_choose v s = (Some t, stolen, aged, s1)" and s': "s' = vp_dispatch v t aged stolen now s1"
    by (cases rule: try_next_cases) auto
  from choose_good [OF ok assms(2) _ _ ch] cur obtain p where p: "p < 8" "takes v p s t s1"
    by (auto simp: good_choice_def cursor_ok_def Let_def split: if_splits)
  have one: "gstep (s, c) (s1, c(v := Some t))"
    by (rule gstep.pop) (use assms(2,3,4) p try_next_cursor [OF ok assms(2) cur ch] in simp_all)
  have "gstep (s1, c(v := Some t)) (set_current v (Some t) (vp_dispatch v t aged stolen now s1), (c(v := Some t))(v := None))"
    by (rule gstep.start) simp
  moreover have "(c(v := Some t))(v := None) = c" using assms(4) by auto
  ultimately show thesis using that one s' by simp
qed

section \<open>Properties\<close>

text \<open>A run: a task is spawned, dispatched and parked.\<close>

definition run_spawned :: sched where
  "run_spawned = snd (spawn_route None 5 (task_fresh 4 0 None) 1 (sched_init 1 (\<lambda>_. 0)))"

definition run_running :: sched where
  "run_running = set_current 0 (Some 5) (snd (vp_try_next 0 2 run_spawned))"

definition run_parked :: sched where
  "run_parked = rt_park 0 5 3 (set_current 0 None run_running)"

lemma run_spawned_reach: "greach (run_spawned, \<lambda>_. None)"
proof -
  have "gstep (sched_init 1 (\<lambda>_. 0), \<lambda>_. None) (run_spawned, \<lambda>_. None)"
    by (rule gstep.spawn [where t = 5 and prio = 4 and grp = 0 and b = None and caller = None and now = 1])
       (auto simp: run_spawned_def sched_init_def task_fresh_def spawn_ok_def prod_eq_iff)
  then show ?thesis using greach.init greach.step by blast
qed

lemma run_spawned_next: "fst (vp_try_next 0 2 run_spawned) = Some 5" "s_nvp run_spawned = 1" "v_current (s_vp run_spawned 0) = None"
  unfolding run_spawned_def by code_simp+

lemma run_running_reach: "greach (run_running, \<lambda>_. None)"
proof -
  obtain l where inv: "sched_inv (run_spawned, \<lambda>_. None) l" using greach_inv [OF run_spawned_reach] by blast
  have nx: "vp_try_next 0 2 run_spawned = (Some 5, snd (vp_try_next 0 2 run_spawned))" using run_spawned_next(1) by (simp add: prod_eq_iff)
  obtain y where "gstep (run_spawned, \<lambda>_. None) y" "gstep y (run_running, \<lambda>_. None)"
    using try_next_is_steps [OF inv _ _ _ nx] run_spawned_next unfolding run_running_def by auto
  then show ?thesis using greach.step [OF greach.step [OF run_spawned_reach]] by blast
qed

lemma run_running_task: "s_task run_running 5 = (s_task run_spawned 5)\<lparr>t_state := ST_RUNNING, t_last_vp := Some 0, t_dispatch_started := 2, t_reported := False\<rparr>"
proof -
  obtain l where inv: "sched_inv (run_spawned, \<lambda>_. None) l" using greach_inv [OF run_spawned_reach] by blast
  have nx: "vp_try_next 0 2 run_spawned = (Some 5, snd (vp_try_next 0 2 run_spawned))" using run_spawned_next(1) by (simp add: prod_eq_iff)
  have cur: "cursor_ok run_spawned 0" using sched_invD(5) [OF inv] by (simp add: cursors_ok_def)
  from nx obtain stolen aged s1 where ch: "vp_choose 0 run_spawned = (Some 5, stolen, aged, s1)"
    and s': "snd (vp_try_next 0 2 run_spawned) = vp_dispatch 0 5 aged stolen 2 s1"
    by (cases rule: try_next_cases) auto
  from choose_good [OF sched_invD(1) [OF inv] _ _ _ ch] cur run_spawned_next(2) obtain p where "takes 0 p run_spawned 5 s1"
    by (auto simp: good_choice_def cursor_ok_def Let_def split: if_splits)
  then show ?thesis unfolding run_running_def s' by (simp add: takes_def policy_frame_def vp_dispatch_def Let_def)
qed

lemma run_running_facts: "v_current (s_vp run_running 0) = Some 5" "states run_running 5 = ST_RUNNING"
  "\<not> t_unpark_pending (s_task run_running 5)" "t_vp (s_task run_running 5) = None"
  by (simp add: run_running_def)
     (simp_all add: run_running_task run_spawned_def spawn_route_def task_fresh_def spawn_queue_def Let_def)

lemma run_parked_reach: "greach (run_parked, \<lambda>_. None)"
  using greach.step [OF run_running_reach gstep.parks [OF run_running_facts(1), of "\<lambda>_. None" 3]] by (simp add: run_parked_def)

lemma run_parked_facts: "states run_parked 5 = ST_PARKED" "t_last_vp (s_task run_parked 5) = Some 0" "t_vp (s_task run_parked 5) = None"
  using run_running_facts by (simp_all add: run_parked_def rt_park_def Let_def run_running_task)

text \<open>
  Claim C3. Every task is in one place: in every interleaving of spawns, dispatches by any number of
  processors, yields, parks, unparks and exits, a task is running exactly when it is the current task of a
  processor, and of only one; a task is ready exactly when it is in one queue, once, or is held by one
  processor that is about to start it; parked, new and finished tasks are nowhere.
\<close>

theorem sched_placement:
  assumes "greach (s, c)"
  shows "(\<forall>t. states s t = ST_RUNNING \<longleftrightarrow> (\<exists>v. v_current (s_vp s v) = Some t)) \<and>
    (\<forall>t u v. v_current (s_vp s u) = Some t \<and> v_current (s_vp s v) = Some t \<longrightarrow> u = v) \<and>
    (\<forall>t. states s t = ST_READY \<longleftrightarrow> (\<exists>!q. t \<in> set (run_list s q)) \<noteq> (\<exists>!v. c v = Some t)) \<and>
    (\<forall>t q. t \<in> set (run_list s q) \<longrightarrow> states s t = ST_READY) \<and> (\<forall>t v. c v = Some t \<longrightarrow> states s t = ST_READY) \<and>
    (\<forall>q. distinct (run_list s q))"
proof -
  obtain l where inv: "sched_inv (s, c) l" using greach_inv [OF assms] by blast
  note tr = sched_invD(2) [OF inv] and ok = sched_invD(3) [OF inv]
  have running: "states s t = ST_RUNNING \<longleftrightarrow> (\<exists>v. l t = On v)" for t using ok [of t] by (cases "l t") auto
  have ready: "states s t = ST_READY \<longleftrightarrow> (\<exists>q. l t = Queued q) \<or> (\<exists>v. l t = Claimed v)" for t using ok [of t] by (cases "l t") auto
  have q: "(\<exists>!q. t \<in> set (run_list s q)) \<longleftrightarrow> (\<exists>q. l t = Queued q)" for t
    unfolding tracksD(1) [OF tr, symmetric] by (metis loc.inject(1))
  have v: "(\<exists>!v. c v = Some t) \<longleftrightarrow> (\<exists>v. l t = Claimed v)" for t
    unfolding tracksD(2) [OF tr, symmetric] by (metis loc.inject(2))
  have "states s t = ST_READY \<longleftrightarrow> (\<exists>!q. t \<in> set (run_list s q)) \<noteq> (\<exists>!v. c v = Some t)" for t
    unfolding ready q v by (cases "l t") simp_all
  moreover have "states s t = ST_RUNNING \<longleftrightarrow> (\<exists>v. v_current (s_vp s v) = Some t)" for t
    unfolding running tracksD(3) [OF tr] ..
  moreover have "u = v" if "v_current (s_vp s u) = Some t" "v_current (s_vp s v) = Some t" for t u v
    using that tracksD(3) [OF tr, of t u] tracksD(3) [OF tr, of t v] by simp
  moreover have "states s t = ST_READY" if "t \<in> set (run_list s q)" for t q
    using that ready tracksD(1) [OF tr, of t q] by blast
  moreover have "states s t = ST_READY" if "c v = Some t" for t v using that ready tracksD(2) [OF tr, of t v] by blast
  moreover have "distinct (run_list s q)" for q
    using queue_holds_distinct [OF runq_repD(1) [OF sched_invD(1) [OF inv, unfolded runq_ok_def]]] .
  ultimately show ?thesis by blast
qed

theorem sched_placement_witness:
  "states run_spawned 5 = ST_READY \<and> (\<exists>!q. 5 \<in> set (run_list run_spawned q))"
proof -
  have "states run_spawned 5 = ST_READY" unfolding run_spawned_def by code_simp
  with sched_placement [OF run_spawned_reach] show ?thesis by (metis option.distinct(1))
qed

text \<open>
  Claim C21. Tasks run where they may: the current task of a processor belongs to the processor's group, and
  if it is bound to a processor it is this one; a queued task waits in a queue of its own priority that only
  processors of its group, and for a bound task only its processor, may serve.
\<close>

theorem sched_affinity:
  assumes "greach (s, c)"
  shows "(\<forall>v t. v_current (s_vp s v) = Some t \<longrightarrow> v < s_nvp s \<and> v_group (s_vp s v) = t_group (s_task s t) \<and>
      (\<forall>b. t_vp (s_task s t) = Some b \<longrightarrow> b = v)) \<and>
    (\<forall>q t v p. t \<in> set (run_list s q) \<and> serves s v p q \<and> v < s_nvp s \<longrightarrow> p = t_priority (s_task s t) \<and>
      v_group (s_vp s v) = t_group (s_task s t) \<and> (\<forall>b. t_vp (s_task s t) = Some b \<longrightarrow> b = v))"
proof -
  obtain l where inv: "sched_inv (s, c) l" using greach_inv [OF assms] by blast
  note tr = sched_invD(2) [OF inv] and ok = sched_invD(3) [OF inv]
  have "v < s_nvp s \<and> v_group (s_vp s v) = t_group (s_task s t) \<and> (\<forall>b. t_vp (s_task s t) = Some b \<longrightarrow> b = v)"
    if "v_current (s_vp s v) = Some t" for v t
    using that ok [of t] tracksD(3) [OF tr, of t v] by (auto simp: sits_def in_group_def)
  moreover have "p = t_priority (s_task s t) \<and> v_group (s_vp s v) = t_group (s_task s t) \<and> (\<forall>b. t_vp (s_task s t) = Some b \<longrightarrow> b = v)"
    if "t \<in> set (run_list s q)" "serves s v p q" "v < s_nvp s" for q t v p
  proof -
    have f: "fits s q (s_task s t)" "attrs_ok s (s_task s t)" using ok [of t] tracksD(1) [OF tr, of t q] that(1) by auto
    have "p = t_priority (s_task s t)" using that(2) f(1) by (auto simp: serves_def)
    with serves_sits [OF that(2) f that(3)] show ?thesis by (auto simp: sits_def in_group_def)
  qed
  ultimately show ?thesis by blast
qed

theorem sched_affinity_witness:
  "v_current (s_vp run_running 0) = Some 5 \<and> v_group (s_vp run_running 0) = t_group (s_task run_running 5)"
  using sched_affinity [OF run_running_reach] run_running_facts(1) by blast

text \<open>
  The gauges of the statistics are exact: \<open>ready\<close>, \<open>running\<close> and \<open>parked\<close> count the tasks in those
  states, modulo the width of the counters.
\<close>

theorem sched_gauges_exact:
  assumes "greach (s, c)"
  shows "st_ready (s_stats s) = of_nat (card {t. states s t = ST_READY}) \<and>
    st_running (s_stats s) = of_nat (card {t. states s t = ST_RUNNING}) \<and>
    st_parked (s_stats s) = of_nat (card {t. states s t = ST_PARKED})"
proof -
  obtain l where inv: "sched_inv (s, c) l" using greach_inv [OF assms] by blast
  from sched_invD(4) [OF inv] show ?thesis by (simp add: gauges_ok_def count_in_def)
qed

theorem sched_gauges_exact_witness:
  "st_ready (s_stats run_spawned) = 1 \<and> of_nat (card {t. states run_spawned t = ST_READY}) = (1 :: u64)"
proof -
  have "st_ready (s_stats run_spawned) = 1" unfolding run_spawned_def by code_simp
  with sched_gauges_exact [OF run_spawned_reach] show ?thesis by simp
qed

text \<open>A wake-up request for a task in a queue names a processor, or the group, that serves the queue.\<close>

fun wakes :: "wake \<Rightarrow> queue_id \<Rightarrow> bool" where
  "wakes (Wake_vp v) (Bound u p) \<longleftrightarrow> u = v"
| "wakes (Wake_vp v) (Local u p) \<longleftrightarrow> u = v"
| "wakes (Wake_group g x) (Group h p) \<longleftrightarrow> h = g"
| "wakes _ _ \<longleftrightarrow> False"

lemma unpark_queue_wakes: "unpark_queue k = (q, w) \<Longrightarrow> wakes w q"
  by (auto simp: unpark_queue_def split: option.splits)

lemma token_kept:
  "gstep x y \<Longrightarrow> sched_inv x l \<Longrightarrow> t_unpark_pending (s_task (fst x) t) \<Longrightarrow> states (fst x) t \<in> {ST_READY, ST_RUNNING} \<Longrightarrow>
     states (fst y) t \<noteq> ST_PARKED \<and>
     (t_unpark_pending (s_task (fst y) t) \<or> states (fst x) t = ST_RUNNING \<and> states (fst y) t = ST_READY)"
proof (induction rule: gstep.induct)
  case (spawn s u prio grp b caller now w s' c)
  then have "u \<noteq> t" by auto
  with spawn show ?case by (auto simp: spawn_route_def Let_def split: prod.splits)
next
  case (pop v s c p u s')
  then show ?case by (auto simp: takes_def policy_frame_def)
next
  case (start c v u s aged stolen now)
  then show ?case by (auto simp: vp_dispatch_def Let_def)
next
  case (yields s v u c now)
  then show ?case by (auto simp: rt_enqueue_def Let_def)
next
  case (parks s v u c now)
  have "states s u = ST_RUNNING" using detach_current(5) [OF _ parks(1)] parks(2) by (auto simp: sched_inv_placed)
  with parks show ?case by (cases "u = t") (auto simp: rt_park_def Let_def)
next
  case (finish s v u c)
  then show ?case by (auto simp: task_finished_def)
next
  case (unpark s u stopped now st w s' c)
  from unpark(2) show ?case
    by (cases rule: unpark_cases) (use unpark(4,5) in \<open>auto\<close>)
qed auto

text \<open>
  Claim C4. An unpark is never lost, in any interleaving. A parked task never has a token. An unpark of a
  parked task appends it to a queue and wakes a processor that serves this queue; an unpark of any other
  live task leaves a token. And no step parks a task that has a token: it keeps the token until its own
  park, which puts it back into a queue at once.
\<close>

theorem unpark_not_lost:
  assumes "greach (s, c)" and "states s t \<notin> {ST_NEW, ST_FINISHED}" and "dlsm_gt_unpark False t now s = (st, w, s')"
  shows "st = DLSM_OK \<and> \<not> (states s t = ST_PARKED \<and> t_unpark_pending (s_task s t)) \<and>
    (if states s t = ST_PARKED
     then states s' t = ST_READY \<and> (\<exists>q. run_list s' = (run_list s)(q := run_list s q @ [t]) \<and> wakes w q)
     else t_unpark_pending (s_task s' t) \<and> states s' t = states s t) \<and>
    (\<forall>y u. gstep (s, c) y \<and> t_unpark_pending (s_task s u) \<and> states s u \<in> {ST_READY, ST_RUNNING} \<longrightarrow>
       states (fst y) u \<noteq> ST_PARKED \<and>
       (t_unpark_pending (s_task (fst y) u) \<or> states s u = ST_RUNNING \<and> states (fst y) u = ST_READY))"
proof -
  obtain l where inv: "sched_inv (s, c) l" using greach_inv [OF assms(1)] by blast
  have none: "\<not> (states s t = ST_PARKED \<and> t_unpark_pending (s_task s t))"
    using sched_invD(3) [OF inv, of t] by (cases "l t") auto
  have kept: "\<forall>y u. gstep (s, c) y \<and> t_unpark_pending (s_task s u) \<and> states s u \<in> {ST_READY, ST_RUNNING} \<longrightarrow>
       states (fst y) u \<noteq> ST_PARKED \<and>
       (t_unpark_pending (s_task (fst y) u) \<or> states s u = ST_RUNNING \<and> states (fst y) u = ST_READY)"
    using token_kept [OF _ inv] by (metis fst_conv)
  from assms(3) show ?thesis
  proof (cases rule: unpark_cases)
    case refused
    with assms(2) show ?thesis by simp
  next
    case parked
    obtain q w' where q: "unpark_queue (s_task s t) = (q, w')" by force
    have "l t = Nowhere" using sched_invD(3) [OF inv, of t] parked(1) by (cases "l t") auto
    then have "t \<notin> set (run_list s q')" for q' using tracksD(1) [OF sched_invD(2) [OF inv], of t q'] by simp
    from runq_push [OF sched_invD(1) [OF inv, unfolded runq_ok_def] this, of q]
    have "run_list s' = (run_list s)(q := run_list s q @ [t])" using runq_rep_queued by (simp add: parked(5) q)
    moreover have "wakes w q" using unpark_queue_wakes [OF q] by (simp add: parked(3) q)
    moreover have "states s' t = ST_READY" by (simp add: parked(5))
    ultimately show ?thesis using none kept parked(1,2) by auto
  next
    case token
    then have "states s t \<noteq> ST_PARKED" "t_unpark_pending (s_task s' t)" "states s' t = states s t" by simp_all
    with none kept token(2) show ?thesis by simp
  qed
qed

theorem unpark_not_lost_witness:
  "\<exists>st w s'. dlsm_gt_unpark False 5 9 run_parked = (st, w, s') \<and> st = DLSM_OK \<and> states s' 5 = ST_READY \<and> (\<exists>q. wakes w q)"
proof -
  obtain st w s' where u: "dlsm_gt_unpark False 5 9 run_parked = (st, w, s')" by (metis prod_cases3)
  with unpark_not_lost [OF run_parked_reach _ u] run_parked_facts(1) show ?thesis by auto
qed

end
