(* ===== verification/Gt_Idle.thy ===== *)
theory Gt_Idle
  imports Gt_Queue
begin

text \<open>
  How an idle virtual processor goes to sleep and is woken (\<^verbatim>\<open>libs/greenthread/src/vp_idle_pthread.c\<close> and
  \<open>sched_next\<close>, \<open>wake_group_vp\<close> of \<^verbatim>\<open>libs/greenthread/src/greenthread.c\<close>). The functions of the first section
  are the atomic accesses and the sections under the mutex of the idle object; the second section
  interleaves the loops of any number of processors with any number of threads that make tasks ready and
  wake processors. Run queues appear as their lengths.
\<close>

section \<open>The idle object\<close>

datatype dlsm_gt_idle_state = DLSM_GT_VP_RUNNING | DLSM_GT_VP_SPINNING | DLSM_GT_VP_SLEEPING

record dlsm_gt_vp_idle =
  id_state :: dlsm_gt_idle_state
  id_spin_count :: u32
  id_entries :: u64
  id_spin_iterations :: u64
  id_spin_wakeups :: u64
  id_sleep_count :: u64
  id_os_wakeups :: u64
  id_spinning_ns :: u64
  id_sleeping_ns :: u64

definition dlsm_gt_vp_idle_init :: "bool \<Rightarrow> bool \<Rightarrow> u32 \<Rightarrow> dlsm_gt_vp_idle option" where
  "dlsm_gt_vp_idle_init mutex_ok cond_ok spins =
     (if mutex_ok \<and> cond_ok then
        Some \<lparr>id_state = DLSM_GT_VP_RUNNING, id_spin_count = spins, id_entries = 0, id_spin_iterations = 0, id_spin_wakeups = 0,
          id_sleep_count = 0, id_os_wakeups = 0, id_spinning_ns = 0, id_sleeping_ns = 0\<rparr>
      else None)"

definition idle_spin_begin :: "dlsm_gt_vp_idle \<Rightarrow> dlsm_gt_vp_idle" where
  "idle_spin_begin i = i\<lparr>id_entries := id_entries i + 1, id_state := DLSM_GT_VP_SPINNING\<rparr>"

text \<open>One test of the spin loop: whether it goes on after \<open>iterations\<close> rounds.\<close>

definition idle_spin_more :: "u32 \<Rightarrow> dlsm_gt_vp_idle \<Rightarrow> bool" where
  "idle_spin_more iterations i \<longleftrightarrow> iterations < id_spin_count i \<and> id_state i = DLSM_GT_VP_SPINNING"

definition idle_spin_end :: "u32 \<Rightarrow> u64 \<Rightarrow> u64 \<Rightarrow> dlsm_gt_vp_idle \<Rightarrow> bool \<times> dlsm_gt_vp_idle" where
  "idle_spin_end iterations start stop i =
     (let i1 = i\<lparr>id_spin_iterations := id_spin_iterations i + ucast iterations\<rparr>;
          i2 = (if stop \<ge> start then i1\<lparr>id_spinning_ns := id_spinning_ns i1 + (stop - start)\<rparr> else i1) in
      if id_state i2 \<noteq> DLSM_GT_VP_SPINNING then (True, i2\<lparr>id_spin_wakeups := id_spin_wakeups i2 + 1\<rparr>) else (False, i2))"

text \<open>
  \<open>dlsm_gt_vp_idle_sleep\<close> up to the wait, as its two accesses: the load (\<open>False\<close>: it returns 0) and the store; and after the wait.
  It holds the mutex of the idle object, but the compare-and-swap of \<open>dlsm_gt_vp_idle_wake\<close> does not take it.
\<close>

definition idle_sleep_load :: "dlsm_gt_vp_idle \<Rightarrow> bool" where
  "idle_sleep_load i \<longleftrightarrow> id_state i = DLSM_GT_VP_SPINNING"

definition idle_sleep_store :: "dlsm_gt_vp_idle \<Rightarrow> dlsm_gt_vp_idle" where
  "idle_sleep_store i = i\<lparr>id_state := DLSM_GT_VP_SLEEPING, id_sleep_count := id_sleep_count i + 1\<rparr>"

definition idle_sleep_leave :: "u64 \<Rightarrow> u64 \<Rightarrow> dlsm_gt_vp_idle \<Rightarrow> dlsm_gt_vp_idle" where
  "idle_sleep_leave start stop i =
     (if stop \<ge> start then i\<lparr>id_sleeping_ns := id_sleeping_ns i + (stop - start)\<rparr> else i)"

text \<open>The two halves of \<open>dlsm_gt_vp_idle_wake\<close>: the compare-and-swap, and the section under the mutex.\<close>

datatype wake_result = Woken | Not_idle | Is_sleeping

definition idle_wake_spinning :: "dlsm_gt_vp_idle \<Rightarrow> wake_result \<times> dlsm_gt_vp_idle" where
  "idle_wake_spinning i = (case id_state i of
     DLSM_GT_VP_SPINNING \<Rightarrow> (Woken, i\<lparr>id_state := DLSM_GT_VP_RUNNING\<rparr>)
   | DLSM_GT_VP_SLEEPING \<Rightarrow> (Is_sleeping, i)
   | DLSM_GT_VP_RUNNING \<Rightarrow> (Not_idle, i))"

definition idle_wake_sleeping :: "dlsm_gt_vp_idle \<Rightarrow> bool \<times> dlsm_gt_vp_idle" where
  "idle_wake_sleeping i =
     (if id_state i = DLSM_GT_VP_SLEEPING
      then (True, i\<lparr>id_state := DLSM_GT_VP_RUNNING, id_os_wakeups := id_os_wakeups i + 1\<rparr>) else (False, i))"

section \<open>Processors and wakers\<close>

text \<open>
  Where a processor is in \<open>sched_next\<close>: it looks for work, is about to spin, spins, looks again (the set holds
  the queues still to be inspected), is about to sleep, is between the load and the store of \<open>dlsm_gt_vp_idle_sleep\<close>, sleeps, or runs a task.
\<close>

datatype vp_pc = V_look | V_spin | V_spinning | V_look_again "queue_id set" | V_sleep | V_store | V_asleep | V_run

text \<open>
  Where a thread is that has made a task ready: not waking, at the first or second half of
  \<open>dlsm_gt_vp_idle_wake\<close> for a processor, or at the test in the loop of \<open>wake_group_vp\<close>. The scan holds the
  group, the state wanted, the index and the excluded processor; a wake of one given processor has no scan.
\<close>

type_synonym scan = "nat \<times> dlsm_gt_idle_state \<times> nat \<times> nat option"

datatype waker_pc = W_none | W_load scan | W_cas nat "scan option" | W_lock nat "scan option"

record isys =
  i_idle :: "nat \<Rightarrow> dlsm_gt_vp_idle"
  i_pc :: "nat \<Rightarrow> vp_pc"
  i_work :: "queue_id \<Rightarrow> nat"
  i_waker :: "nat \<Rightarrow> waker_pc"
  i_seen :: "nat \<Rightarrow> nat set"

text \<open>
  \<open>i_seen k\<close> is an auxiliary variable: the processors that were running at some time since the waker \<open>k\<close> made
  its task ready.
\<close>

abbreviation idle_of :: "isys \<Rightarrow> nat \<Rightarrow> dlsm_gt_idle_state" where
  "idle_of s v \<equiv> id_state (i_idle s v)"

definition set_idle :: "nat \<Rightarrow> dlsm_gt_vp_idle \<Rightarrow> isys \<Rightarrow> isys" where
  "set_idle v i s = s\<lparr>i_idle := (i_idle s)(v := i),
     i_seen := (\<lambda>k. if id_state i = DLSM_GT_VP_RUNNING then insert v (i_seen s k) else i_seen s k)\<rparr>"

definition set_pc :: "nat \<Rightarrow> vp_pc \<Rightarrow> isys \<Rightarrow> isys" where
  "set_pc v pc s = s\<lparr>i_pc := (i_pc s)(v := pc)\<rparr>"

definition set_waker :: "nat \<Rightarrow> waker_pc \<Rightarrow> isys \<Rightarrow> isys" where
  "set_waker k w s = s\<lparr>i_waker := (i_waker s)(k := w)\<rparr>"

definition set_work :: "queue_id \<Rightarrow> nat \<Rightarrow> isys \<Rightarrow> isys" where
  "set_work q m s = s\<lparr>i_work := (i_work s)(q := m)\<rparr>"

definition running_idle :: "dlsm_gt_vp_idle \<Rightarrow> dlsm_gt_vp_idle" where
  "running_idle i = i\<lparr>id_state := DLSM_GT_VP_RUNNING\<rparr>"

text \<open>A waker begins to scan; the processors running then are seen.\<close>

definition begin_scan :: "nat \<Rightarrow> scan \<Rightarrow> isys \<Rightarrow> isys" where
  "begin_scan k x s = (set_waker k (W_load x) s)\<lparr>i_seen := (i_seen s)(k := {v. idle_of s v = DLSM_GT_VP_RUNNING})\<rparr>"

text \<open>The queues of a processor: its own and those of its group.\<close>

definition own_queues :: "nat \<Rightarrow> queue_id set" where
  "own_queues v = (\<lambda>p. Bound v p) ` {..<8} \<union> (\<lambda>p. Local v p) ` {..<8}"

definition scanned :: "(nat \<Rightarrow> nat) \<Rightarrow> nat \<Rightarrow> queue_id set" where
  "scanned grp v = own_queues v \<union> (\<lambda>p. Group (grp v) p) ` {..<8}"

text \<open>The next index of the loops of \<open>wake_group_vp\<close> over \<open>n\<close> processors: first for a spinning, then for a sleeping one.\<close>

fun scan_next :: "nat \<Rightarrow> scan \<Rightarrow> waker_pc" where
  "scan_next n (g, want, i, ex) =
     (if i + 1 < n then W_load (g, want, i + 1, ex)
      else if want = DLSM_GT_VP_SPINNING then W_load (g, DLSM_GT_VP_SLEEPING, 0, ex)
      else W_none)"

definition wake_failed :: "nat \<Rightarrow> scan option \<Rightarrow> waker_pc" where
  "wake_failed n sc = (case sc of None \<Rightarrow> W_none | Some x \<Rightarrow> scan_next n x)"

text \<open>
  Tasks are made ready for one processor (\<open>push_own\<close>: bound tasks and unparked ones), for a group (\<open>push_group\<close>), by a processor for itself
  without waking anybody (\<open>requeue\<close>: a task that yields, or whose park finds a token), and by a task that spawns another, which goes
  into the local queue of the processor while the others of the group are woken (\<open>push_local\<close>). With \<open>adjacent\<close> no
  compare-and-swap of a waker falls between the load and the store of the processor that goes to sleep; the source does not ensure this.
\<close>

inductive istep :: "bool \<Rightarrow> nat \<Rightarrow> (nat \<Rightarrow> nat) \<Rightarrow> isys \<Rightarrow> isys \<Rightarrow> bool" for adjacent n grp where
  look_none: "v < n \<Longrightarrow> i_pc s v = V_look \<Longrightarrow> istep adjacent n grp s (set_pc v V_spin s)"
| take: "v < n \<Longrightarrow> i_pc s v = V_look \<or> (\<exists>R. i_pc s v = V_look_again R) \<Longrightarrow> 0 < i_work s q \<Longrightarrow>
    istep adjacent n grp s (set_pc v V_run (set_idle v (running_idle (i_idle s v)) (set_work q (i_work s q - 1) s)))"
| spin: "v < n \<Longrightarrow> i_pc s v = V_spin \<Longrightarrow> istep adjacent n grp s (set_pc v V_spinning (set_idle v (idle_spin_begin (i_idle s v)) s))"
| spun: "v < n \<Longrightarrow> i_pc s v = V_spinning \<Longrightarrow> idle_spin_end it t1 t2 (i_idle s v) = (b, i) \<Longrightarrow>
    istep adjacent n grp s (set_pc v (V_look_again (scanned grp v)) (set_idle v i s))"
| skip: "v < n \<Longrightarrow> i_pc s v = V_look_again R \<Longrightarrow> q \<in> R \<Longrightarrow> i_work s q = 0 \<Longrightarrow> istep adjacent n grp s (set_pc v (V_look_again (R - {q})) s)"
| look_again_none: "v < n \<Longrightarrow> i_pc s v = V_look_again {} \<Longrightarrow> istep adjacent n grp s (set_pc v V_sleep s)"
| sleep_load: "v < n \<Longrightarrow> i_pc s v = V_sleep \<Longrightarrow> istep adjacent n grp s (set_pc v (if idle_sleep_load (i_idle s v) then V_store else V_look) s)"
| sleep_store: "v < n \<Longrightarrow> i_pc s v = V_store \<Longrightarrow> istep adjacent n grp s (set_pc v V_asleep (set_idle v (idle_sleep_store (i_idle s v)) s))"
| awake: "v < n \<Longrightarrow> i_pc s v = V_asleep \<Longrightarrow> idle_of s v \<noteq> DLSM_GT_VP_SLEEPING \<Longrightarrow>
    istep adjacent n grp s (set_pc v V_look (set_idle v (idle_sleep_leave t1 t2 (i_idle s v)) s))"
| run_done: "v < n \<Longrightarrow> i_pc s v = V_run \<Longrightarrow> istep adjacent n grp s (set_pc v V_look s)"
| requeue: "v < n \<Longrightarrow> i_pc s v = V_run \<Longrightarrow> q \<in> own_queues v \<Longrightarrow> istep adjacent n grp s (set_work q (Suc (i_work s q)) s)"
| push_own: "v < n \<Longrightarrow> i_waker s k = W_none \<Longrightarrow> q \<in> own_queues v \<Longrightarrow>
    istep adjacent n grp s (set_waker k (W_cas v None) (set_work q (Suc (i_work s q)) s))"
| push_group: "0 < n \<Longrightarrow> p < 8 \<Longrightarrow> i_waker s k = W_none \<Longrightarrow>
    istep adjacent n grp s (begin_scan k (g, DLSM_GT_VP_SPINNING, 0, None) (set_work (Group g p) (Suc (i_work s (Group g p))) s))"
| push_local: "v < n \<Longrightarrow> i_pc s v = V_run \<Longrightarrow> p < 8 \<Longrightarrow> i_waker s k = W_none \<Longrightarrow>
    istep adjacent n grp s (begin_scan k (grp v, DLSM_GT_VP_SPINNING, 0, Some v) (set_work (Local v p) (Suc (i_work s (Local v p))) s))"
| load_skip: "i_waker s k = W_load (g, want, i, ex) \<Longrightarrow> ex = Some i \<or> grp i \<noteq> g \<or> idle_of s i \<noteq> want \<Longrightarrow>
    istep adjacent n grp s (set_waker k (scan_next n (g, want, i, ex)) s)"
| load_hit: "i_waker s k = W_load (g, want, i, ex) \<Longrightarrow> ex \<noteq> Some i \<Longrightarrow> grp i = g \<Longrightarrow> idle_of s i = want \<Longrightarrow>
    istep adjacent n grp s (set_waker k (W_cas i (Some (g, want, i, ex))) s)"
| cas: "i_waker s k = W_cas v sc \<Longrightarrow> idle_wake_spinning (i_idle s v) = (r, i) \<Longrightarrow> (adjacent \<Longrightarrow> i_pc s v \<noteq> V_store) \<Longrightarrow>
    istep adjacent n grp s (set_waker k (case r of Woken \<Rightarrow> W_none | Is_sleeping \<Rightarrow> W_lock v sc | Not_idle \<Rightarrow> wake_failed n sc) (set_idle v i s))"
| lock: "i_waker s k = W_lock v sc \<Longrightarrow> i_pc s v \<noteq> V_store \<Longrightarrow> idle_wake_sleeping (i_idle s v) = (b, i) \<Longrightarrow>
    istep adjacent n grp s (set_waker k (if b then W_none else wake_failed n sc) (set_idle v i s))"

definition idle_start :: "dlsm_gt_vp_idle" where
  "idle_start = \<lparr>id_state = DLSM_GT_VP_RUNNING, id_spin_count = 1000, id_entries = 0, id_spin_iterations = 0, id_spin_wakeups = 0,
     id_sleep_count = 0, id_os_wakeups = 0, id_spinning_ns = 0, id_sleeping_ns = 0\<rparr>"

inductive ireach :: "bool \<Rightarrow> nat \<Rightarrow> (nat \<Rightarrow> nat) \<Rightarrow> isys \<Rightarrow> bool" for adjacent n grp where
  init: "ireach adjacent n grp \<lparr>i_idle = (\<lambda>_. idle_start), i_pc = (\<lambda>_. V_look), i_work = (\<lambda>_. 0), i_waker = (\<lambda>_. W_none), i_seen = (\<lambda>_. {})\<rparr>"
| step: "ireach adjacent n grp s \<Longrightarrow> istep adjacent n grp s s' \<Longrightarrow> ireach adjacent n grp s'"

lemma set_sel [simp]:
  "i_idle (set_idle v i s) = (i_idle s)(v := i)" "i_pc (set_idle v i s) = i_pc s" "i_work (set_idle v i s) = i_work s"
  "i_waker (set_idle v i s) = i_waker s"
  "i_seen (set_idle v i s) k = (if id_state i = DLSM_GT_VP_RUNNING then insert v (i_seen s k) else i_seen s k)"
  "i_idle (set_pc v pc s) = i_idle s" "i_pc (set_pc v pc s) = (i_pc s)(v := pc)" "i_work (set_pc v pc s) = i_work s"
  "i_waker (set_pc v pc s) = i_waker s" "i_seen (set_pc v pc s) = i_seen s"
  "i_idle (set_waker k w s) = i_idle s" "i_pc (set_waker k w s) = i_pc s" "i_work (set_waker k w s) = i_work s"
  "i_waker (set_waker k w s) = (i_waker s)(k := w)" "i_seen (set_waker k w s) = i_seen s"
  "i_idle (set_work q m s) = i_idle s" "i_pc (set_work q m s) = i_pc s" "i_work (set_work q m s) = (i_work s)(q := m)"
  "i_waker (set_work q m s) = i_waker s" "i_seen (set_work q m s) = i_seen s"
  "i_idle (begin_scan k x s) = i_idle s" "i_pc (begin_scan k x s) = i_pc s" "i_work (begin_scan k x s) = i_work s"
  "i_waker (begin_scan k x s) = (i_waker s)(k := W_load x)"
  "i_seen (begin_scan k x s) = (i_seen s)(k := {v. idle_of s v = DLSM_GT_VP_RUNNING})"
  by (simp_all add: set_idle_def set_pc_def set_waker_def set_work_def begin_scan_def)

section \<open>The invariant\<close>

text \<open>The processor will look at the queue again before it sleeps.\<close>

definition due :: "isys \<Rightarrow> nat \<Rightarrow> queue_id \<Rightarrow> bool" where
  "due s v q \<longleftrightarrow> idle_of s v = DLSM_GT_VP_RUNNING \<or> i_pc s v = V_spinning \<or> (\<exists>R. i_pc s v = V_look_again R \<and> q \<in> R)"

text \<open>A waker will still act on the processor.\<close>

definition waking :: "isys \<Rightarrow> nat \<Rightarrow> bool" where
  "waking s v \<longleftrightarrow> (\<exists>k sc. i_waker s k = W_cas v sc \<or> (i_waker s k = W_lock v sc \<and> idle_of s v = DLSM_GT_VP_SLEEPING))"

fun scan_of :: "waker_pc \<Rightarrow> scan option" where
  "scan_of (W_load x) = Some x"
| "scan_of (W_cas v sc) = sc"
| "scan_of (W_lock v sc) = sc"
| "scan_of W_none = None"

definition scanning :: "isys \<Rightarrow> nat \<Rightarrow> nat \<Rightarrow> bool" where
  "scanning s k g \<longleftrightarrow> (\<exists>x. scan_of (i_waker s k) = Some (g, x))"

text \<open>What the state of the idle object says where a processor is.\<close>

definition pc_ok :: "vp_pc \<Rightarrow> dlsm_gt_idle_state \<Rightarrow> bool" where
  "pc_ok pc st \<longleftrightarrow> (st = DLSM_GT_VP_SLEEPING \<longrightarrow> pc = V_asleep) \<and> (pc = V_asleep \<longrightarrow> st \<noteq> DLSM_GT_VP_SPINNING) \<and>
     (pc = V_store \<longrightarrow> st = DLSM_GT_VP_SPINNING) \<and> (pc = V_run \<longrightarrow> st = DLSM_GT_VP_RUNNING)"

lemma pc_okD:
  assumes "pc_ok pc st"
  shows "st = DLSM_GT_VP_SLEEPING \<Longrightarrow> pc = V_asleep" and "pc = V_asleep \<Longrightarrow> st \<noteq> DLSM_GT_VP_SPINNING"
    and "pc = V_store \<Longrightarrow> st = DLSM_GT_VP_SPINNING" and "pc = V_run \<Longrightarrow> st = DLSM_GT_VP_RUNNING"
  using assms unfolding pc_ok_def by blast+

lemma pc_ok_running [simp]: "pc_ok pc DLSM_GT_VP_RUNNING \<longleftrightarrow> pc \<noteq> V_store"
  by (auto simp: pc_ok_def)

definition sleepers_ok :: "isys \<Rightarrow> bool" where
  "sleepers_ok s \<longleftrightarrow> (\<forall>v. pc_ok (i_pc s v) (idle_of s v))"

definition own_ok :: "nat \<Rightarrow> isys \<Rightarrow> bool" where
  "own_ok n s \<longleftrightarrow> (\<forall>v < n. \<forall>q \<in> own_queues v. 0 < i_work s q \<longrightarrow> due s v q \<or> waking s v)"

definition group_ok :: "nat \<Rightarrow> (nat \<Rightarrow> nat) \<Rightarrow> isys \<Rightarrow> bool" where
  "group_ok n grp s \<longleftrightarrow> (\<forall>g p. p < 8 \<and> (\<exists>v < n. grp v = g) \<and> 0 < i_work s (Group g p) \<longrightarrow>
     (\<exists>v < n. grp v = g \<and> due s v (Group g p)) \<or>
     (\<forall>v < n. grp v = g \<longrightarrow> (\<exists>k. scanning s k g \<and> v \<notin> i_seen s k)))"

text \<open>
  What a waker in \<open>wake_group_vp\<close> knows. In the first pass the processors already tested were seen running or
  still sleep; in the second pass the tested ones were seen running, the others were seen running or sleep.
\<close>

definition seen_or_asleep :: "isys \<Rightarrow> nat \<Rightarrow> nat \<Rightarrow> bool" where
  "seen_or_asleep s k v \<longleftrightarrow> v \<in> i_seen s k \<or> idle_of s v = DLSM_GT_VP_SLEEPING"

fun scan_ok :: "nat \<Rightarrow> (nat \<Rightarrow> nat) \<Rightarrow> isys \<Rightarrow> nat \<Rightarrow> scan \<Rightarrow> bool" where
  "scan_ok n grp s k (g, want, i, ex) \<longleftrightarrow> i < n \<and> (\<forall>e. ex = Some e \<longrightarrow> e \<in> i_seen s k) \<and>
     (if want = DLSM_GT_VP_SPINNING then \<forall>v < i. grp v = g \<longrightarrow> seen_or_asleep s k v
      else want = DLSM_GT_VP_SLEEPING \<and> (\<forall>v < n. grp v = g \<longrightarrow> seen_or_asleep s k v) \<and> (\<forall>v < i. grp v = g \<longrightarrow> v \<in> i_seen s k))"

fun waker_pc_ok :: "nat \<Rightarrow> (nat \<Rightarrow> nat) \<Rightarrow> isys \<Rightarrow> nat \<Rightarrow> waker_pc \<Rightarrow> bool" where
  "waker_pc_ok n grp s k W_none \<longleftrightarrow> True"
| "waker_pc_ok n grp s k (W_load x) \<longleftrightarrow> scan_ok n grp s k x"
| "waker_pc_ok n grp s k (W_cas v sc) \<longleftrightarrow> v < n \<and> (\<forall>x. sc = Some x \<longrightarrow> scan_ok n grp s k x \<and> v = fst (snd (snd x)) \<and> grp v = fst x)"
| "waker_pc_ok n grp s k (W_lock v sc) \<longleftrightarrow>
     v < n \<and> (\<forall>x. sc = Some x \<longrightarrow> scan_ok n grp s k x \<and> v = fst (snd (snd x)) \<and> grp v = fst x \<and> seen_or_asleep s k v)"

definition waker_ok :: "nat \<Rightarrow> (nat \<Rightarrow> nat) \<Rightarrow> isys \<Rightarrow> bool" where
  "waker_ok n grp s \<longleftrightarrow> (\<forall>k. waker_pc_ok n grp s k (i_waker s k) \<and>
     (\<forall>v. scan_of (i_waker s k) \<noteq> None \<and> idle_of s v = DLSM_GT_VP_RUNNING \<longrightarrow> v \<in> i_seen s k))"

definition idle_inv :: "nat \<Rightarrow> (nat \<Rightarrow> nat) \<Rightarrow> isys \<Rightarrow> bool" where
  "idle_inv n grp s \<longleftrightarrow> sleepers_ok s \<and> own_ok n s \<and> group_ok n grp s \<and> waker_ok n grp s"

lemma idle_invD:
  assumes "idle_inv n grp s"
  shows "sleepers_ok s" and "own_ok n s" and "group_ok n grp s" and "waker_ok n grp s"
  using assms by (simp_all add: idle_inv_def)

section \<open>Steps of a processor\<close>

text \<open>The processor \<open>v\<close> moves; wakers stay, queues do not grow.\<close>

definition vp_moves :: "(nat \<Rightarrow> nat) \<Rightarrow> nat \<Rightarrow> isys \<Rightarrow> isys \<Rightarrow> bool" where
  "vp_moves grp v s s' \<longleftrightarrow> i_waker s' = i_waker s \<and> (\<forall>q. i_work s' q \<le> i_work s q) \<and>
     (\<forall>u. u \<noteq> v \<longrightarrow> i_idle s' u = i_idle s u \<and> i_pc s' u = i_pc s u) \<and>
     (\<forall>q \<in> scanned grp v. due s v q \<and> 0 < i_work s' q \<longrightarrow> due s' v q) \<and>
     (idle_of s v = DLSM_GT_VP_SLEEPING \<longrightarrow> idle_of s' v \<noteq> DLSM_GT_VP_SPINNING) \<and>
     pc_ok (i_pc s' v) (idle_of s' v) \<and>
     (\<forall>k. i_seen s k \<subseteq> i_seen s' k \<and> i_seen s' k \<subseteq> insert v (i_seen s k)) \<and>
     (\<forall>k. v \<in> i_seen s' k \<and> v \<notin> i_seen s k \<longrightarrow> idle_of s' v = DLSM_GT_VP_RUNNING) \<and>
     (\<forall>k. idle_of s' v = DLSM_GT_VP_RUNNING \<and> scan_of (i_waker s k) \<noteq> None \<longrightarrow> v \<in> i_seen s' k)"

lemma vp_movesD:
  assumes "vp_moves grp v s s'"
  shows "i_waker s' = i_waker s" and "i_work s' q \<le> i_work s q" and "u \<noteq> v \<Longrightarrow> i_idle s' u = i_idle s u"
    and "u \<noteq> v \<Longrightarrow> i_pc s' u = i_pc s u" and "q \<in> scanned grp v \<Longrightarrow> due s v q \<Longrightarrow> 0 < i_work s' q \<Longrightarrow> due s' v q"
    and "idle_of s v = DLSM_GT_VP_SLEEPING \<Longrightarrow> idle_of s' v \<noteq> DLSM_GT_VP_SPINNING"
    and "pc_ok (i_pc s' v) (idle_of s' v)"
    and "i_seen s k \<subseteq> i_seen s' k" and "u \<noteq> v \<Longrightarrow> u \<in> i_seen s' k \<longleftrightarrow> u \<in> i_seen s k"
    and "v \<in> i_seen s' k \<Longrightarrow> v \<notin> i_seen s k \<Longrightarrow> idle_of s' v = DLSM_GT_VP_RUNNING"
    and "idle_of s' v = DLSM_GT_VP_RUNNING \<Longrightarrow> scan_of (i_waker s k) \<noteq> None \<Longrightarrow> v \<in> i_seen s' k"
  using assms unfolding vp_moves_def by blast+

lemma due_other: "vp_moves grp v s s' \<Longrightarrow> u \<noteq> v \<Longrightarrow> due s' u q = due s u q"
  using vp_movesD(3,4) [of grp v s s' u] by (simp add: due_def)

lemma due_kept: "vp_moves grp v s s' \<Longrightarrow> q \<in> scanned grp u \<Longrightarrow> due s u q \<Longrightarrow> 0 < i_work s' q \<Longrightarrow> due s' u q"
  using due_other [of grp v s s' u q] vp_movesD(5) [of grp v s s' q] by (cases "u = v") auto

lemma seen_or_asleep_kept:
  assumes m: "vp_moves grp v s s'" and "seen_or_asleep s k u" and "scan_of (i_waker s k) \<noteq> None"
  shows "seen_or_asleep s' k u"
proof (cases "u = v")
  case True
  show ?thesis
  proof (cases "v \<in> i_seen s k")
    case False
    with assms(2) True have "idle_of s v = DLSM_GT_VP_SLEEPING" by (simp add: seen_or_asleep_def)
    then have "idle_of s' v = DLSM_GT_VP_SLEEPING \<or> idle_of s' v = DLSM_GT_VP_RUNNING"
      using vp_movesD(6) [OF m] by (cases "idle_of s' v") auto
    with True vp_movesD(11) [OF m _ assms(3)] show ?thesis by (auto simp: seen_or_asleep_def)
  qed (use True vp_movesD(8) [OF m, of k] in \<open>auto simp: seen_or_asleep_def\<close>)
next
  case False
  with assms(2) vp_movesD(3,9) [OF m] show ?thesis by (simp add: seen_or_asleep_def)
qed

lemma scan_ok_kept:
  assumes m: "vp_moves grp v s s'" and "scan_ok n grp s k x" and sc: "scan_of (i_waker s k) \<noteq> None"
  shows "scan_ok n grp s' k x"
proof -
  obtain g want i ex where x: "x = (g, want, i, ex)" by (cases x)
  show ?thesis using assms(2) seen_or_asleep_kept [OF m _ sc] vp_movesD(8) [OF m, of k] unfolding x
    by (auto split: if_splits)
qed

lemma waker_ok_kept:
  assumes m: "vp_moves grp v s s'" and w: "waker_ok n grp s"
  shows "waker_ok n grp s'"
  unfolding waker_ok_def vp_movesD(1) [OF m]
proof (intro allI conjI impI)
  fix k
  have old: "waker_pc_ok n grp s k (i_waker s k)" using w by (simp add: waker_ok_def)
  then show "waker_pc_ok n grp s' k (i_waker s k)"
  proof (cases "i_waker s k")
    case (W_load x)
    with old scan_ok_kept [OF m, of n k x] show ?thesis by simp
  next
    case (W_cas w sc)
    with old scan_ok_kept [OF m, of n k] show ?thesis by (cases sc) auto
  next
    case (W_lock w sc)
    with old scan_ok_kept [OF m, of n k] seen_or_asleep_kept [OF m, of k w] show ?thesis by (cases sc) auto
  qed simp
  fix u
  assume "scan_of (i_waker s k) \<noteq> None \<and> idle_of s' u = DLSM_GT_VP_RUNNING"
  then show "u \<in> i_seen s' k"
    using w vp_movesD(3,9,11) [OF m] by (cases "u = v") (auto simp: waker_ok_def)
qed

lemma vp_moves_inv:
  assumes m: "vp_moves grp v s s'" and inv: "idle_inv n grp s" and v: "v < n"
  shows "idle_inv n grp s'"
proof -
  have "sleepers_ok s'" unfolding sleepers_ok_def
  proof
    fix u
    show "pc_ok (i_pc s' u) (idle_of s' u)"
      using idle_invD(1) [OF inv] vp_movesD(3,4,7) [OF m] by (cases "u = v") (simp_all add: sleepers_ok_def)
  qed
  moreover have "own_ok n s'" unfolding own_ok_def
  proof (intro allI ballI impI)
    fix u q
    assume u: "u < n" "q \<in> own_queues u" and q: "0 < i_work s' q"
    then have "0 < i_work s q" using vp_movesD(2) [OF m, of q] by simp
    with u consider "due s u q" | "waking s u" using idle_invD(2) [OF inv] by (auto simp: own_ok_def)
    then show "due s' u q \<or> waking s' u"
    proof cases
      case 1
      moreover have "q \<in> scanned grp u" using u(2) by (simp add: scanned_def)
      ultimately show ?thesis using due_kept [OF m _ _ q] by blast
    next
      case 2
      show ?thesis
      proof (cases "idle_of s u = DLSM_GT_VP_SLEEPING \<and> idle_of s' u \<noteq> DLSM_GT_VP_SLEEPING")
        case True
        then have "u = v" using vp_movesD(3) [OF m, of u] by (cases "u = v") simp_all
        with True vp_movesD(6) [OF m] have "idle_of s' u = DLSM_GT_VP_RUNNING" by (cases "idle_of s' u") auto
        then show ?thesis by (simp add: due_def)
      next
        case False
        with 2 show ?thesis by (auto simp: waking_def vp_movesD(1) [OF m])
      qed
    qed
  qed
  moreover have "group_ok n grp s'" unfolding group_ok_def
  proof (intro allI impI)
    fix g p
    let ?q = "Group g p"
    assume a: "p < 8 \<and> (\<exists>v < n. grp v = g) \<and> 0 < i_work s' ?q"
    then have "0 < i_work s ?q" using vp_movesD(2) [OF m, of ?q] by simp
    with a consider u where "u < n" "grp u = g" "due s u ?q" | "\<forall>v < n. grp v = g \<longrightarrow> (\<exists>k. scanning s k g \<and> v \<notin> i_seen s k)"
      using idle_invD(3) [OF inv] unfolding group_ok_def by blast
    then show "(\<exists>v < n. grp v = g \<and> due s' v ?q) \<or> (\<forall>v < n. grp v = g \<longrightarrow> (\<exists>k. scanning s' k g \<and> v \<notin> i_seen s' k))"
    proof cases
      case 1
      moreover from 1 a have "?q \<in> scanned grp u" by (simp add: scanned_def)
      ultimately show ?thesis using due_kept [OF m] a by blast
    next
      case 2
      show ?thesis
      proof (cases "grp v = g \<and> idle_of s' v = DLSM_GT_VP_RUNNING")
        case True
        then show ?thesis using v by (auto simp: due_def)
      next
        case False
        have "\<exists>k. scanning s' k g \<and> u \<notin> i_seen s' k" if u: "u < n" "grp u = g" for u
        proof -
          from 2 u obtain k where k: "scanning s k g" "u \<notin> i_seen s k" by blast
          then have "u \<notin> i_seen s' k" using vp_movesD(9,10) [OF m] False u by (cases "u = v") auto
          with k show ?thesis by (auto simp: scanning_def vp_movesD(1) [OF m])
        qed
        then show ?thesis by blast
      qed
    qed
  qed
  ultimately show ?thesis using waker_ok_kept [OF m idle_invD(4) [OF inv]] by (simp add: idle_inv_def)
qed

lemma moves_idle:
  assumes "sleepers_ok s" and "\<And>q. wk q \<le> i_work s q" and "i_pc s v \<noteq> V_asleep \<or> id_state i \<noteq> DLSM_GT_VP_SPINNING"
    and "pc_ok pc (id_state i)"
    and "\<And>q. q \<in> scanned grp v \<Longrightarrow> due s v q \<Longrightarrow> 0 < wk q \<Longrightarrow> id_state i = DLSM_GT_VP_RUNNING \<or> pc = V_spinning \<or> (\<exists>R. pc = V_look_again R \<and> q \<in> R)"
  shows "vp_moves grp v s (set_pc v pc (set_idle v i (s\<lparr>i_work := wk\<rparr>)))"
proof -
  have "pc_ok (i_pc s v) (idle_of s v)" using assms(1) by (simp add: sleepers_ok_def)
  then have st: "idle_of s v = DLSM_GT_VP_SLEEPING \<longrightarrow> id_state i \<noteq> DLSM_GT_VP_SPINNING" using assms(3) pc_okD(1) by blast
  have "due (set_pc v pc (set_idle v i (s\<lparr>i_work := wk\<rparr>))) v q" if "q \<in> scanned grp v" "due s v q" "0 < wk q" for q
    using assms(5) [OF that] by (simp add: due_def)
  then show ?thesis unfolding vp_moves_def using assms(2,4) st by (simp add: subset_insertI)
qed

lemma moves_pc:
  assumes "waker_ok n grp s" and "pc_ok pc (idle_of s v)"
    and "\<And>q. q \<in> scanned grp v \<Longrightarrow> due s v q \<Longrightarrow> 0 < i_work s q \<Longrightarrow>
      idle_of s v = DLSM_GT_VP_RUNNING \<or> pc = V_spinning \<or> (\<exists>R. pc = V_look_again R \<and> q \<in> R)"
  shows "vp_moves grp v s (set_pc v pc s)"
  using assms unfolding vp_moves_def by (auto simp: due_def waker_ok_def)

lemma set_work_same [simp]: "s\<lparr>i_work := i_work s\<rparr> = s"
  by simp

lemma set_pc_same [simp]: "set_pc v (i_pc s v) (set_idle v i s) = set_idle v i s"
  by (simp add: set_pc_def set_idle_def)

lemmas moves_idle_same = moves_idle [where wk = "i_work s" and s = s for s, simplified]

lemma spin_end_state: "idle_spin_end it t1 t2 i = (b, i') \<Longrightarrow> id_state i' = id_state i"
  by (auto simp: idle_spin_end_def Let_def split: if_splits)

section \<open>Steps of a waker\<close>

text \<open>The waker \<open>k\<close> moves on to \<open>w\<close>; nothing else changes.\<close>

lemma waker_moves_inv:
  assumes inv: "idle_inv n grp s"
    and own: "\<And>v sc. i_waker s k = W_cas v sc \<or> (i_waker s k = W_lock v sc \<and> idle_of s v = DLSM_GT_VP_SLEEPING) \<Longrightarrow>
        idle_of s v = DLSM_GT_VP_RUNNING \<or> (\<exists>sc'. w = W_lock v sc' \<and> idle_of s v = DLSM_GT_VP_SLEEPING)"
    and group: "\<And>g. scanning s k g \<Longrightarrow> (\<exists>x. scan_of w = Some (g, x)) \<or>
        (\<exists>v < n. grp v = g \<and> idle_of s v = DLSM_GT_VP_RUNNING) \<or> (\<forall>v < n. grp v = g \<longrightarrow> v \<in> i_seen s k)"
    and pc: "waker_pc_ok n grp s k w" and was: "scan_of w \<noteq> None \<Longrightarrow> scan_of (i_waker s k) \<noteq> None"
  shows "idle_inv n grp (set_waker k w s)"
proof -
  let ?s = "set_waker k w s"
  have due [simp]: "due ?s v q = due s v q" for v q by (simp add: due_def)
  have sa [simp]: "seen_or_asleep ?s j v = seen_or_asleep s j v" for j v by (simp add: seen_or_asleep_def)
  have sc [simp]: "scan_ok n grp ?s j x = scan_ok n grp s j x" for j x by (cases x) (simp split: if_split)
  have wp: "waker_pc_ok n grp ?s j x = waker_pc_ok n grp s j x" for j x by (cases x) simp_all
  have "sleepers_ok ?s" using idle_invD(1) [OF inv] by (simp add: sleepers_ok_def)
  moreover have "waker_ok n grp ?s" unfolding waker_ok_def wp
    using idle_invD(4) [OF inv] pc was by (auto simp: waker_ok_def)
  moreover have "own_ok n ?s" unfolding own_ok_def
  proof (intro allI ballI impI)
    fix v q
    assume v: "v < n" "q \<in> own_queues v" and q: "0 < i_work ?s q"
    then have "0 < i_work s q" by simp
    with v consider "due s v q" | j sc where "i_waker s j = W_cas v sc \<or> (i_waker s j = W_lock v sc \<and> idle_of s v = DLSM_GT_VP_SLEEPING)"
      using idle_invD(2) [OF inv] unfolding own_ok_def waking_def by blast
    then show "due ?s v q \<or> waking ?s v"
    proof cases
      case 2
      show ?thesis
      proof (cases "j = k")
        case True
        with own 2 show ?thesis by (auto simp: due_def waking_def)
      next
        case False
        with 2 show ?thesis by (auto simp: waking_def)
      qed
    qed simp
  qed
  moreover have "group_ok n grp ?s" unfolding group_ok_def
  proof (intro allI impI)
    fix g p
    assume "p < 8 \<and> (\<exists>v < n. grp v = g) \<and> 0 < i_work ?s (Group g p)"
    then have "p < 8 \<and> (\<exists>v < n. grp v = g) \<and> 0 < i_work s (Group g p)" by simp
    then consider u where "u < n" "grp u = g" "due s u (Group g p)" | "\<forall>v < n. grp v = g \<longrightarrow> (\<exists>j. scanning s j g \<and> v \<notin> i_seen s j)"
      using idle_invD(3) [OF inv] unfolding group_ok_def by blast
    then show "(\<exists>v < n. grp v = g \<and> due ?s v (Group g p)) \<or> (\<forall>v < n. grp v = g \<longrightarrow> (\<exists>j. scanning ?s j g \<and> v \<notin> i_seen ?s j))"
    proof cases
      case 2
      show ?thesis
      proof (cases "\<exists>v < n. grp v = g \<and> idle_of s v = DLSM_GT_VP_RUNNING")
        case True
        then show ?thesis by (auto simp: due_def)
      next
        case False
        have "\<exists>j. scanning ?s j g \<and> v \<notin> i_seen s j" if v: "v < n" "grp v = g" for v
        proof -
          from 2 v obtain j where j: "scanning s j g" "v \<notin> i_seen s j" by blast
          show ?thesis
          proof (cases "j = k")
            case True
            with j group False v have "\<exists>x. scan_of w = Some (g, x)" by blast
            with True j show ?thesis by (auto simp: scanning_def)
          next
            case False
            with j show ?thesis by (auto simp: scanning_def)
          qed
        qed
        then show ?thesis by simp
      qed
    qed auto
  qed
  ultimately show ?thesis by (simp add: idle_inv_def)
qed

lemma scan_advance:
  assumes "scan_ok n grp s k (g, want, i, ex)" and here: "grp i = g \<Longrightarrow> (if want = DLSM_GT_VP_SPINNING then seen_or_asleep s k i else i \<in> i_seen s k)"
  shows "waker_pc_ok n grp s k (scan_next n (g, want, i, ex))"
    and "scan_of (scan_next n (g, want, i, ex)) = None \<Longrightarrow> (\<forall>v < n. grp v = g \<longrightarrow> v \<in> i_seen s k)"
    and "(\<exists>x. scan_of (scan_next n (g, want, i, ex)) = Some (g, x)) \<or> scan_of (scan_next n (g, want, i, ex)) = None"
proof -
  have i: "i < n" using assms(1) by simp
  show "waker_pc_ok n grp s k (scan_next n (g, want, i, ex))"
    using assms i by (auto simp: less_Suc_eq split: if_splits) (metis Suc_lessI less_SucE less_antisym)+
  show "scan_of (scan_next n (g, want, i, ex)) = None \<Longrightarrow> (\<forall>v < n. grp v = g \<longrightarrow> v \<in> i_seen s k)"
    using assms i by (auto split: if_splits) (metis less_antisym not_less_eq)+
  show "(\<exists>x. scan_of (scan_next n (g, want, i, ex)) = Some (g, x)) \<or> scan_of (scan_next n (g, want, i, ex)) = None"
    by simp
qed

lemma waker_pc_ok_cong:
  assumes "i_seen s' j = i_seen s j" and "\<And>v. idle_of s' v = idle_of s v"
  shows "waker_pc_ok n grp s' j x = waker_pc_ok n grp s j x"
proof -
  have sa: "seen_or_asleep s' j v = seen_or_asleep s j v" for v using assms by (simp add: seen_or_asleep_def)
  have "scan_ok n grp s' j y = scan_ok n grp s j y" for y by (cases y) (simp only: scan_ok.simps sa assms(1))
  then show ?thesis by (cases x) (simp_all add: sa)
qed

lemma waking_frame:
  assumes "waking s u" and "\<And>j. i_waker s j \<noteq> W_none \<Longrightarrow> i_waker s' j = i_waker s j" and "idle_of s' u = idle_of s u"
  shows "waking s' u"
proof -
  from assms(1) obtain j sc where "i_waker s j = W_cas u sc \<or> (i_waker s j = W_lock u sc \<and> idle_of s u = DLSM_GT_VP_SLEEPING)"
    by (auto simp: waking_def)
  with assms(2) [of j] assms(3) show ?thesis unfolding waking_def by (intro exI [of _ j] exI [of _ sc]) auto
qed

lemma own_queue_unique: "q \<in> own_queues v \<Longrightarrow> q \<in> own_queues u \<Longrightarrow> u = v"
  by (auto simp: own_queues_def)

text \<open>One more task for a processor that runs or to which a waker is on its way.\<close>

lemma own_work_inv:
  assumes inv: "idle_inv n grp s" and q: "q \<in> own_queues v" and ready: "idle_of s v = DLSM_GT_VP_RUNNING \<or> waking s v"
  shows "idle_inv n grp (set_work q (Suc (i_work s q)) s)" (is "idle_inv n grp ?s")
proof -
  have same [simp]: "due ?s u r = due s u r" "waking ?s u = waking s u" "scanning ?s j g = scanning s j g" for u r j g
    by (simp_all add: due_def waking_def scanning_def)
  have wp: "waker_pc_ok n grp ?s j x = waker_pc_ok n grp s j x" for j x by (rule waker_pc_ok_cong) simp_all
  have ng: "Group g p \<noteq> q" for g p using q by (auto simp: own_queues_def)
  have "own_ok n ?s" unfolding own_ok_def
  proof (intro allI ballI impI)
    fix u r
    assume u: "u < n" "r \<in> own_queues u" "0 < i_work ?s r"
    show "due ?s u r \<or> waking ?s u"
    proof (cases "r = q")
      case True
      with own_queue_unique [OF q] u(2) have "u = v" by simp
      then show ?thesis using ready by (auto simp: due_def)
    next
      case False
      with u idle_invD(2) [OF inv] show ?thesis by (auto simp: own_ok_def)
    qed
  qed
  moreover have "waker_ok n grp ?s" unfolding waker_ok_def wp using idle_invD(4) [OF inv] by (simp add: waker_ok_def)
  ultimately show ?thesis using idle_invD(1,3) [OF inv] ng by (simp add: idle_inv_def sleepers_ok_def group_ok_def)
qed

text \<open>A free thread becomes a waker: of one processor, or of a group.\<close>

lemma wake_begins_inv:
  assumes inv: "idle_inv n grp s" and v: "v < n" and free: "i_waker s k = W_none"
  shows "idle_inv n grp (set_waker k (W_cas v None) s)"
  by (rule waker_moves_inv [OF inv]) (use v free in \<open>simp_all add: scanning_def\<close>)

lemma begin_scan_inv:
  assumes inv: "idle_inv n grp s" and n: "0 < n" and free: "i_waker s k = W_none"
    and ex: "\<And>e. ex = Some e \<Longrightarrow> idle_of s e = DLSM_GT_VP_RUNNING"
  shows "idle_inv n grp (begin_scan k (g, DLSM_GT_VP_SPINNING, 0, ex) s)" (is "idle_inv n grp ?s")
proof -
  have due [simp]: "due ?s u r = due s u r" for u r by (simp add: due_def)
  have wp: "j \<noteq> k \<Longrightarrow> waker_pc_ok n grp ?s j x = waker_pc_ok n grp s j x" for j x by (rule waker_pc_ok_cong) simp_all
  have old: "waking s u \<Longrightarrow> waking ?s u" for u by (erule waking_frame) (use free in auto)
  have kept: "j \<noteq> k" "scanning ?s j h" "i_seen ?s j = i_seen s j" if "scanning s j h" for j h
    using that free by (auto simp: scanning_def)
  have "waker_ok n grp ?s" unfolding waker_ok_def
  proof
    fix j
    show "waker_pc_ok n grp ?s j (i_waker ?s j) \<and> (\<forall>v. scan_of (i_waker ?s j) \<noteq> None \<and> idle_of ?s v = DLSM_GT_VP_RUNNING \<longrightarrow> v \<in> i_seen ?s j)"
      using idle_invD(4) [OF inv] n ex wp [of j] by (cases "j = k") (simp_all add: waker_ok_def)
  qed
  moreover have "own_ok n ?s" using idle_invD(2) [OF inv] old by (auto simp: own_ok_def)
  moreover have "group_ok n grp ?s" using idle_invD(3) [OF inv] kept unfolding group_ok_def by simp metis
  ultimately show ?thesis using idle_invD(1) [OF inv] by (simp add: idle_inv_def sleepers_ok_def)
qed

text \<open>One more task for a group that a waker has just begun to scan.\<close>

lemma group_work_inv:
  assumes inv: "idle_inv n grp s" and sc: "scanning s k g" and seen: "i_seen s k = {v. idle_of s v = DLSM_GT_VP_RUNNING}"
  shows "idle_inv n grp (set_work (Group g p) (Suc (i_work s (Group g p))) s)" (is "idle_inv n grp ?s")
proof -
  have same [simp]: "due ?s u r = due s u r" "waking ?s u = waking s u" "scanning ?s j h = scanning s j h" for u r j h
    by (simp_all add: due_def waking_def scanning_def)
  have wp: "waker_pc_ok n grp ?s j x = waker_pc_ok n grp s j x" for j x by (rule waker_pc_ok_cong) simp_all
  have "(\<exists>v < n. grp v = h \<and> due ?s v (Group h r)) \<or> (\<forall>v < n. grp v = h \<longrightarrow> (\<exists>j. scanning ?s j h \<and> v \<notin> i_seen ?s j))"
    if a: "r < 8 \<and> (\<exists>v < n. grp v = h) \<and> 0 < i_work ?s (Group h r)" for h r
  proof (cases "h = g \<and> r = p")
    case True
    show ?thesis
    proof (cases "\<exists>v < n. grp v = g \<and> idle_of s v = DLSM_GT_VP_RUNNING")
      case True
      with \<open>h = g \<and> r = p\<close> show ?thesis by (auto simp: due_def)
    next
      case False
      then have "\<forall>v < n. grp v = g \<longrightarrow> scanning s k g \<and> v \<notin> i_seen s k" using sc seen by auto
      with True show ?thesis by auto
    qed
  next
    case False
    with a have "r < 8 \<and> (\<exists>v < n. grp v = h) \<and> 0 < i_work s (Group h r)" by (auto split: if_splits)
    then show ?thesis using idle_invD(3) [OF inv] unfolding group_ok_def by simp
  qed
  then have "group_ok n grp ?s" unfolding group_ok_def by blast
  moreover have "waker_ok n grp ?s" unfolding waker_ok_def wp using idle_invD(4) [OF inv] by (simp add: waker_ok_def)
  moreover have "own_ok n ?s" using idle_invD(2) [OF inv] by (auto simp: own_ok_def own_queues_def)
  ultimately show ?thesis using idle_invD(1) [OF inv] by (simp add: idle_inv_def sleepers_ok_def)
qed

lemma set_work_commute:
  "begin_scan k x (set_work q m s) = set_work q m (begin_scan k x s)" "set_waker k w (set_work q m s) = set_work q m (set_waker k w s)"
  by (simp_all add: begin_scan_def set_waker_def set_work_def)

section \<open>Every step keeps the invariant\<close>

lemma idle_pc: "idle_inv n grp s \<Longrightarrow> pc_ok (i_pc s v) (idle_of s v)"
  using idle_invD(1) by (simp add: sleepers_ok_def)

lemma cas_inv:
  assumes inv: "idle_inv n grp s" and k: "i_waker s k = W_cas v sc" and cas: "idle_wake_spinning (i_idle s v) = (r, i)" and gap: "i_pc s v \<noteq> V_store"
  shows "idle_inv n grp (set_waker k (case r of Woken \<Rightarrow> W_none | Is_sleeping \<Rightarrow> W_lock v sc | Not_idle \<Rightarrow> wake_failed n sc) (set_idle v i s))"
proof -
  have ok: "waker_pc_ok n grp s k (W_cas v sc)" using idle_invD(4) [OF inv] k by (auto simp: waker_ok_def dest: spec [of _ k])
  then have v: "v < n" by simp
  define s1 where "s1 = set_idle v i s"
  have "vp_moves grp v s (set_pc v (i_pc s v) (set_idle v i s))"
  proof -
    have "id_state i = DLSM_GT_VP_RUNNING \<or> id_state i = idle_of s v"
      using cas by (auto simp: idle_wake_spinning_def split: dlsm_gt_idle_state.splits)
    then have "i_pc s v \<noteq> V_asleep \<or> id_state i \<noteq> DLSM_GT_VP_SPINNING" "pc_ok (i_pc s v) (id_state i)"
      using idle_pc [OF inv, of v] pc_okD(2) [OF idle_pc [OF inv, of v]] gap by auto
    moreover have "id_state i = DLSM_GT_VP_RUNNING \<or> i_pc s v = V_spinning \<or> (\<exists>R. i_pc s v = V_look_again R \<and> q \<in> R)" if "due s v q" for q
      using that cas by (auto simp: idle_wake_spinning_def due_def split: dlsm_gt_idle_state.splits)
    ultimately show ?thesis by (intro moves_idle_same [OF idle_invD(1) [OF inv]]) auto
  qed
  then have "vp_moves grp v s s1" by (simp add: s1_def)
  then have inv1: "idle_inv n grp s1" using inv v by (rule vp_moves_inv)
  have k1: "i_waker s1 k = W_cas v sc" by (simp add: s1_def k)
  have ok1: "waker_pc_ok n grp s1 k (W_cas v sc)" using idle_invD(4) [OF inv1] k1 by (auto simp: waker_ok_def dest: spec [of _ k])
  have running: "v \<in> i_seen s1 k" if "idle_of s1 v = DLSM_GT_VP_RUNNING" "sc \<noteq> None"
    using idle_invD(4) [OF inv1] k1 that by (auto simp: waker_ok_def dest: spec [of _ k])
  consider (woken) "r = Woken" "idle_of s1 v = DLSM_GT_VP_RUNNING" | (sleeping) "r = Is_sleeping" "idle_of s1 v = DLSM_GT_VP_SLEEPING"
    | (busy) "r = Not_idle" "idle_of s1 v = DLSM_GT_VP_RUNNING"
    using cas by (auto simp: idle_wake_spinning_def s1_def split: dlsm_gt_idle_state.splits)
  then have "idle_inv n grp (set_waker k (case r of Woken \<Rightarrow> W_none | Is_sleeping \<Rightarrow> W_lock v sc | Not_idle \<Rightarrow> wake_failed n sc) s1)"
  proof cases
    case woken
    then show ?thesis using ok1 by (intro waker_moves_inv [OF inv1]) (auto simp: k1 scanning_def)
  next
    case sleeping
    then show ?thesis using ok1 by (intro waker_moves_inv [OF inv1]) (auto simp: k1 seen_or_asleep_def scanning_def)
  next
    case busy
    show ?thesis
    proof (cases sc)
      case None
      with busy show ?thesis by (intro waker_moves_inv [OF inv1]) (auto simp: k1 wake_failed_def scanning_def)
    next
      case (Some x)
      obtain g want j ex where x: "x = (g, want, j, ex)" by (cases x)
      have "scan_ok n grp s1 k (g, want, j, ex)" "v = j" using ok1 Some x by auto
      from scan_advance [OF this(1)] this(2) running busy(2) Some
      have "waker_pc_ok n grp s1 k (scan_next n (g, want, j, ex))" by (simp add: seen_or_asleep_def)
      with busy ok1 Some x show ?thesis
        by (intro waker_moves_inv [OF inv1]) (auto simp: k1 wake_failed_def scanning_def simp del: scan_next.simps)
    qed
  qed
  then show ?thesis by (simp add: s1_def)
qed

lemma lock_inv:
  assumes inv: "idle_inv n grp s" and k: "i_waker s k = W_lock v sc" and cas: "idle_wake_sleeping (i_idle s v) = (b, i)"
  shows "idle_inv n grp (set_waker k (if b then W_none else wake_failed n sc) (set_idle v i s))"
proof -
  have v: "v < n" using idle_invD(4) [OF inv] k by (auto simp: waker_ok_def dest: spec [of _ k])
  define s1 where "s1 = set_idle v i s"
  have "vp_moves grp v s (set_pc v (i_pc s v) (set_idle v i s))"
  proof -
    have "id_state i = DLSM_GT_VP_RUNNING \<and> i_pc s v = V_asleep \<or> id_state i = idle_of s v"
      using cas pc_okD(1) [OF idle_pc [OF inv, of v]] by (auto simp: idle_wake_sleeping_def split: if_splits)
    then have "i_pc s v \<noteq> V_asleep \<or> id_state i \<noteq> DLSM_GT_VP_SPINNING" "pc_ok (i_pc s v) (id_state i)"
      using idle_pc [OF inv, of v] pc_okD(2) [OF idle_pc [OF inv, of v]] by auto
    moreover have "id_state i = DLSM_GT_VP_RUNNING \<or> i_pc s v = V_spinning \<or> (\<exists>R. i_pc s v = V_look_again R \<and> q \<in> R)" if "due s v q" for q
      using that cas by (auto simp: idle_wake_sleeping_def due_def split: if_splits)
    ultimately show ?thesis by (intro moves_idle_same [OF idle_invD(1) [OF inv]]) auto
  qed
  then have "vp_moves grp v s s1" by (simp add: s1_def)
  then have inv1: "idle_inv n grp s1" using inv v by (rule vp_moves_inv)
  have k1: "i_waker s1 k = W_lock v sc" by (simp add: s1_def k)
  have ok1: "waker_pc_ok n grp s1 k (W_lock v sc)" using idle_invD(4) [OF inv1] k1 by (auto simp: waker_ok_def dest: spec [of _ k])
  consider (woken) "b" "idle_of s1 v = DLSM_GT_VP_RUNNING" | (not) "\<not> b" "idle_of s1 v \<noteq> DLSM_GT_VP_SLEEPING"
    using cas by (auto simp: idle_wake_sleeping_def s1_def split: if_splits)
  then have "idle_inv n grp (set_waker k (if b then W_none else wake_failed n sc) s1)"
  proof cases
    case woken
    then show ?thesis using ok1 by (intro waker_moves_inv [OF inv1]) (auto simp: k1 scanning_def)
  next
    case not
    show ?thesis
    proof (cases sc)
      case None
      with not show ?thesis by (intro waker_moves_inv [OF inv1]) (auto simp: k1 wake_failed_def scanning_def)
    next
      case (Some x)
      obtain g want j ex where x: "x = (g, want, j, ex)" by (cases x)
      have j: "scan_ok n grp s1 k (g, want, j, ex)" "v = j" "v \<in> i_seen s1 k"
        using ok1 Some x not(2) by (auto simp: seen_or_asleep_def)
      have adv: "waker_pc_ok n grp s1 k (scan_next n (g, want, j, ex))"
        "scan_of (scan_next n (g, want, j, ex)) = None \<Longrightarrow> (\<forall>v < n. grp v = g \<longrightarrow> v \<in> i_seen s1 k)"
        "(\<exists>y. scan_of (scan_next n (g, want, j, ex)) = Some (g, y)) \<or> scan_of (scan_next n (g, want, j, ex)) = None"
        using scan_advance [OF j(1)] j(2,3) by (auto simp: seen_or_asleep_def simp del: scan_next.simps)
      with not Some x show ?thesis
        by (intro waker_moves_inv [OF inv1]) (auto simp: k1 wake_failed_def scanning_def simp del: scan_next.simps)
    qed
  qed
  then show ?thesis by (simp add: s1_def)
qed

lemma load_skip_inv:
  assumes inv: "idle_inv n grp s" and k: "i_waker s k = W_load (g, want, i, ex)" and no: "ex = Some i \<or> grp i \<noteq> g \<or> idle_of s i \<noteq> want"
  shows "idle_inv n grp (set_waker k (scan_next n (g, want, i, ex)) s)"
proof -
  have ok: "scan_ok n grp s k (g, want, i, ex)" and run: "\<And>v. idle_of s v = DLSM_GT_VP_RUNNING \<Longrightarrow> v \<in> i_seen s k"
    using idle_invD(4) [OF inv] k by (auto simp: waker_ok_def dest: spec [of _ k])
  have "if want = DLSM_GT_VP_SPINNING then seen_or_asleep s k i else i \<in> i_seen s k" if "grp i = g"
    using no that ok run [of i] by (cases "idle_of s i") (auto simp: seen_or_asleep_def split: if_splits)
  note adv = scan_advance [OF ok this]
  show ?thesis using adv by (intro waker_moves_inv [OF inv]) (auto simp: k scanning_def simp del: scan_next.simps)
qed

lemma istep_inv:
  assumes "istep True n grp s s'" and "idle_inv n grp s"
  shows "idle_inv n grp s'"
  using assms
proof (induction rule: istep.induct)
  case (look_none v s)
  have "vp_moves grp v s (set_pc v V_spin s)"
    using idle_invD(4) idle_pc [of n grp s v] look_none by (intro moves_pc) (auto simp: due_def pc_ok_def)
  then show ?case using vp_moves_inv look_none by blast
next
  case (take v s q)
  have "vp_moves grp v s (set_pc v V_run (set_idle v (running_idle (i_idle s v)) (s\<lparr>i_work := (i_work s)(q := i_work s q - 1)\<rparr>)))"
    using idle_invD(1) [OF take(4)] take(2) by (intro moves_idle) (auto simp: running_idle_def pc_ok_def)
  from vp_moves_inv [OF this take(4,1)] show ?case by (simp add: set_work_def)
next
  case (spin v s)
  have "vp_moves grp v s (set_pc v V_spinning (set_idle v (idle_spin_begin (i_idle s v)) s))"
    using idle_invD(1) [OF spin(3)] spin(2) by (intro moves_idle_same) (auto simp: idle_spin_begin_def pc_ok_def)
  then show ?case using vp_moves_inv spin by blast
next
  case (spun v s it t1 t2 b i)
  have st: "id_state i = idle_of s v" using spun(3) by (rule spin_end_state)
  have "vp_moves grp v s (set_pc v (V_look_again (scanned grp v)) (set_idle v i s))"
    using idle_invD(1) [OF spun(4)] idle_pc [OF spun(4), of v] spun(2) st by (intro moves_idle_same) (auto simp: pc_ok_def)
  then show ?case using vp_moves_inv spun by blast
next
  case (skip v s R q)
  have "vp_moves grp v s (set_pc v (V_look_again (R - {q})) s)"
    using idle_invD(4) [OF skip(5)] idle_pc [OF skip(5), of v] skip(2-4) by (intro moves_pc) (auto simp: due_def pc_ok_def)
  then show ?case using vp_moves_inv skip by blast
next
  case (look_again_none v s)
  have "vp_moves grp v s (set_pc v V_sleep s)"
    using idle_invD(4) idle_pc [of n grp s v] look_again_none by (intro moves_pc) (auto simp: due_def pc_ok_def)
  then show ?case using vp_moves_inv look_again_none by blast
next
  case (sleep_load v s)
  have "vp_moves grp v s (set_pc v (if idle_sleep_load (i_idle s v) then V_store else V_look) s)"
    using idle_invD(4) idle_pc [of n grp s v] sleep_load by (intro moves_pc) (auto simp: due_def pc_ok_def idle_sleep_load_def)
  then show ?case using vp_moves_inv sleep_load by blast
next
  case (sleep_store v s)
  have "vp_moves grp v s (set_pc v V_asleep (set_idle v (idle_sleep_store (i_idle s v)) s))"
    using idle_invD(1) [OF sleep_store(3)] idle_pc [OF sleep_store(3), of v] sleep_store(2)
    by (intro moves_idle_same) (auto simp: idle_sleep_store_def due_def pc_ok_def)
  then show ?case using vp_moves_inv sleep_store by blast
next
  case (awake v s t1 t2)
  have st: "id_state (idle_sleep_leave t1 t2 (i_idle s v)) = idle_of s v" by (simp add: idle_sleep_leave_def)
  have "idle_of s v \<noteq> DLSM_GT_VP_SPINNING" using idle_pc [OF awake(4), of v] awake(2) by (simp add: pc_ok_def)
  then have run: "idle_of s v = DLSM_GT_VP_RUNNING" using awake(3) by (cases "idle_of s v") simp_all
  have "vp_moves grp v s (set_pc v V_look (set_idle v (idle_sleep_leave t1 t2 (i_idle s v)) s))"
    using idle_invD(1) [OF awake(4)] st run by (intro moves_idle_same) (simp_all add: pc_ok_def)
  then show ?case using vp_moves_inv awake by blast
next
  case (run_done v s)
  have "vp_moves grp v s (set_pc v V_look s)"
    using idle_invD(4) idle_pc [of n grp s v] run_done by (intro moves_pc) (auto simp: due_def pc_ok_def)
  then show ?case using vp_moves_inv run_done by blast
next
  case (requeue v s q)
  then show ?case using own_work_inv [OF requeue(4,3)] idle_pc [OF requeue(4), of v] by (simp add: pc_ok_def)
next
  case (push_own v s k q)
  have "waking (set_waker k (W_cas v None) s) v" by (auto simp: waking_def)
  from own_work_inv [OF wake_begins_inv [OF push_own(4,1,2)] push_own(3) disjI2, OF this] show ?case by (simp add: set_work_commute)
next
  case (push_group p s k g)
  let ?s = "begin_scan k (g, DLSM_GT_VP_SPINNING, 0, None) s"
  have "idle_inv n grp ?s" by (rule begin_scan_inv [OF push_group(4,1,3)]) simp
  from group_work_inv [OF this, of k g p] show ?case by (simp add: set_work_commute scanning_def)
next
  case (push_local v s p k)
  let ?s = "begin_scan k (grp v, DLSM_GT_VP_SPINNING, 0, Some v) s"
  have run: "idle_of s v = DLSM_GT_VP_RUNNING" using idle_pc [OF push_local(5), of v] push_local(2) by (simp add: pc_ok_def)
  have "idle_inv n grp ?s" by (rule begin_scan_inv [OF push_local(5) _ push_local(4)]) (use push_local(1) run in auto)
  from own_work_inv [OF this, of "Local v p" v] run push_local(3) show ?case by (simp add: set_work_commute own_queues_def)
next
  case (load_skip s k g want i ex)
  then show ?case using load_skip_inv by blast
next
  case (load_hit s k g want i ex)
  have "scan_ok n grp s k (g, want, i, ex)" using idle_invD(4) [OF load_hit(5)] load_hit(1) by (auto simp: waker_ok_def dest: spec [of _ k])
  then show ?case using load_hit by (intro waker_moves_inv) (auto simp: scanning_def)
next
  case (cas s k v sc r i)
  then show ?case using cas_inv by blast
next
  case (lock s k v sc b i)
  then show ?case using lock_inv by blast
qed

lemma ireach_inv: "ireach True n grp s \<Longrightarrow> idle_inv n grp s"
proof (induction rule: ireach.induct)
  case init
  then show ?case by (simp add: idle_inv_def sleepers_ok_def pc_ok_def own_ok_def group_ok_def waker_ok_def idle_start_def)
next
  case (step s s')
  then show ?case using istep_inv by blast
qed

section \<open>No lost wake-up\<close>

lemma scan_finds_nothing:
  assumes "finite R" and "v < n" and "i_work s = (\<lambda>_. 0)" and "ireach a n grp (set_pc v (V_look_again R) s)"
  shows "ireach a n grp (set_pc v (V_look_again {}) s)"
  using assms
proof (induction rule: finite_induct)
  case (insert q R)
  have "istep a n grp (set_pc v (V_look_again (insert q R)) s) (set_pc v (V_look_again (insert q R - {q})) (set_pc v (V_look_again (insert q R)) s))"
    by (rule istep.skip) (use insert.prems in simp_all)
  moreover have "insert q R - {q} = R" using insert.hyps by auto
  ultimately have "ireach a n grp (set_pc v (V_look_again R) s)"
    using ireach.step [OF insert.prems(3)] by (simp add: set_pc_def)
  with insert show ?case by blast
qed simp

text \<open>A processor without work comes to the point between the load and the store.\<close>

lemma about_to_sleep:
  "\<exists>s. ireach a 1 (\<lambda>_. 0) s \<and> i_pc s 0 = V_store \<and> idle_of s 0 = DLSM_GT_VP_SPINNING \<and> i_work s = (\<lambda>_. 0) \<and> i_waker s = (\<lambda>_. W_none)"
proof -
  let ?g = "\<lambda>_ :: nat. 0 :: nat"
  define s0 where "s0 = \<lparr>i_idle = (\<lambda>_. idle_start), i_pc = (\<lambda>_. V_look), i_work = (\<lambda>_. 0), i_waker = (\<lambda>_. W_none), i_seen = (\<lambda>_. {})\<rparr>"
  define s1 where "s1 = set_pc 0 V_spin s0"
  define s2 where "s2 = set_pc 0 V_spinning (set_idle 0 (idle_spin_begin (i_idle s1 0)) s1)"
  define i where "i = snd (idle_spin_end 0 0 0 (i_idle s2 0))"
  define s3 where "s3 = set_idle 0 i s2"
  have st: "id_state i = DLSM_GT_VP_SPINNING"
    by (simp add: i_def idle_spin_end_def Let_def s2_def idle_spin_begin_def)
  have w: "i_work s3 = (\<lambda>_. 0)" "i_waker s3 = (\<lambda>_. W_none)" by (simp_all add: s3_def s2_def s1_def s0_def)
  have "ireach a 1 ?g s0" unfolding s0_def by (rule ireach.init)
  moreover have "istep a 1 ?g s0 s1" unfolding s1_def by (rule istep.look_none) (simp_all add: s0_def)
  moreover have "istep a 1 ?g s1 s2" unfolding s2_def by (rule istep.spin) (simp_all add: s1_def)
  moreover have "istep a 1 ?g s2 (set_pc 0 (V_look_again (scanned ?g 0)) s3)"
    unfolding s3_def by (rule istep.spun [where b = "fst (idle_spin_end 0 0 0 (i_idle s2 0))"]) (simp_all add: i_def s2_def)
  ultimately have r3: "ireach a 1 ?g (set_pc 0 (V_look_again (scanned ?g 0)) s3)" by (blast intro: ireach.step)
  have "finite (scanned ?g 0)" by (simp add: scanned_def own_queues_def)
  from scan_finds_nothing [OF this _ w(1) r3] have r4: "ireach a 1 ?g (set_pc 0 (V_look_again {}) s3)" by simp
  let ?s5 = "set_pc 0 V_sleep (set_pc 0 (V_look_again {}) s3)"
  have "ireach a 1 ?g ?s5" by (rule ireach.step [OF r4 istep.look_again_none]) simp_all
  from ireach.step [OF this istep.sleep_load [of 0]] have "ireach a 1 ?g (set_pc 0 V_store ?s5)"
    by (simp add: idle_sleep_load_def s3_def st)
  then show ?thesis using w st by (intro exI [of _ "set_pc 0 V_store ?s5"]) (simp add: s3_def)
qed

text \<open>A processor can fall asleep, and a task can then be made ready for it.\<close>

lemma sleeper_with_work: "\<exists>s. ireach True 1 (\<lambda>_. 0) s \<and> idle_of s 0 = DLSM_GT_VP_SLEEPING \<and> 0 < i_work s (Local 0 4)"
proof -
  obtain s where s: "ireach True 1 (\<lambda>_. 0) s" "i_pc s 0 = V_store" "i_waker s = (\<lambda>_. W_none)" using about_to_sleep by blast
  let ?s1 = "set_pc 0 V_asleep (set_idle 0 (idle_sleep_store (i_idle s 0)) s)"
  have "ireach True 1 (\<lambda>_. 0) ?s1" using ireach.step [OF s(1) istep.sleep_store [of 0]] s(2) by simp
  moreover have "istep True 1 (\<lambda>_. 0) ?s1 (set_waker 0 (W_cas 0 None) (set_work (Local 0 4) (Suc (i_work ?s1 (Local 0 4))) ?s1))"
    by (rule istep.push_own) (use s(3) in \<open>simp_all add: own_queues_def\<close>)
  ultimately have "ireach True 1 (\<lambda>_. 0) (set_waker 0 (W_cas 0 None) (set_work (Local 0 4) (Suc (i_work ?s1 (Local 0 4))) ?s1))" by (rule ireach.step)
  then show ?thesis by (intro exI conjI, assumption) (simp_all add: idle_sleep_store_def)
qed

text \<open>
  Claim C5. No wake-up is lost, in any interleaving of the sleeping protocol of the processors with threads
  that make tasks ready, as long as no compare-and-swap of a waker falls between the load and the store with which a processor goes to sleep
  (lines 76 and 81 of \<^verbatim>\<open>vp_idle_pthread.c\<close>; \<open>idle_gap_loses_wakeup\<close> shows what happens otherwise). While a processor sleeps, work in its
  own queues implies that a waker is on its way to this processor; while all processors of a group sleep, work in a queue of the group implies that a waker
  is scanning the group and has still to reach one of them. So once no waker is under way, a sleeping
  processor has no work of its own and a group with work has a processor that is not asleep.
\<close>

theorem no_lost_wakeup:
  assumes "ireach True n grp s"
  shows "(\<forall>v < n. \<forall>q \<in> own_queues v. idle_of s v = DLSM_GT_VP_SLEEPING \<and> 0 < i_work s q \<longrightarrow>
      (\<exists>k sc. i_waker s k = W_cas v sc \<or> i_waker s k = W_lock v sc)) \<and>
    (\<forall>g. \<forall>p < 8. (\<exists>v < n. grp v = g) \<and> 0 < i_work s (Group g p) \<and> (\<forall>v < n. grp v = g \<longrightarrow> idle_of s v = DLSM_GT_VP_SLEEPING) \<longrightarrow>
      (\<exists>k x. scan_of (i_waker s k) = Some (g, x)))"
proof -
  have inv: "idle_inv n grp s" using ireach_inv [OF assms] .
  have not_due: "\<not> due s v q" if "idle_of s v = DLSM_GT_VP_SLEEPING" for v q
    using idle_pc [OF inv, of v] that by (auto simp: due_def pc_ok_def)
  have "\<exists>k sc. i_waker s k = W_cas v sc \<or> i_waker s k = W_lock v sc"
    if "v < n" "q \<in> own_queues v" "idle_of s v = DLSM_GT_VP_SLEEPING" "0 < i_work s q" for v q
  proof -
    have "waking s v" using idle_invD(2) [OF inv] that not_due by (auto simp: own_ok_def)
    then show ?thesis unfolding waking_def by blast
  qed
  moreover have "\<exists>k x. scan_of (i_waker s k) = Some (g, x)"
    if "p < 8" "v < n" "grp v = g" "0 < i_work s (Group g p)" "\<forall>v < n. grp v = g \<longrightarrow> idle_of s v = DLSM_GT_VP_SLEEPING" for v g p
    using idle_invD(3) [OF inv] that not_due unfolding group_ok_def scanning_def by blast
  ultimately show ?thesis by blast
qed

theorem no_lost_wakeup_witness:
  "\<exists>s. ireach True 1 (\<lambda>_. 0) s \<and> idle_of s 0 = DLSM_GT_VP_SLEEPING \<and> 0 < i_work s (Local 0 4) \<and>
     (\<exists>k sc. i_waker s k = W_cas 0 sc \<or> i_waker s k = W_lock 0 sc)"
proof -
  obtain s where s: "ireach True 1 (\<lambda>_. 0) s" "idle_of s 0 = DLSM_GT_VP_SLEEPING" "0 < i_work s (Local 0 4)"
    using sleeper_with_work by blast
  have "Local 0 4 \<in> own_queues 0" by (simp add: own_queues_def)
  with no_lost_wakeup [OF s(1)] s(2,3) have "\<exists>k sc. i_waker s k = W_cas 0 sc \<or> i_waker s k = W_lock 0 sc"
    by (metis less_one)
  with s show ?thesis by (intro exI [of _ s] conjI)
qed

section \<open>The gap between the load and the store\<close>

text \<open>
  The source loses a wake-up. The processor has seen \<open>SPINNING\<close> under the mutex (line 76); a thread makes a task ready for it and its
  compare-and-swap, which does not take the mutex, changes \<open>SPINNING\<close> to \<open>RUNNING\<close> and reports success (line 106); then the processor stores
  \<open>SLEEPING\<close> (line 81) and waits. The task is in its queue, it sleeps, and nobody is going to wake it.
\<close>

theorem idle_gap_loses_wakeup:
  "\<exists>s. ireach False 1 (\<lambda>_. 0) s \<and> i_pc s 0 = V_asleep \<and> idle_of s 0 = DLSM_GT_VP_SLEEPING \<and> 0 < i_work s (Local 0 4) \<and> (\<forall>k. i_waker s k = W_none)"
proof -
  obtain s where s: "ireach False 1 (\<lambda>_. 0) s" "i_pc s 0 = V_store" "idle_of s 0 = DLSM_GT_VP_SPINNING" "i_waker s = (\<lambda>_. W_none)"
    using about_to_sleep by blast
  let ?s1 = "set_waker 0 (W_cas 0 None) (set_work (Local 0 4) (Suc (i_work s (Local 0 4))) s)"
  let ?s2 = "set_waker 0 W_none (set_idle 0 ((i_idle s 0)\<lparr>id_state := DLSM_GT_VP_RUNNING\<rparr>) ?s1)"
  let ?s3 = "set_pc 0 V_asleep (set_idle 0 (idle_sleep_store (i_idle ?s2 0)) ?s2)"
  have "istep False 1 (\<lambda>_. 0) s ?s1" by (rule istep.push_own) (use s(4) in \<open>simp_all add: own_queues_def\<close>)
  then have "ireach False 1 (\<lambda>_. 0) ?s1" by (rule ireach.step [OF s(1)])
  moreover have "istep False 1 (\<lambda>_. 0) ?s1 ?s2"
    using istep.cas [of ?s1 0 0 None Woken "(i_idle s 0)\<lparr>id_state := DLSM_GT_VP_RUNNING\<rparr>" False 1 "\<lambda>_. 0"] s(3) by (simp add: idle_wake_spinning_def)
  ultimately have "ireach False 1 (\<lambda>_. 0) ?s2" by (rule ireach.step)
  moreover have "istep False 1 (\<lambda>_. 0) ?s2 ?s3" by (rule istep.sleep_store) (use s(2) in simp_all)
  ultimately have "ireach False 1 (\<lambda>_. 0) ?s3" by (rule ireach.step)
  then show ?thesis using s(4) by (intro exI [of _ ?s3]) (simp add: idle_sleep_store_def)
qed

end
