(* ===== verification/Gt_Runtime.thy ===== *)
theory Gt_Runtime
  imports Gt_Timer
begin

text \<open>
  The life cycle of a runtime (\<^verbatim>\<open>libs/greenthread/src/greenthread.c\<close>): \<open>dlsm_gt_start\<close>, \<open>dlsm_gt_stop\<close>,
  \<open>dlsm_gt_wait\<close>, \<open>dlsm_gt_run\<close>, \<open>dlsm_gt_runtime_free\<close>, \<open>dlsm_gt_runtime_add_vp\<close>, and the parts of
  \<open>dlsm_gt_spawn_ex\<close>, \<open>rt_task_done\<close> and \<open>sched_next\<close> that read or change the state of the runtime. What runs
  under the runtime's ticket lock is one function. \<open>ok\<close> and \<open>jok\<close> say which \<open>pthread_create\<close> and
  \<open>pthread_join\<close> succeed; \<open>r_alive\<close> is the set of threads that were created and not joined.
\<close>

section \<open>Data\<close>

datatype runtime_state = RT_CREATED | RT_RUNNING | RT_STOPPING | RT_JOINING | RT_STOPPED

datatype rt_thread = Th_timer | Th_blocking nat | Th_vp nat

record runtime =
  r_live :: nat
  r_shutdown :: bool
  r_stop_requested :: bool
  r_auto_stop :: bool
  r_state :: runtime_state
  r_fatal :: dlsm_status
  r_nvp :: nat
  r_started_vps :: nat
  r_group_nvp :: "nat \<Rightarrow> nat"
  r_ngroups :: nat
  r_timer_started :: bool
  r_timer_stop :: bool
  r_blocking_count :: nat
  r_blocking_started :: nat
  r_blocking_stop :: bool
  r_alive :: "rt_thread set"

section \<open>Operations\<close>

definition request_timer_stop :: "runtime \<Rightarrow> runtime" where
  "request_timer_stop r = r\<lparr>r_timer_stop := True\<rparr>"

text \<open>The pool is initialised when it has threads.\<close>

definition blocking_runtime_request_stop :: "runtime \<Rightarrow> runtime" where
  "blocking_runtime_request_stop r = (if r_blocking_count r = 0 then r else r\<lparr>r_blocking_stop := True\<rparr>)"

definition join_thread :: "(rt_thread \<Rightarrow> bool) \<Rightarrow> rt_thread \<Rightarrow> dlsm_status \<times> runtime \<Rightarrow> dlsm_status \<times> runtime" where
  "join_thread jok th res = (case res of (st, r) \<Rightarrow>
     (if \<not> jok th \<and> st = DLSM_OK then DLSM_GT_E_THREAD else st, r\<lparr>r_alive := r_alive r - {th}\<rparr>))"

definition join_started_vps :: "(rt_thread \<Rightarrow> bool) \<Rightarrow> dlsm_status \<Rightarrow> runtime \<Rightarrow> dlsm_status \<times> runtime" where
  "join_started_vps jok st r = fold (\<lambda>i. join_thread jok (Th_vp i)) [0..<r_started_vps r] (st, r)"

definition blocking_runtime_join :: "(rt_thread \<Rightarrow> bool) \<Rightarrow> dlsm_status \<Rightarrow> runtime \<Rightarrow> dlsm_status \<times> runtime" where
  "blocking_runtime_join jok st r =
     (case fold (\<lambda>i. join_thread jok (Th_blocking i)) [0..<r_blocking_started r] (st, r) of
        (st1, r1) \<Rightarrow> (st1, r1\<lparr>r_blocking_started := 0\<rparr>))"

definition join_timer :: "(rt_thread \<Rightarrow> bool) \<Rightarrow> dlsm_status \<Rightarrow> runtime \<Rightarrow> dlsm_status \<times> runtime" where
  "join_timer jok st r =
     (if r_timer_started r
      then (case join_thread jok Th_timer (st, r) of (st1, r1) \<Rightarrow> (st1, r1\<lparr>r_timer_started := False\<rparr>)) else (st, r))"

text \<open>What both cleanup paths and \<open>dlsm_gt_wait\<close> do, in this order.\<close>

definition join_all :: "(rt_thread \<Rightarrow> bool) \<Rightarrow> dlsm_status \<Rightarrow> runtime \<Rightarrow> dlsm_status \<times> runtime" where
  "join_all jok st r =
     (case join_started_vps jok st r of (st1, r1) \<Rightarrow>
      case blocking_runtime_join jok st1 r1 of (st2, r2) \<Rightarrow> join_timer jok st2 r2)"

definition creation_failed :: "runtime \<Rightarrow> runtime" where
  "creation_failed r = r\<lparr>r_fatal := DLSM_GT_E_THREAD, r_stop_requested := True, r_shutdown := True, r_state := RT_STOPPING\<rparr>"

text \<open>The loops that create the threads of the pool and of the processors; \<open>k\<close> iterations are left.\<close>

fun start_blocking :: "(rt_thread \<Rightarrow> bool) \<Rightarrow> nat \<Rightarrow> runtime \<Rightarrow> runtime" where
  "start_blocking ok 0 r = r"
| "start_blocking ok (Suc k) r =
     (let th = Th_blocking (r_blocking_count r - Suc k) in
      if ok th then start_blocking ok k (r\<lparr>r_alive := insert th (r_alive r), r_blocking_started := r_blocking_started r + 1\<rparr>)
      else creation_failed r)"

fun start_vps :: "(rt_thread \<Rightarrow> bool) \<Rightarrow> nat \<Rightarrow> runtime \<Rightarrow> bool \<times> runtime" where
  "start_vps ok 0 r = (False, r)"
| "start_vps ok (Suc k) r =
     (let th = Th_vp (r_nvp r - Suc k) in
      if ok th then start_vps ok k (r\<lparr>r_alive := insert th (r_alive r), r_started_vps := r_started_vps r + 1\<rparr>)
      else (True, creation_failed r))"

text \<open>
  \<open>dlsm_gt_start\<close> under the lock. The answer is the status when it returns there, or \<open>None\<close> when a
  thread could not be created and the ones created have to be joined.
\<close>

definition start_locked :: "(rt_thread \<Rightarrow> bool) \<Rightarrow> runtime \<Rightarrow> dlsm_status option \<times> runtime" where
  "start_locked ok r =
     (if r_state r \<noteq> RT_CREATED then (Some DLSM_GT_E_STATE, r)
      else if r_auto_stop r \<and> r_live r = 0
      then (Some DLSM_OK, r\<lparr>r_stop_requested := True, r_shutdown := True, r_state := RT_STOPPING\<rparr>)
      else
        (let r1 = r\<lparr>r_state := RT_RUNNING, r_timer_stop := False\<rparr> in
         if \<not> ok Th_timer then (Some DLSM_GT_E_THREAD, r1\<lparr>r_fatal := DLSM_GT_E_THREAD, r_state := RT_STOPPED\<rparr>)
         else
           (let r2 = r1\<lparr>r_alive := insert Th_timer (r_alive r1), r_timer_started := True, r_blocking_stop := False\<rparr>;
                r3 = start_blocking ok (r_blocking_count r2) r2 in
            if r_state r3 = RT_STOPPING then (None, r3)
            else (case start_vps ok (r_nvp r3) r3 of (failed, r4) \<Rightarrow> if failed then (None, r4) else (Some DLSM_OK, r4)))))"

text \<open>
  The cleanup after a failed creation. Where only threads of the pool were tried, no processor has
  been started, so that joining the processors first is joining none.
\<close>

definition start_cleanup :: "(rt_thread \<Rightarrow> bool) \<Rightarrow> runtime \<Rightarrow> dlsm_status \<times> runtime" where
  "start_cleanup jok r =
     (case join_all jok DLSM_GT_E_THREAD (blocking_runtime_request_stop (request_timer_stop r)) of
        (st, r1) \<Rightarrow> (st, r1\<lparr>r_state := RT_STOPPED, r_fatal := st\<rparr>))"

definition dlsm_gt_start :: "(rt_thread \<Rightarrow> bool) \<Rightarrow> (rt_thread \<Rightarrow> bool) \<Rightarrow> runtime option \<Rightarrow> dlsm_status \<times> runtime option" where
  "dlsm_gt_start ok jok ro = (case ro of
     None \<Rightarrow> (DLSM_GT_E_INVAL, None)
   | Some r \<Rightarrow> (case start_locked ok r of
        (Some st, r1) \<Rightarrow> (st, Some r1)
      | (None, r1) \<Rightarrow> (case start_cleanup jok r1 of (st, r2) \<Rightarrow> (st, Some r2))))"

definition dlsm_gt_stop :: "runtime option \<Rightarrow> dlsm_status \<times> runtime option" where
  "dlsm_gt_stop ro = (case ro of
     None \<Rightarrow> (DLSM_GT_E_INVAL, None)
   | Some r \<Rightarrow>
       if r_state r = RT_CREATED then (DLSM_OK, Some (r\<lparr>r_stop_requested := True, r_shutdown := True, r_state := RT_STOPPED\<rparr>))
       else if r_state r \<noteq> RT_RUNNING then (DLSM_GT_E_STATE, Some r)
       else
         (let r1 = r\<lparr>r_stop_requested := True, r_state := RT_STOPPING\<rparr> in
          if r_live r1 = 0
          then (DLSM_OK, Some (blocking_runtime_request_stop (request_timer_stop (r1\<lparr>r_shutdown := True\<rparr>))))
          else (DLSM_OK, Some r1)))"

text \<open>\<open>dlsm_gt_wait\<close>: the first section under the lock, and what follows it.\<close>

definition wait_begin :: "runtime \<Rightarrow> dlsm_status option \<times> runtime" where
  "wait_begin r =
     (if r_state r \<noteq> RT_STOPPING \<and> \<not> (r_state r = RT_RUNNING \<and> r_auto_stop r) then (Some DLSM_GT_E_STATE, r)
      else (None, r\<lparr>r_state := RT_JOINING\<rparr>))"

definition wait_end :: "(rt_thread \<Rightarrow> bool) \<Rightarrow> dlsm_status \<Rightarrow> runtime \<Rightarrow> dlsm_status \<times> runtime" where
  "wait_end jok st r =
     (case join_all jok st r of (st1, r1) \<Rightarrow>
      let st2 = (if st1 = DLSM_OK \<and> r_fatal r1 \<noteq> DLSM_OK then r_fatal r1 else st1) in
      (st2, r1\<lparr>r_state := RT_STOPPED, r_fatal := st2\<rparr>))"

definition dlsm_gt_wait :: "(rt_thread \<Rightarrow> bool) \<Rightarrow> runtime option \<Rightarrow> dlsm_status \<times> runtime option" where
  "dlsm_gt_wait jok ro = (case ro of
     None \<Rightarrow> (DLSM_GT_E_INVAL, None)
   | Some r \<Rightarrow> (case wait_begin r of
        (Some st, r1) \<Rightarrow> (st, Some r1)
      | (None, r1) \<Rightarrow> (case wait_end jok (r_fatal r) r1 of (st, r2) \<Rightarrow> (st, Some r2))))"

definition run_begin :: "runtime \<Rightarrow> dlsm_status \<times> runtime" where
  "run_begin r = (if r_state r \<noteq> RT_CREATED then (DLSM_GT_E_STATE, r) else (DLSM_OK, r\<lparr>r_auto_stop := True\<rparr>))"

text \<open>\<open>env\<close> is what the runtime's own threads do between the start and the wait.\<close>

definition dlsm_gt_run ::
  "(rt_thread \<Rightarrow> bool) \<Rightarrow> (rt_thread \<Rightarrow> bool) \<Rightarrow> (runtime \<Rightarrow> runtime) \<Rightarrow> runtime option \<Rightarrow> dlsm_status \<times> runtime option" where
  "dlsm_gt_run ok jok env ro = (case ro of
     None \<Rightarrow> (DLSM_GT_E_INVAL, None)
   | Some r \<Rightarrow> (case run_begin r of (st, r1) \<Rightarrow>
       if st \<noteq> DLSM_OK then (st, Some r1)
       else (case dlsm_gt_start ok jok (Some r1) of (st2, ro2) \<Rightarrow>
         if st2 \<noteq> DLSM_OK then (st2, ro2) else dlsm_gt_wait jok (map_option env ro2))))"


text \<open>The section of \<open>dlsm_gt_spawn_ex\<close> under the runtime's lock: whether the task is accepted.\<close>

definition spawn_admit :: "runtime \<Rightarrow> bool \<times> runtime" where
  "spawn_admit r =
     (if r_state r \<noteq> RT_CREATED \<and> r_state r \<noteq> RT_RUNNING then (False, r) else (True, r\<lparr>r_live := r_live r + 1\<rparr>))"

text \<open>The section of \<open>rt_task_done\<close> under the runtime's lock, and the stop requests it leads to.\<close>

definition task_done_live :: "runtime \<Rightarrow> runtime" where
  "task_done_live r =
     (let r1 = r\<lparr>r_live := r_live r - 1\<rparr> in
      if r_live r1 = 0 \<and> (r_stop_requested r1 \<or> r_auto_stop r1) then
        blocking_runtime_request_stop (request_timer_stop
          (r1\<lparr>r_shutdown := True, r_state := (if r_state r1 = RT_RUNNING then RT_STOPPING else r_state r1)\<rparr>))
      else r1)"

text \<open>What \<open>sched_next\<close> does when the wait of an idle processor fails.\<close>

definition sched_fatal :: "runtime \<Rightarrow> runtime" where
  "sched_fatal r = blocking_runtime_request_stop (request_timer_stop
     (r\<lparr>r_fatal := DLSM_GT_E_WAIT, r_shutdown := True, r_state := RT_STOPPING\<rparr>))"

text \<open>
  \<open>dlsm_gt_runtime_add_vp\<close>; \<open>slot\<close> says whether \<open>vp_init\<close> succeeds. The number of processors is a C \<open>int\<close>.
\<close>

definition dlsm_gt_runtime_add_vp ::
  "(rt_thread \<Rightarrow> bool) \<Rightarrow> bool \<Rightarrow> bool \<Rightarrow> int \<Rightarrow> runtime option \<Rightarrow> (dlsm_status \<times> nat option) \<times> runtime option" where
  "dlsm_gt_runtime_add_vp ok slot out g ro = (case ro of
     None \<Rightarrow> ((DLSM_GT_E_INVAL, None), None)
   | Some r \<Rightarrow>
       if \<not> out then ((DLSM_GT_E_INVAL, None), Some r)
       else if r_state r \<noteq> RT_CREATED \<and> r_state r \<noteq> RT_RUNNING then ((DLSM_GT_E_STATE, None), Some r)
       else if g < 0 \<or> g \<ge> int (r_ngroups r) \<or> r_group_nvp r (nat g) = 0 then ((DLSM_GT_E_INVAL, None), Some r)
       else if int (r_nvp r) = 2 ^ 31 - 1 \<or> \<not> slot then ((DLSM_GT_E_NOMEM, None), Some r)
       else
         (let v = r_nvp r; running = (r_state r = RT_RUNNING) in
          if running \<and> \<not> ok (Th_vp v) then ((DLSM_GT_E_THREAD, None), Some r)
          else
            (let r1 = r\<lparr>r_group_nvp := (r_group_nvp r)(nat g := r_group_nvp r (nat g) + 1), r_nvp := v + 1\<rparr>;
                 r2 = (if running then r1\<lparr>r_alive := insert (Th_vp v) (r_alive r1), r_started_vps := r_started_vps r1 + 1\<rparr> else r1) in
             ((DLSM_OK, Some v), Some r2))))"

definition dlsm_gt_runtime_vp_count :: "runtime option \<Rightarrow> nat" where
  "dlsm_gt_runtime_vp_count ro = (case ro of None \<Rightarrow> 0 | Some r \<Rightarrow> r_nvp r)"

section \<open>Threads\<close>

text \<open>The threads the counters say have been started and not joined.\<close>

definition started_threads :: "runtime \<Rightarrow> rt_thread set" where
  "started_threads r =
     Th_vp ` {0..<r_started_vps r} \<union> Th_blocking ` {0..<r_blocking_started r} \<union> (if r_timer_started r then {Th_timer} else {})"

lemma join_thread_pair:
  "join_thread jok th (st, r) = (if \<not> jok th \<and> st = DLSM_OK then DLSM_GT_E_THREAD else st, r\<lparr>r_alive := r_alive r - {th}\<rparr>)"
  by (simp add: join_thread_def)

lemma join_fold:
  "fold (\<lambda>i. join_thread jok (f i)) is (st, r) =
     (if st = DLSM_OK \<and> (\<exists>i\<in>set is. \<not> jok (f i)) then DLSM_GT_E_THREAD else st, r\<lparr>r_alive := r_alive r - f ` set is\<rparr>)"
proof (induction "is" arbitrary: st r)
  case (Cons i "is")
  let ?st = "if \<not> jok (f i) \<and> st = DLSM_OK then DLSM_GT_E_THREAD else st"
  have a: "r_alive r - {f i} - f ` set is = r_alive r - f ` set (i # is)" by auto
  have b: "(if ?st = DLSM_OK \<and> (\<exists>i\<in>set is. \<not> jok (f i)) then DLSM_GT_E_THREAD else ?st) =
    (if st = DLSM_OK \<and> (\<exists>i\<in>set (i # is). \<not> jok (f i)) then DLSM_GT_E_THREAD else st)"
    by (cases "st = DLSM_OK"; cases "jok (f i)"; simp)
  show ?case unfolding fold_simps(2) join_thread_pair Cons.IH b a[symmetric] by simp
qed simp

lemma join_all_state:
  "snd (join_all jok st r) =
     r\<lparr>r_alive := r_alive r - started_threads r, r_blocking_started := 0, r_timer_started := False\<rparr>"
  by (rule runtime.equality)
    (auto simp: join_all_def join_started_vps_def blocking_runtime_join_def join_timer_def join_fold join_thread_pair
      started_threads_def)

lemma join_all_status:
  "fst (join_all jok st r) =
     (if st = DLSM_OK \<and> (\<exists>th\<in>started_threads r. \<not> jok th) then DLSM_GT_E_THREAD else st)"
  by (auto simp: join_all_def join_started_vps_def blocking_runtime_join_def join_timer_def join_fold join_thread_pair
      started_threads_def)

lemma join_all_eq:
  "join_all jok st r =
     (if st = DLSM_OK \<and> (\<exists>th\<in>started_threads r. \<not> jok th) then DLSM_GT_E_THREAD else st,
      r\<lparr>r_alive := r_alive r - started_threads r, r_blocking_started := 0, r_timer_started := False\<rparr>)"
  by (rule prod_eqI) (simp_all add: join_all_state join_all_status)

lemma request_stop_simps [simp]:
  "started_threads (blocking_runtime_request_stop (request_timer_stop r)) = started_threads r"
  "r_alive (blocking_runtime_request_stop (request_timer_stop r)) = r_alive r"
  "r_state (blocking_runtime_request_stop (request_timer_stop r)) = r_state r"
  "r_live (blocking_runtime_request_stop (request_timer_stop r)) = r_live r"
  "r_shutdown (blocking_runtime_request_stop (request_timer_stop r)) = r_shutdown r"
  "r_auto_stop (blocking_runtime_request_stop (request_timer_stop r)) = r_auto_stop r"
  "r_stop_requested (blocking_runtime_request_stop (request_timer_stop r)) = r_stop_requested r"
  "r_nvp (blocking_runtime_request_stop (request_timer_stop r)) = r_nvp r"
  "r_started_vps (blocking_runtime_request_stop (request_timer_stop r)) = r_started_vps r"
  "r_timer_started (blocking_runtime_request_stop (request_timer_stop r)) = r_timer_started r"
  "r_blocking_count (blocking_runtime_request_stop (request_timer_stop r)) = r_blocking_count r"
  "r_blocking_started (blocking_runtime_request_stop (request_timer_stop r)) = r_blocking_started r"
  "r_timer_stop (blocking_runtime_request_stop (request_timer_stop r))"
  "r_blocking_stop (blocking_runtime_request_stop (request_timer_stop r)) = (r_blocking_stop r \<or> r_blocking_count r \<noteq> 0)"
  by (auto simp: blocking_runtime_request_stop_def request_timer_stop_def started_threads_def)

lemma all_from_Suc:
  assumes "P (f n)"
  shows "(\<forall>i. Suc n \<le> i \<and> i < Suc n + k \<longrightarrow> P (f i)) \<longleftrightarrow> (\<forall>i. n \<le> i \<and> i < n + Suc k \<longrightarrow> P (f i))"
proof -
  have "n \<le> i \<and> i < n + Suc k \<longleftrightarrow> i = n \<or> Suc n \<le> i \<and> i < Suc n + k" for i by auto
  then show ?thesis using assms by (simp only:) auto
qed

text \<open>The loops start the threads in order up to the first that cannot be created.\<close>

lemma start_blocking_spec:
  assumes "r_blocking_count r = n + k" and "r_blocking_started r = n" and "r_alive r = started_threads r" and "r_state r = RT_RUNNING"
  shows "\<exists>m. n \<le> m \<and> m \<le> n + k \<and>
    start_blocking ok k r = (let r1 = r\<lparr>r_blocking_started := m, r_alive := started_threads (r\<lparr>r_blocking_started := m\<rparr>)\<rparr> in
       if m = n + k then r1 else creation_failed r1) \<and>
    (m = n + k \<longleftrightarrow> (\<forall>i. n \<le> i \<and> i < n + k \<longrightarrow> ok (Th_blocking i)))"
  using assms
proof (induction k arbitrary: r n)
  case 0
  then have "r = r\<lparr>r_blocking_started := n, r_alive := started_threads (r\<lparr>r_blocking_started := n\<rparr>)\<rparr>"
    by (intro runtime.equality) (simp_all add: started_threads_def)
  then show ?case by (intro exI[of _ n]) auto
next
  case (Suc k)
  show ?case
  proof (cases "ok (Th_blocking n)")
    case True
    define r' where "r' = r\<lparr>r_alive := insert (Th_blocking n) (r_alive r), r_blocking_started := r_blocking_started r + 1\<rparr>"
    have st: "r_alive r' = started_threads r'" using Suc.prems
      by (auto simp: r'_def started_threads_def atLeast0_lessThan_Suc)
    have "r_blocking_count r' = Suc n + k" "r_blocking_started r' = Suc n" "r_state r' = RT_RUNNING"
      using Suc.prems by (simp_all add: r'_def)
    from Suc.IH[OF this(1,2) st this(3)] obtain m where m: "Suc n \<le> m" "m \<le> Suc n + k"
      "start_blocking ok k r' = (let r1 = r'\<lparr>r_blocking_started := m, r_alive := started_threads (r'\<lparr>r_blocking_started := m\<rparr>)\<rparr> in
         if m = Suc n + k then r1 else creation_failed r1)"
      "m = Suc n + k \<longleftrightarrow> (\<forall>i. Suc n \<le> i \<and> i < Suc n + k \<longrightarrow> ok (Th_blocking i))" by blast
    have same: "r'\<lparr>r_blocking_started := m, r_alive := started_threads (r'\<lparr>r_blocking_started := m\<rparr>)\<rparr> =
      r\<lparr>r_blocking_started := m, r_alive := started_threads (r\<lparr>r_blocking_started := m\<rparr>)\<rparr>"
      by (simp add: r'_def started_threads_def)
    have all: "(\<forall>i. Suc n \<le> i \<and> i < Suc n + k \<longrightarrow> ok (Th_blocking i)) \<longleftrightarrow>
      (\<forall>i. n \<le> i \<and> i < n + Suc k \<longrightarrow> ok (Th_blocking i))"
      using True by (rule all_from_Suc)
    have "start_blocking ok (Suc k) r = start_blocking ok k r'"
      using True Suc.prems by (simp add: r'_def)
    then show ?thesis using m all unfolding same by (intro exI[of _ m]) simp
  next
    case False
    have "r = r\<lparr>r_blocking_started := n, r_alive := started_threads (r\<lparr>r_blocking_started := n\<rparr>)\<rparr>"
      using Suc.prems by (intro runtime.equality) (simp_all add: started_threads_def)
    moreover have "start_blocking ok (Suc k) r = creation_failed r" using False Suc.prems by simp
    moreover have "n \<le> n \<and> n < n + Suc k" by simp
    ultimately show ?thesis using False by (intro exI[of _ n]) (auto simp: Let_def)
  qed
qed

lemma start_vps_spec:
  assumes "r_nvp r = n + k" and "r_started_vps r = n" and "r_alive r = started_threads r" and "r_state r = RT_RUNNING"
  shows "\<exists>m. n \<le> m \<and> m \<le> n + k \<and>
    start_vps ok k r = (let r1 = r\<lparr>r_started_vps := m, r_alive := started_threads (r\<lparr>r_started_vps := m\<rparr>)\<rparr> in
       if m = n + k then (False, r1) else (True, creation_failed r1)) \<and>
    (m = n + k \<longleftrightarrow> (\<forall>i. n \<le> i \<and> i < n + k \<longrightarrow> ok (Th_vp i)))"
  using assms
proof (induction k arbitrary: r n)
  case 0
  then have "r = r\<lparr>r_started_vps := n, r_alive := started_threads (r\<lparr>r_started_vps := n\<rparr>)\<rparr>"
    by (intro runtime.equality) (simp_all add: started_threads_def)
  then show ?case by (intro exI[of _ n]) auto
next
  case (Suc k)
  show ?case
  proof (cases "ok (Th_vp n)")
    case True
    define r' where "r' = r\<lparr>r_alive := insert (Th_vp n) (r_alive r), r_started_vps := r_started_vps r + 1\<rparr>"
    have st: "r_alive r' = started_threads r'" using Suc.prems
      by (auto simp: r'_def started_threads_def atLeast0_lessThan_Suc)
    have "r_nvp r' = Suc n + k" "r_started_vps r' = Suc n" "r_state r' = RT_RUNNING"
      using Suc.prems by (simp_all add: r'_def)
    from Suc.IH[OF this(1,2) st this(3)] obtain m where m: "Suc n \<le> m" "m \<le> Suc n + k"
      "start_vps ok k r' = (let r1 = r'\<lparr>r_started_vps := m, r_alive := started_threads (r'\<lparr>r_started_vps := m\<rparr>)\<rparr> in
         if m = Suc n + k then (False, r1) else (True, creation_failed r1))"
      "m = Suc n + k \<longleftrightarrow> (\<forall>i. Suc n \<le> i \<and> i < Suc n + k \<longrightarrow> ok (Th_vp i))" by blast
    have same: "r'\<lparr>r_started_vps := m, r_alive := started_threads (r'\<lparr>r_started_vps := m\<rparr>)\<rparr> =
      r\<lparr>r_started_vps := m, r_alive := started_threads (r\<lparr>r_started_vps := m\<rparr>)\<rparr>"
      by (simp add: r'_def started_threads_def)
    have all: "(\<forall>i. Suc n \<le> i \<and> i < Suc n + k \<longrightarrow> ok (Th_vp i)) \<longleftrightarrow>
      (\<forall>i. n \<le> i \<and> i < n + Suc k \<longrightarrow> ok (Th_vp i))"
      using True by (rule all_from_Suc)
    have "start_vps ok (Suc k) r = start_vps ok k r'"
      using True Suc.prems by (simp add: r'_def)
    then show ?thesis using m all unfolding same by (intro exI[of _ m]) simp
  next
    case False
    have "r = r\<lparr>r_started_vps := n, r_alive := started_threads (r\<lparr>r_started_vps := n\<rparr>)\<rparr>"
      using Suc.prems by (intro runtime.equality) (simp_all add: started_threads_def)
    moreover have "start_vps ok (Suc k) r = (True, creation_failed r)" using False Suc.prems by simp
    moreover have "n \<le> n \<and> n < n + Suc k" by simp
    ultimately show ?thesis using False by (intro exI[of _ n]) (auto simp: Let_def)
  qed
qed

section \<open>Starting\<close>

text \<open>A runtime that has been created and not started: no thread, and the counters say so.\<close>

definition rt_created :: "runtime \<Rightarrow> bool" where
  "rt_created r \<longleftrightarrow> r_state r = RT_CREATED \<and> r_alive r = {} \<and> r_started_vps r = 0 \<and> r_blocking_started r = 0 \<and>
     \<not> r_timer_started r \<and> \<not> r_shutdown r \<and> \<not> r_stop_requested r \<and> r_fatal r = DLSM_OK"

text \<open>Every thread the runtime is configured with.\<close>

definition all_threads :: "runtime \<Rightarrow> rt_thread set" where
  "all_threads r = insert Th_timer (Th_vp ` {0..<r_nvp r} \<union> Th_blocking ` {0..<r_blocking_count r})"

lemma start_locked_created:
  assumes "rt_created r" and "\<not> (r_auto_stop r \<and> r_live r = 0)" and "ok Th_timer"
  obtains (all) "start_locked ok r = (Some DLSM_OK, r\<lparr>r_state := RT_RUNNING, r_timer_stop := False, r_timer_started := True,
      r_blocking_stop := False, r_blocking_started := r_blocking_count r, r_started_vps := r_nvp r, r_alive := all_threads r\<rparr>)"
      "\<And>th. th \<in> all_threads r \<Longrightarrow> ok th"
  | (failed) r' where "start_locked ok r = (None, r')" "r_alive r' = started_threads r'" "r_state r' = RT_STOPPING" "r_live r' = r_live r"
      "\<exists>th\<in>all_threads r. \<not> ok th"
proof -
  define r2 where "r2 = r\<lparr>r_state := RT_RUNNING, r_timer_stop := False, r_alive := insert Th_timer (r_alive r),
    r_timer_started := True, r_blocking_stop := False\<rparr>"
  have c: "r_state r = RT_CREATED" "r_alive r = {}" "r_started_vps r = 0" "r_blocking_started r = 0"
    using assms(1) by (simp_all add: rt_created_def)
  have "r_blocking_count r2 = 0 + r_blocking_count r2" "r_blocking_started r2 = 0" "r_alive r2 = started_threads r2" "r_state r2 = RT_RUNNING"
    using c by (simp_all add: r2_def started_threads_def)
  from start_blocking_spec[OF this, of ok, unfolded add_0] obtain m where m: "m \<le> r_blocking_count r2"
    "start_blocking ok (r_blocking_count r2) r2 =
      (let r1 = r2\<lparr>r_blocking_started := m, r_alive := started_threads (r2\<lparr>r_blocking_started := m\<rparr>)\<rparr> in
         if m = r_blocking_count r2 then r1 else creation_failed r1)"
    "m = r_blocking_count r2 \<longleftrightarrow> (\<forall>i. 0 \<le> i \<and> i < r_blocking_count r2 \<longrightarrow> ok (Th_blocking i))" by blast
  define r3 where "r3 = r2\<lparr>r_blocking_started := m, r_alive := started_threads (r2\<lparr>r_blocking_started := m\<rparr>)\<rparr>"
  have st3: "r_nvp r3 = 0 + r_nvp r3" "r_started_vps r3 = 0" "r_alive r3 = started_threads r3" "r_state r3 = RT_RUNNING"
    using c by (simp_all add: r3_def r2_def started_threads_def)
  have unf: "start_locked ok r =
     (let r3 = start_blocking ok (r_blocking_count r2) r2 in
        if r_state r3 = RT_STOPPING then (None, r3)
        else (case start_vps ok (r_nvp r3) r3 of (failed, r4) \<Rightarrow> if failed then (None, r4) else (Some DLSM_OK, r4)))"
    using assms(2,3) c(1) by (auto simp: start_locked_def Let_def r2_def)
  show thesis
  proof (cases "m = r_blocking_count r2")
    case False
    then have "start_locked ok r = (None, creation_failed r3)"
      unfolding unf m(2) by (simp add: Let_def r3_def creation_failed_def)
    moreover have "\<exists>th\<in>all_threads r. \<not> ok th" using False m(3) by (auto simp: all_threads_def r2_def)
    moreover have "r_alive (creation_failed r3) = started_threads (creation_failed r3)" "r_state (creation_failed r3) = RT_STOPPING"
      "r_live (creation_failed r3) = r_live r"
      using st3(3) by (simp_all add: creation_failed_def started_threads_def r3_def r2_def)
    ultimately show thesis using failed by blast
  next
    case True
    from start_vps_spec[OF st3, of ok, unfolded add_0] obtain n where n: "n \<le> r_nvp r3"
      "start_vps ok (r_nvp r3) r3 =
        (let r1 = r3\<lparr>r_started_vps := n, r_alive := started_threads (r3\<lparr>r_started_vps := n\<rparr>)\<rparr> in
           if n = r_nvp r3 then (False, r1) else (True, creation_failed r1))"
      "n = r_nvp r3 \<longleftrightarrow> (\<forall>i. 0 \<le> i \<and> i < r_nvp r3 \<longrightarrow> ok (Th_vp i))" by blast
    define r4 where "r4 = r3\<lparr>r_started_vps := n, r_alive := started_threads (r3\<lparr>r_started_vps := n\<rparr>)\<rparr>"
    have eq: "start_locked ok r = (if n = r_nvp r3 then (Some DLSM_OK, r4) else (None, creation_failed r4))"
    proof -
      have "start_blocking ok (r_blocking_count r2) r2 = r3" using True unfolding m(2) r3_def by simp
      moreover have "start_vps ok (r_nvp r3) r3 = (if n = r_nvp r3 then (False, r4) else (True, creation_failed r4))"
        using n(2) unfolding r4_def[symmetric] by (simp only: Let_def)
      ultimately show ?thesis unfolding unf Let_def using st3(4) by (simp only:) simp
    qed
    show thesis
    proof (cases "n = r_nvp r3")
      case all_vps: True
      have "r4 = r\<lparr>r_state := RT_RUNNING, r_timer_stop := False, r_timer_started := True,
        r_blocking_stop := False, r_blocking_started := r_blocking_count r, r_started_vps := r_nvp r, r_alive := all_threads r\<rparr>"
        using True all_vps by (intro runtime.equality) (auto simp: r4_def r3_def r2_def started_threads_def all_threads_def)
      moreover have "\<And>th. th \<in> all_threads r \<Longrightarrow> ok th"
        using True all_vps m(3) n(3) assms(3) by (auto simp: all_threads_def r2_def r3_def)
      ultimately show thesis using eq all_vps by (intro all) simp_all
    next
      case some: False
      have "\<exists>th\<in>all_threads r. \<not> ok th" using some n(3) by (auto simp: all_threads_def r2_def r3_def)
      moreover have "r_alive (creation_failed r4) = started_threads (creation_failed r4)" "r_state (creation_failed r4) = RT_STOPPING"
        "r_live (creation_failed r4) = r_live r"
        by (simp_all add: r4_def creation_failed_def started_threads_def r3_def r2_def)
      moreover have "start_locked ok r = (None, creation_failed r4)" using eq some by simp
      ultimately show thesis using failed by blast
    qed
  qed
qed

lemma start_cleanup_eq:
  "start_cleanup jok r = (DLSM_GT_E_THREAD,
     (blocking_runtime_request_stop (request_timer_stop r))\<lparr>r_alive := r_alive r - started_threads r, r_blocking_started := 0,
       r_timer_started := False, r_state := RT_STOPPED, r_fatal := DLSM_GT_E_THREAD\<rparr>)"
  by (simp add: start_cleanup_def join_all_eq)

text \<open>
  \<open>dlsm_gt_start\<close> on a created runtime, whatever threads can be created: it runs with every thread
  alive when all can be created, and otherwise is stopped with none alive, the status saying which;
  a runtime without tasks that stops by itself is left without threads for \<open>dlsm_gt_wait\<close>.
\<close>

theorem runtime_start_exact:
  assumes "rt_created r"
  shows "case dlsm_gt_start ok jok (Some r) of (st, ro) \<Rightarrow> \<exists>r'. ro = Some r' \<and>
    (if r_auto_stop r \<and> r_live r = 0 then st = DLSM_OK \<and> r_state r' = RT_STOPPING \<and> r_shutdown r' \<and> r_alive r' = {}
     else if (\<forall>th\<in>all_threads r. ok th) then st = DLSM_OK \<and> r_state r' = RT_RUNNING \<and> \<not> r_shutdown r' \<and> r_alive r' = all_threads r'
     else st = DLSM_GT_E_THREAD \<and> r_fatal r' = DLSM_GT_E_THREAD \<and> r_state r' = RT_STOPPED \<and> r_alive r' = {}) \<and>
    r_live r' = r_live r"
proof (cases "r_auto_stop r \<and> r_live r = 0")
  case True
  then show ?thesis using assms by (simp add: dlsm_gt_start_def start_locked_def rt_created_def)
next
  case auto: False
  show ?thesis
  proof (cases "ok Th_timer")
    case False
    then have "\<not> (\<forall>th\<in>all_threads r. ok th)" by (auto simp: all_threads_def)
    with False auto show ?thesis using assms by (simp add: dlsm_gt_start_def start_locked_def rt_created_def Let_def)
  next
    case True
    from assms auto True show ?thesis
    proof (cases rule: start_locked_created)
      case all
      then show ?thesis using assms auto by (simp add: dlsm_gt_start_def rt_created_def all_threads_def)
    next
      case (failed r')
      then show ?thesis using failed auto by (auto simp: dlsm_gt_start_def start_cleanup_eq)
    qed
  qed
qed


text \<open>A runtime with two processors, a pool of one thread and three tasks.\<close>

definition example_runtime :: runtime where
  "example_runtime = \<lparr>r_live = 3, r_shutdown = False, r_stop_requested = False, r_auto_stop = True, r_state = RT_CREATED,
     r_fatal = DLSM_OK, r_nvp = 2, r_started_vps = 0, r_group_nvp = (\<lambda>g. if g = 0 then 2 else 0), r_ngroups = 1,
     r_timer_started = False, r_timer_stop = False, r_blocking_count = 1, r_blocking_started = 0, r_blocking_stop = False,
     r_alive = {}\<rparr>"

theorem runtime_start_exact_witness:
  "fst (dlsm_gt_start (\<lambda>th. th \<noteq> Th_vp 1) (\<lambda>_. True) (Some example_runtime)) = DLSM_GT_E_THREAD \<and>
   r_alive (the (snd (dlsm_gt_start (\<lambda>th. th \<noteq> Th_vp 1) (\<lambda>_. True) (Some example_runtime)))) = {}"
proof -
  have c: "rt_created example_runtime" by (simp add: rt_created_def example_runtime_def)
  have "Th_vp 1 \<in> all_threads example_runtime" by (simp add: all_threads_def example_runtime_def)
  then have f: "\<not> (\<forall>th\<in>all_threads example_runtime. th \<noteq> Th_vp 1)" by blast
  have "r_live example_runtime \<noteq> 0" by (simp add: example_runtime_def)
  with runtime_start_exact[OF c, of "\<lambda>th. th \<noteq> Th_vp 1" "\<lambda>_. True"] f show ?thesis
    by (auto split: prod.splits)
qed

section \<open>The life cycle\<close>

text \<open>
  A state is the runtime with the number of calls of \<open>dlsm_gt_wait\<close> that are joining threads and the number of calls of \<open>dlsm_gt_start\<close> that
  are joining threads because a thread could not be created. Every operation may be called at any time; a call that is refused changes nothing. A thread of a
  processor returns only when it finds \<open>shutdown\<close> set, the others when their own stop flag is set, so
  the joins return only then. A failed start is one step with its clean-up; with \<open>split\<close> other calls may also come
  between the two, and with \<open>faulty\<close> the wait of an idle processor may fail. The source excludes neither; what they break is shown below.
\<close>

definition joins_return :: "runtime \<Rightarrow> bool" where
  "joins_return r \<longleftrightarrow> (r_started_vps r = 0 \<or> r_shutdown r) \<and> (r_timer_started r \<longrightarrow> r_timer_stop r) \<and>
     (r_blocking_started r = 0 \<or> r_blocking_stop r)"

inductive lstep :: "bool \<Rightarrow> bool \<Rightarrow> runtime \<times> nat \<times> nat \<Rightarrow> runtime \<times> nat \<times> nat \<Rightarrow> bool" for split faulty where
  spawn: "spawn_admit r = (b, r') \<Longrightarrow> lstep split faulty (r, j, k) (r', j, k)"
| task_done: "Th_vp i \<in> r_alive r \<Longrightarrow> r_live r > 0 \<Longrightarrow> lstep split faulty (r, j, k) (task_done_live r, j, k)"
| start: "dlsm_gt_start ok jok (Some r) = (st, Some r') \<Longrightarrow> lstep split faulty (r, j, k) (r', j, k)"
| start_fails: "split \<Longrightarrow> start_locked ok r = (None, r') \<Longrightarrow> lstep split faulty (r, j, k) (r', j, Suc k)"
| start_ends: "split \<Longrightarrow> start_cleanup jok r = (st, r') \<Longrightarrow> lstep split faulty (r, j, Suc k) (r', j, k)"
| stop: "dlsm_gt_stop (Some r) = (st, Some r') \<Longrightarrow> lstep split faulty (r, j, k) (r', j, k)"
| wait_enter: "wait_begin r = (None, r') \<Longrightarrow> lstep split faulty (r, j, k) (r', Suc j, k)"
| wait_leave: "joins_return r \<Longrightarrow> wait_end jok fatal r = (st, r') \<Longrightarrow> lstep split faulty (r, Suc j, k) (r', j, k)"
| run: "run_begin r = (st, r') \<Longrightarrow> lstep split faulty (r, j, k) (r', j, k)"
| add_vp: "dlsm_gt_runtime_add_vp ok slot out g (Some r) = (res, Some r') \<Longrightarrow> lstep split faulty (r, j, k) (r', j, k)"
| idle_fails: "faulty \<Longrightarrow> Th_vp i \<in> r_alive r \<Longrightarrow> lstep split faulty (r, j, k) (sched_fatal r, j, k)"


definition life_reachable :: "bool \<Rightarrow> bool \<Rightarrow> runtime \<times> nat \<times> nat \<Rightarrow> bool" where
  "life_reachable split faulty s \<longleftrightarrow> (\<exists>r. rt_created r \<and> (lstep split faulty)\<^sup>*\<^sup>* (r, 0, 0) s)"










lemma joins_return_requested [simp]:
  "joins_return (blocking_runtime_request_stop (request_timer_stop r)) \<longleftrightarrow>
     (r_started_vps r = 0 \<or> r_shutdown r) \<and> (r_blocking_started r = 0 \<or> r_blocking_stop r \<or> r_blocking_count r \<noteq> 0)"
  by (auto simp: joins_return_def)

lemma started_threads_frame [simp]:
  "started_threads (r\<lparr>r_live := n\<rparr>) = started_threads r"
  "started_threads (r\<lparr>r_state := s\<rparr>) = started_threads r"
  "started_threads (r\<lparr>r_shutdown := b\<rparr>) = started_threads r"
  "started_threads (r\<lparr>r_alive := A\<rparr>) = started_threads r"
  "joins_return (r\<lparr>r_live := n\<rparr>) = joins_return r"
  "joins_return (r\<lparr>r_state := s\<rparr>) = joins_return r"
  by (simp_all add: started_threads_def joins_return_def)











text \<open>The example runtime, started, and with a caller of \<open>dlsm_gt_wait\<close>.\<close>

lemma example_started:
  defines "r \<equiv> snd (start_locked (\<lambda>_. True) example_runtime)"
  shows "lstep split faulty (example_runtime, 0, 0) (r, 0, 0)" and "wait_begin r = (None, r\<lparr>r_state := RT_JOINING\<rparr>)" and "Th_vp 0 \<in> r_alive r"
proof -
  have c: "rt_created example_runtime" by (simp add: rt_created_def example_runtime_def)
  have l: "\<not> (r_auto_stop example_runtime \<and> r_live example_runtime = 0)" by (simp add: example_runtime_def)
  have st: "start_locked (\<lambda>_. True) example_runtime = (Some DLSM_OK, r)" and run: "r_state r = RT_RUNNING \<and> r_auto_stop r"
    and alive: "r_alive r = all_threads example_runtime"
    using c l by (rule start_locked_created[where ok = "\<lambda>_. True"]; auto simp: r_def example_runtime_def)+
  show "lstep split faulty (example_runtime, 0, 0) (r, 0, 0)"
    by (rule lstep.start [where ok = "\<lambda>_. True" and jok = "\<lambda>_. True" and st = DLSM_OK]) (simp add: dlsm_gt_start_def st)
  show "wait_begin r = (None, r\<lparr>r_state := RT_JOINING\<rparr>)" using run by (simp add: wait_begin_def)
  show "Th_vp 0 \<in> r_alive r" using alive by (simp add: all_threads_def example_runtime_def)
qed


section \<open>Where the life cycle breaks\<close>

text \<open>
  Two callers join the same threads, which is undefined for \<open>pthread_join\<close>. When a thread cannot be created, \<open>dlsm_gt_start\<close> releases the lock in the
  state \<open>RT_STOPPING\<close> before it joins the threads it has created, and a \<open>dlsm_gt_wait\<close> in between is admitted. When the wait of an idle processor fails,
  \<open>sched_next\<close> stores \<open>RT_STOPPING\<close> whatever the state was, so that a second \<open>dlsm_gt_wait\<close> is admitted while the first joins.
\<close>

theorem runtime_joined_twice:
  "(\<exists>r. life_reachable True False (r, 1, 1) \<and> Th_timer \<in> r_alive r) \<and> (\<exists>r. life_reachable False True (r, 2, 0) \<and> Th_vp 0 \<in> r_alive r)"
proof
  have c: "rt_created example_runtime" by (simp add: rt_created_def example_runtime_def)
  let ?bad = "\<lambda>th. th \<noteq> Th_vp 1"
  obtain r1 where r1: "start_locked ?bad example_runtime = (None, r1)" "r_state r1 = RT_STOPPING" "Th_timer \<in> r_alive r1"
    by (simp add: start_locked_def example_runtime_def Let_def creation_failed_def numeral_2_eq_2)
  have "wait_begin r1 = (None, r1\<lparr>r_state := RT_JOINING\<rparr>)" using r1(2) by (simp add: wait_begin_def)
  from lstep.start_fails [OF TrueI r1(1), of False 0 0] lstep.wait_enter [OF this, of True False 0 1]
  have "(lstep True False)\<^sup>*\<^sup>* (example_runtime, 0, 0) (r1\<lparr>r_state := RT_JOINING\<rparr>, 1, 1)"
    by (simp add: converse_rtranclp_into_rtranclp)
  then show "\<exists>r. life_reachable True False (r, 1, 1) \<and> Th_timer \<in> r_alive r"
    using c r1(3) unfolding life_reachable_def by (intro exI [of _ "r1\<lparr>r_state := RT_JOINING\<rparr>"]) auto
  define r where "r = snd (start_locked (\<lambda>_. True) example_runtime)"
  note ex = example_started [folded r_def]
  let ?f = "sched_fatal (r\<lparr>r_state := RT_JOINING\<rparr>)"
  have alive: "Th_vp 0 \<in> r_alive (r\<lparr>r_state := RT_JOINING\<rparr>)" using ex(3) by simp
  have w: "wait_begin ?f = (None, ?f\<lparr>r_state := RT_JOINING\<rparr>)" by (simp add: wait_begin_def sched_fatal_def)
  have "(lstep False True)\<^sup>*\<^sup>* (example_runtime, 0, 0) (?f\<lparr>r_state := RT_JOINING\<rparr>, Suc (Suc 0), 0)"
    using ex(1) lstep.wait_enter [OF ex(2), of False True 0 0] lstep.idle_fails [OF TrueI alive, of False "Suc 0" 0]
      lstep.wait_enter [OF w, of False True "Suc 0" 0]
    by (meson converse_rtranclp_into_rtranclp rtranclp.rtrancl_refl)
  moreover have "Th_vp 0 \<in> r_alive (?f\<lparr>r_state := RT_JOINING\<rparr>)" using alive by (simp add: sched_fatal_def)
  ultimately show "\<exists>r. life_reachable False True (r, 2, 0) \<and> Th_vp 0 \<in> r_alive r"
    using c unfolding life_reachable_def numeral_2_eq_2 by blast
qed

text \<open>
  \<open>dlsm_gt_run\<close> waits as soon as the threads are started, which leaves the state \<open>RT_RUNNING\<close>; from
  then on a task of the runtime cannot spawn another.
\<close>

theorem run_refuses_nested_spawn:
  assumes "wait_begin r = (None, r')"
  shows "spawn_admit r' = (False, r')"
  using assms by (auto simp: wait_begin_def spawn_admit_def split: if_splits)

end
