(* ===== verification/Gt_Local.thy ===== *)
theory Gt_Local
  imports Gt_Timer
begin

unbundle bit_operations_syntax

text \<open>
  Task-local storage (\<^verbatim>\<open>libs/greenthread/src/greenthread.c\<close>): the table of keys with their
  generations, \<open>dlsm_gt_key_create\<close>, \<open>dlsm_gt_key_delete\<close>, \<open>dlsm_gt_setspecific\<close>,
  \<open>dlsm_gt_getspecific\<close>, and \<open>task_run_local_destructors\<close>. The sections under \<open>gt_key_mutex\<close> are atomic.
  The storage refines a specification in which keys are never issued twice and a value belongs to a
  task and a key.
\<close>

section \<open>Data\<close>

type_synonym dlsm_gt_key = u64

text \<open>A value and a destructor are addresses; the value \<open>NULL\<close> is \<open>None\<close>.\<close>

record gt_key_slot =
  ks_generation :: u32
  ks_active :: bool
  ks_destructor :: "addr option"

record gt_local_value =
  lv_generation :: u32
  lv_value :: "addr option"

abbreviation DLSM_GT_LOCAL_KEYS_MAX :: nat where "DLSM_GT_LOCAL_KEYS_MAX \<equiv> 64"

text \<open>The key table of the process, and the field \<open>local_values\<close> of every task.\<close>

record local_state =
  gt_keys :: "nat \<Rightarrow> gt_key_slot"
  local_values :: "addr \<Rightarrow> (nat \<Rightarrow> gt_local_value) option"

section \<open>Operations\<close>

definition gt_key_decode :: "dlsm_gt_key \<Rightarrow> (nat \<times> u32) option" where
  "gt_key_decode key =
     (let encoded_index = (ucast key :: u32); encoded_generation = (ucast (drop_bit 32 key) :: u32) in
      if encoded_index = 0 \<or> encoded_index > of_nat DLSM_GT_LOCAL_KEYS_MAX \<or> encoded_generation = 0 then None
      else Some (unat (encoded_index - 1), encoded_generation))"

definition gt_key_encode :: "nat \<Rightarrow> u32 \<Rightarrow> dlsm_gt_key" where
  "gt_key_encode index generation = push_bit 32 (ucast generation) OR of_nat (index + 1)"

text \<open>The generation a slot gets when a key is created in it.\<close>

definition next_generation :: "u32 \<Rightarrow> u32" where
  "next_generation g = (let g1 = g + 1 in if g1 = 0 then 1 else g1)"

text \<open>The loop over the table; \<open>key\<close> says whether the caller gave a place for the key.\<close>

fun create_loop :: "addr option \<Rightarrow> nat list \<Rightarrow> local_state \<Rightarrow> dlsm_status \<times> dlsm_gt_key option \<times> local_state" where
  "create_loop d [] s = (DLSM_GT_E_NOMEM, None, s)"
| "create_loop d (index # rest) s =
     (let slot = gt_keys s index in
      if ks_active slot then create_loop d rest s
      else
        (let g = next_generation (ks_generation slot) in
         (DLSM_OK, Some (gt_key_encode index g),
          s\<lparr>gt_keys := (gt_keys s)(index := \<lparr>ks_generation = g, ks_active = True, ks_destructor = d\<rparr>)\<rparr>)))"

definition dlsm_gt_key_create :: "bool \<Rightarrow> addr option \<Rightarrow> local_state \<Rightarrow> dlsm_status \<times> dlsm_gt_key option \<times> local_state" where
  "dlsm_gt_key_create key destructor s =
     (if \<not> key then (DLSM_GT_E_INVAL, None, s) else create_loop destructor [0..<DLSM_GT_LOCAL_KEYS_MAX] s)"

definition key_valid :: "local_state \<Rightarrow> nat \<Rightarrow> u32 \<Rightarrow> bool" where
  "key_valid s index generation \<longleftrightarrow> ks_active (gt_keys s index) \<and> ks_generation (gt_keys s index) = generation"

definition dlsm_gt_key_delete :: "dlsm_gt_key \<Rightarrow> local_state \<Rightarrow> dlsm_status \<times> local_state" where
  "dlsm_gt_key_delete key s = (case gt_key_decode key of
     None \<Rightarrow> (DLSM_GT_E_INVAL, s)
   | Some (index, generation) \<Rightarrow>
       if \<not> key_valid s index generation then (DLSM_GT_E_STATE, s)
       else (DLSM_OK, s\<lparr>gt_keys := (gt_keys s)(index := (gt_keys s index)\<lparr>ks_active := False, ks_destructor := None\<rparr>)\<rparr>))"

text \<open>\<open>task\<close> is the running task, if there is one; \<open>mem\<close> says whether \<open>calloc\<close> succeeds.\<close>

definition dlsm_gt_setspecific :: "bool \<Rightarrow> addr option \<Rightarrow> dlsm_gt_key \<Rightarrow> addr option \<Rightarrow> local_state \<Rightarrow> dlsm_status \<times> local_state" where
  "dlsm_gt_setspecific mem task key value s = (case task of
     None \<Rightarrow> (DLSM_GT_E_STATE, s)
   | Some t \<Rightarrow> (case gt_key_decode key of
       None \<Rightarrow> (DLSM_GT_E_INVAL, s)
     | Some (index, generation) \<Rightarrow>
         if \<not> key_valid s index generation then (DLSM_GT_E_STATE, s)
         else (case (case local_values s t of
                  Some vals \<Rightarrow> Some vals
                | None \<Rightarrow> if mem then Some (\<lambda>_. \<lparr>lv_generation = 0, lv_value = None\<rparr>) else None) of
             None \<Rightarrow> (DLSM_GT_E_NOMEM, s)
           | Some vals \<Rightarrow>
               (DLSM_OK, s\<lparr>local_values := (local_values s)
                  (t \<mapsto> vals(index := \<lparr>lv_generation = generation, lv_value = value\<rparr>))\<rparr>))))"

definition dlsm_gt_getspecific :: "addr option \<Rightarrow> dlsm_gt_key \<Rightarrow> local_state \<Rightarrow> addr option" where
  "dlsm_gt_getspecific task key s = (case task of
     None \<Rightarrow> None
   | Some t \<Rightarrow> (case local_values s t of
       None \<Rightarrow> None
     | Some vals \<Rightarrow> (case gt_key_decode key of
         None \<Rightarrow> None
       | Some (index, generation) \<Rightarrow>
           if \<not> key_valid s index generation \<or> lv_generation (vals index) \<noteq> generation then None
           else lv_value (vals index))))"

text \<open>
  One slot of a pass over a finishing task's values; \<open>call d v\<close> is what the destructor \<open>d\<close> does to the
  storage when it is called with \<open>v\<close>. The calls are recorded.
\<close>

definition destroy_slot ::
  "(addr \<Rightarrow> addr \<Rightarrow> local_state \<Rightarrow> local_state) \<Rightarrow> addr \<Rightarrow> nat \<Rightarrow> (addr \<times> addr) list \<times> local_state \<Rightarrow> (addr \<times> addr) list \<times> local_state" where
  "destroy_slot call t index cs = (case cs of (calls, s) \<Rightarrow>
     (case local_values s t of
        None \<Rightarrow> (calls, s)
      | Some vals \<Rightarrow> (case lv_value (vals index) of
          None \<Rightarrow> (calls, s)
        | Some v \<Rightarrow>
            if lv_generation (vals index) = 0 then (calls, s)
            else
              (let destructor = (if key_valid s index (lv_generation (vals index)) then ks_destructor (gt_keys s index) else None);
                   s1 = s\<lparr>local_values := (local_values s)(t \<mapsto> vals(index := (vals index)\<lparr>lv_value := None\<rparr>))\<rparr> in
               case destructor of None \<Rightarrow> (calls, s1) | Some d \<Rightarrow> (calls @ [(d, v)], call d v s1)))))"

definition destroy_pass ::
  "(addr \<Rightarrow> addr \<Rightarrow> local_state \<Rightarrow> local_state) \<Rightarrow> addr \<Rightarrow> local_state \<Rightarrow> (addr \<times> addr) list \<times> local_state" where
  "destroy_pass call t s = fold (destroy_slot call t) [0..<DLSM_GT_LOCAL_KEYS_MAX] ([], s)"

text \<open>At most \<open>passes\<close> passes, until one calls nothing.\<close>

fun destroy_passes ::
  "(addr \<Rightarrow> addr \<Rightarrow> local_state \<Rightarrow> local_state) \<Rightarrow> addr \<Rightarrow> nat \<Rightarrow> local_state \<Rightarrow> (addr \<times> addr) list \<times> local_state" where
  "destroy_passes call t 0 s = ([], s)"
| "destroy_passes call t (Suc passes) s =
     (case destroy_pass call t s of (calls, s1) \<Rightarrow>
        if calls = [] then ([], s1)
        else (case destroy_passes call t passes s1 of (later, s2) \<Rightarrow> (calls @ later, s2)))"

definition task_run_local_destructors ::
  "(addr \<Rightarrow> addr \<Rightarrow> local_state \<Rightarrow> local_state) \<Rightarrow> addr \<Rightarrow> local_state \<Rightarrow> (addr \<times> addr) list \<times> local_state" where
  "task_run_local_destructors call t s = (if local_values s t = None then ([], s) else destroy_passes call t 4 s)"

section \<open>Keys\<close>

lemma small_bits: "m \<le> 64 \<Longrightarrow> \<not> bit m (32 + n)" for m n :: nat
proof -
  assume "m \<le> 64"
  also have "(64 :: nat) < 2 ^ 32" by simp
  also have "(2 :: nat) ^ 32 \<le> 2 ^ (32 + n)" by (rule power_increasing) simp_all
  finally show ?thesis by (simp add: bit_iff_odd)
qed

lemma low_half: "(ucast (push_bit 32 (ucast g) OR of_nat m :: u64) :: u32) = of_nat m" for g :: u32
  by (rule bit_word_eqI) (auto simp: bit_simps)

lemma high_half:
  assumes "m \<le> 64"
  shows "(ucast (drop_bit 32 (push_bit 32 (ucast g) OR of_nat m :: u64)) :: u32) = g"
  by (rule bit_word_eqI) (use small_bits[OF assms] in \<open>auto simp: bit_simps\<close>)

lemma gt_key_encode_index: "(ucast (gt_key_encode index g) :: u32) = of_nat (index + 1)"
  unfolding gt_key_encode_def by (rule low_half)

lemma gt_key_encode_generation: "index < 64 \<Longrightarrow> (ucast (drop_bit 32 (gt_key_encode index g)) :: u32) = g"
  unfolding gt_key_encode_def by (rule high_half) simp

lemma u32_of_nat_small: "n \<le> 64 \<Longrightarrow> unat (of_nat n :: u32) = n"
  by (simp add: unat_of_nat)

text \<open>Round trip of the encoding.\<close>

lemma gt_key_decode_encode:
  assumes "index < 64" and "g \<noteq> 0"
  shows "gt_key_decode (gt_key_encode index g) = Some (index, g)"
proof -
  have "unat (of_nat (index + 1) :: u32) = index + 1" using assms(1) by (intro u32_of_nat_small) simp
  moreover from this have "of_nat (index + 1) \<noteq> (0 :: u32)" by (metis add_is_0 one_neq_zero unat_0)
  moreover have "unat (of_nat (index + 1) - 1 :: u32) = index" using u32_of_nat_small[of index] assms(1) by simp
  moreover have "\<not> (of_nat 64 :: u32) < of_nat (index + 1)"
    using calculation(1) assms(1) by (simp add: word_less_nat_alt del: of_nat_Suc of_nat_add)
  ultimately show ?thesis
    using assms(2) unfolding gt_key_decode_def gt_key_encode_index gt_key_encode_generation[OF assms(1)] Let_def by simp
qed

lemma gt_key_encode_inj:
  assumes "gt_key_encode i g = gt_key_encode i' g'" and "i < 64" "i' < 64" "g \<noteq> 0" "g' \<noteq> 0"
  shows "i = i'" "g = g'"
proof -
  have "Some (i, g) = Some (i', g')"
    using arg_cong[OF assms(1), of gt_key_decode]
    unfolding gt_key_decode_encode[OF assms(2,4)] gt_key_decode_encode[OF assms(3,5)] .
  then show "i = i'" "g = g'" by simp_all
qed

lemma gt_key_decode_bounds:
  assumes "gt_key_decode k = Some (index, g)"
  shows "index < 64" "g \<noteq> 0" 
proof -
  let ?e = "ucast k :: u32"
  have e: "?e \<noteq> 0" "\<not> of_nat 64 < ?e" "g \<noteq> 0" "index = unat (?e - 1)"
    using assms by (auto simp: gt_key_decode_def Let_def split: if_splits)
  then show "g \<noteq> 0" by blast
  from e(2) have "unat ?e \<le> 64" by (simp add: word_less_nat_alt not_less)
  with e(1,4) show "index < 64" by (simp add: unat_minus_one unat_gt_0 less_le_trans[of "unat ?e - 1" "unat ?e"])
qed

text \<open>Only the encoding of a slot and a generation is decoded to them.\<close>

lemma gt_key_encode_decode:
  assumes "gt_key_decode k = Some (index, g)"
  shows "gt_key_encode index g = k"
proof -
  let ?e = "ucast k :: u32"
  have e: "?e \<noteq> 0" "index = unat (?e - 1)" "g = ucast (drop_bit 32 k)"
    using assms by (auto simp: gt_key_decode_def Let_def split: if_splits)
  then have "Suc index = unat ?e" by (simp add: unat_minus_one unat_gt_0)
  then have i: "(of_nat (index + 1) :: u64) = ucast ?e" by (metis Suc_eq_plus1 of_nat_unat)
  show ?thesis unfolding gt_key_encode_def i
    by (rule bit_word_eqI) (auto simp: e(3) bit_simps)
qed

section \<open>The specification\<close>

text \<open>Keys that were ever issued, the keys that exist with their destructors, and a value for each task and key.\<close>

record local_spec =
  sp_issued :: "dlsm_gt_key set"
  sp_live :: "dlsm_gt_key \<Rightarrow> addr option option"
  sp_value :: "addr \<Rightarrow> dlsm_gt_key \<Rightarrow> addr option"

definition spec_create :: "dlsm_gt_key option \<Rightarrow> addr option \<Rightarrow> local_spec \<Rightarrow> local_spec" where
  "spec_create ko d a = (case ko of None \<Rightarrow> a | Some k \<Rightarrow> a\<lparr>sp_issued := insert k (sp_issued a), sp_live := (sp_live a)(k \<mapsto> d)\<rparr>)"

definition spec_delete :: "dlsm_gt_key \<Rightarrow> local_spec \<Rightarrow> local_spec" where
  "spec_delete k a = a\<lparr>sp_live := (sp_live a)(k := None)\<rparr>"

definition spec_set :: "addr \<Rightarrow> dlsm_gt_key \<Rightarrow> addr option \<Rightarrow> local_spec \<Rightarrow> local_spec" where
  "spec_set t k v a = a\<lparr>sp_value := (sp_value a)(t := (sp_value a t)(k := v))\<rparr>"

definition local_init :: local_state where
  "local_init = \<lparr>gt_keys = \<lambda>_. \<lparr>ks_generation = 0, ks_active = False, ks_destructor = None\<rparr>, local_values = \<lambda>_. None\<rparr>"

definition spec_init :: local_spec where
  "spec_init = \<lparr>sp_issued = {}, sp_live = \<lambda>_. None, sp_value = \<lambda>_ _. None\<rparr>"

text \<open>The storage after \<open>n\<close> calls, with what the specification says of them.\<close>

inductive ltrace :: "nat \<Rightarrow> local_state \<Rightarrow> local_spec \<Rightarrow> bool" where
  init: "ltrace 0 local_init spec_init"
| create: "ltrace n s a \<Longrightarrow> dlsm_gt_key_create key d s = (st, ko, s') \<Longrightarrow> ltrace (Suc n) s' (spec_create ko d a)"
| delete: "ltrace n s a \<Longrightarrow> dlsm_gt_key_delete k s = (st, s') \<Longrightarrow>
    ltrace (Suc n) s' (if st = DLSM_OK then spec_delete k a else a)"
| set: "ltrace n s a \<Longrightarrow> dlsm_gt_setspecific mem (Some t) k v s = (st, s') \<Longrightarrow>
    ltrace (Suc n) s' (if st = DLSM_OK then spec_set t k v a else a)"

definition generation_of :: "local_state \<Rightarrow> nat \<Rightarrow> u32" where
  "generation_of s i = ks_generation (gt_keys s i)"

definition stored :: "local_state \<Rightarrow> addr \<Rightarrow> nat \<Rightarrow> u32 \<Rightarrow> addr option" where
  "stored s t i g = (case local_values s t of None \<Rightarrow> None
     | Some vals \<Rightarrow> if lv_generation (vals i) = g then lv_value (vals i) else None)"

definition live_of :: "local_state \<Rightarrow> dlsm_gt_key \<Rightarrow> addr option option" where
  "live_of s k = (case gt_key_decode k of None \<Rightarrow> None
     | Some (i, g) \<Rightarrow> if key_valid s i g then Some (ks_destructor (gt_keys s i)) else None)"

lemma live_of_cases:
  "gt_key_decode k = None \<Longrightarrow> live_of s k = None"
  "gt_key_decode k = Some (i, g) \<Longrightarrow> live_of s k = (if key_valid s i g then Some (ks_destructor (gt_keys s i)) else None)"
  by (simp_all add: live_of_def)

definition local_inv :: "nat \<Rightarrow> local_state \<Rightarrow> local_spec \<Rightarrow> bool" where
  "local_inv n s a \<longleftrightarrow>
     (\<forall>i. unat (generation_of s i) \<le> n \<and> (ks_active (gt_keys s i) \<longrightarrow> generation_of s i \<noteq> 0)) \<and>
     (\<forall>k. k \<in> sp_issued a \<longrightarrow> (\<exists>i g. gt_key_decode k = Some (i, g) \<and> g \<le> generation_of s i)) \<and>
     (\<forall>k. sp_live a k = live_of s k) \<and>
     (\<forall>t vals i. local_values s t = Some vals \<longrightarrow> lv_generation (vals i) \<le> generation_of s i) \<and>
     (\<forall>t k i g. gt_key_decode k = Some (i, g) \<longrightarrow>
        (key_valid s i g \<longrightarrow> sp_value a t k = stored s t i g) \<and> (generation_of s i < g \<longrightarrow> sp_value a t k = None))"

lemma local_invI:
  assumes "\<And>i. unat (generation_of s i) \<le> n" and "\<And>i. ks_active (gt_keys s i) \<Longrightarrow> generation_of s i \<noteq> 0"
    and "\<And>k. k \<in> sp_issued a \<Longrightarrow> \<exists>i g. gt_key_decode k = Some (i, g) \<and> g \<le> generation_of s i"
    and "\<And>k. sp_live a k = live_of s k"
    and "\<And>t vals i. local_values s t = Some vals \<Longrightarrow> lv_generation (vals i) \<le> generation_of s i"
    and "\<And>t k i g. gt_key_decode k = Some (i, g) \<Longrightarrow> key_valid s i g \<Longrightarrow> sp_value a t k = stored s t i g"
    and "\<And>t k i g. gt_key_decode k = Some (i, g) \<Longrightarrow> generation_of s i < g \<Longrightarrow> sp_value a t k = None"
  shows "local_inv n s a"
  using assms unfolding local_inv_def by blast

lemma local_invD:
  assumes "local_inv n s a"
  shows "unat (generation_of s i) \<le> n" and "ks_active (gt_keys s i) \<Longrightarrow> generation_of s i \<noteq> 0"
    and "k \<in> sp_issued a \<Longrightarrow> \<exists>i g. gt_key_decode k = Some (i, g) \<and> g \<le> generation_of s i"
    and "sp_live a k = live_of s k"
    and "local_values s t = Some vals \<Longrightarrow> lv_generation (vals i) \<le> generation_of s i"
    and "gt_key_decode k = Some (i, g) \<Longrightarrow> key_valid s i g \<Longrightarrow> sp_value a t k = stored s t i g"
    and "gt_key_decode k = Some (i, g) \<Longrightarrow> generation_of s i < g \<Longrightarrow> sp_value a t k = None"
  using assms unfolding local_inv_def by blast+

section \<open>The operations keep the invariant\<close>

lemma next_generation_less:
  assumes "unat g < 2 ^ 32 - 1"
  shows "g < next_generation g" and "unat (next_generation g) = Suc (unat g)" and "next_generation g \<noteq> 0"
proof -
  have "unat (g + 1) = Suc (unat g)" using assms by (simp add: unat_word_ariths)
  moreover from this have "g + 1 \<noteq> 0" by (metis nat.distinct(1) unat_0)
  ultimately show "g < next_generation g" "unat (next_generation g) = Suc (unat g)" "next_generation g \<noteq> 0"
    by (simp_all add: next_generation_def word_less_nat_alt)
qed

lemma create_loop_cases:
  obtains (full) "create_loop d is s = (DLSM_GT_E_NOMEM, None, s)" "\<forall>i\<in>set is. ks_active (gt_keys s i)"
  | (free) i g where "i \<in> set is" "\<not> ks_active (gt_keys s i)" "g = next_generation (generation_of s i)"
      "create_loop d is s = (DLSM_OK, Some (gt_key_encode i g),
         s\<lparr>gt_keys := (gt_keys s)(i := \<lparr>ks_generation = g, ks_active = True, ks_destructor = d\<rparr>)\<rparr>)"
proof (induction "is" arbitrary: thesis)
  case Nil
  then show ?case by simp
next
  case (Cons i "is")
  show ?case
  proof (cases "ks_active (gt_keys s i)")
    case True
    then have eq: "create_loop d (i # is) s = create_loop d is s" by simp
    show ?thesis
    proof (rule Cons.IH)
      assume "create_loop d is s = (DLSM_GT_E_NOMEM, None, s)" "\<forall>i\<in>set is. ks_active (gt_keys s i)"
      with True eq show thesis by (intro Cons.prems(1)) simp_all
    next
      fix j g
      assume f: "j \<in> set is" "\<not> ks_active (gt_keys s j)" "g = next_generation (generation_of s j)"
        "create_loop d is s = (DLSM_OK, Some (gt_key_encode j g),
         s\<lparr>gt_keys := (gt_keys s)(j := \<lparr>ks_generation = g, ks_active = True, ks_destructor = d\<rparr>)\<rparr>)"
      from f(1) have "j \<in> set (i # is)" by simp
      then show thesis using f(2,3) f(4)[folded eq] by (rule Cons.prems(2))
    qed
  next
    case False
    have "i \<in> set (i # is)" by simp
    moreover have "create_loop d (i # is) s = (DLSM_OK, Some (gt_key_encode i (next_generation (generation_of s i))),
       s\<lparr>gt_keys := (gt_keys s)(i := \<lparr>ks_generation = next_generation (generation_of s i), ks_active = True, ks_destructor = d\<rparr>)\<rparr>)"
      by (simp only: create_loop.simps Let_def False if_False generation_of_def)
    ultimately show ?thesis using False Cons.prems(2) by blast
  qed
qed

lemma live_of_upd:
  assumes "gt_key_decode k = Some (i, g)" and "s' = s\<lparr>gt_keys := (gt_keys s)(i := slot)\<rparr>"
    and "\<And>h. h \<noteq> g \<Longrightarrow> \<not> key_valid s i h" and "ks_active slot \<Longrightarrow> ks_generation slot = g"
  shows "live_of s' = (live_of s)(k := (if ks_active slot then Some (ks_destructor slot) else None))"
proof
  fix k'
  have s': "gt_keys s' j = (if j = i then slot else gt_keys s j)" for j by (simp add: assms(2))
  show "live_of s' k' = ((live_of s)(k := (if ks_active slot then Some (ks_destructor slot) else None))) k'"
  proof (cases "gt_key_decode k'")
    case None
    then have "k' \<noteq> k" using assms(1) by auto
    then show ?thesis using None by (simp add: live_of_cases)
  next
    case (Some jh)
    obtain j h where jh: "gt_key_decode k' = Some (j, h)" using Some by (cases jh) simp
    show ?thesis
    proof (cases "j = i \<and> h = g")
      case True
      then have "k' = k" using gt_key_encode_decode[OF assms(1)] gt_key_encode_decode[OF jh] by simp
      moreover have "key_valid s' i g \<longleftrightarrow> ks_active slot" using assms(4) by (auto simp: key_valid_def s')
      ultimately show ?thesis using assms(1) by (simp add: live_of_cases s')
    next
      case False
      then have ne: "k' \<noteq> k" using assms(1) jh by auto
      show ?thesis
      proof (cases "j = i")
        case True
        then have "h \<noteq> g" using False by simp
        then have "\<not> key_valid s' i h" "\<not> key_valid s i h" using assms(3,4) by (auto simp: key_valid_def s')
        then show ?thesis using ne jh True by (simp add: live_of_cases)
      next
        case False
        then have "key_valid s' j h = key_valid s j h" by (simp add: key_valid_def s')
        then show ?thesis using ne jh False by (simp add: live_of_cases s')
      qed
    qed
  qed
qed

lemma local_inv_create:
  assumes inv: "local_inv n s a" and n: "n < 2 ^ 32 - 1" and i: "i < 64" and free: "\<not> ks_active (gt_keys s i)"
    and g: "g = next_generation (generation_of s i)"
    and s': "s' = s\<lparr>gt_keys := (gt_keys s)(i := \<lparr>ks_generation = g, ks_active = True, ks_destructor = d\<rparr>)\<rparr>"
  shows "local_inv (Suc n) s' (spec_create (Some (gt_key_encode i g)) d a)" and "gt_key_encode i g \<notin> sp_issued a"
proof -
  have u: "unat (generation_of s i) < 2 ^ 32 - 1" using local_invD(1)[OF inv, of i] n by simp
  note g' = next_generation_less[OF u, folded g]
  have dec: "gt_key_decode (gt_key_encode i g) = Some (i, g)" using i g'(3) by (rule gt_key_decode_encode)
  have gen: "generation_of s' j = (if j = i then g else generation_of s j)" for j by (simp add: s' generation_of_def)
  have gen_le: "generation_of s j \<le> generation_of s' j" for j using g'(1) by (simp add: gen less_imp_le)
  have valid: "key_valid s' j h \<longleftrightarrow> (if j = i then h = g else key_valid s j h)" for j h by (auto simp: s' key_valid_def)
  have active: "ks_active (gt_keys s' j) \<longleftrightarrow> j = i \<or> ks_active (gt_keys s j)" for j by (simp add: s')
  have key: "k = gt_key_encode i g" if "gt_key_decode k = Some (i, g)" for k using gt_key_encode_decode[OF that] by simp
  have invalid: "\<not> key_valid s i h" for h using free by (simp add: key_valid_def)
  show "local_inv (Suc n) s' (spec_create (Some (gt_key_encode i g)) d a)"
  proof (rule local_invI)
    fix j
    show "unat (generation_of s' j) \<le> Suc n" using local_invD(1)[OF inv, of j] local_invD(1)[OF inv, of i] g'(2) by (simp add: gen)
    show "generation_of s' j \<noteq> 0" if "ks_active (gt_keys s' j)"
      using that local_invD(2)[OF inv, of j] g'(3) active by (auto simp: gen)
  next
    fix k
    assume "k \<in> sp_issued (spec_create (Some (gt_key_encode i g)) d a)"
    then consider "k = gt_key_encode i g" | "k \<in> sp_issued a" by (auto simp: spec_create_def)
    then show "\<exists>j h. gt_key_decode k = Some (j, h) \<and> h \<le> generation_of s' j"
    proof cases
      case 1
      then show ?thesis using dec gen[of i] by auto
    next
      case 2
      then show ?thesis using local_invD(3)[OF inv 2] gen_le by (meson order_trans)
    qed
  next
    fix k
    have "live_of s' = (live_of s)(gt_key_encode i g \<mapsto> d)"
      using live_of_upd[OF dec s'] invalid by simp
    then show "sp_live (spec_create (Some (gt_key_encode i g)) d a) k = live_of s' k"
      using local_invD(4)[OF inv, of k] by (simp add: spec_create_def)
  next
    fix t vals j
    assume "local_values s' t = Some vals"
    then show "lv_generation (vals j) \<le> generation_of s' j"
      using local_invD(5)[OF inv, of t vals j] gen_le[of j] by (auto simp: s' intro: order_trans)
  next
    fix t k j h
    assume k: "gt_key_decode k = Some (j, h)" and v: "key_valid s' j h"
    have st: "stored s' t j h = stored s t j h" by (simp add: stored_def s')
    show "sp_value (spec_create (Some (gt_key_encode i g)) d a) t k = stored s' t j h"
    proof (cases "j = i")
      case True
      then have "h = g" using v valid by simp
      then have "sp_value a t k = None" using local_invD(7)[OF inv, of k i g t] k g'(1) True by simp
      moreover have "stored s t i g = None"
        using local_invD(5)[OF inv, of t _ i] g'(1) by (fastforce simp: stored_def split: option.splits)
      ultimately show ?thesis using st True \<open>h = g\<close> by (simp add: spec_create_def)
    next
      case False
      then show ?thesis using local_invD(6)[OF inv k] v valid st by (simp add: spec_create_def)
    qed
  next
    fix t k j h
    assume "gt_key_decode k = Some (j, h)" "generation_of s' j < h"
    then show "sp_value (spec_create (Some (gt_key_encode i g)) d a) t k = None"
      using local_invD(7)[OF inv, of k j h t] gen_le[of j] by (simp add: spec_create_def)
  qed
  show "gt_key_encode i g \<notin> sp_issued a"
    using local_invD(3)[OF inv, of "gt_key_encode i g"] dec g'(1) by auto
qed

lemma local_inv_delete:
  assumes inv: "local_inv n s a" and k: "gt_key_decode k = Some (i, g)" and v: "key_valid s i g"
    and s': "s' = s\<lparr>gt_keys := (gt_keys s)(i := (gt_keys s i)\<lparr>ks_active := False, ks_destructor := None\<rparr>)\<rparr>"
  shows "local_inv (Suc n) s' (spec_delete k a)"
proof -
  have gen: "generation_of s' j = generation_of s j" for j by (simp add: s' generation_of_def)
  have valid: "key_valid s' j h \<longleftrightarrow> j \<noteq> i \<and> key_valid s j h" for j h by (auto simp: s' key_valid_def)
  have active: "ks_active (gt_keys s' j) \<longleftrightarrow> j \<noteq> i \<and> ks_active (gt_keys s j)" for j by (simp add: s')
  have only: "h = g" if "key_valid s i h" for h using that v by (simp add: key_valid_def)
  have key: "k' = k" if "gt_key_decode k' = Some (i, g)" for k'
    using gt_key_encode_decode[OF that] gt_key_encode_decode[OF k] by simp
  show ?thesis
  proof (rule local_invI)
    fix j
    show "unat (generation_of s' j) \<le> Suc n" using local_invD(1)[OF inv, of j] by (simp add: gen)
    show "generation_of s' j \<noteq> 0" if "ks_active (gt_keys s' j)"
      using that local_invD(2)[OF inv, of j] active by (simp add: gen)
  next
    fix k'
    assume "k' \<in> sp_issued (spec_delete k a)"
    then show "\<exists>j h. gt_key_decode k' = Some (j, h) \<and> h \<le> generation_of s' j"
      using local_invD(3)[OF inv, of k'] by (simp add: spec_delete_def gen)
  next
    fix k'
    have "\<And>h. h \<noteq> g \<Longrightarrow> \<not> key_valid s i h" using only by blast
    from live_of_upd[OF k s' this] have "live_of s' = (live_of s)(k := None)" by simp
    then show "sp_live (spec_delete k a) k' = live_of s' k'"
      using local_invD(4)[OF inv, of k'] by (simp add: spec_delete_def)
  next
    fix t vals j
    assume "local_values s' t = Some vals"
    then show "lv_generation (vals j) \<le> generation_of s' j"
      using local_invD(5)[OF inv, of t vals j] gen[of j] by (simp add: s')
  next
    fix t k' j h
    assume "gt_key_decode k' = Some (j, h)" "key_valid s' j h"
    then show "sp_value (spec_delete k a) t k' = stored s' t j h"
      using local_invD(6)[OF inv, of k' j h t] valid by (simp add: spec_delete_def s' stored_def)
  next
    fix t k' j h
    assume "gt_key_decode k' = Some (j, h)" "generation_of s' j < h"
    then show "sp_value (spec_delete k a) t k' = None"
      using local_invD(7)[OF inv, of k' j h t] by (simp add: spec_delete_def gen)
  qed
qed

lemma local_inv_set:
  assumes inv: "local_inv n s a" and k: "gt_key_decode k = Some (i, g)" and v: "key_valid s i g"
    and vals: "local_values s t = Some vals \<or> local_values s t = None \<and> vals = (\<lambda>_. \<lparr>lv_generation = 0, lv_value = None\<rparr>)"
    and s': "s' = s\<lparr>local_values := (local_values s)(t \<mapsto> vals(i := \<lparr>lv_generation = g, lv_value = x\<rparr>))\<rparr>"
  shows "local_inv (Suc n) s' (spec_set t k x a)"
proof -
  have gen: "generation_of s' j = generation_of s j" for j by (simp add: s' generation_of_def)
  have valid: "key_valid s' j h \<longleftrightarrow> key_valid s j h" for j h by (simp add: s' key_valid_def)
  have g: "generation_of s i = g" "g \<noteq> 0" using v gt_key_decode_bounds(2)[OF k] by (simp_all add: key_valid_def generation_of_def)
  have key: "k' = k" if "gt_key_decode k' = Some (i, g)" for k'
    using gt_key_encode_decode[OF that] gt_key_encode_decode[OF k] by simp
  have other: "stored s' u j h = stored s u j h" if "u \<noteq> t \<or> j \<noteq> i" "h \<noteq> 0" for u j h
  proof (cases "u = t")
    case True
    with that have j: "j \<noteq> i" by simp
    from vals show ?thesis
    proof
      assume "local_values s t = Some vals"
      then show ?thesis using True j by (simp add: stored_def s')
    next
      assume "local_values s t = None \<and> vals = (\<lambda>_. \<lparr>lv_generation = 0, lv_value = None\<rparr>)"
      then show ?thesis using True j that(2) by (simp add: stored_def s')
    qed
  next
    case False
    then show ?thesis by (simp add: stored_def s')
  qed
  have same: "stored s' t i g = x" by (simp add: stored_def s')
  show ?thesis
  proof (rule local_invI)
    fix j
    show "unat (generation_of s' j) \<le> Suc n" using local_invD(1)[OF inv, of j] by (simp add: gen)
    show "generation_of s' j \<noteq> 0" if "ks_active (gt_keys s' j)"
      using that local_invD(2)[OF inv, of j] gen[of j] by (simp add: s')
  next
    fix k'
    assume "k' \<in> sp_issued (spec_set t k x a)"
    then show "\<exists>j h. gt_key_decode k' = Some (j, h) \<and> h \<le> generation_of s' j"
      using local_invD(3)[OF inv, of k'] by (simp add: spec_set_def gen)
  next
    fix k'
    have gk: "gt_keys s' = gt_keys s" by (simp add: s')
    have "live_of s' = live_of s" unfolding live_of_def key_valid_def gk ..
    then show "sp_live (spec_set t k x a) k' = live_of s' k'"
      using local_invD(4)[OF inv, of k'] by (simp add: spec_set_def)
  next
    fix u w j
    assume w: "local_values s' u = Some w"
    show "lv_generation (w j) \<le> generation_of s' j"
    proof (cases "u = t")
      case True
      then have w': "w = vals(i := \<lparr>lv_generation = g, lv_value = x\<rparr>)" using w by (simp add: s')
      have "lv_generation (vals j) \<le> generation_of s j" using vals local_invD(5)[OF inv, of t vals j] by auto
      then show ?thesis using g(1) by (simp add: w' gen)
    next
      case False
      then show ?thesis using w local_invD(5)[OF inv, of u w j] gen[of j] by (simp add: s')
    qed
  next
    fix u k' j h
    assume k': "gt_key_decode k' = Some (j, h)" and v': "key_valid s' j h"
    have h: "h \<noteq> 0" using k' by (rule gt_key_decode_bounds)
    have old: "sp_value a u k' = stored s u j h" using local_invD(6)[OF inv k'] v' valid by simp
    show "sp_value (spec_set t k x a) u k' = stored s' u j h"
    proof (cases "u = t \<and> j = i")
      case True
      then have "h = g" using v' valid v by (simp add: key_valid_def)
      then have "k' = k" using k' True key by simp
      then show ?thesis using True \<open>h = g\<close> same by (simp add: spec_set_def)
    next
      case False
      then have "u = t \<Longrightarrow> k' \<noteq> k" using k' k by auto
      then show ?thesis using old other[of u j h] False h by (auto simp: spec_set_def)
    qed
  next
    fix u k' j h
    assume k': "gt_key_decode k' = Some (j, h)" and h: "generation_of s' j < h"
    then have "k' \<noteq> k" using k g(1) by (auto simp: gen)
    then show "sp_value (spec_set t k x a) u k' = None"
      using local_invD(7)[OF inv k', of u] h by (auto simp: spec_set_def gen)
  qed
qed

lemma local_inv_mono: "local_inv n s a \<Longrightarrow> local_inv (Suc n) s a"
  unfolding local_inv_def by (meson le_SucI)

lemma ltrace_inv:
  assumes "ltrace n s a" and "n < 2 ^ 32"
  shows "local_inv n s a"
  using assms
proof (induction rule: ltrace.induct)
  case init
  show ?case
    by (rule local_invI)
      (auto simp: local_init_def spec_init_def generation_of_def key_valid_def live_of_def split: option.splits)
next
  case (create n s a key d st ko s')
  then have inv: "local_inv n s a" and n: "n < 2 ^ 32 - 1" by simp_all
  show ?case
  proof (cases key)
    case True
    show ?thesis
    proof (rule create_loop_cases[of d "[0..<64]" s])
      assume "create_loop d [0..<64] s = (DLSM_GT_E_NOMEM, None, s)"
      then show ?thesis using create.hyps(2) True local_inv_mono[OF inv] by (simp add: dlsm_gt_key_create_def spec_create_def)
    next
      fix i g
      assume f: "i \<in> set [0..<64]" "\<not> ks_active (gt_keys s i)" "g = next_generation (generation_of s i)"
        "create_loop d [0..<64] s = (DLSM_OK, Some (gt_key_encode i g),
           s\<lparr>gt_keys := (gt_keys s)(i := \<lparr>ks_generation = g, ks_active = True, ks_destructor = d\<rparr>)\<rparr>)"
      then have "ko = Some (gt_key_encode i g)"
        "s' = s\<lparr>gt_keys := (gt_keys s)(i := \<lparr>ks_generation = g, ks_active = True, ks_destructor = d\<rparr>)\<rparr>"
        using create.hyps(2) True unfolding dlsm_gt_key_create_def by simp_all
      then show ?thesis using local_inv_create(1)[OF inv n _ f(2,3)] f(1) by auto
    qed
  next
    case False
    then show ?thesis using create.hyps(2) local_inv_mono[OF inv] by (simp add: dlsm_gt_key_create_def spec_create_def)
  qed
next
  case (delete n s a k st s')
  then have inv: "local_inv n s a" by simp
  show ?case
  proof (cases "gt_key_decode k")
    case None
    then show ?thesis using delete.hyps(2) local_inv_mono[OF inv] by (simp add: dlsm_gt_key_delete_def)
  next
    case (Some ig)
    obtain i g where ig: "gt_key_decode k = Some (i, g)" using Some by (cases ig) simp
    then show ?thesis using delete.hyps(2) local_inv_mono[OF inv] local_inv_delete[OF inv ig]
      by (auto simp: dlsm_gt_key_delete_def split: if_splits)
  qed
next
  case (set n s a mem t k v st s')
  then have inv: "local_inv n s a" by simp
  show ?case
  proof (cases "gt_key_decode k")
    case None
    then show ?thesis using set.hyps(2) local_inv_mono[OF inv] by (simp add: dlsm_gt_setspecific_def)
  next
    case (Some ig)
    obtain i g where ig: "gt_key_decode k = Some (i, g)" using Some by (cases ig) simp
    then show ?thesis using set.hyps(2) local_inv_mono[OF inv] local_inv_set[OF inv ig]
      by (auto simp: dlsm_gt_setspecific_def split: if_splits option.splits)
  qed
qed

section \<open>The storage refines its specification\<close>

lemma delete_ok_iff: "local_inv n s a \<Longrightarrow> fst (dlsm_gt_key_delete k s) = DLSM_OK \<longleftrightarrow> sp_live a k \<noteq> None"
  by (simp add: local_invD(4) dlsm_gt_key_delete_def live_of_def split: option.splits prod.splits)

lemma set_ok_iff:
  "local_inv n s a \<Longrightarrow> fst (dlsm_gt_setspecific mem (Some t) k v s) = DLSM_OK \<longleftrightarrow>
     sp_live a k \<noteq> None \<and> (mem \<or> local_values s t \<noteq> None)"
  by (auto simp: local_invD(4) dlsm_gt_setspecific_def live_of_def split: option.splits prod.splits if_splits)

lemma get_eq:
  assumes "local_inv n s a"
  shows "dlsm_gt_getspecific (Some t) k s = (if sp_live a k \<noteq> None then sp_value a t k else None)"
proof (cases "gt_key_decode k")
  case None
  then show ?thesis using local_invD(4)[OF assms, of k]
    by (simp add: live_of_cases dlsm_gt_getspecific_def split: option.splits)
next
  case (Some ig)
  obtain i g where ig: "gt_key_decode k = Some (i, g)" using Some by (cases ig) simp
  show ?thesis
  proof (cases "key_valid s i g")
    case True
    then have "sp_value a t k = stored s t i g" using ig by (intro local_invD(6)[OF assms])
    then show ?thesis using True ig local_invD(4)[OF assms, of k]
      by (simp add: live_of_cases dlsm_gt_getspecific_def stored_def split: option.splits)
  next
    case False
    then show ?thesis using ig local_invD(4)[OF assms, of k]
      by (simp add: live_of_cases dlsm_gt_getspecific_def split: option.splits)
  qed
qed

lemma all_active_card:
  assumes inv: "local_inv n s a" and act: "\<forall>i<64. ks_active (gt_keys s i)"
  shows "card (dom (sp_live a)) = 64"
proof -
  let ?f = "\<lambda>i. gt_key_encode i (generation_of s i)"
  have nz: "generation_of s i \<noteq> 0" if "i < 64" for i using act that local_invD(2)[OF inv] by blast
  have "dom (sp_live a) = ?f ` {0..<64}"
  proof (intro equalityI subsetI)
    fix k
    assume "k \<in> dom (sp_live a)"
    then have "live_of s k \<noteq> None" using local_invD(4)[OF inv, of k] by (simp add: domIff)
    then obtain i g where ig: "gt_key_decode k = Some (i, g)" "key_valid s i g"
      by (auto simp: live_of_def split: option.splits if_splits)
    then have "g = generation_of s i" by (simp add: key_valid_def generation_of_def)
    then show "k \<in> ?f ` {0..<64}" using gt_key_encode_decode[OF ig(1)] gt_key_decode_bounds(1)[OF ig(1)] by force
  next
    fix k
    assume "k \<in> ?f ` {0..<64}"
    then obtain i where i: "i < 64" "k = ?f i" by auto
    then have "gt_key_decode k = Some (i, generation_of s i)" using nz by (simp add: gt_key_decode_encode)
    moreover have "key_valid s i (generation_of s i)" using act i(1) by (simp add: key_valid_def generation_of_def)
    ultimately show "k \<in> dom (sp_live a)" using local_invD(4)[OF inv, of k] by (simp add: live_of_cases dom_def)
  qed
  moreover have "inj_on ?f {0..<64}"
  proof (rule inj_onI)
    fix i j
    assume "i \<in> {0..<64}" "j \<in> {0..<64}" "?f i = ?f j"
    then show "i = j" using gt_key_encode_inj(1)[of i "generation_of s i" j "generation_of s j"] nz by simp
  qed
  ultimately show ?thesis by (simp add: card_image)
qed

lemma create_outcome:
  assumes inv: "local_inv n s a" and n: "n < 2 ^ 32 - 1"
  shows "case dlsm_gt_key_create True d s of (st, ko, s') \<Rightarrow> (case ko of
      None \<Rightarrow> st = DLSM_GT_E_NOMEM \<and> card (dom (sp_live a)) = 64
    | Some k \<Rightarrow> st = DLSM_OK \<and> k \<notin> sp_issued a)"
proof (rule create_loop_cases[of d "[0..<64]" s])
  assume "create_loop d [0..<64] s = (DLSM_GT_E_NOMEM, None, s)" "\<forall>i\<in>set [0..<64]. ks_active (gt_keys s i)"
  then show ?thesis using all_active_card[OF inv] by (simp add: dlsm_gt_key_create_def)
next
  fix i g
  assume f: "i \<in> set [0..<64]" "\<not> ks_active (gt_keys s i)" "g = next_generation (generation_of s i)"
    "create_loop d [0..<64] s = (DLSM_OK, Some (gt_key_encode i g),
       s\<lparr>gt_keys := (gt_keys s)(i := \<lparr>ks_generation = g, ks_active = True, ks_destructor = d\<rparr>)\<rparr>)"
  then show ?thesis using local_inv_create(2)[OF inv n _ f(2,3) refl] unfolding dlsm_gt_key_create_def by simp
qed

text \<open>
  Claim C16. After any sequence of fewer than \<open>2\<^sup>3\<^sup>2 - 1\<close> calls (the generations of a slot wrap after that many
  creations): a new key was never issued before, and creation is refused only when 64 keys exist; a key
  can be deleted and used exactly while it exists; and a task reads under a key the value that same task
  last stored under that same key, or \<open>NULL\<close>, never one stored under an earlier key of the same slot.
\<close>

theorem local_storage_refines:
  assumes "ltrace n s a" and "n < 2 ^ 32 - 1"
  shows "(case dlsm_gt_key_create True d s of (st, ko, s') \<Rightarrow> (case ko of
        None \<Rightarrow> st = DLSM_GT_E_NOMEM \<and> card (dom (sp_live a)) = 64
      | Some k \<Rightarrow> st = DLSM_OK \<and> k \<notin> sp_issued a)) \<and>
    (fst (dlsm_gt_key_delete k s) = DLSM_OK \<longleftrightarrow> sp_live a k \<noteq> None) \<and>
    (fst (dlsm_gt_setspecific mem (Some t) k v s) = DLSM_OK \<longleftrightarrow> sp_live a k \<noteq> None \<and> (mem \<or> local_values s t \<noteq> None)) \<and>
    dlsm_gt_getspecific (Some t) k s = (if sp_live a k \<noteq> None then sp_value a t k else None)"
proof -
  have inv: "local_inv n s a" using assms by (intro ltrace_inv) simp_all
  show ?thesis using create_outcome[OF inv assms(2)] delete_ok_iff[OF inv] set_ok_iff[OF inv] get_eq[OF inv] by simp
qed

text \<open>
  A key is created, a value stored under it, the key deleted and its slot used again: the second key is
  new, and reading under it does not find the old value.
\<close>

definition reused_slot :: local_state where
  "reused_slot = (let s1 = snd (snd (dlsm_gt_key_create True None local_init));
     s2 = snd (dlsm_gt_setspecific True (Some 7) (gt_key_encode 0 1) (Some 42) s1);
     s3 = snd (dlsm_gt_key_delete (gt_key_encode 0 1) s2) in snd (snd (dlsm_gt_key_create True None s3)))"


lemma reused_slot_trace:
  obtains a where "ltrace 4 reused_slot a" "sp_live a (gt_key_encode 0 2) = Some None" "sp_live a (gt_key_encode 0 1) = None"
    "sp_value a 7 (gt_key_encode 0 2) = None"
proof -
  have list: "[0..<64] = 0 # [1..<64::nat]" by (simp add: upt_conv_Cons)
  have dec: "gt_key_decode (gt_key_encode 0 1) = Some (0, 1)" by (rule gt_key_decode_encode) simp_all
  have ne: "gt_key_encode 0 2 \<noteq> gt_key_encode 0 1" using gt_key_encode_inj(2)[of 0 2 0 1] by auto
  define s1 where "s1 = local_init\<lparr>gt_keys := (gt_keys local_init)(0 := \<lparr>ks_generation = 1, ks_active = True, ks_destructor = None\<rparr>)\<rparr>"
  define s2 where "s2 = s1\<lparr>local_values := (local_values s1)(7 \<mapsto>
    (\<lambda>_. \<lparr>lv_generation = 0, lv_value = None\<rparr>)(0 := \<lparr>lv_generation = 1, lv_value = Some 42\<rparr>))\<rparr>"
  define s3 where "s3 = s2\<lparr>gt_keys := (gt_keys s2)(0 := (gt_keys s2 0)\<lparr>ks_active := False, ks_destructor := None\<rparr>)\<rparr>"
  define s4 where "s4 = s3\<lparr>gt_keys := (gt_keys s3)(0 := \<lparr>ks_generation = 2, ks_active = True, ks_destructor = None\<rparr>)\<rparr>"
  have 1: "dlsm_gt_key_create True None local_init = (DLSM_OK, Some (gt_key_encode 0 1), s1)"
    by (simp add: dlsm_gt_key_create_def list s1_def Let_def next_generation_def local_init_def)
  have 2: "dlsm_gt_setspecific True (Some 7) (gt_key_encode 0 1) (Some 42) s1 = (DLSM_OK, s2)"
    by (simp add: dlsm_gt_setspecific_def dec key_valid_def s1_def s2_def local_init_def)
  have 3: "dlsm_gt_key_delete (gt_key_encode 0 1) s2 = (DLSM_OK, s3)"
    by (simp add: dlsm_gt_key_delete_def dec key_valid_def s3_def s2_def s1_def)
  have 4: "dlsm_gt_key_create True None s3 = (DLSM_OK, Some (gt_key_encode 0 2), s4)"
    by (simp add: dlsm_gt_key_create_def list Let_def next_generation_def s4_def s3_def s2_def s1_def)
  have r: "reused_slot = s4" by (simp add: reused_slot_def 1 2 3 4)
  define a where "a = spec_create (Some (gt_key_encode 0 2)) None (spec_delete (gt_key_encode 0 1)
    (spec_set 7 (gt_key_encode 0 1) (Some 42) (spec_create (Some (gt_key_encode 0 1)) None spec_init)))"
  have t1: "ltrace (Suc 0) s1 (spec_create (Some (gt_key_encode 0 1)) None spec_init)" by (rule ltrace.create[OF ltrace.init 1])
  have t2: "ltrace (Suc (Suc 0)) s2 (spec_set 7 (gt_key_encode 0 1) (Some 42) (spec_create (Some (gt_key_encode 0 1)) None spec_init))"
    using ltrace.set[OF t1 2] by simp
  have t3: "ltrace (Suc (Suc (Suc 0))) s3 (spec_delete (gt_key_encode 0 1)
    (spec_set 7 (gt_key_encode 0 1) (Some 42) (spec_create (Some (gt_key_encode 0 1)) None spec_init)))"
    using ltrace.delete[OF t2 3] by simp
  have "ltrace (Suc (Suc (Suc (Suc 0)))) s4 a" unfolding a_def by (rule ltrace.create[OF t3 4])
  then have "ltrace 4 reused_slot a" by (simp add: r numeral_eq_Suc)
  moreover have "sp_live a (gt_key_encode 0 2) = Some None" "sp_live a (gt_key_encode 0 1) = None"
    "sp_value a 7 (gt_key_encode 0 2) = None"
    using ne by (simp_all add: a_def spec_create_def spec_delete_def spec_set_def spec_init_def)
  ultimately show thesis by (rule that)
qed

theorem local_storage_refines_witness:
  "dlsm_gt_getspecific (Some 7) (gt_key_encode 0 2) reused_slot = None \<and>
   fst (dlsm_gt_setspecific True (Some 7) (gt_key_encode 0 2) (Some 9) reused_slot) = DLSM_OK \<and>
   fst (dlsm_gt_key_delete (gt_key_encode 0 1) reused_slot) \<noteq> DLSM_OK"
proof -
  obtain a where a: "ltrace 4 reused_slot a" "sp_live a (gt_key_encode 0 2) = Some None" "sp_live a (gt_key_encode 0 1) = None"
    "sp_value a 7 (gt_key_encode 0 2) = None" by (rule reused_slot_trace)
  have n: "(4 :: nat) < 2 ^ 32 - 1" by simp
  show ?thesis
    using local_storage_refines[OF a(1) n, of None "gt_key_encode 0 2" True 7 "Some 9"]
      local_storage_refines[OF a(1) n, of None "gt_key_encode 0 1" True 7 None] a(2-4) by simp
qed

section \<open>Destructors\<close>

text \<open>What the slot \<open>i\<close> contributes to a pass.\<close>

definition slot_call :: "local_state \<Rightarrow> (nat \<Rightarrow> gt_local_value) \<Rightarrow> nat \<Rightarrow> (addr \<times> addr) list" where
  "slot_call s vals i = (case lv_value (vals i) of None \<Rightarrow> []
     | Some v \<Rightarrow> if lv_generation (vals i) \<noteq> 0 \<and> key_valid s i (lv_generation (vals i))
        then (case ks_destructor (gt_keys s i) of None \<Rightarrow> [] | Some d \<Rightarrow> [(d, v)]) else [])"

definition clear_slot :: "nat \<Rightarrow> (nat \<Rightarrow> gt_local_value) \<Rightarrow> nat \<Rightarrow> gt_local_value" where
  "clear_slot i vals = (if lv_generation (vals i) = 0 then vals else vals(i := (vals i)\<lparr>lv_value := None\<rparr>))"

lemma destroy_slot_inert:
  assumes "local_values s t = Some vals" and "\<And>d v s. call d v s = s"
  shows "destroy_slot call t i (calls, s) = (calls @ slot_call s vals i, s\<lparr>local_values := (local_values s)(t \<mapsto> clear_slot i vals)\<rparr>)"
proof -
  have same: "s\<lparr>local_values := (local_values s)(t \<mapsto> vals)\<rparr> = s" using assms(1) by (simp add: fun_upd_idem)
  have none: "vals(i := (vals i)\<lparr>lv_value := None\<rparr>) = vals" if "lv_value (vals i) = None"
    using that by (simp add: fun_upd_idem)
  show ?thesis
    by (cases "lv_value (vals i)")
      (simp_all add: destroy_slot_def assms slot_call_def clear_slot_def same none Let_def split: option.splits)
qed

lemma destroy_fold_length:
  "length (fst (fold (destroy_slot call t) is (calls, s))) \<le> length calls + length is"
proof (induction "is" arbitrary: calls s)
  case (Cons i "is")
  obtain calls' s' where d: "destroy_slot call t i (calls, s) = (calls', s')" by force
  then have "length calls' \<le> Suc (length calls)"
    by (auto simp: destroy_slot_def Let_def split: option.splits if_splits)
  then show ?case using Cons.IH[of calls' s'] d by simp
qed simp

lemma destroy_passes_length: "length (fst (destroy_passes call t n s)) \<le> 64 * n"
proof (induction n arbitrary: s)
  case (Suc n)
  obtain calls s1 where p: "destroy_pass call t s = (calls, s1)" by force
  have "length calls \<le> 64" using destroy_fold_length[of call t "[0..<64]" "[]" s] p by (simp add: destroy_pass_def)
  then show ?case using Suc.IH[of s1] p by (auto split: prod.splits)
qed simp


lemma clear_slot_other: "j \<noteq> i \<Longrightarrow> clear_slot i vals j = vals j"
  by (simp add: clear_slot_def)

lemma slot_call_cong:
  "gt_keys s' = gt_keys s \<Longrightarrow> vals' i = vals i \<Longrightarrow> slot_call s' vals' i = slot_call s vals i"
  unfolding slot_call_def key_valid_def by (simp only:)

lemma destroy_fold_inert:
  assumes "\<And>d v s. call d v s = s" and "distinct is" and "local_values s t = Some vals"
  shows "fold (destroy_slot call t) is (calls, s) =
    (calls @ concat (map (slot_call s vals) is), s\<lparr>local_values := (local_values s)(t \<mapsto> fold clear_slot is vals)\<rparr>)"
  using assms(2,3)
proof (induction "is" arbitrary: calls s vals)
  case Nil
  then show ?case by (simp add: fun_upd_idem)
next
  case (Cons i "is")
  define s1 where "s1 = s\<lparr>local_values := (local_values s)(t \<mapsto> clear_slot i vals)\<rparr>"
  have v: "local_values s1 t = Some (clear_slot i vals)" and k: "gt_keys s1 = gt_keys s" by (simp_all add: s1_def)
  have "slot_call s1 (clear_slot i vals) j = slot_call s vals j" if "j \<in> set is" for j
    using that Cons.prems(1) by (intro slot_call_cong[OF k] clear_slot_other) auto
  then have c: "map (slot_call s1 (clear_slot i vals)) is = map (slot_call s vals) is" by simp
  have "fold (destroy_slot call t) (i # is) (calls, s) = fold (destroy_slot call t) is (calls @ slot_call s vals i, s1)"
    using destroy_slot_inert[OF Cons.prems(2) assms(1)] by (simp add: s1_def)
  also have "\<dots> = ((calls @ slot_call s vals i) @ concat (map (slot_call s vals) is),
      s1\<lparr>local_values := (local_values s1)(t \<mapsto> fold clear_slot is (clear_slot i vals))\<rparr>)"
    unfolding c[symmetric] by (rule Cons.IH[OF _ v]) (use Cons.prems(1) in simp)
  moreover have "s1\<lparr>local_values := (local_values s1)(t \<mapsto> fold clear_slot is (clear_slot i vals))\<rparr> =
      s\<lparr>local_values := (local_values s)(t \<mapsto> fold clear_slot (i # is) vals)\<rparr>"
    by (rule local_state.equality) (simp_all add: s1_def)
  ultimately show ?case by (simp only: append_assoc concat.simps list.map)
qed

lemma fold_clear_slot:
  "fold clear_slot is vals j = (if j \<in> set is \<and> lv_generation (vals j) \<noteq> 0 then (vals j)\<lparr>lv_value := None\<rparr> else vals j)"
  by (induction "is" arbitrary: vals) (auto simp: clear_slot_def)

text \<open>
  Whatever the destructors do, at most 256 of them are called for a task that finishes. When they leave
  the storage alone, every value under a key that exists and has a destructor is passed to it exactly
  once, in the order of the slots, and no value stays behind.
\<close>

theorem local_destructors_once:
  assumes "local_values s t = Some vals"
  shows "length (fst (task_run_local_destructors call t s)) \<le> 256 \<and>
    ((\<forall>d v s. call d v s = s) \<longrightarrow>
       fst (task_run_local_destructors call t s) = concat (map (slot_call s vals) [0..<64]) \<and>
       (\<exists>vals'. local_values (snd (task_run_local_destructors call t s)) t = Some vals' \<and>
          (\<forall>i<64. lv_generation (vals i) \<noteq> 0 \<longrightarrow> lv_value (vals' i) = None)))"
proof (intro conjI impI)
  have r: "task_run_local_destructors call t s = destroy_passes call t (Suc 3) s"
    using assms by (simp add: task_run_local_destructors_def numeral_eq_Suc)
  show "length (fst (task_run_local_destructors call t s)) \<le> 256"
    using destroy_passes_length[of call t "Suc 3" s] unfolding r by simp
  assume call: "\<forall>d v s. call d v s = s"
  let ?v = "fold clear_slot [0..<64] vals"
  define s1 where "s1 = s\<lparr>local_values := (local_values s)(t \<mapsto> ?v)\<rparr>"
  have p: "destroy_pass call t s = (concat (map (slot_call s vals) [0..<64]), s1)"
    using destroy_fold_inert[of call "[0..<64]" s t vals "[]"] assms call by (simp add: destroy_pass_def s1_def)
  have none: "slot_call s1 ?v i = []" if "i < 64" for i
    using that fold_clear_slot[of "[0..<64]" vals i] by (simp add: slot_call_def split: option.splits)
  have v1: "local_values s1 t = Some ?v" by (simp add: s1_def)
  have again: "fold clear_slot [0..<64] ?v = ?v" by (rule ext) (simp add: fold_clear_slot)
  have c1: "concat (map (slot_call s1 ?v) [0..<64]) = []" using none by (simp add: concat_eq_Nil_conv)
  have p1: "destroy_pass call t s1 = ([], s1)"
    using destroy_fold_inert[of call "[0..<64]" s1 t ?v "[]"] v1 call again c1
    by (simp add: destroy_pass_def fun_upd_idem)
  have d: "destroy_passes call t 3 s1 = ([], s1)" using p1 by (simp add: numeral_eq_Suc)
  have res: "task_run_local_destructors call t s = (concat (map (slot_call s vals) [0..<64]), s1)"
    unfolding r destroy_passes.simps(2) p prod.case d by (simp only: append_Nil2 if_cancel split: if_split) auto
  then show "fst (task_run_local_destructors call t s) = concat (map (slot_call s vals) [0..<64])" by simp
  show "\<exists>vals'. local_values (snd (task_run_local_destructors call t s)) t = Some vals' \<and>
      (\<forall>i<64. lv_generation (vals i) \<noteq> 0 \<longrightarrow> lv_value (vals' i) = None)"
    using v1 fold_clear_slot[of "[0..<64]" vals] unfolding res by (intro exI[of _ ?v]) simp
qed


definition one_value :: local_state where
  "one_value = \<lparr>gt_keys = \<lambda>i. if i = 0 then \<lparr>ks_generation = 1, ks_active = True, ks_destructor = Some 5\<rparr>
       else \<lparr>ks_generation = 0, ks_active = False, ks_destructor = None\<rparr>,
     local_values = [7 \<mapsto> \<lambda>i. if i = 0 then \<lparr>lv_generation = 1, lv_value = Some 42\<rparr> else \<lparr>lv_generation = 0, lv_value = None\<rparr>]\<rparr>"

theorem local_destructors_once_witness:
  "fst (task_run_local_destructors (\<lambda>d v s. s) 7 one_value) = [(5, 42)]"
proof -
  let ?vals = "\<lambda>i. if i = 0 then \<lparr>lv_generation = 1, lv_value = Some 42\<rparr> else \<lparr>lv_generation = 0, lv_value = None\<rparr>"
  have v: "local_values one_value 7 = Some ?vals" by (simp add: one_value_def)
  have "slot_call one_value ?vals 0 = [(5, 42)]" by (simp add: slot_call_def one_value_def key_valid_def)
  moreover have "slot_call one_value ?vals i = []" if "i \<noteq> 0" for i using that by (simp add: slot_call_def)
  moreover have "[0..<64] = 0 # [1..<64::nat]" by (simp add: upt_conv_Cons)
  ultimately have "concat (map (slot_call one_value ?vals) [0..<64]) = [(5, 42)]"
    by (simp add: concat_eq_Nil_conv del: upt_rec_numeral)
  then show ?thesis using local_destructors_once[OF v, of "\<lambda>d v s. s"] by simp
qed

end
