(* ===== verification/Gt_Task.thy ===== *)
theory Gt_Task
  imports Gt_Sleep Intrusive_List
begin

text \<open>
  Control blocks of tasks (\<^verbatim>\<open>libs/greenthread/src/greenthread.c\<close>): the runtime's list of all tasks, the
  references handles hold, and when a block is released: \<open>dlsm_gt_task_retain\<close>, \<open>dlsm_gt_task_release\<close>,
  \<open>task_unlink\<close>, \<open>task_execution_released\<close>, the end of a task in \<open>vp_main\<close>, \<open>dlsm_gt_runtime_free\<close>; and
  \<open>dlsm_gt_task_wait\<close> with the completion in \<open>rt_task_done\<close>. Sections under the lock of a task, which
  include the ones under the lock of the runtime, are atomic, and so are the sections under
  \<open>completion_mutex\<close>.
\<close>

section \<open>Control blocks\<close>

record task_ctl =
  c_finished :: bool
  c_refs :: u32
  c_released :: bool
  c_next :: "addr option"
  c_cancel :: bool

text \<open>\<open>tt_freed\<close> records the control blocks that were passed to \<open>free\<close>, in order.\<close>

record task_table =
  tt_task :: "addr \<Rightarrow> task_ctl"
  tt_all :: "addr option"
  tt_controls :: u64
  tt_freed :: "addr list"

definition upd_task :: "addr \<Rightarrow> (task_ctl \<Rightarrow> task_ctl) \<Rightarrow> task_table \<Rightarrow> task_table" where
  "upd_task t f tb = tb\<lparr>tt_task := (tt_task tb)(t := f (tt_task tb t))\<rparr>"

definition all_next :: "task_table \<Rightarrow> addr \<Rightarrow> addr option" where
  "all_next tb a = c_next (tt_task tb a)"

definition set_link :: "addr link \<Rightarrow> addr option \<Rightarrow> task_table \<Rightarrow> task_table" where
  "set_link l v tb = (case l of Head_link \<Rightarrow> tb\<lparr>tt_all := v\<rparr> | Next_link a \<Rightarrow> upd_task a (\<lambda>c. c\<lparr>c_next := v\<rparr>) tb)"

text \<open>The loop may not end on a cyclic list; \<open>None\<close> then.\<close>

definition task_unlink :: "addr \<Rightarrow> task_table \<Rightarrow> (bool \<times> task_table) option" where
  "task_unlink t tb = (case seek_link (all_next tb) (tt_all tb) t Head_link of
     None \<Rightarrow> None
   | Some l \<Rightarrow>
       if deref_link (all_next tb) (tt_all tb) l = None then Some (False, tb)
       else
         (let tb1 = set_link l (all_next tb t) tb; tb2 = upd_task t (\<lambda>c. c\<lparr>c_next := None\<rparr>) tb1 in
          Some (True, tb2\<lparr>tt_controls := tt_controls tb2 - 1\<rparr>)))"

definition task_free :: "addr \<Rightarrow> task_table \<Rightarrow> task_table" where
  "task_free t tb = tb\<lparr>tt_freed := tt_freed tb @ [t]\<rparr>"

text \<open>The part of \<open>dlsm_gt_spawn_ex\<close> that links an accepted task.\<close>

definition spawn_link :: "addr \<Rightarrow> task_table \<Rightarrow> task_table" where
  "spawn_link t tb = (upd_task t (\<lambda>c. c\<lparr>c_finished := False, c_released := False, c_cancel := False, c_next := tt_all tb, c_refs := 1\<rparr>) tb)
     \<lparr>tt_all := Some t, tt_controls := tt_controls tb + 1\<rparr>"

definition dlsm_gt_task_retain :: "addr option \<Rightarrow> task_table \<Rightarrow> dlsm_status \<times> task_table" where
  "dlsm_gt_task_retain task tb = (case task of
     None \<Rightarrow> (DLSM_GT_E_INVAL, tb)
   | Some t \<Rightarrow> if c_refs (tt_task tb t) = UINT32_MAX then (DLSM_GT_E_NOMEM, tb)
               else (DLSM_OK, upd_task t (\<lambda>c. c\<lparr>c_refs := c_refs c + 1\<rparr>) tb))"

definition dlsm_gt_task_release :: "addr option \<Rightarrow> task_table \<Rightarrow> (dlsm_status \<times> task_table) option" where
  "dlsm_gt_task_release task tb = (case task of
     None \<Rightarrow> Some (DLSM_GT_E_INVAL, tb)
   | Some t \<Rightarrow>
       if c_refs (tt_task tb t) = 0 then Some (DLSM_GT_E_STATE, tb)
       else
         (let tb1 = upd_task t (\<lambda>c. c\<lparr>c_refs := c_refs c - 1\<rparr>) tb; c = tt_task tb1 t in
          if c_refs c = 0 \<and> c_finished c \<and> c_released c
          then (case task_unlink t tb1 of
              None \<Rightarrow> None
            | Some (reclaim, tb2) \<Rightarrow> Some (DLSM_OK, if reclaim then task_free t tb2 else tb2))
          else Some (DLSM_OK, tb1)))"

text \<open>With the timers, and whether the cancelled wait unparks the task and signals the timer thread.\<close>

definition dlsm_gt_task_cancel :: "addr option \<Rightarrow> task_table \<Rightarrow> timers \<Rightarrow> dlsm_status \<times> task_table \<times> bool \<times> bool \<times> timers" where
  "dlsm_gt_task_cancel task tb tm = (case task of
     None \<Rightarrow> (DLSM_GT_E_INVAL, tb, False, False, tm)
   | Some t \<Rightarrow> if c_finished (tt_task tb t) then (DLSM_GT_E_STATE, tb, False, False, tm)
               else (DLSM_OK, upd_task t (\<lambda>c. c\<lparr>c_cancel := True\<rparr>) tb, timer_cancel_task_wait t tm))"

definition dlsm_gt_cancelled :: "addr option \<Rightarrow> task_table \<Rightarrow> bool" where
  "dlsm_gt_cancelled self tb = (case self of None \<Rightarrow> False | Some t \<Rightarrow> c_cancel (tt_task tb t))"

text \<open>The end of a task in \<open>vp_main\<close>: \<open>rt_task_done\<close> sets the state, and \<open>free\<close> follows when nobody holds a reference.\<close>

definition task_set_finished :: "addr \<Rightarrow> task_table \<Rightarrow> task_table" where
  "task_set_finished t tb = upd_task t (\<lambda>c. c\<lparr>c_finished := True\<rparr>) tb"

definition task_execution_released :: "addr \<Rightarrow> task_table \<Rightarrow> (bool \<times> task_table) option" where
  "task_execution_released t tb =
     (let tb1 = upd_task t (\<lambda>c. c\<lparr>c_released := True\<rparr>) tb in
      if c_refs (tt_task tb1 t) = 0 then task_unlink t tb1 else Some (False, tb1))"

definition vp_release_task :: "addr \<Rightarrow> task_table \<Rightarrow> task_table option" where
  "vp_release_task t tb = (case task_execution_released t tb of
     None \<Rightarrow> None | Some (reclaim, tb1) \<Rightarrow> Some (if reclaim then task_free t tb1 else tb1))"

text \<open>The loop of \<open>dlsm_gt_runtime_free\<close> over the tasks that are left.\<close>

definition free_all_tasks :: "task_table \<Rightarrow> task_table option" where
  "free_all_tasks tb = (case walk (all_next tb) (tt_all tb) of
     None \<Rightarrow> None | Some ts \<Rightarrow> Some (fold task_free ts (tb\<lparr>tt_all := None\<rparr>)))"

section \<open>Their life\<close>

text \<open>
  Where the processor is with a task: it can still run, its state is \<open>ST_FINISHED\<close>, or the processor has
  let go of it. Handles are used only by those who hold a reference.
\<close>

datatype task_phase = Unborn | Running | Ended | Gone

record task_sys =
  k_table :: task_table
  k_phase :: "addr \<Rightarrow> task_phase"

inductive task_step :: "task_sys \<Rightarrow> task_sys \<Rightarrow> bool" where
  spawn: "k_phase k t = Unborn \<Longrightarrow> task_step k \<lparr>k_table = spawn_link t (k_table k), k_phase = (k_phase k)(t := Running)\<rparr>"
| retain: "c_refs (tt_task (k_table k) t) \<noteq> 0 \<Longrightarrow> k_phase k t \<noteq> Unborn \<Longrightarrow>
    dlsm_gt_task_retain (Some t) (k_table k) = (st, tb) \<Longrightarrow> task_step k (k\<lparr>k_table := tb\<rparr>)"
| release: "c_refs (tt_task (k_table k) t) \<noteq> 0 \<Longrightarrow> k_phase k t \<noteq> Unborn \<Longrightarrow>
    dlsm_gt_task_release (Some t) (k_table k) = Some (st, tb) \<Longrightarrow> task_step k (k\<lparr>k_table := tb\<rparr>)"
| cancel: "c_refs (tt_task (k_table k) t) \<noteq> 0 \<Longrightarrow> k_phase k t \<noteq> Unborn \<Longrightarrow>
    dlsm_gt_task_cancel (Some t) (k_table k) tm = (st, tb, unpark, sig, tm') \<Longrightarrow> task_step k (k\<lparr>k_table := tb\<rparr>)"
| finish: "k_phase k t = Running \<Longrightarrow>
    task_step k \<lparr>k_table = task_set_finished t (k_table k), k_phase = (k_phase k)(t := Ended)\<rparr>"
| let_go: "k_phase k t = Ended \<Longrightarrow> vp_release_task t (k_table k) = Some tb \<Longrightarrow>
    task_step k \<lparr>k_table = tb, k_phase = (k_phase k)(t := Gone)\<rparr>"

definition task_start :: "(addr \<Rightarrow> task_ctl) \<Rightarrow> task_sys" where
  "task_start f = \<lparr>k_table = \<lparr>tt_task = f, tt_all = None, tt_controls = 0, tt_freed = []\<rparr>, k_phase = \<lambda>_. Unborn\<rparr>"

text \<open>
  The invariant: the list links exactly the tasks that were spawned and not freed; a task is freed
  exactly when the processor has let go of it and no reference is left.
\<close>

definition task_dead :: "task_sys \<Rightarrow> addr \<Rightarrow> bool" where
  "task_dead k t \<longleftrightarrow> k_phase k t = Gone \<and> c_refs (tt_task (k_table k) t) = 0"

definition task_view :: "task_sys \<Rightarrow> addr list \<Rightarrow> bool" where
  "task_view k ts \<longleftrightarrow> lseg (all_next (k_table k)) (tt_all (k_table k)) ts None \<and>
     (\<forall>t. t \<in> set ts \<longleftrightarrow> k_phase k t \<noteq> Unborn \<and> \<not> task_dead k t) \<and>
     (\<forall>t. t \<in> set (tt_freed (k_table k)) \<longleftrightarrow> task_dead k t) \<and> distinct (tt_freed (k_table k)) \<and>
     (\<forall>t. k_phase k t \<noteq> Unborn \<longrightarrow> (c_finished (tt_task (k_table k) t) \<longleftrightarrow> k_phase k t = Ended \<or> k_phase k t = Gone) \<and>
        (c_released (tt_task (k_table k) t) \<longleftrightarrow> k_phase k t = Gone)) \<and>
     tt_controls (k_table k) = of_nat (length ts)"

lemma upd_task_sel [simp]:
  "tt_task (upd_task t f tb) u = (if u = t then f (tt_task tb t) else tt_task tb u)"
  "tt_all (upd_task t f tb) = tt_all tb" "tt_freed (upd_task t f tb) = tt_freed tb" "tt_controls (upd_task t f tb) = tt_controls tb"
  by (simp_all add: upd_task_def)

lemma all_next_upd: "(\<And>c. c_next (f c) = c_next c) \<Longrightarrow> all_next (upd_task t f tb) = all_next tb"
  by (auto simp: all_next_def fun_eq_iff)

text \<open>Unlinking a task of the list removes it and changes nothing else but its own link.\<close>

lemma task_unlink_found:
  assumes "lseg (all_next tb) (tt_all tb) (us @ t # vs) None"
  obtains tb' where "task_unlink t tb = Some (True, tb')" and "lseg (all_next tb') (tt_all tb') (us @ vs) None"
    and "tt_freed tb' = tt_freed tb" and "tt_controls tb' = tt_controls tb - 1"
    and "\<And>u. (tt_task tb' u)\<lparr>c_next := None\<rparr> = (tt_task tb u)\<lparr>c_next := None\<rparr>"
proof -
  have d: "distinct (us @ t # vs)" using assms by (rule lseg_distinct)
  have sk: "seek_link (all_next tb) (tt_all tb) t Head_link = Some (link_after us)"
    using seek_link_found[of "all_next tb" "tt_all tb" "[]" us t vs] assms d by simp
  have at: "deref_link (all_next tb) (tt_all tb) (link_after us) = Some t" using deref_link_after[OF assms] by simp
  define tb1 where "tb1 = set_link (link_after us) (all_next tb t) tb"
  define tb2 where "tb2 = (upd_task t (\<lambda>c. c\<lparr>c_next := None\<rparr>) tb1)\<lparr>tt_controls := tt_controls tb1 - 1\<rparr>"
  have "task_unlink t tb = Some (True, tb2)"
    by (simp add: task_unlink_def sk at tb1_def[symmetric] tb2_def Let_def)
  moreover have "lseg (all_next tb2) (tt_all tb2) (us @ vs) None"
  proof (cases "us = []")
    case True
    have "all_next tb2 = (all_next tb)(t := None)" by (auto simp: tb2_def tb1_def set_link_def True all_next_def fun_eq_iff)
    then show ?thesis using lseg_unlink(1)[OF assms True] True by (simp add: tb2_def tb1_def set_link_def)
  next
    case False
    have "all_next tb2 = (all_next tb)(last us := all_next tb t, t := None)"
      by (auto simp: tb2_def tb1_def set_link_def False all_next_def fun_eq_iff)
    then show ?thesis using lseg_unlink(2)[OF assms False] False by (simp add: tb2_def tb1_def set_link_def)
  qed
  moreover have "tt_freed tb2 = tt_freed tb" "tt_controls tb2 = tt_controls tb - 1"
    by (simp_all add: tb2_def tb1_def set_link_def)
  moreover have "(tt_task tb2 u)\<lparr>c_next := None\<rparr> = (tt_task tb u)\<lparr>c_next := None\<rparr>" for u
    by (simp add: tb2_def tb1_def set_link_def)
  ultimately show thesis by (rule that)
qed

lemma task_viewI:
  assumes "lseg (all_next (k_table k)) (tt_all (k_table k)) ts None"
    and "\<And>t. t \<in> set ts \<longleftrightarrow> k_phase k t \<noteq> Unborn \<and> \<not> task_dead k t"
    and "\<And>t. t \<in> set (tt_freed (k_table k)) \<longleftrightarrow> task_dead k t" and "distinct (tt_freed (k_table k))"
    and "\<And>t. k_phase k t \<noteq> Unborn \<Longrightarrow> c_finished (tt_task (k_table k) t) \<longleftrightarrow> k_phase k t = Ended \<or> k_phase k t = Gone"
    and "\<And>t. k_phase k t \<noteq> Unborn \<Longrightarrow> c_released (tt_task (k_table k) t) \<longleftrightarrow> k_phase k t = Gone"
    and "tt_controls (k_table k) = of_nat (length ts)"
  shows "task_view k ts"
  using assms by (simp add: task_view_def)

lemma task_viewD:
  assumes "task_view k ts"
  shows "lseg (all_next (k_table k)) (tt_all (k_table k)) ts None"
    and "t \<in> set ts \<longleftrightarrow> k_phase k t \<noteq> Unborn \<and> \<not> task_dead k t"
    and "t \<in> set (tt_freed (k_table k)) \<longleftrightarrow> task_dead k t" and "distinct (tt_freed (k_table k))"
    and "k_phase k t \<noteq> Unborn \<Longrightarrow> c_finished (tt_task (k_table k) t) \<longleftrightarrow> k_phase k t = Ended \<or> k_phase k t = Gone"
    and "k_phase k t \<noteq> Unborn \<Longrightarrow> c_released (tt_task (k_table k) t) \<longleftrightarrow> k_phase k t = Gone"
    and "tt_controls (k_table k) = of_nat (length ts)"
  using assms by (simp_all add: task_view_def)

lemma fields_eq:
  assumes "c\<lparr>c_next := None\<rparr> = c'\<lparr>c_next := None\<rparr>"
  shows "c_refs c = c_refs c'" and "c_finished c = c_finished c'" and "c_released c = c_released c'"
  using arg_cong[OF assms, of c_refs] arg_cong[OF assms, of c_finished] arg_cong[OF assms, of c_released] by simp_all

text \<open>A step that changes the references, the flags and the phase of one task, which is dead neither before nor after.\<close>

lemma task_view_touch:
  assumes v: "task_view k ts" and f: "\<And>c. c_next (f c) = c_next c"
    and k': "k' = \<lparr>k_table = upd_task t f (k_table k), k_phase = (k_phase k)(t := p)\<rparr>"
    and t: "k_phase k t \<noteq> Unborn" "p \<noteq> Unborn" "\<not> task_dead k t" "\<not> task_dead k' t"
    and fl: "c_finished (f (tt_task (k_table k) t)) \<longleftrightarrow> p = Ended \<or> p = Gone" "c_released (f (tt_task (k_table k) t)) \<longleftrightarrow> p = Gone"
  shows "task_view k' ts"
proof (rule task_viewI)
  note d = task_viewD[OF v]
  have dead: "task_dead k' u \<longleftrightarrow> task_dead k u" for u using t(3,4) by (cases "u = t") (auto simp: k' task_dead_def)
  show "lseg (all_next (k_table k')) (tt_all (k_table k')) ts None" using d(1) by (simp add: k' all_next_upd[OF f])
  show "u \<in> set ts \<longleftrightarrow> k_phase k' u \<noteq> Unborn \<and> \<not> task_dead k' u" for u using d(2)[of u] t(1,2) dead[of u] by (simp add: k')
  show "u \<in> set (tt_freed (k_table k')) \<longleftrightarrow> task_dead k' u" for u using d(3)[of u] dead[of u] by (simp add: k')
  show "c_finished (tt_task (k_table k') u) \<longleftrightarrow> k_phase k' u = Ended \<or> k_phase k' u = Gone" if "k_phase k' u \<noteq> Unborn" for u
    using that d(5)[of u] fl(1) by (auto simp: k' split: if_splits)
  show "c_released (tt_task (k_table k') u) \<longleftrightarrow> k_phase k' u = Gone" if "k_phase k' u \<noteq> Unborn" for u
    using that d(6)[of u] fl(2) by (auto simp: k' split: if_splits)
qed (use task_viewD(4,7)[OF v] in \<open>simp_all add: k'\<close>)

text \<open>A step after which the task is dead: it is unlinked and freed.\<close>

lemma task_view_reclaim:
  assumes v: "task_view k ts" and f: "\<And>c. c_next (f c) = c_next c" and t: "k_phase k t \<noteq> Unborn" "\<not> task_dead k t"
    and c: "c_refs (f (tt_task (k_table k) t)) = 0" "c_finished (f (tt_task (k_table k) t))" "c_released (f (tt_task (k_table k) t))"
  obtains tb where "task_unlink t (upd_task t f (k_table k)) = Some (True, tb)"
    and "\<exists>ts'. task_view \<lparr>k_table = task_free t tb, k_phase = (k_phase k)(t := Gone)\<rparr> ts'"
proof -
  note d = task_viewD[OF v]
  let ?tb = "upd_task t f (k_table k)"
  have "t \<in> set ts" using d(2)[of t] t by simp
  then obtain us vs where ts: "ts = us @ t # vs" by (auto dest: split_list)
  have l: "lseg (all_next ?tb) (tt_all ?tb) (us @ t # vs) None" using d(1) by (simp add: all_next_upd[OF f] ts)
  have dist: "distinct ts" using d(1) by (rule lseg_distinct)
  obtain tb where tb: "task_unlink t ?tb = Some (True, tb)" "lseg (all_next tb) (tt_all tb) (us @ vs) None"
    "tt_freed tb = tt_freed ?tb" "tt_controls tb = tt_controls ?tb - 1"
    "\<And>u. (tt_task tb u)\<lparr>c_next := None\<rparr> = (tt_task ?tb u)\<lparr>c_next := None\<rparr>" using task_unlink_found[OF l] by blast
  define k' where "k' = \<lparr>k_table = task_free t tb, k_phase = (k_phase k)(t := Gone)\<rparr>"
  note fe = fields_eq[OF tb(5)]
  have dead: "task_dead k' u \<longleftrightarrow> u = t \<or> task_dead k u" for u
    using c(1) fe(1)[of u] by (cases "u = t") (simp_all add: k'_def task_dead_def task_free_def)
  have "task_view k' (us @ vs)"
  proof (rule task_viewI)
    show "lseg (all_next (k_table k')) (tt_all (k_table k')) (us @ vs) None"
      using tb(2) by (simp add: k'_def task_free_def all_next_def[abs_def])
    show "u \<in> set (us @ vs) \<longleftrightarrow> k_phase k' u \<noteq> Unborn \<and> \<not> task_dead k' u" for u
      using d(2)[of u] dead[of u] dist ts by (auto simp: k'_def)
    show "u \<in> set (tt_freed (k_table k')) \<longleftrightarrow> task_dead k' u" for u
      using d(3)[of u] dead[of u] tb(3) by (auto simp: k'_def task_free_def)
    show "distinct (tt_freed (k_table k'))" using d(3)[of t] d(4) t(2) tb(3) by (simp add: k'_def task_free_def)
    show "c_finished (tt_task (k_table k') u) \<longleftrightarrow> k_phase k' u = Ended \<or> k_phase k' u = Gone" if "k_phase k' u \<noteq> Unborn" for u
      using that d(5)[of u] c(2) fe(2)[of u] by (auto simp: k'_def task_free_def split: if_splits)
    show "c_released (tt_task (k_table k') u) \<longleftrightarrow> k_phase k' u = Gone" if "k_phase k' u \<noteq> Unborn" for u
      using that d(6)[of u] c(3) fe(3)[of u] by (auto simp: k'_def task_free_def split: if_splits)
    show "tt_controls (k_table k') = of_nat (length (us @ vs))" using d(7) tb(4) ts by (simp add: k'_def task_free_def)
  qed
  then show thesis using tb(1) that unfolding k'_def by blast
qed

lemma task_view_spawn:
  assumes v: "task_view k ts" and t: "k_phase k t = Unborn"
    and k': "k' = \<lparr>k_table = spawn_link t (k_table k), k_phase = (k_phase k)(t := Running)\<rparr>"
  shows "task_view k' (t # ts)"
proof (rule task_viewI)
  note d = task_viewD[OF v]
  have nt: "t \<notin> set ts" using d(2)[of t] t by simp
  have dead: "task_dead k' u \<longleftrightarrow> task_dead k u" for u using t by (cases "u = t") (simp_all add: k' task_dead_def spawn_link_def)
  have "all_next (k_table k') = (all_next (k_table k))(t := tt_all (k_table k))"
    by (auto simp: k' spawn_link_def all_next_def fun_eq_iff)
  then show "lseg (all_next (k_table k')) (tt_all (k_table k')) (t # ts) None" using d(1) nt by (simp add: k' spawn_link_def)
  show "u \<in> set (t # ts) \<longleftrightarrow> k_phase k' u \<noteq> Unborn \<and> \<not> task_dead k' u" for u
    using d(2)[of u] dead[of u] t by (auto simp: k' task_dead_def)
  show "u \<in> set (tt_freed (k_table k')) \<longleftrightarrow> task_dead k' u" for u using d(3)[of u] dead[of u] by (simp add: k' spawn_link_def)
  show "c_finished (tt_task (k_table k') u) \<longleftrightarrow> k_phase k' u = Ended \<or> k_phase k' u = Gone" if "k_phase k' u \<noteq> Unborn" for u
    using that d(5)[of u] by (simp add: k' spawn_link_def split: if_splits)
  show "c_released (tt_task (k_table k') u) \<longleftrightarrow> k_phase k' u = Gone" if "k_phase k' u \<noteq> Unborn" for u
    using that d(6)[of u] by (simp add: k' spawn_link_def split: if_splits)
qed (use task_viewD(4,7)[OF v] in \<open>simp_all add: k' spawn_link_def\<close>)

lemma same_phase: "k\<lparr>k_table := tb\<rparr> = \<lparr>k_table = tb, k_phase = (k_phase k)(t := k_phase k t)\<rparr>"
  by simp

lemma task_step_view:
  assumes "task_step k k'" and v: "task_view k ts"
  shows "\<exists>ts'. task_view k' ts'"
  using assms(1)
proof cases
  case (spawn t)
  then show ?thesis using task_view_spawn[OF v] by blast
next
  case (retain t st tb)
  note d = task_viewD[OF v]
  show ?thesis
  proof (cases "c_refs (tt_task (k_table k) t) = UINT32_MAX")
    case True
    then have "tb = k_table k" using retain(4) by (simp add: dlsm_gt_task_retain_def)
    then have "k' = k" using retain(1) by simp
    then show ?thesis using v by blast
  next
    case False
    then have ref: "c_refs (tt_task (k_table k) t) + 1 \<noteq> 0" by (metis add_eq_0_iff add.inverse_inverse add.commute)
    have k': "k' = \<lparr>k_table = upd_task t (\<lambda>c. c\<lparr>c_refs := c_refs c + 1\<rparr>) (k_table k), k_phase = (k_phase k)(t := k_phase k t)\<rparr>"
      using False retain by (auto simp: dlsm_gt_task_retain_def)
    then have "task_view k' ts" using retain(2,3) ref d(5,6)[of t]
      by (intro task_view_touch[OF v _ k']) (auto simp: task_dead_def)
    then show ?thesis by blast
  qed
next
  case (release t st tb)
  note d = task_viewD[OF v]
  let ?f = "\<lambda>c :: task_ctl. c\<lparr>c_refs := c_refs c - 1\<rparr>"
  let ?c = "?f (tt_task (k_table k) t)"
  show ?thesis
  proof (cases "c_refs ?c = 0 \<and> c_finished ?c \<and> c_released ?c")
    case True
    then have gone: "k_phase k t = Gone" using d(6)[of t] release(3) by simp
    obtain tb2 where tb2: "task_unlink t (upd_task t ?f (k_table k)) = Some (True, tb2)"
      "\<exists>ts'. task_view \<lparr>k_table = task_free t tb2, k_phase = (k_phase k)(t := Gone)\<rparr> ts'"
      by (rule task_view_reclaim[OF v, of ?f t]) (use release(2,3) True in \<open>simp_all add: task_dead_def\<close>)
    have "tb = task_free t tb2" using release(2,4) True tb2(1) by (simp add: dlsm_gt_task_release_def Let_def)
    then have "k' = \<lparr>k_table = task_free t tb2, k_phase = (k_phase k)(t := Gone)\<rparr>" using release(1) gone by (simp add: fun_upd_idem)
    then show ?thesis using tb2(2) by simp
  next
    case False
    have tb: "tb = upd_task t ?f (k_table k)" using release(2,4) False by (auto simp: dlsm_gt_task_release_def Let_def split: if_splits)
    then have k': "k' = \<lparr>k_table = upd_task t ?f (k_table k), k_phase = (k_phase k)(t := k_phase k t)\<rparr>" using release(1) by simp
    have "\<not> task_dead k' t" using False d(5,6)[of t] release(3) by (auto simp: k' task_dead_def)
    then have "task_view k' ts" using release(2,3) d(5,6)[of t]
      by (intro task_view_touch[OF v _ k']) (auto simp: task_dead_def)
    then show ?thesis by blast
  qed
next
  case (cancel t tm st tb unpark sig tm')
  note d = task_viewD[OF v]
  show ?thesis
  proof (cases "c_finished (tt_task (k_table k) t)")
    case True
    then have "tb = k_table k" using cancel(4) by (simp add: dlsm_gt_task_cancel_def)
    then have "k' = k" using cancel(1) by simp
    then show ?thesis using v by blast
  next
    case False
    have k': "k' = \<lparr>k_table = upd_task t (\<lambda>c. c\<lparr>c_cancel := True\<rparr>) (k_table k), k_phase = (k_phase k)(t := k_phase k t)\<rparr>"
      using False cancel by (auto simp: dlsm_gt_task_cancel_def)
    then have "task_view k' ts" using cancel(2,3) d(5,6)[of t] by (intro task_view_touch[OF v _ k']) (auto simp: task_dead_def)
    then show ?thesis by blast
  qed
next
  case (finish t)
  have "task_view k' ts" using finish task_viewD(6)[OF v, of t]
    by (intro task_view_touch[OF v, of "\<lambda>c. c\<lparr>c_finished := True\<rparr>" k' t Ended]) (auto simp: task_dead_def task_set_finished_def)
  then show ?thesis by blast
next
  case (let_go t tb)
  note d = task_viewD[OF v]
  let ?f = "\<lambda>c :: task_ctl. c\<lparr>c_released := True\<rparr>"
  show ?thesis
  proof (cases "c_refs (tt_task (k_table k) t) = 0")
    case True
    obtain tb2 where tb2: "task_unlink t (upd_task t ?f (k_table k)) = Some (True, tb2)"
      "\<exists>ts'. task_view \<lparr>k_table = task_free t tb2, k_phase = (k_phase k)(t := Gone)\<rparr> ts'"
      by (rule task_view_reclaim[OF v, of ?f t]) (use let_go(2) True d(5)[of t] in \<open>simp_all add: task_dead_def\<close>)
    have "tb = task_free t tb2" using let_go(3) True tb2(1) by (simp add: vp_release_task_def task_execution_released_def Let_def)
    then show ?thesis using let_go(1) tb2(2) by simp
  next
    case False
    have tb: "tb = upd_task t ?f (k_table k)" using let_go(3) False by (simp add: vp_release_task_def task_execution_released_def Let_def)
    have "task_view k' ts" using let_go(1,2) tb False d(5)[of t]
      by (intro task_view_touch[OF v, of ?f k' t Gone]) (auto simp: task_dead_def)
    then show ?thesis by blast
  qed
qed

lemma task_reachable_view:
  assumes "task_step\<^sup>*\<^sup>* (task_start f) k"
  obtains ts where "task_view k ts"
proof -
  have "task_view (task_start f) []" by (simp add: task_view_def task_start_def task_dead_def)
  with assms have "\<exists>ts. task_view k ts"
    by (induction rule: rtranclp_induct) (use task_step_view in blast)+
  then show thesis using that by blast
qed

lemma free_fold: "tt_freed (fold task_free ts tb) = tt_freed tb @ ts" "tt_all (fold task_free ts tb) = tt_all tb"
  by (induction ts arbitrary: tb) (simp_all add: task_free_def)

text \<open>
  Claim C17. Every control block is freed exactly once and in time, whatever handles do: in every interleaving a
  block has been freed exactly when the processor has let go of its task and no reference is left, none
  is freed twice, the loops over the list end, and freeing the runtime frees each of the others exactly once.
\<close>

theorem task_freed_exactly_once:
  assumes "task_step\<^sup>*\<^sup>* (task_start f) k"
  shows "distinct (tt_freed (k_table k)) \<and>
    (t \<in> set (tt_freed (k_table k)) \<longleftrightarrow> k_phase k t = Gone \<and> c_refs (tt_task (k_table k) t) = 0) \<and>
    (c_refs (tt_task (k_table k) t) \<noteq> 0 \<and> k_phase k t \<noteq> Unborn \<longrightarrow> dlsm_gt_task_release (Some t) (k_table k) \<noteq> None) \<and>
    (\<exists>tb. free_all_tasks (k_table k) = Some tb \<and> distinct (tt_freed tb) \<and> set (tt_freed tb) = {u. k_phase k u \<noteq> Unborn})"
proof -
  obtain ts where v: "task_view k ts" using assms by (rule task_reachable_view)
  note d = task_viewD[OF v]
  have "dlsm_gt_task_release (Some t) (k_table k) \<noteq> None" if "c_refs (tt_task (k_table k) t) \<noteq> 0" "k_phase k t \<noteq> Unborn"
  proof -
    let ?f = "\<lambda>c :: task_ctl. c\<lparr>c_refs := c_refs c - 1\<rparr>"
    have "t \<in> set ts" using d(2)[of t] that by (simp add: task_dead_def)
    then obtain us vs where ts: "ts = us @ t # vs" by (auto dest: split_list)
    have "lseg (all_next (upd_task t ?f (k_table k))) (tt_all (upd_task t ?f (k_table k))) (us @ t # vs) None"
      using d(1) ts by (simp add: all_next_upd)
    then obtain tb where "task_unlink t (upd_task t ?f (k_table k)) = Some (True, tb)" by (rule task_unlink_found)
    then show ?thesis using that by (simp add: dlsm_gt_task_release_def Let_def)
  qed
  moreover have "\<exists>tb. free_all_tasks (k_table k) = Some tb \<and> distinct (tt_freed tb) \<and> set (tt_freed tb) = {u. k_phase k u \<noteq> Unborn}"
  proof (intro exI conjI)
    show "free_all_tasks (k_table k) = Some (fold task_free ts ((k_table k)\<lparr>tt_all := None\<rparr>))"
      using walk_lseg[OF d(1)] by (simp add: free_all_tasks_def)
    have "distinct ts" using d(1) by (rule lseg_distinct)
    then show "distinct (tt_freed (fold task_free ts ((k_table k)\<lparr>tt_all := None\<rparr>)))" using d(2,3,4) by (auto simp: free_fold)
    show "set (tt_freed (fold task_free ts ((k_table k)\<lparr>tt_all := None\<rparr>))) = {u. k_phase k u \<noteq> Unborn}"
      using d(2,3) by (auto simp: free_fold task_dead_def)
  qed
  ultimately show ?thesis using d(3)[of t] d(4) by (auto simp: task_dead_def)
qed

definition spawned_task :: task_sys where
  "spawned_task = \<lparr>k_table = spawn_link 5 (k_table (task_start (\<lambda>_. \<lparr>c_finished = False, c_refs = 0, c_released = False, c_next = None, c_cancel = False\<rparr>))),
     k_phase = (\<lambda>_. Unborn)(5 := Running)\<rparr>"

theorem task_freed_exactly_once_witness:
  "\<exists>tb. free_all_tasks (k_table spawned_task) = Some tb \<and> set (tt_freed tb) = {5}"
proof -
  let ?f = "\<lambda>_. \<lparr>c_finished = False, c_refs = 0, c_released = False, c_next = None, c_cancel = False\<rparr>"
  have "task_step\<^sup>*\<^sup>* (task_start ?f) spawned_task"
    using task_step.spawn[of "task_start ?f" 5] by (intro r_into_rtranclp) (simp add: spawned_task_def task_start_def)
  moreover have "{u. k_phase spawned_task u \<noteq> Unborn} = {5}" by (auto simp: spawned_task_def)
  ultimately show ?thesis using task_freed_exactly_once[of ?f spawned_task 5] by auto
qed


section \<open>Waiting for a task\<close>

text \<open>
  The completion of one task and the green threads that wait for it. \<open>w_wake\<close> are the waiters
  \<open>rt_task_done\<close> has copied and not yet unparked, \<open>w_unparked\<close> those it has unparked. A waiter is
  parked between the two sections of \<open>dlsm_gt_task_wait\<close>; \<open>dlsm_gt_park\<close> may return early, since an unpark from
  elsewhere may have come before.
\<close>

record completion =
  w_done :: bool
  w_waiters :: "addr list"

definition wait_register :: "addr \<Rightarrow> completion \<Rightarrow> dlsm_status option \<times> completion" where
  "wait_register u c = (if w_done c then (Some DLSM_OK, c) else (None, c\<lparr>w_waiters := u # w_waiters c\<rparr>))"

definition wait_result :: "addr \<Rightarrow> completion \<Rightarrow> dlsm_status \<times> completion" where
  "wait_result u c = (if w_done c then (DLSM_OK, c) else (DLSM_GT_E_CANCELLED, c\<lparr>w_waiters := remove1 u (w_waiters c)\<rparr>))"

text \<open>What \<open>dlsm_gt_task_wait\<close> refuses at once: no task, itself, a task of another runtime.\<close>

definition wait_refused :: "addr option \<Rightarrow> addr \<Rightarrow> (addr \<Rightarrow> addr) \<Rightarrow> dlsm_status option" where
  "wait_refused task self rt = (case task of
     None \<Rightarrow> Some DLSM_GT_E_INVAL
   | Some t \<Rightarrow> if self = t \<or> rt self \<noteq> rt t then Some DLSM_GT_E_STATE else None)"

text \<open>
  A thread that is no green thread waits on the condition, in a loop; \<open>ok\<close> says whether \<open>pthread_cond_wait\<close>
  succeeds. \<open>None\<close>: it waits.
\<close>

definition wait_external :: "bool \<Rightarrow> completion \<Rightarrow> dlsm_status option" where
  "wait_external ok c = (if w_done c then Some DLSM_OK else if \<not> ok then Some DLSM_GT_E_WAIT else None)"

text \<open>
  The section of \<open>rt_task_done\<close> under the mutex; \<open>mem\<close> says whether the array of waiters could be
  allocated. The answer is the waiters to unpark after the section, and those unparked inside it.
\<close>

definition complete_waiters :: "bool \<Rightarrow> completion \<Rightarrow> (addr list \<times> addr list) \<times> completion" where
  "complete_waiters mem c = (if mem then (w_waiters c, []) else ([], w_waiters c), c\<lparr>w_done := True, w_waiters := []\<rparr>)"

datatype wait_pc = W_outside | W_external | W_parked | W_returned dlsm_status

record wait_sys =
  u_completion :: completion
  u_pc :: "addr \<Rightarrow> wait_pc"
  u_wake :: "addr list"
  u_unparked :: "addr set"

inductive wait_step :: "wait_sys \<Rightarrow> wait_sys \<Rightarrow> bool" where
  enter: "u_pc s u = W_outside \<Longrightarrow> wait_register u (u_completion s) = (r, c) \<Longrightarrow>
    wait_step s (s\<lparr>u_completion := c, u_pc := (u_pc s)(u := (case r of None \<Rightarrow> W_parked | Some st \<Rightarrow> W_returned st))\<rparr>)"
| leave: "u_pc s u = W_parked \<Longrightarrow> wait_result u (u_completion s) = (st, c) \<Longrightarrow>
    wait_step s (s\<lparr>u_completion := c, u_pc := (u_pc s)(u := W_returned st)\<rparr>)"
| external: "u_pc s u = W_outside \<Longrightarrow> wait_step s (s\<lparr>u_pc := (u_pc s)(u := W_external)\<rparr>)"
| external_leave: "u_pc s u = W_external \<Longrightarrow> wait_external ok (u_completion s) = Some st \<Longrightarrow>
    wait_step s (s\<lparr>u_pc := (u_pc s)(u := W_returned st)\<rparr>)"
| complete: "\<not> w_done (u_completion s) \<Longrightarrow> complete_waiters mem (u_completion s) = ((later, now), c) \<Longrightarrow>
    wait_step s (s\<lparr>u_completion := c, u_wake := later, u_unparked := u_unparked s \<union> set now\<rparr>)"
| unpark: "u_wake s = u # rest \<Longrightarrow> wait_step s (s\<lparr>u_wake := rest, u_unparked := insert u (u_unparked s)\<rparr>)"

definition wait_start :: wait_sys where
  "wait_start = \<lparr>u_completion = \<lparr>w_done = False, w_waiters = []\<rparr>, u_pc = \<lambda>_. W_outside, u_wake = [], u_unparked = {}\<rparr>"

definition wait_inv :: "wait_sys \<Rightarrow> bool" where
  "wait_inv s \<longleftrightarrow> distinct (w_waiters (u_completion s)) \<and>
     (if w_done (u_completion s) then w_waiters (u_completion s) = [] \<and> (\<forall>u. u_pc s u = W_parked \<longrightarrow> u \<in> set (u_wake s) \<union> u_unparked s)
      else (\<forall>u. u \<in> set (w_waiters (u_completion s)) \<longleftrightarrow> u_pc s u = W_parked) \<and> (\<forall>u. u_pc s u \<noteq> W_returned DLSM_OK) \<and>
        u_wake s = [] \<and> u_unparked s = {})"

lemma wait_step_inv:
  assumes "wait_step s s'" and "wait_inv s"
  shows "wait_inv s'"
  using assms(1)
proof cases
  case (enter u r c)
  then show ?thesis using assms(2) by (auto simp: wait_inv_def wait_register_def split: if_splits)
next
  case (leave u st c)
  then show ?thesis using assms(2) by (auto simp: wait_inv_def wait_result_def split: if_splits)
next
  case (external u)
  then show ?thesis using assms(2) by (auto simp: wait_inv_def split: if_splits)
next
  case (external_leave u ok st)
  then show ?thesis using assms(2) by (auto simp: wait_inv_def wait_external_def split: if_splits)
next
  case (complete mem later now c)
  then show ?thesis using assms(2) by (auto simp: wait_inv_def complete_waiters_def split: if_splits)
next
  case (unpark u rest)
  then show ?thesis using assms(2) by (auto simp: wait_inv_def split: if_splits)
qed

lemma wait_inv_reachable: "wait_step\<^sup>*\<^sup>* wait_start s \<Longrightarrow> wait_inv s"
proof (induction rule: rtranclp_induct)
  case base
  show ?case by (simp add: wait_inv_def wait_start_def)
next
  case (step s s')
  then show ?case using wait_step_inv by blast
qed

text \<open>
  Claim C18. \<open>dlsm_gt_task_wait\<close> answers \<open>DLSM_OK\<close> only after the task has completed; a waiter whose wait was cut
  short is in the list no more, so that no node of a stack that is gone is ever visited; and no wake-up is
  lost: once the task has completed and \<open>rt_task_done\<close> has done its unparks, every waiter that is still
  parked has been unparked.
\<close>

theorem task_wait_exact:
  assumes "wait_step\<^sup>*\<^sup>* wait_start s"
  shows "(u_pc s u = W_returned DLSM_OK \<longrightarrow> w_done (u_completion s)) \<and>
    (u \<in> set (w_waiters (u_completion s)) \<longrightarrow> u_pc s u = W_parked) \<and>
    (w_done (u_completion s) \<longrightarrow> u_wake s = [] \<longrightarrow> u_pc s u = W_parked \<longrightarrow> u \<in> u_unparked s) \<and>
    (\<not> w_done (u_completion s) \<longrightarrow> u_pc s u = W_parked \<longrightarrow> u \<in> set (w_waiters (u_completion s)))"
  using wait_inv_reachable[OF assms] by (auto simp: wait_inv_def split: if_splits)

definition one_waiter :: wait_sys where
  "one_waiter = wait_start\<lparr>u_completion := \<lparr>w_done = False, w_waiters = [4]\<rparr>, u_pc := (u_pc wait_start)(4 := W_parked)\<rparr>"

lemma one_waiter_reachable: "wait_step\<^sup>*\<^sup>* wait_start one_waiter"
  using wait_step.enter[of wait_start 4 None "\<lparr>w_done = False, w_waiters = [4]\<rparr>"]
  by (intro r_into_rtranclp) (simp add: one_waiter_def wait_start_def wait_register_def)

theorem task_wait_exact_witness: "4 \<in> set (w_waiters (u_completion one_waiter)) \<and> u_pc one_waiter 4 = W_parked"
  using task_wait_exact[OF one_waiter_reachable, of 4] by (simp add: one_waiter_def)

text \<open>
  The unparks of \<open>rt_task_done\<close> come after it has released the mutex. A waiter that was woken from
  elsewhere in between finds the task completed and returns; \<open>rt_task_done\<close> unparks it all the same,
  when it may have finished and its control block may have been freed.
\<close>

theorem unpark_after_return:
  "\<exists>s. wait_step\<^sup>*\<^sup>* wait_start s \<and> u_wake s = [4] \<and> u_pc s 4 = W_returned DLSM_OK"
proof -
  define s1 where "s1 = one_waiter\<lparr>u_completion := \<lparr>w_done = True, w_waiters = []\<rparr>, u_wake := [4], u_unparked := u_unparked one_waiter \<union> set []\<rparr>"
  define s2 where "s2 = s1\<lparr>u_completion := u_completion s1, u_pc := (u_pc s1)(4 := W_returned DLSM_OK)\<rparr>"
  have 1: "wait_step one_waiter s1" unfolding s1_def
    by (rule wait_step.complete[of _ True]) (simp_all add: one_waiter_def complete_waiters_def)
  have 2: "wait_step s1 s2" unfolding s2_def
    by (rule wait_step.leave) (simp_all add: s1_def one_waiter_def wait_result_def)
  have "wait_step\<^sup>*\<^sup>* wait_start s2" using one_waiter_reachable 1 2 by (meson rtranclp.rtrancl_into_rtrancl)
  then show ?thesis by (intro exI[of _ s2]) (simp add: s2_def s1_def)
qed

end
