(* ===== verification/Gt_Ticker.thy ===== *)
theory Gt_Ticker
  imports Gt_Sleep
begin

text \<open>
  Sleeping and tickers (\<^verbatim>\<open>libs/greenthread/src/greenthread.c\<close>): the checks of \<open>dlsm_gt_sleep_until\<close> and
  \<open>dlsm_gt_sleep_for\<close>, the answer of \<open>sync_park_until_gt\<close>, and the periodic ticker. The sections of
  \<open>dlsm_gt_ticker_wait\<close> under \<open>mutex\<close> and its calls on the timers of \<open>Gt_Sleep\<close> are one step each, in every
  interleaving with resets, stops and what other threads do to the timers.
\<close>

section \<open>Sleeping\<close>

text \<open>
  The answer before a timer is armed, or \<open>None\<close> when one is needed. \<open>self\<close> says whether a green thread
  runs, \<open>cancelled\<close> whether it was cancelled, \<open>now\<close> is the clock, 0 when it cannot be read.
\<close>

definition sleep_until_check :: "bool \<Rightarrow> bool \<Rightarrow> u64 \<Rightarrow> u64 \<Rightarrow> dlsm_status option" where
  "sleep_until_check self cancelled now deadline =
     (if \<not> self then Some DLSM_GT_E_STATE
      else if cancelled then Some DLSM_GT_E_CANCELLED
      else if deadline = 0 then Some DLSM_GT_E_INVAL
      else if now = 0 then Some DLSM_GT_E_WAIT
      else if deadline \<le> now then Some DLSM_OK
      else None)"

text \<open>
  The part of \<open>dlsm_gt_sleep_until\<close> before \<open>dlsm_gt_park\<close>: the status of an early return, or the armed node, with
  the signal to the timer thread; \<open>timer_wait_finish\<close> follows when the park returns.
\<close>

definition dlsm_gt_sleep_until ::
  "addr option \<Rightarrow> bool \<Rightarrow> u64 \<Rightarrow> addr option \<Rightarrow> bool \<Rightarrow> u64 \<Rightarrow> timers \<Rightarrow> (dlsm_status + addr) \<times> bool \<times> timers" where
  "dlsm_gt_sleep_until self cancelled now ao mem deadline t = (case sleep_until_check (self \<noteq> None) cancelled now deadline of
     Some st \<Rightarrow> (Inl st, False, t)
   | None \<Rightarrow>
       (let (st, sig, t') = timer_wait_register ao mem (the self) deadline t in
        if st \<noteq> DLSM_OK then (Inl st, sig, t') else (Inr (the ao), sig, t')))"

text \<open>\<open>Inr\<close>: the deadline it sleeps until; \<open>poll\<close> is the answer of \<open>dlsm_gt_poll\<close>.\<close>

definition sleep_for_check :: "bool \<Rightarrow> dlsm_status \<Rightarrow> u64 \<Rightarrow> u64 \<Rightarrow> dlsm_status + u64" where
  "sleep_for_check self poll now duration =
     (if \<not> self then Inl DLSM_GT_E_STATE
      else if duration = 0 then Inl poll
      else if now = 0 then Inl DLSM_GT_E_WAIT
      else Inr (sat_add now duration))"

abbreviation SYNC_E_WAIT :: dlsm_status where "SYNC_E_WAIT \<equiv> 30003"
abbreviation SYNC_E_TIMEOUT :: dlsm_status where "SYNC_E_TIMEOUT \<equiv> 30006"
abbreviation SYNC_E_CANCELLED :: dlsm_status where "SYNC_E_CANCELLED \<equiv> 30007"

definition sync_park_until_gt :: "dlsm_status \<Rightarrow> bool \<Rightarrow> dlsm_status" where
  "sync_park_until_gt status cancelled =
     (if status = DLSM_OK then SYNC_E_TIMEOUT
      else if status = DLSM_GT_E_CANCELLED then (if cancelled then SYNC_E_CANCELLED else DLSM_OK)
      else SYNC_E_WAIT)"

section \<open>Tickers\<close>

record dlsm_gt_ticker =
  tk_waiter :: "addr option"
  tk_interval :: u64
  tk_next_deadline :: u64
  tk_generation :: u64
  tk_stopped :: bool

definition dlsm_gt_ticker_new :: "bool \<Rightarrow> bool \<Rightarrow> u64 \<Rightarrow> u64 \<Rightarrow> dlsm_gt_ticker option" where
  "dlsm_gt_ticker_new rt mem now interval =
     (if \<not> rt \<or> interval = 0 \<or> now = 0 \<or> \<not> mem then None
      else Some \<lparr>tk_waiter = None, tk_interval = interval, tk_next_deadline = sat_add now interval, tk_generation = 1, tk_stopped = False\<rparr>)"

text \<open>The sections of \<open>dlsm_gt_ticker_wait\<close>: entering, reading the deadline, looking whether it is stale, and the end of a turn.\<close>

definition ticker_enter :: "addr \<Rightarrow> dlsm_gt_ticker \<Rightarrow> dlsm_status option \<times> dlsm_gt_ticker" where
  "ticker_enter u k = (if tk_stopped k \<or> tk_waiter k \<noteq> None then (Some DLSM_GT_E_STATE, k) else (None, k\<lparr>tk_waiter := Some u\<rparr>))"

definition ticker_read :: "dlsm_gt_ticker \<Rightarrow> (u64 \<times> u64) option \<times> dlsm_gt_ticker" where
  "ticker_read k = (if tk_stopped k then (None, k\<lparr>tk_waiter := None\<rparr>) else (Some (tk_next_deadline k, tk_generation k), k))"

definition ticker_give_up :: "dlsm_gt_ticker \<Rightarrow> dlsm_gt_ticker" where
  "ticker_give_up k = k\<lparr>tk_waiter := None\<rparr>"

definition ticker_stale :: "u64 \<Rightarrow> dlsm_gt_ticker \<Rightarrow> bool" where
  "ticker_stale generation k \<longleftrightarrow> tk_stopped k \<or> tk_generation k \<noteq> generation"

definition tick_count :: "u64 \<Rightarrow> u64 \<Rightarrow> u64 \<Rightarrow> u64" where
  "tick_count now deadline interval = (if now > deadline then 1 + (now - deadline) div interval else 1)"

definition tick_advance :: "u64 \<Rightarrow> u64 \<Rightarrow> u64" where
  "tick_advance cnt interval = (if cnt > UINT64_MAX div interval then UINT64_MAX else cnt * interval)"

text \<open>\<open>None\<close>: another turn of the loop. Otherwise the status and the number of expirations.\<close>

definition ticker_conclude ::
  "dlsm_status \<Rightarrow> u64 \<Rightarrow> u64 \<Rightarrow> u64 \<Rightarrow> dlsm_gt_ticker \<Rightarrow> (dlsm_status \<times> u64) option \<times> dlsm_gt_ticker" where
  "ticker_conclude status now deadline generation k =
     (if tk_stopped k then (Some (DLSM_GT_E_CANCELLED, 0), k\<lparr>tk_waiter := None\<rparr>)
      else if tk_generation k \<noteq> generation then (None, k)
      else if status \<noteq> DLSM_OK then (Some (status, 0), k\<lparr>tk_waiter := None\<rparr>)
      else if now = 0 then (Some (DLSM_GT_E_WAIT, 0), k\<lparr>tk_waiter := None\<rparr>)
      else
        (let cnt = tick_count now deadline (tk_interval k); advance = tick_advance cnt (tk_interval k) in
         (Some (DLSM_OK, cnt), k\<lparr>tk_next_deadline := sat_add deadline advance, tk_waiter := None\<rparr>)))"

text \<open>
  \<open>timer_cancel_task_wait\<close> of the waiter, if any: the task it unparks, whether it signals the timer thread, and
  the timers.
\<close>

definition cancel_waiter :: "dlsm_gt_ticker \<Rightarrow> timers \<Rightarrow> addr option \<times> bool \<times> timers" where
  "cancel_waiter k t = (case tk_waiter k of
     None \<Rightarrow> (None, False, t)
   | Some u \<Rightarrow> (case timer_cancel_task_wait u t of (cancelled, sig, t') \<Rightarrow> (if cancelled then Some u else None, sig, t')))"

definition dlsm_gt_ticker_reset ::
  "u64 \<Rightarrow> u64 \<Rightarrow> dlsm_gt_ticker \<Rightarrow> timers \<Rightarrow> dlsm_status \<times> dlsm_gt_ticker \<times> addr option \<times> bool \<times> timers" where
  "dlsm_gt_ticker_reset now interval k t =
     (if interval = 0 then (DLSM_GT_E_INVAL, k, None, False, t)
      else if now = 0 then (DLSM_GT_E_WAIT, k, None, False, t)
      else if tk_stopped k then (DLSM_GT_E_STATE, k, None, False, t)
      else
        (let g = tk_generation k + 1;
             k' = k\<lparr>tk_interval := interval, tk_next_deadline := sat_add now interval, tk_generation := (if g = 0 then 1 else g)\<rparr> in
         (DLSM_OK, k', cancel_waiter k' t)))"

definition dlsm_gt_ticker_stop :: "dlsm_gt_ticker \<Rightarrow> timers \<Rightarrow> dlsm_status \<times> dlsm_gt_ticker \<times> addr option \<times> bool \<times> timers" where
  "dlsm_gt_ticker_stop k t = (let k' = k\<lparr>tk_stopped := True\<rparr> in (DLSM_OK, k', cancel_waiter k' t))"

text \<open>\<open>None\<close> for the ticker once it is released.\<close>

definition dlsm_gt_ticker_free ::
  "dlsm_gt_ticker \<Rightarrow> timers \<Rightarrow> dlsm_status \<times> dlsm_gt_ticker option \<times> addr option \<times> bool \<times> timers" where
  "dlsm_gt_ticker_free k t =
     (if tk_waiter k \<noteq> None then (let k' = k\<lparr>tk_stopped := True\<rparr> in (DLSM_GT_E_STATE, Some k', cancel_waiter k' t))
      else (DLSM_OK, None, None, False, t))"

section \<open>Arithmetic of the ticks\<close>

lemma tick_count_unat:
  assumes "interval \<noteq> 0" and "deadline \<noteq> 0" and "deadline \<le> now"
  shows "unat (tick_count now deadline interval) = Suc ((unat now - unat deadline) div unat interval)"
proof -
  have le: "unat deadline \<le> unat now" using assms(3) by (simp add: word_le_nat_alt)
  have d: "unat deadline > 0" using assms(2) by (simp add: unat_gt_0)
  have now: "unat now < 2 ^ 64" by (rule u64_add_overflow_less)
  show ?thesis
  proof (cases "now > deadline")
    case True
    have q: "unat ((now - deadline) div interval) = (unat now - unat deadline) div unat interval"
      using assms(3) by (simp add: unat_div unat_sub)
    also have "\<dots> \<le> unat now - unat deadline" by (rule div_le_dividend)
    finally have "unat (1 :: u64) + unat ((now - deadline) div interval) < 2 ^ 64" using now d le by simp
    then show ?thesis using True q by (simp add: tick_count_def unat_add_no_overflow)
  next
    case False
    then have "now = deadline" using assms(3) by simp
    then show ?thesis by (simp add: tick_count_def)
  qed
qed

lemma tick_advance_unat:
  assumes "interval \<noteq> 0"
  shows "unat (tick_advance cnt interval) = min (2 ^ 64 - 1) (unat cnt * unat interval)"
proof -
  have i: "unat interval > 0" using assms by (simp add: unat_gt_0)
  have q: "unat (UINT64_MAX div interval) = (2 ^ 64 - 1) div unat interval" by (simp add: unat_div)
  show ?thesis
  proof (cases "cnt > UINT64_MAX div interval")
    case True
    then have "(2 ^ 64 - 1) div unat interval < unat cnt" using q by (simp add: word_less_nat_alt)
    then have "2 ^ 64 - 1 < unat cnt * unat interval" using i by (simp add: div_less_iff_less_mult)
    then show ?thesis using True by (simp add: tick_advance_def min_def)
  next
    case False
    then have "unat cnt \<le> (2 ^ 64 - 1) div unat interval" using q by (simp add: word_less_nat_alt not_less)
    then have "unat cnt * unat interval \<le> 2 ^ 64 - 1" using i by (simp add: less_eq_div_iff_mult_less_eq)
    then show ?thesis using False by (simp add: tick_advance_def unat_word_ariths min_def)
  qed
qed

text \<open>
  A tick is exact and does not drift: a wait that ends at or after its deadline reports how many
  deadlines have passed, deadline included, and the next deadline is that many intervals later, which
  is in the future, or the largest representable time.
\<close>

theorem ticker_tick_exact:
  assumes "\<not> tk_stopped k" and "tk_generation k = g" and "tk_interval k \<noteq> 0" and "deadline \<noteq> 0" and "deadline \<le> now"
  shows "case ticker_conclude DLSM_OK now deadline g k of (res, k') \<Rightarrow> \<exists>n. res = Some (DLSM_OK, n) \<and>
    unat n = card {j. unat deadline + j * unat (tk_interval k) \<le> unat now} \<and>
    unat (tk_next_deadline k') = min (2 ^ 64 - 1) (unat deadline + unat n * unat (tk_interval k)) \<and>
    (now < tk_next_deadline k' \<or> tk_next_deadline k' = UINT64_MAX) \<and> tk_waiter k' = None"
proof -
  let ?i = "unat (tk_interval k)" and ?n = "tick_count now deadline (tk_interval k)"
  let ?next = "sat_add deadline (tick_advance ?n (tk_interval k))"
  have i: "?i > 0" using assms(3) by (simp add: unat_gt_0)
  have le: "unat deadline \<le> unat now" using assms(5) by (simp add: word_le_nat_alt)
  have now0: "now \<noteq> 0" using assms(4,5) by auto
  have n: "unat ?n = Suc ((unat now - unat deadline) div ?i)" using assms(3-5) by (rule tick_count_unat)
  have "{j. unat deadline + j * ?i \<le> unat now} = {..(unat now - unat deadline) div ?i}"
    using i le by (auto simp: less_eq_div_iff_mult_less_eq)
  then have card: "unat ?n = card {j. unat deadline + j * ?i \<le> unat now}" by (simp add: n)
  have nx: "unat ?next = min (2 ^ 64 - 1) (unat deadline + unat ?n * ?i)"
    using u64_add_overflow_less[of deadline] by (simp add: unat_sat_add tick_advance_unat[OF assms(3)])
  have "unat now - unat deadline < unat ?n * ?i" using i unfolding n by (metis dividend_less_div_times mult.commute mult_Suc)
  then have "unat now < unat deadline + unat ?n * ?i" using le by linarith
  then have "now < ?next \<or> ?next = UINT64_MAX"
    using nx u64_add_overflow_less[of now] by (auto simp: word_less_nat_alt min_def word_unat_eq_iff split: if_splits)
  then show ?thesis using assms(1,2) now0 card nx by (simp add: ticker_conclude_def Let_def)
qed

definition late_ticker :: dlsm_gt_ticker where
  "late_ticker = \<lparr>tk_waiter = Some 3, tk_interval = 10, tk_next_deadline = 100, tk_generation = 1, tk_stopped = False\<rparr>"

theorem ticker_tick_exact_witness:
  "\<exists>k'. ticker_conclude DLSM_OK 125 100 1 late_ticker = (Some (DLSM_OK, 3), k') \<and> unat (tk_next_deadline k') = 130"
proof -
  have "{j. unat (100 :: u64) + j * unat (tk_interval late_ticker) \<le> unat (125 :: u64)} = {..2}" by (auto simp: late_ticker_def)
  then have c: "card {j. unat (100 :: u64) + j * unat (tk_interval late_ticker) \<le> unat (125 :: u64)} = 3" by simp
  obtain res k' where r: "ticker_conclude DLSM_OK 125 100 1 late_ticker = (res, k')" by force
  have "\<exists>n. res = Some (DLSM_OK, n) \<and> unat n = 3 \<and> unat (tk_next_deadline k') = min (2 ^ 64 - 1) (100 + unat n * 10)"
    using ticker_tick_exact[of late_ticker 1 100 125] r unfolding c by (auto simp: late_ticker_def)
  then obtain n where n: "res = Some (DLSM_OK, n)" "unat n = 3" "unat (tk_next_deadline k') = 130" by auto
  have "n = 3" using n(2) by (simp add: word_unat_eq_iff)
  then show ?thesis using r n by blast
qed

section \<open>Cancelling a wait keeps it registered\<close>

lemma swap_wait: "tm_wait (timer_heap_swap i j t) = tm_wait t"
  by (simp add: timer_heap_swap_def set_index_def Let_def)

lemma up_wait: "tm_wait (timer_heap_up i t) = tm_wait t"
  by (induction i t rule: timer_heap_up.induct) (subst timer_heap_up.simps, simp add: Let_def swap_wait)

lemma down_wait: "tm_wait (timer_heap_down i t) = tm_wait t"
  by (induction i t rule: timer_heap_down.induct) (subst timer_heap_down.simps, simp add: Let_def swap_wait)

lemma remove_wait: "tm_wait (snd (timer_heap_remove i t)) = tm_wait t"
  by (auto simp: timer_heap_remove_def set_index_def Let_def up_wait down_wait split: option.splits if_splits)

lemma cancelled_node:
  "tn_state (tm_node (timer_cancel_node a t) a) = TIMER_CANCELLED" "tm_wait (timer_cancel_node a t) = tm_wait t"
  by (simp_all add: timer_cancel_node_def set_state_def Let_def remove_wait)

lemma cancel_task_wait:
  assumes "timer_cancel_task_wait u t = (c, sig, t')" and "tm_wait t u = Some a"
  shows "tm_wait t' = tm_wait t" and "tn_state (tm_node t' a) \<noteq> TIMER_WAITING" and "c \<longleftrightarrow> tn_state (tm_node t a) = TIMER_WAITING"
  using assms by (auto simp: timer_cancel_task_wait_def cancelled_node split: if_splits)

lemma cancel_waiter:
  assumes "cancel_waiter k t = (out, sig, t')" and "tk_waiter k = Some u" and "tm_wait t u = Some a"
  shows "tm_wait t' = tm_wait t" and "tn_state (tm_node t' a) \<noteq> TIMER_WAITING"
    and "out = (if tn_state (tm_node t a) = TIMER_WAITING then Some u else None)"
proof -
  obtain c s' x where c: "timer_cancel_task_wait u t = (c, s', x)" by (cases "timer_cancel_task_wait u t")
  then have e: "out = (if c then Some u else None)" "t' = x" using assms(1,2) by (auto simp: cancel_waiter_def)
  note r = cancel_task_wait [OF c assms(3)]
  show "tm_wait t' = tm_wait t" "tn_state (tm_node t' a) \<noteq> TIMER_WAITING"
    "out = (if tn_state (tm_node t a) = TIMER_WAITING then Some u else None)" unfolding e using r by simp_all
qed

lemma register_wait: "timer_wait_register (Some a) mem u d t = (DLSM_OK, sig, t') \<Longrightarrow> tm_wait t' u = Some a"
  by (auto simp: timer_wait_register_def Let_def split: if_splits option.splits)

section \<open>Waits, resets and stops\<close>

text \<open>
  Where a task stands in \<open>dlsm_gt_ticker_wait\<close>, with the deadline and generation it read and its node. The park of
  a task may return at any time: unpark tokens are the subject of \<open>Gt_System\<close>.
\<close>

datatype ticker_pc = K_outside | K_loop | K_read u64 u64 | K_failed dlsm_status | K_armed u64 u64 addr | K_parked u64 u64 addr
  | K_woken u64 u64 addr | K_finished dlsm_status u64 u64 | K_returned dlsm_status

record ticker_sys =
  q_ticker :: dlsm_gt_ticker
  q_timers :: timers
  q_pc :: "addr \<Rightarrow> ticker_pc"

text \<open>
  What the timer thread and the waits of other tasks may do to the timers meanwhile: a task stays registered until it
  finishes its own wait, and a node that has left the heap does not return.
\<close>

definition others :: "timers \<Rightarrow> timers \<Rightarrow> addr \<Rightarrow> bool" where
  "others t t' u \<longleftrightarrow> tm_wait t' u = tm_wait t u \<and>
     (\<forall>a. tm_wait t u = Some a \<longrightarrow> tn_state (tm_node t a) \<noteq> TIMER_WAITING \<longrightarrow> tn_state (tm_node t' a) \<noteq> TIMER_WAITING)"

abbreviation at :: "ticker_sys \<Rightarrow> addr \<Rightarrow> ticker_pc \<Rightarrow> ticker_sys" where
  "at s u pc \<equiv> s\<lparr>q_pc := (q_pc s)(u := pc)\<rparr>"

inductive ticker_step :: "ticker_sys \<Rightarrow> ticker_sys \<Rightarrow> bool" where
  enter: "q_pc s u = K_outside \<Longrightarrow> ticker_enter u (q_ticker s) = (r, k) \<Longrightarrow>
    ticker_step s (at (s\<lparr>q_ticker := k\<rparr>) u (case r of None \<Rightarrow> K_loop | Some st \<Rightarrow> K_returned st))"
| read: "q_pc s u = K_loop \<Longrightarrow> ticker_read (q_ticker s) = (r, k) \<Longrightarrow>
    ticker_step s (at (s\<lparr>q_ticker := k\<rparr>) u (case r of None \<Rightarrow> K_returned DLSM_GT_E_CANCELLED | Some (d, g) \<Rightarrow> K_read d g))"
| arm: "q_pc s u = K_read d g \<Longrightarrow> timer_wait_register (Some a) mem u d (q_timers s) = (DLSM_OK, sig, t) \<Longrightarrow>
    ticker_step s (at (s\<lparr>q_timers := t\<rparr>) u (K_armed d g a))"
| arm_fails: "q_pc s u = K_read d g \<Longrightarrow> timer_wait_register ao mem u d (q_timers s) = (st, sig, t) \<Longrightarrow> st \<noteq> DLSM_OK \<Longrightarrow>
    ticker_step s (at (s\<lparr>q_timers := t\<rparr>) u (K_failed st))"
| fail: "q_pc s u = K_failed st \<Longrightarrow> ticker_step s (at (s\<lparr>q_ticker := ticker_give_up (q_ticker s)\<rparr>) u (K_returned st))"
| park: "q_pc s u = K_armed d g a \<Longrightarrow> \<not> ticker_stale g (q_ticker s) \<Longrightarrow> ticker_step s (at s u (K_parked d g a))"
| retract: "q_pc s u = K_armed d g a \<Longrightarrow> ticker_stale g (q_ticker s) \<Longrightarrow> timer_cancel_task_wait u (q_timers s) = (c, sig, t) \<Longrightarrow>
    ticker_step s (at (s\<lparr>q_timers := t\<rparr>) u (K_woken d g a))"
| wake: "q_pc s u = K_parked d g a \<Longrightarrow> ticker_step s (at s u (K_woken d g a))"
| finish: "q_pc s u = K_woken d g a \<Longrightarrow> timer_wait_finish now u a (q_timers s) = (st, sig, t) \<Longrightarrow>
    ticker_step s (at (s\<lparr>q_timers := t\<rparr>) u (K_finished st d g))"
| conclude: "q_pc s u = K_finished st d g \<Longrightarrow> ticker_conclude st now d g (q_ticker s) = (r, k) \<Longrightarrow>
    ticker_step s (at (s\<lparr>q_ticker := k\<rparr>) u (case r of None \<Rightarrow> K_loop | Some (res, n) \<Rightarrow> K_returned res))"
| again: "q_pc s u = K_returned st \<Longrightarrow> ticker_step s (at s u K_outside)"
| reset: "dlsm_gt_ticker_reset now interval (q_ticker s) (q_timers s) = (st, k, out, sig, t) \<Longrightarrow>
    ticker_step s (s\<lparr>q_ticker := k, q_timers := t\<rparr>)"
| stop: "dlsm_gt_ticker_stop (q_ticker s) (q_timers s) = (st, k, out, sig, t) \<Longrightarrow>
    ticker_step s (s\<lparr>q_ticker := k, q_timers := t\<rparr>)"
| free_refused: "dlsm_gt_ticker_free (q_ticker s) (q_timers s) = (st, Some k, out, sig, t) \<Longrightarrow>
    ticker_step s (s\<lparr>q_ticker := k, q_timers := t\<rparr>)"
| environment: "(\<And>u. tk_waiter (q_ticker s) = Some u \<Longrightarrow> others (q_timers s) t u) \<Longrightarrow> ticker_step s (s\<lparr>q_timers := t\<rparr>)"

fun inside :: "ticker_pc \<Rightarrow> bool" where
  "inside K_outside = False"
| "inside (K_returned st) = False"
| "inside _ = True"

fun pc_read :: "ticker_pc \<Rightarrow> (u64 \<times> u64) option" where
  "pc_read (K_read d g) = Some (d, g)"
| "pc_read (K_armed d g a) = Some (d, g)"
| "pc_read (K_parked d g a) = Some (d, g)"
| "pc_read (K_woken d g a) = Some (d, g)"
| "pc_read (K_finished st d g) = Some (d, g)"
| "pc_read _ = None"

fun pc_node :: "ticker_pc \<Rightarrow> addr option" where
  "pc_node (K_armed d g a) = Some a"
| "pc_node (K_parked d g a) = Some a"
| "pc_node (K_woken d g a) = Some a"
| "pc_node _ = None"

text \<open>The waiter is the only task inside; \<open>n\<close> bounds the generation, which wraps after \<open>2 ^ 64\<close> resets.\<close>

definition ticker_inv :: "nat \<Rightarrow> dlsm_gt_ticker \<Rightarrow> (addr \<Rightarrow> ticker_pc) \<Rightarrow> bool" where
  "ticker_inv n k pc \<longleftrightarrow> (\<forall>u. tk_waiter k = Some u \<longleftrightarrow> inside (pc u)) \<and>
     tk_interval k \<noteq> 0 \<and> tk_next_deadline k \<noteq> 0 \<and> unat (tk_generation k) \<le> Suc n \<and>
     (\<forall>u d g. pc_read (pc u) = Some (d, g) \<longrightarrow> d \<noteq> 0 \<and> unat g \<le> unat (tk_generation k) \<and> (g = tk_generation k \<longrightarrow> d = tk_next_deadline k))"

text \<open>Its node is registered, and out of the heap once the ticker was stopped or reset under a parked waiter.\<close>

definition node_inv :: "dlsm_gt_ticker \<Rightarrow> timers \<Rightarrow> (addr \<Rightarrow> ticker_pc) \<Rightarrow> bool" where
  "node_inv k t pc \<longleftrightarrow> (\<forall>u a. pc_node (pc u) = Some a \<longrightarrow> tm_wait t u = Some a) \<and>
     (\<forall>u d g a. pc u = K_parked d g a \<longrightarrow> ticker_stale g k \<longrightarrow> tn_state (tm_node t a) \<noteq> TIMER_WAITING)"


lemma sat_add_nonzero: "a \<noteq> 0 \<Longrightarrow> sat_add a b \<noteq> 0"
  using sat_add_ge [of a b] by auto

lemma generation_next:
  assumes "unat g \<le> Suc n" and "n < 2 ^ 64 - 3"
  shows "unat (if g + 1 = 0 then 1 else g + 1 :: u64) = Suc (unat g)"
proof -
  have u: "unat (g + 1) = Suc (unat g)" using assms by (intro unat_succ) (auto simp: word_unat_eq_iff)
  then have "g + 1 \<noteq> 0" by (metis nat.distinct(1) unat_0)
  then show ?thesis using u by simp
qed

lemma ticker_inv_mono: "ticker_inv n k pc \<Longrightarrow> ticker_inv (Suc n) k pc"
  by (auto simp: ticker_inv_def)

lemma ticker_only: "ticker_inv n k pc \<Longrightarrow> inside (pc u) \<Longrightarrow> w \<noteq> u \<Longrightarrow> \<not> inside (pc w)"
  unfolding ticker_inv_def by (metis option.inject)

lemma read_inside: "pc_read p = Some x \<Longrightarrow> inside p" by (cases p) auto
lemma node_inside: "pc_node p = Some a \<Longrightarrow> inside p" by (cases p) auto

lemma outside_read: "\<not> inside p \<Longrightarrow> pc_read p = None" by (cases p) auto
lemma outside_node: "\<not> inside p \<Longrightarrow> pc_node p = None" by (cases p) auto

text \<open>The waiter moves on, inside or out; the ticker keeps its deadline and generation, or takes its new deadline.\<close>

lemma ticker_inv_move:
  assumes inv: "ticker_inv n k pc" and u: "inside (pc u)" and w: "tk_waiter k' = (if inside p then Some u else None)"
    and r: "pc_read p = None \<or> pc_read p = pc_read (pc u) \<or> pc_read p = Some (tk_next_deadline k, tk_generation k)"
    and f: "tk_interval k' = tk_interval k" "tk_generation k' = tk_generation k" "tk_next_deadline k' \<noteq> 0"
    and d: "tk_next_deadline k' = tk_next_deadline k \<or> pc_read p = None"
  shows "ticker_inv (Suc n) k' (pc(u := p))"
proof -
  have o: "w \<noteq> u \<Longrightarrow> \<not> inside (pc w)" for w using ticker_only [OF inv u] .
  have "tk_waiter k' = Some x \<longleftrightarrow> inside ((pc(u := p)) x)" for x using o [of x] w by auto
  moreover have "e \<noteq> 0 \<and> unat g \<le> unat (tk_generation k') \<and> (g = tk_generation k' \<longrightarrow> e = tk_next_deadline k')"
    if "pc_read ((pc(u := p)) x) = Some (e, g)" for x e g
  proof -
    have x: "x = u" using that o [of x] outside_read [of "pc x"] by (auto split: if_splits)
    then have rd: "pc_read p = Some (e, g)" using that by simp
    then have "pc_read (pc u) = Some (e, g) \<or> (e, g) = (tk_next_deadline k, tk_generation k)" using r by auto
    moreover have "tk_next_deadline k' = tk_next_deadline k" using d rd by simp
    ultimately show ?thesis using inv f by (auto simp: ticker_inv_def)
  qed
  ultimately show ?thesis using inv f unfolding ticker_inv_def by auto
qed

lemma node_inv_move:
  assumes inv: "ticker_inv n k pc" and nd: "node_inv k t pc" and u: "inside (pc u)"
    and a: "\<And>a. pc_node p = Some a \<Longrightarrow> tm_wait t' u = Some a"
    and p: "\<And>d g a. p = K_parked d g a \<Longrightarrow> \<not> ticker_stale g k'"
  shows "node_inv k' t' (pc(u := p))"
proof -
  have o: "w \<noteq> u \<Longrightarrow> \<not> inside (pc w)" for w using ticker_only [OF inv u] .
  then have "w \<noteq> u \<Longrightarrow> pc_node (pc w) = None \<and> (\<forall>d g a. pc w \<noteq> K_parked d g a)" for w using outside_node by fastforce
  then show ?thesis using a p by (auto simp: node_inv_def)
qed

text \<open>A task that is not inside moves outside: nothing changes.\<close>

lemma inv_outside:
  assumes inv: "ticker_inv n k pc" and nd: "node_inv k t pc" and u: "\<not> inside (pc u)" and p: "\<not> inside p"
  shows "ticker_inv (Suc n) k (pc(u := p))" and "node_inv k t (pc(u := p))"
proof -
  have "pc_read p = None" "pc_node p = None" "\<And>d g a. p \<noteq> K_parked d g a" using p outside_read outside_node by auto
  then show "ticker_inv (Suc n) k (pc(u := p))" "node_inv k t (pc(u := p))"
    using inv nd u p by (auto simp: ticker_inv_def node_inv_def)
qed


text \<open>Whoever changes the ticker under its waiter cancels the waiter's timer in the same section.\<close>

lemma node_inv_cancel:
  assumes inv: "ticker_inv n k pc" and nd: "node_inv k t pc" and w: "tk_waiter k' = tk_waiter k"
    and c: "cancel_waiter k' t = (out, sig, t')"
  shows "node_inv k' t' pc"
proof -
  have key: "tm_wait t' u = Some a \<and> tn_state (tm_node t' a) \<noteq> TIMER_WAITING" if "pc_node (pc u) = Some a" for u a
  proof -
    have "tk_waiter k' = Some u" using inv node_inside [OF that] w by (simp add: ticker_inv_def)
    moreover have tw: "tm_wait t u = Some a" using nd that by (simp add: node_inv_def)
    ultimately show ?thesis using cancel_waiter [OF c] by metis
  qed
  then show ?thesis unfolding node_inv_def using pc_node.simps(2) by metis
qed

lemma ticker_inv_stop: "ticker_inv n k pc \<Longrightarrow> ticker_inv (Suc n) (k\<lparr>tk_stopped := b\<rparr>) pc"
  by (auto simp: ticker_inv_def)

lemma ticker_inv_reset:
  assumes inv: "ticker_inv n k pc" and n: "n < 2 ^ 64 - 3" and iv: "interval \<noteq> 0" and now: "now \<noteq> 0"
    and k': "k' = k\<lparr>tk_interval := interval, tk_next_deadline := sat_add now interval,
      tk_generation := (if tk_generation k + 1 = 0 then 1 else tk_generation k + 1)\<rparr>"
  shows "ticker_inv (Suc n) k' pc"
proof -
  have g: "unat (tk_generation k') = Suc (unat (tk_generation k))"
    using generation_next [of "tk_generation k" n] inv n k' by (simp add: ticker_inv_def)
  have old: "d \<noteq> 0 \<and> unat h < unat (tk_generation k')" if "pc_read (pc u) = Some (d, h)" for u d h
    using that inv g by (auto simp: ticker_inv_def intro: le_imp_less_Suc)
  then have "d \<noteq> 0 \<and> unat h \<le> unat (tk_generation k') \<and> h \<noteq> tk_generation k'" if "pc_read (pc u) = Some (d, h)" for u d h
    using that by (auto dest: old)
  moreover have w: "tk_waiter k' = tk_waiter k" "tk_interval k' = interval" "tk_next_deadline k' = sat_add now interval" by (simp_all add: k')
  ultimately show ?thesis unfolding ticker_inv_def w using inv iv g sat_add_nonzero [OF now, of interval] by (auto simp: ticker_inv_def)
qed

lemma node_inv_others:
  assumes inv: "ticker_inv n k pc" and nd: "node_inv k t pc" and o: "\<And>u. tk_waiter k = Some u \<Longrightarrow> others t t' u"
  shows "node_inv k t' pc"
proof -
  have "others t t' u" if "pc_node (pc u) = Some a" for u a
    using o inv node_inside [OF that] by (simp add: ticker_inv_def)
  moreover have "pc_node (K_parked d g a) = Some a" for d g a by simp
  ultimately show ?thesis using nd unfolding node_inv_def others_def by metis
qed

lemma waiter_moves:
  assumes inv: "ticker_inv n (q_ticker s) (q_pc s)" and nd: "node_inv (q_ticker s) (q_timers s) (q_pc s)" and u: "inside (q_pc s u)"
    and s': "q_pc s' = (q_pc s)(u := p)"
    and w: "tk_waiter (q_ticker s') = (if inside p then Some u else None)"
    and r: "pc_read p = None \<or> pc_read p = pc_read (q_pc s u) \<or> pc_read p = Some (tk_next_deadline (q_ticker s), tk_generation (q_ticker s))"
    and f: "tk_interval (q_ticker s') = tk_interval (q_ticker s)" "tk_generation (q_ticker s') = tk_generation (q_ticker s)"
      "tk_next_deadline (q_ticker s') \<noteq> 0"
    and d: "tk_next_deadline (q_ticker s') = tk_next_deadline (q_ticker s) \<or> pc_read p = None"
    and a: "\<And>a. pc_node p = Some a \<Longrightarrow> tm_wait (q_timers s') u = Some a"
    and pk: "\<And>d g a. p = K_parked d g a \<Longrightarrow> \<not> ticker_stale g (q_ticker s')"
  shows "ticker_inv (Suc n) (q_ticker s') (q_pc s') \<and> node_inv (q_ticker s') (q_timers s') (q_pc s')"
  unfolding s'
proof
  show "ticker_inv (Suc n) (q_ticker s') ((q_pc s)(u := p))" by (rule ticker_inv_move [OF inv u w r f d])
  show "node_inv (q_ticker s') (q_timers s') ((q_pc s)(u := p))" by (rule node_inv_move [OF inv nd u]) (use a pk in auto)
qed

lemma waiter_facts:
  assumes "ticker_inv n k pc" and "inside (pc u)"
  shows "tk_waiter k = Some u" and "tk_next_deadline k \<noteq> 0" and "pc_read (pc u) = Some (d, g) \<Longrightarrow> d \<noteq> 0"
  using assms by (auto simp: ticker_inv_def)

lemma ticker_step_inv:
  assumes "ticker_step s s'" and inv: "ticker_inv n (q_ticker s) (q_pc s)" and nd: "node_inv (q_ticker s) (q_timers s) (q_pc s)"
    and n: "n < 2 ^ 64 - 3"
  shows "ticker_inv (Suc n) (q_ticker s') (q_pc s') \<and> node_inv (q_ticker s') (q_timers s') (q_pc s')"
  using assms(1)
proof cases
  case (enter u r k)
  show ?thesis
  proof (cases r)
    case None
    then have k: "k = (q_ticker s)\<lparr>tk_waiter := Some u\<rparr>" and w: "tk_waiter (q_ticker s) = None" using enter by (auto simp: ticker_enter_def split: if_splits)
    then have "\<not> inside (q_pc s x)" for x using inv by (simp add: ticker_inv_def)
    then have p: "\<not> inside (q_pc s x)" "pc_read (q_pc s x) = None" "pc_node (q_pc s x) = None" for x
      using outside_read outside_node by simp_all
    have "q_pc s x \<noteq> K_parked d g a" for x d g a using p(1) [of x] by (cases "q_pc s x") auto
    note p = p this
    show ?thesis using inv enter k None p by (auto simp: ticker_inv_def node_inv_def)
  next
    case (Some st)
    then show ?thesis using inv_outside [OF inv nd, of u "K_returned st"] enter by (auto simp: ticker_enter_def split: if_splits)
  qed
next
  case (read u r k)
  have u: "inside (q_pc s u)" using read(2) by simp
  note w = waiter_facts [OF inv u]
  show ?thesis
    by (rule waiter_moves [OF inv nd u, where p = "case r of None \<Rightarrow> K_returned DLSM_GT_E_CANCELLED | Some (d, g) \<Rightarrow> K_read d g"])
      (use read w in \<open>auto simp: ticker_read_def split: if_splits\<close>)
next
  case (arm u d g a mem sig t)
  have u: "inside (q_pc s u)" using arm(2) by simp
  note w = waiter_facts [OF inv u]
  show ?thesis
    by (rule waiter_moves [OF inv nd u, where p = "K_armed d g a"]) (use arm w register_wait [OF arm(3)] in \<open>auto\<close>)
next
  case (arm_fails u d g ao mem st sig t)
  have u: "inside (q_pc s u)" using arm_fails(2) by simp
  note w = waiter_facts [OF inv u]
  show ?thesis
    by (rule waiter_moves [OF inv nd u, where p = "K_failed st"]) (use arm_fails w  in \<open>auto\<close>)
next
  case (fail u st)
  have u: "inside (q_pc s u)" using fail(2) by simp
  note w = waiter_facts [OF inv u]
  show ?thesis
    by (rule waiter_moves [OF inv nd u, where p = "K_returned st"]) (use fail w  in \<open>auto simp: ticker_give_up_def\<close>)
next
  case (park u d g a)
  have u: "inside (q_pc s u)" using park(2) by simp
  note w = waiter_facts [OF inv u]
  show ?thesis
    by (rule waiter_moves [OF inv nd u, where p = "K_parked d g a"]) (use park w nd in \<open>auto simp: node_inv_def\<close>)
next
  case (retract u d g a c sig t)
  have u: "inside (q_pc s u)" using retract(2) by simp
  have t: "tm_wait (q_timers s) u = Some a" using nd retract(2) by (simp add: node_inv_def)
  note w = waiter_facts [OF inv u]
  show ?thesis
    by (rule waiter_moves [OF inv nd u, where p = "K_woken d g a"]) (use retract w t cancel_task_wait [OF retract(4) t] in auto)
next
  case (wake u d g a)
  have u: "inside (q_pc s u)" using wake(2) by simp
  note w = waiter_facts [OF inv u]
  show ?thesis
    by (rule waiter_moves [OF inv nd u, where p = "K_woken d g a"]) (use wake w nd in \<open>auto simp: node_inv_def\<close>)
next
  case (finish u d g a now st sig t)
  have u: "inside (q_pc s u)" using finish(2) by simp
  note w = waiter_facts [OF inv u]
  show ?thesis
    by (rule waiter_moves [OF inv nd u, where p = "K_finished st d g"]) (use finish w  in \<open>auto\<close>)
next
  case (conclude u st d g now r k)
  have u: "inside (q_pc s u)" using conclude(2) by simp
  note w = waiter_facts [OF inv u]
  have d: "sat_add d x \<noteq> 0" for x using w(3) [of d g] conclude(2) by (intro sat_add_nonzero) simp
  show ?thesis
    by (rule waiter_moves [OF inv nd u, where p = "case r of None \<Rightarrow> K_loop | Some (res, n) \<Rightarrow> K_returned res"])
      (use conclude w d in \<open>auto simp: ticker_conclude_def Let_def split: if_splits\<close>)
next
  case (again u st)
  then show ?thesis using inv_outside [OF inv nd, of u K_outside] by simp
next
  case (reset now interval st k out sig t)
  show ?thesis
  proof (cases "st = DLSM_OK")
    case False
    then show ?thesis using reset ticker_inv_mono [OF inv] nd by (auto simp: dlsm_gt_ticker_reset_def Let_def split: if_splits)
  next
    case True
    then show ?thesis using reset ticker_inv_reset [OF inv n, of interval now k] node_inv_cancel [OF inv nd, of k out sig t]
      by (auto simp: dlsm_gt_ticker_reset_def Let_def split: if_splits)
  qed
next
  case (stop st k out sig t)
  then show ?thesis using ticker_inv_stop [OF inv, of True] node_inv_cancel [OF inv nd, of k out sig t]
    by (auto simp: dlsm_gt_ticker_stop_def Let_def)
next
  case (free_refused st k out sig t)
  then show ?thesis using ticker_inv_stop [OF inv, of True] node_inv_cancel [OF inv nd, of k out sig t]
    by (auto simp: dlsm_gt_ticker_free_def Let_def split: if_splits)
next
  case (environment t)
  then show ?thesis using ticker_inv_mono [OF inv] node_inv_others [OF inv nd, of t] by auto
qed


inductive ticker_trace :: "ticker_sys \<Rightarrow> nat \<Rightarrow> ticker_sys \<Rightarrow> bool" for s0 where
  nil: "ticker_trace s0 0 s0"
| step: "ticker_trace s0 n s \<Longrightarrow> ticker_step s s' \<Longrightarrow> ticker_trace s0 (Suc n) s'"

definition ticker_start :: "dlsm_gt_ticker \<Rightarrow> timers \<Rightarrow> ticker_sys" where
  "ticker_start k t = \<lparr>q_ticker = k, q_timers = t, q_pc = \<lambda>_. K_outside\<rparr>"

lemma ticker_trace_inv:
  assumes new: "dlsm_gt_ticker_new rt mem now interval = Some k" and "ticker_trace (ticker_start k t) n s" and "n < 2 ^ 64 - 3"
  shows "ticker_inv n (q_ticker s) (q_pc s) \<and> node_inv (q_ticker s) (q_timers s) (q_pc s)"
  using assms(2,3)
proof (induction rule: ticker_trace.induct)
  case nil
  show ?case using new sat_add_nonzero [of now interval]
    by (auto simp: dlsm_gt_ticker_new_def ticker_inv_def node_inv_def ticker_start_def split: if_splits)
next
  case (step n s s')
  then have "ticker_inv n (q_ticker s) (q_pc s)" "node_inv (q_ticker s) (q_timers s) (q_pc s)" "n < 2 ^ 64 - 3" by simp_all
  with ticker_step_inv [OF step.hyps(2)] show ?case by blast
qed

text \<open>
  Tickers under concurrent waits, resets and stops, within \<open>2 ^ 64 - 3\<close> steps: at most one task waits;
  \<open>dlsm_gt_ticker_free\<close> releases the ticker only when no task is inside a wait; and a wait that reports a tick
  does so on a ticker that is not stopped, counted from the deadline that is still current, so that no
  reset in between is overwritten.
\<close>

theorem ticker_waits_safe:
  assumes "dlsm_gt_ticker_new rt mem now interval = Some k" and "ticker_trace (ticker_start k t) n s" and "n < 2 ^ 64 - 3"
  shows "(inside (q_pc s u) \<longrightarrow> inside (q_pc s w) \<longrightarrow> u = w) \<and>
    (fst (dlsm_gt_ticker_free (q_ticker s) (q_timers s)) = DLSM_OK \<longleftrightarrow> (\<forall>x. \<not> inside (q_pc s x))) \<and>
    (q_pc s u = K_finished st d g \<longrightarrow> fst (ticker_conclude st clock d g (q_ticker s)) = Some (DLSM_OK, m) \<longrightarrow>
       \<not> tk_stopped (q_ticker s) \<and> d = tk_next_deadline (q_ticker s) \<and> tk_interval (q_ticker s) \<noteq> 0 \<and> d \<noteq> 0)"
proof -
  have inv: "ticker_inv n (q_ticker s) (q_pc s)" using ticker_trace_inv [OF assms] by simp
  then have w: "\<And>x. tk_waiter (q_ticker s) = Some x \<longleftrightarrow> inside (q_pc s x)" by (simp add: ticker_inv_def)
  have "u = w" if "inside (q_pc s u)" "inside (q_pc s w)" using that w by (metis option.inject)
  moreover have "fst (dlsm_gt_ticker_free (q_ticker s) (q_timers s)) = DLSM_OK \<longleftrightarrow> (\<forall>x. \<not> inside (q_pc s x))"
    using w by (cases "tk_waiter (q_ticker s)") (auto simp: dlsm_gt_ticker_free_def Let_def)
  moreover have "\<not> tk_stopped (q_ticker s) \<and> d = tk_next_deadline (q_ticker s) \<and> tk_interval (q_ticker s) \<noteq> 0 \<and> d \<noteq> 0"
    if p: "q_pc s u = K_finished st d g" and c: "fst (ticker_conclude st clock d g (q_ticker s)) = Some (DLSM_OK, m)"
  proof -
    have "\<not> tk_stopped (q_ticker s)" "tk_generation (q_ticker s) = g" using c by (auto simp: ticker_conclude_def split: if_splits)
    moreover have "pc_read (q_pc s u) = Some (d, g)" using p by simp
    ultimately show ?thesis using inv unfolding ticker_inv_def by metis
  qed
  ultimately show ?thesis by blast
qed

theorem ticker_waits_safe_witness:
  "\<exists>k. dlsm_gt_ticker_new True True 5 10 = Some k \<and> fst (dlsm_gt_ticker_free k timers_init) = DLSM_OK"
proof -
  define k where "k = \<lparr>tk_waiter = None, tk_interval = 10, tk_next_deadline = sat_add 5 10, tk_generation = 1, tk_stopped = False\<rparr>"
  have new: "dlsm_gt_ticker_new True True 5 10 = Some k" by (simp add: dlsm_gt_ticker_new_def k_def)
  have t: "ticker_trace (ticker_start k timers_init) 0 (ticker_start k timers_init)" by (rule ticker_trace.nil)
  have "fst (dlsm_gt_ticker_free (q_ticker (ticker_start k timers_init)) (q_timers (ticker_start k timers_init))) = DLSM_OK"
    using ticker_waits_safe [OF new t] by (simp add: ticker_start_def)
  then show ?thesis using new by (simp add: ticker_start_def)
qed

text \<open>
  Claim C19. A stop or reset is never lost on a parked waiter: in every reachable state, a waiter that is parked although the
  ticker was stopped or reset has a node that no longer waits, so whoever took it out of the heap unparks the
  waiter; and a stop or reset that finds the node of a parked waiter still waiting unparks exactly that
  waiter.
\<close>

theorem ticker_stop_not_lost:
  assumes "dlsm_gt_ticker_new rt mem now interval = Some k" and "ticker_trace (ticker_start k t) n s" and "n < 2 ^ 64 - 3"
    and pc: "q_pc s u = K_parked d g a"
  shows "(ticker_stale g (q_ticker s) \<longrightarrow> tn_state (tm_node (q_timers s) a) \<noteq> TIMER_WAITING) \<and>
    (tn_state (tm_node (q_timers s) a) = TIMER_WAITING \<longrightarrow>
       fst (snd (snd (dlsm_gt_ticker_stop (q_ticker s) (q_timers s)))) = Some u \<and>
       (now' \<noteq> 0 \<longrightarrow> iv \<noteq> 0 \<longrightarrow> fst (snd (snd (dlsm_gt_ticker_reset now' iv (q_ticker s) (q_timers s)))) = Some u))"
proof -
  have inv: "ticker_inv n (q_ticker s) (q_pc s)" "node_inv (q_ticker s) (q_timers s) (q_pc s)" using ticker_trace_inv [OF assms(1-3)] by simp_all
  have w: "tk_waiter (q_ticker s) = Some u" using inv(1) pc by (simp add: ticker_inv_def)
  have t: "tm_wait (q_timers s) u = Some a" using inv(2) pc by (simp add: node_inv_def)
  have st: "ticker_stale g (q_ticker s) \<longrightarrow> tn_state (tm_node (q_timers s) a) \<noteq> TIMER_WAITING"
    using inv(2) pc unfolding node_inv_def by blast
  have c: "fst (cancel_waiter k' (q_timers s)) = Some u"
    if "tk_waiter k' = Some u" "tn_state (tm_node (q_timers s) a) = TIMER_WAITING" for k'
    using that t by (simp add: cancel_waiter_def timer_cancel_task_wait_def)
  have "\<not> tk_stopped (q_ticker s)" if "tn_state (tm_node (q_timers s) a) = TIMER_WAITING"
    using st that by (auto simp: ticker_stale_def)
  with st w c show ?thesis by (simp add: dlsm_gt_ticker_stop_def dlsm_gt_ticker_reset_def Let_def)
qed


definition armed_ticker :: dlsm_gt_ticker where
  "armed_ticker = \<lparr>tk_waiter = None, tk_interval = 10, tk_next_deadline = 15, tk_generation = 1, tk_stopped = False\<rparr>"

lemma parked_reachable:
  obtains s where "ticker_trace (ticker_start armed_ticker timers_init) 4 s" and "q_pc s 3 = K_parked 15 1 9"
    and "tn_state (tm_node (q_timers s) 9) = TIMER_WAITING"
proof -
  define s0 where "s0 = ticker_start armed_ticker timers_init"
  define s1 where "s1 = at (s0\<lparr>q_ticker := armed_ticker\<lparr>tk_waiter := Some 3\<rparr>\<rparr>) 3 K_loop"
  define s2 where "s2 = at (s1\<lparr>q_ticker := q_ticker s1\<rparr>) 3 (K_read 15 1)"
  obtain sig t where t: "timer_wait_register (Some 9) True 3 15 timers_init = (DLSM_OK, sig, t)" "tn_state (tm_node t 9) = TIMER_WAITING"
    by (simp add: timer_wait_register_def timers_init_def timer_heap_push_def grown_capacity_def set_index_def timer_heap_up.simps)
  define s3 where "s3 = at (s2\<lparr>q_timers := t\<rparr>) 3 (K_armed 15 1 9)"
  define s4 where "s4 = at s3 3 (K_parked 15 1 9)"
  have "ticker_step s0 s1"
    using ticker_step.enter [of s0 3 None] by (simp add: s0_def s1_def ticker_start_def ticker_enter_def armed_ticker_def)
  moreover have "ticker_step s1 s2"
    using ticker_step.read [of s1 3 "Some (15, 1)" "q_ticker s1"] by (simp add: s0_def s1_def s2_def ticker_start_def ticker_read_def armed_ticker_def)
  moreover have "ticker_step s2 s3"
    using ticker_step.arm [of s2 3 15 1 9 True sig t] t(1) by (simp add: s0_def s1_def s2_def s3_def ticker_start_def)
  moreover have "ticker_step s3 s4"
    using ticker_step.park [of s3 3 15 1 9] by (simp add: s0_def s1_def s2_def s3_def s4_def ticker_start_def ticker_stale_def armed_ticker_def)
  ultimately have "ticker_trace s0 (Suc (Suc (Suc (Suc 0)))) s4" by (blast intro: ticker_trace.intros)
  then have "ticker_trace s0 4 s4" by (simp add: eval_nat_numeral)
  moreover have "q_pc s4 3 = K_parked 15 1 9" "tn_state (tm_node (q_timers s4) 9) = TIMER_WAITING" using t(2) by (simp_all add: s4_def s3_def)
  ultimately show thesis using that unfolding s0_def by blast
qed

theorem ticker_stop_not_lost_witness:
  "\<exists>s. ticker_trace (ticker_start armed_ticker timers_init) 4 s \<and>
     fst (snd (snd (dlsm_gt_ticker_stop (q_ticker s) (q_timers s)))) = Some 3"
proof -
  obtain s where s: "ticker_trace (ticker_start armed_ticker timers_init) 4 s" "q_pc s 3 = K_parked 15 1 9"
    "tn_state (tm_node (q_timers s) 9) = TIMER_WAITING" by (rule parked_reachable)
  have "sat_add 5 10 = (15 :: u64)" by (simp add: sat_add_def)
  then have "dlsm_gt_ticker_new True True 5 10 = Some armed_ticker" by (simp add: dlsm_gt_ticker_new_def armed_ticker_def)
  then have "fst (snd (snd (dlsm_gt_ticker_stop (q_ticker s) (q_timers s)))) = Some 3"
    using ticker_stop_not_lost [of True True 5 10 armed_ticker timers_init 4 s 3 15 1 9] s by simp
  with s(1) show ?thesis by blast
qed

section \<open>A reset between reading the deadline and arming the timer\<close>

lemma register_waiting:
  assumes ok: "waits_ok t" and na: "a \<notin> tm_alloc t" and r: "timer_wait_register (Some a) mem u d t = (DLSM_OK, sig, t')"
  shows "tn_state (tm_node t' a) = TIMER_WAITING"
proof -
  define node where "node = \<lparr>tn_deadline = d, tn_detected = 0, tn_ready = 0, tn_resumed = 0, tn_sequence = tm_sequence t,
              tn_index = None, tn_state = TIMER_WAITING, tn_task = u\<rparr>"
  define t1 where "t1 = t\<lparr>tm_node := (tm_node t)(a := node), tm_sequence := tm_sequence t + 1\<rparr>"
  have na2: "a \<notin> set (tm_heap t)" using na waits_okD(3) [OF ok, of a] by auto
  have h1: "heap_ok t1"
  proof -
    have "heap_ok t1 = heap_ok t" by (rule heap_ok_cong) (use na2 in \<open>auto simp: t1_def\<close>)
    then show ?thesis using waits_okD(1) [OF ok] by simp
  qed
  have na1: "a \<notin> set (tm_heap t1)" using na2 by (simp add: t1_def)
  obtain t2 where p: "timer_heap_push mem a t1 = Some t2" and t': "tm_node t' = tm_node t2"
    using r by (auto simp: timer_wait_register_def Let_def node_def t1_def split: if_splits option.splits)
  show ?thesis
    using heap_frameD(5) [OF timer_heap_push_ok(3) [OF h1 na1 p], of a] by (simp add: t' t1_def node_def)
qed

lemma finish_unexpired: "tn_state (tm_node t a) \<noteq> TIMER_EXPIRED \<Longrightarrow> fst (timer_wait_finish now u a t) = DLSM_GT_E_CANCELLED"
  by (auto simp: timer_wait_finish_def Let_def cancelled_node)

text \<open>
  Two turns of a wait. The first finds its generation stale after a reset and cancels its own timer, which leaves
  the running task an unpark token; the park of the second turn then returns at once, before its timer
  expires. The ticker is not stopped and the task is not cancelled, yet the wait answers \<open>DLSM_GT_E_CANCELLED\<close>.
\<close>

lemma ticker_reset_race:
  assumes "waits_ok t" and "a \<notin> tm_alloc t" and "timer_wait_register (Some a) mem u d t = (DLSM_OK, sig, t1)"
    and "timer_cancel_task_wait u t1 = (token, sig2, t2)" and "timer_wait_finish now u a t2 = (st2, sig3, t3)"
    and "waits_ok t3" and "b \<notin> tm_alloc t3" and "timer_wait_register (Some b) mem u (tk_next_deadline k) t3 = (DLSM_OK, sig4, t4)"
    and "\<not> tk_stopped k" and "tk_generation k = g"
  shows "token" and "ticker_conclude (fst (timer_wait_finish now2 u b t4)) now2 (tk_next_deadline k) g k =
    (Some (DLSM_GT_E_CANCELLED, 0), k\<lparr>tk_waiter := None\<rparr>)"
proof -
  show token using cancel_task_wait(3) [OF assms(4) register_wait [OF assms(3)]] register_waiting [OF assms(1-3)] by simp
  have "fst (timer_wait_finish now2 u b t4) = DLSM_GT_E_CANCELLED"
    using register_waiting [OF assms(6-8)] by (intro finish_unexpired) simp
  then show "ticker_conclude (fst (timer_wait_finish now2 u b t4)) now2 (tk_next_deadline k) g k =
    (Some (DLSM_GT_E_CANCELLED, 0), k\<lparr>tk_waiter := None\<rparr>)" using assms(9,10) by (simp add: ticker_conclude_def)
qed

end
