(* ===== verification/Gt_Blocking.thy ===== *)
theory Gt_Blocking
  imports Gt_Timer Intrusive_List
begin

text \<open>
  The pool of threads for calls that block (\<^verbatim>\<open>libs/greenthread/src/greenthread.c\<close>): \<open>blocking_main\<close>,
  \<open>dlsm_gt_blocking_call\<close> and \<open>blocking_runtime_request_stop\<close>. Sections under \<open>blocking_mutex\<close> are atomic;
  every access to a job outside of them is a step of its own. A job is a variable of the calling task, which
  has one at a time, so that the task names it. The functions are arbitrary: a call may give any result and any
  \<open>errno\<close>.
\<close>

section \<open>Jobs and the queue\<close>

record blocking_job =
  bj_function :: addr
  bj_arg :: u64
  bj_result :: u64
  bj_task :: addr
  bj_next :: "addr option"
  bj_done :: bool
  bj_errno :: int

record blocking =
  bk_job :: "addr \<Rightarrow> blocking_job"
  bk_head :: "addr option"
  bk_tail :: "addr option"
  bk_stop :: bool

definition upd_job :: "addr \<Rightarrow> (blocking_job \<Rightarrow> blocking_job) \<Rightarrow> blocking \<Rightarrow> blocking" where
  "upd_job j f b = b\<lparr>bk_job := (bk_job b)(j := f (bk_job b j))\<rparr>"

text \<open>What \<open>dlsm_gt_blocking_call\<close> refuses before it makes a job: \<open>function\<close> and \<open>self\<close> are pointers that may be null.\<close>

definition blocking_refused :: "addr option \<Rightarrow> addr option \<Rightarrow> bool \<Rightarrow> int \<Rightarrow> dlsm_status option" where
  "blocking_refused fn self initialized thread_count =
     (if fn = None then Some DLSM_GT_E_INVAL
      else if self = None then Some DLSM_GT_E_STATE
      else if \<not> initialized \<or> thread_count = 0 then Some DLSM_GT_E_STATE
      else None)"

text \<open>The job is initialised and, unless the pool stops, appended; \<open>result\<close> and \<open>saved_errno\<close> start as 0.\<close>

definition blocking_enqueue :: "addr \<Rightarrow> addr \<Rightarrow> u64 \<Rightarrow> blocking \<Rightarrow> dlsm_status option \<times> blocking" where
  "blocking_enqueue u fn a b =
     (let job = \<lparr>bj_function = fn, bj_arg = a, bj_result = 0, bj_task = u, bj_next = None, bj_done = False, bj_errno = 0\<rparr>;
          b1 = upd_job u (\<lambda>_. job) b in
      if bk_stop b1 then (Some DLSM_GT_E_STATE, b1)
      else
        (let b2 = (case bk_tail b1 of
                     Some l \<Rightarrow> upd_job l (\<lambda>x. x\<lparr>bj_next := Some u\<rparr>) b1
                   | None \<Rightarrow> b1\<lparr>bk_head := Some u\<rparr>) in
         (None, b2\<lparr>bk_tail := Some u\<rparr>)))"

datatype taken = Take_wait | Take_exit | Take_job addr

definition blocking_take :: "blocking \<Rightarrow> taken \<times> blocking" where
  "blocking_take b = (case bk_head b of
     None \<Rightarrow> (if bk_stop b then Take_exit else Take_wait, b)
   | Some j \<Rightarrow>
       (let b1 = b\<lparr>bk_head := bj_next (bk_job b j)\<rparr> in
        (Take_job j, if bk_head b1 = None then b1\<lparr>bk_tail := None\<rparr> else b1)))"

definition blocking_ran :: "addr \<Rightarrow> u64 \<Rightarrow> int \<Rightarrow> blocking \<Rightarrow> blocking" where
  "blocking_ran j res err = upd_job j (\<lambda>x. x\<lparr>bj_result := res, bj_errno := err\<rparr>)"

definition blocking_done :: "addr \<Rightarrow> blocking \<Rightarrow> blocking" where
  "blocking_done j = upd_job j (\<lambda>x. x\<lparr>bj_done := True\<rparr>)"

definition blocking_set_stop :: "blocking \<Rightarrow> blocking" where
  "blocking_set_stop b = b\<lparr>bk_stop := True\<rparr>"

text \<open>The loop of the caller: \<open>None\<close> when it parks again, otherwise its status, result and \<open>errno\<close>.\<close>

definition blocking_return :: "addr \<Rightarrow> blocking \<Rightarrow> (dlsm_status \<times> u64 \<times> int) option" where
  "blocking_return u b = (if bj_done (bk_job b u) then Some (DLSM_OK, bj_result (bk_job b u), bj_errno (bk_job b u)) else None)"

section \<open>The threads and the callers\<close>

datatype worker = B_ready | B_waiting | B_run addr | B_ran addr | B_unpark addr | B_exited

datatype caller = C_outside | C_calling addr u64 | C_returned "dlsm_status \<times> u64 \<times> int"

text \<open>
  \<open>y_log\<close> records the calls made for the current job of a task, \<open>y_unparked\<close> the tasks that a thread has unparked
  since they made their job.
\<close>

record blocking_sys =
  y_pool :: blocking
  y_worker :: "nat \<Rightarrow> worker"
  y_caller :: "addr \<Rightarrow> caller"
  y_log :: "addr \<Rightarrow> (addr \<times> u64 \<times> u64 \<times> int) list"
  y_unparked :: "addr set"

text \<open>\<open>pthread_cond_signal\<close> wakes at least one of the waiting threads, if there is one; a broadcast wakes all.\<close>

definition cond_signal :: "nat \<Rightarrow> (nat \<Rightarrow> worker) \<Rightarrow> (nat \<Rightarrow> worker) \<Rightarrow> bool" where
  "cond_signal n ws ws' \<longleftrightarrow> (\<forall>w. ws' w = ws w \<or> ws w = B_waiting \<and> ws' w = B_ready) \<and>
     ((\<exists>w < n. ws w = B_waiting) \<longrightarrow> (\<exists>w < n. ws w = B_waiting \<and> ws' w = B_ready))"

definition cond_broadcast :: "(nat \<Rightarrow> worker) \<Rightarrow> nat \<Rightarrow> worker" where
  "cond_broadcast ws w = (if ws w = B_waiting then B_ready else ws w)"

fun after_take :: "taken \<Rightarrow> worker" where
  "after_take Take_wait = B_waiting"
| "after_take Take_exit = B_exited"
| "after_take (Take_job j) = B_run j"

inductive blocking_step :: "nat \<Rightarrow> blocking_sys \<Rightarrow> blocking_sys \<Rightarrow> bool" for n where
  call: "y_caller s u = C_outside \<Longrightarrow> blocking_enqueue u fn a (y_pool s) = (None, b) \<Longrightarrow> cond_signal n (y_worker s) ws \<Longrightarrow>
    blocking_step n s (s\<lparr>y_pool := b, y_worker := ws, y_caller := (y_caller s)(u := C_calling fn a),
      y_log := (y_log s)(u := []), y_unparked := y_unparked s - {u}\<rparr>)"
| refused: "y_caller s u = C_outside \<Longrightarrow> blocking_enqueue u fn a (y_pool s) = (Some st, b) \<Longrightarrow>
    blocking_step n s (s\<lparr>y_pool := b\<rparr>)"
| take: "w < n \<Longrightarrow> y_worker s w = B_ready \<Longrightarrow> blocking_take (y_pool s) = (r, b) \<Longrightarrow>
    blocking_step n s (s\<lparr>y_pool := b, y_worker := (y_worker s)(w := after_take r)\<rparr>)"
| wake: "y_worker s w = B_waiting \<Longrightarrow> blocking_step n s (s\<lparr>y_worker := (y_worker s)(w := B_ready)\<rparr>)"
| run: "w < n \<Longrightarrow> y_worker s w = B_run j \<Longrightarrow> job = bk_job (y_pool s) j \<Longrightarrow>
    blocking_step n s (s\<lparr>y_pool := blocking_ran j res err (y_pool s), y_worker := (y_worker s)(w := B_ran j),
      y_log := (y_log s)(j := y_log s j @ [(bj_function job, bj_arg job, res, err)])\<rparr>)"
| store: "w < n \<Longrightarrow> y_worker s w = B_ran j \<Longrightarrow>
    blocking_step n s (s\<lparr>y_pool := blocking_done j (y_pool s), y_worker := (y_worker s)(w := B_unpark (bj_task (bk_job (y_pool s) j)))\<rparr>)"
| unpark: "w < n \<Longrightarrow> y_worker s w = B_unpark t \<Longrightarrow>
    blocking_step n s (s\<lparr>y_worker := (y_worker s)(w := B_ready), y_unparked := insert t (y_unparked s)\<rparr>)"
| return: "y_caller s u = C_calling fn a \<Longrightarrow> blocking_return u (y_pool s) = Some r \<Longrightarrow>
    blocking_step n s (s\<lparr>y_caller := (y_caller s)(u := C_returned r)\<rparr>)"
| again: "y_caller s u = C_returned r \<Longrightarrow> blocking_step n s (s\<lparr>y_caller := (y_caller s)(u := C_outside)\<rparr>)"
| stop: "blocking_step n s (s\<lparr>y_pool := blocking_set_stop (y_pool s), y_worker := cond_broadcast (y_worker s)\<rparr>)"

definition blocking_start :: "(addr \<Rightarrow> blocking_job) \<Rightarrow> blocking_sys" where
  "blocking_start f = \<lparr>y_pool = \<lparr>bk_job = f, bk_head = None, bk_tail = None, bk_stop = False\<rparr>, y_worker = \<lambda>_. B_ready,
     y_caller = \<lambda>_. C_outside, y_log = \<lambda>_. [], y_unparked = {}\<rparr>"

section \<open>Invariant\<close>

fun held :: "worker \<Rightarrow> addr option" where
  "held (B_run j) = Some j"
| "held (B_ran j) = Some j"
| "held _ = None"

abbreviation calling :: "caller \<Rightarrow> bool" where
  "calling c \<equiv> \<exists>fn a. c = C_calling fn a"

text \<open>
  Where the job of a task is: in the queue \<open>q\<close>, in the hands of one thread, or done. The components are parameters,
  so that each step changes few of them.
\<close>

definition places_ok :: "addr list \<Rightarrow> (nat \<Rightarrow> worker) \<Rightarrow> (addr \<Rightarrow> caller) \<Rightarrow> (addr \<Rightarrow> blocking_job) \<Rightarrow> bool" where
  "places_ok q ws cs jobs \<longleftrightarrow>
     (\<forall>w w' j. held (ws w) = Some j \<longrightarrow> held (ws w') = Some j \<longrightarrow> w' = w) \<and>
     (\<forall>w j. held (ws w) = Some j \<longrightarrow> j \<notin> set q) \<and>
     (\<forall>j. j \<in> set q \<or> (\<exists>w. held (ws w) = Some j) \<longleftrightarrow> calling (cs j) \<and> \<not> bj_done (jobs j))"

definition log_ok :: "(nat \<Rightarrow> worker) \<Rightarrow> (addr \<Rightarrow> caller) \<Rightarrow> (addr \<Rightarrow> blocking_job) \<Rightarrow> (addr \<Rightarrow> (addr \<times> u64 \<times> u64 \<times> int) list) \<Rightarrow> bool" where
  "log_ok ws cs jobs log \<longleftrightarrow> (\<forall>u fn a. cs u = C_calling fn a \<longrightarrow>
     bj_function (jobs u) = fn \<and> bj_arg (jobs u) = a \<and> bj_task (jobs u) = u \<and>
     log u = (if bj_done (jobs u) \<or> (\<exists>w. ws w = B_ran u) then [(fn, a, bj_result (jobs u), bj_errno (jobs u))] else []))"

definition wake_ok :: "(nat \<Rightarrow> worker) \<Rightarrow> (addr \<Rightarrow> caller) \<Rightarrow> (addr \<Rightarrow> blocking_job) \<Rightarrow> addr set \<Rightarrow> bool" where
  "wake_ok ws cs jobs woken \<longleftrightarrow> (\<forall>u. calling (cs u) \<longrightarrow> bj_done (jobs u) \<longrightarrow> u \<in> woken \<or> (\<exists>w. ws w = B_unpark u))"

definition exit_ok :: "addr list \<Rightarrow> (nat \<Rightarrow> worker) \<Rightarrow> bool \<Rightarrow> bool" where
  "exit_ok q ws stop \<longleftrightarrow> ((\<exists>w. ws w = B_exited) \<longrightarrow> stop \<and> q = [])"

text \<open>While a thread waits, at least as many threads are about to look at the queue as it has jobs.\<close>

definition awake_ok :: "nat \<Rightarrow> addr list \<Rightarrow> (nat \<Rightarrow> worker) \<Rightarrow> bool" where
  "awake_ok n q ws \<longleftrightarrow> ((\<exists>w < n. ws w = B_waiting) \<longrightarrow> length q \<le> card {w. w < n \<and> ws w = B_ready})"

definition pool_view :: "blocking \<Rightarrow> addr list \<Rightarrow> bool" where
  "pool_view b q \<longleftrightarrow> queue_rep (\<lambda>j. bj_next (bk_job b j)) (bk_head b) (bk_tail b) q"

text \<open>The jobs without their links.\<close>

definition job_view :: "blocking \<Rightarrow> addr \<Rightarrow> blocking_job" where
  "job_view b j = (bk_job b j)\<lparr>bj_next := None\<rparr>"

definition blocking_inv :: "nat \<Rightarrow> blocking_sys \<Rightarrow> addr list \<Rightarrow> bool" where
  "blocking_inv n s q \<longleftrightarrow> pool_view (y_pool s) q \<and>
     places_ok q (y_worker s) (y_caller s) (job_view (y_pool s)) \<and>
     log_ok (y_worker s) (y_caller s) (job_view (y_pool s)) (y_log s) \<and>
     wake_ok (y_worker s) (y_caller s) (job_view (y_pool s)) (y_unparked s) \<and>
     exit_ok q (y_worker s) (bk_stop (y_pool s)) \<and> awake_ok n q (y_worker s)"

section \<open>The queue\<close>

lemma upd_job_facts [simp]:
  "bk_head (upd_job j f b) = bk_head b" "bk_tail (upd_job j f b) = bk_tail b" "bk_stop (upd_job j f b) = bk_stop b"
  "bk_job (upd_job j f b) = (bk_job b)(j := f (bk_job b j))"
  by (simp_all add: upd_job_def)

lemma enqueue_stopped: "bk_stop b \<Longrightarrow> fst (blocking_enqueue u fn a b) = Some DLSM_GT_E_STATE"
  by (simp add: blocking_enqueue_def Let_def)

lemma enqueue_refused:
  assumes "blocking_enqueue u fn a b = (Some st, b')" and v: "pool_view b q" and u: "u \<notin> set q"
  shows "pool_view b' q" and "bk_stop b' = bk_stop b" and "j \<noteq> u \<Longrightarrow> job_view b' j = job_view b j" and "bk_stop b" and "st = DLSM_GT_E_STATE"
proof -
  obtain f where b': "b' = upd_job u f b" and st: "bk_stop b" "st = DLSM_GT_E_STATE"
    using assms(1) by (auto simp: blocking_enqueue_def Let_def split: if_splits)
  have "queue_rep (\<lambda>j. bj_next (bk_job b' j)) h t q = queue_rep (\<lambda>j. bj_next (bk_job b j)) h t q" for h t
    by (rule queue_rep_cong) (use u b' in auto)
  then show "pool_view b' q" using v b' by (simp add: pool_view_def)
  show "bk_stop b' = bk_stop b" "j \<noteq> u \<Longrightarrow> job_view b' j = job_view b j" using b' by (simp_all add: job_view_def)
  show "bk_stop b" "st = DLSM_GT_E_STATE" by (fact st)+
qed

definition new_job :: "addr \<Rightarrow> addr \<Rightarrow> u64 \<Rightarrow> blocking_job" where
  "new_job u fn a = \<lparr>bj_function = fn, bj_arg = a, bj_result = 0, bj_task = u, bj_next = None, bj_done = False, bj_errno = 0\<rparr>"

lemma enqueue_appends:
  assumes "blocking_enqueue u fn a b = (None, b')" and v: "pool_view b q" and u: "u \<notin> set q"
  shows "pool_view b' (q @ [u])" and "bk_stop b' = bk_stop b" and "job_view b' = (job_view b)(u := new_job u fn a)" and "\<not> bk_stop b"
proof -
  let ?nx = "\<lambda>j. bj_next (bk_job b j)"
  have ns: "\<not> bk_stop b" using assms(1) by (auto simp: blocking_enqueue_def Let_def split: if_splits)
  have t: "bk_tail b \<noteq> Some u" using v u by (cases q rule: rev_cases) (auto simp: pool_view_def queue_rep_def)
  note p = queue_rep_push [OF v [unfolded pool_view_def] u]
  have b': "bk_head b' = (if bk_tail b = None then Some u else bk_head b) \<and> bk_tail b' = Some u \<and> bk_stop b' = bk_stop b \<and>
    (\<lambda>j. bj_next (bk_job b' j)) = (case bk_tail b of None \<Rightarrow> ?nx(u := None) | Some l \<Rightarrow> ?nx(u := None, l := Some u)) \<and>
    job_view b' = (job_view b)(u := new_job u fn a)"
    using assms(1) ns t by (auto simp: blocking_enqueue_def Let_def job_view_def new_job_def fun_eq_iff split: option.splits)
  then show "pool_view b' (q @ [u])" using p by (auto simp: pool_view_def split: option.splits)
  show "bk_stop b' = bk_stop b" "job_view b' = (job_view b)(u := new_job u fn a)" using b' by simp_all
  show "\<not> bk_stop b" by (fact ns)
qed

lemma take_empty: "pool_view b [] \<Longrightarrow> blocking_take b = (if bk_stop b then Take_exit else Take_wait, b)"
  by (simp add: pool_view_def queue_rep_def blocking_take_def)

lemma take_first:
  assumes "pool_view b (x # q)"
  obtains b' where "blocking_take b = (Take_job x, b')" and "pool_view b' q" and "bk_stop b' = bk_stop b" and "job_view b' = job_view b"
proof
  let ?b = "snd (blocking_take b)" and ?nx = "\<lambda>j. bj_next (bk_job b j)"
  note p = queue_rep_pop [OF assms [unfolded pool_view_def]]
  show "blocking_take b = (Take_job x, ?b)" using p(1) by (auto simp: blocking_take_def Let_def)
  have j: "bk_job ?b = bk_job b" "bk_stop ?b = bk_stop b" "bk_head ?b = ?nx x" "bk_tail ?b = (if ?nx x = None then None else bk_tail b)"
    using p(1) by (auto simp: blocking_take_def Let_def)
  have "x \<notin> set q" using assms queue_rep_distinct by (fastforce simp: pool_view_def)
  then have "queue_rep ?nx (?nx x) (if ?nx x = None then None else bk_tail b) q" using p(2) queue_rep_upd_notin by metis
  then show "pool_view ?b q" by (simp add: pool_view_def j)
  show "bk_stop ?b = bk_stop b" "job_view ?b = job_view b" using j by (simp_all add: job_view_def fun_eq_iff)
qed

text \<open>The queue of jobs keeps the contract of a FIFO while the pool is not stopped.\<close>

interpretation job_fifo: fifo_queue "\<lambda>u b. snd (blocking_enqueue u (fst (c u)) (snd (c u)) b)"
  "\<lambda>b. case blocking_take b of (Take_job j, b') \<Rightarrow> (Some j, b') | (_, b') \<Rightarrow> (None, b')" "\<lambda>b q. pool_view b q \<and> \<not> bk_stop b" for c
proof
  fix b q u
  assume v: "pool_view b q \<and> \<not> bk_stop b" and u: "u \<notin> set q"
  obtain b' where b': "blocking_enqueue u (fst (c u)) (snd (c u)) b = (None, b')"
    using v by (auto simp: blocking_enqueue_def Let_def split: option.splits)
  show "pool_view (snd (blocking_enqueue u (fst (c u)) (snd (c u)) b)) (q @ [u]) \<and> \<not> bk_stop (snd (blocking_enqueue u (fst (c u)) (snd (c u)) b))"
    using enqueue_appends(1,2) [OF b' conjunct1 [OF v] u] v b' by simp
next
  fix b x q
  assume v: "pool_view b (x # q) \<and> \<not> bk_stop b"
  then obtain b' where "blocking_take b = (Take_job x, b')" "pool_view b' q" "bk_stop b' = bk_stop b" using take_first by metis
  with v show "fst (case blocking_take b of (Take_job j, b') \<Rightarrow> (Some j, b') | (_, b') \<Rightarrow> (None, b')) = Some x \<and>
    pool_view (snd (case blocking_take b of (Take_job j, b') \<Rightarrow> (Some j, b') | (_, b') \<Rightarrow> (None, b'))) q \<and>
    \<not> bk_stop (snd (case blocking_take b of (Take_job j, b') \<Rightarrow> (Some j, b') | (_, b') \<Rightarrow> (None, b')))" by simp
qed (auto simp: take_empty)

section \<open>Every step keeps the invariant\<close>

text \<open>What a signal may change of the threads.\<close>

lemma cond_signal_facts:
  assumes "cond_signal n ws ws'"
  shows "held (ws' w) = held (ws w)" and "ws' w = B_ran j \<longleftrightarrow> ws w = B_ran j" and "ws' w = B_unpark j \<longleftrightarrow> ws w = B_unpark j"
    and "ws' w = B_exited \<longleftrightarrow> ws w = B_exited" and "ws w = B_ready \<Longrightarrow> ws' w = B_ready" and "ws' w = B_waiting \<Longrightarrow> ws w = B_waiting"
proof -
  have "ws' w = ws w \<or> ws w = B_waiting \<and> ws' w = B_ready" using assms by (simp add: cond_signal_def)
  then show "held (ws' w) = held (ws w)" "ws' w = B_ran j \<longleftrightarrow> ws w = B_ran j" "ws' w = B_unpark j \<longleftrightarrow> ws w = B_unpark j"
    "ws' w = B_exited \<longleftrightarrow> ws w = B_exited" "ws w = B_ready \<Longrightarrow> ws' w = B_ready" "ws' w = B_waiting \<Longrightarrow> ws w = B_waiting" by auto
qed

lemma awake_signal:
  assumes a: "awake_ok n q ws" and s: "cond_signal n ws ws'"
  shows "awake_ok n (q @ [u]) ws'"
proof (cases "\<exists>w < n. ws' w = B_waiting")
  case True
  then obtain v where v: "v < n" "ws v = B_waiting" using cond_signal_facts(6) [OF s] by auto
  then obtain w where w: "w < n" "ws w = B_waiting" "ws' w = B_ready" using s by (auto simp: cond_signal_def)
  let ?R = "\<lambda>f. {w. w < n \<and> f w = B_ready}"
  have "w \<in> ?R ws'" "w \<notin> ?R ws" "?R ws \<subseteq> ?R ws'" using w cond_signal_facts(5) [OF s] by auto
  then have "?R ws \<subset> ?R ws'" by blast
  then have "card (?R ws) < card (?R ws')" by (intro psubset_card_mono) auto
  moreover have "length q \<le> card (?R ws)" using a v by (auto simp: awake_ok_def)
  ultimately show ?thesis by (simp add: awake_ok_def)
next
  case False
  then show ?thesis unfolding awake_ok_def by blast
qed

lemma awake_less:
  assumes a: "awake_ok n (x # q) ws" and w: "w < n" "ws w = B_ready" and p: "p \<noteq> B_ready" "p \<noteq> B_waiting"
  shows "awake_ok n q (ws(w := p))"
proof -
  have "{v. v < n \<and> (ws(w := p)) v = B_ready} = {v. v < n \<and> ws v = B_ready} - {w}" using p by auto
  then have c: "card {v. v < n \<and> (ws(w := p)) v = B_ready} = card {v. v < n \<and> ws v = B_ready} - 1" using w by simp
  have "length (x # q) \<le> card {v. v < n \<and> ws v = B_ready}" if "\<exists>v < n. (ws(w := p)) v = B_waiting"
    using a that p w by (auto simp: awake_ok_def split: if_splits)
  then show ?thesis unfolding awake_ok_def c by fastforce
qed

text \<open>A thread that is not looking at the queue stays so, or comes back to it.\<close>

lemma awake_more:
  assumes a: "awake_ok n q ws" and w: "ws w \<noteq> B_ready" "p \<noteq> B_waiting"
  shows "awake_ok n q (ws(w := p))"
proof -
  have "card {v. v < n \<and> ws v = B_ready} \<le> card {v. v < n \<and> (ws(w := p)) v = B_ready}" by (rule card_mono) (use w in auto)
  moreover have "length q \<le> card {v. v < n \<and> ws v = B_ready}" if "\<exists>v < n. (ws(w := p)) v = B_waiting"
    using a that w by (auto simp: awake_ok_def split: if_splits)
  ultimately show ?thesis unfolding awake_ok_def by (meson order_trans)
qed

lemma places_outside:
  assumes "places_ok q ws cs jobs" and "\<not> calling (cs u)"
  shows "u \<notin> set q" and "held (ws w) \<noteq> Some u"
  using assms unfolding places_ok_def by blast+

lemma places_held:
  assumes "places_ok q ws cs jobs" and "held (ws w) = Some j"
  shows "\<exists>fn a. cs j = C_calling fn a" and "\<not> bj_done (jobs j)" and "j \<notin> set q" and "held (ws v) = Some j \<Longrightarrow> v = w"
  using assms unfolding places_ok_def by blast+

lemma inv_call:
  assumes inv: "blocking_inv n s q" and u: "y_caller s u = C_outside" and e: "blocking_enqueue u fn a (y_pool s) = (None, b)"
    and sig: "cond_signal n (y_worker s) ws"
  shows "blocking_inv n (s\<lparr>y_pool := b, y_worker := ws, y_caller := (y_caller s)(u := C_calling fn a),
      y_log := (y_log s)(u := []), y_unparked := y_unparked s - {u}\<rparr>) (q @ [u])"
proof -
  note i = inv [unfolded blocking_inv_def]
  have pl: "places_ok q (y_worker s) (y_caller s) (job_view (y_pool s))" using i by blast
  have out: "u \<notin> set q" "\<And>w. held (y_worker s w) \<noteq> Some u" using places_outside [OF pl, of u] u by auto
  have notran: "y_worker s w \<noteq> B_ran u" for w using out(2) [of w] by auto
  note ap = enqueue_appends [OF e conjunct1 [OF i] out(1)] and sf = cond_signal_facts [OF sig]
  have "places_ok (q @ [u]) ws ((y_caller s)(u := C_calling fn a)) (job_view b)"
    unfolding places_ok_def ap(3) sf(1)
    using pl out unfolding places_ok_def by (auto simp: new_job_def)
  moreover have "log_ok ws ((y_caller s)(u := C_calling fn a)) (job_view b) ((y_log s)(u := []))"
    unfolding log_ok_def ap(3) sf(2) using i notran by (auto simp: log_ok_def new_job_def)
  moreover have "wake_ok ws ((y_caller s)(u := C_calling fn a)) (job_view b) (y_unparked s - {u})"
    unfolding wake_ok_def ap(3) sf(3) using i by (auto simp: wake_ok_def new_job_def)
  moreover have "exit_ok (q @ [u]) ws (bk_stop b)"
    unfolding exit_ok_def ap(2) sf(4) using i ap(4) by (auto simp: exit_ok_def)
  moreover have "awake_ok n (q @ [u]) ws" using awake_signal [OF _ sig] i by blast
  ultimately show ?thesis using ap(1) by (simp add: blocking_inv_def)
qed

lemma places_okI:
  assumes "\<And>w w' j. held (ws w) = Some j \<Longrightarrow> held (ws w') = Some j \<Longrightarrow> w' = w" and "\<And>w j. held (ws w) = Some j \<Longrightarrow> j \<notin> set q"
    and "\<And>j. j \<in> set q \<or> (\<exists>w. held (ws w) = Some j) \<longleftrightarrow> calling (cs j) \<and> \<not> bj_done (jobs j)"
  shows "places_ok q ws cs jobs"
  unfolding places_ok_def
proof (intro conjI allI impI)
  show "w' = w" if "held (ws w) = Some j" "held (ws w') = Some j" for w w' j using assms(1) that .
  show "j \<notin> set q" if "held (ws w) = Some j" for w j using assms(2) that .
  show "j \<in> set q \<or> (\<exists>w. held (ws w) = Some j) \<longleftrightarrow> calling (cs j) \<and> \<not> bj_done (jobs j)" for j by (rule assms(3))
qed

text \<open>Only the jobs of tasks that are calling count.\<close>

lemma places_cong:
  "(\<And>v. calling (cs' v) \<and> \<not> bj_done (jobs' v) \<longleftrightarrow> calling (cs v) \<and> \<not> bj_done (jobs v)) \<Longrightarrow> places_ok q ws cs' jobs' = places_ok q ws cs jobs"
  unfolding places_ok_def by (simp only:)

lemma calling_frame:
  assumes k: "\<And>v. calling (cs' v) \<Longrightarrow> cs' v = cs v \<and> jobs' v = jobs v"
  shows "log_ok ws cs jobs log \<Longrightarrow> log_ok ws cs' jobs' log" and "wake_ok ws cs jobs woken \<Longrightarrow> wake_ok ws cs' jobs' woken"
proof -
  have kk: "cs' v = C_calling fn a \<Longrightarrow> cs v = C_calling fn a \<and> jobs' v = jobs v" for v fn a using k [of v] by simp
  show "log_ok ws cs jobs log \<Longrightarrow> log_ok ws cs' jobs' log" unfolding log_ok_def using kk by simp
  show "wake_ok ws cs jobs woken \<Longrightarrow> wake_ok ws cs' jobs' woken" unfolding wake_ok_def using k by simp
qed

text \<open>A property of some thread that neither the old nor the new place of a thread has.\<close>

lemma worker_ex_upd: "\<not> P (ws w) \<Longrightarrow> \<not> P p \<Longrightarrow> (\<exists>v. P ((ws(w := p)) v)) \<longleftrightarrow> (\<exists>v. P (ws v))"
  by (metis fun_upd_apply)

abbreviation idle :: "worker \<Rightarrow> bool" where
  "idle p \<equiv> p = B_ready \<or> p = B_waiting \<or> p = B_exited"

lemma idle_moves:
  assumes "idle (ws w)" and "idle p"
  shows "places_ok q (ws(w := p)) = places_ok q ws" and "log_ok (ws(w := p)) = log_ok ws" and "wake_ok (ws(w := p)) = wake_ok ws"
proof -
  have h: "held ((ws(w := p)) v) = held (ws v)" for v using assms by auto
  show "places_ok q (ws(w := p)) = places_ok q ws" unfolding places_ok_def fun_eq_iff h by blast
  have r: "(\<exists>v. (ws(w := p)) v = B_ran u) = (\<exists>v. ws v = B_ran u)" for u by (rule worker_ex_upd) (use assms in auto)
  show "log_ok (ws(w := p)) = log_ok ws" unfolding log_ok_def fun_eq_iff r by blast
  have k: "(\<exists>v. (ws(w := p)) v = B_unpark u) = (\<exists>v. ws v = B_unpark u)" for u by (rule worker_ex_upd) (use assms in auto)
  show "wake_ok (ws(w := p)) = wake_ok ws" unfolding wake_ok_def fun_eq_iff k by blast
qed

lemma exit_upd: "exit_ok q ws stop \<Longrightarrow> p \<noteq> B_exited \<Longrightarrow> exit_ok q (ws(w := p)) stop"
  unfolding exit_ok_def by (metis fun_upd_apply)

lemma inv_take:
  assumes inv: "blocking_inv n s q" and w: "w < n" "y_worker s w = B_ready" and t: "blocking_take (y_pool s) = (r, b)"
  shows "\<exists>q'. blocking_inv n (s\<lparr>y_pool := b, y_worker := (y_worker s)(w := after_take r)\<rparr>) q'"
proof -
  note i = inv [unfolded blocking_inv_def]
  show ?thesis
  proof (cases q)
    case Nil
    then have r: "r = (if bk_stop (y_pool s) then Take_exit else Take_wait)" "b = y_pool s" using take_empty i t by auto
    then have a: "idle (after_take r)" "after_take r = B_exited \<longrightarrow> bk_stop (y_pool s)" by auto
    have "exit_ok [] ((y_worker s)(w := after_take r)) (bk_stop b)" using i a(2) r(2) by (auto simp: exit_ok_def)
    moreover have "awake_ok n [] ((y_worker s)(w := after_take r))" by (simp add: awake_ok_def)
    ultimately have "blocking_inv n (s\<lparr>y_pool := b, y_worker := (y_worker s)(w := after_take r)\<rparr>) []"
      using i Nil idle_moves [of "y_worker s" w "after_take r"] w(2) a(1) by (simp add: blocking_inv_def r(2))
    then show ?thesis ..
  next
    case (Cons x q')
    then obtain b' where "blocking_take (y_pool s) = (Take_job x, b')" "pool_view b' q'" "bk_stop b' = bk_stop (y_pool s)"
      "job_view b' = job_view (y_pool s)" using i take_first by metis
    then have b: "r = Take_job x" "pool_view b q'" "bk_stop b = bk_stop (y_pool s)" "job_view b = job_view (y_pool s)" using t by auto
    have d: "x \<notin> set q'" using i Cons queue_rep_distinct by (fastforce simp: pool_view_def)
    let ?ws = "(y_worker s)(w := B_run x)"
    have nh: "held (y_worker s w) = None" using w(2) by simp
    have h: "(\<exists>v. held (?ws v) = Some j) \<longleftrightarrow> j = x \<or> (\<exists>v. held (y_worker s v) = Some j)" for j
      using nh by (metis fun_upd_apply held.simps(1) option.distinct(1) option.inject)
    have pl: "places_ok (x # q') (y_worker s) (y_caller s) (job_view (y_pool s))" using i Cons by blast
    have "\<forall>j. j \<in> set q' \<or> (\<exists>v. held (?ws v) = Some j) \<longleftrightarrow> calling (y_caller s j) \<and> \<not> bj_done (job_view (y_pool s) j)"
      unfolding h using pl unfolding places_ok_def by (metis set_ConsD list.set_intros)
    moreover have "\<forall>v v' j. held (?ws v) = Some j \<longrightarrow> held (?ws v') = Some j \<longrightarrow> v' = v" "\<forall>v j. held (?ws v) = Some j \<longrightarrow> j \<notin> set q'"
      using pl d unfolding places_ok_def by auto
    ultimately have "places_ok q' ?ws (y_caller s) (job_view b)" unfolding b(4) places_ok_def by blast
    moreover have "log_ok ?ws (y_caller s) (job_view b) (y_log s)"
    proof -
      have r: "(\<exists>v. ?ws v = B_ran u) = (\<exists>v. y_worker s v = B_ran u)" for u by (rule worker_ex_upd) (use w in auto)
      show ?thesis using i unfolding b(4) log_ok_def r by blast
    qed
    moreover have "wake_ok ?ws (y_caller s) (job_view b) (y_unparked s)"
    proof -
      have r: "(\<exists>v. ?ws v = B_unpark u) = (\<exists>v. y_worker s v = B_unpark u)" for u by (rule worker_ex_upd) (use w in auto)
      show ?thesis using i unfolding b(4) wake_ok_def r by blast
    qed
    moreover have "exit_ok q' ?ws (bk_stop b)" by (rule exit_upd) (use i Cons b(3) in \<open>auto simp: exit_ok_def\<close>)
    moreover have "awake_ok n q' ?ws" by (rule awake_less [of n x q']) (use i Cons w in auto)
    ultimately have "blocking_inv n (s\<lparr>y_pool := b, y_worker := (y_worker s)(w := after_take r)\<rparr>) q'"
      using b(1,2) by (simp add: blocking_inv_def)
    then show ?thesis ..
  qed
qed


text \<open>The thread that has a job: it makes the call, stores \<open>done\<close>, and unparks the task.\<close>

lemma inv_run:
  assumes inv: "blocking_inv n s q" and w: "y_worker s w = B_run j" and job: "job = bk_job (y_pool s) j"
  shows "blocking_inv n (s\<lparr>y_pool := blocking_ran j res err (y_pool s), y_worker := (y_worker s)(w := B_ran j),
      y_log := (y_log s)(j := y_log s j @ [(bj_function job, bj_arg job, res, err)])\<rparr>) q"
proof -
  note i = inv [unfolded blocking_inv_def]
  let ?ws = "(y_worker s)(w := B_ran j)" and ?b = "blocking_ran j res err (y_pool s)"
  have pl: "places_ok q (y_worker s) (y_caller s) (job_view (y_pool s))" using i by blast
  have hj: "held (y_worker s w) = Some j" using w by simp
  note ph = places_held [OF pl hj]
  have h: "held (?ws v) = held (y_worker s v)" for v using w by simp
  have jv: "bj_done (job_view ?b u) = bj_done (job_view (y_pool s) u)" "bj_function (job_view ?b u) = bj_function (job_view (y_pool s) u)"
    "bj_arg (job_view ?b u) = bj_arg (job_view (y_pool s) u)" "bj_task (job_view ?b u) = bj_task (job_view (y_pool s) u)" for u
    by (simp_all add: job_view_def blocking_ran_def)
  have jo: "u \<noteq> j \<Longrightarrow> job_view ?b u = job_view (y_pool s) u" for u by (simp add: job_view_def blocking_ran_def)
  have jj: "bj_result (job_view ?b j) = res" "bj_errno (job_view ?b j) = err" by (simp_all add: job_view_def blocking_ran_def)
  have jb: "bj_function job = bj_function (job_view (y_pool s) j)" "bj_arg job = bj_arg (job_view (y_pool s) j)" by (simp_all add: job job_view_def)
  have nr: "y_worker s v \<noteq> B_ran j" for v using ph(4) [of v] w by auto
  have ro: "u \<noteq> j \<Longrightarrow> (\<exists>v. ?ws v = B_ran u) = (\<exists>v. y_worker s v = B_ran u)" for u by (rule worker_ex_upd) (use w in auto)
  have "log_ok ?ws (y_caller s) (job_view ?b) ((y_log s)(j := y_log s j @ [(bj_function job, bj_arg job, res, err)]))"
    unfolding log_ok_def
  proof (intro allI impI)
    fix u fn a
    assume c: "y_caller s u = C_calling fn a"
    have l: "bj_function (job_view (y_pool s) u) = fn \<and> bj_arg (job_view (y_pool s) u) = a \<and> bj_task (job_view (y_pool s) u) = u \<and>
      y_log s u = (if bj_done (job_view (y_pool s) u) \<or> (\<exists>w. y_worker s w = B_ran u)
        then [(fn, a, bj_result (job_view (y_pool s) u), bj_errno (job_view (y_pool s) u))] else [])"
      using i c unfolding log_ok_def by blast
    show "bj_function (job_view ?b u) = fn \<and> bj_arg (job_view ?b u) = a \<and> bj_task (job_view ?b u) = u \<and>
      ((y_log s)(j := y_log s j @ [(bj_function job, bj_arg job, res, err)])) u =
      (if bj_done (job_view ?b u) \<or> (\<exists>v. ?ws v = B_ran u) then [(fn, a, bj_result (job_view ?b u), bj_errno (job_view ?b u))] else [])"
    proof (cases "u = j")
      case True
      have "\<exists>v. ?ws v = B_ran j" by (intro exI [of _ w]) simp
      then show ?thesis using l nr ph(2) by (simp add: True jv jj jb)
    next
      case False
      then show ?thesis using l by (simp only: jo ro fun_upd_other not_False_eq_True simp_thms)
    qed
  qed
  moreover have "places_ok q ?ws (y_caller s) (job_view ?b)" using pl unfolding places_ok_def h jv .
  moreover have "wake_ok ?ws (y_caller s) (job_view ?b) (y_unparked s)"
  proof -
    have k: "(\<exists>v. ?ws v = B_unpark u) = (\<exists>v. y_worker s v = B_unpark u)" for u by (rule worker_ex_upd) (use w in auto)
    show ?thesis using i unfolding wake_ok_def k jv by blast
  qed
  moreover have "exit_ok q ?ws (bk_stop ?b)" by (rule exit_upd) (use i in \<open>auto simp: blocking_ran_def\<close>)
  moreover have "awake_ok n q ?ws" by (rule awake_more) (use i w in auto)
  moreover have "pool_view ?b q"
  proof -
    have "(\<lambda>u. bj_next (bk_job ?b u)) = (\<lambda>u. bj_next (bk_job (y_pool s) u))" by (auto simp: blocking_ran_def)
    then show ?thesis using i by (simp add: pool_view_def blocking_ran_def)
  qed
  ultimately show ?thesis by (simp add: blocking_inv_def)
qed


lemma inv_store:
  assumes inv: "blocking_inv n s q" and w: "y_worker s w = B_ran j"
  shows "blocking_inv n (s\<lparr>y_pool := blocking_done j (y_pool s), y_worker := (y_worker s)(w := B_unpark (bj_task (bk_job (y_pool s) j)))\<rparr>) q"
proof -
  note i = inv [unfolded blocking_inv_def]
  let ?b = "blocking_done j (y_pool s)"
  have pl: "places_ok q (y_worker s) (y_caller s) (job_view (y_pool s))" using i by blast
  have hj: "held (y_worker s w) = Some j" using w by simp
  note ph = places_held [OF pl hj]
  obtain fn a where cj: "y_caller s j = C_calling fn a" using ph(1) by blast
  have "bj_task (job_view (y_pool s) j) = j" using i cj unfolding log_ok_def by blast
  then have t: "bj_task (bk_job (y_pool s) j) = j" by (simp add: job_view_def)
  let ?ws = "(y_worker s)(w := B_unpark j)"
  have jo: "u \<noteq> j \<Longrightarrow> job_view ?b u = job_view (y_pool s) u" for u by (simp add: job_view_def blocking_done_def)
  have jj: "job_view ?b j = (job_view (y_pool s) j)\<lparr>bj_done := True\<rparr>" by (simp add: job_view_def blocking_done_def)
  have h: "(\<exists>v. held (?ws v) = Some u) \<longleftrightarrow> u \<noteq> j \<and> (\<exists>v. held (y_worker s v) = Some u)" for u
  proof (cases "u = j")
    case True
    have "held (?ws v) \<noteq> Some j" for v using ph(4) [of v] by (cases "v = w") auto
    then show ?thesis using True by blast
  next
    case False
    have "(\<exists>v. held (?ws v) = Some u) = (\<exists>v. held (y_worker s v) = Some u)" by (rule worker_ex_upd) (use hj False in auto)
    then show ?thesis using False by blast
  qed
  have "places_ok q ?ws (y_caller s) (job_view ?b)"
  proof -
    have live: "u \<in> set q \<or> (\<exists>v. held (?ws v) = Some u) \<longleftrightarrow> calling (y_caller s u) \<and> \<not> bj_done (job_view ?b u)" for u
    proof (cases "u = j")
      case True
      then show ?thesis using ph(3) h [of j] jj by simp
    next
      case False
      then show ?thesis using pl unfolding h jo [OF False] places_ok_def by blast
    qed
    have hd: "held (?ws v) = Some u \<Longrightarrow> held (y_worker s v) = Some u" for u v by (cases "v = w") auto
    show ?thesis
      by (rule places_okI [OF _ _ live]) (use places_held(3,4) [OF pl hd] hd in \<open>simp_all only: simp_thms\<close>)
  qed
  moreover have "log_ok ?ws (y_caller s) (job_view ?b) (y_log s)"
    unfolding log_ok_def
  proof (intro allI impI)
    fix u fn a
    assume c: "y_caller s u = C_calling fn a"
    have l: "bj_function (job_view (y_pool s) u) = fn \<and> bj_arg (job_view (y_pool s) u) = a \<and> bj_task (job_view (y_pool s) u) = u \<and>
      y_log s u = (if bj_done (job_view (y_pool s) u) \<or> (\<exists>w. y_worker s w = B_ran u)
        then [(fn, a, bj_result (job_view (y_pool s) u), bj_errno (job_view (y_pool s) u))] else [])"
      using i c unfolding log_ok_def by blast
    show "bj_function (job_view ?b u) = fn \<and> bj_arg (job_view ?b u) = a \<and> bj_task (job_view ?b u) = u \<and>
      y_log s u = (if bj_done (job_view ?b u) \<or> (\<exists>v. ?ws v = B_ran u) then [(fn, a, bj_result (job_view ?b u), bj_errno (job_view ?b u))] else [])"
    proof (cases "u = j")
      case True
      have "\<exists>v. y_worker s v = B_ran j" using w by blast
      then show ?thesis using l by (simp add: True jj)
    next
      case False
      have r: "(\<exists>v. ?ws v = B_ran u) = (\<exists>v. y_worker s v = B_ran u)" by (rule worker_ex_upd) (use w False in auto)
      show ?thesis unfolding jo [OF False] r by (rule l)
    qed
  qed
  moreover have "wake_ok ?ws (y_caller s) (job_view ?b) (y_unparked s)"
    unfolding wake_ok_def
  proof (intro allI impI)
    fix u
    assume c: "calling (y_caller s u)" and d: "bj_done (job_view ?b u)"
    show "u \<in> y_unparked s \<or> (\<exists>v. ?ws v = B_unpark u)"
    proof (cases "u = j")
      case True
      then show ?thesis by auto
    next
      case False
      have "u \<in> y_unparked s \<or> (\<exists>v. y_worker s v = B_unpark u)" using i c d unfolding jo [OF False] wake_ok_def by blast
      moreover have "(\<exists>v. ?ws v = B_unpark u) = (\<exists>v. y_worker s v = B_unpark u)" by (rule worker_ex_upd) (use w False in auto)
      ultimately show ?thesis by simp
    qed
  qed
  moreover have "exit_ok q ?ws (bk_stop ?b)" by (rule exit_upd) (use i in \<open>auto simp: blocking_done_def\<close>)
  moreover have "awake_ok n q ?ws" by (rule awake_more) (use i w in auto)
  moreover have "pool_view ?b q"
  proof -
    have "(\<lambda>u. bj_next (bk_job ?b u)) = (\<lambda>u. bj_next (bk_job (y_pool s) u))" by (auto simp: blocking_done_def)
    then show ?thesis using i by (simp add: pool_view_def blocking_done_def)
  qed
  ultimately show ?thesis unfolding t by (simp add: blocking_inv_def)
qed

lemma inv_unpark:
  assumes inv: "blocking_inv n s q" and w: "y_worker s w = B_unpark t"
  shows "blocking_inv n (s\<lparr>y_worker := (y_worker s)(w := B_ready), y_unparked := insert t (y_unparked s)\<rparr>) q"
proof -
  note i = inv [unfolded blocking_inv_def]
  let ?ws = "(y_worker s)(w := B_ready)"
  have h: "held (?ws v) = held (y_worker s v)" for v using w by simp
  have r: "(\<exists>v. ?ws v = B_ran u) = (\<exists>v. y_worker s v = B_ran u)" for u by (rule worker_ex_upd) (use w in auto)
  have k: "u \<in> insert t (y_unparked s) \<or> (\<exists>v. ?ws v = B_unpark u)" if "u \<in> y_unparked s \<or> (\<exists>v. y_worker s v = B_unpark u)" for u
  proof (cases "u = t")
    case False
    have "(\<exists>v. ?ws v = B_unpark u) = (\<exists>v. y_worker s v = B_unpark u)" by (rule worker_ex_upd) (use w False in auto)
    with that show ?thesis by blast
  qed simp
  have "places_ok q ?ws (y_caller s) (job_view (y_pool s))" using i unfolding places_ok_def h by blast
  moreover have "log_ok ?ws (y_caller s) (job_view (y_pool s)) (y_log s)" using i unfolding log_ok_def r by blast
  moreover have "wake_ok ?ws (y_caller s) (job_view (y_pool s)) (insert t (y_unparked s))" using i k unfolding wake_ok_def by blast
  moreover have "exit_ok q ?ws (bk_stop (y_pool s))" by (rule exit_upd) (use i in auto)
  moreover have "awake_ok n q ?ws" by (rule awake_more) (use i w in auto)
  ultimately show ?thesis using i by (simp add: blocking_inv_def)
qed


text \<open>A caller takes its result, and a task comes back; nobody else looks at the job.\<close>

lemma inv_caller:
  assumes inv: "blocking_inv n s q" and c: "\<not> calling (y_caller s u) \<or> bj_done (job_view (y_pool s) u)" and p: "\<not> calling p"
  shows "blocking_inv n (s\<lparr>y_caller := (y_caller s)(u := p)\<rparr>) q"
proof -
  note i = inv [unfolded blocking_inv_def]
  let ?cs = "(y_caller s)(u := p)"
  have k: "calling (?cs v) \<Longrightarrow> ?cs v = y_caller s v" for v using p by (cases "v = u") auto
  have "calling (?cs v) \<and> \<not> bj_done (job_view (y_pool s) v) \<longleftrightarrow> calling (y_caller s v) \<and> \<not> bj_done (job_view (y_pool s) v)" for v
    using c p by (cases "v = u") auto
  then have "places_ok q (y_worker s) ?cs (job_view (y_pool s)) = places_ok q (y_worker s) (y_caller s) (job_view (y_pool s))" by (rule places_cong)
  moreover note calling_frame [of ?cs "y_caller s" "job_view (y_pool s)" "job_view (y_pool s)", OF conjI [OF k refl]]
  ultimately show ?thesis using i by (simp add: blocking_inv_def)
qed

lemma inv_refused:
  assumes inv: "blocking_inv n s q" and u: "y_caller s u = C_outside" and e: "blocking_enqueue u fn a (y_pool s) = (Some st, b)"
  shows "blocking_inv n (s\<lparr>y_pool := b\<rparr>) q"
proof -
  note i = inv [unfolded blocking_inv_def]
  have pl: "places_ok q (y_worker s) (y_caller s) (job_view (y_pool s))" using i by blast
  have nu: "u \<notin> set q" using places_outside [OF pl, of u] u by auto
  note r = enqueue_refused [OF e conjunct1 [OF i] nu]
  have k: "calling (y_caller s v) \<Longrightarrow> job_view b v = job_view (y_pool s) v" for v using u r(3) [of v] by (cases "v = u") auto
  have "calling (y_caller s v) \<and> \<not> bj_done (job_view b v) \<longleftrightarrow> calling (y_caller s v) \<and> \<not> bj_done (job_view (y_pool s) v)" for v using k [of v] by auto
  then have "places_ok q (y_worker s) (y_caller s) (job_view b) = places_ok q (y_worker s) (y_caller s) (job_view (y_pool s))" by (rule places_cong)
  moreover note calling_frame [of "y_caller s" "y_caller s" "job_view b" "job_view (y_pool s)", OF conjI [OF refl k]]
  ultimately show ?thesis using i r(1,2) by (simp add: blocking_inv_def)
qed

lemma inv_stop:
  assumes inv: "blocking_inv n s q"
  shows "blocking_inv n (s\<lparr>y_pool := blocking_set_stop (y_pool s), y_worker := cond_broadcast (y_worker s)\<rparr>) q"
proof -
  note i = inv [unfolded blocking_inv_def]
  let ?ws = "cond_broadcast (y_worker s)"
  have h: "held (?ws v) = held (y_worker s v)" "?ws v = B_ran j \<longleftrightarrow> y_worker s v = B_ran j" "?ws v = B_unpark j \<longleftrightarrow> y_worker s v = B_unpark j"
    "?ws v = B_exited \<longleftrightarrow> y_worker s v = B_exited" "?ws v \<noteq> B_waiting" for v j by (auto simp: cond_broadcast_def)
  have b: "pool_view (blocking_set_stop (y_pool s)) = pool_view (y_pool s)"
    "job_view (blocking_set_stop (y_pool s)) = job_view (y_pool s)" "bk_stop (blocking_set_stop (y_pool s))"
    by (simp_all add: blocking_set_stop_def pool_view_def job_view_def fun_eq_iff)
  have "places_ok q ?ws = places_ok q (y_worker s)" "log_ok ?ws = log_ok (y_worker s)" "wake_ok ?ws = wake_ok (y_worker s)"
    unfolding places_ok_def log_ok_def wake_ok_def h by (rule refl)+
  moreover have "exit_ok q ?ws True" using i unfolding exit_ok_def h by blast
  moreover have "awake_ok n q ?ws" using h(5) unfolding awake_ok_def by blast
  ultimately show ?thesis using i b by (simp add: blocking_inv_def)
qed

lemma blocking_step_inv:
  assumes "blocking_step n s s'" and inv: "blocking_inv n s q"
  shows "\<exists>q'. blocking_inv n s' q'"
  using assms(1)
proof cases
  case (call u fn a b ws)
  then show ?thesis using inv_call [OF inv] by blast
next
  case (refused u fn a st b)
  then show ?thesis using inv_refused [OF inv] by blast
next
  case (take w r b)
  then show ?thesis using inv_take [OF inv] by blast
next
  case (wake w)
  have "idle (y_worker s w)" using wake by simp
  then have "blocking_inv n s' q"
    using inv wake idle_moves [of "y_worker s" w B_ready] exit_upd [of q "y_worker s" "bk_stop (y_pool s)" B_ready w]
      awake_more [of n q "y_worker s" w B_ready] by (simp add: blocking_inv_def)
  then show ?thesis ..
next
  case (run w j job res err)
  then show ?thesis using inv_run [OF inv] by blast
next
  case (store w j)
  then show ?thesis using inv_store [OF inv] by blast
next
  case (unpark w t)
  then show ?thesis using inv_unpark [OF inv] by blast
next
  case (return u fn a r)
  then show ?thesis using inv_caller [OF inv, of u "C_returned r"] by (auto simp: job_view_def blocking_return_def split: if_splits)
next
  case (again u r)
  then show ?thesis using inv_caller [OF inv, of u C_outside] by auto
next
  case stop
  then show ?thesis using inv_stop [OF inv] by blast
qed

lemma blocking_reachable_inv: "(blocking_step n)\<^sup>*\<^sup>* (blocking_start f) s \<Longrightarrow> \<exists>q. blocking_inv n s q"
proof (induction rule: rtranclp_induct)
  case base
  have "blocking_inv n (blocking_start f) []"
    by (simp add: blocking_inv_def blocking_start_def pool_view_def queue_rep_def places_ok_def log_ok_def wake_ok_def exit_ok_def awake_ok_def)
  then show ?case ..
next
  case (step s s')
  then show ?case using blocking_step_inv by blast
qed


section \<open>What the pool promises\<close>

text \<open>
  Claim C20. In every interleaving of callers, threads and a stop: a call that can return has had its function called exactly
  once, with its argument, and returns that result and \<open>errno\<close>; a job that a thread holds or that waits in the
  queue belongs to a task that is still in its call, so that no thread uses a job whose stack frame is gone;
  two threads never hold the same job; and a finished job whose task has not returned has been, or is about to be,
  unparked.
\<close>

theorem blocking_call_exact:
  assumes "(blocking_step n)\<^sup>*\<^sup>* (blocking_start f) s"
  shows "(y_caller s u = C_calling fn a \<longrightarrow> bj_done (bk_job (y_pool s) u) \<longrightarrow>
      y_log s u = [(fn, a, bj_result (bk_job (y_pool s) u), bj_errno (bk_job (y_pool s) u))] \<and>
      (u \<in> y_unparked s \<or> (\<exists>w. y_worker s w = B_unpark u))) \<and>
    (held (y_worker s w) = Some u \<longrightarrow> calling (y_caller s u) \<and> \<not> bj_done (bk_job (y_pool s) u)) \<and>
    (bk_head (y_pool s) = Some u \<longrightarrow> calling (y_caller s u) \<and> \<not> bj_done (bk_job (y_pool s) u)) \<and>
    (held (y_worker s w) = Some u \<longrightarrow> held (y_worker s w') = Some u \<longrightarrow> w' = w)"
proof -
  obtain q where inv: "blocking_inv n s q" using blocking_reachable_inv [OF assms] ..
  note i = inv [unfolded blocking_inv_def]
  have pl: "places_ok q (y_worker s) (y_caller s) (job_view (y_pool s))" using i by blast
  have jv: "bj_done (job_view (y_pool s) u) = bj_done (bk_job (y_pool s) u)" "bj_result (job_view (y_pool s) u) = bj_result (bk_job (y_pool s) u)"
    "bj_errno (job_view (y_pool s) u) = bj_errno (bk_job (y_pool s) u)" by (simp_all add: job_view_def)
  have "y_log s u = [(fn, a, bj_result (bk_job (y_pool s) u), bj_errno (bk_job (y_pool s) u))] \<and> (u \<in> y_unparked s \<or> (\<exists>w. y_worker s w = B_unpark u))"
    if "y_caller s u = C_calling fn a" "bj_done (bk_job (y_pool s) u)"
  proof
    have "log_ok (y_worker s) (y_caller s) (job_view (y_pool s)) (y_log s)" using i by blast
    then show "y_log s u = [(fn, a, bj_result (bk_job (y_pool s) u), bj_errno (bk_job (y_pool s) u))]"
      using that unfolding log_ok_def by (simp add: jv)
    have "wake_ok (y_worker s) (y_caller s) (job_view (y_pool s)) (y_unparked s)" using i by blast
    then show "u \<in> y_unparked s \<or> (\<exists>w. y_worker s w = B_unpark u)" using that unfolding wake_ok_def by (simp add: jv)
  qed
  moreover have "calling (y_caller s u) \<and> \<not> bj_done (bk_job (y_pool s) u)" if "held (y_worker s w) = Some u"
    using places_held(1,2) [OF pl that] by (simp add: jv)
  moreover have "calling (y_caller s u) \<and> \<not> bj_done (bk_job (y_pool s) u)" if "bk_head (y_pool s) = Some u"
  proof -
    have "u \<in> set q" using i that by (cases q) (auto simp: pool_view_def queue_rep_def)
    then show ?thesis using pl unfolding places_ok_def jv [symmetric] by blast
  qed
  ultimately show ?thesis using places_held(4) [OF pl] by blast
qed

text \<open>
  The pool is work conserving and loses no job: while some thread waits on the condition, the number of queued jobs
  is at most the number of threads that are awake and about to look at the queue; when a thread has exited, the
  pool is stopped and the queue is empty, and stays so, since further calls are refused.
\<close>

theorem blocking_work_conserving:
  assumes "(blocking_step n)\<^sup>*\<^sup>* (blocking_start f) s"
  shows "\<exists>q. queue_rep (\<lambda>j. bj_next (bk_job (y_pool s) j)) (bk_head (y_pool s)) (bk_tail (y_pool s)) q \<and>
    (w < n \<and> y_worker s w = B_waiting \<longrightarrow> length q \<le> card {v. v < n \<and> y_worker s v = B_ready}) \<and>
    (y_worker s w = B_exited \<longrightarrow> q = [] \<and> fst (blocking_enqueue u fn a (y_pool s)) = Some DLSM_GT_E_STATE)"
proof -
  obtain q where inv: "blocking_inv n s q" using blocking_reachable_inv [OF assms] ..
  then have "pool_view (y_pool s) q" "exit_ok q (y_worker s) (bk_stop (y_pool s))" "awake_ok n q (y_worker s)" by (auto simp: blocking_inv_def)
  then show ?thesis using enqueue_stopped by (intro exI [of _ q]) (auto simp: pool_view_def exit_ok_def awake_ok_def)
qed

text \<open>One call that was served: the states it goes through.\<close>

definition job0 :: blocking_job where
  "job0 = \<lparr>bj_function = 0, bj_arg = 0, bj_result = 0, bj_task = 0, bj_next = None, bj_done = False, bj_errno = 0\<rparr>"

lemma served_call:
  obtains s where "(blocking_step 1)\<^sup>*\<^sup>* (blocking_start (\<lambda>_. job0)) s" and "y_caller s 7 = C_calling 5 6"
    and "bj_done (bk_job (y_pool s) 7)" and "bj_result (bk_job (y_pool s) 7) = 42" and "y_worker s 0 = B_unpark 7"
proof -
  define s0 where "s0 = blocking_start (\<lambda>_. job0)"
  define b1 where "b1 = snd (blocking_enqueue 7 5 6 (y_pool s0))"
  define s1 where "s1 = s0\<lparr>y_pool := b1, y_worker := y_worker s0, y_caller := (y_caller s0)(7 := C_calling 5 6),
      y_log := (y_log s0)(7 := []), y_unparked := y_unparked s0 - {7}\<rparr>"
  define b2 where "b2 = snd (blocking_take b1)"
  define s2 where "s2 = s1\<lparr>y_pool := b2, y_worker := (y_worker s1)(0 := after_take (Take_job 7))\<rparr>"
  define s3 where "s3 = s2\<lparr>y_pool := blocking_ran 7 42 0 (y_pool s2), y_worker := (y_worker s2)(0 := B_ran 7),
      y_log := (y_log s2)(7 := y_log s2 7 @ [(bj_function (bk_job (y_pool s2) 7), bj_arg (bk_job (y_pool s2) 7), 42, 0)])\<rparr>"
  define s4 where "s4 = s3\<lparr>y_pool := blocking_done 7 (y_pool s3), y_worker := (y_worker s3)(0 := B_unpark (bj_task (bk_job (y_pool s3) 7)))\<rparr>"
  have "blocking_step 1 s0 s1" unfolding s1_def
    by (rule blocking_step.call) (auto simp: s0_def b1_def blocking_start_def blocking_enqueue_def cond_signal_def Let_def)
  moreover have "blocking_step 1 s1 s2" unfolding s2_def
    by (rule blocking_step.take)
      (auto simp: s0_def s1_def b1_def b2_def blocking_start_def blocking_enqueue_def blocking_take_def Let_def upd_job_def)
  moreover have "blocking_step 1 s2 s3" unfolding s3_def by (rule blocking_step.run) (auto simp: s2_def)
  moreover have "blocking_step 1 s3 s4" unfolding s4_def by (rule blocking_step.store) (auto simp: s3_def)
  ultimately have "(blocking_step 1)\<^sup>*\<^sup>* s0 s4" by (meson rtranclp.rtrancl_into_rtrancl rtranclp.rtrancl_refl)
  moreover have "y_caller s4 7 = C_calling 5 6" "bj_done (bk_job (y_pool s4) 7)" "bj_result (bk_job (y_pool s4) 7) = 42" "y_worker s4 0 = B_unpark 7"
    by (simp_all add: s4_def s3_def s2_def s1_def s0_def b2_def b1_def blocking_start_def blocking_enqueue_def blocking_take_def blocking_done_def
        blocking_ran_def Let_def upd_job_def)
  ultimately show thesis using that unfolding s0_def by blast
qed

theorem blocking_call_exact_witness:
  "\<exists>s :: blocking_sys. y_caller s 7 = C_calling 5 6 \<and> bj_done (bk_job (y_pool s) 7) \<and> (\<exists>e. y_log s 7 = [(5, 6, 42, e)])"
proof -
  obtain s where s: "(blocking_step 1)\<^sup>*\<^sup>* (blocking_start (\<lambda>_. job0)) s" "y_caller s 7 = C_calling 5 6"
    "bj_done (bk_job (y_pool s) 7)" "bj_result (bk_job (y_pool s) 7) = 42" by (rule served_call)
  then have "y_log s 7 = [(5, 6, 42, bj_errno (bk_job (y_pool s) 7))]" using blocking_call_exact [OF s(1), of 7 5 6] by simp
  with s(2,3) show ?thesis by blast
qed

theorem blocking_work_conserving_witness:
  "\<exists>q. queue_rep (\<lambda>j. bj_next (bk_job (y_pool (blocking_start (\<lambda>_. job0))) j)) None None q"
  using blocking_work_conserving [of 1 "\<lambda>_. job0" "blocking_start (\<lambda>_. job0)" 0 1 2 3]
  by (auto simp: blocking_start_def)

text \<open>
  The thread unparks the task after it has stored \<open>done\<close>. A task that an earlier unpark had woken sees \<open>done\<close>
  and returns before, and may have finished and been freed by the time it is unparked.
\<close>

lemma blocking_unpark_after_return:
  "\<exists>s r. (blocking_step 1)\<^sup>*\<^sup>* (blocking_start (\<lambda>_. job0)) s \<and> y_caller s 7 = C_returned r \<and> y_worker s 0 = B_unpark 7"
proof -
  obtain s where s: "(blocking_step 1)\<^sup>*\<^sup>* (blocking_start (\<lambda>_. job0)) s" "y_caller s 7 = C_calling 5 6"
    "bj_done (bk_job (y_pool s) 7)" "bj_result (bk_job (y_pool s) 7) = 42" "y_worker s 0 = B_unpark 7" by (rule served_call)
  define r where "r = (DLSM_OK, bj_result (bk_job (y_pool s) 7), bj_errno (bk_job (y_pool s) 7))"
  have "blocking_step 1 s (s\<lparr>y_caller := (y_caller s)(7 := C_returned r)\<rparr>)" unfolding r_def
    by (rule blocking_step.return [OF s(2)]) (use s(3) in \<open>simp add: blocking_return_def\<close>)
  then have "(blocking_step 1)\<^sup>*\<^sup>* (blocking_start (\<lambda>_. job0)) (s\<lparr>y_caller := (y_caller s)(7 := C_returned r)\<rparr>)"
    using s(1) by (meson rtranclp.rtrancl_into_rtrancl)
  then show ?thesis using s(5) by (intro exI [of _ "s\<lparr>y_caller := (y_caller s)(7 := C_returned r)\<rparr>"] exI [of _ r]) simp
qed

end
