(* ===== verification/Gt_Vps.thy ===== *)
theory Gt_Vps
  imports Dlsm_Prelude Intrusive_List
begin

text \<open>
  The table of virtual processors (\<^verbatim>\<open>libs/greenthread/src/greenthread.c\<close>): a list of chunks of 64 entries that only
  grows, so that processors are never moved while others use them. A processor's entry is a chunk and an index;
  allocations take the next answer of a list, \<open>None\<close> where \<open>calloc\<close> fails.
\<close>

section \<open>Chunks\<close>

abbreviation DLSM_GT_VPS_PER_CHUNK :: nat where "DLSM_GT_VPS_PER_CHUNK \<equiv> 64"

record vp_chunks =
  vc_head :: "addr option"
  vc_next :: "addr \<Rightarrow> addr option"

fun vp_at_from :: "(addr \<Rightarrow> addr option) \<Rightarrow> addr option \<Rightarrow> nat \<Rightarrow> (addr \<times> nat) option" where
  "vp_at_from nx None i = None"
| "vp_at_from nx (Some c) i = (if i \<ge> DLSM_GT_VPS_PER_CHUNK then vp_at_from nx (nx c) (i - DLSM_GT_VPS_PER_CHUNK) else Some (c, i))"

definition vp_at :: "vp_chunks \<Rightarrow> nat \<Rightarrow> (addr \<times> nat) option" where
  "vp_at t i = vp_at_from (vc_next t) (vc_head t) i"

text \<open>A new chunk is zeroed before it is published through the link.\<close>

definition link_chunk :: "addr link \<Rightarrow> addr \<Rightarrow> vp_chunks \<Rightarrow> vp_chunks" where
  "link_chunk l c t =
     (let t1 = t\<lparr>vc_next := (vc_next t)(c := None)\<rparr> in
      case l of Head_link \<Rightarrow> t1\<lparr>vc_head := Some c\<rparr> | Next_link a \<Rightarrow> t1\<lparr>vc_next := (vc_next t1)(a := Some c)\<rparr>)"

fun ensure_loop :: "nat \<Rightarrow> addr link \<Rightarrow> addr option list \<Rightarrow> vp_chunks \<Rightarrow> bool \<times> addr option list \<times> vp_chunks" where
  "ensure_loop 0 l al t = (True, al, t)"
| "ensure_loop (Suc n) l al t = (case deref_link (vc_next t) (vc_head t) l of
     Some c \<Rightarrow> ensure_loop n (Next_link c) al t
   | None \<Rightarrow> (case al of
       Some c # al' \<Rightarrow> ensure_loop n (Next_link c) al' (link_chunk l c t)
     | _ \<Rightarrow> (False, tl al, t)))"

definition ensure_vp_slot :: "nat \<Rightarrow> addr option list \<Rightarrow> vp_chunks \<Rightarrow> bool \<times> addr option list \<times> vp_chunks" where
  "ensure_vp_slot i = ensure_loop (i div DLSM_GT_VPS_PER_CHUNK + 1) Head_link"

text \<open>The chunks released by \<open>vp_chunks_free\<close>, in order; \<open>None\<close> if it does not end.\<close>

definition vp_chunks_free :: "vp_chunks \<Rightarrow> addr list option" where
  "vp_chunks_free t = walk (vc_next t) (vc_head t)"

definition chunk_list :: "vp_chunks \<Rightarrow> addr list \<Rightarrow> bool" where
  "chunk_list t cs \<longleftrightarrow> lseg (vc_next t) (vc_head t) cs None"

section \<open>Lookups\<close>

lemma vp_at_from_list:
  "lseg nx p cs None \<Longrightarrow> vp_at_from nx p i = (if i div 64 < length cs then Some (cs ! (i div 64), i mod 64) else None)"
proof (induction cs arbitrary: p i)
  case (Cons c cs)
  then have p: "p = Some c" and s: "lseg nx (nx c) cs None" by auto
  show ?case
  proof (cases "i \<ge> 64")
    case True
    then have d: "i div 64 = Suc ((i - 64) div 64)" "i mod 64 = (i - 64) mod 64" by (simp_all add: le_div_geq le_mod_geq)
    show ?thesis using Cons.IH [OF s, of "i - 64"] True p d by simp
  qed (simp add: p)
qed simp

lemma vp_at_list: "chunk_list t cs \<Longrightarrow> vp_at t i = (if i div 64 < length cs then Some (cs ! (i div 64), i mod 64) else None)"
  by (simp add: vp_at_def chunk_list_def vp_at_from_list)

lemma link_chunk_list:
  assumes "chunk_list t cs" and "c \<notin> set cs"
  shows "chunk_list (link_chunk (link_after cs) c t) (cs @ [c])"
proof (cases cs rule: rev_cases)
  case Nil
  then show ?thesis using assms by (simp add: chunk_list_def link_chunk_def)
next
  case (snoc as a)
  have "distinct cs" using assms(1) lseg_distinct unfolding chunk_list_def by blast
  moreover have "lseg (vc_next t) (vc_head t) as (Some a)" using snoc assms(1) by (auto simp: chunk_list_def lseg_append)
  ultimately show ?thesis using snoc assms(2) by (auto simp: chunk_list_def link_chunk_def lseg_append Let_def)
qed

section \<open>Growing\<close>

text \<open>The chunks a list of answers provides.\<close>

primrec allocated :: "addr option list \<Rightarrow> addr list" where
  "allocated [] = []"
| "allocated (x # xs) = (case x of None \<Rightarrow> allocated xs | Some c \<Rightarrow> c # allocated xs)"

definition fresh_allocs :: "addr option list \<Rightarrow> addr list \<Rightarrow> bool" where
  "fresh_allocs al cs \<longleftrightarrow> distinct (allocated al) \<and> set (allocated al) \<inter> set cs = {}"

lemma fresh_allocs_Some: "fresh_allocs (Some c # al) cs \<Longrightarrow> c \<notin> set cs \<and> fresh_allocs al (cs @ [c])"
  by (auto simp: fresh_allocs_def)

text \<open>The chunks of the list stay where they are; new ones come behind them, and enough if all allocations succeed.\<close>

lemma ensure_loop_list:
  assumes "ensure_loop n (link_after us) al t = (ok, al', t')" and "chunk_list t (us @ xs)" and "fresh_allocs al (us @ xs)"
  shows "\<exists>new. chunk_list t' (us @ xs @ new) \<and> fresh_allocs al' (us @ xs @ new) \<and> (ok \<longrightarrow> n \<le> length xs + length new) \<and>
    allocated al = new @ allocated al'"
  using assms
proof (induction n arbitrary: us xs al t)
  case 0
  then show ?case by (intro exI [of _ "[]"]) simp
next
  case (Suc n)
  have d: "deref_link (vc_next t) (vc_head t) (link_after us) = (case xs of [] \<Rightarrow> None | x # _ \<Rightarrow> Some x)"
    by (rule deref_link_after) (use Suc.prems(2) in \<open>simp add: chunk_list_def\<close>)
  show ?case
  proof (cases xs)
    case (Cons x ys)
    then have e: "ensure_loop n (link_after (us @ [x])) al t = (ok, al', t')" using Suc.prems(1) d by simp
    then obtain new where "chunk_list t' ((us @ [x]) @ ys @ new)" "fresh_allocs al' ((us @ [x]) @ ys @ new)" "ok \<longrightarrow> n \<le> length ys + length new"
      "allocated al = new @ allocated al'"
      using Suc.IH [OF e, of ys] Suc.prems(2,3) Cons by auto
    then show ?thesis using Cons by (intro exI [of _ new]) simp
  next
    case Nil
    show ?thesis
    proof (cases "\<exists>c al2. al = Some c # al2")
      case True
      then obtain c al2 where al: "al = Some c # al2" by auto
      then have e: "ensure_loop n (link_after (us @ [c])) al2 (link_chunk (link_after us) c t) = (ok, al', t')" using Suc.prems(1) d Nil by simp
      have f: "c \<notin> set us" "fresh_allocs al2 (us @ [c])" using fresh_allocs_Some Suc.prems(3) al Nil by auto
      have "chunk_list (link_chunk (link_after us) c t) ((us @ [c]) @ [])" using link_chunk_list [of t us c] Suc.prems(2) Nil f(1) by simp
      then obtain new where "chunk_list t' ((us @ [c]) @ [] @ new)" "fresh_allocs al' ((us @ [c]) @ [] @ new)" "ok \<longrightarrow> n \<le> length ([] :: addr list) + length new"
        "allocated al2 = new @ allocated al'"
        using Suc.IH [OF e, of "[]"] f(2) by auto
      then show ?thesis using Nil by (intro exI [of _ "c # new"]) (simp add: al)
    next
      case False
      then have "(ok, al', t') = (False, tl al, t)" using Suc.prems(1) d Nil by (auto split: list.splits option.splits)
      moreover have "allocated al = allocated (tl al)" using False
        by (cases al; cases "hd al") auto
      moreover have "fresh_allocs (tl al) us" using Suc.prems(3) Nil False
        by (cases al; cases "hd al") (auto simp: fresh_allocs_def)
      ultimately show ?thesis using Suc.prems(2) Nil by (intro exI [of _ "[]"]) simp
    qed
  qed
qed

lemma ensure_vp_slot_list:
  assumes "ensure_vp_slot i al t = (ok, al', t')" and "chunk_list t cs" and "fresh_allocs al cs"
  obtains new where "chunk_list t' (cs @ new)" and "fresh_allocs al' (cs @ new)" and "ok \<Longrightarrow> i div 64 < length (cs @ new)"
    and "allocated al = new @ allocated al'"
proof -
  have "ensure_loop (i div 64 + 1) (link_after []) al t = (ok, al', t')" using assms(1) by (simp add: ensure_vp_slot_def)
  from ensure_loop_list [OF this, of cs] assms(2,3) obtain new where
    "chunk_list t' (cs @ new)" "fresh_allocs al' (cs @ new)" "ok \<longrightarrow> i div 64 + 1 \<le> length cs + length new"
    "allocated al = new @ allocated al'" by auto
  then show thesis using that by auto
qed

text \<open>The table as reached by any sequence of calls of \<open>ensure_vp_slot\<close> from the empty one.\<close>

inductive table_reached :: "addr option list \<Rightarrow> vp_chunks \<Rightarrow> bool" where
  empty: "distinct (allocated al) \<Longrightarrow> table_reached al \<lparr>vc_head = None, vc_next = nx\<rparr>"
| ensure: "table_reached al t \<Longrightarrow> ensure_vp_slot i al t = (ok, al', t') \<Longrightarrow> table_reached al' t'"

lemma table_reached_list: "table_reached al t \<Longrightarrow> \<exists>cs. chunk_list t cs \<and> fresh_allocs al cs"
proof (induction rule: table_reached.induct)
  case (empty al nx)
  then show ?case by (intro exI [of _ "[]"]) (simp add: chunk_list_def fresh_allocs_def)
next
  case (ensure al t i ok al' t')
  then show ?case using ensure_vp_slot_list by metis
qed

text \<open>
  Processors have addresses of their own that never change: in a table grown by any calls, two different processors
  never share an entry; a further call leaves the entry of every processor that has one where it is, so that
  readers need no lock, and when it succeeds the new processor has one; and \<open>vp_chunks_free\<close> ends and releases
  every chunk once.
\<close>

theorem vp_slots_stable:
  assumes "table_reached al t" and "ensure_vp_slot i al t = (ok, al', t')"
  shows "(vp_at t j \<noteq> None \<longrightarrow> vp_at t' j = vp_at t j) \<and> (ok \<longrightarrow> vp_at t' i \<noteq> None) \<and>
    (vp_at t' j = vp_at t' k \<longrightarrow> vp_at t' j \<noteq> None \<longrightarrow> j = k) \<and>
    (\<exists>cs. vp_chunks_free t' = Some cs \<and> distinct cs \<and> (vp_at t' j = Some (c, x) \<longrightarrow> c \<in> set cs \<and> x < DLSM_GT_VPS_PER_CHUNK))"
proof -
  obtain cs where cs: "chunk_list t cs" "fresh_allocs al cs" using table_reached_list [OF assms(1)] by blast
  from ensure_vp_slot_list [OF assms(2) cs] obtain new where new: "chunk_list t' (cs @ new)" "ok \<Longrightarrow> i div 64 < length (cs @ new)" by blast
  note at = vp_at_list [OF cs(1)] vp_at_list [OF new(1)]
  have dist: "distinct (cs @ new)" using new(1) lseg_distinct unfolding chunk_list_def by blast
  have "vp_at t j \<noteq> None \<longrightarrow> vp_at t' j = vp_at t j" by (simp add: at nth_append)
  moreover have "ok \<longrightarrow> vp_at t' i \<noteq> None" using new(2) by (simp add: at)
  moreover have "j = k" if "vp_at t' j = vp_at t' k" "vp_at t' j \<noteq> None"
  proof -
    have l: "j div 64 < length (cs @ new)" "k div 64 < length (cs @ new)" "(cs @ new) ! (j div 64) = (cs @ new) ! (k div 64)" "j mod 64 = k mod 64"
      using that by (auto simp: at split: if_splits)
    then have "j div 64 = k div 64" using nth_eq_iff_index_eq [OF dist] by blast
    then show ?thesis using l(4) by (metis div_mult_mod_eq)
  qed
  moreover have "vp_chunks_free t' = Some (cs @ new)" using new(1) by (simp add: vp_chunks_free_def chunk_list_def walk_lseg)
  moreover have "vp_at t' j = Some (c, x) \<longrightarrow> c \<in> set (cs @ new) \<and> x < DLSM_GT_VPS_PER_CHUNK"
    by (auto simp: at simp del: set_append intro: nth_mem split: if_splits)
  ultimately show ?thesis using dist by blast
qed

theorem vp_slots_stable_witness:
  "\<exists>t ok al'. ensure_vp_slot 70 [Some 3, Some 9] \<lparr>vc_head = None, vc_next = \<lambda>_. None\<rparr> = (ok, al', t) \<and> ok \<and> vp_at t 70 \<noteq> None"
proof -
  let ?t = "\<lparr>vc_head = None, vc_next = \<lambda>_. None\<rparr>"
  have r: "table_reached [Some 3, Some 9] ?t" by (rule table_reached.empty) simp
  obtain ok al' t where e: "ensure_vp_slot 70 [Some 3, Some 9] ?t = (ok, al', t)" by (cases "ensure_vp_slot 70 [Some 3, Some 9] ?t")
  have "(70 :: nat) div 64 + 1 = Suc (Suc 0)" by simp
  then have "fst (ensure_vp_slot 70 [Some 3, Some 9] ?t)" unfolding ensure_vp_slot_def by (simp add: link_chunk_def Let_def)
  then show ?thesis using vp_slots_stable [OF r e, of 0 0 0 0] e by auto
qed

end
