(* ===== verification/Gt_Context.thy ===== *)
theory Gt_Context
  imports Dlsm_Prelude
begin

text \<open>
  Stacks and context switches (\<^verbatim>\<open>libs/greenthread/src/context_x86_64.S\<close> and \<open>make_stack\<close> of
  \<^verbatim>\<open>libs/greenthread/src/greenthread.c\<close>). Memory is a function from 64-bit addresses to bytes, integers are stored with
  their least significant byte first, and the processor has the registers that the routines touch. Each
  instruction of the assembly is one function on the processor.
\<close>

unbundle bit_operations_syntax

section \<open>Memory\<close>

type_synonym u16 = "16 word"
type_synonym memory = "u64 \<Rightarrow> u8"

primrec bytes_of :: "nat \<Rightarrow> nat \<Rightarrow> u8 list" where
  "bytes_of 0 v = []"
| "bytes_of (Suc n) v = of_nat (v mod 256) # bytes_of n (v div 256)"

primrec nat_of_bytes :: "u8 list \<Rightarrow> nat" where
  "nat_of_bytes [] = 0"
| "nat_of_bytes (b # bs) = unat b + 256 * nat_of_bytes bs"

text \<open>Addresses wrap around, as the hardware computes them.\<close>

definition stores :: "u64 \<Rightarrow> u8 list \<Rightarrow> memory \<Rightarrow> memory" where
  "stores a bs m x = (if unat (x - a) < length bs then bs ! unat (x - a) else m x)"

definition loads :: "nat \<Rightarrow> u64 \<Rightarrow> memory \<Rightarrow> u8 list" where
  "loads n a m = map (\<lambda>i. m (a + of_nat i)) [0..<n]"

definition store64 :: "u64 \<Rightarrow> u64 \<Rightarrow> memory \<Rightarrow> memory" where "store64 a v = stores a (bytes_of 8 (unat v))"
definition store32 :: "u64 \<Rightarrow> u32 \<Rightarrow> memory \<Rightarrow> memory" where "store32 a v = stores a (bytes_of 4 (unat v))"
definition store16 :: "u64 \<Rightarrow> u16 \<Rightarrow> memory \<Rightarrow> memory" where "store16 a v = stores a (bytes_of 2 (unat v))"
definition load64 :: "u64 \<Rightarrow> memory \<Rightarrow> u64" where "load64 a m = of_nat (nat_of_bytes (loads 8 a m))"
definition load32 :: "u64 \<Rightarrow> memory \<Rightarrow> u32" where "load32 a m = of_nat (nat_of_bytes (loads 4 a m))"
definition load16 :: "u64 \<Rightarrow> memory \<Rightarrow> u16" where "load16 a m = of_nat (nat_of_bytes (loads 2 a m))"

lemma length_bytes_of [simp]: "length (bytes_of n v) = n"
  by (induction n arbitrary: v) simp_all

lemma nat_of_bytes_of: "nat_of_bytes (bytes_of n v) = v mod 256 ^ n"
proof (induction n arbitrary: v)
  case (Suc n)
  have "unat (of_nat (v mod 256) :: u8) = v mod 256" by (simp add: unat_of_nat)
  then show ?case using Suc by (simp add: mod_mult2_eq mult.commute)
qed simp

lemma loads_stores_same: "length bs < 2 ^ 64 \<Longrightarrow> loads (length bs) a (stores a bs m) = bs"
  by (rule nth_equalityI) (simp_all add: loads_def stores_def unat_of_nat)

text \<open>A read and a write at two offsets from one address, within 64 bytes, that do not overlap.\<close>

lemma loads_stores_apart:
  assumes "unat i + n \<le> unat j \<or> unat j + length bs \<le> unat i" and "unat i + n \<le> 64" and "unat j + length bs \<le> 64"
  shows "loads n (f + i) (stores (f + j) bs m) = loads n (f + i) m"
proof (rule nth_equalityI)
  fix k
  assume "k < length (loads n (f + i) (stores (f + j) bs m))"
  then have k: "k < n" by (simp add: loads_def)
  let ?d = "i + of_nat k - j"
  have s: "unat (i + of_nat k) = unat i + k" using k assms(2) by (subst unat_add_no_overflow) (simp_all add: unat_of_nat)
  have "\<not> unat ?d < length bs"
  proof (cases "unat j \<le> unat i + k")
    case True
    then have "unat ?d = unat i + k - unat j" using s by (simp add: unat_sub word_le_nat_alt)
    then show ?thesis using True assms(1) k by linarith
  next
    case False
    then have "unat ?d = 18446744073709551616 + (unat i + k) - unat j"
      using s u64_add_overflow_less [of j] by (simp add: unat_sub_if_size word_size word_le_nat_alt)
    then show ?thesis using False assms k by linarith
  qed
  moreover have d: "f + i + of_nat k - (f + j) = ?d" by simp
  ultimately have "stores (f + j) bs m (f + i + of_nat k) = m (f + i + of_nat k)" unfolding stores_def d by (intro if_not_P)
  then show "loads n (f + i) (stores (f + j) bs m) ! k = loads n (f + i) m ! k" using k by (simp add: loads_def)
qed (simp add: loads_def)

lemma loads_cong: "(\<And>k. k < n \<Longrightarrow> m (a + of_nat k) = m' (a + of_nat k)) \<Longrightarrow> loads n a m = loads n a m'"
  by (simp add: loads_def)

lemma load_store_same [simp]:
  "load64 a (store64 a v m) = v" "load32 a (store32 a w m) = w" "load16 a (store16 a x m) = x"
proof -
  have l: "loads n a (stores a (bytes_of n k) m) = bytes_of n k" if "n < 2 ^ 64" for n k
    using loads_stores_same [of "bytes_of n k" a m] that by simp
  show "load64 a (store64 a v m) = v" using l [of 8 "unat v"] unsigned_less [of v, where ?'a = nat]
    by (simp add: load64_def store64_def nat_of_bytes_of)
  show "load32 a (store32 a w m) = w" using l [of 4 "unat w"] unsigned_less [of w, where ?'a = nat]
    by (simp add: load32_def store32_def nat_of_bytes_of)
  show "load16 a (store16 a x m) = x" using l [of 2 "unat x"] unsigned_less [of x, where ?'a = nat]
    by (simp add: load16_def store16_def nat_of_bytes_of)
qed

section \<open>The switch\<close>

record cpu =
  rsp :: u64
  rbp :: u64
  rbx :: u64
  r12 :: u64
  r13 :: u64
  r14 :: u64
  r15 :: u64
  rdi :: u64
  rip :: u64
  mxcsr :: u32
  x87cw :: u16
  mem :: memory

definition pushq :: "u64 \<Rightarrow> cpu \<Rightarrow> cpu" where
  "pushq v s = s\<lparr>rsp := rsp s - 8, mem := store64 (rsp s - 8) v (mem s)\<rparr>"

definition popq :: "(u64 \<Rightarrow> cpu \<Rightarrow> cpu) \<Rightarrow> cpu \<Rightarrow> cpu" where
  "popq set_reg s = set_reg (load64 (rsp s) (mem s)) (s\<lparr>rsp := rsp s + 8\<rparr>)"

text \<open>Up to the store of the stack pointer, \<open>save_rsp\<close> in \<open>rdi\<close>.\<close>

definition ctx_save :: "u64 \<Rightarrow> cpu \<Rightarrow> cpu" where
  "ctx_save save s =
     (let s1 = pushq (rbp s) s; s2 = pushq (rbx s1) s1; s3 = pushq (r12 s2) s2; s4 = pushq (r13 s3) s3;
          s5 = pushq (r14 s4) s4; s6 = pushq (r15 s5) s5;
          s7 = s6\<lparr>rsp := rsp s6 - 8\<rparr>;
          s8 = s7\<lparr>mem := store32 (rsp s7) (mxcsr s7) (mem s7)\<rparr>;
          s9 = s8\<lparr>mem := store16 (rsp s8 + 4) (x87cw s8) (mem s8)\<rparr> in
      s9\<lparr>mem := store64 save (rsp s9) (mem s9)\<rparr>)"

text \<open>From the load of the new stack pointer, \<open>restore_rsp\<close> in \<open>rsi\<close>, to \<open>ret\<close>.\<close>

definition ctx_restore :: "u64 \<Rightarrow> cpu \<Rightarrow> cpu" where
  "ctx_restore sp s =
     (let s1 = s\<lparr>rsp := sp\<rparr>;
          s2 = s1\<lparr>mxcsr := load32 (rsp s1) (mem s1)\<rparr>;
          s3 = s2\<lparr>x87cw := load16 (rsp s2 + 4) (mem s2)\<rparr>;
          s4 = s3\<lparr>rsp := rsp s3 + 8\<rparr>;
          s5 = popq (\<lambda>v x. x\<lparr>r15 := v\<rparr>) s4; s6 = popq (\<lambda>v x. x\<lparr>r14 := v\<rparr>) s5; s7 = popq (\<lambda>v x. x\<lparr>r13 := v\<rparr>) s6;
          s8 = popq (\<lambda>v x. x\<lparr>r12 := v\<rparr>) s7; s9 = popq (\<lambda>v x. x\<lparr>rbx := v\<rparr>) s8; s10 = popq (\<lambda>v x. x\<lparr>rbp := v\<rparr>) s9 in
      popq (\<lambda>v x. x\<lparr>rip := v\<rparr>) s10)"

definition dlsm_gt_ctx_switch :: "u64 \<Rightarrow> u64 \<Rightarrow> cpu \<Rightarrow> cpu" where
  "dlsm_gt_ctx_switch save restore s = ctx_restore restore (ctx_save save s)"

text \<open>The first two instructions of the trampoline; \<open>next_rip\<close> is the address of the one after the call.\<close>

definition dlsm_gt_trampoline :: "u64 \<Rightarrow> cpu \<Rightarrow> cpu" where
  "dlsm_gt_trampoline next_rip s =
     (let s1 = s\<lparr>rdi := r13 s\<rparr>; s2 = pushq next_rip s1 in s2\<lparr>rip := r12 s2\<rparr>)"

text \<open>The frame of a suspended context: what the switch reads from the 64 bytes at the saved stack pointer.\<close>

record ctx_frame =
  f_mxcsr :: u32
  f_x87cw :: u16
  f_r15 :: u64
  f_r14 :: u64
  f_r13 :: u64
  f_r12 :: u64
  f_rbx :: u64
  f_rbp :: u64
  f_ret :: u64

definition frame_at :: "u64 \<Rightarrow> memory \<Rightarrow> ctx_frame" where
  "frame_at f m = \<lparr>f_mxcsr = load32 f m, f_x87cw = load16 (f + 4) m, f_r15 = load64 (f + 8) m, f_r14 = load64 (f + 16) m,
     f_r13 = load64 (f + 24) m, f_r12 = load64 (f + 32) m, f_rbx = load64 (f + 40) m, f_rbp = load64 (f + 48) m, f_ret = load64 (f + 56) m\<rparr>"

lemma ctx_restore_frame:
  "ctx_restore f s = s\<lparr>rsp := f + 64, mxcsr := f_mxcsr (frame_at f (mem s)), x87cw := f_x87cw (frame_at f (mem s)),
     r15 := f_r15 (frame_at f (mem s)), r14 := f_r14 (frame_at f (mem s)), r13 := f_r13 (frame_at f (mem s)),
     r12 := f_r12 (frame_at f (mem s)), rbx := f_rbx (frame_at f (mem s)), rbp := f_rbp (frame_at f (mem s)),
     rip := f_ret (frame_at f (mem s))\<rparr>"
  by (simp add: ctx_restore_def popq_def Let_def frame_at_def add.assoc)

text \<open>Two ranges of addresses without a common one.\<close>

definition apart :: "u64 \<Rightarrow> nat \<Rightarrow> u64 \<Rightarrow> nat \<Rightarrow> bool" where
  "apart a n b k \<longleftrightarrow> (\<forall>x. \<not> (unat (x - a) < n \<and> unat (x - b) < k))"

lemma stores_apart: "apart a (length bs) b k \<Longrightarrow> unat (x - b) < k \<Longrightarrow> stores a bs m x = m x"
  by (auto simp: apart_def stores_def)

lemma frame_cong:
  assumes "\<And>x. unat (x - f) < 64 \<Longrightarrow> m x = m' x"
  shows "frame_at f m = frame_at f m'"
proof -
  have "loads n (f + i) m = loads n (f + i) m'" if "unat i + n \<le> 64" for n i
  proof (rule loads_cong)
    fix k
    assume "k < n"
    then have "unat (f + i + of_nat k - f) = unat i + k" using that by (simp add: unat_add_no_overflow unat_of_nat)
    then show "m (f + i + of_nat k) = m' (f + i + of_nat k)" using assms \<open>k < n\<close> that by simp
  qed
  from this [of 0 4] this [of 4 2] this [of 8 8] this [of 16 8] this [of 24 8] this [of 32 8] this [of 40 8] this [of 48 8] this [of 56 8]
  show ?thesis by (simp add: frame_at_def load64_def load32_def load16_def)
qed

text \<open>Reads and writes of different fields of one frame.\<close>

lemma field_apart:
  "unat i + 8 \<le> unat j \<or> unat j + 8 \<le> unat i \<Longrightarrow> unat i \<le> 56 \<Longrightarrow> unat j \<le> 56 \<Longrightarrow> load64 (f + i) (store64 (f + j) v m) = load64 (f + i) m"
  "8 \<le> unat i \<Longrightarrow> unat i \<le> 56 \<Longrightarrow> load64 (f + i) (store32 f w m) = load64 (f + i) m"
  "8 \<le> unat i \<Longrightarrow> unat i \<le> 56 \<Longrightarrow> load64 (f + i) (store16 (f + 4) x m) = load64 (f + i) m"
  "load32 f (store16 (f + 4) x m) = load32 f m"
  using loads_stores_apart [of i 8 j "bytes_of 8 (unat v)" f m] loads_stores_apart [of i 8 0 "bytes_of 4 (unat w)" f m]
    loads_stores_apart [of i 8 4 "bytes_of 2 (unat x)" f m] loads_stores_apart [of 0 4 4 "bytes_of 2 (unat x)" f m]
  by (simp_all add: load64_def load32_def store64_def store32_def store16_def)

definition frame_stores :: "u64 \<Rightarrow> ctx_frame \<Rightarrow> memory \<Rightarrow> memory" where
  "frame_stores f c m =
     store16 (f + 4) (f_x87cw c) (store32 f (f_mxcsr c) (store64 (f + 8) (f_r15 c) (store64 (f + 16) (f_r14 c) (store64 (f + 24) (f_r13 c)
       (store64 (f + 32) (f_r12 c) (store64 (f + 40) (f_rbx c) (store64 (f + 48) (f_rbp c) m)))))))"

lemma frame_at_stores: "frame_at f (frame_stores f c m) = c\<lparr>f_ret := load64 (f + 56) m\<rparr>"
  by (simp add: frame_at_def frame_stores_def field_apart)

text \<open>What saving a context leaves in memory: its frame, below the return address, and the pointer to it.\<close>

definition saved_frame :: "cpu \<Rightarrow> ctx_frame" where
  "saved_frame s = \<lparr>f_mxcsr = mxcsr s, f_x87cw = x87cw s, f_r15 = r15 s, f_r14 = r14 s, f_r13 = r13 s, f_r12 = r12 s, f_rbx = rbx s,
     f_rbp = rbp s, f_ret = load64 (rsp s) (mem s)\<rparr>"

lemma ctx_save_effect:
  "ctx_save save s = s\<lparr>rsp := rsp s - 56, mem := store64 save (rsp s - 56) (frame_stores (rsp s - 56) (saved_frame s) (mem s))\<rparr>"
  by (simp add: ctx_save_def pushq_def Let_def frame_stores_def saved_frame_def diff_diff_eq)

lemma stores_below:
  assumes "unat j + length bs \<le> k" and "\<not> unat (x - f) < k"
  shows "stores (f + j) bs m x = m x"
proof -
  have "\<not> unat (x - (f + j)) < length bs"
  proof
    assume l: "unat (x - (f + j)) < length bs"
    have "unat (x - f) = unat ((x - (f + j)) + j)" by simp
    also have "\<dots> \<le> unat (x - (f + j)) + unat j" by (metis unat_word_ariths(1) mod_less_eq_dividend)
    also have "\<dots> < k" using l assms(1) by linarith
    finally show False using assms(2) by simp
  qed
  then show ?thesis by (simp add: stores_def)
qed

lemma frame_stores_other: "\<not> unat (x - f) < 56 \<Longrightarrow> frame_stores f c m x = m x"
  using stores_below [of 4 _ 56 x f] stores_below [of 0 _ 56 x f] stores_below [of 8 _ 56 x f] stores_below [of 16 _ 56 x f]
    stores_below [of 24 _ 56 x f] stores_below [of 32 _ 56 x f] stores_below [of 40 _ 56 x f] stores_below [of 48 _ 56 x f]
  by (simp add: frame_stores_def store64_def store32_def store16_def)

lemma ctx_save_mem:
  assumes "apart save 8 f n" and "apart (rsp s - 56) 56 f n" and "unat (x - f) < n"
  shows "mem (ctx_save save s) x = mem s x"
proof -
  have "mem (ctx_save save s) x = frame_stores (rsp s - 56) (saved_frame s) (mem s) x"
    using stores_apart [OF _ assms(3), of save "bytes_of 8 (unat (rsp s - 56))"] assms(1) by (simp add: ctx_save_effect store64_def)
  also have "\<dots> = mem s x" using assms(2,3) by (intro frame_stores_other) (auto simp: apart_def)
  finally show ?thesis .
qed

lemma ctx_save_frame:
  assumes "apart save 8 (rsp s - 56) 64"
  shows "frame_at (rsp s - 56) (mem (ctx_save save s)) = saved_frame s"
proof -
  have "frame_at (rsp s - 56) (mem (ctx_save save s)) = frame_at (rsp s - 56) (frame_stores (rsp s - 56) (saved_frame s) (mem s))"
    by (rule frame_cong) (use assms in \<open>auto simp: ctx_save_effect store64_def intro: stores_apart\<close>)
  then show ?thesis by (simp add: frame_at_stores saved_frame_def)
qed


text \<open>
  Claim C8. Switching away and back loses nothing. A context that switches away with its stack pointer kept at \<open>save\<close> is
  resumed by a later switch to the pointer kept there, from whatever context: it continues after its call with
  its stack pointer and all registers a function must preserve, the floating point control words included, if
  nobody wrote into its 64 bytes of frame or the pointer meanwhile, and the other context's stack is elsewhere.
\<close>

theorem context_switch_roundtrip:
  assumes "apart save 8 (rsp s - 56) 64"
    and kept: "\<And>x. unat (x - (rsp s - 56)) < 64 \<or> unat (x - save) < 8 \<Longrightarrow> mem s2 x = mem (dlsm_gt_ctx_switch save other s) x"
    and "apart save2 8 (rsp s - 56) 64" and "apart (rsp s2 - 56) 56 (rsp s - 56) 64"
  defines "s3 \<equiv> dlsm_gt_ctx_switch save2 (load64 save (mem s2)) s2"
  shows "rsp s3 = rsp s + 8 \<and> rip s3 = load64 (rsp s) (mem s) \<and> rbp s3 = rbp s \<and> rbx s3 = rbx s \<and> r12 s3 = r12 s \<and>
    r13 s3 = r13 s \<and> r14 s3 = r14 s \<and> r15 s3 = r15 s \<and> mxcsr s3 = mxcsr s \<and> x87cw s3 = x87cw s"
proof -
  let ?f = "rsp s - 56" and ?s1 = "ctx_save save s"
  have m1: "mem (dlsm_gt_ctx_switch save other s) = mem ?s1" by (simp add: dlsm_gt_ctx_switch_def ctx_restore_frame)
  have "loads 8 save (mem s2) = loads 8 save (mem ?s1)"
  proof (rule loads_cong)
    fix k :: nat
    assume "k < 8"
    then have "unat (save + of_nat k - save) < 8" by (simp add: unat_of_nat)
    then show "mem s2 (save + of_nat k) = mem ?s1 (save + of_nat k)" using kept m1 by simp
  qed
  then have "load64 save (mem s2) = load64 save (mem ?s1)" by (simp add: load64_def)
  then have p: "load64 save (mem s2) = ?f" by (simp add: ctx_save_effect)
  have "frame_at ?f (mem (ctx_save save2 s2)) = frame_at ?f (mem s2)"
    by (rule frame_cong) (use ctx_save_mem [OF assms(3,4)] in simp)
  also have "\<dots> = frame_at ?f (mem ?s1)" by (rule frame_cong) (use kept m1 in simp)
  also have "\<dots> = saved_frame s" using assms(1) by (rule ctx_save_frame)
  finally have "frame_at ?f (mem (ctx_save save2 s2)) = saved_frame s" .
  then show ?thesis unfolding s3_def p by (simp add: dlsm_gt_ctx_switch_def ctx_restore_frame saved_frame_def)
qed

definition blank_cpu :: cpu where
  "blank_cpu = \<lparr>rsp = 4096, rbp = 1, rbx = 2, r12 = 3, r13 = 4, r14 = 5, r15 = 6, rdi = 0, rip = 0, mxcsr = 0x1F80, x87cw = 0x37F, mem = \<lambda>_. 0\<rparr>"

lemma apartI: "unat a + n \<le> unat b \<Longrightarrow> unat b + k < 2 ^ 64 \<Longrightarrow> apart a n b k"
proof -
  assume 1: "unat a + n \<le> unat b" and 2: "unat b + k < 2 ^ 64"
  have "\<not> (unat (x - a) < n \<and> unat (x - b) < k)" for x
  proof
    assume x: "unat (x - a) < n \<and> unat (x - b) < k"
    have "unat ((x - a) + a) = unat (x - a) + unat a" using x 1 2 by (intro unat_add_no_overflow) linarith
    moreover have "unat ((x - b) + b) = unat (x - b) + unat b" using x 2 by (intro unat_add_no_overflow) linarith
    ultimately show False using x 1 by simp
  qed
  then show "apart a n b k" by (simp add: apart_def)
qed

lemma apart_sym: "apart a n b k \<longleftrightarrow> apart b k a n"
  by (auto simp: apart_def)

theorem context_switch_roundtrip_witness:
  "rsp (dlsm_gt_ctx_switch 1008 (load64 1000 (mem ((dlsm_gt_ctx_switch 1000 2048 blank_cpu)\<lparr>rsp := 3000\<rparr>)))
     ((dlsm_gt_ctx_switch 1000 2048 blank_cpu)\<lparr>rsp := 3000\<rparr>)) = 4104"
proof -
  have 1: "apart 1000 8 (rsp blank_cpu - 56) 64" by (rule apartI) (simp_all add: blank_cpu_def)
  have 2: "apart 1008 8 (rsp blank_cpu - 56) 64" by (rule apartI) (simp_all add: blank_cpu_def)
  have 3: "apart (rsp ((dlsm_gt_ctx_switch 1000 2048 blank_cpu)\<lparr>rsp := 3000\<rparr>) - 56) 56 (rsp blank_cpu - 56) 64"
    by (rule apartI) (simp_all add: blank_cpu_def)
  show ?thesis using context_switch_roundtrip [OF 1 _ 2 3, of 2048] by (simp add: blank_cpu_def)
qed

section \<open>The first stack of a task\<close>

abbreviation DLSM_GT_MIN_STACK :: u64 where "DLSM_GT_MIN_STACK \<equiv> 16 * 1024"

record task_stack =
  k_map :: u64
  k_map_len :: u64
  k_base :: u64
  k_size :: u64
  k_rsp :: u64

text \<open>The size of the stack, rounded up to whole pages, and of the mapping with its guard page; \<open>pg\<close> is the answer of \<open>sysconf\<close>.\<close>

definition stack_length :: "int \<Rightarrow> u64 \<Rightarrow> (u64 \<times> u64) option" where
  "stack_length pg stack_bytes =
     (if pg \<le> 0 \<or> stack_bytes < DLSM_GT_MIN_STACK then None
      else
        (let guard = of_int pg; rem = stack_bytes mod guard; add = guard - rem in
         if rem \<noteq> 0 \<and> stack_bytes > UINT64_MAX - add then None
         else
           (let sb = (if rem \<noteq> 0 then stack_bytes + add else stack_bytes) in
            if sb > UINT64_MAX - guard then None else Some (sb, guard + sb))))"

definition memset :: "u64 \<Rightarrow> u8 \<Rightarrow> u64 \<Rightarrow> memory \<Rightarrow> memory" where
  "memset a b n m x = (if x - a < n then b else m x)"

definition initial_frame :: "u64 \<Rightarrow> u64 \<Rightarrow> u64 \<Rightarrow> u64 \<Rightarrow> memory \<Rightarrow> memory" where
  "initial_frame f entry arg trampoline m =
     (let m1 = store32 f 0x1F80 m; m2 = store16 (f + 4) 0x037F m1; m3 = store64 (f + 8) 0 m2; m4 = store64 (f + 16) 0 m3;
          m5 = store64 (f + 24) arg m4; m6 = store64 (f + 32) entry m5; m7 = store64 (f + 40) 0 m6; m8 = store64 (f + 48) 0 m7 in
      store64 (f + 56) trampoline m8)"

text \<open>
  \<open>mmap\<close> answers an address or fails; \<open>protect\<close> says whether \<open>mprotect\<close> succeeds. The third component is the mapping
  that stays.
\<close>

definition make_stack ::
  "int \<Rightarrow> (u64 \<Rightarrow> u64 option) \<Rightarrow> bool \<Rightarrow> bool \<Rightarrow> u64 \<Rightarrow> u64 \<Rightarrow> u64 \<Rightarrow> u64 \<Rightarrow> memory \<Rightarrow> task_stack option \<times> memory \<times> (u64 \<times> u64) set" where
  "make_stack pg mmap protect watermark entry arg trampoline stack_bytes m = (case stack_length pg stack_bytes of
     None \<Rightarrow> (None, m, {})
   | Some (sb, len) \<Rightarrow> (case mmap len of
       None \<Rightarrow> (None, m, {})
     | Some a \<Rightarrow>
         if \<not> protect then (None, m, {(a, len)} - {(a, len)})
         else
           (let base = a + of_int pg;
                m1 = (if watermark then memset base 0xA5 sb m else m);
                top = (a + len) AND NOT 15; sp = top - 64 in
            (Some \<lparr>k_map = a, k_map_len = len, k_base = base, k_size = sb, k_rsp = sp\<rparr>,
             initial_frame sp entry arg trampoline m1, {(a, len)}))))"


lemma field_apart_up:
  "8 \<le> unat j \<Longrightarrow> unat j \<le> 56 \<Longrightarrow> load32 f (store64 (f + j) v m) = load32 f m"
  "8 \<le> unat j \<Longrightarrow> unat j \<le> 56 \<Longrightarrow> load16 (f + 4) (store64 (f + j) v m) = load16 (f + 4) m"
  using loads_stores_apart [of 0 4 j "bytes_of 8 (unat v)" f m] loads_stores_apart [of 4 2 j "bytes_of 8 (unat v)" f m]
  by (simp_all add: load32_def load16_def store64_def)

lemma initial_frame_at:
  "frame_at f (initial_frame f entry arg trampoline m) = \<lparr>f_mxcsr = 0x1F80, f_x87cw = 0x37F, f_r15 = 0, f_r14 = 0, f_r13 = arg,
     f_r12 = entry, f_rbx = 0, f_rbp = 0, f_ret = trampoline\<rparr>"
  by (simp add: frame_at_def initial_frame_def Let_def field_apart field_apart_up)

lemma initial_frame_other: "\<not> unat (x - f) < 64 \<Longrightarrow> initial_frame f entry arg trampoline m x = m x"
  using stores_below [of 4 _ 64 x f] stores_below [of 0 _ 64 x f] stores_below [of 8 _ 64 x f] stores_below [of 16 _ 64 x f]
    stores_below [of 24 _ 64 x f] stores_below [of 32 _ 64 x f] stores_below [of 40 _ 64 x f] stores_below [of 48 _ 64 x f]
    stores_below [of 56 _ 64 x f]
  by (simp add: initial_frame_def Let_def store64_def store32_def store16_def)

lemma align_id:
  assumes "16 dvd unat (x :: u64)"
  shows "x AND NOT 15 = x"
proof -
  have "(take_bit 4 x) = 0"
  proof -
    have "unat (take_bit 4 x) = unat x mod 16" by (simp add: take_bit_eq_mod unat_mod)
    also have "\<dots> = 0" using assms by auto
    finally show ?thesis by (simp add: unat_eq_zero)
  qed
  then have z: "\<not> bit x n" if "n < 4" for n using that by (metis bit_take_bit_iff bit_0_eq bot_apply bot_bool_def)
  have "x AND NOT (mask 4) = x" using z by (auto intro!: bit_word_eqI simp: bit_simps not_less [symmetric])
  moreover have "(15 :: u64) = mask 4" by (simp add: mask_eq_exp_minus_1)
  ultimately show ?thesis by metis
qed

lemma stack_length_exact:
  assumes "stack_length pg stack_bytes = Some (sb, len)" and "pg < 2 ^ 63"
  shows "int (unat sb) mod pg = 0" and "unat stack_bytes \<le> unat sb" and "int (unat sb) < int (unat stack_bytes) + pg"
    and "int (unat len) = pg + int (unat sb)" and "DLSM_GT_MIN_STACK \<le> sb" and "0 < pg"
proof -
  define g where "g = (of_int pg :: u64)"
  define r where "r = stack_bytes mod g"
  have pg: "0 < pg" "\<not> stack_bytes < DLSM_GT_MIN_STACK" using assms(1) by (auto simp: stack_length_def split: if_splits)
  have "uint g = pg mod 2 ^ 64" by (simp add: g_def uint_word_of_int)
  also have "\<dots> = pg" using pg(1) assms(2) by (intro mod_pos_pos_trivial) simp_all
  finally have g: "int (unat g) = pg" by simp
  have r: "unat r = unat stack_bytes mod unat g" by (simp add: r_def unat_mod)
  have g0: "0 < unat g" using g pg(1) by linarith
  then have rg: "unat r < unat g" "unat r \<le> unat stack_bytes" by (simp_all add: r)
  have sub: "unat (g - r) = unat g - unat r" using rg by (simp add: unat_sub word_le_nat_alt)
  define t where "t = (if r \<noteq> 0 then stack_bytes + (g - r) else stack_bytes)"
  have sl: "stack_length pg stack_bytes = (if r \<noteq> 0 \<and> stack_bytes > UINT64_MAX - (g - r) then None
      else if t > UINT64_MAX - g then None else Some (t, g + t))"
    unfolding stack_length_def g_def [symmetric] Let_def r_def [symmetric] t_def [symmetric] using pg by simp
  have ov: "\<not> (r \<noteq> 0 \<and> stack_bytes > UINT64_MAX - (g - r))"
    and eq: "sb = t" "len = g + sb" "\<not> sb > UINT64_MAX - g"
    using assms(1) unfolding sl by (auto simp only: split: if_splits)
  have sbu: "unat sb = (if r \<noteq> 0 then unat stack_bytes + (unat g - unat r) else unat stack_bytes)"
  proof (cases "r = 0")
    case False
    then have "stack_bytes \<le> UINT64_MAX - (g - r)" using ov by auto
    then have "unat (g - r) + unat stack_bytes < 2 ^ 64" by (simp only: u64_le_max_diff_iff)
    then have "unat (stack_bytes + (g - r)) = unat stack_bytes + unat (g - r)" by (intro unat_add_no_overflow) simp
    then show ?thesis using False eq(1) sub by (simp add: t_def)
  qed (use eq(1) in \<open>simp add: t_def\<close>)
  have "sb \<le> UINT64_MAX - g" using eq(3) by (simp only: not_less)
  then have "unat g + unat sb < 2 ^ 64" by (simp only: u64_le_max_diff_iff)
  then have "unat (g + sb) = unat g + unat sb" by (rule unat_add_no_overflow)
  then show "int (unat len) = pg + int (unat sb)" using eq(2) g by simp
  have m: "unat stack_bytes = unat g * (unat stack_bytes div unat g) + unat r" by (simp add: r)
  have "unat sb mod unat g = 0"
  proof (cases "r = 0")
    case True
    then show ?thesis using sbu r by simp
  next
    case False
    then have "unat sb = unat g * (unat stack_bytes div unat g + 1)" using sbu m rg by simp
    then show ?thesis by simp
  qed
  then have "int (unat sb mod unat g) = 0" by (simp only: of_nat_0)
  then show "int (unat sb) mod pg = 0" unfolding g [symmetric] by (simp only: zmod_int)
  show "unat stack_bytes \<le> unat sb" using sbu by simp
  have "unat sb < unat stack_bytes + unat g"
  proof (cases "r = 0")
    case False
    then have "0 < unat r" by (simp add: unat_gt_0)
    then show ?thesis using False sbu rg by simp
  qed (use sbu g0 in simp)
  then show "int (unat sb) < int (unat stack_bytes) + pg" using g by linarith
  show "DLSM_GT_MIN_STACK \<le> sb" using pg(2) \<open>unat stack_bytes \<le> unat sb\<close> by (simp add: not_less word_le_nat_alt)
  show "0 < pg" by (fact pg(1))
qed


text \<open>What the kernel promises of \<open>mmap\<close>: a range of whole pages that does not reach the end of the address space.\<close>

definition mmap_ok :: "int \<Rightarrow> (u64 \<Rightarrow> u64 option) \<Rightarrow> bool" where
  "mmap_ok pg mmap \<longleftrightarrow> (\<forall>len a. mmap len = Some a \<longrightarrow> int (unat a) mod pg = 0 \<and> unat a + unat len < 2 ^ 64)"

lemma make_stack_layout:
  assumes ms: "make_stack pg mmap protect watermark entry arg trampoline stack_bytes m = (Some k, m', held)"
    and pg: "16 dvd pg" "pg < 2 ^ 63" and ok: "mmap_ok pg mmap"
  shows "int (unat (k_size k)) mod pg = 0" and "unat stack_bytes \<le> unat (k_size k)" and "int (unat (k_size k)) < int (unat stack_bytes) + pg"
    and "int (unat (k_base k)) = int (unat (k_map k)) + pg" and "unat (k_base k) + unat (k_size k) = unat (k_rsp k) + 64"
    and "unat (k_map k) + unat (k_map_len k) = unat (k_rsp k) + 64" and "16 dvd unat (k_rsp k)" and "unat (k_base k) \<le> unat (k_rsp k)"
    and "held = {(k_map k, k_map_len k)}" and "unat (k_rsp k) + 64 < 2 ^ 64"
    and "m' = initial_frame (k_rsp k) entry arg trampoline (if watermark then memset (k_base k) 0xA5 (k_size k) m else m)"
proof -
  obtain sb len a where sl: "stack_length pg stack_bytes = Some (sb, len)" and mm: "mmap len = Some a"
    and k: "k = \<lparr>k_map = a, k_map_len = len, k_base = a + of_int pg, k_size = sb, k_rsp = ((a + len) AND NOT 15) - 64\<rparr>"
    and h: "held = {(a, len)}" and m': "m' = initial_frame (k_rsp k) entry arg trampoline (if watermark then memset (k_base k) 0xA5 (k_size k) m else m)"
    using ms by (auto simp: make_stack_def Let_def split: option.splits if_splits)
  note L = stack_length_exact [OF sl pg(2)]
  have a: "int (unat a) mod pg = 0" "unat a + unat len < 2 ^ 64" using ok mm by (auto simp: mmap_ok_def)
  have top: "unat (a + len) = unat a + unat len" using a(2) by (rule unat_add_no_overflow)
  have "pg dvd int (unat a) + int (unat len)" using a(1) L(1,4) by (simp add: dvd_eq_mod_eq_0 mod_add_eq [symmetric])
  then have "16 dvd int (unat a + unat len)" using pg(1) dvd_trans by auto
  then have t16: "16 dvd unat (a + len)" unfolding top by presburger
  then have al: "(a + len) AND NOT 15 = a + len" by (rule align_id)
  have sb: "16384 \<le> unat sb" using L(5) by (simp add: word_le_nat_alt)
  have len: "unat len = nat pg + unat sb" using L(4,6) by linarith
  have rs: "unat (a + len - 64) = unat a + unat len - 64" using sb len top by (simp add: unat_sub word_le_nat_alt)
  have b: "unat (a + of_int pg) = unat a + nat pg"
  proof -
    have "uint (of_int pg :: u64) = pg mod 2 ^ 64" by (simp add: uint_word_of_int)
    also have "\<dots> = pg" using L(6) pg(2) by (intro mod_pos_pos_trivial) simp_all
    finally have "unat (of_int pg :: u64) = nat pg" by (metis nat_uint_eq)
    then show ?thesis using a(2) len by (subst unat_add_no_overflow) simp_all
  qed
  have ks: "k_map k = a" "k_map_len k = len" "k_base k = a + of_int pg" "k_size k = sb" by (simp_all add: k)
  have kr: "k_rsp k = a + len - 64" unfolding k by (simp only: task_stack.select_convs al)
  show "int (unat (k_size k)) mod pg = 0" "unat stack_bytes \<le> unat (k_size k)" "int (unat (k_size k)) < int (unat stack_bytes) + pg"
    unfolding ks by (fact L(1-3))+
  show "int (unat (k_base k)) = int (unat (k_map k)) + pg" unfolding ks b using L(6) by simp
  show "unat (k_base k) + unat (k_size k) = unat (k_rsp k) + 64" "unat (k_map k) + unat (k_map_len k) = unat (k_rsp k) + 64"
    "unat (k_base k) \<le> unat (k_rsp k)"
    unfolding ks kr b rs using len sb by simp_all
  have "16 dvd unat a + unat len" using t16 by (simp only: top)
  then show "16 dvd unat (k_rsp k)" unfolding kr rs by (rule dvd_diff_nat) simp
  show "held = {(k_map k, k_map_len k)}" unfolding ks by (fact h)
  show "unat (k_rsp k) + 64 < 2 ^ 64" unfolding kr rs using a(2) len sb by simp
  show "m' = initial_frame (k_rsp k) entry arg trampoline (if watermark then memset (k_base k) 0xA5 (k_size k) m else m)" by (fact m')
qed

text \<open>
  Claim C9. A new task starts as the platform's calling convention demands. On a stack made by \<open>make_stack\<close>, whose size is the
  requested one rounded up to whole pages above one guard page, the first switch from any context whose stack and
  pointer slot lie elsewhere, followed by the trampoline, enters \<open>entry\<close> with \<open>arg\<close> in \<open>rdi\<close>, default floating point
  control words, and a stack pointer inside the stack that is 8 below a multiple of 16.
\<close>

theorem fresh_task_starts:
  fixes next_rip :: u64
  assumes ms: "make_stack pg mmap protect watermark entry arg trampoline stack_bytes m = (Some k, m', held)"
    and pg: "16 dvd pg" "pg < 2 ^ 63" and ok: "mmap_ok pg mmap"
    and s: "\<And>x. unat (x - k_rsp k) < 64 \<Longrightarrow> mem s x = m' x"
    and ap: "apart save 8 (k_rsp k) 64" "apart (rsp s - 56) 56 (k_rsp k) 64"
  defines "t1 \<equiv> dlsm_gt_ctx_switch save (k_rsp k) s"
  defines "t \<equiv> dlsm_gt_trampoline next_rip t1"
  shows "rip t1 = trampoline \<and> rip t = entry \<and> rdi t = arg \<and> mxcsr t = 0x1F80 \<and> x87cw t = 0x37F \<and> unat (rsp t) mod 16 = 8 \<and>
    unat (k_base k) \<le> unat (rsp t) \<and> unat (rsp t) + 8 = unat (k_base k) + unat (k_size k) \<and> load64 (rsp t) (mem t) = next_rip \<and>
    int (unat (k_base k)) = int (unat (k_map k)) + pg \<and> unat stack_bytes \<le> unat (k_size k) \<and>
    int (unat (k_size k)) < int (unat stack_bytes) + pg \<and> int (unat (k_size k)) mod pg = 0"
proof -
  note L = make_stack_layout [OF ms pg ok]
  have "frame_at (k_rsp k) (mem (ctx_save save s)) = frame_at (k_rsp k) m'"
    by (rule frame_cong) (use ctx_save_mem [OF ap] s in simp)
  also have "\<dots> = \<lparr>f_mxcsr = 0x1F80, f_x87cw = 0x37F, f_r15 = 0, f_r14 = 0, f_r13 = arg, f_r12 = entry, f_rbx = 0, f_rbp = 0, f_ret = trampoline\<rparr>"
    unfolding L(11) by (rule initial_frame_at)
  finally have t1: "rip t1 = trampoline" "r13 t1 = arg" "r12 t1 = entry" "mxcsr t1 = 0x1F80" "x87cw t1 = 0x37F" "rsp t1 = k_rsp k + 64"
    by (simp_all add: t1_def dlsm_gt_ctx_switch_def ctx_restore_frame)
  then have t: "rip t = entry" "rdi t = arg" "mxcsr t = 0x1F80" "x87cw t = 0x37F" "rsp t = k_rsp k + 56" "load64 (rsp t) (mem t) = next_rip"
    by (simp_all add: t_def dlsm_gt_trampoline_def pushq_def)
  have r: "unat (rsp t) = unat (k_rsp k) + 56" unfolding t(5) using L(10) by (subst unat_add_no_overflow) simp_all
  have "unat (rsp t) mod 16 = 8" using L(7) unfolding r by presburger
  then show ?thesis using t1(1) t r L(1-5,8) by simp
qed


definition test_mmap :: "u64 \<Rightarrow> u64 option" where
  "test_mmap len = (if len \<le> 1048576 then Some 65536 else None)"

lemma test_mmap_ok: "mmap_ok 4096 test_mmap"
  by (auto simp: mmap_ok_def test_mmap_def word_le_nat_alt split: if_splits)

theorem fresh_task_starts_witness:
  "\<exists>k m' held. make_stack 4096 test_mmap True True 77 88 99 16384 (\<lambda>_. 0) = (Some k, m', held) \<and>
     rdi (dlsm_gt_trampoline 5 (dlsm_gt_ctx_switch 1000 (k_rsp k) (blank_cpu\<lparr>mem := m'\<rparr>))) = 88 \<and>
     rip (dlsm_gt_trampoline 5 (dlsm_gt_ctx_switch 1000 (k_rsp k) (blank_cpu\<lparr>mem := m'\<rparr>))) = 77"
proof -
  have sl: "stack_length 4096 16384 = Some (16384, 20480)" by (simp add: stack_length_def)
  define k where "k = \<lparr>k_map = 65536, k_map_len = 20480, k_base = 69632, k_size = 16384, k_rsp = 85952\<rparr>"
  obtain m' held where ms: "make_stack 4096 test_mmap True True 77 88 99 16384 (\<lambda>_. 0) = (Some k, m', held)"
    by (simp add: make_stack_def sl test_mmap_def k_def Let_def)
  have a1: "apart 1000 8 (k_rsp k) 64" by (rule apartI) (simp_all add: k_def)
  have a2: "apart (rsp (blank_cpu\<lparr>mem := m'\<rparr>) - 56) 56 (k_rsp k) 64" by (rule apartI) (simp_all add: k_def blank_cpu_def)
  have "16 dvd (4096 :: int)" by presburger
  from fresh_task_starts [OF ms this _ test_mmap_ok _ a1 a2, of 5]
  have "rdi (dlsm_gt_trampoline 5 (dlsm_gt_ctx_switch 1000 (k_rsp k) (blank_cpu\<lparr>mem := m'\<rparr>))) = 88"
    "rip (dlsm_gt_trampoline 5 (dlsm_gt_ctx_switch 1000 (k_rsp k) (blank_cpu\<lparr>mem := m'\<rparr>))) = 77" by simp_all
  with ms show ?thesis by blast
qed

text \<open>A stack that cannot be made leaves nothing mapped and the memory as it was.\<close>

lemma make_stack_failure:
  "make_stack pg mmap protect watermark entry arg trampoline stack_bytes m = (None, m', held) \<Longrightarrow> m' = m \<and> held = {}"
  by (auto simp: make_stack_def Let_def split: option.splits if_splits)

section \<open>The high-water mark\<close>

text \<open>The loop of \<open>task_release_stack\<close>, from the \<open>i\<close>-th byte on.\<close>

function scan_untouched :: "u64 \<Rightarrow> u64 \<Rightarrow> memory \<Rightarrow> u64 \<Rightarrow> u64" where
  "scan_untouched base sz m i = (if i < sz \<and> m (base + i) = 0xA5 then scan_untouched base sz m (i + 1) else i)"
  by pat_completeness auto
termination
proof (relation "measure (\<lambda>(base, sz, m, i). unat sz - unat i)")
  fix base sz i :: u64 and m :: memory
  assume "i < sz \<and> m (base + i) = 0xA5"
  then have l: "unat i < unat sz" by (simp add: word_less_nat_alt)
  then have "i \<noteq> UINT64_MAX" using u64_add_overflow_less [of sz] by auto
  then have "unat (i + 1) = Suc (unat i)" by (rule unat_succ)
  then show "((base, sz, m, i + 1), base, sz, m, i) \<in> measure (\<lambda>(base, sz, m, i). unat sz - unat i)" using l by simp
qed simp

declare scan_untouched.simps [simp del]

text \<open>With the mark of the task, the maximum of the runtime and the mappings; \<open>None\<close>: it has no stack.\<close>

definition task_release_stack ::
  "bool \<Rightarrow> task_stack option \<Rightarrow> memory \<Rightarrow> u64 \<Rightarrow> u64 \<Rightarrow> (u64 \<times> u64) set \<Rightarrow> task_stack option \<times> u64 \<times> u64 \<times> (u64 \<times> u64) set" where
  "task_release_stack watermark ko m high_water stat held = (case ko of
     None \<Rightarrow> (None, high_water, stat, held)
   | Some k \<Rightarrow>
       (let h = k_size k - scan_untouched (k_base k) (k_size k) m 0 in
        if watermark then (None, h, (if stat < h then h else stat), held - {(k_map k, k_map_len k)})
        else (None, high_water, stat, held - {(k_map k, k_map_len k)})))"

lemma scan_untouched_exact:
  assumes "i \<le> sz" and "r = scan_untouched base sz m i"
  shows "i \<le> r" and "r \<le> sz" and "\<And>x. i \<le> x \<Longrightarrow> x < r \<Longrightarrow> m (base + x) = 0xA5" and "r < sz \<Longrightarrow> m (base + r) \<noteq> 0xA5"
proof -
  have "i \<le> r \<and> r \<le> sz \<and> (\<forall>x. i \<le> x \<longrightarrow> x < r \<longrightarrow> m (base + x) = 0xA5) \<and> (r < sz \<longrightarrow> m (base + r) \<noteq> 0xA5)"
    using assms
  proof (induction base sz m i arbitrary: r rule: scan_untouched.induct)
    case (1 base sz m i)
    show ?case
    proof (cases "i < sz \<and> m (base + i) = 0xA5")
      case True
      then have "i \<noteq> UINT64_MAX" using word_order.extremum_strict by blast
      then have s: "unat (i + 1) = Suc (unat i)" by (rule unat_succ)
      have le: "i + 1 \<le> sz" using True s by (simp add: word_le_nat_alt word_less_nat_alt)
      have r: "r = scan_untouched base sz m (i + 1)" using 1(3) True scan_untouched.simps [of base sz m i] by simp
      note IH = 1(1) [OF True le r]
      have "i \<le> r" using IH s by (simp add: word_le_nat_alt)
      moreover have "m (base + x) = 0xA5" if "i \<le> x" "x < r" for x
      proof (cases "x = i")
        case False
        then have "unat x \<noteq> unat i" by (simp add: word_unat_eq_iff)
        then have "i + 1 \<le> x" using that(1) s by (simp add: word_le_nat_alt)
        then show ?thesis using IH that(2) by blast
      qed (use True in simp)
      ultimately show ?thesis using IH by blast
    next
      case False
      have "scan_untouched base sz m i = i" by (subst scan_untouched.simps) (rule if_not_P [OF False])
      then have "r = i" using 1(3) by simp
      then show ?thesis using 1(2) False by (auto simp: not_le [symmetric])
    qed
  qed
  then show "i \<le> r" "r \<le> sz" "\<And>x. i \<le> x \<Longrightarrow> x < r \<Longrightarrow> m (base + x) = 0xA5" "r < sz \<Longrightarrow> m (base + r) \<noteq> 0xA5" by blast+
qed

text \<open>
  The high-water mark is exact: it is at most the size of the stack, no byte below it was changed from the pattern, and
  the byte it ends at was; the stack's mapping is gone afterwards, and the runtime's maximum covers the mark.
\<close>

theorem stack_watermark_exact:
  assumes "task_release_stack True (Some k) m high_water stat held = (ko, h, stat', held')"
  shows "h \<le> k_size k \<and> (\<forall>x. x < k_size k - h \<longrightarrow> m (k_base k + x) = 0xA5) \<and> (h \<noteq> 0 \<longrightarrow> m (k_base k + (k_size k - h)) \<noteq> 0xA5) \<and>
    stat' = max stat h \<and> held' = held - {(k_map k, k_map_len k)} \<and> ko = None"
proof -
  define r where "r = scan_untouched (k_base k) (k_size k) m 0"
  have e: "h = k_size k - r" "stat' = max stat h" "held' = held - {(k_map k, k_map_len k)}" "ko = None"
    using assms by (auto simp: task_release_stack_def r_def Let_def max_def split: if_splits)
  note x = scan_untouched_exact [OF word_zero_le r_def]
  have "h \<le> k_size k" using x(2) e(1) by (simp add: word_sub_le)
  moreover have "k_size k - h = r" by (simp add: e(1))
  moreover have "r < k_size k" if "h \<noteq> 0" using that x(2) e(1) by (auto simp: order_less_le)
  ultimately show ?thesis using x e by auto
qed

theorem stack_watermark_exact_witness:
  "\<exists>ko h stat' held'. task_release_stack True (Some \<lparr>k_map = 0, k_map_len = 12, k_base = 8, k_size = 4, k_rsp = 0\<rparr>) (\<lambda>_. 0) 0 7 {} = (ko, h, stat', held') \<and>
     h \<le> 4 \<and> stat' = max 7 h"
proof -
  let ?k = "\<lparr>k_map = 0, k_map_len = 12, k_base = 8, k_size = 4, k_rsp = 0\<rparr>"
  obtain ko h stat' held' where r: "task_release_stack True (Some ?k) (\<lambda>_. 0) 0 7 {} = (ko, h, stat', held')" by (cases "task_release_stack True (Some ?k) (\<lambda>_. 0) 0 7 {}")
  then show ?thesis using stack_watermark_exact [OF r] by simp
qed

end
