(* ===== verification/Gt_Create.thy ===== *)
theory Gt_Create
  imports Gt_Vps Gt_Context
begin

text \<open>
  Creating and releasing runtimes and tasks (\<^verbatim>\<open>libs/greenthread/src/greenthread.c\<close>): \<open>dlsm_gt_runtime_new_ex\<close> after its options
  are resolved, with every call that can fail, the release in \<open>dlsm_gt_runtime_free\<close>, and \<open>task_new\<close> with \<open>task_free\<close>.
  The state is the set of resources held; the chunks of processors are those of \<open>Gt_Vps\<close>.
\<close>

section \<open>Data\<close>

datatype setup_res = S_runtime | S_groups | S_idle_mutex nat | S_idle_cond nat | S_timer_mutex | S_timer_attr | S_timer_cond
  | S_timer_heap | S_blocking_mutex | S_blocking_cond | S_blocking_threads

text \<open>Which calls succeed; the chunks \<open>calloc\<close> provides; the number of processors online.\<close>

record setup_env =
  e_runtime :: bool
  e_groups :: bool
  e_chunks :: "addr option list"
  e_idle_mutex :: "nat \<Rightarrow> bool"
  e_idle_cond :: "nat \<Rightarrow> bool"
  e_timer_mutex :: bool
  e_timer_attr :: bool
  e_timer_clock :: bool
  e_timer_cond :: bool
  e_blocking_mutex :: bool
  e_blocking_cond :: bool
  e_blocking_threads :: bool
  e_cpus :: int

text \<open>The options, resolved: \<open>vp_groups\<close> is an array or \<open>NULL\<close>, the hooks and their context are addresses.\<close>

record runtime_options =
  ro_nvp :: int
  ro_stack_bytes :: u64
  ro_vp_groups :: "(nat \<Rightarrow> int) option"
  ro_idle_spin_count :: u32
  ro_blocking_threads :: int
  ro_task_enter :: u64
  ro_task_leave :: u64
  ro_context :: u64
  ro_watermark :: int

record new_runtime =
  nr_held :: "setup_res set"
  nr_chunks :: vp_chunks
  nr_answers :: "addr option list"
  nr_nvp :: nat
  nr_group :: "nat \<Rightarrow> nat"
  nr_group_nvp :: "nat \<Rightarrow> nat"
  nr_stack :: u64
  nr_spins :: u32
  nr_blocking :: int
  nr_watermark :: bool
  nr_ngroups :: nat
  nr_hooks :: "u64 \<times> u64 \<times> u64"
  nr_timer_initialized :: bool
  nr_blocking_initialized :: bool

section \<open>Operations\<close>

abbreviation DLSM_GT_IDLE_SPINS_DEFAULT :: u32 where "DLSM_GT_IDLE_SPINS_DEFAULT \<equiv> 1000"
abbreviation DLSM_GT_BLOCKING_THREADS_DEFAULT :: int where "DLSM_GT_BLOCKING_THREADS_DEFAULT \<equiv> 2"

definition acquire :: "setup_res \<Rightarrow> new_runtime \<Rightarrow> new_runtime" where
  "acquire x n = n\<lparr>nr_held := insert x (nr_held n)\<rparr>"

definition relinquish :: "setup_res \<Rightarrow> new_runtime \<Rightarrow> new_runtime" where
  "relinquish x n = n\<lparr>nr_held := nr_held n - {x}\<rparr>"

definition vp_idle_init :: "setup_env \<Rightarrow> nat \<Rightarrow> new_runtime \<Rightarrow> bool \<times> new_runtime" where
  "vp_idle_init e i n =
     (if \<not> e_idle_mutex e i then (False, n)
      else if \<not> e_idle_cond e i then (False, relinquish (S_idle_mutex i) (acquire (S_idle_mutex i) n))
      else (True, acquire (S_idle_cond i) (acquire (S_idle_mutex i) n)))"

definition vp_idle_destroy :: "nat \<Rightarrow> new_runtime \<Rightarrow> new_runtime" where
  "vp_idle_destroy i n = relinquish (S_idle_mutex i) (relinquish (S_idle_cond i) n)"

definition vp_init :: "setup_env \<Rightarrow> nat \<Rightarrow> nat \<Rightarrow> new_runtime \<Rightarrow> bool \<times> new_runtime" where
  "vp_init e i g n = (case ensure_vp_slot i (nr_answers n) (nr_chunks n) of
     (ok, al, t) \<Rightarrow>
       (let n1 = n\<lparr>nr_answers := al, nr_chunks := t\<rparr> in
        if \<not> ok then (False, n1) else vp_idle_init e i (n1\<lparr>nr_group := (nr_group n1)(i := g)\<rparr>)))"

text \<open>The answer is \<open>None\<close> when all processors were set up, otherwise how many were.\<close>

fun init_vps :: "setup_env \<Rightarrow> (nat \<Rightarrow> int) \<Rightarrow> nat \<Rightarrow> nat \<Rightarrow> nat \<Rightarrow> new_runtime \<Rightarrow> nat option \<times> new_runtime" where
  "init_vps e groups nvp i 0 n = (None, n)"
| "init_vps e groups nvp i (Suc k) n =
     (if groups i < 0 \<or> groups i \<ge> int nvp then (Some i, n)
      else (case vp_init e i (nat (groups i)) n of
        (False, n') \<Rightarrow> (Some i, n')
      | (True, n') \<Rightarrow>
          init_vps e groups nvp (i + 1) k
            (n'\<lparr>nr_group_nvp := (nr_group_nvp n')(nat (groups i) := nr_group_nvp n' (nat (groups i)) + 1)\<rparr>)))"

definition timer_runtime_init :: "setup_env \<Rightarrow> new_runtime \<Rightarrow> bool \<times> new_runtime" where
  "timer_runtime_init e n =
     (if \<not> e_timer_mutex e then (False, n)
      else
        (let n1 = acquire S_timer_mutex n in
         if \<not> e_timer_attr e then (False, relinquish S_timer_mutex n1)
         else
           (let n2 = acquire S_timer_attr n1;
                ok = (e_timer_clock e \<and> e_timer_cond e);
                n3 = (if ok then acquire S_timer_cond n2 else n2);
                n4 = relinquish S_timer_attr n3 in
            if \<not> ok then (False, relinquish S_timer_mutex n4) else (True, n4\<lparr>nr_timer_initialized := True\<rparr>))))"

definition timer_runtime_destroy :: "new_runtime \<Rightarrow> new_runtime" where
  "timer_runtime_destroy n =
     (if \<not> nr_timer_initialized n then n
      else (relinquish S_timer_mutex (relinquish S_timer_cond (relinquish S_timer_heap n)))\<lparr>nr_timer_initialized := False\<rparr>)"

definition blocking_runtime_init :: "setup_env \<Rightarrow> int \<Rightarrow> new_runtime \<Rightarrow> bool \<times> new_runtime" where
  "blocking_runtime_init e threads n =
     (let n = n\<lparr>nr_blocking := threads\<rparr> in
      if threads = 0 then (True, n)
      else if \<not> e_blocking_mutex e then (False, n)
      else
        (let n1 = acquire S_blocking_mutex n in
         if \<not> e_blocking_cond e then (False, relinquish S_blocking_mutex n1)
         else
           (let n2 = acquire S_blocking_cond n1 in
            if \<not> e_blocking_threads e then (False, relinquish S_blocking_mutex (relinquish S_blocking_cond n2))
            else (True, (acquire S_blocking_threads n2)\<lparr>nr_blocking_initialized := True\<rparr>))))"

definition blocking_runtime_destroy :: "new_runtime \<Rightarrow> new_runtime" where
  "blocking_runtime_destroy n =
     (if \<not> nr_blocking_initialized n then n
      else (relinquish S_blocking_mutex (relinquish S_blocking_cond (relinquish S_blocking_threads n)))\<lparr>nr_blocking_initialized := False\<rparr>)"

text \<open>The processors of \<open>0\<close> to \<open>k - 1\<close>, the groups, the chunks, the runtime: what every failure and the release give back.\<close>

definition give_back :: "nat \<Rightarrow> new_runtime \<Rightarrow> addr list option \<times> new_runtime" where
  "give_back k n = (let n1 = fold vp_idle_destroy [0..<k] n in (vp_chunks_free (nr_chunks n1), relinquish S_runtime (relinquish S_groups n1)))"

datatype creation = Refused | Failed "addr list option" | Created

text \<open>
  The body of \<open>dlsm_gt_runtime_new_ex\<close> after its options are resolved. \<open>Refused\<close>: it returned before it acquired anything that it keeps; \<open>Failed\<close>: later, with the chunks it released.
\<close>

definition resolved_blocking :: "int \<Rightarrow> int option" where
  "resolved_blocking threads =
     (let b = (if threads = 0 then DLSM_GT_BLOCKING_THREADS_DEFAULT else threads) in
      if b = - 1 then Some 0 else if b < 0 then None else Some b)"

definition resolved_spins :: "u32 \<Rightarrow> u32" where
  "resolved_spins n = (let c = (if n = 0 then DLSM_GT_IDLE_SPINS_DEFAULT else n) in if c = UINT32_MAX then 0 else c)"

definition resolved_nvp :: "setup_env \<Rightarrow> int \<Rightarrow> nat" where
  "resolved_nvp e nvp = (if nvp \<le> 0 then (if e_cpus e > 0 then nat (e_cpus e) else 1) else nat nvp)"

definition runtime_create :: "setup_env \<Rightarrow> runtime_options \<Rightarrow> new_runtime \<Rightarrow> creation \<times> new_runtime" where
  "runtime_create e opts blank = (case resolved_blocking (ro_blocking_threads opts) of
     None \<Rightarrow> (Refused, blank)
   | Some threads \<Rightarrow>
       if ro_vp_groups opts \<noteq> None \<and> ro_nvp opts \<le> 0 then (Refused, blank)
       else
         (let nvp = resolved_nvp e (ro_nvp opts);
              stack = (if ro_stack_bytes opts = 0 then 128 * 1024 else ro_stack_bytes opts);
              groups = (\<lambda>i. case ro_vp_groups opts of Some g \<Rightarrow> g i | None \<Rightarrow> 0) in
          if stack < DLSM_GT_MIN_STACK then (Refused, blank)
          else if \<not> e_runtime e then (Refused, blank)
          else
            (let n1 = acquire S_runtime blank in
             if \<not> e_groups e then (Refused, relinquish S_runtime n1)
             else
               (let n2 = (acquire S_groups n1)\<lparr>nr_stack := stack, nr_spins := resolved_spins (ro_idle_spin_count opts),
                      nr_watermark := (ro_watermark opts \<noteq> 0),
                      nr_ngroups := nvp, nr_hooks := (ro_task_enter opts, ro_task_leave opts, ro_context opts)\<rparr> in
                case init_vps e groups nvp 0 nvp n2 of
                  (Some k, n3) \<Rightarrow> (case give_back k n3 of (cs, n4) \<Rightarrow> (Failed cs, n4))
                | (None, n3) \<Rightarrow>
                    (let n4 = n3\<lparr>nr_nvp := nvp\<rparr> in
                     case timer_runtime_init e n4 of
                       (False, n5) \<Rightarrow> (case give_back nvp n5 of (cs, n6) \<Rightarrow> (Failed cs, n6))
                     | (True, n5) \<Rightarrow> (case blocking_runtime_init e threads n5 of
                         (False, n6) \<Rightarrow> (case give_back nvp (timer_runtime_destroy n6) of (cs, n7) \<Rightarrow> (Failed cs, n7))
                       | (True, n6) \<Rightarrow> (Created, n6)))))))"

text \<open>The release of everything but the tasks in \<open>dlsm_gt_runtime_free\<close>: the chunks it gives back, and what stays.\<close>

definition runtime_release :: "new_runtime \<Rightarrow> addr list option \<times> new_runtime" where
  "runtime_release n =
     (let n1 = relinquish S_groups (fold vp_idle_destroy [0..<nr_nvp n] n); cs = vp_chunks_free (nr_chunks n1) in
      (cs, relinquish S_runtime (blocking_runtime_destroy (timer_runtime_destroy n1))))"

definition blank_runtime :: "setup_env \<Rightarrow> (addr \<Rightarrow> addr option) \<Rightarrow> new_runtime" where
  "blank_runtime e nx = \<lparr>nr_held = {}, nr_chunks = \<lparr>vc_head = None, vc_next = nx\<rparr>, nr_answers = e_chunks e, nr_nvp = 0, nr_group = \<lambda>_. 0,
     nr_group_nvp = \<lambda>_. 0, nr_stack = 0, nr_spins = 0, nr_blocking = 0, nr_watermark = False,
     nr_ngroups = 0, nr_hooks = (0, 0, 0), nr_timer_initialized = False, nr_blocking_initialized = False\<rparr>"

section \<open>What is held on the way\<close>

definition idles :: "nat \<Rightarrow> setup_res set" where
  "idles k = S_idle_mutex ` {..<k} \<union> S_idle_cond ` {..<k}"

lemma idles_simps [simp]:
  "idles 0 = {}" "idles (Suc k) = {S_idle_mutex k, S_idle_cond k} \<union> idles k"
  by (auto simp: idles_def lessThan_Suc)

lemma held_simps [simp]:
  "nr_held (acquire x n) = insert x (nr_held n)" "nr_held (relinquish x n) = nr_held n - {x}"
  "nr_chunks (acquire x n) = nr_chunks n" "nr_chunks (relinquish x n) = nr_chunks n"
  "nr_answers (acquire x n) = nr_answers n" "nr_answers (relinquish x n) = nr_answers n"
  "nr_group (acquire x n) = nr_group n" "nr_group (relinquish x n) = nr_group n"
  "nr_group_nvp (acquire x n) = nr_group_nvp n" "nr_group_nvp (relinquish x n) = nr_group_nvp n"
  "nr_nvp (acquire x n) = nr_nvp n" "nr_nvp (relinquish x n) = nr_nvp n"
  "nr_blocking (acquire x n) = nr_blocking n" "nr_blocking (relinquish x n) = nr_blocking n"
  "nr_stack (acquire x n) = nr_stack n" "nr_stack (relinquish x n) = nr_stack n"
  "nr_timer_initialized (acquire x n) = nr_timer_initialized n" "nr_timer_initialized (relinquish x n) = nr_timer_initialized n"
  "nr_blocking_initialized (acquire x n) = nr_blocking_initialized n" "nr_blocking_initialized (relinquish x n) = nr_blocking_initialized n"
  by (simp_all add: acquire_def relinquish_def)

lemma fold_destroy:
  "nr_held (fold vp_idle_destroy [0..<k] n) = nr_held n - idles k" "nr_chunks (fold vp_idle_destroy [0..<k] n) = nr_chunks n"
  "nr_timer_initialized (fold vp_idle_destroy [0..<k] n) = nr_timer_initialized n"
  "nr_blocking_initialized (fold vp_idle_destroy [0..<k] n) = nr_blocking_initialized n"
  by (induction k) (auto simp: vp_idle_destroy_def)

text \<open>The chunks so far: all those \<open>calloc\<close> has provided, each linked once.\<close>

definition chunks_of :: "addr option list \<Rightarrow> new_runtime \<Rightarrow> addr list \<Rightarrow> bool" where
  "chunks_of al0 n cs \<longleftrightarrow> chunk_list (nr_chunks n) cs \<and> fresh_allocs (nr_answers n) cs \<and> allocated al0 = cs @ allocated (nr_answers n)"

lemma chunks_of_free: "chunks_of al0 n cs \<Longrightarrow> vp_chunks_free (nr_chunks n) = Some cs"
  by (simp add: chunks_of_def vp_chunks_free_def chunk_list_def walk_lseg)

lemma chunks_of_cong: "nr_chunks n' = nr_chunks n \<Longrightarrow> nr_answers n' = nr_answers n \<Longrightarrow> chunks_of al0 n' cs = chunks_of al0 n cs"
  by (simp add: chunks_of_def)

lemma idle_init_effect:
  assumes "vp_idle_init e i n = (ok, n')" and "S_idle_mutex i \<notin> nr_held n"
  shows "nr_held n' = (if ok then {S_idle_mutex i, S_idle_cond i} \<union> nr_held n else nr_held n)"
    and "nr_chunks n' = nr_chunks n" "nr_answers n' = nr_answers n" "nr_group n' = nr_group n" "nr_group_nvp n' = nr_group_nvp n"
      "nr_stack n' = nr_stack n"
  using assms by (auto simp: vp_idle_init_def split: if_splits)

lemma vp_init_effect:
  assumes v: "vp_init e i g n = (ok, n')" and c: "chunks_of al0 n cs" and h: "S_idle_mutex i \<notin> nr_held n"
  obtains new where "chunks_of al0 n' (cs @ new)" and "nr_held n' = (if ok then {S_idle_mutex i, S_idle_cond i} \<union> nr_held n else nr_held n)"
    and "ok \<longrightarrow> i div 64 < length (cs @ new)" and "ok \<longrightarrow> nr_group n' = (nr_group n)(i := g)" and "nr_group_nvp n' = nr_group_nvp n"
    and "nr_stack n' = nr_stack n"
proof -
  obtain ok1 al t where e: "ensure_vp_slot i (nr_answers n) (nr_chunks n) = (ok1, al, t)" by (cases "ensure_vp_slot i (nr_answers n) (nr_chunks n)")
  have cl: "chunk_list (nr_chunks n) cs" "fresh_allocs (nr_answers n) cs" using c by (simp_all add: chunks_of_def)
  obtain new where new: "chunk_list t (cs @ new)" "fresh_allocs al (cs @ new)" "ok1 \<Longrightarrow> i div 64 < length (cs @ new)"
    "allocated (nr_answers n) = new @ allocated al" using ensure_vp_slot_list [OF e cl] by blast
  let ?n1 = "n\<lparr>nr_answers := al, nr_chunks := t\<rparr>"
  have c1: "chunks_of al0 ?n1 (cs @ new)" using c new by (simp add: chunks_of_def)
  show thesis
  proof (cases ok1)
    case False
    then have "n' = ?n1" "\<not> ok" using v e by (simp_all add: vp_init_def)
    then show thesis using c1 that by simp
  next
    case True
    then have vi: "vp_idle_init e i (?n1\<lparr>nr_group := (nr_group n)(i := g)\<rparr>) = (ok, n')" using v e by (simp add: vp_init_def)
    note f = idle_init_effect [OF vi]
    have "chunks_of al0 n' (cs @ new)" using c1 chunks_of_cong [of n' ?n1] f(2,3) h by simp
    then show thesis using that f(1,4-6) h new(3) True by simp
  qed
qed

text \<open>After the first \<open>i\<close> processors.\<close>

definition ready :: "addr option list \<Rightarrow> (nat \<Rightarrow> int) \<Rightarrow> nat \<Rightarrow> nat \<Rightarrow> new_runtime \<Rightarrow> bool" where
  "ready al0 groups nvp i n \<longleftrightarrow> nr_held n = {S_runtime, S_groups} \<union> idles i \<and>
     (\<exists>cs. chunks_of al0 n cs \<and> (\<forall>j < i. j div 64 < length cs)) \<and>
     (\<forall>j < i. 0 \<le> groups j \<and> groups j < int nvp \<and> nr_group n j = nat (groups j)) \<and>
     (\<forall>g. nr_group_nvp n g = card {j. j < i \<and> nr_group n j = g})"

definition stuck :: "addr option list \<Rightarrow> nat \<Rightarrow> new_runtime \<Rightarrow> bool" where
  "stuck al0 k n \<longleftrightarrow> nr_held n = {S_runtime, S_groups} \<union> idles k \<and> (\<exists>cs. chunks_of al0 n cs)"

lemma card_group_upd:
  "card {j. j < Suc i \<and> (f(i := g)) j = h} = card {j. j < i \<and> f j = h} + (if g = h then 1 else 0)"
proof -
  have "{j. j < Suc i \<and> (f(i := g)) j = h} = (if g = h then insert i {j. j < i \<and> f j = h} else {j. j < i \<and> f j = h})"
    by (auto simp: less_Suc_eq)
  then show ?thesis by simp
qed

lemma init_vps_effect:
  assumes "init_vps e groups nvp i k n = (r, n')" and "ready al0 groups nvp i n"
  shows "case r of None \<Rightarrow> ready al0 groups nvp (i + k) n' \<and> nr_stack n' = nr_stack n | Some m \<Rightarrow> stuck al0 m n'"
  using assms
proof (induction k arbitrary: i n)
  case 0
  then show ?case by simp
next
  case (Suc k)
  note rd = Suc.prems(2) [unfolded ready_def]
  obtain cs where cs: "chunks_of al0 n cs" "\<forall>j < i. j div 64 < length cs" using rd by blast
  show ?case
  proof (cases "groups i < 0 \<or> groups i \<ge> int nvp")
    case True
    then have "r = Some i" "n' = n" using Suc.prems(1) by auto
    then show ?thesis using rd cs by (auto simp: stuck_def)
  next
    case False
    let ?g = "nat (groups i)"
    have h: "S_idle_mutex i \<notin> nr_held n" using rd by (auto simp: idles_def)
    obtain ok n1 where vi: "vp_init e i ?g n = (ok, n1)" by (cases "vp_init e i ?g n")
    obtain new where v: "chunks_of al0 n1 (cs @ new)" "nr_held n1 = (if ok then {S_idle_mutex i, S_idle_cond i} \<union> nr_held n else nr_held n)"
      "ok \<longrightarrow> i div 64 < length (cs @ new)" "ok \<longrightarrow> nr_group n1 = (nr_group n)(i := ?g)" "nr_group_nvp n1 = nr_group_nvp n" "nr_stack n1 = nr_stack n"
      by (rule vp_init_effect [OF vi cs(1) h])
    show ?thesis
    proof (cases ok)
      case False
      then have "r = Some i" "n' = n1" using Suc.prems(1) vi \<open>\<not> (groups i < 0 \<or> groups i \<ge> int nvp)\<close> by auto
      then show ?thesis using rd v False by (auto simp: stuck_def)
    next
      case True
      define n2 where "n2 = n1\<lparr>nr_group_nvp := (nr_group_nvp n1)(?g := nr_group_nvp n1 ?g + 1)\<rparr>"
      have e: "init_vps e groups nvp (i + 1) k n2 = (r, n')" using Suc.prems(1) vi True False by (auto simp: n2_def)
      have n2: "nr_held n2 = nr_held n1" "nr_group n2 = (nr_group n)(i := ?g)" "nr_stack n2 = nr_stack n"
        "nr_group_nvp n2 = (nr_group_nvp n)(?g := nr_group_nvp n ?g + 1)" using v(4-6) True by (simp_all add: n2_def)
      have "chunks_of al0 n2 (cs @ new)" using v(1) chunks_of_cong [of n2 n1] by (simp add: n2_def)
      moreover have "\<forall>j < Suc i. j div 64 < length (cs @ new)" using cs(2) v(3) True by (auto simp: less_Suc_eq)
      moreover have "nr_group_nvp n2 g = card {j. j < Suc i \<and> nr_group n2 j = g}" for g
        unfolding n2 card_group_upd using rd by auto
      ultimately have "ready al0 groups nvp (i + 1) n2" unfolding ready_def n2(1,2) using rd v(2) True False by (auto simp: less_Suc_eq n2)
      from Suc.IH [OF e this] show ?thesis using n2(3) by (auto split: option.splits)
    qed
  qed
qed

lemma vp_init_flag: "nr_blocking_initialized (snd (vp_init e i g n)) = nr_blocking_initialized n"
  by (auto simp: vp_init_def vp_idle_init_def Let_def split: prod.splits)

lemma init_vps_flag: "nr_blocking_initialized (snd (init_vps e groups nvp i k n)) = nr_blocking_initialized n"
proof (induction k arbitrary: i n)
  case (Suc k)
  show ?case using vp_init_flag [of e i "nat (groups i)" n] by (auto simp: Suc split: prod.splits bool.splits)
qed simp

section \<open>Creation and release\<close>

lemma stuck_give_back:
  assumes "stuck al0 k n"
  obtains cs n' where "give_back k n = (Some cs, n')" and "nr_held n' = {}" and "allocated al0 = cs @ allocated (nr_answers n)"
proof -
  obtain cs where cs: "chunks_of al0 n cs" and h: "nr_held n = {S_runtime, S_groups} \<union> idles k" using assms by (auto simp: stuck_def)
  have "fst (give_back k n) = Some cs" using chunks_of_free [OF cs] by (simp add: give_back_def Let_def fold_destroy)
  moreover have "nr_held (snd (give_back k n)) = {}" using h by (auto simp: give_back_def Let_def fold_destroy)
  moreover have "allocated al0 = cs @ allocated (nr_answers n)" using cs by (simp add: chunks_of_def)
  ultimately show thesis using that by (metis prod.collapse)
qed

lemma timer_init_effect:
  assumes "timer_runtime_init e n = (ok, n')" and "nr_held n \<inter> {S_timer_mutex, S_timer_attr, S_timer_cond} = {}"
  shows "nr_held n' = (if ok then {S_timer_mutex, S_timer_cond} \<union> nr_held n else nr_held n)"
    and "nr_chunks n' = nr_chunks n" "nr_answers n' = nr_answers n" "nr_group n' = nr_group n" "nr_group_nvp n' = nr_group_nvp n"
      "nr_nvp n' = nr_nvp n" "nr_stack n' = nr_stack n" and "ok \<Longrightarrow> nr_timer_initialized n'"
      "nr_blocking_initialized n' = nr_blocking_initialized n"
  using assms by (auto simp: timer_runtime_init_def Let_def split: if_splits)

lemma blocking_init_effect:
  assumes "blocking_runtime_init e k n = (ok, n')" and "nr_held n \<inter> {S_blocking_mutex, S_blocking_cond, S_blocking_threads} = {}"
    and "\<not> nr_blocking_initialized n"
  shows "nr_held n' = (if ok \<and> k \<noteq> 0 then {S_blocking_mutex, S_blocking_cond, S_blocking_threads} \<union> nr_held n else nr_held n)"
    and "nr_chunks n' = nr_chunks n" "nr_answers n' = nr_answers n" "nr_group n' = nr_group n" "nr_group_nvp n' = nr_group_nvp n"
      "nr_nvp n' = nr_nvp n" "nr_stack n' = nr_stack n" and "nr_blocking_initialized n' = (ok \<and> k \<noteq> 0)"
      "nr_timer_initialized n' = nr_timer_initialized n"
  using assms by (auto simp: blocking_runtime_init_def Let_def split: if_splits)

lemma idles_other [simp]:
  "S_runtime \<notin> idles k" "S_groups \<notin> idles k" "S_timer_mutex \<notin> idles k" "S_timer_attr \<notin> idles k" "S_timer_cond \<notin> idles k" "S_timer_heap \<notin> idles k"
  "S_blocking_mutex \<notin> idles k" "S_blocking_cond \<notin> idles k" "S_blocking_threads \<notin> idles k"
  by (auto simp: idles_def)

lemma ready_stuck: "ready al0 groups nvp i n \<Longrightarrow> nr_held n' = nr_held n \<Longrightarrow> nr_chunks n' = nr_chunks n \<Longrightarrow> nr_answers n' = nr_answers n \<Longrightarrow> stuck al0 i n'"
  unfolding ready_def stuck_def using chunks_of_cong [of n' n] by metis

text \<open>What a created runtime has.\<close>

definition complete :: "addr option list \<Rightarrow> new_runtime \<Rightarrow> bool" where
  "complete al0 n \<longleftrightarrow> (\<exists>cs. vp_chunks_free (nr_chunks n) = Some cs \<and> allocated al0 = cs @ allocated (nr_answers n)) \<and>
     0 < nr_nvp n \<and> DLSM_GT_MIN_STACK \<le> nr_stack n \<and>
     (\<forall>j < nr_nvp n. vp_at (nr_chunks n) j \<noteq> None \<and> nr_group n j < nr_nvp n) \<and>
     (\<forall>g. nr_group_nvp n g = card {j. j < nr_nvp n \<and> nr_group n j = g}) \<and> nr_held (snd (runtime_release n)) = {}"

lemma ready_complete:
  assumes rd: "ready al0 groups nvp nvp n" and nvp: "0 < nvp" and st: "DLSM_GT_MIN_STACK \<le> nr_stack n"
    and n': "nr_chunks n' = nr_chunks n" "nr_answers n' = nr_answers n" "nr_group n' = nr_group n" "nr_group_nvp n' = nr_group_nvp n"
      "nr_stack n' = nr_stack n" "nr_nvp n' = nvp" "nr_blocking_initialized n' = (b \<noteq> 0)" "nr_timer_initialized n'"
    and h: "nr_held n' = (if b \<noteq> 0 then {S_blocking_mutex, S_blocking_cond, S_blocking_threads} else {}) \<union> ({S_timer_mutex, S_timer_cond} \<union> nr_held n)"
  shows "complete al0 n'"
proof -
  note r = rd [unfolded ready_def]
  obtain cs where cs: "chunks_of al0 n cs" "\<forall>j < nvp. j div 64 < length cs" using r by blast
  have "nr_held (snd (runtime_release n')) = {}"
    using r h by (auto simp: runtime_release_def Let_def fold_destroy blocking_runtime_destroy_def timer_runtime_destroy_def n'(6-8))
  moreover have "\<forall>j < nvp. vp_at (nr_chunks n) j \<noteq> None" using cs vp_at_list [of "nr_chunks n" cs] by (simp add: chunks_of_def)
  moreover have "\<forall>j < nvp. nr_group n j < nvp" using r by auto
  ultimately show ?thesis unfolding complete_def n'(1-6) using nvp st r chunks_of_free [OF cs(1)] cs(1) by (auto simp: chunks_of_def)
qed

text \<open>The last two steps of a creation: it is complete, or there is nothing left but what \<open>give_back\<close> takes.\<close>

lemma last_steps:
  assumes rd: "ready al0 groups nvp nvp n3" and nvp: "0 < nvp" and st: "DLSM_GT_MIN_STACK \<le> nr_stack n3" and fl: "\<not> nr_blocking_initialized n3"
    and ti: "timer_runtime_init e (n3\<lparr>nr_nvp := nvp\<rparr>) = (ok1, n5)" and bi: "blocking_runtime_init e b n5 = (ok2, n6)"
  shows "ok1 \<Longrightarrow> ok2 \<Longrightarrow> complete al0 n6" and "\<not> ok1 \<Longrightarrow> stuck al0 nvp n5" and "ok1 \<Longrightarrow> \<not> ok2 \<Longrightarrow> stuck al0 nvp (timer_runtime_destroy n6)"
proof -
  have h3: "nr_held n3 = {S_runtime, S_groups} \<union> idles nvp" using rd by (simp add: ready_def)
  have "nr_held (n3\<lparr>nr_nvp := nvp\<rparr>) \<inter> {S_timer_mutex, S_timer_attr, S_timer_cond} = {}" using h3 by auto
  note t = timer_init_effect [OF ti this]
  have h5: "nr_held n5 \<inter> {S_blocking_mutex, S_blocking_cond, S_blocking_threads} = {}" using t(1) h3 by (auto split: if_splits)
  have f5: "\<not> nr_blocking_initialized n5" using t(9) fl by simp
  note k = blocking_init_effect [OF bi h5 f5]
  show "complete al0 n6" if ok: "ok1" "ok2"
  proof (rule ready_complete [OF rd nvp st])
    show "nr_held n6 = (if b \<noteq> 0 then {S_blocking_mutex, S_blocking_cond, S_blocking_threads} else {}) \<union> ({S_timer_mutex, S_timer_cond} \<union> nr_held n3)"
      using t(1) k(1) ok by simp
    show "nr_timer_initialized n6" "nr_blocking_initialized n6 = (b \<noteq> 0)" using t(8) k(8,9) ok by simp_all
  qed (use t(2-7) k(2-7) in simp_all)
  show "stuck al0 nvp n5" if "\<not> ok1" using ready_stuck [OF rd, of n5] t that by simp
  show "stuck al0 nvp (timer_runtime_destroy n6)" if ok: "ok1" "\<not> ok2"
  proof -
    have "nr_held (timer_runtime_destroy n6) = nr_held n3" using k(1,9) t(1,8) h3 ok by (auto simp: timer_runtime_destroy_def)
    then show ?thesis using ready_stuck [OF rd, of "timer_runtime_destroy n6"] t k by (simp add: timer_runtime_destroy_def)
  qed
qed

text \<open>
  Creation is all or nothing. Whatever call fails, everything it had acquired is given back: no
  resource is held, and every chunk of processors that was allocated is freed once. When it succeeds, every processor
  has its entry and a group that exists, the groups' counts are exact, and \<open>dlsm_gt_runtime_free\<close> gives everything
  back.
\<close>

lemma runtime_create_all_or_nothing:
  assumes "distinct (allocated (e_chunks e))"
  shows "case runtime_create e opts (blank_runtime e nx) of (res, n) \<Rightarrow> (case res of
      Refused \<Rightarrow> nr_held n = {} \<and> allocated (nr_answers n) = allocated (e_chunks e)
    | Failed freed \<Rightarrow> nr_held n = {} \<and> (\<exists>cs rest. freed = Some cs \<and> distinct cs \<and> allocated (e_chunks e) = cs @ rest)
    | Created \<Rightarrow> complete (e_chunks e) n)"
proof -
  define nvp where "nvp = resolved_nvp e (ro_nvp opts)"
  define stack where "stack = (if ro_stack_bytes opts = 0 then 128 * 1024 else ro_stack_bytes opts)"
  define groups where "groups = (\<lambda>i. case ro_vp_groups opts of Some g \<Rightarrow> g i | None \<Rightarrow> 0)"
  define n2 where "n2 = (acquire S_groups (acquire S_runtime (blank_runtime e nx)))\<lparr>nr_stack := stack, nr_spins := resolved_spins (ro_idle_spin_count opts),
                      nr_watermark := (ro_watermark opts \<noteq> 0), nr_ngroups := nvp, nr_hooks := (ro_task_enter opts, ro_task_leave opts, ro_context opts)\<rparr>"
  have nvp: "0 < nvp" by (auto simp: nvp_def resolved_nvp_def)
  have early: "nr_held (blank_runtime e nx) = {}" "allocated (nr_answers (blank_runtime e nx)) = allocated (e_chunks e)" by (simp_all add: blank_runtime_def)
  have blankr: "ready (e_chunks e) groups nvp 0 n2" "nr_stack n2 = stack"
    using assms by (auto simp: ready_def n2_def blank_runtime_def chunks_of_def chunk_list_def fresh_allocs_def intro!: exI [of _ "[]"])
  have failed: "case give_back k n of (cs, n') \<Rightarrow> nr_held n' = {} \<and> (\<exists>cs' rest. cs = Some cs' \<and> distinct cs' \<and> allocated (e_chunks e) = cs' @ rest)"
    if "stuck (e_chunks e) k n" for k n
    using that assms by (elim stuck_give_back) (auto simp: distinct_append)
  show ?thesis
  proof (cases "resolved_blocking (ro_blocking_threads opts) = None \<or> ro_vp_groups opts \<noteq> None \<and> ro_nvp opts \<le> 0 \<or> stack < DLSM_GT_MIN_STACK \<or> \<not> e_runtime e \<or> \<not> e_groups e")
    case True
    then show ?thesis using early unfolding runtime_create_def Let_def nvp_def [symmetric] stack_def [symmetric]
      by (auto split: option.splits)
  next
    case False
    then obtain b where b: "resolved_blocking (ro_blocking_threads opts) = Some b" by auto
    obtain r n3 where iv: "init_vps e groups nvp 0 nvp n2 = (r, n3)" by (cases "init_vps e groups nvp 0 nvp n2")
    note eff = init_vps_effect [OF iv blankr(1)]
    obtain ok1 n5 where ti: "timer_runtime_init e (n3\<lparr>nr_nvp := nvp\<rparr>) = (ok1, n5)" by (cases "timer_runtime_init e (n3\<lparr>nr_nvp := nvp\<rparr>)")
    obtain ok2 n6 where bi: "blocking_runtime_init e b n5 = (ok2, n6)" by (cases "blocking_runtime_init e b n5")
    have new: "runtime_create e opts (blank_runtime e nx) = (case r of
        Some k \<Rightarrow> (case give_back k n3 of (cs, n4) \<Rightarrow> (Failed cs, n4))
      | None \<Rightarrow> if \<not> ok1 then (case give_back nvp n5 of (cs, n6) \<Rightarrow> (Failed cs, n6))
               else if \<not> ok2 then (case give_back nvp (timer_runtime_destroy n6) of (cs, n7) \<Rightarrow> (Failed cs, n7))
               else (Created, n6))"
      using False b iv ti bi
      unfolding runtime_create_def Let_def nvp_def [symmetric] stack_def [symmetric] groups_def [symmetric] n2_def [symmetric]
      by (auto split: option.splits prod.splits bool.splits)
    show ?thesis
    proof (cases r)
      case (Some k)
      then have "stuck (e_chunks e) k n3" using eff by simp
      from failed [OF this] show ?thesis unfolding new using Some by (auto split: prod.splits)
    next
      case None
      then have rd: "ready (e_chunks e) groups nvp nvp n3" and st: "nr_stack n3 = stack" using eff blankr(2) by simp_all
      have fl: "\<not> nr_blocking_initialized n3" using init_vps_flag [of e groups nvp 0 nvp n2] iv by (simp add: n2_def blank_runtime_def acquire_def)
      have "DLSM_GT_MIN_STACK \<le> nr_stack n3" using st False by (auto simp: not_less)
      note tl = last_steps [OF rd nvp this fl ti bi]
      show ?thesis using tl(1) failed [OF tl(2)] failed [OF tl(3)] unfolding new None by (auto split: prod.splits)
    qed
  qed
qed

section \<open>Tasks\<close>

text \<open>
  The control block \<open>task_new\<close> fills in, and what a task holds besides. \<open>ok_block\<close>, \<open>ok_mutex\<close> and \<open>ok_cond\<close> say which
  calls succeed; \<open>made\<close> is the answer of \<open>make_stack\<close> for the size asked for. The scheduling state of a new
  task is that of \<open>Gt_Sched\<close>.
\<close>

datatype task_res = T_block | T_mutex | T_cond | T_stack u64 u64

record task_options =
  o_priority :: int
  o_group :: int
  o_vp :: int
  o_flags :: u32
  o_budget :: u64
  o_stack :: u64

record task_block =
  b_entry :: u64
  b_arg :: u64
  b_priority :: int
  b_group :: int
  b_vp :: int
  b_last_vp :: int
  b_flags :: u32
  b_watermark :: bool
  b_poll_budget :: u64
  b_completion_initialized :: bool
  b_stack :: "task_stack option"

abbreviation DLSM_GT_POLL_BUDGET_DEFAULT_NS :: u64 where "DLSM_GT_POLL_BUDGET_DEFAULT_NS \<equiv> 1000000"

definition task_budget :: "u64 \<Rightarrow> u64" where
  "task_budget b = (if b = 0 then DLSM_GT_POLL_BUDGET_DEFAULT_NS else b)"

definition task_stack_bytes :: "u64 \<Rightarrow> u64 \<Rightarrow> u64" where
  "task_stack_bytes option_bytes rt_bytes = (if option_bytes = 0 then rt_bytes else option_bytes)"

definition fill_block :: "u64 \<Rightarrow> u64 \<Rightarrow> bool \<Rightarrow> task_options \<Rightarrow> task_block" where
  "fill_block entry arg watermark opts = \<lparr>b_entry = entry, b_arg = arg, b_priority = o_priority opts, b_group = o_group opts, b_vp = o_vp opts,
     b_last_vp = - 1, b_flags = o_flags opts, b_watermark = watermark, b_poll_budget = task_budget (o_budget opts),
     b_completion_initialized = False, b_stack = None\<rparr>"

definition task_new ::
  "bool \<Rightarrow> bool \<Rightarrow> bool \<Rightarrow> (bool \<Rightarrow> u64 \<Rightarrow> u64 \<Rightarrow> u64 \<Rightarrow> task_stack option \<times> memory \<times> (u64 \<times> u64) set) \<Rightarrow> u64 \<Rightarrow> bool \<Rightarrow>
   u64 \<Rightarrow> u64 \<Rightarrow> task_options \<Rightarrow> task_block option \<times> task_res set" where
  "task_new ok_block ok_mutex ok_cond mk rt_stack rt_watermark entry arg opts =
     (if \<not> ok_block then (None, {})
      else
        (let h1 = {T_block}; t = fill_block entry arg rt_watermark opts in
         if \<not> ok_mutex then (None, h1 - {T_block})
         else
           (let h2 = insert T_mutex h1 in
            if \<not> ok_cond then (None, h2 - {T_mutex} - {T_block})
            else
              (let h3 = insert T_cond h2; t = t\<lparr>b_completion_initialized := True\<rparr> in
               case mk (b_watermark t) (b_entry t) (b_arg t) (task_stack_bytes (o_stack opts) rt_stack) of
                 (None, m, maps) \<Rightarrow> (None, h3 - {T_cond} - {T_mutex} - {T_block})
               | (Some k, m, maps) \<Rightarrow> (Some (t\<lparr>b_stack := Some k\<rparr>), h3 \<union> (\<lambda>(a, len). T_stack a len) ` maps)))))"

text \<open>What \<open>task_free\<close> gives back: the stack, when the task still has one, the condition and mutex once initialised, the block.\<close>

definition task_free_resources :: "task_block \<Rightarrow> task_res set \<Rightarrow> task_res set" where
  "task_free_resources t h =
     (let h1 = (case b_stack t of None \<Rightarrow> h | Some k \<Rightarrow> h - {T_stack (k_map k) (k_map_len k)});
          h2 = (if b_completion_initialized t then h1 - {T_cond} - {T_mutex} else h1) in h2 - {T_block})"

text \<open>
  A task is created whole or not at all: when any call fails, nothing stays allocated or mapped; otherwise it has its
  control block with the options asked for, its mutex and condition and the stack that was made, and \<open>task_free\<close> gives
  all of them back.
\<close>

theorem task_new_all_or_nothing:
  "case task_new ok_block ok_mutex ok_cond (\<lambda>w en ar sb. make_stack pg mmap protect w en ar trampoline sb m) rt_stack rt_watermark entry arg opts of (to, h) \<Rightarrow>
     (case to of
        None \<Rightarrow> h = {} \<and> (\<not> ok_block \<or> \<not> ok_mutex \<or> \<not> ok_cond \<or>
          fst (make_stack pg mmap protect rt_watermark entry arg trampoline (task_stack_bytes (o_stack opts) rt_stack) m) = None)
      | Some t \<Rightarrow> (\<exists>k. b_stack t = Some k \<and> h = {T_block, T_mutex, T_cond, T_stack (k_map k) (k_map_len k)} \<and>
            fst (make_stack pg mmap protect rt_watermark entry arg trampoline (task_stack_bytes (o_stack opts) rt_stack) m) = Some k) \<and>
          task_free_resources t h = {} \<and> ok_block \<and> ok_mutex \<and> ok_cond \<and> b_entry t = entry \<and> b_arg t = arg \<and>
          b_priority t = o_priority opts \<and> b_group t = o_group opts \<and> b_vp t = o_vp opts \<and> b_poll_budget t \<noteq> 0)"
proof (cases "make_stack pg mmap protect rt_watermark entry arg trampoline (task_stack_bytes (o_stack opts) rt_stack) m")
  case (fields ko m' maps)
  show ?thesis
  proof (cases ko)
    case None
    then show ?thesis using fields by (auto simp: task_new_def Let_def fill_block_def)
  next
    case (Some k)
    have "maps = {(k_map k, k_map_len k)}" using fields Some by (auto simp: make_stack_def Let_def split: option.splits if_splits)
    then show ?thesis using fields Some by (auto simp: task_new_def Let_def task_free_resources_def fill_block_def task_budget_def)
  qed
qed

end
