(* ===== verification/Gt_Setup.thy ===== *)
theory Gt_Setup
  imports Gt_Create Gt_System
begin

text \<open>
  Options and admission (\<^verbatim>\<open>libs/greenthread/src/greenthread.c\<close>): the option structures with their size and version,
  \<open>dlsm_gt_runtime_new_ex\<close> from the caller's structure on, and the checks of \<open>dlsm_gt_spawn_ex\<close> before it creates a task.
  Option structures are the bytes the caller provides, with the x86-64 layout of \<^verbatim>\<open>greenthread.h\<close>.
\<close>

section \<open>Option structures\<close>

abbreviation DLSM_GT_API_VERSION :: nat where "DLSM_GT_API_VERSION \<equiv> 1"

text \<open>\<open>d\<close> are the bytes of the default structure, whose length is its size.\<close>

definition resolve_bytes :: "u8 list \<Rightarrow> u8 list \<Rightarrow> u8 list option" where
  "resolve_bytes d opts =
     (let struct_size = nat_of_bytes (take 4 opts);
          declared_size = (if struct_size = 0 then length d else struct_size) in
      if declared_size < 8 then None
      else
        (let copy_size = (if declared_size < length d then declared_size else length d);
             resolved = take copy_size opts @ drop copy_size d;
             api_version = nat_of_bytes (take 4 (drop 4 resolved)) in
         if api_version = 0 \<or> api_version = DLSM_GT_API_VERSION then Some resolved else None))"

definition runtime_options_init :: "u8 list" where
  "runtime_options_init = bytes_of 4 72 @ bytes_of 4 DLSM_GT_API_VERSION @ replicate 64 0"

definition task_options_init :: "u8 list" where
  "task_options_init = bytes_of 4 40 @ bytes_of 4 DLSM_GT_API_VERSION @ bytes_of 4 4 @ replicate 4 (- 1) @ replicate 4 (- 1) @ replicate 20 0"

definition runtime_options_resolve :: "u8 list option \<Rightarrow> u8 list option" where
  "runtime_options_resolve options = Option.bind options (resolve_bytes runtime_options_init)"

definition task_options_resolve :: "u8 list option \<Rightarrow> u8 list option" where
  "task_options_resolve options = (case options of None \<Rightarrow> Some task_options_init | Some opts \<Rightarrow> resolve_bytes task_options_init opts)"

abbreviation field :: "nat \<Rightarrow> nat \<Rightarrow> u8 list \<Rightarrow> u8 list" where
  "field off w bs \<equiv> take w (drop off bs)"

definition int_field :: "nat \<Rightarrow> u8 list \<Rightarrow> int" where
  "int_field off bs = sint (of_nat (nat_of_bytes (field off 4 bs)) :: u32)"

definition decode_task_options :: "u8 list \<Rightarrow> task_options" where
  "decode_task_options bs = \<lparr>o_priority = int_field 8 bs, o_group = int_field 12 bs, o_vp = int_field 16 bs,
     o_flags = of_nat (nat_of_bytes (field 20 4 bs)), o_budget = of_nat (nat_of_bytes (field 24 8 bs)),
     o_stack = of_nat (nat_of_bytes (field 32 8 bs))\<rparr>"

definition decode_runtime_options :: "(u64 \<Rightarrow> nat \<Rightarrow> int) \<Rightarrow> u8 list \<Rightarrow> runtime_options" where
  "decode_runtime_options read_ints bs =
     (let groups = (of_nat (nat_of_bytes (field 24 8 bs)) :: u64) in
      \<lparr>ro_nvp = int_field 8 bs, ro_stack_bytes = of_nat (nat_of_bytes (field 16 8 bs)),
       ro_vp_groups = (if groups = 0 then None else Some (read_ints groups)),
       ro_idle_spin_count = of_nat (nat_of_bytes (field 32 4 bs)), ro_blocking_threads = int_field 36 bs,
       ro_task_enter = of_nat (nat_of_bytes (field 40 8 bs)), ro_task_leave = of_nat (nat_of_bytes (field 48 8 bs)),
       ro_context = of_nat (nat_of_bytes (field 56 8 bs)), ro_watermark = int_field 64 bs\<rparr>)"

text \<open>
  Structures of any declared size are accepted as the header promises: they are refused exactly when they do not
  hold the header or name another version; otherwise every field inside the declared size has the caller's
  bytes, and every field behind it the default.
\<close>

theorem options_compatible:
  assumes d: "8 \<le> length d" and size: "declared = (if nat_of_bytes (take 4 opts) = 0 then length d else nat_of_bytes (take 4 opts))"
    and mem: "min declared (length d) \<le> length opts" "8 \<le> length opts"
  shows "(resolve_bytes d opts = None \<longleftrightarrow> declared < 8 \<or> nat_of_bytes (field 4 4 opts) \<notin> {0, DLSM_GT_API_VERSION}) \<and>
    (resolve_bytes d opts = Some r \<longrightarrow> length r = length d \<and>
      (\<forall>off w. off + w \<le> min declared (length d) \<longrightarrow> field off w r = field off w opts) \<and>
      (\<forall>off w. declared \<le> off \<longrightarrow> field off w r = field off w d))"
proof -
  let ?n = "min declared (length d)"
  define x where "x = take ?n opts @ drop ?n d"
  have n: "(if declared < length d then declared else length d) = ?n" by simp
  have res: "resolve_bytes d opts = (if declared < 8 then None
      else if nat_of_bytes (field 4 4 x) = 0 \<or> nat_of_bytes (field 4 4 x) = DLSM_GT_API_VERSION then Some x else None)"
    unfolding resolve_bytes_def Let_def size [symmetric] n x_def [symmetric] by (rule refl)
  have inside: "field off w x = field off w opts" if "off + w \<le> ?n" for off w
    unfolding x_def by (rule nth_equalityI) (use that mem in \<open>auto simp: nth_append\<close>)
  have outside: "field off w x = field off w d" if "declared \<le> off" for off w
  proof -
    have "drop off x = drop off d"
    proof (cases "declared \<le> length d")
      case True
      then have "drop off x = drop (off - declared) (drop declared d)" using that mem by (simp add: x_def)
      then show ?thesis using that by simp
    next
      case False
      then show ?thesis using that mem by (simp add: x_def)
    qed
    then show ?thesis by simp
  qed
  have "length x = length d" using mem by (simp add: x_def)
  moreover have "declared < 8 \<or> field 4 4 x = field 4 4 opts" using inside [of 4 4] d by (cases "declared < 8") auto
  ultimately show ?thesis using inside outside unfolding res by (auto split: if_splits)
qed

theorem options_compatible_witness:
  "\<exists>r. resolve_bytes task_options_init (bytes_of 4 12 @ bytes_of 4 1 @ bytes_of 4 7) = Some r \<and> length r = 40 \<and>
     field 8 4 r = bytes_of 4 7 \<and> field 12 8 r = replicate 8 (- 1)"
proof -
  let ?o = "bytes_of 4 12 @ bytes_of 4 1 @ bytes_of 4 7"
  have "take 4 ?o = bytes_of 4 12" "field 4 4 ?o = bytes_of 4 1" "field 8 4 ?o = bytes_of 4 7" by simp_all
  then have n: "nat_of_bytes (take 4 ?o) = 12" "nat_of_bytes (field 4 4 ?o) = 1" "field 8 4 ?o = bytes_of 4 7" by (simp_all only: nat_of_bytes_of) simp_all
  have l: "length task_options_init = 40" by (simp add: task_options_init_def)
  obtain r where r: "resolve_bytes task_options_init ?o = Some r"
    using options_compatible [of task_options_init 12 ?o] n l by (cases "resolve_bytes task_options_init ?o") auto
  have c: "length r = 40" "\<And>off w. off + w \<le> 12 \<Longrightarrow> field off w r = field off w ?o" "\<And>off w. 12 \<le> off \<Longrightarrow> field off w r = field off w task_options_init"
    using options_compatible [of task_options_init 12 ?o r] n l r by auto
  have ti: "task_options_init = (bytes_of 4 40 @ bytes_of 4 1 @ bytes_of 4 4) @ (replicate 8 (- 1) @ replicate 20 0)"
    by (simp add: task_options_init_def flip: replicate_add append_assoc)
  have dr: "drop 12 task_options_init = replicate 8 (- 1) @ replicate 20 0" unfolding ti by simp
  have "field 12 8 task_options_init = replicate 8 (- 1)" unfolding dr by simp
  then have "field 8 4 r = bytes_of 4 7" "field 12 8 r = replicate 8 (- 1)" using c(2) [of 8 4] c(3) [of 12 8] n(3) by simp_all
  with r c(1) show ?thesis by blast
qed

section \<open>Creating a runtime from its options\<close>

text \<open>\<open>read_ints\<close> reads the array of groups in the caller's memory.\<close>

definition dlsm_gt_runtime_new_ex ::
  "setup_env \<Rightarrow> (u64 \<Rightarrow> nat \<Rightarrow> int) \<Rightarrow> u8 list option \<Rightarrow> new_runtime \<Rightarrow> creation \<times> new_runtime" where
  "dlsm_gt_runtime_new_ex e read_ints options blank = (case runtime_options_resolve options of
     None \<Rightarrow> (Refused, blank)
   | Some bs \<Rightarrow> runtime_create e (decode_runtime_options read_ints bs) blank)"

definition dlsm_gt_runtime_new :: "setup_env \<Rightarrow> u32 \<Rightarrow> u64 \<Rightarrow> new_runtime \<Rightarrow> creation \<times> new_runtime" where
  "dlsm_gt_runtime_new e nvp stack_bytes =
     dlsm_gt_runtime_new_ex e (\<lambda>_ _. 0)
       (Some (bytes_of 4 72 @ bytes_of 4 DLSM_GT_API_VERSION @ bytes_of 4 (unat nvp) @ replicate 4 0 @ bytes_of 8 (unat stack_bytes) @ replicate 48 0))"

text \<open>
  Claim C10. Creating a runtime is all or nothing, whatever structure the caller passes and whatever call fails: everything acquired is given
  back, and every chunk of processors that was allocated is freed once. When it succeeds, every processor has its
  entry and a group that exists, the groups' counts are exact, and \<open>dlsm_gt_runtime_free\<close> gives everything back.
\<close>

theorem runtime_new_all_or_nothing:
  assumes "distinct (allocated (e_chunks e))"
  shows "case dlsm_gt_runtime_new_ex e read_ints options (blank_runtime e nx) of (res, n) \<Rightarrow> (case res of
      Refused \<Rightarrow> nr_held n = {} \<and> allocated (nr_answers n) = allocated (e_chunks e)
    | Failed freed \<Rightarrow> nr_held n = {} \<and> (\<exists>cs rest. freed = Some cs \<and> distinct cs \<and> allocated (e_chunks e) = cs @ rest)
    | Created \<Rightarrow> complete (e_chunks e) n)"
proof (cases "runtime_options_resolve options")
  case None
  then show ?thesis by (simp add: dlsm_gt_runtime_new_ex_def blank_runtime_def)
next
  case (Some bs)
  show ?thesis using runtime_create_all_or_nothing [OF assms, of "decode_runtime_options read_ints bs" nx]
    by (simp add: dlsm_gt_runtime_new_ex_def Some)
qed


definition good_env :: setup_env where
  "good_env = \<lparr>e_runtime = True, e_groups = True, e_chunks = [Some 3], e_idle_mutex = \<lambda>_. True, e_idle_cond = \<lambda>_. True, e_timer_mutex = True,
     e_timer_attr = True, e_timer_clock = True, e_timer_cond = True, e_blocking_mutex = True, e_blocking_cond = True, e_blocking_threads = True, e_cpus = 1\<rparr>"

theorem runtime_new_all_or_nothing_witness:
  "\<exists>n. dlsm_gt_runtime_new good_env 0 0 (blank_runtime good_env (\<lambda>_. None)) = (Created, n) \<and> complete [Some 3] n"
proof -
  let ?opts = "bytes_of 4 72 @ bytes_of 4 DLSM_GT_API_VERSION @ bytes_of 4 0 @ replicate 4 0 @ bytes_of 8 0 @ replicate 48 (0 :: u8)"
  have r: "runtime_options_resolve (Some ?opts) = Some ?opts" by code_simp
  have d: "decode_runtime_options (\<lambda>_ _. 0) ?opts = \<lparr>ro_nvp = 0, ro_stack_bytes = 0, ro_vp_groups = None, ro_idle_spin_count = 0, ro_blocking_threads = 0,
     ro_task_enter = 0, ro_task_leave = 0, ro_context = 0, ro_watermark = 0\<rparr>"
  proof -
    have f: "nat_of_bytes (field 16 8 ?opts) = 0" "nat_of_bytes (field 24 8 ?opts) = 0" "nat_of_bytes (field 32 4 ?opts) = 0"
      "nat_of_bytes (field 40 8 ?opts) = 0" "nat_of_bytes (field 48 8 ?opts) = 0" "nat_of_bytes (field 56 8 ?opts) = 0" by code_simp+
    have g: "int_field 8 ?opts = 0" "int_field 36 ?opts = 0" "int_field 64 ?opts = 0" by code_simp+
    show ?thesis unfolding decode_runtime_options_def f g by simp
  qed
  have "fst (dlsm_gt_runtime_new_ex good_env (\<lambda>_ _. 0) (Some ?opts) (blank_runtime good_env (\<lambda>_. None))) = Created"
    unfolding dlsm_gt_runtime_new_ex_def r option.case d
    by (simp add: runtime_create_def good_env_def blank_runtime_def resolved_blocking_def resolved_nvp_def
        vp_init_def ensure_vp_slot_def vp_idle_init_def timer_runtime_init_def blocking_runtime_init_def Let_def acquire_def link_chunk_def)
  then obtain n where n: "dlsm_gt_runtime_new_ex good_env (\<lambda>_ _. 0) (Some ?opts) (blank_runtime good_env (\<lambda>_. None)) = (Created, n)" by (metis prod.collapse)
  have "distinct (allocated (e_chunks good_env))" by (simp add: good_env_def)
  from runtime_new_all_or_nothing [OF this, of "\<lambda>_ _. 0" "Some ?opts" "\<lambda>_. None"] have "complete (e_chunks good_env) n" unfolding n by simp
  with n show ?thesis by (simp add: good_env_def dlsm_gt_runtime_new_def)
qed

section \<open>Admission of tasks\<close>

text \<open>
  The checks of \<open>dlsm_gt_spawn_ex\<close> after the options are resolved. \<open>caller\<close> is the processor of the caller when it
  belongs to the same runtime, \<open>group_nvp\<close> the number of processors of a group. The answer has the group filled in.
\<close>

definition spawn_check :: "sched \<Rightarrow> nat \<Rightarrow> (nat \<Rightarrow> nat) \<Rightarrow> nat option \<Rightarrow> task_options \<Rightarrow> task_options option" where
  "spawn_check s ngroups group_nvp caller opts =
     (let g = (if o_group opts = - 1 then (case caller of Some c \<Rightarrow> int (v_group (s_vp s c)) | None \<Rightarrow> int (v_group (s_vp s 0)))
               else o_group opts);
          resolved = opts\<lparr>o_group := g\<rparr> in
      if o_priority resolved < 0 \<or> o_priority resolved \<ge> int DLSM_GT_PRIORITY_LEVELS \<or> o_group resolved < 0 \<or>
         o_group resolved \<ge> int ngroups \<or> group_nvp (nat (o_group resolved)) = 0 \<or> o_flags resolved \<noteq> 0 \<or>
         o_vp resolved < - 1 \<or> o_vp resolved \<ge> int (s_nvp s) \<or>
         (o_vp resolved \<noteq> - 1 \<and> int (v_group (s_vp s (nat (o_vp resolved)))) \<noteq> o_group resolved)
      then None
      else if o_stack resolved \<noteq> 0 \<and> o_stack resolved < DLSM_GT_MIN_STACK then None
      else Some resolved)"

definition bound_vp :: "task_options \<Rightarrow> nat option" where
  "bound_vp r = (if o_vp r = - 1 then None else Some (nat (o_vp r)))"

lemma spawn_check_accepted:
  assumes cnt: "\<And>g. group_nvp g = card {v. v < s_nvp s \<and> v_group (s_vp s v) = g}" and c: "spawn_check s ngroups group_nvp caller opts = Some r"
  shows "spawn_ok s (nat (o_priority r)) (nat (o_group r)) (bound_vp r) \<and> nat (o_group r) < ngroups \<and>
    (\<exists>v < s_nvp s. v_group (s_vp s v) = nat (o_group r) \<and> (bound_vp r = None \<or> bound_vp r = Some v))"
proof -
  have p: "0 \<le> o_priority r" "o_priority r < 8" "0 \<le> o_group r" "o_group r < int ngroups" "group_nvp (nat (o_group r)) \<noteq> 0"
    "- 1 \<le> o_vp r" "o_vp r < int (s_nvp s)" "o_vp r \<noteq> - 1 \<Longrightarrow> int (v_group (s_vp s (nat (o_vp r)))) = o_group r"
    using c unfolding spawn_check_def Let_def by (auto split: if_splits)
  then have vp: "o_vp r \<noteq> - 1 \<Longrightarrow> nat (o_vp r) < s_nvp s \<and> v_group (s_vp s (nat (o_vp r))) = nat (o_group r)" by auto
  have "{v. v < s_nvp s \<and> v_group (s_vp s v) = nat (o_group r)} \<noteq> {}" using p(5) cnt by (metis card.empty)
  then obtain v where "v < s_nvp s" "v_group (s_vp s v) = nat (o_group r)" by blast
  then have "\<exists>v < s_nvp s. v_group (s_vp s v) = nat (o_group r) \<and> (bound_vp r = None \<or> bound_vp r = Some v)"
    using vp by (cases "o_vp r = - 1") (auto simp: bound_vp_def)
  moreover have "spawn_ok s (nat (o_priority r)) (nat (o_group r)) (bound_vp r)" using p(1,2) vp by (auto simp: spawn_ok_def bound_vp_def)
  moreover have "nat (o_group r) < ngroups" using p(3,4) by linarith
  ultimately show ?thesis by blast
qed

text \<open>
  An accepted task can run: its options are what the scheduler requires of a new task, and some processor of the runtime
  serves the queue the task will be put into. A request without flags that names a priority, an existing group with
  processors and no processor of another group is accepted, whatever its options' size.
\<close>

theorem spawn_accepts_exact:
  assumes cnt: "\<And>g. group_nvp g = card {v. v < s_nvp s \<and> v_group (s_vp s v) = g}"
  shows "(spawn_check s ngroups group_nvp caller opts = Some r \<longrightarrow>
      spawn_ok s (nat (o_priority r)) (nat (o_group r)) (bound_vp r) \<and> nat (o_group r) < ngroups \<and>
      (\<exists>v < s_nvp s. v_group (s_vp s v) = nat (o_group r) \<and> (bound_vp r = None \<or> bound_vp r = Some v))) \<and>
    (spawn_ok s p g b \<longrightarrow> g < ngroups \<longrightarrow> v < s_nvp s \<longrightarrow> v_group (s_vp s v) = g \<longrightarrow> stack = 0 \<or> DLSM_GT_MIN_STACK \<le> stack \<longrightarrow>
      spawn_check s ngroups group_nvp caller \<lparr>o_priority = int p, o_group = int g, o_vp = (case b of None \<Rightarrow> - 1 | Some w \<Rightarrow> int w),
        o_flags = 0, o_budget = budget, o_stack = stack\<rparr> \<noteq> None)"
proof -
  have "spawn_ok s (nat (o_priority r)) (nat (o_group r)) (bound_vp r) \<and> nat (o_group r) < ngroups \<and>
      (\<exists>v < s_nvp s. v_group (s_vp s v) = nat (o_group r) \<and> (bound_vp r = None \<or> bound_vp r = Some v))"
    if c: "spawn_check s ngroups group_nvp caller opts = Some r"
    using spawn_check_accepted [OF cnt c] .
  moreover have "spawn_check s ngroups group_nvp caller \<lparr>o_priority = int p, o_group = int g, o_vp = (case b of None \<Rightarrow> - 1 | Some w \<Rightarrow> int w),
        o_flags = 0, o_budget = budget, o_stack = stack\<rparr> \<noteq> None"
    if ok: "spawn_ok s p g b" "g < ngroups" "v < s_nvp s" "v_group (s_vp s v) = g" "stack = 0 \<or> DLSM_GT_MIN_STACK \<le> stack"
  proof -
    have "v \<in> {v. v < s_nvp s \<and> v_group (s_vp s v) = g}" "finite {v. v < s_nvp s \<and> v_group (s_vp s v) = g}" using ok by simp_all
    then have "group_nvp g \<noteq> 0" unfolding cnt by (simp only: card_eq_0_iff) blast
    then show ?thesis using ok by (cases b) (auto simp: spawn_check_def Let_def spawn_ok_def not_less)
  qed
  ultimately show ?thesis by blast
qed

definition two_vps :: sched where "two_vps = sched_init 2 (\<lambda>_. 0)"

definition two_vps_groups :: "nat \<Rightarrow> nat" where
  "two_vps_groups g = card {v. v < s_nvp two_vps \<and> v_group (s_vp two_vps v) = g}"

theorem spawn_accepts_exact_witness:
  "spawn_check two_vps 2 two_vps_groups None \<lparr>o_priority = 4, o_group = 0, o_vp = - 1, o_flags = 0, o_budget = 0, o_stack = 0\<rparr> \<noteq> None"
proof -
  have "spawn_ok two_vps 4 0 None" "1 < s_nvp two_vps" "v_group (s_vp two_vps 1) = 0"
    by (simp_all add: spawn_ok_def two_vps_def sched_init_def vp_fresh_def)
  then show ?thesis
    using conjunct2 [OF spawn_accepts_exact [OF two_vps_groups_def, of 2 None undefined undefined 4 0 None 1 0 0]] by simp
qed

text \<open>
  The part of \<open>dlsm_gt_spawn_ex\<close> before the task is created, from the caller's bytes; \<open>dlsm_gt_spawn\<close> passes the
  default structure. The status of \<open>dlsm_gt_spawn_detached\<close> after a refusal depends on the runtime's state only.
\<close>

definition spawn_resolved :: "sched \<Rightarrow> nat \<Rightarrow> (nat \<Rightarrow> nat) \<Rightarrow> nat option \<Rightarrow> u8 list option \<Rightarrow> task_options option" where
  "spawn_resolved s ngroups group_nvp caller options =
     Option.bind (task_options_resolve options) (\<lambda>bs. spawn_check s ngroups group_nvp caller (decode_task_options bs))"

definition dlsm_gt_spawn :: "sched \<Rightarrow> nat \<Rightarrow> (nat \<Rightarrow> nat) \<Rightarrow> nat option \<Rightarrow> task_options option" where
  "dlsm_gt_spawn s ngroups group_nvp caller = spawn_resolved s ngroups group_nvp caller (Some task_options_init)"

definition spawn_detached_refusal :: "bool \<Rightarrow> dlsm_status" where
  "spawn_detached_refusal accepts = (if accepts then DLSM_GT_E_NOMEM else DLSM_GT_E_STATE)"

lemma default_task_options:
  "spawn_resolved s ngroups group_nvp caller None = dlsm_gt_spawn s ngroups group_nvp caller"
  "decode_task_options task_options_init = \<lparr>o_priority = 4, o_group = - 1, o_vp = - 1, o_flags = 0, o_budget = 0, o_stack = 0\<rparr>"
proof -
  have "resolve_bytes task_options_init task_options_init = Some task_options_init" by code_simp
  then show "spawn_resolved s ngroups group_nvp caller None = dlsm_gt_spawn s ngroups group_nvp caller"
    by (simp add: spawn_resolved_def dlsm_gt_spawn_def task_options_resolve_def)
  show "decode_task_options task_options_init = \<lparr>o_priority = 4, o_group = - 1, o_vp = - 1, o_flags = 0, o_budget = 0, o_stack = 0\<rparr>"
  proof -
    have f: "nat_of_bytes (field 20 4 task_options_init) = 0" "nat_of_bytes (field 24 8 task_options_init) = 0"
      "nat_of_bytes (field 32 8 task_options_init) = 0" by code_simp+
    have h: "field 8 4 task_options_init = [4, 0, 0, 0]" "field 12 4 task_options_init = [- 1, - 1, - 1, - 1]"
      "field 16 4 task_options_init = [- 1, - 1, - 1, - 1]" by code_simp+
    have u: "unat (- 1 :: u8) = 255" "(4294967295 :: u32) = - 1" by code_simp+
    have g: "int_field 8 task_options_init = 4" "int_field 12 task_options_init = - 1" "int_field 16 task_options_init = - 1"
      unfolding int_field_def h nat_of_bytes.simps u(1) by (simp_all add: u(2))
    show ?thesis unfolding decode_task_options_def f g by simp
  qed
qed

text \<open>Default options are always admitted, from inside the runtime and from outside.\<close>

lemma spawn_default_accepted:
  assumes cnt: "\<And>g. group_nvp g = card {v. v < s_nvp s \<and> v_group (s_vp s v) = g}" and v: "0 < s_nvp s"
    and caller: "case caller of None \<Rightarrow> True | Some c \<Rightarrow> c < s_nvp s" and g: "\<And>v. v < s_nvp s \<Longrightarrow> v_group (s_vp s v) < ngroups"
  shows "dlsm_gt_spawn s ngroups group_nvp caller \<noteq> None"
proof -
  define c where "c = (case caller of None \<Rightarrow> 0 | Some c \<Rightarrow> c)"
  have c: "c < s_nvp s" using v caller by (auto simp: c_def split: option.splits)
  then have "c \<in> {v. v < s_nvp s \<and> v_group (s_vp s v) = v_group (s_vp s c)}" by simp
  moreover have "finite {v. v < s_nvp s \<and> v_group (s_vp s v) = v_group (s_vp s c)}" by simp
  ultimately have n: "group_nvp (v_group (s_vp s c)) \<noteq> 0" unfolding cnt by (simp only: card_eq_0_iff) blast
  have grp: "(case caller of Some c \<Rightarrow> int (v_group (s_vp s c)) | None \<Rightarrow> int (v_group (s_vp s 0))) = int (v_group (s_vp s c))"
    by (simp add: c_def split: option.splits)
  have "spawn_check s ngroups group_nvp caller \<lparr>o_priority = 4, o_group = - 1, o_vp = - 1, o_flags = 0, o_budget = 0, o_stack = 0\<rparr> \<noteq> None"
    using n g [OF c] v by (simp add: spawn_check_def Let_def grp)
  moreover have "dlsm_gt_spawn s ngroups group_nvp caller = spawn_check s ngroups group_nvp caller (decode_task_options task_options_init)"
    unfolding default_task_options(1) [symmetric] spawn_resolved_def task_options_resolve_def by simp
  ultimately show ?thesis unfolding default_task_options(2) by (rule ssubst [rotated])
qed

end
