(* ===== verification/Gt_Spawn.thy ===== *)
theory Gt_Spawn
  imports Gt_Setup Gt_Task Gt_Runtime
begin

text \<open>
  The whole of \<open>dlsm_gt_spawn_ex\<close> (\<^verbatim>\<open>libs/greenthread/src/greenthread.c\<close>), put together from its parts: options and
  checks (\<open>Gt_Setup\<close>), control block and stack (\<open>Gt_Create\<close>, \<open>Gt_Context\<close>), admission (\<open>Gt_Runtime\<close>), the
  list of tasks (\<open>Gt_Task\<close>), and the queue the task is put into (\<open>Gt_Sched\<close>).
\<close>

section \<open>The composed operation\<close>

record gt_system =
  gs_sched :: sched
  gs_runtime :: runtime
  gs_tasks :: task_table
  gs_held :: "addr \<Rightarrow> task_res set"

text \<open>
  The environment of one call: the block \<open>calloc\<close> provides, whether the mutex and the condition can be initialised, and
  \<open>make_stack\<close> with its system calls.
\<close>

record spawn_env =
  sv_block :: "addr option"
  sv_mutex :: bool
  sv_cond :: bool
  sv_make :: "bool \<Rightarrow> u64 \<Rightarrow> u64 \<Rightarrow> u64 \<Rightarrow> task_stack option \<times> memory \<times> (u64 \<times> u64) set"

definition dlsm_gt_spawn_ex ::
  "spawn_env \<Rightarrow> u64 \<Rightarrow> bool \<Rightarrow> u64 \<Rightarrow> u64 \<Rightarrow> u8 list option \<Rightarrow> nat option \<Rightarrow> u64 \<Rightarrow> gt_system \<Rightarrow> (addr \<times> wake) option \<times> gt_system" where
  "dlsm_gt_spawn_ex e rt_stack watermark entry arg options caller now S =
     (if entry = 0 then (None, S)
      else (case spawn_resolved (gs_sched S) (r_ngroups (gs_runtime S)) (r_group_nvp (gs_runtime S)) caller options of
        None \<Rightarrow> (None, S)
      | Some r \<Rightarrow> (case task_new (sv_block e \<noteq> None) (sv_mutex e) (sv_cond e) (sv_make e) rt_stack watermark entry arg r of
          (None, h) \<Rightarrow> (None, case sv_block e of None \<Rightarrow> S | Some a \<Rightarrow> S\<lparr>gs_held := (gs_held S)(a := h)\<rparr>)
        | (Some t, h) \<Rightarrow>
            (let a = the (sv_block e) in
             case spawn_admit (gs_runtime S) of
               (False, rt) \<Rightarrow> (None, S\<lparr>gs_runtime := rt, gs_held := (gs_held S)(a := task_free_resources t h)\<rparr>)
             | (True, rt) \<Rightarrow>
                 (case spawn_route caller a (task_fresh (nat (b_priority t)) (nat (b_group t)) (bound_vp r)) now (gs_sched S) of
                    (w, sc) \<Rightarrow> (Some (a, w), S\<lparr>gs_runtime := rt, gs_tasks := spawn_link a (gs_tasks S), gs_sched := sc, gs_held := (gs_held S)(a := h)\<rparr>))))))"

section \<open>Spawning is all or nothing\<close>

text \<open>
  Who can take a task of priority \<open>p\<close> from the queue \<open>q\<close>, in terms of \<open>serves\<close>, when \<open>w\<close> is the request to wake that comes with it. A bound task: the
  processor that is woken. A task of a group: whichever processor of the group is woken. A task spawned by a task of its own group is
  in the local queue of the caller's processor, which is running the call and looks there when the caller gives way; it is excluded from
  the wake-up, and the processors that are woken can steal the task only when the queue holds another one.
\<close>

definition taken_by :: "sched \<Rightarrow> nat option \<Rightarrow> wake \<Rightarrow> nat \<Rightarrow> queue_id \<Rightarrow> bool" where
  "taken_by s caller w p q = (case w of
     Wake_none \<Rightarrow> False
   | Wake_vp v \<Rightarrow> v < s_nvp s \<and> serves s v p q
   | Wake_group g None \<Rightarrow> (\<exists>v < s_nvp s. v_group (s_vp s v) = g) \<and> (\<forall>v < s_nvp s. v_group (s_vp s v) = g \<longrightarrow> serves s v p q)
   | Wake_group g (Some c) \<Rightarrow> caller = Some c \<and> c < s_nvp s \<and> v_group (s_vp s c) = g \<and> serves s c p q \<and>
       (\<forall>v < s_nvp s. v_group (s_vp s v) = g \<and> v \<noteq> c \<longrightarrow> (serves s v p q \<longleftrightarrow> 2 \<le> length (run_list s q))))"

lemma task_new_whole:
  assumes "task_new ok_block ok_mutex ok_cond mk rt_stack watermark entry arg opts = (to, h)"
    and mk: "\<forall>w en ar sb k m maps. mk w en ar sb = (Some k, m, maps) \<longrightarrow> maps = {(k_map k, k_map_len k)}"
  shows "to = None \<Longrightarrow> h = {}"
    and "to = Some t \<Longrightarrow> ok_block \<and> task_free_resources t h = {} \<and> T_block \<in> h \<and> (\<exists>k. b_stack t = Some k \<and> T_stack (k_map k) (k_map_len k) \<in> h) \<and>
      b_priority t = o_priority opts \<and> b_group t = o_group opts \<and> b_entry t = entry \<and> b_arg t = arg"
proof -
  let ?made = "mk watermark entry arg (task_stack_bytes (o_stack opts) rt_stack)"
  obtain ko m maps where made: "?made = (ko, m, maps)" by (cases ?made)
  have maps: "maps = {(k_map k, k_map_len k)}" if "ko = Some k" for k using mk made that by blast
  show "h = {}" if "to = None" using assms(1) made that by (auto simp: task_new_def Let_def fill_block_def split: if_splits option.splits)
  show "ok_block \<and> task_free_resources t h = {} \<and> T_block \<in> h \<and> (\<exists>k. b_stack t = Some k \<and> T_stack (k_map k) (k_map_len k) \<in> h) \<and>
      b_priority t = o_priority opts \<and> b_group t = o_group opts \<and> b_entry t = entry \<and> b_arg t = arg" if "to = Some t"
  proof (cases ko)
    case None
    then show ?thesis using assms(1) made that by (auto simp: task_new_def Let_def fill_block_def split: if_splits)
  next
    case (Some k)
    then show ?thesis using assms(1) made that maps [OF Some]
      by (auto simp: task_new_def Let_def fill_block_def task_free_resources_def split: if_splits)
  qed
qed

text \<open>The task goes to the end of one queue, and somebody can take it from there.\<close>

lemma route_queue:
  assumes sys: "greach (s, c)" and fresh: "t_state (s_task s a) \<in> {ST_NEW, ST_FINISHED}"
    and rt: "spawn_route caller a (task_fresh p g b) now s = (w, s')" and ok: "spawn_ok s p g b" and some: "\<exists>v < s_nvp s. v_group (s_vp s v) = g"
    and caller: "\<And>v. caller = Some v \<Longrightarrow> v < s_nvp s"
  shows "\<exists>q. run_list s' = (run_list s)(q := run_list s q @ [a]) \<and> taken_by s' caller w p q"
proof -
  obtain l where inv: "sched_inv (s, c) l" using greach_inv [OF sys] by blast
  have "l a = Nowhere" using sched_invD(3) [OF inv, of a] fresh by (cases "l a") auto
  then have nq: "a \<notin> set (run_list s q)" for q using tracksD(1) [OF sched_invD(2) [OF inv], of a q] by simp
  obtain q w' where q: "spawn_queue caller (s_vp s) (task_fresh p g b) = (q, w')" by force
  have s': "w = w'" "s_rq s' = task_queue_push q a (s_rq s)" "s_vp s' = s_vp s" "s_nvp s' = s_nvp s"
    using rt q by (auto simp: spawn_route_def task_make_ready_def Let_def upd_stats_def Gt_Sched.upd_task_def)
  have "runq_rep (s_rq s') ((run_list s)(q := run_list s q @ [a]))"
    using runq_push [OF sched_invD(1) [OF inv, unfolded runq_ok_def] nq] by (simp add: s'(2))
  then have rl: "run_list s' = (run_list s)(q := run_list s q @ [a])" by (rule runq_rep_queued)
  have "taken_by s' caller w p q"
  proof (cases b)
    case (Some v)
    then show ?thesis using q s' ok by (auto simp: spawn_queue_def task_fresh_def taken_by_def serves_def spawn_ok_def)
  next
    case None
    show ?thesis
    proof (cases "\<exists>v. caller = Some v \<and> v_group (s_vp s v) = g")
      case True
      then obtain v where v: "caller = Some v" "v_group (s_vp s v) = g" by blast
      then have "q = Local v p" "w = Wake_group g (Some v)" using q None s'(1) by (auto simp: spawn_queue_def task_fresh_def)
      then show ?thesis using v s' caller [OF v(1)] by (auto simp: taken_by_def serves_def)
    next
      case False
      then have "q = Group g p" "w = Wake_group g None" using q None s'(1) by (auto simp: spawn_queue_def task_fresh_def split: option.splits)
      then show ?thesis using s' some by (auto simp: taken_by_def serves_def)
    qed
  qed
  then show ?thesis using rl by blast
qed

lemma make_stack_maps: "make_stack pg mmap protect w en ar tr sb m = (Some k, m', maps) \<Longrightarrow> maps = {(k_map k, k_map_len k)}"
  by (auto simp: make_stack_def Let_def split: option.splits if_splits)

lemma route_ready:
  "spawn_route caller a k now s = (w, s') \<Longrightarrow> t_state (s_task s' a) = ST_READY \<and> t_priority (s_task s' a) = t_priority k"
  by (auto simp: spawn_route_def task_make_ready_def Let_def upd_stats_def Gt_Sched.upd_task_def split: prod.splits)

text \<open>An accepted task makes the scheduler take a step of its own.\<close>

lemma spawned_step:
  assumes cnt: "\<And>g. group_nvp g = card {v. v < s_nvp s \<and> v_group (s_vp s v) = g}" and caller: "\<And>v. caller = Some v \<Longrightarrow> v < s_nvp s"
    and fresh: "t_state (s_task s a) \<in> {ST_NEW, ST_FINISHED}" and r: "spawn_resolved s ngroups group_nvp caller options = Some r"
    and rt: "spawn_route caller a (task_fresh (nat (o_priority r)) (nat (o_group r)) (bound_vp r)) now s = (w, sc)"
  shows "gstep (s, c) (sc, c)"
    and "greach (s, c) \<Longrightarrow> \<exists>q. run_list sc = (run_list s)(q := run_list s q @ [a]) \<and> taken_by sc caller w (nat (o_priority r)) q"
proof -
  obtain bs where "spawn_check s ngroups group_nvp caller (decode_task_options bs) = Some r"
    using r by (auto simp: spawn_resolved_def bind_eq_Some_conv)
  note acc = spawn_check_accepted [OF cnt this]
  show "gstep (s, c) (sc, c)" by (rule gstep.spawn [OF _ _ _ rt]) (use acc fresh caller in auto)
  show "\<exists>q. run_list sc = (run_list s)(q := run_list s q @ [a]) \<and> taken_by sc caller w (nat (o_priority r)) q" if "greach (s, c)"
    by (rule route_queue [OF that fresh rt]) (use acc caller in blast)+
qed

text \<open>The call answers \<open>NULL\<close> and leaves the block it got empty, or it goes through every part.\<close>

lemma spawn_cases:
  assumes mk: "\<forall>w en ar sb k m maps. sv_make e w en ar sb = (Some k, m, maps) \<longrightarrow> maps = {(k_map k, k_map_len k)}"
  obtains (refused) S' where "dlsm_gt_spawn_ex e rt_stack watermark entry arg options caller now S = (None, S')"
      "S' = S \<or> (\<exists>a. sv_block e = Some a \<and> S' = S\<lparr>gs_held := (gs_held S)(a := {})\<rparr>)"
  | (spawned) a w r t h sc where "sv_block e = Some a"
      "spawn_resolved (gs_sched S) (r_ngroups (gs_runtime S)) (r_group_nvp (gs_runtime S)) caller options = Some r"
      "task_new True (sv_mutex e) (sv_cond e) (sv_make e) rt_stack watermark entry arg r = (Some t, h)" "r_state (gs_runtime S) \<in> {RT_CREATED, RT_RUNNING}"
      "spawn_route caller a (task_fresh (nat (o_priority r)) (nat (o_group r)) (bound_vp r)) now (gs_sched S) = (w, sc)"
      "dlsm_gt_spawn_ex e rt_stack watermark entry arg options caller now S =
        (Some (a, w), S\<lparr>gs_runtime := (gs_runtime S)\<lparr>r_live := r_live (gs_runtime S) + 1\<rparr>, gs_tasks := spawn_link a (gs_tasks S), gs_sched := sc, gs_held := (gs_held S)(a := h)\<rparr>)"
proof -
  let ?s = "gs_sched S" and ?rt = "gs_runtime S"
  let ?go = "dlsm_gt_spawn_ex e rt_stack watermark entry arg options caller now S"
  show thesis
  proof (cases "entry = 0 \<or> spawn_resolved ?s (r_ngroups ?rt) (r_group_nvp ?rt) caller options = None")
    case True
    then have "?go = (None, S)" by (auto simp: dlsm_gt_spawn_ex_def)
    then show thesis by (rule refused) simp
  next
    case False
    then obtain r where r: "spawn_resolved ?s (r_ngroups ?rt) (r_group_nvp ?rt) caller options = Some r" by auto
    obtain to h where tn: "task_new (sv_block e \<noteq> None) (sv_mutex e) (sv_cond e) (sv_make e) rt_stack watermark entry arg r = (to, h)" by force
    note whole = task_new_whole [OF tn mk]
    show thesis
    proof (cases to)
      case None
      then have "?go = (None, case sv_block e of None \<Rightarrow> S | Some a \<Rightarrow> S\<lparr>gs_held := (gs_held S)(a := {})\<rparr>)"
        using False r tn whole(1) by (simp add: dlsm_gt_spawn_ex_def)
      then show thesis by (rule refused) (simp split: option.splits)
    next
      case (Some t)
      note wt = whole(2) [OF Some]
      obtain a where a: "sv_block e = Some a" using wt by auto
      show thesis
      proof (cases "r_state ?rt \<in> {RT_CREATED, RT_RUNNING}")
        case no: False
        then have "spawn_admit ?rt = (False, ?rt)" by (simp add: spawn_admit_def)
        then have "?go = (None, S\<lparr>gs_runtime := ?rt, gs_held := (gs_held S)(a := {})\<rparr>)"
          using False r tn Some a wt by (simp add: dlsm_gt_spawn_ex_def)
        then show thesis by (rule refused) (simp add: a)
      next
        case True
        then have ad: "spawn_admit ?rt = (True, ?rt\<lparr>r_live := r_live ?rt + 1\<rparr>)" by (auto simp: spawn_admit_def)
        obtain w sc where rt: "spawn_route caller a (task_fresh (nat (o_priority r)) (nat (o_group r)) (bound_vp r)) now ?s = (w, sc)" by force
        show thesis by (rule spawned [OF a r _ True rt]) (use False r tn Some a ad wt rt in \<open>simp_all add: dlsm_gt_spawn_ex_def\<close>)
      qed
    qed
  qed
qed

text \<open>
  Claim C11. Spawning a task works as a whole or not at all, whatever the options and whatever call fails. Refused, it changes
  nothing and keeps no memory. Otherwise the runtime accepts tasks and counts one more, the task is the first of
  the list with one reference and has its block and stack, the scheduler has made a step of its own, so that
  everything proved of its reachable states holds after it, the task is ready and the last of one queue. A processor can take it from there: the one
  that is woken, or, when the caller is a task of the same group, the caller's own processor, while the others that are woken can steal it
  only if that queue holds another task.
\<close>

theorem spawn_all_or_nothing:
  assumes sys: "greach (gs_sched S, c)"
    and cnt: "\<And>g. r_group_nvp (gs_runtime S) g = card {v. v < s_nvp (gs_sched S) \<and> v_group (s_vp (gs_sched S) v) = g}"
    and caller: "\<And>v. caller = Some v \<Longrightarrow> v < s_nvp (gs_sched S)"
    and fresh: "\<And>a. sv_block e = Some a \<Longrightarrow> gs_held S a = {} \<and> t_state (s_task (gs_sched S) a) \<in> {ST_NEW, ST_FINISHED}"
    and mk: "sv_make e = (\<lambda>w en ar sb. make_stack pg mmap protect w en ar trampoline sb m)"
  shows "case dlsm_gt_spawn_ex e rt_stack watermark entry arg options caller now S of
      (None, S') \<Rightarrow> S' = S
    | (Some (a, w), S') \<Rightarrow> sv_block e = Some a \<and> greach (gs_sched S', c) \<and> t_state (s_task (gs_sched S') a) = ST_READY \<and>
        (\<exists>q. run_list (gs_sched S') = (run_list (gs_sched S))(q := run_list (gs_sched S) q @ [a]) \<and>
          taken_by (gs_sched S') caller w (t_priority (s_task (gs_sched S') a)) q) \<and>
        r_state (gs_runtime S) \<in> {RT_CREATED, RT_RUNNING} \<and> gs_runtime S' = (gs_runtime S)\<lparr>r_live := r_live (gs_runtime S) + 1\<rparr> \<and>
        tt_all (gs_tasks S') = Some a \<and> c_refs (tt_task (gs_tasks S') a) = 1 \<and> c_next (tt_task (gs_tasks S') a) = tt_all (gs_tasks S) \<and>
        T_block \<in> gs_held S' a \<and> (\<exists>b len. T_stack b len \<in> gs_held S' a)"
proof -
  let ?s = "gs_sched S" and ?rt = "gs_runtime S"
  have mk': "\<forall>w en ar sb k m' maps. sv_make e w en ar sb = (Some k, m', maps) \<longrightarrow> maps = {(k_map k, k_map_len k)}"
    unfolding mk using make_stack_maps by blast
  have held: "gs_held S a = {}" if "sv_block e = Some a" for a using fresh [OF that] by blast
  have keep: "S\<lparr>gs_held := (gs_held S)(a := {})\<rparr> = S" if "sv_block e = Some a" for a
    using held [OF that] by (simp add: fun_upd_idem)
  from mk' show ?thesis
  proof (rule spawn_cases [of e rt_stack watermark entry arg options caller now S])
    fix S'
    assume "dlsm_gt_spawn_ex e rt_stack watermark entry arg options caller now S = (None, S')"
      and "S' = S \<or> (\<exists>a. sv_block e = Some a \<and> S' = S\<lparr>gs_held := (gs_held S)(a := {})\<rparr>)"
    then show ?thesis using keep by auto
  next
    fix a w r t h sc
    assume a: "sv_block e = Some a" and r: "spawn_resolved ?s (r_ngroups ?rt) (r_group_nvp ?rt) caller options = Some r"
      and tn: "task_new True (sv_mutex e) (sv_cond e) (sv_make e) rt_stack watermark entry arg r = (Some t, h)" and st: "r_state ?rt \<in> {RT_CREATED, RT_RUNNING}"
      and rt: "spawn_route caller a (task_fresh (nat (o_priority r)) (nat (o_group r)) (bound_vp r)) now ?s = (w, sc)"
      and go: "dlsm_gt_spawn_ex e rt_stack watermark entry arg options caller now S = (Some (a, w), S\<lparr>gs_runtime := ?rt\<lparr>r_live := r_live ?rt + 1\<rparr>,
        gs_tasks := spawn_link a (gs_tasks S), gs_sched := sc, gs_held := (gs_held S)(a := h)\<rparr>)"
    note step = spawned_step [OF cnt caller conjunct2 [OF fresh [OF a]] r rt]
    have g: "greach (sc, c)" by (rule greach.step [OF sys step(1)])
    have sv: "\<exists>q. run_list sc = (run_list ?s)(q := run_list ?s q @ [a]) \<and> taken_by sc caller w (nat (o_priority r)) q" using step(2) sys by blast
    have rd: "t_state (s_task sc a) = ST_READY" "t_priority (s_task sc a) = nat (o_priority r)"
      using route_ready [OF rt] by (simp_all add: task_fresh_def)
    have lk: "tt_all (spawn_link a (gs_tasks S)) = Some a" "c_refs (tt_task (spawn_link a (gs_tasks S)) a) = 1"
      "c_next (tt_task (spawn_link a (gs_tasks S)) a) = tt_all (gs_tasks S)" by (simp_all add: spawn_link_def Gt_Task.upd_task_def)
    show ?thesis unfolding go using a g sv rd st lk task_new_whole(2) [OF tn mk' refl] by auto
  qed
qed

text \<open>A runtime with two processors, and a task with default options.\<close>

definition spawn_start :: gt_system where
  "spawn_start = \<lparr>gs_sched = two_vps,
     gs_runtime = \<lparr>r_live = 0, r_shutdown = False, r_stop_requested = False, r_auto_stop = False, r_state = RT_CREATED, r_fatal = 0, r_nvp = 2, r_started_vps = 0,
       r_group_nvp = two_vps_groups, r_ngroups = 2, r_timer_started = False, r_timer_stop = False, r_blocking_count = 0, r_blocking_started = 0,
       r_blocking_stop = False, r_alive = {}\<rparr>,
     gs_tasks = \<lparr>tt_task = \<lambda>_. \<lparr>c_finished = False, c_refs = 0, c_released = False, c_next = None, c_cancel = False\<rparr>, tt_all = None, tt_controls = 0, tt_freed = []\<rparr>,
     gs_held = \<lambda>_. {}\<rparr>"

definition spawn_good_env :: spawn_env where
  "spawn_good_env = \<lparr>sv_block = Some 5, sv_mutex = True, sv_cond = True,
     sv_make = (\<lambda>w en ar sb. make_stack 4096 test_mmap True w en ar 77 sb (\<lambda>_. 0))\<rparr>"

lemma spawn_start_succeeds:
  "fst (dlsm_gt_spawn_ex spawn_good_env 131072 False 9 0 None None 1 spawn_start) \<noteq> None"
proof -
  have "dlsm_gt_spawn two_vps 2 two_vps_groups None \<noteq> None"
    by (rule spawn_default_accepted [OF two_vps_groups_def]) (simp_all add: two_vps_def sched_init_def vp_fresh_def)
  then obtain r where r: "spawn_resolved two_vps 2 two_vps_groups None None = Some r" unfolding default_task_options(1) by auto
  have "spawn_check two_vps 2 two_vps_groups None \<lparr>o_priority = 4, o_group = - 1, o_vp = - 1, o_flags = 0, o_budget = 0, o_stack = 0\<rparr> = Some r"
    using r unfolding spawn_resolved_def task_options_resolve_def by (simp add: default_task_options(2))
  then have "o_stack r = 0" unfolding spawn_check_def Let_def by (auto split: if_splits)
  moreover obtain k m' maps where "make_stack 4096 test_mmap True False 9 0 77 131072 (\<lambda>_. 0) = (Some k, m', maps)"
    by (simp add: make_stack_def stack_length_def test_mmap_def Let_def)
  ultimately obtain t h where t: "task_new True True True (sv_make spawn_good_env) 131072 False 9 0 r = (Some t, h)"
    by (auto simp: spawn_good_env_def task_new_def fill_block_def task_stack_bytes_def Let_def)
  have "spawn_admit (gs_runtime spawn_start) = (True, snd (spawn_admit (gs_runtime spawn_start)))" by (simp add: spawn_start_def spawn_admit_def)
  moreover have "gs_sched spawn_start = two_vps" "r_ngroups (gs_runtime spawn_start) = 2" "r_group_nvp (gs_runtime spawn_start) = two_vps_groups"
    by (simp_all add: spawn_start_def)
  moreover have "sv_block spawn_good_env \<noteq> None" "sv_mutex spawn_good_env" "sv_cond spawn_good_env" by (simp_all add: spawn_good_env_def)
  ultimately show ?thesis using r t by (auto simp: dlsm_gt_spawn_ex_def Let_def split: prod.splits)
qed

theorem spawn_all_or_nothing_witness:
  "\<exists>w S'. dlsm_gt_spawn_ex spawn_good_env 131072 False 9 0 None None 1 spawn_start = (Some (5, w), S') \<and>
     t_state (s_task (gs_sched S') 5) = ST_READY \<and> r_live (gs_runtime S') = 1"
proof -
  have sys: "greach (gs_sched spawn_start, \<lambda>_. None)" by (simp add: spawn_start_def two_vps_def greach.init)
  have cnt: "r_group_nvp (gs_runtime spawn_start) g = card {v. v < s_nvp (gs_sched spawn_start) \<and> v_group (s_vp (gs_sched spawn_start) v) = g}" for g
    by (simp add: spawn_start_def two_vps_groups_def)
  have fresh: "gs_held spawn_start a = {} \<and> t_state (s_task (gs_sched spawn_start) a) \<in> {ST_NEW, ST_FINISHED}" for a
    by (simp add: spawn_start_def two_vps_def sched_init_def task_fresh_def)
  have mk: "sv_make spawn_good_env = (\<lambda>w en ar sb. make_stack 4096 test_mmap True w en ar 77 sb (\<lambda>_. 0))" by (simp add: spawn_good_env_def)
  obtain a w S' where go: "dlsm_gt_spawn_ex spawn_good_env 131072 False 9 0 None None 1 spawn_start = (Some (a, w), S')"
    using spawn_start_succeeds by (metis not_None_eq prod.collapse)
  have "sv_block spawn_good_env = Some a \<and> t_state (s_task (gs_sched S') a) = ST_READY \<and>
      gs_runtime S' = (gs_runtime spawn_start)\<lparr>r_live := r_live (gs_runtime spawn_start) + 1\<rparr>"
    using spawn_all_or_nothing [OF sys cnt _ fresh mk, of None 131072 False 9 0 None 1] unfolding go by simp
  then show ?thesis using go by (auto simp: spawn_good_env_def spawn_start_def)
qed

end
