(* ===== verification/Gt_Life.thy ===== *)
theory Gt_Life
  imports Gt_Spawn
begin

text \<open>
  The life of tasks across the components (\<^verbatim>\<open>libs/greenthread/src/greenthread.c\<close>): \<open>dlsm_gt_spawn_ex\<close>, what \<open>vp_main\<close> does when
  a task gives its processor back, the release of handles, and everything else the scheduler and the runtime do, on the
  composed state of \<open>Gt_Spawn\<close>.
\<close>

section \<open>The end of a turn\<close>

datatype transition = TR_YIELD | TR_PARK | TR_FINISH

text \<open>\<open>task_release_stack\<close> unmaps the stack of the task.\<close>

definition without_stack :: "task_res set \<Rightarrow> task_res set" where
  "without_stack h = {x \<in> h. case x of T_stack _ _ \<Rightarrow> False | _ \<Rightarrow> True}"

text \<open>
  The switch of \<open>vp_main\<close> after the task has returned to the processor. A finished task is counted out, gives up its stack, and is freed when no handle is
  left, with \<open>free\<close> alone: its mutex and condition stay initialised. \<open>None\<close>: the walk over the list of tasks does not end.
\<close>

definition vp_transition :: "transition \<Rightarrow> nat \<Rightarrow> addr \<Rightarrow> u64 \<Rightarrow> gt_system \<Rightarrow> gt_system option" where
  "vp_transition tr v t now S =
     (let s1 = set_current v None (gs_sched S) in
      case tr of
        TR_YIELD \<Rightarrow> Some (S\<lparr>gs_sched := rt_enqueue v t now s1\<rparr>)
      | TR_PARK \<Rightarrow> Some (S\<lparr>gs_sched := rt_park v t now s1\<rparr>)
      | TR_FINISH \<Rightarrow>
          (let S1 = S\<lparr>gs_sched := task_finished t s1, gs_runtime := task_done_live (gs_runtime S), gs_tasks := task_set_finished t (gs_tasks S)\<rparr>;
               S2 = S1\<lparr>gs_held := (gs_held S1)(t := without_stack (gs_held S1 t))\<rparr> in
           case task_execution_released t (gs_tasks S2) of
             None \<Rightarrow> None
           | Some (reclaim, tb) \<Rightarrow>
               if reclaim then Some (S2\<lparr>gs_tasks := task_free t tb, gs_held := (gs_held S2)(t := gs_held S2 t - {T_block})\<rparr>)
               else Some (S2\<lparr>gs_tasks := tb\<rparr>)))"

text \<open>A handle is given up; when the block is freed, \<open>task_free\<close> gives everything back.\<close>

definition release_handle :: "addr \<Rightarrow> gt_system \<Rightarrow> gt_system option" where
  "release_handle t S = (case dlsm_gt_task_release (Some t) (gs_tasks S) of
     None \<Rightarrow> None
   | Some (st, tb) \<Rightarrow>
       Some (if tt_freed tb \<noteq> tt_freed (gs_tasks S) then S\<lparr>gs_tasks := tb, gs_held := (gs_held S)(t := {})\<rparr> else S\<lparr>gs_tasks := tb\<rparr>))"

section \<open>Steps\<close>

definition live :: "sched \<Rightarrow> addr set" where
  "live s = {t. states s t \<notin> {ST_NEW, ST_FINISHED}}"

text \<open>
  A block that \<open>calloc\<close> provides is not held by another task. \<open>runtime_op\<close> stands for the calls that start, stop, wait for and join:
  they leave the counts of tasks and processors alone. Claims of processors are as in \<open>Gt_System\<close>. The end of a turn is one step: inside it the count
  goes down before the stack is unmapped.
\<close>

inductive life_step :: "gt_system \<times> (nat \<Rightarrow> addr option) \<Rightarrow> gt_system \<times> (nat \<Rightarrow> addr option) \<Rightarrow> bool" where
  spawn: "dlsm_gt_spawn_ex e rt_stack watermark entry arg options caller now S = (x, S') \<Longrightarrow> (\<And>v. caller = Some v \<Longrightarrow> v < s_nvp (gs_sched S)) \<Longrightarrow>
    (\<And>a. sv_block e = Some a \<Longrightarrow> T_block \<notin> gs_held S a) \<Longrightarrow>
    sv_make e = (\<lambda>w en ar sb. make_stack pg mmap protect w en ar trampoline sb m) \<Longrightarrow> life_step (S, c) (S', c)"
| pop: "v < s_nvp (gs_sched S) \<Longrightarrow> v_current (s_vp (gs_sched S) v) = None \<Longrightarrow> c v = None \<Longrightarrow> p < 8 \<Longrightarrow> takes v p (gs_sched S) t s' \<Longrightarrow> cursor_ok s' v \<Longrightarrow>
    life_step (S, c) (S\<lparr>gs_sched := s'\<rparr>, c(v := Some t))"
| start: "c v = Some t \<Longrightarrow> life_step (S, c) (S\<lparr>gs_sched := set_current v (Some t) (vp_dispatch v t aged stolen now (gs_sched S))\<rparr>, c(v := None))"
| turn: "v_current (s_vp (gs_sched S) v) = Some t \<Longrightarrow> vp_transition tr v t now S = Some S' \<Longrightarrow> life_step (S, c) (S', c)"
| unpark: "states (gs_sched S) t \<noteq> ST_NEW \<Longrightarrow> dlsm_gt_unpark stopped t now (gs_sched S) = (st, w, s') \<Longrightarrow> life_step (S, c) (S\<lparr>gs_sched := s'\<rparr>, c)"
| retain: "dlsm_gt_task_retain (Some t) (gs_tasks S) = (st, tb) \<Longrightarrow> life_step (S, c) (S\<lparr>gs_tasks := tb\<rparr>, c)"
| release: "release_handle t S = Some S' \<Longrightarrow> life_step (S, c) (S', c)"
| add_vp: "dlsm_gt_runtime_add_vp ok slot out g (Some (gs_runtime S)) = ((DLSM_OK, Some v), Some r) \<Longrightarrow>
    life_step (S, c) (S\<lparr>gs_runtime := r, gs_sched := (gs_sched S)\<lparr>s_vp := (s_vp (gs_sched S))(v := vp_fresh (nat g)), s_nvp := v + 1\<rparr>\<rparr>, c)"
| runtime_op: "r_live r = r_live (gs_runtime S) \<Longrightarrow> r_nvp r = r_nvp (gs_runtime S) \<Longrightarrow> r_group_nvp r = r_group_nvp (gs_runtime S) \<Longrightarrow>
    life_step (S, c) (S\<lparr>gs_runtime := r\<rparr>, c)"

definition groups_counted :: "gt_system \<Rightarrow> bool" where
  "groups_counted S \<longleftrightarrow> r_nvp (gs_runtime S) = s_nvp (gs_sched S) \<and>
     (\<forall>g. r_group_nvp (gs_runtime S) g = card {v. v < s_nvp (gs_sched S) \<and> v_group (s_vp (gs_sched S) v) = g})"

text \<open>A runtime that was just created: no task, and the groups count their processors.\<close>

definition life_start :: "gt_system \<Rightarrow> bool" where
  "life_start S \<longleftrightarrow> (\<exists>n groups. gs_sched S = sched_init n groups) \<and> r_live (gs_runtime S) = 0 \<and> gs_held S = (\<lambda>_. {}) \<and> groups_counted S"

section \<open>What the steps do to the states of tasks\<close>

definition same_env :: "sched \<Rightarrow> sched \<Rightarrow> bool" where
  "same_env s s' \<longleftrightarrow> s_nvp s' = s_nvp s \<and> (\<forall>u. v_group (s_vp s' u) = v_group (s_vp s u))"

definition moves :: "addr \<Rightarrow> task_state \<Rightarrow> sched \<Rightarrow> sched \<Rightarrow> bool" where
  "moves t x s s' \<longleftrightarrow> (\<forall>u. states s' u = (if u = t then x else states s u)) \<and> same_env s s'"

lemma make_ready_moves: "moves t ST_READY s (task_make_ready now t q s)"
  by (auto simp: moves_def same_env_def task_make_ready_def Let_def upd_stats_def Gt_Sched.upd_task_def)

lemma moves_frame: "moves t x s1 s' \<Longrightarrow> (\<And>u. states s1 u = states s u) \<Longrightarrow> same_env s s1 \<Longrightarrow> moves t x s s'"
  by (simp add: moves_def same_env_def)

lemma enqueue_moves: "moves t ST_READY s (rt_enqueue v t now (set_current v None s))"
  unfolding rt_enqueue_def Let_def
  by (rule moves_frame [OF make_ready_moves]) (auto simp: same_env_def upd_stats_def upd_vp_def set_current_def)

lemma park_moves: "moves t ST_READY s (rt_park v t now (set_current v None s)) \<or> moves t ST_PARKED s (rt_park v t now (set_current v None s))"
proof (cases "t_unpark_pending (s_task s t)")
  case True
  then show ?thesis unfolding rt_park_def Let_def
    by (intro disjI1, simp add: upd_stats_def set_current_def upd_vp_def, intro moves_frame [OF make_ready_moves])
      (auto simp: same_env_def Gt_Sched.upd_task_def)
next
  case False
  then show ?thesis by (intro disjI2) (auto simp: rt_park_def Let_def moves_def same_env_def upd_stats_def Gt_Sched.upd_task_def set_current_def upd_vp_def)
qed

lemma finish_moves: "moves t ST_FINISHED s (task_finished t (set_current v None s))"
  by (auto simp: task_finished_def moves_def same_env_def upd_stats_def Gt_Sched.upd_task_def set_current_def upd_vp_def)

lemma dispatch_moves: "moves t ST_RUNNING s (set_current v (Some t) (vp_dispatch v t aged stolen now s))"
  by (auto simp: vp_dispatch_def Let_def moves_def same_env_def upd_stats_def Gt_Sched.upd_task_def set_current_def upd_vp_def)

lemma route_moves: "spawn_route caller a k now s = (w, s') \<Longrightarrow> moves a ST_READY s s'"
  unfolding spawn_route_def Let_def
  by (auto split: prod.splits) (rule ccontr, erule notE, auto simp: moves_def same_env_def task_make_ready_def Let_def upd_stats_def Gt_Sched.upd_task_def)

lemma moves_live: "moves t x s s' \<Longrightarrow> x \<notin> {ST_NEW, ST_FINISHED} \<Longrightarrow> live s' = insert t (live s)"
  by (auto simp: moves_def live_def)

lemma moves_dead: "moves t ST_FINISHED s s' \<Longrightarrow> live s' = live s - {t}"
  by (auto simp: moves_def live_def)

section \<open>The accounts\<close>

definition has_stack :: "task_res set \<Rightarrow> bool" where
  "has_stack h \<longleftrightarrow> (\<exists>b len. T_stack b len \<in> h)"

lemma has_stack_simps [simp]: "\<not> has_stack {}" "\<not> has_stack (without_stack h)" "has_stack (h - {T_block}) = has_stack h" "T_stack b len \<in> h \<Longrightarrow> has_stack h"
  by (auto simp: has_stack_def without_stack_def)

text \<open>A live task has its block and its stack, and its end is not recorded; every other task has no stack.\<close>

definition acct :: "gt_system \<Rightarrow> addr \<Rightarrow> bool" where
  "acct S t \<longleftrightarrow> (if t \<in> live (gs_sched S) then has_stack (gs_held S t) \<and> T_block \<in> gs_held S t \<and> \<not> c_released (tt_task (gs_tasks S) t)
     else \<not> has_stack (gs_held S t))"

definition life_ok :: "gt_system \<Rightarrow> (nat \<Rightarrow> addr option) \<Rightarrow> bool" where
  "life_ok S c \<longleftrightarrow> greach (gs_sched S, c) \<and> groups_counted S \<and> r_live (gs_runtime S) = card (live (gs_sched S)) \<and> (\<forall>t. acct S t)"

lemma life_okD:
  assumes "life_ok S c"
  shows "greach (gs_sched S, c)" and "groups_counted S" and "r_live (gs_runtime S) = card (live (gs_sched S))" and "acct S t"
  using assms unfolding life_ok_def by blast+

lemma reach_facts:
  assumes "greach (s, c)"
  shows "finite (live s)" and "v_current (s_vp s v) = Some t \<Longrightarrow> states s t = ST_RUNNING" and "c v = Some t \<Longrightarrow> states s t = ST_READY"
proof -
  obtain l where inv: "sched_inv (s, c) l" using greach_inv [OF assms] by blast
  note tr = tracksD [OF sched_invD(2) [OF inv]]
  have "finite {t. states s t \<noteq> ST_NEW}" using sched_invD(4) [OF inv] by (simp add: gauges_ok_def)
  then show "finite (live s)" by (rule rev_finite_subset) (auto simp: live_def)
  show "states s t = ST_RUNNING" if "v_current (s_vp s v) = Some t" using tr(3) [of t v] that sched_invD(3) [OF inv, of t] by simp
  show "states s t = ST_READY" if "c v = Some t" using tr(2) [of t v] that sched_invD(3) [OF inv, of t] by simp
qed

lemma env_counted:
  "groups_counted S \<Longrightarrow> same_env (gs_sched S) (gs_sched S') \<Longrightarrow> r_nvp (gs_runtime S') = r_nvp (gs_runtime S) \<Longrightarrow>
   r_group_nvp (gs_runtime S') = r_group_nvp (gs_runtime S) \<Longrightarrow> groups_counted S'"
  by (simp add: groups_counted_def same_env_def)

text \<open>A step of the scheduler that leaves the set of live tasks alone.\<close>

lemma life_ok_sched:
  assumes ok: "life_ok S c" and st: "gstep (gs_sched S, c) (s', c')" and env: "same_env (gs_sched S) s'" and lv: "live s' = live (gs_sched S)"
  shows "life_ok (S\<lparr>gs_sched := s'\<rparr>) c'"
  using greach.step [OF life_okD(1) [OF ok] st] life_okD(3,4) [OF ok] env_counted [OF life_okD(2) [OF ok], of "S\<lparr>gs_sched := s'\<rparr>"] env lv
  by (simp add: life_ok_def acct_def)

lemma moves_env: "moves t x s s' \<Longrightarrow> same_env s s'"
  by (simp add: moves_def)

lemma moves_within: "moves t x s s' \<Longrightarrow> x \<notin> {ST_NEW, ST_FINISHED} \<Longrightarrow> states s t \<notin> {ST_NEW, ST_FINISHED} \<Longrightarrow> live s' = live s"
  using moves_live [of t x s s'] by (auto simp: live_def)

lemma task_done_live_sel [simp]: "r_live (task_done_live r) = r_live r - 1" "r_group_nvp (task_done_live r) = r_group_nvp r" "r_nvp (task_done_live r) = r_nvp r"
  by (simp_all add: task_done_live_def Let_def blocking_runtime_request_stop_def request_timer_stop_def)

lemma unlink_released: "task_unlink t tb = Some (b, tb') \<Longrightarrow> c_released (tt_task tb' u) = c_released (tt_task tb u)"
  by (auto simp: task_unlink_def set_link_def Gt_Task.upd_task_def Let_def split: option.splits if_splits link.splits)

lemma unlink_freed: "task_unlink t tb = Some (b, tb') \<Longrightarrow> tt_freed tb' = tt_freed tb"
  by (auto simp: task_unlink_def set_link_def Gt_Task.upd_task_def Let_def split: option.splits if_splits link.splits)

lemma execution_released_other: "task_execution_released t tb = Some (b, tb') \<Longrightarrow> u \<noteq> t \<Longrightarrow> c_released (tt_task tb' u) = c_released (tt_task tb u)"
  using unlink_released by (fastforce simp: task_execution_released_def Gt_Task.upd_task_def Let_def split: if_splits)

lemma release_effect:
  assumes "dlsm_gt_task_release (Some t) tb = Some (st, tb')"
  shows "c_released (tt_task tb' u) = c_released (tt_task tb u)" and "tt_freed tb' \<noteq> tt_freed tb \<Longrightarrow> c_released (tt_task tb t)"
proof -
  let ?tb1 = "Gt_Task.upd_task t (\<lambda>c. c\<lparr>c_refs := c_refs c - 1\<rparr>) tb"
  have k: "c_released (tt_task ?tb1 u) = c_released (tt_task tb u)" "tt_freed ?tb1 = tt_freed tb" for u by (simp_all add: Gt_Task.upd_task_def)
  have "tb' = tb \<or> tb' = ?tb1 \<or> (\<exists>b tb2. task_unlink t ?tb1 = Some (b, tb2) \<and> tb' \<in> {tb2, task_free t tb2})"
    using assms by (simp add: dlsm_gt_task_release_def Let_def split: if_splits option.splits prod.splits)
  then show "c_released (tt_task tb' u) = c_released (tt_task tb u)"
  proof (elim disjE exE conjE)
    fix b tb2
    assume "task_unlink t ?tb1 = Some (b, tb2)" and tb': "tb' \<in> {tb2, task_free t tb2}"
    from trans [OF unlink_released [OF this(1), of u] k(1)] show ?thesis using tb' by (auto simp: task_free_def)
  qed (use k(1) in \<open>simp_all only:\<close>)
  show "c_released (tt_task tb t)" if "tt_freed tb' \<noteq> tt_freed tb"
  proof (rule ccontr)
    assume "\<not> c_released (tt_task tb t)"
    then have "tb' = tb \<or> tb' = ?tb1" using assms k(1) [of t] by (simp add: dlsm_gt_task_release_def Let_def split: if_splits)
    then show False using that by (elim disjE) (simp_all only: k(2) simp_thms)
  qed
qed


section \<open>Every step keeps the accounts\<close>

text \<open>A step that concerns one task.\<close>

lemma life_ok_task:
  assumes ok: "life_ok S c" and st: "gstep (gs_sched S, c) (gs_sched S', c)" and mv: "moves t x (gs_sched S) (gs_sched S')"
    and rt: "r_nvp (gs_runtime S') = r_nvp (gs_runtime S)" "r_group_nvp (gs_runtime S') = r_group_nvp (gs_runtime S)"
    and n: "r_live (gs_runtime S') = card (live (gs_sched S'))"
    and here: "acct S' t" and there: "\<And>u. u \<noteq> t \<Longrightarrow> gs_held S' u = gs_held S u \<and> c_released (tt_task (gs_tasks S') u) = c_released (tt_task (gs_tasks S) u)"
  shows "life_ok S' c"
proof -
  have "acct S' u" for u
  proof (cases "u = t")
    case False
    then have "u \<in> live (gs_sched S') \<longleftrightarrow> u \<in> live (gs_sched S)" using mv by (simp add: live_def moves_def)
    then show ?thesis using life_okD(4) [OF ok, of u] there [OF False] by (simp add: acct_def)
  qed (simp add: here)
  then show ?thesis
    using greach.step [OF life_okD(1) [OF ok] st] env_counted [OF life_okD(2) [OF ok] moves_env [OF mv] rt] n by (simp add: life_ok_def)
qed

lemma life_spawn:
  assumes ok: "life_ok S c" and go: "dlsm_gt_spawn_ex e rt_stack watermark entry arg options caller now S = (x, S')"
    and caller: "\<And>v. caller = Some v \<Longrightarrow> v < s_nvp (gs_sched S)" and blk: "\<And>a. sv_block e = Some a \<Longrightarrow> T_block \<notin> gs_held S a"
    and mk: "sv_make e = (\<lambda>w en ar sb. make_stack pg mmap protect w en ar trampoline sb m)"
  shows "life_ok S' c"
proof -
  have mk': "\<forall>w en ar sb k m' maps. sv_make e w en ar sb = (Some k, m', maps) \<longrightarrow> maps = {(k_map k, k_map_len k)}"
    unfolding mk using make_stack_maps by blast
  have dead: "a \<notin> live (gs_sched S)" if "sv_block e = Some a" for a
    using blk [OF that] life_okD(4) [OF ok, of a] by (auto simp: acct_def)
  from mk' show ?thesis
  proof (cases rule: spawn_cases [where S = S and rt_stack = rt_stack and watermark = watermark and entry = entry and arg = arg
        and options = options and caller = caller and now = now, case_names refused spawned])
    case (refused S1)
    have "S1 = S \<or> (\<exists>a. a \<notin> live (gs_sched S) \<and> S1 = S\<lparr>gs_held := (gs_held S)(a := {})\<rparr>)" using refused(2) dead by blast
    then have "life_ok S1 c" using ok by (elim disjE exE conjE) (simp_all add: life_ok_def acct_def groups_counted_def)
    then show ?thesis using refused(1) go by simp
  next
    case (spawned a w r t h sc)
    note cnt = life_okD(2) [OF ok, unfolded groups_counted_def]
    have new: "states (gs_sched S) a \<in> {ST_NEW, ST_FINISHED}" using dead [OF spawned(1)] by (simp add: live_def)
    have S': "S' = S\<lparr>gs_runtime := (gs_runtime S)\<lparr>r_live := r_live (gs_runtime S) + 1\<rparr>, gs_tasks := spawn_link a (gs_tasks S), gs_sched := sc,
      gs_held := (gs_held S)(a := h)\<rparr>" using spawned(6) go by simp
    have mv: "moves a ST_READY (gs_sched S) sc" by (rule route_moves [OF spawned(5)])
    have lv: "live sc = insert a (live (gs_sched S))" using moves_live [OF mv] by simp
    have st: "gstep (gs_sched S, c) (sc, c)" by (rule spawned_step(1) [OF _ caller new spawned(2,5)]) (use cnt in blast)
    have "card (live sc) = card (live (gs_sched S)) + 1"
      using reach_facts(1) [OF life_okD(1) [OF ok]] dead [OF spawned(1)] unfolding lv by simp
    moreover have "has_stack h" "T_block \<in> h" using task_new_whole(2) [OF spawned(3) mk' refl] by auto
    ultimately show ?thesis using st mv lv life_okD(3) [OF ok]
      by (intro life_ok_task [OF ok, where t = a and x = ST_READY]) (auto simp: S' acct_def spawn_link_def Gt_Task.upd_task_def)
  qed
qed

lemma life_pop:
  assumes "life_ok S c" and "v < s_nvp (gs_sched S)" "v_current (s_vp (gs_sched S) v) = None" "c v = None" "p < 8"
    and tk: "takes v p (gs_sched S) t s'" and "cursor_ok s' v"
  shows "life_ok (S\<lparr>gs_sched := s'\<rparr>) (c(v := Some t))"
proof -
  have "policy_frame v (gs_sched S) s'" using tk by (simp add: takes_def)
  then have "same_env (gs_sched S) s'" "live s' = live (gs_sched S)" by (auto simp: policy_frame_def same_env_def live_def)
  then show ?thesis using life_ok_sched gstep.pop assms by metis
qed

lemma life_start_turn:
  assumes ok: "life_ok S c" and c: "c v = Some t"
  shows "life_ok (S\<lparr>gs_sched := set_current v (Some t) (vp_dispatch v t aged stolen now (gs_sched S))\<rparr>) (c(v := None))"
proof (rule life_ok_sched [OF ok gstep.start [of c v t, OF c] moves_env [OF dispatch_moves] moves_within [OF dispatch_moves]])
  show "states (gs_sched S) t \<notin> {ST_NEW, ST_FINISHED}" using reach_facts(3) [OF life_okD(1) [OF ok] c] by simp
qed simp

lemma life_unpark:
  assumes ok: "life_ok S c" and n: "states (gs_sched S) t \<noteq> ST_NEW" and un: "dlsm_gt_unpark stopped t now (gs_sched S) = (st, w, s')"
  shows "life_ok (S\<lparr>gs_sched := s'\<rparr>) c"
proof -
  have "same_env (gs_sched S) s' \<and> live s' = live (gs_sched S)"
    using un
  proof (cases rule: unpark_cases)
    case refused
    then show ?thesis by (simp add: same_env_def)
  next
    case parked
    have "moves t ST_READY (gs_sched S) s'" unfolding parked(5)
      by (rule moves_frame [OF make_ready_moves]) (auto simp: same_env_def upd_stats_def)
    then show ?thesis using moves_env moves_within parked(1) by fastforce
  next
    case token
    then show ?thesis by (auto simp: same_env_def live_def upd_stats_def Gt_Sched.upd_task_def)
  qed
  then show ?thesis using life_ok_sched [OF ok gstep.unpark [OF n un]] by blast
qed

text \<open>A finished task: what \<open>vp_transition\<close> changes of its accounts.\<close>

lemma transition_finish:
  assumes "vp_transition TR_FINISH v t now S = Some S'"
  obtains h b tb where "task_execution_released t (task_set_finished t (gs_tasks S)) = Some (b, tb)"
    and "gs_sched S' = task_finished t (set_current v None (gs_sched S))" "gs_runtime S' = task_done_live (gs_runtime S)"
    and "gs_held S' = (gs_held S)(t := h)" "h = (if b then without_stack (gs_held S t) - {T_block} else without_stack (gs_held S t))"
    and "gs_tasks S' = (if b then task_free t tb else tb)"
  using assms by (auto simp: vp_transition_def Let_def split: option.splits if_splits prod.splits)

lemma life_turn:
  assumes ok: "life_ok S c" and cur: "v_current (s_vp (gs_sched S) v) = Some t" and tr: "vp_transition tr v t now S = Some S'"
  shows "life_ok S' c"
proof (cases tr)
  case TR_YIELD
  have run: "states (gs_sched S) t = ST_RUNNING" by (rule reach_facts(2) [OF life_okD(1) [OF ok] cur])
  have "life_ok (S\<lparr>gs_sched := rt_enqueue v t now (set_current v None (gs_sched S))\<rparr>) c"
    by (rule life_ok_sched [OF ok gstep.yields [OF cur] moves_env [OF enqueue_moves] moves_within [OF enqueue_moves]]) (simp_all add: run)
  then show ?thesis using tr TR_YIELD by (simp add: vp_transition_def)
next
  case TR_PARK
  let ?s = "rt_park v t now (set_current v None (gs_sched S))"
  have run: "states (gs_sched S) t = ST_RUNNING" by (rule reach_facts(2) [OF life_okD(1) [OF ok] cur])
  have "same_env (gs_sched S) ?s \<and> live ?s = live (gs_sched S)"
    using park_moves [of t "gs_sched S" v now] by (elim disjE) (use moves_env moves_within run in \<open>fastforce\<close>)+
  then have "life_ok (S\<lparr>gs_sched := ?s\<rparr>) c" using life_ok_sched [OF ok gstep.parks [OF cur]] by blast
  then show ?thesis using tr TR_PARK by (simp add: vp_transition_def)
next
  case TR_FINISH
  obtain h b tb where fin: "task_execution_released t (task_set_finished t (gs_tasks S)) = Some (b, tb)"
    "gs_sched S' = task_finished t (set_current v None (gs_sched S))" "gs_runtime S' = task_done_live (gs_runtime S)"
    "gs_held S' = (gs_held S)(t := h)" "h = (if b then without_stack (gs_held S t) - {T_block} else without_stack (gs_held S t))"
    "gs_tasks S' = (if b then task_free t tb else tb)" using transition_finish tr TR_FINISH by blast
  have lv: "live (gs_sched S') = live (gs_sched S) - {t}" unfolding fin(2) by (rule moves_dead [OF finish_moves])
  have "t \<in> live (gs_sched S)" using reach_facts(2) [OF life_okD(1) [OF ok] cur] by (simp add: live_def)
  then have n: "r_live (gs_runtime S') = card (live (gs_sched S'))"
    using reach_facts(1) [OF life_okD(1) [OF ok]] life_okD(3) [OF ok] by (simp add: lv fin(3) card_Diff_singleton)
  have here: "acct S' t" by (simp add: acct_def lv fin(4,5))
  have there: "gs_held S' u = gs_held S u \<and> c_released (tt_task (gs_tasks S') u) = c_released (tt_task (gs_tasks S) u)" if "u \<noteq> t" for u
    using execution_released_other [OF fin(1) that] that by (simp add: fin(4,6) task_free_def task_set_finished_def Gt_Task.upd_task_def)
  have st: "gstep (gs_sched S, c) (gs_sched S', c)" unfolding fin(2) by (rule gstep.finish [OF cur])
  have mv: "moves t ST_FINISHED (gs_sched S) (gs_sched S')" unfolding fin(2) by (rule finish_moves)
  show ?thesis by (rule life_ok_task [OF ok st mv _ _ n here there]) (simp_all add: fin(3))
qed

text \<open>Handles: neither retaining nor releasing touches a live task, since its end is not recorded.\<close>

lemma life_release:
  assumes ok: "life_ok S c" and go: "release_handle t S = Some S'"
  shows "life_ok S' c"
proof -
  obtain st tb where rel: "dlsm_gt_task_release (Some t) (gs_tasks S) = Some (st, tb)"
    and S': "S' = (if tt_freed tb \<noteq> tt_freed (gs_tasks S) then S\<lparr>gs_tasks := tb, gs_held := (gs_held S)(t := {})\<rparr> else S\<lparr>gs_tasks := tb\<rparr>)"
    using go by (auto simp: release_handle_def split: option.splits)
  note eff = release_effect [OF rel]
  have "t \<notin> live (gs_sched S)" if "tt_freed tb \<noteq> tt_freed (gs_tasks S)"
    using eff(2) [OF that] life_okD(4) [OF ok, of t] by (auto simp: acct_def)
  then have "acct S' u" for u using life_okD(4) [OF ok, of u] by (auto simp: S' acct_def eff(1))
  then show ?thesis using ok by (simp add: S' life_ok_def groups_counted_def)
qed

lemma life_retain:
  assumes ok: "life_ok S c" and "dlsm_gt_task_retain (Some t) (gs_tasks S) = (st, tb)"
  shows "life_ok (S\<lparr>gs_tasks := tb\<rparr>) c"
proof -
  have "c_released (tt_task tb u) = c_released (tt_task (gs_tasks S) u)" for u
    using assms(2) by (auto simp: dlsm_gt_task_retain_def Gt_Task.upd_task_def split: if_splits)
  then show ?thesis using ok by (simp add: life_ok_def acct_def groups_counted_def)
qed

lemma add_vp_effect:
  assumes "dlsm_gt_runtime_add_vp ok slot out g (Some r) = ((DLSM_OK, Some v), Some r')"
  shows "v = r_nvp r \<and> r_nvp r' = r_nvp r + 1 \<and> r_live r' = r_live r \<and> r_group_nvp r' = (r_group_nvp r)(nat g := r_group_nvp r (nat g) + 1)"
  using assms by (auto simp: dlsm_gt_runtime_add_vp_def Let_def split: if_splits)

lemma life_add_vp:
  assumes ok: "life_ok S c" and go: "dlsm_gt_runtime_add_vp oks slot out g (Some (gs_runtime S)) = ((DLSM_OK, Some v), Some r)"
  shows "life_ok (S\<lparr>gs_runtime := r, gs_sched := (gs_sched S)\<lparr>s_vp := (s_vp (gs_sched S))(v := vp_fresh (nat g)), s_nvp := v + 1\<rparr>\<rparr>) c"
proof -
  note eff = add_vp_effect [OF go]
  note cnt = life_okD(2) [OF ok, unfolded groups_counted_def]
  have v: "v = s_nvp (gs_sched S)" using eff cnt by simp
  let ?s = "(gs_sched S)\<lparr>s_vp := (s_vp (gs_sched S))(v := vp_fresh (nat g)), s_nvp := v + 1\<rparr>"
  have "{u. u < v + 1 \<and> v_group (s_vp ?s u) = k} =
      (if k = nat g then insert v {u. u < v \<and> v_group (s_vp (gs_sched S) u) = k} else {u. u < v \<and> v_group (s_vp (gs_sched S) u) = k})" for k
    by (auto simp: vp_fresh_def)
  then have "groups_counted (S\<lparr>gs_runtime := r, gs_sched := ?s\<rparr>)" using eff cnt v by (simp add: groups_counted_def)
  moreover have "greach (?s, c)" using greach.step [OF life_okD(1) [OF ok] gstep.add_vp] by (simp add: v)
  ultimately show ?thesis using eff life_okD(3,4) [OF ok] by (simp add: life_ok_def acct_def live_def)
qed

lemma life_preserved:
  assumes "life_step x y" and "life_ok (fst x) (snd x)"
  shows "life_ok (fst y) (snd y)"
  using assms
proof (induction rule: life_step.induct)
  case (runtime_op r S c)
  then show ?case by (simp add: life_ok_def acct_def groups_counted_def)
next
  case (add_vp ok slot out g S v r c)
  then show ?case using life_add_vp by simp
qed (auto intro: life_spawn life_pop life_start_turn life_turn life_unpark life_retain life_release)

lemma life_start_ok: "life_start S \<Longrightarrow> life_ok S (\<lambda>_. None)"
  by (auto simp: life_start_def life_ok_def acct_def live_def sched_init_def task_fresh_def intro: greach.init [unfolded sched_init_def task_fresh_def])

lemma life_run_ok:
  assumes "life_step\<^sup>*\<^sup>* x y" and "life_ok (fst x) (snd x)"
  shows "life_ok (fst y) (snd y)"
  using assms by (induction rule: rtranclp_induct) (auto intro: life_preserved)

text \<open>A task that ends while nobody holds a handle loses its block, and its mutex and condition stay initialised in it.\<close>

lemma finish_keeps_mutex:
  assumes "vp_transition TR_FINISH v t now S = Some S'" and "x \<in> {T_mutex, T_cond}"
  shows "x \<in> gs_held S' t \<longleftrightarrow> x \<in> gs_held S t"
proof -
  obtain h b where "gs_held S' = (gs_held S)(t := h)" "h = (if b then without_stack (gs_held S t) - {T_block} else without_stack (gs_held S t))"
    using transition_finish [OF assms(1)] by metis
  then show ?thesis using assms(2) by (auto simp: without_stack_def)
qed

text \<open>
  Claim C12. The accounts of tasks hold at all times, whatever is spawned (with any options and any failing call), run, yielded, parked, unparked,
  finished, retained, released and added, in any order, and whatever address \<open>calloc
\<close> hands out again. The number of live tasks of the runtime, on which its
  stopping depends, is the number of tasks that are ready, running or parked. A task has a stack
  exactly as long as it is one of them, and its block is not given back before: no stack leaks, none is used after
  it was unmapped, and when the runtime counts no task no stack is left (between the steps: a task that ends is counted out just before its stack goes). The scheduler is in a state of \<open>Gt_System\<close>, so that everything proved there holds.
\<close>

theorem life_accounting:
  assumes run: "life_step\<^sup>*\<^sup>* (S0, \<lambda>_. None) (S, c)" and start: "life_start S0"
  shows "greach (gs_sched S, c) \<and> finite (live (gs_sched S)) \<and> r_live (gs_runtime S) = card (live (gs_sched S)) \<and>
    (\<forall>t. has_stack (gs_held S t) \<longleftrightarrow> t \<in> live (gs_sched S)) \<and> (\<forall>t. t \<in> live (gs_sched S) \<longrightarrow> T_block \<in> gs_held S t) \<and>
    (r_live (gs_runtime S) = 0 \<longrightarrow> (\<forall>t. \<not> has_stack (gs_held S t)))"
proof -
  have ok: "life_ok S c" using life_run_ok [OF run] life_start_ok [OF start] by simp
  have acct: "has_stack (gs_held S t) \<longleftrightarrow> t \<in> live (gs_sched S)" "t \<in> live (gs_sched S) \<longrightarrow> T_block \<in> gs_held S t" for t
    using life_okD(4) [OF ok, of t] by (auto simp: acct_def split: if_splits)
  show ?thesis using life_okD(1,3) [OF ok] reach_facts(1) [OF life_okD(1) [OF ok]] acct by simp
qed

lemma spawn_start_life: "life_start spawn_start"
  by (auto simp: life_start_def groups_counted_def spawn_start_def two_vps_groups_def two_vps_def sched_init_def)

theorem life_accounting_witness:
  "\<exists>w S. dlsm_gt_spawn_ex spawn_good_env 131072 False 9 0 None None 1 spawn_start = (Some (5, w), S) \<and>
     r_live (gs_runtime S) = card (live (gs_sched S)) \<and> 5 \<in> live (gs_sched S) \<and> has_stack (gs_held S 5) \<and> T_block \<in> gs_held S 5"
proof -
  have mk: "sv_make spawn_good_env = (\<lambda>w en ar sb. make_stack 4096 test_mmap True w en ar 77 sb (\<lambda>_. 0))" by (simp add: spawn_good_env_def)
  have mk': "\<forall>w en ar sb k m' maps. sv_make spawn_good_env w en ar sb = (Some k, m', maps) \<longrightarrow> maps = {(k_map k, k_map_len k)}"
    unfolding mk using make_stack_maps by blast
  obtain a w sc k S where a: "sv_block spawn_good_env = Some a" and rt: "spawn_route None a k 1 (gs_sched spawn_start) = (w, sc)"
    and go: "dlsm_gt_spawn_ex spawn_good_env 131072 False 9 0 None None 1 spawn_start = (Some (a, w), S)" and sc: "gs_sched S = sc"
    using spawn_start_succeeds
    by (cases rule: spawn_cases [OF mk', where S = spawn_start and rt_stack = 131072 and watermark = False and entry = 9 and arg = 0
        and options = None and caller = None and now = 1]) auto
  have "life_step (spawn_start, \<lambda>_. None) (S, \<lambda>_. None)" by (rule life_step.spawn [OF go _ _ mk]) (simp_all add: spawn_start_def)
  note acc = life_accounting [OF r_into_rtranclp [of life_step, OF this] spawn_start_life]
  have five: "a = 5" using a by (simp add: spawn_good_env_def)
  then have "5 \<in> live (gs_sched S)" using moves_live [OF route_moves [OF rt]] by (simp add: sc)
  then show ?thesis using acc go five by blast
qed

end
