(* ===== verification/Gt_Poll.thy ===== *)
theory Gt_Poll
  imports Gt_Sched
begin

text \<open>
  What a running task does at the scheduler (\<^verbatim>\<open>libs/greenthread/src/greenthread.c\<close>): \<open>dlsm_gt_poll\<close> with its time budget and
  guards, and the turn of \<open>vp_main\<close> that enters a task and comes back, with \<open>errno\<close> kept per task.
\<close>

section \<open>Polling\<close>

text \<open>What polling keeps of a task and of the runtime's counters.\<close>

record poll_task =
  p_guard_depth :: u32
  p_budget :: u64
  p_reported :: bool

record poll_stats =
  ps_polls :: u64
  ps_yields :: u64
  ps_exhaustions :: u64

abbreviation DLSM_GT_POLL_BUDGET_DISABLED :: u64 where "DLSM_GT_POLL_BUDGET_DISABLED \<equiv> UINT64_MAX"

definition poll_has_eligible_task :: "nat \<Rightarrow> nat \<Rightarrow> sched \<Rightarrow> bool" where
  "poll_has_eligible_task v priority s =
     list_ex (\<lambda>p. queue_has_task (Bound v p) (s_rq s) \<or> queue_has_task (Local v p) (s_rq s) \<or> queue_has_task (Group (v_group (s_vp s v)) p) (s_rq s))
       [0..<priority + 1]"

text \<open>
  \<open>self\<close> is the processor and its current task. The answer is the status, whether it yields, and the new counters;
  \<open>now\<close> is 0 when the clock cannot be read.
\<close>

definition dlsm_gt_poll ::
  "(nat \<times> addr) option \<Rightarrow> bool \<Rightarrow> u64 \<Rightarrow> sched \<Rightarrow> poll_task \<Rightarrow> poll_stats \<Rightarrow> dlsm_status \<times> bool \<times> poll_task \<times> poll_stats" where
  "dlsm_gt_poll self cancelled now s k x = (case self of
     None \<Rightarrow> (DLSM_GT_E_STATE, False, k, x)
   | Some (v, t) \<Rightarrow>
       (let x1 = x\<lparr>ps_polls := ps_polls x + 1\<rparr>; started = t_dispatch_started (s_task s t) in
        if cancelled then (DLSM_GT_E_CANCELLED, False, k, x1)
        else if p_guard_depth k \<noteq> 0 then (DLSM_OK, False, k, x1)
        else if p_budget k = DLSM_GT_POLL_BUDGET_DISABLED then (DLSM_OK, False, k, x1)
        else if now = 0 \<or> started = 0 \<or> now - started < p_budget k then (DLSM_OK, False, k, x1)
        else
          (let x2 = (if \<not> p_reported k then x1\<lparr>ps_exhaustions := ps_exhaustions x1 + 1\<rparr> else x1); k2 = k\<lparr>p_reported := True\<rparr> in
           if \<not> poll_has_eligible_task v (t_priority (s_task s t)) s then (DLSM_OK, False, k2, x2)
           else (DLSM_OK, True, k2, x2\<lparr>ps_yields := ps_yields x2 + 1\<rparr>))))"

definition dlsm_gt_poll_guard_enter :: "bool \<Rightarrow> poll_task \<Rightarrow> dlsm_status \<times> poll_task" where
  "dlsm_gt_poll_guard_enter self k =
     (if \<not> self then (DLSM_GT_E_STATE, k)
      else if p_guard_depth k = UINT32_MAX then (DLSM_GT_E_STATE, k)
      else (DLSM_OK, k\<lparr>p_guard_depth := p_guard_depth k + 1\<rparr>))"

definition dlsm_gt_poll_guard_leave :: "bool \<Rightarrow> poll_task \<Rightarrow> dlsm_status \<times> poll_task" where
  "dlsm_gt_poll_guard_leave self k =
     (if \<not> self \<or> p_guard_depth k = 0 then (DLSM_GT_E_STATE, k) else (DLSM_OK, k\<lparr>p_guard_depth := p_guard_depth k - 1\<rparr>))"

text \<open>
  A poll yields exactly when it should: the task is not cancelled, no guard is open, its budget is enabled and used up, and
  a task of its own or a higher priority waits in a queue this processor serves; the exhaustion is counted once
  per time slice.
\<close>

theorem poll_yields_exactly:
  assumes "dlsm_gt_poll (Some (v, t)) cancelled now s k x = (st, yields, k', x')" and "now \<noteq> 0" and "t_dispatch_started (s_task s t) \<le> now"
    and "t_dispatch_started (s_task s t) \<noteq> 0"
  defines "due \<equiv> \<not> cancelled \<and> p_guard_depth k = 0 \<and> p_budget k \<noteq> DLSM_GT_POLL_BUDGET_DISABLED \<and>
    unat (t_dispatch_started (s_task s t)) + unat (p_budget k) \<le> unat now"
  shows "(yields \<longleftrightarrow> due \<and> (\<exists>p \<le> t_priority (s_task s t). \<exists>q \<in> {Bound v p, Local v p, Group (v_group (s_vp s v)) p}. tq_head (rq_queue (s_rq s) q) \<noteq> None)) \<and>
    (st = (if cancelled then DLSM_GT_E_CANCELLED else DLSM_OK)) \<and> ps_polls x' = ps_polls x + 1 \<and>
    ps_exhaustions x' = ps_exhaustions x + (if due \<and> \<not> p_reported k then 1 else 0) \<and> (due \<longrightarrow> p_reported k') \<and>
    p_guard_depth k' = p_guard_depth k"
proof -
  let ?d = "t_dispatch_started (s_task s t)"
  have "unat (now - ?d) = unat now - unat ?d" using assms(3) by (simp add: unat_sub)
  then have b: "unat ?d + unat (p_budget k) \<le> unat now \<longleftrightarrow> \<not> now - ?d < p_budget k"
    using assms(3) by (auto simp: word_less_nat_alt word_le_nat_alt)
  have e: "poll_has_eligible_task v (t_priority (s_task s t)) s \<longleftrightarrow>
      (\<exists>p \<le> t_priority (s_task s t). \<exists>q \<in> {Bound v p, Local v p, Group (v_group (s_vp s v)) p}. tq_head (rq_queue (s_rq s) q) \<noteq> None)"
  proof -
    have "set [0..<t_priority (s_task s t) + 1] = {p. p \<le> t_priority (s_task s t)}" by auto
    then show ?thesis unfolding poll_has_eligible_task_def list_ex_iff queue_has_task_def by (simp only: mem_Collect_eq) blast
  qed
  show ?thesis using assms(1,2,4) unfolding e [symmetric] due_def b
    by (auto simp: dlsm_gt_poll_def Let_def split: if_splits)
qed

text \<open>Balanced guards: any properly nested sequence succeeds and leaves the depth as it was, and inside no poll yields.\<close>

inductive guarded :: "poll_task \<Rightarrow> poll_task \<Rightarrow> bool" where
  none: "guarded k k"
| nest: "dlsm_gt_poll_guard_enter True k = (DLSM_OK, k1) \<Longrightarrow> guarded k1 k2 \<Longrightarrow> dlsm_gt_poll_guard_leave True k2 = (st, k3) \<Longrightarrow> guarded k3 k4 \<Longrightarrow> guarded k k4"

lemma guarded_depth: "guarded k k' \<Longrightarrow> k' = k"
proof (induction rule: guarded.induct)
  case (nest k k1 k2 st k3 k4)
  have k1: "p_guard_depth k \<noteq> UINT32_MAX" "k1 = k\<lparr>p_guard_depth := p_guard_depth k + 1\<rparr>"
    using nest(1) by (auto simp: dlsm_gt_poll_guard_enter_def split: if_splits)
  have "p_guard_depth k1 \<noteq> 0"
  proof
    assume "p_guard_depth k1 = 0"
    then have "p_guard_depth k = - 1" using k1(2) by (simp add: add_eq_0_iff2)
    then show False using k1(1) by simp
  qed
  then have "k3 = k" using nest k1 by (auto simp: dlsm_gt_poll_guard_leave_def split: if_splits)
  then show ?case using nest by simp
qed simp

lemma guard_stops_yield: "p_guard_depth k \<noteq> 0 \<Longrightarrow> \<not> fst (snd (dlsm_gt_poll self cancelled now s k x))"
  by (auto simp: dlsm_gt_poll_def Let_def split: option.splits)

section \<open>The turn of a processor, and errno\<close>

text \<open>
  \<open>errno\<close> belongs to the thread of the processor. \<open>vp_main\<close> exchanges it around every switch into a task; hooks may change it and are undone.
  \<open>E_set\<close> stands for whatever the code that runs on the processor does to \<open>errno\<close>: the task, or between tasks the scheduler.
\<close>

record errno_sys =
  n_errno :: "nat \<Rightarrow> int"
  n_vp_saved :: "nat \<Rightarrow> int"
  n_task_saved :: "addr \<Rightarrow> int"
  n_current :: "nat \<Rightarrow> addr option"

definition vp_enter_task :: "nat \<Rightarrow> addr \<Rightarrow> errno_sys \<Rightarrow> errno_sys" where
  "vp_enter_task v t s = s\<lparr>n_current := (n_current s)(v := Some t), n_vp_saved := (n_vp_saved s)(v := n_errno s v), n_errno := (n_errno s)(v := n_task_saved s t)\<rparr>"

text \<open>The hook leaves some value \<open>x\<close> behind; \<open>vp_main\<close> puts the task's back.\<close>

definition around_hook :: "int \<Rightarrow> nat \<Rightarrow> errno_sys \<Rightarrow> errno_sys" where
  "around_hook x v s = (let task_errno = n_errno s v; s1 = s\<lparr>n_errno := (n_errno s)(v := x)\<rparr> in s1\<lparr>n_errno := (n_errno s1)(v := task_errno)\<rparr>)"

definition vp_leave_task :: "nat \<Rightarrow> addr \<Rightarrow> errno_sys \<Rightarrow> errno_sys" where
  "vp_leave_task v t s = s\<lparr>n_task_saved := (n_task_saved s)(t := n_errno s v), n_errno := (n_errno s)(v := n_vp_saved s v), n_current := (n_current s)(v := None)\<rparr>"

datatype errno_event = E_enter nat addr | E_leave nat | E_hook int nat | E_set nat int

fun errno_run :: "errno_event \<Rightarrow> errno_sys \<Rightarrow> errno_sys" where
  "errno_run (E_enter v t) s = (if n_current s v = None then vp_enter_task v t s else s)"
| "errno_run (E_leave v) s = (case n_current s v of None \<Rightarrow> s | Some t \<Rightarrow> vp_leave_task v t s)"
| "errno_run (E_hook x v) s = around_hook x v s"
| "errno_run (E_set v x) s = s\<lparr>n_errno := (n_errno s)(v := x)\<rparr>"

text \<open>A task is entered by one processor at a time.\<close>

fun errno_legal :: "errno_event \<Rightarrow> errno_sys \<Rightarrow> bool" where
  "errno_legal (E_enter v t) s \<longleftrightarrow> n_current s v = None \<and> (\<forall>w. n_current s w \<noteq> Some t)"
| "errno_legal e s \<longleftrightarrow> True"

text \<open>The specification: each task and each processor has an \<open>errno\<close> of its own, and no other code touches it.\<close>

record errno_spec =
  sp_task :: "addr \<Rightarrow> int"
  sp_vp :: "nat \<Rightarrow> int"
  sp_current :: "nat \<Rightarrow> addr option"

fun spec_run :: "errno_event \<Rightarrow> errno_spec \<Rightarrow> errno_spec" where
  "spec_run (E_enter v t) a = a\<lparr>sp_current := (sp_current a)(v := Some t)\<rparr>"
| "spec_run (E_leave v) a = a\<lparr>sp_current := (sp_current a)(v := None)\<rparr>"
| "spec_run (E_hook x v) a = a"
| "spec_run (E_set v x) a = (case sp_current a v of
     Some t \<Rightarrow> a\<lparr>sp_task := (sp_task a)(t := x)\<rparr> | None \<Rightarrow> a\<lparr>sp_vp := (sp_vp a)(v := x)\<rparr>)"

definition errno_rel :: "errno_sys \<Rightarrow> errno_spec \<Rightarrow> bool" where
  "errno_rel s a \<longleftrightarrow> n_current s = sp_current a \<and>
     (\<forall>v w t. n_current s v = Some t \<longrightarrow> n_current s w = Some t \<longrightarrow> v = w) \<and>
     (\<forall>v. case n_current s v of None \<Rightarrow> n_errno s v = sp_vp a v | Some t \<Rightarrow> n_errno s v = sp_task a t \<and> n_vp_saved s v = sp_vp a v) \<and>
     (\<forall>t. (\<forall>v. n_current s v \<noteq> Some t) \<longrightarrow> n_task_saved s t = sp_task a t)"

lemma errno_relI:
  assumes "sp_current a = n_current s" and "\<And>v w t. n_current s v = Some t \<Longrightarrow> n_current s w = Some t \<Longrightarrow> v = w"
    and "\<And>v. n_current s v = None \<Longrightarrow> n_errno s v = sp_vp a v"
    and "\<And>v t. n_current s v = Some t \<Longrightarrow> n_errno s v = sp_task a t \<and> n_vp_saved s v = sp_vp a v"
    and "\<And>t. \<forall>v. n_current s v \<noteq> Some t \<Longrightarrow> n_task_saved s t = sp_task a t"
  shows "errno_rel s a"
  unfolding errno_rel_def using assms by (auto split: option.split)

lemma errno_relD:
  assumes "errno_rel s a"
  shows "sp_current a = n_current s" and "n_current s v = Some t \<Longrightarrow> n_current s w = Some t \<Longrightarrow> v = w"
    and "n_current s v = None \<Longrightarrow> n_errno s v = sp_vp a v"
    and "n_current s v = Some t \<Longrightarrow> n_errno s v = sp_task a t \<and> n_vp_saved s v = sp_vp a v"
    and "\<forall>v. n_current s v \<noteq> Some t \<Longrightarrow> n_task_saved s t = sp_task a t"
proof -
  have c: "\<forall>v. case n_current s v of None \<Rightarrow> n_errno s v = sp_vp a v | Some t \<Rightarrow> n_errno s v = sp_task a t \<and> n_vp_saved s v = sp_vp a v"
    using assms unfolding errno_rel_def by blast
  show "n_current s v = None \<Longrightarrow> n_errno s v = sp_vp a v"
    "n_current s v = Some t \<Longrightarrow> n_errno s v = sp_task a t \<and> n_vp_saved s v = sp_vp a v" using c [rule_format, of v] by simp_all
qed (use assms in \<open>auto simp: errno_rel_def\<close>)

lemma errno_step:
  assumes r: "errno_rel s a" and l: "errno_legal ev s"
  shows "errno_rel (errno_run ev s) (spec_run ev a)"
proof -
  note d = errno_relD [OF r]
  show ?thesis
  proof (cases ev)
    case (E_enter v t)
    then have c: "n_current s v = None" "\<And>w. n_current s w \<noteq> Some t" using l by auto
    have run: "errno_run (E_enter v t) s = vp_enter_task v t s" using c(1) by simp
    show ?thesis unfolding E_enter run
    proof (rule errno_relI)
      fix t'
      assume t': "\<forall>w. n_current (vp_enter_task v t s) w \<noteq> Some t'"
      have "n_current s w \<noteq> Some t'" for w using t' [rule_format, of w] c(1) by (cases "w = v") (simp_all add: vp_enter_task_def)
      then show "n_task_saved (vp_enter_task v t s) t' = sp_task (spec_run (E_enter v t) a) t'" using d(5) by (simp add: vp_enter_task_def)
    qed (use c d in \<open>auto simp: vp_enter_task_def split: if_splits\<close>)
  next
    case (E_leave v)
    show ?thesis
    proof (cases "n_current s v")
      case None
      then have "spec_run (E_leave v) a = a" using d(1) by (simp add: fun_upd_idem)
      then show ?thesis using r None E_leave by simp
    next
      case (Some t)
      then have run: "errno_run (E_leave v) s = vp_leave_task v t s" by simp
      have o: "w \<noteq> v \<Longrightarrow> n_current s w \<noteq> Some t" for w using d(2) Some by blast
      show ?thesis unfolding E_leave run
      proof (rule errno_relI)
        fix t'
        assume t': "\<forall>w. n_current (vp_leave_task v t s) w \<noteq> Some t'"
        show "n_task_saved (vp_leave_task v t s) t' = sp_task (spec_run (E_leave v) a) t'"
        proof (cases "t' = t")
          case True
          then show ?thesis using d(4) [OF Some] by (simp add: vp_leave_task_def)
        next
          case False
          have "n_current s w \<noteq> Some t'" for w using t' [rule_format, of w] Some False by (cases "w = v") (simp_all add: vp_leave_task_def)
          then show ?thesis using d(5) False by (simp add: vp_leave_task_def)
        qed
      qed (use Some d in \<open>auto simp: vp_leave_task_def split: if_splits\<close>)
    qed
  next
    case (E_hook x v)
    have "around_hook x v s = s" by (simp add: around_hook_def Let_def)
    then show ?thesis using r E_hook by simp
  next
    case (E_set v x)
    show ?thesis
    proof (cases "n_current s v")
      case None
      then show ?thesis unfolding E_set by (intro errno_relI) (use d in auto)
    next
      case (Some t)
      have "w \<noteq> v \<Longrightarrow> n_current s w \<noteq> Some t" for w using d(2) Some by blast
      then show ?thesis unfolding E_set by (intro errno_relI) (use Some d in auto)
    qed
  qed
qed

inductive errno_history :: "errno_sys \<Rightarrow> errno_spec \<Rightarrow> errno_event list \<Rightarrow> errno_sys \<Rightarrow> errno_spec \<Rightarrow> bool" for s0 a0 where
  nil: "errno_history s0 a0 [] s0 a0"
| snoc: "errno_history s0 a0 evs s a \<Longrightarrow> errno_legal ev s \<Longrightarrow> errno_history s0 a0 (evs @ [ev]) (errno_run ev s) (spec_run ev a)"

text \<open>
  Claim C13. \<open>errno\<close> is a variable of the task: in every history of entries, returns and hooks on any number of processors, the
  running task reads in \<open>errno\<close> what it last wrote, wherever it ran before, and the scheduler what it last wrote.
\<close>

theorem errno_task_local:
  assumes "errno_history s0 a0 evs s a" and "n_current s0 = (\<lambda>_. None)" and "sp_current a0 = (\<lambda>_. None)" and "n_errno s0 = sp_vp a0"
    and "n_task_saved s0 = sp_task a0"
  shows "n_current s = sp_current a \<and> n_errno s v = (case sp_current a v of Some t \<Rightarrow> sp_task a t | None \<Rightarrow> sp_vp a v)"
proof -
  have "errno_rel s a" using assms(1)
  proof (induction rule: errno_history.induct)
    case nil
    show ?case by (rule errno_relI) (use assms(2-5) in auto)
  next
    case (snoc evs s a ev)
    then show ?case using errno_step by blast
  qed
  note d = errno_relD [OF this]
  show ?thesis using d(1) d(3,4) [of v] by (auto split: option.split)
qed

definition errno_start :: errno_sys where
  "errno_start = \<lparr>n_errno = \<lambda>_. 0, n_vp_saved = \<lambda>_. 0, n_task_saved = \<lambda>_. 0, n_current = \<lambda>_. None\<rparr>"

definition errno_spec_start :: errno_spec where
  "errno_spec_start = \<lparr>sp_task = \<lambda>_. 0, sp_vp = \<lambda>_. 0, sp_current = \<lambda>_. None\<rparr>"

theorem errno_task_local_witness:
  "\<exists>s a. errno_history errno_start errno_spec_start [E_enter 1 5, E_set 1 11] s a \<and> n_errno s 1 = 11"
proof -
  define s1 where "s1 = errno_run (E_enter 1 5) errno_start"
  define a1 where "a1 = spec_run (E_enter 1 5) errno_spec_start"
  have "errno_history errno_start errno_spec_start ([] @ [E_enter 1 5]) s1 a1" unfolding s1_def a1_def
    by (rule errno_history.snoc [OF errno_history.nil]) (simp add: errno_start_def)
  then have h: "errno_history errno_start errno_spec_start (([] @ [E_enter 1 5]) @ [E_set 1 11]) (errno_run (E_set 1 11) s1) (spec_run (E_set 1 11) a1)"
    by (rule errno_history.snoc) simp
  have "n_errno (errno_run (E_set 1 11) s1) 1 = (case sp_current (spec_run (E_set 1 11) a1) 1 of Some t \<Rightarrow> sp_task (spec_run (E_set 1 11) a1) t | None \<Rightarrow> sp_vp (spec_run (E_set 1 11) a1) 1)"
    using errno_task_local [OF h, of 1] unfolding errno_start_def errno_spec_start_def by simp
  then have "n_errno (errno_run (E_set 1 11) s1) 1 = 11" by (simp add: a1_def errno_spec_start_def)
  then show ?thesis using h by auto
qed

definition busy_sched :: sched where
  "busy_sched = \<lparr>s_rq = \<lparr>rq_next = \<lambda>_. None, rq_queue = \<lambda>_. \<lparr>tq_head = Some 3, tq_tail = Some 3, tq_size = 1\<rparr>\<rparr>,
     s_task = \<lambda>_. (task_fresh 4 0 None)\<lparr>t_dispatch_started := 10\<rparr>,
     s_vp = \<lambda>_. \<lparr>v_group = 0, v_current = None, v_last_yielded = None, v_local_burst = (\<lambda>_. 0), v_priority_dispatches = 0,
       v_aging_cursor = 1, v_dispatches = 0, v_steals = 0, v_migrations = 0\<rparr>, s_nvp = 1,
     s_stats = \<lparr>st_spawned = 0, st_finished = 0, st_switches = 0, st_yields = 0, st_max_ready_wait = 0, st_aged = 0, st_parks = 0,
        st_unparks = 0, st_steals = 0, st_migrations = 0, st_ready = 0, st_running = 0, st_parked = 0\<rparr>\<rparr>"

theorem poll_yields_exactly_witness:
  "\<exists>st k' x'. dlsm_gt_poll (Some (0, 9)) False 200 busy_sched \<lparr>p_guard_depth = 0, p_budget = 100, p_reported = False\<rparr>
     \<lparr>ps_polls = 0, ps_yields = 0, ps_exhaustions = 0\<rparr> = (st, True, k', x')"
proof -
  let ?k = "\<lparr>p_guard_depth = 0, p_budget = 100, p_reported = False\<rparr>" and ?x = "\<lparr>ps_polls = 0, ps_yields = 0, ps_exhaustions = 0\<rparr>"
  obtain st y k' x' where r: "dlsm_gt_poll (Some (0, 9)) False 200 busy_sched ?k ?x = (st, y, k', x')"
    by (cases "dlsm_gt_poll (Some (0, 9)) False 200 busy_sched ?k ?x")
  then have y using poll_yields_exactly [OF r] by (auto simp: busy_sched_def task_fresh_def)
  then show ?thesis using r by auto
qed

end
