(* ===== verification/Index_Memory.thy ===== *)
theory Index_Memory
  imports Ebr
begin

text \<open>
  The memory of the index (\<^verbatim>\<open>libs/index/src/index.c\<close>): the release of a delta chain, the registration of threads
  with the epochs, and \<open>dlsm_index_free\<close>. Here nodes are cells of a heap with pointers, so that a double free
  or a use after free is an error, \<open>None\<close>; in \<open>Index_Node\<close> the same nodes are values.
\<close>

section \<open>Nodes in memory\<close>

text \<open>
  A delta with its successor and key; a base node with its number of entries, the array, and the fences; the array
  with the keys or separators of its entries, \<open>None\<close> for the first separator of an internal node; anything else.
\<close>

datatype cell = Delta_cell addr addr | Base_cell nat "addr option" "addr option" "addr option" | Ents_cell "addr option list" | Bytes_cell

type_synonym heap = "addr \<Rightarrow> cell option"

text \<open>\<open>free(NULL)\<close> does nothing; freeing what is not allocated is an error.\<close>

definition mem_free :: "addr option \<Rightarrow> heap \<Rightarrow> heap option" where
  "mem_free p h = (case p of None \<Rightarrow> Some h | Some a \<Rightarrow> if h a = None then None else Some (h(a := None)))"

primrec free_list :: "addr option list \<Rightarrow> heap \<Rightarrow> heap option" where
  "free_list [] h = Some h"
| "free_list (p # ps) h = Option.bind (mem_free p h) (free_list ps)"

text \<open>The keys of the entries \<open>0\<close> to \<open>num - 1\<close>; with no entry the array is not read.\<close>

definition entry_keys :: "nat \<Rightarrow> addr option \<Rightarrow> heap \<Rightarrow> addr option list option" where
  "entry_keys num ents h =
     (if num = 0 then Some []
      else (case Option.bind ents h of Some (Ents_cell ks) \<Rightarrow> if num \<le> length ks then Some (take num ks) else None | _ \<Rightarrow> None))"

text \<open>Leaves and internal nodes are released the same way.\<close>

partial_function (option) free_chain :: "addr option \<Rightarrow> heap \<Rightarrow> heap option" where
  "free_chain c h = (case c of
     None \<Rightarrow> Some h
   | Some a \<Rightarrow> (case h a of
       Some (Delta_cell nx key) \<Rightarrow> Option.bind (free_list [Some key, Some a] h) (free_chain (Some nx))
     | Some (Base_cell num ents low high) \<Rightarrow>
         Option.bind (entry_keys num ents h) (\<lambda>ks. free_list (ks @ [ents, low, high, Some a]) h)
     | _ \<Rightarrow> None))"

primrec free_chains :: "addr list \<Rightarrow> heap \<Rightarrow> heap option" where
  "free_chains [] h = Some h"
| "free_chains (a # as) h = Option.bind (free_chain (Some a) h) (free_chains as)"

section \<open>Threads and epochs\<close>

text \<open>What a thread keeps: for each index it has used, the address of its epochs and its slot there.\<close>

record ebr_reg =
  rg_ebr :: addr
  rg_slot :: nat

text \<open>The answer is \<open>None\<close> for \<open>- 1\<close>; \<open>mem\<close> says whether \<open>malloc\<close> succeeds.\<close>

definition ebr_slot :: "addr \<Rightarrow> bool \<Rightarrow> ebr_reg list \<Rightarrow> dlsm_ebr \<Rightarrow> nat option \<times> ebr_reg list \<times> dlsm_ebr" where
  "ebr_slot e mem rs eb = (case find (\<lambda>r. rg_ebr r = e) rs of
     Some r \<Rightarrow> (Some (rg_slot r), rs, eb)
   | None \<Rightarrow> (case ebr_register_from [0..<DLSM_EBR_SLOTS] eb of
       (st, Some i, eb') \<Rightarrow> if \<not> mem then (None, rs, dlsm_ebr_unregister i eb') else (Some i, \<lparr>rg_ebr = e, rg_slot = i\<rparr> # rs, eb')
     | (st, None, eb') \<Rightarrow> (None, rs, eb')))"

fun ebr_unreg_self :: "addr \<Rightarrow> ebr_reg list \<Rightarrow> dlsm_ebr \<Rightarrow> ebr_reg list \<times> dlsm_ebr" where
  "ebr_unreg_self e [] eb = ([], eb)"
| "ebr_unreg_self e (x # rs) eb =
     (if rg_ebr x = e then (rs, dlsm_ebr_unregister (rg_slot x) eb)
      else (case ebr_unreg_self e rs eb of (rs', eb') \<Rightarrow> (x # rs', eb')))"

text \<open>The destructor that runs when a thread exits; writing to epochs that are gone is an error.\<close>

fun ebr_key_dtor :: "ebr_reg list \<Rightarrow> (addr \<Rightarrow> dlsm_ebr option) \<Rightarrow> (addr \<Rightarrow> dlsm_ebr option) option" where
  "ebr_key_dtor [] es = Some es"
| "ebr_key_dtor (r # rs) es = (case es (rg_ebr r) of
     None \<Rightarrow> None
   | Some eb \<Rightarrow> ebr_key_dtor rs (es(rg_ebr r \<mapsto> dlsm_ebr_unregister (rg_slot r) eb)))"

text \<open>The addresses of the object, of its epochs and of its table, the heads in the table, the count of identifiers, and the epochs.\<close>

record index_mem =
  im_self :: addr
  im_epochs :: addr
  im_map :: addr
  im_head :: "nat \<Rightarrow> addr option"
  im_next_pid :: nat
  im_ebr :: dlsm_ebr

text \<open>A chain that was replaced is handed to the epochs; when \<open>malloc\<close> fails it is never freed, as the answer is ignored.\<close>

definition retire_chain :: "bool \<Rightarrow> addr \<Rightarrow> index_mem \<Rightarrow> index_mem" where
  "retire_chain mem c t = t\<lparr>im_ebr := snd (dlsm_ebr_retire (Some c) mem (im_ebr t))\<rparr>"

text \<open>The objects several calls of \<open>dlsm_ebr_try_advance\<close> destroy.\<close>

primrec ebr_advances :: "nat \<Rightarrow> dlsm_ebr \<Rightarrow> obj list \<times> dlsm_ebr" where
  "ebr_advances 0 e = ([], e)"
| "ebr_advances (Suc n) e = (case dlsm_ebr_try_advance e of (xs, e1) \<Rightarrow> (case ebr_advances n e1 of (ys, e2) \<Rightarrow> (xs @ ys, e2)))"

section \<open>Releasing an index\<close>

abbreviation MAP_CAP :: nat where "MAP_CAP \<equiv> 2 ^ 18"

text \<open>The heads the loop releases; reading behind the table is an error.\<close>

definition live_heads :: "index_mem \<Rightarrow> addr list option" where
  "live_heads t = (if im_next_pid t \<le> MAP_CAP then Some (List.map_filter (im_head t) [0..<im_next_pid t]) else None)"

definition dlsm_index_free :: "bool \<Rightarrow> index_mem \<Rightarrow> ebr_reg list \<Rightarrow> heap \<Rightarrow> (ebr_reg list \<times> heap) option" where
  "dlsm_index_free mem t rs h =
     (let (slot, rs1, eb1) = ebr_slot (im_epochs t) mem rs (im_ebr t);
          (retired, rs2) = (if slot \<noteq> None
            then (let (objs, eb2) = ebr_advances 16 eb1 in (objs, fst (ebr_unreg_self (im_epochs t) rs1 eb2)))
            else ([], rs1)) in
      Option.bind (free_chains retired h) (\<lambda>h1.
      Option.bind (live_heads t) (\<lambda>heads.
      Option.bind (free_chains heads h1) (\<lambda>h2.
      Option.bind (free_list [Some (im_map t), Some (im_self t)] h2) (\<lambda>h3. Some (rs2, h3))))))"

section \<open>A chain is released exactly once\<close>

definition somes :: "addr option list \<Rightarrow> addr list" where
  "somes ps = concat (map (\<lambda>p. case p of None \<Rightarrow> [] | Some a \<Rightarrow> [a]) ps)"

lemma somes_simps [simp]: "somes [] = []" "somes (None # ps) = somes ps" "somes (Some a # ps) = a # somes ps" "somes (ps @ qs) = somes ps @ somes qs"
  by (simp_all add: somes_def)

lemma set_somes [simp]: "x \<in> set (somes ps) \<longleftrightarrow> Some x \<in> set ps"
  by (induction ps) (auto simp: somes_def split: option.splits)

definition wipe :: "addr set \<Rightarrow> heap \<Rightarrow> heap" where
  "wipe A h x = (if x \<in> A then None else h x)"

lemma wipe_simps [simp]: "wipe {} h = h" "wipe B (wipe A h) = wipe (A \<union> B) h" "h(a := None) = wipe {a} h"
  by (auto simp: wipe_def)

lemma wipe_other [simp]: "x \<notin> A \<Longrightarrow> wipe A h x = h x"
  by (simp add: wipe_def)

lemma free_list_exact:
  "distinct (somes ps) \<Longrightarrow> (\<And>a. a \<in> set (somes ps) \<Longrightarrow> h a \<noteq> None) \<Longrightarrow> free_list ps h = Some (wipe (set (somes ps)) h)"
proof (induction ps arbitrary: h)
  case Nil
  then show ?case by simp
next
  case (Cons p ps)
  show ?case
  proof (cases p)
    case None
    then show ?thesis using Cons by (simp add: mem_free_def)
  next
    case (Some a)
    have "free_list ps (wipe {a} h) = Some (wipe (set (somes ps)) (wipe {a} h))"
      by (rule Cons.IH) (use Cons.prems Some in \<open>auto simp: wipe_def\<close>)
    moreover have "h a \<noteq> None" using Cons.prems(2) Some by simp
    ultimately show ?thesis using Some by (simp add: mem_free_def)
  qed
qed

text \<open>The cells a chain owns, in the order they are released.\<close>

inductive owns :: "heap \<Rightarrow> addr \<Rightarrow> addr list \<Rightarrow> bool" for h where
  owns_base: "h a = Some (Base_cell num ents low high) \<Longrightarrow> entry_keys num ents h = Some ks \<Longrightarrow> fp = somes (ks @ [ents, low, high, Some a]) \<Longrightarrow>
     distinct fp \<Longrightarrow> (\<And>x. x \<in> set fp \<Longrightarrow> h x \<noteq> None) \<Longrightarrow> owns h a fp"
| owns_delta: "h a = Some (Delta_cell nx key) \<Longrightarrow> owns h nx fp \<Longrightarrow> distinct (key # a # fp) \<Longrightarrow> h key \<noteq> None \<Longrightarrow> owns h a (key # a # fp)"

lemma owns_head: "owns h a fp \<Longrightarrow> a \<in> set fp"
  by (cases rule: owns.cases) auto

lemma owns_allocated: "owns h a fp \<Longrightarrow> x \<in> set fp \<Longrightarrow> h x \<noteq> None"
  by (induction rule: owns.induct) auto

lemma entry_keys_cong: "(\<And>e. ents = Some e \<Longrightarrow> h' e = h e) \<Longrightarrow> entry_keys num ents h' = entry_keys num ents h"
  by (cases ents) (simp_all add: entry_keys_def)

lemma owns_frame: "owns h a fp \<Longrightarrow> (\<And>x. x \<in> set fp \<Longrightarrow> h' x = h x) \<Longrightarrow> owns h' a fp"
proof (induction rule: owns.induct)
  case (owns_base a num ents low high ks fp)
  have "entry_keys num ents h' = entry_keys num ents h" by (rule entry_keys_cong) (use owns_base in auto)
  then show ?case using owns_base by (intro owns.owns_base [of h' a num ents low high ks]) auto
next
  case (owns_delta a nx key fp)
  then show ?case by (intro owns.owns_delta) auto
qed

text \<open>Releasing a chain ends without an error and frees exactly what the chain owns.\<close>

lemma free_chain_exact: "owns h a fp \<Longrightarrow> (\<And>x. x \<in> set fp \<Longrightarrow> h' x = h x) \<Longrightarrow> free_chain (Some a) h' = Some (wipe (set fp) h')"
proof (induction arbitrary: h' rule: owns.induct)
  case (owns_base a num ents low high ks fp)
  have e: "entry_keys num ents h' = Some ks" using entry_keys_cong [of ents h' h num] owns_base by auto
  have "free_list (ks @ [ents, low, high, Some a]) h' = Some (wipe (set fp) h')"
    unfolding owns_base(3) by (rule free_list_exact) (use owns_base in auto)
  moreover have "h' a = Some (Base_cell num ents low high)" using owns_base by simp
  ultimately show ?case using e by (subst free_chain.simps) simp
next
  case (owns_delta a nx key fp)
  have "free_list [Some key, Some a] h' = Some (wipe (set (somes [Some key, Some a])) h')"
    by (rule free_list_exact) (use owns_delta in auto)
  moreover have "free_chain (Some nx) (wipe {key, a} h') = Some (wipe (set fp) (wipe {key, a} h'))"
    by (rule owns_delta(5)) (use owns_delta in \<open>auto simp: wipe_def\<close>)
  moreover have "free_chain (Some a) h' = Option.bind (free_list [Some key, Some a] h') (free_chain (Some nx))"
  proof -
    have "h' a = Some (Delta_cell nx key)" using owns_delta by simp
    then show ?thesis by (subst free_chain.simps) (simp only: option.case cell.case)
  qed
  moreover have "set (somes [Some key, Some a]) = {key, a}" by auto
  ultimately show ?case by (simp only: bind.simps) simp
qed

lemma free_chains_exact:
  assumes "distinct as" and "\<And>a. a \<in> set as \<Longrightarrow> owns h a (F a)" and "\<And>a b. a \<in> set as \<Longrightarrow> b \<in> set as \<Longrightarrow> a \<noteq> b \<Longrightarrow> set (F a) \<inter> set (F b) = {}"
  shows "free_chains as h = Some (wipe (\<Union>a \<in> set as. set (F a)) h)"
  using assms
proof (induction as arbitrary: h)
  case Nil
  then show ?case by simp
next
  case (Cons a as)
  have "free_chain (Some a) h = Some (wipe (set (F a)) h)" by (rule free_chain_exact [OF Cons.prems(2)]) simp_all
  moreover have "free_chains as (wipe (set (F a)) h) = Some (wipe (\<Union>a \<in> set as. set (F a)) (wipe (set (F a)) h))"
  proof (rule Cons.IH)
    fix b
    assume b: "b \<in> set as"
    then have "set (F a) \<inter> set (F b) = {}" using Cons.prems(1,3) by auto
    then show "owns (wipe (set (F a)) h) b (F b)" using b by (intro owns_frame [OF Cons.prems(2) [of b]]) (auto simp: wipe_def)
  qed (use Cons.prems in auto)
  ultimately show ?case by simp
qed

section \<open>Draining the retired chains\<close>

text \<open>Without a reader inside, three advances destroy whatever is retired, each object once.\<close>

definition quiescent :: "dlsm_ebr \<Rightarrow> bool" where
  "quiescent e \<longleftrightarrow> (\<forall>i. eb_local e i = None)"

definition retired_all :: "dlsm_ebr \<Rightarrow> obj list" where
  "retired_all e = eb_retire e ((eb_epoch e + 2) mod 3) @ eb_retire e (eb_epoch e mod 3) @ eb_retire e ((eb_epoch e + 1) mod 3)"

lemma mod3_succ:
  "(g + 2) mod 3 = (if g mod 3 = 0 then 2 else if g mod 3 = 1 then 0 else 1)" "(g + 1) mod 3 = (if g mod 3 = 0 then 1 else if g mod 3 = 1 then 2 else 0)"
  "g mod 3 = 0 \<or> g mod 3 = 1 \<or> g mod 3 = 2" for g :: nat
proof -
  show "(g + 2) mod 3 = (if g mod 3 = 0 then 2 else if g mod 3 = 1 then 0 else 1)" by presburger
  show "(g + 1) mod 3 = (if g mod 3 = 0 then 1 else if g mod 3 = 1 then 2 else 0)" by presburger
  show "g mod 3 = 0 \<or> g mod 3 = 1 \<or> g mod 3 = 2" by linarith
qed

lemma mod3_cover: "{(g + 2) mod 3, g mod 3, (g + 1) mod 3} = {0, 1, 2}" for g :: nat
  unfolding mod3_succ(1,2) using mod3_succ(3) [of g] by auto

lemma set_retired_all: "set (retired_all e) = set (eb_retire e 0) \<union> set (eb_retire e 1) \<union> set (eb_retire e 2)"
proof -
  have "{(eb_epoch e + 2) mod 3, eb_epoch e mod 3, (eb_epoch e + 1) mod 3} = {0, 1, 2}" by (rule mod3_cover)
  moreover have "set (retired_all e) = (\<Union>b \<in> {(eb_epoch e + 2) mod 3, eb_epoch e mod 3, (eb_epoch e + 1) mod 3}. set (eb_retire e b))"
    by (auto simp: retired_all_def)
  ultimately show ?thesis by auto
qed

lemma try_advance_quiescent:
  assumes "quiescent e"
  shows "dlsm_ebr_try_advance e = ebr_take_bucket (eb_epoch e) (ebr_advance_epoch (eb_epoch e) e)" and "quiescent (snd (dlsm_ebr_try_advance e))"
proof -
  have "\<not> list_ex (\<lambda>i. ebr_lingers (eb_epoch e) i e) [0..<DLSM_EBR_SLOTS]"
    using assms by (auto simp: ebr_lingers_def quiescent_def list_ex_iff)
  then show a: "dlsm_ebr_try_advance e = ebr_take_bucket (eb_epoch e) (ebr_advance_epoch (eb_epoch e) e)"
    unfolding dlsm_ebr_try_advance_def Let_def by (rule if_not_P)
  show "quiescent (snd (dlsm_ebr_try_advance e))" unfolding a using assms by (simp add: quiescent_def ebr_take_bucket_def ebr_advance_epoch_def)
qed

text \<open>What the first \<open>n\<close> advances destroy, as a function of the buckets still full.\<close>

lemma advances_Suc:
  assumes "quiescent e"
  shows "fst (ebr_advances (Suc n) e) = eb_retire e ((eb_epoch e + 2) mod 3) @
    fst (ebr_advances n (e\<lparr>eb_epoch := eb_epoch e + 1, eb_retire := (eb_retire e)((eb_epoch e + 2) mod 3 := [])\<rparr>))"
  using try_advance_quiescent(1) [OF assms] by (simp add: ebr_take_bucket_def ebr_advance_epoch_def split: prod.splits)

lemma advances_empty: "quiescent e \<Longrightarrow> (\<And>b. b < 3 \<Longrightarrow> eb_retire e b = []) \<Longrightarrow> fst (ebr_advances n e) = []"
proof (induction n arbitrary: e)
  case (Suc n)
  show ?case unfolding advances_Suc [OF Suc.prems(1)] using Suc by (simp add: quiescent_def)
qed simp

lemma advances_drain:
  assumes "quiescent e"
  shows "fst (ebr_advances (Suc (Suc (Suc n))) e) = retired_all e"
proof -
  let ?g = "eb_epoch e"
  define e1 where "e1 = e\<lparr>eb_epoch := ?g + 1, eb_retire := (eb_retire e)((?g + 2) mod 3 := [])\<rparr>"
  define e2 where "e2 = e1\<lparr>eb_epoch := ?g + 2, eb_retire := (eb_retire e1)(?g mod 3 := [])\<rparr>"
  define e3 where "e3 = e2\<lparr>eb_epoch := ?g + 3, eb_retire := (eb_retire e2)((?g + 1) mod 3 := [])\<rparr>"
  have q: "quiescent e1" "quiescent e2" "quiescent e3" using assms by (simp_all add: quiescent_def e1_def e2_def e3_def)
  have m: "(?g + 3) mod 3 = ?g mod 3" "(?g + 4) mod 3 = (?g + 1) mod 3"
    "?g mod 3 \<noteq> (?g + 2) mod 3" "(?g + 1) mod 3 \<noteq> ?g mod 3" "(?g + 1) mod 3 \<noteq> (?g + 2) mod 3"
  proof -
    have "?g + 4 = (?g + 1) + 3" by simp
    then show "(?g + 3) mod 3 = ?g mod 3" "(?g + 4) mod 3 = (?g + 1) mod 3" by (simp_all only: mod_add_self2)
    show "?g mod 3 \<noteq> (?g + 2) mod 3" "(?g + 1) mod 3 \<noteq> ?g mod 3" "(?g + 1) mod 3 \<noteq> (?g + 2) mod 3"
      unfolding mod3_succ(1,2) using mod3_succ(3) [of ?g] by auto
  qed
  have b: "eb_retire e3 b = []" if "b < 3" for b
  proof -
    have "b \<in> {0, 1, 2}" using that by auto
    then have "b = ?g mod 3 \<or> b = (?g + 1) mod 3 \<or> b = (?g + 2) mod 3" using mod3_cover [of ?g] by blast
    then show ?thesis by (auto simp: e3_def e2_def e1_def)
  qed
  have "fst (ebr_advances (Suc (Suc (Suc n))) e) = eb_retire e ((?g + 2) mod 3) @ fst (ebr_advances (Suc (Suc n)) e1)"
    unfolding e1_def by (rule advances_Suc [OF assms])
  also have "fst (ebr_advances (Suc (Suc n)) e1) = eb_retire e (?g mod 3) @ fst (ebr_advances (Suc n) e2)"
  proof -
    have "eb_epoch e1 + 2 = ?g + 3" by (simp add: e1_def)
    then have "(eb_epoch e1 + 2) mod 3 = ?g mod 3" using m(1) by (simp only:)
    moreover have "eb_retire e1 (?g mod 3) = eb_retire e (?g mod 3)" using m(3) by (simp add: e1_def)
    moreover have "e1\<lparr>eb_epoch := eb_epoch e1 + 1, eb_retire := (eb_retire e1)(?g mod 3 := [])\<rparr> = e2" by (simp add: e2_def e1_def)
    ultimately show ?thesis using advances_Suc [OF q(1), of "Suc n"] by (simp only:)
  qed
  also have "fst (ebr_advances (Suc n) e2) = eb_retire e ((?g + 1) mod 3) @ fst (ebr_advances n e3)"
  proof -
    have "eb_epoch e2 + 2 = ?g + 4" by (simp add: e2_def)
    then have "(eb_epoch e2 + 2) mod 3 = (?g + 1) mod 3" using m(2) by (simp only:)
    moreover have "eb_retire e2 ((?g + 1) mod 3) = eb_retire e ((?g + 1) mod 3)" using m(4,5) by (simp add: e2_def e1_def)
    moreover have "e2\<lparr>eb_epoch := eb_epoch e2 + 1, eb_retire := (eb_retire e2)((?g + 1) mod 3 := [])\<rparr> = e3" by (simp add: e3_def e2_def)
    ultimately show ?thesis using advances_Suc [OF q(2), of n] by (simp only:)
  qed
  also have "fst (ebr_advances n e3) = []" by (rule advances_empty [OF q(3) b])
  finally show ?thesis by (simp add: retired_all_def)
qed

section \<open>Epoch slots\<close>

lemma one_registration:
  assumes "distinct (map rg_ebr (x # rs))" and "r \<in> set rs"
  shows "rg_ebr r \<noteq> rg_ebr x"
proof
  assume "rg_ebr r = rg_ebr x"
  then have "rg_ebr x \<in> rg_ebr ` set rs" using assms(2) by (rule image_eqI [OF sym])
  then show False using assms(1) by simp
qed

lemma register_effect:
  assumes "ebr_register_from is e = (st, io, e')"
  shows "eb_retire e' = eb_retire e" and "eb_epoch e' = eb_epoch e" and "quiescent e \<Longrightarrow> quiescent e'"
    and "io = None \<Longrightarrow> e' = e" and "io = Some i \<Longrightarrow> i \<in> set is \<and> \<not> eb_active e i \<and> eb_active e' = (eb_active e)(i := True)"
  using assms by (induction "is" e arbitrary: st rule: ebr_register_from.induct) (auto simp: quiescent_def split: if_splits)

lemma slot_effect:
  assumes "ebr_slot a mem rs e = (x, rs', e')"
  shows "eb_retire e' = eb_retire e" and "eb_epoch e' = eb_epoch e" and "quiescent e \<Longrightarrow> quiescent e'"
    and "distinct (map rg_ebr rs) \<Longrightarrow> distinct (map rg_ebr rs')"
proof -
  obtain st io e1 where r: "ebr_register_from [0..<DLSM_EBR_SLOTS] e = (st, io, e1)" by (cases "ebr_register_from [0..<DLSM_EBR_SLOTS] e")
  note f = register_effect [OF r]
  have u: "eb_retire (dlsm_ebr_unregister i e1) = eb_retire e1" "eb_epoch (dlsm_ebr_unregister i e1) = eb_epoch e1"
    "quiescent e1 \<Longrightarrow> quiescent (dlsm_ebr_unregister i e1)" for i by (simp_all add: dlsm_ebr_unregister_def quiescent_def)
  show "eb_retire e' = eb_retire e" "eb_epoch e' = eb_epoch e" using assms f(1,2) u
    by (auto simp: ebr_slot_def r split: option.splits if_splits)
  show "quiescent e'" if "quiescent e" using assms f(3) u that by (auto simp: ebr_slot_def r split: option.splits if_splits)
  show "distinct (map rg_ebr rs')" if "distinct (map rg_ebr rs)"
    using assms that by (auto simp: ebr_slot_def r find_None_iff split: option.splits if_splits)
qed

text \<open>What leaving does to the epochs at \<open>a\<close>, when a thread has at most one registration with them.\<close>

definition left_at :: "addr \<Rightarrow> ebr_reg list \<Rightarrow> dlsm_ebr \<Rightarrow> dlsm_ebr" where
  "left_at a rs e = (case find (\<lambda>r. rg_ebr r = a) rs of None \<Rightarrow> e | Some r \<Rightarrow> dlsm_ebr_unregister (rg_slot r) e)"

lemma unreg_self_effect:
  "distinct (map rg_ebr rs) \<Longrightarrow> ebr_unreg_self a rs e = (filter (\<lambda>r. rg_ebr r \<noteq> a) rs, left_at a rs e)"
proof (induction rs)
  case (Cons x rs)
  have "filter (\<lambda>r. rg_ebr r \<noteq> a) rs = rs" if "rg_ebr x = a" using one_registration [OF Cons.prems] that by (auto simp: filter_id_conv)
  then show ?case using Cons by (auto simp: left_at_def)
qed (simp add: left_at_def)

lemma key_dtor_effect:
  "distinct (map rg_ebr rs) \<Longrightarrow> ebr_key_dtor rs es = Some es' \<Longrightarrow> es a = Some e \<Longrightarrow> es' a = Some (left_at a rs e)"
proof (induction rs arbitrary: es e)
  case (Cons x rs)
  obtain e1 where e1: "es (rg_ebr x) = Some e1" "ebr_key_dtor rs (es(rg_ebr x \<mapsto> dlsm_ebr_unregister (rg_slot x) e1)) = Some es'"
    using Cons.prems(2) by (auto split: option.splits)
  show ?case
  proof (cases "rg_ebr x = a")
    case True
    then have "find (\<lambda>r. rg_ebr r = a) rs = None" using one_registration [OF Cons.prems(1)] True by (auto simp: find_None_iff)
    then show ?thesis using Cons.IH [OF _ e1(2)] Cons.prems e1(1) True by (auto simp: left_at_def)
  next
    case False
    then show ?thesis using Cons.IH [OF _ e1(2)] Cons.prems by (auto simp: left_at_def)
  qed
qed (simp add: left_at_def)

text \<open>
  What threads do with the epochs at \<open>a\<close>, from the registrations \<open>T0\<close> the threads have when the epochs are
  initialised: use them, stop using them, exit, and use other indexes; readers, retirers and advancers leave
  the flags alone.
\<close>

inductive slot_reach :: "addr \<Rightarrow> (nat \<Rightarrow> ebr_reg list) \<Rightarrow> (nat \<Rightarrow> ebr_reg list) \<Rightarrow> dlsm_ebr \<Rightarrow> bool" for a T0 where
  sr_init: "slot_reach a T0 T0 dlsm_ebr_init"
| sr_use: "slot_reach a T0 T e \<Longrightarrow> ebr_slot a mem (T t) e = (x, rs', e') \<Longrightarrow> slot_reach a T0 (T(t := rs')) e'"
| sr_leave: "slot_reach a T0 T e \<Longrightarrow> ebr_unreg_self a (T t) e = (rs', e') \<Longrightarrow> slot_reach a T0 (T(t := rs')) e'"
| sr_exit: "slot_reach a T0 T e \<Longrightarrow> ebr_key_dtor (T t) es = Some es' \<Longrightarrow> es a = Some e \<Longrightarrow> es' a = Some e' \<Longrightarrow>
    slot_reach a T0 (T(t := [])) e'"
| sr_other: "slot_reach a T0 T e \<Longrightarrow> b \<noteq> a \<Longrightarrow> ebr_slot b mem (T t) d = (x, rs', d') \<Longrightarrow> slot_reach a T0 (T(t := rs')) e"
| sr_work: "slot_reach a T0 T e \<Longrightarrow> eb_active e' = eb_active e \<Longrightarrow> slot_reach a T0 T e'"

text \<open>No thread has a registration left from an earlier index at the same address, and none has two for one index.\<close>

definition no_stale :: "addr \<Rightarrow> (nat \<Rightarrow> ebr_reg list) \<Rightarrow> bool" where
  "no_stale a T \<longleftrightarrow> (\<forall>t. distinct (map rg_ebr (T t)) \<and> a \<notin> rg_ebr ` set (T t))"

definition regs_ok :: "addr \<Rightarrow> (nat \<Rightarrow> ebr_reg list) \<Rightarrow> dlsm_ebr \<Rightarrow> bool" where
  "regs_ok a T e \<longleftrightarrow> (\<forall>t. distinct (map rg_ebr (T t))) \<and>
     (\<forall>t r. r \<in> set (T t) \<longrightarrow> rg_ebr r = a \<longrightarrow> rg_slot r < DLSM_EBR_SLOTS \<and> eb_active e (rg_slot r)) \<and>
     (\<forall>t u r r'. r \<in> set (T t) \<longrightarrow> r' \<in> set (T u) \<longrightarrow> rg_ebr r = a \<longrightarrow> rg_ebr r' = a \<longrightarrow> rg_slot r = rg_slot r' \<longrightarrow> t = u)"

lemma regs_okD:
  assumes "regs_ok a T e"
  shows "distinct (map rg_ebr (T t))" and "r \<in> set (T t) \<Longrightarrow> rg_ebr r = a \<Longrightarrow> rg_slot r < DLSM_EBR_SLOTS \<and> eb_active e (rg_slot r)"
    and "r \<in> set (T t) \<Longrightarrow> r' \<in> set (T u) \<Longrightarrow> rg_ebr r = a \<Longrightarrow> rg_ebr r' = a \<Longrightarrow> rg_slot r = rg_slot r' \<Longrightarrow> t = u"
  using assms unfolding regs_ok_def by blast+

text \<open>A thread that leaves takes its registration and its flag; the others keep theirs.\<close>

lemma regs_ok_leave:
  assumes ok: "regs_ok a T e" and rs: "set rs' \<subseteq> set (T t)" "distinct (map rg_ebr rs')" "\<And>r. r \<in> set rs' \<Longrightarrow> rg_ebr r \<noteq> a"
  shows "regs_ok a (T(t := rs')) (left_at a (T t) e)"
proof -
  note d = regs_okD [OF ok]
  have act: "eb_active (left_at a (T t) e) (rg_slot r)" if r: "r \<in> set (T u)" "rg_ebr r = a" "u \<noteq> t" for r u
  proof (cases "find (\<lambda>r. rg_ebr r = a) (T t)")
    case None
    then show ?thesis using d(2) [OF r(1,2)] by (simp add: left_at_def)
  next
    case (Some q)
    then have "q \<in> set (T t)" "rg_ebr q = a" by (auto simp: find_Some_iff)
    then have "rg_slot q \<noteq> rg_slot r" using d(3) [of q t r u] r by auto
    then show ?thesis using d(2) [OF r(1,2)] Some by (simp add: left_at_def dlsm_ebr_unregister_def)
  qed
  show ?thesis unfolding regs_ok_def
  proof (intro conjI allI impI)
    show "distinct (map rg_ebr ((T(t := rs')) u))" for u using d(1) rs(2) by simp
    show "rg_slot r < DLSM_EBR_SLOTS" "eb_active (left_at a (T t) e) (rg_slot r)" if "r \<in> set ((T(t := rs')) u)" "rg_ebr r = a" for u r
      using that rs(3) act d(2) by (auto split: if_splits)
    show "u = v" if "r \<in> set ((T(t := rs')) u)" "r' \<in> set ((T(t := rs')) v)" "rg_ebr r = a" "rg_ebr r' = a" "rg_slot r = rg_slot r'" for u v r r'
      using that rs(3) d(3) [of r u r' v] by (auto split: if_splits)
  qed
qed

lemma regs_ok_use:
  assumes ok: "regs_ok a T e" and use: "ebr_slot a mem (T t) e = (x, rs', e')"
  shows "regs_ok a (T(t := rs')) e'"
proof -
  note d = regs_okD [OF ok]
  obtain st io e1 where r: "ebr_register_from [0..<DLSM_EBR_SLOTS] e = (st, io, e1)" by (cases "ebr_register_from [0..<DLSM_EBR_SLOTS] e")
  show ?thesis
  proof (cases "find (\<lambda>r. rg_ebr r = a) (T t)")
    case (Some q)
    then have "rs' = T t" "e' = e" using use by (auto simp: ebr_slot_def)
    then show ?thesis using ok by simp
  next
    case none: None
    show ?thesis
    proof (cases io)
      case None
      then have "rs' = T t" "e' = e" using use none register_effect(4) [OF r] by (auto simp: ebr_slot_def r)
      then show ?thesis using ok by simp
    next
      case (Some i)
      have i: "i < DLSM_EBR_SLOTS" "\<not> eb_active e i" "eb_active e1 = (eb_active e)(i := True)" using register_effect(5) [OF r Some] by auto
      have free: "rg_slot r \<noteq> i" if "r \<in> set (T u)" "rg_ebr r = a" for u r using d(2) [OF that] i(2) by auto
      show ?thesis
      proof (cases mem)
        case False
        then have e': "rs' = T t" "e' = dlsm_ebr_unregister i e1" using use none Some by (auto simp: ebr_slot_def r)
        then have "eb_active e' = eb_active e" using i(2,3) by (simp add: dlsm_ebr_unregister_def fun_upd_idem_iff)
        then show ?thesis using ok e'(1) by (simp add: regs_ok_def)
      next
        case True
        then have e': "rs' = \<lparr>rg_ebr = a, rg_slot = i\<rparr> # T t" "e' = e1" using use none Some by (auto simp: ebr_slot_def r)
        have n: "rg_ebr r \<noteq> a" if "r \<in> set (T t)" for r using none that by (auto simp: find_None_iff)
        have c: "u = t \<and> rg_slot r = i \<or> r \<in> set (T u)" if "r \<in> set ((T(t := rs')) u)" for u r using that e'(1) by (cases "u = t") auto
        show ?thesis unfolding regs_ok_def
        proof (intro conjI allI impI)
          show "distinct (map rg_ebr ((T(t := rs')) u))" for u using d(1) n e'(1) by (auto dest: imageI [of _ _ rg_ebr])
          show "rg_slot r < DLSM_EBR_SLOTS" "eb_active e' (rg_slot r)" if "r \<in> set ((T(t := rs')) u)" "rg_ebr r = a" for u r
            using c [OF that(1)] d(2) [of r u] that(2) i(1,3) e'(2) by auto
          show "u = v" if "r \<in> set ((T(t := rs')) u)" "r' \<in> set ((T(t := rs')) v)" "rg_ebr r = a" "rg_ebr r' = a" "rg_slot r = rg_slot r'" for u v r r'
            using c [OF that(1)] c [OF that(2)] that(3-) free d(3) [of r u r' v] by metis
        qed
      qed
    qed
  qed
qed

lemma slot_reach_ok: "slot_reach a T0 T e \<Longrightarrow> no_stale a T0 \<Longrightarrow> regs_ok a T e"
proof (induction rule: slot_reach.induct)
  case sr_init
  then show ?case by (auto simp: regs_ok_def no_stale_def)
next
  case (sr_use T e mem t x rs' e')
  then show ?case by (intro regs_ok_use) simp_all
next
  case (sr_leave T e t rs' e')
  have e: "rs' = filter (\<lambda>r. rg_ebr r \<noteq> a) (T t)" "e' = left_at a (T t) e"
    using sr_leave.hyps(2) unreg_self_effect [OF regs_okD(1) [OF sr_leave.IH [OF sr_leave.prems]]] by simp_all
  show ?case unfolding e(2) by (rule regs_ok_leave [OF sr_leave.IH [OF sr_leave.prems]]) (use e(1) regs_okD(1) [OF sr_leave.IH [OF sr_leave.prems], of t] in \<open>auto simp: distinct_map_filter\<close>)
next
  case (sr_exit T e t es es' e')
  have "e' = left_at a (T t) e" using key_dtor_effect [OF regs_okD(1) [OF sr_exit.IH [OF sr_exit.prems]] sr_exit.hyps(2,3)] sr_exit.hyps(4) by simp
  then show ?case using regs_ok_leave [OF sr_exit.IH [OF sr_exit.prems], of "[]" t] by (simp add: fun_upd_def)
next
  case (sr_other T e b mem t d x rs' d')
  note k = regs_okD [OF sr_other.IH [OF sr_other.prems]]
  have dist: "distinct (map rg_ebr rs')" by (rule slot_effect(4) [OF sr_other.hyps(3) k(1)])
  have sub: "r \<in> set (T t)" if "r \<in> set rs'" "rg_ebr r = a" for r
    using sr_other.hyps(2,3) that by (auto simp: ebr_slot_def split: option.splits if_splits prod.splits)
  show ?case unfolding regs_ok_def
  proof (intro conjI allI impI)
    show "distinct (map rg_ebr ((T(t := rs')) u))" for u using dist k(1) by simp
    show "rg_slot r < DLSM_EBR_SLOTS" "eb_active e (rg_slot r)" if "r \<in> set ((T(t := rs')) u)" "rg_ebr r = a" for u r
      using that sub k(2) by (auto split: if_splits)
    show "u = v" if "r \<in> set ((T(t := rs')) u)" "r' \<in> set ((T(t := rs')) v)" "rg_ebr r = a" "rg_ebr r' = a" "rg_slot r = rg_slot r'" for u v r r'
      using that sub k(3) [of r u r' v] by (auto split: if_splits)
  qed
next
  case (sr_work T e e')
  then show ?case by (simp add: regs_ok_def)
qed

lemma slot_found:
  assumes "ebr_slot a mem rs e = (Some i, rs', e')"
  shows "\<lparr>rg_ebr = a, rg_slot = i\<rparr> \<in> set rs'"
proof -
  have "\<lparr>rg_ebr = a, rg_slot = rg_slot r\<rparr> = r" if "rg_ebr r = a" for r :: ebr_reg using that by (cases r) simp
  moreover have "r \<in> set rs \<and> rg_ebr r = a" if "find (\<lambda>r. rg_ebr r = a) rs = Some r" for r using that by (auto simp: find_Some_iff)
  ultimately have m: "\<lparr>rg_ebr = a, rg_slot = rg_slot r\<rparr> \<in> set rs" if "find (\<lambda>r. rg_ebr r = a) rs = Some r" for r using that by metis
  show ?thesis
  proof (cases "find (\<lambda>r. rg_ebr r = a) rs")
    case None
    then show ?thesis using assms by (auto simp: ebr_slot_def split: option.splits if_splits prod.splits)
  next
    case (Some r)
    then have "i = rg_slot r" "rs' = rs" using assms by (simp_all add: ebr_slot_def)
    then show ?thesis using m [OF Some] by simp
  qed
qed

text \<open>A thread gets no slot only when there is no memory for its registration or every slot is taken.\<close>

lemma register_none: "ebr_register_from is e = (st, None, e') \<Longrightarrow> i \<in> set is \<Longrightarrow> eb_active e i"
  by (induction "is" e rule: ebr_register_from.induct) (auto split: if_splits)

lemma slot_none:
  assumes "ebr_slot a mem rs e = (None, rs', e')"
  shows "rs' = rs" and "a \<notin> rg_ebr ` set rs" and "eb_active e' = eb_active e" and "mem \<Longrightarrow> i < DLSM_EBR_SLOTS \<Longrightarrow> eb_active e i"
proof -
  obtain st io e1 where r: "ebr_register_from [0..<DLSM_EBR_SLOTS] e = (st, io, e1)" by (cases "ebr_register_from [0..<DLSM_EBR_SLOTS] e")
  have f: "find (\<lambda>r. rg_ebr r = a) rs = None" using assms by (cases "find (\<lambda>r. rg_ebr r = a) rs") (simp_all add: ebr_slot_def)
  then show "a \<notin> rg_ebr ` set rs" by (auto simp: find_None_iff)
  show "rs' = rs" using assms f by (auto simp: ebr_slot_def r split: option.splits if_splits)
  show "eb_active e' = eb_active e"
  proof (cases io)
    case None
    then show ?thesis using assms f register_effect(4) [OF r] by (simp add: ebr_slot_def r)
  next
    case (Some j)
    have "e' = dlsm_ebr_unregister j e1" using assms f Some by (auto simp: ebr_slot_def r split: if_splits)
    then show ?thesis using register_effect(5) [OF r Some] by (simp add: dlsm_ebr_unregister_def fun_upd_idem_iff)
  qed
  show "eb_active e i" if "mem" "i < DLSM_EBR_SLOTS"
  proof (rule register_none)
    show "ebr_register_from [0..<DLSM_EBR_SLOTS] e = (st, None, e1)" using assms f r that(1) by (cases io) (simp_all add: ebr_slot_def)
    show "i \<in> set [0..<DLSM_EBR_SLOTS]" using that(2) by simp
  qed
qed

text \<open>
  Claim C26. Threads use, leave, exit and use other indexes in any order, from a start in which no thread has a
  registration left from an earlier index at the same address. A thread that then uses the index gets an epoch
  slot of its own: the slot is marked active, so that advancers see it, and no other thread has it. It gets
  none (\<open>- 1\<close>) only when there is no memory for the registration or all slots are taken, and then no
  registration and no slot changes.
\<close>

theorem epoch_slots_exclusive:
  assumes "slot_reach a T0 T e" and "no_stale a T0" and "ebr_slot a mem (T t) e = (x, rs', e')"
  shows "case x of
      Some i \<Rightarrow> i < DLSM_EBR_SLOTS \<and> eb_active e' i \<and> (\<forall>u r. u \<noteq> t \<longrightarrow> r \<in> set (T u) \<longrightarrow> rg_ebr r = a \<longrightarrow> rg_slot r \<noteq> i)
    | None \<Rightarrow> rs' = T t \<and> eb_active e' = eb_active e \<and> (mem \<longrightarrow> (\<forall>i < DLSM_EBR_SLOTS. eb_active e i))"
proof (cases x)
  case None
  with slot_none [OF assms(3) [unfolded None]] show ?thesis by simp
next
  case (Some i)
  note d = regs_okD [OF slot_reach_ok [OF sr_use [OF assms(1,3)] assms(2)]]
  have m: "\<lparr>rg_ebr = a, rg_slot = i\<rparr> \<in> set ((T(t := rs')) t)" using slot_found [OF assms(3) [unfolded Some]] by simp
  have "rg_slot r \<noteq> i" if "u \<noteq> t" "r \<in> set (T u)" "rg_ebr r = a" for u r using d(3) [OF m, of r u] that by auto
  then show ?thesis using d(2) [OF m] Some by auto
qed

theorem epoch_slots_exclusive_witness:
  "\<exists>e'. ebr_slot 7 True [\<lparr>rg_ebr = 9, rg_slot = 3\<rparr>] dlsm_ebr_init = (Some 0, [\<lparr>rg_ebr = 7, rg_slot = 0\<rparr>, \<lparr>rg_ebr = 9, rg_slot = 3\<rparr>], e') \<and>
     eb_active e' 0"
proof -
  let ?T = "\<lambda>t :: nat. [\<lparr>rg_ebr = 9, rg_slot = 3\<rparr> :: ebr_reg]"
  have u: "[0..<DLSM_EBR_SLOTS] = 0 # [1..<DLSM_EBR_SLOTS]" by (simp add: upt_rec)
  obtain e' where s: "ebr_slot 7 True (?T 0) dlsm_ebr_init = (Some 0, [\<lparr>rg_ebr = 7, rg_slot = 0\<rparr>, \<lparr>rg_ebr = 9, rg_slot = 3\<rparr>], e')"
    unfolding ebr_slot_def u by (simp add: dlsm_ebr_init_def)
  have "no_stale 7 ?T" by (simp add: no_stale_def)
  from epoch_slots_exclusive [OF sr_init this s] show ?thesis using s by simp
qed

text \<open>
  \<open>dlsm_index_free\<close> takes back the registration of the calling thread only. When another thread has used the index and the memory
  of a new index starts at the same address, \<open>ebr_slot\<close> hands that thread its old slot without registering it: the slot is not
  active, and no advance of the epoch waits for a reader that announces itself there.
\<close>

lemma stale_registration:
  assumes "find (\<lambda>r. rg_ebr r = a) rs = Some r"
  shows "ebr_slot a mem rs dlsm_ebr_init = (Some (rg_slot r), rs, dlsm_ebr_init)" and "\<not> eb_active dlsm_ebr_init (rg_slot r)"
    and "\<not> ebr_lingers g (rg_slot r) (ebr_enter_store (rg_slot r) l dlsm_ebr_init)"
  using assms by (simp_all add: ebr_slot_def dlsm_ebr_init_def ebr_lingers_def ebr_enter_store_def)

text \<open>When such a thread exits after the index is gone, its destructor writes to the freed epochs.\<close>

lemma exit_after_free: "es (rg_ebr r) = None \<Longrightarrow> ebr_key_dtor (r # rs) es = None"
  by simp

section \<open>Releasing an index frees everything once\<close>

lemma free_chains_append: "free_chains (xs @ ys) h = Option.bind (free_chains xs h) (free_chains ys)"
proof (induction xs arbitrary: h)
  case (Cons a xs)
  then show ?case by (cases "free_chain (Some a) h") simp_all
qed simp

lemma retired_all_cases:
  "retired_all e \<in> {eb_retire e 2 @ eb_retire e 0 @ eb_retire e 1, eb_retire e 0 @ eb_retire e 1 @ eb_retire e 2, eb_retire e 1 @ eb_retire e 2 @ eb_retire e 0}"
  unfolding retired_all_def mod3_succ(1,2) using mod3_succ(3) [of "eb_epoch e"] by (elim disjE) (simp_all only: simp_thms if_True if_False insert_iff, simp_all)

text \<open>The chains of an index: in the table, or retired too. \<open>F\<close> is what each of them owns.\<close>

definition table_chains :: "index_mem \<Rightarrow> addr list" where
  "table_chains t = List.map_filter (im_head t) [0..<im_next_pid t]"

definition index_chains :: "index_mem \<Rightarrow> addr list" where
  "index_chains t = eb_retire (im_ebr t) 0 @ eb_retire (im_ebr t) 1 @ eb_retire (im_ebr t) 2 @ table_chains t"

definition separate :: "heap \<Rightarrow> (addr \<Rightarrow> addr list) \<Rightarrow> index_mem \<Rightarrow> bool" where
  "separate h F t \<longleftrightarrow> distinct (index_chains t) \<and> (\<forall>a \<in> set (index_chains t). owns h a (F a)) \<and>
     (\<forall>a \<in> set (index_chains t). \<forall>b \<in> set (index_chains t). a \<noteq> b \<longrightarrow> set (F a) \<inter> set (F b) = {}) \<and>
     im_map t \<noteq> im_self t \<and> h (im_map t) \<noteq> None \<and> h (im_self t) \<noteq> None \<and>
     (\<forall>a \<in> set (index_chains t). im_map t \<notin> set (F a) \<and> im_self t \<notin> set (F a))"

text \<open>
  Claim C25. An index whose mapping table was never exhausted, with no reader left inside, whose chains own disjoint memory, released
  by a thread with at most one registration per index: \<open>dlsm_index_free\<close> ends without a use after free or a double free and frees
  exactly the nodes, keys and arrays of every chain in the table, of every retired chain if the caller has or gets an epoch slot
  (without one the retired chains are never freed), the table and the object; the caller keeps no registration.
\<close>

theorem index_free_exact:
  assumes q: "quiescent (im_ebr t)" and cap: "im_next_pid t \<le> MAP_CAP" and sep: "separate h F t" and dist: "distinct (map rg_ebr rs)"
  shows "\<exists>rs'. dlsm_index_free mem t rs h = Some (rs', wipe ((\<Union>a \<in> set (if fst (ebr_slot (im_epochs t) mem rs (im_ebr t)) = None
      then table_chains t else index_chains t). set (F a)) \<union> {im_map t, im_self t}) h) \<and> im_epochs t \<notin> rg_ebr ` set rs'"
proof -
  obtain x rs1 eb1 where s: "ebr_slot (im_epochs t) mem rs (im_ebr t) = (x, rs1, eb1)" by (cases "ebr_slot (im_epochs t) mem rs (im_ebr t)")
  note f = slot_effect [OF s]
  define freed where "freed = (if x = None then [] else retired_all (im_ebr t))"
  define owned where "owned = (\<Union>a \<in> set (if x = None then table_chains t else index_chains t). set (F a))"
  let ?rs2 = "filter (\<lambda>r. rg_ebr r \<noteq> im_epochs t) rs1"
  have heads: "live_heads t = Some (table_chains t)" using cap by (simp add: live_heads_def table_chains_def)
  have "set (freed @ table_chains t) = set (if x = None then table_chains t else index_chains t)"
    by (auto simp: freed_def set_retired_all index_chains_def)
  then have set: "(\<Union>a \<in> set (freed @ table_chains t). set (F a)) = owned" "set (freed @ table_chains t) \<subseteq> set (index_chains t)"
    by (auto simp: owned_def index_chains_def split: if_splits)
  have d: "distinct (freed @ table_chains t)"
    using retired_all_cases [of "im_ebr t"] sep unfolding separate_def index_chains_def freed_def by (elim insertE) auto
  have own: "owns h a (F a)" "b \<in> set (freed @ table_chains t) \<Longrightarrow> a \<noteq> b \<Longrightarrow> set (F a) \<inter> set (F b) = {}"
    if "a \<in> set (freed @ table_chains t)" for a b
    using sep subsetD [OF set(2)] that unfolding separate_def by blast+
  have "free_chains (freed @ table_chains t) h = Some (wipe owned h)"
    unfolding set(1) [symmetric] by (rule free_chains_exact [OF d own])
  then obtain h1 where h1: "free_chains freed h = Some h1" "free_chains (table_chains t) h1 = Some (wipe owned h)"
    unfolding free_chains_append by (auto simp: bind_eq_Some_conv)
  have out: "im_map t \<notin> owned" "im_self t \<notin> owned"
    unfolding set(1) [symmetric] using sep set(2) by (auto simp: separate_def)
  have "free_list [Some (im_map t), Some (im_self t)] (wipe owned h) = Some (wipe (set (somes [Some (im_map t), Some (im_self t)])) (wipe owned h))"
    by (rule free_list_exact) (use sep out in \<open>auto simp: separate_def\<close>)
  then have fl: "free_list [Some (im_map t), Some (im_self t)] (wipe owned h) = Some (wipe (owned \<union> {im_map t, im_self t}) h)"
    by (simp only: wipe_simps(2)) simp
  have "dlsm_index_free mem t rs h = Some (?rs2, wipe (owned \<union> {im_map t, im_self t}) h)"
  proof (cases "x = None")
    case True
    have "?rs2 = rs1" using slot_none(1,2) [OF s [unfolded True]] by (force simp: filter_id_conv)
    moreover have "free_chains (table_chains t) h = Some (wipe owned h)" using h1 True by (simp add: freed_def)
    ultimately show ?thesis unfolding dlsm_index_free_def
      by (simp only: s True heads fl Let_def prod.case simp_thms if_False free_chains.simps bind.simps)
  next
    case False
    have "fst (ebr_advances 16 eb1) = retired_all eb1"
      using advances_drain [OF f(3) [OF q], of 13] by (simp add: eval_nat_numeral)
    moreover have "retired_all eb1 = retired_all (im_ebr t)" using f(1,2) by (simp add: retired_all_def)
    ultimately obtain eb2 where adv: "ebr_advances 16 eb1 = (freed, eb2)" using False by (metis freed_def prod.collapse)
    have u: "ebr_unreg_self (im_epochs t) rs1 eb2 = (?rs2, left_at (im_epochs t) rs1 eb2)" by (rule unreg_self_effect [OF f(4) [OF dist]])
    show ?thesis
      unfolding dlsm_index_free_def using False by (simp only: s adv u h1 heads fl Let_def prod.case if_True fst_conv bind.simps not_False_eq_True)
  qed
  then show ?thesis unfolding owned_def using s by (intro exI [of _ ?rs2]) auto
qed

text \<open>
  Once the table has been full, \<open>next_pid\<close> exceeds its length, since \<open>alloc_pid\<close> counts before it checks; \<open>dlsm_index_free\<close>
  then reads behind the table.
\<close>

lemma index_free_overrun: "MAP_CAP < im_next_pid t \<Longrightarrow> dlsm_index_free mem t rs h = None"
  by (auto simp: dlsm_index_free_def live_heads_def Let_def split: prod.splits Option.bind_split)

text \<open>An index with one leaf that has one key, under a delta, and a retired leaf without entries.\<close>

definition small_heap :: heap where
  "small_heap = [1 \<mapsto> Bytes_cell, 2 \<mapsto> Bytes_cell, 10 \<mapsto> Delta_cell 11 12, 12 \<mapsto> Bytes_cell, 11 \<mapsto> Base_cell 1 (Some 13) None None,
     13 \<mapsto> Ents_cell [Some 14], 14 \<mapsto> Bytes_cell, 20 \<mapsto> Base_cell 0 None None None]"

definition small_index :: index_mem where
  "small_index = \<lparr>im_self = 1, im_epochs = 1, im_map = 2, im_head = [0 \<mapsto> 10], im_next_pid = 1, im_ebr = ebr_retire_push 20 0 dlsm_ebr_init\<rparr>"

definition small_owned :: "addr \<Rightarrow> addr list" where
  "small_owned a = (if a = 10 then [12, 10, 14, 13, 11] else [20])"

theorem index_free_exact_witness:
  "\<exists>rs'. dlsm_index_free True small_index [] small_heap = Some (rs', \<lambda>_. None)"
proof -
  have chains: "index_chains small_index = [20, 10]"
    by (simp add: index_chains_def table_chains_def small_index_def ebr_retire_push_def dlsm_ebr_init_def map_filter_simps)
  have "owns small_heap 11 [14, 13, 11]"
    by (rule owns_base [of _ _ 1 "Some 13" None None "[Some 14]"]) (auto simp: small_heap_def entry_keys_def)
  then have o: "owns small_heap 10 [12, 10, 14, 13, 11]" by (rule owns_delta [rotated]) (auto simp: small_heap_def)
  have o20: "owns small_heap 20 [20]" by (rule owns_base [of _ _ 0 None None None "[]"]) (auto simp: small_heap_def entry_keys_def)
  have sep: "separate small_heap small_owned small_index"
    unfolding separate_def chains using o o20 by (simp add: small_owned_def small_index_def) (simp add: small_heap_def)
  have q: "quiescent (im_ebr small_index)" by (simp add: quiescent_def small_index_def ebr_retire_push_def dlsm_ebr_init_def)
  have u: "[0..<DLSM_EBR_SLOTS] = 0 # [1..<DLSM_EBR_SLOTS]" by (simp add: upt_rec)
  have slot: "fst (ebr_slot (im_epochs small_index) True [] (im_ebr small_index)) \<noteq> None"
    unfolding ebr_slot_def u by (simp add: small_index_def ebr_retire_push_def dlsm_ebr_init_def)
  have "im_next_pid small_index \<le> MAP_CAP" by (simp add: small_index_def)
  from index_free_exact [OF q this sep, of "[]" True] slot obtain rs' where
    r: "dlsm_index_free True small_index [] small_heap = Some (rs', wipe ((\<Union>a \<in> set (index_chains small_index). set (small_owned a)) \<union> {im_map small_index, im_self small_index}) small_heap)"
    by auto
  have "wipe ((\<Union>a \<in> set (index_chains small_index). set (small_owned a)) \<union> {im_map small_index, im_self small_index}) small_heap = (\<lambda>_. None)"
    unfolding chains by (rule ext) (simp add: wipe_def small_owned_def small_index_def small_heap_def)
  then show ?thesis using r by simp
qed

end
