(* ===== verification/Mysql_Wait.thy ===== *)
theory Mysql_Wait
  imports Gt_Timer
begin

text \<open>
  The adapters that let a database client wait on a green thread (\<^verbatim>\<open>libs/mysql_compat/src/mysql_tcp_wrap.cc\<close>,
  \<^verbatim>\<open>mysql_shm_adapter.cc\<close>): a blocking wait becomes a loop of probes that do not block, with cooperative sleeps of
  at most 100 microseconds in between. What the loops see in one round is a record; the system calls they wrap are
  answers in it. A loop over a list of rounds answers \<open>None\<close> when the list ends before the loop does.
\<close>

unbundle bit_operations_syntax

section \<open>Waiting by probes\<close>

abbreviation kProbeIntervalNs :: u64 where "kProbeIntervalNs \<equiv> 100000"

text \<open>When the next probe is due; \<open>UINT64_MAX\<close> is no deadline.\<close>

definition wake_at :: "u64 \<Rightarrow> u64 \<Rightarrow> u64" where
  "wake_at deadline now = (let w = sat_add now kProbeIntervalNs in if deadline < w then deadline else w)"

definition timed_out :: "u64 \<Rightarrow> u64 \<Rightarrow> bool" where
  "timed_out deadline now \<longleftrightarrow> deadline \<noteq> UINT64_MAX \<and> now \<ge> deadline"

text \<open>
  Clock readings of a loop that sleeps until \<open>wake_at\<close> between two of them: a sleep that succeeds does not return
  early.
\<close>

fun paced :: "u64 \<Rightarrow> u64 list \<Rightarrow> bool" where
  "paced d (a # b # ns) \<longleftrightarrow> wake_at d a \<le> b \<and> paced d (b # ns)"
| "paced d ns \<longleftrightarrow> True"

lemma unat_wake_at: "unat (wake_at d a) = min (unat d) (min (2 ^ 64 - 1) (unat a + 100000))"
  by (auto simp: wake_at_def Let_def word_less_nat_alt unat_sat_add min_def)

lemma wake_at_le: "wake_at d a \<le> d"
  by (simp add: word_le_nat_alt unat_wake_at)

lemma paced_hd: "paced d (a # b # ns) \<Longrightarrow> unat d \<le> unat a + 100000 * Suc n \<Longrightarrow> unat d \<le> unat b + 100000 * n"
  using u64_add_overflow_less [of d] by (auto simp: word_le_nat_alt unat_wake_at)

lemma paced_tl: "paced d (a # ns) \<Longrightarrow> paced d ns"
  by (cases ns) simp_all

text \<open>
  What the two loops share. A round ends the loop when its probe succeeds, the clock cannot be read, the deadline has
  passed or the sleep fails; any other round leads to the next.
\<close>

locale probing =
  fixes loop :: "'r list \<Rightarrow> 'w \<Rightarrow> 'a option"
    and final :: "'r \<Rightarrow> bool"
    and clock :: "'r \<Rightarrow> u64"
    and deadline :: u64
  assumes loop_final: "final r \<or> timed_out deadline (clock r) \<Longrightarrow> \<exists>x. loop (r # rs) w = Some x"
    and loop_more: "\<not> (final r \<or> timed_out deadline (clock r)) \<Longrightarrow> \<exists>w'. loop (r # rs) w = loop rs w'"
begin

text \<open>A loop with a deadline ends after as many rounds as there are probe intervals up to it.\<close>

lemma ends:
  assumes "deadline \<noteq> UINT64_MAX" and "paced deadline (map clock rs)" and "rs \<noteq> []"
    and "unat deadline \<le> unat (clock (hd rs)) + 100000 * n" and "n < length rs"
  shows "\<exists>x. loop rs w = Some x"
  using assms(2-)
proof (induction n arbitrary: rs w)
  case 0
  then obtain r rs' where rs: "rs = r # rs'" by (cases rs) auto
  then have "timed_out deadline (clock r)" using 0 assms(1) by (simp add: timed_out_def word_le_nat_alt)
  then show ?case unfolding rs using loop_final by blast
next
  case (Suc n)
  then obtain r r' rs' where rs: "rs = r # r' # rs'" by (cases rs; cases "tl rs") auto
  show ?case
  proof (cases "final r \<or> timed_out deadline (clock r)")
    case True
    then show ?thesis unfolding rs by (rule loop_final)
  next
    case False
    then obtain w' where w': "loop (r # r' # rs') w = loop (r' # rs') w'" using loop_more by blast
    have "\<exists>x. loop (r' # rs') w' = Some x"
    proof (rule Suc.IH)
      show "paced deadline (map clock (r' # rs'))" using Suc.prems(1) rs by simp
      show "unat deadline \<le> unat (clock (hd (r' # rs'))) + 100000 * n"
        using paced_hd [of deadline "clock r" "clock r'" "map clock rs'" n] Suc.prems(1,3) rs by simp
    qed (use Suc.prems(4) rs in simp_all)
    then show ?thesis unfolding rs w' .
  qed
qed

end

section \<open>Sockets\<close>

abbreviation EIO :: int where "EIO \<equiv> 5"
abbreviation EINVAL :: int where "EINVAL \<equiv> 22"
abbreviation ECANCELED :: int where "ECANCELED \<equiv> 125"
abbreviation MSG_DONTWAIT :: u32 where "MSG_DONTWAIT \<equiv> 0x40"

text \<open>The globals of the wrapper and \<open>errno\<close> of the caller.\<close>

record tcp_wrap =
  g_enabled :: bool
  g_connect_calls :: u64
  g_recv_calls :: u64
  g_send_calls :: u64
  g_wait_calls :: u64
  g_cooperative_sleeps :: u64
  g_errno :: int

text \<open>
  One round: the result of the probe and the \<open>errno\<close> it leaves, the clock, 0 when it cannot be read, the status a
  sleep until an instant answers and the \<open>errno\<close> it leaves.
\<close>

record probe_round =
  r_result :: int
  r_errno :: int
  r_now :: u64
  r_sleep :: "u64 \<Rightarrow> dlsm_status"
  r_sleep_errno :: int

definition applies :: "bool \<Rightarrow> tcp_wrap \<Rightarrow> bool" where
  "applies self g \<longleftrightarrow> g_enabled g \<and> self"

definition millisecond_deadline :: "int \<Rightarrow> u64 \<Rightarrow> u64" where
  "millisecond_deadline timeout_ms now =
     (if timeout_ms < 0 then UINT64_MAX else if now = 0 then 0 else sat_add now (of_int timeout_ms * 1000000))"

text \<open>Seconds and nanoseconds are \<open>long\<close>; the second component is the new \<open>errno\<close>.\<close>

definition timespec_deadline :: "(int \<times> int) option \<Rightarrow> u64 \<Rightarrow> int \<Rightarrow> u64 \<times> int" where
  "timespec_deadline timeout now errno = (case timeout of
     None \<Rightarrow> (UINT64_MAX, errno)
   | Some (sec, nsec) \<Rightarrow>
       if sec < 0 \<or> nsec < 0 \<or> nsec \<ge> 1000000000 then (0, EINVAL)
       else
         (let seconds = (of_int sec :: u64);
              duration = (if seconds \<le> UINT64_MAX div 1000000000 then sat_add (seconds * 1000000000) (of_int nsec) else UINT64_MAX) in
          (if now = 0 then 0 else sat_add now duration, errno)))"

definition cooperative_pause :: "u64 \<Rightarrow> probe_round \<Rightarrow> tcp_wrap \<Rightarrow> int \<times> tcp_wrap" where
  "cooperative_pause deadline r g =
     (if r_now r = 0 then (- 1, g\<lparr>g_errno := EIO\<rparr>)
      else if timed_out deadline (r_now r) then (0, g)
      else
        (let g1 = g\<lparr>g_cooperative_sleeps := g_cooperative_sleeps g + 1, g_errno := r_sleep_errno r\<rparr>;
             status = r_sleep r (wake_at deadline (r_now r)) in
         if status = DLSM_OK then (1, g1)
         else (- 1, g1\<lparr>g_errno := (if status = DLSM_GT_E_CANCELLED then ECANCELED else EIO)\<rparr>)))"

text \<open>The loop of \<open>__wrap_poll\<close> and \<open>__wrap_ppoll\<close>.\<close>

fun poll_loop :: "u64 \<Rightarrow> int \<Rightarrow> probe_round list \<Rightarrow> tcp_wrap \<Rightarrow> (int \<times> tcp_wrap) option" where
  "poll_loop deadline entry_errno [] g = None"
| "poll_loop deadline entry_errno (r # rs) g =
     (let g1 = g\<lparr>g_errno := r_errno r\<rparr> in
      if r_result r \<noteq> 0 then Some (r_result r, if r_result r > 0 then g1\<lparr>g_errno := entry_errno\<rparr> else g1)
      else (case cooperative_pause deadline r g1 of
        (pause, g2) \<Rightarrow>
          if pause \<le> 0 then Some (pause, if pause = 0 then g2\<lparr>g_errno := entry_errno\<rparr> else g2)
          else poll_loop deadline entry_errno rs g2))"

text \<open>\<open>direct\<close> is what the wrapped call answers with the caller's own timeout, and the \<open>errno\<close> it leaves; \<open>now\<close> the clock at entry.\<close>

definition wrap_poll :: "bool \<Rightarrow> int \<times> int \<Rightarrow> u64 \<Rightarrow> int \<Rightarrow> probe_round list \<Rightarrow> tcp_wrap \<Rightarrow> (int \<times> tcp_wrap) option" where
  "wrap_poll self direct now timeout_ms rs g =
     (if \<not> applies self g \<or> timeout_ms = 0 then Some (fst direct, g\<lparr>g_errno := snd direct\<rparr>)
      else
        (let g1 = g\<lparr>g_wait_calls := g_wait_calls g + 1\<rparr>; deadline = millisecond_deadline timeout_ms now in
         if deadline = 0 then Some (- 1, g1\<lparr>g_errno := EIO\<rparr>) else poll_loop deadline (g_errno g1) rs g1))"

definition wrap_ppoll :: "bool \<Rightarrow> int \<times> int \<Rightarrow> u64 \<Rightarrow> (int \<times> int) option \<Rightarrow> probe_round list \<Rightarrow> tcp_wrap \<Rightarrow> (int \<times> tcp_wrap) option" where
  "wrap_ppoll self direct now timeout rs g =
     (if \<not> applies self g \<or> timeout = Some (0, 0) then Some (fst direct, g\<lparr>g_errno := snd direct\<rparr>)
      else
        (let g1 = g\<lparr>g_wait_calls := g_wait_calls g + 1\<rparr> in
         case timespec_deadline timeout now (g_errno g1) of
           (deadline, err) \<Rightarrow>
             if deadline = 0 then Some (- 1, g1\<lparr>g_errno := err\<rparr>) else poll_loop deadline (g_errno g1) rs g1))"

text \<open>The flags the wrapped call gets; connections are only counted.\<close>

definition wrap_connect :: "bool \<Rightarrow> tcp_wrap \<Rightarrow> tcp_wrap" where
  "wrap_connect self g = (if applies self g then g\<lparr>g_connect_calls := g_connect_calls g + 1\<rparr> else g)"

definition wrap_recv :: "bool \<Rightarrow> u32 \<Rightarrow> tcp_wrap \<Rightarrow> u32 \<times> tcp_wrap" where
  "wrap_recv self flags g = (if \<not> applies self g then (flags, g) else (flags OR MSG_DONTWAIT, g\<lparr>g_recv_calls := g_recv_calls g + 1\<rparr>))"

definition wrap_send :: "bool \<Rightarrow> u32 \<Rightarrow> tcp_wrap \<Rightarrow> u32 \<times> tcp_wrap" where
  "wrap_send self flags g = (if \<not> applies self g then (flags, g) else (flags OR MSG_DONTWAIT, g\<lparr>g_send_calls := g_send_calls g + 1\<rparr>))"


definition dlsm_mysql_tcp_wrap_disable :: "tcp_wrap \<Rightarrow> tcp_wrap" where
  "dlsm_mysql_tcp_wrap_disable g = g\<lparr>g_enabled := False\<rparr>"

definition dlsm_mysql_tcp_wrap_get_stats :: "tcp_wrap \<Rightarrow> u64 \<times> u64 \<times> u64 \<times> u64 \<times> u64" where
  "dlsm_mysql_tcp_wrap_get_stats g = (g_connect_calls g, g_recv_calls g, g_send_calls g, g_wait_calls g, g_cooperative_sleeps g)"

section \<open>Shared memory\<close>

datatype adapter_wait_result = VIO_LINUX_SHM_ADAPTER_WOKEN | VIO_LINUX_SHM_ADAPTER_TIMED_OUT | VIO_LINUX_SHM_ADAPTER_ERROR

record shm_adapter =
  a_wait_calls :: u64
  a_cooperative_sleeps :: u64
  a_installed :: bool

record epoch_round =
  e_epoch :: u32
  e_now :: u64
  e_sleep :: "u64 \<Rightarrow> dlsm_status"

text \<open>The instant is computed with an addition that may wrap around and a test that notices it.\<close>

definition adapter_wake_at :: "u64 \<Rightarrow> u64 \<Rightarrow> u64" where
  "adapter_wake_at deadline now =
     (let w = now + kProbeIntervalNs; w = (if w < now then UINT64_MAX else w) in if deadline < w then deadline else w)"

fun adapter_loop :: "u32 \<Rightarrow> u64 \<Rightarrow> epoch_round list \<Rightarrow> shm_adapter \<Rightarrow> (adapter_wait_result \<times> shm_adapter) option" where
  "adapter_loop expected deadline [] a = None"
| "adapter_loop expected deadline (r # rs) a =
     (if e_epoch r \<noteq> expected then Some (VIO_LINUX_SHM_ADAPTER_WOKEN, a)
      else if e_now r = 0 then Some (VIO_LINUX_SHM_ADAPTER_ERROR, a)
      else if deadline \<noteq> UINT64_MAX \<and> e_now r \<ge> deadline then Some (VIO_LINUX_SHM_ADAPTER_TIMED_OUT, a)
      else
        (let a1 = a\<lparr>a_cooperative_sleeps := a_cooperative_sleeps a + 1\<rparr> in
         if e_sleep r (adapter_wake_at deadline (e_now r)) \<noteq> DLSM_OK then Some (VIO_LINUX_SHM_ADAPTER_ERROR, a1) else adapter_loop expected deadline rs a1))"

definition adapter_wait :: "u32 \<Rightarrow> u64 \<Rightarrow> epoch_round list \<Rightarrow> shm_adapter \<Rightarrow> (adapter_wait_result \<times> shm_adapter) option" where
  "adapter_wait expected deadline rs a = adapter_loop expected deadline rs (a\<lparr>a_wait_calls := a_wait_calls a + 1\<rparr>)"

definition dlsm_mysql_shm_adapter_enable :: "shm_adapter \<Rightarrow> shm_adapter" where
  "dlsm_mysql_shm_adapter_enable a = a\<lparr>a_wait_calls := 0, a_cooperative_sleeps := 0, a_installed := True\<rparr>"

definition dlsm_mysql_shm_adapter_disable :: "shm_adapter \<Rightarrow> shm_adapter" where
  "dlsm_mysql_shm_adapter_disable a = a\<lparr>a_installed := False\<rparr>"

text \<open>Both adapters sleep until the same instant.\<close>

lemma adapter_wake_at_eq: "adapter_wake_at d now = wake_at d now"
proof -
  have n: "unat now < 18446744073709551616" using u64_add_overflow_less [of now] by simp
  have "(unat now + 100000) mod 18446744073709551616 < unat now \<longleftrightarrow> 18446744073709551616 \<le> unat now + 100000"
    using n by (cases "unat now + 100000 < 18446744073709551616") (simp_all add: mod_if)
  then have "now + kProbeIntervalNs < now \<longleftrightarrow> UINT64_MAX - now < kProbeIntervalNs"
    using n by (auto simp: word_less_nat_alt unat_word_ariths)
  then show ?thesis by (simp add: adapter_wake_at_def wake_at_def sat_add_def Let_def)
qed

section \<open>The loops end\<close>


definition epoch_final :: "u32 \<Rightarrow> u64 \<Rightarrow> epoch_round \<Rightarrow> bool" where
  "epoch_final expected d r \<longleftrightarrow> e_epoch r \<noteq> expected \<or> e_now r = 0 \<or> \<not> timed_out d (e_now r) \<and> e_sleep r (wake_at d (e_now r)) \<noteq> DLSM_OK"


interpretation shm: probing "adapter_loop expected d" "epoch_final expected d" e_now d for expected d
  by unfold_locales (auto simp: epoch_final_def timed_out_def adapter_wake_at_eq Let_def)

section \<open>What an answer means\<close>



lemma adapter_loop_answer:
  assumes "adapter_loop expected d rs a = Some (x, a')"
  obtains pre r post where "rs = pre @ r # post" and "\<forall>q \<in> set pre. e_epoch q = expected \<and> \<not> timed_out d (e_now q)"
    and "x = VIO_LINUX_SHM_ADAPTER_WOKEN \<longleftrightarrow> e_epoch r \<noteq> expected" and "x = VIO_LINUX_SHM_ADAPTER_TIMED_OUT \<Longrightarrow> timed_out d (e_now r)"
    and "x \<noteq> VIO_LINUX_SHM_ADAPTER_ERROR \<Longrightarrow> a_cooperative_sleeps a' = a_cooperative_sleeps a + of_nat (length pre)"
  using assms
proof (induction expected d rs a arbitrary: thesis rule: adapter_loop.induct)
  case (2 expected d r rs a)
  show ?case
  proof (cases "epoch_final expected d r \<or> timed_out d (e_now r)")
    case True
    then show ?thesis using 2(2) [of "[]" r rs] 2(3) by (auto simp: epoch_final_def timed_out_def adapter_wake_at_eq Let_def split: if_splits)
  next
    case False
    then have c: "\<not> e_epoch r \<noteq> expected" "\<not> e_now r = 0" "\<not> (d \<noteq> UINT64_MAX \<and> d \<le> e_now r)" "\<not> e_sleep r (adapter_wake_at d (e_now r)) \<noteq> DLSM_OK"
      by (auto simp: epoch_final_def timed_out_def adapter_wake_at_eq)
    let ?a1 = "a\<lparr>a_cooperative_sleeps := a_cooperative_sleeps a + 1\<rparr>"
    have l: "adapter_loop expected d rs ?a1 = Some (x, a')" using 2(3) c by (simp add: Let_def)
    show ?thesis
    proof (rule 2(1) [OF c(1-3) refl c(4) _ l])
      fix pre r' post
      assume h: "rs = pre @ r' # post" "\<forall>q \<in> set pre. e_epoch q = expected \<and> \<not> timed_out d (e_now q)"
        "(x = VIO_LINUX_SHM_ADAPTER_WOKEN) = (e_epoch r' \<noteq> expected)" "x = VIO_LINUX_SHM_ADAPTER_TIMED_OUT \<Longrightarrow> timed_out d (e_now r')"
        "x \<noteq> VIO_LINUX_SHM_ADAPTER_ERROR \<Longrightarrow> a_cooperative_sleeps a' = a_cooperative_sleeps ?a1 + of_nat (length pre)"
      show thesis by (rule 2(2) [of "r # pre" r' post]) (use h c False in \<open>auto simp: add.assoc\<close>)
    qed
  qed
qed simp






text \<open>
  A wait on an epoch in shared memory ends as it should: woken exactly when the epoch read differs from the expected
  one, timed out only when the deadline has passed with the epoch unchanged in every probe; and with a deadline it ends,
  after at most one probe per 100 microseconds.
\<close>

theorem adapter_wait_exact:
  assumes "d \<noteq> UINT64_MAX"
  shows "(adapter_wait expected d rs a = Some (x, a') \<longrightarrow>
      (\<exists>pre r post. rs = pre @ r # post \<and> (\<forall>q \<in> set pre. e_epoch q = expected) \<and>
        (x = VIO_LINUX_SHM_ADAPTER_WOKEN \<longleftrightarrow> e_epoch r \<noteq> expected) \<and> (x = VIO_LINUX_SHM_ADAPTER_TIMED_OUT \<longrightarrow> d \<le> e_now r))) \<and>
    (paced d (map e_now rs) \<longrightarrow> unat d \<le> unat (e_now (hd rs)) + 100000 * n \<longrightarrow> n < length rs \<longrightarrow>
      (\<exists>x a'. adapter_wait expected d rs a = Some (x, a')))"
proof -
  let ?a = "a\<lparr>a_wait_calls := a_wait_calls a + 1\<rparr>"
  have answer: "\<exists>pre r post. rs = pre @ r # post \<and> (\<forall>q \<in> set pre. e_epoch q = expected) \<and>
        (x = VIO_LINUX_SHM_ADAPTER_WOKEN \<longleftrightarrow> e_epoch r \<noteq> expected) \<and> (x = VIO_LINUX_SHM_ADAPTER_TIMED_OUT \<longrightarrow> d \<le> e_now r)"
    if w: "adapter_wait expected d rs a = Some (x, a')"
  proof -
    obtain pre r post where p: "rs = pre @ r # post" "\<forall>q \<in> set pre. e_epoch q = expected \<and> \<not> timed_out d (e_now q)"
      "x = VIO_LINUX_SHM_ADAPTER_WOKEN \<longleftrightarrow> e_epoch r \<noteq> expected" "x = VIO_LINUX_SHM_ADAPTER_TIMED_OUT \<Longrightarrow> timed_out d (e_now r)"
      using adapter_loop_answer [OF w [unfolded adapter_wait_def]] by metis
    then show ?thesis unfolding timed_out_def by blast
  qed
  have ends: "\<exists>x a'. adapter_wait expected d rs a = Some (x, a')"
    if p: "paced d (map e_now rs)" "unat d \<le> unat (e_now (hd rs)) + 100000 * n" "n < length rs"
  proof -
    have "rs \<noteq> []" using p(3) by auto
    from shm.ends [OF assms p(1) this p(2,3), of expected ?a] show ?thesis unfolding adapter_wait_def by auto
  qed
  show ?thesis using answer ends by blast
qed

theorem adapter_wait_exact_witness:
  "\<exists>x a'. adapter_wait 5 250 [\<lparr>e_epoch = 5, e_now = 100, e_sleep = \<lambda>_. DLSM_OK\<rparr>, \<lparr>e_epoch = 6, e_now = 250, e_sleep = \<lambda>_. DLSM_OK\<rparr>]
      \<lparr>a_wait_calls = 0, a_cooperative_sleeps = 0, a_installed = True\<rparr> = Some (x, a')"
proof -
  let ?rs = "[\<lparr>e_epoch = 5, e_now = 100, e_sleep = \<lambda>_. DLSM_OK\<rparr>, \<lparr>e_epoch = 6, e_now = 250, e_sleep = \<lambda>_. DLSM_OK\<rparr>] :: epoch_round list"
  have "paced 250 (map e_now ?rs)" by (simp add: wake_at_def sat_add_def)
  moreover have "unat (250 :: u64) \<le> unat (e_now (hd ?rs)) + 100000 * 1" "1 < length ?rs" by simp_all
  moreover have "(250 :: u64) \<noteq> UINT64_MAX" by simp
  ultimately show ?thesis using adapter_wait_exact [of 250 5 ?rs] by blast
qed

section \<open>The two poll calls agree\<close>

lemma timespec_deadline_ms:
  assumes "0 \<le> ms" and "ms < 2 ^ 31" and "now \<noteq> 0"
  shows "timespec_deadline (Some (ms div 1000, ms mod 1000 * 1000000)) now e = (millisecond_deadline ms now, e)"
proof -
  obtain k where k: "ms = int k" using assms(1) nonneg_int_cases by blast
  then have kb: "k < 2147483648" using assms(2) by simp
  have s: "of_int (ms div 1000) = (of_nat (k div 1000) :: u64)" "of_int (ms mod 1000 * 1000000) = (of_nat (k mod 1000 * 1000000) :: u64)"
    "of_int ms * 1000000 = (of_nat (k * 1000000) :: u64)"
  proof -
    have "ms div 1000 = int (k div 1000)" "ms mod 1000 * 1000000 = int (k mod 1000 * 1000000)" unfolding k by (simp_all add: zdiv_int zmod_int)
    then show "of_int (ms div 1000) = (of_nat (k div 1000) :: u64)" "of_int (ms mod 1000 * 1000000) = (of_nat (k mod 1000 * 1000000) :: u64)"
      by (simp_all only: of_int_of_nat_eq)
    show "of_int ms * 1000000 = (of_nat (k * 1000000) :: u64)" unfolding k by simp
  qed
  have b: "k div 1000 < 2147484" "k mod 1000 < 1000" using kb by simp_all
  have u: "unat (of_nat n :: u64) = n" if "n < 2 ^ 64" for n using that by (simp add: unsigned_of_nat take_bit_nat_eq_self)
  have us: "unat (of_nat (k div 1000) :: u64) = k div 1000" by (rule u) (use b in simp)
  have prod: "of_nat (k div 1000) * 1000000000 = (of_nat (k div 1000 * 1000000000) :: u64)" by simp
  have up: "unat (of_nat (k div 1000 * 1000000000) :: u64) = k div 1000 * 1000000000" by (rule u) (use b in simp)
  have un: "unat (of_nat (k mod 1000 * 1000000) :: u64) = k mod 1000 * 1000000" by (rule u) (use b in simp)
  have ut: "unat (of_nat (k * 1000000) :: u64) = k * 1000000" by (rule u) (use kb in simp)
  have small: "(of_nat (k div 1000) :: u64) \<le> UINT64_MAX div 1000000000"
    unfolding word_le_nat_alt us unat_div_distrib using b by simp
  have "unat (sat_add (of_nat (k div 1000 * 1000000000)) (of_nat (k mod 1000 * 1000000)) :: u64) = k * 1000000"
  proof -
    have "k div 1000 * 1000000000 + k mod 1000 * 1000000 = (k div 1000 * 1000 + k mod 1000) * 1000000" by algebra
    also have "\<dots> = k * 1000000" by (simp only: div_mult_mod_eq)
    finally show ?thesis unfolding unat_sat_add up un using kb by simp
  qed
  then have dur: "sat_add (of_nat (k div 1000) * 1000000000) (of_nat (k mod 1000 * 1000000)) = (of_nat (k * 1000000) :: u64)"
    unfolding prod by (metis ut word_unat_eq_iff)
  have "\<not> ms mod 1000 * 1000000 \<ge> 1000000000" "\<not> ms mod 1000 * 1000000 < 0" "\<not> ms div 1000 < 0"
    using assms(1) pos_mod_bound [of 1000 ms] pos_mod_sign [of 1000 ms] by (auto simp: pos_imp_zdiv_neg_iff)
  then show ?thesis unfolding timespec_deadline_def millisecond_deadline_def option.case prod.case s Let_def
    using small dur assms(1,3) by simp
qed

text \<open>
  \<open>ppoll\<close> with a timeout of whole milliseconds behaves as \<open>poll\<close>: the same probes give the same result, \<open>errno\<close>
  and counters.
\<close>

lemma ppoll_as_poll:
  assumes "0 \<le> ms" and "ms < 2 ^ 31" and "now \<noteq> 0"
  shows "wrap_ppoll self direct now (Some (ms div 1000, ms mod 1000 * 1000000)) rs g = wrap_poll self direct now ms rs g"
proof (cases "\<not> applies self g \<or> ms = 0")
  case True
  then show ?thesis by (auto simp: wrap_ppoll_def wrap_poll_def)
next
  case False
  have z: "\<not> (ms div 1000 = 0 \<and> ms mod 1000 = 0)"
  proof
    assume "ms div 1000 = 0 \<and> ms mod 1000 = 0"
    then have "ms = 0" using div_mult_mod_eq [of ms 1000] by (simp del: div_mult_mod_eq)
    then show False using False by simp
  qed
  have "unat (millisecond_deadline ms now) \<noteq> 0" using assms(1,3) unat_gt_0 [of now] by (simp add: millisecond_deadline_def unat_sat_add)
  then have "millisecond_deadline ms now \<noteq> 0" by auto
  moreover have "\<not> (\<not> applies self g \<or> Some (ms div 1000, ms mod 1000 * 1000000) = Some (0, 0))" using False z by simp
  ultimately show ?thesis unfolding wrap_ppoll_def wrap_poll_def timespec_deadline_ms [OF assms] using False by (simp only: if_not_P if_False Let_def prod.case)
qed

text \<open>When the clock cannot be read, \<open>poll\<close> sets \<open>errno\<close>, but \<open>ppoll\<close> fails and leaves the old value.\<close>

lemma ppoll_clock_failure:
  assumes "applies self g" and "0 < sec" and "sec < 2 ^ 31"
  shows "wrap_poll self direct 0 5 rs g = Some (- 1, g\<lparr>g_wait_calls := g_wait_calls g + 1, g_errno := EIO\<rparr>)"
    and "wrap_ppoll self direct 0 (Some (sec, 0)) rs g = Some (- 1, g\<lparr>g_wait_calls := g_wait_calls g + 1\<rparr>)"
  using assms by (simp_all add: wrap_poll_def wrap_ppoll_def millisecond_deadline_def timespec_deadline_def Let_def)

end
