(* ===== verification/Spec2Isabelle.thy ===== *)
theory Spec2Isabelle
  imports Sync_Wait Ticket_Lock Mcs_Lock Ebr Io_Setup Shm_Segment Index_Conc Gt_System Gt_Idle Gt_Runtime Gt_Local Gt_Task Gt_Ticker Gt_Blocking
    Gt_Spawn Gt_Life Gt_Poll Index_Memory Mysql_Wait
begin

text \<open>
  A verification development for dlsm: green threads, their synchronisation, shared memory, a Bw-tree index, asynchronous I/O,
  and adapters for a database client. All paths are under \<^verbatim>\<open>src/\<close>.

  \<^bold>\<open>The program.\<close>
  A runtime (\<^verbatim>\<open>libs/greenthread\<close>) multiplexes tasks with stacks of their own over virtual processors, one thread each. A
  processor takes a task from its queues, switches to it, and on its return queues, parks or releases it. Tasks are parked and
  unparked by the primitives of \<^verbatim>\<open>libs/sync\<close>, by the timer thread, by the blocking pool and by the reaper of
  \<^verbatim>\<open>libs/io\<close>. The index (\<^verbatim>\<open>libs/index\<close>) is shared by all threads without locks; it relies on the epochs of
  \<^verbatim>\<open>libs/sync\<close>. Segments (\<^verbatim>\<open>libs/shm\<close>) are shared between processes. \<^verbatim>\<open>libs/mysql_compat\<close> turns blocking waits of a
  client library into cooperative sleeps.

  \<^bold>\<open>How code is modelled.\<close>
  A structure is a record, an enumeration a datatype, a function of the source a function on the state under its own name, with
  every early return and error code. Pointers to objects are addresses, \<open>None\<close> for \<open>NULL\<close>; linked lists keep their pointers,
  and representation predicates say which sequence they hold. Machine integers are words where they can wrap around and natural
  numbers or integers where the code bounds them. Concurrent code is a step relation: a step is one atomic access, or one section under a
  lock; a claim about every interleaving is an invariant proved by rule induction. Locks that only protect a section appear in the models of the
  locks and not in their users. Memory is sequentially consistent; the effect of weaker orders is not modelled.
  What is not in the repository is a parameter: clocks, \<open>malloc\<close>, \<open>mmap\<close> and thread creation are answers of the environment, the
  kernel's side of a ring is a step of the environment, and destructors, hooks and jobs may do anything the text of their theory
  allows them.

  \<^bold>\<open>Shared theories.\<close>
  \<^item> \<open>Dlsm_Prelude\<close>: C types, status codes, arithmetic on 64-bit words, fact collections.
  \<^item> \<open>Intrusive_List\<close>: linked lists through pointers, walks and unlinking, and the interface \<open>fifo_queue\<close> (what a pop returns after
    pushes), which the queues of waiters, of ready tasks and of jobs implement; \<open>linked_store\<close> for stores of nodes.
  \<^item> \<open>Fifo_Lock\<close>: the interface of a first-come-first-served lock, implemented by the ticket lock and the MCS lock.

  \<^bold>\<open>Synchronisation\<close> (\<^verbatim>\<open>libs/sync/src\<close>).
  \<^item> \<open>Sync_Base\<close>, \<open>Sync_Mutex\<close> (\<^verbatim>\<open>gt_mutex.c\<close>): the mutex with its queue of waiters on their stacks, timeouts and cancellation.
    Mutual exclusion, no waiter without an owner, refinement of a queueing mutex.
  \<^item> \<open>Sync_Wait\<close> (\<^verbatim>\<open>gt_wait.c\<close>): condition, event, semaphore, wait group and completion. Events, completions and groups share
    the interface \<open>gate\<close>; the semaphore neither loses nor invents permits.
  \<^item> \<open>Ticket_Lock\<close>, \<open>Mcs_Lock\<close> (\<^verbatim>\<open>ticket.c\<close>, \<^verbatim>\<open>mcs.c\<close>): every access is a step, for any number of contexts below
    the bound that 32-bit tickets need.
  \<^item> \<open>Ebr\<close> (\<^verbatim>\<open>ebr.c\<close>): epochs. No object is freed while a reader of it is inside, provided that advancing the epoch and taking the bucket
    is one step; as the source has it, in two, a run that frees too early is exhibited.

  \<^bold>\<open>Green threads\<close> (\<^verbatim>\<open>libs/greenthread/src\<close>).
  \<^item> \<open>Gt_Queue\<close>, \<open>Gt_Sched\<close>, \<open>Gt_Choice\<close>, \<open>Gt_System\<close>: run queues, dispatch, yield, park, unpark, the choice of the next task, and
    all interleavings. Each task is in exactly one place, wake-ups are not lost, tasks run where they may, the choice respects
    priorities, and aging bounds how long lower priorities wait (454 dispatches: seven turns of the cursor of 64 dispatches and the
    passes in between).
  \<^item> \<open>Gt_Idle\<close> (also \<^verbatim>\<open>vp_idle_pthread.c\<close>): spinning, sleeping and waking processors, access by access. No wake-up is lost for one processor
    or for a group in the runs in which no compare-and-swap of a waker falls between the load and the store with which a processor goes to sleep; as the source
    has it, in two accesses that the waker's does not exclude, a run that loses a wake-up is exhibited.
  \<^item> \<open>Gt_Timer\<close>, \<open>Gt_Sleep\<close>, \<open>Gt_Ticker\<close>: the heap of deadlines, which implements the interface \<open>min_queue\<close>, the timer thread, sleeping and tickers.
  \<^item> \<open>Gt_Runtime\<close>: start, stop, wait, run and free of a runtime with every failure of a thread creation, and the failure of an idle wait. One
    caller joins, unless a call falls into the clean-up of a failed start or an idle wait fails; runs with two are exhibited for both.
  \<^item> \<open>Gt_Task\<close>, \<open>Gt_Local\<close>, \<open>Gt_Blocking\<close>: handles, references and completion; task-local storage; the blocking pool.
  \<^item> \<open>Gt_Context\<close> (also \<^verbatim>\<open>context_x86_64.S\<close>): the switch of contexts instruction by instruction, the first frame of a task, the stack with its
    guard page and its high-water mark, on byte-addressed memory.
  \<^item> \<open>Gt_Vps\<close>, \<open>Gt_Create\<close>, \<open>Gt_Setup\<close>: the table of processors, creation and release of runtimes and tasks with every call that
    can fail, option structures as bytes (\<^verbatim>\<open>greenthread.h\<close>), and the checks of a new task.
  \<^item> \<open>Gt_Spawn\<close>: \<open>dlsm_gt_spawn_ex\<close> as a whole, on the states of the components it goes through.
  \<^item> \<open>Gt_Life\<close>: the end of a turn in \<open>vp_main\<close> and the release of handles on the same composed state, with all other steps; live tasks, the count of the runtime and stacks agree.
  \<^item> \<open>Gt_Poll\<close>: polling with budgets and guards, and \<open>errno\<close> as a variable of the task.

  \<^bold>\<open>Index\<close> (\<^verbatim>\<open>libs/index/src/index.c\<close>).
  \<^item> \<open>Index_Node\<close>: keys, whose comparison implements the interface \<open>three_way\<close>, delta chains over immutable bases, both binary searches.
  \<^item> \<open>Index_Tree\<close>, \<open>Index_Inv\<close>, \<open>Index_Smo\<close>: the mapping table, well-formed trees, consolidation, splits and growth of the root, with an answer for
    each allocation. The claims on trees suppose \<open>backed\<close>: the allocations whose failure the source does not test are granted; those it tests
    may be refused. No guard keeps the mapping table from filling: the claims hold of the states in which \<open>next_pid\<close> has not passed its size.
  \<^item> \<open>Index_Ops\<close>: every operation refines a finite map (the interface \<open>kv_map\<close>), searches end, consolidation changes no answer, and what
    goes wrong when the mapping table is full or an untested allocation is refused.
  \<^item> \<open>Index_Conc\<close>: reads that run step by step among writers are linearizable while the mapping table is not exhausted.
  \<^item> \<open>Index_Memory\<close>: the same nodes on a heap; freeing a chain or an index frees each cell once; epoch slots belong to one thread, where no
    registration is left from an earlier index at the same address.

  \<^bold>\<open>I/O, shared memory, adapters.\<close>
  \<^item> \<open>Io_Ring\<close>, \<open>Io_Ops\<close>, \<open>Io_System\<close>, \<open>Io_Setup\<close> (\<^verbatim>\<open>libs/io/src/io.c\<close>): rings with 32-bit indices, slots, the reaper and the operations
    under every interleaving with the kernel, set-up and tear-down.
  \<^item> \<open>Shm_Alloc\<close>, \<open>Shm_Segment\<close> (\<^verbatim>\<open>libs/shm/src/shm.c\<close>): the arena allocator with its compare-and-swap loop, and the life cycle of a segment over
    names, descriptors, locks and mappings, with a fault at any call.
  \<^item> \<open>Mysql_Wait\<close> (\<^verbatim>\<open>libs/mysql_compat/src\<close>): the wrapped calls and the wait on an epoch, two loops behind one interface, \<open>probing\<close>.

  \<^bold>\<open>Bounds.\<close>
  Functions whose recursion is not structural have termination proofs (searches descend levels and move right; scans move towards an end). Walks over pointers are partial
  functions with value \<open>None\<close> when they do not end, and the claims state that they do. Loops over answers of the environment take a list
  of rounds, and the claims give the number of rounds that is enough. The epoch counter is a natural number below \<open>2 ^ 64 - 2\<close>, and at most
  \<open>2 ^ 32\<close> contexts use a ticket lock.

  \<^bold>\<open>Not modelled.\<close>
  Weak memory orders; the annotations for ThreadSanitizer and the injection of faults for tests; the functions that only copy counters or
  pass arguments on (\<open>dlsm_gt_runtime_stats\<close>, \<open>dlsm_gt_runtime_vp_stats\<close>, the \<open>*_init_for_gt\<close> functions, \<open>dlsm_gt_self\<close> and the
  like); message tables; the macros of \<^verbatim>\<open>gt_adapter.h\<close>; examples, benchmarks, tests and build checks. They keep no state and take no
  decision of their own. The failure of \<open>pthread_cond_wait\<close> of an idle processor is part of the life cycle (\<open>Gt_Runtime\<close>) and not of
  the idle steps. A retry after a lost compare-and-swap is not a step of its own, as it changes nothing that others see.

  \<^bold>\<open>Where the code does not do what it means to.\<close>
  Several lemmas exhibit runs that go wrong: a bucket of retired objects taken too late (\<open>Ebr\<close>), a wake-up overwritten by a processor that goes to
  sleep (\<open>Gt_Idle\<close>), threads joined twice (\<open>Gt_Runtime\<close>), a full mapping table (\<open>Index_Ops\<close>,
  \<open>Index_Memory\<close>), refused allocations that are not tested (\<open>Index_Ops\<close>), threads that outlive an index (\<open>Index_Memory\<close>), tasks unparked after they may be gone (\<open>Gt_Task\<close>, \<open>Gt_Blocking\<close>), a reset of a
  ticker that leaves a token (\<open>Gt_Ticker\<close>), lengths cut to 32 bits (\<open>Io_Ops\<close>), and an \<open>errno\<close> left unset (\<open>Mysql_Wait\<close>).
\<close>

end
